(* ===== verification/Prelude.thy ===== *)
theory Prelude
  imports Main "HOL-Library.Word"
begin

text \<open>
  Shared material: the collections of rewrite rules the component theories fill, and the
  generic lemmas on words, bits and lists they use. \<open>byte_simps\<close> holds the rules that
  push the byte accessor through word operations; \<open>slot_simps\<close> those that describe a
  bucket of slots; \<open>model_defs\<close> the definitions unfolded when a witness evaluates the
  model at a concrete input.
\<close>

unbundle bit_operations_syntax

named_theorems byte_simps \<open>the byte accessor over word operations\<close>
named_theorems slot_simps \<open>slots of a bucket\<close>
named_theorems model_defs \<open>definitions to unfold for evaluation\<close>

type_synonym u8 = "8 word"
type_synonym u64 = "64 word"

section \<open>Subtracting one, bit by bit\<close>

text \<open>Subtracting one flips every bit up to and including the lowest set one.\<close>

lemma bit_int_minus_one:
  fixes x :: int
  shows "bit (x - 1) k \<longleftrightarrow> (bit x k \<longleftrightarrow> (\<exists>j<k. bit x j))"
proof (induction k arbitrary: x)
  case 0
  then show ?case by (simp add: bit_0)
next
  case (Suc k)
  show ?case
  proof (cases "even x")
    case True
    then have h: "(x - 1) div 2 = x div 2 - 1" by presburger
    have e: "(\<exists>j<Suc k. bit x j) \<longleftrightarrow> (\<exists>j<k. bit (x div 2) j)"
      using True by (auto simp: bit_0 less_Suc_eq_0_disj bit_Suc)
    show ?thesis by (simp add: bit_Suc h Suc.IH e)
  next
    case False
    then have h: "(x - 1) div 2 = x div 2" by presburger
    have "\<exists>j<Suc k. bit x j" using False by (intro exI [of _ 0]) (simp add: bit_0)
    then show ?thesis by (simp add: bit_Suc h)
  qed
qed

lemma bit_word_minus_one:
  fixes x :: "'a::len word"
  assumes "k < LENGTH('a)"
  shows "bit (x - 1) k \<longleftrightarrow> (bit x k \<longleftrightarrow> (\<exists>j<k. bit x j))"
proof -
  have "x - 1 = word_of_int (uint x - 1)" by simp
  then have "bit (x - 1) k \<longleftrightarrow> bit (uint x - 1) k"
    using assms by (metis bit_word_of_int_iff)
  also have "\<dots> \<longleftrightarrow> (bit (uint x) k \<longleftrightarrow> (\<exists>j<k. bit (uint x) j))"
    by (rule bit_int_minus_one)
  also have "\<dots> \<longleftrightarrow> (bit x k \<longleftrightarrow> (\<exists>j<k. bit x j))"
    using assms by (auto simp: bit_uint_iff)
  finally show ?thesis .
qed

lemma upt_split_at:
  assumes "k < n"
  shows "[0..<n] = [0..<k] @ k # [Suc k..<n]"
proof -
  have "[0..<k + (n - k)] = [0..<k] @ [k..<k + (n - k)]" by (rule upt_add_eq_append) simp
  then show ?thesis using assms by (simp add: upt_conv_Cons)
qed

lemma nth_list_update_if: "i < length xs \<Longrightarrow> xs[j := v] ! i = (if i = j then v else xs ! i)"
  by (cases "j < length xs") (simp_all add: nth_list_update)

lemma bit_u8_less: "bit (x :: u8) i \<Longrightarrow> i < 8"
  using bit_imp_le_length [of x i] by simp

lemma unat_exp:
  assumes "e < LENGTH('a)"
  shows "unat (2 ^ e :: 'a::len word) = 2 ^ e"
proof -
  have "(2 :: nat) ^ e < 2 ^ LENGTH('a)" using assms by (rule power_strict_increasing) simp
  then have "unat (word_of_nat (2 ^ e) :: 'a word) = 2 ^ e"
    by (simp only: unsigned_of_nat take_bit_nat_eq_self of_nat_id)
  then show ?thesis by simp
qed

lemma drop_bit_word_le: "drop_bit n x \<le> (x :: 'a::len word)"
proof -
  have "uint (drop_bit n x) = drop_bit n (uint x)"
    by (rule bit_eqI) (auto simp: bit_uint_iff bit_drop_bit_eq dest: bit_imp_le_length)
  also have "\<dots> \<le> uint x"
    using zdiv_mono2 [of "uint x" 1 "2 ^ n"] by (simp add: drop_bit_eq_div)
  finally show ?thesis by (simp add: word_le_def)
qed

text \<open>The set of positions of the bits of a word, which counting and scanning are about.\<close>

definition bits :: "'a::len word \<Rightarrow> nat set" where
  "bits x = {i. bit x i}"

lemma in_bits [simp]: "i \<in> bits x \<longleftrightarrow> bit x i"
  by (simp add: bits_def)

lemma bits_0 [simp]: "bits 0 = {}"
  by (simp add: bits_def)

lemma bits_bounded: "bits (x :: 'a::len word) \<subseteq> {..<LENGTH('a)}"
  by (auto simp: bit_imp_le_length)

lemma finite_bits [simp, intro]: "finite (bits x)"
  using bits_bounded finite_subset by blast

lemma bits_empty_iff [simp]: "bits x = {} \<longleftrightarrow> x = 0"
  by (auto simp: bits_def bit_eq_iff dest: bit_imp_le_length)

lemma bits_eq_iff: "bits x = bits y \<longleftrightarrow> x = y"
  by (auto simp: bits_def bit_eq_iff set_eq_iff dest: bit_imp_le_length)

lemma bits_and_minus_one:
  fixes x :: "'a::len word"
  assumes "x \<noteq> 0"
  shows "bits (x AND (x - 1)) = bits x - {Min (bits x)}"
proof (rule set_eqI)
  fix k
  have ne: "bits x \<noteq> {}" using assms by simp
  have least: "(\<exists>j<k. bit x j) \<longleftrightarrow> k \<noteq> Min (bits x)" if "bit x k"
  proof
    assume "\<exists>j<k. bit x j"
    then show "k \<noteq> Min (bits x)"
      by (metis Min_le finite_bits in_bits leD)
  next
    assume "k \<noteq> Min (bits x)"
    then have "Min (bits x) < k" using that by (simp add: Min_less_iff le_neq_implies_less)
    moreover have "bit x (Min (bits x))" using Min_in [OF finite_bits ne] by simp
    ultimately show "\<exists>j<k. bit x j" by blast
  qed
  show "k \<in> bits (x AND (x - 1)) \<longleftrightarrow> k \<in> bits x - {Min (bits x)}"
    using least bit_word_minus_one [of k x]
    by (auto simp: bit_and_iff dest: bit_imp_le_length)
qed

end
