(* ===== verification/Bytes.thy ===== *)
theory Bytes
  imports Prelude
begin

text \<open>
  Words as sequences of bytes. The word-parallel routines of the library (the bit counting
  fallbacks of stdlib_ext.hpp and the SWAR kernel of kernel.hpp) treat a machine word as a
  vector of bytes; the lemmas here push the byte accessor through each word operation they
  use, with the side conditions under which no carry or borrow crosses a byte.
\<close>

definition byte_of :: "'a::len word \<Rightarrow> nat \<Rightarrow> u8" where
  "byte_of w i = ucast (drop_bit (8 * i) w)"

definition n_bytes :: "'a::len itself \<Rightarrow> nat" where
  "n_bytes _ = LENGTH('a) div 8"

abbreviation whole_bytes :: "'a::len itself \<Rightarrow> bool" where
  "whole_bytes t \<equiv> 8 dvd LENGTH('a)"

lemma bit_byte_of: "bit (byte_of w i) j \<longleftrightarrow> j < 8 \<and> bit w (8 * i + j)"
  by (auto simp: byte_of_def bit_ucast_iff bit_drop_bit_eq)

lemma byte_bound:
  assumes "whole_bytes TYPE('a::len)" and "i < n_bytes TYPE('a)" and "j < 8"
  shows "8 * i + j < LENGTH('a)"
proof -
  from assms(1) obtain m where m: "LENGTH('a) = 8 * m" by (auto elim: dvdE)
  with assms(2,3) show ?thesis by (simp add: n_bytes_def)
qed

lemma n_bytes_pos:
  assumes "whole_bytes TYPE('a::len)"
  shows "0 < n_bytes TYPE('a)"
proof -
  from assms obtain m where m: "LENGTH('a) = 8 * m" by (auto elim: dvdE)
  moreover have "0 < LENGTH('a)" by simp
  ultimately show ?thesis by (simp add: n_bytes_def)
qed

lemma byte_of_beyond:
  fixes w :: "'a::len word"
  assumes "whole_bytes TYPE('a)" and "\<not> i < n_bytes TYPE('a)"
  shows "byte_of w i = 0"
proof (rule bit_eqI)
  fix j
  from assms(1) obtain m where m: "LENGTH('a) = 8 * m" by (auto elim: dvdE)
  have "LENGTH('a) \<le> 8 * i + j" using assms(2) m by (simp add: n_bytes_def)
  then show "bit (byte_of w i) j \<longleftrightarrow> bit (0 :: u8) j"
    by (auto simp: bit_byte_of dest: bit_imp_le_length)
qed

text \<open>Two words with the same bytes are equal.\<close>

lemma word_eq_bytesI:
  fixes x y :: "'a::len word"
  assumes "whole_bytes TYPE('a)"
    and "\<And>i. i < n_bytes TYPE('a) \<Longrightarrow> byte_of x i = byte_of y i"
  shows "x = y"
proof (rule bit_eqI)
  fix k
  assume "possible_bit TYPE('a word) k"
  then have k: "k < LENGTH('a)" by simp
  from assms(1) obtain m where m: "LENGTH('a) = 8 * m" by (auto elim: dvdE)
  have "k div 8 < n_bytes TYPE('a)" using k m by (simp add: n_bytes_def less_mult_imp_div_less)
  then have "bit (byte_of x (k div 8)) (k mod 8) = bit (byte_of y (k div 8)) (k mod 8)"
    by (simp add: assms(2))
  then show "bit x k \<longleftrightarrow> bit y k" by (simp add: bit_byte_of)
qed

section \<open>Bitwise operations act on each byte\<close>

lemma byte_of_0 [byte_simps]: "byte_of 0 i = 0"
  by (simp add: byte_of_def)

lemma byte_of_and [byte_simps]: "byte_of (x AND y) i = byte_of x i AND byte_of y i"
  by (rule bit_eqI) (auto simp: bit_byte_of bit_and_iff)

lemma byte_of_or [byte_simps]: "byte_of (x OR y) i = byte_of x i OR byte_of y i"
  by (rule bit_eqI) (auto simp: bit_byte_of bit_or_iff)

lemma byte_of_xor [byte_simps]: "byte_of (x XOR y) i = byte_of x i XOR byte_of y i"
  by (rule bit_eqI) (auto simp: bit_byte_of bit_xor_iff)

lemma byte_of_not:
  fixes x :: "'a::len word"
  assumes "whole_bytes TYPE('a)" and "i < n_bytes TYPE('a)"
  shows "byte_of (NOT x) i = NOT (byte_of x i)"
  using byte_bound [OF assms]
  by (intro bit_eqI) (auto simp: bit_byte_of bit_not_iff)

text \<open>A right shift whose incoming bits are masked off acts on each byte.\<close>

lemma byte_of_shr_masked:
  fixes x m :: "'a::len word"
  assumes "drop_bit (8 - s) (byte_of m i) = 0"
  shows "byte_of (drop_bit s x AND m) i = drop_bit s (byte_of x i) AND byte_of m i"
proof (rule bit_eqI)
  fix j
  have "\<not> bit (drop_bit (8 - s) (byte_of m i)) (j - (8 - s))" using assms by simp
  then have "8 \<le> j + s \<Longrightarrow> \<not> bit (byte_of m i) j"
    by (auto simp: bit_drop_bit_eq)
  then show "bit (byte_of (drop_bit s x AND m) i) j
      \<longleftrightarrow> bit (drop_bit s (byte_of x i) AND byte_of m i) j"
    by (cases "j + s < 8") (auto simp: bit_byte_of bit_and_iff bit_drop_bit_eq ac_simps)
qed

text \<open>So does a left shift.\<close>

lemma byte_of_shl_masked:
  fixes x m :: "'a::len word"
  assumes "whole_bytes TYPE('a)" and "i < n_bytes TYPE('a)"
    and "take_bit s (byte_of m i) = 0"
  shows "byte_of (push_bit s x AND m) i = push_bit s (byte_of x i) AND byte_of m i"
proof (rule bit_eqI)
  fix j
  have "\<not> bit (take_bit s (byte_of m i)) j" using assms by simp
  then have "j < s \<Longrightarrow> \<not> bit (byte_of m i) j" by (simp add: bit_take_bit_iff)
  then show "bit (byte_of (push_bit s x AND m) i) j
      \<longleftrightarrow> bit (push_bit s (byte_of x i) AND byte_of m i) j"
    using byte_bound [OF assms(1,2), of j]
    by (cases "j < 8"; cases "j < s")
       (auto simp: bit_byte_of bit_and_iff bit_push_bit_iff not_less)
qed

section \<open>Addition and subtraction without carries\<close>

lemma uint_byte_of: "uint (byte_of w i) = uint w div 256 ^ i mod 256"
proof -
  have "uint (byte_of w i) = take_bit 8 (drop_bit (8 * i) (uint w))"
    by (rule bit_eqI) (auto simp: bit_uint_iff bit_byte_of bit_take_bit_iff bit_drop_bit_eq
        dest: bit_imp_le_length)
  also have "\<dots> = (uint w div 2 ^ (8 * i)) mod 2 ^ 8"
    by (simp add: take_bit_eq_mod drop_bit_eq_div [where 'a = int])
  finally show ?thesis by (simp add: power_mult)
qed

text \<open>The bytes of a non-negative integer below position \<open>n\<close>.\<close>

lemma mod_256_Suc:
  fixes a :: int
  shows "a mod 256 ^ Suc n = a mod 256 ^ n + 256 ^ n * (a div 256 ^ n mod 256)"
  by (metis mult.commute power_Suc2 mod_mult2_eq' zmod_zmult2_eq add.commute
      zero_le_power zero_le_numeral)

lemma add_prefix:
  fixes a b :: int
  assumes "\<And>j. j < n \<Longrightarrow> a div 256 ^ j mod 256 + b div 256 ^ j mod 256 < 256"
  shows "(a mod 256 ^ n + b mod 256 ^ n) < 256 ^ n"
  using assms
proof (induction n)
  case 0
  then show ?case by simp
next
  case (Suc n)
  let ?d = "a div 256 ^ n mod 256 + b div 256 ^ n mod 256"
  have ih: "a mod 256 ^ n + b mod 256 ^ n < 256 ^ n" by (rule Suc.IH) (simp add: Suc.prems)
  have d: "?d \<le> 255" using Suc.prems [of n] by simp
  have "a mod 256 ^ Suc n + b mod 256 ^ Suc n
      = (a mod 256 ^ n + b mod 256 ^ n) + 256 ^ n * ?d"
    by (simp only: mod_256_Suc) (simp add: algebra_simps)
  also have "\<dots> < 256 ^ n + 256 ^ n * 255"
    using ih d by (intro add_less_le_mono mult_left_mono) auto
  finally show ?case by simp
qed

lemma add_digit:
  fixes a b :: int
  assumes "\<And>j. j \<le> n \<Longrightarrow> a div 256 ^ j mod 256 + b div 256 ^ j mod 256 < 256"
  shows "(a + b) div 256 ^ n mod 256 = a div 256 ^ n mod 256 + b div 256 ^ n mod 256"
proof -
  let ?p = "256 ^ n :: int"
  have low: "a mod ?p + b mod ?p < ?p" by (rule add_prefix) (simp add: assms)
  have "a + b = (a mod ?p + b mod ?p) + ?p * (a div ?p + b div ?p)"
    by (simp add: algebra_simps)
  moreover have "((a mod ?p + b mod ?p) + ?p * (a div ?p + b div ?p)) div ?p
      = (a div ?p + b div ?p) + (a mod ?p + b mod ?p) div ?p"
    by (rule div_mult_self2) simp
  ultimately have "(a + b) div ?p = (a mod ?p + b mod ?p) div ?p + (a div ?p + b div ?p)"
    by (simp only: add.commute)
  also have "(a mod ?p + b mod ?p) div ?p = 0"
    using low by (simp add: div_pos_pos_trivial)
  finally have "(a + b) div ?p mod 256 = (a div ?p mod 256 + b div ?p mod 256) mod 256"
    by (simp add: mod_simps)
  then show ?thesis using assms [of n] by simp
qed

lemma n_bytes_power: "whole_bytes TYPE('a::len) \<Longrightarrow> (256 :: int) ^ n_bytes TYPE('a) = 2 ^ LENGTH('a)"
  by (auto simp: n_bytes_def power_mult elim!: dvdE)

lemma mod_digit:
  fixes a :: int
  assumes "i < m"
  shows "a mod 256 ^ m div 256 ^ i mod 256 = a div 256 ^ i mod 256"
proof -
  have "(256 :: int) ^ m = 256 ^ i * 256 ^ (m - i)" using assms by (simp flip: power_add)
  then have "a mod 256 ^ m div 256 ^ i = a div 256 ^ i mod 256 ^ (m - i)"
    by (simp add: zmod_zmult2_eq)
  moreover have "(256 :: int) dvd 256 ^ (m - i)" using assms by simp
  ultimately show ?thesis by (simp add: mod_mod_cancel)
qed

text \<open>Bytes add up independently when no byte sum up to this one overflows.\<close>

lemma byte_of_add:
  fixes x y :: "'a::len word"
  assumes w: "whole_bytes TYPE('a)" and i: "i < n_bytes TYPE('a)"
    and nc: "\<And>j. j \<le> i \<Longrightarrow> uint (byte_of x j) + uint (byte_of y j) < 256"
  shows "byte_of (x + y) i = byte_of x i + byte_of y i"
proof -
  have "uint (byte_of (x + y) i) = (uint x + uint y) mod 256 ^ n_bytes TYPE('a) div 256 ^ i mod 256"
    by (simp add: uint_byte_of uint_word_ariths n_bytes_power [OF w])
  also have "\<dots> = (uint x + uint y) div 256 ^ i mod 256" by (rule mod_digit [OF i])
  also have "\<dots> = uint (byte_of x i) + uint (byte_of y i)"
    using nc by (simp add: uint_byte_of add_digit)
  also have "\<dots> = uint (byte_of x i + byte_of y i)"
    using nc [of i] by (simp add: uint_word_ariths)
  finally show ?thesis by (simp add: word_uint_eq_iff)
qed

text \<open>Subtraction, with the borrow out of the lower bytes written out.\<close>

lemma diff_digit:
  fixes a b :: int
  shows "(a - b) div 256 ^ n mod 256
    = (a div 256 ^ n - b div 256 ^ n - (if a mod 256 ^ n < b mod 256 ^ n then 1 else 0)) mod 256"
proof -
  let ?p = "256 ^ n :: int"
  have "a - b = (a mod ?p - b mod ?p) + ?p * (a div ?p - b div ?p)"
    by (simp add: algebra_simps)
  moreover have "((a mod ?p - b mod ?p) + ?p * (a div ?p - b div ?p)) div ?p
      = (a div ?p - b div ?p) + (a mod ?p - b mod ?p) div ?p"
    by (rule div_mult_self2) simp
  moreover have "(a mod ?p - b mod ?p) div ?p = (if a mod ?p < b mod ?p then - 1 else 0)"
  proof -
    have bounds: "0 \<le> a mod ?p" "a mod ?p < ?p" "0 \<le> b mod ?p" "b mod ?p < ?p" by simp_all
    show ?thesis
    proof (cases "a mod ?p < b mod ?p")
      case True
      have "(a mod ?p - b mod ?p) div ?p = - 1"
        by (rule int_div_pos_eq [where r = "a mod ?p - b mod ?p + ?p"]) (use True bounds in linarith)+
      with True show ?thesis by simp
    next
      case False
      have "(a mod ?p - b mod ?p) div ?p = 0"
        by (rule int_div_pos_eq [where r = "a mod ?p - b mod ?p"]) (use False bounds in linarith)+
      with False show ?thesis by simp
    qed
  qed
  ultimately have "(a - b) div ?p
      = a div ?p - b div ?p - (if a mod ?p < b mod ?p then 1 else 0)"
    by simp
  then show ?thesis by (rule arg_cong)
qed

lemma sub_prefix:
  fixes a b :: int
  assumes "\<And>j. j < n \<Longrightarrow> b div 256 ^ j mod 256 \<le> a div 256 ^ j mod 256"
  shows "b mod 256 ^ n \<le> a mod 256 ^ n"
  using assms
proof (induction n)
  case 0
  then show ?case by simp
next
  case (Suc n)
  have "b mod 256 ^ n \<le> a mod 256 ^ n" by (rule Suc.IH) (simp add: Suc.prems)
  moreover have "256 ^ n * (b div 256 ^ n mod 256) \<le> 256 ^ n * (a div 256 ^ n mod 256)"
    using Suc.prems [of n] by (intro mult_left_mono) auto
  ultimately show ?case by (simp only: mod_256_Suc)
qed

lemma byte_of_diff:
  fixes x y :: "'a::len word"
  assumes w: "whole_bytes TYPE('a)" and i: "i < n_bytes TYPE('a)"
  shows "byte_of (x - y) i = byte_of x i - byte_of y i
    - (if uint x mod 256 ^ i < uint y mod 256 ^ i then 1 else 0)"
proof -
  have "uint (byte_of (x - y) i) = (uint x - uint y) mod 256 ^ n_bytes TYPE('a) div 256 ^ i mod 256"
    by (simp add: uint_byte_of uint_word_ariths n_bytes_power [OF w])
  also have "\<dots> = (uint x - uint y) div 256 ^ i mod 256" by (rule mod_digit [OF i])
  also have "\<dots> = (uint x div 256 ^ i - uint y div 256 ^ i
      - (if uint x mod 256 ^ i < uint y mod 256 ^ i then 1 else 0)) mod 256"
    by (rule diff_digit)
  also have "\<dots> = uint (byte_of x i - byte_of y i
      - (if uint x mod 256 ^ i < uint y mod 256 ^ i then 1 else 0))"
    by (simp add: uint_byte_of uint_word_ariths mod_simps)
  finally show ?thesis by (simp only: word_uint_eq_iff)
qed

lemma byte_of_diff_no_borrow:
  fixes x y :: "'a::len word"
  assumes w: "whole_bytes TYPE('a)" and i: "i < n_bytes TYPE('a)"
    and nb: "\<And>j. j < i \<Longrightarrow> byte_of y j \<le> byte_of x j"
  shows "byte_of (x - y) i = byte_of x i - byte_of y i"
proof -
  have "uint y mod 256 ^ i \<le> uint x mod 256 ^ i"
    by (rule sub_prefix) (use nb in \<open>simp add: word_le_def uint_byte_of\<close>)
  then show ?thesis by (simp add: byte_of_diff [OF w i])
qed

end
