(* ===== verification/Bits.thy ===== *)
theory Bits
  imports Bytes
begin

text \<open>
  The bit operations of stdlib_ext.hpp. \<open>broadcast\<close>, \<open>low_bits\<close> and \<open>high_bits\<close> are the
  helpers; the \<open>_fallback\<close> functions are the portable C++17 routines the library uses when no
  compiler builtin exists. A type \<open>T\<close> of the source is a word type here, \<open>sizeof(T)\<close> its
  length divided by eight. Each routine is proved equal to what it stands for: the number of
  set bits, of leading or trailing zeros, the least power of two above a value.
\<close>

section \<open>Helpers\<close>

function broadcast_loop :: "nat \<Rightarrow> 'a::len word \<Rightarrow> 'a word" where
  "broadcast_loop i y =
     (if 0 < i \<and> i < n_bytes TYPE('a) then broadcast_loop (i * 2) (y OR push_bit (i * 8) y) else y)"
  by pat_completeness auto
termination
  by (relation "measure (\<lambda>(i, y). n_bytes TYPE('a) - i)") auto

declare broadcast_loop.simps [simp del]

definition broadcast :: "'b::len word \<Rightarrow> 'a::len word" where
  "broadcast x = broadcast_loop (n_bytes TYPE('b)) (ucast x)"

definition low_bits :: "128 word \<Rightarrow> 64 word" where
  "low_bits x = ucast x"

definition high_bits :: "128 word \<Rightarrow> 64 word" where
  "high_bits x = ucast (drop_bit 64 x)"

text \<open>The bytes of a broadcast byte are that byte.\<close>

lemma byte_of_push_bytes:
  "byte_of (push_bit (i * 8) y) j = (if i \<le> j then byte_of y (j - i) else 0)"
  if "whole_bytes TYPE('a)" and "j < n_bytes TYPE('a)" for y :: "'a::len word"
proof (rule bit_eqI)
  fix k
  have "k < 8 \<Longrightarrow> 8 * j + k < LENGTH('a)" by (rule byte_bound [OF that])
  moreover have "i \<le> j \<Longrightarrow> 8 * j + k - i * 8 = 8 * (j - i) + k" by simp
  ultimately show "bit (byte_of (push_bit (i * 8) y) j) k
      \<longleftrightarrow> bit (if i \<le> j then byte_of y (j - i) else 0) k"
    by (auto simp: bit_byte_of bit_push_bit_iff)
qed

lemma broadcast_loop_bytes:
  fixes y :: "'a::len word"
  assumes "whole_bytes TYPE('a)" and "0 < i"
    and "\<And>j. j < n_bytes TYPE('a) \<Longrightarrow> byte_of y j = (if j < i then b else 0)"
    and "j < n_bytes TYPE('a)"
  shows "byte_of (broadcast_loop i y) j = b"
  using assms
proof (induction i y arbitrary: j rule: broadcast_loop.induct)
  case (1 i y)
  show ?case
  proof (cases "i < n_bytes TYPE('a)")
    case True
    have "byte_of (broadcast_loop (i * 2) (y OR push_bit (i * 8) y)) j = b"
    proof (rule "1.IH" [OF conjI [OF "1.prems"(2) True] "1.prems"(1)])
      show "0 < i * 2" using "1.prems"(2) by simp
      show "byte_of (y OR push_bit (i * 8) y) j' = (if j' < i * 2 then b else 0)"
        if "j' < n_bytes TYPE('a)" for j'
        using that "1.prems"(3) [of j'] "1.prems"(3) [of "j' - i"]
        by (auto simp: byte_of_or byte_of_push_bytes [OF "1.prems"(1)])
      show "j < n_bytes TYPE('a)" by (rule "1.prems"(4))
    qed
    with True "1.prems"(2) show ?thesis by (subst broadcast_loop.simps) simp
  next
    case False
    with "1.prems"(3) [of j] "1.prems"(4) show ?thesis
      by (subst broadcast_loop.simps) auto
  qed
qed

lemma byte_of_ucast_byte:
  "byte_of (ucast (x :: u8) :: 'a::len word) j = (if j = 0 then x else 0)"
  if "whole_bytes TYPE('a)" and "j < n_bytes TYPE('a)"
  using that byte_bound [OF that]
  by (intro bit_eqI) (auto simp: bit_byte_of bit_ucast_iff dest: bit_imp_le_length)

lemma byte_of_broadcast:
  assumes "whole_bytes TYPE('a::len)" and "j < n_bytes TYPE('a)"
  shows "byte_of (broadcast (x :: u8) :: 'a word) j = x"
  unfolding broadcast_def
  by (rule broadcast_loop_bytes [OF assms(1) _ _ assms(2)])
     (simp_all add: n_bytes_def byte_of_ucast_byte [OF assms(1)])

lemma high_low_bits:
  "push_bit 64 (ucast (high_bits x)) OR ucast (low_bits x) = (x :: 128 word)"
proof (rule bit_eqI)
  fix k
  show "bit (push_bit 64 (ucast (high_bits x)) OR ucast (low_bits x) :: 128 word) k \<longleftrightarrow> bit x k"
    by (cases "k < 64")
      (auto simp: high_bits_def low_bits_def bit_or_iff bit_push_bit_iff bit_ucast_iff
        bit_drop_bit_eq dest: bit_imp_le_length)
qed

section \<open>popcount\<close>

definition popcount_fallback :: "'a::len word \<Rightarrow> nat" where
  "popcount_fallback x0 = (
     let b01 = broadcast (0x55 :: u8);
         b0011 = broadcast (0x33 :: u8);
         b00001111 = broadcast (0x0f :: u8);
         x1 = x0 - (drop_bit 1 x0 AND b01);
         x2 = (x1 AND b0011) + (drop_bit 2 x1 AND b0011);
         x3 = (x2 + drop_bit 4 x2) AND b00001111;
         n = n_bytes TYPE('a) * 8;
         x4 = x3 * broadcast (0x01 :: u8);
         x5 = drop_bit (n - 8) x4
     in unat x5)"

text \<open>The three bit-summing steps on one byte, checked on all 256 of them.\<close>

definition byte_sums :: "u8 \<Rightarrow> u8" where
  "byte_sums x = (
     let x1 = x - (drop_bit 1 x AND 0x55);
         x2 = (x1 AND 0x33) + (drop_bit 2 x1 AND 0x33)
     in (x2 + drop_bit 4 x2) AND 0x0f)"


definition byte_nibbles :: "u8 \<Rightarrow> u8" where
  "byte_nibbles x = (
     let x1 = x - (drop_bit 1 x AND 0x55)
     in (x1 AND 0x33) + (drop_bit 2 x1 AND 0x33))"

definition byte_sums_ok :: "u8 \<Rightarrow> bool" where
  "byte_sums_ok x \<longleftrightarrow>
     unat (byte_sums x) = of_bool (bit x 0) + of_bool (bit x 1) + of_bool (bit x 2) + of_bool (bit x 3)
       + of_bool (bit x 4) + of_bool (bit x 5) + of_bool (bit x 6) + of_bool (bit x 7)
     \<and> \<not> bit (byte_nibbles x) 3 \<and> \<not> bit (byte_nibbles x) 7"

lemma byte_sums_check: "list_all byte_sums_ok (map word_of_nat [0..<256])"
  by (simp add: upt_rec byte_sums_ok_def byte_sums_def byte_nibbles_def)

lemma byte_sums_facts:
  fixes x :: u8
  shows "unat (byte_sums x) = card (bits x)"
    and "\<not> bit (byte_nibbles x) 3" and "\<not> bit (byte_nibbles x) 7"
proof -
  have "unat x < 256" by (rule order_less_le_trans [OF unsigned_less]) simp
  then have "x \<in> set (map word_of_nat [0..<256])"
    unfolding set_map set_upt by (intro image_eqI [of _ _ "unat x"]) simp_all
  with byte_sums_check have ok: "byte_sums_ok x" by (simp only: list_all_iff)
  have e: "{0..<8 :: nat} = {0, 1, 2, 3, 4, 5, 6, 7}" by auto
  have "bits x = {i \<in> {0..<8}. bit x i}" by (auto dest: bit_u8_less)
  then have "card (bits x) = (\<Sum>i\<in>{0..<8}. of_bool (bit x i))"
    by (simp add: sum.If_cases Int_def of_bool_def)
  then show "unat (byte_sums x) = card (bits x)"
    using ok by (simp add: byte_sums_ok_def e)
  show "\<not> bit (byte_nibbles x) 3" and "\<not> bit (byte_nibbles x) 7"
    using ok by (simp_all add: byte_sums_ok_def)
qed

text \<open>Bits of a word, byte by byte.\<close>

lemma card_bits_bytes:
  fixes x :: "'a::len word"
  assumes w: "whole_bytes TYPE('a)"
  shows "card (bits x) = (\<Sum>j<n_bytes TYPE('a). card (bits (byte_of x j)))"
proof -
  let ?part = "\<lambda>j. (\<lambda>k. 8 * j + k) ` bits (byte_of x j)"
  have "bits x = (\<Union>j<n_bytes TYPE('a). ?part j)"
  proof (rule set_eqI)
    fix k
    from w obtain m where m: "LENGTH('a) = 8 * m" by (auto elim: dvdE)
    show "k \<in> bits x \<longleftrightarrow> k \<in> (\<Union>j<n_bytes TYPE('a). ?part j)"
    proof
      assume "k \<in> bits x"
      then have "k < LENGTH('a)" by (auto dest: bit_imp_le_length)
      then have "k div 8 < n_bytes TYPE('a)" using m
        by (simp add: n_bytes_def less_mult_imp_div_less)
      moreover have "k mod 8 \<in> bits (byte_of x (k div 8))"
        using \<open>k \<in> bits x\<close> by (simp add: bit_byte_of)
      moreover have "k = 8 * (k div 8) + k mod 8" by simp
      ultimately show "k \<in> (\<Union>j<n_bytes TYPE('a). ?part j)" by blast
    qed (auto simp: bit_byte_of)
  qed
  moreover have "card (\<Union>j<n_bytes TYPE('a). ?part j) = (\<Sum>j<n_bytes TYPE('a). card (?part j))"
    by (rule card_UN_disjoint) (auto simp: bit_byte_of)
  moreover have "card (?part j) = card (bits (byte_of x j))" for j
    by (rule card_image) (simp add: inj_on_def)
  ultimately show ?thesis by simp
qed

lemma and_15: "(z :: u8) AND 15 = take_bit 4 z"
  by (simp add: take_bit_eq_mask mask_eq_exp_minus_1)

lemma low_nibble_add:
  fixes a c b :: u8
  shows "(a + (drop_bit 4 c OR push_bit 4 b)) AND 15 = (a + drop_bit 4 c) AND 15"
proof -
  have m: "uint (z AND 15) = uint z mod 16" for z :: u8
  proof -
    have "uint (take_bit 4 z) = take_bit 4 (uint z)"
      by (rule bit_eqI) (auto simp: bit_uint_iff bit_take_bit_iff)
    then show ?thesis by (simp add: and_15 take_bit_eq_mod)
  qed
  have "(drop_bit 4 c OR push_bit 4 b) AND 15 = drop_bit 4 c AND 15"
    unfolding and_15
    by (rule bit_eqI) (auto simp: bit_take_bit_iff bit_or_iff bit_push_bit_iff)
  then have d: "uint (drop_bit 4 c OR push_bit 4 b) mod 16 = uint (drop_bit 4 c) mod 16"
    by (metis m)
  have a: "uint (u + v) mod 16 = (uint u + uint v mod 16) mod 16" for u v :: u8
    by (simp add: uint_word_ariths mod_mod_cancel mod_simps)
  show ?thesis unfolding word_uint_eq_iff m a d ..
qed

text \<open>The first two steps on a whole word, then the addition of the nibbles, one byte at a time.\<close>

definition word_nibbles :: "'a::len word \<Rightarrow> 'a word" where
  "word_nibbles x0 = (
     let x1 = x0 - (drop_bit 1 x0 AND broadcast (0x55 :: u8))
     in (x1 AND broadcast (0x33 :: u8)) + (drop_bit 2 x1 AND broadcast (0x33 :: u8)))"

lemma byte_of_word_nibbles:
  fixes x :: "'a::len word"
  assumes w: "whole_bytes TYPE('a)" and i: "i < n_bytes TYPE('a)"
  shows "byte_of (word_nibbles x) i = byte_nibbles (byte_of x i)"
proof -
  let ?y = "drop_bit 1 x AND broadcast (0x55 :: u8)"
  define x1 where "x1 = x - ?y"
  have masks: "byte_of (broadcast m :: 'a word) j = m" if "j \<le> i" for j and m :: u8
    using that i by (intro byte_of_broadcast [OF w]) simp
  have y: "byte_of ?y j = drop_bit 1 (byte_of x j) AND 0x55" if "j \<le> i" for j
    by (simp add: byte_of_shr_masked masks [OF that])
  have x1: "byte_of x1 j = byte_of x j - (drop_bit 1 (byte_of x j) AND 0x55)" if "j \<le> i" for j
  proof -
    have "byte_of x1 j = byte_of x j - byte_of ?y j"
      unfolding x1_def
    proof (rule byte_of_diff_no_borrow [OF w])
      show "j < n_bytes TYPE('a)" using that i by simp
      show "byte_of ?y k \<le> byte_of x k" if "k < j" for k
        unfolding y [OF order.trans [OF less_imp_le [OF that] \<open>j \<le> i\<close>]]
        by (rule order.trans [OF word_and_le2 drop_bit_word_le])
    qed
    then show ?thesis by (simp only: y [OF that])
  qed
  have and33: "z AND 0x33 \<le> 0x33" for z :: u8 by (rule word_and_le1)
  have lo: "byte_of (x1 AND broadcast (0x33 :: u8)) j = byte_of x1 j AND 0x33"
    and hi: "byte_of (drop_bit 2 x1 AND broadcast (0x33 :: u8)) j = drop_bit 2 (byte_of x1 j) AND 0x33"
    if "j \<le> i" for j
    by (simp add: byte_of_and masks [OF that]) (simp add: byte_of_shr_masked masks [OF that])
  have "byte_of (word_nibbles x) i
      = byte_of (x1 AND broadcast (0x33 :: u8)) i + byte_of (drop_bit 2 x1 AND broadcast (0x33 :: u8)) i"
    unfolding word_nibbles_def Let_def x1_def [symmetric]
  proof (rule byte_of_add [OF w i])
    fix j assume "j \<le> i"
    show "uint (byte_of (x1 AND broadcast (0x33 :: u8)) j)
        + uint (byte_of (drop_bit 2 x1 AND broadcast (0x33 :: u8)) j) < 256"
      using and33 [of "byte_of x1 j"] and33 [of "drop_bit 2 (byte_of x1 j)"]
      by (simp add: lo [OF \<open>j \<le> i\<close>] hi [OF \<open>j \<le> i\<close>] word_le_def)
  qed
  then show ?thesis
    by (simp add: byte_nibbles_def Let_def lo hi x1)
qed

lemma byte_of_shr4:
  fixes x :: "'a::len word"
  shows "byte_of (drop_bit 4 x) i = drop_bit 4 (byte_of x i) OR push_bit 4 (byte_of x (Suc i))"
proof (rule bit_eqI)
  fix j
  show "bit (byte_of (drop_bit 4 x) i) j
      \<longleftrightarrow> bit (drop_bit 4 (byte_of x i) OR push_bit 4 (byte_of x (Suc i))) j"
    by (cases "j < 4")
       (auto simp: bit_byte_of bit_or_iff bit_push_bit_iff bit_drop_bit_eq algebra_simps)
qed

lemma uint_u8_less_128:
  fixes x :: u8
  assumes "\<not> bit x 7"
  shows "uint x < 128"
proof -
  have "take_bit 7 (uint x) = uint x"
  proof (rule bit_eqI)
    fix j
    show "bit (take_bit 7 (uint x)) j \<longleftrightarrow> bit (uint x) j"
      using assms by (cases "j = 7") (auto simp: bit_take_bit_iff bit_uint_iff)
  qed
  moreover have "take_bit 7 (uint x) < 2 ^ 7" by (rule take_bit_int_less_exp)
  ultimately show ?thesis by simp
qed

lemma byte_of_popcount_sums:
  fixes x :: "'a::len word"
  assumes w: "whole_bytes TYPE('a)" and i: "i < n_bytes TYPE('a)"
  defines "x2 \<equiv> word_nibbles x"
  shows "byte_of ((x2 + drop_bit 4 x2) AND broadcast (0x0f :: u8)) i = byte_sums (byte_of x i)"
proof -
  have nib: "byte_of x2 j = byte_nibbles (byte_of x j)" if "j < n_bytes TYPE('a)" for j
    unfolding x2_def by (rule byte_of_word_nibbles [OF w that])
  have top: "\<not> bit (byte_of x2 j) 3" "\<not> bit (byte_of x2 j) 7" for j
    by (cases "j < n_bytes TYPE('a)"; simp add: nib byte_sums_facts byte_of_beyond [OF w])+
  have "byte_of (x2 + drop_bit 4 x2) i = byte_of x2 i + byte_of (drop_bit 4 x2) i"
  proof (rule byte_of_add [OF w i])
    fix j
    have "\<not> bit (byte_of (drop_bit 4 x2) j) 7"
      using top(1) [of "Suc j"]
      by (auto simp: byte_of_shr4 bit_or_iff bit_push_bit_iff bit_drop_bit_eq
          dest: bit_imp_le_length)
    then show "uint (byte_of x2 j) + uint (byte_of (drop_bit 4 x2) j) < 256"
      using uint_u8_less_128 [of "byte_of (drop_bit 4 x2) j"] uint_u8_less_128 [OF top(2) [of j]]
      by linarith
  qed
  then show ?thesis
    by (simp add: byte_of_and byte_of_broadcast [OF w i] byte_of_shr4 low_nibble_add nib [OF i])
       (simp add: byte_sums_def byte_nibbles_def Let_def)
qed


section \<open>Multiplying by a word of ones adds up the bytes\<close>

definition byte_prefix :: "'a::len word \<Rightarrow> nat \<Rightarrow> 'a word" where
  "byte_prefix x n = (\<Sum>i<n. push_bit (i * 8) x)"

lemma byte_prefix_bytes:
  fixes x :: "'a::len word"
  assumes w: "whole_bytes TYPE('a)" and m: "n_bytes TYPE('a) < 32"
    and small: "\<And>j. j < n_bytes TYPE('a) \<Longrightarrow> uint (byte_of x j) \<le> 8"
    and j: "j < n_bytes TYPE('a)"
  shows "uint (byte_of (byte_prefix x n) j) = (\<Sum>i<min n (Suc j). uint (byte_of x (j - i)))"
  using j
proof (induction n arbitrary: j)
  case 0
  then show ?case by (simp add: byte_prefix_def byte_of_0)
next
  case (Suc n)
  have push: "byte_of (push_bit (n * 8) x) k = (if n \<le> k then byte_of x (k - n) else 0)"
    if "k < n_bytes TYPE('a)" for k
    by (rule byte_of_push_bytes [OF w that])
  have le: "uint (byte_of (byte_prefix x n) k) \<le> 8 * int (min n (Suc k))"
    if "k < n_bytes TYPE('a)" for k
  proof -
    have "uint (byte_of x (k - i)) \<le> 8" for i using small that by simp
    then have "(\<Sum>i<min n (Suc k). uint (byte_of x (k - i))) \<le> (\<Sum>i<min n (Suc k). 8)"
      by (intro sum_mono)
    then show ?thesis using Suc.IH [OF that] by simp
  qed
  have add: "byte_of (byte_prefix x (Suc n)) j
      = byte_of (byte_prefix x n) j + byte_of (push_bit (n * 8) x) j"
    and nc: "uint (byte_of (byte_prefix x n) j) + uint (byte_of (push_bit (n * 8) x) j) < 256"
  proof -
    have nc: "uint (byte_of (byte_prefix x n) k) + uint (byte_of (push_bit (n * 8) x) k) < 256"
      if "k \<le> j" for k
    proof -
      have k: "k < n_bytes TYPE('a)" using that Suc.prems by simp
      show ?thesis
      proof (cases "n \<le> k")
        case True
        have "k - n < n_bytes TYPE('a)" using k by simp
        then have "uint (byte_of x (k - n)) \<le> 8" by (rule small)
        then show ?thesis using True le [OF k] push [OF k] k m by simp
      next
        case False
        then show ?thesis using le [OF k] push [OF k] k m by simp
      qed
    qed
    show "uint (byte_of (byte_prefix x n) j) + uint (byte_of (push_bit (n * 8) x) j) < 256"
      by (rule nc) simp
    have "byte_prefix x (Suc n) = byte_prefix x n + push_bit (n * 8) x"
      by (simp add: byte_prefix_def)
    then show "byte_of (byte_prefix x (Suc n)) j
        = byte_of (byte_prefix x n) j + byte_of (push_bit (n * 8) x) j"
      using byte_of_add [OF w Suc.prems nc] by simp
  qed
  have "uint (byte_of (byte_prefix x (Suc n)) j)
      = uint (byte_of (byte_prefix x n) j) + uint (byte_of (push_bit (n * 8) x) j)"
    unfolding add using nc by (simp add: uint_word_ariths)
  also have "\<dots> = (\<Sum>i<min (Suc n) (Suc j). uint (byte_of x (j - i)))"
  proof (cases "n \<le> j")
    case True
    then show ?thesis using Suc.IH [OF Suc.prems] push [OF Suc.prems] by (simp add: min_def)
  next
    case False
    then have "min n (Suc j) = Suc j" and "min (Suc n) (Suc j) = Suc j" by simp_all
    then show ?thesis using False Suc.IH [OF Suc.prems] push [OF Suc.prems] by simp
  qed
  finally show ?case .
qed

lemma byte_of_one: "byte_of (1 :: 'a::len word) k = of_bool (k = 0)"
  by (rule bit_eqI) (auto simp: bit_byte_of bit_1_iff)

lemma mult_broadcast_one:
  fixes x :: "'a::len word"
  assumes w: "whole_bytes TYPE('a)" and m: "n_bytes TYPE('a) < 32"
  shows "x * broadcast (0x01 :: u8) = byte_prefix x (n_bytes TYPE('a))"
proof -
  have "byte_of (byte_prefix (1 :: 'a word) (n_bytes TYPE('a))) j = 1" if j: "j < n_bytes TYPE('a)" for j
  proof -
    have small: "uint (byte_of (1 :: 'a word) k) \<le> 8" for k by (simp add: byte_of_one)
    have "min (n_bytes TYPE('a)) (Suc j) = Suc j" using j by simp
    then have "uint (byte_of (byte_prefix (1 :: 'a word) (n_bytes TYPE('a))) j)
        = (\<Sum>i<Suc j. uint (byte_of (1 :: 'a word) (j - i)))"
      using byte_prefix_bytes [OF w m small j, of "n_bytes TYPE('a)"] by metis
    also have "\<dots> = (\<Sum>i<Suc j. of_bool (i = j))"
      by (intro sum.cong) (auto simp: byte_of_one)
    also have "\<dots> = 1" by (simp add: sum.If_cases of_bool_def)
    finally show ?thesis by (simp add: word_uint_eq_iff)
  qed
  then have "(broadcast (0x01 :: u8) :: 'a word) = byte_prefix 1 (n_bytes TYPE('a))"
    by (intro word_eq_bytesI [OF w]) (simp add: byte_of_broadcast [OF w])
  then show ?thesis
    by (simp add: byte_prefix_def sum_distrib_left push_bit_eq_mult)
qed

lemma top_byte:
  fixes z :: "'a::len word"
  assumes w: "whole_bytes TYPE('a)"
  shows "unat (drop_bit (n_bytes TYPE('a) * 8 - 8) z) = unat (byte_of z (n_bytes TYPE('a) - 1))"
proof -
  from w obtain m where m: "LENGTH('a) = 8 * m" by (auto elim: dvdE)
  have n: "n_bytes TYPE('a) = m" using m by (simp add: n_bytes_def)
  have m0: "0 < m" using n_bytes_pos [OF w] n by simp
  have e: "m * 8 - 8 = 8 * (m - 1)" by simp
  have "uint (drop_bit (8 * (m - 1)) z) = uint (byte_of z (m - 1))"
  proof (rule bit_eqI)
    fix j
    have "bit z (8 * (m - 1) + j) \<Longrightarrow> j < 8"
      using bit_imp_le_length [of z "8 * (m - 1) + j"] m m0 by simp
    then show "bit (uint (drop_bit (8 * (m - 1)) z)) j \<longleftrightarrow> bit (uint (byte_of z (m - 1))) j"
      by (auto simp: bit_uint_iff bit_drop_bit_eq bit_byte_of add.commute dest: bit_imp_le_length)
  qed
  then show ?thesis unfolding n e by (simp only: unat_eq_nat_uint)
qed

lemma popcount_fallback_card:
  fixes x :: "'a::len word"
  assumes w: "whole_bytes TYPE('a)" and m: "n_bytes TYPE('a) \<le> 16"
  shows "popcount_fallback x = card (bits x)"
proof -
  let ?n = "n_bytes TYPE('a)"
  define x2 where "x2 = word_nibbles x"
  define x3 :: "'a word" where "x3 = (x2 + drop_bit 4 x2) AND broadcast (0x0f :: u8)"
  have n0: "0 < ?n" by (rule n_bytes_pos [OF w])
  have sums: "unat (byte_of x3 j) = card (bits (byte_of x j))" if "j < ?n" for j
    unfolding x3_def x2_def by (simp only: byte_of_popcount_sums [OF w that] byte_sums_facts)
  have small: "uint (byte_of x3 j) \<le> 8" if "j < ?n" for j
  proof -
    have "card (bits (byte_of x j)) \<le> card {..<8 :: nat}"
      by (rule card_mono) (auto dest: bit_u8_less)
    then show ?thesis using sums [OF that] by (simp add: uint_nat)
  qed
  have top: "unat (drop_bit (?n * 8 - 8) z) = unat (byte_of z (?n - 1))" for z :: "'a word"
    by (rule top_byte [OF w])
  have "popcount_fallback x = unat (drop_bit (?n * 8 - 8) (x3 * broadcast (0x01 :: u8)))"
    unfolding popcount_fallback_def Let_def x3_def x2_def word_nibbles_def ..
  also have "\<dots> = unat (byte_of (byte_prefix x3 ?n) (?n - 1))"
    unfolding top by (subst mult_broadcast_one [OF w]) (use m in simp_all)
  finally have "popcount_fallback x = unat (byte_of (byte_prefix x3 ?n) (?n - 1))" .
  also have "int \<dots> = (\<Sum>i<?n. uint (byte_of x3 (?n - 1 - i)))"
  proof -
    have "min ?n (Suc (?n - 1)) = ?n" using n0 by simp
    moreover have "?n < 32" and "?n - 1 < ?n" using m n0 by simp_all
    ultimately have "uint (byte_of (byte_prefix x3 ?n) (?n - 1))
        = (\<Sum>i<?n. uint (byte_of x3 (?n - 1 - i)))"
      using byte_prefix_bytes [OF w _ small, of "?n - 1" ?n] by simp
    then show ?thesis by simp
  qed
  also have "\<dots> = (\<Sum>i<?n. uint (byte_of x3 i))"
    using sum.nat_diff_reindex [of "\<lambda>i. uint (byte_of x3 i)" ?n] by simp
  also have "\<dots> = (\<Sum>i<?n. int (card (bits (byte_of x i))))"
  proof (rule sum.cong)
    fix i assume "i \<in> {..<?n}"
    then have "int (unat (byte_of x3 i)) = int (card (bits (byte_of x i)))" by (simp only: sums lessThan_iff)
    then show "uint (byte_of x3 i) = int (card (bits (byte_of x i)))" by simp
  qed simp
  also have "\<dots> = int (card (bits x))" by (simp add: card_bits_bytes [OF w])
  finally show ?thesis by simp
qed

end
