(* ===== verification/BitOps.thy ===== *)
theory BitOps
  imports Bits
begin

text \<open>
  The remaining bit operations of stdlib_ext.hpp, built on \<open>popcount_fallback\<close>: counting
  leading and trailing zeros, rotation, rounding up to a power of two and testing for one.
  The 128 bit variants the library assembles from two 64 bit halves are here too. In each
  case the specification is stated on the set of bit positions.
\<close>

section \<open>Smearing the highest bit down\<close>

text \<open>The loop \<open>for (i = 1; i < n; i *= 2) x |= x >> i\<close> of two of the fallbacks.\<close>

function smear :: "nat \<Rightarrow> 'a::len word \<Rightarrow> 'a word" where
  "smear i x = (if 0 < i \<and> i < LENGTH('a) then smear (i * 2) (x OR drop_bit i x) else x)"
  by pat_completeness auto
termination
  by (relation "measure (\<lambda>(i, x). LENGTH('a) - i)") auto

declare smear.simps [simp del]

definition smear_down :: "'a::len word \<Rightarrow> 'a word" where
  "smear_down x = smear 1 x"

lemma smear_loop:
  fixes x y :: "'a::len word"
  assumes "0 < i" and "\<And>k. bit y k \<longleftrightarrow> (\<exists>d<i. bit x (k + d))"
  shows "bit (smear i y) k \<longleftrightarrow> (\<exists>j\<ge>k. bit x j)"
  using assms
proof (induction i y rule: smear.induct)
  case (1 i y)
  show ?case
  proof (cases "i < LENGTH('a)")
    case True
    have "bit (y OR drop_bit i y) k \<longleftrightarrow> (\<exists>d<i * 2. bit x (k + d))" for k
    proof -
      have "(\<exists>d<i * 2. bit x (k + d)) \<longleftrightarrow> (\<exists>d<i. bit x (k + d)) \<or> (\<exists>d<i. bit x (i + k + d))"
      proof
        assume "\<exists>d<i * 2. bit x (k + d)"
        then obtain d where d: "d < i * 2" "bit x (k + d)" by blast
        show "(\<exists>d<i. bit x (k + d)) \<or> (\<exists>d<i. bit x (i + k + d))"
        proof (cases "d < i")
          case False
          then have "d - i < i" and "bit x (i + k + (d - i))" using d by (simp_all add: algebra_simps)
          then show ?thesis by blast
        qed (use d in blast)
      next
        assume "(\<exists>d<i. bit x (k + d)) \<or> (\<exists>d<i. bit x (i + k + d))"
        then show "\<exists>d<i * 2. bit x (k + d)"
        proof
          assume "\<exists>d<i. bit x (k + d)"
          then obtain d where "d < i" "bit x (k + d)" by blast
          then show ?thesis by (intro exI [of _ d]) simp
        next
          assume "\<exists>d<i. bit x (i + k + d)"
          then obtain d where "d < i" "bit x (k + (i + d))" by (auto simp: algebra_simps)
          then show ?thesis by (intro exI [of _ "i + d"]) simp
        qed
      qed
      then show ?thesis by (simp add: bit_or_iff bit_drop_bit_eq "1.prems"(2))
    qed
    with "1.IH" True "1.prems"(1) show ?thesis by (subst smear.simps) simp
  next
    case False
    have "(\<exists>d<i. bit x (k + d)) \<longleftrightarrow> (\<exists>j\<ge>k. bit x j)"
    proof
      assume "\<exists>j\<ge>k. bit x j"
      then obtain j where j: "k \<le> j" "bit x j" by blast
      then have "j < LENGTH('a)" by (simp add: bit_imp_le_length)
      then have "j - k < i" using False by simp
      with j show "\<exists>d<i. bit x (k + d)" by (intro exI [of _ "j - k"]) simp
    qed (use le_add1 in blast)
    with False "1.prems" show ?thesis by (subst smear.simps) simp
  qed
qed

lemma bit_smear: "bit (smear_down x) k \<longleftrightarrow> (\<exists>j\<ge>k. bit x j)" for x :: "'a::len word"
  unfolding smear_down_def by (rule smear_loop) auto

lemma bits_smear: "bits (smear_down x) = (if x = 0 then {} else {..Max (bits x)})"
  for x :: "'a::len word"
proof (cases "x = 0")
  case True
  then show ?thesis by (simp add: bits_def bit_smear)
next
  case False
  then have ne: "bits x \<noteq> {}" by simp
  have "(\<exists>j\<ge>k. bit x j) \<longleftrightarrow> k \<le> Max (bits x)" for k
    using Max_ge_iff [OF finite_bits ne, of k] by auto
  then show ?thesis using False by (auto simp: bit_smear)
qed

lemma Max_bits_less: "x \<noteq> 0 \<Longrightarrow> Max (bits x) < LENGTH('a)" for x :: "'a::len word"
  using Max_in [of "bits x"] by (auto dest: bit_imp_le_length)

lemma Min_bits_less: "x \<noteq> 0 \<Longrightarrow> Min (bits x) < LENGTH('a)" for x :: "'a::len word"
  using Min_in [of "bits x"] by (auto dest: bit_imp_le_length)

section \<open>Counting zeros\<close>

definition countl_zero_fallback :: "'a::len word \<Rightarrow> nat" where
  "countl_zero_fallback x = (let n = n_bytes TYPE('a) * 8 in n - popcount_fallback (smear_down x))"

definition countr_zero_fallback :: "'a::len word \<Rightarrow> nat" where
  "countr_zero_fallback x = (
     let z = of_bool (x \<noteq> 0);
         x = (if x \<noteq> 0 then x XOR (x - 1) else broadcast (0xff :: u8))
     in popcount_fallback x - z)"

text \<open>
  What the standard functions \<open>std::popcount\<close>, \<open>std::countl_zero\<close> and \<open>std::countr_zero\<close>, which the
  library uses where they exist, return.
\<close>

definition popcount :: "'a::len word \<Rightarrow> nat" where
  "popcount x = length (filter (bit x) [0..<LENGTH('a)])"

definition clz :: "'a::len word \<Rightarrow> nat" where
  "clz x = length (takeWhile (\<lambda>i. \<not> bit x i) (rev [0..<LENGTH('a)]))"

definition ctz :: "'a::len word \<Rightarrow> nat" where
  "ctz x = length (takeWhile (\<lambda>i. \<not> bit x i) [0..<LENGTH('a)])"

lemma popcount_card: "popcount x = card (bits x)" for x :: "'a::len word"
proof -
  have "popcount x = card (set (filter (bit x) [0..<LENGTH('a)]))"
    unfolding popcount_def by (rule distinct_card [symmetric]) simp
  also have "set (filter (bit x) [0..<LENGTH('a)]) = bits x"
    by (auto dest: bit_imp_le_length)
  finally show ?thesis .
qed

lemma takeWhile_upt:
  assumes "k < n" and "P k" and "\<And>i. i < k \<Longrightarrow> \<not> P i"
  shows "length (takeWhile (\<lambda>i. \<not> P i) [0..<n]) = k"
proof -
  have "[0..<n] = [0..<k] @ k # [Suc k..<n]"
    using assms(1) by (rule upt_split_at)
  moreover have "takeWhile (\<lambda>i. \<not> P i) ([0..<k] @ k # [Suc k..<n]) = [0..<k]"
    using assms(2,3) by (subst takeWhile_append2) auto
  ultimately show ?thesis by simp
qed

lemma ctz_Min: "ctz x = (if x = 0 then LENGTH('a) else Min (bits x))" for x :: "'a::len word"
proof (cases "x = 0")
  case True
  then show ?thesis by (simp add: ctz_def takeWhile_eq_all_conv [THEN iffD2])
next
  case False
  then have ne: "bits x \<noteq> {}" by simp
  have b: "bit x (Min (bits x))" using Min_in [OF finite_bits ne] by simp
  moreover have "\<not> bit x i" if "i < Min (bits x)" for i
  proof
    assume "bit x i"
    then have "Min (bits x) \<le> i" by (intro Min_le) simp_all
    with that show False by (meson leD)
  qed
  ultimately show ?thesis
    using False takeWhile_upt [of "Min (bits x)" "LENGTH('a)" "bit x"] bit_imp_le_length [OF b]
    by (simp add: ctz_def)
qed

lemma clz_Max: "clz x = (if x = 0 then LENGTH('a) else LENGTH('a) - 1 - Max (bits x))" for x :: "'a::len word"
proof (cases "x = 0")
  case True
  then show ?thesis by (simp add: clz_def takeWhile_eq_all_conv [THEN iffD2])
next
  case False
  let ?M = "Max (bits x)" and ?n = "LENGTH('a)"
  have ne: "bits x \<noteq> {}" using False by simp
  have b: "bit x ?M" using Max_in [OF finite_bits ne] by simp
  then have M: "?M < ?n" by (rule bit_imp_le_length)
  have above: "\<not> bit x i" if "?M < i" for i
  proof
    assume "bit x i"
    then have "i \<le> Max (bits x)" by (intro Max_ge) simp_all
    with that show False by (meson leD)
  qed
  have "[0..<?n] = [0..<?M] @ ?M # [Suc ?M..<?n]"
    using M by (rule upt_split_at)
  then have "rev [0..<?n] = rev [Suc ?M..<?n] @ ?M # rev [0..<?M]" by simp
  moreover have "takeWhile (\<lambda>i. \<not> bit x i) (rev [Suc ?M..<?n] @ ?M # rev [0..<?M]) = rev [Suc ?M..<?n]"
    using b above by (subst takeWhile_append2) auto
  ultimately show ?thesis using False by (simp add: clz_def)
qed

lemma n_bytes_8: "whole_bytes TYPE('a::len) \<Longrightarrow> n_bytes TYPE('a) * 8 = LENGTH('a)"
  by (simp add: n_bytes_def)

lemma countl_zero_fallback_clz:
  fixes x :: "'a::len word"
  assumes w: "whole_bytes TYPE('a)" and m: "n_bytes TYPE('a) \<le> 16"
  shows "countl_zero_fallback x = clz x"
  using Max_bits_less [of x]
  by (simp add: countl_zero_fallback_def clz_Max popcount_fallback_card [OF w m] bits_smear
      n_bytes_8 [OF w] Let_def)

lemma bits_xor_minus_one:
  fixes x :: "'a::len word"
  assumes "x \<noteq> 0"
  shows "bits (x XOR (x - 1)) = {..Min (bits x)}"
proof (rule set_eqI)
  fix k
  have ne: "bits x \<noteq> {}" using assms by simp
  have min: "bit x (Min (bits x))" using Min_in [OF finite_bits ne] by simp
  have "(\<exists>j<k. bit x j) \<longleftrightarrow> Min (bits x) < k"
    using Min_less_iff [OF finite_bits ne, of k] by auto
  then have "k < LENGTH('a) \<Longrightarrow> bit (x XOR (x - 1)) k \<longleftrightarrow> k \<le> Min (bits x)"
    by (auto simp: bit_xor_iff bit_word_minus_one)
  moreover have "Min (bits x) < LENGTH('a)" by (rule Min_bits_less [OF assms])
  ultimately show "k \<in> bits (x XOR (x - 1)) \<longleftrightarrow> k \<in> {..Min (bits x)}"
    by (cases "k < LENGTH('a)") (auto dest: bit_imp_le_length)
qed

lemma broadcast_ff:
  assumes w: "whole_bytes TYPE('a::len)"
  shows "(broadcast (0xff :: u8) :: 'a word) = - 1"
proof (rule word_eq_bytesI [OF w])
  fix i assume i: "i < n_bytes TYPE('a)"
  have "byte_of (- 1 :: 'a word) i = 0xff"
  proof (rule bit_eqI)
    fix j
    have "(0xff :: u8) = - 1" by simp
    then have "bit (0xff :: u8) j \<longleftrightarrow> j < 8" by (simp only: bit_minus_1_iff) simp
    then show "bit (byte_of (- 1 :: 'a word) i) j \<longleftrightarrow> bit (0xff :: u8) j"
      using byte_bound [OF w i, of j] by (auto simp: bit_byte_of dest: bit_u8_less)
  qed
  then show "byte_of (broadcast (0xff :: u8) :: 'a word) i = byte_of (- 1 :: 'a word) i"
    by (simp add: byte_of_broadcast [OF w i])
qed

lemma card_bits_minus_one: "card (bits (- 1 :: 'a::len word)) = LENGTH('a)"
proof -
  have "bits (- 1 :: 'a word) = {..<LENGTH('a)}" by (auto dest: bit_imp_le_length)
  then show ?thesis by simp
qed

lemma countr_zero_fallback_ctz:
  fixes x :: "'a::len word"
  assumes w: "whole_bytes TYPE('a)" and m: "n_bytes TYPE('a) \<le> 16"
  shows "countr_zero_fallback x = ctz x"
  by (simp add: countr_zero_fallback_def ctz_Min popcount_fallback_card [OF w m]
      bits_xor_minus_one broadcast_ff [OF w] card_bits_minus_one Let_def)

section \<open>Powers of two\<close>

definition has_single_bit_fallback :: "'a::len word \<Rightarrow> bool" where
  "has_single_bit_fallback x \<longleftrightarrow> x \<noteq> 0 \<and> x AND (x - 1) = 0"

definition bit_ceil_fallback :: "'a::len word \<Rightarrow> 'a word" where
  "bit_ceil_fallback x = (let x = smear_down (x - 1) + 1 in if x \<le> 1 then 1 else x)"

definition bit_ceil :: "'a::len word \<Rightarrow> 'a word" where
  "bit_ceil x = (if 1 < x then push_bit (n_bytes TYPE('a) * 8 - clz (x - 1)) 1 else 1)"

lemma has_single_bit_iff: "has_single_bit_fallback x \<longleftrightarrow> (\<exists>e. bits x = {e})"
  for x :: "'a::len word"
proof (cases "x = 0")
  case False
  then have ne: "bits x \<noteq> {}" by simp
  have "x AND (x - 1) = 0 \<longleftrightarrow> bits x - {Min (bits x)} = {}"
    by (simp flip: bits_and_minus_one [OF False])
  also have "\<dots> \<longleftrightarrow> (\<exists>e. bits x = {e})"
  proof
    assume "bits x - {Min (bits x)} = {}"
    with Min_in [OF finite_bits ne] have "bits x = {Min (bits x)}" by blast
    then show "\<exists>e. bits x = {e}" ..
  qed auto
  finally show ?thesis using False by (simp add: has_single_bit_fallback_def)
next
  case True
  then have "bits x = {}" by simp
  then show ?thesis using True by (metis has_single_bit_fallback_def insert_not_empty)
qed

lemma bits_singleton: "bits x = {e} \<longleftrightarrow> e < LENGTH('a) \<and> x = 2 ^ e" for x :: "'a::len word"
proof
  assume b: "bits x = {e}"
  then have "bit x e" by (auto simp flip: in_bits)
  then have "e < LENGTH('a)" by (rule bit_imp_le_length)
  moreover from this have "bits (2 ^ e :: 'a word) = {e}" by (auto simp: bit_exp_iff)
  ultimately show "e < LENGTH('a) \<and> x = 2 ^ e" using b by (metis bits_eq_iff)
qed (auto simp: bit_exp_iff)

text \<open>A value lies between the power of two of its highest bit and the next one.\<close>

lemma highest_bit_bounds:
  fixes y :: "'a::len word"
  assumes "y \<noteq> 0"
  shows "2 ^ Max (bits y) \<le> unat y" and "unat y < 2 ^ Suc (Max (bits y))"
proof -
  let ?M = "Max (bits y)"
  have ne: "bits y \<noteq> {}" using assms by simp
  have "bit y ?M" using Max_in [OF finite_bits ne] by simp
  then have "bit (unat y) ?M" by (simp add: bit_unsigned_iff)
  then have "unat y div 2 ^ ?M \<noteq> 0" by (auto simp: bit_iff_odd elim!: oddE)
  then show "2 ^ ?M \<le> unat y" by (simp add: div_eq_0_iff not_less)
  have "take_bit (Suc ?M) y = y"
    using Max_ge [OF finite_bits, of _ y] by (intro bit_eqI) (auto simp: bit_take_bit_iff less_Suc_eq_le)
  then have "unat y = take_bit (Suc ?M) (unat y)" by (metis unsigned_take_bit_eq)
  then show "unat y < 2 ^ Suc ?M" by (metis take_bit_nat_less_exp)
qed

lemma smear_down_mask: "y \<noteq> 0 \<Longrightarrow> smear_down y + 1 = 2 ^ Suc (Max (bits y))" for y :: "'a::len word"
proof -
  assume "y \<noteq> 0"
  moreover from this have "bits (mask (Suc (Max (bits y))) :: 'a word) = {..Max (bits y)}"
    using order.strict_trans1 [OF _ Max_bits_less, of _ y] by (auto simp: bit_mask_iff simp del: Max_less_iff)
  ultimately have "bits (smear_down y) = bits (mask (Suc (Max (bits y))) :: 'a word)"
    by (simp add: bits_smear)
  then have "smear_down y = mask (Suc (Max (bits y)))" by (simp only: bits_eq_iff)
  then show ?thesis by (simp add: mask_eq_exp_minus_1)
qed

lemma bit_ceil_power:
  fixes x :: "'a::len word"
  assumes w: "whole_bytes TYPE('a)" and x: "1 < unat x" and top: "unat x \<le> 2 ^ (LENGTH('a) - 1)"
  defines "e \<equiv> Suc (Max (bits (x - 1)))"
  shows "e < LENGTH('a)" and "unat x \<le> 2 ^ e" and "2 ^ e < 2 * unat x"
    and "bit_ceil_fallback x = 2 ^ e" and "bit_ceil x = 2 ^ e"
proof -
  have u: "unat (x - 1) = unat x - 1"
    using x by (intro unat_minus_one) auto
  then have nz: "x - 1 \<noteq> 0" using x by (metis diff_is_0_eq not_le unat_0)
  note b = highest_bit_bounds [OF nz, unfolded u]
  have ME: "Max (bits (x - 1)) = e - 1" and e0: "0 < e" by (simp_all add: e_def)
  have "2 ^ (e - 1) < unat x" using b(1) x unfolding ME by simp
  then show l: "2 ^ e < 2 * unat x" using e0 by (cases e) simp_all
  show "unat x \<le> 2 ^ e" using b(2) x unfolding e_def by simp
  have "(2 :: nat) ^ (e - 1) < 2 ^ (LENGTH('a) - 1)"
    using \<open>2 ^ (e - 1) < unat x\<close> top by (rule order.strict_trans2)
  then show e: "e < LENGTH('a)" using e0 by (simp add: power_strict_increasing_iff)
  have "unat (2 ^ e :: 'a word) = 2 ^ e" using e by (rule unat_exp)
  moreover have "(1 :: nat) < 2 ^ e" by (rule one_less_power) (simp_all add: e0)
  ultimately have "\<not> (2 ^ e :: 'a word) \<le> 1" by (simp add: word_le_nat_alt)
  then show "bit_ceil_fallback x = 2 ^ e"
    by (simp add: bit_ceil_fallback_def Let_def smear_down_mask [OF nz] flip: e_def)
  have "1 < x" using x by (simp add: word_less_nat_alt)
  moreover have "LENGTH('a) - clz (x - 1) = e"
    using nz e by (simp add: clz_Max e_def)
  ultimately show "bit_ceil x = 2 ^ e"
    by (simp add: bit_ceil_def n_bytes_8 [OF w] push_bit_eq_mult)
qed

section \<open>Rotation\<close>

text \<open>The shift counts \<open>s & (n - 1)\<close> and \<open>-s & (n - 1)\<close> are residues modulo the width \<open>n\<close>, a power of two.\<close>

definition rotl_fallback :: "'a::len word \<Rightarrow> int \<Rightarrow> 'a word" where
  "rotl_fallback x s = (
     let n = int (n_bytes TYPE('a) * 8)
     in push_bit (nat (s AND (n - 1))) x OR drop_bit (nat (- s AND (n - 1))) x)"

definition rotr_fallback :: "'a::len word \<Rightarrow> int \<Rightarrow> 'a word" where
  "rotr_fallback x s = (
     let n = int (n_bytes TYPE('a) * 8)
     in drop_bit (nat (s AND (n - 1))) x OR push_bit (nat (- s AND (n - 1))) x)"

lemma and_width:
  assumes w: "whole_bytes TYPE('a::len)" and p: "LENGTH('a) = 2 ^ e"
  shows "s AND (int (n_bytes TYPE('a) * 8) - 1) = s mod int LENGTH('a)"
proof -
  have "int (n_bytes TYPE('a) * 8) - 1 = mask e" by (simp add: n_bytes_8 [OF w] p mask_eq_exp_minus_1)
  then have "s AND (int (n_bytes TYPE('a) * 8) - 1) = take_bit e s" by (simp add: take_bit_eq_mask)
  then show ?thesis by (simp add: take_bit_eq_mod p)
qed

lemma bit_shift_pair:
  fixes x :: "'a::len word"
  assumes k: "k < LENGTH('a)" and r: "0 \<le> r" "r < int LENGTH('a)"
  shows "bit (push_bit (nat r) x OR drop_bit (nat ((- r) mod int LENGTH('a))) x) k
    \<longleftrightarrow> bit x (nat ((int k - r) mod int LENGTH('a)))"
proof (cases "r = 0")
  case True
  then show ?thesis using k by (simp add: bit_or_iff)
next
  case False
  let ?n = "int LENGTH('a)"
  have neg: "(- r) mod ?n = ?n - r" using r False by (simp add: zmod_zminus1_eq_if)
  show ?thesis
  proof (cases "r \<le> int k")
    case True
    then have "(int k - r) mod ?n = int k - r" using k r by simp
    moreover have "\<not> bit x (k + nat (?n - r))"
      using True r by (auto dest!: bit_imp_le_length)
    ultimately show ?thesis using True k r
      by (simp add: neg bit_or_iff bit_push_bit_iff bit_drop_bit_eq nat_le_iff nat_diff_distrib add.commute)
  next
    case False
    have "(int k - r) mod ?n = (int k - r + ?n) mod ?n" by simp
    also have "\<dots> = int k - r + ?n" using False k r by (intro mod_pos_pos_trivial) simp_all
    finally have "nat ((int k - r) mod ?n) = k + nat (?n - r)" using r by simp
    then show ?thesis using False k
      by (simp add: neg bit_or_iff bit_push_bit_iff bit_drop_bit_eq nat_le_iff add.commute)
  qed
qed

lemma bit_rotl_fallback:
  fixes x :: "'a::len word"
  assumes w: "whole_bytes TYPE('a)" and p: "LENGTH('a) = 2 ^ e" and k: "k < LENGTH('a)"
  shows "bit (rotl_fallback x s) k \<longleftrightarrow> bit x (nat ((int k - s) mod int LENGTH('a)))"
    and "bit (rotr_fallback x s) k \<longleftrightarrow> bit x (nat ((int k + s) mod int LENGTH('a)))"
proof -
  let ?n = "int LENGTH('a)"
  have n: "0 < ?n" by simp
  have m: "(- (s mod ?n)) mod ?n = (- s) mod ?n" "(- ((- s) mod ?n)) mod ?n = s mod ?n"
    by (simp_all add: mod_simps)
  have b: "0 \<le> t mod ?n" "t mod ?n < ?n" for t using n by simp_all
  show "bit (rotl_fallback x s) k \<longleftrightarrow> bit x (nat ((int k - s) mod ?n))"
    using bit_shift_pair [OF k b [of s], of x]
    by (simp add: rotl_fallback_def Let_def and_width [OF w p, simplified] m mod_simps)
  show "bit (rotr_fallback x s) k \<longleftrightarrow> bit x (nat ((int k + s) mod ?n))"
    using bit_shift_pair [OF k b [of "- s"], of x]
    by (simp add: rotr_fallback_def Let_def and_width [OF w p, simplified] m mod_simps
        or.commute)
qed

section \<open>128 bit words from their halves\<close>

text \<open>
  On the 64 bit halves the library calls the compiler builtin, which returns the count itself.
\<close>

definition popcount_128 :: "128 word \<Rightarrow> nat" where
  "popcount_128 x = (let lo = low_bits x; hi = high_bits x in popcount lo + popcount hi)"

definition countl_zero_128 :: "128 word \<Rightarrow> nat" where
  "countl_zero_128 x = (let lo = low_bits x; hi = high_bits x in if hi \<noteq> 0 then clz hi else 64 + clz lo)"

definition countr_zero_128 :: "128 word \<Rightarrow> nat" where
  "countr_zero_128 x = (let lo = low_bits x; hi = high_bits x in if lo \<noteq> 0 then ctz lo else 64 + ctz hi)"

lemma bits_halves: "bits x = bits (low_bits x) \<union> (\<lambda>k. 64 + k) ` bits (high_bits x)"
proof (rule set_eqI)
  fix k
  show "k \<in> bits x \<longleftrightarrow> k \<in> bits (low_bits x) \<union> (\<lambda>k. 64 + k) ` bits (high_bits x)"
  proof (cases "k < 64")
    case True
    then show ?thesis by (auto simp: low_bits_def bit_ucast_iff)
  next
    case False
    then have "k = 64 + (k - 64)" by simp
    then have "k \<in> (\<lambda>k. 64 + k) ` bits (high_bits x) \<longleftrightarrow> bit (high_bits x) (k - 64)"
      by (auto simp: image_iff intro: bexI [of _ "k - 64"])
    also have "\<dots> \<longleftrightarrow> bit x k"
      using False bit_imp_le_length [of x k] by (auto simp: high_bits_def bit_ucast_iff bit_drop_bit_eq)
    finally show ?thesis using False by (auto simp: low_bits_def bit_ucast_iff)
  qed
qed

lemma low_less_64: "k \<in> bits (low_bits x) \<Longrightarrow> k < 64"
  using bit_imp_le_length [of "low_bits x" k] by simp

lemma zero_halves: "x = 0 \<longleftrightarrow> low_bits x = 0 \<and> high_bits x = 0"
  by (metis bits_empty_iff bits_halves image_is_empty sup_eq_bot_iff)

lemma popcount_128_card: "popcount_128 x = card (bits x)"
proof -
  have "card ((\<lambda>k. 64 + k) ` bits (high_bits x)) = card (bits (high_bits x))"
    by (rule card_image) (simp add: inj_on_def)
  moreover have "bits (low_bits x) \<inter> (\<lambda>k. 64 + k) ` bits (high_bits x) = {}"
    by (auto dest: low_less_64 [simplified])
  ultimately show ?thesis
    unfolding popcount_128_def Let_def popcount_card bits_halves [of x]
    by (subst card_Un_disjoint) simp_all
qed

lemma countl_zero_128_clz: "countl_zero_128 x = clz x"
proof (cases "high_bits x = 0")
  case True
  then have "bits x = bits (low_bits x)" using bits_halves [of x] by simp
  then show ?thesis using True Max_bits_less [of "low_bits x"] zero_halves [of x]
    by (simp add: countl_zero_128_def clz_Max del: Max_less_iff) linarith
next
  case False
  let ?H = "(\<lambda>k. 64 + k) ` bits (high_bits x)"
  have ne: "bits (high_bits x) \<noteq> {}" using False by simp
  have "Max ?H = 64 + Max (bits (high_bits x))"
    by (rule mono_Max_commute [symmetric]) (use ne in \<open>auto simp: mono_def\<close>)
  moreover have "Max (bits x) = Max ?H"
  proof (rule Max_eqI)
    show "Max ?H \<in> bits x" unfolding bits_halves [of x]
      using Max_in [of ?H] ne by simp
    show "k \<le> Max ?H" if "k \<in> bits x" for k
    proof -
      from that consider "k < 64" | "k \<in> ?H" unfolding bits_halves [of x] using low_less_64 by blast
      then show ?thesis
        by cases (use \<open>Max ?H = 64 + Max (bits (high_bits x))\<close> in \<open>auto intro: Max_ge\<close>)
    qed
  qed simp
  ultimately show ?thesis using False Max_bits_less [OF False] zero_halves [of x]
    by (simp add: countl_zero_128_def clz_Max del: Max_less_iff)
qed

lemma countr_zero_128_ctz: "countr_zero_128 x = ctz x"
proof (cases "low_bits x = 0")
  case True
  then have b: "bits x = (\<lambda>k. 64 + k) ` bits (high_bits x)" using bits_halves [of x] by simp
  show ?thesis
  proof (cases "high_bits x = 0")
    case False
    then have "Min (bits x) = 64 + Min (bits (high_bits x))"
      unfolding b by (intro mono_Min_commute [symmetric]) (auto simp: mono_def)
    with True False zero_halves [of x] show ?thesis by (simp add: countr_zero_128_def ctz_Min)
  qed (use True zero_halves [of x] in \<open>simp add: countr_zero_128_def ctz_Min\<close>)
next
  case False
  then have ne: "bits (low_bits x) \<noteq> {}" by simp
  have "Min (bits x) = Min (bits (low_bits x))"
  proof (rule Min_eqI)
    show "Min (bits (low_bits x)) \<in> bits x" unfolding bits_halves [of x]
      using Min_in [OF finite_bits ne] by blast
    show "Min (bits (low_bits x)) \<le> k" if "k \<in> bits x" for k
    proof -
      have "Min (bits (low_bits x)) < 64" using Min_in [OF finite_bits ne] by (rule low_less_64)
      with that show ?thesis unfolding bits_halves [of x]
        by (auto intro: Min_le)
    qed
  qed simp
  with False zero_halves [of x] show ?thesis by (simp add: countr_zero_128_def ctz_Min)
qed

section \<open>Properties\<close>

text \<open>\<open>popcount_fallback\<close> returns the number of set bits of every word of 1 to 16 bytes, the bound
its static assertion states (the byte sums of a wider word would overflow).\<close>

theorem popcount_fallback_correct:
  assumes "whole_bytes TYPE('a::len)" and "n_bytes TYPE('a) \<le> 16"
  shows "popcount_fallback (x :: 'a word) = card {i. bit x i}"
  using popcount_fallback_card [OF assms, of x] by (simp add: bits_def)

theorem popcount_fallback_witness: "popcount_fallback (0xF0F1 :: 16 word) = card {i. bit (0xF0F1 :: 16 word) i}"
  by (rule popcount_fallback_correct) (simp_all add: n_bytes_def)

text \<open>The portable zero counters return the number of leading and of trailing zero bits, the width for
zero, on every word of 1 to 16 bytes; so do the 128 bit versions assembled from two 64 bit halves.\<close>

theorem count_zero_fallbacks_correct:
  assumes "whole_bytes TYPE('a::len)" and "n_bytes TYPE('a) \<le> 16"
  shows "countl_zero_fallback (x :: 'a word) = (if x = 0 then LENGTH('a) else LENGTH('a) - 1 - Max {i. bit x i})
    \<and> countr_zero_fallback x = (if x = 0 then LENGTH('a) else Min {i. bit x i})
    \<and> countl_zero_128 y = countl_zero_fallback y \<and> countr_zero_128 y = countr_zero_fallback y"
proof (intro conjI)
  show "countl_zero_fallback (x :: 'a word) = (if x = 0 then LENGTH('a) else LENGTH('a) - 1 - Max {i. bit x i})"
    and "countr_zero_fallback x = (if x = 0 then LENGTH('a) else Min {i. bit x i})"
    using assms by (simp_all add: countl_zero_fallback_clz countr_zero_fallback_ctz clz_Max ctz_Min bits_def)
  show "countl_zero_128 y = countl_zero_fallback y" and "countr_zero_128 y = countr_zero_fallback y"
    by (simp_all add: countl_zero_128_clz countr_zero_128_ctz countl_zero_fallback_clz countr_zero_fallback_ctz n_bytes_def)
qed

theorem count_zero_fallbacks_witness:
  "countr_zero_fallback (0x90 :: 8 word) = (if (0x90 :: 8 word) = 0 then LENGTH(8) else Min {i. bit (0x90 :: 8 word) i})"
proof -
  have "whole_bytes TYPE(8)" and "n_bytes TYPE(8) \<le> 16" by (simp_all add: n_bytes_def)
  from count_zero_fallbacks_correct [OF this, of "0x90" 0] show ?thesis by (elim conjE)
qed

text \<open>\<open>bit_ceil\<close> and its portable fallback round up to a power of two: for \<open>1 < x \<le> 2 ^ (n - 1)\<close> both return
the \<open>2 ^ e\<close> with \<open>x \<le> 2 ^ e < 2 x\<close>, without overflow.\<close>

theorem bit_ceil_least_power:
  assumes "whole_bytes TYPE('a::len)" and "1 < unat x" and "unat (x :: 'a word) \<le> 2 ^ (LENGTH('a) - 1)"
  shows "\<exists>e. bit_ceil_fallback x = 2 ^ e \<and> bit_ceil x = 2 ^ e \<and> e < LENGTH('a)
    \<and> unat x \<le> unat (bit_ceil x) \<and> unat (bit_ceil x) < 2 * unat x"
  using bit_ceil_power [OF assms] by (metis unat_exp)

theorem bit_ceil_witness:
  "\<exists>e. bit_ceil_fallback (37 :: 64 word) = 2 ^ e \<and> bit_ceil (37 :: 64 word) = 2 ^ e \<and> e < LENGTH(64)
    \<and> unat (37 :: 64 word) \<le> unat (bit_ceil (37 :: 64 word)) \<and> unat (bit_ceil (37 :: 64 word)) < 2 * unat (37 :: 64 word)"
  by (rule bit_ceil_least_power) simp_all

text \<open>The rotation fallbacks rotate by any count, negative ones and multiples of the width included: bit \<open>k\<close>
of \<open>rotl_fallback x s\<close> is bit \<open>(k - s) mod n\<close> of \<open>x\<close>, and \<open>rotr_fallback\<close> undoes it.\<close>

theorem rot_fallbacks_correct:
  assumes "whole_bytes TYPE('a::len)" and "LENGTH('a) = 2 ^ e" and "k < LENGTH('a)"
  shows "(bit (rotl_fallback (x :: 'a word) s) k \<longleftrightarrow> bit x (nat ((int k - s) mod int LENGTH('a))))
    \<and> rotr_fallback (rotl_fallback x s) s = x"
proof (intro conjI)
  show "bit (rotl_fallback x s) k \<longleftrightarrow> bit x (nat ((int k - s) mod int LENGTH('a)))"
    by (rule bit_rotl_fallback(1) [OF assms])
  show "rotr_fallback (rotl_fallback x s) s = x"
  proof (rule bit_eqI)
    fix i assume "possible_bit TYPE('a word) i"
    then have i: "i < LENGTH('a)" by simp
    let ?j = "nat ((int i + s) mod int LENGTH('a))"
    have j: "?j < LENGTH('a)" "int ?j = (int i + s) mod int LENGTH('a)" by (simp_all add: nat_less_iff)
    have "bit (rotr_fallback (rotl_fallback x s) s) i \<longleftrightarrow> bit (rotl_fallback x s) ?j"
      by (rule bit_rotl_fallback(2) [OF assms(1,2) i])
    also have "\<dots> \<longleftrightarrow> bit x (nat ((int ?j - s) mod int LENGTH('a)))"
      by (rule bit_rotl_fallback(1) [OF assms(1,2) j(1)])
    also have "(int ?j - s) mod int LENGTH('a) = int i" using i by (simp add: j(2) mod_simps)
    finally show "bit (rotr_fallback (rotl_fallback x s) s) i \<longleftrightarrow> bit x i" by simp
  qed
qed

theorem rot_fallbacks_witness: "rotr_fallback (rotl_fallback (0x1234 :: 16 word) (- 5)) (- 5) = 0x1234"
  by (rule conjunct2 [OF rot_fallbacks_correct [where e = 4 and k = 0]]) simp_all

end
