(* ===== verification/Common.thy ===== *)
theory Common
  imports BitOps
begin

text \<open>
  The shared vocabulary of common.hpp: bit masks derived from power-of-two sizes, rounding,
  slot states, LRU stamps, positions and the feature flags. A \<open>bitmask_t\<close> is a 64 bit word;
  \<open>int_t\<close> values (sizes, capacities, counters) are integers, which the code keeps far below
  the limits of the type; a \<open>raw_pos_t\<close> is a 64 bit word, as it is allowed to wrap.
\<close>

section \<open>Masks\<close>

definition make_aligned_mask :: "int \<Rightarrow> int \<Rightarrow> u64" where
  "make_aligned_mask n alignment = word_of_int (n - alignment)"

definition make_size_mask :: "int \<Rightarrow> u64" where
  "make_size_mask n = make_aligned_mask n 1"

definition is_size_mask :: "u64 \<Rightarrow> bool" where
  "is_size_mask m = (let m = m + 1 in m = 0 \<or> (m \<noteq> 0 \<and> m AND (m - 1) = 0))"

definition aligned_mask_to_capacity :: "u64 \<Rightarrow> int \<Rightarrow> int" where
  "aligned_mask_to_capacity m alignment = sint m + alignment"

section \<open>Rounding\<close>

text \<open>C++ integer division truncates towards zero; both functions are used on non-negative values.\<close>

definition ceil_div :: "int \<Rightarrow> int \<Rightarrow> int" where
  "ceil_div x n = (let a = x + n - 1 in sgn a * (\<bar>a\<bar> div n))"

definition round_up :: "int \<Rightarrow> int \<Rightarrow> int" where
  "round_up x n = ceil_div x n * n"

lemma round_up_least:
  assumes "0 \<le> x" and "0 < n"
  shows "x \<le> round_up x n" and "round_up x n < x + n" and "n dvd round_up x n"
proof -
  have e: "ceil_div x n = (x + n - 1) div n"
    using assms by (cases "x + n - 1 = 0") (simp_all add: ceil_div_def Let_def)
  have d: "n * ((x + n - 1) div n) + (x + n - 1) mod n = x + n - 1" by simp
  have "0 \<le> (x + n - 1) mod n" and "(x + n - 1) mod n < n" using assms by simp_all
  then show "x \<le> round_up x n" and "round_up x n < x + n"
    using d unfolding round_up_def e by (subst mult.commute, linarith)+
  show "n dvd round_up x n" by (simp add: round_up_def)
qed

section \<open>Slot states, LRU stamps and positions\<close>

text \<open>
  A slot holds the seven bit fingerprint of a hash, or a negative value: \<open>empty_state\<close> or
  \<open>tombstone_state\<close> (raw_map_base.hpp). The sign bit of the byte tells them apart.
\<close>

type_synonym state_t = u8
type_synonym raw_pos_t = u64
type_synonym bitmask_t = u64
type_synonym lru_t = u8

definition num_state_bits :: nat where
  "num_state_bits = 7"

definition state_mask :: bitmask_t where
  "state_mask = make_size_mask (2 ^ num_state_bits)"

definition is_hash :: "state_t \<Rightarrow> bool" where
  "is_hash s \<longleftrightarrow> 0 \<le> sint s"

definition is_not_hash :: "state_t \<Rightarrow> bool" where
  "is_not_hash s \<longleftrightarrow> sint s < 0"

definition max_lru :: lru_t where
  "max_lru = 255"

definition default_lru :: lru_t where
  "default_lru = max_lru div 2"

definition align_pos :: "bitmask_t \<Rightarrow> raw_pos_t \<Rightarrow> raw_pos_t" where
  "align_pos m pos = pos AND m"

lemma is_not_hash_iff [simp]: "is_not_hash s \<longleftrightarrow> \<not> is_hash s"
  by (auto simp: is_not_hash_def is_hash_def)

lemma is_hash_iff_bit: "is_hash s \<longleftrightarrow> \<not> bit s 7"
  using bit_last_iff [of s] by (auto simp: is_hash_def)

section \<open>Flags\<close>

type_synonym flags_t = u64

definition flag_none :: flags_t where "flag_none = 0"
definition flag_blobs :: flags_t where "flag_blobs = 1"
definition flag_duplicates :: flags_t where "flag_duplicates = 2"
definition flag_aggressive_prefetch :: flags_t where "flag_aggressive_prefetch = 4"
definition flag_auto_scrub :: flags_t where "flag_auto_scrub = 8"
definition flag_auto_shrink :: flags_t where "flag_auto_shrink = 16"

definition test_flags :: "flags_t \<Rightarrow> flags_t \<Rightarrow> bool" where
  "test_flags f q \<longleftrightarrow> f AND q = q"

section \<open>Masks of power-of-two sizes\<close>

text \<open>
  The mask of capacity \<open>2 ^ c\<close> and alignment \<open>2 ^ k\<close> keeps the bits from \<open>k\<close> to \<open>c - 1\<close>: applied to
  a position it is the position modulo the capacity, rounded down to a multiple of the alignment.
\<close>

lemma bit_aligned_mask:
  assumes "k \<le> c" and "c < 64"
  shows "bit (make_aligned_mask (2 ^ c) (2 ^ k)) i \<longleftrightarrow> k \<le> i \<and> i < c"
proof -
  have "(2 :: int) ^ c = 2 ^ (c - k) * 2 ^ k" using assms(1) by (simp flip: power_add)
  then have "(2 :: int) ^ c - 2 ^ k = push_bit k (mask (c - k))"
    by (simp add: push_bit_eq_mult mask_eq_exp_minus_1 algebra_simps)
  then have "bit ((2 :: int) ^ c - 2 ^ k) i \<longleftrightarrow> k \<le> i \<and> i < c"
    using assms(1) by (auto simp: bit_push_bit_iff bit_mask_iff)
  then show ?thesis using assms(2)
    by (simp only: make_aligned_mask_def bit_word_of_int_iff) auto
qed


lemma unat_and_aligned_mask:
  assumes "k \<le> c" and "c < 64"
  shows "unat (pos AND make_aligned_mask (2 ^ c) (2 ^ k)) = 2 ^ k * (unat pos div 2 ^ k mod 2 ^ (c - k))"
proof -
  have "unat (pos AND make_aligned_mask (2 ^ c) (2 ^ k)) = push_bit k (take_bit (c - k) (drop_bit k (unat pos)))"
  proof (rule bit_eqI)
    fix i
    show "bit (unat (pos AND make_aligned_mask (2 ^ c) (2 ^ k))) i
        \<longleftrightarrow> bit (push_bit k (take_bit (c - k) (drop_bit k (unat pos)))) i"
      using assms by (auto simp: bit_unsigned_iff bit_and_iff bit_aligned_mask bit_push_bit_iff
          bit_take_bit_iff bit_drop_bit_eq)
  qed
  then show ?thesis
    by (simp add: push_bit_eq_mult take_bit_eq_mod drop_bit_eq_div mult.commute)
qed

lemma is_size_mask_iff: "is_size_mask m \<longleftrightarrow> (\<exists>e\<le>64. m = mask e)"
proof -
  have single: "m + 1 \<noteq> 0 \<and> (m + 1) AND m = 0 \<longleftrightarrow> (\<exists>e<64. m + 1 = 2 ^ e)"
    using has_single_bit_iff [of "m + 1"] bits_singleton [of "m + 1"]
    by (simp add: has_single_bit_fallback_def)
  have e: "m + 1 = 2 ^ e \<longleftrightarrow> m = mask e" for e
    by (simp add: mask_eq_exp_minus_1 eq_diff_eq)
  have "m + 1 = 0 \<longleftrightarrow> m = mask 64"
  proof -
    have "(mask 64 :: u64) = - 1" using mask_full [where 'a = 64] by simp
    then show ?thesis by (metis add_eq_0_iff add.commute)
  qed
  then show ?thesis
    using single by (auto simp: is_size_mask_def Let_def e le_less)
qed

text \<open>A mask made from a capacity gives the capacity back.\<close>

lemma aligned_mask_to_capacity_inverse:
  assumes "k \<le> c" and "c < 63"
  shows "aligned_mask_to_capacity (make_aligned_mask (2 ^ c) (2 ^ k)) (2 ^ k) = 2 ^ c"
proof -
  have "(2 :: int) ^ k \<le> 2 ^ c" using assms(1) by (rule power_increasing) simp
  moreover have "(2 :: int) ^ c < 2 ^ 63" using assms(2) by (rule power_strict_increasing) simp
  moreover have "(0 :: int) < 2 ^ k" by simp
  ultimately have r: "0 \<le> (2 :: int) ^ c - 2 ^ k" "(2 :: int) ^ c - 2 ^ k < 2 ^ 63" by linarith+
  have "sint (word_of_int (2 ^ c - 2 ^ k) :: u64) = signed_take_bit 63 (2 ^ c - 2 ^ k)"
    by (simp only: signed_of_int) simp
  also have "\<dots> = 2 ^ c - 2 ^ k" using r by (intro signed_take_bit_int_eq_self) linarith+
  finally show ?thesis by (simp only: aligned_mask_to_capacity_def make_aligned_mask_def)
qed

end
