(* ===== verification/Hash.thy ===== *)
theory Hash
  imports Common
begin

text \<open>
  hash.hpp: the optional mixing step of a key's hash, and how a hash is split into a position,
  a seven bit state (fingerprint) and a shard index under each of the two layouts. The hash
  function of the key type (\<open>std::hash\<close> by default) is a parameter; the mixer and the layout
  are those of the generated configuration header.
\<close>

datatype hash_mixer = Mixer_none | Marsaglia

datatype hash_layout = Traditional | Monkey_wrench

type_synonym hash_t = u64

definition max_num_shards :: int where
  "max_num_shards = 16384"

definition num_shard_bits :: nat where
  "num_shard_bits = 14"

text \<open>\<open>num_kernel_bits\<close> is \<open>countr_zero\<close> of the kernel size.\<close>

definition hash_to_pos :: "hash_layout \<Rightarrow> nat \<Rightarrow> hash_t \<Rightarrow> raw_pos_t" where
  "hash_to_pos layout num_kernel_bits h = (case layout of
       Traditional \<Rightarrow> (if num_kernel_bits \<ge> num_state_bits
         then push_bit (num_kernel_bits - num_state_bits) h
         else drop_bit (num_state_bits - num_kernel_bits) h)
     | Monkey_wrench \<Rightarrow> push_bit num_kernel_bits h)"

definition hash_to_state :: "hash_layout \<Rightarrow> hash_t \<Rightarrow> state_t" where
  "hash_to_state layout h = (case layout of
       Traditional \<Rightarrow> ucast (h AND state_mask)
     | Monkey_wrench \<Rightarrow> ucast (drop_bit (64 - num_state_bits) h))"

definition hash_to_shard_idx :: "hash_layout \<Rightarrow> hash_t \<Rightarrow> int" where
  "hash_to_shard_idx layout h = (case layout of
       Traditional \<Rightarrow> sint (drop_bit (64 - num_shard_bits) h)
     | Monkey_wrench \<Rightarrow> sint (drop_bit (64 - num_state_bits - num_shard_bits) h))"

definition marsaglia_mix :: "hash_t \<Rightarrow> hash_t" where
  "marsaglia_mix h = (
     let c = 0xde5fb9d2630458e9;
         h128 = (ucast h :: 128 word) * c
     in low_bits h128 + high_bits h128)"

definition key_to_hash :: "('k \<Rightarrow> hash_t) \<Rightarrow> hash_mixer \<Rightarrow> 'k \<Rightarrow> hash_t" where
  "key_to_hash hasher mixer key = (let h = hasher key in
     case mixer of Mixer_none \<Rightarrow> h | Marsaglia \<Rightarrow> marsaglia_mix h)"

definition key_to_state :: "hash_layout \<Rightarrow> ('k \<Rightarrow> hash_t) \<Rightarrow> hash_mixer \<Rightarrow> 'k \<Rightarrow> state_t" where
  "key_to_state layout hasher mixer key = hash_to_state layout (key_to_hash hasher mixer key)"

definition num_pos_bits :: nat where
  "num_pos_bits = 64 - num_state_bits - num_shard_bits"

definition max_capacity :: int where
  "max_capacity = 2 ^ num_pos_bits"

section \<open>The fingerprint is a hash state\<close>

lemma state_mask_bits: "bit state_mask i \<longleftrightarrow> i < 7"
  using bit_aligned_mask [of 0 7 i]
  by (simp add: state_mask_def num_state_bits_def make_size_mask_def)

lemma is_hash_hash_to_state [simp]: "is_hash (hash_to_state layout h)"
  by (cases layout)
     (auto simp: is_hash_iff_bit hash_to_state_def bit_ucast_iff bit_and_iff bit_drop_bit_eq
       state_mask_bits num_state_bits_def dest: bit_imp_le_length)

text \<open>
  The Marsaglia step adds the two halves of a 128 bit product: it is the product modulo
  \<open>2 ^ 64 - 1\<close>, up to the two representations of zero and the carry the addition drops.
\<close>

lemma uint_marsaglia_mix:
  "uint (marsaglia_mix h) = (let p = uint h * 0xde5fb9d2630458e9 in (p mod 2 ^ 64 + p div 2 ^ 64) mod 2 ^ 64)"
proof -
  let ?c = "0xde5fb9d2630458e9 :: 128 word"
  have "uint h * 0xde5fb9d2630458e9 < 2 ^ 128"
  proof -
    have "uint h < 2 ^ 64" using uint_lt2p [of h] by simp
    then have "uint h * 0xde5fb9d2630458e9 \<le> 2 ^ 64 * 0xde5fb9d2630458e9" by simp
    then show ?thesis by simp
  qed
  moreover have "uint (ucast h :: 128 word) = uint h" 
    using uint_lt2p [of h] by (simp add: unsigned_ucast_eq take_bit_int_eq_self)
  ultimately have p: "uint ((ucast h :: 128 word) * ?c) = uint h * 0xde5fb9d2630458e9"
    by (simp add: uint_word_ariths)
  have lo: "uint (low_bits w) = uint w mod 2 ^ 64" for w
    by (simp add: low_bits_def unsigned_ucast_eq take_bit_eq_mod)
  have hi: "uint (high_bits w) = uint w div 2 ^ 64" for w
  proof -
    have "uint (high_bits w) = drop_bit 64 (uint w)"
      by (rule bit_eqI) (auto simp: high_bits_def bit_uint_iff bit_ucast_iff bit_drop_bit_eq
          dest: bit_imp_le_length)
    then show ?thesis by (simp only: drop_bit_eq_div)
  qed
  let ?p = "(ucast h :: 128 word) * ?c"
  have "uint (marsaglia_mix h) = (uint (low_bits ?p) + uint (high_bits ?p)) mod 2 ^ 64"
    unfolding marsaglia_mix_def Let_def by (subst uint_word_ariths(1)) simp
  then show ?thesis by (simp only: lo hi p Let_def)
qed

end
