(* ===== verification/ProbeSeq.thy ===== *)
theory ProbeSeq
  imports Common
begin

text \<open>
  The probe sequences of probe_seq.hpp. A sequence starts at the position a hash gives and is
  advanced by the kernel size; \<open>next\<close> is its current position, to be reduced by the caller's
  bucket mask. The aligned variants rotate through an aligned block of \<open>Alignment\<close> slots before
  they leave it; the specialisations for alignment 0 do not. The class template becomes a record
  of its operations; the locale \<open>probe_laws\<close> is what the hash table relies on: an unbounded
  sequence whose first (capacity / kernel size) positions are pairwise different buckets, hence
  all buckets.
\<close>

section \<open>The sequences\<close>

record probe_seq =
  base :: raw_pos_t
  shift :: int
  psl :: int

definition splice_pos :: "int \<Rightarrow> raw_pos_t \<Rightarrow> raw_pos_t \<times> int" where
  "splice_pos sz pos = (
     let m = make_size_mask sz
     in (align_pos (NOT m) pos, sint (align_pos m pos)))"

definition probe_has_next :: "int \<Rightarrow> probe_seq \<Rightarrow> bool" where
  "probe_has_next max_length q = (if max_length \<ge> 0 then psl q < max_length else True)"

definition probe_add :: "int \<Rightarrow> probe_seq \<Rightarrow> probe_seq" where
  "probe_add n q = q\<lparr>psl := psl q + n\<rparr>"

definition unaligned_init :: "raw_pos_t \<Rightarrow> probe_seq" where
  "unaligned_init pos = \<lparr>base = pos, shift = 0, psl = 0\<rparr>"

definition aligned_init :: "int \<Rightarrow> raw_pos_t \<Rightarrow> probe_seq" where
  "aligned_init alignment pos = (
     let (b, s) = splice_pos alignment pos in \<lparr>base = b, shift = s, psl = 0\<rparr>)"

definition linear_next :: "int \<Rightarrow> probe_seq \<Rightarrow> raw_pos_t" where
  "linear_next alignment q = (
     let alignment_mask = make_size_mask alignment;
         maj = align_pos (NOT alignment_mask) (word_of_int (psl q));
         min = align_pos alignment_mask (word_of_int (psl q + shift q))
     in base q + maj + min)"

definition linear0_next :: "probe_seq \<Rightarrow> raw_pos_t" where
  "linear0_next q = base q + word_of_int (psl q)"

definition quadratic_next :: "int \<Rightarrow> probe_seq \<Rightarrow> raw_pos_t" where
  "quadratic_next alignment q =
     base q + align_pos (make_size_mask alignment) (word_of_int (psl q + shift q))"

definition quadratic_add :: "int \<Rightarrow> int \<Rightarrow> probe_seq \<Rightarrow> probe_seq" where
  "quadratic_add alignment n q = (
     let q = probe_add n q
     in q\<lparr>base := base q +
       (if align_pos (make_size_mask alignment) (word_of_int (psl q)) \<noteq> 0 then 0 else word_of_int (psl q))\<rparr>)"

definition quadratic0_next :: "probe_seq \<Rightarrow> raw_pos_t" where
  "quadratic0_next q = base q"

definition quadratic0_add :: "int \<Rightarrow> probe_seq \<Rightarrow> probe_seq" where
  "quadratic0_add n q = (let q = probe_add n q in q\<lparr>base := base q + word_of_int (psl q)\<rparr>)"

text \<open>A sequence class is the record of its members; \<open>inf_psl\<close> makes it unbounded.\<close>

definition inf_psl :: int where
  "inf_psl = - 1"

record 'q probe_ops =
  pq_init :: "raw_pos_t \<Rightarrow> 'q"
  pq_has_next :: "'q \<Rightarrow> bool"
  pq_next :: "'q \<Rightarrow> raw_pos_t"
  pq_psl :: "'q \<Rightarrow> int"
  pq_add :: "int \<Rightarrow> 'q \<Rightarrow> 'q"

definition linear_seq :: "int \<Rightarrow> int \<Rightarrow> probe_seq probe_ops" where
  "linear_seq alignment max_length = (if alignment = 0
     then \<lparr>pq_init = unaligned_init, pq_has_next = probe_has_next max_length, pq_next = linear0_next,
           pq_psl = psl, pq_add = probe_add\<rparr>
     else \<lparr>pq_init = aligned_init alignment, pq_has_next = probe_has_next max_length,
           pq_next = linear_next alignment, pq_psl = psl, pq_add = probe_add\<rparr>)"

definition quadratic_seq :: "int \<Rightarrow> int \<Rightarrow> probe_seq probe_ops" where
  "quadratic_seq alignment max_length = (if alignment = 0
     then \<lparr>pq_init = unaligned_init, pq_has_next = probe_has_next max_length, pq_next = quadratic0_next,
           pq_psl = psl, pq_add = quadratic0_add\<rparr>
     else \<lparr>pq_init = aligned_init alignment, pq_has_next = probe_has_next max_length,
           pq_next = quadratic_next alignment, pq_psl = psl, pq_add = quadratic_add alignment\<rparr>)"

section \<open>Triangular numbers and blocks\<close>

definition tri :: "nat \<Rightarrow> nat" where
  "tri q = (\<Sum>j\<le>q. j)"

lemma tri_Suc: "tri (Suc q) = tri q + Suc q"
  by (simp add: tri_def)

lemma tri_0 [simp]: "tri 0 = 0"
  by (simp add: tri_def)

lemma tri_double: "2 * tri q = q * (q + 1)"
  by (induction q) (simp_all add: tri_Suc algebra_simps)

lemma tri_inj: "inj_on (\<lambda>q. (b + tri q) mod 2 ^ r) {..<2 ^ r}"
proof -
  have main: False if "p < q" "q < 2 ^ r" "(b + tri p) mod 2 ^ r = (b + tri q) mod 2 ^ r" for p q
  proof -
    have "tri p \<le> tri q" using \<open>p < q\<close> by (simp add: tri_def sum_mono2)
    have "2 ^ r dvd (b + tri q) - (b + tri p)"
      using mod_eq_dvd_iff_nat [of "b + tri p" "b + tri q" "2 ^ r"] that(3) \<open>tri p \<le> tri q\<close>
      by (metis add_left_mono)
    then have "2 ^ r dvd tri q - tri p" by simp
    then have "2 ^ Suc r dvd 2 * tri q - 2 * tri p" by (simp flip: diff_mult_distrib2)
    also have "2 * tri q - 2 * tri p = (q - p) * (q + p + 1)"
    proof -
      have "int (2 * tri q) - int (2 * tri p) = (int q - int p) * (int q + int p + 1)"
        unfolding tri_double by (simp add: algebra_simps)
      also have "\<dots> = int ((q - p) * (q + p + 1))" using \<open>p < q\<close> by (simp only: of_nat_mult of_nat_diff less_imp_le) simp
      finally show ?thesis using \<open>tri p \<le> tri q\<close> by linarith
    qed
    finally have d: "2 ^ Suc r dvd (q - p) * (q + p + 1)" .
    have "2 ^ Suc r dvd q - p \<or> 2 ^ Suc r dvd q + p + 1"
    proof (cases "even (q - p)")
      case True
      then have "odd (q + p + 1)" using \<open>p < q\<close> by presburger
      then have "coprime (2 ^ Suc r) (q + p + 1)" by simp
      then show ?thesis using d coprime_dvd_mult_left_iff by blast
    next
      case False
      then have "coprime (2 ^ Suc r) (q - p)" by simp
      then show ?thesis using d coprime_dvd_mult_right_iff by blast
    qed
    moreover have "0 < q - p" "q - p < 2 ^ Suc r" "0 < q + p + 1" "q + p + 1 < 2 ^ Suc r"
      using that(1,2) by simp_all
    ultimately show False by (auto dest!: dvd_imp_le)
  qed
  show ?thesis
  proof (rule inj_onI)
    fix p q assume "p \<in> {..<2 ^ r}" "q \<in> {..<2 ^ r}" "(b + tri p) mod 2 ^ r = (b + tri q) mod 2 ^ r"
    then show "p = q" using main [of p q] main [of q p] by (cases p q rule: linorder_cases) auto
  qed
qed

lemma shift_inj: "inj_on (\<lambda>q. (b + q) mod 2 ^ r) {..<2 ^ r :: nat}"
proof -
  have main: False if "p < q" "q < 2 ^ r" "(b + p) mod 2 ^ r = (b + q) mod 2 ^ r" for p q :: nat
  proof -
    have "2 ^ r dvd (b + q) - (b + p)"
      using mod_eq_dvd_iff_nat [of "b + p" "b + q" "2 ^ r"] that by simp
    then show False using that(1,2) by (auto dest!: dvd_imp_le)
  qed
  show ?thesis
  proof (rule inj_onI)
    fix p q :: nat
    assume "p \<in> {..<2 ^ r}" "q \<in> {..<2 ^ r}" "(b + p) mod 2 ^ r = (b + q) mod 2 ^ r"
    then show "p = q" using main [of p q] main [of q p] by (cases p q rule: linorder_cases) auto
  qed
qed

text \<open>
  A sequence that rotates through blocks of \<open>2 ^ p\<close> buckets and goes from block to block along \<open>B\<close>.
\<close>

definition block_index :: "nat \<Rightarrow> (nat \<Rightarrow> nat) \<Rightarrow> nat \<Rightarrow> nat \<Rightarrow> nat" where
  "block_index p B s i = 2 ^ p * B (i div 2 ^ p) + (i + s) mod 2 ^ p"

lemma block_index_inj:
  assumes B: "\<And>r. inj_on (\<lambda>q. B q mod 2 ^ r) {..<2 ^ r}"
  shows "inj_on (\<lambda>i. block_index p B s i mod 2 ^ n) {..<2 ^ n}"
proof (cases "n \<le> p")
  case True
  have "block_index p B s i mod 2 ^ n = (s + i) mod 2 ^ n" for i
  proof -
    have "(2 :: nat) ^ n dvd 2 ^ p" using True by (rule le_imp_power_dvd)
    then have "block_index p B s i mod 2 ^ n = (i + s) mod 2 ^ p mod 2 ^ n"
      unfolding block_index_def by (metis dvd_mult2 mod_add_left_eq add_0 mod_0_imp_dvd dvd_imp_mod_0)
    also have "\<dots> = (i + s) mod 2 ^ n" using \<open>2 ^ n dvd 2 ^ p\<close> by (rule mod_mod_cancel)
    finally show ?thesis by (simp add: add.commute)
  qed
  then show ?thesis using shift_inj [of s n] by simp
next
  case False
  define r where "r = n - p"
  have n: "n = p + r" using False by (simp add: r_def)
  show ?thesis
  proof (rule inj_onI)
    fix i j assume i: "i \<in> {..<2 ^ n}" and j: "j \<in> {..<2 ^ n}"
      and eq: "block_index p B s i mod 2 ^ n = block_index p B s j mod 2 ^ n"
    let ?m = "2 ^ p :: nat"
    have dm: "block_index p B s x mod 2 ^ n = ?m * (B (x div ?m) mod 2 ^ r) + (x + s) mod ?m" for x
    proof -
      have "block_index p B s x mod (?m * 2 ^ r)
          = ?m * (block_index p B s x div ?m mod 2 ^ r) + block_index p B s x mod ?m"
        by (rule mod_mult2_eq)
      moreover have "block_index p B s x div ?m = B (x div ?m)" "block_index p B s x mod ?m = (x + s) mod ?m"
        by (simp_all add: block_index_def)
      ultimately show ?thesis by (simp add: n power_add)
    qed
    have "(?m * (B (i div ?m) mod 2 ^ r) + (i + s) mod ?m) div ?m
        = (?m * (B (j div ?m) mod 2 ^ r) + (j + s) mod ?m) div ?m"
      and "(?m * (B (i div ?m) mod 2 ^ r) + (i + s) mod ?m) mod ?m
        = (?m * (B (j div ?m) mod 2 ^ r) + (j + s) mod ?m) mod ?m"
      using eq unfolding dm by simp_all
    then have bl: "B (i div ?m) mod 2 ^ r = B (j div ?m) mod 2 ^ r" and lo: "(i + s) mod ?m = (j + s) mod ?m"
      by simp_all
    have "i div ?m < 2 ^ r" "j div ?m < 2 ^ r"
      using i j by (simp_all add: n power_add less_mult_imp_div_less mult.commute)
    then have d: "i div ?m = j div ?m" using inj_onD [OF B bl] by simp
    have "(s + x mod ?m) mod ?m = (x + s) mod ?m" for x by (simp add: mod_simps add.commute)
    with lo have "(s + i mod ?m) mod ?m = (s + j mod ?m) mod ?m" by metis
    then have "i mod ?m = j mod ?m" by (rule inj_onD [OF shift_inj]) simp_all
    with d show "i = j" by (metis div_mult_mod_eq)
  qed
qed

section \<open>What a hash table needs of a sequence\<close>

text \<open>The state of a sequence after \<open>i\<close> advances by the kernel size \<open>2 ^ k\<close>.\<close>

definition probe_iter :: "'q probe_ops \<Rightarrow> nat \<Rightarrow> raw_pos_t \<Rightarrow> nat \<Rightarrow> 'q" where
  "probe_iter pq k pos i = (pq_add pq (2 ^ k) ^^ i) (pq_init pq pos)"

lemma probe_iter_0 [simp]: "probe_iter pq k pos 0 = pq_init pq pos"
  by (simp add: probe_iter_def)

lemma probe_iter_Suc: "probe_iter pq k pos (Suc i) = pq_add pq (2 ^ k) (probe_iter pq k pos i)"
  by (simp add: probe_iter_def)

locale probe_laws =
  fixes pq :: "'q probe_ops" and k :: nat
  assumes unbounded: "pq_has_next pq q"
    and psl_init: "pq_psl pq (pq_init pq pos) = 0"
    and psl_add: "pq_psl pq (pq_add pq n q) = pq_psl pq q + n"
    and distinct_buckets: "k \<le> c \<Longrightarrow> c < 64 \<Longrightarrow>
      inj_on (\<lambda>i. unat (pq_next pq (probe_iter pq k pos i) AND make_aligned_mask (2 ^ c) (2 ^ k)))
        {..<2 ^ (c - k)}"
begin

lemma psl_iter: "pq_psl pq (probe_iter pq k pos i) = int i * 2 ^ k"
  by (induction i) (simp_all add: probe_iter_Suc psl_init psl_add algebra_simps)

definition bucket_at :: "nat \<Rightarrow> raw_pos_t \<Rightarrow> nat \<Rightarrow> nat" where
  "bucket_at c pos i = unat (pq_next pq (probe_iter pq k pos i) AND make_aligned_mask (2 ^ c) (2 ^ k))"

lemma bucket_at_form:
  assumes "k \<le> c" and "c < 64"
  shows "bucket_at c pos i \<in> (\<lambda>j. 2 ^ k * j) ` {..<2 ^ (c - k)}"
  unfolding bucket_at_def unat_and_aligned_mask [OF assms] by (rule imageI) simp

text \<open>Every bucket is reached, exactly once, within the first \<open>2 ^ (c - k)\<close> positions.\<close>

lemma all_buckets:
  assumes "k \<le> c" and "c < 64"
  shows "bij_betw (bucket_at c pos) {..<2 ^ (c - k)} ((\<lambda>j. 2 ^ k * j) ` {..<2 ^ (c - k)})"
proof -
  let ?I = "{..<2 ^ (c - k)} :: nat set"
  let ?B = "(\<lambda>j. 2 ^ k * j) ` ?I"
  have inj: "inj_on (bucket_at c pos) ?I"
    using distinct_buckets [OF assms, of pos] unfolding bucket_at_def .
  have "card ?B = card ?I" by (rule card_image) (simp add: inj_on_def)
  moreover have "card (bucket_at c pos ` ?I) = card ?I" using inj by (rule card_image)
  moreover have "bucket_at c pos ` ?I \<subseteq> ?B" using bucket_at_form [OF assms] by blast
  ultimately have "bucket_at c pos ` ?I = ?B" by (intro card_subset_eq) simp_all
  with inj show ?thesis by (simp add: bij_betw_def)
qed

end

lemma probe_lawsI:
  assumes has: "\<And>q. pq_has_next pq q"
    and p0: "\<And>pos. pq_psl pq (pq_init pq pos) = 0"
    and pa: "\<And>n q. pq_psl pq (pq_add pq n q) = pq_psl pq q + n"
    and nxt: "\<And>pos i. pq_next pq (probe_iter pq k pos i) = word_of_nat (N pos i)"
    and idx: "\<And>pos i. N pos i div 2 ^ k = block_index p (B pos) (s pos) i"
    and inj: "\<And>pos r. inj_on (\<lambda>q. B pos q mod 2 ^ r) {..<2 ^ r}"
  shows "probe_laws pq k"
proof
  show "pq_has_next pq q" for q by (rule has)
  show "pq_psl pq (pq_init pq pos) = 0" for pos by (rule p0)
  show "pq_psl pq (pq_add pq n q) = pq_psl pq q + n" for n q by (rule pa)
  fix c pos assume c: "k \<le> c" "c < 64"
  have "unat (pq_next pq (probe_iter pq k pos i) AND make_aligned_mask (2 ^ c) (2 ^ k))
      = 2 ^ k * (block_index p (B pos) (s pos) i mod 2 ^ (c - k))" for i
  proof -
    have "unat (word_of_nat (N pos i) :: u64) = N pos i mod 2 ^ 64" by (simp add: unat_of_nat)
    moreover have "N pos i mod 2 ^ 64 div 2 ^ k mod 2 ^ (c - k) = N pos i div 2 ^ k mod 2 ^ (c - k)"
    proof -
      have "(2 :: nat) ^ 64 = 2 ^ k * 2 ^ (64 - k)" using c by (simp flip: power_add)
      then have "N pos i mod 2 ^ 64 div 2 ^ k = N pos i div 2 ^ k mod 2 ^ (64 - k)"
        by (simp only: \<open>2 ^ 64 = _\<close> mod_mult2_eq) simp
      moreover have "(2 :: nat) ^ (c - k) dvd 2 ^ (64 - k)" using c by (intro le_imp_power_dvd) simp
      ultimately show ?thesis by (simp add: mod_mod_cancel)
    qed
    ultimately show ?thesis using idx by (simp add: unat_and_aligned_mask [OF c] nxt)
  qed
  note form = this
  have inj_idx: "inj_on (\<lambda>i. block_index p (B pos) (s pos) i mod 2 ^ (c - k)) {..<2 ^ (c - k)}"
    by (rule block_index_inj [OF inj])
  show "inj_on (\<lambda>i. unat (pq_next pq (probe_iter pq k pos i) AND make_aligned_mask (2 ^ c) (2 ^ k)))
      {..<2 ^ (c - k)}"
    unfolding form by (rule inj_onI, rule inj_onD [OF inj_idx]) (simp_all only: mult_cancel1, simp)
qed

section \<open>The four sequences satisfy it\<close>

lemma size_mask: "make_size_mask (2 ^ a) = mask a"
  by (simp add: make_size_mask_def make_aligned_mask_def mask_eq_exp_minus_1)

lemma and_mask_of_nat: "(word_of_nat x :: u64) AND mask a = word_of_nat (x mod 2 ^ a)"
proof -
  have "take_bit a x = x mod 2 ^ a" by (rule take_bit_eq_mod)
  then show ?thesis by (simp only: take_bit_eq_mask [symmetric] take_bit_of_nat)
qed

lemma and_not_mask_of_nat: "(word_of_nat x :: u64) AND NOT (mask a) = word_of_nat (2 ^ a * (x div 2 ^ a))"
proof -
  let ?w = "word_of_nat x :: u64"
  have z: "(?w AND mask a) AND (?w AND NOT (mask a)) = 0"
    by (rule bit_eqI) (auto simp: bit_and_iff bit_not_iff)
  have o: "(?w AND mask a) OR (?w AND NOT (mask a)) = ?w"
    by (rule bit_eqI) (auto simp: bit_and_iff bit_not_iff bit_or_iff)
  have "?w = (?w AND mask a) + (?w AND NOT (mask a))"
    using word_plus_and_or [of "?w AND mask a" "?w AND NOT (mask a)"] unfolding z o by simp
  then have "?w AND NOT (mask a) = ?w - word_of_nat (x mod 2 ^ a)"
    by (simp add: and_mask_of_nat eq_diff_eq add.commute)
  also have "?w - word_of_nat (x mod 2 ^ a) = word_of_nat (x - x mod 2 ^ a)"
    by (simp add: of_nat_diff)
  also have "x - x mod 2 ^ a = 2 ^ a * (x div 2 ^ a)" by (simp add: minus_mod_eq_mult_div)
  finally show ?thesis .
qed

lemma aligned_init_form:
  assumes "a < 63"
  shows "aligned_init (2 ^ a) pos = \<lparr>base = word_of_nat (2 ^ a * (unat pos div 2 ^ a)),
    shift = int (unat pos mod 2 ^ a), psl = 0\<rparr>"
proof -
  have "pos AND mask a = word_of_nat (unat pos mod 2 ^ a)"
    using and_mask_of_nat [of "unat pos" a] by simp
  moreover have "sint (word_of_nat (unat pos mod 2 ^ a) :: u64) = int (unat pos mod 2 ^ a)"
  proof -
    have "unat pos mod 2 ^ a < 2 ^ a" by simp
    also have "(2 :: nat) ^ a \<le> 2 ^ 63" using assms by (intro power_increasing) simp_all
    finally have "int (unat pos mod 2 ^ a) < 2 ^ 63" by simp
    then show ?thesis by (simp add: signed_of_nat signed_take_bit_int_eq_self)
  qed
  moreover have "pos AND NOT (mask a) = word_of_nat (2 ^ a * (unat pos div 2 ^ a))"
    using and_not_mask_of_nat [of "unat pos" a] by simp
  ultimately show ?thesis
    by (simp add: aligned_init_def splice_pos_def Let_def size_mask align_pos_def)
qed

lemma word_of_int_nat: "word_of_int (int x) = word_of_nat x"
  by simp

lemma rotate_div: "(i * 2 ^ k + s) mod 2 ^ (k + p) div 2 ^ k = (i + s div 2 ^ k) mod 2 ^ p" for s :: nat
proof -
  have "(i * 2 ^ k + s) mod (2 ^ k * 2 ^ p)
      = 2 ^ k * ((i * 2 ^ k + s) div 2 ^ k mod 2 ^ p) + (i * 2 ^ k + s) mod 2 ^ k"
    by (rule mod_mult2_eq)
  then show ?thesis by (simp add: power_add)
qed

lemma linear_iter:
  assumes "a < 63"
  shows "probe_iter (linear_seq (2 ^ a) m) k pos i = \<lparr>base = word_of_nat (2 ^ a * (unat pos div 2 ^ a)),
    shift = int (unat pos mod 2 ^ a), psl = int (i * 2 ^ k)\<rparr>"
  by (induction i)
     (simp_all add: probe_iter_Suc linear_seq_def probe_add_def aligned_init_form [OF assms] algebra_simps)

lemma linear0_iter:
  "probe_iter (linear_seq 0 m) k pos i = \<lparr>base = pos, shift = 0, psl = int (i * 2 ^ k)\<rparr>"
  by (induction i)
     (simp_all add: probe_iter_Suc linear_seq_def probe_add_def unaligned_init_def algebra_simps)

lemma quadratic0_iter:
  "probe_iter (quadratic_seq 0 m) k pos i
    = \<lparr>base = word_of_nat (unat pos + 2 ^ k * tri i), shift = 0, psl = int (i * 2 ^ k)\<rparr>"
  by (induction i)
     (simp_all add: probe_iter_Suc quadratic_seq_def probe_add_def quadratic0_add_def unaligned_init_def
       tri_Suc algebra_simps)

lemma Suc_div_block:
  fixes m :: nat
  assumes "0 < m"
  shows "Suc i div m = (if Suc i mod m = 0 then Suc (i div m) else i div m)"
  by (simp add: div_Suc)

lemma quadratic_add_nat:
  assumes "psl q + n = int x"
  shows "quadratic_add (2 ^ a) n q = q\<lparr>psl := int x,
    base := base q + (if (word_of_nat (x mod 2 ^ a) :: u64) \<noteq> 0 then 0 else word_of_nat x)\<rparr>"
  using assms
  by (cases q) (simp only: quadratic_add_def probe_add_def Let_def size_mask align_pos_def probe_seq.simps
      word_of_int_nat and_mask_of_nat)

lemma quadratic_iter:
  assumes "k \<le> a" and "a < 63"
  shows "probe_iter (quadratic_seq (2 ^ a) m) k pos i
    = \<lparr>base = word_of_nat (2 ^ a * (unat pos div 2 ^ a) + 2 ^ a * tri (i div 2 ^ (a - k))),
       shift = int (unat pos mod 2 ^ a), psl = int (i * 2 ^ k)\<rparr>"
proof (induction i)
  case 0
  show ?case by (simp add: quadratic_seq_def aligned_init_form [OF assms(2)])
next
  case (Suc i)
  let ?m = "2 ^ (a - k) :: nat" and ?x = "Suc i * 2 ^ k"
  have A: "2 ^ a = 2 ^ k * ?m" using assms(1) by (simp flip: power_add)
  have psl: "int (i * 2 ^ k) + 2 ^ k = int ?x" by (simp add: algebra_simps)
  have dvd: "?x mod 2 ^ a = 0 \<longleftrightarrow> Suc i mod ?m = 0"
    by (simp only: A mult.commute [of "Suc i"] mod_mult_mult1) simp
  have z: "(word_of_nat (?x mod 2 ^ a) :: u64) = 0 \<longleftrightarrow> Suc i mod ?m = 0"
  proof -
    have "?x mod 2 ^ a < 2 ^ a" by simp
    also have "(2 :: nat) ^ a < 2 ^ 64" using assms(2) by (intro power_strict_increasing) simp_all
    finally have lt: "?x mod 2 ^ a < 2 ^ 64" .
    have "(word_of_nat (?x mod 2 ^ a) :: u64) = 0 \<longleftrightarrow> 2 ^ 64 dvd ?x mod 2 ^ a"
      by (simp only: word_of_nat_eq_0_iff) simp
    also have "\<dots> \<longleftrightarrow> ?x mod 2 ^ a = 0"
    proof
      assume "2 ^ 64 dvd ?x mod 2 ^ a"
      then show "?x mod 2 ^ a = 0" using nat_dvd_not_less [OF _ lt] by blast
    next
      assume "?x mod 2 ^ a = 0"
      then show "2 ^ 64 dvd ?x mod 2 ^ a" by (simp only: dvd_0_right)
    qed
    finally have "(word_of_nat (?x mod 2 ^ a) :: u64) = 0 \<longleftrightarrow> ?x mod 2 ^ a = 0" .
    then show ?thesis by (simp only: dvd)
  qed
  have x: "?x = 2 ^ a * (Suc i div ?m)" if "Suc i mod ?m = 0"
  proof -
    have "Suc i = ?m * (Suc i div ?m)" using that mult_div_mod_eq [of ?m "Suc i"] by simp
    then have "2 ^ k * Suc i = 2 ^ k * (?m * (Suc i div ?m))" by simp
    then show ?thesis by (simp only: A mult.commute [of "Suc i"] mult.assoc)
  qed
  have psl': "psl (probe_iter (quadratic_seq (2 ^ a) m) k pos i) + 2 ^ k = int ?x"
    by (simp add: Suc.IH algebra_simps)
  have add: "pq_add (quadratic_seq (2 ^ a) m) (2 ^ k) q = q\<lparr>psl := int ?x,
      base := base q + (if Suc i mod ?m = 0 then word_of_nat ?x else 0)\<rparr>"
    if "psl q + 2 ^ k = int ?x" for q
  proof -
    have "pq_add (quadratic_seq (2 ^ a) m) = quadratic_add (2 ^ a)" by (simp add: quadratic_seq_def)
    moreover have "(if Suc i mod ?m \<noteq> 0 then (0 :: u64) else w) = (if Suc i mod ?m = 0 then w else 0)" for w
      by simp
    ultimately show ?thesis by (simp only: quadratic_add_nat [OF that] z)
  qed
  show ?case
  proof (cases "Suc i mod ?m = 0")
    case True
    then have "Suc i div ?m = Suc (i div ?m)" by (simp add: div_Suc)
    then have "2 ^ a * tri (Suc i div ?m) = 2 ^ a * tri (i div ?m) + ?x"
      using x [OF True] by (simp only: tri_Suc) (simp add: algebra_simps)
    then show ?thesis
      using True by (simp only: probe_iter_Suc add [OF psl'], simp only: Suc.IH probe_seq.simps)
        (simp add: algebra_simps flip: of_nat_add)
  next
    case False
    then have "Suc i div ?m = i div ?m" by (simp add: div_Suc)
    then show ?thesis
      using False by (simp only: probe_iter_Suc add [OF psl'], simp only: Suc.IH probe_seq.simps)
        (simp add: algebra_simps)
  qed
qed

lemma linear_next_nat:
  "linear_next (2 ^ a) \<lparr>base = word_of_nat b, shift = int s, psl = int x\<rparr>
    = word_of_nat (b + 2 ^ a * (x div 2 ^ a) + (x + s) mod 2 ^ a)"
  by (simp only: linear_next_def Let_def size_mask align_pos_def probe_seq.simps of_nat_add [symmetric]
      word_of_int_nat and_mask_of_nat and_not_mask_of_nat)

lemma quadratic_next_nat:
  "quadratic_next (2 ^ a) \<lparr>base = word_of_nat b, shift = int s, psl = int x\<rparr>
    = word_of_nat (b + (x + s) mod 2 ^ a)"
  by (simp only: quadratic_next_def size_mask align_pos_def probe_seq.simps of_nat_add [symmetric]
      word_of_int_nat and_mask_of_nat)

lemma linear_seq_laws:
  assumes "k \<le> a" and "a < 63"
  shows "probe_laws (linear_seq (2 ^ a) inf_psl) k"
proof (rule probe_lawsI)
  let ?N = "\<lambda>pos i. 2 ^ a * (unat pos div 2 ^ a) + 2 ^ a * (i * 2 ^ k div 2 ^ a) + (i * 2 ^ k + unat pos mod 2 ^ a) mod 2 ^ a"
  let ?p = "a - k"
  have A: "(2 :: nat) ^ a = 2 ^ k * 2 ^ ?p" using assms(1) by (simp flip: power_add)
  show "pq_has_next (linear_seq (2 ^ a) inf_psl) q" for q
    by (simp add: linear_seq_def probe_has_next_def inf_psl_def)
  show "pq_psl (linear_seq (2 ^ a) inf_psl) (pq_init (linear_seq (2 ^ a) inf_psl) pos) = 0" for pos
    by (simp add: linear_seq_def unaligned_init_def aligned_init_def split: prod.splits)
  show "pq_psl (linear_seq (2 ^ a) inf_psl) (pq_add (linear_seq (2 ^ a) inf_psl) n q) = pq_psl (linear_seq (2 ^ a) inf_psl) q + n" for n q
    by (simp add: linear_seq_def probe_add_def quadratic_add_def quadratic0_add_def Let_def)
  show "pq_next (linear_seq (2 ^ a) inf_psl) (probe_iter (linear_seq (2 ^ a) inf_psl) k pos i) = word_of_nat (?N pos i)"
    for pos i
  proof -
    have "pq_next (linear_seq (2 ^ a) inf_psl) = linear_next (2 ^ a)" by (simp add: linear_seq_def)
    then show ?thesis by (simp only: linear_iter [OF assms(2)] linear_next_nat)
  qed
  show "?N pos i div 2 ^ k = block_index ?p (\<lambda>q. unat pos div 2 ^ a + q) (unat pos mod 2 ^ a div 2 ^ k) i" for pos i
  proof -
    let ?r = "(i * 2 ^ k + unat pos mod 2 ^ a) mod 2 ^ a"
    have "i * 2 ^ k div 2 ^ a = i div 2 ^ ?p" unfolding A by (simp only: mult.commute [of i]) simp
    then have "?N pos i = 2 ^ k * (2 ^ ?p * (unat pos div 2 ^ a + i div 2 ^ ?p)) + ?r"
      unfolding A by (simp add: algebra_simps)
    then have "?N pos i div 2 ^ k = 2 ^ ?p * (unat pos div 2 ^ a + i div 2 ^ ?p) + ?r div 2 ^ k" by simp
    also have "?r div 2 ^ k = (i + unat pos mod 2 ^ a div 2 ^ k) mod 2 ^ ?p"
      using rotate_div [of i k "unat pos mod 2 ^ a" ?p] assms(1) by simp
    finally show ?thesis by (simp add: block_index_def)
  qed
  show "inj_on (\<lambda>q. (unat pos div 2 ^ a + q) mod 2 ^ r) {..<2 ^ r}" for pos :: raw_pos_t and r by (rule shift_inj)
qed

lemma quadratic_seq_laws:
  assumes "k \<le> a" and "a < 63"
  shows "probe_laws (quadratic_seq (2 ^ a) inf_psl) k"
proof (rule probe_lawsI)
  let ?p = "a - k"
  let ?N = "\<lambda>pos i. 2 ^ a * (unat pos div 2 ^ a) + 2 ^ a * tri (i div 2 ^ ?p) + (i * 2 ^ k + unat pos mod 2 ^ a) mod 2 ^ a"
  have A: "(2 :: nat) ^ a = 2 ^ k * 2 ^ ?p" using assms(1) by (simp flip: power_add)
  show "pq_has_next (quadratic_seq (2 ^ a) inf_psl) q" for q
    by (simp add: quadratic_seq_def probe_has_next_def inf_psl_def)
  show "pq_psl (quadratic_seq (2 ^ a) inf_psl) (pq_init (quadratic_seq (2 ^ a) inf_psl) pos) = 0" for pos
    by (simp add: quadratic_seq_def unaligned_init_def aligned_init_def split: prod.splits)
  show "pq_psl (quadratic_seq (2 ^ a) inf_psl) (pq_add (quadratic_seq (2 ^ a) inf_psl) n q) = pq_psl (quadratic_seq (2 ^ a) inf_psl) q + n" for n q
    by (simp add: quadratic_seq_def probe_add_def quadratic_add_def quadratic0_add_def Let_def)
  show "pq_next (quadratic_seq (2 ^ a) inf_psl) (probe_iter (quadratic_seq (2 ^ a) inf_psl) k pos i) = word_of_nat (?N pos i)"
    for pos i
  proof -
    have "pq_next (quadratic_seq (2 ^ a) inf_psl) = quadratic_next (2 ^ a)" by (simp add: quadratic_seq_def)
    then show ?thesis by (simp only: quadratic_iter [OF assms] quadratic_next_nat)
  qed
  show "?N pos i div 2 ^ k = block_index ?p (\<lambda>q. unat pos div 2 ^ a + tri q) (unat pos mod 2 ^ a div 2 ^ k) i" for pos i
  proof -
    let ?r = "(i * 2 ^ k + unat pos mod 2 ^ a) mod 2 ^ a"
    have "?N pos i = 2 ^ k * (2 ^ ?p * (unat pos div 2 ^ a + tri (i div 2 ^ ?p))) + ?r"
      unfolding A by (simp add: algebra_simps)
    then have "?N pos i div 2 ^ k = 2 ^ ?p * (unat pos div 2 ^ a + tri (i div 2 ^ ?p)) + ?r div 2 ^ k" by simp
    also have "?r div 2 ^ k = (i + unat pos mod 2 ^ a div 2 ^ k) mod 2 ^ ?p"
      using rotate_div [of i k "unat pos mod 2 ^ a" ?p] assms(1) by simp
    finally show ?thesis by (simp add: block_index_def)
  qed
  show "inj_on (\<lambda>q. (unat pos div 2 ^ a + tri q) mod 2 ^ r) {..<2 ^ r}" for pos :: raw_pos_t and r by (rule tri_inj)
qed

interpretation linear_0: probe_laws "linear_seq 0 inf_psl" k for k
proof (rule probe_lawsI)
  show "pq_has_next (linear_seq 0 inf_psl) q" for q
    by (simp add: linear_seq_def probe_has_next_def inf_psl_def)
  show "pq_psl (linear_seq 0 inf_psl) (pq_init (linear_seq 0 inf_psl) pos) = 0" for pos
    by (simp add: linear_seq_def unaligned_init_def aligned_init_def split: prod.splits)
  show "pq_psl (linear_seq 0 inf_psl) (pq_add (linear_seq 0 inf_psl) n q) = pq_psl (linear_seq 0 inf_psl) q + n" for n q
    by (simp add: linear_seq_def probe_add_def quadratic_add_def quadratic0_add_def Let_def)
  show "pq_next (linear_seq 0 inf_psl) (probe_iter (linear_seq 0 inf_psl) k pos i) = word_of_nat (unat pos + i * 2 ^ k)"
    for pos i
    by (simp add: linear0_iter) (simp add: linear_seq_def linear0_next_def)
  show "(unat pos + i * 2 ^ k) div 2 ^ k = block_index 0 (\<lambda>q. unat pos div 2 ^ k + q) 0 i" for pos :: raw_pos_t and i
    by (simp add: block_index_def)
  show "inj_on (\<lambda>q. (unat pos div 2 ^ k + q) mod 2 ^ r) {..<2 ^ r}" for pos :: raw_pos_t and r by (rule shift_inj)
qed

interpretation quadratic_0: probe_laws "quadratic_seq 0 inf_psl" k for k
proof (rule probe_lawsI)
  show "pq_has_next (quadratic_seq 0 inf_psl) q" for q
    by (simp add: quadratic_seq_def probe_has_next_def inf_psl_def)
  show "pq_psl (quadratic_seq 0 inf_psl) (pq_init (quadratic_seq 0 inf_psl) pos) = 0" for pos
    by (simp add: quadratic_seq_def unaligned_init_def aligned_init_def split: prod.splits)
  show "pq_psl (quadratic_seq 0 inf_psl) (pq_add (quadratic_seq 0 inf_psl) n q) = pq_psl (quadratic_seq 0 inf_psl) q + n" for n q
    by (simp add: quadratic_seq_def probe_add_def quadratic_add_def quadratic0_add_def Let_def)
  show "pq_next (quadratic_seq 0 inf_psl) (probe_iter (quadratic_seq 0 inf_psl) k pos i)
      = word_of_nat (unat pos + 2 ^ k * tri i)" for pos i
    by (simp add: quadratic0_iter) (simp add: quadratic_seq_def quadratic0_next_def)
  show "(unat pos + 2 ^ k * tri i) div 2 ^ k = block_index 0 (\<lambda>q. unat pos div 2 ^ k + tri q) 0 i" for pos :: raw_pos_t and i
    by (simp add: block_index_def)
  show "inj_on (\<lambda>q. (unat pos div 2 ^ k + tri q) mod 2 ^ r) {..<2 ^ r}" for pos :: raw_pos_t and r by (rule tri_inj)
qed

text \<open>The default of the library: quadratic probing through cache lines of 64 bytes.\<close>

definition default_seq :: "probe_seq probe_ops" where
  "default_seq = quadratic_seq 64 inf_psl"

interpretation default_16: probe_laws default_seq 4
  unfolding default_seq_def using quadratic_seq_laws [of 4 6] by simp

section \<open>Properties\<close>

text \<open>C24: Every probe sequence of the library visits every bucket: for any start position, any power-of-two
capacity and any kernel size not above the alignment, the first \<open>capacity / kernel size\<close> positions
of a linear or quadratic sequence, aligned or not, reduced by the bucket mask, are all the buckets,
each exactly once. A search therefore ends within one round, whatever the hash.\<close>

theorem probe_covers_all_buckets:
  assumes "k \<le> a" and "a < 63" and "k \<le> c" and "c < 64"
    and "pq \<in> {quadratic_seq (2 ^ a) inf_psl, linear_seq (2 ^ a) inf_psl, quadratic_seq 0 inf_psl, linear_seq 0 inf_psl}"
  shows "bij_betw (\<lambda>i. unat (align_pos (make_aligned_mask (2 ^ c) (2 ^ k)) (pq_next pq (probe_iter pq k pos i))))
    {..<2 ^ (c - k)} ((\<lambda>j. 2 ^ k * j) ` {..<2 ^ (c - k)})"
proof -
  have "probe_laws pq k"
    using assms(5) quadratic_seq_laws [OF assms(1,2)] linear_seq_laws [OF assms(1,2)]
      quadratic_0.probe_laws_axioms [of k] linear_0.probe_laws_axioms [of k] by auto
  then show ?thesis
    using probe_laws.all_buckets [OF _ assms(3,4), of pq pos]
    by (simp add: align_pos_def probe_laws.bucket_at_def cong: bij_betw_cong)
qed

theorem probe_covers_all_buckets_witness:
  "bij_betw (\<lambda>i. unat (align_pos (make_aligned_mask (2 ^ 7) (2 ^ 4)) (pq_next default_seq (probe_iter default_seq 4 0xfedc i))))
    {..<2 ^ (7 - 4)} ((\<lambda>j. 2 ^ 4 * j) ` {..<2 ^ (7 - 4)})"
  by (rule probe_covers_all_buckets [where a = 6]) (simp_all add: default_seq_def)

end
