(* ===== verification/Mask.thy ===== *)
theory Mask
  imports BitOps
begin

text \<open>
  The slot masks of mask.hpp. A mask names a subset of the slots of one bucket; the hash table
  walks it with \<open>for (; has_next(m); m = step(m)) next(m)\<close>. \<open>bitset_mask\<close> is a list of booleans,
  \<open>uint_mask\<close> an unsigned word that spends \<open>bits_per_slot\<close> bits on a slot and marks the lowest
  (right aligned) or highest (left aligned) of them. The locale \<open>mask_laws\<close> is the interface both
  provide: an abstraction \<open>slots\<close> to sets of slot numbers and what each operation does to it.
\<close>

section \<open>The operations of a mask class\<close>

record 'm mask_ops =
  mk_max_count :: nat
  mk_empty :: 'm
  mk_full :: 'm
  mk_single :: "nat \<Rightarrow> 'm"
  mk_above :: "'m \<Rightarrow> int \<Rightarrow> 'm"
  mk_from :: "'m \<Rightarrow> nat \<Rightarrow> 'm"
  mk_intersect :: "'m \<Rightarrow> 'm \<Rightarrow> 'm"
  mk_join :: "'m \<Rightarrow> 'm \<Rightarrow> 'm"
  mk_drop :: "'m \<Rightarrow> 'm \<Rightarrow> 'm"
  mk_contains :: "'m \<Rightarrow> 'm \<Rightarrow> bool"
  mk_has_next :: "'m \<Rightarrow> bool"
  mk_count :: "'m \<Rightarrow> nat"
  mk_next :: "'m \<Rightarrow> nat"
  mk_step :: "'m \<Rightarrow> 'm"
  mk_truncate :: "'m \<Rightarrow> 'm"
  mk_at :: "'m \<Rightarrow> nat \<Rightarrow> bool"

text \<open>The slots a loop over a mask visits, in its order; a mask has at most \<open>max_count\<close> of them.\<close>

fun mask_walk :: "'m mask_ops \<Rightarrow> nat \<Rightarrow> 'm \<Rightarrow> nat list" where
  "mask_walk M 0 m = []"
| "mask_walk M (Suc fuel) m = (if mk_has_next M m then mk_next M m # mask_walk M fuel (mk_step M m) else [])"

definition mask_indices :: "'m mask_ops \<Rightarrow> 'm \<Rightarrow> nat list" where
  "mask_indices M m = mask_walk M (mk_max_count M) m"

section \<open>bitset_mask\<close>

fun next_bit :: "bool list \<Rightarrow> nat" where
  "next_bit [] = 0"
| "next_bit (b # m) = (if b then 0 else Suc (next_bit m))"

definition clear_upto :: "nat \<Rightarrow> bool list \<Rightarrow> bool list" where
  "clear_upto n m = fold (\<lambda>j m. m[j := False]) [0..<n] m"

definition bitset_truncate :: "bool list \<Rightarrow> bool list" where
  "bitset_truncate m = (case List.find (\<lambda>i. m ! i) [0..<length m] of
     None \<Rightarrow> replicate (length m) False
   | Some i \<Rightarrow> (replicate (length m) False)[i := True])"

definition bitset_mask :: "nat \<Rightarrow> bool list mask_ops" where
  "bitset_mask n = \<lparr>
     mk_max_count = n,
     mk_empty = replicate n False,
     mk_full = replicate n True,
     mk_single = (\<lambda>i. (replicate n False)[i := True]),
     mk_above = (\<lambda>m i. clear_upto (nat (i + 1)) m),
     mk_from = (\<lambda>m i. clear_upto i m),
     mk_intersect = map2 (\<and>),
     mk_join = map2 (\<or>),
     mk_drop = map2 (\<lambda>a b. a \<and> \<not> b),
     mk_contains = (\<lambda>m n. map2 (\<and>) m n = n),
     mk_has_next = (\<lambda>m. True \<in> set m),
     mk_count = (\<lambda>m. length (filter id m)),
     mk_next = next_bit,
     mk_step = (\<lambda>m. m[next_bit m := False]),
     mk_truncate = bitset_truncate,
     mk_at = (!)\<rparr>"

section \<open>uint_mask\<close>

datatype mask_align = Align_left | Align_right

text \<open>\<open>shift\<close> is \<open>countr_zero(bits_per_slot)\<close>; the number of bits per slot is \<open>2 ^ shift\<close>.\<close>

definition uint_mask_full :: "nat \<Rightarrow> nat \<Rightarrow> mask_align \<Rightarrow> 'w::len word" where
  "uint_mask_full max_count shift align = (
     let bits_per_slot = 2 ^ shift :: nat;
         m = broadcast (0x01 :: u8);
         m = (if bits_per_slot < 8 then m OR push_bit 4 m else m);
         m = (if bits_per_slot < 4 then m OR push_bit 2 m else m);
         m = (if bits_per_slot < 2 then m OR push_bit 1 m else m);
         m = drop_bit (LENGTH('w) - max_count * bits_per_slot) m
     in if align = Align_left then push_bit (bits_per_slot - 1) m else m)"

definition uint_mask_single :: "nat \<Rightarrow> mask_align \<Rightarrow> nat \<Rightarrow> bool \<Rightarrow> 'w::len word" where
  "uint_mask_single shift align i v = (
     let bits_per_slot = 2 ^ shift :: nat;
         m = push_bit (i * bits_per_slot) (of_bool v)
     in if align = Align_left then push_bit (bits_per_slot - 1) m else m)"

definition uint_mask_above :: "nat \<Rightarrow> mask_align \<Rightarrow> 'w::len word \<Rightarrow> int \<Rightarrow> 'w word" where
  "uint_mask_above shift align m i = (
     let i0 = max i 0;
         n = push_bit 1 (uint_mask_single shift align (nat i0) (i0 = i));
         n = n - of_bool (i0 = i)
     in (m XOR n) AND m)"

definition uint_mask_from :: "nat \<Rightarrow> mask_align \<Rightarrow> 'w::len word \<Rightarrow> nat \<Rightarrow> 'w word" where
  "uint_mask_from shift align m i = (
     let n = uint_mask_single shift align i True - 1
     in (m XOR n) AND m)"

definition uint_mask :: "nat \<Rightarrow> nat \<Rightarrow> mask_align \<Rightarrow> 'w::len word mask_ops" where
  "uint_mask max_count shift align = \<lparr>
     mk_max_count = max_count,
     mk_empty = 0,
     mk_full = uint_mask_full max_count shift align,
     mk_single = (\<lambda>i. uint_mask_single shift align i True),
     mk_above = uint_mask_above shift align,
     mk_from = uint_mask_from shift align,
     mk_intersect = (AND),
     mk_join = (OR),
     mk_drop = (\<lambda>m n. m AND NOT n),
     mk_contains = (\<lambda>m n. m AND n = n),
     mk_has_next = (\<lambda>m. m \<noteq> 0),
     mk_count = popcount,
     mk_next = (\<lambda>m. ctz m div 2 ^ shift),
     mk_step = (\<lambda>m. m AND (m - 1)),
     mk_truncate = (\<lambda>m. m XOR (m AND (m - 1))),
     mk_at = (\<lambda>m i. m AND uint_mask_single shift align i True \<noteq> 0)\<rparr>"

section \<open>What a walk over a mask relies on\<close>

locale mask_laws =
  fixes M :: "'m mask_ops"
    and ok :: "'m \<Rightarrow> bool"
    and slots :: "'m \<Rightarrow> nat set"
  assumes slots_bound: "ok m \<Longrightarrow> slots m \<subseteq> {..<mk_max_count M}"
    and has_next_iff: "ok m \<Longrightarrow> mk_has_next M m \<longleftrightarrow> slots m \<noteq> {}"
    and next_slot: "ok m \<Longrightarrow> slots m \<noteq> {} \<Longrightarrow> mk_next M m = Min (slots m)"
    and step_ok: "ok m \<Longrightarrow> slots m \<noteq> {} \<Longrightarrow> ok (mk_step M m)"
    and step_slots: "ok m \<Longrightarrow> slots m \<noteq> {} \<Longrightarrow> slots (mk_step M m) = slots m - {Min (slots m)}"
    and count_card: "ok m \<Longrightarrow> mk_count M m = card (slots m)"
    and single_ok: "i < mk_max_count M \<Longrightarrow> ok (mk_single M i)"
    and single_slots: "i < mk_max_count M \<Longrightarrow> slots (mk_single M i) = {i}"
    and above_ok: "ok m \<Longrightarrow> - 1 \<le> j \<Longrightarrow> j < int (mk_max_count M) \<Longrightarrow> ok (mk_above M m j)"
    and above_slots: "ok m \<Longrightarrow> - 1 \<le> j \<Longrightarrow> j < int (mk_max_count M) \<Longrightarrow>
      slots (mk_above M m j) = {i \<in> slots m. j < int i}"
begin

lemma finite_slots: "ok m \<Longrightarrow> finite (slots m)"
  using slots_bound finite_subset by blast

lemma walk_sorted:
  "ok m \<Longrightarrow> card (slots m) \<le> fuel \<Longrightarrow> mask_walk M fuel m = sorted_list_of_set (slots m)"
proof (induction fuel arbitrary: m)
  case 0
  then have "slots m = {}" using finite_slots by simp
  then show ?case by simp
next
  case (Suc fuel)
  show ?case
  proof (cases "slots m = {}")
    case True
    then show ?thesis using Suc.prems by (simp add: has_next_iff)
  next
    case False
    have fin: "finite (slots m)" by (rule finite_slots [OF Suc.prems(1)])
    then have "Min (slots m) \<in> slots m" using False by simp
    then have "card (slots m - {Min (slots m)}) \<le> fuel" using fin Suc.prems(2) by simp
    then have "mask_walk M fuel (mk_step M m) = sorted_list_of_set (slots m - {Min (slots m)})"
      using Suc.IH [OF step_ok] Suc.prems(1) False by (simp add: step_slots)
    then show ?thesis
      using Suc.prems(1) False fin sorted_list_of_set_nonempty [of "slots m"]
      by (simp add: has_next_iff next_slot)
  qed
qed

lemma indices_sorted: "ok m \<Longrightarrow> mask_indices M m = sorted_list_of_set (slots m)"
proof -
  assume m: "ok m"
  have "card (slots m) \<le> card {..<mk_max_count M}" by (rule card_mono) (simp_all add: slots_bound [OF m])
  with m show ?thesis by (simp add: mask_indices_def walk_sorted)
qed

lemma set_indices: "ok m \<Longrightarrow> set (mask_indices M m) = slots m"
  by (simp add: indices_sorted finite_slots)

lemma distinct_indices: "ok m \<Longrightarrow> distinct (mask_indices M m)"
  by (simp add: indices_sorted)

lemma has_next_indices: "ok m \<Longrightarrow> mk_has_next M m \<longleftrightarrow> mask_indices M m \<noteq> []"
  by (simp add: has_next_iff indices_sorted finite_slots)

lemma next_hd: "ok m \<Longrightarrow> mk_has_next M m \<Longrightarrow> mk_next M m \<in> slots m"
  using finite_slots [of m] by (simp add: has_next_iff next_slot)

end

section \<open>bitset_mask satisfies the laws\<close>

definition bitset_slots :: "bool list \<Rightarrow> nat set" where
  "bitset_slots m = {i. i < length m \<and> m ! i}"

lemma next_bit_Min:
  assumes "bitset_slots m \<noteq> {}"
  shows "next_bit m = Min (bitset_slots m)"
proof -
  have "\<exists>i<length m. m ! i \<Longrightarrow> next_bit m < length m \<and> m ! next_bit m \<and> (\<forall>j<next_bit m. \<not> m ! j)"
  proof (induction m)
    case (Cons b m)
    show ?case
    proof (cases b)
      case False
      then have "\<exists>i<length m. m ! i" using Cons.prems by (auto simp: less_Suc_eq_0_disj)
      from Cons.IH [OF this] False show ?thesis by (auto simp: less_Suc_eq_0_disj)
    qed simp
  qed simp
  moreover have "\<exists>i<length m. m ! i" using assms by (auto simp: bitset_slots_def)
  ultimately have n: "next_bit m < length m" "m ! next_bit m" "\<And>j. j < next_bit m \<Longrightarrow> \<not> m ! j"
    by auto
  show ?thesis
    by (rule Min_eqI [symmetric]) (use n in \<open>auto simp: bitset_slots_def not_less [symmetric]\<close>)
qed

lemma clear_upto_nth:
  "length (clear_upto n m) = length m \<and> (\<forall>i<length m. clear_upto n m ! i = (n \<le> i \<and> m ! i))"
proof (induction n)
  case (Suc n)
  have "clear_upto (Suc n) m = (clear_upto n m)[n := False]" by (simp add: clear_upto_def)
  with Suc.IH show ?case by (auto simp: nth_list_update_if)
qed (simp add: clear_upto_def)

lemma bitset_count: "length (filter id m) = card (bitset_slots m)"
  by (simp add: length_filter_conv_card bitset_slots_def)

interpretation bitset: mask_laws "bitset_mask n" "\<lambda>m. length m = n" bitset_slots for n
proof
  fix m :: "bool list" assume m: "length m = n"
  show "bitset_slots m \<subseteq> {..<mk_max_count (bitset_mask n)}"
    using m by (auto simp: bitset_slots_def bitset_mask_def)
  show "mk_has_next (bitset_mask n) m \<longleftrightarrow> bitset_slots m \<noteq> {}"
    by (auto simp: bitset_slots_def bitset_mask_def in_set_conv_nth)
  show "mk_count (bitset_mask n) m = card (bitset_slots m)"
    by (simp add: bitset_mask_def bitset_count)
  assume ne: "bitset_slots m \<noteq> {}"
  show "mk_next (bitset_mask n) m = Min (bitset_slots m)"
    by (simp add: bitset_mask_def next_bit_Min [OF ne])
  show "length (mk_step (bitset_mask n) m) = n" using m by (simp add: bitset_mask_def)
  show "bitset_slots (mk_step (bitset_mask n) m) = bitset_slots m - {Min (bitset_slots m)}"
    unfolding next_bit_Min [OF ne, symmetric]
    by (auto simp: bitset_mask_def bitset_slots_def nth_list_update_if split: if_splits)
next
  fix i assume i: "i < mk_max_count (bitset_mask n)"
  show "length (mk_single (bitset_mask n) i) = n" by (simp add: bitset_mask_def)
  show "bitset_slots (mk_single (bitset_mask n) i) = {i}"
    using i by (auto simp: bitset_mask_def bitset_slots_def nth_list_update_if split: if_splits)
next
  fix m :: "bool list" and j :: int
  assume m: "length m = n" and j: "- 1 \<le> j" "j < int (mk_max_count (bitset_mask n))"
  note c = clear_upto_nth [of "nat (j + 1)" m]
  show "length (mk_above (bitset_mask n) m j) = n" using c m by (simp add: bitset_mask_def)
  show "bitset_slots (mk_above (bitset_mask n) m j) = {i \<in> bitset_slots m. j < int i}"
    using c j by (auto simp: bitset_mask_def bitset_slots_def)
qed

section \<open>uint_mask satisfies the laws\<close>

definition slot_bit :: "nat \<Rightarrow> mask_align \<Rightarrow> nat \<Rightarrow> nat" where
  "slot_bit shift align i = i * 2 ^ shift + (if align = Align_left then 2 ^ shift - 1 else 0)"

definition uint_mask_slots :: "nat \<Rightarrow> nat \<Rightarrow> mask_align \<Rightarrow> 'w::len word \<Rightarrow> nat set" where
  "uint_mask_slots n shift align m = {i. i < n \<and> bit m (slot_bit shift align i)}"

definition uint_mask_ok :: "nat \<Rightarrow> nat \<Rightarrow> mask_align \<Rightarrow> 'w::len word \<Rightarrow> bool" where
  "uint_mask_ok n shift align m \<longleftrightarrow> bits m \<subseteq> slot_bit shift align ` {..<n}"

lemma slot_bit_mono: "slot_bit shift align i < slot_bit shift align j \<longleftrightarrow> i < j"
  by (simp add: slot_bit_def)

lemma slot_bit_inj: "slot_bit shift align i = slot_bit shift align j \<longleftrightarrow> i = j"
  by (simp add: slot_bit_def)

lemma slot_bit_div: "slot_bit shift align i div 2 ^ shift = i"
proof -
  have "(2 ^ shift - 1) div 2 ^ shift = (0 :: nat)" by (rule div_less) simp
  then show ?thesis by (simp add: slot_bit_def)
qed

lemma slot_bit_less: "i < n \<Longrightarrow> slot_bit shift align i < n * 2 ^ shift"
proof -
  assume "i < n"
  have "slot_bit shift align i < i * 2 ^ shift + 2 ^ shift" by (simp add: slot_bit_def)
  also have "\<dots> = Suc i * 2 ^ shift" by simp
  also have "\<dots> \<le> n * 2 ^ shift" using \<open>i < n\<close> by (intro mult_right_mono) simp_all
  finally show ?thesis .
qed

lemma bits_of_slots:
  "uint_mask_ok n shift align m \<Longrightarrow> bits m = slot_bit shift align ` uint_mask_slots n shift align m"
  by (auto simp: uint_mask_ok_def uint_mask_slots_def)

lemma uint_mask_single_bits:
  assumes "i < n" and "n * 2 ^ shift \<le> LENGTH('w)"
  shows "bits (uint_mask_single shift align i True :: 'w::len word) = {slot_bit shift align i}"
proof -
  have l: "slot_bit shift align i < LENGTH('w)" using slot_bit_less [OF assms(1), of shift align] assms(2) by simp
  have "(uint_mask_single shift align i True :: 'w word) = push_bit (slot_bit shift align i) 1"
  proof (cases align)
    case Align_left
    have "push_bit (2 ^ shift - 1) (push_bit (i * 2 ^ shift) 1 :: 'w word) = push_bit (slot_bit shift align i) 1"
      unfolding push_bit_push_bit by (simp add: slot_bit_def Align_left add.commute)
    then show ?thesis by (simp only: uint_mask_single_def Let_def Align_left of_bool_eq if_True simp_thms)
  qed (simp add: uint_mask_single_def slot_bit_def)
  then show ?thesis using l by (simp add: bits_singleton push_bit_eq_mult)
qed

lemma bits_below:
  fixes w :: "'w::len word"
  assumes "p < LENGTH('w)"
  shows "bits (w AND NOT (push_bit 1 (2 ^ p) - 1)) = {b \<in> bits w. p < b}"
proof -
  have "(push_bit 1 (2 ^ p) - 1 :: 'w word) = mask (Suc p)" by (simp add: mask_eq_exp_minus_1 push_bit_eq_mult)
  then show ?thesis by (auto simp: bit_and_iff bit_not_iff bit_mask_iff dest: bit_imp_le_length)
qed

lemma xor_and_eq: "(m XOR n) AND m = m AND NOT n" for m n :: "'w::len word"
  by (rule bit_eqI) (auto simp: bit_and_iff bit_xor_iff bit_not_iff)

lemma uint_mask_above_bits:
  fixes m :: "'w::len word"
  assumes ok: "uint_mask_ok n shift align m" and len: "n * 2 ^ shift \<le> LENGTH('w)"
    and j: "- 1 \<le> j" "j < int n"
  shows "bits (uint_mask_above shift align m j) = slot_bit shift align ` {i \<in> uint_mask_slots n shift align m. j < int i}"
proof (cases "0 \<le> j")
  case False
  then have "uint_mask_above shift align m j = m"
    by (simp add: uint_mask_above_def uint_mask_single_def Let_def)
  then show ?thesis using False bits_of_slots [OF ok] by simp
next
  case True
  let ?p = "slot_bit shift align (nat j)"
  have nj: "nat j < n" using True j by simp
  have p: "?p < LENGTH('w)" using slot_bit_less [OF nj, of shift align] len by simp
  have s: "(uint_mask_single shift align (nat j) True :: 'w word) = 2 ^ ?p"
    using uint_mask_single_bits [OF nj len, of align] by (simp add: bits_singleton)
  have "uint_mask_above shift align m j = m AND NOT (push_bit 1 (2 ^ ?p) - 1)"
    using True by (simp add: uint_mask_above_def Let_def s xor_and_eq max_def)
  then have "bits (uint_mask_above shift align m j) = {b \<in> bits m. ?p < b}" using bits_below [OF p] by simp
  then show ?thesis using True bits_of_slots [OF ok] by (auto simp: slot_bit_mono)
qed

lemma uint_mask_laws:
  assumes len: "n * 2 ^ shift \<le> LENGTH('w)"
  shows "mask_laws (uint_mask n shift align :: 'w::len word mask_ops) (uint_mask_ok n shift align)
    (uint_mask_slots n shift align)"
proof
  fix m :: "'w word" assume m: "uint_mask_ok n shift align m"
  let ?S = "uint_mask_slots n shift align m"
  have fin: "finite ?S" by (simp add: uint_mask_slots_def)
  note b = bits_of_slots [OF m]
  show "?S \<subseteq> {..<mk_max_count (uint_mask n shift align :: 'w word mask_ops)}"
    by (auto simp: uint_mask_slots_def uint_mask_def)
  have z: "m = 0 \<longleftrightarrow> ?S = {}" using b bits_empty_iff [of m] by simp
  then show "mk_has_next (uint_mask n shift align) m \<longleftrightarrow> ?S \<noteq> {}" by (simp add: uint_mask_def)
  show "mk_count (uint_mask n shift align) m = card ?S"
    by (simp add: uint_mask_def popcount_card b card_image inj_on_def slot_bit_inj)
  assume ne: "?S \<noteq> {}"
  have m0: "m \<noteq> 0" using z ne by simp
  have min: "Min (bits m) = slot_bit shift align (Min ?S)"
    unfolding b by (rule mono_Min_commute [symmetric]) (use fin ne in \<open>auto simp: mono_def slot_bit_def\<close>)
  show "mk_next (uint_mask n shift align) m = Min ?S"
    using m0 by (simp add: uint_mask_def ctz_Min min slot_bit_div)
  have st: "bits (mk_step (uint_mask n shift align) m) = bits m - {Min (bits m)}"
    using bits_and_minus_one [OF m0] by (simp add: uint_mask_def)
  then show "uint_mask_ok n shift align (mk_step (uint_mask n shift align) m)"
    using m by (auto simp: uint_mask_ok_def)
  have "bit (mk_step (uint_mask n shift align) m) x \<longleftrightarrow> bit m x \<and> x \<noteq> slot_bit shift align (Min ?S)" for x
    using st unfolding min by (metis Diff_iff in_bits singleton_iff)
  then show "uint_mask_slots n shift align (mk_step (uint_mask n shift align) m) = ?S - {Min ?S}"
    by (auto simp: uint_mask_slots_def slot_bit_inj)
next
  fix i assume "i < mk_max_count (uint_mask n shift align :: 'w word mask_ops)"
  then have i: "i < n" by (simp add: uint_mask_def)
  note s = uint_mask_single_bits [OF i len, of align]
  have bt: "bit (uint_mask_single shift align i True :: 'w word) x \<longleftrightarrow> x = slot_bit shift align i" for x
    using s by (metis in_bits singleton_iff)
  show "uint_mask_ok n shift align (mk_single (uint_mask n shift align) i :: 'w word)"
    using i s by (simp add: uint_mask_def uint_mask_ok_def)
  show "uint_mask_slots n shift align (mk_single (uint_mask n shift align) i :: 'w word) = {i}"
    using i by (auto simp: uint_mask_def uint_mask_slots_def bt slot_bit_inj)
next
  fix m :: "'w word" and j :: int
  assume m: "uint_mask_ok n shift align m"
    and j: "- 1 \<le> j" "j < int (mk_max_count (uint_mask n shift align :: 'w word mask_ops))"
  have jn: "j < int n" using j by (simp add: uint_mask_def)
  note b = uint_mask_above_bits [OF m len j(1) jn]
  have bt: "bit (uint_mask_above shift align m j) x
      \<longleftrightarrow> (\<exists>i. x = slot_bit shift align i \<and> i \<in> uint_mask_slots n shift align m \<and> j < int i)" for x
    unfolding in_bits [symmetric] b by blast
  show "uint_mask_ok n shift align (mk_above (uint_mask n shift align) m j)"
    using b by (auto simp: uint_mask_def uint_mask_ok_def uint_mask_slots_def)
  show "uint_mask_slots n shift align (mk_above (uint_mask n shift align) m j)
      = {i \<in> uint_mask_slots n shift align m. j < int i}"
    by (auto simp: uint_mask_def bt slot_bit_inj) (auto simp: uint_mask_slots_def bt slot_bit_inj)
qed

end
