(* ===== verification/Kernel.thy ===== *)
theory Kernel
  imports Mask Common
begin

text \<open>
  The interface of the kernels of kernel.hpp. A kernel loads the states of one bucket into a
  register and answers questions about all its slots at once with a mask. The class template is
  a record of its static members; the locale \<open>swiss_kernel\<close> states the contract the hash table and
  the cache rely on, over the list of states (or LRU stamps) that was loaded. As
  \<open>produces_false_positives\<close> allows, \<open>mask(k, s)\<close> may also report slots of other hashes, but never
  an empty slot or a tombstone. The questions about \<open>empty\<close> and \<open>tombstone\<close> are only asked of
  valid states.
\<close>

definition empty_state :: state_t where
  "empty_state = - 128"

definition tombstone_state :: state_t where
  "tombstone_state = - 127"

definition valid_state :: "state_t \<Rightarrow> bool" where
  "valid_state s \<longleftrightarrow> is_hash s \<or> s = empty_state \<or> s = tombstone_state"

lemma state_consts [simp]:
  "\<not> is_hash empty_state" "\<not> is_hash tombstone_state" "empty_state \<noteq> tombstone_state"
  "tombstone_state \<noteq> empty_state"
  by (simp_all add: is_hash_iff_bit empty_state_def tombstone_state_def)

lemma valid_state_simps [simp]:
  "valid_state empty_state" "valid_state tombstone_state" "is_hash s \<Longrightarrow> valid_state s"
  by (simp_all add: valid_state_def)

lemma is_hash_neq: "is_hash s \<Longrightarrow> s \<noteq> empty_state \<and> s \<noteq> tombstone_state"
  by auto

record ('r, 'l, 'm) kernel_ops =
  kn_size :: nat
  kn_mask_ops :: "'m mask_ops"
  kn_load :: "state_t list \<Rightarrow> 'r"
  kn_store :: "'r \<Rightarrow> state_t list"
  kn_mask :: "'r \<Rightarrow> state_t \<Rightarrow> 'm"
  kn_mask_not :: "'r \<Rightarrow> state_t \<Rightarrow> 'm"
  kn_mask_hash :: "'r \<Rightarrow> 'm"
  kn_mask_not_hash :: "'r \<Rightarrow> 'm"
  kn_mask_empty :: "'r \<Rightarrow> 'm"
  kn_mask_not_empty :: "'r \<Rightarrow> 'm"
  kn_mask_tombstone :: "'r \<Rightarrow> 'm"
  kn_mask_not_tombstone :: "'r \<Rightarrow> 'm"
  kn_mask_equal :: "'r \<Rightarrow> 'r \<Rightarrow> 'm"
  kn_mask_not_equal :: "'r \<Rightarrow> 'r \<Rightarrow> 'm"
  kn_has_hash :: "'r \<Rightarrow> bool"
  kn_has_not_hash :: "'r \<Rightarrow> bool"
  kn_has_empty :: "'r \<Rightarrow> bool"
  kn_has_not_empty :: "'r \<Rightarrow> bool"
  kn_has_tombstone :: "'r \<Rightarrow> bool"
  kn_has_not_tombstone :: "'r \<Rightarrow> bool"
  kn_count_equal :: "'r \<Rightarrow> 'r \<Rightarrow> nat"
  kn_count_not_equal :: "'r \<Rightarrow> 'r \<Rightarrow> nat"
  kn_hash_to_tombstone :: "'r \<Rightarrow> 'r"
  kn_not_hash_to_empty :: "'r \<Rightarrow> 'r"
  kn_to_empty :: "'r \<Rightarrow> 'm \<Rightarrow> 'r"
  kn_at :: "'r \<Rightarrow> nat \<Rightarrow> state_t"
  kn_load_lru :: "lru_t list \<Rightarrow> 'l"
  kn_store_lru :: "'l \<Rightarrow> lru_t list"
  kn_min_lru :: "'l \<Rightarrow> lru_t \<times> nat"
  kn_mask_min_lru :: "'l \<Rightarrow> 'm"
  kn_mask_lru_below :: "'l \<Rightarrow> lru_t \<Rightarrow> 'm"
  kn_update_lru :: "'l \<Rightarrow> 'm \<Rightarrow> 'l"
  kn_to_empty_if_lru_below :: "'r \<Rightarrow> 'l \<Rightarrow> lru_t \<Rightarrow> 'r"
  kn_lru_at :: "'l \<Rightarrow> nat \<Rightarrow> lru_t"

text \<open>The slots of a bucket with a property.\<close>

definition slots_with :: "('a \<Rightarrow> bool) \<Rightarrow> 'a list \<Rightarrow> nat set" where
  "slots_with P xs = {i. i < length xs \<and> P (xs ! i)}"

lemma finite_slots_with [simp]: "finite (slots_with P xs)"
  by (simp add: slots_with_def)

lemma slots_with_empty: "slots_with P xs = {} \<longleftrightarrow> \<not> (\<exists>x\<in>set xs. P x)"
  by (auto simp: slots_with_def set_conv_nth)

lemma card_slots_with: "card (slots_with P xs) = length (filter P xs)"
  by (simp add: slots_with_def length_filter_conv_card)

definition valid_states :: "state_t list \<Rightarrow> bool" where
  "valid_states xs \<longleftrightarrow> list_all valid_state xs"

text \<open>The first slot with the least LRU stamp, and the stamp's increment with halving at the top.\<close>

definition first_min :: "lru_t list \<Rightarrow> nat \<Rightarrow> bool" where
  "first_min ls i \<longleftrightarrow> i < length ls \<and> (\<forall>j<length ls. ls ! i \<le> ls ! j) \<and> (\<forall>j<i. ls ! i < ls ! j)"

definition bump_lru :: "lru_t list \<Rightarrow> nat \<Rightarrow> lru_t list" where
  "bump_lru ls i = (if ls ! i = max_lru
     then (map (drop_bit 1) ls)[i := drop_bit 1 (ls ! i) + 1]
     else ls[i := ls ! i + 1])"

locale swiss_kernel = mask_laws "kn_mask_ops K" ok slots
  for K :: "('r, 'l, 'm) kernel_ops" and ok :: "'m \<Rightarrow> bool" and slots :: "'m \<Rightarrow> nat set" +
  assumes size_pos: "0 < kn_size K"
    and mask_size: "mk_max_count (kn_mask_ops K) = kn_size K"
    and store_load: "length xs = kn_size K \<Longrightarrow> kn_store K (kn_load K xs) = xs"
    and at_load: "length xs = kn_size K \<Longrightarrow> i < kn_size K \<Longrightarrow> kn_at K (kn_load K xs) i = xs ! i"
    and mask_ok: "length xs = kn_size K \<Longrightarrow> is_hash s \<Longrightarrow> ok (kn_mask K (kn_load K xs) s)"
    and mask_complete: "length xs = kn_size K \<Longrightarrow> is_hash s \<Longrightarrow>
      slots_with (\<lambda>x. x = s) xs \<subseteq> slots (kn_mask K (kn_load K xs) s)"
    and mask_hashes: "length xs = kn_size K \<Longrightarrow> is_hash s \<Longrightarrow>
      slots (kn_mask K (kn_load K xs) s) \<subseteq> slots_with is_hash xs"
    and mask_hash_ok: "length xs = kn_size K \<Longrightarrow> ok (kn_mask_hash K (kn_load K xs))"
    and mask_hash_slots: "length xs = kn_size K \<Longrightarrow>
      slots (kn_mask_hash K (kn_load K xs)) = slots_with is_hash xs"
    and mask_not_hash_ok: "length xs = kn_size K \<Longrightarrow> ok (kn_mask_not_hash K (kn_load K xs))"
    and mask_not_hash_slots: "length xs = kn_size K \<Longrightarrow>
      slots (kn_mask_not_hash K (kn_load K xs)) = slots_with is_not_hash xs"
    and mask_empty_ok: "length xs = kn_size K \<Longrightarrow> valid_states xs \<Longrightarrow> ok (kn_mask_empty K (kn_load K xs))"
    and mask_empty_slots: "length xs = kn_size K \<Longrightarrow> valid_states xs \<Longrightarrow>
      slots (kn_mask_empty K (kn_load K xs)) = slots_with (\<lambda>x. x = empty_state) xs"
    and mask_tombstone_ok: "length xs = kn_size K \<Longrightarrow> valid_states xs \<Longrightarrow> ok (kn_mask_tombstone K (kn_load K xs))"
    and mask_tombstone_slots: "length xs = kn_size K \<Longrightarrow> valid_states xs \<Longrightarrow>
      slots (kn_mask_tombstone K (kn_load K xs)) = slots_with (\<lambda>x. x = tombstone_state) xs"
    and has_empty_iff: "length xs = kn_size K \<Longrightarrow> valid_states xs \<Longrightarrow>
      kn_has_empty K (kn_load K xs) \<longleftrightarrow> empty_state \<in> set xs"
    and has_not_tombstone_iff: "length xs = kn_size K \<Longrightarrow> valid_states xs \<Longrightarrow>
      kn_has_not_tombstone K (kn_load K xs) \<longleftrightarrow> (\<exists>x\<in>set xs. x \<noteq> tombstone_state)"
    and not_hash_to_empty_store: "length xs = kn_size K \<Longrightarrow> valid_states xs \<Longrightarrow>
      kn_store K (kn_not_hash_to_empty K (kn_load K xs))
        = map (\<lambda>s. if is_hash s then s else empty_state) xs"
begin

lemmas bucket_masks = mask_ok mask_hash_ok mask_not_hash_ok mask_empty_ok mask_tombstone_ok

lemma hash_indices:
  "length xs = kn_size K \<Longrightarrow>
    set (mask_indices (kn_mask_ops K) (kn_mask_hash K (kn_load K xs))) = slots_with is_hash xs"
  by (simp add: set_indices mask_hash_ok mask_hash_slots)

lemma match_indices_hash:
  "length xs = kn_size K \<Longrightarrow> is_hash s \<Longrightarrow>
    i \<in> set (mask_indices (kn_mask_ops K) (kn_mask K (kn_load K xs) s)) \<Longrightarrow> i < kn_size K \<and> is_hash (xs ! i)"
  using mask_hashes [of xs s] by (auto simp: set_indices mask_ok slots_with_def)

lemma match_indices_complete:
  "length xs = kn_size K \<Longrightarrow> is_hash s \<Longrightarrow> i < kn_size K \<Longrightarrow> xs ! i = s \<Longrightarrow>
    i \<in> set (mask_indices (kn_mask_ops K) (kn_mask K (kn_load K xs) s))"
  using mask_complete [of xs s] by (auto simp: set_indices mask_ok slots_with_def)

end

text \<open>The cache also needs the LRU operations.\<close>

locale swiss_lru_kernel = swiss_kernel K ok slots
  for K :: "('r, 'l, 'm) kernel_ops" and ok :: "'m \<Rightarrow> bool" and slots :: "'m \<Rightarrow> nat set" +
  assumes store_load_lru: "length ls = kn_size K \<Longrightarrow> kn_store_lru K (kn_load_lru K ls) = ls"
    and lru_at_load: "length ls = kn_size K \<Longrightarrow> i < kn_size K \<Longrightarrow> kn_lru_at K (kn_load_lru K ls) i = ls ! i"
    and min_lru_first: "length ls = kn_size K \<Longrightarrow> kn_min_lru K (kn_load_lru K ls) = (v, i) \<Longrightarrow>
      first_min ls i \<and> v = ls ! i"
    and mask_min_lru_ok: "length ls = kn_size K \<Longrightarrow> ok (kn_mask_min_lru K (kn_load_lru K ls))"
    and mask_min_lru_nonempty: "length ls = kn_size K \<Longrightarrow> slots (kn_mask_min_lru K (kn_load_lru K ls)) \<noteq> {}"
    and mask_min_lru_first: "length ls = kn_size K \<Longrightarrow>
      Min (slots (kn_mask_min_lru K (kn_load_lru K ls))) = snd (kn_min_lru K (kn_load_lru K ls))"
    and update_lru_store: "length ls = kn_size K \<Longrightarrow> ok m \<Longrightarrow> slots m \<noteq> {} \<Longrightarrow>
      kn_store_lru K (kn_update_lru K (kn_load_lru K ls) m) = bump_lru ls (Min (slots m))"
    and to_empty_lru_load: "length xs = kn_size K \<Longrightarrow> length ls = kn_size K \<Longrightarrow>
      kn_to_empty_if_lru_below K (kn_load K xs) (kn_load_lru K ls) t
        = kn_load K (map2 (\<lambda>x l. if l < t then empty_state else x) xs ls)"
    and count_not_equal_card: "length xs = kn_size K \<Longrightarrow> length ys = kn_size K \<Longrightarrow>
      kn_count_not_equal K (kn_load K xs) (kn_load K ys) = card {i. i < kn_size K \<and> xs ! i \<noteq> ys ! i}"
begin

lemma to_empty_lru_store:
  "length xs = kn_size K \<Longrightarrow> length ls = kn_size K \<Longrightarrow>
    kn_store K (kn_to_empty_if_lru_below K (kn_load K xs) (kn_load_lru K ls) t)
      = map2 (\<lambda>x l. if l < t then empty_state else x) xs ls"
  by (simp add: to_empty_lru_load store_load)

end

section \<open>Collisions in a bucket\<close>

text \<open>
  \<open>count_collisions\<close> gathers the states of the occupied slots, sorts them, drops duplicates and, for
  each distinct state from the greatest down, increments the entry of the accumulator for the
  number of slots that match it. The comparison of the code is on signed bytes.
\<close>

definition count_collisions :: "('r, 'l, 'm) kernel_ops \<Rightarrow> state_t list \<Rightarrow> int list \<Rightarrow> int list" where
  "count_collisions K states acc = (
     let k = kn_load K states;
         tmp = map (kn_at K k) (mask_indices (kn_mask_ops K) (kn_mask_hash K k));
         it = remdups_adj (sort_key sint tmp)
     in fold (\<lambda>s acc. let i = mk_count (kn_mask_ops K) (kn_mask K k s) - 1 in acc[i := acc ! i + 1])
          (rev it) acc)"

end
