(* ===== verification/ArrayKernel.thy ===== *)
theory ArrayKernel
  imports Kernel
begin

text \<open>
  The portable \<open>array_kernel\<close> of kernel.hpp: the register is the array of states itself and every
  operation a loop over its slots. Up to 128 slots its mask is a word with one bit per slot,
  above that a \<open>bitset_mask\<close>; both variants are here. They satisfy the kernel contract without
  false positives, so the array kernel is also the reference the word-parallel kernel is compared to.
\<close>

text \<open>The loop \<open>m |= static_cast<mask_repr_type>(p(i)) << i\<close>.\<close>

definition array_mask_loop :: "nat \<Rightarrow> (nat \<Rightarrow> bool) \<Rightarrow> 'w::len word" where
  "array_mask_loop n p = fold (\<lambda>i m. m OR push_bit i (of_bool (p i))) [0..<n] 0"

definition bitset_loop :: "nat \<Rightarrow> (nat \<Rightarrow> bool) \<Rightarrow> bool list" where
  "bitset_loop n p = fold (\<lambda>i m. m[i := m ! i \<or> p i]) [0..<n] (replicate n False)"

definition array_not_hash_to_empty :: "state_t list \<Rightarrow> state_t list" where
  "array_not_hash_to_empty k = (
     let e = (scast empty_state :: u64)
     in map (\<lambda>i. let ki = (scast (k ! i) :: u64) in ucast (min ki e)) [0..<length k])"

definition array_hash_to_tombstone :: "state_t list \<Rightarrow> state_t list" where
  "array_hash_to_tombstone k =
     map (\<lambda>i. if sint tombstone_state < sint (k ! i) then tombstone_state else k ! i) [0..<length k]"

definition array_to_empty :: "(nat \<Rightarrow> bool) \<Rightarrow> state_t list \<Rightarrow> state_t list" where
  "array_to_empty at_m k = map (\<lambda>i. if at_m i then empty_state else k ! i) [0..<length k]"

definition array_count :: "(state_t \<Rightarrow> state_t \<Rightarrow> bool) \<Rightarrow> state_t list \<Rightarrow> state_t list \<Rightarrow> nat" where
  "array_count p k0 k1 = fold (\<lambda>i n. n + of_bool (p (k0 ! i) (k1 ! i))) [0..<length k0] 0"

definition array_min_lru :: "lru_t list \<Rightarrow> lru_t \<times> nat" where
  "array_min_lru l = fold (\<lambda>i (lru, idx). let li = l ! i in if li < lru then (li, i) else (lru, idx))
     [1..<length l] (l ! 0, 0)"

definition array_update_lru :: "nat \<Rightarrow> lru_t list \<Rightarrow> lru_t list" where
  "array_update_lru i l = (
     let rescale_shift = of_bool (l ! i \<ge> max_lru)
     in map (\<lambda>j. let lj = (ucast (l ! j) :: u64);
                     lj = drop_bit rescale_shift lj + of_bool (j = i)
                 in ucast lj) [0..<length l])"

definition array_to_empty_if_lru_below :: "state_t list \<Rightarrow> lru_t list \<Rightarrow> lru_t \<Rightarrow> state_t list" where
  "array_to_empty_if_lru_below k l t = map (\<lambda>i. if l ! i < t then empty_state else k ! i) [0..<length k]"

text \<open>
  The class, for a given mask class and mask loop: \<open>array_kernel\<close> uses the word mask,
  \<open>array_kernel_bitset\<close> the bitset.
\<close>

definition array_kernel_with ::
    "nat \<Rightarrow> 'm mask_ops \<Rightarrow> ((nat \<Rightarrow> bool) \<Rightarrow> 'm) \<Rightarrow> (state_t list, lru_t list, 'm) kernel_ops" where
  "array_kernel_with n M loop = \<lparr>
     kn_size = n,
     kn_mask_ops = M,
     kn_load = (\<lambda>xs. xs),
     kn_store = (\<lambda>k. k),
     kn_mask = (\<lambda>k s. loop (\<lambda>i. k ! i = s)),
     kn_mask_not = (\<lambda>k s. loop (\<lambda>i. k ! i \<noteq> s)),
     kn_mask_hash = (\<lambda>k. loop (\<lambda>i. is_hash (k ! i))),
     kn_mask_not_hash = (\<lambda>k. loop (\<lambda>i. is_not_hash (k ! i))),
     kn_mask_empty = (\<lambda>k. loop (\<lambda>i. k ! i = empty_state)),
     kn_mask_not_empty = (\<lambda>k. loop (\<lambda>i. k ! i \<noteq> empty_state)),
     kn_mask_tombstone = (\<lambda>k. loop (\<lambda>i. k ! i = tombstone_state)),
     kn_mask_not_tombstone = (\<lambda>k. loop (\<lambda>i. k ! i \<noteq> tombstone_state)),
     kn_mask_equal = (\<lambda>k0 k1. loop (\<lambda>i. k0 ! i = k1 ! i)),
     kn_mask_not_equal = (\<lambda>k0 k1. loop (\<lambda>i. k0 ! i \<noteq> k1 ! i)),
     kn_has_hash = list_ex is_hash,
     kn_has_not_hash = list_ex is_not_hash,
     kn_has_empty = list_ex (\<lambda>x. x = empty_state),
     kn_has_not_empty = list_ex (\<lambda>x. x \<noteq> empty_state),
     kn_has_tombstone = list_ex (\<lambda>x. x = tombstone_state),
     kn_has_not_tombstone = list_ex (\<lambda>x. x \<noteq> tombstone_state),
     kn_count_equal = array_count (=),
     kn_count_not_equal = array_count (\<noteq>),
     kn_hash_to_tombstone = array_hash_to_tombstone,
     kn_not_hash_to_empty = array_not_hash_to_empty,
     kn_to_empty = (\<lambda>k m. array_to_empty (mk_at M m) k),
     kn_at = (!),
     kn_load_lru = (\<lambda>l. l),
     kn_store_lru = (\<lambda>l. l),
     kn_min_lru = array_min_lru,
     kn_mask_min_lru = (\<lambda>l. mk_single M (snd (array_min_lru l))),
     kn_mask_lru_below = (\<lambda>l t. fold (\<lambda>i m. if l ! i < t then mk_join M m (mk_single M i) else m)
       [0..<n] (mk_empty M)),
     kn_update_lru = (\<lambda>l m. array_update_lru (mk_next M m) l),
     kn_to_empty_if_lru_below = array_to_empty_if_lru_below,
     kn_lru_at = (!)\<rparr>"

definition array_kernel :: "nat \<Rightarrow> (state_t list, lru_t list, 'w::len word) kernel_ops" where
  "array_kernel n = array_kernel_with n (uint_mask n 0 Align_right) (array_mask_loop n)"

definition array_kernel_bitset :: "nat \<Rightarrow> (state_t list, lru_t list, bool list) kernel_ops" where
  "array_kernel_bitset n = array_kernel_with n (bitset_mask n) (bitset_loop n)"

section \<open>The mask loops\<close>

lemma bit_array_mask_loop:
  "bit (array_mask_loop n p :: 'w::len word) j \<longleftrightarrow> j < n \<and> j < LENGTH('w) \<and> p j"
  by (induction n)
     (auto simp: array_mask_loop_def bit_or_iff bit_push_bit_iff bit_1_iff less_Suc_eq dest: bit_imp_le_length)

lemma nth_bitset_loop: "length (bitset_loop n p) = n \<and> (\<forall>j<n. bitset_loop n p ! j = p j)"
proof -
  have "length (fold (\<lambda>i m. m[i := m ! i \<or> p i]) [0..<k] (replicate n False)) = n
      \<and> (\<forall>j<n. fold (\<lambda>i m. m[i := m ! i \<or> p i]) [0..<k] (replicate n False) ! j = (j < k \<and> p j))" for k
    by (induction k) (auto simp: nth_list_update_if less_Suc_eq)
  from this [of n] show ?thesis by (simp add: bitset_loop_def)
qed

lemma slot_bit_right [simp]: "slot_bit 0 Align_right i = i"
  by (simp add: slot_bit_def)

locale array_mask = mask_laws M ok slots
  for M :: "'m mask_ops" and ok :: "'m \<Rightarrow> bool" and slots :: "'m \<Rightarrow> nat set" +
  fixes n :: nat and loop :: "(nat \<Rightarrow> bool) \<Rightarrow> 'm"
  assumes n_pos: "0 < n"
    and max_count_n: "mk_max_count M = n"
    and loop_ok: "ok (loop p)"
    and loop_slots: "slots (loop p) = {i. i < n \<and> p i}"

section \<open>Bytes: the sign extension and the LRU arithmetic\<close>

lemma not_hash_to_empty_byte:
  assumes "valid_state x"
  shows "(ucast (min (scast x :: u64) (scast empty_state)) :: u8) = (if is_hash x then x else empty_state)"
proof (cases "is_hash x")
  case True
  have low: "bit x i \<Longrightarrow> i < 7" for i
    using True bit_u8_less [of x i] by (cases "i = 7") (auto simp: is_hash_iff_bit)
  have "(scast x :: u64) = ucast x"
    using low [of 7] by (intro bit_eqI) (auto simp: bit_signed_iff bit_ucast_iff min_def dest: low
        split: if_splits)
  moreover have "uint (ucast x :: u64) = uint x" using uint_lt2p [of x]
    by (simp add: unsigned_ucast_eq take_bit_int_eq_self)
  moreover have "uint x < 256" using uint_lt2p [of x] by simp
  ultimately have "uint (scast x :: u64) < 256" by simp
  moreover have "uint (scast empty_state :: u64) = 2 ^ 64 - 128" by (simp add: empty_state_def)
  ultimately have "min (scast x :: u64) (scast empty_state) = scast x"
    by (simp add: min_def word_le_def)
  moreover have "(ucast (scast x :: u64) :: u8) = x"
    by (rule bit_eqI) (auto simp: bit_ucast_iff bit_signed_iff dest: bit_imp_le_length)
  ultimately show ?thesis using True by simp
next
  case False
  then have "x = empty_state \<or> x = tombstone_state" using assms by (simp add: valid_state_def)
  moreover have "(ucast (min (scast tombstone_state :: u64) (scast empty_state)) :: u8) = empty_state"
    and "(ucast (min (scast empty_state :: u64) (scast empty_state)) :: u8) = empty_state"
    by (simp_all add: min_def empty_state_def tombstone_state_def)
  ultimately show ?thesis by auto
qed

lemma update_lru_byte:
  fixes x :: lru_t
  shows "(ucast (drop_bit 0 (ucast x :: u64) + of_bool b) :: lru_t) = x + of_bool b"
    and "(ucast (drop_bit 1 (ucast x :: u64) + of_bool b) :: lru_t) = drop_bit 1 x + of_bool b"
proof -
  have c: "(ucast (u + v) :: lru_t) = ucast u + ucast v" for u v :: u64
    by (simp add: word_uint_eq_iff unsigned_ucast_eq uint_word_ariths take_bit_eq_mod mod_mod_cancel mod_simps)
  have "(ucast (ucast x :: u64) :: lru_t) = x"
    by (rule bit_eqI) (auto simp: bit_ucast_iff dest: bit_imp_le_length)
  moreover have "(ucast (drop_bit 1 (ucast x :: u64)) :: lru_t) = drop_bit 1 x"
    by (rule bit_eqI) (auto simp: bit_ucast_iff bit_drop_bit_eq dest: bit_imp_le_length)
  moreover have "(ucast (of_bool b :: u64) :: lru_t) = of_bool b" by (cases b) simp_all
  ultimately show "(ucast (drop_bit 0 (ucast x :: u64) + of_bool b) :: lru_t) = x + of_bool b"
    and "(ucast (drop_bit 1 (ucast x :: u64) + of_bool b) :: lru_t) = drop_bit 1 x + of_bool b"
    by (simp_all only: c drop_bit_0 id_apply)
qed

lemma array_min_lru_first:
  assumes "0 < length l" and "array_min_lru l = (v, i)"
  shows "first_min l i \<and> v = l ! i"
proof -
  let ?f = "\<lambda>i (lru, idx). let li = l ! i in if li < lru then (li, i) else (lru, idx)"
  have "k < length l \<Longrightarrow> fold ?f [1..<Suc k] (l ! 0, 0) = (v, i) \<Longrightarrow>
      i \<le> k \<and> v = l ! i \<and> (\<forall>j\<le>k. l ! i \<le> l ! j) \<and> (\<forall>j<i. l ! i < l ! j)" for k v i
  proof (induction k arbitrary: v i)
    case (Suc k)
    obtain v' i' where f: "fold ?f [1..<Suc k] (l ! 0, 0) = (v', i')" by fastforce
    have ih: "i' \<le> k" "v' = l ! i'" "\<forall>j\<le>k. l ! i' \<le> l ! j" "\<forall>j<i'. l ! i' < l ! j"
      using Suc.IH [OF _ f] Suc.prems(1) by simp_all
    have "fold ?f [1..<Suc (Suc k)] (l ! 0, 0) = ?f (Suc k) (v', i')" using f by simp
    then have r: "(v, i) = (if l ! Suc k < v' then (l ! Suc k, Suc k) else (v', i'))"
      using Suc.prems(2) by (simp add: Let_def)
    show ?case
    proof (cases "l ! Suc k < v'")
      case True
      have "l ! Suc k < l ! j" if "j \<le> k" for j using True ih(2,3) that by (metis order_less_le_trans)
      then show ?thesis using True r by (auto simp: le_Suc_eq less_Suc_eq_le intro: less_imp_le)
    next
      case False
      then have "l ! i' \<le> l ! Suc k" using ih(2) by (simp add: not_less)
      then show ?thesis using False r ih by (auto simp: le_Suc_eq)
    qed
  qed simp
  note main = this
  obtain k where k: "length l = Suc k" using assms(1) by (cases "length l") simp_all
  have "fold ?f [1..<Suc k] (l ! 0, 0) = (v, i)" using assms(2) unfolding array_min_lru_def k .
  then show ?thesis using main [of k v i] by (simp add: first_min_def k less_Suc_eq_le)
qed

lemma array_count_card:
  "length k0 = n \<Longrightarrow> array_count p k0 k1 = card {i. i < n \<and> p (k0 ! i) (k1 ! i)}"
proof -
  have "fold (\<lambda>i n. n + of_bool (p (k0 ! i) (k1 ! i))) [0..<m] 0 = card {i. i < m \<and> p (k0 ! i) (k1 ! i)}" for m
  proof (induction m)
    case (Suc m)
    have "{i. i < Suc m \<and> p (k0 ! i) (k1 ! i)}
        = {i. i < m \<and> p (k0 ! i) (k1 ! i)} \<union> (if p (k0 ! m) (k1 ! m) then {m} else {})"
      by (auto simp: less_Suc_eq)
    then show ?case using Suc.IH by (simp add: card_Un_disjoint)
  qed simp
  then show "length k0 = n \<Longrightarrow> array_count p k0 k1 = card {i. i < n \<and> p (k0 ! i) (k1 ! i)}"
    by (simp add: array_count_def)
qed

lemma array_update_lru_bump:
  assumes "i < length l"
  shows "array_update_lru i l = bump_lru l i"
proof (rule nth_equalityI)
  show "length (array_update_lru i l) = length (bump_lru l i)"
    by (simp add: array_update_lru_def bump_lru_def)
  fix j assume "j < length (array_update_lru i l)"
  then have j: "j < length l" by (simp add: array_update_lru_def)
  have top: "max_lru \<le> l ! i \<longleftrightarrow> l ! i = max_lru"
  proof -
    have "l ! i \<le> max_lru"
      using uint_lt2p [of "l ! i"] by (simp add: max_lru_def word_le_def)
    then show ?thesis by auto
  qed
  show "array_update_lru i l ! j = bump_lru l i ! j"
    using j assms update_lru_byte [of "l ! j"]
    by (simp add: array_update_lru_def bump_lru_def top nth_list_update_if Let_def)
qed

sublocale array_mask \<subseteq> swiss_lru_kernel "array_kernel_with n M loop" ok slots
proof unfold_locales
  let ?K = "array_kernel_with n M loop"
  note d = array_kernel_with_def
  show "0 < kn_size ?K" using n_pos by (simp add: d)
  show "mk_max_count (kn_mask_ops ?K) = kn_size ?K" by (simp add: d max_count_n)
next
  let ?K = "array_kernel_with n M loop"
  note d = array_kernel_with_def
  fix xs :: "state_t list" assume "length xs = kn_size ?K"
  then have n: "length xs = n" by (simp add: d)
  show "kn_store ?K (kn_load ?K xs) = xs" by (simp add: d)
  show "kn_at ?K (kn_load ?K xs) i = xs ! i" for i by (simp add: d)
  show "ok (kn_mask ?K (kn_load ?K xs) s)" for s by (simp add: d loop_ok)
  show "slots_with (\<lambda>x. x = s) xs \<subseteq> slots (kn_mask ?K (kn_load ?K xs) s)" for s
    by (auto simp: d loop_slots slots_with_def n)
  show "slots (kn_mask ?K (kn_load ?K xs) s) \<subseteq> slots_with is_hash xs" if "is_hash s" for s
    using that by (auto simp: d loop_slots slots_with_def n)
  show "ok (kn_mask_hash ?K (kn_load ?K xs))" by (simp add: d loop_ok)
  show "slots (kn_mask_hash ?K (kn_load ?K xs)) = slots_with is_hash xs"
    by (simp add: d loop_slots slots_with_def n)
  show "ok (kn_mask_not_hash ?K (kn_load ?K xs))" by (simp add: d loop_ok)
  show "slots (kn_mask_not_hash ?K (kn_load ?K xs)) = slots_with is_not_hash xs"
    by (simp add: d loop_slots slots_with_def n)
  show "ok (kn_mask_empty ?K (kn_load ?K xs))" by (simp add: d loop_ok)
  show "slots (kn_mask_empty ?K (kn_load ?K xs)) = slots_with (\<lambda>x. x = empty_state) xs"
    by (simp add: d loop_slots slots_with_def n)
  show "ok (kn_mask_tombstone ?K (kn_load ?K xs))" by (simp add: d loop_ok)
  show "slots (kn_mask_tombstone ?K (kn_load ?K xs)) = slots_with (\<lambda>x. x = tombstone_state) xs"
    by (simp add: d loop_slots slots_with_def n)
  show "kn_has_empty ?K (kn_load ?K xs) \<longleftrightarrow> empty_state \<in> set xs" by (auto simp: d list_ex_iff)
  show "kn_has_not_tombstone ?K (kn_load ?K xs) \<longleftrightarrow> (\<exists>x\<in>set xs. x \<noteq> tombstone_state)"
    by (simp add: d list_ex_iff)
  show "kn_store ?K (kn_not_hash_to_empty ?K (kn_load ?K xs)) = map (\<lambda>s. if is_hash s then s else empty_state) xs"
    if "valid_states xs"
  proof (rule nth_equalityI)
    fix i assume "i < length (kn_store ?K (kn_not_hash_to_empty ?K (kn_load ?K xs)))"
    then have i: "i < length xs" by (simp add: d array_not_hash_to_empty_def)
    then have "valid_state (xs ! i)" using that by (simp add: valid_states_def list_all_length)
    then show "kn_store ?K (kn_not_hash_to_empty ?K (kn_load ?K xs)) ! i
        = map (\<lambda>s. if is_hash s then s else empty_state) xs ! i"
      using i by (simp add: d array_not_hash_to_empty_def Let_def not_hash_to_empty_byte)
  qed (simp add: d array_not_hash_to_empty_def)
  show "kn_to_empty_if_lru_below ?K (kn_load ?K xs) (kn_load_lru ?K ls) t
      = kn_load ?K (map2 (\<lambda>x l. if l < t then empty_state else x) xs ls)" if "length ls = kn_size ?K" for ls t
    using that n by (intro nth_equalityI) (simp_all add: d array_to_empty_if_lru_below_def)
  show "kn_count_not_equal ?K (kn_load ?K xs) (kn_load ?K ys) = card {i. i < kn_size ?K \<and> xs ! i \<noteq> ys ! i}" for ys
    using array_count_card [OF n] by (simp add: d)
next
  let ?K = "array_kernel_with n M loop"
  note d = array_kernel_with_def
  fix ls :: "lru_t list" assume "length ls = kn_size ?K"
  then have n: "length ls = n" by (simp add: d)
  show "kn_store_lru ?K (kn_load_lru ?K ls) = ls" by (simp add: d)
  show "kn_lru_at ?K (kn_load_lru ?K ls) i = ls ! i" for i by (simp add: d)
  show "first_min ls i \<and> v = ls ! i" if "kn_min_lru ?K (kn_load_lru ?K ls) = (v, i)" for v i
    using array_min_lru_first [of ls v i] that n n_pos by (simp add: d)
  have "snd (array_min_lru ls) < n"
    using array_min_lru_first [of ls _ "snd (array_min_lru ls)"] n n_pos by (metis first_min_def prod.collapse)
  then show "ok (kn_mask_min_lru ?K (kn_load_lru ?K ls))" and "slots (kn_mask_min_lru ?K (kn_load_lru ?K ls)) \<noteq> {}"
    and "Min (slots (kn_mask_min_lru ?K (kn_load_lru ?K ls))) = snd (kn_min_lru ?K (kn_load_lru ?K ls))"
    by (simp_all add: d single_ok single_slots max_count_n)
  show "kn_store_lru ?K (kn_update_lru ?K (kn_load_lru ?K ls) m) = bump_lru ls (Min (slots m))"
    if m: "ok m" "slots m \<noteq> {}" for m
  proof -
    have "Min (slots m) \<in> slots m" using m finite_slots by simp
    then have "Min (slots m) < length ls" using slots_bound [OF m(1)] n max_count_n by auto
    then show ?thesis using array_update_lru_bump m by (simp add: d next_slot)
  qed
qed (simp_all add: array_kernel_with_def slots_bound has_next_iff next_slot step_ok step_slots count_card
    single_ok single_slots above_ok above_slots)

section \<open>The kernels of the library\<close>

context array_mask begin

lemma swiss: "swiss_lru_kernel (array_kernel_with n M loop) ok slots" ..

end

lemmas array_mask_swiss = array_mask.swiss

lemma array_mask_uint:
  assumes "0 < n" and "n \<le> LENGTH('w::len)"
  shows "array_mask (uint_mask n 0 Align_right :: 'w word mask_ops) (uint_mask_ok n 0 Align_right)
    (uint_mask_slots n 0 Align_right) n (array_mask_loop n)"
  by (intro array_mask.intro uint_mask_laws array_mask_axioms.intro)
    (use assms in \<open>auto simp: uint_mask_def uint_mask_ok_def uint_mask_slots_def bit_array_mask_loop\<close>)

lemma array_kernel_laws:
  assumes "0 < n" and "n \<le> LENGTH('w::len)"
  shows "swiss_lru_kernel (array_kernel n :: (_, _, 'w word) kernel_ops) (uint_mask_ok n 0 Align_right)
    (uint_mask_slots n 0 Align_right)"
  unfolding array_kernel_def by (rule array_mask_swiss [OF array_mask_uint [OF assms]])

lemma array_kernel_bitset_laws:
  assumes "0 < n"
  shows "swiss_lru_kernel (array_kernel_bitset n) (\<lambda>m. length m = n) bitset_slots"
  unfolding array_kernel_bitset_def
  by (intro array_mask_swiss array_mask.intro bitset.mask_laws_axioms array_mask_axioms.intro)
    (use assms nth_bitset_loop in \<open>auto simp: bitset_mask_def bitset_slots_def\<close>)

text \<open>The instances of the library, with the mask type it picks for each size.\<close>

interpretation array_kernel1: swiss_lru_kernel "array_kernel 1 :: (_, _, 32 word) kernel_ops"
  "uint_mask_ok 1 0 Align_right" "uint_mask_slots 1 0 Align_right"
  by (rule array_kernel_laws) simp_all

interpretation array_kernel2: swiss_lru_kernel "array_kernel 2 :: (_, _, 32 word) kernel_ops"
  "uint_mask_ok 2 0 Align_right" "uint_mask_slots 2 0 Align_right"
  by (rule array_kernel_laws) simp_all

interpretation array_kernel16: swiss_lru_kernel "array_kernel 16 :: (_, _, 32 word) kernel_ops"
  "uint_mask_ok 16 0 Align_right" "uint_mask_slots 16 0 Align_right"
  by (rule array_kernel_laws) simp_all

interpretation array_kernel64: swiss_lru_kernel "array_kernel 64 :: (_, _, 64 word) kernel_ops"
  "uint_mask_ok 64 0 Align_right" "uint_mask_slots 64 0 Align_right"
  by (rule array_kernel_laws) simp_all

interpretation array_kernel256: swiss_lru_kernel "array_kernel_bitset 256"
  "\<lambda>m. length m = 256" bitset_slots
  by (rule array_kernel_bitset_laws) simp

end
