(* ===== verification/UintKernel.thy ===== *)
theory UintKernel
  imports ArrayKernel
begin

text \<open>
  The \<open>uint_kernel\<close> of kernel.hpp: a whole bucket lives in one unsigned word, one byte per slot, and
  every operation is word-parallel (SWAR). The register type is \<open>'r word\<close>, the mask type \<open>'w word\<close>,
  at least as wide. Masks are left aligned with 8 bits per slot: the top bit of a slot's byte is set.
  The fast variant (\<open>produces_false_positives\<close>) saves an instruction in \<open>mask\<close>. Slot \<open>i\<close> is byte
  \<open>i\<close> of the word, so \<open>load\<close> and \<open>store\<close> are those of a little-endian machine, the only ones on
  which \<open>at\<close> and the masks agree with the memory layout.
\<close>

section \<open>The operations\<close>

fun load_bytes :: "u8 list \<Rightarrow> 'r::len word" where
  "load_bytes [] = 0"
| "load_bytes (b # bs) = ucast b OR push_bit 8 (load_bytes bs)"

definition store_bytes :: "'r::len word \<Rightarrow> u8 list" where
  "store_bytes k = map (byte_of k) [0..<n_bytes TYPE('r)]"

definition uk_lsbs :: "'r::len itself \<Rightarrow> 'w::len word" where
  "uk_lsbs _ = ucast (broadcast (0x01 :: u8) :: 'r word)"

definition uk_msbs :: "'r::len itself \<Rightarrow> 'w::len word" where
  "uk_msbs _ = ucast (broadcast (0x80 :: u8) :: 'r word)"

definition uk_all_bits :: "'r::len itself \<Rightarrow> 'w::len word" where
  "uk_all_bits _ = ucast (broadcast (0xff :: u8) :: 'r word)"

definition uk_mask :: "bool \<Rightarrow> 'r::len word \<Rightarrow> state_t \<Rightarrow> 'w::len word" where
  "uk_mask produces_false_positives k s = (
     let lsbs = uk_lsbs TYPE('r); msbs = uk_msbs TYPE('r);
         m = ucast k XOR (lsbs * ucast s)
     in if produces_false_positives
        then (m - lsbs) AND (NOT m AND msbs)
        else ((NOT m AND NOT msbs) + lsbs) AND (NOT m AND msbs))"

definition uk_mask_hash :: "'r::len word \<Rightarrow> 'w::len word" where
  "uk_mask_hash k = NOT (ucast k) AND uk_msbs TYPE('r)"

definition uk_mask_not_hash :: "'r::len word \<Rightarrow> 'w::len word" where
  "uk_mask_not_hash k = ucast k AND uk_msbs TYPE('r)"

definition uk_mask_empty :: "'r::len word \<Rightarrow> 'w::len word" where
  "uk_mask_empty k = ucast k AND push_bit 7 (NOT (ucast k)) AND uk_msbs TYPE('r)"

definition uk_mask_tombstone :: "'r::len word \<Rightarrow> 'w::len word" where
  "uk_mask_tombstone k = ucast k AND push_bit 7 (ucast k) AND uk_msbs TYPE('r)"

definition uk_mask_equal :: "'r::len word \<Rightarrow> 'r word \<Rightarrow> 'w::len word" where
  "uk_mask_equal k0 k1 = (
     let lsbs = uk_lsbs TYPE('r); msbs = uk_msbs TYPE('r);
         m = ucast k0 XOR ucast k1
     in ((NOT m AND NOT msbs) + lsbs) AND (NOT m AND msbs))"

definition uk_mask_flip :: "'r::len itself \<Rightarrow> 'w::len word \<Rightarrow> 'w word" where
  "uk_mask_flip r m = m XOR uk_msbs r"

definition uk_hash_to_tombstone :: "'w::len itself \<Rightarrow> 'r::len word \<Rightarrow> 'r word" where
  "uk_hash_to_tombstone w k = (
     let m = (ucast k :: 'w word)
     in ucast (uk_msbs TYPE('r) OR ((drop_bit 7 (NOT m) OR m) AND uk_lsbs TYPE('r))))"

definition uk_not_hash_to_empty :: "'w::len itself \<Rightarrow> 'r::len word \<Rightarrow> 'r word" where
  "uk_not_hash_to_empty w k = (
     let m = (ucast k :: 'w word)
     in ucast (m AND (NOT (uk_lsbs TYPE('r)) OR drop_bit 7 (NOT m))))"

definition uk_to_empty :: "'r::len word \<Rightarrow> 'w::len word \<Rightarrow> 'r word" where
  "uk_to_empty k m = (
     let m = drop_bit 7 m * 0xff;
         m = ucast k XOR ((ucast k XOR uk_msbs TYPE('r)) AND m)
     in ucast m)"

definition uk_at :: "'r::len word \<Rightarrow> nat \<Rightarrow> u8" where
  "uk_at k i = ucast (drop_bit (i * 8) k)"

definition uk_min_lru :: "'r::len word \<Rightarrow> lru_t \<times> nat" where
  "uk_min_lru l = fold (\<lambda>i (lru, idx). let li = uk_at l i in if li < lru then (li, i) else (lru, idx))
     [1..<n_bytes TYPE('r)] (uk_at l 0, 0)"

definition uk_mask_lru_below :: "'r::len word \<Rightarrow> lru_t \<Rightarrow> 'w::len word" where
  "uk_mask_lru_below l t =
     push_bit 7 (fold (\<lambda>i m. m OR push_bit (i * 8) (of_bool (uk_at l i < t))) [0..<n_bytes TYPE('r)] 0)"

definition uk_update_lru :: "nat \<Rightarrow> 'r::len word \<Rightarrow> 'w::len word \<Rightarrow> 'r word" where
  "uk_update_lru i l n = (
     let rescale_shift = of_bool (uk_at l i \<ge> max_lru);
         n = (ucast (drop_bit rescale_shift l) :: 'w word);
         n = n AND (if rescale_shift \<noteq> 0 then NOT (uk_msbs TYPE('r)) else uk_all_bits TYPE('r));
         l = push_bit (i * 8) (1 :: 'r word)
     in ucast (n + ucast l))"

definition uint_kernel :: "bool \<Rightarrow> ('r::len word, 'r word, 'w::len word) kernel_ops" where
  "uint_kernel produces_false_positives = (
     let M = uint_mask (n_bytes TYPE('r)) 3 Align_left in \<lparr>
     kn_size = n_bytes TYPE('r),
     kn_mask_ops = M,
     kn_load = load_bytes,
     kn_store = store_bytes,
     kn_mask = uk_mask produces_false_positives,
     kn_mask_not = (\<lambda>k s. uk_mask_flip TYPE('r) (uk_mask produces_false_positives k s)),
     kn_mask_hash = uk_mask_hash,
     kn_mask_not_hash = uk_mask_not_hash,
     kn_mask_empty = uk_mask_empty,
     kn_mask_not_empty = (\<lambda>k. uk_mask_flip TYPE('r) (uk_mask_empty k)),
     kn_mask_tombstone = uk_mask_tombstone,
     kn_mask_not_tombstone = (\<lambda>k. uk_mask_flip TYPE('r) (uk_mask_tombstone k)),
     kn_mask_equal = uk_mask_equal,
     kn_mask_not_equal = (\<lambda>k0 k1. uk_mask_flip TYPE('r) (uk_mask_equal k0 k1)),
     kn_has_hash = (\<lambda>k. (uk_mask_hash k :: 'w word) \<noteq> 0),
     kn_has_not_hash = (\<lambda>k. (uk_mask_not_hash k :: 'w word) \<noteq> 0),
     kn_has_empty = (\<lambda>k. (uk_mask_empty k :: 'w word) \<noteq> 0),
     kn_has_not_empty = (\<lambda>k. uk_mask_flip TYPE('r) (uk_mask_empty k :: 'w word) \<noteq> 0),
     kn_has_tombstone = (\<lambda>k. (uk_mask_tombstone k :: 'w word) \<noteq> 0),
     kn_has_not_tombstone = (\<lambda>k. uk_mask_flip TYPE('r) (uk_mask_tombstone k :: 'w word) \<noteq> 0),
     kn_count_equal = (\<lambda>k0 k1. mk_count M (uk_mask_equal k0 k1)),
     kn_count_not_equal = (\<lambda>k0 k1. mk_count M (uk_mask_flip TYPE('r) (uk_mask_equal k0 k1))),
     kn_hash_to_tombstone = uk_hash_to_tombstone TYPE('w),
     kn_not_hash_to_empty = uk_not_hash_to_empty TYPE('w),
     kn_to_empty = uk_to_empty,
     kn_at = uk_at,
     kn_load_lru = load_bytes,
     kn_store_lru = store_bytes,
     kn_min_lru = uk_min_lru,
     kn_mask_min_lru = (\<lambda>l. mk_single M (snd (uk_min_lru l))),
     kn_mask_lru_below = uk_mask_lru_below,
     kn_update_lru = (\<lambda>l n. uk_update_lru (mk_next M n) l n),
     kn_to_empty_if_lru_below = (\<lambda>k l t. uk_to_empty k (uk_mask_lru_below l t :: 'w word)),
     kn_lru_at = uk_at\<rparr>)"

section \<open>Bytes of the register\<close>

lemma byte_load_bytes:
  "i < length bs \<Longrightarrow> 8 * length bs \<le> LENGTH('r) \<Longrightarrow> byte_of (load_bytes bs :: 'r::len word) i = bs ! i"
proof (induction bs arbitrary: i)
  case (Cons b bs)
  show ?case
  proof (rule bit_eqI)
    fix j
    show "bit (byte_of (load_bytes (b # bs) :: 'r word) i) j \<longleftrightarrow> bit ((b # bs) ! i) j"
    proof (cases i)
      case 0
      then show ?thesis using Cons.prems
        by (auto simp: bit_byte_of bit_or_iff bit_ucast_iff bit_push_bit_iff dest: bit_u8_less)
    next
      case (Suc i')
      have "byte_of (load_bytes bs :: 'r word) i' = bs ! i'"
        using Cons.IH [of i'] Cons.prems Suc by simp
      then have "bit (bs ! i') j \<longleftrightarrow> j < 8 \<and> bit (load_bytes bs :: 'r word) (8 * i' + j)"
        by (metis bit_byte_of)
      then show ?thesis using Suc Cons.prems
        by (auto simp: bit_byte_of bit_or_iff bit_ucast_iff bit_push_bit_iff dest: bit_u8_less)
    qed
  qed
qed simp

lemma uk_at_byte: "uk_at k i = byte_of k i"
  by (simp add: uk_at_def byte_of_def mult.commute)

lemma bit_byte_7: "bit (byte_of k i) 7 \<longleftrightarrow> bit k (8 * i + 7)"
  by (simp add: bit_byte_of)

lemma bit_0x80: "bit (0x80 :: u8) j \<longleftrightarrow> j = 7"
proof -
  have "(0x80 :: u8) = 2 ^ 7" by simp
  then show ?thesis by (simp only: bit_exp_iff) auto
qed

lemma bit_empty_state: "bit empty_state j \<longleftrightarrow> j = 7"
proof -
  have "empty_state = (0x80 :: u8)" by (simp add: empty_state_def)
  then show ?thesis by (metis bit_0x80)
qed

lemma bit_tombstone_state: "bit tombstone_state j \<longleftrightarrow> j = 7 \<or> j = 0"
proof -
  have "tombstone_state = (0x80 OR 1 :: u8)" by (simp add: tombstone_state_def)
  then have "bit tombstone_state j \<longleftrightarrow> bit (0x80 :: u8) j \<or> bit (1 :: u8) j" by (metis bit_or_iff)
  then show ?thesis by (simp only: bit_0x80 bit_1_iff)
qed

lemma bit_0x01: "bit (0x01 :: u8) j \<longleftrightarrow> j = 0"
  by (simp add: bit_1_iff)

lemma slot_bit_left: "slot_bit 3 Align_left i = 8 * i + 7"
  by (simp add: slot_bit_def)

text \<open>Arithmetic on one byte.\<close>

lemma odd_div_128: "0 \<le> v \<Longrightarrow> v < 256 \<Longrightarrow> odd (v div 128) \<longleftrightarrow> 128 \<le> v" for v :: int
proof (cases "128 \<le> v")
  case True
  moreover assume "v < 256"
  ultimately have "v div 128 = 1" by (intro int_div_pos_eq [where r = "v - 128"]) simp_all
  then show ?thesis using True by simp
qed (simp add: div_pos_pos_trivial)

lemma bit_7_uint: "bit (x :: u8) 7 \<longleftrightarrow> 128 \<le> uint x"
proof -
  have "uint x < 256" using uint_lt2p [of x] by simp
  moreover have "bit x 7 \<longleftrightarrow> bit (uint x) 7" by (simp add: bit_uint_iff)
  moreover have "bit (uint x) 7 \<longleftrightarrow> odd (uint x div 128)" by (simp only: bit_iff_odd) simp
  ultimately show ?thesis using odd_div_128 [of "uint x"] by simp
qed

lemma u8_cases_low: "\<not> bit (x :: u8) 7 \<Longrightarrow> uint x < 128"
  by (simp add: bit_7_uint)

lemma zero_byte:
  fixes b :: u8
  shows "bit ((NOT b AND NOT 0x80) + 1) 7 \<and> \<not> bit b 7 \<longleftrightarrow> b = 0"
proof (cases "bit b 7")
  case False
  let ?c = "NOT b AND NOT 0x80 :: u8"
  have c: "bit ?c j \<longleftrightarrow> j < 7 \<and> \<not> bit b j" for j
    by (simp only: bit_and_iff bit_not_iff bit_0x80) auto
  then have "\<not> bit ?c 7" by simp
  then have u: "uint ?c < 128" by (rule u8_cases_low)
  then have "uint (?c + 1) = uint ?c + 1" by (simp add: uint_word_ariths)
  then have "bit (?c + 1) 7 \<longleftrightarrow> 128 \<le> uint ?c + 1" by (simp only: bit_7_uint)
  also have "\<dots> \<longleftrightarrow> uint ?c = 127" using u by linarith
  also have "\<dots> \<longleftrightarrow> ?c = 0x7f" by (simp add: word_uint_eq_iff)
  also have "\<dots> \<longleftrightarrow> b = 0"
  proof
    assume "b = 0" then show "?c = 0x7f" by simp
  next
    assume e: "?c = 0x7f"
    have m: "(0x7f :: u8) = mask 7" by (simp add: mask_eq_exp_minus_1)
    have "bit (0x7f :: u8) j \<longleftrightarrow> j < 7" for j by (simp only: m bit_mask_iff) auto
    then have "j < 7 \<Longrightarrow> \<not> bit b j" for j using c [of j] e by metis
    then have "\<not> bit b j" for j
      using False bit_u8_less [of b j] by (cases "j < 7"; cases "j = 7") auto
    then show "b = 0" by (intro bit_eqI) simp
  qed
  finally show ?thesis using False by simp
qed auto

lemma zero_byte_sum: "uint (NOT b AND NOT 0x80 :: u8) < 128"
proof -
  have "\<not> bit (NOT b AND NOT 0x80 :: u8) 7" by (simp only: bit_and_iff bit_not_iff bit_0x80) simp
  then show ?thesis by (rule u8_cases_low)
qed

lemma fast_byte:
  fixes b :: u8
  assumes "\<not> bit b 7"
  shows "bit (b - 1 - (if c then 1 else 0)) 7 \<longleftrightarrow> b = 0 \<or> (b = 1 \<and> c)"
proof -
  let ?d = "if c then 1 else 0 :: int"
  have u: "0 \<le> uint b" "uint b < 128" using u8_cases_low [OF assms] by simp_all
  have "uint (b - 1 - (if c then 1 else 0)) = (uint b - 1 - ?d) mod 256"
  proof -
    have m: "uint (x - y) = (uint x - uint y) mod 256" for x y :: u8 by (simp add: uint_word_ariths)
    have "uint (b - 1 - e) = (uint b - 1 - uint e) mod 256" for e
      by (simp only: m mod_diff_left_eq unsigned_1)
    then show ?thesis by (cases c) (simp_all only: if_True if_False unsigned_1 unsigned_0)
  qed
  also have "\<dots> = (if uint b < 1 + ?d then uint b - 1 - ?d + 256 else uint b - 1 - ?d)"
  proof (cases "uint b < 1 + ?d")
    case True
    have "(uint b - 1 - ?d) mod 256 = (uint b - 1 - ?d + 256) mod 256" by (simp only: mod_add_self2)
    also have "\<dots> = uint b - 1 - ?d + 256" using u True by (intro mod_pos_pos_trivial) (auto split: if_splits)
    finally show ?thesis using True by simp
  next
    case False
    then show ?thesis using u by (simp add: mod_pos_pos_trivial)
  qed
  finally have e: "uint (b - 1 - (if c then 1 else 0))
    = (if uint b < 1 + ?d then uint b - 1 - ?d + 256 else uint b - 1 - ?d)" .
  define v where "v = uint b"
  have v: "0 \<le> v" "v < 128" using u by (simp_all add: v_def)
  have "b = 0 \<longleftrightarrow> v = 0" "b = 1 \<longleftrightarrow> v = 1" by (simp_all add: v_def word_uint_eq_iff)
  then show ?thesis unfolding bit_7_uint e v_def [symmetric] using v by auto
qed

locale uint_widths =
  fixes rt :: "'r::len itself" and wt :: "'w::len itself"
  assumes r_bytes: "whole_bytes TYPE('r)" and w_bytes: "whole_bytes TYPE('w)"
    and fits: "n_bytes TYPE('r) \<le> n_bytes TYPE('w)" and small: "n_bytes TYPE('w) < 32"
begin

lemma len_r: "LENGTH('r) = 8 * n_bytes TYPE('r)"
  using r_bytes by (simp add: n_bytes_def)

lemma len_w: "LENGTH('w) = 8 * n_bytes TYPE('w)"
  using w_bytes by (simp add: n_bytes_def)

lemma n_pos: "0 < n_bytes TYPE('r)"
  by (rule n_bytes_pos [OF r_bytes])

lemma bit_wide: "bit (ucast (k :: 'r word) :: 'w word) i \<longleftrightarrow> bit k i"
  using len_r len_w fits bit_imp_le_length [of k i] by (auto simp: bit_ucast_iff)

lemma byte_wide: "byte_of (ucast (k :: 'r word) :: 'w word) j = byte_of k j"
  by (rule bit_eqI) (simp add: bit_byte_of bit_wide)

lemma byte_const: "byte_of (ucast (broadcast b :: 'r word) :: 'w word) j = (if j < n_bytes TYPE('r) then b else 0)"
  by (simp add: byte_wide byte_of_broadcast [OF r_bytes] byte_of_beyond [OF r_bytes])

lemma byte_lsbs: "byte_of (uk_lsbs TYPE('r) :: 'w word) j = (if j < n_bytes TYPE('r) then 1 else 0)"
  by (simp add: uk_lsbs_def byte_const)

lemma byte_msbs: "byte_of (uk_msbs TYPE('r) :: 'w word) j = (if j < n_bytes TYPE('r) then 0x80 else 0)"
  by (simp add: uk_msbs_def byte_const)

lemma bit_by_byte: "bit (x :: 'x::len word) b \<longleftrightarrow> bit (byte_of x (b div 8)) (b mod 8)"
  by (simp add: bit_byte_of)

lemma bit_msbs: "bit (uk_msbs TYPE('r) :: 'w word) b \<longleftrightarrow> b div 8 < n_bytes TYPE('r) \<and> b mod 8 = 7"
proof -
  have "bit (uk_msbs TYPE('r) :: 'w word) b
      \<longleftrightarrow> bit (if b div 8 < n_bytes TYPE('r) then 0x80 else 0 :: u8) (b mod 8)"
    by (subst bit_by_byte) (simp only: byte_msbs)
  then show ?thesis
    by (cases "b div 8 < n_bytes TYPE('r)") (simp_all only: if_True if_False bit_0x80, simp_all)
qed

lemma bit_lsbs: "bit (uk_lsbs TYPE('r) :: 'w word) b \<longleftrightarrow> b div 8 < n_bytes TYPE('r) \<and> b mod 8 = 0"
  by (subst bit_by_byte) (simp add: byte_lsbs bit_1_iff)

lemma in_w: "i < n_bytes TYPE('r) \<Longrightarrow> j < 8 \<Longrightarrow> 8 * i + j < LENGTH('w)"
  using len_w fits by simp

lemma wr: "i < n_bytes TYPE('r) \<Longrightarrow> i < n_bytes TYPE('w)"
  using fits by simp

text \<open>A word masked with \<open>msbs\<close> is a mask; its slots are the bytes whose top bit is set.\<close>

lemma msbs_ok: "uint_mask_ok (n_bytes TYPE('r)) 3 Align_left (x AND uk_msbs TYPE('r) :: 'w word)"
proof -
  have "b \<in> slot_bit 3 Align_left ` {..<n_bytes TYPE('r)}" if "bit (x AND uk_msbs TYPE('r) :: 'w word) b" for b
  proof (rule image_eqI)
    show "b = slot_bit 3 Align_left (b div 8)"
      using that by (simp add: bit_and_iff bit_msbs slot_bit_left)
        (metis mult_div_mod_eq)
    show "b div 8 \<in> {..<n_bytes TYPE('r)}" using that by (simp add: bit_and_iff bit_msbs)
  qed
  then show ?thesis by (auto simp: uint_mask_ok_def)
qed

lemma msbs_slots:
  "uint_mask_slots (n_bytes TYPE('r)) 3 Align_left (x AND uk_msbs TYPE('r) :: 'w word) = {i. i < n_bytes TYPE('r) \<and> bit (byte_of x i) 7}"
  by (auto simp: uint_mask_slots_def bit_and_iff bit_msbs slot_bit_left bit_byte_of)

lemma flip_slots:
  "uint_mask_slots (n_bytes TYPE('r)) 3 Align_left (uk_mask_flip TYPE('r) (m :: 'w word)) = {i. i < n_bytes TYPE('r) \<and> i \<notin> uint_mask_slots (n_bytes TYPE('r)) 3 Align_left m}"
  by (auto simp: uk_mask_flip_def uint_mask_slots_def bit_xor_iff bit_msbs slot_bit_left)

lemma flip_ok:
  "uint_mask_ok (n_bytes TYPE('r)) 3 Align_left m \<Longrightarrow> uint_mask_ok (n_bytes TYPE('r)) 3 Align_left (uk_mask_flip TYPE('r) (m :: 'w word))"
proof -
  assume "uint_mask_ok (n_bytes TYPE('r)) 3 Align_left m"
  then have "m AND uk_msbs TYPE('r) = m"
    by (intro bit_eqI) (auto simp: uint_mask_ok_def bit_and_iff bit_msbs slot_bit_left)
  then have "uk_mask_flip TYPE('r) m = (m XOR uk_msbs TYPE('r)) AND uk_msbs TYPE('r)"
    by (auto simp: uk_mask_flip_def bit_eq_iff bit_and_iff bit_xor_iff)
  then show ?thesis by (simp only: msbs_ok)
qed

text \<open>Zero bytes are found word-parallel, exactly or with false positives above a zero byte.\<close>

lemma zero_bytes_exact:
  fixes m :: "'w word"
  defines "z \<equiv> ((NOT m AND NOT (uk_msbs TYPE('r))) + uk_lsbs TYPE('r)) AND (NOT m AND uk_msbs TYPE('r))"
  shows "uint_mask_ok (n_bytes TYPE('r)) 3 Align_left z"
    and "uint_mask_slots (n_bytes TYPE('r)) 3 Align_left z = {i. i < n_bytes TYPE('r) \<and> byte_of m i = 0}"
proof -
  let ?a = "NOT m AND NOT (uk_msbs TYPE('r)) :: 'w word"
  have z: "z = ((?a + uk_lsbs TYPE('r)) AND NOT m) AND uk_msbs TYPE('r)"
    unfolding z_def by (simp only: and.assoc)
  show "uint_mask_ok (n_bytes TYPE('r)) 3 Align_left z" unfolding z by (rule msbs_ok)
  have a: "byte_of ?a j = NOT (byte_of m j) AND NOT 0x80" if "j < n_bytes TYPE('r)" for j
    by (simp only: byte_of_and byte_of_not [OF w_bytes wr [OF that]] byte_msbs that if_True)
  have sum: "byte_of (?a + uk_lsbs TYPE('r)) i = (NOT (byte_of m i) AND NOT 0x80) + 1" if i: "i < n_bytes TYPE('r)" for i
  proof -
    have "byte_of (?a + uk_lsbs TYPE('r)) i = byte_of ?a i + byte_of (uk_lsbs TYPE('r) :: 'w word) i"
    proof (rule byte_of_add [OF w_bytes wr [OF i]])
      fix j assume "j \<le> i"
      then have j: "j < n_bytes TYPE('r)" using i by simp
      show "uint (byte_of ?a j) + uint (byte_of (uk_lsbs TYPE('r) :: 'w word) j) < 256"
        using zero_byte_sum [of "byte_of m j"] by (simp only: a [OF j] byte_lsbs j if_True) simp
    qed
    then show ?thesis by (simp only: a [OF i] byte_lsbs i if_True)
  qed
  have "bit (byte_of ((?a + uk_lsbs TYPE('r)) AND NOT m) i) 7 \<longleftrightarrow> byte_of m i = 0" if i: "i < n_bytes TYPE('r)" for i
    using zero_byte [of "byte_of m i"]
    by (simp only: byte_of_and sum [OF i] byte_of_not [OF w_bytes wr [OF i]] bit_and_iff bit_not_iff) auto
  then show "uint_mask_slots (n_bytes TYPE('r)) 3 Align_left z = {i. i < n_bytes TYPE('r) \<and> byte_of m i = 0}"
    unfolding z msbs_slots by auto
qed

lemma zero_bytes_fast:
  fixes m :: "'w word"
  defines "z \<equiv> (m - uk_lsbs TYPE('r)) AND (NOT m AND uk_msbs TYPE('r))"
  shows "uint_mask_ok (n_bytes TYPE('r)) 3 Align_left z"
    and "{i. i < n_bytes TYPE('r) \<and> byte_of m i = 0} \<subseteq> uint_mask_slots (n_bytes TYPE('r)) 3 Align_left z"
    and "uint_mask_slots (n_bytes TYPE('r)) 3 Align_left z \<subseteq> {i. i < n_bytes TYPE('r) \<and> (byte_of m i = 0 \<or> byte_of m i = 1)}"
proof -
  have z: "z = ((m - uk_lsbs TYPE('r)) AND NOT m) AND uk_msbs TYPE('r)"
    unfolding z_def by (simp only: and.assoc)
  show "uint_mask_ok (n_bytes TYPE('r)) 3 Align_left z" unfolding z by (rule msbs_ok)
  have "\<exists>c. (bit (byte_of ((m - uk_lsbs TYPE('r)) AND NOT m) i) 7 \<longleftrightarrow> byte_of m i = 0 \<or> (byte_of m i = 1 \<and> c))"
    if i: "i < n_bytes TYPE('r)" for i
  proof -
    let ?c = "uint m mod 256 ^ i < uint (uk_lsbs TYPE('r) :: 'w word) mod 256 ^ i"
    have d: "byte_of (m - uk_lsbs TYPE('r)) i = byte_of m i - 1 - (if ?c then 1 else 0)"
      by (simp only: byte_of_diff [OF w_bytes wr [OF i]] byte_lsbs i if_True)
    have "bit (byte_of ((m - uk_lsbs TYPE('r)) AND NOT m) i) 7
        \<longleftrightarrow> bit (byte_of m i - 1 - (if ?c then 1 else 0)) 7 \<and> \<not> bit (byte_of m i) 7"
      by (simp only: byte_of_and d byte_of_not [OF w_bytes wr [OF i]] bit_and_iff bit_not_iff) simp
    also have "\<dots> \<longleftrightarrow> byte_of m i = 0 \<or> (byte_of m i = 1 \<and> ?c)"
    proof (cases "bit (byte_of m i) 7")
      case True
      then have "byte_of m i \<noteq> 0" "byte_of m i \<noteq> 1" by (auto simp: bit_1_iff)
      then show ?thesis using True by simp
    next
      case False
      then show ?thesis by (simp only: fast_byte [OF False]) simp
    qed
    finally show ?thesis by blast
  qed
  then show "{i. i < n_bytes TYPE('r) \<and> byte_of m i = 0} \<subseteq> uint_mask_slots (n_bytes TYPE('r)) 3 Align_left z"
    and "uint_mask_slots (n_bytes TYPE('r)) 3 Align_left z \<subseteq> {i. i < n_bytes TYPE('r) \<and> (byte_of m i = 0 \<or> byte_of m i = 1)}"
    unfolding z msbs_slots by blast+
qed

lemma byte_prefix_byte:
  "m \<le> n_bytes TYPE('w) \<Longrightarrow> j < n_bytes TYPE('w) \<Longrightarrow>
    byte_of (byte_prefix (ucast (s :: u8) :: 'w word) m) j = (if j < m then s else 0)"
proof (induction m arbitrary: j)
  case 0
  then show ?case by (simp add: byte_prefix_def byte_of_0)
next
  case (Suc m)
  have push: "byte_of (push_bit (m * 8) (ucast s :: 'w word)) k = (if k = m then s else 0)"
    if "k < n_bytes TYPE('w)" for k
    using that by (simp add: byte_of_push_bytes [OF w_bytes that] byte_of_ucast_byte [OF w_bytes])
  have "byte_of (byte_prefix (ucast s :: 'w word) m + push_bit (m * 8) (ucast s)) j
      = byte_of (byte_prefix (ucast s :: 'w word) m) j + byte_of (push_bit (m * 8) (ucast s :: 'w word)) j"
  proof (rule byte_of_add [OF w_bytes Suc.prems(2)])
    fix k assume "k \<le> j"
    then have k: "k < n_bytes TYPE('w)" using Suc.prems by simp
    have "uint s < 256" using uint_lt2p [of s] by simp
    then show "uint (byte_of (byte_prefix (ucast s :: 'w word) m) k)
        + uint (byte_of (push_bit (m * 8) (ucast s :: 'w word)) k) < 256"
      using Suc.IH [of k] Suc.prems k by (simp add: push [OF k])
  qed
  then show ?case
    using Suc.IH [of j] Suc.prems by (simp add: byte_prefix_def push)
qed

lemma lsbs_times: "byte_of (uk_lsbs TYPE('r) * ucast (s :: u8) :: 'w word) j = (if j < n_bytes TYPE('r) then s else 0)"
proof (cases "j < n_bytes TYPE('w)")
  case True
  have "(uk_lsbs TYPE('r) :: 'w word) = byte_prefix (ucast (1 :: u8)) (n_bytes TYPE('r))"
    by (rule word_eq_bytesI [OF w_bytes]) (simp add: byte_prefix_byte fits byte_lsbs del: unsigned_1)
  then have "(uk_lsbs TYPE('r) * ucast s :: 'w word) = byte_prefix (ucast s) (n_bytes TYPE('r))"
    by (simp add: byte_prefix_def sum_distrib_right sum_distrib_left push_bit_eq_mult mult.commute)
  then show ?thesis using byte_prefix_byte [OF fits True] by simp
next
  case False
  then show ?thesis using fits by (simp add: byte_of_beyond [OF w_bytes])
qed

text \<open>A loaded bucket.\<close>

lemma byte_load: "length xs = n_bytes TYPE('r) \<Longrightarrow> i < n_bytes TYPE('r) \<Longrightarrow> byte_of (load_bytes xs :: 'r word) i = xs ! i"
  by (rule byte_load_bytes) (simp_all add: len_r)

lemma byte_narrow: "i < n_bytes TYPE('r) \<Longrightarrow> byte_of (ucast (m :: 'w word) :: 'r word) i = byte_of m i"
  by (rule bit_eqI) (auto simp: bit_byte_of bit_ucast_iff len_r)

lemma store_nth: "i < n_bytes TYPE('r) \<Longrightarrow> store_bytes (k :: 'r word) ! i = byte_of k i"
  by (simp add: store_bytes_def)

lemma store_length [simp]: "length (store_bytes (k :: 'r word)) = n_bytes TYPE('r)"
  by (simp add: store_bytes_def)

lemma store_load_bytes: "length xs = n_bytes TYPE('r) \<Longrightarrow> store_bytes (load_bytes xs :: 'r word) = xs"
  by (rule nth_equalityI) (simp_all add: store_nth byte_load)

lemma load_store_bytes: "load_bytes (store_bytes k) = (k :: 'r word)"
  by (rule word_eq_bytesI [OF r_bytes]) (simp add: byte_load store_nth)

lemma match_byte:
  assumes "length xs = n_bytes TYPE('r)" and "i < n_bytes TYPE('r)"
  shows "byte_of (ucast (load_bytes xs :: 'r word) XOR (uk_lsbs TYPE('r) * ucast s) :: 'w word) i = xs ! i XOR s"
  using assms by (simp add: byte_of_xor byte_wide byte_load lsbs_times)

lemma xor_cancel: "(x XOR s) XOR s = x" for x s :: u8
  by (simp only: xor.assoc xor_self_eq xor.right_neutral)

lemma xor_zero_iff: "x XOR s = 0 \<longleftrightarrow> x = s" for x s :: u8
proof
  assume "x XOR s = 0"
  then show "x = s" using xor_cancel [of x s] by simp
qed simp

lemma xor_one_iff: "x XOR s = 1 \<longleftrightarrow> x = s XOR 1" for x s :: u8
proof
  assume "x XOR s = 1"
  then show "x = s XOR 1" using xor_cancel [of x s] by (simp only: xor.commute)
next
  assume "x = s XOR 1"
  then show "x XOR s = 1" using xor_cancel [of 1 s] by (simp only: xor.commute)
qed

lemma mask_exact:
  assumes "length xs = n_bytes TYPE('r)"
  shows "uint_mask_ok (n_bytes TYPE('r)) 3 Align_left (uk_mask False (load_bytes xs :: 'r word) s :: 'w word)"
    and "uint_mask_slots (n_bytes TYPE('r)) 3 Align_left (uk_mask False (load_bytes xs :: 'r word) s :: 'w word)
      = slots_with (\<lambda>x. x = s) xs"
proof -
  let ?m = "ucast (load_bytes xs :: 'r word) XOR (uk_lsbs TYPE('r) * ucast s) :: 'w word"
  note z = zero_bytes_exact [of ?m]
  have d: "(uk_mask False (load_bytes xs :: 'r word) s :: 'w word)
      = ((NOT ?m AND NOT (uk_msbs TYPE('r))) + uk_lsbs TYPE('r)) AND (NOT ?m AND uk_msbs TYPE('r))"
    by (simp only: uk_mask_def Let_def if_False)
  show "uint_mask_ok (n_bytes TYPE('r)) 3 Align_left (uk_mask False (load_bytes xs :: 'r word) s :: 'w word)"
    unfolding d by (rule z(1))
  show "uint_mask_slots (n_bytes TYPE('r)) 3 Align_left (uk_mask False (load_bytes xs :: 'r word) s :: 'w word)
      = slots_with (\<lambda>x. x = s) xs"
    unfolding d z(2) slots_with_def assms using match_byte [OF assms] by (auto simp: xor_zero_iff)
qed

lemma mask_fast:
  assumes "length xs = n_bytes TYPE('r)"
  shows "uint_mask_ok (n_bytes TYPE('r)) 3 Align_left (uk_mask True (load_bytes xs :: 'r word) s :: 'w word)"
    and "slots_with (\<lambda>x. x = s) xs
      \<subseteq> uint_mask_slots (n_bytes TYPE('r)) 3 Align_left (uk_mask True (load_bytes xs :: 'r word) s :: 'w word)"
    and "uint_mask_slots (n_bytes TYPE('r)) 3 Align_left (uk_mask True (load_bytes xs :: 'r word) s :: 'w word)
      \<subseteq> slots_with (\<lambda>x. x = s \<or> x = s XOR 1) xs"
proof -
  let ?m = "ucast (load_bytes xs :: 'r word) XOR (uk_lsbs TYPE('r) * ucast s) :: 'w word"
  note z = zero_bytes_fast [of ?m]
  have d: "(uk_mask True (load_bytes xs :: 'r word) s :: 'w word)
      = (?m - uk_lsbs TYPE('r)) AND (NOT ?m AND uk_msbs TYPE('r))"
    by (simp only: uk_mask_def Let_def if_True)
  show "uint_mask_ok (n_bytes TYPE('r)) 3 Align_left (uk_mask True (load_bytes xs :: 'r word) s :: 'w word)"
    unfolding d by (rule z(1))
  show "slots_with (\<lambda>x. x = s) xs
      \<subseteq> uint_mask_slots (n_bytes TYPE('r)) 3 Align_left (uk_mask True (load_bytes xs :: 'r word) s :: 'w word)"
    unfolding d by (rule order.trans [OF _ z(2)]) (use assms in \<open>auto simp: slots_with_def match_byte\<close>)
  show "uint_mask_slots (n_bytes TYPE('r)) 3 Align_left (uk_mask True (load_bytes xs :: 'r word) s :: 'w word)
      \<subseteq> slots_with (\<lambda>x. x = s \<or> x = s XOR 1) xs"
    unfolding d by (rule order.trans [OF z(3)])
      (use assms in \<open>auto simp: slots_with_def match_byte xor_zero_iff xor_one_iff\<close>)
qed

lemma mask_hash_laws:
  assumes "length xs = n_bytes TYPE('r)"
  shows "uint_mask_ok (n_bytes TYPE('r)) 3 Align_left (uk_mask_hash (load_bytes xs :: 'r word) :: 'w word)"
    and "uint_mask_slots (n_bytes TYPE('r)) 3 Align_left (uk_mask_hash (load_bytes xs :: 'r word) :: 'w word) = slots_with is_hash xs"
    and "uint_mask_ok (n_bytes TYPE('r)) 3 Align_left (uk_mask_not_hash (load_bytes xs :: 'r word) :: 'w word)"
    and "uint_mask_slots (n_bytes TYPE('r)) 3 Align_left (uk_mask_not_hash (load_bytes xs :: 'r word) :: 'w word) = slots_with is_not_hash xs"
  using assms
  by (auto simp: uk_mask_hash_def uk_mask_not_hash_def msbs_ok msbs_slots slots_with_def is_hash_iff_bit
      byte_of_not [OF w_bytes wr] byte_wide byte_load bit_not_iff)

lemma valid_bits:
  assumes "valid_state x"
  shows "x = empty_state \<longleftrightarrow> bit x 7 \<and> \<not> bit x 0" and "x = tombstone_state \<longleftrightarrow> bit x 7 \<and> bit x 0"
proof -
  have "bit empty_state 7" "\<not> bit empty_state 0" "bit tombstone_state 7" "bit tombstone_state 0"
    by (simp_all add: empty_state_def tombstone_state_def)
  then show "x = empty_state \<longleftrightarrow> bit x 7 \<and> \<not> bit x 0" and "x = tombstone_state \<longleftrightarrow> bit x 7 \<and> bit x 0"
    using assms by (auto simp: valid_state_def is_hash_iff_bit)
qed

lemma mask_special_laws:
  assumes xs: "length xs = n_bytes TYPE('r)" and v: "valid_states xs"
  shows "uint_mask_ok (n_bytes TYPE('r)) 3 Align_left (uk_mask_empty (load_bytes xs :: 'r word) :: 'w word)"
    and "uint_mask_slots (n_bytes TYPE('r)) 3 Align_left (uk_mask_empty (load_bytes xs :: 'r word) :: 'w word)
      = slots_with (\<lambda>x. x = empty_state) xs"
    and "uint_mask_ok (n_bytes TYPE('r)) 3 Align_left (uk_mask_tombstone (load_bytes xs :: 'r word) :: 'w word)"
    and "uint_mask_slots (n_bytes TYPE('r)) 3 Align_left (uk_mask_tombstone (load_bytes xs :: 'r word) :: 'w word)
      = slots_with (\<lambda>x. x = tombstone_state) xs"
proof -
  let ?k = "ucast (load_bytes xs :: 'r word) :: 'w word"
  have e: "uk_mask_empty (load_bytes xs :: 'r word) = (?k AND push_bit 7 (NOT ?k)) AND uk_msbs TYPE('r)"
    and t: "uk_mask_tombstone (load_bytes xs :: 'r word) = (?k AND push_bit 7 ?k) AND uk_msbs TYPE('r)"
    by (simp_all only: uk_mask_empty_def uk_mask_tombstone_def and.assoc)
  show "uint_mask_ok (n_bytes TYPE('r)) 3 Align_left (uk_mask_empty (load_bytes xs :: 'r word) :: 'w word)"
    and "uint_mask_ok (n_bytes TYPE('r)) 3 Align_left (uk_mask_tombstone (load_bytes xs :: 'r word) :: 'w word)"
    unfolding e t by (rule msbs_ok)+
  have b: "bit (byte_of (?k AND push_bit 7 (NOT ?k)) i) 7 \<longleftrightarrow> bit (xs ! i) 7 \<and> \<not> bit (xs ! i) 0"
    "bit (byte_of (?k AND push_bit 7 ?k) i) 7 \<longleftrightarrow> bit (xs ! i) 7 \<and> bit (xs ! i) 0"
    if i: "i < n_bytes TYPE('r)" for i
  proof -
    have l: "8 * i + 7 < LENGTH('w)" "8 * i < LENGTH('w)" using in_w [OF i, of 7] by simp_all
    have "bit (xs ! i) j \<longleftrightarrow> j < 8 \<and> bit (load_bytes xs :: 'r word) (8 * i + j)" for j
      by (simp only: byte_load [OF xs i, symmetric] bit_byte_of)
    from this [of 0] this [of 7] l
    show "bit (byte_of (?k AND push_bit 7 (NOT ?k)) i) 7 \<longleftrightarrow> bit (xs ! i) 7 \<and> \<not> bit (xs ! i) 0"
      "bit (byte_of (?k AND push_bit 7 ?k) i) 7 \<longleftrightarrow> bit (xs ! i) 7 \<and> bit (xs ! i) 0"
      by (simp_all add: bit_byte_of bit_and_iff bit_push_bit_iff bit_not_iff bit_wide)
  qed
  have vi: "i < n_bytes TYPE('r) \<Longrightarrow> valid_state (xs ! i)" for i
    using v xs by (simp add: valid_states_def list_all_length)
  show "uint_mask_slots (n_bytes TYPE('r)) 3 Align_left (uk_mask_empty (load_bytes xs :: 'r word) :: 'w word)
      = slots_with (\<lambda>x. x = empty_state) xs"
    and "uint_mask_slots (n_bytes TYPE('r)) 3 Align_left (uk_mask_tombstone (load_bytes xs :: 'r word) :: 'w word)
      = slots_with (\<lambda>x. x = tombstone_state) xs"
    unfolding e t msbs_slots slots_with_def xs using b valid_bits [OF vi] by auto
qed

text \<open>Rewriting the states.\<close>

lemma not_hash_to_empty_store:
  assumes xs: "length xs = n_bytes TYPE('r)" and v: "valid_states xs"
  shows "store_bytes (uk_not_hash_to_empty wt (load_bytes xs :: 'r word))
    = map (\<lambda>s. if is_hash s then s else empty_state) xs"
proof (rule nth_equalityI)
  fix i assume "i < length (store_bytes (uk_not_hash_to_empty wt (load_bytes xs :: 'r word)))"
  then have i: "i < n_bytes TYPE('r)" by simp
  let ?k = "ucast (load_bytes xs :: 'r word) :: 'w word"
  let ?m = "?k AND (NOT (uk_lsbs TYPE('r)) OR drop_bit 7 (NOT ?k))"
  have x: "bit ?k (8 * i + j) \<longleftrightarrow> bit (xs ! i) j" if "j < 8" for j
    using that by (simp only: byte_load [OF xs i, symmetric] bit_byte_of bit_wide) simp
  have b: "bit (byte_of ?m i) j \<longleftrightarrow> bit (xs ! i) j \<and> (j = 0 \<longrightarrow> \<not> bit (xs ! i) 7)" for j
  proof (cases "j < 8")
    case True
    have "8 * i + j < LENGTH('w)" "8 * i + j + 7 < LENGTH('w) \<or> j \<noteq> 0"
      using in_w [OF i True] in_w [OF i, of 7] by auto
    moreover have "(8 * i + j) div 8 = i" "(8 * i + j) mod 8 = j" using True by simp_all
    ultimately show ?thesis using True x [OF True] x [of 7] i
      by (auto simp: bit_byte_of bit_and_iff bit_or_iff bit_not_iff bit_drop_bit_eq bit_lsbs add.commute)
  next
    case False
    then show ?thesis using bit_u8_less [of "xs ! i" j] by (auto simp: bit_byte_of)
  qed
  have "valid_state (xs ! i)" using v i xs by (simp add: valid_states_def list_all_length)
  have "byte_of ?m i = (if is_hash (xs ! i) then xs ! i else empty_state)"
  proof (rule bit_eqI)
    fix j
    show "bit (byte_of ?m i) j \<longleftrightarrow> bit (if is_hash (xs ! i) then xs ! i else empty_state) j"
      using \<open>valid_state (xs ! i)\<close> unfolding b valid_state_def
      by (auto simp: is_hash_iff_bit bit_empty_state bit_tombstone_state)
  qed
  then show "store_bytes (uk_not_hash_to_empty wt (load_bytes xs :: 'r word)) ! i
      = map (\<lambda>s. if is_hash s then s else empty_state) xs ! i"
    using i xs by (simp add: store_nth uk_not_hash_to_empty_def Let_def byte_narrow)
qed (simp add: xs)

text \<open>Multiplying a word that has only lowest bits of bytes by 255 fills those bytes.\<close>

lemma fill_bytes:
  fixes e :: "'w word"
  assumes low: "\<And>b. bit e b \<Longrightarrow> b mod 8 = 0" and t: "t \<le> 8"
  shows "bit (e * (2 ^ t - 1)) b \<longleftrightarrow> b < LENGTH('w) \<and> bit e (8 * (b div 8)) \<and> b mod 8 < t"
  using t
proof (induction t arbitrary: b)
  case (Suc t)
  have push: "bit (push_bit t e) b \<longleftrightarrow> b < LENGTH('w) \<and> bit e (8 * (b div 8)) \<and> b mod 8 = t" for b
  proof
    assume "bit (push_bit t e) b"
    then have b: "t \<le> b" "bit e (b - t)" "b < LENGTH('w)" by (auto simp: bit_push_bit_iff)
    obtain q where "b - t = 8 * q" using low [OF b(2)] by (auto elim: dvdE simp: mod_eq_0_iff_dvd)
    then have "b = 8 * q + t" using b(1) by simp
    then show "b < LENGTH('w) \<and> bit e (8 * (b div 8)) \<and> b mod 8 = t" using b Suc.prems by simp
  next
    assume a: "b < LENGTH('w) \<and> bit e (8 * (b div 8)) \<and> b mod 8 = t"
    moreover have "b = 8 * (b div 8) + b mod 8" by simp
    ultimately have "b - t = 8 * (b div 8)" "t \<le> b" by linarith+
    then show "bit (push_bit t e) b" using a by (simp add: bit_push_bit_iff)
  qed
  have ih: "bit (e * (2 ^ t - 1)) b \<longleftrightarrow> b < LENGTH('w) \<and> bit e (8 * (b div 8)) \<and> b mod 8 < t" for b
    by (rule Suc.IH) (use Suc.prems in simp)
  have "(e * (2 ^ t - 1)) AND push_bit t e = 0"
    by (rule bit_eqI) (auto simp: bit_and_iff ih push)
  then have "e * (2 ^ t - 1) + push_bit t e = e * (2 ^ t - 1) OR push_bit t e"
    by (rule disjunctive_add_eq_or)
  moreover have "e * (2 ^ Suc t - 1) = e * (2 ^ t - 1) + push_bit t e"
    by (simp add: push_bit_eq_mult algebra_simps)
  ultimately have "e * (2 ^ Suc t - 1) = e * (2 ^ t - 1) OR push_bit t e" by simp
  then show ?case by (auto simp: bit_or_iff ih push)
qed simp

lemma to_empty_store:
  assumes xs: "length xs = n_bytes TYPE('r)" and m: "uint_mask_ok (n_bytes TYPE('r)) 3 Align_left (m :: 'w word)"
  shows "store_bytes (uk_to_empty (load_bytes xs :: 'r word) m)
    = map (\<lambda>i. if i \<in> uint_mask_slots (n_bytes TYPE('r)) 3 Align_left m then empty_state else xs ! i) [0..<n_bytes TYPE('r)]"
proof (rule nth_equalityI)
  fix i assume "i < length (store_bytes (uk_to_empty (load_bytes xs :: 'r word) m))"
  then have i: "i < n_bytes TYPE('r)" by simp
  let ?k = "ucast (load_bytes xs :: 'r word) :: 'w word"
  let ?f = "drop_bit 7 m * 0xff"
  have low: "b mod 8 = 0" if "bit (drop_bit 7 m) b" for b
  proof -
    have "bit m (b + 7)" using that by (simp add: bit_drop_bit_eq add.commute)
    then obtain q where "b + 7 = 8 * q + 7" using m by (auto simp: uint_mask_ok_def slot_bit_left)
    then show ?thesis by simp
  qed
  have f: "bit ?f b \<longleftrightarrow> b < LENGTH('w) \<and> bit m (8 * (b div 8) + 7)" for b
  proof -
    have "bit (drop_bit 7 m * (2 ^ 8 - 1)) b
        \<longleftrightarrow> b < LENGTH('w) \<and> bit (drop_bit 7 m) (8 * (b div 8)) \<and> b mod 8 < 8"
      by (rule fill_bytes [OF low]) simp_all
    then show ?thesis by (simp add: bit_drop_bit_eq add.commute)
  qed
  let ?r = "?k XOR ((?k XOR uk_msbs TYPE('r)) AND ?f)"
  let ?s = "i \<in> uint_mask_slots (n_bytes TYPE('r)) 3 Align_left m"
  have sel: "?s \<longleftrightarrow> bit m (8 * i + 7)" using i by (simp add: uint_mask_slots_def slot_bit_left)
  have "byte_of ?r i = (if ?s then empty_state else xs ! i)"
  proof (rule bit_eqI)
    fix j
    show "bit (byte_of ?r i) j \<longleftrightarrow> bit (if ?s then empty_state else xs ! i) j"
    proof (cases "j < 8")
      case True
      have "8 * i + j < LENGTH('w)" by (rule in_w [OF i True])
      moreover have "(8 * i + j) div 8 = i" "(8 * i + j) mod 8 = j" using True by simp_all
      moreover have "bit ?k (8 * i + j) \<longleftrightarrow> bit (xs ! i) j"
        using True by (simp only: byte_load [OF xs i, symmetric] bit_byte_of bit_wide) simp
      ultimately show ?thesis using True i
        by (auto simp: bit_byte_of bit_xor_iff bit_and_iff f bit_msbs sel bit_empty_state)
    next
      case False
      then show ?thesis using bit_u8_less [of "xs ! i" j] by (auto simp: bit_byte_of bit_empty_state)
    qed
  qed
  then show "store_bytes (uk_to_empty (load_bytes xs :: 'r word) m) ! i
      = map (\<lambda>i. if i \<in> uint_mask_slots (n_bytes TYPE('r)) 3 Align_left m then empty_state else xs ! i)
          [0..<n_bytes TYPE('r)] ! i"
    using i by (simp add: store_nth uk_to_empty_def Let_def byte_narrow)
qed simp

text \<open>The LRU operations.\<close>

lemma at_load: "length xs = n_bytes TYPE('r) \<Longrightarrow> i < n_bytes TYPE('r) \<Longrightarrow> uk_at (load_bytes xs :: 'r word) i = xs ! i"
  by (simp add: uk_at_byte byte_load)

lemma min_lru_array:
  assumes ls: "length ls = n_bytes TYPE('r)"
  shows "uk_min_lru (load_bytes ls :: 'r word) = array_min_lru ls"
proof -
  have "0 < n_bytes TYPE('r)" by (rule n_pos)
  then show ?thesis unfolding uk_min_lru_def array_min_lru_def
    using ls by (intro fold_cong) (auto simp: at_load)
qed

lemma lru_below_mask:
  fixes t :: lru_t
  assumes ls: "length ls = n_bytes TYPE('r)"
  defines "m \<equiv> uk_mask_lru_below (load_bytes ls :: 'r word) t :: 'w word"
  shows "uint_mask_ok (n_bytes TYPE('r)) 3 Align_left m"
    and "uint_mask_slots (n_bytes TYPE('r)) 3 Align_left m = slots_with (\<lambda>l. l < t) ls"
proof -
  let ?f = "\<lambda>i m. m OR push_bit (i * 8) (of_bool (uk_at (load_bytes ls :: 'r word) i < t)) :: 'w word"
  have "bit (fold ?f [0..<q] 0) b \<longleftrightarrow> (\<exists>i<q. b = 8 * i \<and> ls ! i < t)" if "q \<le> n_bytes TYPE('r)" for q b
    using that
  proof (induction q)
    case (Suc q)
    have "bit (push_bit (q * 8) (of_bool (ls ! q < t)) :: 'w word) b \<longleftrightarrow> b = 8 * q \<and> ls ! q < t"
      using in_w [of q 0] Suc.prems by (auto simp: bit_push_bit_iff bit_1_iff)
    then show ?case using Suc at_load [OF ls, of q] by (auto simp: bit_or_iff less_Suc_eq)
  qed simp
  then have b: "bit m b \<longleftrightarrow> (\<exists>i<n_bytes TYPE('r). b = 8 * i + 7 \<and> ls ! i < t)" for b
    using in_w [of _ 7] by (auto simp: m_def uk_mask_lru_below_def bit_push_bit_iff)
  show "uint_mask_ok (n_bytes TYPE('r)) 3 Align_left m"
    by (auto simp: uint_mask_ok_def b slot_bit_left)
  show "uint_mask_slots (n_bytes TYPE('r)) 3 Align_left m = slots_with (\<lambda>l. l < t) ls"
    by (auto simp: uint_mask_slots_def slot_bit_left b slots_with_def ls)
qed

lemma to_empty_lru_store:
  assumes xs: "length xs = n_bytes TYPE('r)" and ls: "length ls = n_bytes TYPE('r)"
  shows "store_bytes (uk_to_empty (load_bytes xs :: 'r word) (uk_mask_lru_below (load_bytes ls :: 'r word) t :: 'w word))
    = map2 (\<lambda>x l. if l < t then empty_state else x) xs ls"
  unfolding to_empty_store [OF xs lru_below_mask(1) [OF ls]] lru_below_mask(2) [OF ls]
  by (rule nth_equalityI) (simp_all add: xs ls slots_with_def)

lemma update_lru_store:
  assumes ls: "length ls = n_bytes TYPE('r)" and i: "i < n_bytes TYPE('r)"
  shows "store_bytes (uk_update_lru i (load_bytes ls :: 'r word) (m :: 'w word)) = bump_lru ls i"
proof (rule nth_equalityI)
  let ?l = "load_bytes ls :: 'r word"
  let ?top = "ls ! i = max_lru"
  define n1 :: "'w word" where "n1 = ucast (drop_bit (of_bool ?top) ?l)
    AND (if ?top then NOT (uk_msbs TYPE('r)) else uk_all_bits TYPE('r))"
  have top: "max_lru \<le> uk_at ?l i \<longleftrightarrow> ?top"
    using uint_lt2p [of "ls ! i"] by (auto simp: at_load [OF ls i] max_lru_def word_le_def word_uint_eq_iff)
  have upd: "uk_update_lru i ?l m = ucast (n1 + ucast (push_bit (i * 8) (1 :: 'r word)))"
    unfolding uk_update_lru_def Let_def top n1_def by simp
  have one: "byte_of (ucast (push_bit (i * 8) (1 :: 'r word)) :: 'w word) j = of_bool (j = i)" if "j < n_bytes TYPE('r)" for j
    using that i by (simp only: byte_wide byte_of_push_bytes [OF r_bytes that] byte_of_one) auto
  have n1: "byte_of n1 j = drop_bit (of_bool ?top) (ls ! j)" if j: "j < n_bytes TYPE('r)" for j
  proof (cases ?top)
    case True
    show ?thesis
    proof (rule bit_eqI)
      fix b
      have "bit (byte_of n1 j) b \<longleftrightarrow> b < 8 \<and> b \<noteq> 7 \<and> bit ?l (8 * j + (b + 1))"
        using True in_w [OF j, of b] j
        by (auto simp: n1_def bit_byte_of bit_and_iff bit_not_iff bit_msbs bit_wide bit_drop_bit_eq add.commute add.left_commute)
      also have "\<dots> \<longleftrightarrow> bit (byte_of ?l j) (b + 1)" by (auto simp: bit_byte_of)
      finally show "bit (byte_of n1 j) b \<longleftrightarrow> bit (drop_bit (of_bool ?top) (ls ! j)) b"
        using True by (simp add: byte_load [OF ls j] bit_drop_bit_eq)
    qed
  next
    case False
    have "byte_of (uk_all_bits TYPE('r) :: 'w word) j = - 1"
      using j by (simp add: uk_all_bits_def byte_const)
    then show ?thesis using False by (simp add: n1_def byte_of_and byte_wide byte_load [OF ls j])
  qed
  fix j assume "j < length (store_bytes (uk_update_lru i ?l m))"
  then have j: "j < n_bytes TYPE('r)" by simp
  have no_carry: "uint (byte_of n1 b) + uint (of_bool (b = i) :: u8) < 256" if b: "b < n_bytes TYPE('r)" for b
  proof (cases "b = i \<and> \<not> ?top")
    case True
    then have "uint (ls ! i) \<noteq> 255" by (simp add: max_lru_def word_uint_eq_iff)
    moreover have "uint (ls ! i) < 256" using uint_lt2p [of "ls ! i"] by simp
    ultimately show ?thesis using True n1 [OF b] by simp
  next
    case False
    show ?thesis
    proof (cases ?top)
      case True
      have "\<not> bit (drop_bit 1 (ls ! b)) 7" using bit_u8_less [of "ls ! b" 8] by (auto simp: bit_drop_bit_eq)
      then have "uint (drop_bit 1 (ls ! b)) < 128" by (rule u8_cases_low)
      then have "uint (byte_of n1 b) < 128" by (simp only: n1 [OF b] True refl of_bool_eq)
      moreover have "uint (of_bool (b = i) :: u8) \<le> 1" by simp
      ultimately show ?thesis by linarith
    next
      case f: False
      then have "b \<noteq> i" using False by simp
      moreover have "uint (byte_of n1 b) < 256" using uint_lt2p [of "byte_of n1 b"] by simp
      ultimately show ?thesis by simp
    qed
  qed
  have "byte_of (n1 + ucast (push_bit (i * 8) (1 :: 'r word))) j = byte_of n1 j + of_bool (j = i)"
  proof -
    have "byte_of (n1 + ucast (push_bit (i * 8) (1 :: 'r word))) j
        = byte_of n1 j + byte_of (ucast (push_bit (i * 8) (1 :: 'r word)) :: 'w word) j"
    proof (rule byte_of_add [OF w_bytes wr [OF j]])
      fix b assume "b \<le> j"
      then have b: "b < n_bytes TYPE('r)" using j by simp
      show "uint (byte_of n1 b) + uint (byte_of (ucast (push_bit (i * 8) (1 :: 'r word)) :: 'w word) b) < 256"
        unfolding one [OF b] by (rule no_carry [OF b])
    qed
    then show ?thesis by (simp only: one [OF j])
  qed
  then show "store_bytes (uk_update_lru i ?l m) ! j = bump_lru ls i ! j"
    using j ls by (simp add: upd store_nth byte_narrow n1 bump_lru_def nth_list_update_if)
qed (simp add: ls bump_lru_def)

text \<open>All the laws of the kernel interface, for either variant of \<open>mask\<close>.\<close>

lemma uint_kernel_swiss:
  "swiss_lru_kernel (uint_kernel fp :: ('r word, 'r word, 'w word) kernel_ops)
    (uint_mask_ok (n_bytes TYPE('r)) 3 Align_left) (uint_mask_slots (n_bytes TYPE('r)) 3 Align_left)"
proof -
  let ?K = "uint_kernel fp :: ('r word, 'r word, 'w word) kernel_ops"
  let ?M = "uint_mask (n_bytes TYPE('r)) 3 Align_left :: 'w word mask_ops"
  let ?ok = "uint_mask_ok (n_bytes TYPE('r)) 3 Align_left :: 'w word \<Rightarrow> bool"
  let ?slots = "uint_mask_slots (n_bytes TYPE('r)) 3 Align_left :: 'w word \<Rightarrow> nat set"
  have sz: "kn_size ?K = n_bytes TYPE('r)" and M: "kn_mask_ops ?K = ?M"
    by (simp_all add: uint_kernel_def Let_def)
  have laws: "mask_laws ?M ?ok ?slots"
    by (rule uint_mask_laws) (use fits in \<open>simp add: len_w\<close>)
  have nz: "?ok m \<Longrightarrow> m \<noteq> 0 \<longleftrightarrow> ?slots m \<noteq> {}" for m
    using mask_laws.has_next_iff [OF laws, of m] by (simp add: uint_mask_def)
  have mc: "mk_max_count ?M = n_bytes TYPE('r)" by (simp add: uint_mask_def)
  have cnt: "?ok m \<Longrightarrow> mk_count ?M m = card (?slots m)" for m by (rule mask_laws.count_card [OF laws])
  have nxt: "?ok m \<Longrightarrow> ?slots m \<noteq> {} \<Longrightarrow> mk_next ?M m = Min (?slots m)" for m
    by (rule mask_laws.next_slot [OF laws])
  have mask: "?ok (uk_mask fp (load_bytes xs :: 'r word) s)"
    "slots_with (\<lambda>x. x = s) xs \<subseteq> ?slots (uk_mask fp (load_bytes xs :: 'r word) s)"
    "is_hash s \<Longrightarrow> ?slots (uk_mask fp (load_bytes xs :: 'r word) s) \<subseteq> slots_with is_hash xs"
    if "length xs = n_bytes TYPE('r)" for xs s
  proof -
    have flip: "is_hash s \<Longrightarrow> is_hash (s XOR 1)" by (simp add: is_hash_iff_bit bit_xor_iff bit_1_iff)
    note f = mask_fast [OF that, of s]
    show "?ok (uk_mask fp (load_bytes xs :: 'r word) s)"
      and "slots_with (\<lambda>x. x = s) xs \<subseteq> ?slots (uk_mask fp (load_bytes xs :: 'r word) s)"
      using f mask_exact [OF that, of s] by (cases fp; simp)+
    show "?slots (uk_mask fp (load_bytes xs :: 'r word) s) \<subseteq> slots_with is_hash xs" if "is_hash s"
    proof (cases fp)
      case True
      have "slots_with (\<lambda>x. x = s \<or> x = s XOR 1) xs \<subseteq> slots_with is_hash xs"
        using flip that by (auto simp: slots_with_def)
      then show ?thesis using f(3) True by simp
    qed (use that mask_exact(2) [OF \<open>length xs = _\<close>, of s] in \<open>auto simp: slots_with_def\<close>)
  qed
  have equal: "?ok (uk_mask_equal (load_bytes xs :: 'r word) (load_bytes ys))"
    "?slots (uk_mask_equal (load_bytes xs :: 'r word) (load_bytes ys)) = {i. i < n_bytes TYPE('r) \<and> xs ! i = ys ! i}"
    if "length xs = n_bytes TYPE('r)" "length ys = n_bytes TYPE('r)" for xs ys
    using zero_bytes_exact [of "ucast (load_bytes xs :: 'r word) XOR ucast (load_bytes ys :: 'r word)"] that
    by (simp_all add: uk_mask_equal_def Let_def byte_of_xor byte_wide byte_load xor_zero_iff cong: conj_cong)
  show ?thesis
  proof (intro swiss_lru_kernel.intro swiss_kernel.intro swiss_kernel_axioms.intro swiss_lru_kernel_axioms.intro;
      (unfold sz M)?)
    show "mask_laws ?M ?ok ?slots" by (rule laws)
    show "0 < n_bytes TYPE('r)" by (rule n_pos)
    show "mk_max_count ?M = n_bytes TYPE('r)" by (rule mc)
  next
    fix xs :: "state_t list" assume xs: "length xs = n_bytes TYPE('r)"
    show "kn_store ?K (kn_load ?K xs) = xs" by (simp add: uint_kernel_def Let_def store_load_bytes xs)
    show "kn_at ?K (kn_load ?K xs) i = xs ! i" if "i < n_bytes TYPE('r)" for i
      using that by (simp add: uint_kernel_def Let_def at_load xs)
    show "?ok (kn_mask ?K (kn_load ?K xs) s)" for s
      using mask [OF xs] by (simp add: uint_kernel_def Let_def)
    show "slots_with (\<lambda>x. x = s) xs \<subseteq> ?slots (kn_mask ?K (kn_load ?K xs) s)" for s
      using mask [OF xs] by (simp add: uint_kernel_def Let_def)
    show "?slots (kn_mask ?K (kn_load ?K xs) s) \<subseteq> slots_with is_hash xs" if "is_hash s" for s
      using mask(3) [OF xs that] by (simp add: uint_kernel_def Let_def)
    show "?ok (kn_mask_hash ?K (kn_load ?K xs))"
      and "?slots (kn_mask_hash ?K (kn_load ?K xs)) = slots_with is_hash xs"
      and "?ok (kn_mask_not_hash ?K (kn_load ?K xs))"
      and "?slots (kn_mask_not_hash ?K (kn_load ?K xs)) = slots_with is_not_hash xs"
      using mask_hash_laws [OF xs] by (simp_all add: uint_kernel_def Let_def)
    show "kn_count_not_equal ?K (kn_load ?K xs) (kn_load ?K ys) = card {i. i < n_bytes TYPE('r) \<and> xs ! i \<noteq> ys ! i}"
      if ys: "length ys = n_bytes TYPE('r)" for ys
    proof -
      have "{i. i < n_bytes TYPE('r) \<and> \<not> (i < n_bytes TYPE('r) \<and> xs ! i = ys ! i)}
          = {i. i < n_bytes TYPE('r) \<and> xs ! i \<noteq> ys ! i}" by auto
      then show ?thesis
        using cnt [OF flip_ok [OF equal(1) [OF xs ys]]]
        by (simp add: uint_kernel_def Let_def flip_slots equal(2) [OF xs ys])
    qed
    show "kn_to_empty_if_lru_below ?K (kn_load ?K xs) (kn_load_lru ?K ls) t
        = kn_load ?K (map2 (\<lambda>x l. if l < t then empty_state else x) xs ls)" if "length ls = n_bytes TYPE('r)" for ls t
      using arg_cong [OF to_empty_lru_store [OF xs that], of "load_bytes :: _ \<Rightarrow> 'r word" t]
      by (simp add: uint_kernel_def Let_def load_store_bytes)
    assume v: "valid_states xs"
    note sp = mask_special_laws [OF xs v]
    show "?ok (kn_mask_empty ?K (kn_load ?K xs))"
      and "?slots (kn_mask_empty ?K (kn_load ?K xs)) = slots_with (\<lambda>x. x = empty_state) xs"
      and "?ok (kn_mask_tombstone ?K (kn_load ?K xs))"
      and "?slots (kn_mask_tombstone ?K (kn_load ?K xs)) = slots_with (\<lambda>x. x = tombstone_state) xs"
      using sp by (simp_all add: uint_kernel_def Let_def)
    show "kn_has_empty ?K (kn_load ?K xs) \<longleftrightarrow> empty_state \<in> set xs"
      using nz [OF sp(1)] by (simp add: uint_kernel_def Let_def sp(2) slots_with_empty)
    show "kn_has_not_tombstone ?K (kn_load ?K xs) \<longleftrightarrow> (\<exists>x\<in>set xs. x \<noteq> tombstone_state)"
    proof -
      have "(\<exists>x\<in>set xs. x \<noteq> tombstone_state) \<longleftrightarrow> (\<exists>i<n_bytes TYPE('r). xs ! i \<noteq> tombstone_state)"
        using xs by (metis in_set_conv_nth)
      then show ?thesis using nz [OF flip_ok [OF sp(3)]]
        by (auto simp: uint_kernel_def Let_def flip_slots sp(4) slots_with_def xs)
    qed
    show "kn_store ?K (kn_not_hash_to_empty ?K (kn_load ?K xs)) = map (\<lambda>s. if is_hash s then s else empty_state) xs"
      using not_hash_to_empty_store [OF xs v] by (simp add: uint_kernel_def Let_def uk_not_hash_to_empty_def)
  next
    fix ls :: "lru_t list" assume ls: "length ls = n_bytes TYPE('r)"
    show "kn_store_lru ?K (kn_load_lru ?K ls) = ls" by (simp add: uint_kernel_def Let_def store_load_bytes ls)
    show "kn_lru_at ?K (kn_load_lru ?K ls) i = ls ! i" if "i < n_bytes TYPE('r)" for i
      using that by (simp add: uint_kernel_def Let_def at_load ls)
    show "first_min ls i \<and> v = ls ! i" if "kn_min_lru ?K (kn_load_lru ?K ls) = (v, i)" for v i
      using array_min_lru_first [of ls v i] that n_pos by (simp add: uint_kernel_def Let_def min_lru_array ls)
    have "snd (array_min_lru ls) < n_bytes TYPE('r)"
      using array_min_lru_first [of ls _ "snd (array_min_lru ls)"] ls n_pos by (metis first_min_def prod.collapse)
    then show "?ok (kn_mask_min_lru ?K (kn_load_lru ?K ls))" and "?slots (kn_mask_min_lru ?K (kn_load_lru ?K ls)) \<noteq> {}"
      and "Min (?slots (kn_mask_min_lru ?K (kn_load_lru ?K ls))) = snd (kn_min_lru ?K (kn_load_lru ?K ls))"
      using mask_laws.single_ok [OF laws, of "snd (array_min_lru ls)"] mask_laws.single_slots [OF laws, of "snd (array_min_lru ls)"]
      by (simp_all add: mc) (simp_all add: uint_kernel_def Let_def min_lru_array ls)
    show "kn_store_lru ?K (kn_update_lru ?K (kn_load_lru ?K ls) m) = bump_lru ls (Min (?slots m))"
      if m: "?ok m" "?slots m \<noteq> {}" for m
    proof -
      have "finite (?slots m)" by (simp add: uint_mask_slots_def)
      then have "Min (?slots m) \<in> ?slots m" using m(2) by (rule Min_in)
      then have "Min (?slots m) < n_bytes TYPE('r)" by (simp add: uint_mask_slots_def)
      then show ?thesis using update_lru_store [OF ls] nxt [OF m] by (simp add: uint_kernel_def Let_def)
    qed
  qed
qed

end

section \<open>The kernels of the library\<close>

interpretation uint_width8: uint_widths "TYPE(8)" "TYPE(32)"
  by unfold_locales (simp_all add: n_bytes_def)

interpretation uint_width16: uint_widths "TYPE(16)" "TYPE(32)"
  by unfold_locales (simp_all add: n_bytes_def)

interpretation uint_width32: uint_widths "TYPE(32)" "TYPE(32)"
  by unfold_locales (simp_all add: n_bytes_def)

interpretation uint_width64: uint_widths "TYPE(64)" "TYPE(64)"
  by unfold_locales (simp_all add: n_bytes_def)

interpretation uint_width128: uint_widths "TYPE(128)" "TYPE(128)"
  by unfold_locales (simp_all add: n_bytes_def)

interpretation uint_kernel8: swiss_lru_kernel "uint_kernel fp :: (64 word, 64 word, 64 word) kernel_ops"
  "uint_mask_ok (n_bytes TYPE(64)) 3 Align_left" "uint_mask_slots (n_bytes TYPE(64)) 3 Align_left" for fp
  by (rule uint_width64.uint_kernel_swiss)

interpretation uint_kernel16: swiss_lru_kernel "uint_kernel fp :: (128 word, 128 word, 128 word) kernel_ops"
  "uint_mask_ok (n_bytes TYPE(128)) 3 Align_left" "uint_mask_slots (n_bytes TYPE(128)) 3 Align_left" for fp
  by (rule uint_width128.uint_kernel_swiss)

section \<open>Properties\<close>

lemma sorted_slots_with: "sorted_list_of_set (slots_with P xs) = filter (\<lambda>i. P (xs ! i)) [0..<length xs]"
  by (rule sorted_distinct_set_unique) (auto simp: slots_with_def sorted_wrt_filter)

lemma first_min_unique: "first_min ls i \<Longrightarrow> first_min ls j \<Longrightarrow> i = j"
  unfolding first_min_def by (metis leD linorder_neqE_nat)

text \<open>The exact SWAR kernel finds precisely the slots that hold the requested state: walking the mask
of \<open>uint_kernel<Repr, false>\<close> visits, in ascending order, the slots \<open>i\<close> with \<open>states[i] = s\<close>, for
every register width, every bucket and every state, with no carry leaking between slots.\<close>

theorem uint_mask_exact:
  fixes K :: "('r::len word, 'r word, 'w::len word) kernel_ops"
  assumes "K = uint_kernel False" and "uint_widths TYPE('r) TYPE('w)" and "length xs = kn_size K"
  shows "mask_indices (kn_mask_ops K) (kn_mask K (kn_load K xs) s) = filter (\<lambda>i. xs ! i = s) [0..<kn_size K]"
proof -
  have sz: "kn_size K = n_bytes TYPE('r)" by (simp add: assms(1) uint_kernel_def Let_def)
  note ex = uint_widths.mask_exact [OF assms(2), of xs s]
  have laws: "mask_laws (kn_mask_ops K) (uint_mask_ok (n_bytes TYPE('r)) 3 Align_left)
      (uint_mask_slots (n_bytes TYPE('r)) 3 Align_left)"
    using uint_widths.uint_kernel_swiss [OF assms(2), of False] unfolding assms(1)
    by (simp add: swiss_lru_kernel_def swiss_kernel_def)
  show ?thesis
    using mask_laws.indices_sorted [OF laws] ex assms(3) sz
    by (simp add: assms(1) uint_kernel_def Let_def sorted_slots_with)
qed

theorem uint_mask_exact_witness:
  "mask_indices (kn_mask_ops (uint_kernel False :: (16 word, 16 word, 32 word) kernel_ops))
     (kn_mask (uint_kernel False) (kn_load (uint_kernel False :: (16 word, 16 word, 32 word) kernel_ops) [5, 4]) 5) = [0]"
  using uint_mask_exact [OF refl uint_width16.uint_widths_axioms, of "[5, 4]" 5]
  by (simp add: uint_kernel_def Let_def n_bytes_def upt_rec)

text \<open>The fast SWAR kernel (\<open>produces_false_positives\<close>) never misses a slot with the requested hash, and
every false positive is a slot whose state is the requested one with its lowest bit flipped: hence
always an occupied slot, never an empty slot or a tombstone.\<close>

theorem uint_mask_fast:
  fixes K :: "('r::len word, 'r word, 'w::len word) kernel_ops"
  assumes "K = uint_kernel True" and "uint_widths TYPE('r) TYPE('w)" and "length xs = kn_size K"
  shows "{i. i < kn_size K \<and> xs ! i = s} \<subseteq> set (mask_indices (kn_mask_ops K) (kn_mask K (kn_load K xs) s))
    \<and> set (mask_indices (kn_mask_ops K) (kn_mask K (kn_load K xs) s))
      \<subseteq> {i. i < kn_size K \<and> (xs ! i = s \<or> xs ! i = s XOR 1)}"
proof -
  have sz: "kn_size K = n_bytes TYPE('r)" by (simp add: assms(1) uint_kernel_def Let_def)
  have xs: "length xs = n_bytes TYPE('r)" using assms(3) sz by simp
  note ex = uint_widths.mask_fast [OF assms(2) xs, of s]
  have laws: "mask_laws (kn_mask_ops K) (uint_mask_ok (n_bytes TYPE('r)) 3 Align_left)
      (uint_mask_slots (n_bytes TYPE('r)) 3 Align_left)"
    using uint_widths.uint_kernel_swiss [OF assms(2), of True] unfolding assms(1)
    by (simp add: swiss_lru_kernel_def swiss_kernel_def)
  have e: "kn_mask K (kn_load K xs) s = uk_mask True (load_bytes xs :: 'r word) s"
    by (simp add: assms(1) uint_kernel_def Let_def)
  have si: "set (mask_indices (kn_mask_ops K) (kn_mask K (kn_load K xs) s))
      = uint_mask_slots (n_bytes TYPE('r)) 3 Align_left (uk_mask True (load_bytes xs :: 'r word) s :: 'w word)"
    unfolding e by (rule mask_laws.set_indices [OF laws ex(1)])
  have "{i. i < kn_size K \<and> xs ! i = s} \<subseteq> set (mask_indices (kn_mask_ops K) (kn_mask K (kn_load K xs) s))"
    using ex(2) unfolding si sz by (simp add: slots_with_def xs)
  moreover have "set (mask_indices (kn_mask_ops K) (kn_mask K (kn_load K xs) s))
      \<subseteq> {i. i < kn_size K \<and> (xs ! i = s \<or> xs ! i = s XOR 1)}"
    using ex(3) unfolding si sz by (simp add: slots_with_def xs)
  ultimately show ?thesis ..
qed

theorem uint_mask_fast_witness:
  "0 \<in> set (mask_indices (kn_mask_ops (uint_kernel True :: (16 word, 16 word, 32 word) kernel_ops))
     (kn_mask (uint_kernel True) (kn_load (uint_kernel True :: (16 word, 16 word, 32 word) kernel_ops) [5, 4]) 5))"
proof -
  have "0 \<in> {i. i < kn_size (uint_kernel True :: (16 word, 16 word, 32 word) kernel_ops) \<and> [5, 4] ! i = (5 :: u8)}"
    by (simp add: uint_kernel_def Let_def n_bytes_def)
  then show ?thesis
    by (rule subsetD [OF conjunct1 [OF uint_mask_fast [OF refl uint_width16.uint_widths_axioms]], rotated])
      (simp add: uint_kernel_def Let_def n_bytes_def)
qed

text \<open>C19: On every bucket of valid states the SWAR kernel and the portable array kernel agree: they visit the
same occupied, free, empty and tombstone slots in the same order, answer the same \<open>has_empty\<close>, and
leave the same states and LRU stamps in memory after \<open>not_hash_to_empty\<close>, \<open>to_empty_if_lru_below\<close>
and \<open>update_lru\<close> of an occupied slot, although one loops over slots and the other computes on whole words.\<close>

theorem uint_kernel_refines_array:
  fixes K :: "('r::len word, 'r word, 'w::len word) kernel_ops"
    and A :: "(state_t list, lru_t list, 'v::len word) kernel_ops"
  assumes "K = uint_kernel fp" and "A = array_kernel (kn_size K)" and "uint_widths TYPE('r) TYPE('w)"
    and "kn_size K \<le> LENGTH('v)" and "length xs = kn_size K" and "length ls = kn_size K" and "valid_states xs"
  shows "mask_indices (kn_mask_ops K) (kn_mask_hash K (kn_load K xs)) = mask_indices (kn_mask_ops A) (kn_mask_hash A (kn_load A xs))
    \<and> mask_indices (kn_mask_ops K) (kn_mask_not_hash K (kn_load K xs)) = mask_indices (kn_mask_ops A) (kn_mask_not_hash A (kn_load A xs))
    \<and> mask_indices (kn_mask_ops K) (kn_mask_empty K (kn_load K xs)) = mask_indices (kn_mask_ops A) (kn_mask_empty A (kn_load A xs))
    \<and> mask_indices (kn_mask_ops K) (kn_mask_tombstone K (kn_load K xs)) = mask_indices (kn_mask_ops A) (kn_mask_tombstone A (kn_load A xs))
    \<and> kn_has_empty K (kn_load K xs) = kn_has_empty A (kn_load A xs)
    \<and> kn_store K (kn_not_hash_to_empty K (kn_load K xs)) = kn_store A (kn_not_hash_to_empty A (kn_load A xs))
    \<and> kn_store K (kn_to_empty_if_lru_below K (kn_load K xs) (kn_load_lru K ls) t)
        = kn_store A (kn_to_empty_if_lru_below A (kn_load A xs) (kn_load_lru A ls) t)
    \<and> kn_store_lru K (kn_update_lru K (kn_load_lru K ls) (kn_mask_min_lru K (kn_load_lru K ls)))
        = kn_store_lru A (kn_update_lru A (kn_load_lru A ls) (kn_mask_min_lru A (kn_load_lru A ls)))"
proof -
  let ?n = "kn_size K"
  let ?okK = "uint_mask_ok (n_bytes TYPE('r)) 3 Align_left :: 'w word \<Rightarrow> bool"
    and ?slK = "uint_mask_slots (n_bytes TYPE('r)) 3 Align_left :: 'w word \<Rightarrow> nat set"
  let ?okA = "uint_mask_ok ?n 0 Align_right :: 'v word \<Rightarrow> bool"
    and ?slA = "uint_mask_slots ?n 0 Align_right :: 'v word \<Rightarrow> nat set"
  have LK: "swiss_lru_kernel K ?okK ?slK"
    using uint_widths.uint_kernel_swiss [OF assms(3), of fp] by (simp only: assms(1))
  have KK: "swiss_kernel K ?okK ?slK" using LK by (rule swiss_lru_kernel.axioms(1))
  have pos: "0 < ?n" by (rule swiss_kernel.size_pos [OF KK])
  have LA: "swiss_lru_kernel A ?okA ?slA" unfolding assms(2) by (rule array_kernel_laws [OF pos assms(4)])
  have KA: "swiss_kernel A ?okA ?slA" using LA by (rule swiss_lru_kernel.axioms(1))
  have sz: "kn_size A = ?n" by (simp add: assms(2) array_kernel_def array_kernel_with_def)
  note xs = assms(5) assms(5) [folded sz] and ls = assms(6) assms(6) [folded sz]
  have MK: "mask_laws (kn_mask_ops K) ?okK ?slK" using KK by (rule swiss_kernel.axioms(1))
  have MA: "mask_laws (kn_mask_ops A) ?okA ?slA" using KA by (rule swiss_kernel.axioms(1))
  note ix = mask_laws.indices_sorted [OF MK] mask_laws.indices_sorted [OF MA]
  have "snd (kn_min_lru K (kn_load_lru K ls)) = snd (kn_min_lru A (kn_load_lru A ls))" (is "?i = ?j")
    using swiss_lru_kernel.min_lru_first [OF LK ls(1), of _ ?i] swiss_lru_kernel.min_lru_first [OF LA ls(2), of _ ?j]
      first_min_unique by (metis prod.collapse)
  have lru: "kn_store_lru K (kn_update_lru K (kn_load_lru K ls) (kn_mask_min_lru K (kn_load_lru K ls))) = bump_lru ls ?i"
    by (simp add: swiss_lru_kernel.update_lru_store [OF LK ls(1)] swiss_lru_kernel.mask_min_lru_ok [OF LK ls(1)]
        swiss_lru_kernel.mask_min_lru_nonempty [OF LK ls(1)] swiss_lru_kernel.mask_min_lru_first [OF LK ls(1)])
  moreover have "kn_store_lru A (kn_update_lru A (kn_load_lru A ls) (kn_mask_min_lru A (kn_load_lru A ls))) = bump_lru ls ?j"
    by (simp add: swiss_lru_kernel.update_lru_store [OF LA ls(2)] swiss_lru_kernel.mask_min_lru_ok [OF LA ls(2)]
        swiss_lru_kernel.mask_min_lru_nonempty [OF LA ls(2)] swiss_lru_kernel.mask_min_lru_first [OF LA ls(2)])
  ultimately show ?thesis
    using \<open>?i = ?j\<close>
    by (simp add: ix swiss_kernel.mask_hash_ok [OF KK xs(1)] swiss_kernel.mask_hash_ok [OF KA xs(2)]
        swiss_kernel.mask_hash_slots [OF KK xs(1)] swiss_kernel.mask_hash_slots [OF KA xs(2)]
        swiss_kernel.mask_not_hash_ok [OF KK xs(1)] swiss_kernel.mask_not_hash_ok [OF KA xs(2)]
        swiss_kernel.mask_not_hash_slots [OF KK xs(1)] swiss_kernel.mask_not_hash_slots [OF KA xs(2)]
        swiss_kernel.mask_empty_ok [OF KK xs(1) assms(7)] swiss_kernel.mask_empty_ok [OF KA xs(2) assms(7)]
        swiss_kernel.mask_empty_slots [OF KK xs(1) assms(7)] swiss_kernel.mask_empty_slots [OF KA xs(2) assms(7)]
        swiss_kernel.mask_tombstone_ok [OF KK xs(1) assms(7)] swiss_kernel.mask_tombstone_ok [OF KA xs(2) assms(7)]
        swiss_kernel.mask_tombstone_slots [OF KK xs(1) assms(7)] swiss_kernel.mask_tombstone_slots [OF KA xs(2) assms(7)]
        swiss_kernel.has_empty_iff [OF KK xs(1) assms(7)] swiss_kernel.has_empty_iff [OF KA xs(2) assms(7)]
        swiss_kernel.not_hash_to_empty_store [OF KK xs(1) assms(7)] swiss_kernel.not_hash_to_empty_store [OF KA xs(2) assms(7)]
        swiss_lru_kernel.to_empty_lru_store [OF LK xs(1) ls(1)] swiss_lru_kernel.to_empty_lru_store [OF LA xs(2) ls(2)])
qed

theorem uint_kernel_refines_array_witness:
  "mask_indices (kn_mask_ops (uint_kernel True :: (16 word, 16 word, 32 word) kernel_ops))
      (kn_mask_hash (uint_kernel True) (kn_load (uint_kernel True :: (16 word, 16 word, 32 word) kernel_ops) [5, 128]))
    = mask_indices (kn_mask_ops (array_kernel 2 :: (_, _, 32 word) kernel_ops))
      (kn_mask_hash (array_kernel 2) (kn_load (array_kernel 2 :: (_, _, 32 word) kernel_ops) [5, 128]))"
proof -
  have sz: "kn_size (uint_kernel True :: (16 word, 16 word, 32 word) kernel_ops) = 2"
    by (simp add: uint_kernel_def Let_def n_bytes_def)
  have v: "valid_states [5, 128]"
    by (simp add: valid_states_def valid_state_def is_hash_def empty_state_def)
  show ?thesis
    using uint_kernel_refines_array [OF refl refl uint_width16.uint_widths_axioms _ _ _ v,
        where fp = True and ls = "[7, 9]" and 'v = 32] by (simp add: sz)
qed

end
