(* ===== verification/Conf.thy ===== *)
theory Conf
  imports Common
begin

text \<open>
  The configuration object of conf.hpp: capacities, blob layout and the three biases that decide
  when a table grows, shrinks and is scrubbed. The kernel size is the template argument
  \<open>KernelSize\<close>; the cache line and page sizes are those of the generated configuration header
  (64 and 4096 bytes). A setter that throws returns the exception on the left.
\<close>

datatype exn = Out_of_range | Invalid_argument | Runtime_error | Logic_error | Bad_alloc

definition cache_line_size :: int where
  "cache_line_size = 64"

definition page_size :: int where
  "page_size = 4096"

text \<open>\<open>bit_ceil\<close> on \<open>int_t\<close> goes through the unsigned type and back.\<close>

definition int_bit_ceil :: "int \<Rightarrow> int" where
  "int_bit_ceil x = sint (bit_ceil (word_of_int x :: u64))"

record conf =
  min_capacity :: int
  init_capacity :: int
  blob_size :: int
  blob_stride :: int
  scrub_bias :: int
  grow_bias :: int
  shrink_bias :: int

definition min_grow_bias :: int where "min_grow_bias = 2"
definition max_grow_bias :: int where "max_grow_bias = cache_line_size"
definition default_grow_bias :: int where "default_grow_bias = 8"
definition min_scrub_bias :: int where "min_scrub_bias = 2"
definition max_scrub_bias :: int where "max_scrub_bias = cache_line_size"
definition default_scrub_bias :: int where "default_scrub_bias = 4"
definition min_shrink_bias :: int where "min_shrink_bias = 3"
definition max_shrink_bias :: int where "max_shrink_bias = cache_line_size"
definition default_shrink_bias :: int where "default_shrink_bias = 4"

definition min_capacity_limit :: "int \<Rightarrow> int \<Rightarrow> int" where
  "min_capacity_limit kernel_size gbias = max (int_bit_ceil gbias) kernel_size"

text \<open>\<open>key_bytes\<close> and \<open>value_bytes\<close> are the sizes of the key and value types.\<close>

definition default_capacity :: "int \<Rightarrow> int \<Rightarrow> int \<Rightarrow> int \<Rightarrow> int" where
  "default_capacity kernel_size key_bytes value_bytes gbias = (
     let n = max key_bytes value_bytes;
         n = min n page_size;
         n = int_bit_ceil (page_size div n)
     in max n (min_capacity_limit kernel_size gbias))"

definition default_conf :: "int \<Rightarrow> int \<Rightarrow> int \<Rightarrow> conf" where
  "default_conf kernel_size key_bytes value_bytes = \<lparr>
     min_capacity = min_capacity_limit kernel_size default_grow_bias,
     init_capacity = default_capacity kernel_size key_bytes value_bytes default_grow_bias,
     blob_size = 0, blob_stride = 0, scrub_bias = default_scrub_bias, grow_bias = default_grow_bias,
     shrink_bias = default_shrink_bias\<rparr>"

definition set_blob :: "int \<Rightarrow> int \<Rightarrow> conf \<Rightarrow> exn + conf" where
  "set_blob sz stride c = (
     let upd = (\<lambda>sz stride. Inr (c\<lparr>blob_size := sz, blob_stride := stride\<rparr>))
     in if sz \<le> 0 then (if stride \<noteq> 0 then Inl Out_of_range else upd 0 stride)
        else if stride \<le> 0 then
          (if sz < cache_line_size then upd sz (int_bit_ceil sz)
           else upd sz (round_up sz (cache_line_size div 2)))
        else if stride < sz then Inl Out_of_range
        else upd sz stride)"

definition set_capacity2 :: "int \<Rightarrow> int \<Rightarrow> conf \<Rightarrow> conf" where
  "set_capacity2 init_cap min_cap c = (
     let min_cap = int_bit_ceil min_cap
     in c\<lparr>min_capacity := min_cap, init_capacity := max (int_bit_ceil init_cap) min_cap\<rparr>)"

definition set_capacity :: "int \<Rightarrow> int \<Rightarrow> conf \<Rightarrow> conf" where
  "set_capacity kernel_size init_cap c = set_capacity2 init_cap (min_capacity_limit kernel_size (grow_bias c)) c"

definition set_grow_bias :: "int \<Rightarrow> conf \<Rightarrow> exn + conf" where
  "set_grow_bias b c = (if b < min_grow_bias \<or> b > max_grow_bias then Inl Out_of_range
     else Inr (c\<lparr>grow_bias := b\<rparr>))"

definition set_scrub_bias :: "int \<Rightarrow> conf \<Rightarrow> exn + conf" where
  "set_scrub_bias b c = (if b < min_scrub_bias \<or> b > max_scrub_bias then Inl Out_of_range
     else Inr (c\<lparr>scrub_bias := b\<rparr>))"

definition set_shrink_bias :: "int \<Rightarrow> conf \<Rightarrow> exn + conf" where
  "set_shrink_bias b c = (if b < min_shrink_bias \<or> b > max_shrink_bias then Inl Out_of_range
     else Inr (c\<lparr>shrink_bias := b\<rparr>))"

definition is_valid :: "int \<Rightarrow> conf \<Rightarrow> bool" where
  "is_valid kernel_size c \<longleftrightarrow> min_capacity c \<ge> min_capacity_limit kernel_size (grow_bias c)"

definition auto_adjust :: "int \<Rightarrow> conf \<Rightarrow> conf" where
  "auto_adjust kernel_size c = (
     let min_cap_limit = min_capacity_limit kernel_size (grow_bias c);
         min_cap = (if min_capacity c < min_cap_limit then min_cap_limit else min_capacity c);
         init_cap = max (init_capacity c) min_cap
     in c\<lparr>min_capacity := min_cap, init_capacity := init_cap\<rparr>)"

definition grow_threshold :: "conf \<Rightarrow> int \<Rightarrow> int" where
  "grow_threshold c capacity = max capacity (min_capacity c) div grow_bias c"

definition should_grow :: "conf \<Rightarrow> int \<Rightarrow> int \<Rightarrow> bool" where
  "should_grow c capacity num_empty \<longleftrightarrow> num_empty \<le> grow_threshold c capacity"

definition should_grow_precalc :: "conf \<Rightarrow> int \<Rightarrow> int \<Rightarrow> bool" where
  "should_grow_precalc c num_empty threshold \<longleftrightarrow> num_empty \<le> threshold"

definition should_scrub :: "conf \<Rightarrow> int \<Rightarrow> int \<Rightarrow> bool" where
  "should_scrub c capacity num_tombstone \<longleftrightarrow> capacity \<le> num_tombstone * scrub_bias c"

definition should_shrink :: "conf \<Rightarrow> int \<Rightarrow> int \<Rightarrow> int \<Rightarrow> bool" where
  "should_shrink c capacity num_empty num_tombstone \<longleftrightarrow> (
     let num_not_hash = num_empty + num_tombstone;
         sz = capacity - num_not_hash
     in capacity > min_capacity c \<and> sz * shrink_bias c \<le> capacity)"

section \<open>bit_ceil on signed values\<close>

lemma int_bit_ceil_small: "x = 0 \<or> x = 1 \<Longrightarrow> int_bit_ceil x = 1"
  by (auto simp: int_bit_ceil_def bit_ceil_def)

lemma int_bit_ceil_power:
  assumes "1 < x" and "x \<le> 2 ^ 62"
  shows "\<exists>e\<le>62. int_bit_ceil x = 2 ^ e \<and> x \<le> 2 ^ e \<and> 2 ^ e < 2 * x"
proof -
  let ?w = "word_of_int x :: u64"
  have u: "uint ?w = x" using assms by (simp add: unsigned_of_int take_bit_int_eq_self)
  then have un: "int (unat ?w) = x" by simp
  have "int 1 < int (unat ?w)" and "int (unat ?w) \<le> int (2 ^ (LENGTH(64) - 1))"
    using u assms by simp_all
  then have w1: "1 < unat ?w" and w2: "unat ?w \<le> 2 ^ (LENGTH(64) - 1)"
    by (simp_all only: of_nat_less_iff of_nat_le_iff)
  have wb: "whole_bytes TYPE(64)" by simp
  define e where "e = Suc (Max (bits (?w - 1)))"
  note p = bit_ceil_power [OF wb w1 w2, folded e_def]
  have e: "e < 64" "unat ?w \<le> 2 ^ e" "2 ^ e < 2 * unat ?w" "bit_ceil ?w = 2 ^ e"
    using p(1) by (simp, intro p(2), intro p(3), intro p(5))
  have b: "x \<le> 2 ^ e" "2 ^ e < 2 * x"
  proof -
    have "int (unat ?w) \<le> int (2 ^ e)" "int (2 ^ e) < int (2 * unat ?w)"
      using e(2,3) by (simp_all only: of_nat_le_iff of_nat_less_iff)
    then show "x \<le> 2 ^ e" "2 ^ e < 2 * x" using un by simp_all
  qed
  then have "(2 :: int) ^ e < 2 ^ 63" using assms(2) by simp
  then have e63: "e < 63" by (simp add: power_strict_increasing_iff del: power_numeral)
  have "int_bit_ceil x = sint (2 ^ e :: u64)" by (simp add: int_bit_ceil_def e(4))
  also have "\<dots> = 2 ^ e"
  proof -
    have "(2 ^ e :: u64) = word_of_int (2 ^ e)" by simp
    then have "sint (2 ^ e :: u64) = signed_take_bit 63 (2 ^ e)" by (simp only: signed_of_int) simp
    also have "\<dots> = 2 ^ e"
    proof (rule signed_take_bit_int_eq_self)
      show "- (2 ^ 63) \<le> (2 :: int) ^ e" by (rule order.trans [of _ 0]) simp_all
    qed (rule \<open>(2 :: int) ^ e < 2 ^ 63\<close>)
    finally show ?thesis .
  qed
  finally show ?thesis using b e63 by (intro exI [of _ e]) simp
qed

lemma int_bit_ceil_cases:
  assumes "0 \<le> x" and "x \<le> 2 ^ 62"
  obtains e where "e \<le> 62" and "int_bit_ceil x = 2 ^ e" and "x \<le> 2 ^ e" and "x \<le> 1 \<or> 2 ^ e < 2 * x"
proof (cases "1 < x")
  case True
  then show ?thesis using int_bit_ceil_power [OF True assms(2)] that by blast
next
  case False
  then have "x = 0 \<or> x = 1" using assms(1) by auto
  then show ?thesis using int_bit_ceil_small [of x] that [of 0] by auto
qed

lemma power_le_iff_2: "(2 :: int) ^ a \<le> 2 ^ b \<longleftrightarrow> a \<le> b"
  by (rule power_increasing_iff) simp

lemma power_less_iff_2: "(2 :: int) ^ a < 2 ^ b \<longleftrightarrow> a < b"
  by (rule power_strict_increasing_iff) simp

lemma int_bit_ceil_exact: "e \<le> 62 \<Longrightarrow> int_bit_ceil (2 ^ e) = 2 ^ e"
proof -
  assume e: "e \<le> 62"
  then have "(2 :: int) ^ e \<le> 2 ^ 62" by (simp only: power_le_iff_2)
  then obtain f where f: "int_bit_ceil (2 ^ e) = 2 ^ f" "(2 :: int) ^ e \<le> 2 ^ f"
    "(2 :: int) ^ e \<le> 1 \<or> (2 :: int) ^ f < 2 * 2 ^ e"
    by (rule int_bit_ceil_cases [rotated]) simp_all
  show ?thesis
  proof (cases "e = 0")
    case True
    then show ?thesis using int_bit_ceil_small [of 1] by simp
  next
    case False
    have "1 < (2 :: int) ^ e" using False by (intro one_less_power) simp_all
    then have "(2 :: int) ^ f < 2 ^ Suc e" using f(3) by simp
    then have "f < Suc e" by (simp only: power_less_iff_2)
    moreover have "e \<le> f" using f(2) by (simp only: power_le_iff_2)
    ultimately show ?thesis using f(1) by simp
  qed
qed

section \<open>Valid configurations\<close>

text \<open>
  What the setters and \<open>auto_adjust\<close> establish and a map's constructor requires: power-of-two
  capacities, the minimum not below what kernel and growth bias demand, biases in their bounds.
\<close>

definition conf_ok :: "nat \<Rightarrow> conf \<Rightarrow> bool" where
  "conf_ok k c \<longleftrightarrow> (\<exists>a b. a \<le> b \<and> b \<le> 62 \<and> min_capacity c = 2 ^ a \<and> init_capacity c = 2 ^ b)
     \<and> is_valid (2 ^ k) c \<and> 0 \<le> blob_size c \<and> blob_size c \<le> blob_stride c
     \<and> min_grow_bias \<le> grow_bias c \<and> grow_bias c \<le> max_grow_bias
     \<and> min_scrub_bias \<le> scrub_bias c \<and> scrub_bias c \<le> max_scrub_bias
     \<and> min_shrink_bias \<le> shrink_bias c \<and> shrink_bias c \<le> max_shrink_bias"

lemma min_capacity_limit_power:
  assumes "k \<le> 62" and "0 \<le> b" and "b \<le> 64"
  obtains e where "e \<le> 62" and "min_capacity_limit (2 ^ k) b = 2 ^ e" and "k \<le> e" and "b \<le> 2 ^ e"
proof -
  obtain f where f: "f \<le> 62" "int_bit_ceil b = 2 ^ f" "b \<le> 2 ^ f" "b \<le> 1 \<or> 2 ^ f < 2 * b"
    by (rule int_bit_ceil_cases [of b]) (use assms in simp_all)
  have "min_capacity_limit (2 ^ k) b = 2 ^ max f k"
    using power_le_iff_2 [of f k] by (simp add: min_capacity_limit_def f(2) max_def)
  moreover have "b \<le> 2 ^ max f k"
    by (rule order.trans [OF f(3)]) (simp add: power_increasing)
  ultimately show ?thesis using that [of "max f k"] f(1) assms(1) by simp
qed

text \<open>Growth thresholds of a valid configuration leave a free slot and at least half the table.\<close>

lemma grow_threshold_bounds:
  assumes c: "conf_ok k c" and k: "k \<le> 62" and cap: "min_capacity c \<le> cap"
  shows "1 \<le> grow_threshold c cap" and "grow_threshold c cap * grow_bias c \<le> cap"
    and "2 * grow_threshold c cap \<le> cap"
proof -
  let ?b = "grow_bias c"
  have b: "2 \<le> ?b" "?b \<le> 64"
    using c by (simp_all add: conf_ok_def min_grow_bias_def max_grow_bias_def cache_line_size_def)
  obtain e where e: "min_capacity_limit (2 ^ k) ?b = 2 ^ e" "?b \<le> 2 ^ e"
    by (rule min_capacity_limit_power [OF k, of ?b]) (use b in simp_all)
  have "2 ^ e \<le> min_capacity c" using c e(1) by (simp add: conf_ok_def is_valid_def)
  then have le: "?b \<le> cap" using e(2) cap by simp
  have t: "grow_threshold c cap = cap div ?b" using cap by (simp add: grow_threshold_def max_def)
  have "?b div ?b \<le> cap div ?b" using le b by (intro zdiv_mono1) simp_all
  then show one: "1 \<le> grow_threshold c cap" using b t by simp
  show m: "grow_threshold c cap * ?b \<le> cap"
  proof -
    have "cap div ?b * ?b + cap mod ?b = cap" by simp
    moreover have "0 \<le> cap mod ?b" using b by simp
    ultimately show ?thesis unfolding t by linarith
  qed
  have "grow_threshold c cap * 2 \<le> grow_threshold c cap * ?b" using b one by (intro mult_left_mono) simp_all
  then show "2 * grow_threshold c cap \<le> cap" using m by simp
qed

end
