(* ===== verification/MapState.thy ===== *)
theory MapState
  imports Conf Hash ProbeSeq Kernel
begin

text \<open>
  The state of the hash map and the loops all its operations share (map.hpp, with the parts of
  raw_map_base.hpp and swiss_map_base.hpp it inherits). A slot is a position in four parallel
  arrays: states, keys, values and blobs (\<open>blob_stride\<close> bytes each in one flat array). Positions
  are natural numbers, \<open>npos\<close> is \<open>None\<close>. The template arguments are the record \<open>map_params\<close>;
  \<open>Value = void\<close> is the unit type, and without the blobs flag the configured blob size is 0.
  Freshly allocated arrays hold unspecified contents, which are parameters too.
\<close>

record ('k, 'v, 'r, 'l, 'm, 'q) map_params =
  pm_flags :: flags_t
  pm_kernel :: "('r, 'l, 'm) kernel_ops"
  pm_seq :: "'q probe_ops"
  pm_bounded :: bool
  pm_layout :: hash_layout
  pm_mixer :: hash_mixer
  pm_hasher :: "'k \<Rightarrow> hash_t"
  pm_is_nan :: "'k \<Rightarrow> bool"
  pm_fresh_key :: 'k
  pm_fresh_value :: 'v
  pm_fresh_byte :: u8
  pm_fresh_state :: state_t

record ('k, 'v) map_state =
  m_conf :: conf
  m_bucket_mask :: bitmask_t
  m_values :: "'v list"
  m_blobs :: "u8 list"
  m_keys :: "'k list"
  m_grow_threshold :: int
  m_states :: "state_t list"
  m_num_empty :: int
  m_num_tombstone :: int

section \<open>Template constants\<close>

definition ksize :: "('k, 'v, 'r, 'l, 'm, 'q) map_params \<Rightarrow> nat" where
  "ksize P = kn_size (pm_kernel P)"

definition kbits :: "('k, 'v, 'r, 'l, 'm, 'q) map_params \<Rightarrow> nat" where
  "kbits P = ctz (word_of_nat (ksize P) :: u64)"

definition has_duplicates :: "('k, 'v, 'r, 'l, 'm, 'q) map_params \<Rightarrow> bool" where
  "has_duplicates P = test_flags (pm_flags P) flag_duplicates"

definition pm_hash :: "('k, 'v, 'r, 'l, 'm, 'q) map_params \<Rightarrow> 'k \<Rightarrow> hash_t" where
  "pm_hash P key = key_to_hash (pm_hasher P) (pm_mixer P) key"

definition pm_state :: "('k, 'v, 'r, 'l, 'm, 'q) map_params \<Rightarrow> hash_t \<Rightarrow> state_t" where
  "pm_state P hash = hash_to_state (pm_layout P) hash"

section \<open>Access\<close>

definition capacity :: "('k, 'v, 'r, 'l, 'm, 'q) map_params \<Rightarrow> ('k, 'v) map_state \<Rightarrow> int" where
  "capacity P m = aligned_mask_to_capacity (m_bucket_mask m) (int (ksize P))"

definition load_bucket :: "('k, 'v, 'r, 'l, 'm, 'q) map_params \<Rightarrow> state_t list \<Rightarrow> nat \<Rightarrow> 'r" where
  "load_bucket P states off = kn_load (pm_kernel P) (take (ksize P) (drop off states))"

text \<open>The slots a loop over the mask of a loaded bucket visits.\<close>

definition walk :: "('k, 'v, 'r, 'l, 'm, 'q) map_params \<Rightarrow> 'm \<Rightarrow> nat list" where
  "walk P m = mask_indices (kn_mask_ops (pm_kernel P)) m"

text \<open>The offsets of the loop \<open>for (off = 0; off < end; off += kernel_size)\<close>.\<close>

definition bucket_offs :: "('k, 'v, 'r, 'l, 'm, 'q) map_params \<Rightarrow> int \<Rightarrow> nat list" where
  "bucket_offs P end1 = map (\<lambda>i. i * ksize P) [0..<nat ((end1 + int (ksize P) - 1) div int (ksize P))]"

definition num_not_hash_slots :: "('k, 'v) map_state \<Rightarrow> int" where
  "num_not_hash_slots m = m_num_empty m + m_num_tombstone m"

definition map_size :: "('k, 'v, 'r, 'l, 'm, 'q) map_params \<Rightarrow> ('k, 'v) map_state \<Rightarrow> int" where
  "map_size P m = capacity P m - num_not_hash_slots m"

definition state_at :: "('k, 'v) map_state \<Rightarrow> nat \<Rightarrow> state_t" where
  "state_at m pos = m_states m ! pos"

definition contains_at :: "('k, 'v) map_state \<Rightarrow> nat \<Rightarrow> bool" where
  "contains_at m pos = is_hash (state_at m pos)"

definition key_at :: "('k, 'v) map_state \<Rightarrow> nat \<Rightarrow> 'k" where
  "key_at m pos = m_keys m ! pos"

definition value_at :: "('k, 'v) map_state \<Rightarrow> nat \<Rightarrow> 'v" where
  "value_at m pos = m_values m ! pos"

definition blob_at :: "('k, 'v) map_state \<Rightarrow> nat \<Rightarrow> u8 list" where
  "blob_at m pos = take (nat (blob_size (m_conf m))) (drop (pos * nat (blob_stride (m_conf m))) (m_blobs m))"

text \<open>\<open>memcpy(&dst[off], src, n)\<close>\<close>

definition memcpy :: "'a list \<Rightarrow> nat \<Rightarrow> 'a list \<Rightarrow> 'a list" where
  "memcpy dst off src = take off dst @ src @ drop (off + length src) dst"

definition set_value_at :: "nat \<Rightarrow> 'v \<Rightarrow> ('k, 'v) map_state \<Rightarrow> ('k, 'v) map_state" where
  "set_value_at pos v m = m\<lparr>m_values := (m_values m)[pos := v]\<rparr>"

definition set_blob_at :: "nat \<Rightarrow> u8 list \<Rightarrow> ('k, 'v) map_state \<Rightarrow> ('k, 'v) map_state" where
  "set_blob_at pos src m = m\<lparr>m_blobs := memcpy (m_blobs m) (pos * nat (blob_stride (m_conf m)))
     (take (nat (blob_size (m_conf m))) src)\<rparr>"

section \<open>Loops\<close>

text \<open>
  The probe loop \<open>for (seq = start; seq.has_next(); seq += kernel_size)\<close>. The body gets the offset of the
  bucket, the sequence and the loop's variables; it continues with new variables (\<open>Inl\<close>) or leaves
  with a result (\<open>Inr\<close>). The loop returns the sequence and either the variables when the sequence
  is exhausted or the body's result; \<open>None\<close> is a loop that does not end.
\<close>

partial_function (option) probe_loop ::
    "'q probe_ops \<Rightarrow> int \<Rightarrow> bitmask_t \<Rightarrow> (nat \<Rightarrow> 'q \<Rightarrow> 's \<Rightarrow> 's + 'res) \<Rightarrow> 'q \<Rightarrow> 's \<Rightarrow> ('q \<times> ('s + 'res)) option" where
  "probe_loop pq kernel_size bucket_mask body seq s = (
     if pq_has_next pq seq
     then (case body (unat (align_pos bucket_mask (pq_next pq seq))) seq s of
             Inl s' \<Rightarrow> probe_loop pq kernel_size bucket_mask body (pq_add pq kernel_size seq) s'
           | Inr r \<Rightarrow> Some (seq, Inr r))
     else Some (seq, Inl s))"

declare probe_loop.simps [code]

definition probe ::
    "('k, 'v, 'r, 'l, 'm, 'q) map_params \<Rightarrow> bitmask_t \<Rightarrow> hash_t \<Rightarrow> (nat \<Rightarrow> 'q \<Rightarrow> 's \<Rightarrow> 's + 'res) \<Rightarrow> 's
      \<Rightarrow> ('q \<times> ('s + 'res)) option" where
  "probe P bucket_mask hash body s = probe_loop (pm_seq P) (int (ksize P)) bucket_mask body
     (pq_init (pm_seq P) (hash_to_pos (pm_layout P) (kbits P) hash)) s"

text \<open>A loop over a list whose body may fail to end.\<close>

fun fold_opt :: "('a \<Rightarrow> 's \<Rightarrow> 's option) \<Rightarrow> 'a list \<Rightarrow> 's \<Rightarrow> 's option" where
  "fold_opt f [] s = Some s"
| "fold_opt f (x # xs) s = (case f x s of None \<Rightarrow> None | Some s' \<Rightarrow> fold_opt f xs s')"

text \<open>The positions \<open>for_each_\<close>, \<open>find_if_\<close> and \<open>resize_\<close> visit: the occupied slots, bucket by bucket.\<close>

definition hash_positions :: "('k, 'v, 'r, 'l, 'm, 'q) map_params \<Rightarrow> state_t list \<Rightarrow> int \<Rightarrow> nat list" where
  "hash_positions P states end1 = concat (map (\<lambda>off.
     map (\<lambda>i. off + i) (walk P (kn_mask_hash (pm_kernel P) (load_bucket P states off)))) (bucket_offs P end1))"

section \<open>Construction and allocation\<close>

text \<open>The \<open>alloc_\<close> members of \<open>raw_map_base\<close>, \<open>swiss_map_base\<close> and \<open>map\<close>, in this order.\<close>

definition alloc_map :: "('k, 'v, 'r, 'l, 'm, 'q) map_params \<Rightarrow> int \<Rightarrow> ('k, 'v) map_state \<Rightarrow> ('k, 'v) map_state" where
  "alloc_map P end1 m = m\<lparr>
     m_bucket_mask := make_aligned_mask end1 (int (ksize P)),
     m_values := replicate (nat end1) (pm_fresh_value P),
     m_blobs := replicate (nat (end1 * blob_stride (m_conf m))) (pm_fresh_byte P),
     m_keys := replicate (nat end1) (pm_fresh_key P),
     m_grow_threshold := grow_threshold (m_conf m) end1,
     m_states := replicate (nat end1) (pm_fresh_state P)\<rparr>"

text \<open>\<open>std::fill_n\<close> of the states and the counters of an empty table.\<close>

definition reset_map :: "('k, 'v, 'r, 'l, 'm, 'q) map_params \<Rightarrow> ('k, 'v) map_state \<Rightarrow> ('k, 'v) map_state" where
  "reset_map P m = m\<lparr>
     m_states := replicate (nat (capacity P m)) empty_state @ drop (nat (capacity P m)) (m_states m),
     m_num_empty := capacity P m,
     m_num_tombstone := 0\<rparr>"

definition make_map :: "('k, 'v, 'r, 'l, 'm, 'q) map_params \<Rightarrow> conf \<Rightarrow> exn + ('k, 'v) map_state" where
  "make_map P c = (
     if \<not> is_valid (int (ksize P)) c then Inl Invalid_argument
     else let end1 = init_capacity c in
       Inr (reset_map P \<lparr>
         m_conf = c,
         m_bucket_mask = make_aligned_mask end1 (int (ksize P)),
         m_values = replicate (nat end1) (pm_fresh_value P),
         m_blobs = replicate (nat (end1 * blob_stride c)) (pm_fresh_byte P),
         m_keys = replicate (nat end1) (pm_fresh_key P),
         m_grow_threshold = grow_threshold c end1,
         m_states = replicate (nat end1) (pm_fresh_state P),
         m_num_empty = 0,
         m_num_tombstone = 0\<rparr>))"

definition clear_map :: "('k, 'v, 'r, 'l, 'm, 'q) map_params \<Rightarrow> ('k, 'v) map_state \<Rightarrow> int \<times> ('k, 'v) map_state" where
  "clear_map P m = (
     let m = (if test_flags (pm_flags P) flag_auto_shrink
       then let end1 = init_capacity (m_conf m) in if end1 \<noteq> capacity P m then alloc_map P end1 m else m
       else m)
     in (capacity P m, reset_map P m))"

definition clear_to :: "('k, 'v, 'r, 'l, 'm, 'q) map_params \<Rightarrow> int \<Rightarrow> ('k, 'v) map_state \<Rightarrow> int \<times> ('k, 'v) map_state" where
  "clear_to P new_capacity m = (
     let new_capacity = int_bit_ceil (max new_capacity (min_capacity (m_conf m)));
         m = (if new_capacity \<noteq> capacity P m then alloc_map P new_capacity m else m)
     in (capacity P m, reset_map P m))"

definition copy_assign ::
    "('k, 'v, 'r, 'l, 'm, 'q) map_params \<Rightarrow> ('k, 'v) map_state \<Rightarrow> ('k, 'v) map_state \<Rightarrow> ('k, 'v) map_state" where
  "copy_assign P other m = (
     let end1 = capacity P other;
         need_alloc = (end1 \<noteq> capacity P m \<or> blob_stride (m_conf other) \<noteq> blob_stride (m_conf m));
         m = m\<lparr>m_conf := m_conf other\<rparr>;
         m = (if need_alloc then alloc_map P end1 m else m);
         n = nat end1
     in m\<lparr>m_values := memcpy (m_values m) 0 (take n (m_values other)),
          m_blobs := memcpy (m_blobs m) 0 (take (nat (end1 * blob_stride (m_conf m))) (m_blobs other)),
          m_keys := memcpy (m_keys m) 0 (take n (m_keys other)),
          m_grow_threshold := m_grow_threshold other,
          m_states := memcpy (m_states m) 0 (take n (m_states other)),
          m_num_empty := m_num_empty other,
          m_num_tombstone := m_num_tombstone other\<rparr>)"

end
