(* ===== verification/MapOps.thy ===== *)
theory MapOps
  imports MapState
begin

text \<open>
  The operations of map.hpp, each with all the calls it makes, composed as the code composes
  them. An operation that may throw and may probe returns \<open>(exn + 'a) option\<close>: \<open>None\<close> is a
  loop that does not end, \<open>Inl\<close> a thrown exception. Release builds are modelled: assertions
  do nothing. Visitors and predicates are functions of the position; a visitor is called for
  the list of positions returned.
\<close>

datatype insert_op = Op_reject | Op_found | Op_insert | Op_replace

section \<open>Lookup\<close>

text \<open>The first slot of a mask whose key is the one sought.\<close>

definition find_in_mask ::
    "('k, 'v, 'r, 'l, 'm, 'q) map_params \<Rightarrow> 'k list \<Rightarrow> 'k \<Rightarrow> 'm \<Rightarrow> nat \<Rightarrow> nat option" where
  "find_in_mask P keys key m off = List.find (\<lambda>pos. keys ! pos = key) (map (\<lambda>i. off + i) (walk P m))"

definition find_in_bucket ::
    "('k, 'v, 'r, 'l, 'm, 'q) map_params \<Rightarrow> 'k list \<Rightarrow> 'k \<Rightarrow> 'r \<Rightarrow> state_t \<Rightarrow> nat \<Rightarrow> nat option" where
  "find_in_bucket P keys key k s off = find_in_mask P keys key (kn_mask (pm_kernel P) k s) off"

text \<open>The body of the loops of \<open>find_first_\<close> and \<open>erase_first_\<close>, with whether the bucket has an empty slot.\<close>

definition find_body ::
    "('k, 'v, 'r, 'l, 'm, 'q) map_params \<Rightarrow> ('k, 'v) map_state \<Rightarrow> 'k \<Rightarrow> state_t \<Rightarrow> nat \<Rightarrow> 'q \<Rightarrow> unit
      \<Rightarrow> unit + (nat \<times> bool) option" where
  "find_body P m key s off seq u = (
     let k = load_bucket P (m_states m) off
     in case find_in_bucket P (m_keys m) key k s off of
          Some pos \<Rightarrow> Inr (Some (pos, kn_has_empty (pm_kernel P) k))
        | None \<Rightarrow> if kn_has_empty (pm_kernel P) k then Inr None else Inl ())"

definition find_probe ::
    "('k, 'v, 'r, 'l, 'm, 'q) map_params \<Rightarrow> 'k \<Rightarrow> hash_t \<Rightarrow> ('k, 'v) map_state \<Rightarrow> ((nat \<times> bool) option \<times> 'q) option" where
  "find_probe P key hash m = map_option (\<lambda>(seq, r). (case r of Inl _ \<Rightarrow> None | Inr x \<Rightarrow> x, seq))
     (probe P (m_bucket_mask m) hash (find_body P m key (pm_state P hash)) ())"

definition find_first ::
    "('k, 'v, 'r, 'l, 'm, 'q) map_params \<Rightarrow> 'k \<Rightarrow> hash_t \<Rightarrow> ('k, 'v) map_state \<Rightarrow> (nat option \<times> 'q) option" where
  "find_first P key hash m = map_option (\<lambda>(r, seq). (map_option fst r, seq)) (find_probe P key hash m)"

text \<open>
  The search after a known position: the rest of its bucket, or the next bucket from its start,
  then on along the sequence.
\<close>

definition find_next_probe ::
    "('k, 'v, 'r, 'l, 'm, 'q) map_params \<Rightarrow> nat \<Rightarrow> 'q \<Rightarrow> 'k \<Rightarrow> hash_t \<Rightarrow> ('k, 'v) map_state
      \<Rightarrow> ((nat \<times> bool) option \<times> 'q) option" where
  "find_next_probe P pos seq key hash m = (
     let K = pm_kernel P; s = pm_state P hash; n = int (ksize P);
         (off0, idx0) = splice_pos n (word_of_nat pos);
         skip = (idx0 \<ge> n - 1);
         seq = (if skip then pq_add (pm_seq P) n seq else seq)
     in if skip \<and> \<not> pq_has_next (pm_seq P) seq then Some (None, seq)
        else
          let off = (if skip then unat (align_pos (m_bucket_mask m) (pq_next (pm_seq P) seq)) else unat off0);
              idx = (if skip then - 1 else idx0);
              k = load_bucket P (m_states m) off;
              ms = mk_above (kn_mask_ops K) (kn_mask K k s) idx
          in case find_in_mask P (m_keys m) key ms off of
               Some p \<Rightarrow> Some (Some (p, kn_has_empty K k), seq)
             | None \<Rightarrow> if kn_has_empty K k then Some (None, seq)
                 else map_option (\<lambda>(seq, r). (case r of Inl _ \<Rightarrow> None | Inr x \<Rightarrow> x, seq))
                   (probe_loop (pm_seq P) n (m_bucket_mask m) (find_body P m key s) (pq_add (pm_seq P) n seq) ()))"

definition find_next ::
    "('k, 'v, 'r, 'l, 'm, 'q) map_params \<Rightarrow> nat \<Rightarrow> 'q \<Rightarrow> 'k \<Rightarrow> hash_t \<Rightarrow> ('k, 'v) map_state
      \<Rightarrow> (nat option \<times> 'q) option" where
  "find_next P pos seq key hash m = (
     if \<not> has_duplicates P then Some (None, seq)
     else map_option (\<lambda>(r, seq). (map_option fst r, seq)) (find_next_probe P pos seq key hash m))"

definition find_if :: "('k, 'v, 'r, 'l, 'm, 'q) map_params \<Rightarrow> (nat \<Rightarrow> bool) \<Rightarrow> ('k, 'v) map_state \<Rightarrow> nat option" where
  "find_if P f m = List.find f (hash_positions P (m_states m) (capacity P m))"

definition for_each :: "('k, 'v, 'r, 'l, 'm, 'q) map_params \<Rightarrow> ('k, 'v) map_state \<Rightarrow> nat list" where
  "for_each P m = hash_positions P (m_states m) (capacity P m)"

definition for_each_key ::
    "('k, 'v, 'r, 'l, 'm, 'q) map_params \<Rightarrow> 'k \<Rightarrow> hash_t \<Rightarrow> ('k, 'v) map_state \<Rightarrow> (nat \<times> 'q) list option" where
  "for_each_key P key hash m = (
     let K = pm_kernel P; s = pm_state P hash;
         body = (\<lambda>off seq acc.
           let k = load_bucket P (m_states m) off;
               ps = filter (\<lambda>pos. m_keys m ! pos = key) (map (\<lambda>i. off + i) (walk P (kn_mask K k s)))
           in if \<not> has_duplicates P \<and> ps \<noteq> [] then Inr (acc @ [(hd ps, seq)])
              else let acc = acc @ map (\<lambda>p. (p, seq)) ps
                in if kn_has_empty K k then Inr acc else Inl acc)
     in map_option (\<lambda>(seq, r). case r of Inl a \<Rightarrow> a | Inr a \<Rightarrow> a) (probe P (m_bucket_mask m) hash body []))"

section \<open>Counting\<close>

definition count_key ::
    "('k, 'v, 'r, 'l, 'm, 'q) map_params \<Rightarrow> 'k \<Rightarrow> ('k, 'v) map_state \<Rightarrow> int option" where
  "count_key P key m = map_option (\<lambda>ps. int (length ps)) (for_each_key P key (pm_hash P key) m)"

definition count_if :: "('k, 'v, 'r, 'l, 'm, 'q) map_params \<Rightarrow> (nat \<Rightarrow> bool) \<Rightarrow> ('k, 'v) map_state \<Rightarrow> int" where
  "count_if P f m = fold (\<lambda>pos n. n + of_bool (f pos)) (for_each P m) 0"

definition check_integrity :: "('k, 'v, 'r, 'l, 'm, 'q) map_params \<Rightarrow> ('k, 'v) map_state \<Rightarrow> bool" where
  "check_integrity P m = (
     let K = pm_kernel P;
         (num_empty, num_tombstone) = fold (\<lambda>off (e, t).
           let k = load_bucket P (m_states m) off
           in (e + int (mk_count (kn_mask_ops K) (kn_mask_empty K k)),
               t + int (mk_count (kn_mask_ops K) (kn_mask_tombstone K k))))
           (bucket_offs P (capacity P m)) (0, 0)
     in num_empty = m_num_empty m \<and> num_tombstone = m_num_tombstone m)"

definition bucket_size_at :: "('k, 'v, 'r, 'l, 'm, 'q) map_params \<Rightarrow> ('k, 'v) map_state \<Rightarrow> nat \<Rightarrow> nat" where
  "bucket_size_at P m pos = (
     let off = unat (align_pos (NOT (make_size_mask (int (ksize P)))) (word_of_nat pos));
         k = load_bucket P (m_states m) off
     in mk_count (kn_mask_ops (pm_kernel P)) (kn_mask_hash (pm_kernel P) k))"

definition bucket_num_empty_slots_at :: "('k, 'v, 'r, 'l, 'm, 'q) map_params \<Rightarrow> ('k, 'v) map_state \<Rightarrow> nat \<Rightarrow> nat" where
  "bucket_num_empty_slots_at P m pos = (
     let off = unat (align_pos (NOT (make_size_mask (int (ksize P)))) (word_of_nat pos));
         k = load_bucket P (m_states m) off
     in mk_count (kn_mask_ops (pm_kernel P)) (kn_mask_empty (pm_kernel P) k))"

definition bucket_num_tombstone_slots_at :: "('k, 'v, 'r, 'l, 'm, 'q) map_params \<Rightarrow> ('k, 'v) map_state \<Rightarrow> nat \<Rightarrow> nat" where
  "bucket_num_tombstone_slots_at P m pos = (
     let off = unat (align_pos (NOT (make_size_mask (int (ksize P)))) (word_of_nat pos));
         k = load_bucket P (m_states m) off
     in mk_count (kn_mask_ops (pm_kernel P)) (kn_mask_tombstone (pm_kernel P) k))"

definition count_kernel_populations ::
    "('k, 'v, 'r, 'l, 'm, 'q) map_params \<Rightarrow> ('k, 'v) map_state \<Rightarrow> int list \<Rightarrow> int list" where
  "count_kernel_populations P m counts = fold (\<lambda>off counts.
     let n = mk_count (kn_mask_ops (pm_kernel P)) (kn_mask_hash (pm_kernel P) (load_bucket P (m_states m) off))
     in counts[n := counts ! n + 1]) (bucket_offs P (capacity P m)) counts"

definition count_state_collisions ::
    "('k, 'v, 'r, 'l, 'm, 'q) map_params \<Rightarrow> ('k, 'v) map_state \<Rightarrow> int list \<Rightarrow> int list" where
  "count_state_collisions P m counts = fold (\<lambda>off counts.
     count_collisions (pm_kernel P) (take (ksize P) (drop off (m_states m))) counts)
     (bucket_offs P (capacity P m)) counts"

section \<open>Resizing\<close>

text \<open>Copies key, value and blob of slot \<open>from\<close> of \<open>src\<close> to slot \<open>pos\<close>.\<close>

definition copy_entry ::
    "('k, 'v) map_state \<Rightarrow> nat \<Rightarrow> nat \<Rightarrow> ('k, 'v) map_state \<Rightarrow> ('k, 'v) map_state" where
  "copy_entry src from pos m = m\<lparr>
     m_keys := (m_keys m)[pos := m_keys src ! from],
     m_values := (m_values m)[pos := m_values src ! from],
     m_blobs := memcpy (m_blobs m) (pos * nat (blob_stride (m_conf m))) (blob_at src from)\<rparr>"

definition set_state :: "nat \<Rightarrow> state_t \<Rightarrow> ('k, 'v) map_state \<Rightarrow> ('k, 'v) map_state" where
  "set_state pos s m = m\<lparr>m_states := (m_states m)[pos := s]\<rparr>"

text \<open>The first slot of a bucket that holds no hash, if there is one.\<close>

definition free_slot :: "('k, 'v, 'r, 'l, 'm, 'q) map_params \<Rightarrow> 'r \<Rightarrow> nat \<Rightarrow> nat option" where
  "free_slot P k off = (
     let K = pm_kernel P; ms = kn_mask_not_hash K k
     in if mk_has_next (kn_mask_ops K) ms then Some (off + mk_next (kn_mask_ops K) ms) else None)"

text \<open>Inserts one old entry; \<open>Some None\<close> when the probe sequence is exhausted.\<close>

definition resize_one ::
    "('k, 'v, 'r, 'l, 'm, 'q) map_params \<Rightarrow> ('k, 'v) map_state \<Rightarrow> nat \<Rightarrow> ('k, 'v) map_state
      \<Rightarrow> ('k, 'v) map_state option option" where
  "resize_one P src old_pos m = (
     let hash = pm_hash P (m_keys src ! old_pos)
     in case probe P (m_bucket_mask m) hash (\<lambda>new_off seq u.
            case free_slot P (load_bucket P (m_states m) new_off) new_off of
              Some new_pos \<Rightarrow> Inr new_pos
            | None \<Rightarrow> Inl ()) () of
          None \<Rightarrow> None
        | Some (seq, Inl _) \<Rightarrow> Some None
        | Some (seq, Inr new_pos) \<Rightarrow>
            Some (Some (copy_entry src old_pos new_pos (set_state new_pos (pm_state P hash) m))))"

fun resize_fill ::
    "('k, 'v, 'r, 'l, 'm, 'q) map_params \<Rightarrow> ('k, 'v) map_state \<Rightarrow> nat list \<Rightarrow> ('k, 'v) map_state
      \<Rightarrow> ('k, 'v) map_state option option" where
  "resize_fill P src [] m = Some (Some m)"
| "resize_fill P src (p # ps) m = (case resize_one P src p m of
     None \<Rightarrow> None
   | Some None \<Rightarrow> Some None
   | Some (Some m') \<Rightarrow> resize_fill P src ps m')"

definition resize_try ::
    "('k, 'v, 'r, 'l, 'm, 'q) map_params \<Rightarrow> ('k, 'v) map_state \<Rightarrow> int \<Rightarrow> int \<Rightarrow> ('k, 'v) map_state option option" where
  "resize_try P src old_end end1 = resize_fill P src (hash_positions P (m_states src) old_end)
     (reset_map P (alloc_map P end1 src))"

partial_function (option) resize_loop ::
    "('k, 'v, 'r, 'l, 'm, 'q) map_params \<Rightarrow> ('k, 'v) map_state \<Rightarrow> int \<Rightarrow> int \<Rightarrow> (exn + int \<times> ('k, 'v) map_state) option" where
  "resize_loop P src old_end end1 = (case resize_try P src old_end end1 of
     None \<Rightarrow> None
   | Some None \<Rightarrow> if pm_bounded P then resize_loop P src old_end (2 * end1) else Some (Inl Runtime_error)
   | Some (Some m') \<Rightarrow> Some (Inr (end1, m')))"

declare resize_loop.simps [code]

definition resize_target :: "('k, 'v, 'r, 'l, 'm, 'q) map_params \<Rightarrow> int \<Rightarrow> ('k, 'v) map_state \<Rightarrow> int" where
  "resize_target P end1 m = (
     let end1 = (if end1 < min_capacity (m_conf m) then min_capacity (m_conf m) else end1);
         old_size = capacity P m - num_not_hash_slots m
     in max end1 (int_bit_ceil (old_size + grow_threshold (m_conf m) (int_bit_ceil old_size))))"

definition resize_map ::
    "('k, 'v, 'r, 'l, 'm, 'q) map_params \<Rightarrow> int \<Rightarrow> ('k, 'v) map_state \<Rightarrow> (exn + int \<times> ('k, 'v) map_state) option" where
  "resize_map P end1 m = (
     let old_end = capacity P m;
         old_size = old_end - num_not_hash_slots m;
         end1 = resize_target P end1 m
     in if end1 = old_end then Some (Inr (end1, m))
        else map_option (map_sum id (\<lambda>(end1, m'). (end1, m'\<lparr>m_num_empty := m_num_empty m' - old_size\<rparr>)))
          (resize_loop P m old_end end1))"

definition reserve ::
    "('k, 'v, 'r, 'l, 'm, 'q) map_params \<Rightarrow> int \<Rightarrow> ('k, 'v) map_state \<Rightarrow> (exn + int \<times> ('k, 'v) map_state) option" where
  "reserve P new_capacity m = (
     if new_capacity \<le> capacity P m then Some (Inr (capacity P m, m))
     else resize_map P (max (int_bit_ceil new_capacity) (min_capacity (m_conf m))) m)"

definition resize_api ::
    "('k, 'v, 'r, 'l, 'm, 'q) map_params \<Rightarrow> int \<Rightarrow> ('k, 'v) map_state \<Rightarrow> (exn + int \<times> ('k, 'v) map_state) option" where
  "resize_api P new_capacity m = resize_map P (max (int_bit_ceil new_capacity) (min_capacity (m_conf m))) m"

definition grow ::
    "('k, 'v, 'r, 'l, 'm, 'q) map_params \<Rightarrow> ('k, 'v) map_state \<Rightarrow> (exn + int \<times> ('k, 'v) map_state) option" where
  "grow P m = resize_map P (2 * capacity P m) m"

text \<open>The halving loop ends after at most 63 steps, as \<open>end\<close> is an \<open>int_t\<close> and \<open>min_end\<close> positive.\<close>

fun shrink_loop :: "nat \<Rightarrow> conf \<Rightarrow> int \<Rightarrow> int \<Rightarrow> int \<Rightarrow> int \<Rightarrow> int" where
  "shrink_loop 0 c num_empty num_tombstone min_end end1 = end1"
| "shrink_loop (Suc n) c num_empty num_tombstone min_end end1 = (
     if end1 > min_end \<and> should_shrink c end1 num_empty num_tombstone
     then shrink_loop n c num_empty num_tombstone min_end (end1 div 2) else end1)"

definition shrink_target :: "('k, 'v, 'r, 'l, 'm, 'q) map_params \<Rightarrow> ('k, 'v) map_state \<Rightarrow> int" where
  "shrink_target P m = (
     let sz = capacity P m - (m_num_empty m + m_num_tombstone m);
         min_end = max (int_bit_ceil sz) (min_capacity (m_conf m))
     in shrink_loop 63 (m_conf m) (m_num_empty m) (m_num_tombstone m) min_end (capacity P m))"

definition shrink ::
    "('k, 'v, 'r, 'l, 'm, 'q) map_params \<Rightarrow> ('k, 'v) map_state \<Rightarrow> (exn + int \<times> ('k, 'v) map_state) option" where
  "shrink P m = (
     let new_end = shrink_target P m
     in if new_end \<noteq> capacity P m then resize_map P new_end m else Some (Inr (new_end, m)))"

end
