(* ===== verification/MapUpdate.thy ===== *)
theory MapUpdate
  imports MapOps
begin

unbundle bit_operations_syntax

text \<open>
  Insertion, scrubbing and erasure of map.hpp. An erased slot becomes empty when its bucket has an
  empty slot (no probe sequence passed it) and a tombstone otherwise; scrubbing moves entries
  upstream into tombstones and reclaims what it can.
\<close>

section \<open>Insertion\<close>

definition is_full :: "('k, 'v) map_state \<Rightarrow> bool" where
  "is_full m \<longleftrightarrow> should_grow_precalc (m_conf m) (m_num_empty m) (m_grow_threshold m)"

text \<open>
  The two probe loops of \<open>insert_\<close>. The loop variable of the first is \<open>ins_pos\<close>. They leave with the
  position of the key (\<open>Inl\<close>) or the slot to fill and whether that slot is empty (\<open>Inr\<close>).
\<close>

definition insert_lookup ::
    "('k, 'v, 'r, 'l, 'm, 'q) map_params \<Rightarrow> ('k, 'v) map_state \<Rightarrow> 'k \<Rightarrow> 'r \<Rightarrow> state_t \<Rightarrow> nat \<Rightarrow> nat option" where
  "insert_lookup P m key k s off = (if has_duplicates P then None else find_in_bucket P (m_keys m) key k s off)"

definition insert_body_tombstones ::
    "('k, 'v, 'r, 'l, 'm, 'q) map_params \<Rightarrow> ('k, 'v) map_state \<Rightarrow> 'k \<Rightarrow> state_t \<Rightarrow> nat \<Rightarrow> 'q \<Rightarrow> nat option
      \<Rightarrow> nat option + (nat + nat \<times> bool)" where
  "insert_body_tombstones P m key s off seq ins_pos = (
     let K = pm_kernel P; M = kn_mask_ops K; k = load_bucket P (m_states m) off
     in case insert_lookup P m key k s off of
          Some pos \<Rightarrow> Inr (Inl pos)
        | None \<Rightarrow> (case ins_pos of
            None \<Rightarrow>
              if mk_has_next M (kn_mask_tombstone K k) then Inl (Some (off + mk_next M (kn_mask_tombstone K k)))
              else (case free_slot P k off of
                      None \<Rightarrow> Inl None
                    | Some pos \<Rightarrow> Inr (Inr (pos, True)))
          | Some pos \<Rightarrow>
              if mk_has_next M (kn_mask_empty K k) then Inr (Inr (pos, False)) else Inl ins_pos))"

definition insert_body ::
    "('k, 'v, 'r, 'l, 'm, 'q) map_params \<Rightarrow> ('k, 'v) map_state \<Rightarrow> 'k \<Rightarrow> state_t \<Rightarrow> nat \<Rightarrow> 'q \<Rightarrow> nat option
      \<Rightarrow> nat option + (nat + nat \<times> bool)" where
  "insert_body P m key s off seq ins_pos = (
     let k = load_bucket P (m_states m) off
     in case insert_lookup P m key k s off of
          Some pos \<Rightarrow> Inr (Inl pos)
        | None \<Rightarrow> (case free_slot P k off of None \<Rightarrow> Inl None | Some pos \<Rightarrow> Inr (Inr (pos, True))))"

definition insert_probe ::
    "('k, 'v, 'r, 'l, 'm, 'q) map_params \<Rightarrow> 'k \<Rightarrow> hash_t \<Rightarrow> int \<Rightarrow> ('k, 'v) map_state
      \<Rightarrow> ('q \<times> (nat option + (nat + nat \<times> bool))) option" where
  "insert_probe P key hash end1 m = probe P (make_aligned_mask end1 (int (ksize P))) hash
     (if m_num_tombstone m \<noteq> 0 then insert_body_tombstones P m key (pm_state P hash)
      else insert_body P m key (pm_state P hash)) None"

text \<open>
  When a bounded sequence is exhausted the table grows and the loop starts over; an unbounded one
  is never exhausted, and the release build would start over.
\<close>

partial_function (option) insert_loop ::
    "('k, 'v, 'r, 'l, 'm, 'q) map_params \<Rightarrow> 'k \<Rightarrow> hash_t \<Rightarrow> int \<Rightarrow> ('k, 'v) map_state
      \<Rightarrow> (exn + (nat + nat \<times> bool) \<times> 'q \<times> ('k, 'v) map_state) option" where
  "insert_loop P key hash end1 m = (case insert_probe P key hash end1 m of
     None \<Rightarrow> None
   | Some (seq, Inr r) \<Rightarrow> Some (Inr (r, seq, m))
   | Some (seq, Inl _) \<Rightarrow>
       if pm_bounded P then (case resize_map P (2 * end1) m of
           None \<Rightarrow> None
         | Some (Inl e) \<Rightarrow> Some (Inl e)
         | Some (Inr em) \<Rightarrow> insert_loop P key hash (fst em) (snd em))
       else insert_loop P key hash end1 m)"

declare insert_loop.simps [code]

definition place_key :: "'k \<Rightarrow> state_t \<Rightarrow> nat \<Rightarrow> bool \<Rightarrow> ('k, 'v) map_state \<Rightarrow> ('k, 'v) map_state" where
  "place_key key s pos is_empty m = m\<lparr>
     m_keys := (m_keys m)[pos := key],
     m_states := (m_states m)[pos := s],
     m_num_empty := m_num_empty m - of_bool is_empty,
     m_num_tombstone := m_num_tombstone m - (1 - of_bool is_empty)\<rparr>"

definition insert_key ::
    "('k, 'v, 'r, 'l, 'm, 'q) map_params \<Rightarrow> 'k \<Rightarrow> hash_t \<Rightarrow> ('k, 'v) map_state
      \<Rightarrow> (exn + (nat \<times> insert_op \<times> 'q) \<times> ('k, 'v) map_state) option" where
  "insert_key P key hash m = (
     if pm_is_nan P key then Some (Inl Runtime_error)
     else case (if is_full m then resize_map P (2 * capacity P m) m else Some (Inr (capacity P m, m))) of
         None \<Rightarrow> None
       | Some (Inl e) \<Rightarrow> Some (Inl e)
       | Some (Inr (end1, m)) \<Rightarrow> (case insert_loop P key hash end1 m of
           None \<Rightarrow> None
         | Some (Inl e) \<Rightarrow> Some (Inl e)
         | Some (Inr (Inl pos, seq, m)) \<Rightarrow> Some (Inr ((pos, Op_found, seq), m))
         | Some (Inr (Inr (pos, is_empty), seq, m)) \<Rightarrow>
             Some (Inr ((pos, Op_insert, seq), place_key key (pm_state P hash) pos is_empty m))))"

section \<open>Scrubbing\<close>

record ('k, 'v) scrub_state =
  sc_map :: "('k, 'v) map_state"
  sc_num_empty :: int
  sc_num_tombstone :: int
  sc_num_moves :: int
  sc_psl_bits :: int

definition scrub_move ::
    "('k, 'v, 'r, 'l, 'm, 'q) map_params \<Rightarrow> hash_t \<Rightarrow> 'r \<Rightarrow> nat \<Rightarrow> nat \<Rightarrow> ('k, 'v) scrub_state \<Rightarrow> ('k, 'v) scrub_state" where
  "scrub_move P hash old_k old_pos new_pos st = (
     let m = copy_entry (sc_map st) old_pos new_pos (set_state new_pos (pm_state P hash) (sc_map st));
         st = st\<lparr>sc_num_moves := sc_num_moves st + 1\<rparr>
     in if kn_has_empty (pm_kernel P) old_k
        then st\<lparr>sc_map := set_state old_pos empty_state m, sc_num_empty := sc_num_empty st + 1,
                sc_num_tombstone := sc_num_tombstone st - 1\<rparr>
        else st\<lparr>sc_map := set_state old_pos tombstone_state m\<rparr>)"

definition scrub_one ::
    "('k, 'v, 'r, 'l, 'm, 'q) map_params \<Rightarrow> int \<Rightarrow> nat \<Rightarrow> 'r \<Rightarrow> nat \<Rightarrow> ('k, 'v) scrub_state \<Rightarrow> ('k, 'v) scrub_state option" where
  "scrub_one P end1 old_off old_k i st = (
     let old_pos = old_off + i; m = sc_map st; hash = pm_hash P (m_keys m ! old_pos)
     in case probe P (make_aligned_mask end1 (int (ksize P))) hash (\<lambda>new_off seq u.
            if new_off = old_off then Inr None
            else case free_slot P (load_bucket P (m_states m) new_off) new_off of
                Some new_pos \<Rightarrow> Inr (Some new_pos)
              | None \<Rightarrow> Inl ()) () of
          None \<Rightarrow> None
        | Some (seq, r) \<Rightarrow>
            let st = (case r of Inr (Some new_pos) \<Rightarrow> scrub_move P hash old_k old_pos new_pos st | _ \<Rightarrow> st)
            in Some (st\<lparr>sc_psl_bits := sc_psl_bits st OR pq_psl (pm_seq P) seq\<rparr>))"

definition scrub_bucket ::
    "('k, 'v, 'r, 'l, 'm, 'q) map_params \<Rightarrow> int \<Rightarrow> nat \<Rightarrow> ('k, 'v) scrub_state \<Rightarrow> ('k, 'v) scrub_state option" where
  "scrub_bucket P end1 old_off st = (
     let old_k = load_bucket P (m_states (sc_map st)) old_off
     in fold_opt (scrub_one P end1 old_off old_k) (walk P (kn_mask_hash (pm_kernel P) old_k)) st)"

definition scrub_pass ::
    "('k, 'v, 'r, 'l, 'm, 'q) map_params \<Rightarrow> int \<Rightarrow> ('k, 'v) scrub_state \<Rightarrow> ('k, 'v) scrub_state option" where
  "scrub_pass P end1 st = fold_opt (scrub_bucket P end1) (bucket_offs P end1) (st\<lparr>sc_psl_bits := 0\<rparr>)"

partial_function (option) scrub_phases ::
    "('k, 'v, 'r, 'l, 'm, 'q) map_params \<Rightarrow> int \<Rightarrow> ('k, 'v) scrub_state \<Rightarrow> ('k, 'v) scrub_state option" where
  "scrub_phases P end1 st = (case scrub_pass P end1 st of
     None \<Rightarrow> None
   | Some st' \<Rightarrow> if sc_num_moves st' - sc_num_moves st \<le> 1 then Some st' else scrub_phases P end1 st')"

declare scrub_phases.simps [code]

text \<open>The two ways to reclaim tombstones after the moves.\<close>

definition reclaim_all :: "('k, 'v, 'r, 'l, 'm, 'q) map_params \<Rightarrow> int \<Rightarrow> state_t list \<Rightarrow> state_t list" where
  "reclaim_all P end1 states = fold (\<lambda>off states.
     memcpy states off (kn_store (pm_kernel P) (kn_not_hash_to_empty (pm_kernel P) (load_bucket P states off))))
     (bucket_offs P end1) states"

definition reclaim_dead ::
    "('k, 'v, 'r, 'l, 'm, 'q) map_params \<Rightarrow> int \<Rightarrow> state_t list \<Rightarrow> state_t list \<times> int" where
  "reclaim_dead P end1 states = fold (\<lambda>off (states, n).
     if kn_has_not_tombstone (pm_kernel P) (load_bucket P states off) then (states, n)
     else (memcpy states off (replicate (ksize P) empty_state), n + int (ksize P)))
     (bucket_offs P end1) (states, 0)"

definition scrub_finish ::
    "('k, 'v, 'r, 'l, 'm, 'q) map_params \<Rightarrow> int \<Rightarrow> ('k, 'v) scrub_state \<Rightarrow> ('k, 'v) map_state" where
  "scrub_finish P end1 st = (
     let m = (sc_map st)\<lparr>m_num_empty := sc_num_empty st, m_num_tombstone := sc_num_tombstone st\<rparr>
     in if sc_num_moves st = 0 then m
        else if sc_psl_bits st = 0 then
          m\<lparr>m_states := reclaim_all P end1 (m_states m),
            m_num_empty := m_num_empty m + sc_num_tombstone st, m_num_tombstone := 0\<rparr>
        else let (states, n) = reclaim_dead P end1 (m_states m)
          in m\<lparr>m_states := states, m_num_empty := m_num_empty m + n, m_num_tombstone := m_num_tombstone m - n\<rparr>)"

definition scrub ::
    "('k, 'v, 'r, 'l, 'm, 'q) map_params \<Rightarrow> ('k, 'v) map_state \<Rightarrow> (int \<times> ('k, 'v) map_state) option" where
  "scrub P m = (
     if m_num_tombstone m = 0 then Some (0, m)
     else let end1 = capacity P m
       in map_option (\<lambda>st. (sc_num_moves st, scrub_finish P end1 st))
         (scrub_phases P end1 \<lparr>sc_map = m, sc_num_empty = m_num_empty m, sc_num_tombstone = m_num_tombstone m,
            sc_num_moves = 0, sc_psl_bits = 0\<rparr>))"

section \<open>Erasure\<close>

definition auto_shrink_and_scrub ::
    "('k, 'v, 'r, 'l, 'm, 'q) map_params \<Rightarrow> int \<Rightarrow> int \<Rightarrow> ('k, 'v) map_state
      \<Rightarrow> (exn + bool \<times> ('k, 'v) map_state) option" where
  "auto_shrink_and_scrub P end1 num_burried m = (
     if test_flags (pm_flags P) flag_auto_shrink
        \<and> should_shrink (m_conf m) end1 (m_num_empty m) (m_num_tombstone m)
     then map_option (map_sum id (\<lambda>(_, m). (False, m))) (resize_map P (end1 div 2) m)
     else if test_flags (pm_flags P) flag_auto_scrub \<and> num_burried \<noteq> 0
        \<and> should_scrub (m_conf m) end1 (m_num_tombstone m)
     then map_option (\<lambda>(_, m). Inr (False, m)) (scrub P m)
     else Some (Inr (True, m)))"

definition bury_slot :: "bool \<Rightarrow> nat \<Rightarrow> ('k, 'v) map_state \<Rightarrow> ('k, 'v) map_state" where
  "bury_slot has_empty pos m = (
     if has_empty then (set_state pos empty_state m)\<lparr>m_num_empty := m_num_empty m + 1\<rparr>
     else (set_state pos tombstone_state m)\<lparr>m_num_tombstone := m_num_tombstone m + 1\<rparr>)"

definition reset_slot ::
    "('k, 'v, 'r, 'l, 'm, 'q) map_params \<Rightarrow> int \<Rightarrow> nat \<Rightarrow> bool \<Rightarrow> ('k, 'v) map_state
      \<Rightarrow> (exn + bool \<times> ('k, 'v) map_state) option" where
  "reset_slot P end1 pos has_empty m =
     auto_shrink_and_scrub P end1 (if has_empty then 0 else 1) (bury_slot has_empty pos m)"

text \<open>What \<open>erase_first_\<close> and \<open>erase_next_\<close> do with the slot the search found.\<close>

definition erase_found ::
    "('k, 'v, 'r, 'l, 'm, 'q) map_params \<Rightarrow> (nat \<times> bool) option \<times> 'q \<Rightarrow> ('k, 'v) map_state
      \<Rightarrow> (exn + (bool \<times> nat option \<times> 'q) \<times> ('k, 'v) map_state) option" where
  "erase_found P f m = (case f of
     (None, seq) \<Rightarrow> Some (Inr ((False, None, seq), m))
   | (Some (pos, has_empty), seq) \<Rightarrow>
       map_option (map_sum id (\<lambda>(valid, m). ((True, if valid then Some pos else None, seq), m)))
         (reset_slot P (capacity P m) pos has_empty m))"

definition erase_first ::
    "('k, 'v, 'r, 'l, 'm, 'q) map_params \<Rightarrow> 'k \<Rightarrow> hash_t \<Rightarrow> ('k, 'v) map_state
      \<Rightarrow> (exn + (bool \<times> nat option \<times> 'q) \<times> ('k, 'v) map_state) option" where
  "erase_first P key hash m = (case find_probe P key hash m of
     None \<Rightarrow> None
   | Some f \<Rightarrow> erase_found P f m)"

definition erase_next ::
    "('k, 'v, 'r, 'l, 'm, 'q) map_params \<Rightarrow> nat \<Rightarrow> 'q \<Rightarrow> 'k \<Rightarrow> hash_t \<Rightarrow> ('k, 'v) map_state
      \<Rightarrow> (exn + (bool \<times> nat option \<times> 'q) \<times> ('k, 'v) map_state) option" where
  "erase_next P pos seq key hash m = (
     if \<not> has_duplicates P then Some (Inr ((False, None, seq), m))
     else case find_next_probe P pos seq key hash m of
         None \<Rightarrow> None
       | Some f \<Rightarrow> erase_found P f m)"

definition erase_at ::
    "('k, 'v, 'r, 'l, 'm, 'q) map_params \<Rightarrow> nat \<Rightarrow> ('k, 'v) map_state
      \<Rightarrow> (exn + (bool \<times> nat option) \<times> ('k, 'v) map_state) option" where
  "erase_at P pos m = (
     let (off, idx) = splice_pos (int (ksize P)) (word_of_nat pos);
         k = load_bucket P (m_states m) (unat off)
     in if is_hash (kn_at (pm_kernel P) k (nat idx))
        then map_option (map_sum id (\<lambda>(valid, m). ((True, if valid then Some pos else None), m)))
          (reset_slot P (capacity P m) pos (kn_has_empty (pm_kernel P) k) m)
        else Some (Inr ((False, Some pos), m)))"

text \<open>
  Erases, in a bucket loaded before, the slots of a mask that satisfy a predicate. The local
  counters of \<open>erase_if_\<close> and \<open>erase_all_\<close> are kept in the map, as nothing reads them before the
  functions write them back.
\<close>

definition bury_in_bucket ::
    "('k, 'v, 'r, 'l, 'm, 'q) map_params \<Rightarrow> (nat \<Rightarrow> bool) \<Rightarrow> 'r \<Rightarrow> 'm \<Rightarrow> nat \<Rightarrow> ('k, 'v) map_state \<Rightarrow> ('k, 'v) map_state" where
  "bury_in_bucket P f k ms off m = fold (\<lambda>i m.
     if f (off + i) then bury_slot (kn_has_empty (pm_kernel P) k) (off + i) m else m) (walk P ms) m"

definition finish_erase ::
    "('k, 'v, 'r, 'l, 'm, 'q) map_params \<Rightarrow> ('k, 'v) map_state \<Rightarrow> ('k, 'v) map_state
      \<Rightarrow> (exn + int \<times> ('k, 'v) map_state) option" where
  "finish_erase P old m = (
     let num_emptied = m_num_empty m - m_num_empty old;
         num_burried = m_num_tombstone m - m_num_tombstone old;
         num_erased = num_emptied + num_burried
     in if num_erased \<noteq> 0
        then map_option (map_sum id (\<lambda>(_, m). (num_erased, m))) (auto_shrink_and_scrub P (capacity P old) num_burried m)
        else Some (Inr (num_erased, m)))"

definition erase_if ::
    "('k, 'v, 'r, 'l, 'm, 'q) map_params \<Rightarrow> (nat \<Rightarrow> bool) \<Rightarrow> ('k, 'v) map_state
      \<Rightarrow> (exn + int \<times> ('k, 'v) map_state) option" where
  "erase_if P f m = finish_erase P m (fold (\<lambda>off m'.
     let k = load_bucket P (m_states m') off
     in bury_in_bucket P f k (kn_mask_hash (pm_kernel P) k) off m') (bucket_offs P (capacity P m)) m)"

definition erase_all ::
    "('k, 'v, 'r, 'l, 'm, 'q) map_params \<Rightarrow> 'k \<Rightarrow> hash_t \<Rightarrow> ('k, 'v) map_state
      \<Rightarrow> (exn + int \<times> ('k, 'v) map_state) option" where
  "erase_all P key hash m = (
     if \<not> has_duplicates P
     then map_option (map_sum id (\<lambda>((b, _), m). (of_bool b, m))) (erase_first P key hash m)
     else case probe P (m_bucket_mask m) hash (\<lambda>off seq m'.
            let k = load_bucket P (m_states m') off;
                m' = bury_in_bucket P (\<lambda>pos. m_keys m ! pos = key) k (kn_mask (pm_kernel P) k (pm_state P hash)) off m'
            in if kn_has_empty (pm_kernel P) k then Inr m' else Inl m') m of
         None \<Rightarrow> None
       | Some (seq, Inl m') \<Rightarrow> finish_erase P m m'
       | Some (seq, Inr m') \<Rightarrow> finish_erase P m m')"

end
