(* ===== verification/MapInv.thy ===== *)
theory MapInv
  imports MapUpdate "HOL-Library.Multiset"
begin

text \<open>
  What a well-formed hash map is, and the facts all operations share. Every occupied slot carries
  the state of its key's hash and lies in a bucket of that hash's probe sequence that no bucket
  with an empty slot precedes; no bucket has both empty slots and tombstones; without the
  duplicates flag the keys are distinct; the counters are exact and at least one slot is empty.
  The locale \<open>swiss_map\<close> assumes the contracts of the kernel and of the probe sequence.
\<close>

section \<open>Abstract contents and invariant\<close>

definition bucket :: "('k, 'v, 'r, 'l, 'm, 'q) map_params \<Rightarrow> state_t list \<Rightarrow> nat \<Rightarrow> state_t list" where
  "bucket P states off = take (ksize P) (drop off states)"

definition seq_at :: "('k, 'v, 'r, 'l, 'm, 'q) map_params \<Rightarrow> hash_t \<Rightarrow> nat \<Rightarrow> 'q" where
  "seq_at P h i = probe_iter (pm_seq P) (kbits P) (hash_to_pos (pm_layout P) (kbits P) h) i"

definition probe_off :: "('k, 'v, 'r, 'l, 'm, 'q) map_params \<Rightarrow> bitmask_t \<Rightarrow> hash_t \<Rightarrow> nat \<Rightarrow> nat" where
  "probe_off P bm h i = unat (align_pos bm (pq_next (pm_seq P) (seq_at P h i)))"

definition occupied :: "('k, 'v) map_state \<Rightarrow> nat set" where
  "occupied m = {pos. pos < length (m_states m) \<and> is_hash (m_states m ! pos)}"

definition entry_at :: "('k, 'v) map_state \<Rightarrow> nat \<Rightarrow> 'k \<times> 'v \<times> u8 list" where
  "entry_at m pos = (key_at m pos, value_at m pos, blob_at m pos)"

definition entries :: "('k, 'v) map_state \<Rightarrow> ('k \<times> 'v \<times> u8 list) multiset" where
  "entries m = image_mset (entry_at m) (mset_set (occupied m))"

definition count_states :: "state_t \<Rightarrow> state_t list \<Rightarrow> int" where
  "count_states s xs = int (length (filter (\<lambda>x. x = s) xs))"

definition placed ::
    "('k, 'v, 'r, 'l, 'm, 'q) map_params \<Rightarrow> bitmask_t \<Rightarrow> state_t list \<Rightarrow> hash_t \<Rightarrow> nat \<Rightarrow> bool" where
  "placed P bm states h off \<longleftrightarrow> (\<exists>i < length states div ksize P. probe_off P bm h i = off \<and>
     (\<forall>j<i. empty_state \<notin> set (bucket P states (probe_off P bm h j))))"

definition unmixed :: "('k, 'v, 'r, 'l, 'm, 'q) map_params \<Rightarrow> state_t list \<Rightarrow> bool" where
  "unmixed P states \<longleftrightarrow> (\<forall>b < length states div ksize P. \<not> (empty_state \<in> set (bucket P states (b * ksize P))
     \<and> tombstone_state \<in> set (bucket P states (b * ksize P))))"

definition shape_ok :: "('k, 'v, 'r, 'l, 'm, 'q) map_params \<Rightarrow> nat \<Rightarrow> ('k, 'v) map_state \<Rightarrow> bool" where
  "shape_ok P c m \<longleftrightarrow> kbits P \<le> c \<and> c \<le> 62 \<and> m_bucket_mask m = make_aligned_mask (2 ^ c) (2 ^ kbits P)
     \<and> length (m_states m) = 2 ^ c \<and> length (m_keys m) = 2 ^ c \<and> length (m_values m) = 2 ^ c
     \<and> length (m_blobs m) = 2 ^ c * nat (blob_stride (m_conf m))
     \<and> nat (blob_size (m_conf m)) \<le> nat (blob_stride (m_conf m)) \<and> valid_states (m_states m)"

definition slots_ok :: "('k, 'v, 'r, 'l, 'm, 'q) map_params \<Rightarrow> ('k, 'v) map_state \<Rightarrow> bool" where
  "slots_ok P m \<longleftrightarrow> (\<forall>pos \<in> occupied m.
     m_states m ! pos = pm_state P (pm_hash P (key_at m pos)) \<and>
     placed P (m_bucket_mask m) (m_states m) (pm_hash P (key_at m pos)) (pos div ksize P * ksize P))"

definition keys_ok :: "('k, 'v, 'r, 'l, 'm, 'q) map_params \<Rightarrow> ('k, 'v) map_state \<Rightarrow> bool" where
  "keys_ok P m \<longleftrightarrow> has_duplicates P \<or> inj_on (key_at m) (occupied m)"

definition counters_ok :: "('k, 'v) map_state \<Rightarrow> bool" where
  "counters_ok m \<longleftrightarrow> m_num_empty m = count_states empty_state (m_states m)
     \<and> m_num_tombstone m = count_states tombstone_state (m_states m)"

definition map_inv :: "('k, 'v, 'r, 'l, 'm, 'q) map_params \<Rightarrow> ('k, 'v) map_state \<Rightarrow> bool" where
  "map_inv P m \<longleftrightarrow> (\<exists>c. shape_ok P c m \<and> conf_ok (kbits P) (m_conf m) \<and> min_capacity (m_conf m) \<le> 2 ^ c
       \<and> m_grow_threshold m = grow_threshold (m_conf m) (2 ^ c))
     \<and> unmixed P (m_states m) \<and> slots_ok P m \<and> keys_ok P m \<and> counters_ok m \<and> 1 \<le> m_num_empty m"

lemma find_SomeD: "List.find Q xs = Some x \<Longrightarrow> x \<in> set xs \<and> Q x"
  by (auto simp: find_Some_iff)

lemma occupied_bound: "pos \<in> occupied m \<Longrightarrow> pos < length (m_states m)"
  by (simp add: occupied_def)

lemma finite_occupied [simp]: "finite (occupied m)"
  by (simp add: occupied_def)

lemma count_states_pos: "1 \<le> count_states s xs \<longleftrightarrow> s \<in> set xs"
proof -
  have "1 \<le> count_states s xs \<longleftrightarrow> filter (\<lambda>x. x = s) xs \<noteq> []"
    unfolding count_states_def by (cases "filter (\<lambda>x. x = s) xs") simp_all
  then show ?thesis by (auto simp: filter_empty_conv)
qed

lemma count_states_0: "count_states s xs = 0 \<longleftrightarrow> s \<notin> set xs"
  by (auto simp: count_states_def filter_empty_conv)

lemma count_states_nonneg [simp]: "0 \<le> count_states s xs"
  by (simp add: count_states_def)

lemma count_states_update:
  assumes "i < length xs"
  shows "count_states s (xs[i := t]) = count_states s xs - of_bool (xs ! i = s) + of_bool (t = s)"
proof -
  have "xs = take i xs @ xs ! i # drop (Suc i) xs" using assms by (rule id_take_nth_drop)
  then have "filter (\<lambda>x. x = s) xs = filter (\<lambda>x. x = s) (take i xs @ xs ! i # drop (Suc i) xs)" by (rule arg_cong)
  then have "count_states s xs = int (length (filter (\<lambda>x. x = s) (take i xs @ xs ! i # drop (Suc i) xs)))"
    by (simp only: count_states_def)
  then show ?thesis by (simp add: count_states_def upd_conv_take_nth_drop [OF assms])
qed

text \<open>Occupied slots, empty slots and tombstones make up the whole table.\<close>

lemma card_occupied:
  assumes "valid_states (m_states m)"
  shows "int (card (occupied m)) = int (length (m_states m))
    - count_states empty_state (m_states m) - count_states tombstone_state (m_states m)"
proof -
  have "length (filter is_hash xs) + length (filter (\<lambda>x. x = empty_state) xs)
      + length (filter (\<lambda>x. x = tombstone_state) xs) = length xs" if "valid_states xs" for xs
    using that by (induction xs) (auto simp: valid_states_def valid_state_def)
  moreover have "card (occupied m) = length (filter is_hash (m_states m))"
    by (simp add: occupied_def length_filter_conv_card)
  ultimately have "card (occupied m) + length (filter (\<lambda>x. x = empty_state) (m_states m))
      + length (filter (\<lambda>x. x = tombstone_state) (m_states m)) = length (m_states m)" using assms by simp
  then show ?thesis unfolding count_states_def by linarith
qed

section \<open>Buckets and probing\<close>

locale swiss_map = swiss_kernel "pm_kernel P" ok slots + probe_laws "pm_seq P" "kbits P"
  for P :: "('k, 'v, 'r, 'l, 'm, 'q) map_params" and ok :: "'m \<Rightarrow> bool" and slots :: "'m \<Rightarrow> nat set" +
  assumes size_power: "ksize P = 2 ^ kbits P"
begin

lemma ksize_pos [simp]: "0 < ksize P"
  using size_pos by (simp add: ksize_def)

lemma kn_size: "kn_size (pm_kernel P) = ksize P"
  by (simp add: ksize_def)

lemma load_bucket: "load_bucket P states off = kn_load (pm_kernel P) (bucket P states off)"
  by (simp add: load_bucket_def bucket_def)

lemma length_bucket:
  assumes "b < length states div ksize P"
  shows "length (bucket P states (b * ksize P)) = ksize P"
proof -
  have "Suc b * ksize P \<le> length states div ksize P * ksize P" using assms by (intro mult_right_mono) simp_all
  also have "\<dots> \<le> length states" by simp
  finally show ?thesis by (simp add: bucket_def)
qed

lemma nth_bucket: "off + i < length states \<Longrightarrow> i < ksize P \<Longrightarrow> bucket P states off ! i = states ! (off + i)"
  by (simp add: bucket_def)

lemma set_bucket: "set (bucket P states off) \<subseteq> set states"
  unfolding bucket_def by (meson dual_order.trans set_drop_subset set_take_subset)

lemma valid_bucket: "valid_states states \<Longrightarrow> valid_states (bucket P states off)"
  using set_bucket by (auto simp: valid_states_def list_all_iff)

lemma in_bucket_conv:
  assumes "off + ksize P \<le> length states"
  shows "x \<in> set (bucket P states off) \<longleftrightarrow> (\<exists>i<ksize P. states ! (off + i) = x)"
proof -
  have l: "length (bucket P states off) = ksize P" using assms by (simp add: bucket_def)
  have "bucket P states off ! i = states ! (off + i)" if "i < ksize P" for i
    using that assms by (simp add: nth_bucket)
  then show ?thesis unfolding in_set_conv_nth l by auto
qed

text \<open>The buckets of a table of capacity \<open>2 ^ c\<close>, in the order a hash probes them.\<close>

lemma num_buckets:
  assumes "kbits P \<le> c"
  shows "2 ^ c div ksize P = 2 ^ (c - kbits P)"
  using assms by (simp add: size_power power_diff)

lemma probe_off_bucket_at:
  "probe_off P (make_aligned_mask (2 ^ c) (2 ^ kbits P)) h i
    = bucket_at c (hash_to_pos (pm_layout P) (kbits P) h) i"
  by (simp add: probe_off_def seq_at_def bucket_at_def align_pos_def)

lemma probe_off_bij:
  assumes "kbits P \<le> c" and "c \<le> 62"
  shows "bij_betw (probe_off P (make_aligned_mask (2 ^ c) (2 ^ kbits P)) h) {..<2 ^ c div ksize P}
    ((\<lambda>b. b * ksize P) ` {..<2 ^ c div ksize P})"
proof -
  have "(\<lambda>j. 2 ^ kbits P * j) ` {..<2 ^ (c - kbits P)} = (\<lambda>b. b * ksize P) ` {..<2 ^ (c - kbits P)}"
    by (simp add: size_power mult.commute)
  moreover have "probe_off P (make_aligned_mask (2 ^ c) (2 ^ kbits P)) h
      = bucket_at c (hash_to_pos (pm_layout P) (kbits P) h)" by (rule ext) (rule probe_off_bucket_at)
  ultimately show ?thesis
    using all_buckets [OF assms(1), of "hash_to_pos (pm_layout P) (kbits P) h"] assms(2)
    by (simp add: num_buckets [OF assms(1)])
qed

lemma probe_off_form:
  assumes "kbits P \<le> c" and "c \<le> 62"
  obtains b where "b < 2 ^ c div ksize P" and "probe_off P (make_aligned_mask (2 ^ c) (2 ^ kbits P)) h i = b * ksize P"
proof -
  have "bucket_at c (hash_to_pos (pm_layout P) (kbits P) h) i \<in> (\<lambda>j. 2 ^ kbits P * j) ` {..<2 ^ (c - kbits P)}"
    using assms by (intro bucket_at_form) simp_all
  then show ?thesis
    using that by (auto simp: probe_off_bucket_at size_power power_diff [OF _ assms(1)] mult.commute)
qed

lemma probe_off_reaches:
  assumes "kbits P \<le> c" and "c \<le> 62" and "b < 2 ^ c div ksize P"
  obtains i where "i < 2 ^ c div ksize P" and "probe_off P (make_aligned_mask (2 ^ c) (2 ^ kbits P)) h i = b * ksize P"
proof -
  have "b * ksize P \<in> probe_off P (make_aligned_mask (2 ^ c) (2 ^ kbits P)) h ` {..<2 ^ c div ksize P}"
    unfolding bij_betw_imp_surj_on [OF probe_off_bij [OF assms(1,2), of h]] using assms(3) by (intro imageI) simp
  then show ?thesis using that by auto
qed

lemma seq_at_Suc: "pq_add (pm_seq P) (int (ksize P)) (seq_at P h i) = seq_at P h (Suc i)"
  by (simp add: seq_at_def probe_iter_Suc size_power)

text \<open>A probe loop whose body continues \<open>n\<close> times and then leaves.\<close>

lemma probe_scan:
  assumes "\<And>i. i < n \<Longrightarrow> body (probe_off P bm h i) (seq_at P h i) (S i) = Inl (S (Suc i))"
    and "body (probe_off P bm h n) (seq_at P h n) (S n) = Inr r"
  shows "probe P bm h body (S 0) = Some (seq_at P h n, Inr r)"
proof -
  have "probe_loop (pm_seq P) (int (ksize P)) bm body (seq_at P h (n - j)) (S (n - j)) = Some (seq_at P h n, Inr r)"
    if "j \<le> n" for j
    using that
  proof (induction j)
    case 0
    then show ?case
      using assms(2) by (subst probe_loop.simps) (simp add: unbounded probe_off_def)
  next
    case (Suc j)
    have i: "n - Suc j < n" "Suc (n - Suc j) = n - j" using Suc.prems by simp_all
    have "body (probe_off P bm h (n - Suc j)) (seq_at P h (n - Suc j)) (S (n - Suc j)) = Inl (S (n - j))"
      using assms(1) [OF i(1)] unfolding i(2) .
    then show ?case
      using Suc.IH Suc.prems i(2)
      by (subst probe_loop.simps) (simp add: unbounded probe_off_def seq_at_Suc)
  qed
  from this [of n] show ?thesis by (simp add: probe_def seq_at_def)
qed

text \<open>A loop without variables leaves at the first bucket where its body does.\<close>

lemma probe_first:
  assumes "body (probe_off P bm h i) (seq_at P h i) () = Inr r0"
  obtains n r where "n \<le> i" and "probe P bm h body () = Some (seq_at P h n, Inr r)"
    and "body (probe_off P bm h n) (seq_at P h n) () = Inr r"
    and "\<And>j. j < n \<Longrightarrow> body (probe_off P bm h j) (seq_at P h j) () = Inl ()"
proof -
  let ?Q = "\<lambda>i. \<exists>r. body (probe_off P bm h i) (seq_at P h i) () = Inr r"
  define n where "n = (LEAST i. ?Q i)"
  have q: "?Q i" using assms by blast
  have "?Q n" unfolding n_def using q by (rule LeastI)
  then obtain r where r: "body (probe_off P bm h n) (seq_at P h n) () = Inr r" by blast
  have le: "n \<le> i" unfolding n_def using q by (rule Least_le)
  have before: "body (probe_off P bm h j) (seq_at P h j) () = Inl ()" if "j < n" for j
  proof (cases "body (probe_off P bm h j) (seq_at P h j) ()")
    case (Inr r')
    then have "?Q j" by blast
    then have "n \<le> j" unfolding n_def by (rule Least_le)
    then show ?thesis using that by simp
  qed simp
  have "probe P bm h body () = Some (seq_at P h n, Inr r)"
    using probe_scan [where S = "\<lambda>_. ()" and body = body and n = n and r = r, OF before r] by simp
  then show ?thesis using that le r before by blast
qed

section \<open>Positions, buckets and masks of a well-formed table\<close>

lemma shape_buckets:
  assumes "shape_ok P c m"
  shows "length (m_states m) = 2 ^ c" and "length (m_states m) div ksize P * ksize P = length (m_states m)"
    and "m_bucket_mask m = make_aligned_mask (2 ^ c) (2 ^ kbits P)" and "kbits P \<le> c" and "c \<le> 62"
    and "valid_states (m_states m)" and "0 < length (m_states m) div ksize P"
proof -
  show c: "kbits P \<le> c" "c \<le> 62" and l: "length (m_states m) = 2 ^ c"
    and "m_bucket_mask m = make_aligned_mask (2 ^ c) (2 ^ kbits P)" and "valid_states (m_states m)"
    using assms by (simp_all add: shape_ok_def)
  show "length (m_states m) div ksize P * ksize P = length (m_states m)"
    using c by (simp add: l size_power flip: power_add power_diff)
  show "0 < length (m_states m) div ksize P" by (simp add: l num_buckets [OF c(1)])
qed

lemma capacity_shape:
  assumes "shape_ok P c m"
  shows "capacity P m = 2 ^ c"
  using aligned_mask_to_capacity_inverse [of "kbits P" c] assms
  by (simp add: capacity_def shape_ok_def size_power)

lemma pos_bucket:
  assumes "shape_ok P c m" and "pos < length (m_states m)"
  shows "pos div ksize P < length (m_states m) div ksize P"
  using assms(2) shape_buckets(2) [OF assms(1)] by (metis ksize_pos div_less_iff_less_mult)

lemma bucket_end:
  assumes "shape_ok P c m" and "b < length (m_states m) div ksize P"
  shows "b * ksize P + ksize P \<le> length (m_states m)"
proof -
  have "Suc b * ksize P \<le> length (m_states m) div ksize P * ksize P" using assms(2) by (intro mult_right_mono) simp_all
  then show ?thesis using shape_buckets(2) [OF assms(1)] by simp
qed

lemma probe_off_bucket:
  assumes "shape_ok P c m"
  obtains b where "b < length (m_states m) div ksize P" and "probe_off P (m_bucket_mask m) h i = b * ksize P"
  using probe_off_form [of c h i] shape_buckets [OF assms] by metis

lemma bucket_of_pos:
  assumes "shape_ok P c m" and "i < ksize P" and "b < length (m_states m) div ksize P"
  shows "(b * ksize P + i) div ksize P * ksize P = b * ksize P" and "b * ksize P + i < length (m_states m)"
  using assms(2) bucket_end [OF assms(1,3)] by simp_all

text \<open>The slots a mask over a bucket of the table visits.\<close>

lemma match_walk:
  assumes "shape_ok P c m" and "b < length (m_states m) div ksize P" and "is_hash s"
  shows "set (walk P (kn_mask (pm_kernel P) (load_bucket P (m_states m) (b * ksize P)) s))
      \<subseteq> {i. i < ksize P \<and> is_hash (m_states m ! (b * ksize P + i))}"
    and "{i. i < ksize P \<and> m_states m ! (b * ksize P + i) = s}
      \<subseteq> set (walk P (kn_mask (pm_kernel P) (load_bucket P (m_states m) (b * ksize P)) s))"
proof -
  let ?B = "bucket P (m_states m) (b * ksize P)"
  have l: "length ?B = kn_size (pm_kernel P)" by (simp add: length_bucket [OF assms(2)] kn_size)
  have n: "?B ! i = m_states m ! (b * ksize P + i)" if "i < ksize P" for i
    using bucket_end [OF assms(1,2)] that by (intro nth_bucket) simp_all
  show "set (walk P (kn_mask (pm_kernel P) (load_bucket P (m_states m) (b * ksize P)) s))
      \<subseteq> {i. i < ksize P \<and> is_hash (m_states m ! (b * ksize P + i))}"
  proof
    fix i assume "i \<in> set (walk P (kn_mask (pm_kernel P) (load_bucket P (m_states m) (b * ksize P)) s))"
    then show "i \<in> {i. i < ksize P \<and> is_hash (m_states m ! (b * ksize P + i))}"
      using match_indices_hash [OF l assms(3), of i] n [of i] by (simp add: walk_def load_bucket kn_size)
  qed
  show "{i. i < ksize P \<and> m_states m ! (b * ksize P + i) = s}
      \<subseteq> set (walk P (kn_mask (pm_kernel P) (load_bucket P (m_states m) (b * ksize P)) s))"
  proof
    fix i assume "i \<in> {i. i < ksize P \<and> m_states m ! (b * ksize P + i) = s}"
    then show "i \<in> set (walk P (kn_mask (pm_kernel P) (load_bucket P (m_states m) (b * ksize P)) s))"
      using match_indices_complete [OF l assms(3), of i] n [of i] by (simp add: walk_def load_bucket kn_size)
  qed
qed

lemma has_empty_bucket:
  assumes "shape_ok P c m" and "b < length (m_states m) div ksize P"
  shows "kn_has_empty (pm_kernel P) (load_bucket P (m_states m) (b * ksize P))
    \<longleftrightarrow> empty_state \<in> set (bucket P (m_states m) (b * ksize P))"
  using has_empty_iff [of "bucket P (m_states m) (b * ksize P)"] length_bucket [OF assms(2)]
    valid_bucket [OF shape_buckets(6) [OF assms(1)]]
  by (simp add: load_bucket kn_size)

lemma hash_walk:
  assumes "shape_ok P c m" and "b < length (m_states m) div ksize P"
  shows "set (walk P (kn_mask_hash (pm_kernel P) (load_bucket P (m_states m) (b * ksize P))))
    = {i. i < ksize P \<and> is_hash (m_states m ! (b * ksize P + i))}"
proof -
  let ?B = "bucket P (m_states m) (b * ksize P)"
  have l: "length ?B = kn_size (pm_kernel P)" by (simp add: length_bucket [OF assms(2)] kn_size)
  have n: "?B ! i = m_states m ! (b * ksize P + i)" if "i < ksize P" for i
    using bucket_end [OF assms(1,2)] that by (intro nth_bucket) simp_all
  show ?thesis using hash_indices [OF l] n l by (auto simp: walk_def load_bucket slots_with_def kn_size)
qed

lemma bucket_offs_shape:
  assumes "shape_ok P c m"
  shows "bucket_offs P (2 ^ c) = map (\<lambda>b. b * ksize P) [0..<length (m_states m) div ksize P]"
proof -
  have "(2 ^ c + int (ksize P) - 1) div int (ksize P) = 2 ^ (c - kbits P)"
  proof -
    have "(2 :: int) ^ c = 2 ^ (c - kbits P) * int (ksize P)"
      using shape_buckets(4) [OF assms] by (simp add: size_power flip: power_add)
    then have "(2 ^ c + int (ksize P) - 1) div int (ksize P)
        = (int (ksize P) - 1 + 2 ^ (c - kbits P) * int (ksize P)) div int (ksize P)" by (simp add: algebra_simps)
    also have "\<dots> = 2 ^ (c - kbits P)" using ksize_pos by (subst div_mult_self1) simp_all
    finally show ?thesis .
  qed
  moreover have "length (m_states m) div ksize P = 2 ^ (c - kbits P)"
    using shape_buckets [OF assms] by (simp add: num_buckets)
  ultimately show ?thesis by (simp add: bucket_offs_def nat_power_eq)
qed

lemma hash_positions_set:
  assumes "shape_ok P c m"
  shows "set (hash_positions P (m_states m) (2 ^ c)) = occupied m" and "distinct (hash_positions P (m_states m) (2 ^ c))"
proof -
  let ?n = "length (m_states m) div ksize P"
  let ?w = "\<lambda>b. map (\<lambda>i. b * ksize P + i) (walk P (kn_mask_hash (pm_kernel P) (load_bucket P (m_states m) (b * ksize P))))"
  have hp: "hash_positions P (m_states m) (2 ^ c) = concat (map ?w [0..<?n])"
    by (simp add: hash_positions_def bucket_offs_shape [OF assms] comp_def)
  have w: "set (?w b) = {pos. pos div ksize P = b \<and> pos \<in> occupied m}" if "b < ?n" for b
  proof -
    have "(\<lambda>i. b * ksize P + i) ` {i. i < ksize P \<and> is_hash (m_states m ! (b * ksize P + i))}
        = {pos. pos div ksize P = b \<and> pos \<in> occupied m}"
    proof (intro set_eqI iffI)
      fix pos assume "pos \<in> {pos. pos div ksize P = b \<and> pos \<in> occupied m}"
      then have "pos = b * ksize P + pos mod ksize P" "is_hash (m_states m ! pos)"
        by (auto simp: occupied_def)
      then show "pos \<in> (\<lambda>i. b * ksize P + i) ` {i. i < ksize P \<and> is_hash (m_states m ! (b * ksize P + i))}"
        by (intro image_eqI [of _ _ "pos mod ksize P"]) simp_all
    qed (use bucket_of_pos [OF assms _ that] in \<open>auto simp: occupied_def\<close>)
    then show ?thesis by (simp only: set_map hash_walk [OF assms that])
  qed
  show "set (hash_positions P (m_states m) (2 ^ c)) = occupied m"
  proof -
    have "set (hash_positions P (m_states m) (2 ^ c)) = (\<Union>b\<in>{..<?n}. set (?w b))" by (auto simp: hp)
    also have "\<dots> = (\<Union>b\<in>{..<?n}. {pos. pos div ksize P = b \<and> pos \<in> occupied m})" using w by (intro SUP_cong) auto
    also have "\<dots> = occupied m" using pos_bucket [OF assms] by (auto simp: occupied_def)
    finally show ?thesis .
  qed
  show "distinct (hash_positions P (m_states m) (2 ^ c))"
    unfolding hp distinct_concat_iff
  proof (intro conjI allI impI; (elim conjE)?)
    have dist: "distinct (?w b)" if "b < ?n" for b
    proof -
      have "ok (kn_mask_hash (pm_kernel P) (load_bucket P (m_states m) (b * ksize P)))"
        unfolding load_bucket by (rule mask_hash_ok) (simp add: length_bucket [OF that] kn_size)
      then show ?thesis by (simp add: walk_def distinct_map inj_on_def distinct_indices)
    qed
    then show "distinct xs" if "xs \<in> set (map ?w [0..<?n])" for xs using that by auto
    show "set xs \<inter> set ys = {}" if xs: "xs \<in> set (map ?w [0..<?n])" and ys: "ys \<in> set (map ?w [0..<?n])" and ne: "xs \<noteq> ys" for xs ys
    proof -
      obtain a b where ab: "xs = ?w a" "ys = ?w b" "a < ?n" "b < ?n" using xs ys by auto
      then have "a \<noteq> b" using ne by auto
      then show ?thesis unfolding ab(1,2) w [OF ab(3)] w [OF ab(4)] by auto
    qed
    show "distinct (removeAll [] (map ?w [0..<?n]))"
    proof -
      have "inj_on ?w {b. b < ?n \<and> ?w b \<noteq> []}"
      proof (rule inj_onI)
        fix a b assume a: "a \<in> {b. b < ?n \<and> ?w b \<noteq> []}" and b: "b \<in> {b. b < ?n \<and> ?w b \<noteq> []}" and e: "?w a = ?w b"
        then obtain x where x: "x \<in> set (?w a)" by (metis (mono_tags, lifting) list.set_sel(1) mem_Collect_eq)
        have "x \<in> {pos. pos div ksize P = a \<and> pos \<in> occupied m}" using x w [of a] a by blast
        moreover have "x \<in> {pos. pos div ksize P = b \<and> pos \<in> occupied m}" using x [unfolded e] w [of b] b by blast
        ultimately show "a = b" by simp
      qed
      then show ?thesis
        by (simp add: removeAll_filter_not_eq filter_map distinct_map comp_def)
    qed
  qed
qed

end

end
