(* ===== verification/MapFind.thy ===== *)
theory MapFind
  imports MapInv
begin

text \<open>
  Lookup: in a well-formed table a search returns after finitely many buckets, with a position
  that holds the key, or with none when no occupied slot holds it.
\<close>

context swiss_map
begin

lemma empty_reached:
  assumes "shape_ok P c m" and "empty_state \<in> set (m_states m)"
  obtains i where "i < length (m_states m) div ksize P"
    and "empty_state \<in> set (bucket P (m_states m) (probe_off P (m_bucket_mask m) h i))"
proof -
  obtain pos where pos: "pos < length (m_states m)" "m_states m ! pos = empty_state"
    using assms(2) by (auto simp: in_set_conv_nth)
  note sh = shape_buckets [OF assms(1)]
  let ?b = "pos div ksize P"
  have b: "?b < length (m_states m) div ksize P" by (rule pos_bucket [OF assms(1) pos(1)])
  obtain i where i: "i < length (m_states m) div ksize P" "probe_off P (m_bucket_mask m) h i = ?b * ksize P"
    using probe_off_reaches [of c ?b h] b sh by metis
  have "empty_state \<in> set (bucket P (m_states m) (?b * ksize P))"
    unfolding in_bucket_conv [OF bucket_end [OF assms(1) b]]
    using pos by (intro exI [of _ "pos mod ksize P"]) simp
  then show ?thesis using that [OF i(1)] by (simp add: i(2))
qed

lemma find_in_bucket_Some:
  assumes "shape_ok P c m" and "b < length (m_states m) div ksize P" and "is_hash s"
    and "find_in_bucket P (m_keys m) key (load_bucket P (m_states m) (b * ksize P)) s (b * ksize P) = Some pos"
  shows "pos \<in> occupied m" and "key_at m pos = key" and "pos div ksize P = b"
proof -
  obtain i where i: "i \<in> set (walk P (kn_mask (pm_kernel P) (load_bucket P (m_states m) (b * ksize P)) s))"
    "pos = b * ksize P + i" "m_keys m ! pos = key"
    using find_SomeD [OF assms(4) [unfolded find_in_bucket_def find_in_mask_def]] by auto
  then have "i < ksize P" "is_hash (m_states m ! pos)" using match_walk(1) [OF assms(1-3)] by auto
  then show "pos \<in> occupied m" "key_at m pos = key" "pos div ksize P = b"
    using i bucket_of_pos [OF assms(1) _ assms(2), of i] by (simp_all add: occupied_def key_at_def)
qed

lemma find_in_bucket_None:
  assumes "shape_ok P c m" and "b < length (m_states m) div ksize P" and "is_hash s"
    and "find_in_bucket P (m_keys m) key (load_bucket P (m_states m) (b * ksize P)) s (b * ksize P) = None"
    and "pos div ksize P = b" and "m_states m ! pos = s"
  shows "key_at m pos \<noteq> key"
proof -
  have p: "pos = b * ksize P + pos mod ksize P" using assms(5) by auto
  then have "pos mod ksize P \<in> set (walk P (kn_mask (pm_kernel P) (load_bucket P (m_states m) (b * ksize P)) s))"
    using match_walk(2) [OF assms(1-3)] assms(6) by auto
  then show ?thesis
    using assms(4) p by (auto simp: find_in_bucket_def find_in_mask_def find_None_iff key_at_def)
qed

text \<open>An entry is found no later than its bucket, as no bucket before it has an empty slot.\<close>

lemma find_probe_ok:
  assumes sh: "shape_ok P c m" and sl: "slots_ok P m" and e: "empty_state \<in> set (m_states m)"
    and h: "h = pm_hash P key"
  obtains (found) n pos where "find_probe P key h m
      = Some (Some (pos, empty_state \<in> set (bucket P (m_states m) (pos div ksize P * ksize P))), seq_at P h n)"
      and "pos \<in> occupied m" and "key_at m pos = key"
      and "probe_off P (m_bucket_mask m) h n = pos div ksize P * ksize P"
  | (absent) n where "find_probe P key h m = Some (None, seq_at P h n)" and "\<And>pos. pos \<in> occupied m \<Longrightarrow> key_at m pos \<noteq> key"
      and "empty_state \<in> set (bucket P (m_states m) (probe_off P (m_bucket_mask m) h n))"
      and "\<And>j. j < n \<Longrightarrow> empty_state \<notin> set (bucket P (m_states m) (probe_off P (m_bucket_mask m) h j))"
proof -
  let ?s = "pm_state P h"
  let ?body = "find_body P m key ?s  :: nat \<Rightarrow> 'q \<Rightarrow> unit \<Rightarrow> unit + (nat \<times> bool) option"
  let ?off = "probe_off P (m_bucket_mask m) h"
  have s: "is_hash ?s" by (simp add: pm_state_def)
  obtain i where i: "empty_state \<in> set (bucket P (m_states m) (?off i))" using empty_reached [OF sh e] by blast
  have body: "?body (?off j) q () = (case find_in_bucket P (m_keys m) key (load_bucket P (m_states m) (?off j)) ?s (?off j) of
       Some pos \<Rightarrow> Inr (Some (pos, empty_state \<in> set (bucket P (m_states m) (?off j))))
     | None \<Rightarrow> if empty_state \<in> set (bucket P (m_states m) (?off j)) then Inr None else Inl ())" for j q
  proof -
    obtain b where "b < length (m_states m) div ksize P" "?off j = b * ksize P" by (rule probe_off_bucket [OF sh])
    then show ?thesis by (simp add: find_body_def Let_def has_empty_bucket [OF sh] split: option.split)
  qed
  obtain r0 where "?body (?off i) (seq_at P h i) () = Inr r0"
    using i by (cases "find_in_bucket P (m_keys m) key (load_bucket P (m_states m) (?off i)) ?s (?off i)") (auto simp: body)
  then obtain n r where n: "probe P (m_bucket_mask m) h ?body () = Some (seq_at P h n, Inr r)"
    "?body (?off n) (seq_at P h n) () = Inr r" "\<And>j. j < n \<Longrightarrow> ?body (?off j) (seq_at P h j) () = Inl ()"
    by (rule probe_first [where bm = "m_bucket_mask m"]) blast
  have fp: "find_probe P key h m = Some (r, seq_at P h n)" by (simp add: find_probe_def n(1))
  obtain b where b: "b < length (m_states m) div ksize P" "?off n = b * ksize P" by (rule probe_off_bucket [OF sh])
  show ?thesis
  proof (cases r)
    case (Some x)
    then obtain pos where f: "find_in_bucket P (m_keys m) key (load_bucket P (m_states m) (?off n)) ?s (?off n) = Some pos"
      and x: "x = (pos, empty_state \<in> set (bucket P (m_states m) (?off n)))"
      using n(2) by (auto simp: body split: option.splits if_splits)
    note f' = find_in_bucket_Some [OF sh b(1) s f [unfolded b(2)]]
    show ?thesis using found [of pos n] fp f' b(2) Some x by simp
  next
    case None
    have e': "empty_state \<in> set (bucket P (m_states m) (?off n))"
      and fn: "find_in_bucket P (m_keys m) key (load_bucket P (m_states m) (?off n)) ?s (?off n) = None"
      using n(2) None by (auto simp: body split: option.splits if_splits)
    have pre: "find_in_bucket P (m_keys m) key (load_bucket P (m_states m) (?off j)) ?s (?off j) = None
        \<and> empty_state \<notin> set (bucket P (m_states m) (?off j))" if "j < n" for j
      using n(3) [OF that] by (auto simp: body split: option.splits if_splits)
    have "key_at m pos \<noteq> key" if pos: "pos \<in> occupied m" for pos
    proof
      assume k: "key_at m pos = key"
      have st: "m_states m ! pos = ?s" and "placed P (m_bucket_mask m) (m_states m) h (pos div ksize P * ksize P)"
        using sl pos k h by (auto simp: slots_ok_def)
      then obtain l where l: "?off l = pos div ksize P * ksize P" "\<And>j. j < l \<Longrightarrow> empty_state \<notin> set (bucket P (m_states m) (?off j))"
        by (auto simp: placed_def)
      have "l \<le> n" using l(2) e' by (meson not_le_imp_less)
      then have "find_in_bucket P (m_keys m) key (load_bucket P (m_states m) (?off l)) ?s (?off l) = None"
        using pre fn by (cases "l = n") simp_all
      then show False
        using find_in_bucket_None [OF sh _ s, of "pos div ksize P" key pos] st k l(1)
          pos_bucket [OF sh occupied_bound [OF pos]] by simp
    qed
    then show ?thesis using absent [of n] fp None e' pre by blast
  qed
qed

end

end
