(* ===== verification/MapSlots.thy ===== *)
theory MapSlots
  imports MapFind
begin

text \<open>
  What filling, freeing and moving one slot does to a table: to the other slots' entries (the
  blobs share one array), to the occupied set, to the counters, and to the placement of the
  entries, which only depends on which buckets have an empty slot.
\<close>

section \<open>The arrays\<close>

lemma length_memcpy [simp]: "off + length src \<le> length dst \<Longrightarrow> length (memcpy dst off src) = length dst"
  by (simp add: memcpy_def)

lemma nth_memcpy:
  assumes "off + length src \<le> length dst" and "i < length dst"
  shows "memcpy dst off src ! i = (if off \<le> i \<and> i < off + length src then src ! (i - off) else dst ! i)"
  using assms by (auto simp: memcpy_def nth_append min_def)

lemma slice_nth: "j < n \<Longrightarrow> off + n \<le> length xs \<Longrightarrow> take n (drop off xs) ! j = xs ! (off + j)"
  by simp

lemma slice_memcpy_same:
  assumes "off + length src \<le> length dst"
  shows "take (length src) (drop off (memcpy dst off src)) = src"
  using assms by (simp add: memcpy_def)

lemma slice_memcpy_other:
  assumes "p \<noteq> (q :: nat)" and "sz \<le> st" and "length src = sz" and "p < n" and "q < n" and "length dst = n * st"
  shows "take sz (drop (q * st) (memcpy dst (p * st) src)) = take sz (drop (q * st) dst)"
proof -
  have end1: "x * st + sz \<le> length dst" if "x < n" for x
  proof -
    have "Suc x * st \<le> n * st" using that by (intro mult_right_mono) simp_all
    then show ?thesis using assms(2,6) by simp
  qed
  have apart: "p * st + sz \<le> q * st \<or> q * st + sz \<le> p * st"
  proof (cases "p < q")
    case True
    then have "Suc p * st \<le> q * st" by (intro mult_right_mono) simp_all
    then show ?thesis using assms(2) by simp
  next
    case False
    then have "Suc q * st \<le> p * st" using assms(1) by (intro mult_right_mono) simp_all
    then show ?thesis using assms(2) by simp
  qed
  have len: "length (memcpy dst (p * st) src) = length dst" using end1 [OF assms(4)] assms(3) by simp
  show ?thesis
  proof (rule nth_equalityI)
    show "length (take sz (drop (q * st) (memcpy dst (p * st) src))) = length (take sz (drop (q * st) dst))"
      by (simp add: len)
    fix j assume "j < length (take sz (drop (q * st) (memcpy dst (p * st) src)))"
    then have j: "j < sz" by simp
    have b: "q * st + j < length dst" using end1 [OF assms(5)] j by simp
    have "take sz (drop (q * st) (memcpy dst (p * st) src)) ! j = memcpy dst (p * st) src ! (q * st + j)"
      using j end1 [OF assms(5)] len by (intro slice_nth) simp_all
    also have "\<dots> = dst ! (q * st + j)"
      using apart j end1 [OF assms(4)] assms(3) b by (subst nth_memcpy) auto
    also have "\<dots> = take sz (drop (q * st) dst) ! j"
      using j end1 [OF assms(5)] by (intro slice_nth [symmetric]) simp_all
    finally show "take sz (drop (q * st) (memcpy dst (p * st) src)) ! j = take sz (drop (q * st) dst) ! j" .
  qed
qed

lemma length_blob_at:
  assumes "shape_ok P c m" and "pos < length (m_states m)"
  shows "length (blob_at m pos) = nat (blob_size (m_conf m))"
    and "pos * nat (blob_stride (m_conf m)) + nat (blob_size (m_conf m)) \<le> length (m_blobs m)"
proof -
  have "Suc pos * nat (blob_stride (m_conf m)) \<le> 2 ^ c * nat (blob_stride (m_conf m))"
    using assms by (intro mult_right_mono) (simp_all add: shape_ok_def)
  then show le: "pos * nat (blob_stride (m_conf m)) + nat (blob_size (m_conf m)) \<le> length (m_blobs m)"
    using assms by (simp add: shape_ok_def)
  then show "length (blob_at m pos) = nat (blob_size (m_conf m))" by (simp add: blob_at_def)
qed

text \<open>Copying an entry into a slot leaves all other slots as they are.\<close>

lemma copy_entry_conf [simp]:
  "m_conf (copy_entry src from pos m) = m_conf m" "m_states (copy_entry src from pos m) = m_states m"
  "m_bucket_mask (copy_entry src from pos m) = m_bucket_mask m"
  "m_grow_threshold (copy_entry src from pos m) = m_grow_threshold m"
  "m_num_empty (copy_entry src from pos m) = m_num_empty m"
  "m_num_tombstone (copy_entry src from pos m) = m_num_tombstone m"
  by (simp_all add: copy_entry_def)

lemma set_state_simps [simp]:
  "m_conf (set_state pos s m) = m_conf m" "m_states (set_state pos s m) = (m_states m)[pos := s]"
  "m_bucket_mask (set_state pos s m) = m_bucket_mask m" "m_keys (set_state pos s m) = m_keys m"
  "m_values (set_state pos s m) = m_values m" "m_blobs (set_state pos s m) = m_blobs m"
  "m_grow_threshold (set_state pos s m) = m_grow_threshold m"
  "m_num_empty (set_state pos s m) = m_num_empty m" "m_num_tombstone (set_state pos s m) = m_num_tombstone m"
  by (simp_all add: set_state_def)

lemma entry_at_set_state [simp]: "entry_at (set_state pos s m) q = entry_at m q" "key_at (set_state pos s m) q = key_at m q"
  by (simp_all add: entry_at_def key_at_def value_at_def blob_at_def)

lemma copy_entry_at:
  assumes "shape_ok P c m" and "shape_ok P d src" and "m_conf m = m_conf src"
    and "pos < length (m_states m)" and "from < length (m_states src)" and "q < length (m_states m)"
  shows "entry_at (copy_entry src from pos m) q = (if q = pos then entry_at src from else entry_at m q)"
proof -
  note lb = length_blob_at [OF assms(2,5)] length_blob_at [OF assms(1,4)]
  have k: "length (m_keys m) = length (m_states m)" "length (m_values m) = length (m_states m)"
    "length (m_blobs m) = length (m_states m) * nat (blob_stride (m_conf m))"
    "nat (blob_size (m_conf m)) \<le> nat (blob_stride (m_conf m))"
    using assms(1) by (simp_all add: shape_ok_def)
  show ?thesis
  proof (cases "q = pos")
    case True
    have "take (nat (blob_size (m_conf m))) (drop (pos * nat (blob_stride (m_conf m)))
        (memcpy (m_blobs m) (pos * nat (blob_stride (m_conf m))) (blob_at src from))) = blob_at src from"
      using slice_memcpy_same [of "pos * nat (blob_stride (m_conf m))" "blob_at src from" "m_blobs m"] lb assms(3)
      by simp
    then show ?thesis using True assms(4) k by (simp add: entry_at_def key_at_def value_at_def blob_at_def copy_entry_def)
  next
    case False
    have "take (nat (blob_size (m_conf m))) (drop (q * nat (blob_stride (m_conf m)))
        (memcpy (m_blobs m) (pos * nat (blob_stride (m_conf m))) (blob_at src from))) = blob_at m q"
      unfolding blob_at_def [of m q]
      by (rule slice_memcpy_other [where n = "length (m_states m)"]) (use False lb assms(3,4,6) k in simp_all)
    then show ?thesis using False by (simp add: entry_at_def key_at_def value_at_def blob_at_def copy_entry_def)
  qed
qed

lemma copy_entry_shape:
  assumes "shape_ok P c m" and "shape_ok P d src" and "m_conf m = m_conf src"
    and "pos < length (m_states m)" and "from < length (m_states src)"
  shows "shape_ok P c (copy_entry src from pos m)"
proof -
  have "length (memcpy (m_blobs m) (pos * nat (blob_stride (m_conf m))) (blob_at src from)) = length (m_blobs m)"
    using length_blob_at [OF assms(2,5)] length_blob_at [OF assms(1,4)] assms(3) by simp
  then show ?thesis using assms(1) by (simp add: shape_ok_def copy_entry_def)
qed

lemma set_state_shape:
  assumes "shape_ok P c m" and "valid_state s"
  shows "shape_ok P c (set_state pos s m)"
proof -
  have "set ((m_states m)[pos := s]) \<subseteq> insert s (set (m_states m))" by (rule set_update_subset_insert)
  then have "valid_states ((m_states m)[pos := s])"
    using assms by (auto simp: shape_ok_def valid_states_def list_all_iff)
  then show ?thesis using assms(1) by (simp add: shape_ok_def)
qed

section \<open>The contents\<close>

lemma occupied_set_state:
  assumes "pos < length (m_states m)"
  shows "occupied (set_state pos s m) = (if is_hash s then insert pos (occupied m) else occupied m - {pos})"
  using assms by (auto simp: occupied_def nth_list_update_if split: if_splits)

lemma entries_cong:
  assumes "occupied m = occupied m'" and "\<And>pos. pos \<in> occupied m' \<Longrightarrow> entry_at m pos = entry_at m' pos"
  shows "entries m = entries m'"
  using assms by (auto simp: entries_def intro!: image_mset_cong)

lemma entries_insert:
  assumes "occupied m' = insert pos (occupied m)" and "pos \<notin> occupied m"
    and "\<And>q. q \<in> occupied m \<Longrightarrow> entry_at m' q = entry_at m q"
  shows "entries m' = add_mset (entry_at m' pos) (entries m)"
  using assms by (auto simp: entries_def intro!: image_mset_cong)

lemma entries_remove:
  assumes "occupied m' = occupied m - {pos}" and "pos \<in> occupied m"
    and "\<And>q. q \<in> occupied m' \<Longrightarrow> entry_at m' q = entry_at m q"
  shows "entries m = add_mset (entry_at m pos) (entries m')"
proof (rule entries_insert)
  show "occupied m = insert pos (occupied m')" "pos \<notin> occupied m'" using assms(1,2) by auto
qed (simp add: assms(3))

lemma size_entries: "size (entries m) = card (occupied m)"
  by (simp add: entries_def)

text \<open>Whether the keys are distinct is a matter of the entries alone.\<close>

lemma inj_on_count:
  assumes "finite A"
  shows "inj_on f A \<longleftrightarrow> (\<forall>x. count (image_mset f (mset_set A)) x \<le> 1)"
proof -
  have c: "count (image_mset f (mset_set A)) x = card {a \<in> A. f a = x}" for x
    using assms by (simp add: count_image_mset vimage_def Int_def conj_commute)
  have "card {a \<in> A. f a = x} \<le> 1 \<longleftrightarrow> (\<forall>a\<in>A. \<forall>b\<in>A. f a = x \<longrightarrow> f b = x \<longrightarrow> a = b)" for x
    using assms by (auto simp: card_le_Suc0_iff_eq)
  then show ?thesis unfolding c by (auto simp: inj_on_def)
qed

lemma keys_ok_entries:
  "keys_ok P m \<longleftrightarrow> has_duplicates P \<or> (\<forall>k. count (image_mset fst (entries m)) k \<le> 1)"
proof -
  have "image_mset fst (entries m) = image_mset (key_at m) (mset_set (occupied m))"
    by (simp add: entries_def entry_at_def image_mset.compositionality comp_def)
  then show ?thesis by (simp add: keys_ok_def inj_on_count)
qed

section \<open>Placement\<close>

text \<open>Placement only looks at which buckets have an empty slot, and survives their loss.\<close>

lemma placed_mono:
  assumes "placed P bm states h off" and "length states' = length states"
    and "\<And>off. empty_state \<in> set (bucket P states' off) \<Longrightarrow> empty_state \<in> set (bucket P states off)"
  shows "placed P bm states' h off"
  using assms unfolding placed_def by metis

lemma bucket_update:
  "bucket P (states[pos := s]) off =
    (if off \<le> pos \<and> pos < off + ksize P then (bucket P states off)[pos - off := s] else bucket P states off)"
  by (auto simp: bucket_def take_update_swap drop_update_swap drop_update_cancel not_less list_update_beyond)

lemma empty_after_fill:
  assumes "s \<noteq> empty_state" and "empty_state \<in> set (bucket P (states[pos := s]) off)"
  shows "empty_state \<in> set (bucket P states off)"
  using assms set_update_subset_insert [of "bucket P states off" "pos - off" s]
  by (auto simp: bucket_update split: if_splits)

context swiss_map
begin

text \<open>A bucket of the table that does not hold the slot is unchanged.\<close>

lemma bucket_update_at:
  assumes "b < length states div ksize P"
  shows "bucket P (states[pos := s]) (b * ksize P) =
    (if pos div ksize P = b then (bucket P states (b * ksize P))[pos mod ksize P := s] else bucket P states (b * ksize P))"
proof -
  have "b * ksize P \<le> pos \<and> pos < b * ksize P + ksize P \<longleftrightarrow> pos div ksize P = b"
  proof
    assume "b * ksize P \<le> pos \<and> pos < b * ksize P + ksize P"
    then show "pos div ksize P = b" by (intro div_nat_eqI) (simp_all add: mult.commute)
  next
    assume "pos div ksize P = b"
    then have "pos = b * ksize P + pos mod ksize P" by auto
    then show "b * ksize P \<le> pos \<and> pos < b * ksize P + ksize P"
      using mod_less_divisor [OF ksize_pos, of pos] by linarith
  qed
  moreover have "pos - b * ksize P = pos mod ksize P" if "pos div ksize P = b"
    using that by (metis minus_div_mult_eq_mod)
  ultimately show ?thesis by (simp add: bucket_update)
qed

lemma slots_ok_fill:
  assumes sh: "shape_ok P c m" and sl: "slots_ok P m" and pos: "pos < length (m_states m)" "pos \<notin> occupied m"
    and m': "m_bucket_mask m' = m_bucket_mask m" "m_states m' = (m_states m)[pos := pm_state P (pm_hash P key)]"
    and k: "key_at m' pos = key" and keys: "\<And>q. q \<in> occupied m \<Longrightarrow> key_at m' q = key_at m q"
    and pl: "placed P (m_bucket_mask m) (m_states m) (pm_hash P key) (pos div ksize P * ksize P)"
  shows "slots_ok P m'"
  unfolding slots_ok_def
proof
  fix q assume "q \<in> occupied m'"
  then have q: "q = pos \<or> q \<noteq> pos \<and> q \<in> occupied m" using m' by (auto simp: occupied_def nth_list_update_if)
  have h: "is_hash (pm_state P (pm_hash P key))" by (simp add: pm_state_def)
  have mono: "placed P (m_bucket_mask m') (m_states m') h off" if "placed P (m_bucket_mask m) (m_states m) h off" for h off
    using that unfolding m' by (rule placed_mono) (use h in \<open>auto dest!: is_hash_neq intro: empty_after_fill\<close>)
  show "m_states m' ! q = pm_state P (pm_hash P (key_at m' q))
      \<and> placed P (m_bucket_mask m') (m_states m') (pm_hash P (key_at m' q)) (q div ksize P * ksize P)"
  proof (cases "q = pos")
    case True
    then show ?thesis using k pos mono [OF pl] m' by simp
  next
    case False
    then have o: "q \<in> occupied m" using q by simp
    then show ?thesis using sl keys [OF o] mono m' False by (auto simp: slots_ok_def)
  qed
qed

text \<open>Freeing a slot, or changing the keys of free slots, keeps the placement when no bucket gains its first empty slot.\<close>

lemma slots_ok_free:
  assumes sl: "slots_ok P m" and m': "m_bucket_mask m' = m_bucket_mask m" "length (m_states m') = length (m_states m)"
    and occ: "\<And>q. q \<in> occupied m' \<Longrightarrow> q \<in> occupied m \<and> m_states m' ! q = m_states m ! q \<and> key_at m' q = key_at m q"
    and e: "\<And>b. b < length (m_states m) div ksize P \<Longrightarrow> empty_state \<in> set (bucket P (m_states m') (b * ksize P))
      \<Longrightarrow> empty_state \<in> set (bucket P (m_states m) (b * ksize P))"
    and sh: "shape_ok P c m"
  shows "slots_ok P m'"
  unfolding slots_ok_def
proof
  fix q assume "q \<in> occupied m'"
  note o = occ [OF this]
  have "placed P (m_bucket_mask m') (m_states m') h off" if pl: "placed P (m_bucket_mask m) (m_states m) h off" for h off
  proof -
    have "empty_state \<in> set (bucket P (m_states m) (probe_off P (m_bucket_mask m) h j))"
      if "empty_state \<in> set (bucket P (m_states m') (probe_off P (m_bucket_mask m) h j))" for j
    proof -
      obtain b where "b < length (m_states m) div ksize P" "probe_off P (m_bucket_mask m) h j = b * ksize P"
        by (rule probe_off_bucket [OF sh])
      then show ?thesis using e that by simp
    qed
    then show ?thesis using pl unfolding placed_def m' by metis
  qed
  then show "m_states m' ! q = pm_state P (pm_hash P (key_at m' q))
      \<and> placed P (m_bucket_mask m') (m_states m') (pm_hash P (key_at m' q)) (q div ksize P * ksize P)"
    using o sl by (auto simp: slots_ok_def)
qed

lemma unmixed_update:
  assumes "unmixed P states" and "pos < length states"
    and "s = empty_state \<Longrightarrow> tombstone_state \<notin> set (bucket P states (pos div ksize P * ksize P))"
    and "s = tombstone_state \<Longrightarrow> empty_state \<notin> set (bucket P states (pos div ksize P * ksize P))"
  shows "unmixed P (states[pos := s])"
  unfolding unmixed_def
proof (intro allI impI)
  fix b assume "b < length (states[pos := s]) div ksize P"
  then have b: "b < length states div ksize P" by simp
  show "\<not> (empty_state \<in> set (bucket P (states[pos := s]) (b * ksize P))
      \<and> tombstone_state \<in> set (bucket P (states[pos := s]) (b * ksize P)))"
  proof (cases "pos div ksize P = b")
    case True
    have "x = s \<or> x \<in> set (bucket P states (b * ksize P))"
      if "x \<in> set ((bucket P states (b * ksize P))[pos mod ksize P := s])" for x
      using that set_update_subset_insert by fastforce
    moreover have "\<not> (empty_state \<in> set (bucket P states (b * ksize P)) \<and> tombstone_state \<in> set (bucket P states (b * ksize P)))"
      using assms(1) b by (simp add: unmixed_def)
    ultimately show ?thesis
      using assms(3,4) True state_consts(3) unfolding bucket_update_at [OF b] if_P [OF True] by blast
  next
    case False
    then show ?thesis using assms(1) b unfolding unmixed_def bucket_update_at [OF b] by simp
  qed
qed

end

end
