(* ===== verification/MapResize.thy ===== *)
theory MapResize
  imports MapSlots
begin

text \<open>
  Resizing: every entry is re-inserted into a fresh table, whose capacity leaves room for all of
  them. It returns, throws nothing, and keeps the entries and the invariant.
\<close>

lemma alloc_map_simps [simp]:
  "m_conf (alloc_map P e m) = m_conf m" "m_bucket_mask (alloc_map P e m) = make_aligned_mask e (int (ksize P))"
  "m_grow_threshold (alloc_map P e m) = grow_threshold (m_conf m) e"
  "length (m_states (alloc_map P e m)) = nat e" "length (m_keys (alloc_map P e m)) = nat e"
  "length (m_values (alloc_map P e m)) = nat e"
  "length (m_blobs (alloc_map P e m)) = nat (e * blob_stride (m_conf m))"
  by (simp_all add: alloc_map_def)

lemma reset_map_simps [simp]:
  "m_conf (reset_map P m) = m_conf m" "m_bucket_mask (reset_map P m) = m_bucket_mask m"
  "m_keys (reset_map P m) = m_keys m" "m_values (reset_map P m) = m_values m" "m_blobs (reset_map P m) = m_blobs m"
  "m_grow_threshold (reset_map P m) = m_grow_threshold m" "m_num_empty (reset_map P m) = capacity P m"
  "m_num_tombstone (reset_map P m) = 0"
  by (simp_all add: reset_map_def)

lemma capacity_reset_map [simp]: "capacity P (reset_map P m) = capacity P m"
  by (simp add: capacity_def)

lemma count_states_replicate: "count_states s (replicate n t) = (if s = t then int n else 0)"
  by (simp add: count_states_def)

lemma conf_ok_power:
  assumes "conf_ok (kbits P) cf" and "kbits P \<le> 62"
  obtains a where "min_capacity cf = 2 ^ a" and "kbits P \<le> a" and "a \<le> 62"
proof -
  obtain a where a: "min_capacity cf = 2 ^ a" "a \<le> 62" using assms(1) by (auto simp: conf_ok_def)
  have "2 ^ kbits P \<le> min_capacity cf" using assms(1) by (simp add: conf_ok_def is_valid_def min_capacity_limit_def)
  then have "kbits P \<le> a" using a(1) by (simp only: power_le_iff_2)
  with a that show ?thesis by blast
qed

context swiss_map
begin

section \<open>Fresh tables\<close>

lemma capacity_of_mask:
  assumes "kbits P \<le> c" and "c \<le> 62" and "m_bucket_mask m = make_aligned_mask (2 ^ c) (2 ^ kbits P)"
  shows "capacity P m = 2 ^ c"
  using aligned_mask_to_capacity_inverse [of "kbits P" c] assms by (simp add: capacity_def size_power)

lemma reset_states:
  assumes "kbits P \<le> c" and "c \<le> 62" and "m_bucket_mask m = make_aligned_mask (2 ^ c) (2 ^ kbits P)"
    and "length (m_states m) = 2 ^ c"
  shows "m_states (reset_map P m) = replicate (2 ^ c) empty_state"
  using assms by (simp add: reset_map_def capacity_of_mask nat_power_eq)

text \<open>A table all of whose slots are empty.\<close>

lemma all_empty_facts:
  assumes "m_states m = replicate n empty_state"
  shows "occupied m = {}" and "entries m = {#}" and "slots_ok P m" and "keys_ok P m" and "unmixed P (m_states m)"
    and "tombstone_state \<notin> set (m_states m)" and "count_states empty_state (m_states m) = int n"
    and "valid_states (m_states m)"
proof -
  show o: "occupied m = {}" using assms by (auto simp: occupied_def)
  then show "entries m = {#}" "slots_ok P m" "keys_ok P m" by (simp_all add: entries_def slots_ok_def keys_ok_def)
  show t: "tombstone_state \<notin> set (m_states m)" using assms by simp
  then show "unmixed P (m_states m)" using set_bucket unfolding unmixed_def by blast
  show "count_states empty_state (m_states m) = int n" by (simp add: assms count_states_replicate)
  show "valid_states (m_states m)" by (simp add: assms valid_states_def list_all_iff)
qed

lemma alloc_reset_shape:
  assumes "kbits P \<le> c" and "c \<le> 62" and "nat (blob_size (m_conf m)) \<le> nat (blob_stride (m_conf m))"
  shows "shape_ok P c (reset_map P (alloc_map P (2 ^ c) m))"
    and "m_states (reset_map P (alloc_map P (2 ^ c) m)) = replicate (2 ^ c) empty_state"
proof -
  show st: "m_states (reset_map P (alloc_map P (2 ^ c) m)) = replicate (2 ^ c) empty_state"
    using assms(1,2) by (intro reset_states) (simp_all add: size_power nat_power_eq)
  show "shape_ok P c (reset_map P (alloc_map P (2 ^ c) m))"
    using assms all_empty_facts(8) [OF st] st
    by (simp add: shape_ok_def size_power nat_power_eq nat_mult_distrib)
qed

section \<open>Re-inserting one entry\<close>

lemma free_slot_cases:
  assumes "shape_ok P c m" and "b < length (m_states m) div ksize P"
  obtains (free) pos where "free_slot P (load_bucket P (m_states m) (b * ksize P)) (b * ksize P) = Some pos"
      and "pos < length (m_states m)" and "pos div ksize P = b" and "\<not> is_hash (m_states m ! pos)"
  | (full) "free_slot P (load_bucket P (m_states m) (b * ksize P)) (b * ksize P) = None"
      and "\<And>s. s \<in> set (bucket P (m_states m) (b * ksize P)) \<Longrightarrow> is_hash s"
proof -
  let ?B = "bucket P (m_states m) (b * ksize P)" and ?K = "pm_kernel P"
  let ?ms = "kn_mask_not_hash ?K (kn_load ?K ?B)"
  have l: "length ?B = kn_size ?K" by (simp add: length_bucket [OF assms(2)] kn_size)
  have ok: "ok ?ms" by (rule mask_not_hash_ok [OF l])
  have sl: "slots ?ms = slots_with is_not_hash ?B" by (rule mask_not_hash_slots [OF l])
  show ?thesis
  proof (cases "mk_has_next (kn_mask_ops ?K) ?ms")
    case True
    let ?i = "mk_next (kn_mask_ops ?K) ?ms"
    have "?i \<in> slots_with is_not_hash ?B" using next_hd [OF ok True] sl by simp
    then have i: "?i < ksize P" "\<not> is_hash (?B ! ?i)" using l by (simp_all add: slots_with_def kn_size)
    have "b * ksize P + ?i < length (m_states m)" by (rule bucket_of_pos(2) [OF assms(1) i(1) assms(2)])
    then show ?thesis
      using free [of "b * ksize P + ?i"] True i bucket_of_pos(1) [OF assms(1) i(1) assms(2)]
      by (simp add: free_slot_def load_bucket Let_def nth_bucket)
  next
    case False
    then have "slots_with is_not_hash ?B = {}" using has_next_iff [OF ok] sl by simp
    then show ?thesis using full False by (simp add: free_slot_def load_bucket Let_def slots_with_empty)
  qed
qed

lemma free_is_empty:
  assumes "valid_states states" and "tombstone_state \<notin> set states" and "pos < length states" and "\<not> is_hash (states ! pos)"
  shows "states ! pos = empty_state"
proof -
  have "states ! pos \<in> set states" using assms(3) by (rule nth_mem)
  then have "valid_state (states ! pos)" "states ! pos \<noteq> tombstone_state"
    using assms(1,2) by (auto simp: valid_states_def list_all_iff)
  then show ?thesis using assms(4) by (simp add: valid_state_def)
qed

text \<open>Among tables without tombstones, an insertion takes the first free slot of the hash's buckets.\<close>

lemma probe_free:
  assumes sh: "shape_ok P c m" and e: "empty_state \<in> set (m_states m)"
  obtains n pos where "probe P (m_bucket_mask m) h (\<lambda>off seq u. case free_slot P (load_bucket P (m_states m) off) off of
       Some pos \<Rightarrow> Inr pos | None \<Rightarrow> Inl ()) () = Some (seq_at P h n, Inr pos)"
    and "pos < length (m_states m)" and "\<not> is_hash (m_states m ! pos)"
    and "placed P (m_bucket_mask m) (m_states m) h (pos div ksize P * ksize P)"
proof -
  let ?off = "probe_off P (m_bucket_mask m) h"
  define body :: "nat \<Rightarrow> 'q \<Rightarrow> unit \<Rightarrow> unit + nat" where "body = (\<lambda>off seq u.
    case free_slot P (load_bucket P (m_states m) off) off of Some pos \<Rightarrow> Inr pos | None \<Rightarrow> Inl ())"
  obtain i where i: "i < length (m_states m) div ksize P" "empty_state \<in> set (bucket P (m_states m) (?off i))"
    by (rule empty_reached [OF sh e])
  have has: "\<exists>pos. free_slot P (load_bucket P (m_states m) (?off j)) (?off j) = Some pos"
    if "empty_state \<in> set (bucket P (m_states m) (?off j))" for j
  proof -
    obtain b where b: "b < length (m_states m) div ksize P" "?off j = b * ksize P" by (rule probe_off_bucket [OF sh])
    show ?thesis by (rule free_slot_cases [OF sh b(1)]) (use that b(2) state_consts(1) in \<open>force+\<close>)
  qed
  then obtain p where "body (?off i) (seq_at P h i) () = Inr p" using i(2) by (fastforce simp: body_def)
  then obtain n pos where n: "n \<le> i" "probe P (m_bucket_mask m) h body () = Some (seq_at P h n, Inr pos)"
    "body (?off n) (seq_at P h n) () = Inr pos" "\<And>j. j < n \<Longrightarrow> body (?off j) (seq_at P h j) () = Inl ()"
    by (rule probe_first [where body = body and bm = "m_bucket_mask m"]) blast
  obtain b where b: "b < length (m_states m) div ksize P" "?off n = b * ksize P" by (rule probe_off_bucket [OF sh])
  have fs: "free_slot P (load_bucket P (m_states m) (b * ksize P)) (b * ksize P) = Some pos"
    using n(3) b(2) by (simp add: body_def split: option.splits)
  have "pos < length (m_states m) \<and> pos div ksize P = b \<and> \<not> is_hash (m_states m ! pos)"
    by (rule free_slot_cases [OF sh b(1)]) (simp_all add: fs)
  then have pos: "pos < length (m_states m)" "pos div ksize P = b" "\<not> is_hash (m_states m ! pos)" by simp_all
  have "empty_state \<notin> set (bucket P (m_states m) (?off j))" if "j < n" for j
    using has [of j] n(4) [OF that] by (auto simp: body_def)
  then have "placed P (m_bucket_mask m) (m_states m) h (pos div ksize P * ksize P)"
    unfolding placed_def using n(1) i(1) b(2) pos(2) by (intro exI [of _ n]) simp
  with n(2) [unfolded body_def] pos show ?thesis using that by blast
qed

definition fresh_inv :: "nat \<Rightarrow> conf \<Rightarrow> ('k, 'v) map_state \<Rightarrow> bool" where
  "fresh_inv c cf m \<longleftrightarrow> shape_ok P c m \<and> m_conf m = cf \<and> slots_ok P m \<and> tombstone_state \<notin> set (m_states m)"

lemma resize_one_ok:
  assumes m: "fresh_inv c (m_conf src) m" and src: "shape_ok P d src" and fr: "from < length (m_states src)"
    and e: "1 \<le> count_states empty_state (m_states m)"
  obtains m' where "resize_one P src from m = Some (Some m')" and "fresh_inv c (m_conf src) m'"
    and "entries m' = add_mset (entry_at src from) (entries m)"
    and "count_states empty_state (m_states m') = count_states empty_state (m_states m) - 1"
    and "m_grow_threshold m' = m_grow_threshold m" and "m_num_empty m' = m_num_empty m"
    and "m_num_tombstone m' = m_num_tombstone m"
proof -
  have sh: "shape_ok P c m" and cf: "m_conf m = m_conf src" and sl: "slots_ok P m"
    and t: "tombstone_state \<notin> set (m_states m)"
    using m by (simp_all add: fresh_inv_def)
  let ?h = "pm_hash P (m_keys src ! from)"
  obtain n pos where p: "probe P (m_bucket_mask m) ?h (\<lambda>off seq u. case free_slot P (load_bucket P (m_states m) off) off of
       Some pos \<Rightarrow> Inr pos | None \<Rightarrow> Inl ()) () = Some (seq_at P ?h n, Inr pos)"
    and pos: "pos < length (m_states m)" "\<not> is_hash (m_states m ! pos)"
    and pl: "placed P (m_bucket_mask m) (m_states m) ?h (pos div ksize P * ksize P)"
    by (rule probe_free [OF sh, of ?h]) (use e count_states_pos in blast)+
  let ?m1 = "set_state pos (pm_state P ?h) m"
  let ?m' = "copy_entry src from pos ?m1"
  have h: "is_hash (pm_state P ?h)" by (simp add: pm_state_def)
  have sh1: "shape_ok P c ?m1" using sh h by (simp add: set_state_shape)
  have sh': "shape_ok P c ?m'" using copy_entry_shape [OF sh1 src] cf pos(1) fr by simp
  have at: "entry_at ?m' q = (if q = pos then entry_at src from else entry_at m q)" if "q < length (m_states m)" for q
    using copy_entry_at [OF sh1 src _ _ fr, of pos q] that pos(1) cf by simp
  have npos: "pos \<notin> occupied m" using pos by (simp add: occupied_def)
  have occ: "occupied ?m' = insert pos (occupied m)"
    using occupied_set_state [OF pos(1), of "pm_state P ?h"] h by (simp add: occupied_def)
  have "entry_at ?m' q = entry_at m q" if "q \<in> occupied m" for q
    using at [OF occupied_bound [OF that]] that npos by auto
  then have ent: "entries ?m' = add_mset (entry_at src from) (entries m)"
    using entries_insert [OF occ npos] at [OF pos(1)] by simp
  have key: "key_at ?m' q = (if q = pos then m_keys src ! from else key_at m q)" if "q < length (m_states m)" for q
    using at [OF that] by (simp add: entry_at_def key_at_def split: if_splits)
  have "key_at ?m' q = key_at m q" if "q \<in> occupied m" for q
    using key [OF occupied_bound [OF that]] that npos by auto
  then have sl': "slots_ok P ?m'"
    using key [OF pos(1)] by (intro slots_ok_fill [OF sh sl pos(1) npos _ _ _ _ pl]) simp_all
  have "pm_state P ?h \<noteq> tombstone_state" using h is_hash_neq by blast
  then have t': "tombstone_state \<notin> set (m_states ?m')"
    using t set_update_subset_insert [of "m_states m" pos "pm_state P ?h"] by auto
  have "m_states m ! pos = empty_state" using free_is_empty [OF shape_buckets(6) [OF sh] t pos] .
  then have "count_states empty_state (m_states ?m') = count_states empty_state (m_states m) - 1"
    using h by (simp add: count_states_update [OF pos(1)] is_hash_neq)
  moreover have "resize_one P src from m = Some (Some ?m')"
    by (simp add: resize_one_def Let_def p)
  moreover have "fresh_inv c (m_conf src) ?m'" using sh' sl' t' cf by (simp add: fresh_inv_def)
  ultimately show ?thesis using that [of ?m'] ent by simp
qed

lemma resize_fill_ok:
  assumes "fresh_inv c (m_conf src) m" and "shape_ok P d src" and "\<And>p. p \<in> set ps \<Longrightarrow> p < length (m_states src)"
    and "int (length ps) \<le> count_states empty_state (m_states m)"
  shows "\<exists>m'. resize_fill P src ps m = Some (Some m') \<and> fresh_inv c (m_conf src) m'
    \<and> entries m' = image_mset (entry_at src) (mset ps) + entries m
    \<and> count_states empty_state (m_states m') = count_states empty_state (m_states m) - int (length ps)
    \<and> m_grow_threshold m' = m_grow_threshold m \<and> m_num_empty m' = m_num_empty m
    \<and> m_num_tombstone m' = m_num_tombstone m"
  using assms
proof (induction ps arbitrary: m)
  case (Cons p ps)
  obtain m1 where m1: "resize_one P src p m = Some (Some m1)" "fresh_inv c (m_conf src) m1"
    "entries m1 = add_mset (entry_at src p) (entries m)"
    "count_states empty_state (m_states m1) = count_states empty_state (m_states m) - 1"
    "m_grow_threshold m1 = m_grow_threshold m" "m_num_empty m1 = m_num_empty m" "m_num_tombstone m1 = m_num_tombstone m"
    by (rule resize_one_ok [OF Cons.prems(1,2), of p]) (use Cons.prems(3,4) in auto)
  have "int (length ps) \<le> count_states empty_state (m_states m1)" using Cons.prems(4) m1(4) by simp
  then show ?case using Cons.IH [OF m1(2) Cons.prems(2)] Cons.prems(3) m1 by auto
qed simp

section \<open>The new capacity\<close>

lemma map_invD:
  assumes "map_inv P m"
  obtains c where "shape_ok P c m" and "capacity P m = 2 ^ c" and "conf_ok (kbits P) (m_conf m)"
    and "min_capacity (m_conf m) \<le> 2 ^ c" and "m_grow_threshold m = grow_threshold (m_conf m) (2 ^ c)"
    and "unmixed P (m_states m)" and "slots_ok P m" and "keys_ok P m" and "counters_ok m" and "1 \<le> m_num_empty m"
    and "empty_state \<in> set (m_states m)"
proof -
  obtain c where c: "shape_ok P c m" "conf_ok (kbits P) (m_conf m)" "min_capacity (m_conf m) \<le> 2 ^ c"
    "m_grow_threshold m = grow_threshold (m_conf m) (2 ^ c)"
    using assms by (auto simp: map_inv_def)
  have "empty_state \<in> set (m_states m)"
    using assms by (simp add: map_inv_def counters_ok_def flip: count_states_pos)
  then show ?thesis using that [OF c(1) capacity_shape [OF c(1)] c(2-4)] assms by (simp add: map_inv_def)
qed

lemma map_size_entries:
  assumes "map_inv P m"
  shows "capacity P m - num_not_hash_slots m = int (size (entries m))"
proof -
  obtain c where c: "shape_ok P c m" "capacity P m = 2 ^ c" "counters_ok m"
    by (rule map_invD [OF assms])
  have "length (m_states m) = 2 ^ c" "valid_states (m_states m)" using shape_buckets [OF c(1)] by simp_all
  then show ?thesis
    using c card_occupied [of m] by (simp add: size_entries num_not_hash_slots_def counters_ok_def)
qed

lemma resize_target_power:
  assumes inv: "map_inv P m" and cap: "capacity P m \<le> 2 ^ 61" and e: "e \<le> 62"
  obtains f where "resize_target P (2 ^ e) m = 2 ^ f" and "e \<le> f" and "f \<le> 62" and "kbits P \<le> f"
    and "min_capacity (m_conf m) \<le> 2 ^ f" and "int (size (entries m)) < 2 ^ f"
proof -
  obtain c where c: "shape_ok P c m" "capacity P m = 2 ^ c" "conf_ok (kbits P) (m_conf m)" "min_capacity (m_conf m) \<le> 2 ^ c"
    by (rule map_invD [OF inv])
  let ?n = "int (size (entries m))" and ?g = "grow_threshold (m_conf m)"
  have c62: "kbits P \<le> 62" "c \<le> 62" using shape_buckets(4,5) [OF c(1)] by simp_all
  obtain a where a: "min_capacity (m_conf m) = 2 ^ a" "kbits P \<le> a" "a \<le> 62" by (rule conf_ok_power [OF c(3) c62(1)])
  have n: "capacity P m - num_not_hash_slots m = ?n" by (rule map_size_entries [OF inv])
  have "0 \<le> num_not_hash_slots m" using inv by (simp add: map_inv_def counters_ok_def num_not_hash_slots_def)
  then have n_le: "?n \<le> 2 ^ c" using n c(2) by linarith
  have c61: "(2 :: int) ^ c \<le> 2 ^ 61" using c(2) cap by simp
  have "?n \<le> 2 ^ 62" using n_le c61 by (rule order.trans [THEN order.trans]) simp
  then obtain b where b: "b \<le> 62" "int_bit_ceil ?n = 2 ^ b" "?n \<le> 1 \<or> 2 ^ b < 2 * ?n"
    by (rule int_bit_ceil_cases [rotated]) auto
  have bc: "(2 :: int) ^ b \<le> 2 ^ c"
  proof (cases "?n \<le> 1")
    case True
    then have "?n = 0 \<or> ?n = 1" by linarith
    then have "(2 :: int) ^ b = 1" using int_bit_ceil_small [of ?n] b(2) by simp
    then show ?thesis by simp
  next
    case False
    then have "(2 :: int) ^ b < 2 ^ Suc c" using b(3) n_le unfolding power_Suc by linarith
    then have "b < Suc c" by (simp only: power_less_iff_2)
    then show ?thesis by (simp only: power_le_iff_2)
  qed
  define t where "t = ?g (2 ^ b)"
  have t_eq: "t = ?g (max (2 ^ b) (min_capacity (m_conf m)))" by (simp add: t_def grow_threshold_def max_def)
  have t: "1 \<le> t" "2 * t \<le> max (2 ^ b) (min_capacity (m_conf m))"
    unfolding t_eq by (rule grow_threshold_bounds [OF c(3) c62(1)]; simp)+
  have "2 * t \<le> 2 ^ c" by (rule order.trans [OF t(2)]) (simp only: max.bounded_iff bc c(4) simp_thms)
  then have "?n + t \<le> 2 * 2 ^ 61" and "0 \<le> ?n + t" using n_le c61 t(1) by linarith+
  then have "0 \<le> ?n + t" and "?n + t \<le> 2 ^ 62" by simp_all
  then obtain d where d: "d \<le> 62" "int_bit_ceil (?n + t) = 2 ^ d" "?n + t \<le> 2 ^ d"
    by (rule int_bit_ceil_cases) auto
  define f where "f = max (max e a) d"
  have "(if 2 ^ e < min_capacity (m_conf m) then min_capacity (m_conf m) else 2 ^ e) = 2 ^ max e a"
    unfolding a(1) by (simp only: power_less_iff_2 max_def not_less) auto
  then have tgt: "resize_target P (2 ^ e) m = 2 ^ f"
    unfolding resize_target_def Let_def n b(2) t_def [symmetric] d(2)
    by (simp only: f_def max_def power_le_iff_2 if_distrib [of "power 2", symmetric])
  have "(2 :: int) ^ d \<le> 2 ^ f" "(2 :: int) ^ a \<le> 2 ^ f" by (simp_all only: f_def power_le_iff_2)
  then have "?n < 2 ^ f" "min_capacity (m_conf m) \<le> 2 ^ f" using d(3) t(1) unfolding a(1) by linarith+
  then show ?thesis using that [OF tgt] a(2,3) d(1) e by (simp add: f_def)
qed

section \<open>Resizing\<close>

lemma resize_map_ok:
  assumes inv: "map_inv P m" and cap: "capacity P m \<le> 2 ^ 61" and e: "e \<le> 62"
  obtains m' where "resize_map P (2 ^ e) m = Some (Inr (capacity P m', m'))" and "map_inv P m'"
    and "entries m' = entries m" and "capacity P m' = resize_target P (2 ^ e) m" and "2 ^ e \<le> capacity P m'"
    and "m_conf m' = m_conf m" and "capacity P m' = capacity P m \<and> m' = m \<or> m_num_tombstone m' = 0"
proof -
  obtain c where c: "shape_ok P c m" "capacity P m = 2 ^ c" "conf_ok (kbits P) (m_conf m)" "counters_ok m" "keys_ok P m"
    by (rule map_invD [OF inv])
  obtain f where f: "resize_target P (2 ^ e) m = 2 ^ f" "e \<le> f" "f \<le> 62" "kbits P \<le> f"
    "min_capacity (m_conf m) \<le> 2 ^ f" "int (size (entries m)) < 2 ^ f"
    by (rule resize_target_power [OF inv cap e])
  have ef: "(2 :: int) ^ e \<le> 2 ^ f" using f(2) by (simp only: power_le_iff_2)
  show ?thesis
  proof (cases "(2 :: int) ^ f = capacity P m")
    case True
    then have "resize_map P (2 ^ e) m = Some (Inr (capacity P m, m))" by (simp add: resize_map_def f(1) Let_def)
    moreover have "capacity P m = resize_target P (2 ^ e) m" using f(1) True by (rule trans [symmetric])
    ultimately show ?thesis using ef [unfolded True] by (intro that [of m] inv refl) simp_all
  next
    case False
    let ?ps = "hash_positions P (m_states m) (2 ^ c)"
    let ?m0 = "reset_map P (alloc_map P (2 ^ f) m)"
    have bl: "nat (blob_size (m_conf m)) \<le> nat (blob_stride (m_conf m))" using c(1) by (simp add: shape_ok_def)
    note m0 = alloc_reset_shape [of f m, OF f(4,3) bl]
    note ae = all_empty_facts [OF m0(2)]
    have fr: "fresh_inv f (m_conf m) ?m0" using m0 ae by (simp add: fresh_inv_def)
    have ps: "set ?ps = occupied m" "distinct ?ps" using hash_positions_set [OF c(1)] by simp_all
    then have mset_ps: "mset ?ps = mset_set (occupied m)" by (metis mset_set_set)
    have len: "int (length ?ps) = int (size (entries m))" unfolding size_entries ps(1) [symmetric] distinct_card [OF ps(2)] ..
    have "int (length ?ps) \<le> count_states empty_state (m_states ?m0)" using ae(7) f(6) len by simp
    then obtain m' where m': "resize_fill P m ?ps ?m0 = Some (Some m')" "fresh_inv f (m_conf m) m'"
      "entries m' = image_mset (entry_at m) (mset ?ps) + entries ?m0"
      "count_states empty_state (m_states m') = count_states empty_state (m_states ?m0) - int (length ?ps)"
      "m_grow_threshold m' = m_grow_threshold ?m0" "m_num_empty m' = m_num_empty ?m0" "m_num_tombstone m' = m_num_tombstone ?m0"
      using resize_fill_ok [OF fr c(1), of ?ps] ps(1) occupied_bound by fastforce
    have "resize_try P m (2 ^ c) (2 ^ f) = Some (Some m')" by (simp add: resize_try_def m'(1))
    then have "resize_loop P m (2 ^ c) (2 ^ f) = Some (Inr (2 ^ f, m'))" by (subst resize_loop.simps) simp
    moreover have n: "2 ^ c - num_not_hash_slots m = int (size (entries m))" using map_size_entries [OF inv] c(2) by simp
    ultimately have res: "resize_map P (2 ^ e) m = Some (Inr (2 ^ f, m'\<lparr>m_num_empty := m_num_empty m' - int (size (entries m))\<rparr>))"
      (is "_ = Some (Inr (_, ?m'))") using False c(2) by (simp add: resize_map_def f(1) Let_def)
    have sh': "shape_ok P f m'" and cf: "m_conf m' = m_conf m" and sl: "slots_ok P m'" and t: "tombstone_state \<notin> set (m_states m')"
      using m'(2) by (simp_all add: fresh_inv_def)
    have ent: "entries m' = entries m" using m'(3) ae(2) mset_ps by (simp add: entries_def)
    have same: "occupied ?m' = occupied m'" "entry_at ?m' = entry_at m'" "key_at ?m' = key_at m'" "capacity P ?m' = capacity P m'"
      by (auto simp: occupied_def entry_at_def key_at_def value_at_def blob_at_def capacity_def)
    have "entries ?m' = entries m'" by (rule entries_cong) (simp_all only: same)
    then have ent': "entries ?m' = entries m" using ent by simp
    have cap': "capacity P ?m' = 2 ^ f" using capacity_shape [OF sh'] same(4) by simp
    have empty: "m_num_empty ?m' = 2 ^ f - int (size (entries m))" "m_num_empty ?m' = count_states empty_state (m_states m')"
      using m'(4,6) ae(7) len capacity_shape [OF m0(1)] by simp_all
    have "map_inv P ?m'"
      unfolding map_inv_def
    proof (intro conjI exI [of _ f])
      show "shape_ok P f ?m'" using sh' by (simp add: shape_ok_def)
      show "conf_ok (kbits P) (m_conf ?m')" "min_capacity (m_conf ?m') \<le> 2 ^ f" using c(3) f(5) cf by simp_all
      show "m_grow_threshold ?m' = grow_threshold (m_conf ?m') (2 ^ f)" using m'(5) cf by simp
      show "unmixed P (m_states ?m')" using t set_bucket unfolding unmixed_def by fastforce
      show "slots_ok P ?m'" using sl by (simp add: slots_ok_def same)
      show "keys_ok P ?m'" using c(5) by (simp only: keys_ok_entries ent')
      show "counters_ok ?m'" using empty(2) m'(7) t by (simp add: counters_ok_def count_states_0)
      show "1 \<le> m_num_empty ?m'" unfolding empty(1) using f(6) by linarith
    qed
    then show ?thesis using that [of ?m'] res cap' ent' cf m'(7) f(1) ef by simp
  qed
qed

end

end
