(* ===== verification/MapInsert.thy ===== *)
theory MapInsert
  imports MapResize
begin

text \<open>
  Insertion: it finds the key, or places it in the first tombstone on its probe path, or in the
  first empty slot, and keeps the invariant; in particular an empty slot always remains, so that
  every later search ends.
\<close>

text \<open>The loop variable \<open>ins_pos\<close> before bucket \<open>i\<close> of the probe path: the first tombstone seen.\<close>

fun ins_state :: "('k, 'v, 'r, 'l, 'm, 'q) map_params \<Rightarrow> ('k, 'v) map_state \<Rightarrow> hash_t \<Rightarrow> nat \<Rightarrow> nat option" where
  "ins_state P m h 0 = None"
| "ins_state P m h (Suc i) = (case ins_state P m h i of
     Some pos \<Rightarrow> Some pos
   | None \<Rightarrow>
       let K = pm_kernel P; off = probe_off P (m_bucket_mask m) h i;
           t = kn_mask_tombstone K (load_bucket P (m_states m) off)
       in if mk_has_next (kn_mask_ops K) t then Some (off + mk_next (kn_mask_ops K) t) else None)"

lemma place_key_simps [simp]:
  "m_conf (place_key key s pos e m) = m_conf m" "m_bucket_mask (place_key key s pos e m) = m_bucket_mask m"
  "m_states (place_key key s pos e m) = (m_states m)[pos := s]" "m_keys (place_key key s pos e m) = (m_keys m)[pos := key]"
  "m_values (place_key key s pos e m) = m_values m" "m_blobs (place_key key s pos e m) = m_blobs m"
  "m_grow_threshold (place_key key s pos e m) = m_grow_threshold m"
  "m_num_empty (place_key key s pos e m) = m_num_empty m - of_bool e"
  "m_num_tombstone (place_key key s pos e m) = m_num_tombstone m - (1 - of_bool e)"
  "capacity P (place_key key s pos e m) = capacity P m"
  by (simp_all add: place_key_def capacity_def)

context swiss_map
begin

section \<open>Questions about the buckets of a table\<close>

lemma tombstone_next:
  assumes "shape_ok P c m" and "b < length (m_states m) div ksize P"
  defines "t \<equiv> kn_mask_tombstone (pm_kernel P) (load_bucket P (m_states m) (b * ksize P))"
  shows "mk_has_next (kn_mask_ops (pm_kernel P)) t \<longleftrightarrow> tombstone_state \<in> set (bucket P (m_states m) (b * ksize P))"
    and "mk_has_next (kn_mask_ops (pm_kernel P)) t \<Longrightarrow>
      b * ksize P + mk_next (kn_mask_ops (pm_kernel P)) t < length (m_states m)
      \<and> (b * ksize P + mk_next (kn_mask_ops (pm_kernel P)) t) div ksize P = b
      \<and> m_states m ! (b * ksize P + mk_next (kn_mask_ops (pm_kernel P)) t) = tombstone_state"
proof -
  let ?B = "bucket P (m_states m) (b * ksize P)" and ?M = "kn_mask_ops (pm_kernel P)"
  have l: "length ?B = kn_size (pm_kernel P)" by (simp add: length_bucket [OF assms(2)] kn_size)
  have v: "valid_states ?B" by (rule valid_bucket [OF shape_buckets(6) [OF assms(1)]])
  have ok: "ok t" and sl: "slots t = slots_with (\<lambda>x. x = tombstone_state) ?B"
    using mask_tombstone_ok [OF l v] mask_tombstone_slots [OF l v] by (simp_all add: t_def load_bucket)
  show "mk_has_next ?M t \<longleftrightarrow> tombstone_state \<in> set ?B"
    unfolding has_next_iff [OF ok] sl slots_with_empty by blast
  assume h: "mk_has_next ?M t"
  have "mk_next ?M t \<in> slots_with (\<lambda>x. x = tombstone_state) ?B" using next_hd [OF ok h] sl by simp
  then have i: "mk_next ?M t < ksize P" "?B ! mk_next ?M t = tombstone_state" using l by (simp_all add: slots_with_def kn_size)
  note p = bucket_of_pos [OF assms(1) i(1) assms(2)]
  have "m_states m ! (b * ksize P + mk_next ?M t) = tombstone_state"
    using i(2) nth_bucket [OF p(2) i(1)] by simp
  then show "b * ksize P + mk_next ?M t < length (m_states m) \<and> (b * ksize P + mk_next ?M t) div ksize P = b
      \<and> m_states m ! (b * ksize P + mk_next ?M t) = tombstone_state"
    using p i(1) by simp
qed

lemma empty_next:
  assumes "shape_ok P c m" and "b < length (m_states m) div ksize P"
  shows "mk_has_next (kn_mask_ops (pm_kernel P)) (kn_mask_empty (pm_kernel P) (load_bucket P (m_states m) (b * ksize P)))
    \<longleftrightarrow> empty_state \<in> set (bucket P (m_states m) (b * ksize P))"
proof -
  let ?B = "bucket P (m_states m) (b * ksize P)"
  have l: "length ?B = kn_size (pm_kernel P)" by (simp add: length_bucket [OF assms(2)] kn_size)
  have v: "valid_states ?B" by (rule valid_bucket [OF shape_buckets(6) [OF assms(1)]])
  show ?thesis
    unfolding load_bucket has_next_iff [OF mask_empty_ok [OF l v]] mask_empty_slots [OF l v] slots_with_empty by blast
qed

text \<open>A bucket with an empty slot has no tombstone: its first free slot is empty.\<close>

lemma free_slot_empty_bucket:
  assumes "shape_ok P c m" and "b < length (m_states m) div ksize P" and "unmixed P (m_states m)"
    and "empty_state \<in> set (bucket P (m_states m) (b * ksize P))"
  obtains pos where "free_slot P (load_bucket P (m_states m) (b * ksize P)) (b * ksize P) = Some pos"
    and "pos < length (m_states m)" and "pos div ksize P = b" and "m_states m ! pos = empty_state"
proof -
  have t: "tombstone_state \<notin> set (bucket P (m_states m) (b * ksize P))"
    using assms(2-4) by (auto simp: unmixed_def)
  show ?thesis
  proof (rule free_slot_cases [OF assms(1,2)])
    fix pos assume p: "free_slot P (load_bucket P (m_states m) (b * ksize P)) (b * ksize P) = Some pos"
      "pos < length (m_states m)" "pos div ksize P = b" "\<not> is_hash (m_states m ! pos)"
    have "m_states m ! pos \<in> set (bucket P (m_states m) (b * ksize P))"
      unfolding in_bucket_conv [OF bucket_end [OF assms(1,2)]]
      using p(3) by (intro exI [of _ "pos mod ksize P"]) auto
    moreover have "valid_state (m_states m ! pos)"
      using shape_buckets(6) [OF assms(1)] nth_mem [OF p(2)] by (auto simp: valid_states_def list_all_iff)
    ultimately have "m_states m ! pos = empty_state" using t p(4) by (auto simp: valid_state_def)
    with p that show ?thesis by blast
  next
    assume "\<And>s. s \<in> set (bucket P (m_states m) (b * ksize P)) \<Longrightarrow> is_hash s"
    with assms(4) have "is_hash empty_state" by blast
    then show ?thesis by simp
  qed
qed

lemma free_slot_full_bucket:
  assumes "shape_ok P c m" and "b < length (m_states m) div ksize P"
    and "empty_state \<notin> set (bucket P (m_states m) (b * ksize P))"
    and "tombstone_state \<notin> set (bucket P (m_states m) (b * ksize P))"
  shows "free_slot P (load_bucket P (m_states m) (b * ksize P)) (b * ksize P) = None"
proof (rule free_slot_cases [OF assms(1,2)])
  fix pos assume p: "pos < length (m_states m)" "pos div ksize P = b" "\<not> is_hash (m_states m ! pos)"
  have "m_states m ! pos \<in> set (bucket P (m_states m) (b * ksize P))"
    unfolding in_bucket_conv [OF bucket_end [OF assms(1,2)]]
    using p(2) by (intro exI [of _ "pos mod ksize P"]) auto
  moreover have "valid_state (m_states m ! pos)"
    using shape_buckets(6) [OF assms(1)] nth_mem [OF p(1)] by (auto simp: valid_states_def list_all_iff)
  ultimately show ?thesis using assms(3,4) p(3) by (auto simp: valid_state_def)
qed

section \<open>The probe of an insertion\<close>

text \<open>The remembered tombstone lies on the path, with no empty slot in the buckets before its own.\<close>

lemma ins_state_Some:
  assumes sh: "shape_ok P c m" and e: "\<And>j. j < i \<Longrightarrow> empty_state \<notin> set (bucket P (m_states m) (probe_off P (m_bucket_mask m) h j))"
    and S: "ins_state P m h i = Some pos"
  shows "pos < length (m_states m) \<and> m_states m ! pos = tombstone_state
    \<and> (\<exists>j<i. probe_off P (m_bucket_mask m) h j = pos div ksize P * ksize P)"
  using e S
proof (induction i)
  case (Suc i)
  show ?case
  proof (cases "ins_state P m h i")
    case (Some p)
    then show ?thesis using Suc.IH Suc.prems by (auto simp: less_Suc_eq)
  next
    case None
    obtain b where b: "b < length (m_states m) div ksize P" "probe_off P (m_bucket_mask m) h i = b * ksize P"
      by (rule probe_off_bucket [OF sh])
    have "mk_has_next (kn_mask_ops (pm_kernel P)) (kn_mask_tombstone (pm_kernel P) (load_bucket P (m_states m) (b * ksize P)))"
      and "pos = b * ksize P + mk_next (kn_mask_ops (pm_kernel P)) (kn_mask_tombstone (pm_kernel P) (load_bucket P (m_states m) (b * ksize P)))"
      using Suc.prems(2) None b(2) by (simp_all add: Let_def split: if_splits)
    then show ?thesis using tombstone_next(2) [OF sh b(1)] b(2) by auto
  qed
qed simp

definition insert_bodies :: "('k, 'v) map_state \<Rightarrow> 'k \<Rightarrow> state_t \<Rightarrow> nat \<Rightarrow> 'q \<Rightarrow> nat option \<Rightarrow> nat option + (nat + nat \<times> bool)" where
  "insert_bodies m key s = (if m_num_tombstone m \<noteq> 0 then insert_body_tombstones P m key s else insert_body P m key s)"

definition insert_vars :: "('k, 'v) map_state \<Rightarrow> hash_t \<Rightarrow> nat \<Rightarrow> nat option" where
  "insert_vars m h i = (if m_num_tombstone m \<noteq> 0 then ins_state P m h i else None)"

lemma insert_body_continues:
  assumes sh: "shape_ok P c m" and ct: "counters_ok m"
    and e: "empty_state \<notin> set (bucket P (m_states m) (probe_off P (m_bucket_mask m) h i))"
    and l: "insert_lookup P m key (load_bucket P (m_states m) (probe_off P (m_bucket_mask m) h i)) s (probe_off P (m_bucket_mask m) h i) = None"
  shows "insert_bodies m key s (probe_off P (m_bucket_mask m) h i) q (insert_vars m h i) = Inl (insert_vars m h (Suc i))"
proof -
  obtain b where b: "b < length (m_states m) div ksize P" "probe_off P (m_bucket_mask m) h i = b * ksize P"
    by (rule probe_off_bucket [OF sh])
  note e' = e [unfolded b(2)] and l' = l [unfolded b(2)]
  show ?thesis
  proof (cases "m_num_tombstone m = 0")
    case True
    then have "tombstone_state \<notin> set (m_states m)" using ct by (simp add: counters_ok_def count_states_0)
    then have "tombstone_state \<notin> set (bucket P (m_states m) (b * ksize P))" using set_bucket by blast
    then show ?thesis
      using True l' free_slot_full_bucket [OF sh b(1) e']
      by (simp add: insert_bodies_def insert_vars_def insert_body_def Let_def b(2))
  next
    case False
    show ?thesis
    proof (cases "ins_state P m h i")
      case None
      then show ?thesis
        using False l' free_slot_full_bucket [OF sh b(1) e'] tombstone_next(1) [OF sh b(1)]
        by (simp add: insert_bodies_def insert_vars_def insert_body_tombstones_def Let_def b(2))
    next
      case (Some p)
      then show ?thesis
        using False l' empty_next [OF sh b(1)] e'
        by (simp add: insert_bodies_def insert_vars_def insert_body_tombstones_def Let_def b(2))
    qed
  qed
qed

lemma insert_body_leaves:
  assumes sh: "shape_ok P c m" and ct: "counters_ok m" and un: "unmixed P (m_states m)"
    and e: "empty_state \<in> set (bucket P (m_states m) (probe_off P (m_bucket_mask m) h n))"
    and pre: "\<And>j. j < n \<Longrightarrow> empty_state \<notin> set (bucket P (m_states m) (probe_off P (m_bucket_mask m) h j))"
    and l: "insert_lookup P m key (load_bucket P (m_states m) (probe_off P (m_bucket_mask m) h n)) s (probe_off P (m_bucket_mask m) h n) = None"
    and n: "n < length (m_states m) div ksize P"
  obtains pos is_empty where
    "insert_bodies m key s (probe_off P (m_bucket_mask m) h n) q (insert_vars m h n) = Inr (Inr (pos, is_empty))"
    and "pos < length (m_states m)" and "m_states m ! pos = (if is_empty then empty_state else tombstone_state)"
    and "placed P (m_bucket_mask m) (m_states m) h (pos div ksize P * ksize P)"
proof -
  obtain b where b: "b < length (m_states m) div ksize P" "probe_off P (m_bucket_mask m) h n = b * ksize P"
    by (rule probe_off_bucket [OF sh])
  note e' = e [unfolded b(2)] and l' = l [unfolded b(2)]
  obtain pos where pos: "free_slot P (load_bucket P (m_states m) (b * ksize P)) (b * ksize P) = Some pos"
    "pos < length (m_states m)" "pos div ksize P = b" "m_states m ! pos = empty_state"
    by (rule free_slot_empty_bucket [OF sh b(1) un e'])
  have here: "placed P (m_bucket_mask m) (m_states m) h (pos div ksize P * ksize P)"
    unfolding placed_def using n pre b(2) pos(3) by (intro exI [of _ n]) simp
  have t: "\<not> mk_has_next (kn_mask_ops (pm_kernel P)) (kn_mask_tombstone (pm_kernel P) (load_bucket P (m_states m) (b * ksize P)))"
    using un b(1) e' by (auto simp: tombstone_next(1) [OF sh b(1)] unmixed_def)
  show ?thesis
  proof (cases "m_num_tombstone m \<noteq> 0 \<and> ins_state P m h n \<noteq> None")
    case True
    then obtain p where p: "ins_state P m h n = Some p" by auto
    have pf: "p < length (m_states m)" "m_states m ! p = tombstone_state"
      and "\<exists>j<n. probe_off P (m_bucket_mask m) h j = p div ksize P * ksize P"
      using ins_state_Some [OF sh pre p] by simp_all
    then obtain j where j: "j < n" "probe_off P (m_bucket_mask m) h j = p div ksize P * ksize P" by blast
    have "placed P (m_bucket_mask m) (m_states m) h (p div ksize P * ksize P)"
      unfolding placed_def using j n pre by (intro exI [of _ j]) simp
    then show ?thesis
      using that [of p False] pf True p l' empty_next [OF sh b(1)] e'
      by (simp add: insert_bodies_def insert_vars_def insert_body_tombstones_def Let_def b(2))
  next
    case False
    then show ?thesis
      using that [of pos True] pos here t l'
      by (auto simp: insert_bodies_def insert_vars_def insert_body_tombstones_def insert_body_def Let_def b(2))
  qed
qed

lemma insert_lookup_Some:
  assumes "shape_ok P c m" and "b < length (m_states m) div ksize P" and "is_hash s"
    and "insert_lookup P m key (load_bucket P (m_states m) (b * ksize P)) s (b * ksize P) = Some pos"
  shows "pos \<in> occupied m \<and> key_at m pos = key \<and> \<not> has_duplicates P"
  using assms(4) find_in_bucket_Some [OF assms(1-3)] by (auto simp: insert_lookup_def split: if_splits)

text \<open>
  The insertion ends at the key, or, when no bucket up to the first one with an empty slot holds it
  (so that the key is absent), at a slot that is free and on the key's path.
\<close>

lemma insert_probe_ok:
  assumes sh: "shape_ok P c m" and ct: "counters_ok m" and un: "unmixed P (m_states m)" and sl: "slots_ok P m"
    and e: "empty_state \<in> set (m_states m)" and h: "h = pm_hash P key"
  obtains (found) n pos where "insert_probe P key h (2 ^ c) m = Some (seq_at P h n, Inr (Inl pos))"
      and "pos \<in> occupied m" and "key_at m pos = key" and "\<not> has_duplicates P"
  | (free) n pos is_empty where "insert_probe P key h (2 ^ c) m = Some (seq_at P h n, Inr (Inr (pos, is_empty)))"
      and "pos < length (m_states m)" and "m_states m ! pos = (if is_empty then empty_state else tombstone_state)"
      and "placed P (m_bucket_mask m) (m_states m) h (pos div ksize P * ksize P)"
      and "\<And>q. \<not> has_duplicates P \<Longrightarrow> q \<in> occupied m \<Longrightarrow> key_at m q \<noteq> key"
proof -
  let ?s = "pm_state P h" and ?off = "probe_off P (m_bucket_mask m) h"
  let ?look = "\<lambda>i. insert_lookup P m key (load_bucket P (m_states m) (?off i)) ?s (?off i)"
  let ?emp = "\<lambda>i. empty_state \<in> set (bucket P (m_states m) (?off i))"
  have s: "is_hash ?s" by (simp add: pm_state_def)
  obtain i where i: "i < length (m_states m) div ksize P" "?emp i" by (rule empty_reached [OF sh e])
  define n where "n = (LEAST i. ?emp i \<or> ?look i \<noteq> None)"
  have n: "?emp n \<or> ?look n \<noteq> None" unfolding n_def by (rule LeastI [of _ i]) (simp add: i(2))
  have le: "n \<le> i" unfolding n_def by (rule Least_le) (simp add: i(2))
  have pre: "\<not> ?emp j" "?look j = None" if "j < n" for j
    using not_less_Least [of j "\<lambda>i. ?emp i \<or> ?look i \<noteq> None"] that unfolding n_def by auto
  have cont: "insert_bodies m key ?s (?off j) (seq_at P h j) (insert_vars m h j) = Inl (insert_vars m h (Suc j))" if "j < n" for j
    by (rule insert_body_continues [OF sh ct pre(1) [OF that] pre(2) [OF that]])
  have pr: "insert_probe P key h (2 ^ c) m = probe P (m_bucket_mask m) h (insert_bodies m key ?s) (insert_vars m h 0)"
  proof -
    have "make_aligned_mask (2 ^ c) (int (ksize P)) = m_bucket_mask m" using sh by (simp add: shape_ok_def size_power)
    then show ?thesis by (simp add: insert_probe_def insert_bodies_def insert_vars_def)
  qed
  have scan: "insert_probe P key h (2 ^ c) m = Some (seq_at P h n, Inr r)"
    if "insert_bodies m key ?s (?off n) (seq_at P h n) (insert_vars m h n) = Inr r" for r
    unfolding pr using cont that by (rule probe_scan)
  obtain b where b: "b < length (m_states m) div ksize P" "?off n = b * ksize P" by (rule probe_off_bucket [OF sh])
  show ?thesis
  proof (cases "?look n")
    case (Some pos)
    then have "insert_bodies m key ?s (?off n) (seq_at P h n) (insert_vars m h n) = Inr (Inl pos)"
      by (simp add: insert_bodies_def insert_body_tombstones_def insert_body_def Let_def)
    then show ?thesis using found [of n pos] scan insert_lookup_Some [OF sh b(1) s] Some b(2) by simp
  next
    case None
    then have en: "?emp n" using n by simp
    obtain pos is_empty where p: "insert_bodies m key ?s (?off n) (seq_at P h n) (insert_vars m h n) = Inr (Inr (pos, is_empty))"
      "pos < length (m_states m)" "m_states m ! pos = (if is_empty then empty_state else tombstone_state)"
      "placed P (m_bucket_mask m) (m_states m) h (pos div ksize P * ksize P)"
      by (rule insert_body_leaves [OF sh ct un en pre(1) None]) (use le i(1) in simp_all)
    have "key_at m q \<noteq> key" if nd: "\<not> has_duplicates P" and q: "q \<in> occupied m" for q
    proof
      assume k: "key_at m q = key"
      have st: "m_states m ! q = ?s" and "placed P (m_bucket_mask m) (m_states m) h (q div ksize P * ksize P)"
        using sl q k h by (auto simp: slots_ok_def)
      then obtain l where l: "?off l = q div ksize P * ksize P" "\<And>j. j < l \<Longrightarrow> \<not> ?emp j" by (auto simp: placed_def)
      have "l \<le> n" using l(2) en by (meson not_le_imp_less)
      then have "?look l = None" using pre(2) None by (cases "l = n") simp_all
      then have "find_in_bucket P (m_keys m) key (load_bucket P (m_states m) (?off l)) ?s (?off l) = None"
        using nd by (simp add: insert_lookup_def)
      then show False
        using find_in_bucket_None [OF sh _ s, of "q div ksize P" key q] st k l(1)
          pos_bucket [OF sh occupied_bound [OF q]] by simp
    qed
    then show ?thesis using free [of n pos is_empty] scan [OF p(1)] p(2-4) by blast
  qed
qed

section \<open>The insertion\<close>

lemma place_key_ok:
  assumes inv: "map_inv P m" and pos: "pos < length (m_states m)"
    and st: "m_states m ! pos = (if is_empty then empty_state else tombstone_state)"
    and pl: "placed P (m_bucket_mask m) (m_states m) (pm_hash P key) (pos div ksize P * ksize P)"
    and fresh: "\<And>q. \<not> has_duplicates P \<Longrightarrow> q \<in> occupied m \<Longrightarrow> key_at m q \<noteq> key"
    and room: "is_empty \<Longrightarrow> 2 \<le> m_num_empty m"
  defines "m' \<equiv> place_key key (pm_state P (pm_hash P key)) pos is_empty m"
  shows "map_inv P m'" and "entries m' = add_mset (key, value_at m pos, blob_at m pos) (entries m)"
    and "pos \<in> occupied m'" and "key_at m' pos = key" and "entry_at m' pos = (key, value_at m pos, blob_at m pos)"
proof -
  let ?s = "pm_state P (pm_hash P key)"
  obtain c where c: "shape_ok P c m" "conf_ok (kbits P) (m_conf m)" "min_capacity (m_conf m) \<le> 2 ^ c"
    "m_grow_threshold m = grow_threshold (m_conf m) (2 ^ c)" "unmixed P (m_states m)" "slots_ok P m" "keys_ok P m"
    "counters_ok m" by (rule map_invD [OF inv])
  have h: "is_hash ?s" "?s \<noteq> empty_state" "?s \<noteq> tombstone_state"
    using is_hash_neq [of ?s] by (simp_all add: pm_state_def)
  have npos: "pos \<notin> occupied m" using st by (simp add: occupied_def split: if_splits)
  have len: "length (m_keys m) = length (m_states m)" using c(1) by (simp add: shape_ok_def)
  have occ: "occupied m' = insert pos (occupied m)"
    using pos h(1) by (auto simp: occupied_def m'_def nth_list_update_if split: if_splits)
  show k: "key_at m' pos = key" using pos len by (simp add: key_at_def m'_def)
  show "pos \<in> occupied m'" by (simp add: occ)
  have other: "entry_at m' q = entry_at m q" if "q \<in> occupied m" for q
  proof -
    have "q \<noteq> pos" using that npos by blast
    then show ?thesis by (simp add: entry_at_def key_at_def value_at_def blob_at_def m'_def)
  qed
  show "entry_at m' pos = (key, value_at m pos, blob_at m pos)"
    using k by (simp add: entry_at_def value_at_def blob_at_def m'_def)
  then show ent: "entries m' = add_mset (key, value_at m pos, blob_at m pos) (entries m)"
    using entries_insert [OF occ npos other] by simp
  show "map_inv P m'"
    unfolding map_inv_def
  proof (intro conjI exI [of _ c])
    have "valid_states ((m_states m)[pos := ?s])"
      using shape_buckets(6) [OF set_state_shape [OF c(1), of ?s pos]] h(1) by simp
    then show "shape_ok P c m'" using c(1) by (simp add: shape_ok_def m'_def)
    show "conf_ok (kbits P) (m_conf m')" "min_capacity (m_conf m') \<le> 2 ^ c"
      "m_grow_threshold m' = grow_threshold (m_conf m') (2 ^ c)" using c(2-4) by (simp_all add: m'_def)
    show "unmixed P (m_states m')" unfolding m'_def place_key_simps by (rule unmixed_update [OF c(5) pos]) (use h in simp_all)
    have "key_at m' q = key_at m q" if "q \<in> occupied m" for q using other [OF that] by (simp add: entry_at_def)
    then show "slots_ok P m'"
      by (intro slots_ok_fill [OF c(1,6) pos npos _ _ k _ pl]) (simp_all add: m'_def)
    have "count (image_mset fst (entries m)) key = 0" if "\<not> has_duplicates P"
      unfolding not_in_iff [symmetric]
    proof
      assume "key \<in># image_mset fst (entries m)"
      then obtain q where "q \<in> occupied m" "key_at m q = key" by (auto simp: entries_def entry_at_def)
      then show False using fresh [OF that] by blast
    qed
    moreover have "count (image_mset fst (entries m')) x
        = (if x = key then Suc (count (image_mset fst (entries m)) x) else count (image_mset fst (entries m)) x)" for x
      by (simp add: ent)
    ultimately show "keys_ok P m'"
      using c(7) unfolding keys_ok_entries by auto
    show "counters_ok m'"
      using c(8) st h by (simp add: counters_ok_def m'_def count_states_update [OF pos])
    show "1 \<le> m_num_empty m'" using room inv by (cases is_empty) (simp_all add: m'_def map_inv_def)
  qed
qed

text \<open>A table that is not full has two empty slots; after a preemptive growth it is not full.\<close>

lemma not_full_room:
  assumes "map_inv P m" and "\<not> is_full m"
  shows "2 \<le> m_num_empty m"
proof -
  obtain c where c: "shape_ok P c m" "conf_ok (kbits P) (m_conf m)" "min_capacity (m_conf m) \<le> 2 ^ c"
    "m_grow_threshold m = grow_threshold (m_conf m) (2 ^ c)" by (rule map_invD [OF assms(1)])
  have "kbits P \<le> 62" using shape_buckets(4,5) [OF c(1)] by simp
  then have "1 \<le> m_grow_threshold m" unfolding c(4) using grow_threshold_bounds(1) [OF c(2) _ c(3)] by simp
  then show ?thesis using assms(2) by (simp add: is_full_def should_grow_precalc_def)
qed

lemma grown_room:
  assumes inv: "map_inv P m" and inv': "map_inv P m'" and ent: "entries m' = entries m"
    and cap: "2 * capacity P m \<le> capacity P m'" and ts: "m_num_tombstone m' = 0"
  shows "\<not> is_full m'"
proof -
  obtain c where c: "shape_ok P c m'" "capacity P m' = 2 ^ c" "conf_ok (kbits P) (m_conf m')" "min_capacity (m_conf m') \<le> 2 ^ c"
    "m_grow_threshold m' = grow_threshold (m_conf m') (2 ^ c)" by (rule map_invD [OF inv'])
  have "1 \<le> m_num_empty m" "0 \<le> m_num_tombstone m" using inv by (simp_all add: map_inv_def counters_ok_def)
  then have "int (size (entries m)) < capacity P m"
    using map_size_entries [OF inv] by (simp add: num_not_hash_slots_def)
  moreover have "m_num_empty m' = capacity P m' - int (size (entries m))"
    using map_size_entries [OF inv'] ent ts by (simp add: num_not_hash_slots_def)
  moreover have "2 * m_grow_threshold m' \<le> capacity P m'"
    using grow_threshold_bounds(3) [OF c(3) _ c(4)] shape_buckets(4,5) [OF c(1)] c(2,5) by simp
  ultimately show ?thesis using cap by (simp add: is_full_def should_grow_precalc_def)
qed

lemma preemptive_growth_ok:
  assumes inv: "map_inv P m" and cap: "capacity P m \<le> 2 ^ 61"
  obtains m' where "(if is_full m then resize_map P (2 * capacity P m) m else Some (Inr (capacity P m, m)))
      = Some (Inr (capacity P m', m'))"
    and "map_inv P m'" and "entries m' = entries m" and "2 \<le> m_num_empty m'" and "m_conf m' = m_conf m"
proof (cases "is_full m")
  case True
  obtain c where c: "shape_ok P c m" "capacity P m = 2 ^ c" by (rule map_invD [OF inv])
  have "(2 :: int) ^ c \<le> 2 ^ 61" using c(2) cap by simp
  then have "Suc c \<le> 62" by (simp only: power_le_iff_2)
  then obtain m' where m': "resize_map P (2 ^ Suc c) m = Some (Inr (capacity P m', m'))" "map_inv P m'"
    "entries m' = entries m" "2 ^ Suc c \<le> capacity P m'" "m_conf m' = m_conf m"
    "capacity P m' = capacity P m \<and> m' = m \<or> m_num_tombstone m' = 0"
    by (rule resize_map_ok [OF inv cap])
  have "2 * capacity P m \<le> capacity P m'" using m'(4) c(2) by simp
  moreover from this have "m_num_tombstone m' = 0" using m'(6) c(2) by auto
  ultimately have "2 \<le> m_num_empty m'" using not_full_room [OF m'(2)] grown_room [OF inv m'(2,3)] by blast
  then show ?thesis using that [of m'] m' True c(2) by simp
qed (use that [of m] inv not_full_room in simp)

lemma insert_loop_ok:
  assumes inv: "map_inv P m" and room: "2 \<le> m_num_empty m" and h: "h = pm_hash P key"
  obtains (found) n pos where "insert_loop P key h (capacity P m) m = Some (Inr (Inl pos, seq_at P h n, m))"
      and "pos \<in> occupied m" and "key_at m pos = key" and "\<not> has_duplicates P"
  | (free) n pos is_empty where "insert_loop P key h (capacity P m) m = Some (Inr (Inr (pos, is_empty), seq_at P h n, m))"
      and "pos < length (m_states m)" and "m_states m ! pos = (if is_empty then empty_state else tombstone_state)"
      and "placed P (m_bucket_mask m) (m_states m) h (pos div ksize P * ksize P)"
      and "\<And>q. \<not> has_duplicates P \<Longrightarrow> q \<in> occupied m \<Longrightarrow> key_at m q \<noteq> key"
proof -
  obtain c where c: "shape_ok P c m" "capacity P m = 2 ^ c" "unmixed P (m_states m)" "slots_ok P m" "counters_ok m"
    "empty_state \<in> set (m_states m)" by (rule map_invD [OF inv])
  show ?thesis
  proof (rule insert_probe_ok [OF c(1,5,3,4,6) h])
    fix n pos assume p: "insert_probe P key h (2 ^ c) m = Some (seq_at P h n, Inr (Inl pos))"
      "pos \<in> occupied m" "key_at m pos = key" "\<not> has_duplicates P"
    have "insert_loop P key h (2 ^ c) m = Some (Inr (Inl pos, seq_at P h n, m))"
      by (subst insert_loop.simps) (simp add: p(1))
    then show ?thesis using found [of pos n] p c(2) by simp
  next
    fix n pos is_empty assume p: "insert_probe P key h (2 ^ c) m = Some (seq_at P h n, Inr (Inr (pos, is_empty)))"
      "pos < length (m_states m)" "m_states m ! pos = (if is_empty then empty_state else tombstone_state)"
      "placed P (m_bucket_mask m) (m_states m) h (pos div ksize P * ksize P)"
      "\<And>q. \<not> has_duplicates P \<Longrightarrow> q \<in> occupied m \<Longrightarrow> key_at m q \<noteq> key"
    have "insert_loop P key h (2 ^ c) m = Some (Inr (Inr (pos, is_empty), seq_at P h n, m))"
      by (subst insert_loop.simps) (simp add: p(1))
    then show ?thesis using free [of pos is_empty n] p(2-5) c(2) by simp
  qed
qed

lemma insert_key_at:
  assumes inv: "map_inv P m" and cap: "capacity P m \<le> 2 ^ 61" and nan: "\<not> pm_is_nan P key"
  obtains pos op n m' where "insert_key P key (pm_hash P key) m = Some (Inr ((pos, op, seq_at P (pm_hash P key) n), m'))"
    and "map_inv P m'" and "pos \<in> occupied m'" and "key_at m' pos = key" and "m_conf m' = m_conf m"
    and "op = Op_found \<and> \<not> has_duplicates P \<and> entries m' = entries m \<and> key \<in># image_mset fst (entries m)
      \<or> op = Op_insert \<and> entries m' = add_mset (entry_at m' pos) (entries m)
        \<and> (has_duplicates P \<or> key \<notin># image_mset fst (entries m))"
proof -
  let ?h = "pm_hash P key"
  obtain m1 where m1: "(if is_full m then resize_map P (2 * capacity P m) m else Some (Inr (capacity P m, m)))
      = Some (Inr (capacity P m1, m1))"
    "map_inv P m1" "entries m1 = entries m" "2 \<le> m_num_empty m1" "m_conf m1 = m_conf m"
    by (rule preemptive_growth_ok [OF inv cap])
  have keys: "image_mset fst (entries m) = image_mset (key_at m1) (mset_set (occupied m1))"
    unfolding m1(3) [symmetric] by (simp add: entries_def entry_at_def image_mset.compositionality comp_def)
  show ?thesis
  proof (rule insert_loop_ok [OF m1(2,4) refl])
    fix n pos assume p: "insert_loop P key ?h (capacity P m1) m1 = Some (Inr (Inl pos, seq_at P ?h n, m1))"
      "pos \<in> occupied m1" "key_at m1 pos = key" "\<not> has_duplicates P"
    then have "insert_key P key ?h m = Some (Inr ((pos, Op_found, seq_at P ?h n), m1))"
      using nan m1(1) by (simp add: insert_key_def)
    then show ?thesis using that [of pos Op_found n m1] m1 p keys by auto
  next
    fix n pos is_empty assume p: "insert_loop P key ?h (capacity P m1) m1 = Some (Inr (Inr (pos, is_empty), seq_at P ?h n, m1))"
      "pos < length (m_states m1)" "m_states m1 ! pos = (if is_empty then empty_state else tombstone_state)"
      "placed P (m_bucket_mask m1) (m_states m1) ?h (pos div ksize P * ksize P)"
      "\<And>q. \<not> has_duplicates P \<Longrightarrow> q \<in> occupied m1 \<Longrightarrow> key_at m1 q \<noteq> key"
    let ?m' = "place_key key (pm_state P ?h) pos is_empty m1"
    have r: "insert_key P key ?h m = Some (Inr ((pos, Op_insert, seq_at P ?h n), ?m'))"
      using nan m1(1) p(1) by (simp add: insert_key_def)
    have k: "has_duplicates P \<or> key \<notin># image_mset fst (entries m)" using p(5) unfolding keys by auto
    show ?thesis
      using that [OF r] place_key_ok [OF m1(2) p(2-5)] m1(3-5) k by fastforce
  qed
qed

lemma insert_key_ok:
  assumes inv: "map_inv P m" and cap: "capacity P m \<le> 2 ^ 61" and nan: "\<not> pm_is_nan P key"
  obtains pos op n m' where "insert_key P key (pm_hash P key) m = Some (Inr ((pos, op, seq_at P (pm_hash P key) n), m'))"
    and "map_inv P m'" and "pos \<in> occupied m'" and "key_at m' pos = key" and "m_conf m' = m_conf m"
    and "op = Op_found \<and> \<not> has_duplicates P \<and> entries m' = entries m \<and> key \<in># image_mset fst (entries m)
      \<or> op = Op_insert \<and> (\<exists>v b. entries m' = add_mset (key, v, b) (entries m))
        \<and> (has_duplicates P \<or> key \<notin># image_mset fst (entries m))"
proof -
  obtain pos op n m' where i: "insert_key P key (pm_hash P key) m = Some (Inr ((pos, op, seq_at P (pm_hash P key) n), m'))"
    "map_inv P m'" "pos \<in> occupied m'" "key_at m' pos = key" "m_conf m' = m_conf m"
    and e: "op = Op_found \<and> \<not> has_duplicates P \<and> entries m' = entries m \<and> key \<in># image_mset fst (entries m)
      \<or> op = Op_insert \<and> entries m' = add_mset (entry_at m' pos) (entries m)
        \<and> (has_duplicates P \<or> key \<notin># image_mset fst (entries m))"
    by (rule insert_key_at [OF inv cap nan])
  have "entry_at m' pos = (key, value_at m' pos, blob_at m' pos)" using i(4) by (simp add: entry_at_def)
  then show ?thesis using that [OF i] e by metis
qed

end

end
