(* ===== verification/MapScrub.thy ===== *)
theory MapScrub
  imports MapInsert
begin

text \<open>
  Scrubbing: each move brings an entry strictly closer to the start of its probe path, so the
  passes end; entries and invariant are kept. When a pass has moved at most one entry, the
  buckets an entry has passed by were full when it was visited, so with two or more slots in a
  bucket none of them can consist of tombstones only, and emptying the dead buckets cuts no path.
\<close>

definition num_free :: "('k, 'v, 'r, 'l, 'm, 'q) map_params \<Rightarrow> state_t list \<Rightarrow> nat \<Rightarrow> nat" where
  "num_free P states off = length (filter is_not_hash (bucket P states off))"

text \<open>A visited entry: the buckets before its own have no empty slot and at most \<open>d\<close> free ones.\<close>

definition scrubbed ::
    "('k, 'v, 'r, 'l, 'm, 'q) map_params \<Rightarrow> ('k, 'v) map_state \<Rightarrow> int \<Rightarrow> int \<Rightarrow> nat \<Rightarrow> bool" where
  "scrubbed P m d z pos \<longleftrightarrow> (\<exists>l < length (m_states m) div ksize P.
     probe_off P (m_bucket_mask m) (pm_hash P (key_at m pos)) l = pos div ksize P * ksize P
     \<and> (z = 0 \<longrightarrow> l = 0)
     \<and> (\<forall>j<l. empty_state \<notin> set (bucket P (m_states m) (probe_off P (m_bucket_mask m) (pm_hash P (key_at m pos)) j))
          \<and> int (num_free P (m_states m) (probe_off P (m_bucket_mask m) (pm_hash P (key_at m pos)) j)) \<le> d))"

definition scrub_done ::
    "('k, 'v, 'r, 'l, 'm, 'q) map_params \<Rightarrow> ('k, 'v) scrub_state \<Rightarrow> int \<Rightarrow> nat set \<Rightarrow> bool" where
  "scrub_done P st d D \<longleftrightarrow> (\<forall>pos \<in> D \<inter> occupied (sc_map st). scrubbed P (sc_map st) d (sc_psl_bits st) pos)"

definition scrub_inv ::
    "('k, 'v, 'r, 'l, 'm, 'q) map_params \<Rightarrow> nat \<Rightarrow> ('k, 'v) map_state \<Rightarrow> ('k, 'v) scrub_state \<Rightarrow> bool" where
  "scrub_inv P c m0 st \<longleftrightarrow> shape_ok P c (sc_map st) \<and> m_conf (sc_map st) = m_conf m0
     \<and> m_grow_threshold (sc_map st) = m_grow_threshold m0 \<and> slots_ok P (sc_map st) \<and> unmixed P (m_states (sc_map st))
     \<and> entries (sc_map st) = entries m0 \<and> sc_num_empty st = count_states empty_state (m_states (sc_map st))
     \<and> sc_num_tombstone st = count_states tombstone_state (m_states (sc_map st))
     \<and> empty_state \<in> set (m_states (sc_map st))"

text \<open>How far along their paths the entries are.\<close>

definition path_index :: "('k, 'v, 'r, 'l, 'm, 'q) map_params \<Rightarrow> ('k, 'v) map_state \<Rightarrow> nat \<Rightarrow> nat" where
  "path_index P m pos = (LEAST i. probe_off P (m_bucket_mask m) (pm_hash P (key_at m pos)) i = pos div ksize P * ksize P)"

definition path_sum :: "('k, 'v, 'r, 'l, 'm, 'q) map_params \<Rightarrow> ('k, 'v) map_state \<Rightarrow> nat" where
  "path_sum P m = (\<Sum>pos\<in>occupied m. path_index P m pos)"

lemma length_filter_update:
  "length (filter Q (xs[i := x])) \<le> length (filter Q xs) + of_bool (Q x)"
proof (cases "i < length xs")
  case True
  have "length (filter Q (xs[i := x])) = length (filter Q (take i xs)) + of_bool (Q x) + length (filter Q (drop (Suc i) xs))"
    by (simp add: upd_conv_take_nth_drop [OF True])
  moreover have "length (filter Q xs) = length (filter Q (take i xs)) + of_bool (Q (xs ! i)) + length (filter Q (drop (Suc i) xs))"
    using arg_cong [OF id_take_nth_drop [OF True], of "\<lambda>ys. length (filter Q ys)"] by simp
  ultimately show ?thesis by simp
qed (simp add: list_update_beyond)

context swiss_map
begin

lemma num_free_update:
  assumes "b < length states div ksize P"
  shows "num_free P (states[pos := s]) (b * ksize P)
    \<le> num_free P states (b * ksize P) + of_bool (pos div ksize P = b \<and> \<not> is_hash s)"
  using length_filter_update [of is_not_hash "bucket P states (b * ksize P)" "pos mod ksize P" s]
  by (auto simp: num_free_def bucket_update_at [OF assms])

lemma num_free_0: "num_free P states off = 0 \<longleftrightarrow> (\<forall>s \<in> set (bucket P states off). is_hash s)"
  by (auto simp: num_free_def filter_empty_conv)

lemma free_slot_None:
  assumes "shape_ok P c m" and "b < length (m_states m) div ksize P"
  shows "free_slot P (load_bucket P (m_states m) (b * ksize P)) (b * ksize P) = None
    \<longleftrightarrow> num_free P (m_states m) (b * ksize P) = 0"
proof (rule free_slot_cases [OF assms])
  fix pos assume p: "free_slot P (load_bucket P (m_states m) (b * ksize P)) (b * ksize P) = Some pos"
    "pos < length (m_states m)" "pos div ksize P = b" "\<not> is_hash (m_states m ! pos)"
  have "m_states m ! pos \<in> set (bucket P (m_states m) (b * ksize P))"
    unfolding in_bucket_conv [OF bucket_end [OF assms]]
    using p(3) by (intro exI [of _ "pos mod ksize P"]) auto
  with p show ?thesis by (auto simp: num_free_0)
qed (auto simp: num_free_0)

section \<open>One entry\<close>

definition scrub_body :: "('k, 'v) map_state \<Rightarrow> nat \<Rightarrow> nat \<Rightarrow> 'q \<Rightarrow> unit \<Rightarrow> unit + nat option" where
  "scrub_body m old_off = (\<lambda>new_off seq u. if new_off = old_off then Inr None
     else case free_slot P (load_bucket P (m_states m) new_off) new_off of
         Some new_pos \<Rightarrow> Inr (Some new_pos) | None \<Rightarrow> Inl ())"

lemma scrub_probe_ok:
  assumes sh: "shape_ok P c m" and sl: "slots_ok P m" and pos: "pos \<in> occupied m" and h: "h = pm_hash P (key_at m pos)"
    and off: "old_off = pos div ksize P * ksize P"
  obtains (stay) n where "probe P (m_bucket_mask m) h (scrub_body m old_off) () = Some (seq_at P h n, Inr None)"
      and "probe_off P (m_bucket_mask m) h n = old_off" and "n < length (m_states m) div ksize P"
      and "\<And>j. j < n \<Longrightarrow> empty_state \<notin> set (bucket P (m_states m) (probe_off P (m_bucket_mask m) h j))
        \<and> num_free P (m_states m) (probe_off P (m_bucket_mask m) h j) = 0"
  | (move) n new where "probe P (m_bucket_mask m) h (scrub_body m old_off) () = Some (seq_at P h n, Inr (Some new))"
      and "probe_off P (m_bucket_mask m) h n = new div ksize P * ksize P" and "n < length (m_states m) div ksize P"
      and "new < length (m_states m)" and "m_states m ! new = tombstone_state" and "new div ksize P \<noteq> pos div ksize P"
      and "\<And>i. probe_off P (m_bucket_mask m) h i = old_off \<Longrightarrow> n < i"
      and "\<And>j. j \<le> n \<Longrightarrow> empty_state \<notin> set (bucket P (m_states m) (probe_off P (m_bucket_mask m) h j))"
      and "\<And>j. j < n \<Longrightarrow> num_free P (m_states m) (probe_off P (m_bucket_mask m) h j) = 0"
proof -
  let ?off = "probe_off P (m_bucket_mask m) h" and ?body = "scrub_body m old_off"
  have "placed P (m_bucket_mask m) (m_states m) h old_off" using sl pos h off by (simp add: slots_ok_def)
  then obtain l where l: "l < length (m_states m) div ksize P" "?off l = old_off"
    "\<And>j. j < l \<Longrightarrow> empty_state \<notin> set (bucket P (m_states m) (?off j))" by (auto simp: placed_def)
  have stop: "?body (?off i) (seq_at P h i) () = Inr None" if "?off i = old_off" for i
    using that by (simp add: scrub_body_def)
  obtain n r where n: "n \<le> l" "probe P (m_bucket_mask m) h ?body () = Some (seq_at P h n, Inr r)"
    "?body (?off n) (seq_at P h n) () = Inr r" "\<And>j. j < n \<Longrightarrow> ?body (?off j) (seq_at P h j) () = Inl ()"
    by (rule probe_first [where body = ?body and bm = "m_bucket_mask m" and i = l, OF stop [OF l(2)]]) blast
  obtain b where b: "b < length (m_states m) div ksize P" "?off n = b * ksize P" by (rule probe_off_bucket [OF sh])
  have passed: "num_free P (m_states m) (?off j) = 0" if "j < n" for j
  proof -
    obtain b' where b': "b' < length (m_states m) div ksize P" "?off j = b' * ksize P" by (rule probe_off_bucket [OF sh])
    have "free_slot P (load_bucket P (m_states m) (?off j)) (?off j) = None"
      using n(4) [OF that] by (auto simp: scrub_body_def split: if_splits option.splits)
    then show ?thesis using free_slot_None [OF sh b'(1)] b'(2) by simp
  qed
  have nl: "n < length (m_states m) div ksize P" using n(1) l(1) by simp
  show ?thesis
  proof (cases r)
    case None
    then have "?off n = old_off" using n(3) by (simp add: scrub_body_def split: if_splits option.splits)
    then show ?thesis using stay [of n] n(2) None l(3) n(1) nl passed by (meson less_le_trans)
  next
    case (Some new)
    then have ne: "?off n \<noteq> old_off" and fs: "free_slot P (load_bucket P (m_states m) (b * ksize P)) (b * ksize P) = Some new"
      using n(3) b(2) by (auto simp: scrub_body_def split: if_splits option.splits)
    have new: "new < length (m_states m)" "new div ksize P = b" "\<not> is_hash (m_states m ! new)"
      by (rule free_slot_cases [OF sh b(1)]; simp add: fs)+
    have "n < l" using ne l(2) n(1) by (cases "n = l") auto
    then have e: "empty_state \<notin> set (bucket P (m_states m) (?off j))" if "j \<le> n" for j using l(3) that by simp
    have "m_states m ! new \<in> set (bucket P (m_states m) (b * ksize P))"
      unfolding in_bucket_conv [OF bucket_end [OF sh b(1)]] using new(2) by (intro exI [of _ "new mod ksize P"]) auto
    then have "m_states m ! new \<noteq> empty_state" using e [of n] b(2) by auto
    moreover have "valid_state (m_states m ! new)"
      using shape_buckets(6) [OF sh] nth_mem [OF new(1)] by (auto simp: valid_states_def list_all_iff)
    ultimately have "m_states m ! new = tombstone_state" using new(3) by (auto simp: valid_state_def)
    moreover have "new div ksize P \<noteq> pos div ksize P" using ne b(2) new(2) off by auto
    moreover have "n < i" if "?off i = old_off" for i
    proof (rule ccontr)
      assume "\<not> n < i"
      then have "i < n" using ne that by (cases "i = n") auto
      from n(4) [OF this] show False using stop [OF that] by simp
    qed
    ultimately show ?thesis using move [of n new] n(2) Some b(2) new(1,2) nl e passed by simp
  qed
qed

lemma bucket_empty_update:
  assumes b: "b < length states div ksize P" and pos: "pos < length states" "states ! pos \<noteq> empty_state"
    and s: "s = empty_state \<Longrightarrow> pos div ksize P = b \<Longrightarrow> empty_state \<in> set (bucket P states (b * ksize P))"
  shows "empty_state \<in> set (bucket P (states[pos := s]) (b * ksize P)) \<longleftrightarrow> empty_state \<in> set (bucket P states (b * ksize P))"
proof (cases "pos div ksize P = b")
  case True
  let ?B = "bucket P states (b * ksize P)" and ?i = "pos mod ksize P"
  have i: "?i < length ?B" by (simp add: length_bucket [OF b])
  have "pos = b * ksize P + ?i" using True by auto
  then have at: "?B ! ?i \<noteq> empty_state" using pos nth_bucket [of "b * ksize P" ?i states] by simp
  have "x \<in> set (?B[?i := s]) \<longleftrightarrow> x \<in> set ?B" if "?B ! ?i \<noteq> x" "s \<noteq> x \<or> x \<in> set ?B" for x
    using that i by (auto simp: in_set_conv_nth nth_list_update_if split: if_splits)
  then show ?thesis using at s True by (simp add: bucket_update_at [OF b])
qed (simp add: bucket_update_at [OF b])

section \<open>A move\<close>

lemma scrub_move_ok:
  assumes inv: "scrub_inv P c m0 st" and m: "m = sc_map st" and old: "old \<in> occupied m" and h: "h = pm_hash P (key_at m old)"
    and new: "new < length (m_states m)" "m_states m ! new = tombstone_state" "new div ksize P \<noteq> old div ksize P"
    and he: "kn_has_empty (pm_kernel P) old_k \<longleftrightarrow> empty_state \<in> set (bucket P (m_states m) (old div ksize P * ksize P))"
    and n: "probe_off P (m_bucket_mask m) h n = new div ksize P * ksize P" "n < length (m_states m) div ksize P"
    and path: "\<forall>j\<le>n. empty_state \<notin> set (bucket P (m_states m) (probe_off P (m_bucket_mask m) h j))"
    and st': "st' = scrub_move P h old_k old new st" and m': "m' = sc_map st'"
  shows "scrub_inv P c m0 st'"
    and "m_states m' = (m_states m)[new := pm_state P h, old := if kn_has_empty (pm_kernel P) old_k then empty_state else tombstone_state]"
    and "occupied m' = insert new (occupied m - {old})"
    and "\<And>q. q \<in> occupied m' \<Longrightarrow> key_at m' q = (if q = new then key_at m old else key_at m q)"
    and "\<And>b. b < length (m_states m) div ksize P \<Longrightarrow>
      empty_state \<in> set (bucket P (m_states m') (b * ksize P)) \<longleftrightarrow> empty_state \<in> set (bucket P (m_states m) (b * ksize P))"
    and "m_bucket_mask m' = m_bucket_mask m" and "sc_num_moves st' = sc_num_moves st + 1" and "sc_psl_bits st' = sc_psl_bits st"
proof -
  let ?he = "kn_has_empty (pm_kernel P) old_k" and ?s = "pm_state P h"
  let ?t = "if ?he then empty_state else tombstone_state"
  let ?m1 = "set_state new ?s m" and ?len = "length (m_states m)"
  have sh: "shape_ok P c m" and sl: "slots_ok P m" and un: "unmixed P (m_states m)"
    and ct: "sc_num_empty st = count_states empty_state (m_states m)" "sc_num_tombstone st = count_states tombstone_state (m_states m)"
    using inv m by (simp_all add: scrub_inv_def)
  have oldb: "old < ?len" "is_hash (m_states m ! old)" using old by (simp_all add: occupied_def)
  have hs: "is_hash ?s" by (simp add: pm_state_def)
  have ne: "new \<noteq> old" using new(3) by auto
  have me: "m' = set_state old ?t (copy_entry m old new ?m1)"
    by (simp add: m' st' scrub_move_def m Let_def)
  show states: "m_states m' = (m_states m)[new := ?s, old := ?t]" by (simp add: me)
  show bm: "m_bucket_mask m' = m_bucket_mask m" by (simp add: me)
  show "sc_num_moves st' = sc_num_moves st + 1" and "sc_psl_bits st' = sc_psl_bits st"
    by (simp_all add: st' scrub_move_def Let_def)
  have cf: "m_conf m' = m_conf m" "m_grow_threshold m' = m_grow_threshold m" by (simp_all add: me)
  have sh1: "shape_ok P c ?m1" using sh hs by (simp add: set_state_shape)
  have sh': "shape_ok P c m'"
    unfolding me by (rule set_state_shape, rule copy_entry_shape [OF sh1 sh]) (use new oldb in simp_all)
  have at: "entry_at m' q = (if q = new then entry_at m old else entry_at m q)" if "q < ?len" for q
    using copy_entry_at [OF sh1 sh, of new old q] that new(1) oldb(1) by (simp add: me)
  show occ: "occupied m' = insert new (occupied m - {old})"
    using new(1) hs ne unfolding occupied_def states by (auto simp: nth_list_update_if split: if_splits)
  have key: "key_at m' q = (if q = new then key_at m old else key_at m q)" if "q < ?len" for q
    using at [OF that] by (simp add: entry_at_def split: if_splits)
  have ltl: "q < ?len" if "q \<in> occupied m'" for q using that new(1) occupied_bound [of q m] unfolding occ by blast
  show "key_at m' q = (if q = new then key_at m old else key_at m q)" if "q \<in> occupied m'" for q
    using key [OF ltl [OF that]] .
  have e1: "empty_state \<in> set (bucket P ((m_states m)[new := ?s]) (b * ksize P)) \<longleftrightarrow> empty_state \<in> set (bucket P (m_states m) (b * ksize P))"
    if "b < ?len div ksize P" for b
    by (rule bucket_empty_update [OF that new(1)]) (use hs is_hash_neq new(2) in simp, use hs is_hash_neq in blast)
  have e2: "empty_state \<in> set (bucket P (m_states m') (b * ksize P)) \<longleftrightarrow> empty_state \<in> set (bucket P ((m_states m)[new := ?s]) (b * ksize P))"
    if "b < ?len div ksize P" for b
    unfolding states
  proof (rule bucket_empty_update)
    show "(m_states m)[new := ?s] ! old \<noteq> empty_state" using oldb ne by auto
    show "empty_state \<in> set (bucket P ((m_states m)[new := ?s]) (b * ksize P))" if "?t = empty_state" "old div ksize P = b"
      using e1 [OF \<open>b < ?len div ksize P\<close>] he that by (auto split: if_splits)
  qed (use that oldb in simp_all)
  show emp: "empty_state \<in> set (bucket P (m_states m') (b * ksize P)) \<longleftrightarrow> empty_state \<in> set (bucket P (m_states m) (b * ksize P))"
    if "b < ?len div ksize P" for b
    using e1 [OF that] e2 [OF that] by simp
  have mid: "slots_ok P (copy_entry m old new ?m1)"
  proof -
    have at1: "entry_at (copy_entry m old new ?m1) q = (if q = new then entry_at m old else entry_at m q)" if "q < ?len" for q
      using copy_entry_at [OF sh1 sh, of new old q] that new(1) oldb(1) by simp
    have "key_at (copy_entry m old new ?m1) q = (if q = new then key_at m old else key_at m q)" if "q < ?len" for q
      using at1 [OF that] by (simp add: entry_at_def split: if_splits)
    moreover have "placed P (m_bucket_mask m) (m_states m) h (new div ksize P * ksize P)"
      unfolding placed_def using n path by (intro exI [of _ n]) simp
    moreover have "new \<notin> occupied m" using new(2) by (simp add: occupied_def)
    ultimately show ?thesis
      using new(1) h by (intro slots_ok_fill [OF sh sl new(1), where key = "key_at m old"]) (auto simp: occupied_bound)
  qed
  have slots': "slots_ok P m'"
  proof (rule slots_ok_free [OF mid _ _ _ _ copy_entry_shape [OF sh1 sh]])
    fix q assume "q \<in> occupied m'"
    then show "q \<in> occupied (copy_entry m old new ?m1) \<and> m_states m' ! q = m_states (copy_entry m old new ?m1) ! q
        \<and> key_at m' q = key_at (copy_entry m old new ?m1) q"
      by (auto simp: me occupied_def nth_list_update_if key_at_def split: if_splits)
  next
    fix b assume "b < length (m_states (copy_entry m old new ?m1)) div ksize P"
      and "empty_state \<in> set (bucket P (m_states m') (b * ksize P))"
    then show "empty_state \<in> set (bucket P (m_states (copy_entry m old new ?m1)) (b * ksize P))" using e2 by simp
  qed (use new oldb in \<open>simp_all add: me\<close>)
  have un': "unmixed P (m_states m')"
    unfolding states
  proof (rule unmixed_update)
    show u1: "unmixed P ((m_states m)[new := ?s])" by (rule unmixed_update [OF un new(1)]) (use hs in auto)
    have ob: "old div ksize P < ?len div ksize P" by (rule pos_bucket [OF sh oldb(1)])
    show "tombstone_state \<notin> set (bucket P ((m_states m)[new := ?s]) (old div ksize P * ksize P))" if "?t = empty_state"
      using that u1 e1 [OF ob] he ob by (auto simp: unmixed_def split: if_splits)
    show "empty_state \<notin> set (bucket P ((m_states m)[new := ?s]) (old div ksize P * ksize P))" if "?t = tombstone_state"
      using that e1 [OF ob] he by (auto split: if_splits)
  qed (simp add: oldb)
  have ent: "entries m' = entries m"
  proof -
    have o2: "insert old (occupied m') = insert new (occupied m)" using occ old ne by auto
    let ?F = "\<lambda>q. if q = new then entry_at m old else entry_at m q"
    have "entries m' = image_mset ?F (mset_set (insert new (occupied m - {old})))"
      unfolding entries_def occ using at ltl [unfolded occ] by (intro image_mset_cong) simp
    also have "\<dots> = add_mset (entry_at m old) (image_mset ?F (mset_set (occupied m - {old})))"
      using new(2) by (simp add: occupied_def)
    also have "image_mset ?F (mset_set (occupied m - {old})) = image_mset (entry_at m) (mset_set (occupied m - {old}))"
      using new(2) by (intro image_mset_cong) (auto simp: occupied_def)
    also have "add_mset (entry_at m old) (image_mset (entry_at m) (mset_set (occupied m - {old}))) = entries m"
      using old by (simp add: entries_def mset_set.remove)
    finally show ?thesis .
  qed
  have "sc_num_empty st' = count_states empty_state (m_states m') \<and> sc_num_tombstone st' = count_states tombstone_state (m_states m')"
  proof -
    have c2: "count_states x (m_states m') = count_states x ((m_states m)[new := ?s]) - of_bool (m_states m ! old = x) + of_bool (?t = x)" for x
      unfolding states using oldb(1) ne by (subst count_states_update) simp_all
    show ?thesis
      using ct oldb hs new(2) by (auto simp: c2 count_states_update [OF new(1)] st' scrub_move_def Let_def dest!: is_hash_neq)
  qed
  moreover have "empty_state \<in> set (m_states m')"
  proof -
    obtain i where "empty_state \<in> set (bucket P (m_states m) (probe_off P (m_bucket_mask m) h i))"
      using empty_reached [OF sh, of h] inv m by (auto simp: scrub_inv_def)
    moreover obtain b where "b < ?len div ksize P" "probe_off P (m_bucket_mask m) h i = b * ksize P" by (rule probe_off_bucket [OF sh])
    ultimately show ?thesis using emp [of b] set_bucket by (metis subsetD)
  qed
  ultimately show "scrub_inv P c m0 st'"
    using inv sh' slots' un' ent cf unfolding scrub_inv_def m' [symmetric] m [symmetric] by simp
qed

lemma scrubbed_mono:
  assumes sc: "scrubbed P m d z q" and sh: "shape_ok P c m"
    and m': "m_bucket_mask m' = m_bucket_mask m" "length (m_states m') = length (m_states m)" "key_at m' q = key_at m q"
    and e: "\<And>b. b < length (m_states m) div ksize P \<Longrightarrow> empty_state \<in> set (bucket P (m_states m') (b * ksize P))
      \<Longrightarrow> empty_state \<in> set (bucket P (m_states m) (b * ksize P))"
    and f: "\<And>b. b < length (m_states m) div ksize P \<Longrightarrow>
      int (num_free P (m_states m') (b * ksize P)) \<le> int (num_free P (m_states m) (b * ksize P)) + (d' - d)"
    and z: "z' = 0 \<Longrightarrow> z = 0"
  shows "scrubbed P m' d' z' q"
proof -
  let ?h = "pm_hash P (key_at m q)" let ?off = "probe_off P (m_bucket_mask m) ?h"
  obtain l where l: "l < length (m_states m) div ksize P" "?off l = q div ksize P * ksize P" "z = 0 \<Longrightarrow> l = 0"
    "\<And>j. j < l \<Longrightarrow> empty_state \<notin> set (bucket P (m_states m) (?off j)) \<and> int (num_free P (m_states m) (?off j)) \<le> d"
    using sc by (auto simp: scrubbed_def)
  have "empty_state \<notin> set (bucket P (m_states m') (?off j)) \<and> int (num_free P (m_states m') (?off j)) \<le> d'" if "j < l" for j
  proof -
    obtain b where b: "b < length (m_states m) div ksize P" "?off j = b * ksize P" by (rule probe_off_bucket [OF sh])
    show ?thesis using l(4) [OF that] e [OF b(1)] f [OF b(1)] unfolding b(2) by auto
  qed
  then show ?thesis unfolding scrubbed_def m' using l(1-3) z by blast
qed

lemma scrub_one_ok:
  assumes inv: "scrub_inv P c m0 st" and pos: "pos = b * ksize P + i" "i < ksize P" "pos \<in> occupied (sc_map st)"
    and he: "kn_has_empty (pm_kernel P) old_k \<longleftrightarrow> empty_state \<in> set (bucket P (m_states (sc_map st)) (b * ksize P))"
    and dn: "scrub_done P st d D" and d: "0 \<le> d"
  obtains st' where "scrub_one P (2 ^ c) (b * ksize P) old_k i st = Some st'" and "scrub_inv P c m0 st'"
    and "sc_num_moves st \<le> sc_num_moves st'"
    and "scrub_done P st' (d + (sc_num_moves st' - sc_num_moves st)) (insert pos D)"
    and "int (path_sum P (sc_map st')) + (sc_num_moves st' - sc_num_moves st) \<le> int (path_sum P (sc_map st))"
    and "\<And>q. q div ksize P = b \<Longrightarrow> q \<noteq> pos \<Longrightarrow> m_states (sc_map st') ! q = m_states (sc_map st) ! q"
    and "empty_state \<in> set (bucket P (m_states (sc_map st')) (b * ksize P))
      \<longleftrightarrow> empty_state \<in> set (bucket P (m_states (sc_map st)) (b * ksize P))"
proof -
  define m where "m = sc_map st"
  let ?h = "pm_hash P (key_at m pos)" and ?nb = "length (m_states m) div ksize P"
  let ?off = "probe_off P (m_bucket_mask m) ?h"
  have sh: "shape_ok P c m" and sl: "slots_ok P m" using inv by (simp_all add: scrub_inv_def m_def)
  have occ: "pos \<in> occupied m" using pos(3) by (simp add: m_def)
  have pb: "pos div ksize P = b" using pos(1,2) by simp
  have b: "b < ?nb" using pos_bucket [OF sh occupied_bound [OF occ]] pb by simp
  have bm: "make_aligned_mask (2 ^ c) (int (ksize P)) = m_bucket_mask m" using sh by (simp add: shape_ok_def size_power)
  have one: "scrub_one P (2 ^ c) (b * ksize P) old_k i st = (case probe P (m_bucket_mask m) ?h (scrub_body m (b * ksize P)) () of
      None \<Rightarrow> None
    | Some (seq, r) \<Rightarrow> let st = (case r of Inr (Some new) \<Rightarrow> scrub_move P ?h old_k pos new st | _ \<Rightarrow> st)
        in Some (st\<lparr>sc_psl_bits := sc_psl_bits st OR pq_psl (pm_seq P) seq\<rparr>))"
    by (simp only: scrub_one_def Let_def bm scrub_body_def key_at_def pos(1) m_def)
  have psl: "pq_psl (pm_seq P) (seq_at P ?h n) = int n * 2 ^ kbits P" for n by (simp add: seq_at_def psl_iter)
  have z: "z = 0 \<and> n = 0" if "z OR (int n * 2 ^ kbits P) = 0" for z :: int and n :: nat
    using that by (simp add: or_eq_0_iff)
  show ?thesis
  proof (rule scrub_probe_ok [OF sh sl occ refl refl])
    fix n assume p: "probe P (m_bucket_mask m) ?h (scrub_body m (pos div ksize P * ksize P)) () = Some (seq_at P ?h n, Inr None)"
      "?off n = pos div ksize P * ksize P" "n < ?nb"
      "\<And>j. j < n \<Longrightarrow> empty_state \<notin> set (bucket P (m_states m) (?off j)) \<and> num_free P (m_states m) (?off j) = 0"
    let ?st' = "st\<lparr>sc_psl_bits := sc_psl_bits st OR (int n * 2 ^ kbits P)\<rparr>"
    have r: "scrub_one P (2 ^ c) (b * ksize P) old_k i st = Some ?st'" using p(1) pb by (simp add: one psl)
    have "scrub_done P ?st' (d + (sc_num_moves ?st' - sc_num_moves st)) (insert pos D)"
      unfolding scrub_done_def
    proof
      fix q assume q: "q \<in> insert pos D \<inter> occupied (sc_map ?st')"
      show "scrubbed P (sc_map ?st') (d + (sc_num_moves ?st' - sc_num_moves st)) (sc_psl_bits ?st') q"
      proof (cases "q = pos")
        case True
        have "sc_psl_bits ?st' = 0 \<Longrightarrow> n = 0" using z [of "sc_psl_bits st" n] by simp
        then show ?thesis using p(2-4) d True by (auto simp: scrubbed_def m_def [symmetric] intro!: exI [of _ n])
      next
        case False
        then have sc: "scrubbed P m d (sc_psl_bits st) q" using dn q by (auto simp: scrub_done_def m_def)
        show ?thesis by (rule scrubbed_mono [OF sc sh]) (use z [of "sc_psl_bits st" n] in \<open>simp_all add: m_def\<close>)
      qed
    qed
    then show ?thesis using that [of ?st'] r inv by (simp add: scrub_inv_def)
  next
    fix n new assume p: "probe P (m_bucket_mask m) ?h (scrub_body m (pos div ksize P * ksize P)) () = Some (seq_at P ?h n, Inr (Some new))"
      "?off n = new div ksize P * ksize P" "n < ?nb" "new < length (m_states m)" "m_states m ! new = tombstone_state"
      "new div ksize P \<noteq> pos div ksize P" "\<And>i. ?off i = pos div ksize P * ksize P \<Longrightarrow> n < i"
      "\<And>j. j \<le> n \<Longrightarrow> empty_state \<notin> set (bucket P (m_states m) (?off j))"
      "\<And>j. j < n \<Longrightarrow> num_free P (m_states m) (?off j) = 0"
    define st1 where "st1 = scrub_move P ?h old_k pos new st"
    let ?m' = "sc_map st1"
    let ?st' = "st1\<lparr>sc_psl_bits := sc_psl_bits st1 OR (int n * 2 ^ kbits P)\<rparr>"
    have he': "kn_has_empty (pm_kernel P) old_k \<longleftrightarrow> empty_state \<in> set (bucket P (m_states m) (pos div ksize P * ksize P))"
      using he pb by (simp add: m_def)
    have path: "\<forall>j\<le>n. empty_state \<notin> set (bucket P (m_states m) (?off j))" using p(8) by blast
    note mv = scrub_move_ok [OF inv m_def occ refl p(4-6) he' p(2,3) path st1_def refl]
    have r: "scrub_one P (2 ^ c) (b * ksize P) old_k i st = Some ?st'" using p(1) pb by (simp add: one psl st1_def Let_def)
    have len: "length (m_states ?m') = length (m_states m)" by (simp add: mv(2))
    have hs: "is_hash (pm_state P ?h)" by (simp add: pm_state_def)
    have nf: "int (num_free P (m_states ?m') (b' * ksize P)) \<le> int (num_free P (m_states m) (b' * ksize P)) + 1" if "b' < ?nb" for b'
    proof -
      have "num_free P ((m_states m)[new := pm_state P ?h, pos := t]) (b' * ksize P)
          \<le> num_free P ((m_states m)[new := pm_state P ?h]) (b' * ksize P) + 1" for t
        using num_free_update [of b' "(m_states m)[new := pm_state P ?h]" pos t] that
        by (cases "pos div ksize P = b' \<and> \<not> is_hash t") auto
      then have "num_free P (m_states ?m') (b' * ksize P) \<le> num_free P ((m_states m)[new := pm_state P ?h]) (b' * ksize P) + 1"
        unfolding mv(2) .
      moreover have "num_free P ((m_states m)[new := pm_state P ?h]) (b' * ksize P) \<le> num_free P (m_states m) (b' * ksize P)"
        using num_free_update [OF that, of new "pm_state P ?h"] hs by simp
      ultimately show ?thesis by simp
    qed
    have "scrub_done P ?st' (d + (sc_num_moves ?st' - sc_num_moves st)) (insert pos D)"
      unfolding scrub_done_def
    proof
      fix q assume q: "q \<in> insert pos D \<inter> occupied (sc_map ?st')"
      then have qo: "q \<in> occupied ?m'" by simp
      show "scrubbed P (sc_map ?st') (d + (sc_num_moves ?st' - sc_num_moves st)) (sc_psl_bits ?st') q"
      proof (cases "q = new")
        case True
        have k: "key_at ?m' new = key_at m pos" using mv(4) [OF qo] True by simp
        have "empty_state \<notin> set (bucket P (m_states ?m') (?off j)) \<and> int (num_free P (m_states ?m') (?off j)) \<le> d + 1" if "j < n" for j
        proof -
          obtain b' where b': "b' < ?nb" "?off j = b' * ksize P" by (rule probe_off_bucket [OF sh])
          show ?thesis using mv(5) [OF b'(1)] nf [OF b'(1)] p(8) [of j] p(9) [OF that] that d unfolding b'(2) by simp
        qed
        moreover have "sc_psl_bits ?st' = 0 \<Longrightarrow> n = 0" using z [of "sc_psl_bits st1" n] by simp
        ultimately show ?thesis
          using p(2,3) True k mv(6,7) len by (auto simp: scrubbed_def intro!: exI [of _ n])
      next
        case False
        then have "q \<in> D \<inter> occupied m" using q mv(3) by auto
        then have sc: "scrubbed P m d (sc_psl_bits st) q" using dn by (auto simp: scrub_done_def m_def)
        have "key_at ?m' q = key_at m q" using mv(4) [OF qo] False by simp
        moreover have "sc_psl_bits ?st' = 0 \<Longrightarrow> sc_psl_bits st = 0" using z [of "sc_psl_bits st1" n] mv(8) by simp
        ultimately show ?thesis by (intro scrubbed_mono [OF sc sh]) (use mv(5-7) nf len in simp_all)
      qed
    qed
    moreover have "path_sum P ?m' < path_sum P m"
    proof -
      have new: "new \<notin> occupied m" using p(5) by (simp add: occupied_def)
      have new': "new \<in> occupied ?m'" by (simp add: mv(3))
      have "path_index P ?m' new \<le> n"
        unfolding path_index_def mv(4) [OF new'] mv(6) by (rule Least_le) (simp add: p(2))
      moreover have "n < path_index P m pos"
      proof -
        obtain l where "?off l = pos div ksize P * ksize P" using sl occ by (auto simp: slots_ok_def placed_def)
        then have "?off (path_index P m pos) = pos div ksize P * ksize P" unfolding path_index_def by (rule LeastI)
        then show ?thesis by (rule p(7))
      qed
      moreover have "path_sum P ?m' = path_index P ?m' new + (\<Sum>q\<in>occupied m - {pos}. path_index P m q)"
      proof -
        have "path_index P ?m' q = path_index P m q" if "q \<in> occupied m - {pos}" for q
          using mv(4) [of q] mv(3) that new by (auto simp: path_index_def mv(6))
        then have "(\<Sum>q\<in>occupied m - {pos}. path_index P ?m' q) = (\<Sum>q\<in>occupied m - {pos}. path_index P m q)"
          by (rule sum.cong [OF refl])
        then show ?thesis unfolding path_sum_def mv(3) using new by simp
      qed
      moreover have "path_sum P m = path_index P m pos + (\<Sum>q\<in>occupied m - {pos}. path_index P m q)"
        unfolding path_sum_def using occ by (intro sum.remove) simp_all
      ultimately show ?thesis by simp
    qed
    moreover have "m_states ?m' ! q = m_states m ! q" if "q div ksize P = b" "q \<noteq> pos" for q
    proof -
      have "q \<noteq> new" using that(1) p(6) pb by auto
      then show ?thesis using that(2) by (simp add: mv(2))
    qed
    ultimately show ?thesis
      using that [of ?st'] r mv(1,5,7) b by (simp add: scrub_inv_def m_def)
  qed
qed

section \<open>A bucket, a pass, all passes\<close>

lemma scrub_list_ok:
  assumes "scrub_inv P c m0 st" and "distinct xs" and "\<And>i. i \<in> set xs \<Longrightarrow> i < ksize P \<and> b * ksize P + i \<in> occupied (sc_map st)"
    and "kn_has_empty (pm_kernel P) old_k \<longleftrightarrow> empty_state \<in> set (bucket P (m_states (sc_map st)) (b * ksize P))"
    and "scrub_done P st d D" and "0 \<le> d"
  shows "\<exists>st'. fold_opt (scrub_one P (2 ^ c) (b * ksize P) old_k) xs st = Some st' \<and> scrub_inv P c m0 st'
    \<and> sc_num_moves st \<le> sc_num_moves st'
    \<and> scrub_done P st' (d + (sc_num_moves st' - sc_num_moves st)) (D \<union> (\<lambda>i. b * ksize P + i) ` set xs)
    \<and> int (path_sum P (sc_map st')) + (sc_num_moves st' - sc_num_moves st) \<le> int (path_sum P (sc_map st))
    \<and> (\<forall>q. q div ksize P = b \<longrightarrow> q \<notin> (\<lambda>i. b * ksize P + i) ` set xs \<longrightarrow>
        m_states (sc_map st') ! q = m_states (sc_map st) ! q)"
  using assms
proof (induction xs arbitrary: st D d)
  case (Cons i xs)
  let ?pos = "b * ksize P + i"
  have i: "i < ksize P" "?pos \<in> occupied (sc_map st)" using Cons.prems(3) [of i] by simp_all
  obtain st1 where st1: "scrub_one P (2 ^ c) (b * ksize P) old_k i st = Some st1" "scrub_inv P c m0 st1"
    "sc_num_moves st \<le> sc_num_moves st1"
    "scrub_done P st1 (d + (sc_num_moves st1 - sc_num_moves st)) (insert ?pos D)"
    "int (path_sum P (sc_map st1)) + (sc_num_moves st1 - sc_num_moves st) \<le> int (path_sum P (sc_map st))"
    "\<And>q. q div ksize P = b \<Longrightarrow> q \<noteq> ?pos \<Longrightarrow> m_states (sc_map st1) ! q = m_states (sc_map st) ! q"
    "empty_state \<in> set (bucket P (m_states (sc_map st1)) (b * ksize P))
      \<longleftrightarrow> empty_state \<in> set (bucket P (m_states (sc_map st)) (b * ksize P))"
    by (rule scrub_one_ok [OF Cons.prems(1) refl i Cons.prems(4,5,6)]) blast
  have len: "length (m_states (sc_map st1)) = length (m_states (sc_map st))"
    using Cons.prems(1) st1(2) by (simp add: scrub_inv_def shape_ok_def)
  have rest: "i' < ksize P \<and> b * ksize P + i' \<in> occupied (sc_map st1)" if "i' \<in> set xs" for i'
  proof -
    have "i' \<noteq> i" "i' < ksize P" "b * ksize P + i' \<in> occupied (sc_map st)" using that Cons.prems(2,3) by auto
    then show ?thesis using st1(6) [of "b * ksize P + i'"] len by (simp add: occupied_def)
  qed
  have "kn_has_empty (pm_kernel P) old_k \<longleftrightarrow> empty_state \<in> set (bucket P (m_states (sc_map st1)) (b * ksize P))"
    using Cons.prems(4) st1(7) by simp
  moreover have "0 \<le> d + (sc_num_moves st1 - sc_num_moves st)" using Cons.prems(6) st1(3) by simp
  moreover have "distinct xs" using Cons.prems(2) by simp
  ultimately obtain st' where st': "fold_opt (scrub_one P (2 ^ c) (b * ksize P) old_k) xs st1 = Some st'" "scrub_inv P c m0 st'"
    "sc_num_moves st1 \<le> sc_num_moves st'"
    "scrub_done P st' (d + (sc_num_moves st1 - sc_num_moves st) + (sc_num_moves st' - sc_num_moves st1))
       (insert ?pos D \<union> (\<lambda>i. b * ksize P + i) ` set xs)"
    "int (path_sum P (sc_map st')) + (sc_num_moves st' - sc_num_moves st1) \<le> int (path_sum P (sc_map st1))"
    "\<And>q. q div ksize P = b \<Longrightarrow> q \<notin> (\<lambda>i. b * ksize P + i) ` set xs \<Longrightarrow>
        m_states (sc_map st') ! q = m_states (sc_map st1) ! q"
    using Cons.IH [OF st1(2) _ rest _ st1(4)] by blast
  have "scrub_done P st' (d + (sc_num_moves st' - sc_num_moves st)) (D \<union> (\<lambda>i. b * ksize P + i) ` set (i # xs))"
    using st'(4) by (simp add: algebra_simps)
  then show ?case using st1 st' by auto
qed simp

lemma scrub_bucket_ok:
  assumes inv: "scrub_inv P c m0 st" and b: "b < length (m_states (sc_map st)) div ksize P"
    and dn: "scrub_done P st d D" and d: "0 \<le> d"
  shows "\<exists>st'. scrub_bucket P (2 ^ c) (b * ksize P) st = Some st' \<and> scrub_inv P c m0 st'
    \<and> sc_num_moves st \<le> sc_num_moves st'
    \<and> scrub_done P st' (d + (sc_num_moves st' - sc_num_moves st)) (D \<union> {pos. pos div ksize P = b})
    \<and> int (path_sum P (sc_map st')) + (sc_num_moves st' - sc_num_moves st) \<le> int (path_sum P (sc_map st))"
proof -
  let ?m = "sc_map st"
  let ?k = "load_bucket P (m_states ?m) (b * ksize P)"
  let ?xs = "walk P (kn_mask_hash (pm_kernel P) ?k)"
  have sh: "shape_ok P c ?m" using inv by (simp add: scrub_inv_def)
  note hw = hash_walk [OF sh b]
  have ok: "ok (kn_mask_hash (pm_kernel P) ?k)"
    unfolding load_bucket by (rule mask_hash_ok) (simp add: length_bucket [OF b] kn_size)
  have dist: "distinct ?xs" using distinct_indices [OF ok] by (simp add: walk_def)
  have occ: "i < ksize P \<and> b * ksize P + i \<in> occupied ?m" if "i \<in> set ?xs" for i
    using that bucket_of_pos(2) [OF sh _ b, of i] by (simp add: hw occupied_def)
  obtain st' where st': "fold_opt (scrub_one P (2 ^ c) (b * ksize P) ?k) ?xs st = Some st'" "scrub_inv P c m0 st'"
    "sc_num_moves st \<le> sc_num_moves st'"
    "scrub_done P st' (d + (sc_num_moves st' - sc_num_moves st)) (D \<union> (\<lambda>i. b * ksize P + i) ` set ?xs)"
    "int (path_sum P (sc_map st')) + (sc_num_moves st' - sc_num_moves st) \<le> int (path_sum P ?m)"
    "\<And>q. q div ksize P = b \<Longrightarrow> q \<notin> (\<lambda>i. b * ksize P + i) ` set ?xs \<Longrightarrow> m_states (sc_map st') ! q = m_states ?m ! q"
    using scrub_list_ok [OF inv dist occ has_empty_bucket [OF sh b] dn d] by blast
  have "q \<in> (\<lambda>i. b * ksize P + i) ` set ?xs" if q: "q div ksize P = b" "q \<in> occupied (sc_map st')" for q
  proof (rule ccontr)
    assume n: "q \<notin> (\<lambda>i. b * ksize P + i) ` set ?xs"
    have qe: "q = b * ksize P + q mod ksize P" using q(1) by auto
    then have "q mod ksize P \<notin> set ?xs" using n by blast
    then have "\<not> is_hash (m_states ?m ! q)" using qe by (simp add: hw)
    then show False using st'(6) [OF q(1) n] q(2) by (simp add: occupied_def)
  qed
  then have "scrub_done P st' (d + (sc_num_moves st' - sc_num_moves st)) (D \<union> {pos. pos div ksize P = b})"
    using st'(4) unfolding scrub_done_def by blast
  then show ?thesis using st' by (simp add: scrub_bucket_def Let_def)
qed

lemma scrub_buckets_ok:
  assumes "scrub_inv P c m0 st" and "\<And>b. b \<in> set bs \<Longrightarrow> b < length (m_states (sc_map st)) div ksize P"
    and "scrub_done P st d D" and "0 \<le> d"
  shows "\<exists>st'. fold_opt (scrub_bucket P (2 ^ c)) (map (\<lambda>b. b * ksize P) bs) st = Some st' \<and> scrub_inv P c m0 st'
    \<and> sc_num_moves st \<le> sc_num_moves st'
    \<and> scrub_done P st' (d + (sc_num_moves st' - sc_num_moves st)) (D \<union> {pos. pos div ksize P \<in> set bs})
    \<and> int (path_sum P (sc_map st')) + (sc_num_moves st' - sc_num_moves st) \<le> int (path_sum P (sc_map st))"
  using assms
proof (induction bs arbitrary: st D d)
  case (Cons b bs)
  have b: "b < length (m_states (sc_map st)) div ksize P" using Cons.prems(2) by simp
  obtain st1 where st1: "scrub_bucket P (2 ^ c) (b * ksize P) st = Some st1" "scrub_inv P c m0 st1"
    "sc_num_moves st \<le> sc_num_moves st1"
    "scrub_done P st1 (d + (sc_num_moves st1 - sc_num_moves st)) (D \<union> {pos. pos div ksize P = b})"
    "int (path_sum P (sc_map st1)) + (sc_num_moves st1 - sc_num_moves st) \<le> int (path_sum P (sc_map st))"
    using scrub_bucket_ok [OF Cons.prems(1) b Cons.prems(3,4)] by blast
  have len: "length (m_states (sc_map st1)) = length (m_states (sc_map st))"
    using Cons.prems(1) st1(2) by (simp add: scrub_inv_def shape_ok_def)
  have "b' < length (m_states (sc_map st1)) div ksize P" if "b' \<in> set bs" for b' using that Cons.prems(2) len by simp
  moreover have "0 \<le> d + (sc_num_moves st1 - sc_num_moves st)" using Cons.prems(4) st1(3) by simp
  ultimately obtain st' where st': "fold_opt (scrub_bucket P (2 ^ c)) (map (\<lambda>b. b * ksize P) bs) st1 = Some st'"
    "scrub_inv P c m0 st'" "sc_num_moves st1 \<le> sc_num_moves st'"
    "scrub_done P st' (d + (sc_num_moves st1 - sc_num_moves st) + (sc_num_moves st' - sc_num_moves st1))
      (D \<union> {pos. pos div ksize P = b} \<union> {pos. pos div ksize P \<in> set bs})"
    "int (path_sum P (sc_map st')) + (sc_num_moves st' - sc_num_moves st1) \<le> int (path_sum P (sc_map st1))"
    using Cons.IH [OF st1(2) _ st1(4)] by blast
  have "D \<union> {pos. pos div ksize P = b} \<union> {pos. pos div ksize P \<in> set bs} = D \<union> {pos. pos div ksize P \<in> set (b # bs)}" by auto
  then have "scrub_done P st' (d + (sc_num_moves st' - sc_num_moves st)) (D \<union> {pos. pos div ksize P \<in> set (b # bs)})"
    using st'(4) by (simp add: algebra_simps)
  then show ?case using st1 st' by simp
qed simp

lemma scrub_pass_ok:
  assumes inv: "scrub_inv P c m0 st"
  shows "\<exists>st'. scrub_pass P (2 ^ c) st = Some st' \<and> scrub_inv P c m0 st' \<and> sc_num_moves st \<le> sc_num_moves st'
    \<and> scrub_done P st' (sc_num_moves st' - sc_num_moves st) UNIV
    \<and> int (path_sum P (sc_map st')) + (sc_num_moves st' - sc_num_moves st) \<le> int (path_sum P (sc_map st))"
proof -
  let ?st = "st\<lparr>sc_psl_bits := 0\<rparr>" and ?bs = "[0..<length (m_states (sc_map st)) div ksize P]"
  have sh: "shape_ok P c (sc_map st)" and inv': "scrub_inv P c m0 ?st" using inv by (simp_all add: scrub_inv_def)
  have "scrub_done P ?st 0 {}" by (simp add: scrub_done_def)
  then obtain st' where st': "fold_opt (scrub_bucket P (2 ^ c)) (map (\<lambda>b. b * ksize P) ?bs) ?st = Some st'"
    "scrub_inv P c m0 st'" "sc_num_moves ?st \<le> sc_num_moves st'"
    "scrub_done P st' (0 + (sc_num_moves st' - sc_num_moves ?st)) ({} \<union> {pos. pos div ksize P \<in> set ?bs})"
    "int (path_sum P (sc_map st')) + (sc_num_moves st' - sc_num_moves ?st) \<le> int (path_sum P (sc_map ?st))"
    using scrub_buckets_ok [OF inv', of ?bs 0 "{}"] by auto
  have "shape_ok P c (sc_map st')" using st'(2) by (simp add: scrub_inv_def)
  moreover have "length (m_states (sc_map st')) = length (m_states (sc_map st))"
    using st'(2) sh by (simp add: scrub_inv_def shape_ok_def)
  ultimately have "pos div ksize P \<in> set ?bs" if "pos \<in> occupied (sc_map st')" for pos
    using pos_bucket [OF _ occupied_bound [OF that]] by simp
  then have "scrub_done P st' (sc_num_moves st' - sc_num_moves st) UNIV" using st'(4) by (auto simp: scrub_done_def)
  then show ?thesis using st' by (simp add: scrub_pass_def bucket_offs_shape [OF sh])
qed

text \<open>The last pass makes at most one move, so what it has visited is scrubbed with one free slot to spare.\<close>

lemma scrub_phases_ok:
  assumes "scrub_inv P c m0 st"
  shows "\<exists>st'. scrub_phases P (2 ^ c) st = Some st' \<and> scrub_inv P c m0 st' \<and> sc_num_moves st \<le> sc_num_moves st'
    \<and> scrub_done P st' 1 UNIV"
  using assms
proof (induction "path_sum P (sc_map st)" arbitrary: st rule: less_induct)
  case less
  obtain st1 where st1: "scrub_pass P (2 ^ c) st = Some st1" "scrub_inv P c m0 st1" "sc_num_moves st \<le> sc_num_moves st1"
    "scrub_done P st1 (sc_num_moves st1 - sc_num_moves st) UNIV"
    "int (path_sum P (sc_map st1)) + (sc_num_moves st1 - sc_num_moves st) \<le> int (path_sum P (sc_map st))"
    using scrub_pass_ok [OF less.prems] by blast
  show ?case
  proof (cases "sc_num_moves st1 - sc_num_moves st \<le> 1")
    case True
    have sh: "shape_ok P c (sc_map st1)" using st1(2) by (simp add: scrub_inv_def)
    have "scrub_done P st1 1 UNIV"
      unfolding scrub_done_def
    proof
      fix pos assume "pos \<in> UNIV \<inter> occupied (sc_map st1)"
      then have sc: "scrubbed P (sc_map st1) (sc_num_moves st1 - sc_num_moves st) (sc_psl_bits st1) pos"
        using st1(4) by (simp add: scrub_done_def)
      show "scrubbed P (sc_map st1) 1 (sc_psl_bits st1) pos"
        by (rule scrubbed_mono [OF sc sh]) (use True in simp_all)
    qed
    moreover have "scrub_phases P (2 ^ c) st = Some st1" by (subst scrub_phases.simps) (simp add: st1(1) True)
    ultimately show ?thesis using st1(2,3) by blast
  next
    case False
    then have "path_sum P (sc_map st1) < path_sum P (sc_map st)" using st1(5) by linarith
    then obtain st' where st': "scrub_phases P (2 ^ c) st1 = Some st'" "scrub_inv P c m0 st'"
      "sc_num_moves st1 \<le> sc_num_moves st'" "scrub_done P st' 1 UNIV"
      using less.hyps [OF _ st1(2)] by blast
    moreover have "scrub_phases P (2 ^ c) st = Some st'" using st'(1) by (subst scrub_phases.simps) (simp add: st1(1) False)
    ultimately show ?thesis using st1(3) by fastforce
  qed
qed

end

end
