(* ===== verification/MapReclaim.thy ===== *)
theory MapReclaim
  imports MapScrub
begin

text \<open>
  The last step of scrubbing: turning tombstones into empty slots, in all buckets when every entry
  lies in its first bucket, in the dead ones otherwise.
\<close>

context swiss_map
begin

lemma bucket_memcpy:
  assumes "length states = N * ksize P" and "b < N" and "b' < N" and "length xs = ksize P"
  shows "bucket P (memcpy states (b * ksize P) xs) (b' * ksize P) = (if b' = b then xs else bucket P states (b' * ksize P))"
    and "length (memcpy states (b * ksize P) xs) = length states"
proof -
  have "Suc b * ksize P \<le> N * ksize P" using assms(2) by (intro mult_right_mono) simp_all
  then have le: "b * ksize P + length xs \<le> length states" using assms(1,4) by simp
  then show "length (memcpy states (b * ksize P) xs) = length states" by simp
  show "bucket P (memcpy states (b * ksize P) xs) (b' * ksize P) = (if b' = b then xs else bucket P states (b' * ksize P))"
  proof (cases "b' = b")
    case True
    then show ?thesis using slice_memcpy_same [OF le] assms(4) by (simp add: bucket_def)
  next
    case False
    then show ?thesis
      using slice_memcpy_other [of b b' "ksize P" "ksize P" xs N states] assms by (simp add: bucket_def)
  qed
qed

text \<open>A loop over the buckets that replaces each by a function of it.\<close>

lemma fold_buckets:
  assumes "length states = N * ksize P" and "n \<le> N" and "\<And>B. length B = ksize P \<Longrightarrow> length (G B) = ksize P"
  shows "length (fold (\<lambda>b s. memcpy s (b * ksize P) (G (bucket P s (b * ksize P)))) [0..<n] states) = length states
    \<and> (\<forall>b<N. bucket P (fold (\<lambda>b s. memcpy s (b * ksize P) (G (bucket P s (b * ksize P)))) [0..<n] states) (b * ksize P)
      = (if b < n then G (bucket P states (b * ksize P)) else bucket P states (b * ksize P)))"
  using assms(2)
proof (induction n)
  case (Suc n)
  let ?s = "fold (\<lambda>b s. memcpy s (b * ksize P) (G (bucket P s (b * ksize P)))) [0..<n] states"
  have IH: "length ?s = length states"
    "\<And>b. b < N \<Longrightarrow> bucket P ?s (b * ksize P) = (if b < n then G (bucket P states (b * ksize P)) else bucket P states (b * ksize P))"
    using Suc by simp_all
  have l: "length ?s = N * ksize P" using IH(1) assms(1) by simp
  have n: "n < N" "n < length ?s div ksize P" using Suc.prems l by simp_all
  have g: "length (G (bucket P ?s (n * ksize P))) = ksize P" by (rule assms(3) [OF length_bucket [OF n(2)]])
  have f: "fold (\<lambda>b s. memcpy s (b * ksize P) (G (bucket P s (b * ksize P)))) [0..<Suc n] states
      = memcpy ?s (n * ksize P) (G (bucket P ?s (n * ksize P)))" by simp
  show ?case
    unfolding f
  proof (intro conjI allI impI)
    show "length (memcpy ?s (n * ksize P) (G (bucket P ?s (n * ksize P)))) = length states"
      using bucket_memcpy(2) [OF l n(1) n(1) g] IH(1) by simp
    fix b assume b: "b < N"
    show "bucket P (memcpy ?s (n * ksize P) (G (bucket P ?s (n * ksize P)))) (b * ksize P)
        = (if b < Suc n then G (bucket P states (b * ksize P)) else bucket P states (b * ksize P))"
      unfolding bucket_memcpy(1) [OF l n(1) b g] using IH(2) [OF b] IH(2) [OF n(1)] by (auto simp: less_Suc_eq)
  qed
qed simp

lemma nth_of_bucket:
  assumes "length states = N * ksize P" and "pos < length states"
  shows "states ! pos = bucket P states (pos div ksize P * ksize P) ! (pos mod ksize P)"
proof -
  have "pos div ksize P * ksize P + pos mod ksize P = pos" by simp
  then show ?thesis using nth_bucket [of "pos div ksize P * ksize P" "pos mod ksize P" states] assms(2) by simp
qed

lemma count_states_buckets:
  assumes "length states = N * ksize P"
  shows "count_states s states = (\<Sum>b<N. count_states s (bucket P states (b * ksize P)))"
proof -
  have "count_states s (take (n * ksize P) states) = (\<Sum>b<n. count_states s (bucket P states (b * ksize P)))" if "n \<le> N" for n
    using that
  proof (induction n)
    case (Suc n)
    have "take (Suc n * ksize P) states = take (n * ksize P) states @ bucket P states (n * ksize P)"
      unfolding bucket_def by (subst add.commute [of "ksize P"] mult_Suc)+ (simp add: take_add)
    then show ?case using Suc by (simp add: count_states_def)
  qed (simp add: count_states_def)
  from this [of N] show ?thesis using assms by simp
qed

section \<open>All tombstones\<close>

lemma reclaim_all_ok:
  assumes sh: "shape_ok P c m"
  shows "length (reclaim_all P (2 ^ c) (m_states m)) = length (m_states m)"
    and "\<And>pos. pos < length (m_states m) \<Longrightarrow> reclaim_all P (2 ^ c) (m_states m) ! pos
      = (if is_hash (m_states m ! pos) then m_states m ! pos else empty_state)"
proof -
  let ?N = "length (m_states m) div ksize P" and ?f = "\<lambda>s. if is_hash s then s else empty_state"
  let ?S = "m_states m"
  note l = shape_buckets(2) [OF sh, symmetric]
  let ?step = "\<lambda>b s. memcpy s (b * ksize P) (map ?f (bucket P s (b * ksize P)))"
  have valid_step: "valid_states (fold ?step [0..<n] ?S) \<and> length (fold ?step [0..<n] ?S) = length ?S" if "n \<le> ?N" for n
    using that
  proof (induction n)
    case (Suc n)
    let ?s = "fold ?step [0..<n] ?S"
    have v: "valid_states ?s" "length ?s = length ?S" using Suc by simp_all
    have ls: "length ?s = ?N * ksize P" using v(2) l by simp
    have n: "n < ?N" "n < length ?s div ksize P" using Suc.prems v(2) by simp_all
    have vb: "valid_states (map ?f (bucket P ?s (n * ksize P)))" by (auto simp: valid_states_def list_all_iff)
    have "set (memcpy ?s (n * ksize P) (map ?f (bucket P ?s (n * ksize P)))) \<subseteq> set ?s \<union> set (map ?f (bucket P ?s (n * ksize P)))"
      unfolding memcpy_def using set_take_subset set_drop_subset by fastforce
    then have "valid_states (?step n ?s)" using v(1) vb by (auto simp: valid_states_def list_all_iff)
    moreover have "length (?step n ?s) = length ?s"
      using bucket_memcpy(2) [OF ls n(1) n(1), of "map ?f (bucket P ?s (n * ksize P))"] length_bucket [OF n(2)] by simp
    ultimately show ?case using v(2) by simp
  qed (use shape_buckets(6) [OF sh] in simp)
  have same: "fold (\<lambda>off states. memcpy states off (kn_store (pm_kernel P) (kn_not_hash_to_empty (pm_kernel P) (load_bucket P states off))))
      (map (\<lambda>b. b * ksize P) [0..<n]) ?S = fold ?step [0..<n] ?S" if "n \<le> ?N" for n
    using that
  proof (induction n)
    case (Suc n)
    let ?s = "fold ?step [0..<n] ?S"
    have v: "valid_states ?s" "n < length ?s div ksize P" using valid_step [of n] Suc.prems by simp_all
    have "length (bucket P ?s (n * ksize P)) = kn_size (pm_kernel P)" by (simp add: length_bucket [OF v(2)] kn_size)
    then have "kn_store (pm_kernel P) (kn_not_hash_to_empty (pm_kernel P) (load_bucket P ?s (n * ksize P)))
        = map ?f (bucket P ?s (n * ksize P))"
      unfolding load_bucket by (rule not_hash_to_empty_store) (rule valid_bucket [OF v(1)])
    then show ?case using Suc by simp
  qed simp
  have r: "reclaim_all P (2 ^ c) ?S = fold ?step [0..<?N] ?S"
    by (simp add: reclaim_all_def bucket_offs_shape [OF sh] same)
  have fb: "length (fold ?step [0..<?N] ?S) = length ?S
      \<and> (\<forall>b<?N. bucket P (fold ?step [0..<?N] ?S) (b * ksize P) = (if b < ?N then map ?f (bucket P ?S (b * ksize P)) else bucket P ?S (b * ksize P)))"
    by (rule fold_buckets [OF l order.refl]) simp
  then show len: "length (reclaim_all P (2 ^ c) ?S) = length ?S" by (simp add: r)
  fix pos assume pos: "pos < length ?S"
  have b: "pos div ksize P < ?N" by (rule pos_bucket [OF sh pos])
  have "reclaim_all P (2 ^ c) ?S ! pos = map ?f (bucket P ?S (pos div ksize P * ksize P)) ! (pos mod ksize P)"
    using nth_of_bucket [of "reclaim_all P (2 ^ c) ?S" ?N pos] len l pos fb b unfolding r by simp
  also have "\<dots> = ?f (?S ! pos)"
    using nth_of_bucket [OF l pos] length_bucket [OF b] by simp
  finally show "reclaim_all P (2 ^ c) ?S ! pos = ?f (?S ! pos)" .
qed

section \<open>Dead buckets\<close>

definition dead :: "state_t list \<Rightarrow> bool" where
  "dead B \<longleftrightarrow> (\<forall>s \<in> set B. s = tombstone_state)"

definition revive :: "state_t list \<Rightarrow> state_t list" where
  "revive B = (if dead B then replicate (ksize P) empty_state else B)"

lemma length_revive: "length B = ksize P \<Longrightarrow> length (revive B) = ksize P"
  by (simp add: revive_def)

lemma memcpy_bucket_same:
  assumes "length states = N * ksize P" and "b < N"
  shows "memcpy states (b * ksize P) (bucket P states (b * ksize P)) = states"
proof -
  have "b < length states div ksize P" using assms by simp
  from length_bucket [OF this] show ?thesis
    by (simp add: memcpy_def bucket_def) (metis append_take_drop_id drop_drop add.commute)
qed

lemma reclaim_dead_ok:
  assumes sh: "shape_ok P c m"
  obtains states' n where "reclaim_dead P (2 ^ c) (m_states m) = (states', n)"
    and "length states' = length (m_states m)"
    and "\<And>b. b < length (m_states m) div ksize P \<Longrightarrow> bucket P states' (b * ksize P) = revive (bucket P (m_states m) (b * ksize P))"
    and "n = (\<Sum>b<length (m_states m) div ksize P. if dead (bucket P (m_states m) (b * ksize P)) then int (ksize P) else 0)"
proof -
  let ?N = "length (m_states m) div ksize P" and ?S = "m_states m"
  note l = shape_buckets(2) [OF sh, symmetric]
  let ?step = "\<lambda>b s. memcpy s (b * ksize P) (revive (bucket P s (b * ksize P)))"
  let ?code = "\<lambda>off (states, n). if kn_has_not_tombstone (pm_kernel P) (load_bucket P states off) then (states, n)
     else (memcpy states off (replicate (ksize P) empty_state), n + int (ksize P))"
  have fb: "length (fold ?step [0..<n] ?S) = length ?S
      \<and> (\<forall>b<?N. bucket P (fold ?step [0..<n] ?S) (b * ksize P) = (if b < n then revive (bucket P ?S (b * ksize P)) else bucket P ?S (b * ksize P)))"
    if "n \<le> ?N" for n
    by (rule fold_buckets [OF l that length_revive])
  have same: "fold ?code (map (\<lambda>b. b * ksize P) [0..<n]) (?S, 0)
      = (fold ?step [0..<n] ?S, \<Sum>b<n. if dead (bucket P ?S (b * ksize P)) then int (ksize P) else 0)" if "n \<le> ?N" for n
    using that
  proof (induction n)
    case (Suc n)
    let ?s = "fold ?step [0..<n] ?S"
    have n: "n < ?N" "n \<le> ?N" using Suc.prems by simp_all
    have bs: "bucket P ?s (n * ksize P) = bucket P ?S (n * ksize P)" and ls: "length ?s = ?N * ksize P"
      using fb [OF n(2)] n(1) l by simp_all
    have v: "valid_states (bucket P ?S (n * ksize P))" by (rule valid_bucket [OF shape_buckets(6) [OF sh]])
    have lb: "length (bucket P ?S (n * ksize P)) = kn_size (pm_kernel P)" by (simp add: length_bucket [OF n(1)] kn_size)
    have ht: "kn_has_not_tombstone (pm_kernel P) (load_bucket P ?s (n * ksize P)) \<longleftrightarrow> \<not> dead (bucket P ?S (n * ksize P))"
      unfolding load_bucket bs has_not_tombstone_iff [OF lb v] dead_def by blast
    have "?step n ?s = (if dead (bucket P ?S (n * ksize P)) then memcpy ?s (n * ksize P) (replicate (ksize P) empty_state) else ?s)"
    proof -
      have rv: "revive (bucket P ?S (n * ksize P)) = (if dead (bucket P ?S (n * ksize P)) then replicate (ksize P) empty_state
          else bucket P ?S (n * ksize P))" by (simp only: revive_def)
      show ?thesis unfolding bs rv using memcpy_bucket_same [OF ls n(1), unfolded bs] by simp
    qed
    then show ?case using Suc.IH [OF n(2)] ht by simp
  qed simp
  show ?thesis
  proof (rule that)
    show "reclaim_dead P (2 ^ c) ?S
        = (fold ?step [0..<?N] ?S, \<Sum>b<?N. if dead (bucket P ?S (b * ksize P)) then int (ksize P) else 0)"
      using same [OF order.refl] by (simp add: reclaim_dead_def bucket_offs_shape [OF sh])
  qed (use fb [OF order.refl] in simp_all)
qed

end

end
