(* ===== verification/MapScrubbed.thy ===== *)
theory MapScrubbed
  imports MapReclaim
begin

text \<open>
  Scrubbing as a whole: with two or more slots in a bucket it ends, keeps the entries, the capacity
  and the invariant. Also the general lemma by which operations that only rewrite states keep the
  invariant.
\<close>

lemma entries_states:
  assumes "m_keys m' = m_keys m" and "m_values m' = m_values m" and "m_blobs m' = m_blobs m" and "m_conf m' = m_conf m"
  shows "key_at m' = key_at m" and "entry_at m' = entry_at m" and "entries m' = image_mset (entry_at m) (mset_set (occupied m'))"
  using assms by (auto simp: key_at_def value_at_def blob_at_def entry_at_def entries_def fun_eq_iff intro!: image_mset_cong)

lemma count_states_map_reclaim:
  "valid_states xs \<Longrightarrow> count_states empty_state (map (\<lambda>s. if is_hash s then s else empty_state) xs)
    = count_states empty_state xs + count_states tombstone_state xs"
  by (induction xs) (auto simp: count_states_def valid_states_def valid_state_def)

text \<open>The counters have no part in shape, contents and placement.\<close>

lemma counters_simps [simp]:
  fixes m :: "('k, 'v) map_state" and P :: "('k, 'v, 'r, 'l, 'm, 'q) map_params" and e t :: int
  defines "m' \<equiv> m\<lparr>m_num_empty := e, m_num_tombstone := t\<rparr>"
  shows "shape_ok P c m' = shape_ok P c m" and "occupied m' = occupied m" and "key_at m' = key_at m"
    and "entry_at m' = entry_at m" and "entries m' = entries m" and "slots_ok P m' = slots_ok P m"
    and "keys_ok P m' = keys_ok P m" and "capacity P m' = capacity P m"
proof -
  have e: "occupied m' = occupied m" "key_at m' = key_at m" "entry_at m' = entry_at m"
    by (auto simp: m'_def occupied_def key_at_def entry_at_def value_at_def blob_at_def)
  then show "occupied m' = occupied m" "key_at m' = key_at m" "entry_at m' = entry_at m" by simp_all
  show "entries m' = entries m" by (simp add: entries_def e)
  show "shape_ok P c m' = shape_ok P c m" "capacity P m' = capacity P m" by (simp_all add: m'_def shape_ok_def capacity_def)
  show "slots_ok P m' = slots_ok P m" "keys_ok P m' = keys_ok P m"
    by (simp_all add: slots_ok_def keys_ok_def e) (simp_all add: m'_def)
qed

context swiss_map
begin

text \<open>An operation that rewrites states only.\<close>

lemma states_change_ok:
  assumes inv: "map_inv P m" and st: "m_keys m' = m_keys m" "m_values m' = m_values m" "m_blobs m' = m_blobs m" "m_conf m' = m_conf m"
      "m_bucket_mask m' = m_bucket_mask m" "m_grow_threshold m' = m_grow_threshold m"
    and len: "length (m_states m') = length (m_states m)" and v: "valid_states (m_states m')" and u: "unmixed P (m_states m')"
    and occ: "\<And>q. q \<in> occupied m' \<Longrightarrow> q \<in> occupied m \<and> m_states m' ! q = m_states m ! q"
    and pl: "\<And>q. q \<in> occupied m' \<Longrightarrow> placed P (m_bucket_mask m) (m_states m') (pm_hash P (key_at m q)) (q div ksize P * ksize P)"
    and co: "counters_ok m'" and e: "1 \<le> m_num_empty m'"
  shows "map_inv P m'"
proof -
  obtain c where c: "shape_ok P c m" "conf_ok (kbits P) (m_conf m)" "min_capacity (m_conf m) \<le> 2 ^ c"
    "m_grow_threshold m = grow_threshold (m_conf m) (2 ^ c)" "slots_ok P m" "keys_ok P m" by (rule map_invD [OF inv])
  note k = entries_states(1) [OF st(1-4)]
  show ?thesis
    unfolding map_inv_def
  proof (intro conjI exI [of _ c])
    show "shape_ok P c m'" using c(1) st len v by (simp add: shape_ok_def)
    show "slots_ok P m'" unfolding slots_ok_def k st(5)
    proof (intro ballI conjI)
      fix q assume q: "q \<in> occupied m'"
      show "m_states m' ! q = pm_state P (pm_hash P (key_at m q))" using occ [OF q] c(5) by (simp add: slots_ok_def)
    qed (rule pl)
    have "occupied m' \<subseteq> occupied m" using occ by blast
    then show "keys_ok P m'" using c(6) unfolding keys_ok_def k by (meson inj_on_subset)
  qed (use c st u co e in simp_all)
qed

section \<open>The end of scrubbing\<close>

lemma scrub_inv_map:
  assumes inv: "map_inv P m0" and si: "scrub_inv P c m0 st" and c: "shape_ok P c m0"
    and m': "m' = (sc_map st)\<lparr>m_num_empty := sc_num_empty st, m_num_tombstone := sc_num_tombstone st\<rparr>"
  shows "map_inv P m'" and "entries m' = entries m0"
proof -
  obtain d where d: "shape_ok P d m0" "conf_ok (kbits P) (m_conf m0)" "min_capacity (m_conf m0) \<le> 2 ^ d"
    "m_grow_threshold m0 = grow_threshold (m_conf m0) (2 ^ d)" "keys_ok P m0" by (rule map_invD [OF inv])
  have "(2 :: nat) ^ d = 2 ^ c" using shape_buckets(1) [OF d(1)] shape_buckets(1) [OF c] by simp
  then have dc: "d = c" by simp
  show ent: "entries m' = entries m0" using si by (simp add: m' scrub_inv_def)
  show "map_inv P m'"
    unfolding map_inv_def
  proof (intro conjI exI [of _ c])
    show "shape_ok P c m'" using si by (simp add: scrub_inv_def m')
    show "slots_ok P m'" using si by (simp add: scrub_inv_def m')
    show "keys_ok P m'" using d(5) by (simp only: keys_ok_entries ent)
    have "1 \<le> count_states empty_state (m_states m')" using si m' by (simp add: scrub_inv_def count_states_pos)
    then show "1 \<le> m_num_empty m'" using si m' by (simp add: scrub_inv_def)
  qed (use si m' d dc in \<open>simp_all add: scrub_inv_def counters_ok_def\<close>)
qed

lemma num_free_dead:
  assumes "length (bucket P states off) = ksize P" and "dead (bucket P states off)"
  shows "num_free P states off = ksize P"
proof -
  have "filter is_not_hash (bucket P states off) = bucket P states off"
    using assms(2) by (intro filter_True) (auto simp: dead_def)
  then show ?thesis using assms(1) by (simp add: num_free_def)
qed

lemma reclaim_all_inv:
  assumes inv: "map_inv P m" and d: "\<And>pos. pos \<in> occupied m \<Longrightarrow> scrubbed P m 1 0 pos"
    and m': "m' = m\<lparr>m_states := reclaim_all P (capacity P m) (m_states m), m_num_empty := m_num_empty m + m_num_tombstone m,
      m_num_tombstone := 0\<rparr>"
  shows "map_inv P m'" and "occupied m' = occupied m"
proof -
  obtain c where c: "shape_ok P c m" "capacity P m = 2 ^ c" "counters_ok m" "1 \<le> m_num_empty m" by (rule map_invD [OF inv])
  let ?f = "\<lambda>s. if is_hash s then s else empty_state"
  have S: "m_states m' = map ?f (m_states m)"
    using reclaim_all_ok [OF c(1)] m' c(2) by (intro nth_equalityI) simp_all
  have occ: "q \<in> occupied m' \<longleftrightarrow> q \<in> occupied m" for q by (auto simp: occupied_def S split: if_splits)
  then show "occupied m' = occupied m" by blast
  have v: "valid_states (m_states m)" by (rule shape_buckets(6) [OF c(1)])
  have nt: "tombstone_state \<notin> set (m_states m')" by (auto simp: S)
  show "map_inv P m'"
  proof (rule states_change_ok [OF inv])
    show "unmixed P (m_states m')" using nt set_bucket unfolding unmixed_def by fastforce
    show "valid_states (m_states m')" using v by (auto simp: S valid_states_def list_all_iff)
    show "counters_ok m'"
      using c(3) nt count_states_map_reclaim [OF v] count_states_0 [of tombstone_state "m_states m'"]
      unfolding counters_ok_def S by (simp add: m')
    have "0 \<le> m_num_tombstone m" using c(3) by (simp add: counters_ok_def)
    then show "1 \<le> m_num_empty m'" using c(4) m' by simp
    fix q assume "q \<in> occupied m'"
    then have q: "q \<in> occupied m" using occ by simp
    show "q \<in> occupied m \<and> m_states m' ! q = m_states m ! q" using q by (auto simp: occupied_def S)
    obtain l where "l < length (m_states m) div ksize P" "probe_off P (m_bucket_mask m) (pm_hash P (key_at m q)) l = q div ksize P * ksize P"
      "l = 0" using d [OF q] by (auto simp: scrubbed_def)
    then show "placed P (m_bucket_mask m) (m_states m') (pm_hash P (key_at m q)) (q div ksize P * ksize P)"
      by (auto simp: placed_def S)
  qed (simp_all add: m' reclaim_all_ok(1) [OF c(1)] c(2))
qed

lemma reclaim_dead_inv:
  assumes inv: "map_inv P m" and K: "2 \<le> ksize P" and d: "\<And>pos. pos \<in> occupied m \<Longrightarrow> scrubbed P m 1 z pos"
    and r: "reclaim_dead P (capacity P m) (m_states m) = (S, n)"
    and m': "m' = m\<lparr>m_states := S, m_num_empty := m_num_empty m + n, m_num_tombstone := m_num_tombstone m - n\<rparr>"
  shows "map_inv P m'" and "occupied m' = occupied m"
proof -
  obtain c where c: "shape_ok P c m" "capacity P m = 2 ^ c" "counters_ok m" "1 \<le> m_num_empty m" "unmixed P (m_states m)"
    by (rule map_invD [OF inv])
  let ?S = "m_states m" and ?N = "length (m_states m) div ksize P"
  obtain S' n' where "reclaim_dead P (2 ^ c) ?S = (S', n')" "length S' = length ?S"
    "\<And>b. b < ?N \<Longrightarrow> bucket P S' (b * ksize P) = revive (bucket P ?S (b * ksize P))"
    "n' = (\<Sum>b<?N. if dead (bucket P ?S (b * ksize P)) then int (ksize P) else 0)"
    using reclaim_dead_ok [OF c(1)] by blast
  then have rd: "length S = length ?S" "\<And>b. b < ?N \<Longrightarrow> bucket P S (b * ksize P) = revive (bucket P ?S (b * ksize P))"
    "n = (\<Sum>b<?N. if dead (bucket P ?S (b * ksize P)) then int (ksize P) else 0)" using r c(2) by simp_all
  note l = shape_buckets(2) [OF c(1), symmetric]
  have lS: "length S = ?N * ksize P" using rd(1) l by simp
  have lb: "length (bucket P ?S (b * ksize P)) = ksize P" if "b < ?N" for b by (rule length_bucket [OF that])
  have at: "S ! q = (if dead (bucket P ?S (q div ksize P * ksize P)) then empty_state else ?S ! q)" if q: "q < length ?S" for q
  proof -
    have "S ! q = revive (bucket P ?S (q div ksize P * ksize P)) ! (q mod ksize P)"
      using nth_of_bucket [OF lS, of q] rd(1) q rd(2) [OF pos_bucket [OF c(1) q]] by simp
    then show ?thesis using nth_of_bucket [OF l q] by (simp add: revive_def)
  qed
  have deadq: "?S ! q = tombstone_state" if q: "q < length ?S" and dq: "dead (bucket P ?S (q div ksize P * ksize P))" for q
  proof -
    have "?S ! q \<in> set (bucket P ?S (q div ksize P * ksize P))"
      unfolding nth_of_bucket [OF l q] by (rule nth_mem) (simp add: lb [OF pos_bucket [OF c(1) q]])
    then show ?thesis using dq by (simp add: dead_def)
  qed
  have occ: "q \<in> occupied m' \<longleftrightarrow> q \<in> occupied m" for q
    using at [of q] deadq [of q] rd(1) by (auto simp: occupied_def m' split: if_splits)
  then show "occupied m' = occupied m" by blast
  have cnt: "count_states empty_state (revive B) = count_states empty_state B + (if dead B then int (ksize P) else 0)"
    "count_states tombstone_state (revive B) = count_states tombstone_state B - (if dead B then int (ksize P) else 0)"
    if "length B = ksize P" for B
  proof -
    have "B = replicate (ksize P) tombstone_state" if "dead B"
      using that \<open>length B = ksize P\<close> by (metis dead_def replicate_length_same)
    then show "count_states empty_state (revive B) = count_states empty_state B + (if dead B then int (ksize P) else 0)"
      "count_states tombstone_state (revive B) = count_states tombstone_state B - (if dead B then int (ksize P) else 0)"
      by (auto simp: revive_def count_states_replicate)
  qed
  show "map_inv P m'"
  proof (rule states_change_ok [OF inv])
    show "valid_states (m_states m')"
      using at shape_buckets(6) [OF c(1)] rd(1) by (auto simp: m' valid_states_def list_all_length)
    show "unmixed P (m_states m')"
      using c(5) rd(1,2) ksize_pos by (auto simp: unmixed_def m' revive_def)
    have "count_states s S = (\<Sum>b<?N. count_states s (revive (bucket P ?S (b * ksize P))))" for s
      using count_states_buckets [OF lS] rd(2) by simp
    then show "counters_ok m'"
      using c(3) cnt lb count_states_buckets [OF l]
      by (simp add: counters_ok_def m' rd(3) sum.distrib sum_subtractf)
    have "0 \<le> n" unfolding rd(3) by (rule sum_nonneg) simp
    then show "1 \<le> m_num_empty m'" using c(4) m' by simp
    fix q assume "q \<in> occupied m'"
    then have q: "q \<in> occupied m" using occ by simp
    then show "q \<in> occupied m \<and> m_states m' ! q = m_states m ! q"
      using at [of q] deadq [of q] by (auto simp: occupied_def m' split: if_splits)
    let ?off = "probe_off P (m_bucket_mask m) (pm_hash P (key_at m q))"
    obtain l where l: "l < ?N" "?off l = q div ksize P * ksize P"
      "\<And>j. j < l \<Longrightarrow> empty_state \<notin> set (bucket P ?S (?off j)) \<and> int (num_free P ?S (?off j)) \<le> 1"
      using d [OF q] by (auto simp: scrubbed_def)
    have "empty_state \<notin> set (bucket P S (?off j))" if j: "j < l" for j
    proof -
      obtain b where b: "b < ?N" "?off j = b * ksize P" by (rule probe_off_bucket [OF c(1)])
      have "\<not> dead (bucket P ?S (b * ksize P))"
        using num_free_dead [OF lb [OF b(1)]] l(3) [OF j] b(2) K by auto
      then show ?thesis using rd(2) [OF b(1)] l(3) [OF j] b(2) by (simp add: revive_def)
    qed
    then show "placed P (m_bucket_mask m) (m_states m') (pm_hash P (key_at m q)) (q div ksize P * ksize P)"
      using l(1,2) rd(1) by (auto simp: placed_def m')
  qed (simp_all add: m' rd(1))
qed

theorem scrub_ok:
  assumes inv: "map_inv P m" and K: "2 \<le> ksize P"
  obtains moves m' where "scrub P m = Some (moves, m')" and "map_inv P m'" and "entries m' = entries m"
    and "m_conf m' = m_conf m" and "capacity P m' = capacity P m"
proof (cases "m_num_tombstone m = 0")
  case True
  then show ?thesis using that [of 0 m] inv by (simp add: scrub_def)
next
  case False
  note ret = that
  obtain c where c: "shape_ok P c m" "capacity P m = 2 ^ c" "counters_ok m" "1 \<le> m_num_empty m" "unmixed P (m_states m)"
    "slots_ok P m" "empty_state \<in> set (m_states m)" by (rule map_invD [OF inv])
  let ?st0 = "\<lparr>sc_map = m, sc_num_empty = m_num_empty m, sc_num_tombstone = m_num_tombstone m, sc_num_moves = 0, sc_psl_bits = 0\<rparr>"
  have "scrub_inv P c m ?st0" using c by (simp add: scrub_inv_def counters_ok_def)
  then obtain st where st: "scrub_phases P (2 ^ c) ?st0 = Some st" "scrub_inv P c m st" "scrub_done P st 1 UNIV"
    using scrub_phases_ok by blast
  define m1 where "m1 = (sc_map st)\<lparr>m_num_empty := sc_num_empty st, m_num_tombstone := sc_num_tombstone st\<rparr>"
  note m1 = scrub_inv_map [OF inv st(2) c(1) m1_def]
  have cf: "m_conf m1 = m_conf m" "m_bucket_mask m1 = m_bucket_mask m" "sc_num_tombstone st = m_num_tombstone m1"
    using st(2) c(1) by (simp_all add: m1_def scrub_inv_def shape_ok_def)
  then have cap: "capacity P m1 = 2 ^ c" using c(2) by (simp add: capacity_def)
  have sc: "scrub P m = Some (sc_num_moves st, scrub_finish P (2 ^ c) st)"
    using False c(2) st(1) by (simp add: scrub_def Let_def)
  have done1: "scrubbed P m1 1 (sc_psl_bits st) pos" if "pos \<in> occupied m1" for pos
    using st(3) that by (simp add: scrub_done_def scrubbed_def m1_def occupied_def key_at_def)
  have goal: thesis if "scrub_finish P (2 ^ c) st = m'" "map_inv P m'" "occupied m' = occupied m1"
    "m_keys m' = m_keys m1" "m_values m' = m_values m1" "m_blobs m' = m_blobs m1" "m_conf m' = m_conf m1" "m_bucket_mask m' = m_bucket_mask m1" for m'
  proof (rule ret)
    show "scrub P m = Some (sc_num_moves st, m')" using sc that(1) by simp
    show "entries m' = entries m" using entries_states(3) [OF that(4-7)] that(3) m1(2) by (simp add: entries_def)
    show "map_inv P m'" "m_conf m' = m_conf m" "capacity P m' = capacity P m"
      using that cf by (simp_all add: capacity_def)
  qed
  show ?thesis
  proof (cases "sc_num_moves st = 0")
    case True
    then show ?thesis using goal [of m1] m1(1) by (simp add: scrub_finish_def m1_def)
  next
    case moved: False
    show ?thesis
    proof (cases "sc_psl_bits st = 0")
      case True
      let ?m' = "m1\<lparr>m_states := reclaim_all P (capacity P m1) (m_states m1), m_num_empty := m_num_empty m1 + m_num_tombstone m1,
        m_num_tombstone := 0\<rparr>"
      have "map_inv P ?m'" "occupied ?m' = occupied m1"
        using reclaim_all_inv [OF m1(1) _ refl] done1 True by simp_all
      moreover have "scrub_finish P (2 ^ c) st = ?m'"
        using moved True cap cf(3) unfolding scrub_finish_def m1_def [symmetric] Let_def by simp
      ultimately show ?thesis using goal [of ?m'] by simp
    next
      case False
      obtain S n where r: "reclaim_dead P (capacity P m1) (m_states m1) = (S, n)" by (cases "reclaim_dead P (capacity P m1) (m_states m1)")
      let ?m' = "m1\<lparr>m_states := S, m_num_empty := m_num_empty m1 + n, m_num_tombstone := m_num_tombstone m1 - n\<rparr>"
      have "map_inv P ?m'" "occupied ?m' = occupied m1"
        using reclaim_dead_inv [OF m1(1) K done1 r refl] by simp_all
      moreover have "scrub_finish P (2 ^ c) st = ?m'"
        using moved False cap r unfolding scrub_finish_def m1_def [symmetric] Let_def by simp
      ultimately show ?thesis using goal [of ?m'] by simp
    qed
  qed
qed

end

end
