(* ===== verification/MapErase.thy ===== *)
theory MapErase
  imports MapScrubbed
begin

text \<open>
  Erasure: burying a slot frees it and nothing else, whichever of the two free states the bucket
  asks for; the operations bury the slots of one entry, of all entries of a key or of all that
  satisfy a predicate, and then shrink or scrub the table as the configuration tells.
\<close>

text \<open>A table from which the slots of a set have been freed.\<close>

definition erased ::
    "('k, 'v, 'r, 'l, 'm, 'q) map_params \<Rightarrow> ('k, 'v) map_state \<Rightarrow> nat set \<Rightarrow> ('k, 'v) map_state \<Rightarrow> bool" where
  "erased P m A m' \<longleftrightarrow> map_inv P m' \<and> m_keys m' = m_keys m \<and> m_values m' = m_values m \<and> m_blobs m' = m_blobs m
     \<and> m_conf m' = m_conf m \<and> m_bucket_mask m' = m_bucket_mask m \<and> length (m_states m') = length (m_states m)
     \<and> occupied m' = occupied m - A
     \<and> (\<forall>b < length (m_states m) div ksize P. empty_state \<in> set (bucket P (m_states m') (b * ksize P))
          \<longleftrightarrow> empty_state \<in> set (bucket P (m_states m) (b * ksize P)))"

lemma erased_refl: "map_inv P m \<Longrightarrow> erased P m {} m"
  by (simp add: erased_def)

lemma erased_trans: "erased P m A m1 \<Longrightarrow> erased P m1 B m2 \<Longrightarrow> erased P m (A \<union> B) m2"
  by (auto simp: erased_def)

lemma erased_cong: "erased P m A m' \<Longrightarrow> occupied m \<inter> A = occupied m \<inter> B \<Longrightarrow> erased P m B m'"
  unfolding erased_def by blast

lemma erased_entries:
  assumes "erased P m A m'"
  shows "entries m' = image_mset (entry_at m) (mset_set (occupied m - A))" and "entry_at m' = entry_at m" and "key_at m' = key_at m"
    and "capacity P m' = capacity P m"
  using assms entries_states [of m' m] by (simp_all add: erased_def capacity_def)

lemma unat_small: "x < 2 ^ 63 \<Longrightarrow> unat (word_of_nat x :: u64) = x"
  by (simp add: unsigned_of_nat take_bit_nat_eq_self_iff)

lemma splice_pos_form:
  assumes "a < 63" and "pos < 2 ^ 63"
  shows "splice_pos (2 ^ a) (word_of_nat pos) = (word_of_nat (pos div 2 ^ a * 2 ^ a), int (pos mod 2 ^ a))"
proof -
  have "unat (word_of_nat pos :: u64) = pos" using assms(2) by (simp add: unsigned_of_nat take_bit_nat_eq_self_iff)
  then show ?thesis
    using aligned_init_form [OF assms(1), of "word_of_nat pos"]
    by (cases "splice_pos (2 ^ a) (word_of_nat pos)") (simp add: aligned_init_def mult.commute)
qed

context swiss_map
begin

lemma erased_count:
  assumes inv: "map_inv P m" and er: "erased P m A m'"
  shows "(m_num_empty m' - m_num_empty m) + (m_num_tombstone m' - m_num_tombstone m) = int (card (occupied m \<inter> A))"
proof -
  have "map_inv P m'" using er by (simp add: erased_def)
  then have "int (card (occupied m')) + num_not_hash_slots m' = int (card (occupied m)) + num_not_hash_slots m"
    using map_size_entries [OF inv] map_size_entries [of m'] erased_entries(4) [OF er] by (simp add: size_entries)
  moreover have "card (occupied m) = card (occupied m \<inter> A) + card (occupied m - A)"
    by (subst card_Un_disjoint [symmetric]) (auto intro: arg_cong [of _ _ card])
  ultimately show ?thesis using er by (simp add: erased_def num_not_hash_slots_def)
qed

section \<open>Burying a slot\<close>

lemma bury_slot_ok:
  assumes inv: "map_inv P m" and pos: "pos \<in> occupied m"
    and he: "he \<longleftrightarrow> empty_state \<in> set (bucket P (m_states m) (pos div ksize P * ksize P))"
  shows "erased P m {pos} (bury_slot he pos m)"
proof -
  obtain c where c: "shape_ok P c m" "unmixed P (m_states m)" "slots_ok P m" "counters_ok m" "1 \<le> m_num_empty m" by (rule map_invD [OF inv])
  let ?s = "if he then empty_state else tombstone_state" and ?m' = "bury_slot he pos m" and ?N = "length (m_states m) div ksize P"
  have st: "m_states ?m' = (m_states m)[pos := ?s]" by (simp add: bury_slot_def set_state_def)
  have same: "m_keys ?m' = m_keys m" "m_values ?m' = m_values m" "m_blobs ?m' = m_blobs m" "m_conf ?m' = m_conf m"
      "m_bucket_mask ?m' = m_bucket_mask m" "m_grow_threshold ?m' = m_grow_threshold m"
    by (simp_all add: bury_slot_def set_state_def)
  have p: "pos < length (m_states m)" "is_hash (m_states m ! pos)" using pos by (simp_all add: occupied_def)
  have pb: "pos div ksize P < ?N" by (rule pos_bucket [OF c(1) p(1)])
  have occ: "occupied ?m' = occupied m - {pos}" using p by (auto simp: occupied_def st nth_list_update_if split: if_splits)
  have lb: "length (bucket P (m_states m) (b * ksize P)) = ksize P" if "b < ?N" for b by (rule length_bucket [OF that])
  have hp: "is_hash (bucket P (m_states m) (pos div ksize P * ksize P) ! (pos mod ksize P))"
    using nth_of_bucket [OF shape_buckets(2) [OF c(1), symmetric] p(1)] p(2) by simp
  have emp: "empty_state \<in> set (bucket P ((m_states m)[pos := ?s]) (b * ksize P)) \<longleftrightarrow> empty_state \<in> set (bucket P (m_states m) (b * ksize P))"
    if b: "b < ?N" for b
  proof (cases "pos div ksize P = b")
    case True
    have m: "pos mod ksize P < length (bucket P (m_states m) (b * ksize P))" by (simp add: lb [OF b])
    show ?thesis
    proof (cases he)
      case h: True
      then have "empty_state \<in> set (bucket P (m_states m) (b * ksize P))" using he True by simp
      moreover have "empty_state \<in> set ((bucket P (m_states m) (b * ksize P))[pos mod ksize P := empty_state])"
        using m by (rule set_update_memI)
      ultimately show ?thesis using True h by (simp add: bucket_update_at [OF b])
    next
      case h: False
      then have "empty_state \<notin> set (bucket P (m_states m) (b * ksize P))" using he True by simp
      moreover have "empty_state \<notin> set ((bucket P (m_states m) (b * ksize P))[pos mod ksize P := tombstone_state])"
        using calculation set_update_subset_insert by fastforce
      ultimately show ?thesis using True h by (simp add: bucket_update_at [OF b])
    qed
  qed (simp add: bucket_update_at [OF b])
  have u: "\<not> (empty_state \<in> set (bucket P (m_states m) (pos div ksize P * ksize P))
      \<and> tombstone_state \<in> set (bucket P (m_states m) (pos div ksize P * ksize P)))"
    using c(2) pb by (simp add: unmixed_def)
  have cnt: "counters_ok ?m'"
    using c(4) p by (auto simp: counters_ok_def bury_slot_def set_state_def count_states_update dest: is_hash_neq)
  have "map_inv P ?m'"
  proof (rule states_change_ok [OF inv same])
    show "length (m_states ?m') = length (m_states m)" by (simp add: st)
    show "valid_states (m_states ?m')"
      using shape_buckets(6) [OF c(1)] set_update_subset_insert [of "m_states m" pos ?s]
      by (auto simp: st valid_states_def list_all_iff)
    show "unmixed P (m_states ?m')"
      unfolding st by (rule unmixed_update [OF c(2) p(1)]) (use he u in \<open>auto split: if_splits\<close>)
    show "1 \<le> m_num_empty ?m'" using c(5) by (simp add: bury_slot_def set_state_def)
    fix q assume q: "q \<in> occupied ?m'"
    then have q': "q \<in> occupied m" "q \<noteq> pos" using occ by auto
    then show "q \<in> occupied m \<and> m_states ?m' ! q = m_states m ! q" by (simp add: st)
    have "placed P (m_bucket_mask m) (m_states m) (pm_hash P (key_at m q)) (q div ksize P * ksize P)"
      using c(3) q'(1) by (simp add: slots_ok_def)
    moreover have "empty_state \<in> set (bucket P (m_states ?m') (probe_off P (m_bucket_mask m) h j))
        \<longleftrightarrow> empty_state \<in> set (bucket P (m_states m) (probe_off P (m_bucket_mask m) h j))" for h j
    proof -
      obtain b where "b < ?N" "probe_off P (m_bucket_mask m) h j = b * ksize P" by (rule probe_off_bucket [OF c(1)])
      then show ?thesis using emp by (simp add: st)
    qed
    ultimately show "placed P (m_bucket_mask m) (m_states ?m') (pm_hash P (key_at m q)) (q div ksize P * ksize P)"
      by (simp add: placed_def st)
  qed (rule cnt)
  then show ?thesis using same occ emp by (simp add: erased_def st)
qed

text \<open>Slots of one bucket, buried one after the other with what was known of the bucket at the start.\<close>

lemma bury_list_ok:
  assumes "map_inv P m" and "distinct is" and "b < length (m_states m) div ksize P"
    and "\<And>i. i \<in> set is \<Longrightarrow> f (b * ksize P + i) \<Longrightarrow> i < ksize P \<and> b * ksize P + i \<in> occupied m"
    and "he \<longleftrightarrow> empty_state \<in> set (bucket P (m_states m) (b * ksize P))"
  shows "erased P m {q. \<exists>i\<in>set is. q = b * ksize P + i \<and> f q}
    (fold (\<lambda>i m. if f (b * ksize P + i) then bury_slot he (b * ksize P + i) m else m) is m)"
  using assms
proof (induction "is" arbitrary: m)
  case Nil
  then show ?case by (simp add: erased_refl)
next
  case (Cons i xs)
  let ?q = "b * ksize P + i"
  let ?m1 = "if f ?q then bury_slot he ?q m else m"
  have e1: "erased P m {q. q = ?q \<and> f q} ?m1"
  proof (cases "f ?q")
    case True
    then have q: "i < ksize P" "?q \<in> occupied m" using Cons.prems(4) [of i] by simp_all
    have "?q div ksize P = b" using q(1) by simp
    then show ?thesis using bury_slot_ok [OF Cons.prems(1) q(2), of he] Cons.prems(5) True
      by (auto elim!: erased_cong)
  next
    case False
    then have e: "{q. q = ?q \<and> f q} = {}" by auto
    show ?thesis unfolding e using erased_refl [OF Cons.prems(1)] False by simp
  qed
  have l1: "length (m_states ?m1) = length (m_states m)" using e1 by (simp add: erased_def)
  have "erased P ?m1 {q. \<exists>i\<in>set xs. q = b * ksize P + i \<and> f q}
      (fold (\<lambda>i m. if f (b * ksize P + i) then bury_slot he (b * ksize P + i) m else m) xs ?m1)"
  proof (rule Cons.IH)
    show "map_inv P ?m1" using e1 by (simp only: erased_def)
    show "distinct xs" using Cons.prems(2) by simp
    show "b < length (m_states ?m1) div ksize P" using Cons.prems(3) l1 by simp
    show "he \<longleftrightarrow> empty_state \<in> set (bucket P (m_states ?m1) (b * ksize P))"
      using e1 Cons.prems(3,5) by (simp only: erased_def)
    fix j assume j: "j \<in> set xs" "f (b * ksize P + j)"
    then have "j < ksize P \<and> b * ksize P + j \<in> occupied m" "j \<noteq> i" using Cons.prems(2,4) by auto
    then show "j < ksize P \<and> b * ksize P + j \<in> occupied ?m1" using e1 by (auto simp: erased_def)
  qed
  from erased_trans [OF e1 this] have "erased P m ({q. q = ?q \<and> f q} \<union> {q. \<exists>i\<in>set xs. q = b * ksize P + i \<and> f q})
      (fold (\<lambda>i m. if f (b * ksize P + i) then bury_slot he (b * ksize P + i) m else m) (i # xs) m)" by simp
  then show ?case by (rule erased_cong) auto
qed

section \<open>Shrinking and scrubbing after an erasure\<close>

lemma capacity_two:
  assumes "map_inv P m"
  obtains c where "shape_ok P (Suc c) m" and "capacity P m = 2 ^ Suc c"
proof -
  obtain d where d: "shape_ok P d m" "capacity P m = 2 ^ d" "conf_ok (kbits P) (m_conf m)" "min_capacity (m_conf m) \<le> 2 ^ d"
    by (rule map_invD [OF assms])
  have "kbits P \<le> 62" using shape_buckets(4,5) [OF d(1)] by simp
  then have "1 \<le> grow_threshold (m_conf m) (2 ^ d)" "2 * grow_threshold (m_conf m) (2 ^ d) \<le> 2 ^ d"
    using grow_threshold_bounds [OF d(3) _ d(4)] by simp_all
  then have "(2 :: int) \<le> 2 ^ d" by linarith
  then have "d \<noteq> 0" by (cases d) simp_all
  then obtain c where "d = Suc c" by (cases d) auto
  then show ?thesis using that d by blast
qed

text \<open>Scrubbing is right for buckets of two or more slots, so a table that scrubs by itself needs such.\<close>

definition scrub_safe :: "bool" where
  "scrub_safe \<longleftrightarrow> (test_flags (pm_flags P) flag_auto_scrub \<longrightarrow> 2 \<le> ksize P)"

lemma auto_shrink_and_scrub_ok:
  assumes inv: "map_inv P m" and cap: "capacity P m \<le> 2 ^ 61" and safe: "scrub_safe"
  obtains valid m' where "auto_shrink_and_scrub P (capacity P m) n m = Some (Inr (valid, m'))" and "map_inv P m'"
    and "entries m' = entries m" and "m_conf m' = m_conf m" and "valid \<Longrightarrow> m' = m"
proof -
  note ret = that
  obtain c where c: "shape_ok P (Suc c) m" "capacity P m = 2 ^ Suc c" by (rule capacity_two [OF inv])
  have "Suc c \<le> 62" using c(1) by (simp add: shape_ok_def)
  then have c62: "c \<le> 62" by simp
  have half: "capacity P m div 2 = 2 ^ c" by (simp add: c(2))
  consider (shr) "test_flags (pm_flags P) flag_auto_shrink \<and> should_shrink (m_conf m) (capacity P m) (m_num_empty m) (m_num_tombstone m)"
    | (scr) "\<not> (test_flags (pm_flags P) flag_auto_shrink \<and> should_shrink (m_conf m) (capacity P m) (m_num_empty m) (m_num_tombstone m))"
        "test_flags (pm_flags P) flag_auto_scrub \<and> n \<noteq> 0 \<and> should_scrub (m_conf m) (capacity P m) (m_num_tombstone m)"
    | (none) "\<not> (test_flags (pm_flags P) flag_auto_shrink \<and> should_shrink (m_conf m) (capacity P m) (m_num_empty m) (m_num_tombstone m))"
        "\<not> (test_flags (pm_flags P) flag_auto_scrub \<and> n \<noteq> 0 \<and> should_scrub (m_conf m) (capacity P m) (m_num_tombstone m))"
    by blast
  then show ?thesis
  proof cases
    case shr
    obtain m' where m': "resize_map P (2 ^ c) m = Some (Inr (capacity P m', m'))" "map_inv P m'" "entries m' = entries m" "m_conf m' = m_conf m"
      by (rule resize_map_ok [OF inv cap c62])
    show ?thesis
    proof (rule ret [of False m'])
      show "auto_shrink_and_scrub P (capacity P m) n m = Some (Inr (False, m'))"
        unfolding auto_shrink_and_scrub_def if_P [OF shr] half m'(1) by simp
    qed (use m' in simp_all)
  next
    case scr
    obtain moves m' where m': "scrub P m = Some (moves, m')" "map_inv P m'" "entries m' = entries m" "m_conf m' = m_conf m"
      by (rule scrub_ok [OF inv]) (use safe scr in \<open>simp add: scrub_safe_def\<close>)
    show ?thesis
    proof (rule ret [of False m'])
      show "auto_shrink_and_scrub P (capacity P m) n m = Some (Inr (False, m'))"
        unfolding auto_shrink_and_scrub_def if_not_P [OF scr(1)] if_P [OF scr(2)] m'(1) by simp
    qed (use m' in simp_all)
  next
    case none
    show ?thesis
    proof (rule ret [of True m])
      show "auto_shrink_and_scrub P (capacity P m) n m = Some (Inr (True, m))"
        unfolding auto_shrink_and_scrub_def if_not_P [OF none(1)] if_not_P [OF none(2)] ..
    qed (use inv in simp_all)
  qed
qed

section \<open>Erasing the first entry of a key\<close>

lemma erase_found_ok:
  assumes inv: "map_inv P m" and cap: "capacity P m \<le> 2 ^ 61" and safe: "scrub_safe" and pos: "pos \<in> occupied m"
    and he: "he \<longleftrightarrow> empty_state \<in> set (bucket P (m_states m) (pos div ksize P * ksize P))"
  obtains valid m' where "reset_slot P (capacity P m) pos he m = Some (Inr (valid, m'))" and "map_inv P m'"
    and "entries m = add_mset (entry_at m pos) (entries m')" and "m_conf m' = m_conf m"
proof -
  let ?m1 = "bury_slot he pos m"
  have er: "erased P m {pos} ?m1" by (rule bury_slot_ok [OF inv pos he])
  have inv1: "map_inv P ?m1" and cf: "m_conf ?m1 = m_conf m" using er by (simp_all add: erased_def)
  have cap1: "capacity P ?m1 = capacity P m" by (rule erased_entries(4) [OF er])
  have "entries m = add_mset (entry_at m pos) (entries ?m1)"
    by (rule entries_remove [OF _ pos]) (use er erased_entries(2) [OF er] in \<open>simp_all add: erased_def\<close>)
  moreover obtain valid m' where "auto_shrink_and_scrub P (capacity P ?m1) (if he then 0 else 1) ?m1 = Some (Inr (valid, m'))"
    "map_inv P m'" "entries m' = entries ?m1" "m_conf m' = m_conf ?m1"
    by (rule auto_shrink_and_scrub_ok [OF inv1 _ safe]) (use cap cap1 in simp_all)
  ultimately show ?thesis using that [of valid m'] cf by (simp add: reset_slot_def cap1)
qed

theorem erase_first_ok:
  assumes inv: "map_inv P m" and cap: "capacity P m \<le> 2 ^ 61" and safe: "scrub_safe"
  obtains (absent) n where "erase_first P key (pm_hash P key) m = Some (Inr ((False, None, seq_at P (pm_hash P key) n), m))"
      and "key \<notin># image_mset fst (entries m)"
  | (gone) n r m' v b where "erase_first P key (pm_hash P key) m = Some (Inr ((True, r, seq_at P (pm_hash P key) n), m'))"
      and "map_inv P m'" and "entries m = add_mset (key, v, b) (entries m')" and "m_conf m' = m_conf m"
proof -
  obtain c where c: "shape_ok P c m" "slots_ok P m" "empty_state \<in> set (m_states m)" by (rule map_invD [OF inv])
  have keys: "image_mset fst (entries m) = image_mset (key_at m) (mset_set (occupied m))"
    by (simp add: entries_def entry_at_def image_mset.compositionality comp_def)
  show ?thesis
  proof (rule find_probe_ok [OF c refl, of key])
    fix n assume "find_probe P key (pm_hash P key) m = Some (None, seq_at P (pm_hash P key) n)"
      and "\<And>pos. pos \<in> occupied m \<Longrightarrow> key_at m pos \<noteq> key"
    then show ?thesis using absent [of n] by (auto simp: erase_first_def erase_found_def keys)
  next
    fix n pos assume f: "find_probe P key (pm_hash P key) m
      = Some (Some (pos, empty_state \<in> set (bucket P (m_states m) (pos div ksize P * ksize P))), seq_at P (pm_hash P key) n)"
      and pos: "pos \<in> occupied m" "key_at m pos = key"
    obtain valid m' where m': "reset_slot P (capacity P m) pos (empty_state \<in> set (bucket P (m_states m) (pos div ksize P * ksize P))) m
        = Some (Inr (valid, m'))" "map_inv P m'" "entries m = add_mset (entry_at m pos) (entries m')" "m_conf m' = m_conf m"
      by (rule erase_found_ok [OF inv cap safe pos(1) refl])
    have "erase_first P key (pm_hash P key) m
        = Some (Inr ((True, if valid then Some pos else None, seq_at P (pm_hash P key) n), m'))"
      by (simp add: erase_first_def f erase_found_def m'(1))
    then show ?thesis using gone m' pos(2) by (auto simp: entry_at_def)
  qed
qed

theorem erase_at_ok:
  assumes inv: "map_inv P m" and cap: "capacity P m \<le> 2 ^ 61" and safe: "scrub_safe" and pos: "pos < length (m_states m)"
  obtains (free) "erase_at P pos m = Some (Inr ((False, Some pos), m))" and "pos \<notin> occupied m"
  | (gone) r m' where "erase_at P pos m = Some (Inr ((True, r), m'))" and "pos \<in> occupied m" and "map_inv P m'"
      and "entries m = add_mset (entry_at m pos) (entries m')" and "m_conf m' = m_conf m"
proof -
  obtain c where c: "shape_ok P c m" by (rule map_invD [OF inv])
  have pb: "pos div ksize P < length (m_states m) div ksize P" by (rule pos_bucket [OF c pos])
  have "length (m_states m) \<le> 2 ^ 62"
    unfolding shape_buckets(1) [OF c] by (rule power_increasing) (simp_all add: shape_buckets(5) [OF c])
  then have lt: "pos < 2 ^ 63" using pos by simp
  have kb: "kbits P < 63" using shape_buckets(4,5) [OF c] by simp
  have sp: "splice_pos (int (ksize P)) (word_of_nat pos) = (word_of_nat (pos div ksize P * ksize P), int (pos mod ksize P))"
    using splice_pos_form [OF kb lt] by (simp add: size_power)
  have "pos div ksize P * ksize P < 2 ^ 63" by (rule order.strict_trans1 [OF _ lt]) simp
  then have off: "unat (word_of_nat (pos div ksize P * ksize P) :: u64) = pos div ksize P * ksize P" by (rule unat_small)
  have lb: "length (bucket P (m_states m) (pos div ksize P * ksize P)) = kn_size (pm_kernel P)"
    by (simp add: length_bucket [OF pb] kn_size)
  have at: "kn_at (pm_kernel P) (load_bucket P (m_states m) (pos div ksize P * ksize P)) (pos mod ksize P) = m_states m ! pos"
    unfolding load_bucket
    by (subst at_load [OF lb]) (simp_all add: kn_size nth_of_bucket [OF shape_buckets(2) [OF c, symmetric] pos])
  note ea = erase_at_def [of P pos m, unfolded sp Let_def prod.case off nat_int at has_empty_bucket [OF c pb]]
  show ?thesis
  proof (cases "is_hash (m_states m ! pos)")
    case False
    then show ?thesis using free by (simp add: ea occupied_def)
  next
    case True
    then have o: "pos \<in> occupied m" using pos by (simp add: occupied_def)
    obtain valid m' where m': "reset_slot P (capacity P m) pos (empty_state \<in> set (bucket P (m_states m) (pos div ksize P * ksize P))) m
        = Some (Inr (valid, m'))" "map_inv P m'" "entries m = add_mset (entry_at m pos) (entries m')" "m_conf m' = m_conf m"
      by (rule erase_found_ok [OF inv cap safe o refl])
    then show ?thesis using gone [of "if valid then Some pos else None" m'] True o by (simp add: ea)
  qed
qed

section \<open>Erasing many entries\<close>

lemma finish_erase_ok:
  assumes inv: "map_inv P m" and cap: "capacity P m \<le> 2 ^ 61" and safe: "scrub_safe" and er: "erased P m A m1"
  obtains m' where "finish_erase P m m1 = Some (Inr (int (card (occupied m \<inter> A)), m'))" and "map_inv P m'"
    and "entries m' = image_mset (entry_at m) (mset_set (occupied m - A))" and "m_conf m' = m_conf m"
proof -
  let ?n = "int (card (occupied m \<inter> A))" and ?d = "m_num_tombstone m1 - m_num_tombstone m"
  have n: "(m_num_empty m1 - m_num_empty m) + ?d = ?n" by (rule erased_count [OF inv er])
  have inv1: "map_inv P m1" and cf: "m_conf m1 = m_conf m" using er by (simp_all add: erased_def)
  have cap1: "capacity P m1 = capacity P m" by (rule erased_entries(4) [OF er])
  have ent: "entries m1 = image_mset (entry_at m) (mset_set (occupied m - A))" by (rule erased_entries(1) [OF er])
  obtain valid m' where m': "auto_shrink_and_scrub P (capacity P m1) ?d m1 = Some (Inr (valid, m'))" "map_inv P m'"
    "entries m' = entries m1" "m_conf m' = m_conf m1"
    by (rule auto_shrink_and_scrub_ok [OF inv1 _ safe]) (use cap cap1 in simp_all)
  show ?thesis
  proof (cases "?n = 0")
    case True
    then show ?thesis using that [of m1] inv1 ent cf n by (simp add: finish_erase_def Let_def)
  next
    case False
    then have "finish_erase P m m1 = Some (Inr (?n, m'))"
      unfolding finish_erase_def Let_def n cap1 [symmetric] by (simp add: m'(1))
    then show ?thesis using that [of m'] m' ent cf by simp
  qed
qed

lemma walk_distinct:
  assumes "b < length states div ksize P"
  shows "distinct (walk P (kn_mask_hash (pm_kernel P) (load_bucket P states (b * ksize P))))"
    and "is_hash s \<Longrightarrow> distinct (walk P (kn_mask (pm_kernel P) (load_bucket P states (b * ksize P)) s))"
  using length_bucket [OF assms] by (simp_all add: walk_def load_bucket distinct_indices mask_hash_ok mask_ok kn_size)

theorem erase_if_ok:
  assumes inv: "map_inv P m" and cap: "capacity P m \<le> 2 ^ 61" and safe: "scrub_safe"
  obtains m' where "erase_if P f m = Some (Inr (int (card {pos \<in> occupied m. f pos}), m'))" and "map_inv P m'"
    and "entries m' = image_mset (entry_at m) (mset_set {pos \<in> occupied m. \<not> f pos})" and "m_conf m' = m_conf m"
proof -
  obtain c where c: "shape_ok P c m" "capacity P m = 2 ^ c" by (rule map_invD [OF inv])
  let ?N = "length (m_states m) div ksize P"
  let ?step = "\<lambda>off m'. let k = load_bucket P (m_states m') off in bury_in_bucket P f k (kn_mask_hash (pm_kernel P) k) off m'"
  have loop: "erased P m {q \<in> occupied m. f q \<and> q div ksize P < n} (fold ?step (map (\<lambda>b. b * ksize P) [0..<n]) m)" if "n \<le> ?N" for n
    using that
  proof (induction n)
    case 0
    then show ?case by (simp add: erased_refl [OF inv])
  next
    case (Suc n)
    obtain m1 where m1: "fold ?step (map (\<lambda>b. b * ksize P) [0..<n]) m = m1" by simp
    have IH: "erased P m {q \<in> occupied m. f q \<and> q div ksize P < n} m1" using Suc m1 by simp
    obtain d where d: "shape_ok P d m1" using IH by (auto simp: erased_def elim: map_invD)
    have n: "n < length (m_states m1) div ksize P" using IH Suc.prems by (simp add: erased_def)
    let ?k = "load_bucket P (m_states m1) (n * ksize P)"
    have "erased P m1 {q. \<exists>i\<in>set (walk P (kn_mask_hash (pm_kernel P) ?k)). q = n * ksize P + i \<and> f q} (?step (n * ksize P) m1)"
      unfolding Let_def bury_in_bucket_def
    proof (rule bury_list_ok)
      show "map_inv P m1" using IH by (simp only: erased_def)
      show "distinct (walk P (kn_mask_hash (pm_kernel P) ?k))" by (rule walk_distinct(1) [OF n])
      show "n < length (m_states m1) div ksize P" by (rule n)
      show "kn_has_empty (pm_kernel P) ?k \<longleftrightarrow> empty_state \<in> set (bucket P (m_states m1) (n * ksize P))"
        by (rule has_empty_bucket [OF d n])
      fix i assume "i \<in> set (walk P (kn_mask_hash (pm_kernel P) ?k))"
      then show "i < ksize P \<and> n * ksize P + i \<in> occupied m1"
        using hash_walk [OF d n] bucket_of_pos(2) [OF d _ n, of i] by (auto simp: occupied_def)
    qed
    from erased_trans [OF IH this]
    have "erased P m ({q \<in> occupied m. f q \<and> q div ksize P < n}
        \<union> {q. \<exists>i\<in>set (walk P (kn_mask_hash (pm_kernel P) ?k)). q = n * ksize P + i \<and> f q}) (?step (n * ksize P) m1)" .
    then have "erased P m {q \<in> occupied m. f q \<and> q div ksize P < Suc n} (?step (n * ksize P) m1)"
    proof (rule erased_cong, intro set_eqI iffI)
      fix q assume "q \<in> occupied m \<inter> {q \<in> occupied m. f q \<and> q div ksize P < Suc n}"
      then have q: "q \<in> occupied m" "f q" "q div ksize P < Suc n" by simp_all
      show "q \<in> occupied m \<inter> ({q \<in> occupied m. f q \<and> q div ksize P < n}
          \<union> {q. \<exists>i\<in>set (walk P (kn_mask_hash (pm_kernel P) ?k)). q = n * ksize P + i \<and> f q})"
      proof (cases "q div ksize P < n")
        case False
        then have qn: "q = n * ksize P + q mod ksize P" using q(3) by (metis div_mult_mod_eq less_antisym)
        have "q \<in> occupied m1" using IH q False by (simp add: erased_def)
        then have "q mod ksize P \<in> set (walk P (kn_mask_hash (pm_kernel P) ?k))"
          unfolding hash_walk [OF d n] using qn by (simp add: occupied_def)
        then show ?thesis using q qn by blast
      qed (use q in simp)
    next
      fix q assume "q \<in> occupied m \<inter> ({q \<in> occupied m. f q \<and> q div ksize P < n}
          \<union> {q. \<exists>i\<in>set (walk P (kn_mask_hash (pm_kernel P) ?k)). q = n * ksize P + i \<and> f q})"
      then show "q \<in> occupied m \<inter> {q \<in> occupied m. f q \<and> q div ksize P < Suc n}"
        unfolding hash_walk [OF d n] by auto
    qed
    then show ?case by (simp add: m1)
  qed
  have er: "erased P m {q. f q} (fold ?step (map (\<lambda>b. b * ksize P) [0..<?N]) m)"
    by (rule erased_cong [OF loop [OF order.refl]]) (use pos_bucket [OF c(1)] in \<open>auto simp: occupied_def\<close>)
  obtain m' where m': "finish_erase P m (fold ?step (map (\<lambda>b. b * ksize P) [0..<?N]) m) = Some (Inr (int (card (occupied m \<inter> {q. f q})), m'))"
    "map_inv P m'" "entries m' = image_mset (entry_at m) (mset_set (occupied m - {q. f q}))" "m_conf m' = m_conf m"
    by (rule finish_erase_ok [OF inv cap safe er])
  have s: "occupied m \<inter> {q. f q} = {pos \<in> occupied m. f pos}" "occupied m - {q. f q} = {pos \<in> occupied m. \<not> f pos}" by auto
  show ?thesis
  proof (rule that [of m'])
    show "erase_if P f m = Some (Inr (int (card {pos \<in> occupied m. f pos}), m'))"
      using m'(1) unfolding s by (simp only: erase_if_def c(2) bucket_offs_shape [OF c(1)])
  qed (use m' s in simp_all)
qed

text \<open>The loop of \<open>erase_all_\<close> frees the entries of the key up to the first bucket with an empty slot.\<close>

lemma erase_key_bucket:
  assumes inv: "map_inv P m1" and b: "b < length (m_states m1) div ksize P" and h: "h = pm_hash P key"
    and k: "key_at m1 = (\<lambda>q. keys ! q)"
  shows "erased P m1 {q. q div ksize P = b \<and> keys ! q = key}
    (bury_in_bucket P (\<lambda>pos. keys ! pos = key) (load_bucket P (m_states m1) (b * ksize P))
      (kn_mask (pm_kernel P) (load_bucket P (m_states m1) (b * ksize P)) (pm_state P h)) (b * ksize P) m1)"
proof -
  let ?k = "load_bucket P (m_states m1) (b * ksize P)" and ?s = "pm_state P h" and ?f = "\<lambda>pos. keys ! pos = key"
  obtain d where d: "shape_ok P d m1" "slots_ok P m1" by (rule map_invD [OF inv])
  have s: "is_hash ?s" by (simp add: pm_state_def)
  note w = match_walk [OF d(1) b s]
  have "erased P m1 {q. \<exists>i\<in>set (walk P (kn_mask (pm_kernel P) ?k ?s)). q = b * ksize P + i \<and> ?f q}
    (bury_in_bucket P ?f ?k (kn_mask (pm_kernel P) ?k ?s) (b * ksize P) m1)"
    unfolding bury_in_bucket_def
  proof (rule bury_list_ok [OF inv walk_distinct(2) [OF b s] b])
    show "kn_has_empty (pm_kernel P) ?k \<longleftrightarrow> empty_state \<in> set (bucket P (m_states m1) (b * ksize P))"
      by (rule has_empty_bucket [OF d(1) b])
    fix i assume "i \<in> set (walk P (kn_mask (pm_kernel P) ?k ?s))"
    then show "i < ksize P \<and> b * ksize P + i \<in> occupied m1"
      using w(1) bucket_of_pos(2) [OF d(1) _ b, of i] by (auto simp: occupied_def)
  qed
  then show ?thesis
  proof (rule erased_cong, intro set_eqI iffI)
    fix q assume "q \<in> occupied m1 \<inter> {q. q div ksize P = b \<and> keys ! q = key}"
    then have q: "q \<in> occupied m1" "q div ksize P = b" "keys ! q = key" by simp_all
    have qn: "q = b * ksize P + q mod ksize P" using q(2) by auto
    have "m_states m1 ! q = ?s" using d(2) q k h by (simp add: slots_ok_def)
    then have "q mod ksize P \<in> set (walk P (kn_mask (pm_kernel P) ?k ?s))" using w(2) qn by auto
    then show "q \<in> occupied m1 \<inter> {q. \<exists>i\<in>set (walk P (kn_mask (pm_kernel P) ?k ?s)). q = b * ksize P + i \<and> ?f q}"
      using q qn by blast
  next
    fix q assume "q \<in> occupied m1 \<inter> {q. \<exists>i\<in>set (walk P (kn_mask (pm_kernel P) ?k ?s)). q = b * ksize P + i \<and> ?f q}"
    then show "q \<in> occupied m1 \<inter> {q. q div ksize P = b \<and> keys ! q = key}" using w(1) by auto
  qed
qed

lemma erase_all_probe:
  assumes inv: "map_inv P m" and h: "h = pm_hash P key"
  obtains n m1 where "probe P (m_bucket_mask m) h (\<lambda>off seq m'.
            let k = load_bucket P (m_states m') off;
                m' = bury_in_bucket P (\<lambda>pos. m_keys m ! pos = key) k (kn_mask (pm_kernel P) k (pm_state P h)) off m'
            in if kn_has_empty (pm_kernel P) k then Inr m' else Inl m') m = Some (seq_at P h n, Inr m1)"
    and "erased P m {q. key_at m q = key} m1"
proof -
  obtain c where c: "shape_ok P c m" "slots_ok P m" "empty_state \<in> set (m_states m)" by (rule map_invD [OF inv])
  let ?N = "length (m_states m) div ksize P" and ?off = "probe_off P (m_bucket_mask m) h"
  let ?b = "\<lambda>i. ?off i div ksize P"
  have off: "?off i = ?b i * ksize P" "?b i < ?N" for i
  proof -
    obtain b where "b < ?N" "?off i = b * ksize P" by (rule probe_off_bucket [OF c(1)])
    then show "?off i = ?b i * ksize P" "?b i < ?N" by simp_all
  qed
  let ?e = "\<lambda>i. empty_state \<in> set (bucket P (m_states m) (?off i))"
  define n where "n = (LEAST i. ?e i)"
  obtain i0 where i0: "?e i0" using empty_reached [OF c(1,3)] by blast
  have en: "?e n" unfolding n_def by (rule LeastI [of ?e, OF i0])
  have before: "\<not> ?e j" if "j < n" for j using that not_less_Least unfolding n_def by blast
  let ?step = "\<lambda>off m'. bury_in_bucket P (\<lambda>pos. m_keys m ! pos = key) (load_bucket P (m_states m') off)
    (kn_mask (pm_kernel P) (load_bucket P (m_states m') off) (pm_state P h)) off m'"
  define S where "S = rec_nat m (\<lambda>i m'. ?step (?off i) m')"
  have S0: "S 0 = m" and S_Suc: "S (Suc i) = ?step (?off i) (S i)" for i by (simp_all add: S_def)
  have er: "erased P m {q. key_at m q = key \<and> q div ksize P \<in> ?b ` {..<i}} (S i)" for i
  proof (induction i)
    case 0
    then show ?case by (simp add: S0 erased_refl [OF inv])
  next
    case (Suc i)
    have inv1: "map_inv P (S i)" and l: "length (m_states (S i)) = length (m_states m)" using Suc by (simp_all add: erased_def)
    have k: "key_at (S i) = (\<lambda>q. m_keys m ! q)" using erased_entries(3) [OF Suc] by (simp add: key_at_def fun_eq_iff)
    have "erased P (S i) {q. q div ksize P = ?b i \<and> m_keys m ! q = key} (S (Suc i))"
      unfolding S_Suc using erase_key_bucket [OF inv1 _ h k, of "?b i"] off [of i] l by simp
    from erased_trans [OF Suc this] show ?case
      by (rule erased_cong) (auto simp: key_at_def less_Suc_eq)
  qed
  have he: "kn_has_empty (pm_kernel P) (load_bucket P (m_states (S i)) (?off i)) \<longleftrightarrow> ?e i" for i
  proof -
    obtain d where d: "shape_ok P d (S i)" using er [of i] by (auto simp: erased_def elim: map_invD)
    have b: "?b i < length (m_states (S i)) div ksize P" using er [of i] off(2) by (simp add: erased_def)
    have "kn_has_empty (pm_kernel P) (load_bucket P (m_states (S i)) (?b i * ksize P))
        \<longleftrightarrow> empty_state \<in> set (bucket P (m_states (S i)) (?b i * ksize P))" by (rule has_empty_bucket [OF d b])
    also have "\<dots> \<longleftrightarrow> empty_state \<in> set (bucket P (m_states m) (?b i * ksize P))" using er [of i] off(2) by (simp add: erased_def)
    finally show ?thesis using off(1) [of i] by simp
  qed
  let ?body = "\<lambda>off seq m'. let k = load_bucket P (m_states m') off;
                m' = bury_in_bucket P (\<lambda>pos. m_keys m ! pos = key) k (kn_mask (pm_kernel P) k (pm_state P h)) off m'
            in if kn_has_empty (pm_kernel P) k then Inr m' else Inl m'"
  have "probe P (m_bucket_mask m) h ?body (S 0) = Some (seq_at P h n, Inr (S (Suc n)))"
  proof (rule probe_scan)
    fix i assume "i < n"
    then show "?body (?off i) (seq_at P h i) (S i) = Inl (S (Suc i))" using he [of i] before by (simp add: Let_def S_Suc)
  next
    show "?body (?off n) (seq_at P h n) (S n) = Inr (S (Suc n))" using he [of n] en by (simp add: Let_def S_Suc)
  qed
  moreover have "erased P m {q. key_at m q = key} (S (Suc n))"
  proof (rule erased_cong [OF er [of "Suc n"]], intro set_eqI iffI)
    fix q assume "q \<in> occupied m \<inter> {q. key_at m q = key}"
    then have q: "q \<in> occupied m" "key_at m q = key" by simp_all
    then have "placed P (m_bucket_mask m) (m_states m) h (q div ksize P * ksize P)" using c(2) h by (auto simp: slots_ok_def)
    then obtain l where l: "?off l = q div ksize P * ksize P" "\<And>j. j < l \<Longrightarrow> \<not> ?e j" by (auto simp: placed_def)
    have "l \<le> n" using l(2) en by (meson not_le_imp_less)
    moreover have "q div ksize P = ?b l" using l(1) by simp
    ultimately show "q \<in> occupied m \<inter> {q. key_at m q = key \<and> q div ksize P \<in> ?b ` {..<Suc n}}" using q by auto
  qed auto
  ultimately show ?thesis using that S0 by simp
qed

theorem erase_all_ok:
  assumes inv: "map_inv P m" and cap: "capacity P m \<le> 2 ^ 61" and safe: "scrub_safe"
  obtains m' where "erase_all P key (pm_hash P key) m = Some (Inr (int (count (image_mset fst (entries m)) key), m'))"
    and "map_inv P m'" and "entries m' = filter_mset (\<lambda>e. fst e \<noteq> key) (entries m)" and "m_conf m' = m_conf m"
proof -
  have cnt: "count (image_mset fst (entries m)) key = card (occupied m \<inter> {q. key_at m q = key})"
    by (simp add: entries_def entry_at_def image_mset.compositionality comp_def count_image_mset vimage_def Int_def conj_commute)
  have flt: "filter_mset (\<lambda>e. fst e \<noteq> key) (entries m) = image_mset (entry_at m) (mset_set (occupied m - {q. key_at m q = key}))"
    by (simp add: entries_def filter_mset_image_mset entry_at_def filter_mset_mset_set set_diff_eq)
  show ?thesis
  proof (cases "has_duplicates P")
    case True
    obtain n m1 where p: "probe P (m_bucket_mask m) (pm_hash P key) (\<lambda>off seq m'.
            let k = load_bucket P (m_states m') off;
                m' = bury_in_bucket P (\<lambda>pos. m_keys m ! pos = key) k (kn_mask (pm_kernel P) k (pm_state P (pm_hash P key))) off m'
            in if kn_has_empty (pm_kernel P) k then Inr m' else Inl m') m = Some (seq_at P (pm_hash P key) n, Inr m1)"
      "erased P m {q. key_at m q = key} m1" by (rule erase_all_probe [OF inv refl])
    obtain m' where m': "finish_erase P m m1 = Some (Inr (int (card (occupied m \<inter> {q. key_at m q = key})), m'))" "map_inv P m'"
      "entries m' = image_mset (entry_at m) (mset_set (occupied m - {q. key_at m q = key}))" "m_conf m' = m_conf m"
      by (rule finish_erase_ok [OF inv cap safe p(2)])
    have "erase_all P key (pm_hash P key) m = Some (Inr (int (card (occupied m \<inter> {q. key_at m q = key})), m'))"
      unfolding erase_all_def using True p(1) m'(1) by simp
    then show ?thesis using that m' cnt flt by simp
  next
    case False
    then have le: "count (image_mset fst (entries m)) k \<le> 1" for k
      using inv keys_ok_entries [of P m] by (simp add: map_inv_def)
    show ?thesis
    proof (rule erase_first_ok [OF inv cap safe, of key])
      fix n assume e: "erase_first P key (pm_hash P key) m = Some (Inr ((False, None, seq_at P (pm_hash P key) n), m))"
        "key \<notin># image_mset fst (entries m)"
      then have "count (image_mset fst (entries m)) key = 0" by (simp only: not_in_iff)
      moreover have "filter_mset (\<lambda>e. fst e \<noteq> key) (entries m) = entries m"
        unfolding filter_mset_eq_conv using e(2) by auto
      ultimately show ?thesis using that [of m] e(1) False inv by (simp add: erase_all_def)
    next
      fix n r m' v b assume e: "erase_first P key (pm_hash P key) m = Some (Inr ((True, r, seq_at P (pm_hash P key) n), m'))"
        "map_inv P m'" "entries m = add_mset (key, v, b) (entries m')" "m_conf m' = m_conf m"
      have c: "count (image_mset fst (entries m)) key = Suc (count (image_mset fst (entries m')) key)" using e(3) by simp
      then have one: "count (image_mset fst (entries m)) key = 1" and "count (image_mset fst (entries m')) key = 0"
        using le [of key] by simp_all
      then have "key \<notin># image_mset fst (entries m')" by (simp only: not_in_iff)
      then have "filter_mset (\<lambda>e. fst e \<noteq> key) (entries m') = entries m'"
        unfolding filter_mset_eq_conv by auto
      then have "filter_mset (\<lambda>e. fst e \<noteq> key) (entries m) = entries m'" using e(3) by simp
      then show ?thesis using that [of m'] e(1,2,4) False one by (simp add: erase_all_def)
    qed
  qed
qed

end

end
