(* ===== verification/MapQuery.thy ===== *)
theory MapQuery
  imports MapErase
begin

text \<open>
  The operations that only read the table (lookup, iteration, counting, the integrity check), and
  construction, clearing and assignment, which establish the invariant.
\<close>

lemma entries_keys: "image_mset fst (entries m) = image_mset (key_at m) (mset_set (occupied m))"
  by (simp add: entries_def entry_at_def image_mset.compositionality comp_def)

lemma key_in_entries: "key \<in># image_mset fst (entries m) \<longleftrightarrow> (\<exists>pos \<in> occupied m. key_at m pos = key)"
  by (auto simp: entries_keys)

lemma fold_count: "fold (\<lambda>x n. n + of_bool (f x)) xs (n :: int) = n + int (length (filter f xs))"
  by (induction xs arbitrary: n) auto

lemma memcpy_all: "length src = length dst \<Longrightarrow> memcpy dst 0 src = src"
  by (simp add: memcpy_def)

context swiss_map
begin

section \<open>Lookup\<close>

theorem find_first_ok:
  assumes inv: "map_inv P m"
  obtains (absent) n where "find_first P key (pm_hash P key) m = Some (None, seq_at P (pm_hash P key) n)"
      and "\<And>pos. pos \<in> occupied m \<Longrightarrow> key_at m pos \<noteq> key"
  | (found) n pos where "find_first P key (pm_hash P key) m = Some (Some pos, seq_at P (pm_hash P key) n)"
      and "pos \<in> occupied m" and "key_at m pos = key"
      and "probe_off P (m_bucket_mask m) (pm_hash P key) n = pos div ksize P * ksize P"
proof -
  obtain c where c: "shape_ok P c m" "slots_ok P m" "empty_state \<in> set (m_states m)" by (rule map_invD [OF inv])
  show ?thesis
  proof (rule find_probe_ok [OF c refl, of key])
    fix n assume "find_probe P key (pm_hash P key) m = Some (None, seq_at P (pm_hash P key) n)"
      and "\<And>pos. pos \<in> occupied m \<Longrightarrow> key_at m pos \<noteq> key"
    then show ?thesis using absent [of n] by (simp add: find_first_def)
  next
    fix n pos assume "find_probe P key (pm_hash P key) m
        = Some (Some (pos, empty_state \<in> set (bucket P (m_states m) (pos div ksize P * ksize P))), seq_at P (pm_hash P key) n)"
      and "pos \<in> occupied m" "key_at m pos = key" "probe_off P (m_bucket_mask m) (pm_hash P key) n = pos div ksize P * ksize P"
    then show ?thesis using found [of pos n] by (simp add: find_first_def)
  qed
qed

section \<open>Visiting all entries\<close>

theorem for_each_ok:
  assumes "map_inv P m"
  shows "set (for_each P m) = occupied m" and "distinct (for_each P m)"
proof -
  obtain c where c: "shape_ok P c m" "capacity P m = 2 ^ c" by (rule map_invD [OF assms])
  show "set (for_each P m) = occupied m" "distinct (for_each P m)"
    unfolding for_each_def c(2) by (rule hash_positions_set [OF c(1)])+
qed

lemma for_each_entries:
  assumes "map_inv P m"
  shows "mset (map (entry_at m) (for_each P m)) = entries m"
  using for_each_ok [OF assms] by (metis entries_def mset_map mset_set_set)

lemma find_if_ok:
  assumes "map_inv P m"
  shows "find_if P f m = Some pos \<Longrightarrow> pos \<in> occupied m \<and> f pos"
    and "find_if P f m = None \<longleftrightarrow> (\<forall>pos \<in> occupied m. \<not> f pos)"
  using for_each_ok(1) [OF assms] find_SomeD [of f "for_each P m" pos]
  by (auto simp: find_if_def for_each_def find_None_iff)

lemma count_if_ok:
  assumes "map_inv P m"
  shows "count_if P f m = int (card {pos \<in> occupied m. f pos})"
proof -
  have "length (filter f (for_each P m)) = card (set (filter f (for_each P m)))"
    using for_each_ok(2) [OF assms] by (intro distinct_card [symmetric]) simp
  then show ?thesis using for_each_ok(1) [OF assms] by (simp add: count_if_def fold_count)
qed

section \<open>Counting slots\<close>

lemma bucket_counts:
  assumes sh: "shape_ok P c m" and b: "b < length (m_states m) div ksize P"
  shows "int (mk_count (kn_mask_ops (pm_kernel P)) (kn_mask_empty (pm_kernel P) (load_bucket P (m_states m) (b * ksize P))))
      = count_states empty_state (bucket P (m_states m) (b * ksize P))"
    and "int (mk_count (kn_mask_ops (pm_kernel P)) (kn_mask_tombstone (pm_kernel P) (load_bucket P (m_states m) (b * ksize P))))
      = count_states tombstone_state (bucket P (m_states m) (b * ksize P))"
    and "mk_count (kn_mask_ops (pm_kernel P)) (kn_mask_hash (pm_kernel P) (load_bucket P (m_states m) (b * ksize P)))
      = length (filter is_hash (bucket P (m_states m) (b * ksize P)))"
proof -
  have l: "length (bucket P (m_states m) (b * ksize P)) = kn_size (pm_kernel P)" by (simp add: length_bucket [OF b] kn_size)
  have v: "valid_states (bucket P (m_states m) (b * ksize P))" by (rule valid_bucket [OF shape_buckets(6) [OF sh]])
  show "int (mk_count (kn_mask_ops (pm_kernel P)) (kn_mask_empty (pm_kernel P) (load_bucket P (m_states m) (b * ksize P))))
      = count_states empty_state (bucket P (m_states m) (b * ksize P))"
    by (simp add: load_bucket count_card mask_empty_ok [OF l v] mask_empty_slots [OF l v] card_slots_with count_states_def)
  show "int (mk_count (kn_mask_ops (pm_kernel P)) (kn_mask_tombstone (pm_kernel P) (load_bucket P (m_states m) (b * ksize P))))
      = count_states tombstone_state (bucket P (m_states m) (b * ksize P))"
    by (simp add: load_bucket count_card mask_tombstone_ok [OF l v] mask_tombstone_slots [OF l v] card_slots_with count_states_def)
  show "mk_count (kn_mask_ops (pm_kernel P)) (kn_mask_hash (pm_kernel P) (load_bucket P (m_states m) (b * ksize P)))
      = length (filter is_hash (bucket P (m_states m) (b * ksize P)))"
    by (simp add: load_bucket count_card mask_hash_ok [OF l] mask_hash_slots [OF l] card_slots_with)
qed

text \<open>The integrity check recomputes the counters, so it is the counters' part of the invariant.\<close>

lemma check_integrity_iff:
  assumes sh: "shape_ok P c m"
  shows "check_integrity P m \<longleftrightarrow> counters_ok m"
proof -
  let ?K = "pm_kernel P" and ?N = "length (m_states m) div ksize P" and ?S = "m_states m"
  let ?step = "\<lambda>off (e, t). let k = load_bucket P ?S off
           in (e + int (mk_count (kn_mask_ops ?K) (kn_mask_empty ?K k)), t + int (mk_count (kn_mask_ops ?K) (kn_mask_tombstone ?K k)))"
  have "fold ?step (map (\<lambda>b. b * ksize P) [0..<n]) (0, 0)
      = (\<Sum>b<n. count_states empty_state (bucket P ?S (b * ksize P)), \<Sum>b<n. count_states tombstone_state (bucket P ?S (b * ksize P)))"
    if "n \<le> ?N" for n
    using that by (induction n) (simp_all add: bucket_counts [OF sh])
  from this [OF order.refl]
  have "fold ?step (bucket_offs P (2 ^ c)) (0, 0) = (count_states empty_state ?S, count_states tombstone_state ?S)"
    by (simp add: bucket_offs_shape [OF sh] count_states_buckets [OF shape_buckets(2) [OF sh, symmetric]])
  then show ?thesis
    by (auto simp: check_integrity_def counters_ok_def capacity_shape [OF sh] Let_def)
qed

theorem check_integrity_ok: "map_inv P m \<Longrightarrow> check_integrity P m"
  by (rule map_invD) (auto simp: check_integrity_iff)

theorem map_size_ok:
  assumes "map_inv P m"
  shows "map_size P m = int (size (entries m))"
  using map_size_entries [OF assms] by (simp add: map_size_def)

section \<open>Construction\<close>

lemma fresh_map_ok:
  assumes cf: "conf_ok (kbits P) (m_conf m)" and c: "c \<le> 62" and mc: "min_capacity (m_conf m) \<le> 2 ^ c"
    and sh: "shape_ok P c (reset_map P m)" and st: "m_states (reset_map P m) = replicate (2 ^ c) empty_state"
    and th: "m_grow_threshold m = grow_threshold (m_conf m) (2 ^ c)"
  shows "map_inv P (reset_map P m)" and "entries (reset_map P m) = {#}"
proof -
  note ae = all_empty_facts [OF st]
  show "entries (reset_map P m) = {#}" by (rule ae(2))
  have cap: "capacity P m = 2 ^ c" using capacity_shape [OF sh] by simp
  show "map_inv P (reset_map P m)"
    unfolding map_inv_def
  proof (intro conjI exI [of _ c])
    show "counters_ok (reset_map P m)" using ae(6,7) cap by (simp add: counters_ok_def count_states_0)
    show "1 \<le> m_num_empty (reset_map P m)" using cap by simp
  qed (use sh cf mc th ae in simp_all)
qed

lemma realloc_map_ok:
  assumes cf: "conf_ok (kbits P) (m_conf m)" and c: "kbits P \<le> c" "c \<le> 62" and mc: "min_capacity (m_conf m) \<le> 2 ^ c"
  shows "map_inv P (reset_map P (alloc_map P (2 ^ c) m))" and "entries (reset_map P (alloc_map P (2 ^ c) m)) = {#}"
    and "capacity P (reset_map P (alloc_map P (2 ^ c) m)) = 2 ^ c"
proof -
  have "blob_size (m_conf m) \<le> blob_stride (m_conf m)" using cf by (simp add: conf_ok_def)
  then have bl: "nat (blob_size (m_conf m)) \<le> nat (blob_stride (m_conf m))" by (rule nat_mono)
  note s = alloc_reset_shape [of c m, OF c bl]
  show "capacity P (reset_map P (alloc_map P (2 ^ c) m)) = 2 ^ c" by (rule capacity_shape [OF s(1)])
  show "map_inv P (reset_map P (alloc_map P (2 ^ c) m))" "entries (reset_map P (alloc_map P (2 ^ c) m)) = {#}"
    using fresh_map_ok [of "alloc_map P (2 ^ c) m" c] s cf c(2) mc by simp_all
qed

theorem make_map_ok:
  assumes cf: "conf_ok (kbits P) cf" and k: "kbits P \<le> 62"
  obtains m where "make_map P cf = Inr m" and "map_inv P m" and "entries m = {#}" and "m_conf m = cf" and "capacity P m = init_capacity cf"
proof -
  obtain a b where ab: "a \<le> b" "b \<le> 62" "min_capacity cf = 2 ^ a" "init_capacity cf = 2 ^ b"
    and v: "is_valid (2 ^ kbits P) cf" using cf by (auto simp: conf_ok_def)
  obtain a' where "min_capacity cf = 2 ^ a'" "kbits P \<le> a'" by (rule conf_ok_power [OF cf k])
  then have "kbits P \<le> a" using ab(3) power_inject_exp [of "2 :: int" a a'] by simp
  then have kb: "kbits P \<le> b" using ab(1) by simp
  have mc: "min_capacity cf \<le> 2 ^ b" unfolding ab(3) by (simp only: power_le_iff_2 ab(1))
  let ?m0 = "\<lparr>m_conf = cf, m_bucket_mask = 0, m_values = [], m_blobs = [], m_keys = [], m_grow_threshold = 0, m_states = [],
     m_num_empty = 0, m_num_tombstone = 0\<rparr>"
  have "make_map P cf = Inr (reset_map P (alloc_map P (2 ^ b) ?m0))"
    using v ab(4) by (simp add: make_map_def alloc_map_def size_power Let_def)
  then show ?thesis
    using that realloc_map_ok [of ?m0 b] cf kb ab(2,4) mc by simp
qed

lemma make_map_invalid: "\<not> is_valid (int (ksize P)) cf \<Longrightarrow> make_map P cf = Inl Invalid_argument"
  by (simp add: make_map_def)

section \<open>Clearing\<close>

lemma reset_map_ok:
  assumes inv: "map_inv P m"
  shows "map_inv P (reset_map P m)" and "entries (reset_map P m) = {#}" and "capacity P (reset_map P m) = capacity P m"
proof -
  obtain c where c: "shape_ok P c m" "capacity P m = 2 ^ c" "conf_ok (kbits P) (m_conf m)" "min_capacity (m_conf m) \<le> 2 ^ c"
    "m_grow_threshold m = grow_threshold (m_conf m) (2 ^ c)" by (rule map_invD [OF inv])
  have st: "m_states (reset_map P m) = replicate (2 ^ c) empty_state"
    using c(1) by (intro reset_states) (simp_all add: shape_ok_def)
  have sh: "shape_ok P c (reset_map P m)" using c(1) st all_empty_facts(8) [OF st] by (simp add: shape_ok_def)
  have c62: "c \<le> 62" using shape_buckets(5) [OF c(1)] .
  show "map_inv P (reset_map P m)" "entries (reset_map P m) = {#}"
    by (rule fresh_map_ok [OF c(3) c62 c(4) sh st c(5)])+
qed simp

lemma conf_ok_min_init:
  assumes "conf_ok (kbits P) cf" and "kbits P \<le> 62"
  obtains b where "init_capacity cf = 2 ^ b" and "b \<le> 62" and "kbits P \<le> b" and "min_capacity cf \<le> 2 ^ b"
proof -
  obtain a b where ab: "a \<le> b" "b \<le> 62" "min_capacity cf = 2 ^ a" "init_capacity cf = 2 ^ b"
    using assms(1) by (auto simp: conf_ok_def)
  obtain a' where "min_capacity cf = 2 ^ a'" "kbits P \<le> a'" by (rule conf_ok_power [OF assms])
  then have "kbits P \<le> a" using ab(3) power_inject_exp [of "2 :: int" a a'] by simp
  moreover have "min_capacity cf \<le> 2 ^ b" unfolding ab(3) by (simp only: power_le_iff_2 ab(1))
  ultimately show ?thesis using that [of b] ab by simp
qed

theorem clear_map_ok:
  assumes inv: "map_inv P m"
  shows "map_inv P (snd (clear_map P m))" and "entries (snd (clear_map P m)) = {#}"
    and "fst (clear_map P m) = capacity P (snd (clear_map P m))"
proof -
  obtain c where c: "shape_ok P c m" "conf_ok (kbits P) (m_conf m)" by (rule map_invD [OF inv])
  have "kbits P \<le> 62" using shape_buckets(4,5) [OF c(1)] by simp
  then obtain b where b: "init_capacity (m_conf m) = 2 ^ b" "b \<le> 62" "kbits P \<le> b" "min_capacity (m_conf m) \<le> 2 ^ b"
    by (rule conf_ok_min_init [OF c(2)])
  show "map_inv P (snd (clear_map P m))" "entries (snd (clear_map P m)) = {#}"
    "fst (clear_map P m) = capacity P (snd (clear_map P m))"
    using reset_map_ok [OF inv] realloc_map_ok [OF c(2) b(3,2,4)] by (simp_all add: clear_map_def b(1) Let_def)
qed

theorem clear_to_ok:
  assumes inv: "map_inv P m" and n: "n \<le> 2 ^ 62"
  shows "map_inv P (snd (clear_to P n m))" and "entries (snd (clear_to P n m)) = {#}"
    and "fst (clear_to P n m) = capacity P (snd (clear_to P n m))" and "n \<le> fst (clear_to P n m)"
proof -
  obtain c where c: "shape_ok P c m" "conf_ok (kbits P) (m_conf m)" by (rule map_invD [OF inv])
  have "kbits P \<le> 62" using shape_buckets(4,5) [OF c(1)] by simp
  then obtain a where a: "min_capacity (m_conf m) = 2 ^ a" "kbits P \<le> a" "a \<le> 62" by (rule conf_ok_power [OF c(2)])
  have "(2 :: int) ^ a \<le> 2 ^ 62" using a(3) by (simp only: power_le_iff_2)
  then have "max n (2 ^ a) \<le> 2 ^ 62" using n by simp
  moreover have "(0 :: int) \<le> max n (2 ^ a)" by (simp add: le_max_iff_disj)
  ultimately obtain e where e: "e \<le> 62" "int_bit_ceil (max n (2 ^ a)) = 2 ^ e" "max n (2 ^ a) \<le> 2 ^ e"
    by (elim int_bit_ceil_cases [rotated])
  have ae: "(2 :: int) ^ a \<le> 2 ^ e" "n \<le> 2 ^ e" using e(3) by simp_all
  then have "a \<le> e" by (simp only: power_le_iff_2)
  then have ke: "kbits P \<le> e" using a(2) by simp
  have mc: "min_capacity (m_conf m) \<le> 2 ^ e" using a(1) ae(1) by simp
  note r = realloc_map_ok [OF c(2) ke e(1) mc]
  show "map_inv P (snd (clear_to P n m))" "entries (snd (clear_to P n m)) = {#}"
    "fst (clear_to P n m) = capacity P (snd (clear_to P n m))" "n \<le> fst (clear_to P n m)"
    using reset_map_ok [OF inv] r ae(2) by (auto simp: clear_to_def a(1) e(2) Let_def)
qed

section \<open>Assignment\<close>

theorem copy_assign_ok:
  assumes inv: "map_inv P other" and inv': "map_inv P m"
  shows "copy_assign P other m = other"
proof -
  obtain c where c: "shape_ok P c other" "capacity P other = 2 ^ c" by (rule map_invD [OF inv])
  obtain d where d: "shape_ok P d m" "capacity P m = 2 ^ d" by (rule map_invD [OF inv'])
  have "nat (2 ^ c * blob_stride (m_conf other)) = 2 ^ c * nat (blob_stride (m_conf other))" by (simp add: nat_mult_distrib nat_power_eq)
  then have oth: "length (m_states other) = 2 ^ c" "length (m_keys other) = 2 ^ c" "length (m_values other) = 2 ^ c"
    "length (m_blobs other) = nat (2 ^ c * blob_stride (m_conf other))" "m_bucket_mask other = make_aligned_mask (2 ^ c) (int (ksize P))"
    using c(1) by (simp_all add: shape_ok_def size_power)
  show ?thesis
  proof (cases "capacity P other \<noteq> capacity P m \<or> blob_stride (m_conf other) \<noteq> blob_stride (m_conf m)")
    case True
    then show ?thesis
      using oth c(2) by (simp add: copy_assign_def Let_def alloc_map_def memcpy_all nat_power_eq)
  next
    case False
    then have dc: "d = c" using c(2) d(2) by simp
    have "nat (2 ^ c * blob_stride (m_conf m)) = 2 ^ c * nat (blob_stride (m_conf m))" by (simp add: nat_mult_distrib nat_power_eq)
    then have "length (m_states m) = 2 ^ c" "length (m_keys m) = 2 ^ c" "length (m_values m) = 2 ^ c"
      "length (m_blobs m) = nat (2 ^ c * blob_stride (m_conf m))" "m_bucket_mask m = m_bucket_mask other"
      using d(1) oth(5) unfolding dc by (simp_all add: shape_ok_def size_power)
    then show ?thesis
      using oth c(2) False by (simp add: copy_assign_def Let_def memcpy_all nat_power_eq)
  qed
qed

end

end
