(* ===== verification/MapCapacity.thy ===== *)
theory MapCapacity
  imports MapQuery
begin

text \<open>The public operations that change the capacity: they keep the entries and end with the capacity asked for, or more.\<close>

context swiss_map
begin

lemma capacity_power:
  assumes "map_inv P m"
  obtains c where "capacity P m = 2 ^ c" and "c \<le> 62" and "kbits P \<le> c"
proof -
  obtain c where c: "shape_ok P c m" "capacity P m = 2 ^ c" by (rule map_invD [OF assms])
  then show ?thesis using that shape_buckets(4,5) [OF c(1)] by blast
qed

theorem grow_ok:
  assumes inv: "map_inv P m" and cap: "capacity P m \<le> 2 ^ 61"
  obtains m' where "grow P m = Some (Inr (capacity P m', m'))" and "map_inv P m'" and "entries m' = entries m"
    and "2 * capacity P m \<le> capacity P m'"
proof -
  obtain c where c: "capacity P m = 2 ^ c" by (rule capacity_power [OF inv])
  have "(2 :: int) ^ c \<le> 2 ^ 61" using cap c by simp
  then have "Suc c \<le> 62" by (simp only: power_le_iff_2)
  then obtain m' where "resize_map P (2 ^ Suc c) m = Some (Inr (capacity P m', m'))" "map_inv P m'" "entries m' = entries m"
    "2 ^ Suc c \<le> capacity P m'" by (rule resize_map_ok [OF inv cap])
  then show ?thesis using that [of m'] c by (simp add: grow_def)
qed

lemma ceil_min_power:
  assumes inv: "map_inv P m" and n: "0 \<le> n" "n \<le> 2 ^ 62"
  obtains e where "e \<le> 62" and "max (int_bit_ceil n) (min_capacity (m_conf m)) = 2 ^ e" and "n \<le> 2 ^ e"
proof -
  obtain c where c: "shape_ok P c m" "conf_ok (kbits P) (m_conf m)" by (rule map_invD [OF inv])
  have "kbits P \<le> 62" using shape_buckets(4,5) [OF c(1)] by simp
  then obtain a where a: "min_capacity (m_conf m) = 2 ^ a" "a \<le> 62" by (rule conf_ok_power [OF c(2)])
  obtain b where b: "b \<le> 62" "int_bit_ceil n = 2 ^ b" "n \<le> 2 ^ b" by (rule int_bit_ceil_cases [OF n])
  have m: "max ((2 :: int) ^ b) (2 ^ a) = 2 ^ max b a" using power_le_iff_2 [of b a] by (simp add: max_def)
  have "(2 :: int) ^ b \<le> 2 ^ max b a" by (simp only: power_le_iff_2)
  then have "n \<le> 2 ^ max b a" using b(3) by linarith
  then show ?thesis using that [of "max b a"] a b(1,2) m by simp
qed

theorem resize_api_ok:
  assumes inv: "map_inv P m" and cap: "capacity P m \<le> 2 ^ 61" and n: "0 \<le> n" "n \<le> 2 ^ 62"
  obtains m' where "resize_api P n m = Some (Inr (capacity P m', m'))" and "map_inv P m'" and "entries m' = entries m" and "n \<le> capacity P m'"
proof -
  obtain e where e: "e \<le> 62" "max (int_bit_ceil n) (min_capacity (m_conf m)) = 2 ^ e" "n \<le> 2 ^ e" by (rule ceil_min_power [OF inv n])
  obtain m' where "resize_map P (2 ^ e) m = Some (Inr (capacity P m', m'))" "map_inv P m'" "entries m' = entries m" "2 ^ e \<le> capacity P m'"
    by (rule resize_map_ok [OF inv cap e(1)])
  then show ?thesis using that [of m'] e(2,3) by (simp add: resize_api_def)
qed

theorem reserve_ok:
  assumes inv: "map_inv P m" and cap: "capacity P m \<le> 2 ^ 61" and n: "n \<le> 2 ^ 62"
  obtains m' where "reserve P n m = Some (Inr (capacity P m', m'))" and "map_inv P m'" and "entries m' = entries m" and "n \<le> capacity P m'"
    and "n \<le> capacity P m \<Longrightarrow> m' = m"
proof (cases "n \<le> capacity P m")
  case True
  then show ?thesis using that [of m] inv by (simp add: reserve_def)
next
  case False
  obtain c where "capacity P m = 2 ^ c" by (rule capacity_power [OF inv])
  then have "0 \<le> capacity P m" by simp
  then have "0 \<le> n" using False by linarith
  then obtain m' where m': "resize_api P n m = Some (Inr (capacity P m', m'))" "map_inv P m'" "entries m' = entries m" "n \<le> capacity P m'"
    by (rule resize_api_ok [OF inv cap _ n])
  then have "reserve P n m = Some (Inr (capacity P m', m'))" using False by (simp add: reserve_def resize_api_def)
  then show ?thesis using that m'(2-4) False by blast
qed

text \<open>
  The loop of \<open>shrink_target_\<close> halves the candidate capacity but passes the unchanged counters to
  \<open>should_shrink\<close>, so after the first halving the size computed there is too small by the half given
  up, that is negative, and the shrink bias no longer has an effect: the loop runs on to its limit.
\<close>

lemma shrink_loop_end:
  assumes "e \<le> c" and "c \<le> e + n" and "\<And>d. e < d \<Longrightarrow> d \<le> c \<Longrightarrow> should_shrink cf (2 ^ d) ne nt"
  shows "shrink_loop n cf ne nt (2 ^ e) (2 ^ c) = 2 ^ e"
  using assms
proof (induction n arbitrary: c)
  case (Suc n)
  show ?case
  proof (cases "c = e")
    case False
    then obtain c' where c': "c = Suc c'" using Suc.prems(1) by (cases c) simp_all
    have "(2 :: int) ^ e < 2 ^ c" using False Suc.prems(1) by (simp only: power_less_iff_2)
    then have "shrink_loop (Suc n) cf ne nt (2 ^ e) (2 ^ c) = shrink_loop n cf ne nt (2 ^ e) (2 ^ c')"
      using Suc.prems(3) [of c] False Suc.prems(1) by (simp add: c')
    also have "\<dots> = 2 ^ e" using Suc.prems False c' by (intro Suc.IH) simp_all
    finally show ?thesis .
  qed simp
qed simp

lemma should_shrink_below:
  assumes "should_shrink cf (2 ^ c) ne nt" and "2 \<le> shrink_bias cf" and "ne + nt \<le> 2 ^ c" and "min_capacity cf < 2 ^ d" and "d \<le> c"
  shows "should_shrink cf (2 ^ d) ne nt"
proof (cases "d = c")
  case False
  let ?s = "2 ^ c - (ne + nt)"
  have "?s * 2 \<le> ?s * shrink_bias cf" using assms(2,3) by (intro mult_left_mono) simp_all
  then have h: "?s * 2 \<le> 2 ^ c" using assms(1) by (simp add: should_shrink_def Let_def)
  have "(2 :: int) ^ Suc d \<le> 2 ^ c" using False assms(5) by (simp only: power_le_iff_2)
  then have "2 ^ d - (ne + nt) \<le> 0" using h by simp
  then have "(2 ^ d - (ne + nt)) * shrink_bias cf \<le> 0" using assms(2) by (simp add: mult_nonpos_nonneg)
  also have "(0 :: int) \<le> 2 ^ d" by simp
  finally show ?thesis using assms(4) by (simp add: should_shrink_def Let_def)
qed (use assms(1) in simp)

theorem shrink_exact:
  assumes inv: "map_inv P m" and cap: "capacity P m \<le> 2 ^ 61"
  defines "n \<equiv> int (size (entries m))"
  obtains m' where "shrink P m = Some (Inr (capacity P m', m'))" and "map_inv P m'" and "entries m' = entries m"
    and "capacity P m' = (if min_capacity (m_conf m) < capacity P m \<and> n * shrink_bias (m_conf m) \<le> capacity P m
      then max (max (int_bit_ceil n) (min_capacity (m_conf m))) (int_bit_ceil (n + grow_threshold (m_conf m) (int_bit_ceil n)))
      else capacity P m)"
proof -
  obtain c where c: "capacity P m = 2 ^ c" "c \<le> 62" by (rule capacity_power [OF inv])
  have n: "capacity P m - (m_num_empty m + m_num_tombstone m) = n"
    using map_size_entries [OF inv] by (simp add: num_not_hash_slots_def n_def)
  have free: "0 \<le> m_num_empty m + m_num_tombstone m" "m_num_empty m + m_num_tombstone m \<le> 2 ^ c"
    using inv n c(1) by (simp_all add: map_inv_def counters_ok_def n_def)
  then have le: "n \<le> 2 ^ c" using n c(1) by linarith
  have "(2 :: int) ^ c \<le> 2 ^ 62" using c(2) by (simp only: power_le_iff_2)
  then have nn: "0 \<le> n" "n \<le> 2 ^ 62" using le unfolding n_def by linarith+
  obtain e where e: "max (int_bit_ceil n) (min_capacity (m_conf m)) = 2 ^ e" "e \<le> 62" by (rule ceil_min_power [OF inv nn])
  have t: "shrink_target P m = shrink_loop 63 (m_conf m) (m_num_empty m) (m_num_tombstone m) (2 ^ e) (2 ^ c)"
    unfolding shrink_target_def Let_def n e(1) unfolding c(1) ..
  let ?sh = "should_shrink (m_conf m) (2 ^ c) (m_num_empty m) (m_num_tombstone m)"
  have sh: "?sh \<longleftrightarrow> min_capacity (m_conf m) < capacity P m \<and> n * shrink_bias (m_conf m) \<le> capacity P m"
    using n c(1) by (simp add: should_shrink_def Let_def)
  show ?thesis
  proof (cases ?sh)
    case False
    then have "shrink_target P m = capacity P m" unfolding t c(1) eval_nat_numeral by (subst shrink_loop.simps) simp
    then have "shrink P m = Some (Inr (capacity P m, m))" by (simp add: shrink_def)
    moreover have "\<not> (min_capacity (m_conf m) < capacity P m \<and> n * shrink_bias (m_conf m) \<le> capacity P m)" using False sh by blast
    ultimately show ?thesis using that [of m] inv by (simp only: if_False simp_thms)
  next
    case True
    have ck: "conf_ok (kbits P) (m_conf m)" by (rule map_invD [OF inv])
    then have b: "3 \<le> shrink_bias (m_conf m)" by (simp add: conf_ok_def min_shrink_bias_def)
    have "n * 3 \<le> n * shrink_bias (m_conf m)" using b nn(1) by (intro mult_left_mono) simp_all
    then have n3: "n * 3 \<le> 2 ^ c" using True sh c(1) by simp
    have mc: "1 \<le> min_capacity (m_conf m)" "min_capacity (m_conf m) < 2 ^ c" using ck True sh c(1) by (auto simp: conf_ok_def)
    obtain d where d: "int_bit_ceil n = 2 ^ d" "n \<le> 1 \<or> 2 ^ d < 2 * n" by (rule int_bit_ceil_cases [OF nn])
    have "int_bit_ceil n < 2 ^ c"
    proof (cases "n \<le> 1")
      case True
      then have "n = 0 \<or> n = 1" using nn(1) by linarith
      then show ?thesis using int_bit_ceil_small [of n] mc by simp
    next
      case False
      then have "(2 :: int) ^ d < 2 ^ c" using d(2) n3 by linarith
      then show ?thesis by (simp only: d(1))
    qed
    then have lt: "(2 :: int) ^ e < 2 ^ c" using mc(2) by (simp flip: e(1))
    then have ec: "e < c" by (simp only: power_less_iff_2)
    have low: "should_shrink (m_conf m) (2 ^ d) (m_num_empty m) (m_num_tombstone m)" if "e < d" "d \<le> c" for d
    proof (rule should_shrink_below [OF True _ free(2) _ that(2)])
      have "(2 :: int) ^ e < 2 ^ d" using that(1) by (simp only: power_less_iff_2)
      then show "min_capacity (m_conf m) < 2 ^ d" using e(1) by linarith
    qed (use b in simp)
    have tgt: "shrink_target P m = 2 ^ e" unfolding t by (rule shrink_loop_end) (use ec c(2) low in auto)
    obtain m' where m': "resize_map P (2 ^ e) m = Some (Inr (capacity P m', m'))" "map_inv P m'" "entries m' = entries m"
        "capacity P m' = resize_target P (2 ^ e) m"
      by (rule resize_map_ok [OF inv cap e(2)])
    have "shrink P m = Some (Inr (capacity P m', m'))" using m'(1) lt c(1) by (simp add: shrink_def tgt)
    moreover have "\<not> (2 :: int) ^ e < min_capacity (m_conf m)" using e(1) by linarith
    then have "capacity P m' = max (2 ^ e) (int_bit_ceil (n + grow_threshold (m_conf m) (int_bit_ceil n)))"
      using m'(4) map_size_entries [OF inv] by (simp add: resize_target_def Let_def n_def)
    ultimately show ?thesis using that [of m'] m'(2,3) True sh e(1) by simp
  qed
qed

theorem shrink_ok:
  assumes "map_inv P m" and "capacity P m \<le> 2 ^ 61"
  obtains m' where "shrink P m = Some (Inr (capacity P m', m'))" and "map_inv P m'" and "entries m' = entries m"
  by (rule shrink_exact [OF assms])

end

end
