(* ===== verification/MapApi.thy ===== *)
theory MapApi
  imports MapUpdate
begin

text \<open>
  The interface of raw_map_base.hpp and swiss_map_base.hpp over the operations of the map, with the
  conversions of container.hpp. Positions at the interface are raw: \<open>npos\<close> is \<open>- 1\<close>. A check of the
  interface (\<open>NVHM_ASSUME_\<close>) throws only when the build's check level asks for it.
\<close>

section \<open>Check levels\<close>

datatype check_level = Check_none | Check_release | Check_prototype | Check_debug

fun check_rank :: "check_level \<Rightarrow> nat" where
  "check_rank Check_none = 0"
| "check_rank Check_release = 1"
| "check_rank Check_prototype = 2"
| "check_rank Check_debug = 3"

instantiation check_level :: linorder
begin

definition less_eq_check_level :: "check_level \<Rightarrow> check_level \<Rightarrow> bool" where
  "less_eq_check_level a b \<longleftrightarrow> check_rank a \<le> check_rank b"

definition less_check_level :: "check_level \<Rightarrow> check_level \<Rightarrow> bool" where
  "less_check_level a b \<longleftrightarrow> check_rank a < check_rank b"

instance
proof
  fix a b :: check_level
  show "a \<le> b \<Longrightarrow> b \<le> a \<Longrightarrow> a = b" by (cases a; cases b) (simp_all add: less_eq_check_level_def)
qed (auto simp: less_eq_check_level_def less_check_level_def)

end

definition nvhm_assume :: "check_level \<Rightarrow> bool \<Rightarrow> 'a \<Rightarrow> exn + 'a" where
  "nvhm_assume lvl b x = (if Check_release \<le> lvl \<and> \<not> b then Inl Logic_error else Inr x)"

section \<open>Positions\<close>

definition npos :: int where
  "npos = - 1"

definition raw_of :: "nat option \<Rightarrow> int" where
  "raw_of p = (case p of None \<Rightarrow> npos | Some pos \<Rightarrow> int pos)"

definition validate_range ::
    "check_level \<Rightarrow> ('k, 'v, 'r, 'l, 'm, 'q) map_params \<Rightarrow> ('k, 'v) map_state \<Rightarrow> int \<Rightarrow> exn + int" where
  "validate_range lvl P m pos = nvhm_assume lvl (0 \<le> pos \<and> pos < capacity P m) pos"

definition api_contains_at ::
    "check_level \<Rightarrow> ('k, 'v, 'r, 'l, 'm, 'q) map_params \<Rightarrow> ('k, 'v) map_state \<Rightarrow> int \<Rightarrow> exn + bool" where
  "api_contains_at lvl P m pos = map_sum id (\<lambda>p. contains_at m (nat p)) (validate_range lvl P m pos)"

definition validate ::
    "check_level \<Rightarrow> ('k, 'v, 'r, 'l, 'm, 'q) map_params \<Rightarrow> ('k, 'v) map_state \<Rightarrow> int \<Rightarrow> exn + int" where
  "validate lvl P m pos = (
     if lvl < Check_release then Inr pos
     else case api_contains_at lvl P m pos of Inl e \<Rightarrow> Inl e | Inr b \<Rightarrow> nvhm_assume lvl b pos)"

section \<open>Prefetch hints\<close>

text \<open>A hint carries the hash computed for a key; using it with another key is an error.\<close>

definition prefetch_hint :: "('k, 'v, 'r, 'l, 'm, 'q) map_params \<Rightarrow> 'k \<Rightarrow> hash_t" where
  "prefetch_hint P key = pm_hash P key"

definition hint_to_hash :: "check_level \<Rightarrow> ('k, 'v, 'r, 'l, 'm, 'q) map_params \<Rightarrow> 'k \<Rightarrow> hash_t \<Rightarrow> exn + hash_t" where
  "hint_to_hash lvl P key hint = nvhm_assume lvl (pm_hash P key = hint) hint"

section \<open>Lookup and update\<close>

definition api_find :: "('k, 'v, 'r, 'l, 'm, 'q) map_params \<Rightarrow> 'k \<Rightarrow> ('k, 'v) map_state \<Rightarrow> int option" where
  "api_find P key m = map_option (\<lambda>(r, seq). raw_of r) (find_first P key (pm_hash P key) m)"

definition api_find_hint ::
    "check_level \<Rightarrow> ('k, 'v, 'r, 'l, 'm, 'q) map_params \<Rightarrow> 'k \<Rightarrow> hash_t \<Rightarrow> ('k, 'v) map_state \<Rightarrow> (exn + int) option" where
  "api_find_hint lvl P key hint m = (case hint_to_hash lvl P key hint of
     Inl e \<Rightarrow> Some (Inl e)
   | Inr h \<Rightarrow> map_option (\<lambda>(r, seq). Inr (raw_of r)) (find_first P key h m))"

definition api_contains :: "('k, 'v, 'r, 'l, 'm, 'q) map_params \<Rightarrow> 'k \<Rightarrow> ('k, 'v) map_state \<Rightarrow> bool option" where
  "api_contains P key m = map_option (\<lambda>p. p \<noteq> npos) (api_find P key m)"

definition api_find_next ::
    "check_level \<Rightarrow> ('k, 'v, 'r, 'l, 'm, 'q) map_params \<Rightarrow> int \<Rightarrow> 'q \<Rightarrow> 'k \<Rightarrow> ('k, 'v) map_state
      \<Rightarrow> (exn + int \<times> 'q) option" where
  "api_find_next lvl P pos seq key m = (case validate_range lvl P m pos of
     Inl e \<Rightarrow> Some (Inl e)
   | Inr p \<Rightarrow> map_option (\<lambda>(r, seq). Inr (raw_of r, seq)) (find_next P (nat p) seq key (pm_hash P key) m))"

definition api_update_first ::
    "('k, 'v, 'r, 'l, 'm, 'q) map_params \<Rightarrow> 'k \<Rightarrow> ('k, 'v) map_state \<Rightarrow> (int \<times> 'q) option" where
  "api_update_first P key m = map_option (\<lambda>(r, seq). (raw_of r, seq)) (find_first P key (pm_hash P key) m)"

definition api_find_if :: "('k, 'v, 'r, 'l, 'm, 'q) map_params \<Rightarrow> (int \<Rightarrow> bool) \<Rightarrow> ('k, 'v) map_state \<Rightarrow> int" where
  "api_find_if P f m = raw_of (find_if P (\<lambda>pos. f (int pos)) m)"

definition api_find_all :: "('k, 'v, 'r, 'l, 'm, 'q) map_params \<Rightarrow> 'k \<Rightarrow> ('k, 'v) map_state \<Rightarrow> int list option" where
  "api_find_all P key m = map_option (map (\<lambda>(pos, seq). int pos)) (for_each_key P key (pm_hash P key) m)"

definition all_values_for :: "('k, 'v, 'r, 'l, 'm, 'q) map_params \<Rightarrow> 'k \<Rightarrow> ('k, 'v) map_state \<Rightarrow> 'v list option" where
  "all_values_for P key m = map_option (map (\<lambda>(pos, seq). value_at m pos)) (for_each_key P key (pm_hash P key) m)"

definition all_blobs_for :: "('k, 'v, 'r, 'l, 'm, 'q) map_params \<Rightarrow> 'k \<Rightarrow> ('k, 'v) map_state \<Rightarrow> u8 list option" where
  "all_blobs_for P key m = map_option (\<lambda>ps. concat (map (\<lambda>(pos, seq). blob_at m pos) ps)) (for_each_key P key (pm_hash P key) m)"

section \<open>Access by position\<close>

definition api_at ::
    "check_level \<Rightarrow> ('k, 'v, 'r, 'l, 'm, 'q) map_params \<Rightarrow> ('k, 'v) map_state \<Rightarrow> int \<Rightarrow> exn + 'k \<times> 'v \<times> u8 list" where
  "api_at lvl P m pos = map_sum id (\<lambda>p. (key_at m (nat p), value_at m (nat p), blob_at m (nat p))) (validate lvl P m pos)"

definition api_blob_at ::
    "check_level \<Rightarrow> ('k, 'v, 'r, 'l, 'm, 'q) map_params \<Rightarrow> ('k, 'v) map_state \<Rightarrow> int \<Rightarrow> exn + u8 list" where
  "api_blob_at lvl P m pos = map_sum id (\<lambda>p. blob_at m (nat p)) (validate lvl P m pos)"

definition api_get_blob_at ::
    "check_level \<Rightarrow> ('k, 'v, 'r, 'l, 'm, 'q) map_params \<Rightarrow> ('k, 'v) map_state \<Rightarrow> int \<Rightarrow> int \<Rightarrow> exn + u8 list" where
  "api_get_blob_at lvl P m pos n = (case nvhm_assume lvl (n \<le> blob_size (m_conf m)) () of
     Inl e \<Rightarrow> Inl e
   | Inr _ \<Rightarrow> map_sum id (\<lambda>b. take (nat n) b) (api_blob_at lvl P m pos))"

definition api_set_blob_at ::
    "check_level \<Rightarrow> ('k, 'v, 'r, 'l, 'm, 'q) map_params \<Rightarrow> int \<Rightarrow> u8 list \<Rightarrow> ('k, 'v) map_state \<Rightarrow> exn + ('k, 'v) map_state" where
  "api_set_blob_at lvl P pos src m = map_sum id (\<lambda>p. set_blob_at (nat p) src m) (validate lvl P m pos)"

definition api_set_blob_at_n ::
    "check_level \<Rightarrow> ('k, 'v, 'r, 'l, 'm, 'q) map_params \<Rightarrow> int \<Rightarrow> u8 list \<Rightarrow> int \<Rightarrow> ('k, 'v) map_state
      \<Rightarrow> exn + ('k, 'v) map_state" where
  "api_set_blob_at_n lvl P pos src n m = (case nvhm_assume lvl (n \<le> blob_size (m_conf m)) () of
     Inl e \<Rightarrow> Inl e
   | Inr _ \<Rightarrow> map_sum id (\<lambda>p. m\<lparr>m_blobs := memcpy (m_blobs m) (nat p * nat (blob_stride (m_conf m))) (take (nat n) src)\<rparr>)
       (validate lvl P m pos))"

section \<open>Insertion and erasure\<close>

definition api_insert ::
    "('k, 'v, 'r, 'l, 'm, 'q) map_params \<Rightarrow> 'k \<Rightarrow> ('k, 'v) map_state
      \<Rightarrow> (exn + (int \<times> insert_op) \<times> ('k, 'v) map_state) option" where
  "api_insert P key m = map_option (map_sum id (\<lambda>((pos, op, seq), m). ((int pos, op), m))) (insert_key P key (pm_hash P key) m)"

definition api_insert_hint ::
    "check_level \<Rightarrow> ('k, 'v, 'r, 'l, 'm, 'q) map_params \<Rightarrow> 'k \<Rightarrow> hash_t \<Rightarrow> ('k, 'v) map_state
      \<Rightarrow> (exn + (int \<times> insert_op) \<times> ('k, 'v) map_state) option" where
  "api_insert_hint lvl P key hint m = (case hint_to_hash lvl P key hint of
     Inl e \<Rightarrow> Some (Inl e)
   | Inr h \<Rightarrow> map_option (map_sum id (\<lambda>((pos, op, seq), m). ((int pos, op), m))) (insert_key P key h m))"

definition api_insert_ex ::
    "('k, 'v, 'r, 'l, 'm, 'q) map_params \<Rightarrow> 'k \<Rightarrow> ('k, 'v) map_state
      \<Rightarrow> (exn + (int \<times> insert_op \<times> 'q) \<times> ('k, 'v) map_state) option" where
  "api_insert_ex P key m = map_option (map_sum id (\<lambda>((pos, op, seq), m). ((int pos, op, seq), m))) (insert_key P key (pm_hash P key) m)"

text \<open>\<open>operator[]\<close>: the position whose mapped value the code returns a reference to.\<close>

definition subscript ::
    "('k, 'v, 'r, 'l, 'm, 'q) map_params \<Rightarrow> 'k \<Rightarrow> ('k, 'v) map_state \<Rightarrow> (exn + int \<times> ('k, 'v) map_state) option" where
  "subscript P key m = (case insert_key P key (pm_hash P key) m of
     None \<Rightarrow> None
   | Some (Inl e) \<Rightarrow> Some (Inl e)
   | Some (Inr ((pos, op, seq), m')) \<Rightarrow> if int pos = npos then Some (Inl Runtime_error) else Some (Inr (int pos, m')))"

definition api_erase ::
    "('k, 'v, 'r, 'l, 'm, 'q) map_params \<Rightarrow> 'k \<Rightarrow> ('k, 'v) map_state \<Rightarrow> (exn + bool \<times> ('k, 'v) map_state) option" where
  "api_erase P key m = map_option (map_sum id (\<lambda>((b, pos, seq), m). (b, m))) (erase_first P key (pm_hash P key) m)"

definition api_erase_first ::
    "('k, 'v, 'r, 'l, 'm, 'q) map_params \<Rightarrow> 'k \<Rightarrow> ('k, 'v) map_state \<Rightarrow> (exn + (bool \<times> int \<times> 'q) \<times> ('k, 'v) map_state) option" where
  "api_erase_first P key m = map_option (map_sum id (\<lambda>((b, pos, seq), m). ((b, raw_of pos, seq), m)))
     (erase_first P key (pm_hash P key) m)"

definition api_erase_next ::
    "check_level \<Rightarrow> ('k, 'v, 'r, 'l, 'm, 'q) map_params \<Rightarrow> int \<Rightarrow> 'q \<Rightarrow> 'k \<Rightarrow> ('k, 'v) map_state
      \<Rightarrow> (exn + (bool \<times> int \<times> 'q) \<times> ('k, 'v) map_state) option" where
  "api_erase_next lvl P pos seq key m = (case validate_range lvl P m pos of
     Inl e \<Rightarrow> Some (Inl e)
   | Inr p \<Rightarrow> map_option (map_sum id (\<lambda>((b, pos, seq), m). ((b, raw_of pos, seq), m)))
       (erase_next P (nat p) seq key (pm_hash P key) m))"

definition api_erase_at ::
    "check_level \<Rightarrow> ('k, 'v, 'r, 'l, 'm, 'q) map_params \<Rightarrow> int \<Rightarrow> ('k, 'v) map_state
      \<Rightarrow> (exn + (bool \<times> int) \<times> ('k, 'v) map_state) option" where
  "api_erase_at lvl P pos m = (case validate_range lvl P m pos of
     Inl e \<Rightarrow> Some (Inl e)
   | Inr p \<Rightarrow> map_option (map_sum id (\<lambda>((b, pos), m). ((b, raw_of pos), m))) (erase_at P (nat p) m))"

definition api_erase_if ::
    "('k, 'v, 'r, 'l, 'm, 'q) map_params \<Rightarrow> (int \<Rightarrow> bool) \<Rightarrow> ('k, 'v) map_state \<Rightarrow> (exn + int \<times> ('k, 'v) map_state) option" where
  "api_erase_if P f m = erase_if P (\<lambda>pos. f (int pos)) m"

definition api_erase_all ::
    "('k, 'v, 'r, 'l, 'm, 'q) map_params \<Rightarrow> 'k \<Rightarrow> ('k, 'v) map_state \<Rightarrow> (exn + int \<times> ('k, 'v) map_state) option" where
  "api_erase_all P key m = erase_all P key (pm_hash P key) m"

text \<open>The loops over a range of keys of container.hpp.\<close>

fun erase_range ::
    "('k, 'v, 'r, 'l, 'm, 'q) map_params \<Rightarrow> 'k list \<Rightarrow> int \<Rightarrow> ('k, 'v) map_state \<Rightarrow> (exn + int \<times> ('k, 'v) map_state) option" where
  "erase_range P [] n m = Some (Inr (n, m))"
| "erase_range P (k # ks) n m = (case api_erase P k m of
     None \<Rightarrow> None
   | Some (Inl e) \<Rightarrow> Some (Inl e)
   | Some (Inr (b, m')) \<Rightarrow> erase_range P ks (n + of_bool b) m')"

fun find_range :: "('k, 'v, 'r, 'l, 'm, 'q) map_params \<Rightarrow> 'k list \<Rightarrow> int \<Rightarrow> ('k, 'v) map_state \<Rightarrow> int option" where
  "find_range P [] n m = Some n"
| "find_range P (k # ks) n m = (case api_contains P k m of
     None \<Rightarrow> None
   | Some b \<Rightarrow> find_range P ks (n + of_bool b) m)"

fun insert_range ::
    "('k, 'v, 'r, 'l, 'm, 'q) map_params \<Rightarrow> 'k list \<Rightarrow> int \<Rightarrow> ('k, 'v) map_state \<Rightarrow> (exn + int \<times> ('k, 'v) map_state) option" where
  "insert_range P [] n m = Some (Inr (n, m))"
| "insert_range P (k # ks) n m = (case api_insert P k m of
     None \<Rightarrow> None
   | Some (Inl e) \<Rightarrow> Some (Inl e)
   | Some (Inr ((pos, op), m')) \<Rightarrow> insert_range P ks (n + of_bool (pos \<noteq> npos)) m')"

section \<open>Collections\<close>

definition is_empty_map :: "('k, 'v, 'r, 'l, 'm, 'q) map_params \<Rightarrow> ('k, 'v) map_state \<Rightarrow> bool" where
  "is_empty_map P m \<longleftrightarrow> capacity P m = num_not_hash_slots m"

definition map_keys :: "('k, 'v, 'r, 'l, 'm, 'q) map_params \<Rightarrow> ('k, 'v) map_state \<Rightarrow> 'k list" where
  "map_keys P m = map (key_at m) (for_each P m)"

definition keys_and_values :: "('k, 'v, 'r, 'l, 'm, 'q) map_params \<Rightarrow> ('k, 'v) map_state \<Rightarrow> ('k \<times> 'v) list" where
  "keys_and_values P m = map (\<lambda>pos. (key_at m pos, value_at m pos)) (for_each P m)"

definition map_values :: "('k, 'v, 'r, 'l, 'm, 'q) map_params \<Rightarrow> ('k, 'v) map_state \<Rightarrow> 'v list" where
  "map_values P m = map (value_at m) (for_each P m)"

definition for_each_entry :: "('k, 'v, 'r, 'l, 'm, 'q) map_params \<Rightarrow> ('k, 'v) map_state \<Rightarrow> ('k \<times> 'v \<times> u8 list) list" where
  "for_each_entry P m = map (\<lambda>pos. (key_at m pos, value_at m pos, blob_at m pos)) (for_each P m)"

definition map_blobs :: "('k, 'v, 'r, 'l, 'm, 'q) map_params \<Rightarrow> ('k, 'v) map_state \<Rightarrow> u8 list" where
  "map_blobs P m = concat (map (blob_at m) (for_each P m))"

definition map_lrus :: "('k, 'v, 'r, 'l, 'm, 'q) map_params \<Rightarrow> ('k, 'v) map_state \<Rightarrow> lru_t list" where
  "map_lrus P m = map (\<lambda>pos. max_lru) (for_each P m)"

definition map_states :: "('k, 'v, 'r, 'l, 'm, 'q) map_params \<Rightarrow> ('k, 'v) map_state \<Rightarrow> state_t list" where
  "map_states P m = concat (map (\<lambda>off. let k = load_bucket P (m_states m) off
     in map (kn_at (pm_kernel P) k) (walk P (kn_mask_hash (pm_kernel P) k))) (bucket_offs P (capacity P m)))"

definition kernel_populations :: "('k, 'v, 'r, 'l, 'm, 'q) map_params \<Rightarrow> ('k, 'v) map_state \<Rightarrow> int list" where
  "kernel_populations P m = count_kernel_populations P m (replicate (ksize P + 1) 0)"

definition state_collisions :: "('k, 'v, 'r, 'l, 'm, 'q) map_params \<Rightarrow> ('k, 'v) map_state \<Rightarrow> int list" where
  "state_collisions P m = count_state_collisions P m (replicate (ksize P) 0)"

section \<open>Equality\<close>

text \<open>\<open>swiss_map_base::operator==\<close>, for maps without duplicates; \<open>None\<close> when a lookup does not end.\<close>

definition entry_differs ::
    "('k, 'v, 'r, 'l, 'm, 'q) map_params \<Rightarrow> ('k, 'v) map_state \<Rightarrow> ('k, 'v) map_state \<Rightarrow> nat \<Rightarrow> bool option" where
  "entry_differs P lhs rhs l_pos = (
     let l_key = key_at lhs l_pos
     in map_option (\<lambda>(r, seq). case r of
            None \<Rightarrow> True
          | Some r_pos \<Rightarrow> l_key \<noteq> key_at rhs r_pos \<or> value_at lhs l_pos \<noteq> value_at rhs r_pos
              \<or> blob_at lhs l_pos \<noteq> take (nat (blob_size (m_conf lhs))) (drop (r_pos * nat (blob_stride (m_conf rhs))) (m_blobs rhs)))
          (find_first P l_key (pm_hash P l_key) rhs))"

fun find_opt :: "('a \<Rightarrow> bool option) \<Rightarrow> 'a list \<Rightarrow> 'a option option" where
  "find_opt f [] = Some None"
| "find_opt f (x # xs) = (case f x of None \<Rightarrow> None | Some b \<Rightarrow> if b then Some (Some x) else find_opt f xs)"

definition map_equal ::
    "('k, 'v, 'r, 'l, 'm, 'q) map_params \<Rightarrow> ('k, 'v) map_state \<Rightarrow> ('k, 'v) map_state \<Rightarrow> bool option" where
  "map_equal P lhs rhs = (
     if map_size P lhs \<noteq> map_size P rhs then Some False
     else if blob_size (m_conf lhs) \<noteq> blob_size (m_conf rhs) then Some False
     else map_option (\<lambda>r. r = None) (find_opt (entry_differs P lhs rhs) (for_each P lhs)))"

section \<open>Iterators\<close>

text \<open>An iterator is the raw position it refers to; \<open>end()\<close> is the capacity.\<close>

function iter_up :: "('k, 'v) map_state \<Rightarrow> int \<Rightarrow> int \<Rightarrow> int" where
  "iter_up m end1 pos = (if pos < end1 \<and> \<not> contains_at m (nat pos) then iter_up m end1 (pos + 1) else pos)"
  by auto
termination by (relation "measure (\<lambda>(m, end1, pos). nat (end1 - pos))") auto

function iter_down :: "('k, 'v) map_state \<Rightarrow> int \<Rightarrow> int" where
  "iter_down m pos = (if 0 \<le> pos \<and> \<not> contains_at m (nat pos) then iter_down m (pos - 1) else pos)"
  by auto
termination by (relation "measure (\<lambda>(m, pos). nat (pos + 1))") auto

declare iter_up.simps [simp del] iter_down.simps [simp del]

definition iter_inc :: "('k, 'v, 'r, 'l, 'm, 'q) map_params \<Rightarrow> ('k, 'v) map_state \<Rightarrow> int \<Rightarrow> int" where
  "iter_inc P m pos = (if pos < - 1 then pos + 1 else iter_up m (capacity P m) (pos + 1))"

definition iter_dec :: "('k, 'v, 'r, 'l, 'm, 'q) map_params \<Rightarrow> ('k, 'v) map_state \<Rightarrow> int \<Rightarrow> int" where
  "iter_dec P m pos = (if pos > capacity P m then pos - 1 else iter_down m (pos - 1))"

definition iter_add :: "('k, 'v, 'r, 'l, 'm, 'q) map_params \<Rightarrow> ('k, 'v) map_state \<Rightarrow> int \<Rightarrow> int \<Rightarrow> int" where
  "iter_add P m pos n = (if n > 0 then (iter_inc P m ^^ nat n) pos else (iter_dec P m ^^ nat (- n)) pos)"

definition iter_begin :: "('k, 'v, 'r, 'l, 'm, 'q) map_params \<Rightarrow> ('k, 'v) map_state \<Rightarrow> int" where
  "iter_begin P m = (let pos = raw_of (find_if P (\<lambda>_. True) m) in if pos = npos then capacity P m else pos)"

definition iter_end :: "('k, 'v, 'r, 'l, 'm, 'q) map_params \<Rightarrow> ('k, 'v) map_state \<Rightarrow> int" where
  "iter_end P m = capacity P m"

definition to_iterator ::
    "check_level \<Rightarrow> ('k, 'v, 'r, 'l, 'm, 'q) map_params \<Rightarrow> ('k, 'v) map_state \<Rightarrow> int \<Rightarrow> exn + int" where
  "to_iterator lvl P m pos = (if pos = npos then Inr (iter_end P m) else validate_range lvl P m pos)"

lemma iter_up_ge: "pos \<le> iter_up m end1 pos"
proof (induction m end1 pos rule: iter_up.induct)
  case (1 m end1 pos)
  show ?case
  proof (cases "pos < end1 \<and> \<not> contains_at m (nat pos)")
    case True
    then show ?thesis using 1 by (subst iter_up.simps) simp
  qed (subst iter_up.simps, auto)
qed

lemma iter_down_le: "iter_down m pos \<le> pos"
proof (induction m pos rule: iter_down.induct)
  case (1 m pos)
  show ?case
  proof (cases "0 \<le> pos \<and> \<not> contains_at m (nat pos)")
    case True
    then show ?thesis using 1 by (subst iter_down.simps) simp
  qed (subst iter_down.simps, auto)
qed

lemma iter_inc_gt: "pos < iter_inc P m pos"
  using iter_up_ge [of "pos + 1" m "capacity P m"] by (simp add: iter_inc_def)

lemma iter_dec_lt: "iter_dec P m pos < pos"
  using iter_down_le [of m "pos - 1"] by (simp add: iter_dec_def)

text \<open>The difference: the two loops of \<open>operator-\<close>, the first of which may pass the right operand.\<close>

function iter_count_up :: "('k, 'v, 'r, 'l, 'm, 'q) map_params \<Rightarrow> ('k, 'v) map_state \<Rightarrow> int \<Rightarrow> int \<Rightarrow> int \<Rightarrow> int \<times> int" where
  "iter_count_up P m lhs rhs n = (if lhs < rhs then iter_count_up P m (iter_inc P m lhs) rhs (n - 1) else (lhs, n))"
  by auto
termination
  by (relation "measure (\<lambda>(P, m, lhs, rhs, n). nat (rhs - lhs))") (use iter_inc_gt in \<open>auto simp: less_diff_eq\<close>)

function iter_count_down :: "('k, 'v, 'r, 'l, 'm, 'q) map_params \<Rightarrow> ('k, 'v) map_state \<Rightarrow> int \<Rightarrow> int \<Rightarrow> int \<Rightarrow> int \<times> int" where
  "iter_count_down P m lhs rhs n = (if lhs > rhs then iter_count_down P m (iter_dec P m lhs) rhs (n + 1) else (lhs, n))"
  by auto
termination
  by (relation "measure (\<lambda>(P, m, lhs, rhs, n). nat (lhs - rhs))") (use iter_dec_lt in \<open>auto simp: less_diff_eq\<close>)

declare iter_count_up.simps [simp del] iter_count_down.simps [simp del]

definition iter_diff :: "('k, 'v, 'r, 'l, 'm, 'q) map_params \<Rightarrow> ('k, 'v) map_state \<Rightarrow> int \<Rightarrow> int \<Rightarrow> int" where
  "iter_diff P m lhs rhs = (let (lhs, n) = iter_count_up P m lhs rhs 0 in snd (iter_count_down P m lhs rhs n))"

end
