(* ===== verification/MapClient.thy ===== *)
theory MapClient
  imports MapQuery MapApi
begin

text \<open>
  What the interface promises: all positions of a key, iteration in ascending order, equality of
  maps as equality of their contents, in-place updates of one entry, and the checked accesses.
\<close>

section \<open>Checked accesses\<close>

lemma nvhm_assume_simps [simp]:
  "nvhm_assume lvl True x = Inr x" "Check_release \<le> lvl \<Longrightarrow> \<not> b \<Longrightarrow> nvhm_assume lvl b x = Inl Logic_error"
  "lvl < Check_release \<Longrightarrow> nvhm_assume lvl b x = Inr x"
  by (auto simp: nvhm_assume_def dest: leD)

lemma validate_ok:
  assumes "capacity P m = int (length (m_states m))" and "pos \<in> occupied m"
  shows "validate lvl P m (int pos) = Inr (int pos)" and "validate_range lvl P m (int pos) = Inr (int pos)"
  using assms by (simp_all add: validate_def api_contains_at_def validate_range_def contains_at_def state_at_def occupied_def)

lemma validate_bad:
  assumes "capacity P m = int (length (m_states m))" and "Check_release \<le> lvl" and "\<not> (0 \<le> pos \<and> nat pos \<in> occupied m)"
  shows "validate lvl P m pos = Inl Logic_error"
proof (cases "0 \<le> pos \<and> pos < capacity P m")
  case True
  then have "nat pos < length (m_states m)" using assms(1) by linarith
  then have "\<not> contains_at m (nat pos)" using assms(3) True by (simp add: contains_at_def state_at_def occupied_def)
  then show ?thesis using True assms(2) by (simp add: validate_def api_contains_at_def validate_range_def)
next
  case False
  then show ?thesis using assms(2) by (simp add: validate_def api_contains_at_def validate_range_def)
qed

lemma distinct_same:
  assumes "distinct xs" and "\<And>x y. x \<in> set xs \<Longrightarrow> y \<in> set xs \<Longrightarrow> x = y"
  shows "xs = [] \<or> xs = [hd xs]"
proof (cases xs)
  case x: (Cons x ys)
  show ?thesis
  proof (cases ys)
    case (Cons y zs)
    then show ?thesis using assms(1) assms(2) [of x y] x by simp
  qed (simp add: x)
qed simp

context swiss_map
begin

lemma capacity_states:
  assumes "map_inv P m"
  shows "capacity P m = int (length (m_states m))"
proof -
  obtain c where "shape_ok P c m" "capacity P m = 2 ^ c" by (rule map_invD [OF assms])
  then show ?thesis using shape_buckets(1) by simp
qed

section \<open>Writing one entry in place\<close>

lemma set_value_at_ok:
  assumes inv: "map_inv P m" and pos: "pos \<in> occupied m"
  shows "map_inv P (set_value_at pos v m)" and "occupied (set_value_at pos v m) = occupied m"
    and "entry_at (set_value_at pos v m) q = (if q = pos then (key_at m q, v, blob_at m q) else entry_at m q)"
proof -
  obtain c where c: "shape_ok P c m" by (rule map_invD [OF inv])
  let ?m' = "set_value_at pos v m"
  have k: "key_at ?m' = key_at m" and o: "occupied ?m' = occupied m"
    by (auto simp: set_value_at_def key_at_def occupied_def)
  show "occupied ?m' = occupied m" by (rule o)
  have "pos < length (m_values m)" using pos c by (simp add: occupied_def shape_ok_def)
  then show "entry_at ?m' q = (if q = pos then (key_at m q, v, blob_at m q) else entry_at m q)"
    by (simp add: entry_at_def set_value_at_def key_at_def value_at_def blob_at_def)
  have "shape_ok P d ?m' = shape_ok P d m" for d by (simp add: shape_ok_def set_value_at_def)
  then show "map_inv P ?m'"
    using inv by (simp add: map_inv_def slots_ok_def keys_ok_def counters_ok_def k o) (simp add: set_value_at_def)
qed

lemma set_blob_at_ok:
  assumes inv: "map_inv P m" and pos: "pos \<in> occupied m" and src: "nat (blob_size (m_conf m)) \<le> length src"
  shows "map_inv P (set_blob_at pos src m)" and "occupied (set_blob_at pos src m) = occupied m"
    and "q \<in> occupied m \<Longrightarrow> entry_at (set_blob_at pos src m) q
      = (if q = pos then (key_at m q, value_at m q, take (nat (blob_size (m_conf m))) src) else entry_at m q)"
proof -
  obtain c where c: "shape_ok P c m" by (rule map_invD [OF inv])
  let ?m' = "set_blob_at pos src m" and ?sz = "nat (blob_size (m_conf m))" and ?st = "nat (blob_stride (m_conf m))"
  have k: "key_at ?m' = key_at m" and o: "occupied ?m' = occupied m" and v: "value_at ?m' = value_at m"
    by (auto simp: set_blob_at_def key_at_def occupied_def value_at_def)
  show "occupied ?m' = occupied m" by (rule o)
  have p: "pos < length (m_states m)" using pos by (simp add: occupied_def)
  have l: "length (take ?sz src) = ?sz" using src by simp
  have le: "pos * ?st + length (take ?sz src) \<le> length (m_blobs m)" using length_blob_at(2) [OF c p] l by simp
  show "entry_at ?m' q = (if q = pos then (key_at m q, value_at m q, take ?sz src) else entry_at m q)" if q: "q \<in> occupied m"
  proof -
    have b: "blob_at ?m' q = take ?sz (drop (q * ?st) (memcpy (m_blobs m) (pos * ?st) (take ?sz src)))"
      by (simp add: blob_at_def set_blob_at_def)
    have "blob_at ?m' q = (if q = pos then take ?sz src else blob_at m q)"
    proof (cases "q = pos")
      case True
      then show ?thesis unfolding b using slice_memcpy_same [OF le] l by simp
    next
      case False
      have ss: "?sz \<le> ?st" and lb: "length (m_blobs m) = 2 ^ c * ?st" and q': "q < 2 ^ c" "pos < 2 ^ c"
        using c q pos by (simp_all add: shape_ok_def occupied_def)
      show ?thesis unfolding b using slice_memcpy_other [of pos q ?sz ?st "take ?sz src" "2 ^ c" "m_blobs m"] False ss lb q' l
        by (simp add: blob_at_def)
    qed
    then show ?thesis by (simp add: entry_at_def k v)
  qed
  have "shape_ok P d ?m' = shape_ok P d m" for d using le by (simp add: shape_ok_def set_blob_at_def)
  then show "map_inv P ?m'"
    using inv by (simp add: map_inv_def slots_ok_def keys_ok_def counters_ok_def k o) (simp add: set_blob_at_def)
qed

section \<open>Order of visits\<close>

lemma sorted_blocks:
  assumes "\<And>b. sorted (f b)" and "\<And>b. set (f b) \<subseteq> {b * K..<Suc b * K :: nat}"
  shows "sorted (concat (map f [0..<n])) \<and> set (concat (map f [0..<n])) \<subseteq> {..<n * K}"
proof (induction n)
  case (Suc n)
  have "x \<le> y" if "x \<in> set (concat (map f [0..<n]))" "y \<in> set (f n)" for x y
  proof -
    have "x < n * K" using Suc that(1) by auto
    moreover have "n * K \<le> y" using assms(2) [of n] that(2) by auto
    ultimately show ?thesis by simp
  qed
  then show ?case using Suc assms(1) assms(2) [of n] by (fastforce simp: sorted_append)
qed simp

theorem for_each_sorted:
  assumes inv: "map_inv P m"
  shows "for_each P m = sorted_list_of_set (occupied m)"
proof -
  obtain c where c: "shape_ok P c m" "capacity P m = 2 ^ c" by (rule map_invD [OF inv])
  let ?n = "length (m_states m) div ksize P"
  let ?w = "\<lambda>b. map (\<lambda>i. b * ksize P + i) (walk P (kn_mask_hash (pm_kernel P) (load_bucket P (m_states m) (b * ksize P))))"
  let ?f = "\<lambda>b. if b < ?n then ?w b else []"
  have "sorted (?f b)" for b
  proof (cases "b < ?n")
    case True
    have "ok (kn_mask_hash (pm_kernel P) (load_bucket P (m_states m) (b * ksize P)))"
      unfolding load_bucket by (rule mask_hash_ok) (simp add: length_bucket [OF True] kn_size)
    then show ?thesis by (simp add: walk_def indices_sorted sorted_map True)
  qed simp
  moreover have "set (?f b) \<subseteq> {b * ksize P..<Suc b * ksize P}" for b
  proof (cases "b < ?n")
    case True
    have "set (?f b) = (\<lambda>i. b * ksize P + i) ` {i. i < ksize P \<and> is_hash (m_states m ! (b * ksize P + i))}"
      unfolding if_P [OF True] set_map hash_walk [OF c(1) True] ..
    then show ?thesis by auto
  qed simp
  ultimately have s: "sorted (concat (map ?f [0..<?n]))" using sorted_blocks [of ?f "ksize P" ?n] by blast
  have w: "map ?w [0..<?n] = map ?f [0..<?n]" by (rule map_cong) auto
  have "for_each P m = concat (map ?w [0..<?n])"
    by (simp add: for_each_def c(2) hash_positions_def bucket_offs_shape [OF c(1)] comp_def)
  then have e: "for_each P m = concat (map ?f [0..<?n])" unfolding w .
  show ?thesis
    using for_each_ok [OF inv] s unfolding e by (intro sorted_distinct_set_unique [symmetric]) simp_all
qed

section \<open>Iterators\<close>

lemma iter_up_spec:
  "p \<le> iter_up m e p \<and> (\<forall>q. p \<le> q \<longrightarrow> q < iter_up m e p \<longrightarrow> \<not> contains_at m (nat q))
    \<and> (iter_up m e p < e \<longrightarrow> contains_at m (nat (iter_up m e p))) \<and> (p \<le> e \<longrightarrow> iter_up m e p \<le> e)"
proof (induction m e p rule: iter_up.induct)
  case (1 m e p)
  show ?case
  proof (cases "p < e \<and> \<not> contains_at m (nat p)")
    case True
    have "iter_up m e p = iter_up m e (p + 1)" using True by (subst iter_up.simps) simp
    moreover have "\<not> contains_at m (nat q)" if "p \<le> q" "q < iter_up m e (p + 1)" for q
      using 1 [OF True] True that by (cases "q = p") auto
    ultimately show ?thesis using 1 [OF True] True by auto
  next
    case False
    then have "iter_up m e p = p" by (subst iter_up.simps) auto
    then show ?thesis using False by auto
  qed
qed

lemma iter_down_spec:
  "iter_down m p \<le> p \<and> (\<forall>q. iter_down m p < q \<longrightarrow> q \<le> p \<longrightarrow> 0 \<le> q \<longrightarrow> \<not> contains_at m (nat q))
    \<and> (0 \<le> iter_down m p \<longrightarrow> contains_at m (nat (iter_down m p)))"
proof (induction m p rule: iter_down.induct)
  case (1 m p)
  show ?case
  proof (cases "0 \<le> p \<and> \<not> contains_at m (nat p)")
    case True
    have "iter_down m p = iter_down m (p - 1)" using True by (subst iter_down.simps) simp
    moreover have "\<not> contains_at m (nat q)" if "q \<le> p" "iter_down m (p - 1) < q" "0 \<le> q" for q
      using 1 [OF True] True that by (cases "q = p") auto
    ultimately show ?thesis using 1 [OF True] True by auto
  next
    case False
    then have "iter_down m p = p" by (subst iter_down.simps) auto
    then show ?thesis using False by auto
  qed
qed

text \<open>Advancing visits the occupied positions in ascending order and ends at the capacity; going back undoes it.\<close>

lemma next_occupied:
  assumes inv: "map_inv P m" and xs: "xs = sorted_list_of_set (occupied m)" and i: "i < length xs"
  shows "iter_inc P m (int (xs ! i)) = (if Suc i < length xs then int (xs ! Suc i) else capacity P m)"
    and "iter_dec P m (if Suc i < length xs then int (xs ! Suc i) else capacity P m) = int (xs ! i)"
proof -
  have set: "set xs = occupied m" and dist: "distinct xs" and sort: "sorted xs" using xs by simp_all
  have cap: "capacity P m = int (length (m_states m))" by (rule capacity_states [OF inv])
  have con: "contains_at m p \<longleftrightarrow> p \<in> set xs" if "int p < capacity P m" for p
    using that cap by (simp add: set contains_at_def state_at_def occupied_def)
  have lt: "xs ! j < xs ! k" if "j < k" "k < length xs" for j k
    using that sorted_nth_mono [OF sort, of j k] nth_eq_iff_index_eq [OF dist, of j k] by simp
  have bnd: "int (xs ! j) < capacity P m" if "j < length xs" for j
    using nth_mem [OF that] set cap by (auto simp: occupied_def)
  let ?nx = "if Suc i < length xs then int (xs ! Suc i) else capacity P m"
  have nx: "int (xs ! i) < ?nx" "?nx \<le> capacity P m" using lt [of i "Suc i"] bnd i by (auto simp: less_imp_le)
  have gap: "\<not> contains_at m (nat q)" if "int (xs ! i) < q" "q < ?nx" for q
  proof
    assume "contains_at m (nat q)"
    then have "nat q \<in> set xs" using con [of "nat q"] that nx by auto
    then obtain j where j: "j < length xs" "xs ! j = nat q" by (auto simp: in_set_conv_nth)
    have "xs ! i < xs ! j" using that(1) j(2) by linarith
    then have "i < j" using lt [of j i] i by (metis less_asym' linorder_neqE_nat less_irrefl)
    then have "xs ! Suc i \<le> xs ! j" "Suc i < length xs" using sorted_nth_mono [OF sort, of "Suc i" j] j(1) by simp_all
    then show False using that j(2) by simp
  qed
  have cnx: "contains_at m (nat ?nx)" if "?nx < capacity P m" using that con [of "xs ! Suc i"] by (auto split: if_splits)
  let ?u = "iter_up m (capacity P m) (int (xs ! i) + 1)"
  note up = iter_up_spec [of "int (xs ! i) + 1" m "capacity P m"]
  have "?u = ?nx"
  proof (rule antisym)
    show "?nx \<le> ?u" using up gap [of ?u] nx by (cases "?u < ?nx") auto
    show "?u \<le> ?nx" using up cnx nx by (cases "?nx < ?u") (auto simp: add1_zle_eq)
  qed
  then show "iter_inc P m (int (xs ! i)) = ?nx" by (simp add: iter_inc_def)
  let ?d = "iter_down m (?nx - 1)"
  note dn = iter_down_spec [of m "?nx - 1"]
  have ci: "contains_at m (xs ! i)" using con [OF bnd [OF i]] nth_mem [OF i] by simp
  have "?d = int (xs ! i)"
  proof (rule antisym)
    have "\<not> ?d < int (xs ! i)"
    proof
      assume "?d < int (xs ! i)"
      moreover have "int (xs ! i) \<le> ?nx - 1" using nx(1) by simp
      ultimately have "\<not> contains_at m (nat (int (xs ! i)))" using dn of_nat_0_le_iff by blast
      then show False using ci by simp
    qed
    then show "int (xs ! i) \<le> ?d" by simp
    show "?d \<le> int (xs ! i)" using dn gap [of ?d] by (cases "int (xs ! i) < ?d") auto
  qed
  then show "iter_dec P m ?nx = int (xs ! i)" using nx(2) by (simp add: iter_dec_def)
qed

lemma iter_begin_ok:
  assumes inv: "map_inv P m" and xs: "xs = sorted_list_of_set (occupied m)"
  shows "iter_begin P m = (if xs = [] then capacity P m else int (xs ! 0))"
proof -
  have "List.find (\<lambda>_. True) ys = (if ys = [] then None else Some (ys ! 0))" for ys :: "nat list" by (cases ys) simp_all
  then have "find_if P (\<lambda>_. True) m = (if xs = [] then None else Some (xs ! 0))"
    using for_each_sorted [OF inv] xs by (simp add: find_if_def for_each_def)
  then show ?thesis by (simp add: iter_begin_def raw_of_def npos_def)
qed

theorem iterate_ok:
  assumes inv: "map_inv P m" and xs: "xs = sorted_list_of_set (occupied m)" and i: "i \<le> length xs"
  shows "(iter_inc P m ^^ i) (iter_begin P m) = (if i < length xs then int (xs ! i) else iter_end P m)"
  using i
proof (induction i)
  case 0
  then show ?case by (simp add: iter_begin_ok [OF inv xs] iter_end_def)
next
  case (Suc i)
  then show ?case using next_occupied(1) [OF inv xs, of i] by (simp add: iter_end_def)
qed

theorem iterate_back_ok:
  assumes inv: "map_inv P m" and pos: "pos \<in> occupied m"
  shows "iter_dec P m (iter_inc P m (int pos)) = int pos"
proof -
  have "pos \<in> set (sorted_list_of_set (occupied m))" using pos by simp
  then obtain i where "i < length (sorted_list_of_set (occupied m))" "sorted_list_of_set (occupied m) ! i = pos"
    by (auto simp only: in_set_conv_nth)
  then show ?thesis using next_occupied [OF inv refl, of i] by simp
qed

text \<open>The distance from begin to end is the number of entries.\<close>

theorem iter_distance_ok:
  assumes inv: "map_inv P m"
  shows "iter_diff P m (iter_end P m) (iter_begin P m) = int (size (entries m))"
proof -
  define xs where "xs = sorted_list_of_set (occupied m)"
  have len: "length xs = size (entries m)" by (simp add: xs_def size_entries)
  have cap: "capacity P m = int (length (m_states m))" by (rule capacity_states [OF inv])
  have lt: "xs ! j < xs ! k" if "j < k" "k < length xs" for j k
    using that sorted_nth_mono [of xs j k] nth_eq_iff_index_eq [of xs j k] by (simp add: xs_def)
  have bnd: "int (xs ! j) < capacity P m" if "j < length xs" for j
    using nth_mem [OF that] cap by (auto simp: occupied_def xs_def)
  let ?p = "\<lambda>i. if i < length xs then int (xs ! i) else capacity P m"
  have b: "iter_begin P m = ?p 0" using iter_begin_ok [OF inv xs_def] by auto
  have gt: "?p 0 < ?p i" if "0 < i" "i \<le> length xs" for i using that lt [of 0 i] bnd [of 0] by auto
  have down: "snd (iter_count_down P m (?p i) (?p 0) n) = n + int i" if "i \<le> length xs" for i n
    using that
  proof (induction i arbitrary: n)
    case 0
    then show ?case by (subst iter_count_down.simps) simp
  next
    case (Suc i)
    have g: "?p 0 < ?p (Suc i)" using gt [of "Suc i"] Suc.prems by blast
    have d: "iter_dec P m (?p (Suc i)) = ?p i" using next_occupied(2) [OF inv xs_def, of i] Suc.prems by simp
    have "iter_count_down P m (?p (Suc i)) (?p 0) n = iter_count_down P m (iter_dec P m (?p (Suc i))) (?p 0) (n + 1)"
      using g by (subst iter_count_down.simps) simp
    then show ?case using Suc.IH [of "n + 1"] Suc.prems unfolding d by simp
  qed
  have "iter_count_up P m (capacity P m) (?p 0) 0 = (capacity P m, 0)"
    using bnd [of 0] by (subst iter_count_up.simps) auto
  then show ?thesis using down [of "length xs" 0] by (simp add: iter_diff_def iter_end_def b len)
qed

section \<open>All positions of a key\<close>

text \<open>The matching slots of one bucket.\<close>

definition key_slots :: "('k, 'v) map_state \<Rightarrow> 'k \<Rightarrow> hash_t \<Rightarrow> nat \<Rightarrow> nat list" where
  "key_slots m key h off = filter (\<lambda>pos. m_keys m ! pos = key)
     (map (\<lambda>i. off + i) (walk P (kn_mask (pm_kernel P) (load_bucket P (m_states m) off) (pm_state P h))))"

lemma key_slots_ok:
  assumes sh: "shape_ok P c m" and sl: "slots_ok P m" and h: "h = pm_hash P key" and b: "b < length (m_states m) div ksize P"
  shows "set (key_slots m key h (b * ksize P)) = {pos \<in> occupied m. pos div ksize P = b \<and> key_at m pos = key}"
    and "distinct (key_slots m key h (b * ksize P))"
proof -
  have s: "is_hash (pm_state P h)" by (simp add: pm_state_def)
  note w = match_walk [OF sh b s]
  show "distinct (key_slots m key h (b * ksize P))"
    unfolding key_slots_def by (intro distinct_filter) (simp add: distinct_map inj_on_def walk_distinct(2) [OF b s])
  show "set (key_slots m key h (b * ksize P)) = {pos \<in> occupied m. pos div ksize P = b \<and> key_at m pos = key}"
  proof (intro set_eqI iffI)
    fix q assume "q \<in> set (key_slots m key h (b * ksize P))"
    then obtain i where i: "q = b * ksize P + i" "i \<in> set (walk P (kn_mask (pm_kernel P) (load_bucket P (m_states m) (b * ksize P)) (pm_state P h)))"
      "m_keys m ! q = key" by (auto simp: key_slots_def)
    then have "i < ksize P" "is_hash (m_states m ! q)" using w(1) by auto
    then show "q \<in> {pos \<in> occupied m. pos div ksize P = b \<and> key_at m pos = key}"
      using i bucket_of_pos(2) [OF sh _ b, of i] by (simp add: occupied_def key_at_def)
  next
    fix q assume "q \<in> {pos \<in> occupied m. pos div ksize P = b \<and> key_at m pos = key}"
    then have q: "q \<in> occupied m" "q div ksize P = b" "key_at m q = key" by simp_all
    have qn: "q = b * ksize P + q mod ksize P" using q(2) by auto
    have "m_states m ! q = pm_state P h" using sl q h by (auto simp: slots_ok_def)
    then have "q mod ksize P \<in> set (walk P (kn_mask (pm_kernel P) (load_bucket P (m_states m) (b * ksize P)) (pm_state P h)))"
      using w(2) qn by auto
    then show "q \<in> set (key_slots m key h (b * ksize P))" using qn q(3) by (auto simp: key_slots_def key_at_def)
  qed
qed

theorem for_each_key_ok:
  assumes inv: "map_inv P m"
  obtains ps where "for_each_key P key (pm_hash P key) m = Some ps"
    and "set (map fst ps) = {pos \<in> occupied m. key_at m pos = key}" and "distinct (map fst ps)"
proof -
  obtain c where c: "shape_ok P c m" "slots_ok P m" "empty_state \<in> set (m_states m)" "keys_ok P m" by (rule map_invD [OF inv])
  let ?h = "pm_hash P key" and ?N = "length (m_states m) div ksize P"
  let ?off = "probe_off P (m_bucket_mask m) ?h"
  let ?ks = "\<lambda>i. key_slots m key ?h (?off i)" and ?e = "\<lambda>i. empty_state \<in> set (bucket P (m_states m) (?off i))"
  have off: "\<exists>b < ?N. ?off i = b * ksize P" for i by (rule probe_off_bucket [OF c(1), of ?h i]) blast
  have inj: "inj_on ?off {..<?N}"
    using bij_betw_imp_inj_on [OF probe_off_bij [of c ?h]] shape_buckets [OF c(1)] by simp
  have ks: "set (?ks i) = {pos \<in> occupied m. pos div ksize P * ksize P = ?off i \<and> key_at m pos = key}" "distinct (?ks i)" for i
  proof -
    obtain b where b: "b < ?N" "?off i = b * ksize P" using off by blast
    have bk: "a * ksize P = b * ksize P \<longleftrightarrow> a = b" for a by (metis ksize_pos mult_right_cancel less_numeral_extra(3))
    show "set (?ks i) = {pos \<in> occupied m. pos div ksize P * ksize P = ?off i \<and> key_at m pos = key}" "distinct (?ks i)"
      unfolding b(2) bk using key_slots_ok [OF c(1,2) refl b(1), of key] by simp_all
  qed
  have he: "kn_has_empty (pm_kernel P) (load_bucket P (m_states m) (?off i)) \<longleftrightarrow> ?e i" for i
  proof -
    obtain b where b: "b < ?N" "?off i = b * ksize P" using off by blast
    show ?thesis unfolding b(2) by (rule has_empty_bucket [OF c(1) b(1)])
  qed
  let ?Q = "\<lambda>i. \<not> has_duplicates P \<and> ?ks i \<noteq> [] \<or> ?e i"
  obtain i0 where i0: "i0 < ?N" "?e i0" using empty_reached [OF c(1,3)] by blast
  define n where "n = (LEAST i. ?Q i)"
  have qn: "?Q n" unfolding n_def by (rule LeastI [of ?Q i0]) (use i0 in simp)
  have nN: "n < ?N" using Least_le [of ?Q i0] i0 unfolding n_def by simp
  have before: "\<not> ?Q j" if "j < n" for j using that not_less_Least unfolding n_def by blast
  have reach: "\<exists>l\<le>n. ?off l = pos div ksize P * ksize P" if pos: "pos \<in> occupied m" "key_at m pos = key" for pos
  proof -
    have "placed P (m_bucket_mask m) (m_states m) ?h (pos div ksize P * ksize P)" using c(2) pos by (auto simp: slots_ok_def)
    then obtain l where l: "?off l = pos div ksize P * ksize P" "\<And>j. j < l \<Longrightarrow> \<not> ?e j" "l < ?N" by (auto simp: placed_def)
    have pl: "pos \<in> set (?ks l)" using ks(1) [of l] pos l(1) by simp
    have "l \<le> n"
    proof (rule ccontr)
      assume "\<not> l \<le> n"
      then have nl: "n < l" by simp
      then have "\<not> has_duplicates P" "?ks n \<noteq> []" using qn l(2) by auto
      then obtain q where q: "q \<in> set (?ks n)" and "\<not> has_duplicates P" by (metis list.set_sel(1))
      then have "q = pos" using ks(1) [of n] pos c(4) by (auto simp: keys_ok_def inj_on_def)
      then have "?off n = ?off l" using q ks(1) [of n] l(1) by simp
      then show False using inj nN l(3) nl by (auto dest: inj_onD)
    qed
    then show ?thesis using l(1) by blast
  qed
  let ?sq = "seq_at P ?h"
  define S where "S i = concat (map (\<lambda>j. map (\<lambda>p. (p, ?sq j)) (?ks j)) [0..<i])" for i
  have S_Suc: "S (Suc i) = S i @ map (\<lambda>p. (p, ?sq i)) (?ks i)" for i by (simp add: S_def)
  have setS: "set (map fst (S i)) = (\<Union>j<i. set (?ks j))" for i
    by (induction i) (auto simp: S_Suc comp_def lessThan_Suc, simp add: S_def)
  have one: "?ks n = [] \<or> ?ks n = [hd (?ks n)]" if "\<not> has_duplicates P"
  proof -
    have "x = y" if "x \<in> set (?ks n)" "y \<in> set (?ks n)" for x y
      using that ks(1) [of n] c(4) \<open>\<not> has_duplicates P\<close> by (auto simp: keys_ok_def inj_on_def)
    with ks(2) [of n] show ?thesis by (rule distinct_same)
  qed
  have disS: "distinct (map fst (S i))" if "i \<le> ?N" for i
    using that
  proof (induction i)
    case (Suc i)
    have "set (map fst (S i)) \<inter> set (?ks i) = {}"
    proof (rule ccontr)
      assume "set (map fst (S i)) \<inter> set (?ks i) \<noteq> {}"
      then obtain q j where q: "q \<in> set (?ks i)" "j < i" "q \<in> set (?ks j)" unfolding setS by auto
      then have "?off i = ?off j" using ks(1) by simp
      then show False using inj q(2) Suc.prems by (auto dest: inj_onD)
    qed
    then show ?case using Suc ks(2) [of i] by (simp add: S_Suc comp_def)
  qed (simp add: S_def)
  let ?body = "\<lambda>off seq acc.
           let k = load_bucket P (m_states m) off;
               ps = filter (\<lambda>pos. m_keys m ! pos = key) (map (\<lambda>i. off + i) (walk P (kn_mask (pm_kernel P) k (pm_state P ?h))))
           in if \<not> has_duplicates P \<and> ps \<noteq> [] then Inr (acc @ [(hd ps, seq)])
              else let acc = acc @ map (\<lambda>p. (p, seq)) ps
                in if kn_has_empty (pm_kernel P) k then Inr acc else Inl acc"
  have body: "?body (?off i) (?sq i) (S i) = (if \<not> has_duplicates P \<and> ?ks i \<noteq> [] then Inr (S i @ [(hd (?ks i), ?sq i)])
      else if ?e i then Inr (S (Suc i)) else Inl (S (Suc i)))" for i
    by (simp only: Let_def he S_Suc key_slots_def)
  have "probe P (m_bucket_mask m) ?h ?body (S 0) = Some (?sq n, Inr (S (Suc n)))"
  proof (rule probe_scan)
    show "?body (?off i) (?sq i) (S i) = Inl (S (Suc i))" if "i < n" for i
      unfolding body using before [OF that] by auto
    show "?body (?off n) (?sq n) (S n) = Inr (S (Suc n))"
      unfolding body
    proof (cases "\<not> has_duplicates P \<and> ?ks n \<noteq> []")
      case True
      then have k: "?ks n = [hd (?ks n)]" using one by blast
      have "S (Suc n) = S n @ [(hd (?ks n), ?sq n)]" unfolding S_Suc by (subst k) simp
      then show "(if \<not> has_duplicates P \<and> ?ks n \<noteq> [] then Inr (S n @ [(hd (?ks n), ?sq n)])
        else if ?e n then Inr (S (Suc n)) else Inl (S (Suc n))) = Inr (S (Suc n))" using True by simp
    qed (use qn in auto)
  qed
  then have fe: "for_each_key P key ?h m = Some (S (Suc n))"
    by (simp add: for_each_key_def S_def Let_def)
  have "set (map fst (S (Suc n))) = {pos \<in> occupied m. key_at m pos = key}"
  proof (intro set_eqI iffI)
    fix q assume "q \<in> {pos \<in> occupied m. key_at m pos = key}"
    then have q: "q \<in> occupied m" "key_at m q = key" by simp_all
    then obtain l where l: "l \<le> n" "?off l = q div ksize P * ksize P" using reach by blast
    then have "q \<in> set (?ks l)" using ks(1) [of l] q by simp
    then show "q \<in> set (map fst (S (Suc n)))" unfolding setS using l(1) by auto
  next
    fix q assume "q \<in> set (map fst (S (Suc n)))"
    then show "q \<in> {pos \<in> occupied m. key_at m pos = key}" unfolding setS using ks(1) by auto
  qed
  then show ?thesis using that [OF fe] disS [of "Suc n"] nN by simp
qed

theorem count_key_ok:
  assumes inv: "map_inv P m"
  shows "count_key P key m = Some (int (count (image_mset fst (entries m)) key))"
proof -
  obtain ps where ps: "for_each_key P key (pm_hash P key) m = Some ps"
    "set (map fst ps) = {pos \<in> occupied m. key_at m pos = key}" "distinct (map fst ps)" by (rule for_each_key_ok [OF inv])
  have "length ps = card {pos \<in> occupied m. key_at m pos = key}"
    using distinct_card [OF ps(3)] ps(2) by simp
  moreover have "count (image_mset fst (entries m)) key = card {pos \<in> occupied m. key_at m pos = key}"
    by (simp add: entries_keys count_image_mset vimage_def Int_def conj_commute)
  ultimately show ?thesis using ps(1) by (simp add: count_key_def)
qed

section \<open>Equality of maps\<close>

lemma find_opt_all:
  assumes "\<And>x. x \<in> set xs \<Longrightarrow> f x = Some (g x)"
  shows "find_opt f xs = Some (List.find g xs)"
  using assms by (induction xs) auto

lemma entry_differs_ok:
  assumes inv: "map_inv P lhs" and inv': "map_inv P rhs" and nd: "\<not> has_duplicates P"
    and bs: "blob_size (m_conf lhs) = blob_size (m_conf rhs)"
  shows "entry_differs P lhs rhs pos = Some (entry_at lhs pos \<notin># entries rhs)"
proof -
  let ?k = "key_at lhs pos"
  have mem: "entry_at lhs pos \<in># entries rhs \<longleftrightarrow> (\<exists>q \<in> occupied rhs. entry_at rhs q = entry_at lhs pos)"
    by (simp add: entries_def image_iff) metis
  show ?thesis
  proof (rule find_first_ok [OF inv', of ?k])
    fix n assume f: "find_first P ?k (pm_hash P ?k) rhs = Some (None, seq_at P (pm_hash P ?k) n)"
      and none: "\<And>q. q \<in> occupied rhs \<Longrightarrow> key_at rhs q \<noteq> ?k"
    have "entry_at rhs q \<noteq> entry_at lhs pos" if "q \<in> occupied rhs" for q
      using none [OF that] by (auto simp: entry_at_def)
    then show ?thesis unfolding mem by (auto simp: entry_differs_def f Let_def)
  next
    fix n q assume f: "find_first P ?k (pm_hash P ?k) rhs = Some (Some q, seq_at P (pm_hash P ?k) n)"
      and q: "q \<in> occupied rhs" "key_at rhs q = ?k"
    have "q' = q" if "q' \<in> occupied rhs" "entry_at rhs q' = entry_at lhs pos" for q'
    proof -
      have "key_at rhs q' = key_at rhs q" using that(2) q(2) by (simp add: entry_at_def)
      then show ?thesis using inv' nd that(1) q(1) by (auto simp: map_inv_def keys_ok_def dest: inj_onD)
    qed
    then have "(\<exists>q' \<in> occupied rhs. entry_at rhs q' = entry_at lhs pos) \<longleftrightarrow> entry_at rhs q = entry_at lhs pos" using q(1) by blast
    moreover have "take (nat (blob_size (m_conf lhs))) (drop (q * nat (blob_stride (m_conf rhs))) (m_blobs rhs)) = blob_at rhs q"
      by (simp add: blob_at_def bs)
    ultimately show ?thesis unfolding mem using q(2) by (auto simp: entry_differs_def f Let_def entry_at_def)
  qed
qed

text \<open>Two maps compare equal exactly when they hold the same entries, however their tables are laid out.\<close>

theorem map_equal_ok:
  assumes inv: "map_inv P lhs" and inv': "map_inv P rhs" and nd: "\<not> has_duplicates P"
  shows "map_equal P lhs rhs = Some (blob_size (m_conf lhs) = blob_size (m_conf rhs) \<and> entries lhs = entries rhs)"
proof -
  have sz: "map_size P lhs = map_size P rhs \<longleftrightarrow> size (entries lhs) = size (entries rhs)"
    using map_size_ok [OF inv] map_size_ok [OF inv'] by simp
  show ?thesis
  proof (cases "size (entries lhs) = size (entries rhs) \<and> blob_size (m_conf lhs) = blob_size (m_conf rhs)")
    case False
    then show ?thesis using sz by (auto simp: map_equal_def)
  next
    case True
    then have bs: "blob_size (m_conf lhs) = blob_size (m_conf rhs)" by simp
    have "find_opt (entry_differs P lhs rhs) (for_each P lhs) = Some (List.find (\<lambda>pos. entry_at lhs pos \<notin># entries rhs) (for_each P lhs))"
      by (rule find_opt_all) (rule entry_differs_ok [OF inv inv' nd bs])
    then have me: "map_equal P lhs rhs = Some (\<forall>pos \<in> occupied lhs. entry_at lhs pos \<in># entries rhs)"
      using True sz for_each_ok(1) [OF inv] by (auto simp: map_equal_def find_None_iff)
    have "(\<forall>pos \<in> occupied lhs. entry_at lhs pos \<in># entries rhs) \<longleftrightarrow> entries lhs = entries rhs"
    proof
      assume all: "\<forall>pos \<in> occupied lhs. entry_at lhs pos \<in># entries rhs"
      have "inj_on (entry_at lhs) (occupied lhs)"
        using inv nd by (auto simp: map_inv_def keys_ok_def inj_on_def entry_at_def)
      then have "\<forall>e. count (entries lhs) e \<le> 1" unfolding entries_def by (rule iffD1 [OF inj_on_count [OF finite_occupied]])
      then have "count (entries lhs) e \<le> 1" for e by blast
      moreover have "e \<in># entries rhs" if "e \<in># entries lhs" for e using that all by (auto simp: entries_def)
      ultimately have "entries lhs \<subseteq># entries rhs"
        unfolding subseteq_mset_def by (metis One_nat_def count_greater_eq_one_iff le_trans not_in_iff zero_le le_zero_eq)
      then show "entries lhs = entries rhs" using True by (metis subset_mset.le_neq_trans mset_subset_size less_irrefl)
    next
      assume "entries lhs = entries rhs"
      then show "\<forall>pos \<in> occupied lhs. entry_at lhs pos \<in># entries rhs" by (metis entries_def image_eqI set_image_mset finite_set_mset_mset_set finite_occupied)
    qed
    then show ?thesis using me bs by simp
  qed
qed

section \<open>The interface\<close>

theorem api_find_ok:
  assumes inv: "map_inv P m"
  obtains p where "api_find P key m = Some p" and "p = npos \<longleftrightarrow> key \<notin># image_mset fst (entries m)"
    and "p \<noteq> npos \<Longrightarrow> 0 \<le> p \<and> nat p \<in> occupied m \<and> key_at m (nat p) = key"
proof (rule find_first_ok [OF inv, of key])
  fix n assume "find_first P key (pm_hash P key) m = Some (None, seq_at P (pm_hash P key) n)"
    and "\<And>pos. pos \<in> occupied m \<Longrightarrow> key_at m pos \<noteq> key"
  then show ?thesis using that [of npos] unfolding key_in_entries by (simp add: api_find_def raw_of_def)
next
  fix n pos assume "find_first P key (pm_hash P key) m = Some (Some pos, seq_at P (pm_hash P key) n)"
    and "pos \<in> occupied m" "key_at m pos = key"
  then show ?thesis using that [of "int pos"] unfolding key_in_entries by (auto simp: api_find_def raw_of_def npos_def)
qed

theorem api_contains_ok:
  assumes inv: "map_inv P m"
  shows "api_contains P key m = Some (key \<in># image_mset fst (entries m))"
proof -
  obtain p where "api_find P key m = Some p" "p = npos \<longleftrightarrow> key \<notin># image_mset fst (entries m)" by (rule api_find_ok [OF inv])
  then show ?thesis by (simp add: api_contains_def)
qed

theorem find_range_ok:
  assumes "map_inv P m"
  shows "find_range P ks n m = Some (n + int (length (filter (\<lambda>k. k \<in># image_mset fst (entries m)) ks)))"
  by (induction ks arbitrary: n) (simp_all add: api_contains_ok [OF assms])

theorem subscript_ok:
  assumes inv: "map_inv P m" and cap: "capacity P m \<le> 2 ^ 61" and nan: "\<not> pm_is_nan P key"
  obtains pos m' where "subscript P key m = Some (Inr (int pos, m'))" and "map_inv P m'" and "pos \<in> occupied m'" and "key_at m' pos = key"
    and "\<And>k. k \<in># image_mset fst (entries m') \<longleftrightarrow> k = key \<or> k \<in># image_mset fst (entries m)"
proof -
  obtain pos op n m' where i: "insert_key P key (pm_hash P key) m = Some (Inr ((pos, op, seq_at P (pm_hash P key) n), m'))"
    "map_inv P m'" "pos \<in> occupied m'" "key_at m' pos = key"
    "op = Op_found \<and> \<not> has_duplicates P \<and> entries m' = entries m \<and> key \<in># image_mset fst (entries m)
      \<or> op = Op_insert \<and> (\<exists>v b. entries m' = add_mset (key, v, b) (entries m)) \<and> (has_duplicates P \<or> key \<notin># image_mset fst (entries m))"
    by (rule insert_key_ok [OF inv cap nan])
  have "subscript P key m = Some (Inr (int pos, m'))" by (simp add: subscript_def i(1) npos_def)
  moreover have "k \<in># image_mset fst (entries m') \<longleftrightarrow> k = key \<or> k \<in># image_mset fst (entries m)" for k using i(5) by auto
  ultimately show ?thesis using that i(2-4) by blast
qed

theorem api_erase_ok:
  assumes inv: "map_inv P m" and cap: "capacity P m \<le> 2 ^ 61" and safe: "scrub_safe"
  obtains b m' where "api_erase P key m = Some (Inr (b, m'))" and "map_inv P m'" and "b \<longleftrightarrow> key \<in># image_mset fst (entries m)"
    and "\<not> b \<Longrightarrow> m' = m" and "b \<Longrightarrow> \<exists>v bl. entries m = add_mset (key, v, bl) (entries m')"
proof (rule erase_first_ok [OF inv cap safe, of key])
  fix n assume "erase_first P key (pm_hash P key) m = Some (Inr ((False, None, seq_at P (pm_hash P key) n), m))"
    "key \<notin># image_mset fst (entries m)"
  then show ?thesis using that [of False m] inv by (simp add: api_erase_def)
next
  fix n r m' v b assume "erase_first P key (pm_hash P key) m = Some (Inr ((True, r, seq_at P (pm_hash P key) n), m'))"
    "map_inv P m'" "entries m = add_mset (key, v, b) (entries m')"
  then show ?thesis using that [of True m'] by (auto simp: api_erase_def)
qed

end

end
