(* ===== verification/ConfProps.thy ===== *)
theory ConfProps
  imports Conf
begin

text \<open>
  Configurations are built by a chain of setters and completed by \<open>auto_adjust\<close>. Every chain that
  does not throw keeps the configuration well-formed, and \<open>auto_adjust\<close> then makes it one that
  the constructor of a map accepts.
\<close>

text \<open>All of \<open>conf_ok\<close> but the relation of minimum capacity, kernel size and growth bias.\<close>

definition conf_wf :: "conf \<Rightarrow> bool" where
  "conf_wf c \<longleftrightarrow> (\<exists>a b. a \<le> b \<and> b \<le> 62 \<and> min_capacity c = 2 ^ a \<and> init_capacity c = 2 ^ b)
     \<and> 0 \<le> blob_size c \<and> blob_size c \<le> blob_stride c
     \<and> min_grow_bias \<le> grow_bias c \<and> grow_bias c \<le> max_grow_bias
     \<and> min_scrub_bias \<le> scrub_bias c \<and> scrub_bias c \<le> max_scrub_bias
     \<and> min_shrink_bias \<le> shrink_bias c \<and> shrink_bias c \<le> max_shrink_bias"

lemma conf_ok_wf: "conf_ok k c \<longleftrightarrow> conf_wf c \<and> is_valid (2 ^ k) c"
  by (auto simp: conf_ok_def conf_wf_def)

datatype conf_call =
    Set_blob int int | Set_capacity int | Set_capacity2 int int | Set_grow_bias int | Set_scrub_bias int
  | Set_shrink_bias int | Auto_adjust

fun conf_apply :: "int \<Rightarrow> conf_call \<Rightarrow> conf \<Rightarrow> exn + conf" where
  "conf_apply ks (Set_blob sz st) c = set_blob sz st c"
| "conf_apply ks (Set_capacity n) c = Inr (set_capacity ks n c)"
| "conf_apply ks (Set_capacity2 n m) c = Inr (set_capacity2 n m c)"
| "conf_apply ks (Set_grow_bias b) c = set_grow_bias b c"
| "conf_apply ks (Set_scrub_bias b) c = set_scrub_bias b c"
| "conf_apply ks (Set_shrink_bias b) c = set_shrink_bias b c"
| "conf_apply ks Auto_adjust c = Inr (auto_adjust ks c)"

fun conf_chain :: "int \<Rightarrow> conf_call list \<Rightarrow> conf \<Rightarrow> exn + conf" where
  "conf_chain ks [] c = Inr c"
| "conf_chain ks (f # fs) c = (case conf_apply ks f c of Inl e \<Rightarrow> Inl e | Inr c' \<Rightarrow> conf_chain ks fs c')"

text \<open>The capacities a caller may ask for: not negative and at most the largest power of two of \<open>int_t\<close>.\<close>

fun sane_call :: "conf_call \<Rightarrow> bool" where
  "sane_call (Set_capacity n) \<longleftrightarrow> 0 \<le> n \<and> n \<le> 2 ^ 62"
| "sane_call (Set_capacity2 n m) \<longleftrightarrow> 0 \<le> n \<and> n \<le> 2 ^ 62 \<and> 0 \<le> m \<and> m \<le> 2 ^ 62"
| "sane_call _ \<longleftrightarrow> True"

lemma bias_bounds: "conf_wf c \<Longrightarrow> 0 \<le> grow_bias c \<and> grow_bias c \<le> 64"
  by (simp add: conf_wf_def min_grow_bias_def max_grow_bias_def cache_line_size_def)

lemma max_power_2: "max ((2 :: int) ^ a) (2 ^ b) = 2 ^ max a b"
  using power_le_iff_2 [of a b] by (simp add: max_def)

lemma set_capacity2_wf:
  assumes "conf_wf c" and "0 \<le> n" and "n \<le> 2 ^ 62" and "0 \<le> m" and "m \<le> 2 ^ 62"
  shows "conf_wf (set_capacity2 n m c)" and "m \<le> min_capacity (set_capacity2 n m c)" and "n \<le> init_capacity (set_capacity2 n m c)"
proof -
  obtain e where e: "e \<le> 62" "int_bit_ceil n = 2 ^ e" "n \<le> 2 ^ e" by (rule int_bit_ceil_cases [OF assms(2,3)])
  obtain f where f: "f \<le> 62" "int_bit_ceil m = 2 ^ f" "m \<le> 2 ^ f" by (rule int_bit_ceil_cases [OF assms(4,5)])
  have c': "set_capacity2 n m c = c\<lparr>min_capacity := 2 ^ f, init_capacity := 2 ^ max e f\<rparr>"
    by (simp add: set_capacity2_def e(2) f(2) Let_def max_power_2)
  then show "m \<le> min_capacity (set_capacity2 n m c)" using f(3) by simp
  have "(2 :: int) ^ e \<le> 2 ^ max e f" by (simp only: power_le_iff_2)
  then show "n \<le> init_capacity (set_capacity2 n m c)" unfolding c' using order.trans [OF e(3)] by simp
  have "f \<le> max e f" "max e f \<le> 62" using e(1) f(1) by simp_all
  then show "conf_wf (set_capacity2 n m c)" using assms(1) unfolding c' conf_wf_def by (auto intro!: exI [of _ f] exI [of _ "max e f"])
qed

lemma set_blob_wf:
  assumes "conf_wf c" and "set_blob sz st c = Inr c'"
  shows "conf_wf c'" and "blob_size c' = max sz 0"
proof -
  have up: "sz \<le> round_up sz (cache_line_size div 2)" if "0 < sz"
  proof -
    have "0 < 31 + sz" using that by simp
    then have "round_up sz 32 = (sz + 31) div 32 * 32" by (simp add: round_up_def ceil_div_def Let_def add.commute)
    moreover have "(sz + 31) div 32 * 32 + (sz + 31) mod 32 = sz + 31" by simp
    moreover have "(sz + 31) mod 32 \<le> 31" by (simp add: pos_mod_bound [of 32 "sz + 31"] zle_diff1_eq [symmetric])
    ultimately show ?thesis by (simp add: cache_line_size_def)
  qed
  have bc: "sz \<le> int_bit_ceil sz" if "0 < sz" "sz < cache_line_size"
    by (rule int_bit_ceil_cases [of sz]) (use that in \<open>simp_all add: cache_line_size_def\<close>)
  from assms(2) show "conf_wf c'" "blob_size c' = max sz 0"
    using assms(1) up bc by (auto simp: set_blob_def Let_def conf_wf_def split: if_splits)
qed

lemma conf_apply_wf:
  assumes "conf_wf c" and "sane_call f" and "k \<le> 62" and "conf_apply (2 ^ k) f c = Inr c'"
  shows "conf_wf c'"
proof (cases f)
  case (Set_capacity n)
  obtain e where e: "e \<le> 62" "min_capacity_limit (2 ^ k) (grow_bias c) = 2 ^ e"
    by (rule min_capacity_limit_power [OF assms(3), of "grow_bias c"]) (use bias_bounds [OF assms(1)] in simp_all)
  have "(2 :: int) ^ e \<le> 2 ^ 62" using e(1) by (simp only: power_le_iff_2)
  then show ?thesis
    using assms(4,2) set_capacity2_wf(1) [OF assms(1), of n "2 ^ e"] unfolding Set_capacity by (auto simp: set_capacity_def e(2))
next
  case Auto_adjust
  obtain e where e: "e \<le> 62" "min_capacity_limit (2 ^ k) (grow_bias c) = 2 ^ e"
    by (rule min_capacity_limit_power [OF assms(3), of "grow_bias c"]) (use bias_bounds [OF assms(1)] in simp_all)
  obtain a b where ab: "a \<le> b" "b \<le> 62" "min_capacity c = 2 ^ a" "init_capacity c = 2 ^ b" using assms(1) by (auto simp: conf_wf_def)
  have "(if min_capacity c < 2 ^ e then 2 ^ e else min_capacity c) = 2 ^ max a e"
    unfolding ab(3) by (simp only: power_less_iff_2 max_def not_less) auto
  then have "c' = c\<lparr>min_capacity := 2 ^ max a e, init_capacity := 2 ^ max b (max a e)\<rparr>"
    using assms(4) unfolding Auto_adjust by (simp add: auto_adjust_def e(2) Let_def ab(4) max_power_2)
  moreover have "max a e \<le> max b (max a e)" "max b (max a e) \<le> 62" using ab e(1) by simp_all
  ultimately show ?thesis using assms(1) unfolding conf_wf_def by (auto intro!: exI [of _ "max a e"] exI [of _ "max b (max a e)"])
next
  case (Set_blob sz st)
  then show ?thesis using set_blob_wf(1) [OF assms(1)] assms(4) by simp
next
  case (Set_capacity2 n m)
  then show ?thesis using set_capacity2_wf(1) [OF assms(1), of n m] assms(2,4) by auto
next
  case (Set_grow_bias b)
  then have "c' = c\<lparr>grow_bias := b\<rparr>" "min_grow_bias \<le> b" "b \<le> max_grow_bias"
    using assms(4) by (simp_all add: set_grow_bias_def split: if_splits)
  then show ?thesis using assms(1) by (simp add: conf_wf_def)
next
  case (Set_scrub_bias b)
  then have "c' = c\<lparr>scrub_bias := b\<rparr>" "min_scrub_bias \<le> b" "b \<le> max_scrub_bias"
    using assms(4) by (simp_all add: set_scrub_bias_def split: if_splits)
  then show ?thesis using assms(1) by (simp add: conf_wf_def)
next
  case (Set_shrink_bias b)
  then have "c' = c\<lparr>shrink_bias := b\<rparr>" "min_shrink_bias \<le> b" "b \<le> max_shrink_bias"
    using assms(4) by (simp_all add: set_shrink_bias_def split: if_splits)
  then show ?thesis using assms(1) by (simp add: conf_wf_def)
qed

lemma conf_chain_wf:
  assumes "conf_wf c" and "list_all sane_call fs" and "k \<le> 62" and "conf_chain (2 ^ k) fs c = Inr c'"
  shows "conf_wf c'"
  using assms
proof (induction fs arbitrary: c)
  case (Cons f fs)
  obtain c1 where c1: "conf_apply (2 ^ k) f c = Inr c1" "conf_chain (2 ^ k) fs c1 = Inr c'"
    using Cons.prems(4) by (cases "conf_apply (2 ^ k) f c") simp_all
  have "conf_wf c1" by (rule conf_apply_wf [OF Cons.prems(1) _ assms(3) c1(1)]) (use Cons.prems(2) in simp)
  then show ?case using Cons.IH [OF _ _ assms(3) c1(2)] Cons.prems(2) by simp
qed simp

lemma auto_adjust_valid: "is_valid ks (auto_adjust ks c)"
  by (auto simp: is_valid_def auto_adjust_def Let_def)

lemma auto_adjust_ok: "conf_wf c \<Longrightarrow> k \<le> 62 \<Longrightarrow> conf_ok k (auto_adjust (2 ^ k) c)"
  using conf_apply_wf [of c Auto_adjust k] auto_adjust_valid by (simp add: conf_ok_wf)

text \<open>The configuration a map has by default.\<close>

lemma default_conf_wf:
  assumes "k \<le> 62" and "1 \<le> key_bytes" and "0 \<le> value_bytes"
  shows "conf_ok k (default_conf (2 ^ k) key_bytes value_bytes)"
proof -
  let ?n = "min (max key_bytes value_bytes) page_size"
  have "1 \<le> ?n" "?n \<le> 4096" using assms(2) by (simp_all add: page_size_def)
  have "page_size div ?n \<le> page_size div 1"
    using \<open>1 \<le> ?n\<close> by (intro zdiv_mono2) (simp_all add: page_size_def)
  then have d: "0 \<le> page_size div ?n" "page_size div ?n \<le> 2 ^ 62"
    using \<open>1 \<le> ?n\<close> by (simp_all add: page_size_def pos_imp_zdiv_nonneg_iff)
  obtain f where f: "f \<le> 62" "int_bit_ceil (page_size div ?n) = 2 ^ f" by (rule int_bit_ceil_cases [OF d])
  obtain e where e: "e \<le> 62" "min_capacity_limit (2 ^ k) default_grow_bias = 2 ^ e"
    by (rule min_capacity_limit_power [OF assms(1), of default_grow_bias]) (simp_all add: default_grow_bias_def)
  have "default_capacity (2 ^ k) key_bytes value_bytes default_grow_bias = 2 ^ max f e"
    by (simp add: default_capacity_def Let_def f(2) e(2) max_power_2)
  moreover have "e \<le> max f e" "max f e \<le> 62" using e(1) f(1) by simp_all
  moreover have "min_grow_bias \<le> default_grow_bias" "default_grow_bias \<le> max_grow_bias" "min_scrub_bias \<le> default_scrub_bias"
      "default_scrub_bias \<le> max_scrub_bias" "min_shrink_bias \<le> default_shrink_bias" "default_shrink_bias \<le> max_shrink_bias"
    by (simp_all add: min_grow_bias_def max_grow_bias_def min_scrub_bias_def max_scrub_bias_def min_shrink_bias_def
        max_shrink_bias_def default_grow_bias_def default_scrub_bias_def default_shrink_bias_def cache_line_size_def)
  ultimately show ?thesis
    by (auto simp: conf_ok_def default_conf_def e(2) is_valid_def intro!: exI [of _ e] exI [of _ "max f e"])
qed

end
