(* ===== verification/MapModels.thy ===== *)
theory MapModels
  imports MapClient MapCapacity ConfProps ArrayKernel UintKernel
begin

text \<open>
  The maps the library builds: its kernels and its default probe sequence meet the contracts the
  lemmas on maps rest on. \<open>portable_map\<close> is the map of a build without vector instructions (the SWAR
  kernel of eight slots, exact or with false positives), \<open>array_map\<close> the one on a portable array
  kernel of 16 slots, \<open>single_map\<close> the one with buckets of a single slot.
\<close>

lemma ctz_power: "k < 64 \<Longrightarrow> ctz (2 ^ k :: u64) = k"
proof -
  assume k: "k < 64"
  have b: "bit (2 ^ k :: u64) i \<longleftrightarrow> i = k" for i using k by (auto simp: bit_exp_iff)
  then have "bits (2 ^ k :: u64) = {k}" by (auto simp: bits_def)
  moreover have "(2 ^ k :: u64) \<noteq> 0"
  proof
    assume "(2 ^ k :: u64) = 0"
    then show False using b [of k] k by (simp add: not_le)
  qed
  ultimately show "ctz (2 ^ k :: u64) = k" by (simp add: ctz_Min)
qed

lemma swiss_mapI:
  assumes "swiss_kernel (pm_kernel P) ok slots" and "pm_seq P = default_seq" and "ksize P = 2 ^ k" and "k \<le> 6"
  shows "swiss_map P ok slots"
proof -
  have kb: "kbits P = k" using assms(3,4) ctz_power [of k] by (simp add: kbits_def)
  have "probe_laws default_seq k" unfolding default_seq_def using quadratic_seq_laws [of k 6] assms(4) by simp
  then show ?thesis using assms kb by (simp add: swiss_map_def swiss_map_axioms_def)
qed

definition portable_map ::
    "bool \<Rightarrow> ('k, 'v, 64 word, 64 word, 64 word, probe_seq) map_params \<Rightarrow> ('k, 'v, 64 word, 64 word, 64 word, probe_seq) map_params" where
  "portable_map fp P = P\<lparr>pm_kernel := uint_kernel fp, pm_seq := default_seq, pm_bounded := False\<rparr>"

definition array_map ::
    "('k, 'v, state_t list, lru_t list, 32 word, probe_seq) map_params \<Rightarrow> ('k, 'v, state_t list, lru_t list, 32 word, probe_seq) map_params" where
  "array_map P = P\<lparr>pm_kernel := array_kernel 16, pm_seq := default_seq, pm_bounded := False\<rparr>"

definition single_map ::
    "('k, 'v, state_t list, lru_t list, 32 word, probe_seq) map_params \<Rightarrow> ('k, 'v, state_t list, lru_t list, 32 word, probe_seq) map_params" where
  "single_map P = P\<lparr>pm_kernel := array_kernel 1, pm_seq := default_seq, pm_bounded := False\<rparr>"

lemma portable_map_size [simp]: "ksize (portable_map fp P) = 8"
  by (simp add: ksize_def portable_map_def uint_kernel_def Let_def n_bytes_def)

lemma array_map_size [simp]: "ksize (array_map P) = 16"
  by (simp add: ksize_def array_map_def array_kernel_def array_kernel_with_def)

lemma single_map_size [simp]: "ksize (single_map P) = 1"
  by (simp add: ksize_def single_map_def array_kernel_def array_kernel_with_def)

lemma map_size_bits [simp]: "kbits (portable_map fp P) = 3" "kbits (array_map P') = 4" "kbits (single_map P') = 0"
  using ctz_power [of 3] ctz_power [of 4] ctz_power [of 0] by (simp_all add: kbits_def)

interpretation portable: swiss_map "portable_map fp P"
    "uint_mask_ok (n_bytes TYPE(64)) 3 Align_left" "uint_mask_slots (n_bytes TYPE(64)) 3 Align_left" for fp P
  by (rule swiss_mapI [where k = 3]) (simp_all add: uint_kernel8.swiss_kernel_axioms, simp_all add: portable_map_def uint_kernel8.swiss_kernel_axioms)

interpretation array16: swiss_map "array_map P" "uint_mask_ok 16 0 Align_right" "uint_mask_slots 16 0 Align_right" for P
  by (rule swiss_mapI [where k = 4]) (simp_all, simp_all add: array_map_def array_kernel16.swiss_kernel_axioms)

interpretation single: swiss_map "single_map P" "uint_mask_ok 1 0 Align_right" "uint_mask_slots 1 0 Align_right" for P
  by (rule swiss_mapI [where k = 0]) (simp_all, simp_all add: single_map_def array_kernel1.swiss_kernel_axioms [unfolded One_nat_def])

end
