(* ===== verification/MapSpec.thy ===== *)
theory MapSpec
  imports MapCapacity MapModels
begin

text \<open>
  What a hash map promises: a bag of entries, and for every call of its interface how the bag and the
  returned number relate to the bag before. \<open>map_exec\<close> runs a call on the model, \<open>map_reach\<close> are the
  states a program can reach, and \<open>map_exec_ok\<close> shows that every call returns and does what
  \<open>spec_step\<close> allows.
\<close>

datatype ('k, 'v) map_call =
    Insert 'k | Put 'k 'v | Erase 'k | Erase_all 'k | Erase_if "'k \<Rightarrow> bool"
  | Clear | Clear_to int | Resize int | Reserve int | Grow | Shrink | Scrub

fun map_exec ::
    "('k, 'v, 'r, 'l, 'm, 'q) map_params \<Rightarrow> ('k, 'v) map_call \<Rightarrow> ('k, 'v) map_state
      \<Rightarrow> (exn + int \<times> ('k, 'v) map_state) option" where
  "map_exec P (Insert k) m = map_option (map_sum id (\<lambda>((pos, op), m'). (of_bool (op = Op_insert), m'))) (api_insert P k m)"
| "map_exec P (Put k v) m = map_option (map_sum id (\<lambda>(pos, m'). (0, set_value_at (nat pos) v m'))) (subscript P k m)"
| "map_exec P (Erase k) m = map_option (map_sum id (\<lambda>(b, m'). (of_bool b, m'))) (api_erase P k m)"
| "map_exec P (Erase_all k) m = api_erase_all P k m"
| "map_exec P (Erase_if f) m = api_erase_if P (\<lambda>pos. f (key_at m (nat pos))) m"
| "map_exec P Clear m = Some (Inr (clear_map P m))"
| "map_exec P (Clear_to n) m = Some (Inr (clear_to P n m))"
| "map_exec P (Resize n) m = resize_api P n m"
| "map_exec P (Reserve n) m = reserve P n m"
| "map_exec P Grow m = grow P m"
| "map_exec P Shrink m = shrink P m"
| "map_exec P Scrub m = map_option Inr (scrub P m)"

text \<open>The calls the interface allows: no key that differs from itself, and sizes of the type's range.\<close>

fun legal_call :: "('k, 'v, 'r, 'l, 'm, 'q) map_params \<Rightarrow> ('k, 'v) map_call \<Rightarrow> bool" where
  "legal_call P (Insert k) \<longleftrightarrow> \<not> pm_is_nan P k"
| "legal_call P (Put k v) \<longleftrightarrow> \<not> pm_is_nan P k"
| "legal_call P (Clear_to n) \<longleftrightarrow> n \<le> 2 ^ 62"
| "legal_call P (Resize n) \<longleftrightarrow> 0 \<le> n \<and> n \<le> 2 ^ 62"
| "legal_call P (Reserve n) \<longleftrightarrow> n \<le> 2 ^ 62"
| "legal_call P _ \<longleftrightarrow> True"

text \<open>The abstract map.\<close>

type_synonym ('k, 'v) bag = "('k \<times> 'v \<times> u8 list) multiset"

abbreviation keys_of :: "('k, 'v) bag \<Rightarrow> 'k multiset" where
  "keys_of E \<equiv> image_mset fst E"

fun spec_step :: "bool \<Rightarrow> ('k, 'v) map_call \<Rightarrow> ('k, 'v) bag \<Rightarrow> int \<Rightarrow> ('k, 'v) bag \<Rightarrow> bool" where
  "spec_step dup (Insert k) E r E' \<longleftrightarrow> (if dup \<or> k \<notin># keys_of E then r = 1 \<and> (\<exists>v b. E' = add_mset (k, v, b) E) else r = 0 \<and> E' = E)"
| "spec_step dup (Put k v) E r E' \<longleftrightarrow> (\<exists>b. E' = add_mset (k, v, b) (if dup then E else filter_mset (\<lambda>e. fst e \<noteq> k) E))"
| "spec_step dup (Erase k) E r E' \<longleftrightarrow> (if k \<in># keys_of E then r = 1 \<and> (\<exists>v b. E = add_mset (k, v, b) E') else r = 0 \<and> E' = E)"
| "spec_step dup (Erase_all k) E r E' \<longleftrightarrow> r = int (count (keys_of E) k) \<and> E' = filter_mset (\<lambda>e. fst e \<noteq> k) E"
| "spec_step dup (Erase_if f) E r E' \<longleftrightarrow> r = int (size (filter_mset (\<lambda>e. f (fst e)) E)) \<and> E' = filter_mset (\<lambda>e. \<not> f (fst e)) E"
| "spec_step dup Clear E r E' \<longleftrightarrow> E' = {#}"
| "spec_step dup (Clear_to n) E r E' \<longleftrightarrow> n \<le> r \<and> E' = {#}"
| "spec_step dup (Resize n) E r E' \<longleftrightarrow> n \<le> r \<and> E' = E"
| "spec_step dup (Reserve n) E r E' \<longleftrightarrow> n \<le> r \<and> E' = E"
| "spec_step dup Grow E r E' \<longleftrightarrow> E' = E"
| "spec_step dup Shrink E r E' \<longleftrightarrow> E' = E"
| "spec_step dup Scrub E r E' \<longleftrightarrow> E' = E"

text \<open>
  The states a client reaches from a constructed map, with the calls made. A table of more than
  \<open>2 ^ 61\<close> slots, which no address space holds, is not resized further.
\<close>

inductive map_reach ::
    "('k, 'v, 'r, 'l, 'm, 'q) map_params \<Rightarrow> conf \<Rightarrow> (('k, 'v) map_call \<times> int) list \<Rightarrow> ('k, 'v) map_state \<Rightarrow> bool"
  for P :: "('k, 'v, 'r, 'l, 'm, 'q) map_params" and cf :: conf where
  start: "make_map P cf = Inr m \<Longrightarrow> map_reach P cf [] m"
| call: "map_reach P cf cs m \<Longrightarrow> capacity P m \<le> 2 ^ 61 \<Longrightarrow> legal_call P c \<Longrightarrow> map_exec P c m = Some (Inr (r, m'))
    \<Longrightarrow> map_reach P cf (cs @ [(c, r)]) m'"

fun spec_run :: "bool \<Rightarrow> (('k, 'v) map_call \<times> int) list \<Rightarrow> ('k, 'v) bag \<Rightarrow> ('k, 'v) bag \<Rightarrow> bool" where
  "spec_run dup [] E E' \<longleftrightarrow> E' = E"
| "spec_run dup ((c, r) # cs) E E' \<longleftrightarrow> (\<exists>E1. spec_step dup c E r E1 \<and> spec_run dup cs E1 E')"

lemma spec_run_snoc: "spec_run dup cs E E1 \<Longrightarrow> spec_step dup c E1 r E' \<Longrightarrow> spec_run dup (cs @ [(c, r)]) E E'"
proof (induction cs arbitrary: E)
  case (Cons d cs)
  then show ?case by (cases d) (simp, blast)
qed simp

section \<open>The model meets the specification\<close>

lemma map_sum_Inr: "map_sum id f z = Inr y \<longleftrightarrow> (\<exists>x. z = Inr x \<and> y = f x)"
  by (cases z) auto

lemma filter_entries:
  "filter_mset (\<lambda>e. Q (fst e)) (entries m) = image_mset (entry_at m) (mset_set {pos \<in> occupied m. Q (key_at m pos)})"
  by (simp add: entries_def filter_mset_image_mset entry_at_def)

context swiss_map
begin

lemma entries_set_value:
  assumes inv: "map_inv P m" and pos: "pos \<in> occupied m"
  shows "entries (set_value_at pos v m) = add_mset (key_at m pos, v, blob_at m pos) (entries m - {#entry_at m pos#})"
proof -
  have fin: "finite (occupied m)" by (rule finite_occupied)
  have ms: "mset_set (occupied m) = add_mset pos (mset_set (occupied m - {pos}))" by (rule mset_set.remove [OF fin pos])
  have "image_mset (entry_at (set_value_at pos v m)) (mset_set (occupied m - {pos})) = image_mset (entry_at m) (mset_set (occupied m - {pos}))"
    using fin by (intro image_mset_cong) (simp add: set_value_at_ok(3) [OF inv pos])
  then show ?thesis by (simp add: entries_def set_value_at_ok(2) [OF inv pos] ms set_value_at_ok(3) [OF inv pos])
qed

text \<open>What an insertion leaves in the bag, with the entry at the returned position.\<close>

lemma insert_bag:
  assumes inv: "map_inv P m" and cap: "capacity P m \<le> 2 ^ 61" and nan: "\<not> pm_is_nan P k"
  obtains pos op n m' where "insert_key P k (pm_hash P k) m = Some (Inr ((pos, op, seq_at P (pm_hash P k) n), m'))"
    and "map_inv P m'" and "pos \<in> occupied m'" and "entry_at m' pos = (k, value_at m' pos, blob_at m' pos)"
    and "op = Op_insert \<longleftrightarrow> has_duplicates P \<or> k \<notin># keys_of (entries m)"
    and "entries m' = (if op = Op_insert then add_mset (entry_at m' pos) (entries m) else entries m)"
proof -
  obtain pos op n m' where i: "insert_key P k (pm_hash P k) m = Some (Inr ((pos, op, seq_at P (pm_hash P k) n), m'))"
    "map_inv P m'" "pos \<in> occupied m'" "key_at m' pos = k"
    and c: "op = Op_found \<and> \<not> has_duplicates P \<and> entries m' = entries m \<and> k \<in># keys_of (entries m)
      \<or> op = Op_insert \<and> entries m' = add_mset (entry_at m' pos) (entries m) \<and> (has_duplicates P \<or> k \<notin># keys_of (entries m))"
    by (rule insert_key_at [OF inv cap nan])
  have "entry_at m' pos = (k, value_at m' pos, blob_at m' pos)" using i(4) by (simp add: entry_at_def)
  then show ?thesis using that [OF i(1-3)] c by fastforce
qed

lemma put_ok:
  assumes inv: "map_inv P m" and cap: "capacity P m \<le> 2 ^ 61" and nan: "\<not> pm_is_nan P k"
  obtains r m' where "map_exec P (Put k v) m = Some (Inr (r, m'))" and "map_inv P m'"
    and "spec_step (has_duplicates P) (Put k v) (entries m) r (entries m')"
proof -
  obtain pos op n m1 where i: "insert_key P k (pm_hash P k) m = Some (Inr ((pos, op, seq_at P (pm_hash P k) n), m1))"
    "map_inv P m1" "pos \<in> occupied m1" and e: "entry_at m1 pos = (k, value_at m1 pos, blob_at m1 pos)"
    and op: "op = Op_insert \<longleftrightarrow> has_duplicates P \<or> k \<notin># keys_of (entries m)"
    and ent: "entries m1 = (if op = Op_insert then add_mset (entry_at m1 pos) (entries m) else entries m)"
    by (rule insert_bag [OF inv cap nan])
  let ?m' = "set_value_at pos v m1"
  have k: "key_at m1 pos = k" using e by (simp add: entry_at_def)
  have "map_exec P (Put k v) m = Some (Inr (0, ?m'))" by (simp add: subscript_def i(1) npos_def)
  moreover have "map_inv P ?m'" by (rule set_value_at_ok [OF i(2,3)])
  moreover have "spec_step (has_duplicates P) (Put k v) (entries m) 0 (entries ?m')"
  proof -
    have ev: "entries ?m' = add_mset (k, v, blob_at m1 pos) (entries m1 - {#entry_at m1 pos#})"
      using entries_set_value [OF i(2,3), of v] k by simp
    have "entries m1 - {#entry_at m1 pos#} = (if has_duplicates P then entries m else filter_mset (\<lambda>e. fst e \<noteq> k) (entries m))"
    proof (cases "op = Op_insert")
      case True
      have "filter_mset (\<lambda>e. fst e \<noteq> k) (entries m) = entries m" if "\<not> has_duplicates P"
        using op True that by (intro filter_mset_eq_conv [THEN iffD2]) auto
      then show ?thesis using ent True by simp
    next
      case False
      then have nd: "\<not> has_duplicates P" and em: "entries m1 = entries m" using op ent by auto
      have "filter_mset (\<lambda>e. fst e \<noteq> k) (entries m1) = entries m1 - {#entry_at m1 pos#}"
      proof -
        have mem: "entry_at m1 pos \<in># entries m1" using i(3) by (simp add: entries_def)
        then obtain E where E: "entries m1 = add_mset (entry_at m1 pos) E" by (rule mset_add)
        have "count (keys_of (entries m1)) k \<le> 1"
          using i(2) nd by (auto simp: map_inv_def keys_ok_entries)
        then have "k \<notin># keys_of E" unfolding E by (simp only: e image_mset_add_mset fst_conv count_add_mset not_in_iff) simp
        then have "filter_mset (\<lambda>e. fst e \<noteq> k) E = E" by (intro filter_mset_eq_conv [THEN iffD2]) auto
        then show ?thesis by (simp add: E e)
      qed
      then show ?thesis using nd em by simp
    qed
    then show ?thesis using ev by auto
  qed
  ultimately show ?thesis using that by blast
qed

lemma erase_if_bag:
  assumes inv: "map_inv P m" and cap: "capacity P m \<le> 2 ^ 61" and safe: "scrub_safe"
  obtains r m' where "map_exec P (Erase_if f) m = Some (Inr (r, m'))" and "map_inv P m'"
    and "spec_step (has_duplicates P) (Erase_if f) (entries m) r (entries m')"
proof -
  obtain m' where m': "erase_if P (\<lambda>pos. f (key_at m pos)) m = Some (Inr (int (card {pos \<in> occupied m. f (key_at m pos)}), m'))"
    "map_inv P m'" "entries m' = image_mset (entry_at m) (mset_set {pos \<in> occupied m. \<not> f (key_at m pos)})"
    by (rule erase_if_ok [OF inv cap safe])
  have "size (filter_mset (\<lambda>e. f (fst e)) (entries m)) = card {pos \<in> occupied m. f (key_at m pos)}"
    unfolding filter_entries by simp
  then show ?thesis using that [of "int (card {pos \<in> occupied m. f (key_at m pos)})" m'] m' filter_entries [of "\<lambda>k. \<not> f k" m]
    by (simp add: api_erase_if_def)
qed

text \<open>Every legal call returns, keeps the invariant and does what the specification says.\<close>

theorem map_exec_ok:
  assumes inv: "map_inv P m" and cap: "capacity P m \<le> 2 ^ 61" and leg: "legal_call P c"
    and safe: "scrub_safe" and scr: "c = Scrub \<Longrightarrow> 2 \<le> ksize P"
  obtains r m' where "map_exec P c m = Some (Inr (r, m'))" and "map_inv P m'"
    and "spec_step (has_duplicates P) c (entries m) r (entries m')"
proof (cases c)
  case (Insert k)
  obtain pos op n m' where i: "insert_key P k (pm_hash P k) m = Some (Inr ((pos, op, seq_at P (pm_hash P k) n), m'))"
    "map_inv P m'" "entry_at m' pos = (k, value_at m' pos, blob_at m' pos)"
    "op = Op_insert \<longleftrightarrow> has_duplicates P \<or> k \<notin># keys_of (entries m)"
    "entries m' = (if op = Op_insert then add_mset (entry_at m' pos) (entries m) else entries m)"
    by (rule insert_bag [OF inv cap, of k]) (use leg Insert in simp)
  have "map_exec P c m = Some (Inr (of_bool (op = Op_insert), m'))" by (simp add: Insert api_insert_def i(1))
  moreover have "spec_step (has_duplicates P) c (entries m) (of_bool (op = Op_insert)) (entries m')"
    using i(3-5) by (auto simp: Insert)
  ultimately show ?thesis using that i(2) by blast
next
  case (Put k v)
  then show ?thesis using put_ok [OF inv cap, of k v] leg that by auto
next
  case (Erase k)
  obtain b m' where m': "api_erase P k m = Some (Inr (b, m'))" "map_inv P m'" "b \<longleftrightarrow> k \<in># keys_of (entries m)"
    "\<not> b \<Longrightarrow> m' = m" "b \<Longrightarrow> \<exists>v bl. entries m = add_mset (k, v, bl) (entries m')"
    using api_erase_ok [OF inv cap safe, of k] by blast
  then show ?thesis using that [of "of_bool b" m'] by (cases b) (simp_all add: Erase)
next
  case (Erase_all k)
  obtain m' where "erase_all P k (pm_hash P k) m = Some (Inr (int (count (keys_of (entries m)) k), m'))" "map_inv P m'"
    "entries m' = filter_mset (\<lambda>e. fst e \<noteq> k) (entries m)" by (rule erase_all_ok [OF inv cap safe])
  then show ?thesis using that [of "int (count (keys_of (entries m)) k)" m'] by (simp add: Erase_all api_erase_all_def)
next
  case (Erase_if f)
  then show ?thesis using erase_if_bag [OF inv cap safe, of f] that by auto
next
  case Clear
  then show ?thesis using that [of "fst (clear_map P m)" "snd (clear_map P m)"] clear_map_ok(1,2) [OF inv] by simp
next
  case (Clear_to n)
  then show ?thesis using that [of "fst (clear_to P n m)" "snd (clear_to P n m)"] clear_to_ok(1,2,4) [OF inv, of n] leg by simp
next
  case (Resize n)
  have n: "0 \<le> n" "n \<le> 2 ^ 62" using leg by (simp_all add: Resize)
  obtain m' where m': "resize_api P n m = Some (Inr (capacity P m', m'))" "map_inv P m'" "entries m' = entries m" "n \<le> capacity P m'"
    by (rule resize_api_ok [OF inv cap n])
  then show ?thesis using that [of "capacity P m'" m'] by (simp add: Resize)
next
  case (Reserve n)
  have n: "n \<le> 2 ^ 62" using leg by (simp add: Reserve)
  obtain m' where m': "reserve P n m = Some (Inr (capacity P m', m'))" "map_inv P m'" "entries m' = entries m" "n \<le> capacity P m'"
    by (rule reserve_ok [OF inv cap n])
  then show ?thesis using that [of "capacity P m'" m'] by (simp add: Reserve)
next
  case Grow
  obtain m' where m': "grow P m = Some (Inr (capacity P m', m'))" "map_inv P m'" "entries m' = entries m"
    by (rule grow_ok [OF inv cap])
  then show ?thesis using that [of "capacity P m'" m'] by (simp add: Grow)
next
  case Shrink
  obtain m' where m': "shrink P m = Some (Inr (capacity P m', m'))" "map_inv P m'" "entries m' = entries m"
    by (rule shrink_ok [OF inv cap])
  then show ?thesis using that [of "capacity P m'" m'] by (simp add: Shrink)
next
  case Scrub
  obtain moves m' where "scrub P m = Some (moves, m')" "map_inv P m'" "entries m' = entries m"
    by (rule scrub_ok [OF inv scr [OF Scrub]])
  then show ?thesis using that [of moves m'] by (simp add: Scrub)
qed

lemma make_map_tombstones: "make_map P cf = Inr m \<Longrightarrow> m_num_tombstone m = 0"
  by (auto simp: make_map_def reset_map_def Let_def split: if_splits)

text \<open>An empty table without tombstones is not full.\<close>

lemma empty_not_full:
  assumes inv: "map_inv P m" and e: "entries m = {#}" and t: "m_num_tombstone m = 0"
  shows "\<not> is_full m"
proof -
  obtain c where c: "shape_ok P c m" "capacity P m = 2 ^ c" "conf_ok (kbits P) (m_conf m)" "min_capacity (m_conf m) \<le> 2 ^ c"
    "m_grow_threshold m = grow_threshold (m_conf m) (2 ^ c)" by (rule map_invD [OF inv])
  have "2 * m_grow_threshold m \<le> 2 ^ c"
    using grow_threshold_bounds(3) [OF c(3) _ c(4)] shape_buckets(4,5) [OF c(1)] c(5) by simp
  moreover have "m_num_empty m = 2 ^ c" using map_size_entries [OF inv] e t c(2) by (simp add: num_not_hash_slots_def)
  moreover have "0 < (2 :: int) ^ c" by simp
  ultimately have "\<not> m_num_empty m \<le> m_grow_threshold m" by linarith
  then show ?thesis by (simp add: is_full_def should_grow_precalc_def)
qed

text \<open>An insertion into a table that is not full keeps the capacity.\<close>

lemma insert_capacity:
  assumes inv: "map_inv P m" and nf: "\<not> is_full m" and i: "insert_key P k (pm_hash P k) m = Some (Inr (r, m'))"
  shows "capacity P m' = capacity P m"
proof (rule insert_loop_ok [OF inv not_full_room [OF inv nf] refl, of k])
  have nan: "\<not> pm_is_nan P k" using i by (auto simp: insert_key_def)
  fix n pos assume "insert_loop P k (pm_hash P k) (capacity P m) m = Some (Inr (Inl pos, seq_at P (pm_hash P k) n, m))"
  then show ?thesis using i nf nan by (simp add: insert_key_def)
next
  have nan: "\<not> pm_is_nan P k" using i by (auto simp: insert_key_def)
  fix n pos e assume "insert_loop P k (pm_hash P k) (capacity P m) m = Some (Inr (Inr (pos, e), seq_at P (pm_hash P k) n, m))"
  then have "m' = place_key k (pm_state P (pm_hash P k)) pos e m" using i nf nan by (simp add: insert_key_def)
  then show ?thesis by (simp add: capacity_def)
qed

lemma put_capacity:
  assumes "map_inv P m" and "\<not> is_full m" and "map_exec P (Put k v) m = Some (Inr (r, m'))"
  shows "capacity P m' = capacity P m"
  using assms(3) insert_capacity [OF assms(1,2), of k]
  by (auto simp: subscript_def set_value_at_def capacity_def npos_def split: option.splits sum.splits)

lemma put_conf:
  assumes "map_inv P m" and "capacity P m \<le> 2 ^ 61" and "\<not> pm_is_nan P k" and "map_exec P (Put k v) m = Some (Inr (r, m'))"
  shows "m_conf m' = m_conf m"
proof -
  obtain pos op n m1 where "insert_key P k (pm_hash P k) m = Some (Inr ((pos, op, seq_at P (pm_hash P k) n), m1))" "m_conf m1 = m_conf m"
    by (rule insert_key_ok [OF assms(1-3)])
  then show ?thesis using assms(4) by (auto simp: subscript_def set_value_at_def npos_def split: if_splits)
qed

text \<open>Reachable states are well-formed, and the calls made explain their contents.\<close>

theorem map_reach_ok:
  assumes r: "map_reach P cf cs m" and cf: "conf_ok (kbits P) cf" and k: "kbits P \<le> 62" and K: "2 \<le> ksize P"
  shows "map_inv P m" and "spec_run (has_duplicates P) cs {#} (entries m)"
proof -
  have "map_inv P m \<and> spec_run (has_duplicates P) cs {#} (entries m)"
    using r
  proof (induction rule: map_reach.induct)
    case (start m)
    obtain m1 where "make_map P cf = Inr m1" "map_inv P m1" "entries m1 = {#}" by (rule make_map_ok [OF cf k])
    then show ?case using start by simp
  next
    case (call cs m c r m')
    have inv: "map_inv P m" and run: "spec_run (has_duplicates P) cs {#} (entries m)" using call.IH by simp_all
    have safe: "scrub_safe" using K by (simp add: scrub_safe_def)
    obtain r1 m1 where e: "map_exec P c m = Some (Inr (r1, m1))" "map_inv P m1"
      "spec_step (has_duplicates P) c (entries m) r1 (entries m1)"
      by (rule map_exec_ok [OF inv call.hyps(2,3) safe]) (use K in simp_all)
    then have "r1 = r" "m1 = m'" using call.hyps(4) by simp_all
    then show ?case using e(2,3) spec_run_snoc [OF run] by simp
  qed
  then show "map_inv P m" and "spec_run (has_duplicates P) cs {#} (entries m)" by simp_all
qed

end

end
