(* ===== verification/MapDemo.thy ===== *)
theory MapDemo
  imports MapSpec
begin

text \<open>
  Concrete maps: a portable map with keys and values of 64 bits, empty and with one entry, and a map
  with buckets of one slot. The properties of the map are instantiated on them.
\<close>

section \<open>A portable map\<close>

definition demo_base :: "(u64, u64, 64 word, 64 word, 64 word, probe_seq) map_params" where
  "demo_base = \<lparr>pm_flags = flag_none, pm_kernel = uint_kernel True, pm_seq = default_seq, pm_bounded = False,
     pm_layout = Monkey_wrench, pm_mixer = Marsaglia, pm_hasher = (\<lambda>k. k), pm_is_nan = (\<lambda>k. k = 99),
     pm_fresh_key = 0, pm_fresh_value = 0, pm_fresh_byte = 0, pm_fresh_state = 0\<rparr>"

abbreviation demo :: "(u64, u64, 64 word, 64 word, 64 word, probe_seq) map_params" where
  "demo \<equiv> portable_map True demo_base"

definition demo_conf :: conf where
  "demo_conf = (default_conf 8 8 8)\<lparr>init_capacity := 16, blob_size := 2, blob_stride := 2\<rparr>"

definition demo_map :: "(u64, u64) map_state" where
  "demo_map = projr (make_map demo demo_conf)"

definition demo_one :: "(u64, u64) map_state" where
  "demo_one = snd (projr (the (map_exec demo (Put 5 7) demo_map)))"

lemma demo_conf_ok: "conf_ok 3 demo_conf"
proof -
  have "conf_ok 3 (default_conf 8 8 8)" using default_conf_wf [of 3 8 8] by simp
  moreover have "min_capacity (default_conf 8 8 8) = 2 ^ 3" by code_simp
  moreover have "\<exists>a b. a \<le> b \<and> b \<le> 62 \<and> 8 = (2 :: int) ^ a \<and> 16 = (2 :: int) ^ b"
    by (rule exI [of _ 3], rule exI [of _ 4]) simp
  ultimately show ?thesis by (simp add: conf_ok_def demo_conf_def is_valid_def)
qed

lemma demo_map_made: "make_map demo demo_conf = Inr demo_map"
  and demo_map_inv: "map_inv demo demo_map" and demo_map_entries: "entries demo_map = {#}"
  and demo_map_capacity: "capacity demo demo_map = 16" and demo_map_conf: "m_conf demo_map = demo_conf"
proof -
  obtain m where m: "make_map demo demo_conf = Inr m" "map_inv demo m" "entries m = {#}" "m_conf m = demo_conf"
    "capacity demo m = init_capacity demo_conf"
    by (rule portable.make_map_ok [of True demo_base demo_conf]) (use demo_conf_ok in simp_all)
  then have "demo_map = m" by (simp add: demo_map_def)
  then show "make_map demo demo_conf = Inr demo_map" "map_inv demo demo_map" "entries demo_map = {#}"
    "capacity demo demo_map = 16" "m_conf demo_map = demo_conf"
    using m by (simp_all add: demo_conf_def)
qed

lemma demo_flags: "\<not> has_duplicates demo" "\<not> pm_is_nan demo 5" "pm_is_nan demo 99"
  by (simp_all add: has_duplicates_def portable_map_def demo_base_def test_flags_def flag_none_def flag_duplicates_def)

lemma demo_base_flags: "\<not> pm_is_nan demo_base 5" "pm_is_nan demo_base 99"
  by (simp_all add: demo_base_def)

lemma demo_not_full: "\<not> is_full demo_map"
  by (rule portable.empty_not_full [OF demo_map_inv demo_map_entries portable.make_map_tombstones [OF demo_map_made]])

lemma demo_one_made: "map_exec demo (Put 5 7) demo_map = Some (Inr (0, demo_one))"
  and demo_one_inv: "map_inv demo demo_one" and demo_one_capacity: "capacity demo demo_one = 16"
  and demo_one_entries: "\<exists>b. entries demo_one = {#(5, 7, b)#}"
proof -
  have cap: "capacity demo demo_map \<le> 2 ^ 61" by (simp add: demo_map_capacity)
  obtain r m where m: "map_exec demo (Put 5 7) demo_map = Some (Inr (r, m))" "map_inv demo m"
    "spec_step (has_duplicates demo) (Put 5 7) (entries demo_map) r (entries m)"
    by (rule portable.put_ok [OF demo_map_inv cap demo_flags(2)])
  have one: "demo_one = m" by (simp only: demo_one_def m(1) option.sel sum.sel snd_conv)
  have "r = 0" using m(1) by (cases "subscript demo 5 demo_map" rule: option.exhaust) (auto simp: map_sum_Inr)
  then show "map_exec demo (Put 5 7) demo_map = Some (Inr (0, demo_one))" using m(1) one by simp
  show "map_inv demo demo_one" using m(2) one by simp
  show "capacity demo demo_one = 16"
    using portable.put_capacity [OF demo_map_inv demo_not_full m(1)] by (simp add: one demo_map_capacity)
  show "\<exists>b. entries demo_one = {#(5, 7, b)#}" using m(3) by (simp add: one demo_map_entries demo_flags(1))
qed

lemma demo_reach: "map_reach demo demo_conf [(Put 5 7, 0)] demo_one"
  using map_reach.call [OF map_reach.start [OF demo_map_made], of "Put 5 7" 0 demo_one]
  by (simp only: demo_map_capacity demo_one_made legal_call.simps demo_flags) simp

end
