(* ===== verification/MapProps.thy ===== *)
theory MapProps
  imports MapDemo
begin

text \<open>
  The properties of the hash map, stated for the map of a build without vector instructions with any
  key type, hash function, layout and flags, exact or fast kernel.
\<close>

section \<open>Reachable states\<close>

text \<open>C2: Every state a program reaches from a map constructed with a valid configuration, by any calls
  of the interface, satisfies the invariant of the map: states match the keys' hashes, every entry can
  be reached by probing, no bucket mixes empty slots and tombstones, the counters are exact.\<close>

theorem map_reach_invariant:
  assumes "map_reach (portable_map fp P) cf cs m" and "conf_ok 3 cf"
  shows "map_inv (portable_map fp P) m"
  using portable.map_reach_ok(1) [OF assms(1)] assms(2) by simp

theorem map_reach_invariant_witness: "map_inv demo demo_one"
  by (rule map_reach_invariant [OF demo_reach demo_conf_ok])

text \<open>C1: The contents of a reachable map and the results its calls returned are those the abstract bag
  of entries gives for the same sequence of calls.\<close>

theorem map_run_refines:
  assumes "map_reach (portable_map fp P) cf cs m" and "conf_ok 3 cf"
  shows "spec_run (has_duplicates (portable_map fp P)) cs {#} (entries m)"
  using portable.map_reach_ok(2) [OF assms(1)] assms(2) by simp

theorem map_run_refines_witness: "spec_run (has_duplicates demo) [(Put 5 7, 0)] {#} (entries demo_one)"
  by (rule map_run_refines [OF demo_reach demo_conf_ok])

text \<open>C5: A single call on a well-formed map, whatever its history, returns, keeps the invariant, and
  relates result and contents as the specification says: an insertion adds one entry exactly when
  it must, an erasure removes one, resizing, shrinking and scrubbing keep the contents.\<close>

theorem map_call_refines:
  assumes "map_inv (portable_map fp P) m" and "capacity (portable_map fp P) m \<le> 2 ^ 61" and "legal_call (portable_map fp P) c"
  shows "\<exists>r m'. map_exec (portable_map fp P) c m = Some (Inr (r, m')) \<and> map_inv (portable_map fp P) m'
    \<and> spec_step (has_duplicates (portable_map fp P)) c (entries m) r (entries m')"
  by (rule portable.map_exec_ok [OF assms]) (auto simp: portable.scrub_safe_def)

theorem map_call_refines_witness:
  "\<exists>r m'. map_exec demo (Erase 5) demo_one = Some (Inr (r, m')) \<and> map_inv demo m'
    \<and> spec_step (has_duplicates demo) (Erase 5) (entries demo_one) r (entries m')"
  by (rule map_call_refines [OF demo_one_inv]) (simp_all add: demo_one_capacity)

section \<open>Lookup\<close>

text \<open>C13: \<open>contains\<close> returns, and says exactly whether an entry with the key is in the map.\<close>

theorem map_contains_correct:
  assumes "map_inv (portable_map fp P) m"
  shows "api_contains (portable_map fp P) k m = Some (k \<in># keys_of (entries m))"
  by (rule portable.api_contains_ok [OF assms])

theorem map_contains_witness: "api_contains demo 5 demo_one = Some True \<and> api_contains demo 6 demo_one = Some False"
  using map_contains_correct [OF demo_one_inv, of 5] map_contains_correct [OF demo_one_inv, of 6] demo_one_entries by auto

text \<open>C18: After \<open>m[k] = v\<close> the position \<open>find\<close> returns for the key passes every check level, and \<open>at\<close>
  reads the key and the value there.\<close>

theorem map_put_find:
  assumes inv: "map_inv (portable_map fp P) m" and cap: "capacity (portable_map fp P) m \<le> 2 ^ 61"
    and nan: "\<not> pm_is_nan P k" and nd: "\<not> has_duplicates (portable_map fp P)"
    and put: "map_exec (portable_map fp P) (Put k v) m = Some (Inr (r, m'))"
  shows "\<exists>p b. api_find (portable_map fp P) k m' = Some p \<and> api_at lvl (portable_map fp P) m' p = Inr (k, v, b)"
proof -
  let ?P = "portable_map fp P"
  have "\<not> pm_is_nan ?P k" using nan by (simp add: portable_map_def)
  then obtain r1 m1 where m1: "map_exec ?P (Put k v) m = Some (Inr (r1, m1))" "map_inv ?P m1"
    "spec_step (has_duplicates ?P) (Put k v) (entries m) r1 (entries m1)"
    by (rule portable.put_ok [OF inv cap])
  from trans [OF put [symmetric] m1(1)] have eq: "m1 = m'" by (simp only: option.inject sum.inject prod.inject)
  have inv': "map_inv ?P m'" using m1(2) unfolding eq .
  obtain b where b: "entries m' = add_mset (k, v, b) (filter_mset (\<lambda>e. fst e \<noteq> k) (entries m))"
    using m1(3) nd unfolding eq by auto
  obtain p where p: "api_find ?P k m' = Some p" "p = npos \<longleftrightarrow> k \<notin># keys_of (entries m')"
    "p \<noteq> npos \<Longrightarrow> 0 \<le> p \<and> nat p \<in> occupied m' \<and> key_at m' (nat p) = k" using portable.api_find_ok [OF inv', of k] by blast
  then have pos: "0 \<le> p" "nat p \<in> occupied m'" "key_at m' (nat p) = k" using b by auto
  have "entry_at m' (nat p) \<in># entries m'" using pos(2) by (simp add: entries_def)
  then have e: "entry_at m' (nat p) = (k, v, b)" using b pos(3) by (auto simp: entry_at_def)
  have "validate lvl ?P m' p = Inr p"
    using validate_ok(1) [OF portable.capacity_states [OF inv'] pos(2), of lvl] pos(1) by simp
  then show ?thesis using p(1) e by (simp add: api_at_def entry_at_def)
qed

theorem map_put_find_witness:
  "\<exists>p b. api_find demo 5 demo_one = Some p \<and> api_at Check_debug demo demo_one p = Inr (5, 7, b)"
  by (rule map_put_find [OF demo_map_inv _ _ demo_flags(1) demo_one_made])
    (simp_all only: demo_map_capacity demo_base_flags, simp_all)

text \<open>Counting a key, which walks the probe sequence, agrees with the contents; without the
  duplicates flag it is at most one.\<close>

theorem map_count_correct:
  assumes "map_inv (portable_map fp P) m"
  shows "count_key (portable_map fp P) k m = Some (int (count (keys_of (entries m)) k))"
  by (rule portable.count_key_ok [OF assms])

theorem map_count_witness: "count_key demo 5 demo_one = Some 1"
  using map_count_correct [OF demo_one_inv, of 5] demo_one_entries by auto

section \<open>Construction\<close>

text \<open>C25: Whatever chain of setters a program applies to the default configuration, if none throws then
  \<open>auto_adjust\<close> makes it a configuration the constructor accepts, which gives an empty, well-formed map
  of the configured capacity.\<close>

theorem conf_chain_makes_map:
  assumes "1 \<le> kb" and "0 \<le> vb" and "list_all sane_call fs" and "conf_chain 8 fs (default_conf 8 kb vb) = Inr cf"
  shows "\<exists>m. make_map (portable_map fp P) (auto_adjust 8 cf) = Inr m \<and> map_inv (portable_map fp P) m \<and> entries m = {#}
    \<and> capacity (portable_map fp P) m = init_capacity (auto_adjust 8 cf)"
proof -
  have "conf_wf (default_conf 8 kb vb)" using default_conf_wf [of 3 kb vb] assms(1,2) by (simp add: conf_ok_wf)
  then have "conf_wf cf" using conf_chain_wf [of _ fs 3 cf] assms(3,4) by simp
  then have "conf_ok 3 (auto_adjust 8 cf)" using auto_adjust_ok [of cf 3] by simp
  then obtain m where "make_map (portable_map fp P) (auto_adjust 8 cf) = Inr m" "map_inv (portable_map fp P) m"
    "entries m = {#}" "capacity (portable_map fp P) m = init_capacity (auto_adjust 8 cf)"
    by (rule portable.make_map_ok [of fp P "auto_adjust 8 cf", unfolded map_size_bits]) simp_all
  then show ?thesis by blast
qed

theorem conf_chain_makes_map_witness:
  "\<exists>m. make_map demo (auto_adjust 8 (set_capacity2 100 9 (default_conf 8 8 8))) = Inr m \<and> map_inv demo m \<and> entries m = {#}
    \<and> capacity demo m = init_capacity (auto_adjust 8 (set_capacity2 100 9 (default_conf 8 8 8)))"
  by (rule conf_chain_makes_map [of 8 8 "[Set_capacity2 100 9]"]) simp_all

text \<open>A configuration whose minimum capacity cannot hold the growth bias is refused by the constructor.\<close>

theorem make_map_refuses:
  assumes "min_capacity cf < min_capacity_limit 8 (grow_bias cf)"
  shows "make_map (portable_map fp P) cf = Inl Invalid_argument"
  using assms by (intro portable.make_map_invalid) (simp add: is_valid_def)

theorem make_map_refuses_witness: "make_map demo (demo_conf\<lparr>min_capacity := 4\<rparr>) = Inl Invalid_argument"
proof (rule make_map_refuses)
  have "min_capacity_limit 8 (grow_bias (default_conf 8 8 8)) = 8" by code_simp
  then show "min_capacity (demo_conf\<lparr>min_capacity := 4\<rparr>) < min_capacity_limit 8 (grow_bias (demo_conf\<lparr>min_capacity := 4\<rparr>))"
    by (simp add: demo_conf_def)
qed

section \<open>Size and capacity\<close>

text \<open>The size the map reports is the number of its entries and stays below the capacity, which is a
  power of two holding at least one whole bucket; an empty slot always remains, so probing ends.\<close>

theorem map_size_bounds:
  assumes "map_inv (portable_map fp P) m"
  shows "map_size (portable_map fp P) m = int (size (entries m)) \<and> map_size (portable_map fp P) m < capacity (portable_map fp P) m
    \<and> 1 \<le> m_num_empty m \<and> (\<exists>c. 3 \<le> c \<and> c \<le> 62 \<and> capacity (portable_map fp P) m = 2 ^ c)"
proof (intro conjI)
  have "1 \<le> m_num_empty m" "0 \<le> m_num_tombstone m" using assms by (simp_all add: map_inv_def counters_ok_def)
  then show "map_size (portable_map fp P) m < capacity (portable_map fp P) m" "1 \<le> m_num_empty m"
    by (simp_all add: map_size_def num_not_hash_slots_def)
  show "map_size (portable_map fp P) m = int (size (entries m))" by (rule portable.map_size_ok [OF assms])
  obtain c where "shape_ok (portable_map fp P) c m" "capacity (portable_map fp P) m = 2 ^ c"
    by (rule portable.map_invD [OF assms])
  then show "\<exists>c. 3 \<le> c \<and> c \<le> 62 \<and> capacity (portable_map fp P) m = 2 ^ c"
    using portable.shape_buckets(4,5) [of fp P c m] by auto
qed

theorem map_size_bounds_witness:
  "map_size demo demo_one = int (size (entries demo_one)) \<and> map_size demo demo_one < capacity demo demo_one
    \<and> 1 \<le> m_num_empty demo_one \<and> (\<exists>c. 3 \<le> c \<and> c \<le> 62 \<and> capacity demo demo_one = 2 ^ c)"
  by (rule map_size_bounds [OF demo_one_inv])

text \<open>Reserving room, growing and resizing to a bigger capacity keep every entry and give at least the
  capacity asked for; reserving less than the capacity changes nothing.\<close>

theorem map_reserve_correct:
  assumes "map_inv (portable_map fp P) m" and "capacity (portable_map fp P) m \<le> 2 ^ 61" and "n \<le> 2 ^ 62"
  shows "\<exists>m'. reserve (portable_map fp P) n m = Some (Inr (capacity (portable_map fp P) m', m'))
    \<and> map_inv (portable_map fp P) m' \<and> entries m' = entries m \<and> n \<le> capacity (portable_map fp P) m'
    \<and> (n \<le> capacity (portable_map fp P) m \<longrightarrow> m' = m)"
  using portable.reserve_ok [OF assms] by blast

theorem map_reserve_witness:
  "\<exists>m'. reserve demo 1000 demo_one = Some (Inr (capacity demo m', m')) \<and> map_inv demo m' \<and> entries m' = entries demo_one
    \<and> 1000 \<le> capacity demo m' \<and> (1000 \<le> capacity demo demo_one \<longrightarrow> m' = demo_one)"
  by (rule map_reserve_correct [OF demo_one_inv]) (simp_all add: demo_one_capacity)

section \<open>Whole maps\<close>

text \<open>C35: Without duplicate keys \<open>operator==\<close> decides whether two maps have the same entries, whatever
  the order of their slots, their capacities and their erased entries.\<close>

theorem map_equal_correct:
  assumes "map_inv (portable_map fp P) lhs" and "map_inv (portable_map fp P) rhs" and "\<not> has_duplicates (portable_map fp P)"
  shows "map_equal (portable_map fp P) lhs rhs
    = Some (blob_size (m_conf lhs) = blob_size (m_conf rhs) \<and> entries lhs = entries rhs)"
  by (rule portable.map_equal_ok [OF assms])

theorem map_equal_witness: "map_equal demo demo_map demo_one = Some False"
  using map_equal_correct [OF demo_map_inv demo_one_inv demo_flags(1)] demo_map_entries demo_one_entries by auto

text \<open>Copying a map over another, which may reallocate, makes them equal in every field.\<close>

theorem map_copy_correct:
  assumes "map_inv (portable_map fp P) other" and "map_inv (portable_map fp P) m"
  shows "copy_assign (portable_map fp P) other m = other"
  by (rule portable.copy_assign_ok [OF assms])

theorem map_copy_witness: "copy_assign demo demo_one demo_map = demo_one"
  by (rule map_copy_correct [OF demo_one_inv demo_map_inv])

section \<open>Iteration\<close>

text \<open>C40: Starting at \<open>begin()\<close>, incrementing visits the occupied slots in increasing order, each once,
  and then reaches \<open>end()\<close>.\<close>

theorem map_iteration_correct:
  assumes "map_inv (portable_map fp P) m" and "i \<le> size (entries m)"
  shows "(iter_inc (portable_map fp P) m ^^ i) (iter_begin (portable_map fp P) m)
    = (if i < size (entries m) then int (sorted_list_of_set (occupied m) ! i) else iter_end (portable_map fp P) m)"
  using portable.iterate_ok [OF assms(1) refl, of i] assms(2) by (simp add: size_entries)

theorem map_iteration_witness: "iter_inc demo demo_one (iter_begin demo demo_one) = iter_end demo demo_one"
proof -
  have "size (entries demo_one) = 1" using demo_one_entries by auto
  then show ?thesis using map_iteration_correct [OF demo_one_inv, of 1] by simp
qed

text \<open>Decrementing an incremented iterator gives it back.\<close>

theorem map_iterate_back:
  assumes "map_inv (portable_map fp P) m" and "pos \<in> occupied m"
  shows "iter_dec (portable_map fp P) m (iter_inc (portable_map fp P) m (int pos)) = int pos"
  by (rule portable.iterate_back_ok [OF assms])

theorem map_iterate_back_witness: "\<exists>pos. iter_dec demo demo_one (iter_inc demo demo_one (int pos)) = int pos"
proof -
  have "size (entries demo_one) = 1" using demo_one_entries by auto
  then have "occupied demo_one \<noteq> {}" by (auto simp: entries_def)
  then show ?thesis using map_iterate_back [OF demo_one_inv] by blast
qed

section \<open>Checked access\<close>

text \<open>From check level release on, access through a position that is out of range or free throws
  and hands out nothing.\<close>

theorem checked_access_throws:
  assumes "map_inv (portable_map fp P) m" and "Check_release \<le> lvl" and "\<not> (0 \<le> pos \<and> nat pos \<in> occupied m)"
  shows "api_at lvl (portable_map fp P) m pos = Inl Logic_error \<and> api_blob_at lvl (portable_map fp P) m pos = Inl Logic_error
    \<and> api_set_blob_at lvl (portable_map fp P) pos src m = Inl Logic_error"
  using validate_bad [OF portable.capacity_states [OF assms(1)] assms(2,3)]
  by (simp add: api_at_def api_blob_at_def api_set_blob_at_def)

theorem checked_access_witness:
  "api_at Check_release demo demo_map 3 = Inl Logic_error \<and> api_blob_at Check_release demo demo_map 3 = Inl Logic_error
    \<and> api_set_blob_at Check_release demo 3 [1, 2] demo_map = Inl Logic_error"
proof (rule checked_access_throws [OF demo_map_inv])
  show "\<not> (0 \<le> (3 :: int) \<and> nat 3 \<in> occupied demo_map)"
    using demo_map_entries by (auto simp: entries_def mset_set_empty_iff)
qed simp

text \<open>A blob written at an occupied position is read back, and only that entry changes.\<close>

theorem blob_round_trip:
  assumes inv: "map_inv (portable_map fp P) m" and pos: "pos \<in> occupied m" and src: "nat (blob_size (m_conf m)) = length src"
  shows "\<exists>m'. api_set_blob_at lvl (portable_map fp P) (int pos) src m = Inr m' \<and> map_inv (portable_map fp P) m'
    \<and> api_blob_at lvl (portable_map fp P) m' (int pos) = Inr src
    \<and> (\<forall>q \<in> occupied m - {pos}. entry_at m' q = entry_at m q)"
proof (intro exI conjI)
  let ?P = "portable_map fp P" and ?m' = "set_blob_at pos src m"
  note ok = portable.set_blob_at_ok [OF inv pos, of src]
  have l: "nat (blob_size (m_conf m)) \<le> length src" using src by simp
  show inv': "map_inv ?P ?m'" by (rule ok(1) [OF l])
  have occ: "occupied ?m' = occupied m" by (rule ok(2) [OF l])
  show "api_set_blob_at lvl ?P (int pos) src m = Inr ?m'"
    using validate_ok(1) [OF portable.capacity_states [OF inv] pos] by (simp add: api_set_blob_at_def)
  have "blob_at ?m' pos = src" using ok(3) [OF l pos] src by (simp add: entry_at_def)
  then show "api_blob_at lvl ?P ?m' (int pos) = Inr src"
    using validate_ok(1) [OF portable.capacity_states [OF inv'], of pos lvl] pos by (simp add: api_blob_at_def occ)
  show "\<forall>q \<in> occupied m - {pos}. entry_at ?m' q = entry_at m q" using ok(3) [OF l] by simp
qed

theorem blob_round_trip_witness:
  "\<exists>pos m'. api_blob_at Check_debug demo m' (int pos) = Inr (replicate (nat (blob_size (m_conf demo_one))) 1)"
proof -
  have "size (entries demo_one) = 1" using demo_one_entries by auto
  then have "occupied demo_one \<noteq> {}" by (auto simp: entries_def)
  then obtain pos where pos: "pos \<in> occupied demo_one" by blast
  show ?thesis
    using blob_round_trip [OF demo_one_inv pos, of "replicate (nat (blob_size (m_conf demo_one))) 1" Check_debug] by auto
qed

text \<open>Inserting a key that differs from itself, or using a prefetch hint with another key than its own,
  throws.\<close>

theorem bad_key_throws:
  assumes "pm_is_nan P k" and "pm_hash P k1 \<noteq> hint" and "Check_release \<le> lvl"
  shows "api_insert P k m = Some (Inl Runtime_error) \<and> subscript P k m = Some (Inl Runtime_error)
    \<and> api_insert_hint lvl P k1 hint m = Some (Inl Logic_error) \<and> api_find_hint lvl P k1 hint m = Some (Inl Logic_error)"
  using assms by (simp add: api_insert_def subscript_def insert_key_def api_insert_hint_def api_find_hint_def hint_to_hash_def)

theorem bad_key_throws_witness:
  "api_insert demo 99 demo_one = Some (Inl Runtime_error) \<and> subscript demo 99 demo_one = Some (Inl Runtime_error)
    \<and> api_insert_hint Check_release demo 5 (pm_hash demo 5 + 1) demo_one = Some (Inl Logic_error)
    \<and> api_find_hint Check_release demo 5 (pm_hash demo 5 + 1) demo_one = Some (Inl Logic_error)"
  by (rule bad_key_throws) (simp_all only: demo_flags, simp_all)

section \<open>Departures\<close>

text \<open>C38: \<open>shrink\<close> on any well-formed map either leaves the capacity or cuts it to the least one that
  \<open>resize_\<close> admits for the entries: the shrink bias only decides whether to shrink at all. The loop that halves
  the candidate capacity passes the unchanged counters with it, so that it never stops where the bias asks
  it to; the entries are kept.\<close>

theorem shrink_ignores_bias:
  assumes "map_inv (portable_map fp P) m" and "capacity (portable_map fp P) m \<le> 2 ^ 61"
  shows "\<exists>m'. shrink (portable_map fp P) m = Some (Inr (capacity (portable_map fp P) m', m')) \<and> map_inv (portable_map fp P) m'
    \<and> entries m' = entries m
    \<and> capacity (portable_map fp P) m' = (
        if min_capacity (m_conf m) < capacity (portable_map fp P) m
          \<and> int (size (entries m)) * shrink_bias (m_conf m) \<le> capacity (portable_map fp P) m
        then max (max (int_bit_ceil (int (size (entries m)))) (min_capacity (m_conf m)))
          (int_bit_ceil (int (size (entries m)) + grow_threshold (m_conf m) (int_bit_ceil (int (size (entries m))))))
        else capacity (portable_map fp P) m)"
  by (rule portable.shrink_exact [OF assms]) blast

text \<open>
  A map of 32 slots with one entry and a shrink bias of 32: with 16 slots it would be too full to shrink, the
  bias says, but a call of \<open>shrink\<close> leaves 8.
\<close>

definition bias_conf :: conf where
  "bias_conf = demo_conf\<lparr>init_capacity := 32, shrink_bias := 32\<rparr>"

lemma bias_conf_ok: "conf_ok 3 bias_conf"
proof -
  have "\<exists>a b. a \<le> b \<and> b \<le> 62 \<and> min_capacity demo_conf = (2 :: int) ^ a \<and> 32 = (2 :: int) ^ b"
  proof (intro exI conjI)
    show "min_capacity demo_conf = 2 ^ 3" by code_simp
    show "(32 :: int) = 2 ^ 5" by simp
  qed simp_all
  then show ?thesis using demo_conf_ok
    by (simp add: conf_ok_def bias_conf_def is_valid_def min_shrink_bias_def max_shrink_bias_def cache_line_size_def)
qed

lemma bias_map_reached:
  obtains m where "map_reach demo bias_conf [(Put 5 7, 0)] m" and "map_inv demo m" and "capacity demo m = 32"
    and "m_conf m = bias_conf" and "size (entries m) = 1"
proof -
  obtain m0 where m0: "make_map demo bias_conf = Inr m0" "map_inv demo m0" "entries m0 = {#}" "m_conf m0 = bias_conf"
    "capacity demo m0 = init_capacity bias_conf"
    by (rule portable.make_map_ok [of True demo_base bias_conf]) (use bias_conf_ok in simp_all)
  have cap: "capacity demo m0 \<le> 2 ^ 61" by (simp add: m0(5) bias_conf_def)
  obtain r m where m: "map_exec demo (Put 5 7) m0 = Some (Inr (r, m))" "map_inv demo m"
    "spec_step (has_duplicates demo) (Put 5 7) (entries m0) r (entries m)"
    by (rule portable.put_ok [OF m0(2) cap demo_flags(2)])
  have r: "r = 0" using m(1) by (cases "subscript demo 5 m0" rule: option.exhaust) (auto simp: map_sum_Inr)
  have nf: "\<not> is_full m0" by (rule portable.empty_not_full [OF m0(2,3) portable.make_map_tombstones [OF m0(1)]])
  have "capacity demo m = 32" using portable.put_capacity [OF m0(2) nf m(1)] m0(5) by (simp add: bias_conf_def)
  moreover have "m_conf m = bias_conf" using portable.put_conf [OF m0(2) cap demo_flags(2) m(1)] m0(4) by simp
  moreover have "size (entries m) = 1" using m(3) m0(3) by (auto simp: demo_flags(1))
  moreover have "map_reach demo bias_conf ([] @ [(Put 5 7, 0)]) m"
    by (rule map_reach.call [OF map_reach.start [OF m0(1)] cap _ m(1) [unfolded r]]) (simp add: demo_flags)
  ultimately show thesis using that m(2) by simp
qed

theorem shrink_ignores_bias_witness:
  "\<exists>m m'. map_reach demo bias_conf [(Put 5 7, 0)] m \<and> capacity demo m = 32 \<and> size (entries m) = 1
    \<and> \<not> should_shrink bias_conf 16 (16 - 1) 0
    \<and> shrink demo m = Some (Inr (8, m')) \<and> capacity demo m' = 8 \<and> entries m' = entries m"
proof (rule bias_map_reached)
  fix m assume m: "map_reach demo bias_conf [(Put 5 7, 0)] m" "map_inv demo m" "capacity demo m = 32"
    "m_conf m = bias_conf" "size (entries m) = 1"
  have c: "min_capacity bias_conf = 8" "shrink_bias bias_conf = 32" by code_simp+
  have v: "int_bit_ceil 1 = 1" "int_bit_ceil (1 + grow_threshold bias_conf 1) = 2" by code_simp+
  have "capacity demo m \<le> 2 ^ 61" by (simp add: m(3))
  then obtain m' where "shrink demo m = Some (Inr (capacity demo m', m'))" "entries m' = entries m" "capacity demo m' = 8"
    using shrink_ignores_bias [OF m(2)] by (auto simp: m(3-5) c v)
  moreover have "\<not> should_shrink bias_conf 16 (16 - 1) 0" by (simp add: should_shrink_def c)
  ultimately show ?thesis using m(1,3,5) by (intro exI [of _ m] exI [of _ m']) simp
qed

end
