(* ===== verification/MapSingle.thy ===== *)
theory MapSingle
  imports MapDemo
begin

text \<open>
  Scrubbing a map whose buckets hold a single slot. The last pass may move an entry and leave a
  tombstone that other entries were probed past; as the tombstone is its whole bucket, the sweep
  over dead buckets turns it into an empty slot, and a lookup now stops there.
\<close>

definition lone_base :: "(u64, unit, state_t list, lru_t list, 32 word, probe_seq) map_params" where
  "lone_base = \<lparr>pm_flags = flag_none, pm_kernel = array_kernel 1, pm_seq = default_seq, pm_bounded = False,
     pm_layout = Monkey_wrench, pm_mixer = Mixer_none, pm_hasher = (\<lambda>k. k), pm_is_nan = (\<lambda>_. False),
     pm_fresh_key = 0, pm_fresh_value = (), pm_fresh_byte = 0, pm_fresh_state = 0\<rparr>"

definition lone :: "(u64, unit, state_t list, lru_t list, 32 word, probe_seq) map_params" where
  "lone = single_map lone_base"

definition lone_conf :: conf where
  "lone_conf = \<lparr>min_capacity = 4, init_capacity = 4, blob_size = 0, blob_stride = 0, scrub_bias = 4, grow_bias = 4,
     shrink_bias = 4\<rparr>"

definition lone_map :: "u64 list \<Rightarrow> state_t list \<Rightarrow> int \<Rightarrow> int \<Rightarrow> (u64, unit) map_state" where
  "lone_map keys states ne nt = \<lparr>m_conf = lone_conf, m_bucket_mask = make_aligned_mask 4 1, m_values = replicate 4 (),
     m_blobs = [], m_keys = keys, m_grow_threshold = 1, m_states = states, m_num_empty = ne, m_num_tombstone = nt\<rparr>"

lemma lone_conf_ok: "conf_ok 0 lone_conf"
proof -
  have "is_valid 1 lone_conf" by code_simp
  moreover have "\<exists>a b. a \<le> b \<and> b \<le> 62 \<and> 4 = (2 :: int) ^ a \<and> 4 = (2 :: int) ^ b"
    by (rule exI [of _ 2], rule exI [of _ 2]) simp
  ultimately show ?thesis
    by (simp add: conf_ok_def lone_conf_def min_grow_bias_def max_grow_bias_def min_scrub_bias_def max_scrub_bias_def
        min_shrink_bias_def max_shrink_bias_def cache_line_size_def)
qed

lemma lone_made: "make_map lone lone_conf = Inr (lone_map [0, 0, 0, 0] [128, 128, 128, 128] 4 0)"
  by code_simp

lemma lone_insert:
  assumes p: "insert_probe lone k (pm_hash lone k) 4 (lone_map keys states ne nt) = Some (seq, Inr (Inr (pos, True)))"
    and ne: "2 \<le> ne"
  shows "map_exec lone (Insert k) (lone_map keys states ne nt)
    = Some (Inr (1, lone_map (keys[pos := k]) (states[pos := pm_state lone (pm_hash lone k)]) (ne - 1) nt))"
proof -
  let ?m = "lone_map keys states ne nt"
  have full: "\<not> is_full ?m" using ne by (simp add: is_full_def should_grow_precalc_def lone_map_def)
  have cap: "capacity lone ?m = 4"
    using aligned_mask_to_capacity_inverse [of 0 2] by (simp add: capacity_def lone_map_def lone_def)
  have nan: "\<not> pm_is_nan lone k" by (simp add: lone_def single_map_def lone_base_def)
  have "insert_loop lone k (pm_hash lone k) 4 ?m = Some (Inr (Inr (pos, True), seq, ?m))"
    by (subst insert_loop.simps) (simp add: p)
  then have "insert_key lone k (pm_hash lone k) ?m
      = Some (Inr ((pos, Op_insert, seq), place_key k (pm_state lone (pm_hash lone k)) pos True ?m))"
    by (simp add: insert_key_def nan full cap)
  then show ?thesis by (simp add: api_insert_def) (simp add: place_key_def lone_map_def)
qed

lemma lone_states:
  "pm_state lone (pm_hash lone 2) = 0" "pm_state lone (pm_hash lone 6) = 0" "pm_state lone (pm_hash lone 7) = 0"
  by code_simp+

lemma lone_probe_2: "map_option snd (insert_probe lone 2 (pm_hash lone 2) 4 (lone_map [0, 0, 0, 0] [128, 128, 128, 128] 4 0))
    = Some (Inr (Inr (2, True)))" by code_simp

lemma lone_probe_6: "map_option snd (insert_probe lone 6 (pm_hash lone 6) 4 (lone_map [0, 0, 2, 0] [128, 128, 0, 128] 3 0))
    = Some (Inr (Inr (3, True)))" by code_simp

lemma lone_probe_7: "map_option snd (insert_probe lone 7 (pm_hash lone 7) 4 (lone_map [0, 0, 2, 6] [128, 128, 0, 0] 2 0))
    = Some (Inr (Inr (0, True)))" by code_simp

lemma lone_erase: "map_exec lone (Erase 2) (lone_map [7, 0, 2, 6] [0, 128, 0, 0] 1 0)
    = Some (Inr (1, lone_map [7, 0, 2, 6] [0, 128, 129, 0] 1 1))" by code_simp

lemma lone_scrub_pass:
  "scrub_pass lone 4 \<lparr>sc_map = lone_map [7, 0, 2, 6] [0, 128, 129, 0] 1 1, sc_num_empty = 1, sc_num_tombstone = 1,
      sc_num_moves = 0, sc_psl_bits = 0\<rparr>
    = Some \<lparr>sc_map = lone_map [7, 0, 6, 6] [0, 128, 0, 129] 1 1, sc_num_empty = 1, sc_num_tombstone = 1,
      sc_num_moves = 1, sc_psl_bits = 1\<rparr>" by code_simp

lemma lone_scrub_finish:
  "scrub_finish lone 4 \<lparr>sc_map = lone_map [7, 0, 6, 6] [0, 128, 0, 129] 1 1, sc_num_empty = 1, sc_num_tombstone = 1,
      sc_num_moves = 1, sc_psl_bits = 1\<rparr> = lone_map [7, 0, 6, 6] [0, 128, 0, 128] 2 0" by code_simp

lemma lone_contains:
  "api_contains lone 7 (lone_map [7, 0, 2, 6] [0, 128, 129, 0] 1 1) = Some True"
  "api_contains lone 7 (lone_map [7, 0, 6, 6] [0, 128, 0, 128] 2 0) = Some False"
  by code_simp+

lemma lone_capacity [simp]: "capacity lone (lone_map keys states ne nt) = 4"
  using aligned_mask_to_capacity_inverse [of 0 2] by (simp add: capacity_def lone_map_def lone_def)

lemma lone_scrub:
  "map_exec lone Scrub (lone_map [7, 0, 2, 6] [0, 128, 129, 0] 1 1) = Some (Inr (1, lone_map [7, 0, 6, 6] [0, 128, 0, 128] 2 0))"
proof -
  let ?m = "lone_map [7, 0, 2, 6] [0, 128, 129, 0] 1 1"
  have n: "m_num_empty ?m = 1" "m_num_tombstone ?m = 1" by (simp_all add: lone_map_def)
  have "scrub lone ?m = Some (1, lone_map [7, 0, 6, 6] [0, 128, 0, 128] 2 0)"
    unfolding scrub_def n by (subst scrub_phases.simps) (simp add: n lone_scrub_pass lone_scrub_finish)
  then show ?thesis by simp
qed

lemma lone_updates:
  "[0, 0, 0, 0 :: u64][2 := 2] = [0, 0, 2, 0]" "[128, 128, 128, 128 :: state_t][2 := 0] = [128, 128, 0, 128]"
  "[0, 0, 2, 0 :: u64][3 := 6] = [0, 0, 2, 6]" "[128, 128, 0, 128 :: state_t][3 := 0] = [128, 128, 0, 0]"
  "[0, 0, 2, 6 :: u64][0 := 7] = [7, 0, 2, 6]" "[128, 128, 0, 0 :: state_t][0 := 0] = [0, 128, 0, 0]"
  by code_simp+

lemma lone_reach:
  "map_reach lone lone_conf [(Insert 2, 1), (Insert 6, 1), (Insert 7, 1), (Erase 2, 1)] (lone_map [7, 0, 2, 6] [0, 128, 129, 0] 1 1)"
proof -
  obtain s2 where "insert_probe lone 2 (pm_hash lone 2) 4 (lone_map [0, 0, 0, 0] [128, 128, 128, 128] 4 0)
    = Some (s2, Inr (Inr (2, True)))" using lone_probe_2 by auto
  then have i2: "map_exec lone (Insert 2) (lone_map [0, 0, 0, 0] [128, 128, 128, 128] 4 0)
      = Some (Inr (1, lone_map [0, 0, 2, 0] [128, 128, 0, 128] 3 0))" by (subst lone_insert) (simp_all only: lone_states lone_updates, simp_all)
  obtain s6 where "insert_probe lone 6 (pm_hash lone 6) 4 (lone_map [0, 0, 2, 0] [128, 128, 0, 128] 3 0)
    = Some (s6, Inr (Inr (3, True)))" using lone_probe_6 by auto
  then have i6: "map_exec lone (Insert 6) (lone_map [0, 0, 2, 0] [128, 128, 0, 128] 3 0)
      = Some (Inr (1, lone_map [0, 0, 2, 6] [128, 128, 0, 0] 2 0))" by (subst lone_insert) (simp_all only: lone_states lone_updates, simp_all)
  obtain s7 where "insert_probe lone 7 (pm_hash lone 7) 4 (lone_map [0, 0, 2, 6] [128, 128, 0, 0] 2 0)
    = Some (s7, Inr (Inr (0, True)))" using lone_probe_7 by auto
  then have i7: "map_exec lone (Insert 7) (lone_map [0, 0, 2, 6] [128, 128, 0, 0] 2 0)
      = Some (Inr (1, lone_map [7, 0, 2, 6] [0, 128, 0, 0] 1 0))" by (subst lone_insert) (simp_all only: lone_states lone_updates, simp_all)
  have nan: "\<not> pm_is_nan lone k" for k by (simp add: lone_def single_map_def lone_base_def)
  note r0 = map_reach.start [OF lone_made]
  note r1 = map_reach.call [OF r0 _ _ i2, simplified, OF nan]
  note r2 = map_reach.call [OF r1 _ _ i6, simplified, OF nan]
  note r3 = map_reach.call [OF r2 _ _ i7, simplified, OF nan]
  show ?thesis using map_reach.call [OF r3 _ _ lone_erase] by simp
qed

text \<open>C36: With buckets of one slot, scrubbing can lose an entry: from an empty map, three insertions and an
  erasure reach a state that still contains the key 7, and after the scrub the map no longer finds it.\<close>

theorem scrub_single_loses_key:
  "\<exists>cs m m'. map_reach lone lone_conf cs m \<and> conf_ok 0 lone_conf \<and> api_contains lone 7 m = Some True
    \<and> map_exec lone Scrub m = Some (Inr (1, m')) \<and> api_contains lone 7 m' = Some False"
  using lone_reach lone_conf_ok lone_contains lone_scrub by blast

end
