(* ===== verification/Cache.thy ===== *)
theory Cache
  imports MapOps
begin

text \<open>
  The set-associative cache of cache.hpp. It shares keys, values, blobs and the kernels with the hash
  map, but a key lives in one bucket only, which its hash selects; when that bucket is full an
  insertion replaces the entry with the least LRU stamp. States and stamps interleave in one array
  of bytes: the states of the bucket at \<open>off\<close> start at \<open>2 * off\<close>, its stamps \<open>kernel_size\<close> bytes later. An
  operation that looks at an entry updates its stamp, also where the C++ function is \<open>const\<close>, so it
  returns the cache. The probe sequence only supplies the first bucket.
\<close>

record ('k, 'v) cache_state =
  c_conf :: conf
  c_bucket_mask :: bitmask_t
  c_values :: "'v list"
  c_blobs :: "u8 list"
  c_keys :: "'k list"
  c_states_and_lrus :: "u8 list"
  c_num_empty :: int

section \<open>Access\<close>

definition pos_to_pos2 :: "nat \<Rightarrow> nat \<Rightarrow> nat" where
  "pos_to_pos2 sz pos = pos + unat (align_pos (NOT (make_size_mask (int sz))) (word_of_nat pos))"

definition cache_capacity :: "('k, 'v, 'r, 'l, 'm, 'q) map_params \<Rightarrow> ('k, 'v) cache_state \<Rightarrow> int" where
  "cache_capacity P c = aligned_mask_to_capacity (c_bucket_mask c) (int (ksize P))"

definition cache_load :: "('k, 'v, 'r, 'l, 'm, 'q) map_params \<Rightarrow> ('k, 'v) cache_state \<Rightarrow> nat \<Rightarrow> 'r" where
  "cache_load P c off = kn_load (pm_kernel P) (take (ksize P) (drop (off * 2) (c_states_and_lrus c)))"

definition cache_load_lru :: "('k, 'v, 'r, 'l, 'm, 'q) map_params \<Rightarrow> ('k, 'v) cache_state \<Rightarrow> nat \<Rightarrow> 'l" where
  "cache_load_lru P c off = kn_load_lru (pm_kernel P) (take (ksize P) (drop (off * 2 + ksize P) (c_states_and_lrus c)))"

definition cache_state_at :: "('k, 'v, 'r, 'l, 'm, 'q) map_params \<Rightarrow> ('k, 'v) cache_state \<Rightarrow> nat \<Rightarrow> state_t" where
  "cache_state_at P c pos = c_states_and_lrus c ! pos_to_pos2 (ksize P) pos"

definition cache_lru_at :: "('k, 'v, 'r, 'l, 'm, 'q) map_params \<Rightarrow> ('k, 'v) cache_state \<Rightarrow> nat \<Rightarrow> lru_t" where
  "cache_lru_at P c pos = c_states_and_lrus c ! (ksize P + pos_to_pos2 (ksize P) pos)"

definition cache_size :: "('k, 'v, 'r, 'l, 'm, 'q) map_params \<Rightarrow> ('k, 'v) cache_state \<Rightarrow> int" where
  "cache_size P c = cache_capacity P c - c_num_empty c"

definition cache_is_full :: "('k, 'v, 'r, 'l, 'm, 'q) map_params \<Rightarrow> ('k, 'v) cache_state \<Rightarrow> bool" where
  "cache_is_full P c \<longleftrightarrow> cache_size P c \<ge> cache_capacity P c"

text \<open>The sequence an operation starts with and the bucket it looks at.\<close>

definition cache_seq :: "('k, 'v, 'r, 'l, 'm, 'q) map_params \<Rightarrow> hash_t \<Rightarrow> probe_seq" where
  "cache_seq P hash = pq_init (linear_seq 0 (int (ksize P))) (hash_to_pos (pm_layout P) (kbits P) hash)"

definition cache_off :: "('k, 'v, 'r, 'l, 'm, 'q) map_params \<Rightarrow> bitmask_t \<Rightarrow> hash_t \<Rightarrow> nat" where
  "cache_off P bm hash = unat (align_pos bm (pq_next (linear_seq 0 (int (ksize P))) (cache_seq P hash)))"

text \<open>The loop over a mask up to the first slot with a property: what remains of the mask then.\<close>

fun mask_find :: "'m mask_ops \<Rightarrow> nat \<Rightarrow> (nat \<Rightarrow> bool) \<Rightarrow> 'm \<Rightarrow> 'm option" where
  "mask_find M 0 f m = None"
| "mask_find M (Suc n) f m = (
     if mk_has_next M m then if f (mk_next M m) then Some m else mask_find M n f (mk_step M m) else None)"

definition cache_scan :: "('k, 'v, 'r, 'l, 'm, 'q) map_params \<Rightarrow> (nat \<Rightarrow> bool) \<Rightarrow> nat \<Rightarrow> 'm \<Rightarrow> 'm option" where
  "cache_scan P f off m = mask_find (kn_mask_ops (pm_kernel P)) (ksize P) (\<lambda>i. f (off + i)) m"

text \<open>\<open>load_lru\<close>, \<open>update_lru\<close>, \<open>store_lru\<close> of a bucket, for the first slot of a mask.\<close>

definition cache_touch :: "('k, 'v, 'r, 'l, 'm, 'q) map_params \<Rightarrow> nat \<Rightarrow> 'm \<Rightarrow> ('k, 'v) cache_state \<Rightarrow> ('k, 'v) cache_state" where
  "cache_touch P off m c = c\<lparr>c_states_and_lrus := memcpy (c_states_and_lrus c) (off * 2 + ksize P)
     (kn_store_lru (pm_kernel P) (kn_update_lru (pm_kernel P) (cache_load_lru P c off) m))\<rparr>"

definition cache_hit :: "('k, 'v, 'r, 'l, 'm, 'q) map_params \<Rightarrow> nat \<Rightarrow> 'm option \<Rightarrow> ('k, 'v) cache_state
    \<Rightarrow> nat option \<times> ('k, 'v) cache_state" where
  "cache_hit P off r c = (case r of
     None \<Rightarrow> (None, c)
   | Some m \<Rightarrow> (Some (off + mk_next (kn_mask_ops (pm_kernel P)) m), cache_touch P off m c))"

section \<open>Construction\<close>

definition cache_alloc :: "('k, 'v, 'r, 'l, 'm, 'q) map_params \<Rightarrow> int \<Rightarrow> ('k, 'v) cache_state \<Rightarrow> ('k, 'v) cache_state" where
  "cache_alloc P end1 c = c\<lparr>
     c_bucket_mask := make_aligned_mask end1 (int (ksize P)),
     c_values := replicate (nat end1) (pm_fresh_value P),
     c_blobs := replicate (nat (end1 * blob_stride (c_conf c))) (pm_fresh_byte P),
     c_keys := replicate (nat end1) (pm_fresh_key P),
     c_states_and_lrus := replicate (nat (end1 * 2)) (pm_fresh_state P)\<rparr>"

definition cache_reset :: "('k, 'v, 'r, 'l, 'm, 'q) map_params \<Rightarrow> ('k, 'v) cache_state \<Rightarrow> int \<times> ('k, 'v) cache_state" where
  "cache_reset P c = (
     let end1 = cache_capacity P c;
         sl = fold (\<lambda>off sl. memcpy (memcpy sl (off * 2) (replicate (ksize P) empty_state))
           (off * 2 + ksize P) (replicate (ksize P) max_lru)) (bucket_offs P end1) (c_states_and_lrus c)
     in (end1, c\<lparr>c_states_and_lrus := sl, c_num_empty := end1\<rparr>))"

definition make_cache :: "('k, 'v, 'r, 'l, 'm, 'q) map_params \<Rightarrow> conf \<Rightarrow> exn + ('k, 'v) cache_state" where
  "make_cache P cf = (
     if \<not> is_valid (int (ksize P)) cf then Inl Invalid_argument
     else let end1 = init_capacity cf in
       Inr (snd (cache_reset P \<lparr>
         c_conf = cf,
         c_bucket_mask = make_aligned_mask end1 (int (ksize P)),
         c_values = replicate (nat end1) (pm_fresh_value P),
         c_blobs = replicate (nat (end1 * blob_stride cf)) (pm_fresh_byte P),
         c_keys = replicate (nat end1) (pm_fresh_key P),
         c_states_and_lrus = replicate (nat (end1 * 2)) (pm_fresh_state P),
         c_num_empty = 0\<rparr>)))"

definition cache_clear :: "('k, 'v, 'r, 'l, 'm, 'q) map_params \<Rightarrow> ('k, 'v) cache_state \<Rightarrow> int \<times> ('k, 'v) cache_state" where
  "cache_clear P c = cache_reset P c"

definition cache_assign ::
    "('k, 'v, 'r, 'l, 'm, 'q) map_params \<Rightarrow> ('k, 'v) cache_state \<Rightarrow> ('k, 'v) cache_state \<Rightarrow> ('k, 'v) cache_state" where
  "cache_assign P other c = (
     let end1 = cache_capacity P other;
         need_alloc = (end1 \<noteq> cache_capacity P c \<or> blob_stride (c_conf other) \<noteq> blob_stride (c_conf c));
         c = c\<lparr>c_conf := c_conf other\<rparr>;
         c = (if need_alloc then cache_alloc P end1 c else c);
         n = nat end1
     in c\<lparr>c_values := memcpy (c_values c) 0 (take n (c_values other)),
          c_blobs := memcpy (c_blobs c) 0 (take (nat (end1 * blob_stride (c_conf c))) (c_blobs other)),
          c_keys := memcpy (c_keys c) 0 (take n (c_keys other)),
          c_states_and_lrus := memcpy (c_states_and_lrus c) 0 (take (n * 2) (c_states_and_lrus other)),
          c_num_empty := c_num_empty other\<rparr>)"

section \<open>Lookup\<close>

definition cache_find_first ::
    "('k, 'v, 'r, 'l, 'm, 'q) map_params \<Rightarrow> 'k \<Rightarrow> hash_t \<Rightarrow> ('k, 'v) cache_state \<Rightarrow> (nat option \<times> probe_seq) \<times> ('k, 'v) cache_state" where
  "cache_find_first P key hash c = (
     let off = cache_off P (c_bucket_mask c) hash;
         m = kn_mask (pm_kernel P) (cache_load P c off) (pm_state P hash);
         (r, c) = cache_hit P off (cache_scan P (\<lambda>pos. c_keys c ! pos = key) off m) c
     in ((r, cache_seq P hash), c))"

definition cache_find_next ::
    "('k, 'v, 'r, 'l, 'm, 'q) map_params \<Rightarrow> nat \<Rightarrow> probe_seq \<Rightarrow> 'k \<Rightarrow> hash_t \<Rightarrow> ('k, 'v) cache_state
      \<Rightarrow> (nat option \<times> probe_seq) \<times> ('k, 'v) cache_state" where
  "cache_find_next P pos seq key hash c = (
     if \<not> has_duplicates P then ((None, seq), c)
     else
       let (off, idx) = splice_pos (int (ksize P)) (word_of_nat pos);
           off = unat off;
           m = mk_above (kn_mask_ops (pm_kernel P)) (kn_mask (pm_kernel P) (cache_load P c off) (pm_state P hash)) idx;
           (r, c) = cache_hit P off (cache_scan P (\<lambda>pos. c_keys c ! pos = key) off m) c
       in ((r, seq), c))"

fun cache_find_in :: "('k, 'v, 'r, 'l, 'm, 'q) map_params \<Rightarrow> (nat \<Rightarrow> bool) \<Rightarrow> nat list \<Rightarrow> ('k, 'v) cache_state
    \<Rightarrow> nat option \<times> ('k, 'v) cache_state" where
  "cache_find_in P f [] c = (None, c)"
| "cache_find_in P f (off # offs) c = (
     case cache_scan P f off (kn_mask_hash (pm_kernel P) (cache_load P c off)) of
       None \<Rightarrow> cache_find_in P f offs c
     | Some m \<Rightarrow> cache_hit P off (Some m) c)"

definition cache_find_if :: "('k, 'v, 'r, 'l, 'm, 'q) map_params \<Rightarrow> (nat \<Rightarrow> bool) \<Rightarrow> ('k, 'v) cache_state
    \<Rightarrow> nat option \<times> ('k, 'v) cache_state" where
  "cache_find_if P f c = cache_find_in P f (bucket_offs P (cache_capacity P c)) c"

text \<open>The slots a loop over all occupied slots visits, as offset of the bucket and index in it.\<close>

definition cache_slots :: "('k, 'v, 'r, 'l, 'm, 'q) map_params \<Rightarrow> ('k, 'v) cache_state \<Rightarrow> (nat \<times> nat) list" where
  "cache_slots P c = concat (map (\<lambda>off. map (Pair off) (walk P (kn_mask_hash (pm_kernel P) (cache_load P c off))))
     (bucket_offs P (cache_capacity P c)))"

definition cache_for_each :: "('k, 'v, 'r, 'l, 'm, 'q) map_params \<Rightarrow> ('k, 'v) cache_state \<Rightarrow> nat list" where
  "cache_for_each P c = map (\<lambda>(off, idx). off + idx) (cache_slots P c)"

definition cache_for_each_lru :: "('k, 'v, 'r, 'l, 'm, 'q) map_params \<Rightarrow> ('k, 'v) cache_state \<Rightarrow> lru_t list" where
  "cache_for_each_lru P c = map (\<lambda>(off, idx). c_states_and_lrus c ! (ksize P + (off * 2 + idx))) (cache_slots P c)"

definition cache_for_each_state :: "('k, 'v, 'r, 'l, 'm, 'q) map_params \<Rightarrow> ('k, 'v) cache_state \<Rightarrow> state_t list" where
  "cache_for_each_state P c = map (\<lambda>(off, idx). kn_at (pm_kernel P) (cache_load P c off) idx) (cache_slots P c)"

fun cache_visit :: "('k, 'v, 'r, 'l, 'm, 'q) map_params \<Rightarrow> 'k \<Rightarrow> nat \<Rightarrow> nat \<Rightarrow> 'm \<Rightarrow> nat list \<Rightarrow> ('k, 'v) cache_state
    \<Rightarrow> nat list \<times> ('k, 'v) cache_state" where
  "cache_visit P key off 0 m acc c = (acc, c)"
| "cache_visit P key off (Suc n) m acc c = (
     let M = kn_mask_ops (pm_kernel P); pos = off + mk_next M m
     in if \<not> mk_has_next M m then (acc, c)
        else if c_keys c ! pos \<noteq> key then cache_visit P key off n (mk_step M m) acc c
        else let c = cache_touch P off m c
          in if \<not> has_duplicates P then (acc @ [pos], c) else cache_visit P key off n (mk_step M m) (acc @ [pos]) c)"

definition cache_for_each_key ::
    "('k, 'v, 'r, 'l, 'm, 'q) map_params \<Rightarrow> 'k \<Rightarrow> hash_t \<Rightarrow> ('k, 'v) cache_state \<Rightarrow> nat list \<times> ('k, 'v) cache_state" where
  "cache_for_each_key P key hash c = (
     let off = cache_off P (c_bucket_mask c) hash
     in cache_visit P key off (ksize P) (kn_mask (pm_kernel P) (cache_load P c off) (pm_state P hash)) [] c)"

section \<open>Insertion\<close>

definition cache_place :: "('k, 'v, 'r, 'l, 'm, 'q) map_params \<Rightarrow> 'k \<Rightarrow> state_t \<Rightarrow> nat \<Rightarrow> nat \<Rightarrow> insert_op
    \<Rightarrow> ('k, 'v) cache_state \<Rightarrow> ('k, 'v) cache_state" where
  "cache_place P key s off idx op c = c\<lparr>
     c_keys := (c_keys c)[off + idx := key],
     c_states_and_lrus := ((c_states_and_lrus c)[off * 2 + idx := s])[ksize P + (off * 2 + idx) := default_lru],
     c_num_empty := c_num_empty c - of_bool (op = Op_insert)\<rparr>"

definition cache_insert ::
    "('k, 'v, 'r, 'l, 'm, 'q) map_params \<Rightarrow> 'k \<Rightarrow> hash_t \<Rightarrow> ('k, 'v) cache_state
      \<Rightarrow> exn + (nat \<times> insert_op \<times> probe_seq) \<times> ('k, 'v) cache_state" where
  "cache_insert P key hash c = (
     if pm_is_nan P key then Inl Runtime_error
     else
       let K = pm_kernel P; M = kn_mask_ops K; s = pm_state P hash; seq = cache_seq P hash;
           off = cache_off P (c_bucket_mask c) hash; k = cache_load P c off;
           r = (if has_duplicates P then None else cache_scan P (\<lambda>pos. c_keys c ! pos = key) off (kn_mask K k s))
       in case r of
            Some m \<Rightarrow> Inr ((off + mk_next M m, Op_found, seq), cache_touch P off m c)
          | None \<Rightarrow>
              let m = kn_mask_not_hash K k;
                  (op, m) = (if mk_has_next M m then (Op_insert, m) else (Op_replace, kn_mask_min_lru K (cache_load_lru P c off)));
                  idx = mk_next M m
              in Inr ((off + idx, op, seq), cache_place P key s off idx op c))"

section \<open>Erasure\<close>

definition cache_reset_slot :: "nat \<Rightarrow> ('k, 'v) cache_state \<Rightarrow> ('k, 'v) cache_state" where
  "cache_reset_slot pos2 c = c\<lparr>c_states_and_lrus := (c_states_and_lrus c)[pos2 := empty_state], c_num_empty := c_num_empty c + 1\<rparr>"

definition cache_erase_hit :: "('k, 'v, 'r, 'l, 'm, 'q) map_params \<Rightarrow> nat \<Rightarrow> 'm option \<Rightarrow> probe_seq \<Rightarrow> ('k, 'v) cache_state
    \<Rightarrow> (bool \<times> nat option \<times> probe_seq) \<times> ('k, 'v) cache_state" where
  "cache_erase_hit P off r seq c = (case r of
     None \<Rightarrow> ((False, None, seq), c)
   | Some m \<Rightarrow>
       let idx = mk_next (kn_mask_ops (pm_kernel P)) m
       in ((True, Some (off + idx), seq), cache_reset_slot (off * 2 + idx) c))"

definition cache_erase_first ::
    "('k, 'v, 'r, 'l, 'm, 'q) map_params \<Rightarrow> 'k \<Rightarrow> hash_t \<Rightarrow> ('k, 'v) cache_state
      \<Rightarrow> (bool \<times> nat option \<times> probe_seq) \<times> ('k, 'v) cache_state" where
  "cache_erase_first P key hash c = (
     let off = cache_off P (c_bucket_mask c) hash;
         m = kn_mask (pm_kernel P) (cache_load P c off) (pm_state P hash)
     in cache_erase_hit P off (cache_scan P (\<lambda>pos. c_keys c ! pos = key) off m) (cache_seq P hash) c)"

definition cache_erase_next ::
    "('k, 'v, 'r, 'l, 'm, 'q) map_params \<Rightarrow> nat \<Rightarrow> probe_seq \<Rightarrow> 'k \<Rightarrow> hash_t \<Rightarrow> ('k, 'v) cache_state
      \<Rightarrow> (bool \<times> nat option \<times> probe_seq) \<times> ('k, 'v) cache_state" where
  "cache_erase_next P pos seq key hash c = (
     if \<not> has_duplicates P then ((False, None, seq), c)
     else
       let (off, idx) = splice_pos (int (ksize P)) (word_of_nat pos);
           off = unat off;
           m = mk_above (kn_mask_ops (pm_kernel P)) (kn_mask (pm_kernel P) (cache_load P c off) (pm_state P hash)) idx
       in cache_erase_hit P off (cache_scan P (\<lambda>pos. c_keys c ! pos = key) off m) seq c)"

definition cache_erase_at :: "('k, 'v, 'r, 'l, 'm, 'q) map_params \<Rightarrow> nat \<Rightarrow> ('k, 'v) cache_state
    \<Rightarrow> (bool \<times> nat) \<times> ('k, 'v) cache_state" where
  "cache_erase_at P pos c = (
     let pos2 = pos_to_pos2 (ksize P) pos
     in if is_hash (c_states_and_lrus c ! pos2) then ((True, pos), cache_reset_slot pos2 c) else ((False, pos), c))"

text \<open>The local counter of \<open>erase_if_\<close> and \<open>erase_all_\<close> is kept in the cache, as nothing reads it before.\<close>

definition cache_bury :: "('k, 'v, 'r, 'l, 'm, 'q) map_params \<Rightarrow> (nat \<Rightarrow> bool) \<Rightarrow> nat \<Rightarrow> 'm \<Rightarrow> ('k, 'v) cache_state \<Rightarrow> ('k, 'v) cache_state" where
  "cache_bury P f off m c = fold (\<lambda>idx c. if f (off + idx) then cache_reset_slot (off * 2 + idx) c else c) (walk P m) c"

definition cache_erase_if :: "('k, 'v, 'r, 'l, 'm, 'q) map_params \<Rightarrow> (nat \<Rightarrow> bool) \<Rightarrow> ('k, 'v) cache_state \<Rightarrow> int \<times> ('k, 'v) cache_state" where
  "cache_erase_if P f c = (
     let c' = fold (\<lambda>off c. cache_bury P f off (kn_mask_hash (pm_kernel P) (cache_load P c off)) c)
       (bucket_offs P (cache_capacity P c)) c
     in (c_num_empty c' - c_num_empty c, c'))"

definition cache_erase_all :: "('k, 'v, 'r, 'l, 'm, 'q) map_params \<Rightarrow> 'k \<Rightarrow> hash_t \<Rightarrow> ('k, 'v) cache_state \<Rightarrow> int \<times> ('k, 'v) cache_state" where
  "cache_erase_all P key hash c = (
     let off = cache_off P (c_bucket_mask c) hash;
         c' = cache_bury P (\<lambda>pos. c_keys c ! pos = key) off (kn_mask (pm_kernel P) (cache_load P c off) (pm_state P hash)) c
     in (c_num_empty c' - c_num_empty c, c'))"

section \<open>Counting\<close>

definition cache_bucket_count :: "('k, 'v, 'r, 'l, 'm, 'q) map_params \<Rightarrow> ('r \<Rightarrow> 'm) \<Rightarrow> nat \<Rightarrow> ('k, 'v) cache_state \<Rightarrow> nat" where
  "cache_bucket_count P f pos c = (
     let off = unat (align_pos (NOT (make_size_mask (int (ksize P)))) (word_of_nat pos))
     in mk_count (kn_mask_ops (pm_kernel P)) (f (cache_load P c off)))"

definition cache_bucket_size_at :: "('k, 'v, 'r, 'l, 'm, 'q) map_params \<Rightarrow> nat \<Rightarrow> ('k, 'v) cache_state \<Rightarrow> nat" where
  "cache_bucket_size_at P pos c = cache_bucket_count P (kn_mask_hash (pm_kernel P)) pos c"

definition cache_bucket_num_empty_at :: "('k, 'v, 'r, 'l, 'm, 'q) map_params \<Rightarrow> nat \<Rightarrow> ('k, 'v) cache_state \<Rightarrow> nat" where
  "cache_bucket_num_empty_at P pos c = cache_bucket_count P (kn_mask_empty (pm_kernel P)) pos c"

definition cache_bucket_num_tombstone_at :: "('k, 'v, 'r, 'l, 'm, 'q) map_params \<Rightarrow> nat \<Rightarrow> ('k, 'v) cache_state \<Rightarrow> nat" where
  "cache_bucket_num_tombstone_at P pos c = cache_bucket_count P (kn_mask_tombstone (pm_kernel P)) pos c"

definition cache_check_integrity :: "('k, 'v, 'r, 'l, 'm, 'q) map_params \<Rightarrow> ('k, 'v) cache_state \<Rightarrow> bool" where
  "cache_check_integrity P c \<longleftrightarrow> fold (\<lambda>off n. n + int (mk_count (kn_mask_ops (pm_kernel P))
     (kn_mask_empty (pm_kernel P) (cache_load P c off)))) (bucket_offs P (cache_capacity P c)) 0 = c_num_empty c"

definition cache_kernel_populations :: "('k, 'v, 'r, 'l, 'm, 'q) map_params \<Rightarrow> ('k, 'v) cache_state \<Rightarrow> int list \<Rightarrow> int list" where
  "cache_kernel_populations P c counts = fold (\<lambda>off counts.
     let n = mk_count (kn_mask_ops (pm_kernel P)) (kn_mask_hash (pm_kernel P) (cache_load P c off))
     in counts[n := counts ! n + 1]) (bucket_offs P (cache_capacity P c)) counts"

definition cache_state_collisions :: "('k, 'v, 'r, 'l, 'm, 'q) map_params \<Rightarrow> ('k, 'v) cache_state \<Rightarrow> int list \<Rightarrow> int list" where
  "cache_state_collisions P c counts = fold (\<lambda>off counts.
     count_collisions (pm_kernel P) (take (ksize P) (drop (off * 2) (c_states_and_lrus c))) counts)
     (bucket_offs P (cache_capacity P c)) counts"

section \<open>Resizing and scrubbing\<close>

text \<open>One old entry goes to a free slot of its bucket or displaces one with no greater stamp, or is dropped.\<close>

definition cache_move ::
    "('k, 'v, 'r, 'l, 'm, 'q) map_params \<Rightarrow> ('k, 'v) cache_state \<Rightarrow> nat \<Rightarrow> nat \<Rightarrow> hash_t \<Rightarrow> nat \<Rightarrow> nat \<Rightarrow> lru_t
      \<Rightarrow> ('k, 'v) cache_state \<Rightarrow> ('k, 'v) cache_state" where
  "cache_move P src old_off old_idx hash new_off new_idx old_lru c = (
     let old_pos = old_off + old_idx; new_pos = new_off + new_idx; stride = nat (blob_stride (c_conf c))
     in c\<lparr>
       c_values := (c_values c)[new_pos := c_values src ! old_pos],
       c_blobs := memcpy (c_blobs c) (new_pos * stride) (take (nat (blob_size (c_conf c))) (drop (old_pos * stride) (c_blobs src))),
       c_keys := (c_keys c)[new_pos := c_keys src ! old_pos],
       c_states_and_lrus := ((c_states_and_lrus c)[new_off * 2 + new_idx := pm_state P hash])
         [ksize P + (new_off * 2 + new_idx) := old_lru]\<rparr>)"

definition cache_resize_one ::
    "('k, 'v, 'r, 'l, 'm, 'q) map_params \<Rightarrow> ('k, 'v) cache_state \<Rightarrow> nat \<times> nat \<Rightarrow> ('k, 'v) cache_state \<times> int
      \<Rightarrow> ('k, 'v) cache_state \<times> int" where
  "cache_resize_one P src = (\<lambda>(old_off, old_idx) (c, num_insert).
     let K = pm_kernel P; M = kn_mask_ops K;
         old_lru = c_states_and_lrus src ! (ksize P + (old_off * 2 + old_idx));
         hash = pm_hash P (c_keys src ! (old_off + old_idx));
         new_off = cache_off P (c_bucket_mask c) hash;
         m_new = kn_mask_not_hash K (cache_load P c new_off)
     in if mk_has_next M m_new
        then (cache_move P src old_off old_idx hash new_off (mk_next M m_new) old_lru c, num_insert + 1)
        else let (new_lru, new_idx) = kn_min_lru K (cache_load_lru P c new_off)
          in if old_lru < new_lru then (c, num_insert)
             else (cache_move P src old_off old_idx hash new_off new_idx old_lru c, num_insert))"

definition cache_resize :: "('k, 'v, 'r, 'l, 'm, 'q) map_params \<Rightarrow> int \<Rightarrow> ('k, 'v) cache_state \<Rightarrow> int \<times> ('k, 'v) cache_state" where
  "cache_resize P end1 src = (
     let old_end = cache_capacity P src;
         end1 = max end1 (min_capacity (c_conf src))
     in if end1 = old_end then (end1, src)
        else
          let c = snd (cache_reset P (cache_alloc P end1 src));
              (c, num_insert) = fold (cache_resize_one P src) (cache_slots P src) (c, 0)
          in (end1, c\<lparr>c_num_empty := c_num_empty c - num_insert\<rparr>))"

definition cache_scrub_bucket :: "('k, 'v, 'r, 'l, 'm, 'q) map_params \<Rightarrow> lru_t \<Rightarrow> nat \<Rightarrow> ('k, 'v) cache_state \<times> int
    \<Rightarrow> ('k, 'v) cache_state \<times> int" where
  "cache_scrub_bucket P threshold off = (\<lambda>(c, num_erased).
     let K = pm_kernel P; k0 = cache_load P c off;
         k1 = kn_to_empty_if_lru_below K k0 (cache_load_lru P c off) threshold
     in (c\<lparr>c_states_and_lrus := memcpy (c_states_and_lrus c) (off * 2) (kn_store K k1)\<rparr>,
         num_erased + int (kn_count_not_equal K k0 k1)))"

definition cache_scrub :: "('k, 'v, 'r, 'l, 'm, 'q) map_params \<Rightarrow> lru_t \<Rightarrow> ('k, 'v) cache_state \<Rightarrow> int \<times> ('k, 'v) cache_state" where
  "cache_scrub P threshold c = (
     if threshold \<ge> max_lru then (0, c)
     else
       let (c', num_erased) = fold (cache_scrub_bucket P threshold) (bucket_offs P (cache_capacity P c)) (c, 0)
       in (num_erased, c'\<lparr>c_num_empty := c_num_empty c' + num_erased\<rparr>))"

definition cache_shrink_target :: "('k, 'v, 'r, 'l, 'm, 'q) map_params \<Rightarrow> ('k, 'v) cache_state \<Rightarrow> int" where
  "cache_shrink_target P c = max (cache_capacity P c div 2) (min_capacity (c_conf c))"

text \<open>The members of \<open>raw_map_base\<close> that resize, on the cache.\<close>

definition cache_resize_api :: "('k, 'v, 'r, 'l, 'm, 'q) map_params \<Rightarrow> int \<Rightarrow> ('k, 'v) cache_state \<Rightarrow> int \<times> ('k, 'v) cache_state" where
  "cache_resize_api P n c = cache_resize P (max (int_bit_ceil n) (min_capacity (c_conf c))) c"

definition cache_grow :: "('k, 'v, 'r, 'l, 'm, 'q) map_params \<Rightarrow> ('k, 'v) cache_state \<Rightarrow> int \<times> ('k, 'v) cache_state" where
  "cache_grow P c = cache_resize P (2 * cache_capacity P c) c"

definition cache_shrink :: "('k, 'v, 'r, 'l, 'm, 'q) map_params \<Rightarrow> ('k, 'v) cache_state \<Rightarrow> int \<times> ('k, 'v) cache_state" where
  "cache_shrink P c = (
     let new_end = cache_shrink_target P c
     in if new_end \<noteq> cache_capacity P c then cache_resize P new_end c else (new_end, c))"

end
