(* ===== verification/CacheInv.thy ===== *)
theory CacheInv
  imports Cache MapErase
begin

text \<open>
  What a well-formed cache is: every occupied slot lies in the bucket its key's hash selects and
  carries the state of the hash, every other slot is empty, the counter is exact, and without the
  duplicates flag keys are distinct. The interleaved array of states and stamps is read through
  \<open>slot2\<close>; the locale \<open>swiss_cache\<close> assumes the contract of the kernel with its LRU operations.
\<close>

section \<open>The interleaved array\<close>

definition slot2 :: "nat \<Rightarrow> nat \<Rightarrow> nat" where
  "slot2 K pos = pos div K * K + pos"

lemma slot2_form: "i < K \<Longrightarrow> slot2 K (b * K + i) = b * K * 2 + i"
  by (simp add: slot2_def)

lemma slot2_alt: "slot2 K pos = pos div K * (2 * K) + pos mod K"
proof -
  have "pos div K * K + pos mod K = pos" by simp
  moreover have "pos div K * (2 * K) = pos div K * K + pos div K * K" by simp
  ultimately show ?thesis unfolding slot2_def by linarith
qed

lemma slot2_less: "p < q \<Longrightarrow> slot2 K p < slot2 K q"
  unfolding slot2_def by (intro add_le_less_mono mult_right_mono div_le_mono) simp_all

lemma slot2_eq [simp]: "slot2 K p = slot2 K q \<longleftrightarrow> p = q"
  using slot2_less [of p q K] slot2_less [of q p K] by (cases p q rule: linorder_cases) auto

lemma slot2_apart [simp]:
  assumes "0 < K"
  shows "K + slot2 K p \<noteq> slot2 K q" and "slot2 K q \<noteq> K + slot2 K p"
proof -
  have "q mod K < 2 * K" using mod_less_divisor [OF assms, of q] by linarith
  then have "slot2 K q mod (2 * K) = q mod K" by (simp add: slot2_alt)
  moreover have "(K + slot2 K p) mod (2 * K) = K + p mod K"
  proof -
    have "K + slot2 K p = (K + p mod K) + p div K * (2 * K)" by (simp add: slot2_alt)
    moreover have "K + p mod K < 2 * K" using assms by (simp add: mod_less_divisor)
    ultimately show ?thesis by (simp only: mod_mult_self1 mod_less)
  qed
  moreover have "q mod K < K" using assms by simp
  ultimately show "K + slot2 K p \<noteq> slot2 K q" by auto
  then show "slot2 K q \<noteq> K + slot2 K p" by metis
qed

lemma slot2_bound:
  assumes "0 < K" and "p < N * K"
  shows "K + slot2 K p < N * K * 2" and "slot2 K p < N * K * 2"
proof -
  have "Suc (p div K) \<le> N" using assms by (simp add: Suc_le_eq div_less_iff_less_mult)
  then have "Suc (p div K) * (2 * K) \<le> N * (2 * K)" by (rule mult_le_mono1)
  moreover have "p mod K < K" using assms(1) by simp
  ultimately show "K + slot2 K p < N * K * 2" unfolding slot2_alt by (simp add: algebra_simps)
  then show "slot2 K p < N * K * 2" by simp
qed

lemma pos2_slot2:
  assumes "sz = 2 ^ a" and "a < 63" and "pos < 2 ^ 63"
  shows "pos_to_pos2 sz pos = slot2 sz pos"
proof -
  have "fst (splice_pos (int sz) (word_of_nat pos)) = word_of_nat (pos div sz * sz)"
    using splice_pos_form [OF assms(2,3)] by (simp add: assms(1))
  moreover have "fst (splice_pos (int sz) (word_of_nat pos)) = align_pos (NOT (make_size_mask (int sz))) (word_of_nat pos)"
    by (simp add: splice_pos_def Let_def)
  moreover have "pos div sz * sz < 2 ^ 63" using assms(3) by (meson div_times_less_eq_dividend le_less_trans)
  ultimately show ?thesis unfolding pos_to_pos2_def slot2_def by (simp only: unat_small add.commute)
qed

text \<open>Writing one half of a bucket.\<close>

lemma half_index:
  assumes "off \<le> j" and "j < off + K" and "off = b * K * 2"
  obtains i where "i < K" and "j = slot2 K (b * K + i)"
proof -
  have i: "j - off < K" using assms(1,2) by linarith
  have "j = off + (j - off)" using assms(1) by linarith
  then have "j = slot2 K (b * K + (j - off))" unfolding slot2_form [OF i] by (simp only: assms(3))
  with i show ?thesis by (rule that)
qed

lemma memcpy_states:
  assumes "0 < K" and "length sl = N * K * 2" and "b < N" and "length L = K" and "q < N * K"
  shows "memcpy sl (b * K * 2) L ! slot2 K q = (if q div K = b then L ! (q mod K) else sl ! slot2 K q)"
    and "memcpy sl (b * K * 2) L ! (K + slot2 K q) = sl ! (K + slot2 K q)"
    and "length (memcpy sl (b * K * 2) L) = length sl"
proof -
  have "Suc b * (K * 2) \<le> N * (K * 2)" using assms(3) by (intro mult_le_mono1) simp
  then have e: "b * K * 2 + length L \<le> length sl" using assms(2,4) by (simp add: algebra_simps)
  show "length (memcpy sl (b * K * 2) L) = length sl" by (rule length_memcpy [OF e])
  have b1: "slot2 K q < length sl" "K + slot2 K q < length sl" using slot2_bound [OF assms(1,5)] assms(2) by simp_all
  show "memcpy sl (b * K * 2) L ! (K + slot2 K q) = sl ! (K + slot2 K q)"
  proof -
    have "\<not> (b * K * 2 \<le> K + slot2 K q \<and> K + slot2 K q < b * K * 2 + K)"
    proof
      assume "b * K * 2 \<le> K + slot2 K q \<and> K + slot2 K q < b * K * 2 + K"
      then obtain i where "K + slot2 K q = slot2 K (b * K + i)" using half_index [of "b * K * 2" "K + slot2 K q" K b] by metis
      then show False using slot2_apart(1) [OF assms(1)] by blast
    qed
    then show ?thesis unfolding nth_memcpy [OF e b1(2)] assms(4) by auto
  qed
  show "memcpy sl (b * K * 2) L ! slot2 K q = (if q div K = b then L ! (q mod K) else sl ! slot2 K q)"
  proof (cases "q div K = b")
    case True
    then have q: "slot2 K q = b * K * 2 + q mod K" by (simp add: slot2_alt)
    show ?thesis using True assms(1) unfolding nth_memcpy [OF e b1(1)] assms(4) by (simp add: q)
  next
    case False
    have "\<not> (b * K * 2 \<le> slot2 K q \<and> slot2 K q < b * K * 2 + K)"
    proof
      assume "b * K * 2 \<le> slot2 K q \<and> slot2 K q < b * K * 2 + K"
      then obtain i where "i < K" "slot2 K q = slot2 K (b * K + i)" using half_index [of "b * K * 2" "slot2 K q" K b] by metis
      then show False using False by simp
    qed
    then show ?thesis using False unfolding nth_memcpy [OF e b1(1)] assms(4) by auto
  qed
qed

lemma memcpy_lrus:
  assumes "0 < K" and "length sl = N * K * 2" and "b < N" and "length L = K" and "q < N * K"
  shows "memcpy sl (b * K * 2 + K) L ! slot2 K q = sl ! slot2 K q"
    and "memcpy sl (b * K * 2 + K) L ! (K + slot2 K q) = (if q div K = b then L ! (q mod K) else sl ! (K + slot2 K q))"
    and "length (memcpy sl (b * K * 2 + K) L) = length sl"
proof -
  have "Suc b * (K * 2) \<le> N * (K * 2)" using assms(3) by (intro mult_le_mono1) simp
  then have e: "b * K * 2 + K + length L \<le> length sl" using assms(2,4) by (simp add: algebra_simps)
  show "length (memcpy sl (b * K * 2 + K) L) = length sl" by (rule length_memcpy [OF e])
  have b1: "slot2 K q < length sl" "K + slot2 K q < length sl" using slot2_bound [OF assms(1,5)] assms(2) by simp_all
  have inner: "\<exists>i<K. j = slot2 K (b * K + i)" if "b * K * 2 + K \<le> K + j \<and> K + j < b * K * 2 + K + K" for j
    using half_index [of "b * K * 2" j K b] that by (metis add.commute add_le_cancel_left nat_add_left_cancel_less add.assoc)
  show "memcpy sl (b * K * 2 + K) L ! slot2 K q = sl ! slot2 K q"
  proof -
    have "\<not> (b * K * 2 + K \<le> slot2 K q \<and> slot2 K q < b * K * 2 + K + K)"
    proof
      assume a: "b * K * 2 + K \<le> slot2 K q \<and> slot2 K q < b * K * 2 + K + K"
      then have k: "K + (slot2 K q - K) = slot2 K q" by linarith
      then obtain i where "slot2 K q - K = slot2 K (b * K + i)" using inner [of "slot2 K q - K"] a unfolding k by blast
      then have "slot2 K q = K + slot2 K (b * K + i)" using k by linarith
      then show False using slot2_apart(2) [OF assms(1)] by blast
    qed
    then show ?thesis unfolding nth_memcpy [OF e b1(1)] assms(4) by auto
  qed
  show "memcpy sl (b * K * 2 + K) L ! (K + slot2 K q) = (if q div K = b then L ! (q mod K) else sl ! (K + slot2 K q))"
  proof (cases "q div K = b")
    case True
    then have q: "slot2 K q = b * K * 2 + q mod K" by (simp add: slot2_alt)
    show ?thesis using True assms(1) unfolding nth_memcpy [OF e b1(2)] assms(4) by (simp add: q)
  next
    case False
    have "\<not> (b * K * 2 + K \<le> K + slot2 K q \<and> K + slot2 K q < b * K * 2 + K + K)"
    proof
      assume "b * K * 2 + K \<le> K + slot2 K q \<and> K + slot2 K q < b * K * 2 + K + K"
      then obtain i where "i < K" "slot2 K q = slot2 K (b * K + i)" using inner by blast
      then show False using False by simp
    qed
    then show ?thesis using False unfolding nth_memcpy [OF e b1(2)] assms(4) by auto
  qed
qed

section \<open>Contents and invariant\<close>

definition c_state :: "('k, 'v, 'r, 'l, 'm, 'q) map_params \<Rightarrow> ('k, 'v) cache_state \<Rightarrow> nat \<Rightarrow> state_t" where
  "c_state P c pos = c_states_and_lrus c ! slot2 (ksize P) pos"

definition c_lru :: "('k, 'v, 'r, 'l, 'm, 'q) map_params \<Rightarrow> ('k, 'v) cache_state \<Rightarrow> nat \<Rightarrow> lru_t" where
  "c_lru P c pos = c_states_and_lrus c ! (ksize P + slot2 (ksize P) pos)"

definition c_occ :: "('k, 'v, 'r, 'l, 'm, 'q) map_params \<Rightarrow> ('k, 'v) cache_state \<Rightarrow> nat set" where
  "c_occ P c = {pos. pos < length (c_keys c) \<and> is_hash (c_state P c pos)}"

definition cache_entry :: "('k, 'v) cache_state \<Rightarrow> nat \<Rightarrow> 'k \<times> 'v \<times> u8 list" where
  "cache_entry c pos = (c_keys c ! pos, c_values c ! pos,
     take (nat (blob_size (c_conf c))) (drop (pos * nat (blob_stride (c_conf c))) (c_blobs c)))"

definition cache_entries :: "('k, 'v, 'r, 'l, 'm, 'q) map_params \<Rightarrow> ('k, 'v) cache_state \<Rightarrow> ('k \<times> 'v \<times> u8 list) multiset" where
  "cache_entries P c = image_mset (cache_entry c) (mset_set (c_occ P c))"

definition cache_shape :: "('k, 'v, 'r, 'l, 'm, 'q) map_params \<Rightarrow> nat \<Rightarrow> ('k, 'v) cache_state \<Rightarrow> bool" where
  "cache_shape P n c \<longleftrightarrow> kbits P \<le> n \<and> n \<le> 62 \<and> c_bucket_mask c = make_aligned_mask (2 ^ n) (2 ^ kbits P)
     \<and> length (c_keys c) = 2 ^ n \<and> length (c_values c) = 2 ^ n \<and> length (c_blobs c) = 2 ^ n * nat (blob_stride (c_conf c))
     \<and> nat (blob_size (c_conf c)) \<le> nat (blob_stride (c_conf c)) \<and> length (c_states_and_lrus c) = 2 ^ n * 2"

definition home_off :: "('k, 'v, 'r, 'l, 'm, 'q) map_params \<Rightarrow> ('k, 'v) cache_state \<Rightarrow> 'k \<Rightarrow> nat" where
  "home_off P c key = cache_off P (c_bucket_mask c) (pm_hash P key)"

definition cache_inv :: "('k, 'v, 'r, 'l, 'm, 'q) map_params \<Rightarrow> ('k, 'v) cache_state \<Rightarrow> bool" where
  "cache_inv P c \<longleftrightarrow> (\<exists>n. cache_shape P n c \<and> conf_ok (kbits P) (c_conf c) \<and> min_capacity (c_conf c) \<le> 2 ^ n
     \<and> (\<forall>pos<2 ^ n. c_state P c pos = empty_state \<or> is_hash (c_state P c pos))
     \<and> (\<forall>pos \<in> c_occ P c. c_state P c pos = pm_state P (pm_hash P (c_keys c ! pos)) \<and> pos div ksize P * ksize P = home_off P c (c_keys c ! pos))
     \<and> (has_duplicates P \<or> inj_on ((!) (c_keys c)) (c_occ P c))
     \<and> c_num_empty c = 2 ^ n - int (card (c_occ P c)))"

lemma finite_c_occ [simp]: "finite (c_occ P c)"
  by (simp add: c_occ_def)

lemma cache_invD:
  assumes "cache_inv P c"
  obtains n where "cache_shape P n c" and "conf_ok (kbits P) (c_conf c)" and "min_capacity (c_conf c) \<le> 2 ^ n"
    and "\<forall>pos<2 ^ n. c_state P c pos = empty_state \<or> is_hash (c_state P c pos)"
    and "\<forall>pos \<in> c_occ P c. c_state P c pos = pm_state P (pm_hash P (c_keys c ! pos))"
    and "\<forall>pos \<in> c_occ P c. pos div ksize P * ksize P = home_off P c (c_keys c ! pos)"
    and "has_duplicates P \<or> inj_on ((!) (c_keys c)) (c_occ P c)"
    and "c_num_empty c = 2 ^ n - int (card (c_occ P c))"
  using assms unfolding cache_inv_def by blast

lemma size_cache_entries: "size (cache_entries P c) = card (c_occ P c)"
  by (simp add: cache_entries_def)

lemma key_in_cache: "key \<in># image_mset fst (cache_entries P c) \<longleftrightarrow> (\<exists>pos \<in> c_occ P c. c_keys c ! pos = key)"
  by (auto simp: cache_entries_def cache_entry_def image_image)

section \<open>Changes that keep the invariant\<close>

text \<open>States may only become empty; stamps are free.\<close>

lemma cache_clear_ok:
  assumes inv: "cache_inv P c"
    and same: "c_keys c' = c_keys c" "c_values c' = c_values c" "c_blobs c' = c_blobs c" "c_conf c' = c_conf c"
      "c_bucket_mask c' = c_bucket_mask c" "length (c_states_and_lrus c') = length (c_states_and_lrus c)"
    and st: "\<And>pos. pos < length (c_keys c) \<Longrightarrow> c_state P c' pos = c_state P c pos \<or> c_state P c' pos = empty_state"
    and ne: "c_num_empty c' = int (length (c_keys c)) - int (card (c_occ P c'))"
  shows "cache_inv P c'" and "c_occ P c' \<subseteq> c_occ P c" and "cache_entries P c' = image_mset (cache_entry c) (mset_set (c_occ P c'))"
    and "cache_entry c' = cache_entry c"
proof -
  obtain n where n: "cache_shape P n c" "conf_ok (kbits P) (c_conf c)" "min_capacity (c_conf c) \<le> 2 ^ n"
    and v: "\<forall>pos<2 ^ n. c_state P c pos = empty_state \<or> is_hash (c_state P c pos)"
    and s: "\<forall>pos \<in> c_occ P c. c_state P c pos = pm_state P (pm_hash P (c_keys c ! pos))"
    and h: "\<forall>pos \<in> c_occ P c. pos div ksize P * ksize P = home_off P c (c_keys c ! pos)"
    and k: "has_duplicates P \<or> inj_on ((!) (c_keys c)) (c_occ P c)"
    by (rule cache_invD [OF inv])
  have len: "length (c_keys c) = 2 ^ n" using n(1) by (simp add: cache_shape_def)
  have oc: "pos \<in> c_occ P c \<and> c_state P c' pos = c_state P c pos" if "pos \<in> c_occ P c'" for pos
    using that st [of pos] same(1) by (auto simp: c_occ_def)
  then show sub: "c_occ P c' \<subseteq> c_occ P c" by blast
  show e: "cache_entry c' = cache_entry c" by (rule ext) (simp add: cache_entry_def same)
  then show "cache_entries P c' = image_mset (cache_entry c) (mset_set (c_occ P c'))" by (simp add: cache_entries_def)
  have ho: "home_off P c' = home_off P c" by (rule ext) (simp add: home_off_def same)
  show "cache_inv P c'"
    unfolding cache_inv_def
  proof (intro exI [of _ n] conjI allI ballI impI)
    show "cache_shape P n c'" using n(1) same by (simp add: cache_shape_def)
    show "conf_ok (kbits P) (c_conf c')" "min_capacity (c_conf c') \<le> 2 ^ n" using n(2,3) same by simp_all
    show "c_state P c' pos = empty_state \<or> is_hash (c_state P c' pos)" if "pos < 2 ^ n" for pos
      using st [of pos] v that len by auto
    show "c_state P c' pos = pm_state P (pm_hash P (c_keys c' ! pos))" "pos div ksize P * ksize P = home_off P c' (c_keys c' ! pos)"
      if "pos \<in> c_occ P c'" for pos
      using oc [OF that] s h by (simp_all add: same ho)
    show "has_duplicates P \<or> inj_on ((!) (c_keys c')) (c_occ P c')" using k inj_on_subset [OF _ sub] same(1) by auto
    show "c_num_empty c' = 2 ^ n - int (card (c_occ P c'))" using ne len by simp
  qed
qed

text \<open>One slot takes a key.\<close>

lemma cache_put_ok:
  assumes inv: "cache_inv P c" and pos: "pos < length (c_keys c)" and off: "pos div ksize P * ksize P = home_off P c key"
    and len: "length (c_keys c') = length (c_keys c)" "length (c_values c') = length (c_values c)"
      "length (c_blobs c') = length (c_blobs c)" "length (c_states_and_lrus c') = length (c_states_and_lrus c)"
    and same: "c_conf c' = c_conf c" "c_bucket_mask c' = c_bucket_mask c"
    and key: "c_keys c' ! pos = key" and s: "c_state P c' pos = pm_state P (pm_hash P key)"
    and st: "\<And>q. q < length (c_keys c) \<Longrightarrow> q \<noteq> pos \<Longrightarrow> c_state P c' q = c_state P c q"
    and en: "\<And>q. q \<in> c_occ P c \<Longrightarrow> q \<noteq> pos \<Longrightarrow> cache_entry c' q = cache_entry c q"
    and fresh: "\<And>q. \<not> has_duplicates P \<Longrightarrow> q \<in> c_occ P c \<Longrightarrow> q \<noteq> pos \<Longrightarrow> c_keys c ! q \<noteq> key"
    and ne: "c_num_empty c' = c_num_empty c - of_bool (pos \<notin> c_occ P c)"
  shows "cache_inv P c'" and "c_occ P c' = insert pos (c_occ P c)"
    and "cache_entries P c' = add_mset (cache_entry c' pos) (image_mset (cache_entry c) (mset_set (c_occ P c - {pos})))"
proof -
  obtain n where n: "cache_shape P n c" "conf_ok (kbits P) (c_conf c)" "min_capacity (c_conf c) \<le> 2 ^ n"
    and v: "\<forall>pos<2 ^ n. c_state P c pos = empty_state \<or> is_hash (c_state P c pos)"
    and so: "\<forall>pos \<in> c_occ P c. c_state P c pos = pm_state P (pm_hash P (c_keys c ! pos))"
    and h: "\<forall>pos \<in> c_occ P c. pos div ksize P * ksize P = home_off P c (c_keys c ! pos)"
    and k: "has_duplicates P \<or> inj_on ((!) (c_keys c)) (c_occ P c)"
    and em: "c_num_empty c = 2 ^ n - int (card (c_occ P c))"
    by (rule cache_invD [OF inv])
  have ln: "length (c_keys c) = 2 ^ n" using n(1) by (simp add: cache_shape_def)
  have ih: "is_hash (pm_state P (pm_hash P key))" by (simp add: pm_state_def)
  have "q \<in> c_occ P c' \<longleftrightarrow> q \<in> insert pos (c_occ P c)" for q
    using pos s st [of q] ih by (cases "q = pos") (auto simp: c_occ_def len)
  then show occ: "c_occ P c' = insert pos (c_occ P c)" by blast
  have ke: "c_keys c' ! q = c_keys c ! q" if "q \<in> c_occ P c" "q \<noteq> pos" for q using en [OF that] by (simp add: cache_entry_def)
  have ho: "home_off P c' = home_off P c" by (rule ext) (simp add: home_off_def same)
  have "mset_set (insert pos (c_occ P c)) = add_mset pos (mset_set (c_occ P c - {pos}))" by (rule mset_set.insert_remove) simp
  moreover have "image_mset (cache_entry c') (mset_set (c_occ P c - {pos})) = image_mset (cache_entry c) (mset_set (c_occ P c - {pos}))"
    by (intro image_mset_cong) (use en in simp)
  ultimately show "cache_entries P c' = add_mset (cache_entry c' pos) (image_mset (cache_entry c) (mset_set (c_occ P c - {pos})))"
    by (simp add: cache_entries_def occ)
  show "cache_inv P c'"
    unfolding cache_inv_def
  proof (intro exI [of _ n] conjI allI ballI impI)
    show "cache_shape P n c'" using n(1) same len by (simp add: cache_shape_def)
    show "conf_ok (kbits P) (c_conf c')" "min_capacity (c_conf c') \<le> 2 ^ n" using n(2,3) same by simp_all
    show "c_state P c' q = empty_state \<or> is_hash (c_state P c' q)" if "q < 2 ^ n" for q
      using st [of q] s v that ih ln by (cases "q = pos") auto
    show "c_state P c' q = pm_state P (pm_hash P (c_keys c' ! q))" "q div ksize P * ksize P = home_off P c' (c_keys c' ! q)"
      if q: "q \<in> c_occ P c'" for q
    proof -
      have other: "q \<in> c_occ P c \<and> c_state P c' q = c_state P c q \<and> c_keys c' ! q = c_keys c ! q" if "q \<noteq> pos"
        using q that st [of q] ke [of q] unfolding occ by (auto simp: c_occ_def)
      show "c_state P c' q = pm_state P (pm_hash P (c_keys c' ! q))"
      proof (cases "q = pos")
        case True
        then show ?thesis using s key by simp
      next
        case False
        have "c_state P c q = pm_state P (pm_hash P (c_keys c ! q))" using so other [OF False] by blast
        then show ?thesis using other [OF False] by simp
      qed
      show "q div ksize P * ksize P = home_off P c' (c_keys c' ! q)"
      proof (cases "q = pos")
        case True
        show ?thesis unfolding ho True key by (rule off)
      next
        case False
        have "q div ksize P * ksize P = home_off P c (c_keys c ! q)" using h other [OF False] by blast
        then show ?thesis unfolding ho using other [OF False] by simp
      qed
    qed
    show "has_duplicates P \<or> inj_on ((!) (c_keys c')) (c_occ P c')"
    proof (cases "has_duplicates P")
      case False
      have eq: "c_keys c' ! q = c_keys c ! q" if "q \<in> c_occ P c - {pos}" for q using that ke by blast
      have "inj_on ((!) (c_keys c)) (c_occ P c - {pos})" using k False by (blast intro: inj_on_subset)
      then have "inj_on ((!) (c_keys c')) (c_occ P c - {pos})" by (simp only: inj_on_cong [OF eq])
      moreover have "c_keys c' ! pos \<notin> (!) (c_keys c') ` (c_occ P c - {pos})"
        using fresh [OF False] eq unfolding key by fastforce
      ultimately have "inj_on ((!) (c_keys c')) (insert pos (c_occ P c - {pos}))"
        by (subst inj_on_insert) (simp only: Diff_idemp simp_thms)
      then have "inj_on ((!) (c_keys c')) (insert pos (c_occ P c))" by (simp only: insert_Diff_single)
      then show ?thesis unfolding occ ..
    qed simp
    show "c_num_empty c' = 2 ^ n - int (card (c_occ P c'))" using ne em by (cases "pos \<in> c_occ P c") (simp_all add: occ insert_absorb)
  qed
qed

end
