(* ===== verification/CacheOps.thy ===== *)
theory CacheOps
  imports CacheInv
begin

text \<open>
  The operations of the cache on well-formed caches: what they find, add, replace and remove, and
  what they do to the LRU stamps.
\<close>

section \<open>Searching a mask\<close>

context mask_laws
begin

lemma mask_find_ok:
  assumes "ok m" and "card (slots m) \<le> n"
  shows "case mask_find M n f m of
      None \<Rightarrow> \<forall>i \<in> slots m. \<not> f i
    | Some m' \<Rightarrow> ok m' \<and> slots m' \<noteq> {} \<and> slots m' \<subseteq> slots m \<and> f (Min (slots m')) \<and> mk_next M m' = Min (slots m')
        \<and> Min (slots m') \<in> slots m \<and> (\<forall>i \<in> slots m. i < Min (slots m') \<longrightarrow> \<not> f i)"
  using assms
proof (induction n arbitrary: m)
  case 0
  then show ?case using finite_slots by simp
next
  case (Suc n)
  show ?case
  proof (cases "slots m = {}")
    case True
    then show ?thesis using Suc.prems by (simp add: has_next_iff)
  next
    case False
    have fin: "finite (slots m)" by (rule finite_slots [OF Suc.prems(1)])
    have mem: "Min (slots m) \<in> slots m" using fin False by simp
    show ?thesis
    proof (cases "f (Min (slots m))")
      case True
      then show ?thesis using Suc.prems False fin mem by (auto simp: has_next_iff next_slot dest: Min_le)
    next
      case nf: False
      have st: "slots (mk_step M m) = slots m - {Min (slots m)}" by (rule step_slots [OF Suc.prems(1) False])
      have "card (slots (mk_step M m)) \<le> n" unfolding st using fin mem Suc.prems(2) by simp
      note IH = Suc.IH [OF step_ok [OF Suc.prems(1) False] this]
      have eq: "mask_find M (Suc n) f m = mask_find M n f (mk_step M m)"
        using nf False Suc.prems(1) by (simp add: has_next_iff next_slot)
      have split: "\<And>i. i \<in> slots m \<Longrightarrow> i \<in> slots (mk_step M m) \<or> i = Min (slots m)" using st by blast
      show ?thesis
      proof (cases "mask_find M n f (mk_step M m)")
        case None
        then show ?thesis using IH nf split unfolding eq by force
      next
        case (Some m')
        have sub: "slots (mk_step M m) \<subseteq> slots m" using st by blast
        have IH': "ok m' \<and> slots m' \<noteq> {} \<and> slots m' \<subseteq> slots (mk_step M m) \<and> f (Min (slots m')) \<and> mk_next M m' = Min (slots m')
          \<and> Min (slots m') \<in> slots (mk_step M m) \<and> (\<forall>i \<in> slots (mk_step M m). i < Min (slots m') \<longrightarrow> \<not> f i)"
          using IH unfolding Some option.case .
        have "\<forall>i \<in> slots m. i < Min (slots m') \<longrightarrow> \<not> f i" using IH' nf split by metis
        then show ?thesis unfolding eq Some option.case using IH' sub by blast
      qed
    qed
  qed
qed

end

section \<open>Buckets of the cache\<close>

locale swiss_cache = swiss_lru_kernel "pm_kernel P" ok slots
  for P :: "('k, 'v, 'r, 'l, 'm, 'q) map_params" and ok :: "'m \<Rightarrow> bool" and slots :: "'m \<Rightarrow> nat set" +
  assumes size_power: "ksize P = 2 ^ kbits P"
begin

lemma ksize_pos [simp]: "0 < ksize P"
  using size_pos by (simp add: ksize_def)

lemma kn_size: "kn_size (pm_kernel P) = ksize P"
  by (simp add: ksize_def)

lemma cache_off_mod:
  assumes "kbits P \<le> n" and "n \<le> 62"
  shows "cache_off P (make_aligned_mask (2 ^ n) (2 ^ kbits P)) h
    = ksize P * (unat (hash_to_pos (pm_layout P) (kbits P) h) div ksize P mod 2 ^ (n - kbits P))"
  using unat_and_aligned_mask [OF assms(1), of "hash_to_pos (pm_layout P) (kbits P) h"] assms(2)
  by (simp add: cache_off_def cache_seq_def linear_seq_def unaligned_init_def linear0_next_def align_pos_def size_power)

lemma shape_facts:
  assumes "cache_shape P n c"
  shows "2 ^ n div ksize P * ksize P = 2 ^ n" and "2 ^ n div ksize P = 2 ^ (n - kbits P)" and "length (c_keys c) = 2 ^ n"
    and "cache_capacity P c = 2 ^ n" and "bucket_offs P (2 ^ n) = map (\<lambda>b. b * ksize P) [0..<2 ^ n div ksize P]"
proof -
  have k: "kbits P \<le> n" "n \<le> 62" and bm: "c_bucket_mask c = make_aligned_mask (2 ^ n) (2 ^ kbits P)"
    using assms by (simp_all add: cache_shape_def)
  show d: "2 ^ n div ksize P = 2 ^ (n - kbits P)" using k by (simp add: size_power power_diff)
  then show m: "2 ^ n div ksize P * ksize P = 2 ^ n" using k by (simp add: size_power flip: power_add)
  show "length (c_keys c) = 2 ^ n" using assms by (simp add: cache_shape_def)
  show "cache_capacity P c = 2 ^ n"
    using aligned_mask_to_capacity_inverse [of "kbits P" n] k bm by (simp add: cache_capacity_def size_power)
  have "(2 ^ n + int (ksize P) - 1) div int (ksize P) = 2 ^ (n - kbits P)"
  proof -
    have "(2 :: int) ^ n = 2 ^ (n - kbits P) * int (ksize P)" using k by (simp add: size_power flip: power_add)
    then have "(2 ^ n + int (ksize P) - 1) div int (ksize P)
        = (int (ksize P) - 1 + 2 ^ (n - kbits P) * int (ksize P)) div int (ksize P)" by (simp add: algebra_simps)
    also have "\<dots> = 2 ^ (n - kbits P)" using ksize_pos by (subst div_mult_self1) simp_all
    finally show ?thesis .
  qed
  then show "bucket_offs P (2 ^ n) = map (\<lambda>b. b * ksize P) [0..<2 ^ n div ksize P]"
    by (simp add: bucket_offs_def d nat_power_eq)
qed

lemma home_bucket:
  assumes "cache_shape P n c"
  obtains b where "b < 2 ^ n div ksize P" and "home_off P c key = b * ksize P"
proof -
  have k: "kbits P \<le> n" "n \<le> 62" and bm: "c_bucket_mask c = make_aligned_mask (2 ^ n) (2 ^ kbits P)"
    using assms by (simp_all add: cache_shape_def)
  show ?thesis
    using that [of "unat (hash_to_pos (pm_layout P) (kbits P) (pm_hash P key)) div ksize P mod 2 ^ (n - kbits P)"]
    by (simp add: home_off_def bm cache_off_mod [OF k] shape_facts(2) [OF assms] mult.commute)
qed

lemma bucket_pos:
  assumes "b < 2 ^ n div ksize P" and "i < ksize P" and "cache_shape P n c"
  shows "b * ksize P + i < 2 ^ n" and "(b * ksize P + i) div ksize P = b" and "(b * ksize P + i) mod ksize P = i"
    and "b * ksize P + i < length (c_keys c)"
proof -
  have "Suc b * ksize P \<le> 2 ^ n div ksize P * ksize P" using assms(1) by (intro mult_le_mono1) simp
  then show "b * ksize P + i < 2 ^ n" using assms(2) shape_facts(1) [OF assms(3)] by simp
  then show "b * ksize P + i < length (c_keys c)" using shape_facts(3) [OF assms(3)] by simp
qed (use assms(2) in simp_all)

text \<open>The two halves of a bucket as lists of states and stamps of its slots.\<close>

lemma bucket_lists:
  assumes sh: "cache_shape P n c" and b: "b < 2 ^ n div ksize P"
  shows "take (ksize P) (drop (b * ksize P * 2) (c_states_and_lrus c)) = map (\<lambda>i. c_state P c (b * ksize P + i)) [0..<ksize P]"
    and "take (ksize P) (drop (b * ksize P * 2 + ksize P) (c_states_and_lrus c)) = map (\<lambda>i. c_lru P c (b * ksize P + i)) [0..<ksize P]"
    and "b * ksize P * 2 + ksize P + ksize P \<le> length (c_states_and_lrus c)"
proof -
  have len: "length (c_states_and_lrus c) = 2 ^ n * 2" using sh by (simp add: cache_shape_def)
  have "Suc b * ksize P \<le> 2 ^ n div ksize P * ksize P" using b by (intro mult_le_mono1) simp
  then show e: "b * ksize P * 2 + ksize P + ksize P \<le> length (c_states_and_lrus c)"
    unfolding shape_facts(1) [OF sh] len by (simp add: algebra_simps)
  show "take (ksize P) (drop (b * ksize P * 2) (c_states_and_lrus c)) = map (\<lambda>i. c_state P c (b * ksize P + i)) [0..<ksize P]"
    using e by (intro nth_equalityI) (simp_all add: c_state_def slot2_form)
  show "take (ksize P) (drop (b * ksize P * 2 + ksize P) (c_states_and_lrus c)) = map (\<lambda>i. c_lru P c (b * ksize P + i)) [0..<ksize P]"
    using e by (intro nth_equalityI) (simp_all add: c_lru_def slot2_form, simp_all add: ac_simps)
qed

lemma cache_load_list:
  assumes "cache_shape P n c" and "b < 2 ^ n div ksize P"
  shows "cache_load P c (b * ksize P) = kn_load (pm_kernel P) (map (\<lambda>i. c_state P c (b * ksize P + i)) [0..<ksize P])"
    and "cache_load_lru P c (b * ksize P) = kn_load_lru (pm_kernel P) (map (\<lambda>i. c_lru P c (b * ksize P + i)) [0..<ksize P])"
  using bucket_lists [OF assms] by (simp_all add: cache_load_def cache_load_lru_def)

text \<open>The slots the masks of a bucket name.\<close>

lemma cache_masks:
  assumes sh: "cache_shape P n c" and b: "b < 2 ^ n div ksize P"
  defines "k \<equiv> cache_load P c (b * ksize P)"
  shows "slots (kn_mask_hash (pm_kernel P) k) = {i. i < ksize P \<and> is_hash (c_state P c (b * ksize P + i))}"
    and "slots (kn_mask_not_hash (pm_kernel P) k) = {i. i < ksize P \<and> \<not> is_hash (c_state P c (b * ksize P + i))}"
    and "is_hash s \<Longrightarrow> slots (kn_mask (pm_kernel P) k s) \<subseteq> {i. i < ksize P \<and> is_hash (c_state P c (b * ksize P + i))}"
    and "is_hash s \<Longrightarrow> {i. i < ksize P \<and> c_state P c (b * ksize P + i) = s} \<subseteq> slots (kn_mask (pm_kernel P) k s)"
    and "ok (kn_mask_hash (pm_kernel P) k)" and "ok (kn_mask_not_hash (pm_kernel P) k)" and "is_hash s \<Longrightarrow> ok (kn_mask (pm_kernel P) k s)"
proof -
  let ?xs = "map (\<lambda>i. c_state P c (b * ksize P + i)) [0..<ksize P]"
  have k: "k = kn_load (pm_kernel P) ?xs" using cache_load_list(1) [OF sh b] by (simp add: k_def)
  have l: "length ?xs = kn_size (pm_kernel P)" by (simp add: kn_size)
  show "slots (kn_mask_hash (pm_kernel P) k) = {i. i < ksize P \<and> is_hash (c_state P c (b * ksize P + i))}"
    unfolding k mask_hash_slots [OF l] by (auto simp: slots_with_def)
  show "slots (kn_mask_not_hash (pm_kernel P) k) = {i. i < ksize P \<and> \<not> is_hash (c_state P c (b * ksize P + i))}"
    unfolding k mask_not_hash_slots [OF l] by (auto simp: slots_with_def)
  show "ok (kn_mask_hash (pm_kernel P) k)" "ok (kn_mask_not_hash (pm_kernel P) k)"
    unfolding k by (rule mask_hash_ok [OF l], rule mask_not_hash_ok [OF l])
  assume s: "is_hash s"
  show "slots (kn_mask (pm_kernel P) k s) \<subseteq> {i. i < ksize P \<and> is_hash (c_state P c (b * ksize P + i))}"
    using mask_hashes [OF l s] unfolding k by (auto simp: slots_with_def)
  show "{i. i < ksize P \<and> c_state P c (b * ksize P + i) = s} \<subseteq> slots (kn_mask (pm_kernel P) k s)"
    using mask_complete [OF l s] unfolding k by (auto simp: slots_with_def)
  show "ok (kn_mask (pm_kernel P) k s)" unfolding k by (rule mask_ok [OF l s])
qed

text \<open>Searching a bucket for a slot with a property.\<close>

lemma cache_scan_ok:
  assumes "ok m" and "slots m \<subseteq> {i. i < ksize P}"
  obtains (none) "cache_scan P f off m = None" and "\<And>i. i \<in> slots m \<Longrightarrow> \<not> f (off + i)"
  | (some) m' where "cache_scan P f off m = Some m'" and "ok m'" and "slots m' \<noteq> {}" and "slots m' \<subseteq> slots m" and "f (off + Min (slots m'))"
      and "mk_next (kn_mask_ops (pm_kernel P)) m' = Min (slots m')" and "Min (slots m') \<in> slots m" and "Min (slots m') < ksize P"
proof -
  have "card (slots m) \<le> card {i. i < ksize P}" by (rule card_mono [OF _ assms(2)]) simp
  then have "card (slots m) \<le> ksize P" by simp
  from mask_find_ok [OF assms(1) this, of "\<lambda>i. f (off + i)"] show ?thesis
  proof (cases "cache_scan P f off m")
    case None
    then show ?thesis using none mask_find_ok [OF assms(1) \<open>card (slots m) \<le> ksize P\<close>, of "\<lambda>i. f (off + i)"]
      by (simp add: cache_scan_def)
  next
    case (Some m')
    then show ?thesis using some [of m'] assms(2) mask_find_ok [OF assms(1) \<open>card (slots m) \<le> ksize P\<close>, of "\<lambda>i. f (off + i)"]
      by (auto simp: cache_scan_def)
  qed
qed

section \<open>Stamps\<close>

lemma touch_ok:
  assumes sh: "cache_shape P n c" and b: "b < 2 ^ n div ksize P" and m: "ok m" "slots m \<noteq> {}"
  defines "c' \<equiv> cache_touch P (b * ksize P) m c"
  shows "c_keys c' = c_keys c" and "c_values c' = c_values c" and "c_blobs c' = c_blobs c" and "c_conf c' = c_conf c"
    and "c_bucket_mask c' = c_bucket_mask c" and "c_num_empty c' = c_num_empty c"
    and "length (c_states_and_lrus c') = length (c_states_and_lrus c)"
    and "\<And>q. q < 2 ^ n \<Longrightarrow> c_state P c' q = c_state P c q"
    and "\<And>q. q < 2 ^ n \<Longrightarrow> c_lru P c' q = (if q div ksize P = b
      then bump_lru (map (\<lambda>i. c_lru P c (b * ksize P + i)) [0..<ksize P]) (Min (slots m)) ! (q mod ksize P) else c_lru P c q)"
proof -
  let ?ls = "map (\<lambda>i. c_lru P c (b * ksize P + i)) [0..<ksize P]"
  have l: "length ?ls = kn_size (pm_kernel P)" by (simp add: kn_size)
  have L: "kn_store_lru (pm_kernel P) (kn_update_lru (pm_kernel P) (cache_load_lru P c (b * ksize P)) m) = bump_lru ?ls (Min (slots m))"
    unfolding cache_load_list(2) [OF sh b] by (rule update_lru_store [OF l m])
  have len: "length (c_states_and_lrus c) = 2 ^ n div ksize P * ksize P * 2" using sh shape_facts(1) [OF sh] by (simp add: cache_shape_def)
  have bl: "length (bump_lru ?ls (Min (slots m))) = ksize P" by (simp add: bump_lru_def)
  note mc = memcpy_lrus [OF ksize_pos len b bl, unfolded shape_facts(1) [OF sh]]
  show "c_keys c' = c_keys c" "c_values c' = c_values c" "c_blobs c' = c_blobs c" "c_conf c' = c_conf c"
    "c_bucket_mask c' = c_bucket_mask c" "c_num_empty c' = c_num_empty c" by (simp_all add: c'_def cache_touch_def)
  have sl: "c_states_and_lrus c' = memcpy (c_states_and_lrus c) (b * ksize P * 2 + ksize P) (bump_lru ?ls (Min (slots m)))"
    unfolding c'_def cache_touch_def L by simp
  show "length (c_states_and_lrus c') = length (c_states_and_lrus c)" unfolding sl by (rule mc(3) [of 0]) simp
  show "c_state P c' q = c_state P c q" if "q < 2 ^ n" for q unfolding c_state_def sl by (rule mc(1) [OF that])
  show "c_lru P c' q = (if q div ksize P = b then bump_lru ?ls (Min (slots m)) ! (q mod ksize P) else c_lru P c q)" if "q < 2 ^ n" for q
    using mc(2) [OF that] unfolding c_lru_def sl .
qed

text \<open>What a hit does: the stamps of one bucket change, nothing else.\<close>

definition touched :: "nat \<Rightarrow> ('k, 'v) cache_state \<Rightarrow> ('k, 'v) cache_state \<Rightarrow> bool" where
  "touched pos c c' \<longleftrightarrow> (\<forall>q<length (c_keys c). c_lru P c' q = (if q div ksize P = pos div ksize P
     then bump_lru (map (\<lambda>i. c_lru P c (pos div ksize P * ksize P + i)) [0..<ksize P]) (pos mod ksize P) ! (q mod ksize P) else c_lru P c q))"

lemma hit_ok:
  assumes inv: "cache_inv P c" and sh: "cache_shape P n c" and b: "b < 2 ^ n div ksize P" and m: "ok m" "slots m \<noteq> {}"
    and i: "Min (slots m) < ksize P"
  defines "c' \<equiv> cache_touch P (b * ksize P) m c"
  shows "cache_inv P c'" and "c_occ P c' = c_occ P c" and "cache_entry c' = cache_entry c" and "cache_entries P c' = cache_entries P c"
    and "touched (b * ksize P + Min (slots m)) c c'" and "cache_capacity P c' = cache_capacity P c" and "c_keys c' = c_keys c" and "c_conf c' = c_conf c"
proof -
  note t = touch_ok [OF sh b m, folded c'_def]
  have len: "length (c_keys c) = 2 ^ n" by (rule shape_facts(3) [OF sh])
  show occ: "c_occ P c' = c_occ P c" using t(8) by (auto simp: c_occ_def t(1) len)
  have ne: "c_num_empty c' = int (length (c_keys c)) - int (card (c_occ P c'))"
  proof -
    obtain k where k: "cache_shape P k c" "c_num_empty c = 2 ^ k - int (card (c_occ P c))" by (rule cache_invD [OF inv])
    then show ?thesis using shape_facts(3) [OF k(1)] occ t(6) by simp
  qed
  note cl = cache_clear_ok [OF inv t(1-5,7) _ ne]
  have st: "\<And>pos. pos < length (c_keys c) \<Longrightarrow> c_state P c' pos = c_state P c pos \<or> c_state P c' pos = empty_state"
    using t(8) len by simp
  show "cache_inv P c'" "cache_entry c' = cache_entry c" using cl(1,4) [OF st] by blast+
  show "cache_entries P c' = cache_entries P c" using cl(3) [OF st] by (simp add: occ cache_entries_def)
  show "touched (b * ksize P + Min (slots m)) c c'" using t(9) i by (simp add: touched_def len)
  show "cache_capacity P c' = cache_capacity P c" by (simp add: cache_capacity_def t(5))
  show "c_keys c' = c_keys c" "c_conf c' = c_conf c" by (rule t(1), rule t(4))
qed

section \<open>Lookup\<close>

text \<open>The search of a key's bucket for the key.\<close>

lemma key_scan:
  assumes inv: "cache_inv P c" and sh: "cache_shape P n c"
  obtains (absent) "cache_scan P (\<lambda>pos. c_keys c ! pos = key) (home_off P c key)
        (kn_mask (pm_kernel P) (cache_load P c (home_off P c key)) (pm_state P (pm_hash P key))) = None"
      and "\<And>pos. pos \<in> c_occ P c \<Longrightarrow> c_keys c ! pos \<noteq> key"
  | (present) b m where "cache_scan P (\<lambda>pos. c_keys c ! pos = key) (home_off P c key)
        (kn_mask (pm_kernel P) (cache_load P c (home_off P c key)) (pm_state P (pm_hash P key))) = Some m"
      and "home_off P c key = b * ksize P" and "b < 2 ^ n div ksize P" and "ok m" and "slots m \<noteq> {}" and "Min (slots m) < ksize P"
      and "mk_next (kn_mask_ops (pm_kernel P)) m = Min (slots m)" and "b * ksize P + Min (slots m) \<in> c_occ P c"
      and "c_keys c ! (b * ksize P + Min (slots m)) = key"
proof -
  obtain b where b: "b < 2 ^ n div ksize P" "home_off P c key = b * ksize P" by (rule home_bucket [OF sh])
  let ?s = "pm_state P (pm_hash P key)"
  have s: "is_hash ?s" by (simp add: pm_state_def)
  note cm = cache_masks [OF sh b(1)]
  have sub: "slots (kn_mask (pm_kernel P) (cache_load P c (b * ksize P)) ?s) \<subseteq> {i. i < ksize P}" using cm(3) [OF s] by blast
  show ?thesis
  proof (rule cache_scan_ok [OF cm(7) [OF s] sub])
    assume none: "cache_scan P (\<lambda>pos. c_keys c ! pos = key) (b * ksize P) (kn_mask (pm_kernel P) (cache_load P c (b * ksize P)) ?s) = None"
      and no: "\<And>i. i \<in> slots (kn_mask (pm_kernel P) (cache_load P c (b * ksize P)) ?s) \<Longrightarrow> c_keys c ! (b * ksize P + i) \<noteq> key"
    have "c_keys c ! pos \<noteq> key" if pos: "pos \<in> c_occ P c" for pos
    proof
      assume k: "c_keys c ! pos = key"
      obtain s1: "\<forall>pos \<in> c_occ P c. c_state P c pos = pm_state P (pm_hash P (c_keys c ! pos))"
        and h1: "\<forall>pos \<in> c_occ P c. pos div ksize P * ksize P = home_off P c (c_keys c ! pos)" by (rule cache_invD [OF inv])
      have "pos div ksize P * ksize P = b * ksize P" using h1 pos k b(2) by metis
      then have "pos div ksize P = b" using ksize_pos by simp
      then have p: "pos = b * ksize P + pos mod ksize P" by (metis div_mult_mod_eq)
      have "c_state P c pos = ?s" using s1 pos k by blast
      then have "c_state P c (b * ksize P + pos mod ksize P) = ?s" using p by simp
      then have "pos mod ksize P \<in> slots (kn_mask (pm_kernel P) (cache_load P c (b * ksize P)) ?s)" using cm(4) [OF s] by auto
      then show False using no [of "pos mod ksize P"] k p by simp
    qed
    then show ?thesis using absent none b(2) by simp
  next
    fix m' assume r: "cache_scan P (\<lambda>pos. c_keys c ! pos = key) (b * ksize P) (kn_mask (pm_kernel P) (cache_load P c (b * ksize P)) ?s) = Some m'"
      "ok m'" "slots m' \<noteq> {}" "slots m' \<subseteq> slots (kn_mask (pm_kernel P) (cache_load P c (b * ksize P)) ?s)"
      "c_keys c ! (b * ksize P + Min (slots m')) = key" "mk_next (kn_mask_ops (pm_kernel P)) m' = Min (slots m')"
      "Min (slots m') \<in> slots (kn_mask (pm_kernel P) (cache_load P c (b * ksize P)) ?s)" "Min (slots m') < ksize P"
    have "is_hash (c_state P c (b * ksize P + Min (slots m')))" using r(7) cm(3) [OF s] by blast
    then have "b * ksize P + Min (slots m') \<in> c_occ P c" using bucket_pos(4) [OF b(1) r(8) sh] by (simp add: c_occ_def)
    then show ?thesis using present [of m' b] r b by simp
  qed
qed

theorem cache_find_ok:
  assumes inv: "cache_inv P c"
  obtains (absent) "cache_find_first P key (pm_hash P key) c = ((None, cache_seq P (pm_hash P key)), c)"
      and "key \<notin># image_mset fst (cache_entries P c)"
  | (present) pos c' where "cache_find_first P key (pm_hash P key) c = ((Some pos, cache_seq P (pm_hash P key)), c')"
      and "pos \<in> c_occ P c" and "c_keys c ! pos = key" and "cache_inv P c'" and "c_occ P c' = c_occ P c"
      and "cache_entry c' = cache_entry c" and "cache_entries P c' = cache_entries P c" and "touched pos c c'"
      and "cache_capacity P c' = cache_capacity P c"
proof -
  obtain n where sh: "cache_shape P n c" by (rule cache_invD [OF inv])
  show ?thesis
  proof (rule key_scan [OF inv sh, of key])
    assume a: "cache_scan P (\<lambda>pos. c_keys c ! pos = key) (home_off P c key)
        (kn_mask (pm_kernel P) (cache_load P c (home_off P c key)) (pm_state P (pm_hash P key))) = None"
      and no: "\<And>pos. pos \<in> c_occ P c \<Longrightarrow> c_keys c ! pos \<noteq> key"
    have "cache_find_first P key (pm_hash P key) c = ((None, cache_seq P (pm_hash P key)), c)"
      using a by (simp add: cache_find_first_def home_off_def cache_hit_def)
    moreover have "key \<notin># image_mset fst (cache_entries P c)" unfolding key_in_cache using no by blast
    ultimately show ?thesis by (rule absent)
  next
    fix b m assume r: "cache_scan P (\<lambda>pos. c_keys c ! pos = key) (home_off P c key)
        (kn_mask (pm_kernel P) (cache_load P c (home_off P c key)) (pm_state P (pm_hash P key))) = Some m"
      "home_off P c key = b * ksize P" "b < 2 ^ n div ksize P" "ok m" "slots m \<noteq> {}" "Min (slots m) < ksize P"
      "mk_next (kn_mask_ops (pm_kernel P)) m = Min (slots m)" "b * ksize P + Min (slots m) \<in> c_occ P c"
      "c_keys c ! (b * ksize P + Min (slots m)) = key"
    note h = hit_ok [OF inv sh r(3-6)]
    have "cache_find_first P key (pm_hash P key) c
        = ((Some (b * ksize P + Min (slots m)), cache_seq P (pm_hash P key)), cache_touch P (b * ksize P) m c)"
      using r(1,2,7) by (simp add: cache_find_first_def home_off_def cache_hit_def Let_def)
    then show ?thesis by (rule present) (use r(8,9) h in simp_all)
  qed
qed

section \<open>Insertion\<close>

lemma place_ok:
  assumes inv: "cache_inv P c" and sh: "cache_shape P n c" and b: "b < 2 ^ n div ksize P" and i: "i < ksize P"
    and home: "home_off P c key = b * ksize P"
    and fresh: "has_duplicates P \<or> key \<notin># image_mset fst (cache_entries P c)"
    and op: "op = Op_insert \<longleftrightarrow> b * ksize P + i \<notin> c_occ P c"
  defines "c' \<equiv> cache_place P key (pm_state P (pm_hash P key)) (b * ksize P) i op c" and "pos \<equiv> b * ksize P + i"
  shows "cache_inv P c'" and "c_occ P c' = insert pos (c_occ P c)"
    and "cache_entries P c' = add_mset (cache_entry c' pos) (image_mset (cache_entry c) (mset_set (c_occ P c - {pos})))"
    and "cache_entry c' pos = (key, snd (cache_entry c pos))" and "cache_capacity P c' = cache_capacity P c"
    and "c_lru P c' pos = default_lru"
proof -
  note bp = bucket_pos [OF b i sh]
  have pd: "pos div ksize P * ksize P = home_off P c key" unfolding pos_def bp(2) home ..
  have pl: "pos < length (c_keys c)" using bp(4) by (simp add: pos_def)
  have len: "length (c_states_and_lrus c) = 2 ^ n div ksize P * ksize P * 2" using sh shape_facts(1) [OF sh] by (simp add: cache_shape_def)
  have pN: "pos < 2 ^ n div ksize P * ksize P" using bp(1) unfolding shape_facts(1) [OF sh] pos_def .
  have sl: "c_states_and_lrus c' = ((c_states_and_lrus c)[slot2 (ksize P) pos := pm_state P (pm_hash P key)])[ksize P + slot2 (ksize P) pos := default_lru]"
    by (simp add: c'_def cache_place_def pos_def slot2_form [OF i])
  have bd: "slot2 (ksize P) pos < length (c_states_and_lrus c)" "ksize P + slot2 (ksize P) pos < length (c_states_and_lrus c)"
    using slot2_bound [OF ksize_pos pN] len by simp_all
  have sp: "c_state P c' pos = pm_state P (pm_hash P key)" using bd by (simp add: c_state_def sl)
  have so: "c_state P c' q = c_state P c q" if "q \<noteq> pos" for q using that by (simp add: c_state_def sl)
  have k: "c_keys c' ! pos = key" using pl by (simp add: c'_def cache_place_def pos_def)
  have en: "cache_entry c' q = cache_entry c q" if "q \<noteq> pos" for q using that by (simp add: cache_entry_def c'_def cache_place_def pos_def)
  have fr: "c_keys c ! q \<noteq> key" if "\<not> has_duplicates P" "q \<in> c_occ P c" "q \<noteq> pos" for q
    using fresh that unfolding key_in_cache by blast
  have ne: "c_num_empty c' = c_num_empty c - of_bool (pos \<notin> c_occ P c)" using op by (simp add: c'_def cache_place_def pos_def)
  have same: "length (c_keys c') = length (c_keys c)" "length (c_values c') = length (c_values c)" "length (c_blobs c') = length (c_blobs c)"
    "length (c_states_and_lrus c') = length (c_states_and_lrus c)" "c_conf c' = c_conf c" "c_bucket_mask c' = c_bucket_mask c"
    by (simp_all add: c'_def cache_place_def)
  note put = cache_put_ok [OF inv pl pd same k sp so en fr ne]
  show "cache_inv P c'" "c_occ P c' = insert pos (c_occ P c)"
    "cache_entries P c' = add_mset (cache_entry c' pos) (image_mset (cache_entry c) (mset_set (c_occ P c - {pos})))"
    using put by blast+
  show "cache_entry c' pos = (key, snd (cache_entry c pos))" using k by (simp add: cache_entry_def c'_def cache_place_def)
  show "cache_capacity P c' = cache_capacity P c" by (simp add: cache_capacity_def same(6))
  show "c_lru P c' pos = default_lru" using bd by (simp add: c_lru_def sl)
qed

lemma entries_without:
  assumes "pos \<in> c_occ P c"
  shows "image_mset (cache_entry c) (mset_set (c_occ P c - {pos})) = cache_entries P c - {#cache_entry c pos#}"
proof -
  have "mset_set (c_occ P c) = add_mset pos (mset_set (c_occ P c - {pos}))" by (rule mset_set.remove [OF finite_c_occ assms])
  then show ?thesis by (simp add: cache_entries_def)
qed

theorem cache_insert_ok:
  assumes inv: "cache_inv P c" and nan: "\<not> pm_is_nan P key"
  obtains (found) pos c' where "cache_insert P key (pm_hash P key) c = Inr ((pos, Op_found, cache_seq P (pm_hash P key)), c')"
      and "\<not> has_duplicates P" and "pos \<in> c_occ P c" and "c_keys c ! pos = key" and "cache_inv P c'" and "c_occ P c' = c_occ P c"
      and "cache_entries P c' = cache_entries P c" and "touched pos c c'" and "cache_capacity P c' = cache_capacity P c"
      and "cache_entry c' = cache_entry c"
  | (inserted) pos c' where "cache_insert P key (pm_hash P key) c = Inr ((pos, Op_insert, cache_seq P (pm_hash P key)), c')"
      and "has_duplicates P \<or> key \<notin># image_mset fst (cache_entries P c)" and "pos \<notin> c_occ P c" and "cache_inv P c'"
      and "c_occ P c' = insert pos (c_occ P c)" and "cache_entries P c' = add_mset (key, snd (cache_entry c pos)) (cache_entries P c)"
      and "cache_capacity P c' = cache_capacity P c" and "c_lru P c' pos = default_lru"
      and "cache_entry c' pos = (key, snd (cache_entry c pos))"
  | (replaced) pos c' where "cache_insert P key (pm_hash P key) c = Inr ((pos, Op_replace, cache_seq P (pm_hash P key)), c')"
      and "has_duplicates P \<or> key \<notin># image_mset fst (cache_entries P c)" and "pos \<in> c_occ P c"
      and "\<And>q. q div ksize P = pos div ksize P \<Longrightarrow> q \<in> c_occ P c \<and> c_lru P c pos \<le> c_lru P c q" and "cache_inv P c'"
      and "c_occ P c' = c_occ P c" and "cache_entries P c' = add_mset (key, snd (cache_entry c pos)) (cache_entries P c - {#cache_entry c pos#})"
      and "cache_capacity P c' = cache_capacity P c" and "c_lru P c' pos = default_lru"
      and "cache_entry c' pos = (key, snd (cache_entry c pos))"
proof -
  obtain n where sh: "cache_shape P n c" by (rule cache_invD [OF inv])
  obtain b where b: "b < 2 ^ n div ksize P" "home_off P c key = b * ksize P" by (rule home_bucket [OF sh])
  let ?s = "pm_state P (pm_hash P key)" and ?h = "pm_hash P key" and ?K = "pm_kernel P"
  let ?scan = "cache_scan P (\<lambda>pos. c_keys c ! pos = key) (b * ksize P) (kn_mask ?K (cache_load P c (b * ksize P)) ?s)"
  let ?free = "kn_mask_not_hash ?K (cache_load P c (b * ksize P))"
  note cm = cache_masks [OF sh b(1)]
  have off: "cache_off P (c_bucket_mask c) ?h = b * ksize P" using b(2) by (simp add: home_off_def)
  show ?thesis
  proof (cases "\<not> has_duplicates P \<and> ?scan \<noteq> None")
    case True
    show ?thesis
    proof (rule key_scan [OF inv sh, of key, unfolded b(2)])
      assume "?scan = None"
      then show ?thesis using True by simp
    next
      fix b' m assume r: "?scan = Some m" "b * ksize P = b' * ksize P" "b' < 2 ^ n div ksize P" "ok m" "slots m \<noteq> {}" "Min (slots m) < ksize P"
        "mk_next (kn_mask_ops ?K) m = Min (slots m)" "b' * ksize P + Min (slots m) \<in> c_occ P c" "c_keys c ! (b' * ksize P + Min (slots m)) = key"
      note h = hit_ok [OF inv sh b(1) r(4-6)]
      have bb: "b' = b" using r(2) by (metis mult_right_cancel ksize_pos less_numeral_extra(3))
      have "cache_insert P key ?h c = Inr ((b * ksize P + Min (slots m), Op_found, cache_seq P ?h), cache_touch P (b * ksize P) m c)"
        using True r(1,7) nan by (simp add: cache_insert_def off Let_def)
      then show ?thesis by (rule found) (use True r(8,9) [unfolded bb] h in simp_all)
    qed
  next
    case False
    have fresh: "has_duplicates P \<or> key \<notin># image_mset fst (cache_entries P c)"
    proof (cases "has_duplicates P")
      case nd: False
      then have "?scan = None" using False by simp
      then show ?thesis
        using key_scan [OF inv sh, of key, unfolded b(2)] unfolding key_in_cache by (metis option.distinct(1))
    qed simp
    have r: "(if has_duplicates P then None else ?scan) = None" using False by auto
    show ?thesis
    proof (cases "slots ?free = {}")
      case False
      let ?i = "Min (slots ?free)"
      have hn: "mk_has_next (kn_mask_ops ?K) ?free" "mk_next (kn_mask_ops ?K) ?free = ?i"
        using False by (simp_all add: has_next_iff [OF cm(6)] next_slot [OF cm(6)])
      have "?i \<in> slots ?free" using False finite_slots [OF cm(6)] by simp
      then have i: "?i < ksize P" "\<not> is_hash (c_state P c (b * ksize P + ?i))" unfolding cm(2) by blast+
      then have no: "b * ksize P + ?i \<notin> c_occ P c" by (simp add: c_occ_def)
      note pl = place_ok [OF inv sh b(1) i(1) b(2) fresh, of Op_insert]
      have "cache_insert P key ?h c = Inr ((b * ksize P + ?i, Op_insert, cache_seq P ?h), cache_place P key ?s (b * ksize P) ?i Op_insert c)"
        unfolding cache_insert_def off Let_def r using nan hn by simp
      then show ?thesis
        by (rule inserted) (use pl no fresh in \<open>simp_all add: cache_entries_def\<close>)
    next
      case True
      let ?ls = "map (\<lambda>i. c_lru P c (b * ksize P + i)) [0..<ksize P]"
      obtain v i where mi: "kn_min_lru ?K (cache_load_lru P c (b * ksize P)) = (v, i)" by fastforce
      have ll: "length ?ls = kn_size ?K" by (simp add: kn_size)
      have fm: "first_min ?ls i" using min_lru_first [OF ll, of v i] mi unfolding cache_load_list(2) [OF sh b(1)] by blast
      then have i: "i < ksize P" and le: "\<And>j. j < ksize P \<Longrightarrow> c_lru P c (b * ksize P + i) \<le> c_lru P c (b * ksize P + j)"
        by (auto simp: first_min_def)
      have full: "is_hash (c_state P c (b * ksize P + j))" if "j < ksize P" for j using True that unfolding cm(2) by blast
      have sing: "mk_next (kn_mask_ops ?K) (kn_mask_min_lru ?K (cache_load_lru P c (b * ksize P))) = i"
        using mask_min_lru_ok [OF ll] mask_min_lru_nonempty [OF ll] mask_min_lru_first [OF ll] mi
        unfolding cache_load_list(2) [OF sh b(1)] by (simp add: next_slot)
      have hn: "\<not> mk_has_next (kn_mask_ops ?K) ?free" using True by (simp add: has_next_iff [OF cm(6)])
      have pos: "b * ksize P + i \<in> c_occ P c" using bucket_pos(4) [OF b(1) i sh] full [OF i] by (simp add: c_occ_def)
      note pl = place_ok [OF inv sh b(1) i b(2) fresh, of Op_replace]
      have all: "q \<in> c_occ P c \<and> c_lru P c (b * ksize P + i) \<le> c_lru P c q" if "q div ksize P = (b * ksize P + i) div ksize P" for q
      proof -
        have "q = b * ksize P + q mod ksize P" using that i by (metis bucket_pos(2) [OF b(1) i sh] div_mult_mod_eq)
        then show ?thesis using full [of "q mod ksize P"] le [of "q mod ksize P"] bucket_pos(4) [OF b(1) _ sh, of "q mod ksize P"]
          by (simp add: c_occ_def)
      qed
      have "cache_insert P key ?h c = Inr ((b * ksize P + i, Op_replace, cache_seq P ?h), cache_place P key ?s (b * ksize P) i Op_replace c)"
        unfolding cache_insert_def off Let_def r using nan hn sing by simp
      then show ?thesis
        by (rule replaced) (use pl pos all fresh entries_without [OF pos] in \<open>simp_all add: insert_absorb\<close>)
    qed
  qed
qed

end

end
