(* ===== verification/CacheErase.thy ===== *)
theory CacheErase
  imports CacheOps
begin

text \<open>
  Erasing, scrubbing, clearing and constructing a cache.
\<close>

context swiss_cache
begin

section \<open>Erasing slots\<close>

definition cerased :: "('k, 'v) cache_state \<Rightarrow> nat set \<Rightarrow> ('k, 'v) cache_state \<Rightarrow> bool" where
  "cerased c A c' \<longleftrightarrow> cache_inv P c' \<and> c_occ P c' = c_occ P c - A \<and> cache_entry c' = cache_entry c
     \<and> c_keys c' = c_keys c \<and> c_conf c' = c_conf c \<and> c_bucket_mask c' = c_bucket_mask c"

lemma cerased_refl: "cache_inv P c \<Longrightarrow> cerased c {} c"
  by (simp add: cerased_def)

lemma cerased_trans: "cerased c A c1 \<Longrightarrow> cerased c1 B c2 \<Longrightarrow> cerased c (A \<union> B) c2"
  by (auto simp: cerased_def)

lemma cerased_cong: "cerased c A c' \<Longrightarrow> c_occ P c \<inter> A = c_occ P c \<inter> B \<Longrightarrow> cerased c B c'"
  unfolding cerased_def by blast

lemma cerased_entries:
  assumes "cerased c A c'"
  shows "cache_entries P c' = image_mset (cache_entry c) (mset_set (c_occ P c - A))" and "cache_capacity P c' = cache_capacity P c"
  using assms by (simp_all add: cerased_def cache_entries_def cache_capacity_def)

lemma cerased_shape:
  assumes "cerased c A c'" and "cache_shape P n c"
  shows "cache_shape P n c'"
proof -
  obtain k where k: "cache_shape P k c'" using assms(1) unfolding cerased_def by (auto elim: cache_invD)
  have "(2 :: nat) ^ k = 2 ^ n" using shape_facts(3) [OF k] shape_facts(3) [OF assms(2)] assms(1) by (simp add: cerased_def)
  then show ?thesis using k by simp
qed

lemma cerased_count:
  assumes inv: "cache_inv P c" and er: "cerased c A c'"
  shows "c_num_empty c' - c_num_empty c = int (card (c_occ P c \<inter> A))"
proof -
  obtain n where n: "cache_shape P n c" "c_num_empty c = 2 ^ n - int (card (c_occ P c))" by (rule cache_invD [OF inv])
  obtain k where k: "cache_shape P k c'" "c_num_empty c' = 2 ^ k - int (card (c_occ P c'))"
    using er unfolding cerased_def by (auto elim: cache_invD)
  have "(2 :: nat) ^ k = 2 ^ n" using shape_facts(3) [OF k(1)] shape_facts(3) [OF n(1)] er by (simp add: cerased_def)
  then have "k = n" by simp
  moreover have "card (c_occ P c) = card (c_occ P c \<inter> A) + card (c_occ P c - A)"
    by (subst card_Un_disjoint [symmetric]) (auto intro: arg_cong [of _ _ card])
  ultimately show ?thesis using n(2) k(2) er by (simp add: cerased_def)
qed

lemma reset_slot_ok:
  assumes inv: "cache_inv P c" and pos: "pos \<in> c_occ P c"
  shows "cerased c {pos} (cache_reset_slot (slot2 (ksize P) pos) c)"
proof -
  obtain n where sh: "cache_shape P n c" and em: "c_num_empty c = 2 ^ n - int (card (c_occ P c))" by (rule cache_invD [OF inv])
  let ?c = "cache_reset_slot (slot2 (ksize P) pos) c"
  have len: "length (c_states_and_lrus c) = 2 ^ n div ksize P * ksize P * 2" using sh shape_facts(1) [OF sh] by (simp add: cache_shape_def)
  have pN: "pos < 2 ^ n div ksize P * ksize P"
    using pos unfolding shape_facts(1) [OF sh] by (simp add: c_occ_def shape_facts(3) [OF sh])
  have st: "c_state P ?c q = (if q = pos then empty_state else c_state P c q)" for q
    using slot2_bound(2) [OF ksize_pos pN] len by (simp add: c_state_def cache_reset_slot_def)
  have ky: "c_keys ?c = c_keys c" by (simp add: cache_reset_slot_def)
  have occ: "c_occ P ?c = c_occ P c - {pos}" unfolding c_occ_def ky st by auto
  have ne: "c_num_empty ?c = int (length (c_keys c)) - int (card (c_occ P ?c))"
  proof -
    have "0 < card (c_occ P c)" using pos by (auto simp: card_gt_0_iff)
    then show ?thesis using pos em unfolding occ shape_facts(3) [OF sh] by (simp add: cache_reset_slot_def of_nat_diff)
  qed
  have same: "c_keys ?c = c_keys c" "c_values ?c = c_values c" "c_blobs ?c = c_blobs c" "c_conf ?c = c_conf c"
    "c_bucket_mask ?c = c_bucket_mask c" "length (c_states_and_lrus ?c) = length (c_states_and_lrus c)"
    by (simp_all add: cache_reset_slot_def)
  note cl = cache_clear_ok [OF inv same _ ne]
  have "\<And>q. q < length (c_keys c) \<Longrightarrow> c_state P ?c q = c_state P c q \<or> c_state P ?c q = empty_state" by (simp add: st)
  then show ?thesis using cl(1,4) occ same unfolding cerased_def by blast
qed

lemma bury_list_ok:
  assumes "cache_inv P c" and "distinct xs" and "\<And>i. i \<in> set xs \<Longrightarrow> i < ksize P \<and> b * ksize P + i \<in> c_occ P c"
  shows "cerased c {b * ksize P + i | i. i \<in> set xs \<and> f (b * ksize P + i)}
    (fold (\<lambda>idx c. if f (b * ksize P + idx) then cache_reset_slot (b * ksize P * 2 + idx) c else c) xs c)"
  using assms
proof (induction xs arbitrary: c)
  case Nil
  then show ?case using cerased_refl by simp
next
  case (Cons x xs)
  let ?c = "if f (b * ksize P + x) then cache_reset_slot (b * ksize P * 2 + x) c else c"
  have x: "x < ksize P" "b * ksize P + x \<in> c_occ P c" using Cons.prems(3) [of x] by simp_all
  have e: "cerased c {b * ksize P + i | i. i = x \<and> f (b * ksize P + i)} ?c"
    using reset_slot_ok [OF Cons.prems(1) x(2)] cerased_refl [OF Cons.prems(1)] by (simp add: slot2_form [OF x(1)])
  have "i < ksize P \<and> b * ksize P + i \<in> c_occ P ?c" if "i \<in> set xs" for i
    using Cons.prems(2) Cons.prems(3) [of i] that e unfolding cerased_def by auto
  then have "cerased ?c {b * ksize P + i | i. i \<in> set xs \<and> f (b * ksize P + i)}
      (fold (\<lambda>idx c. if f (b * ksize P + idx) then cache_reset_slot (b * ksize P * 2 + idx) c else c) xs ?c)"
    using Cons.prems(2) e by (intro Cons.IH) (simp_all add: cerased_def)
  from cerased_trans [OF e this]
  have "cerased c {b * ksize P + i | i. i \<in> set (x # xs) \<and> f (b * ksize P + i)}
      (fold (\<lambda>idx c. if f (b * ksize P + idx) then cache_reset_slot (b * ksize P * 2 + idx) c else c) xs ?c)"
    by (rule cerased_cong) auto
  then show ?case by (simp only: fold_simps)
qed

lemma cache_bury_ok:
  assumes inv: "cache_inv P c" and m: "ok m" and sub: "slots m \<subseteq> {i. i < ksize P \<and> b * ksize P + i \<in> c_occ P c}"
  shows "cerased c {b * ksize P + i | i. i \<in> slots m \<and> f (b * ksize P + i)} (cache_bury P f (b * ksize P) m c)"
proof -
  have w: "set (walk P m) = slots m" "distinct (walk P m)" by (simp_all add: walk_def set_indices m distinct_indices)
  have "cerased c {b * ksize P + i | i. i \<in> set (walk P m) \<and> f (b * ksize P + i)} (cache_bury P f (b * ksize P) m c)"
    unfolding cache_bury_def by (rule bury_list_ok [OF inv w(2)]) (use sub w(1) in blast)
  then show ?thesis unfolding w(1) .
qed

section \<open>The erasures\<close>

theorem cache_erase_ok:
  assumes inv: "cache_inv P c"
  obtains (absent) "cache_erase_first P key (pm_hash P key) c = ((False, None, cache_seq P (pm_hash P key)), c)"
      and "key \<notin># image_mset fst (cache_entries P c)"
  | (gone) pos c' where "cache_erase_first P key (pm_hash P key) c = ((True, Some pos, cache_seq P (pm_hash P key)), c')"
      and "pos \<in> c_occ P c" and "c_keys c ! pos = key" and "cerased c {pos} c'"
proof -
  obtain n where sh: "cache_shape P n c" by (rule cache_invD [OF inv])
  show ?thesis
  proof (rule key_scan [OF inv sh, of key])
    assume a: "cache_scan P (\<lambda>pos. c_keys c ! pos = key) (home_off P c key)
        (kn_mask (pm_kernel P) (cache_load P c (home_off P c key)) (pm_state P (pm_hash P key))) = None"
      and no: "\<And>pos. pos \<in> c_occ P c \<Longrightarrow> c_keys c ! pos \<noteq> key"
    have "cache_erase_first P key (pm_hash P key) c = ((False, None, cache_seq P (pm_hash P key)), c)"
      using a by (simp add: cache_erase_first_def home_off_def cache_erase_hit_def)
    moreover have "key \<notin># image_mset fst (cache_entries P c)" unfolding key_in_cache using no by blast
    ultimately show ?thesis by (rule absent)
  next
    fix b m assume r: "cache_scan P (\<lambda>pos. c_keys c ! pos = key) (home_off P c key)
        (kn_mask (pm_kernel P) (cache_load P c (home_off P c key)) (pm_state P (pm_hash P key))) = Some m"
      "home_off P c key = b * ksize P" "Min (slots m) < ksize P"
      "mk_next (kn_mask_ops (pm_kernel P)) m = Min (slots m)" "b * ksize P + Min (slots m) \<in> c_occ P c"
      "c_keys c ! (b * ksize P + Min (slots m)) = key"
    have "cache_erase_first P key (pm_hash P key) c = ((True, Some (b * ksize P + Min (slots m)), cache_seq P (pm_hash P key)),
        cache_reset_slot (slot2 (ksize P) (b * ksize P + Min (slots m))) c)"
      using r(1,2,4) by (simp add: cache_erase_first_def home_off_def cache_erase_hit_def Let_def slot2_form [OF r(3)])
    then show ?thesis by (rule gone) (use r(5,6) reset_slot_ok [OF inv r(5)] in simp_all)
  qed
qed

theorem cache_erase_at_ok:
  assumes inv: "cache_inv P c" and pos: "pos < length (c_keys c)"
  obtains (free) "cache_erase_at P pos c = ((False, pos), c)" and "pos \<notin> c_occ P c"
  | (gone) c' where "cache_erase_at P pos c = ((True, pos), c')" and "pos \<in> c_occ P c" and "cerased c {pos} c'"
proof -
  obtain n where sh: "cache_shape P n c" by (rule cache_invD [OF inv])
  have k: "kbits P \<le> n" "n \<le> 62" using sh by (simp_all add: cache_shape_def)
  have "(2 :: nat) ^ n \<le> 2 ^ 62" using k(2) by (intro power_increasing) simp_all
  then have "pos < 2 ^ 63" using pos shape_facts(3) [OF sh] by simp
  then have p2: "pos_to_pos2 (ksize P) pos = slot2 (ksize P) pos" using pos2_slot2 [OF size_power] k by simp
  show ?thesis
  proof (cases "pos \<in> c_occ P c")
    case True
    then have "cache_erase_at P pos c = ((True, pos), cache_reset_slot (slot2 (ksize P) pos) c)"
      by (simp add: cache_erase_at_def p2 c_occ_def c_state_def)
    then show ?thesis by (rule gone) (rule True, rule reset_slot_ok [OF inv True])
  next
    case False
    then have "cache_erase_at P pos c = ((False, pos), c)" using pos by (simp add: cache_erase_at_def p2 c_occ_def c_state_def)
    then show ?thesis using free False by blast
  qed
qed

lemma hash_mask_occ:
  assumes "cache_shape P n c" and "b < 2 ^ n div ksize P"
  shows "slots (kn_mask_hash (pm_kernel P) (cache_load P c (b * ksize P))) = {i. i < ksize P \<and> b * ksize P + i \<in> c_occ P c}"
  using cache_masks(1) [OF assms] bucket_pos(4) [OF assms(2) _ assms(1)] by (auto simp: c_occ_def)

lemma erase_buckets:
  assumes inv: "cache_inv P c" and sh: "cache_shape P n c" and j: "j \<le> 2 ^ n div ksize P"
  shows "cerased c {pos. pos div ksize P < j \<and> f pos}
    (fold (\<lambda>off c. cache_bury P f off (kn_mask_hash (pm_kernel P) (cache_load P c off)) c) (map (\<lambda>b. b * ksize P) [0..<j]) c)"
  using j
proof (induction j)
  case 0
  then show ?case using cerased_refl [OF inv] by simp
next
  case (Suc j)
  let ?c = "fold (\<lambda>off c. cache_bury P f off (kn_mask_hash (pm_kernel P) (cache_load P c off)) c) (map (\<lambda>b. b * ksize P) [0..<j]) c"
  have e: "cerased c {pos. pos div ksize P < j \<and> f pos} ?c" using Suc by simp
  have inv': "cache_inv P ?c" using e by (simp add: cerased_def)
  have sh': "cache_shape P n ?c" by (rule cerased_shape [OF e sh])
  have jb: "j < 2 ^ n div ksize P" using Suc.prems by simp
  note hm = hash_mask_occ [OF sh' jb]
  have "cerased ?c {j * ksize P + i | i. i \<in> slots (kn_mask_hash (pm_kernel P) (cache_load P ?c (j * ksize P))) \<and> f (j * ksize P + i)}
      (cache_bury P f (j * ksize P) (kn_mask_hash (pm_kernel P) (cache_load P ?c (j * ksize P))) ?c)"
    by (rule cache_bury_ok [OF inv' cache_masks(5) [OF sh' jb]]) (use hm in blast)
  from cerased_trans [OF e this] have "cerased c ({pos. pos div ksize P < j \<and> f pos}
      \<union> {j * ksize P + i | i. i \<in> {i. i < ksize P \<and> j * ksize P + i \<in> c_occ P ?c} \<and> f (j * ksize P + i)})
      (cache_bury P f (j * ksize P) (kn_mask_hash (pm_kernel P) (cache_load P ?c (j * ksize P))) ?c)" unfolding hm .
  then have "cerased c {pos. pos div ksize P < Suc j \<and> f pos}
      (cache_bury P f (j * ksize P) (kn_mask_hash (pm_kernel P) (cache_load P ?c (j * ksize P))) ?c)"
  proof (rule cerased_cong)
    have occ: "c_occ P ?c = c_occ P c - {pos. pos div ksize P < j \<and> f pos}" using e by (simp add: cerased_def)
    have "pos \<in> {j * ksize P + i | i. i \<in> {i. i < ksize P \<and> j * ksize P + i \<in> c_occ P ?c} \<and> f (j * ksize P + i)}"
      if "pos \<in> c_occ P c" "pos div ksize P = j" "f pos" for pos
    proof -
      have "pos = j * ksize P + pos mod ksize P" using that(2) by (metis div_mult_mod_eq)
      moreover have "pos \<in> c_occ P ?c" unfolding occ using that by simp
      moreover have "pos mod ksize P < ksize P" by simp
      ultimately show ?thesis using that(3) by (metis (mono_tags, lifting) mem_Collect_eq)
    qed
    then show "c_occ P c \<inter> ({pos. pos div ksize P < j \<and> f pos}
        \<union> {j * ksize P + i | i. i \<in> {i. i < ksize P \<and> j * ksize P + i \<in> c_occ P ?c} \<and> f (j * ksize P + i)})
      = c_occ P c \<inter> {pos. pos div ksize P < Suc j \<and> f pos}"
      by (auto simp: less_Suc_eq)
  qed
  then show ?case by simp
qed

theorem cache_erase_if_ok:
  assumes inv: "cache_inv P c"
  obtains c' where "cache_erase_if P f c = (int (card {pos \<in> c_occ P c. f pos}), c')" and "cerased c {pos. f pos} c'"
proof -
  obtain n where sh: "cache_shape P n c" by (rule cache_invD [OF inv])
  let ?c = "fold (\<lambda>off c. cache_bury P f off (kn_mask_hash (pm_kernel P) (cache_load P c off)) c) (bucket_offs P (cache_capacity P c)) c"
  have "cerased c {pos. pos div ksize P < 2 ^ n div ksize P \<and> f pos} ?c"
    using erase_buckets [OF inv sh order.refl] by (simp only: shape_facts(4,5) [OF sh])
  moreover have "c_occ P c \<inter> {pos. pos div ksize P < 2 ^ n div ksize P \<and> f pos} = c_occ P c \<inter> {pos. f pos}"
  proof -
    have "pos div ksize P < 2 ^ n div ksize P" if "pos \<in> c_occ P c" for pos
      using that shape_facts(1,3) [OF sh] by (simp add: c_occ_def div_less_iff_less_mult)
    then show ?thesis by blast
  qed
  ultimately have e: "cerased c {pos. f pos} ?c" by (rule cerased_cong)
  have "c_num_empty ?c - c_num_empty c = int (card {pos \<in> c_occ P c. f pos})"
    using cerased_count [OF inv e] by (simp add: Int_def)
  then show ?thesis using that [of ?c] e by (simp add: cache_erase_if_def Let_def)
qed

end

end
