(* ===== verification/CacheResize.thy ===== *)
theory CacheResize
  imports CacheErase
begin

text \<open>
  Clearing, constructing, scrubbing and resizing a cache. Scrubbing drops exactly the entries whose
  stamp is below the threshold. Resizing never invents entries, and growing keeps all of them.
\<close>

context swiss_cache
begin

theorem cache_erase_all_ok:
  assumes inv: "cache_inv P c"
  obtains c' where "cache_erase_all P key (pm_hash P key) c = (int (count (image_mset fst (cache_entries P c)) key), c')"
    and "cerased c {pos. c_keys c ! pos = key} c'"
proof -
  obtain n where sh: "cache_shape P n c" and s1: "\<forall>pos \<in> c_occ P c. c_state P c pos = pm_state P (pm_hash P (c_keys c ! pos))"
    and h1: "\<forall>pos \<in> c_occ P c. pos div ksize P * ksize P = home_off P c (c_keys c ! pos)" by (rule cache_invD [OF inv])
  obtain b where b: "b < 2 ^ n div ksize P" "home_off P c key = b * ksize P" by (rule home_bucket [OF sh])
  let ?s = "pm_state P (pm_hash P key)"
  let ?m = "kn_mask (pm_kernel P) (cache_load P c (b * ksize P)) ?s"
  have s: "is_hash ?s" by (simp add: pm_state_def)
  note cm = cache_masks [OF sh b(1)]
  let ?c = "cache_bury P (\<lambda>pos. c_keys c ! pos = key) (b * ksize P) ?m c"
  have "slots ?m \<subseteq> {i. i < ksize P \<and> b * ksize P + i \<in> c_occ P c}"
    using cm(3) [OF s] bucket_pos(4) [OF b(1) _ sh] by (auto simp: c_occ_def)
  from cache_bury_ok [OF inv cm(7) [OF s] this, of "\<lambda>pos. c_keys c ! pos = key"]
  have e: "cerased c {pos. c_keys c ! pos = key} ?c"
  proof (rule cerased_cong)
    have "pos \<in> {b * ksize P + i | i. i \<in> slots ?m \<and> c_keys c ! (b * ksize P + i) = key}" if "pos \<in> c_occ P c" "c_keys c ! pos = key" for pos
    proof -
      have "pos div ksize P * ksize P = b * ksize P" using h1 that b(2) by metis
      then have "pos div ksize P = b" by (metis mult_right_cancel ksize_pos less_numeral_extra(3))
      then have p: "pos = b * ksize P + pos mod ksize P" by (metis div_mult_mod_eq)
      have "c_state P c (b * ksize P + pos mod ksize P) = ?s" using s1 that p by metis
      then have "pos mod ksize P \<in> slots ?m" using cm(4) [OF s] by auto
      then show ?thesis using p that(2) by (metis (mono_tags, lifting) mem_Collect_eq)
    qed
    then show "c_occ P c \<inter> {b * ksize P + i | i. i \<in> slots ?m \<and> c_keys c ! (b * ksize P + i) = key}
      = c_occ P c \<inter> {pos. c_keys c ! pos = key}" by auto
  qed
  have "image_mset fst (cache_entries P c) = image_mset ((!) (c_keys c)) (mset_set (c_occ P c))"
    by (simp add: cache_entries_def cache_entry_def image_mset.compositionality comp_def)
  then have "count (image_mset fst (cache_entries P c)) key = card {pos \<in> c_occ P c. c_keys c ! pos = key}"
    by (simp add: count_image_mset' sum.If_cases Int_def conj_commute eq_commute [of key])
  then have "c_num_empty ?c - c_num_empty c = int (count (image_mset fst (cache_entries P c)) key)"
    using cerased_count [OF inv e] by (simp add: Int_def)
  then show ?thesis using that [of ?c] e b(2) by (simp add: cache_erase_all_def Let_def home_off_def)
qed

section \<open>Scrubbing\<close>

text \<open>The states after a list of bucket writes, read through \<open>c_state\<close>.\<close>

lemma write_states:
  assumes sh: "cache_shape P n c" and b: "b < 2 ^ n div ksize P" and L: "length L = ksize P"
  defines "c' \<equiv> c\<lparr>c_states_and_lrus := memcpy (c_states_and_lrus c) (b * ksize P * 2) L\<rparr>"
  shows "cache_shape P n c'" and "length (c_states_and_lrus c') = length (c_states_and_lrus c)"
    and "q < 2 ^ n \<Longrightarrow> c_state P c' q = (if q div ksize P = b then L ! (q mod ksize P) else c_state P c q)"
    and "q < 2 ^ n \<Longrightarrow> c_lru P c' q = c_lru P c q"
proof -
  have len: "length (c_states_and_lrus c) = 2 ^ n div ksize P * ksize P * 2" using sh shape_facts(1) [OF sh] by (simp add: cache_shape_def)
  note mc = memcpy_states [OF ksize_pos len b L, unfolded shape_facts(1) [OF sh]]
  show l: "length (c_states_and_lrus c') = length (c_states_and_lrus c)" unfolding c'_def by (simp add: mc(3) [of 0])
  then show "cache_shape P n c'" using sh by (simp add: cache_shape_def c'_def)
  show "c_state P c' q = (if q div ksize P = b then L ! (q mod ksize P) else c_state P c q)" if "q < 2 ^ n"
    using mc(1) [OF that] by (simp add: c_state_def c'_def)
  show "c_lru P c' q = c_lru P c q" if "q < 2 ^ n" using mc(2) [OF that] by (simp add: c_lru_def c'_def)
qed

lemma scrub_bucket_ok:
  assumes sh: "cache_shape P n c" and b: "b < 2 ^ n div ksize P"
    and v: "\<forall>q<2 ^ n. c_state P c q = empty_state \<or> is_hash (c_state P c q)"
  obtains c' where "cache_scrub_bucket P t (b * ksize P) (c, m) = (c', m + int (card {q \<in> c_occ P c. q div ksize P = b \<and> c_lru P c q < t}))"
    and "cache_shape P n c'" and "c' = c\<lparr>c_states_and_lrus := c_states_and_lrus c'\<rparr>"
    and "length (c_states_and_lrus c') = length (c_states_and_lrus c)"
    and "\<forall>q<2 ^ n. c_state P c' q = (if q div ksize P = b \<and> c_lru P c q < t then empty_state else c_state P c q)"
    and "\<forall>q<2 ^ n. c_lru P c' q = c_lru P c q"
proof -
  let ?K = "ksize P"
  let ?xs = "map (\<lambda>i. c_state P c (b * ?K + i)) [0..<?K]" and ?ls = "map (\<lambda>i. c_lru P c (b * ?K + i)) [0..<?K]"
  let ?L = "map2 (\<lambda>x l. if l < t then empty_state else x) ?xs ?ls"
  let ?k0 = "cache_load P c (b * ?K)"
  let ?k1 = "kn_to_empty_if_lru_below (pm_kernel P) ?k0 (cache_load_lru P c (b * ?K)) t"
  have l: "length ?xs = kn_size (pm_kernel P)" "length ?ls = kn_size (pm_kernel P)" "length ?L = kn_size (pm_kernel P)"
    by (simp_all add: kn_size)
  have k1: "?k1 = kn_load (pm_kernel P) ?L" unfolding cache_load_list [OF sh b] by (rule to_empty_lru_load [OF l(1,2)])
  have st: "kn_store (pm_kernel P) ?k1 = ?L" unfolding k1 by (rule store_load [OF l(3)])
  have "kn_count_not_equal (pm_kernel P) ?k0 ?k1 = card {i. i < ?K \<and> ?xs ! i \<noteq> ?L ! i}"
    unfolding k1 unfolding cache_load_list(1) [OF sh b] count_not_equal_card [OF l(1,3)] kn_size ..
  also have "{i. i < ?K \<and> ?xs ! i \<noteq> ?L ! i} = {i. i < ?K \<and> c_state P c (b * ?K + i) \<noteq> empty_state \<and> c_lru P c (b * ?K + i) < t}"
    by (auto split: if_splits)
  also have "card \<dots> = card ((\<lambda>i. b * ?K + i) ` {i. i < ?K \<and> c_state P c (b * ?K + i) \<noteq> empty_state \<and> c_lru P c (b * ?K + i) < t})"
    by (rule card_image [symmetric]) (simp add: inj_on_def)
  also have "(\<lambda>i. b * ?K + i) ` {i. i < ?K \<and> c_state P c (b * ?K + i) \<noteq> empty_state \<and> c_lru P c (b * ?K + i) < t}
      = {q \<in> c_occ P c. q div ?K = b \<and> c_lru P c q < t}"
  proof (intro set_eqI iffI)
    fix q assume "q \<in> {q \<in> c_occ P c. q div ?K = b \<and> c_lru P c q < t}"
    then have q: "q \<in> c_occ P c" "q div ?K = b" "c_lru P c q < t" by simp_all
    have e: "q = b * ?K + q mod ?K" using q(2) by (metis div_mult_mod_eq)
    have "c_state P c q \<noteq> empty_state" using q(1) by (auto simp: c_occ_def)
    then show "q \<in> (\<lambda>i. b * ?K + i) ` {i. i < ?K \<and> c_state P c (b * ?K + i) \<noteq> empty_state \<and> c_lru P c (b * ?K + i) < t}"
      using q(3) e by (intro image_eqI [of _ _ "q mod ?K"]) simp_all
  next
    fix q assume "q \<in> (\<lambda>i. b * ?K + i) ` {i. i < ?K \<and> c_state P c (b * ?K + i) \<noteq> empty_state \<and> c_lru P c (b * ?K + i) < t}"
    then obtain i where i: "q = b * ?K + i" "i < ?K" "c_state P c q \<noteq> empty_state" "c_lru P c q < t" by blast
    then have "is_hash (c_state P c q)" using v bucket_pos(1) [OF b i(2) sh] by blast
    then show "q \<in> {q \<in> c_occ P c. q div ?K = b \<and> c_lru P c q < t}"
      using i bucket_pos(2,4) [OF b i(2) sh] by (simp add: c_occ_def)
  qed
  finally have cnt: "kn_count_not_equal (pm_kernel P) ?k0 ?k1 = card {q \<in> c_occ P c. q div ?K = b \<and> c_lru P c q < t}" .
  let ?c = "c\<lparr>c_states_and_lrus := memcpy (c_states_and_lrus c) (b * ?K * 2) ?L\<rparr>"
  have lL: "length ?L = ?K" by simp
  note w = write_states [OF sh b lL]
  have "cache_scrub_bucket P t (b * ?K) (c, m) = (?c, m + int (card {q \<in> c_occ P c. q div ?K = b \<and> c_lru P c q < t}))"
    by (simp only: cache_scrub_bucket_def prod.case Let_def st cnt)
  then show ?thesis
  proof (rule that)
    have "c_state P ?c q = (if q div ?K = b \<and> c_lru P c q < t then empty_state else c_state P c q)" if q: "q < 2 ^ n" for q
    proof (cases "q div ?K = b")
      case True
      then have "q = b * ?K + q mod ?K" by (metis div_mult_mod_eq)
      then have "?L ! (q mod ?K) = (if c_lru P c q < t then empty_state else c_state P c q)" by simp
      then show ?thesis using w(3) [OF q] True by simp
    next
      case False
      then show ?thesis using w(3) [OF q] by simp
    qed
    then show "\<forall>q<2 ^ n. c_state P ?c q = (if q div ?K = b \<and> c_lru P c q < t then empty_state else c_state P c q)" by blast
  qed (use w in simp_all)
qed

lemma scrub_buckets:
  assumes inv: "cache_inv P c" and sh: "cache_shape P n c" and j: "j \<le> 2 ^ n div ksize P"
  shows "\<exists>c'. fold (cache_scrub_bucket P t) (map (\<lambda>b. b * ksize P) [0..<j]) (c, 0)
      = (c', int (card {q \<in> c_occ P c. q div ksize P < j \<and> c_lru P c q < t}))
    \<and> cache_shape P n c' \<and> c' = c\<lparr>c_states_and_lrus := c_states_and_lrus c'\<rparr>
    \<and> length (c_states_and_lrus c') = length (c_states_and_lrus c)
    \<and> (\<forall>q<2 ^ n. c_state P c' q = (if q div ksize P < j \<and> c_lru P c q < t then empty_state else c_state P c q))
    \<and> (\<forall>q<2 ^ n. c_lru P c' q = c_lru P c q)"
  using j
proof (induction j)
  case 0
  then show ?case using sh by simp
next
  case (Suc j)
  let ?K = "ksize P"
  obtain c1 where c1: "fold (cache_scrub_bucket P t) (map (\<lambda>b. b * ?K) [0..<j]) (c, 0)
      = (c1, int (card {q \<in> c_occ P c. q div ?K < j \<and> c_lru P c q < t}))" "cache_shape P n c1"
    "c1 = c\<lparr>c_states_and_lrus := c_states_and_lrus c1\<rparr>" "length (c_states_and_lrus c1) = length (c_states_and_lrus c)"
    "\<forall>q<2 ^ n. c_state P c1 q = (if q div ?K < j \<and> c_lru P c q < t then empty_state else c_state P c q)"
    "\<forall>q<2 ^ n. c_lru P c1 q = c_lru P c q" using Suc by auto
  obtain k where kk: "cache_shape P k c" "\<forall>pos<2 ^ k. c_state P c pos = empty_state \<or> is_hash (c_state P c pos)" by (rule cache_invD [OF inv])
  have "(2 :: nat) ^ k = 2 ^ n" using shape_facts(3) [OF kk(1)] shape_facts(3) [OF sh] by simp
  then have v: "\<forall>q<2 ^ n. c_state P c1 q = empty_state \<or> is_hash (c_state P c1 q)" using kk(2) c1(5) by simp
  have jb: "j < 2 ^ n div ?K" using Suc.prems by simp
  obtain c2 where c2: "cache_scrub_bucket P t (j * ?K) (c1, int (card {q \<in> c_occ P c. q div ?K < j \<and> c_lru P c q < t}))
      = (c2, int (card {q \<in> c_occ P c. q div ?K < j \<and> c_lru P c q < t}) + int (card {q \<in> c_occ P c1. q div ?K = j \<and> c_lru P c1 q < t}))"
    "cache_shape P n c2" "c2 = c1\<lparr>c_states_and_lrus := c_states_and_lrus c2\<rparr>"
    "length (c_states_and_lrus c2) = length (c_states_and_lrus c1)"
    "\<forall>q<2 ^ n. c_state P c2 q = (if q div ?K = j \<and> c_lru P c1 q < t then empty_state else c_state P c1 q)"
    "\<forall>q<2 ^ n. c_lru P c2 q = c_lru P c1 q" by (rule scrub_bucket_ok [OF c1(2) jb v])
  have ky: "c_keys c1 = c_keys c" by (subst c1(3)) simp
  have len: "length (c_keys c) = 2 ^ n" by (rule shape_facts(3) [OF sh])
  have eq: "{q \<in> c_occ P c1. q div ?K = j \<and> c_lru P c1 q < t} = {q \<in> c_occ P c. q div ?K = j \<and> c_lru P c q < t}"
    using c1(5,6) by (auto simp: c_occ_def ky len)
  have "{q \<in> c_occ P c. q div ?K < Suc j \<and> c_lru P c q < t}
      = {q \<in> c_occ P c. q div ?K < j \<and> c_lru P c q < t} \<union> {q \<in> c_occ P c. q div ?K = j \<and> c_lru P c q < t}" by auto
  then have card: "card {q \<in> c_occ P c. q div ?K < Suc j \<and> c_lru P c q < t}
      = card {q \<in> c_occ P c. q div ?K < j \<and> c_lru P c q < t} + card {q \<in> c_occ P c. q div ?K = j \<and> c_lru P c q < t}"
    by (simp only:) (rule card_Un_disjoint, auto)
  have "c2 = c\<lparr>c_states_and_lrus := c_states_and_lrus c2\<rparr>" by (subst c2(3), subst c1(3)) simp
  moreover have "\<forall>q<2 ^ n. c_state P c2 q = (if q div ?K < Suc j \<and> c_lru P c q < t then empty_state else c_state P c q)"
    using c1(5,6) c2(5) by (auto simp: less_Suc_eq)
  ultimately show ?case using c1(1,4,6) c2(1,2,4,6) by (intro exI [of _ c2]) (simp add: eq card)
qed

theorem cache_scrub_ok:
  assumes inv: "cache_inv P c"
  obtains c' where "cache_scrub P t c = (int (card {q \<in> c_occ P c. t \<noteq> max_lru \<and> c_lru P c q < t}), c')"
    and "cerased c {q. t \<noteq> max_lru \<and> c_lru P c q < t} c'"
proof (cases "t \<ge> max_lru")
  case True
  have "t \<le> max_lru" using uint_lt2p [of t] by (simp add: max_lru_def word_le_def)
  then have "t = max_lru" using True by simp
  then show ?thesis using that [of c] cerased_refl [OF inv] by (simp add: cache_scrub_def)
next
  case False
  then have tm: "t \<noteq> max_lru" by auto
  obtain n where sh: "cache_shape P n c" and em: "c_num_empty c = 2 ^ n - int (card (c_occ P c))" by (rule cache_invD [OF inv])
  let ?K = "ksize P"
  obtain c1 where c1: "fold (cache_scrub_bucket P t) (map (\<lambda>b. b * ?K) [0..<2 ^ n div ?K]) (c, 0)
      = (c1, int (card {q \<in> c_occ P c. q div ?K < 2 ^ n div ?K \<and> c_lru P c q < t}))"
    "c1 = c\<lparr>c_states_and_lrus := c_states_and_lrus c1\<rparr>" "length (c_states_and_lrus c1) = length (c_states_and_lrus c)"
    "\<forall>q<2 ^ n. c_state P c1 q = (if q div ?K < 2 ^ n div ?K \<and> c_lru P c q < t then empty_state else c_state P c q)"
    using scrub_buckets [OF inv sh order.refl] by blast
  have dq: "q div ?K < 2 ^ n div ?K" if "q < 2 ^ n" for q
    using that shape_facts(1) [OF sh] by (simp add: div_less_iff_less_mult)
  have len: "length (c_keys c) = 2 ^ n" by (rule shape_facts(3) [OF sh])
  have num: "{q \<in> c_occ P c. q div ?K < 2 ^ n div ?K \<and> c_lru P c q < t} = {q \<in> c_occ P c. c_lru P c q < t}"
    using dq by (auto simp: c_occ_def len)
  let ?n = "int (card {q \<in> c_occ P c. c_lru P c q < t})"
  let ?c = "c1\<lparr>c_num_empty := c_num_empty c1 + ?n\<rparr>"
  have same1: "c_keys c1 = c_keys c" "c_values c1 = c_values c" "c_blobs c1 = c_blobs c" "c_conf c1 = c_conf c"
    "c_bucket_mask c1 = c_bucket_mask c" "c_num_empty c1 = c_num_empty c"
    by (subst c1(2), simp)+
  have st: "c_state P ?c q = (if c_lru P c q < t then empty_state else c_state P c q)" if "q < 2 ^ n" for q
    using c1(4) dq [OF that] that by (simp add: c_state_def)
  have occ: "c_occ P ?c = c_occ P c - {q. c_lru P c q < t}" using st by (auto simp: c_occ_def same1 len split: if_splits)
  have "card (c_occ P c) = card {q \<in> c_occ P c. c_lru P c q < t} + card (c_occ P c - {q. c_lru P c q < t})"
    by (subst card_Un_disjoint [symmetric]) (auto intro: arg_cong [of _ _ card])
  then have ne: "c_num_empty ?c = int (length (c_keys c)) - int (card (c_occ P ?c))"
    unfolding occ using em by (simp add: same1 len)
  have stc: "c_state P ?c q = c_state P c q \<or> c_state P ?c q = empty_state" if "q < length (c_keys c)" for q using st [of q] that len by simp
  have "cache_inv P ?c \<and> cache_entry ?c = cache_entry c"
    using cache_clear_ok(1,4) [OF inv _ _ _ _ _ _ stc ne] same1 c1(3) by simp
  then have e: "cerased c {q. c_lru P c q < t} ?c" using occ same1 by (simp add: cerased_def)
  have "cache_scrub P t c = (?n, ?c)"
    using False c1(1) by (simp add: cache_scrub_def shape_facts(4,5) [OF sh] num)
  then show ?thesis using that [of ?c] e tm by simp
qed

section \<open>Clearing and construction\<close>

lemma reset_buckets:
  assumes sh: "cache_shape P n c" and j: "j \<le> 2 ^ n div ksize P"
  shows "\<exists>sl. fold (\<lambda>off sl. memcpy (memcpy sl (off * 2) (replicate (ksize P) empty_state)) (off * 2 + ksize P) (replicate (ksize P) max_lru))
      (map (\<lambda>b. b * ksize P) [0..<j]) (c_states_and_lrus c) = sl
    \<and> length sl = length (c_states_and_lrus c)
    \<and> (\<forall>q<2 ^ n. q div ksize P < j \<longrightarrow> sl ! slot2 (ksize P) q = empty_state \<and> sl ! (ksize P + slot2 (ksize P) q) = max_lru)"
  using j
proof (induction j)
  case (Suc j)
  let ?K = "ksize P"
  obtain sl where sl: "fold (\<lambda>off sl. memcpy (memcpy sl (off * 2) (replicate ?K empty_state)) (off * 2 + ?K) (replicate ?K max_lru))
      (map (\<lambda>b. b * ?K) [0..<j]) (c_states_and_lrus c) = sl" "length sl = length (c_states_and_lrus c)"
    "\<forall>q<2 ^ n. q div ?K < j \<longrightarrow> sl ! slot2 ?K q = empty_state \<and> sl ! (?K + slot2 ?K q) = max_lru" using Suc by auto
  have len: "length sl = 2 ^ n div ?K * ?K * 2" using sh shape_facts(1) [OF sh] sl(2) by (simp add: cache_shape_def)
  have jb: "j < 2 ^ n div ?K" using Suc.prems by simp
  have r: "length (replicate ?K empty_state) = ?K" "length (replicate ?K max_lru) = ?K" by simp_all
  let ?s1 = "memcpy sl (j * ?K * 2) (replicate ?K empty_state)"
  note m1 = memcpy_states [OF ksize_pos len jb r(1), unfolded shape_facts(1) [OF sh]]
  have len1: "length ?s1 = 2 ^ n div ?K * ?K * 2" using m1(3) [of 0] len by simp
  note m2 = memcpy_lrus [OF ksize_pos len1 jb r(2), unfolded shape_facts(1) [OF sh]]
  have "memcpy ?s1 (j * ?K * 2 + ?K) (replicate ?K max_lru) ! slot2 ?K q = empty_state
      \<and> memcpy ?s1 (j * ?K * 2 + ?K) (replicate ?K max_lru) ! (?K + slot2 ?K q) = max_lru" if "q < 2 ^ n" "q div ?K < Suc j" for q
    using m1(1,2) [OF that(1)] m2(1,2) [OF that(1)] sl(3) that by (auto simp: less_Suc_eq)
  moreover have "length (memcpy ?s1 (j * ?K * 2 + ?K) (replicate ?K max_lru)) = length (c_states_and_lrus c)"
    using m2(3) [of 0] len1 len sl(2) by simp
  ultimately show ?case using sl(1) by simp
qed simp

lemma cache_reset_ok:
  assumes sh: "cache_shape P n c" and cf: "conf_ok (kbits P) (c_conf c)" and mc: "min_capacity (c_conf c) \<le> 2 ^ n"
  obtains c' where "cache_reset P c = (2 ^ n, c')" and "cache_inv P c'" and "cache_shape P n c'" and "c_occ P c' = {}"
    and "c_conf c' = c_conf c" and "c_num_empty c' = 2 ^ n" and "cache_entries P c' = {#}"
    and "\<forall>q<2 ^ n. c_lru P c' q = max_lru"
proof -
  let ?K = "ksize P"
  obtain sl where sl: "fold (\<lambda>off sl. memcpy (memcpy sl (off * 2) (replicate ?K empty_state)) (off * 2 + ?K) (replicate ?K max_lru))
      (map (\<lambda>b. b * ?K) [0..<2 ^ n div ?K]) (c_states_and_lrus c) = sl" "length sl = length (c_states_and_lrus c)"
    "\<forall>q<2 ^ n. q div ?K < 2 ^ n div ?K \<longrightarrow> sl ! slot2 ?K q = empty_state \<and> sl ! (?K + slot2 ?K q) = max_lru"
    using reset_buckets [OF sh order.refl] by blast
  let ?c = "c\<lparr>c_states_and_lrus := sl, c_num_empty := 2 ^ n\<rparr>"
  have r: "cache_reset P c = (2 ^ n, ?c)" using sl(1) by (simp add: cache_reset_def Let_def shape_facts(4,5) [OF sh])
  have dq: "q div ?K < 2 ^ n div ?K" if "q < 2 ^ n" for q
    using that shape_facts(1) [OF sh] by (simp add: div_less_iff_less_mult)
  have st: "c_state P ?c q = empty_state" "c_lru P ?c q = max_lru" if "q < 2 ^ n" for q
    using sl(3) dq [OF that] that by (simp_all add: c_state_def c_lru_def)
  have sh': "cache_shape P n ?c" using sh sl(2) by (simp add: cache_shape_def)
  have occ: "c_occ P ?c = {}" using st(1) shape_facts(3) [OF sh] by (auto simp: c_occ_def)
  have "cache_inv P ?c"
    unfolding cache_inv_def by (rule exI [of _ n]) (use sh' cf mc st(1) occ in simp)
  then show ?thesis using that [OF r _ sh' occ] occ st(2) by (simp add: cache_entries_def)
qed

theorem make_cache_ok:
  assumes cf: "conf_ok (kbits P) cf" and k: "kbits P \<le> 62"
  obtains c where "make_cache P cf = Inr c" and "cache_inv P c" and "cache_entries P c = {#}" and "c_conf c = cf"
    and "cache_capacity P c = init_capacity cf"
proof -
  obtain a b where ab: "a \<le> b" "b \<le> 62" "min_capacity cf = 2 ^ a" "init_capacity cf = 2 ^ b"
    and v: "is_valid (2 ^ kbits P) cf" and bl: "blob_size cf \<le> blob_stride cf" using cf by (auto simp: conf_ok_def)
  obtain a' where a': "min_capacity cf = 2 ^ a'" "kbits P \<le> a'" by (rule conf_ok_power [OF cf k])
  have "a = a'" using ab(3) a'(1) by simp
  let ?c = "\<lparr>c_conf = cf, c_bucket_mask = make_aligned_mask (2 ^ b) (int (ksize P)), c_values = replicate (nat (2 ^ b)) (pm_fresh_value P),
    c_blobs = replicate (nat (2 ^ b * blob_stride cf)) (pm_fresh_byte P), c_keys = replicate (nat (2 ^ b)) (pm_fresh_key P),
    c_states_and_lrus = replicate (nat (2 ^ b * 2)) (pm_fresh_state P), c_num_empty = 0\<rparr>"
  have sh: "cache_shape P b ?c"
    using ab a'(2) \<open>a = a'\<close> bl by (simp add: cache_shape_def size_power nat_mult_distrib nat_power_eq nat_mono)
  have mc: "min_capacity (c_conf ?c) \<le> 2 ^ b" using ab by simp
  obtain c' where c': "cache_reset P ?c = (2 ^ b, c')" "cache_inv P c'" "cache_shape P b c'" "c_conf c' = c_conf ?c" "cache_entries P c' = {#}"
    by (rule cache_reset_ok [OF sh _ mc]) (use cf in simp_all)
  have "make_cache P cf = Inr c'" using v c'(1) by (simp add: make_cache_def size_power Let_def ab(4))
  then show ?thesis using that c' shape_facts(4) [OF c'(3)] ab(4) by simp
qed

theorem cache_clear_all_ok:
  assumes inv: "cache_inv P c"
  obtains c' where "cache_clear P c = (cache_capacity P c, c')" and "cache_inv P c'" and "cache_entries P c' = {#}"
    and "cache_capacity P c' = cache_capacity P c"
proof -
  obtain n where n: "cache_shape P n c" "conf_ok (kbits P) (c_conf c)" "min_capacity (c_conf c) \<le> 2 ^ n" by (rule cache_invD [OF inv])
  obtain c' where "cache_reset P c = (2 ^ n, c')" "cache_inv P c'" "cache_shape P n c'" "cache_entries P c' = {#}"
    by (rule cache_reset_ok [OF n])
  then show ?thesis using that [of c'] shape_facts(4) n(1) by (simp add: cache_clear_def)
qed

end

end
