(* ===== verification/CacheGrow.thy ===== *)
theory CacheGrow
  imports CacheResize ConfProps
begin

text \<open>
  Resizing a cache: the entries move to a fresh table. One that finds its bucket full displaces the
  entry with the least stamp or is dropped, so a resized cache never holds an entry the old one did
  not hold; in a table at least as large every bucket has room for the entries that share it.
\<close>

text \<open>The counter is corrected at the end only; nothing reads it before.\<close>

lemma cache_entry_num_empty [simp]: "cache_entry (c\<lparr>c_num_empty := x\<rparr>) = cache_entry c"
  by (rule ext) (simp add: cache_entry_def)

lemma num_empty_free [simp]:
  "c_state P (c\<lparr>c_num_empty := x\<rparr>) = c_state P c" "c_lru P (c\<lparr>c_num_empty := x\<rparr>) = c_lru P c"
  "c_occ P (c\<lparr>c_num_empty := x\<rparr>) = c_occ P c"
  "cache_entries P (c\<lparr>c_num_empty := x\<rparr>) = cache_entries P c" "home_off P (c\<lparr>c_num_empty := x\<rparr>) = home_off P c"
  "cache_load P (c\<lparr>c_num_empty := x\<rparr>) = cache_load P c" "cache_load_lru P (c\<lparr>c_num_empty := x\<rparr>) = cache_load_lru P c"
  "cache_capacity P (c\<lparr>c_num_empty := x\<rparr>) = cache_capacity P c" "cache_shape P n (c\<lparr>c_num_empty := x\<rparr>) = cache_shape P n c"
  by (simp_all add: fun_eq_iff c_state_def c_lru_def c_occ_def cache_entries_def home_off_def cache_load_def
    cache_load_lru_def cache_capacity_def cache_shape_def)

context swiss_cache
begin

lemma move_ok:
  assumes inv: "cache_inv P c" and sh: "cache_shape P f c" and src: "cache_shape P n src" and cf: "c_conf c = c_conf src"
    and b: "b < 2 ^ f div ksize P" and i: "i < ksize P" and p: "o1 + i1 = p" "p < 2 ^ n"
    and home: "home_off P c (c_keys src ! p) = b * ksize P"
    and fresh: "\<And>q. \<not> has_duplicates P \<Longrightarrow> q \<in> c_occ P c \<Longrightarrow> q \<noteq> b * ksize P + i \<Longrightarrow> c_keys c ! q \<noteq> c_keys src ! p"
  defines "pos \<equiv> b * ksize P + i"
  assumes c'_def: "c' = (cache_move P src o1 i1 (pm_hash P (c_keys src ! p)) (b * ksize P) i l c)
      \<lparr>c_num_empty := c_num_empty c - of_bool (pos \<notin> c_occ P c)\<rparr>"
  shows "cache_inv P c'" and "c_occ P c' = insert pos (c_occ P c)"
    and "cache_entries P c' = add_mset (cache_entry src p) (image_mset (cache_entry c) (mset_set (c_occ P c - {pos})))"
    and "cache_shape P f c'" and "c_conf c' = c_conf c" and "c_bucket_mask c' = c_bucket_mask c"
proof -
  let ?st = "nat (blob_stride (c_conf c))" and ?sz = "nat (blob_size (c_conf c))"
  let ?blob = "take ?sz (drop (p * ?st) (c_blobs src))"
  note bp = bucket_pos [OF b i sh]
  have pl: "pos < length (c_keys c)" "pos < 2 ^ f" using bp(1,4) by (simp_all add: pos_def)
  have pd: "pos div ksize P * ksize P = home_off P c (c_keys src ! p)" unfolding pos_def bp(2) home ..
  have len: "length (c_states_and_lrus c) = 2 ^ f div ksize P * ksize P * 2" using sh shape_facts(1) [OF sh] by (simp add: cache_shape_def)
  have "pos < 2 ^ f div ksize P * ksize P" using pl(2) unfolding shape_facts(1) [OF sh] .
  then have bd: "slot2 (ksize P) pos < length (c_states_and_lrus c)" "ksize P + slot2 (ksize P) pos < length (c_states_and_lrus c)"
    using slot2_bound [OF ksize_pos] len by simp_all
  have sl: "c_states_and_lrus c' = ((c_states_and_lrus c)[slot2 (ksize P) pos := pm_state P (pm_hash P (c_keys src ! p))])[ksize P + slot2 (ksize P) pos := l]"
    by (simp add: c'_def cache_move_def Let_def pos_def slot2_form [OF i])
  have fields: "c_keys c' = (c_keys c)[pos := c_keys src ! p]" "c_values c' = (c_values c)[pos := c_values src ! p]"
    "c_blobs c' = memcpy (c_blobs c) (pos * ?st) ?blob" "c_conf c' = c_conf c" "c_bucket_mask c' = c_bucket_mask c"
    "c_num_empty c' = c_num_empty c - of_bool (pos \<notin> c_occ P c)"
    using p(1) by (simp_all add: c'_def cache_move_def Let_def pos_def)
  have le: "?sz \<le> ?st" and bl: "length (c_blobs c) = 2 ^ f * ?st" and bl0: "length (c_blobs src) = 2 ^ n * ?st"
    and vl: "length (c_values c) = 2 ^ f"
    using sh src by (simp_all add: cache_shape_def cf)
  have "Suc p * ?st \<le> 2 ^ n * ?st" using p(2) by (intro mult_le_mono1) simp
  then have lb: "length ?blob = ?sz" using le by (simp add: bl0)
  have "Suc pos * ?st \<le> 2 ^ f * ?st" using pl(2) by (intro mult_le_mono1) simp
  then have room: "pos * ?st + length ?blob \<le> length (c_blobs c)" using le by (simp only: lb bl) simp
  have entry: "cache_entry c' pos = cache_entry src p"
    using slice_memcpy_same [OF room] pl lb vl by (simp add: cache_entry_def fields cf)
  have other: "cache_entry c' q = cache_entry c q" if "q \<in> c_occ P c" "q \<noteq> pos" for q
  proof -
    have "q < 2 ^ f" using that(1) shape_facts(3) [OF sh] by (simp add: c_occ_def)
    from slice_memcpy_other [OF not_sym [OF that(2)] le lb pl(2) this bl] show ?thesis using that by (simp add: cache_entry_def fields)
  qed
  have lens: "length (c_keys c') = length (c_keys c)" "length (c_values c') = length (c_values c)"
    "length (c_blobs c') = length (c_blobs c)" "length (c_states_and_lrus c') = length (c_states_and_lrus c)"
    using length_memcpy [OF room] by (simp_all add: fields sl)
  have key: "c_keys c' ! pos = c_keys src ! p" using pl by (simp add: fields)
  have st: "c_state P c' pos = pm_state P (pm_hash P (c_keys src ! p))" using bd by (simp add: c_state_def sl)
  have so: "c_state P c' q = c_state P c q" if "q \<noteq> pos" for q using that by (simp add: c_state_def sl)
  note put = cache_put_ok [OF inv pl(1) pd lens fields(4,5) key st so other fresh [folded pos_def] fields(6)]
  show "cache_inv P c'" "c_occ P c' = insert pos (c_occ P c)" using put by blast+
  show "cache_entries P c' = add_mset (cache_entry src p) (image_mset (cache_entry c) (mset_set (c_occ P c - {pos})))"
    using put(3) entry by simp
  show "cache_shape P f c'" using sh lens by (simp add: cache_shape_def fields)
  show "c_conf c' = c_conf c" "c_bucket_mask c' = c_bucket_mask c" by (rule fields)+
qed

lemma home_coarser:
  assumes "cache_shape P n src" and "cache_shape P f c" and "n \<le> f" and "home_off P c k1 = home_off P c k2"
  shows "home_off P src k1 = home_off P src k2"
proof -
  have k: "kbits P \<le> n" "n \<le> 62" "kbits P \<le> f" "f \<le> 62" and bm: "c_bucket_mask src = make_aligned_mask (2 ^ n) (2 ^ kbits P)"
    "c_bucket_mask c = make_aligned_mask (2 ^ f) (2 ^ kbits P)"
    using assms(1,2) by (simp_all add: cache_shape_def)
  let ?x = "\<lambda>k. unat (hash_to_pos (pm_layout P) (kbits P) (pm_hash P k)) div ksize P"
  have "?x k1 mod 2 ^ (f - kbits P) = ?x k2 mod 2 ^ (f - kbits P)"
    using assms(4) by (simp add: home_off_def bm cache_off_mod [OF k(3,4)] ksize_pos [THEN gr_implies_not0])
  then have "?x k1 mod 2 ^ (f - kbits P) mod 2 ^ (n - kbits P) = ?x k2 mod 2 ^ (f - kbits P) mod 2 ^ (n - kbits P)" by simp
  moreover have "(2 :: nat) ^ (n - kbits P) dvd 2 ^ (f - kbits P)" using assms(3) by (intro le_imp_power_dvd) simp
  ultimately have "?x k1 mod 2 ^ (n - kbits P) = ?x k2 mod 2 ^ (n - kbits P)" by (simp only: mod_mod_cancel)
  then show ?thesis by (simp add: home_off_def bm cache_off_mod [OF k(1,2)])
qed

text \<open>What holds while the entries at the positions \<open>ps\<close> have been moved.\<close>

definition moved :: "('k, 'v) cache_state \<Rightarrow> nat \<Rightarrow> nat \<Rightarrow> nat list \<Rightarrow> ('k, 'v) cache_state \<Rightarrow> int \<Rightarrow> bool" where
  "moved src n f ps c num \<longleftrightarrow> cache_inv P (c\<lparr>c_num_empty := c_num_empty c - num\<rparr>) \<and> cache_shape P f c \<and> c_conf c = c_conf src
     \<and> cache_entries P c \<subseteq># image_mset (cache_entry src) (mset ps)
     \<and> (n \<le> f \<longrightarrow> cache_entries P c = image_mset (cache_entry src) (mset ps))"

lemma same_home_count:
  assumes inv: "cache_inv P src" and sh: "cache_shape P n src" and ps: "distinct ps" "set ps \<subseteq> c_occ P src - {p}" and p: "p \<in> c_occ P src"
  shows "length (filter (\<lambda>q. home_off P src (c_keys src ! q) = home_off P src (c_keys src ! p)) ps) < ksize P"
proof -
  let ?f = "\<lambda>q. home_off P src (c_keys src ! q) = home_off P src (c_keys src ! p)"
  let ?B = "{q. q div ksize P = p div ksize P}"
  obtain h: "\<forall>pos \<in> c_occ P src. pos div ksize P * ksize P = home_off P src (c_keys src ! pos)" by (rule cache_invD [OF inv])
  have B: "?B = (\<lambda>i. p div ksize P * ksize P + i) ` {i. i < ksize P}"
  proof (intro set_eqI iffI)
    fix q assume "q \<in> ?B"
    then have d: "q div ksize P = p div ksize P" by simp
    have "q = p div ksize P * ksize P + q mod ksize P" unfolding d [symmetric] by (rule div_mult_mod_eq [symmetric])
    then show "q \<in> (\<lambda>i. p div ksize P * ksize P + i) ` {i. i < ksize P}" by (intro image_eqI [of _ _ "q mod ksize P"]) simp_all
  qed auto
  have card: "card ?B = ksize P" unfolding B by (subst card_image) (simp_all add: inj_on_def)
  have fin: "finite ?B" unfolding B by simp
  have sub: "set (filter ?f ps) \<subseteq> ?B - {p}"
  proof
    fix q assume "q \<in> set (filter ?f ps)"
    then have q: "q \<in> set ps" "?f q" by simp_all
    then have "q div ksize P * ksize P = p div ksize P * ksize P" using h ps(2) p by auto
    then have "q div ksize P = p div ksize P" by (metis mult_right_cancel ksize_pos less_numeral_extra(3))
    then show "q \<in> ?B - {p}" using ps(2) q(1) by auto
  qed
  have "length (filter ?f ps) = card (set (filter ?f ps))" by (rule distinct_card [symmetric]) (simp add: ps(1))
  also have "\<dots> \<le> card (?B - {p})" using sub fin by (intro card_mono) simp_all
  also have "\<dots> < ksize P" using card fin by (simp add: card_Diff_subset)
  finally show ?thesis .
qed

text \<open>In a table at least as large, the bucket of the next entry has a free slot.\<close>

lemma room_for_next:
  assumes inv: "cache_inv P src" and sh: "cache_shape P n src" and ps: "distinct ps" "set ps \<subseteq> c_occ P src - {p}" and p: "p \<in> c_occ P src"
    and mv: "moved src n f ps c num" and nf: "n \<le> f" and b: "b < 2 ^ f div ksize P" and home: "home_off P c (c_keys src ! p) = b * ksize P"
  shows "\<exists>i<ksize P. \<not> is_hash (c_state P c (b * ksize P + i))"
proof (rule ccontr)
  assume "\<not> (\<exists>i<ksize P. \<not> is_hash (c_state P c (b * ksize P + i)))"
  then have full: "is_hash (c_state P c (b * ksize P + i))" if "i < ksize P" for i using that by blast
  let ?h = "\<lambda>key. home_off P c key = b * ksize P"
  have m: "cache_inv P (c\<lparr>c_num_empty := c_num_empty c - num\<rparr>)" "cache_shape P f c"
    "cache_entries P c = image_mset (cache_entry src) (mset ps)" using mv nf by (simp_all add: moved_def)
  obtain hc: "\<forall>pos \<in> c_occ P c. pos div ksize P * ksize P = home_off P c (c_keys c ! pos)" by (rule cache_invD [OF m(1)]) simp
  let ?B = "(\<lambda>i. b * ksize P + i) ` {i. i < ksize P}"
  have "?B \<subseteq> {q \<in> c_occ P c. ?h (c_keys c ! q)}"
  proof
    fix q assume "q \<in> ?B"
    then obtain i where i: "i < ksize P" "q = b * ksize P + i" by blast
    have q: "q \<in> c_occ P c" using bucket_pos(4) [OF b i(1) m(2)] full [OF i(1)] i(2) by (simp add: c_occ_def)
    have "home_off P c (c_keys c ! q) = q div ksize P * ksize P" using hc q by simp
    also have "\<dots> = b * ksize P" unfolding i(2) bucket_pos(2) [OF b i(1) m(2)] ..
    finally show "q \<in> {q \<in> c_occ P c. ?h (c_keys c ! q)}" using q by simp
  qed
  then have "card ?B \<le> card {q \<in> c_occ P c. ?h (c_keys c ! q)}" by (rule card_mono [rotated]) simp
  moreover have "card ?B = ksize P" by (subst card_image) (simp_all add: inj_on_def)
  moreover have "card {q \<in> c_occ P c. ?h (c_keys c ! q)} = size (filter_mset (\<lambda>e. ?h (fst e)) (cache_entries P c))"
    by (simp add: cache_entries_def filter_mset_image_mset comp_def cache_entry_def)
  moreover have "size (filter_mset (\<lambda>e. ?h (fst e)) (cache_entries P c)) = length (filter (\<lambda>q. ?h (c_keys src ! q)) ps)"
    unfolding m(3) by (simp add: filter_mset_image_mset comp_def cache_entry_def flip: mset_filter)
  moreover have "length (filter (\<lambda>q. ?h (c_keys src ! q)) ps)
      \<le> length (filter (\<lambda>q. home_off P src (c_keys src ! q) = home_off P src (c_keys src ! p)) ps)"
  proof -
    have "home_off P src (c_keys src ! q) = home_off P src (c_keys src ! p)" if "?h (c_keys src ! q)" for q
      by (rule home_coarser [OF sh m(2) nf]) (simp only: that home)
    then show ?thesis by (induction ps) auto
  qed
  ultimately show False using same_home_count [OF inv sh ps p] by linarith
qed

text \<open>One entry moves.\<close>

lemma moved_fresh:
  assumes inv: "cache_inv P src" and mv: "moved src n f ps c num" and ps: "set ps \<subseteq> c_occ P src - {p}" and p: "p \<in> c_occ P src"
    and nd: "\<not> has_duplicates P" and q: "q \<in> c_occ P c"
  shows "c_keys c ! q \<noteq> c_keys src ! p"
proof
  assume eq: "c_keys c ! q = c_keys src ! p"
  obtain k: "has_duplicates P \<or> inj_on ((!) (c_keys src)) (c_occ P src)" by (rule cache_invD [OF inv])
  have "cache_entry c q \<in># cache_entries P c" using q by (simp add: cache_entries_def)
  then have "cache_entry c q \<in># image_mset (cache_entry src) (mset ps)" using mv unfolding moved_def by (blast dest: mset_subset_eqD)
  then obtain r where r: "r \<in> set ps" "cache_entry c q = cache_entry src r" by auto
  then have "c_keys src ! r = c_keys src ! p" using eq by (simp add: cache_entry_def)
  moreover have "r \<in> c_occ P src" "r \<noteq> p" using r(1) ps by auto
  ultimately show False using k nd p by (auto simp: inj_on_def)
qed

lemma moved_put:
  assumes inv: "cache_inv P src" and sh: "cache_shape P n src" and mv: "moved src n f ps c num"
    and ps: "set ps \<subseteq> c_occ P src - {p}" and p: "p \<in> c_occ P src" "o1 + i1 = p"
    and b: "b < 2 ^ f div ksize P" and i: "i < ksize P" and home: "home_off P c (c_keys src ! p) = b * ksize P"
    and full: "b * ksize P + i \<in> c_occ P c \<Longrightarrow> f < n" and num': "num' = num + of_bool (b * ksize P + i \<notin> c_occ P c)"
  shows "moved src n f (ps @ [p]) (cache_move P src o1 i1 (pm_hash P (c_keys src ! p)) (b * ksize P) i l c) num'"
proof -
  let ?c = "c\<lparr>c_num_empty := c_num_empty c - num\<rparr>" and ?pos = "b * ksize P + i"
  let ?d = "cache_move P src o1 i1 (pm_hash P (c_keys src ! p)) (b * ksize P) i l c"
  have m: "cache_inv P ?c" "cache_shape P f c" "c_conf c = c_conf src" "cache_entries P c \<subseteq># image_mset (cache_entry src) (mset ps)"
    "n \<le> f \<longrightarrow> cache_entries P c = image_mset (cache_entry src) (mset ps)" using mv by (simp_all add: moved_def)
  have pn: "p < 2 ^ n" using p(1) shape_facts(3) [OF sh] by (simp add: c_occ_def)
  have d: "?d\<lparr>c_num_empty := c_num_empty ?d - num'\<rparr> = (cache_move P src o1 i1 (pm_hash P (c_keys src ! p)) (b * ksize P) i l ?c)
      \<lparr>c_num_empty := c_num_empty ?c - of_bool (?pos \<notin> c_occ P ?c)\<rparr>"
    by (simp add: cache_move_def Let_def num')
  have fresh: "c_keys ?c ! q \<noteq> c_keys src ! p" if "\<not> has_duplicates P" "q \<in> c_occ P ?c" for q
    using moved_fresh [OF inv mv ps p(1) that(1)] that(2) by simp
  have sh': "cache_shape P f ?c" "c_conf ?c = c_conf src" "home_off P ?c (c_keys src ! p) = b * ksize P" using m home by simp_all
  note mo = move_ok [OF m(1) sh'(1) sh sh'(2) b i p(2) pn sh'(3) fresh d]
  have "cache_shape P f ?d" "c_conf ?d = c_conf src" using mo(4,5) m(3) by simp_all
  moreover have e: "cache_entries P ?d = add_mset (cache_entry src p) (image_mset (cache_entry c) (mset_set (c_occ P c - {?pos})))"
    using mo(3) by simp
  moreover have "image_mset (cache_entry c) (mset_set (c_occ P c - {?pos})) \<subseteq># cache_entries P c"
    unfolding cache_entries_def by (intro image_mset_subseteq_mono subset_imp_msubset_mset_set) auto
  moreover have "image_mset (cache_entry c) (mset_set (c_occ P c - {?pos})) = cache_entries P c" if "n \<le> f"
  proof -
    have "?pos \<notin> c_occ P c" using full that by auto
    then show ?thesis by (simp add: cache_entries_def)
  qed
  ultimately show ?thesis
    using mo(1) m(4,5) by (auto simp: moved_def intro: subset_mset.order_trans)
qed

lemma resize_one_ok:
  assumes inv: "cache_inv P src" and sh: "cache_shape P n src" and mv: "moved src n f ps c num"
    and ps: "distinct ps" "set ps \<subseteq> c_occ P src - {p}" and p: "p \<in> c_occ P src" "o1 + i1 = p" and st: "o1 * 2 + i1 = slot2 (ksize P) p"
  shows "\<exists>c' num'. cache_resize_one P src (o1, i1) (c, num) = (c', num') \<and> moved src n f (ps @ [p]) c' num' \<and> c_num_empty c' = c_num_empty c"
proof -
  let ?K = "pm_kernel P" and ?key = "c_keys src ! p" and ?l = "c_lru P src p"
  have m: "cache_shape P f c" using mv by (simp add: moved_def)
  obtain b where b: "b < 2 ^ f div ksize P" "home_off P c ?key = b * ksize P" by (rule home_bucket [OF m])
  let ?h = "pm_hash P ?key"
  have off: "cache_off P (c_bucket_mask c) ?h = b * ksize P" using b(2) by (simp add: home_off_def)
  have l: "c_states_and_lrus src ! (ksize P + (o1 * 2 + i1)) = ?l" by (simp add: c_lru_def st)
  let ?free = "kn_mask_not_hash ?K (cache_load P c (b * ksize P))"
  note cm = cache_masks [OF m b(1)]
  note put = moved_put [OF inv sh mv ps(2) p b(1) _ b(2)]
  have ne: "c_num_empty (cache_move P src o1 i1 ?h (b * ksize P) i ?l c) = c_num_empty c" for i by (simp add: cache_move_def Let_def)
  show ?thesis
  proof (cases "slots ?free = {}")
    case False
    let ?i = "Min (slots ?free)"
    have hn: "mk_has_next (kn_mask_ops ?K) ?free" "mk_next (kn_mask_ops ?K) ?free = ?i"
      using False by (simp_all add: has_next_iff [OF cm(6)] next_slot [OF cm(6)])
    have "?i \<in> slots ?free" using False finite_slots [OF cm(6)] by simp
    then have i: "?i < ksize P" "\<not> is_hash (c_state P c (b * ksize P + ?i))" unfolding cm(2) by blast+
    then have no: "b * ksize P + ?i \<notin> c_occ P c" by (simp add: c_occ_def)
    have "cache_resize_one P src (o1, i1) (c, num) = (cache_move P src o1 i1 ?h (b * ksize P) ?i ?l c, num + 1)"
      using hn by (simp add: cache_resize_one_def Let_def p(2) off l)
    moreover have "moved src n f (ps @ [p]) (cache_move P src o1 i1 ?h (b * ksize P) ?i ?l c) (num + 1)"
      by (rule put) (use i no in simp_all)
    ultimately show ?thesis using ne by blast
  next
    case True
    let ?ls = "map (\<lambda>i. c_lru P c (b * ksize P + i)) [0..<ksize P]"
    obtain v i where mi: "kn_min_lru ?K (cache_load_lru P c (b * ksize P)) = (v, i)" by fastforce
    have ll: "length ?ls = kn_size ?K" by (simp add: kn_size)
    have "first_min ?ls i" using min_lru_first [OF ll, of v i] mi unfolding cache_load_list(2) [OF m b(1)] by blast
    then have i: "i < ksize P" by (simp add: first_min_def)
    have full: "is_hash (c_state P c (b * ksize P + j))" if "j < ksize P" for j using True that unfolding cm(2) by blast
    have less: "f < n" using room_for_next [OF inv sh ps p(1) mv _ b] full by (meson not_le)
    have pos: "b * ksize P + i \<in> c_occ P c" using bucket_pos(4) [OF b(1) i m] full [OF i] by (simp add: c_occ_def)
    have hn: "\<not> mk_has_next (kn_mask_ops ?K) ?free" using True by (simp add: has_next_iff [OF cm(6)])
    show ?thesis
    proof (cases "?l < v")
      case True
      then have "cache_resize_one P src (o1, i1) (c, num) = (c, num)" using hn mi by (simp add: cache_resize_one_def Let_def p(2) off l)
      moreover have "moved src n f (ps @ [p]) c num"
        using mv less subset_mset.order_trans [OF _ mset_subset_eq_add_left, of "cache_entries P c" "image_mset (cache_entry src) (mset ps)" "{#cache_entry src p#}"]
        by (simp add: moved_def)
      ultimately show ?thesis by blast
    next
      case False
      then have "cache_resize_one P src (o1, i1) (c, num) = (cache_move P src o1 i1 ?h (b * ksize P) i ?l c, num)"
        using hn mi by (simp add: cache_resize_one_def Let_def p(2) off l)
      moreover have "moved src n f (ps @ [p]) (cache_move P src o1 i1 ?h (b * ksize P) i ?l c) num"
        by (rule put) (use i less pos in simp_all)
      ultimately show ?thesis using ne by blast
    qed
  qed
qed

section \<open>The whole table\<close>

lemma distinct_buckets:
  assumes "\<And>b. b < N \<Longrightarrow> distinct (f b)" and "\<And>b. b < N \<Longrightarrow> \<forall>q \<in> set (f b). g q = b"
  shows "distinct (concat (map f [0..<N]))"
  using assms
proof (induction N)
  case (Suc N)
  then have "distinct (concat (map f [0..<N]))" by simp
  moreover have "q \<notin> set (f N)" if "b < N" "q \<in> set (f b)" for b q
    using Suc.prems(2) [of b] Suc.prems(2) [of N] that by force
  ultimately show ?case using Suc.prems(1) [of N] by auto
qed simp

lemma cache_slots_ok:
  assumes sh: "cache_shape P n c"
  shows "distinct (cache_for_each P c)" and "set (cache_for_each P c) = c_occ P c"
    and "\<forall>(o1, i1) \<in> set (cache_slots P c). o1 * 2 + i1 = slot2 (ksize P) (o1 + i1)"
proof -
  let ?ix = "\<lambda>b. walk P (kn_mask_hash (pm_kernel P) (cache_load P c (b * ksize P)))"
  have ix: "set (?ix b) = {i. i < ksize P \<and> is_hash (c_state P c (b * ksize P + i))}" "distinct (?ix b)"
    if b: "b < 2 ^ n div ksize P" for b
    using cache_masks(1,5) [OF sh b] by (simp_all add: walk_def set_indices distinct_indices)
  have fe: "cache_for_each P c = concat (map (\<lambda>b. map (\<lambda>i. b * ksize P + i) (?ix b)) [0..<2 ^ n div ksize P])"
    by (simp add: cache_for_each_def cache_slots_def shape_facts(4,5) [OF sh] map_concat comp_def)
  show "set (cache_for_each P c) = c_occ P c"
  proof (intro set_eqI iffI)
    fix q assume "q \<in> set (cache_for_each P c)"
    then obtain b i where "b < 2 ^ n div ksize P" "i < ksize P" "is_hash (c_state P c (b * ksize P + i))" "q = b * ksize P + i"
      using ix(1) by (auto simp: fe)
    then show "q \<in> c_occ P c" using bucket_pos(4) [OF _ _ sh] by (simp add: c_occ_def)
  next
    fix q assume q: "q \<in> c_occ P c"
    then have "q < 2 ^ n div ksize P * ksize P" unfolding shape_facts(1) [OF sh] by (simp add: c_occ_def shape_facts(3) [OF sh])
    then have b: "q div ksize P < 2 ^ n div ksize P" by (simp add: div_less_iff_less_mult)
    have "q mod ksize P \<in> set (?ix (q div ksize P))" using q unfolding ix(1) [OF b] by (simp add: c_occ_def)
    then have "q div ksize P * ksize P + q mod ksize P \<in> (\<lambda>i. q div ksize P * ksize P + i) ` set (?ix (q div ksize P))" by (rule imageI)
    then have "q \<in> (\<lambda>i. q div ksize P * ksize P + i) ` set (?ix (q div ksize P))" by (simp only: div_mult_mod_eq)
    then show "q \<in> set (cache_for_each P c)" using b by (auto simp: fe intro!: bexI [of _ "q div ksize P"])
  qed
  show "distinct (cache_for_each P c)"
    unfolding fe
  proof (rule distinct_buckets [of _ _ "\<lambda>q. q div ksize P"])
    fix b assume b: "b < 2 ^ n div ksize P"
    show "distinct (map (\<lambda>i. b * ksize P + i) (?ix b))" using ix(2) [OF b] by (simp add: distinct_map)
    show "\<forall>q \<in> set (map (\<lambda>i. b * ksize P + i) (?ix b)). q div ksize P = b" using ix(1) [OF b] by auto
  qed
  show "\<forall>(o1, i1) \<in> set (cache_slots P c). o1 * 2 + i1 = slot2 (ksize P) (o1 + i1)"
    using ix(1) slot2_form by (auto simp: cache_slots_def shape_facts(4,5) [OF sh])
qed

lemma resize_fold:
  assumes inv: "cache_inv P src" and sh: "cache_shape P n src"
  shows "\<lbrakk>moved src n f ps c num; distinct (ps @ map (\<lambda>(o1, i1). o1 + i1) xs);
      set (ps @ map (\<lambda>(o1, i1). o1 + i1) xs) \<subseteq> c_occ P src; \<forall>(o1, i1) \<in> set xs. o1 * 2 + i1 = slot2 (ksize P) (o1 + i1)\<rbrakk>
    \<Longrightarrow> \<exists>c' num'. fold (cache_resize_one P src) xs (c, num) = (c', num')
      \<and> moved src n f (ps @ map (\<lambda>(o1, i1). o1 + i1) xs) c' num' \<and> c_num_empty c' = c_num_empty c"
proof (induction xs arbitrary: ps c num)
  case Nil
  then show ?case by simp
next
  case (Cons x xs)
  obtain o1 i1 where x: "x = (o1, i1)" by fastforce
  have d: "distinct ps" "set ps \<subseteq> c_occ P src - {o1 + i1}" "o1 + i1 \<in> c_occ P src" "o1 * 2 + i1 = slot2 (ksize P) (o1 + i1)"
    using Cons.prems by (auto simp: x)
  obtain c1 num1 where c1: "cache_resize_one P src (o1, i1) (c, num) = (c1, num1)" "moved src n f (ps @ [o1 + i1]) c1 num1"
    "c_num_empty c1 = c_num_empty c"
    using resize_one_ok [OF inv sh Cons.prems(1) d(1-3) refl d(4)] by blast
  have "\<exists>c' num'. fold (cache_resize_one P src) xs (c1, num1) = (c', num')
      \<and> moved src n f ((ps @ [o1 + i1]) @ map (\<lambda>(o1, i1). o1 + i1) xs) c' num' \<and> c_num_empty c' = c_num_empty c1"
    by (rule Cons.IH [OF c1(2)]) (use Cons.prems in \<open>simp_all add: x\<close>)
  then show ?case using c1 by (simp add: x)
qed

theorem cache_resize_ok:
  assumes inv: "cache_inv P c" and e: "e \<le> 62"
  obtains c' g where "cache_resize P (2 ^ e) c = (2 ^ g, c')" and "e \<le> g" and "cache_inv P c'" and "cache_capacity P c' = 2 ^ g"
    and "2 ^ g = max (2 ^ e) (min_capacity (c_conf c))" and "c_conf c' = c_conf c"
    and "cache_entries P c' \<subseteq># cache_entries P c" and "cache_capacity P c \<le> 2 ^ g \<longrightarrow> cache_entries P c' = cache_entries P c"
proof -
  obtain n where sh: "cache_shape P n c" and cf: "conf_ok (kbits P) (c_conf c)" by (rule cache_invD [OF inv])
  have k: "kbits P \<le> 62" using sh by (simp add: cache_shape_def)
  obtain a where a: "min_capacity (c_conf c) = 2 ^ a" "kbits P \<le> a" "a \<le> 62" by (rule conf_ok_power [OF cf k])
  let ?g = "max e a"
  have g: "max (2 ^ e) (min_capacity (c_conf c)) = 2 ^ ?g" unfolding a(1) by (rule max_power_2)
  show ?thesis
  proof (cases "?g = n")
    case True
    then have "cache_resize P (2 ^ e) c = (2 ^ ?g, c)" by (simp add: cache_resize_def g shape_facts(4) [OF sh] Let_def)
    then show ?thesis using that [of ?g c] inv True g by (simp add: shape_facts(4) [OF sh])
  next
    case False
    let ?a = "cache_alloc P (2 ^ ?g) c"
    have ng: "nat (2 ^ ?g) = 2 ^ ?g" by (simp add: nat_power_eq)
    have sa: "cache_shape P ?g ?a"
      using sh a e by (simp add: cache_shape_def cache_alloc_def size_power nat_mult_distrib ng)
    have mc: "min_capacity (c_conf ?a) \<le> 2 ^ ?g" using a(1) power_le_iff_2 [of a ?g] by (simp add: cache_alloc_def)
    have cfa: "conf_ok (kbits P) (c_conf ?a)" using cf by (simp add: cache_alloc_def)
    obtain r where r: "cache_reset P ?a = (2 ^ ?g, r)" "cache_inv P r" "cache_shape P ?g r" "c_occ P r = {}" "c_conf r = c_conf ?a"
      "c_num_empty r = 2 ^ ?g" "cache_entries P r = {#}" by (rule cache_reset_ok [OF sa cfa mc])
    have mv: "moved c n ?g [] r 0" using r(2,3,5,7) by (simp add: moved_def cache_alloc_def)
    note cs = cache_slots_ok [OF sh, unfolded cache_for_each_def]
    obtain c1 num where c1: "fold (cache_resize_one P c) (cache_slots P c) (r, 0) = (c1, num)"
      "moved c n ?g (map (\<lambda>(o1, i1). o1 + i1) (cache_slots P c)) c1 num"
      using resize_fold [OF inv sh mv, of "cache_slots P c"] cs by auto
    let ?c = "c1\<lparr>c_num_empty := c_num_empty c1 - num\<rparr>"
    have "mset (map (\<lambda>(o1, i1). o1 + i1) (cache_slots P c)) = mset_set (c_occ P c)"
      using cs by (metis mset_set_set)
    then have m: "cache_inv P ?c" "cache_shape P ?g c1" "c_conf c1 = c_conf c" "cache_entries P c1 \<subseteq># cache_entries P c"
      "n \<le> ?g \<longrightarrow> cache_entries P c1 = cache_entries P c"
      using c1(2) by (simp_all add: moved_def cache_entries_def [of P c])
    have "cache_resize P (2 ^ e) c = (2 ^ ?g, ?c)"
      using False r(1) c1(1) by (simp add: cache_resize_def g shape_facts(4) [OF sh] Let_def)
    then show ?thesis
      by (rule that) (use m g in \<open>simp_all add: shape_facts(4) [OF m(2)] shape_facts(4) [OF sh]\<close>)
  qed
qed

end

end
