(* ===== verification/CacheSpec.thy ===== *)
theory CacheSpec
  imports CacheGrow MapModels
begin

text \<open>
  What a cache promises: a bag of entries from which an insertion may evict one entry, scrubbing those
  with small stamps and resizing those that find no room, and every other call only what it is asked
  to. \<open>cache_exec\<close> runs a call on the model, \<open>cache_reach\<close> are the states a program can reach, and
  \<open>cache_exec_ok\<close> shows that every call does what \<open>cache_step\<close> allows.
\<close>

datatype ('k, 'v) cache_call =
    C_find 'k | C_put 'k 'v | C_erase 'k | C_erase_all 'k | C_erase_if "'k \<Rightarrow> bool"
  | C_clear | C_scrub lru_t | C_resize int | C_grow | C_shrink

definition cache_set_value :: "nat \<Rightarrow> 'v \<Rightarrow> ('k, 'v) cache_state \<Rightarrow> ('k, 'v) cache_state" where
  "cache_set_value pos v c = c\<lparr>c_values := (c_values c)[pos := v]\<rparr>"

fun cache_exec ::
    "('k, 'v, 'r, 'l, 'm, 'q) map_params \<Rightarrow> ('k, 'v) cache_call \<Rightarrow> ('k, 'v) cache_state
      \<Rightarrow> exn + int \<times> ('k, 'v) cache_state" where
  "cache_exec P (C_find k) c = Inr (let ((r, _), c') = cache_find_first P k (pm_hash P k) c in (of_bool (r \<noteq> None), c'))"
| "cache_exec P (C_put k v) c = map_sum id (\<lambda>((pos, op, _), c'). (of_bool (op = Op_replace), cache_set_value pos v c'))
     (cache_insert P k (pm_hash P k) c)"
| "cache_exec P (C_erase k) c = Inr (let ((b, _), c') = cache_erase_first P k (pm_hash P k) c in (of_bool b, c'))"
| "cache_exec P (C_erase_all k) c = Inr (cache_erase_all P k (pm_hash P k) c)"
| "cache_exec P (C_erase_if f) c = Inr (cache_erase_if P (\<lambda>pos. f (c_keys c ! pos)) c)"
| "cache_exec P C_clear c = Inr (cache_clear P c)"
| "cache_exec P (C_scrub t) c = Inr (cache_scrub P t c)"
| "cache_exec P (C_resize n) c = Inr (cache_resize_api P n c)"
| "cache_exec P C_grow c = Inr (cache_grow P c)"
| "cache_exec P C_shrink c = Inr (cache_shrink P c)"

fun cache_legal :: "('k, 'v, 'r, 'l, 'm, 'q) map_params \<Rightarrow> ('k, 'v) cache_call \<Rightarrow> bool" where
  "cache_legal P (C_put k v) \<longleftrightarrow> \<not> pm_is_nan P k"
| "cache_legal P (C_resize n) \<longleftrightarrow> 0 \<le> n \<and> n \<le> 2 ^ 62"
| "cache_legal P _ \<longleftrightarrow> True"

type_synonym ('k, 'v) cache_bag = "('k \<times> 'v \<times> u8 list) multiset"

text \<open>
  What a call may do to the bag \<open>E\<close> of a cache with the capacity \<open>cap\<close>. \<open>C_put\<close> returns whether it evicted: then
  one entry is lost beyond what the map would lose. The resizing calls return the new capacity, and lose
  entries only when it is smaller.
\<close>

fun cache_step :: "bool \<Rightarrow> ('k, 'v) cache_call \<Rightarrow> int \<Rightarrow> ('k, 'v) cache_bag \<Rightarrow> int \<Rightarrow> ('k, 'v) cache_bag \<Rightarrow> bool" where
  "cache_step dup (C_find k) cap E r E' \<longleftrightarrow> r = of_bool (k \<in># image_mset fst E) \<and> E' = E"
| "cache_step dup (C_put k v) cap E r E' \<longleftrightarrow> (\<exists>b E1. E' = add_mset (k, v, b) E1
     \<and> (r = 0 \<and> E1 = (if dup then E else filter_mset (\<lambda>e. fst e \<noteq> k) E)
        \<or> r = 1 \<and> (dup \<or> k \<notin># image_mset fst E) \<and> (\<exists>e. E = add_mset e E1)))"
| "cache_step dup (C_erase k) cap E r E' \<longleftrightarrow>
     (if k \<in># image_mset fst E then r = 1 \<and> (\<exists>v b. E = add_mset (k, v, b) E') else r = 0 \<and> E' = E)"
| "cache_step dup (C_erase_all k) cap E r E' \<longleftrightarrow> r = int (count (image_mset fst E) k) \<and> E' = filter_mset (\<lambda>e. fst e \<noteq> k) E"
| "cache_step dup (C_erase_if f) cap E r E' \<longleftrightarrow> r = int (size (filter_mset (\<lambda>e. f (fst e)) E)) \<and> E' = filter_mset (\<lambda>e. \<not> f (fst e)) E"
| "cache_step dup C_clear cap E r E' \<longleftrightarrow> E' = {#}"
| "cache_step dup (C_scrub t) cap E r E' \<longleftrightarrow> E' \<subseteq># E \<and> r = int (size E) - int (size E') \<and> (t = max_lru \<longrightarrow> E' = E)"
| "cache_step dup (C_resize n) cap E r E' \<longleftrightarrow> n \<le> r \<and> E' \<subseteq># E \<and> (cap \<le> r \<longrightarrow> E' = E)"
| "cache_step dup C_grow cap E r E' \<longleftrightarrow> 2 * cap \<le> r \<and> E' = E"
| "cache_step dup C_shrink cap E r E' \<longleftrightarrow> E' \<subseteq># E \<and> (cap \<le> r \<longrightarrow> E' = E)"

text \<open>
  The states a client reaches from a constructed cache, with the calls made, the capacity each started
  with, and their results.
\<close>

type_synonym ('k, 'v) cache_history = "(('k, 'v) cache_call \<times> int \<times> int) list"

inductive cache_reach ::
    "('k, 'v, 'r, 'l, 'm, 'q) map_params \<Rightarrow> conf \<Rightarrow> ('k, 'v) cache_history \<Rightarrow> ('k, 'v) cache_state \<Rightarrow> bool"
  for P :: "('k, 'v, 'r, 'l, 'm, 'q) map_params" and cf :: conf where
  start: "make_cache P cf = Inr c \<Longrightarrow> cache_reach P cf [] c"
| call: "cache_reach P cf xs c \<Longrightarrow> cache_capacity P c \<le> 2 ^ 61 \<Longrightarrow> cache_legal P x \<Longrightarrow> cache_exec P x c = Inr (r, c')
    \<Longrightarrow> cache_reach P cf (xs @ [(x, cache_capacity P c, r)]) c'"

fun cache_run :: "bool \<Rightarrow> ('k, 'v) cache_history \<Rightarrow> ('k, 'v) cache_bag \<Rightarrow> ('k, 'v) cache_bag \<Rightarrow> bool" where
  "cache_run dup [] E E' \<longleftrightarrow> E' = E"
| "cache_run dup ((x, cap, r) # xs) E E' \<longleftrightarrow> (\<exists>E1. cache_step dup x cap E r E1 \<and> cache_run dup xs E1 E')"

lemma cache_run_snoc: "cache_run dup xs E E1 \<Longrightarrow> cache_step dup x cap E1 r E' \<Longrightarrow> cache_run dup (xs @ [(x, cap, r)]) E E'"
proof (induction xs arbitrary: E)
  case (Cons d xs)
  then show ?case by (cases d) (simp, blast)
qed simp

section \<open>The model meets the specification\<close>

lemma filter_cache_entries:
  "filter_mset (\<lambda>e. Q (fst e)) (cache_entries P c) = image_mset (cache_entry c) (mset_set {pos \<in> c_occ P c. Q (c_keys c ! pos)})"
  by (simp add: cache_entries_def filter_mset_image_mset cache_entry_def)

lemma cache_entry_value:
  "cache_entry (cache_set_value pos v c) q
    = (if q = pos \<and> pos < length (c_values c) then (c_keys c ! q, v, snd (snd (cache_entry c q))) else cache_entry c q)"
  by (cases "pos < length (c_values c)") (auto simp: cache_entry_def cache_set_value_def list_update_beyond)

context swiss_cache
begin

lemma set_value_ok:
  assumes inv: "cache_inv P c" and pos: "pos \<in> c_occ P c"
  shows "cache_inv P (cache_set_value pos v c)"
    and "cache_entries P (cache_set_value pos v c)
      = add_mset (c_keys c ! pos, v, snd (snd (cache_entry c pos))) (cache_entries P c - {#cache_entry c pos#})"
proof -
  let ?c = "cache_set_value pos v c" and ?key = "c_keys c ! pos"
  obtain n where sh: "cache_shape P n c" and s: "\<forall>pos \<in> c_occ P c. c_state P c pos = pm_state P (pm_hash P (c_keys c ! pos))"
    and h: "\<forall>pos \<in> c_occ P c. pos div ksize P * ksize P = home_off P c (c_keys c ! pos)"
    and k: "has_duplicates P \<or> inj_on ((!) (c_keys c)) (c_occ P c)" by (rule cache_invD [OF inv])
  have pl: "pos < length (c_keys c)" "pos < length (c_values c)"
    using pos sh by (simp_all add: c_occ_def cache_shape_def)
  have same: "length (c_keys ?c) = length (c_keys c)" "length (c_values ?c) = length (c_values c)" "length (c_blobs ?c) = length (c_blobs c)"
    "length (c_states_and_lrus ?c) = length (c_states_and_lrus c)" "c_conf ?c = c_conf c" "c_bucket_mask ?c = c_bucket_mask c"
    "c_keys ?c ! pos = ?key" by (simp_all add: cache_set_value_def)
  have st: "c_state P ?c = c_state P c" by (rule ext) (simp add: c_state_def cache_set_value_def)
  have sp: "c_state P ?c pos = pm_state P (pm_hash P ?key)" using st s pos by simp
  have hp: "pos div ksize P * ksize P = home_off P c ?key" using h pos by simp
  have fr: "c_keys c ! q \<noteq> ?key" if "\<not> has_duplicates P" "q \<in> c_occ P c" "q \<noteq> pos" for q
    using k that pos by (auto simp: inj_on_def)
  have ne: "c_num_empty ?c = c_num_empty c - of_bool (pos \<notin> c_occ P c)" using pos by (simp add: cache_set_value_def)
  note put = cache_put_ok [OF inv pl(1) hp same(1-7) sp _ _ fr ne, unfolded st, OF refl]
  show "cache_inv P ?c" by (rule put(1)) (simp add: cache_entry_value)
  show "cache_entries P ?c = add_mset (?key, v, snd (snd (cache_entry c pos))) (cache_entries P c - {#cache_entry c pos#})"
    using put(3) entries_without [OF pos] pl(2) by (simp add: cache_entry_value)
qed

lemma only_entry:
  assumes inv: "cache_inv P c" and pos: "pos \<in> c_occ P c" and nd: "\<not> has_duplicates P"
  shows "filter_mset (\<lambda>e. fst e \<noteq> c_keys c ! pos) (cache_entries P c) = cache_entries P c - {#cache_entry c pos#}"
proof -
  obtain k: "has_duplicates P \<or> inj_on ((!) (c_keys c)) (c_occ P c)" by (rule cache_invD [OF inv])
  have "{q \<in> c_occ P c. c_keys c ! q \<noteq> c_keys c ! pos} = c_occ P c - {pos}" using k nd pos by (auto simp: inj_on_def)
  then show ?thesis using filter_cache_entries [of "\<lambda>k. k \<noteq> c_keys c ! pos" P c] entries_without [OF pos] by simp
qed

lemma erased_bag:
  assumes er: "cerased c A c'"
  shows "cache_entries P c' \<subseteq># cache_entries P c" and "cache_inv P c'"
    and "A = {pos. Q (c_keys c ! pos)} \<Longrightarrow> cache_entries P c' = filter_mset (\<lambda>e. \<not> Q (fst e)) (cache_entries P c)"
proof -
  note e = cerased_entries(1) [OF er]
  show "cache_entries P c' \<subseteq># cache_entries P c"
    unfolding e unfolding cache_entries_def by (intro image_mset_subseteq_mono subset_imp_msubset_mset_set) auto
  show "cache_inv P c'" using er by (simp add: cerased_def)
  assume "A = {pos. Q (c_keys c ! pos)}"
  then have "c_occ P c - A = {pos \<in> c_occ P c. \<not> Q (c_keys c ! pos)}" by blast
  then show "cache_entries P c' = filter_mset (\<lambda>e. \<not> Q (fst e)) (cache_entries P c)"
    unfolding e using filter_cache_entries [of "\<lambda>k. \<not> Q k" P c] by simp
qed

lemma cache_put_exec_ok:
  assumes inv: "cache_inv P c" and nan: "\<not> pm_is_nan P k"
  obtains r c' where "cache_exec P (C_put k v) c = Inr (r, c')" and "cache_inv P c'"
    and "cache_step (has_duplicates P) (C_put k v) cap (cache_entries P c) r (cache_entries P c')"
proof (rule cache_insert_ok [OF inv nan])
  fix pos c1 assume i: "cache_insert P k (pm_hash P k) c = Inr ((pos, Op_found, cache_seq P (pm_hash P k)), c1)"
    and nd: "\<not> has_duplicates P" and pos: "pos \<in> c_occ P c" "c_keys c ! pos = k" and inv1: "cache_inv P c1"
    and same: "c_occ P c1 = c_occ P c" "cache_entries P c1 = cache_entries P c" "cache_entry c1 = cache_entry c"
  have k1: "c_keys c1 ! pos = k" using pos(2) fun_cong [OF same(3), of pos] by (simp add: cache_entry_def)
  have p1: "pos \<in> c_occ P c1" using pos(1) same(1) by simp
  note sv = set_value_ok [OF inv1 p1, of v]
  have "cache_entries P c1 - {#cache_entry c1 pos#} = filter_mset (\<lambda>e. fst e \<noteq> k) (cache_entries P c)"
    using only_entry [OF inv1 p1 nd] k1 same(2) by simp
  then have "cache_step (has_duplicates P) (C_put k v) cap (cache_entries P c) 0 (cache_entries P (cache_set_value pos v c1))"
    using sv(2) nd k1 by simp
  then show ?thesis using that [of 0 "cache_set_value pos v c1"] i sv(1) by simp
next
  fix pos c1 assume i: "cache_insert P k (pm_hash P k) c = Inr ((pos, Op_insert, cache_seq P (pm_hash P k)), c1)"
    and new: "has_duplicates P \<or> k \<notin># image_mset fst (cache_entries P c)" and inv1: "cache_inv P c1"
    and occ: "c_occ P c1 = insert pos (c_occ P c)"
    and e: "cache_entries P c1 = add_mset (k, snd (cache_entry c pos)) (cache_entries P c)"
    and ep: "cache_entry c1 pos = (k, snd (cache_entry c pos))"
  have k1: "c_keys c1 ! pos = k" using ep by (simp add: cache_entry_def)
  have p1: "pos \<in> c_occ P c1" using occ by simp
  note sv = set_value_ok [OF inv1 p1, of v]
  have "filter_mset (\<lambda>e. fst e \<noteq> k) (cache_entries P c) = cache_entries P c" if "\<not> has_duplicates P"
    using new that by (intro filter_mset_eq_conv [THEN iffD2]) auto
  then have "cache_step (has_duplicates P) (C_put k v) cap (cache_entries P c) 0 (cache_entries P (cache_set_value pos v c1))"
    using sv(2) k1 e ep by simp
  then show ?thesis using that [of 0 "cache_set_value pos v c1"] i sv(1) by simp
next
  fix pos c1 assume i: "cache_insert P k (pm_hash P k) c = Inr ((pos, Op_replace, cache_seq P (pm_hash P k)), c1)"
    and new: "has_duplicates P \<or> k \<notin># image_mset fst (cache_entries P c)" and inv1: "cache_inv P c1"
    and pos: "pos \<in> c_occ P c" and occ: "c_occ P c1 = c_occ P c"
    and e: "cache_entries P c1 = add_mset (k, snd (cache_entry c pos)) (cache_entries P c - {#cache_entry c pos#})"
    and ep: "cache_entry c1 pos = (k, snd (cache_entry c pos))"
  have k1: "c_keys c1 ! pos = k" using ep by (simp add: cache_entry_def)
  have p1: "pos \<in> c_occ P c1" using pos occ by simp
  note sv = set_value_ok [OF inv1 p1, of v]
  have "cache_entry c pos \<in># cache_entries P c" using pos by (simp add: cache_entries_def)
  then have "cache_entries P c = add_mset (cache_entry c pos) (cache_entries P c - {#cache_entry c pos#})" by simp
  moreover have "cache_entries P (cache_set_value pos v c1) = add_mset (k, v, snd (snd (cache_entry c1 pos))) (cache_entries P c - {#cache_entry c pos#})"
    using sv(2) k1 e ep by simp
  ultimately have "cache_step (has_duplicates P) (C_put k v) cap (cache_entries P c) 1 (cache_entries P (cache_set_value pos v c1))"
    unfolding cache_step.simps using new by blast
  then show ?thesis using that [of 1 "cache_set_value pos v c1"] i sv(1) by simp
qed

lemma cache_sizes:
  assumes inv: "cache_inv P c" and cap: "cache_capacity P c \<le> 2 ^ 61"
  obtains e where "cache_shrink_target P c = 2 ^ e" and "e \<le> 62"
    and "\<exists>f\<le>62. 2 * cache_capacity P c = 2 ^ f \<and> cache_capacity P c \<le> 2 ^ f"
proof -
  obtain n where sh: "cache_shape P n c" and cf: "conf_ok (kbits P) (c_conf c)" and mn: "min_capacity (c_conf c) \<le> 2 ^ n" by (rule cache_invD [OF inv])
  have k: "kbits P \<le> 62" "n \<le> 62" using sh by (simp_all add: cache_shape_def)
  have c: "cache_capacity P c = 2 ^ n" by (rule shape_facts(4) [OF sh])
  have "(2 :: int) ^ n \<le> 2 ^ 61" using cap c by simp
  then have n: "n \<le> 61" by (simp only: power_le_iff_2)
  obtain a where a: "min_capacity (c_conf c) = 2 ^ a" "kbits P \<le> a" "a \<le> 62" by (rule conf_ok_power [OF cf k(1)])
  have an: "a \<le> n" using mn a(1) by (simp only: power_le_iff_2)
  have "cache_shrink_target P c = 2 ^ max (n - 1) a"
  proof (cases n)
    case 0
    then show ?thesis using an a(1) c by (simp add: cache_shrink_target_def)
  next
    case (Suc j)
    then show ?thesis using a(1) c max_power_2 [of j a] by (simp add: cache_shrink_target_def)
  qed
  moreover have "max (n - 1) a \<le> 62" using k(2) a(3) by simp
  moreover have "\<exists>f\<le>62. 2 * cache_capacity P c = 2 ^ f \<and> cache_capacity P c \<le> 2 ^ f"
    using n c by (intro exI [of _ "Suc n"]) simp
  ultimately show ?thesis by (rule that)
qed

lemma cache_resize_exec_ok:
  assumes inv: "cache_inv P c" and cap: "cache_capacity P c \<le> 2 ^ 61" and leg: "cache_legal P x" and x: "x \<in> {C_resize n, C_grow, C_shrink}"
  obtains r c' where "cache_exec P x c = Inr (r, c')" and "cache_inv P c'"
    and "cache_step (has_duplicates P) x (cache_capacity P c) (cache_entries P c) r (cache_entries P c')"
proof -
  obtain e where e: "cache_shrink_target P c = 2 ^ e" "e \<le> 62" and g: "\<exists>f\<le>62. 2 * cache_capacity P c = 2 ^ f \<and> cache_capacity P c \<le> 2 ^ f"
    by (rule cache_sizes [OF inv cap])
  consider (r) "x = C_resize n" | (g) "x = C_grow" | (s) "x = C_shrink" using x by blast
  then show ?thesis
  proof cases
    case r
    obtain f where f: "f \<le> 62" "int_bit_ceil n = 2 ^ f" "n \<le> 2 ^ f" by (rule int_bit_ceil_cases [of n]) (use leg r in simp_all)
    obtain m where cf: "conf_ok (kbits P) (c_conf c)" and sh: "cache_shape P m c" by (rule cache_invD [OF inv])
    have k: "kbits P \<le> 62" using sh by (simp add: cache_shape_def)
    obtain a where a: "min_capacity (c_conf c) = 2 ^ a" "a \<le> 62" by (rule conf_ok_power [OF cf k])
    have mx: "max (int_bit_ceil n) (min_capacity (c_conf c)) = 2 ^ max f a" "max f a \<le> 62" using f a by (simp_all add: max_power_2)
    obtain c' g' where c': "cache_resize P (2 ^ max f a) c = (2 ^ g', c')" "max f a \<le> g'" "cache_inv P c'" "cache_entries P c' \<subseteq># cache_entries P c"
      "cache_capacity P c \<le> 2 ^ g' \<longrightarrow> cache_entries P c' = cache_entries P c"
      by (rule cache_resize_ok [OF inv mx(2)])
    have "(2 :: int) ^ f \<le> 2 ^ g'" using c'(2) unfolding power_le_iff_2 by simp
    then have "n \<le> 2 ^ g'" using f(3) by linarith
    then show ?thesis using that [of "2 ^ g'" c'] c' r by (simp add: cache_resize_api_def mx(1))
  next
    case g
    obtain f where f: "f \<le> 62" "2 * cache_capacity P c = 2 ^ f" "cache_capacity P c \<le> 2 ^ f"
      using \<open>\<exists>f\<le>62. 2 * cache_capacity P c = 2 ^ f \<and> cache_capacity P c \<le> 2 ^ f\<close> by blast
    obtain c' g' where c': "cache_resize P (2 ^ f) c = (2 ^ g', c')" "f \<le> g'" "cache_inv P c'"
      "cache_capacity P c \<le> 2 ^ g' \<longrightarrow> cache_entries P c' = cache_entries P c"
      by (rule cache_resize_ok [OF inv f(1)])
    have "(2 :: int) ^ f \<le> 2 ^ g'" using c'(2) unfolding power_le_iff_2 .
    then have "cache_entries P c' = cache_entries P c" using c'(4) order.trans [OF f(3)] by blast
    then show ?thesis using that [of "2 ^ g'" c'] c' g by (simp add: cache_grow_def f(2))
  next
    case s
    obtain c' g' where c': "cache_resize P (2 ^ e) c = (2 ^ g', c')" "cache_inv P c'" "cache_entries P c' \<subseteq># cache_entries P c"
      "cache_capacity P c \<le> 2 ^ g' \<longrightarrow> cache_entries P c' = cache_entries P c"
      by (rule cache_resize_ok [OF inv e(2)])
    show ?thesis
    proof (cases "2 ^ e = cache_capacity P c")
      case True
      then show ?thesis using that [of "2 ^ e" c] s inv by (simp add: cache_shrink_def e(1))
    next
      case False
      then show ?thesis using that [of "2 ^ g'" c'] c' s by (simp add: cache_shrink_def e(1))
    qed
  qed
qed

text \<open>Every legal call keeps the invariant and does what the specification says.\<close>

theorem cache_exec_ok:
  assumes inv: "cache_inv P c" and cap: "cache_capacity P c \<le> 2 ^ 61" and leg: "cache_legal P x"
  obtains r c' where "cache_exec P x c = Inr (r, c')" and "cache_inv P c'"
    and "cache_step (has_duplicates P) x (cache_capacity P c) (cache_entries P c) r (cache_entries P c')"
proof (cases x)
  case (C_find k)
  show ?thesis
    by (rule cache_find_ok [OF inv, of k]) (use that C_find inv key_in_cache in \<open>fastforce+\<close>)
next
  case (C_put k v)
  then show ?thesis using cache_put_exec_ok [OF inv] that leg by (metis cache_legal.simps(1))
next
  case (C_erase k)
  show ?thesis
  proof (rule cache_erase_ok [OF inv, of k])
    assume "cache_erase_first P k (pm_hash P k) c = ((False, None, cache_seq P (pm_hash P k)), c)"
      and "k \<notin># image_mset fst (cache_entries P c)"
    then show ?thesis using that [of 0 c] inv C_erase by simp
  next
    fix pos c' assume r: "cache_erase_first P k (pm_hash P k) c = ((True, Some pos, cache_seq P (pm_hash P k)), c')"
      and pos: "pos \<in> c_occ P c" "c_keys c ! pos = k" and er: "cerased c {pos} c'"
    have ce: "cache_entries P c' = cache_entries P c - {#cache_entry c pos#}"
      using cerased_entries(1) [OF er] entries_without [OF pos(1)] by simp
    have mem: "cache_entry c pos \<in># cache_entries P c" using pos(1) by (simp add: cache_entries_def)
    then have "cache_entries P c = add_mset (k, snd (cache_entry c pos)) (cache_entries P c')"
      using pos(2) by (simp add: ce cache_entry_def)
    then show ?thesis using that [of 1 c'] erased_bag(2) [OF er] r C_erase by (auto intro: prod.collapse)
  qed
next
  case (C_erase_all k)
  obtain c' where c': "cache_erase_all P k (pm_hash P k) c = (int (count (image_mset fst (cache_entries P c)) k), c')"
    "cerased c {pos. c_keys c ! pos = k} c'" by (rule cache_erase_all_ok [OF inv])
  then show ?thesis
    using that [of "int (count (image_mset fst (cache_entries P c)) k)" c'] erased_bag(2) [OF c'(2)] erased_bag(3) [OF c'(2), of "\<lambda>k'. k' = k"] C_erase_all by simp
next
  case (C_erase_if f)
  obtain c' where c': "cache_erase_if P (\<lambda>pos. f (c_keys c ! pos)) c = (int (card {pos \<in> c_occ P c. f (c_keys c ! pos)}), c')"
    "cerased c {pos. f (c_keys c ! pos)} c'" by (rule cache_erase_if_ok [OF inv])
  have "size (filter_mset (\<lambda>e. f (fst e)) (cache_entries P c)) = card {pos \<in> c_occ P c. f (c_keys c ! pos)}"
    unfolding filter_cache_entries by simp
  then show ?thesis
    using that [of "int (card {pos \<in> c_occ P c. f (c_keys c ! pos)})" c'] c' erased_bag(2) [OF c'(2)] erased_bag(3) [OF c'(2), of f] C_erase_if by simp
next
  case C_clear
  then show ?thesis using cache_clear_all_ok [OF inv] that by (metis cache_exec.simps(6) cache_step.simps(6))
next
  case (C_scrub t)
  obtain c' where c': "cache_scrub P t c = (int (card {q \<in> c_occ P c. t \<noteq> max_lru \<and> c_lru P c q < t}), c')"
    "cerased c {q. t \<noteq> max_lru \<and> c_lru P c q < t} c'" by (rule cache_scrub_ok [OF inv])
  let ?A = "{q. t \<noteq> max_lru \<and> c_lru P c q < t}"
  have "card (c_occ P c) = card (c_occ P c \<inter> ?A) + card (c_occ P c - ?A)"
    by (subst card_Un_disjoint [symmetric]) (auto intro: arg_cong [of _ _ card])
  then have "int (card {q \<in> c_occ P c. t \<noteq> max_lru \<and> c_lru P c q < t}) = int (size (cache_entries P c)) - int (size (cache_entries P c'))"
    by (simp add: size_cache_entries cerased_entries(1) [OF c'(2)] Int_def)
  moreover have "cache_entries P c' = cache_entries P c" if "t = max_lru"
    using that cerased_entries(1) [OF c'(2)] by (simp add: cache_entries_def)
  ultimately show ?thesis using that [of _ c'] c'(1) erased_bag(1,2) [OF c'(2)] C_scrub by simp
qed (rule cache_resize_exec_ok [OF inv cap leg]; use that in \<open>blast+\<close>)+

lemma cache_reach_ok:
  assumes "cache_reach P cf xs c" and "conf_ok (kbits P) cf" and "kbits P \<le> 62"
  shows "cache_inv P c" and "cache_run (has_duplicates P) xs {#} (cache_entries P c)"
  using assms(1)
proof induction
  case (start c)
  obtain c1 where "make_cache P cf = Inr c1" "cache_inv P c1" "cache_entries P c1 = {#}" by (rule make_cache_ok [OF assms(2,3)])
  then show "cache_inv P c" "cache_run (has_duplicates P) [] {#} (cache_entries P c)" using start by simp_all
next
  case (call xs c x r c')
  obtain r1 c1 where c1: "cache_exec P x c = Inr (r1, c1)" "cache_inv P c1"
    "cache_step (has_duplicates P) x (cache_capacity P c) (cache_entries P c) r1 (cache_entries P c1)"
    by (rule cache_exec_ok [OF call.IH(1) call.hyps(2,3)])
  then show "cache_inv P c'" "cache_run (has_duplicates P) (xs @ [(x, cache_capacity P c, r)]) {#} (cache_entries P c')"
    using call.hyps(4) cache_run_snoc [OF call.IH(2)] by simp_all
qed

end

section \<open>The caches the library builds\<close>

interpretation portable_cache: swiss_cache "portable_map fp P"
    "uint_mask_ok (n_bytes TYPE(64)) 3 Align_left" "uint_mask_slots (n_bytes TYPE(64)) 3 Align_left" for fp P
  by (simp add: swiss_cache_def swiss_cache_axioms_def, simp add: portable_map_def uint_kernel8.swiss_lru_kernel_axioms)

interpretation array_cache: swiss_cache "array_map P" "uint_mask_ok 16 0 Align_right" "uint_mask_slots 16 0 Align_right" for P
  by (simp add: swiss_cache_def swiss_cache_axioms_def, simp add: array_map_def array_kernel16.swiss_lru_kernel_axioms)

interpretation single_cache: swiss_cache "single_map P" "uint_mask_ok 1 0 Align_right" "uint_mask_slots 1 0 Align_right" for P
  by (simp add: swiss_cache_def swiss_cache_axioms_def, simp add: single_map_def array_kernel1.swiss_lru_kernel_axioms [unfolded One_nat_def])

end
