(* ===== verification/CacheQuery.thy ===== *)
theory CacheQuery
  imports CacheSpec
begin

text \<open>
  What the queries of the cache compute and the integrity check; copying; and the effect of a lookup on the order of
  the stamps of a bucket.
\<close>

section \<open>Stamps\<close>

lemma drop_bit1_value: "unat (drop_bit 1 (x :: lru_t)) = unat x div 2"
  unfolding unat_drop_bit_eq by (simp add: drop_bit_eq_div)

lemma bump_lru_promotes:
  assumes "i < length ls" and "j < length ls" and "j \<noteq> i" and "ls ! j \<le> ls ! i"
  shows "bump_lru ls i ! j < bump_lru ls i ! i"
proof (cases "ls ! i = max_lru")
  case True
  have "unat (ls ! j) < 2 ^ 8" using unsigned_less [of "ls ! j", where 'a = nat] by simp
  then have "unat (drop_bit 1 (ls ! j)) \<le> 127" unfolding drop_bit1_value by simp
  moreover have "drop_bit 1 max_lru + 1 = (128 :: lru_t)" by code_simp
  ultimately show ?thesis using assms True by (simp add: bump_lru_def word_less_nat_alt)
next
  case False
  have u: "unat (ls ! i) < 2 ^ 8" using unsigned_less [of "ls ! i", where 'a = nat] by simp
  have "unat max_lru = 255" by (simp add: max_lru_def)
  then have "unat (ls ! i) \<noteq> 255" using False by (metis word_unat_eq_iff)
  then have "unat (ls ! i + 1) = unat (ls ! i) + 1" using u by (simp add: unat_word_ariths)
  then show ?thesis using assms False by (simp add: bump_lru_def word_less_nat_alt word_le_nat_alt)
qed

context swiss_cache
begin

lemma touched_promotes:
  assumes sh: "cache_shape P n c" and t: "touched pos c c'" and pos: "pos < 2 ^ n"
    and q: "q div ksize P = pos div ksize P" "q \<noteq> pos" "c_lru P c q \<le> c_lru P c pos"
  shows "c_lru P c' q < c_lru P c' pos"
proof -
  let ?K = "ksize P" and ?b = "pos div ksize P"
  let ?ls = "map (\<lambda>i. c_lru P c (?b * ?K + i)) [0..<?K]"
  have b: "?b < 2 ^ n div ?K" using pos shape_facts(1) [OF sh] by (simp add: div_less_iff_less_mult)
  have e: "?b * ?K + pos mod ?K = pos" "?b * ?K + q mod ?K = q" using q(1) by (simp, metis div_mult_mod_eq)
  have m: "pos mod ?K < ?K" "q mod ?K < ?K" by simp_all
  have ql: "q < 2 ^ n" using bucket_pos(1) [OF b m(2) sh] unfolding e(2) .
  have ne: "q mod ?K \<noteq> pos mod ?K" using q(2) e by metis
  have "?ls ! (q mod ?K) \<le> ?ls ! (pos mod ?K)" using m q(3) e by simp
  then have "bump_lru ?ls (pos mod ?K) ! (q mod ?K) < bump_lru ?ls (pos mod ?K) ! (pos mod ?K)"
    using bump_lru_promotes [of "pos mod ?K" ?ls "q mod ?K"] m ne by simp
  then show ?thesis using t pos ql q(1) shape_facts(3) [OF sh] by (simp add: touched_def)
qed

section \<open>Integrity\<close>

lemma bucket_empties:
  assumes inv: "cache_inv P c" and sh: "cache_shape P n c" and j: "j \<le> 2 ^ n div ksize P"
  shows "fold (\<lambda>off x. x + int (mk_count (kn_mask_ops (pm_kernel P)) (kn_mask_empty (pm_kernel P) (cache_load P c off))))
      (map (\<lambda>b. b * ksize P) [0..<j]) 0 = int (card {q. q < 2 ^ n \<and> q div ksize P < j \<and> c_state P c q = empty_state})"
  using j
proof (induction j)
  case (Suc j)
  let ?K = "ksize P"
  let ?xs = "map (\<lambda>i. c_state P c (j * ?K + i)) [0..<?K]" and ?m = "kn_mask_empty (pm_kernel P) (cache_load P c (j * ksize P))"
  obtain k where kk: "cache_shape P k c" "\<forall>pos<2 ^ k. c_state P c pos = empty_state \<or> is_hash (c_state P c pos)" by (rule cache_invD [OF inv])
  have kn: "(2 :: nat) ^ k = 2 ^ n" using shape_facts(3) [OF kk(1)] shape_facts(3) [OF sh] by simp
  have jb: "j < 2 ^ n div ?K" using Suc.prems by simp
  have l: "length ?xs = kn_size (pm_kernel P)" by (simp add: kn_size)
  have "\<forall>i \<in> {0..<?K}. valid_state (c_state P c (j * ?K + i))"
  proof
    fix i assume "i \<in> {0..<?K}"
    then have "j * ?K + i < 2 ^ k" using bucket_pos(1) [OF jb _ sh] kn by simp
    then show "valid_state (c_state P c (j * ?K + i))" using kk(2) unfolding valid_state_def by blast
  qed
  then have v: "valid_states ?xs" by (simp add: valid_states_def list_all_iff)
  have "slots ?m = slots_with (\<lambda>x. x = empty_state) ?xs"
    unfolding cache_load_list(1) [OF sh jb] by (rule mask_empty_slots [OF l v])
  also have "\<dots> = {i. i < ?K \<and> c_state P c (j * ?K + i) = empty_state}" by (auto simp: slots_with_def)
  finally have sm: "slots ?m = {i. i < ?K \<and> c_state P c (j * ?K + i) = empty_state}" .
  have "ok ?m" unfolding cache_load_list(1) [OF sh jb] by (rule mask_empty_ok [OF l v])
  then have "mk_count (kn_mask_ops (pm_kernel P)) ?m = card {i. i < ?K \<and> c_state P c (j * ?K + i) = empty_state}"
    by (simp only: count_card sm)
  also have "\<dots> = card ((\<lambda>i. j * ?K + i) ` {i. i < ?K \<and> c_state P c (j * ?K + i) = empty_state})"
    by (rule card_image [symmetric]) (simp add: inj_on_def)
  also have "(\<lambda>i. j * ?K + i) ` {i. i < ?K \<and> c_state P c (j * ?K + i) = empty_state} = {q. q < 2 ^ n \<and> q div ?K = j \<and> c_state P c q = empty_state}"
  proof (intro set_eqI iffI)
    fix q assume q: "q \<in> {q. q < 2 ^ n \<and> q div ?K = j \<and> c_state P c q = empty_state}"
    then have "q = j * ?K + q mod ?K" by (metis (mono_tags, lifting) mem_Collect_eq div_mult_mod_eq)
    then show "q \<in> (\<lambda>i. j * ?K + i) ` {i. i < ?K \<and> c_state P c (j * ?K + i) = empty_state}"
      using q by (intro image_eqI [of _ _ "q mod ?K"]) simp_all
  qed (use bucket_pos(1,2) [OF jb _ sh] in auto)
  finally have "mk_count (kn_mask_ops (pm_kernel P)) ?m = card {q. q < 2 ^ n \<and> q div ?K = j \<and> c_state P c q = empty_state}" .
  moreover have "card {q. q < 2 ^ n \<and> q div ?K < Suc j \<and> c_state P c q = empty_state}
      = card {q. q < 2 ^ n \<and> q div ?K < j \<and> c_state P c q = empty_state} + card {q. q < 2 ^ n \<and> q div ?K = j \<and> c_state P c q = empty_state}"
    by (subst card_Un_disjoint [symmetric]) (auto simp: less_Suc_eq intro: arg_cong [of _ _ card])
  ultimately show ?case using Suc by simp
qed simp

theorem cache_integrity_ok:
  assumes inv: "cache_inv P c"
  shows "cache_check_integrity P c"
proof -
  obtain n where sh: "cache_shape P n c" and v: "\<forall>pos<2 ^ n. c_state P c pos = empty_state \<or> is_hash (c_state P c pos)"
    and ne: "c_num_empty c = 2 ^ n - int (card (c_occ P c))" by (rule cache_invD [OF inv])
  have dq: "q div ksize P < 2 ^ n div ksize P" if "q < 2 ^ n" for q
    using that shape_facts(1) [OF sh] by (simp add: div_less_iff_less_mult)
  have occ: "c_occ P c \<subseteq> {q. q < 2 ^ n}" using shape_facts(3) [OF sh] by (auto simp: c_occ_def)
  have "{q. q < 2 ^ n \<and> q div ksize P < 2 ^ n div ksize P \<and> c_state P c q = empty_state} = {q. q < 2 ^ n} - c_occ P c"
    using v dq shape_facts(3) [OF sh] by (auto simp: c_occ_def)
  moreover have "card ({q. q < 2 ^ n} - c_occ P c) = 2 ^ n - card (c_occ P c)"
    using occ by (subst card_Diff_subset) simp_all
  moreover have "card (c_occ P c) \<le> 2 ^ n" using card_mono [OF _ occ] by simp
  ultimately show ?thesis
    using bucket_empties [OF inv sh order.refl] ne by (simp add: cache_check_integrity_def shape_facts(4,5) [OF sh] of_nat_diff)
qed

section \<open>Copying\<close>

theorem cache_assign_ok:
  assumes oth: "cache_inv P other" and inv: "cache_inv P c"
  shows "cache_assign P other c = other"
proof -
  obtain n where n: "cache_shape P n other" by (rule cache_invD [OF oth])
  obtain k where k: "cache_shape P k c" by (rule cache_invD [OF inv])
  note f = shape_facts(4) [OF n] shape_facts(4) [OF k]
  have nn: "nat (2 ^ n) = 2 ^ n" "nat (2 ^ n * blob_stride (c_conf other)) = 2 ^ n * nat (blob_stride (c_conf other))"
    by (simp_all add: nat_power_eq nat_mult_distrib)
  show ?thesis
  proof (cases "cache_capacity P other \<noteq> cache_capacity P c \<or> blob_stride (c_conf other) \<noteq> blob_stride (c_conf c)")
    case True
    have "nat (2 ^ n * 2) = 2 ^ n * 2" by (simp add: nat_mult_distrib nat_power_eq)
    then show ?thesis using True n
      by (simp add: cache_assign_def Let_def f(1) cache_alloc_def nn memcpy_all cache_shape_def size_power)
  next
    case False
    then have nk: "n = k" and bs: "blob_stride (c_conf c) = blob_stride (c_conf other)" using f by simp_all
    then show ?thesis using n k [folded nk] f [folded nk]
      by (simp add: cache_assign_def Let_def nn [unfolded nk] memcpy_all cache_shape_def)
  qed
qed

end

end
