(* ===== verification/CacheProps.thy ===== *)
theory CacheProps
  imports CacheQuery MapDemo
begin

text \<open>
  The properties of the cache, stated for a build without vector instructions with any key type, hash
  function, layout and flags, exact or fast kernel, and their instances on a small concrete cache.
\<close>

section \<open>A concrete cache\<close>

definition demo_cache :: "(u64, u64) cache_state" where
  "demo_cache = projr (make_cache demo demo_conf)"

definition demo_cached :: "(u64, u64) cache_state" where
  "demo_cached = snd (projr (cache_exec demo (C_put 5 7) demo_cache))"

lemma demo_cache_made: "make_cache demo demo_conf = Inr demo_cache"
  and demo_cache_inv: "cache_inv demo demo_cache" and demo_cache_entries: "cache_entries demo demo_cache = {#}"
  and demo_cache_capacity: "cache_capacity demo demo_cache = 16"
proof -
  obtain c where c: "make_cache demo demo_conf = Inr c" "cache_inv demo c" "cache_entries demo c = {#}"
    "cache_capacity demo c = init_capacity demo_conf"
    by (rule portable_cache.make_cache_ok [of True demo_base demo_conf]) (use demo_conf_ok in simp_all)
  then have "demo_cache = c" by (simp add: demo_cache_def)
  then show "make_cache demo demo_conf = Inr demo_cache" "cache_inv demo demo_cache" "cache_entries demo demo_cache = {#}"
    "cache_capacity demo demo_cache = 16" using c by (simp_all add: demo_conf_def)
qed

lemma demo_cached_made: "cache_exec demo (C_put 5 7) demo_cache = Inr (0, demo_cached)"
  and demo_cached_inv: "cache_inv demo demo_cached"
  and demo_cached_entries: "\<exists>b. cache_entries demo demo_cached = {#(5, 7, b)#}"
proof -
  obtain r c where c: "cache_exec demo (C_put 5 7) demo_cache = Inr (r, c)" "cache_inv demo c"
    "cache_step (has_duplicates demo) (C_put 5 7) 16 (cache_entries demo demo_cache) r (cache_entries demo c)"
    by (rule portable_cache.cache_put_exec_ok [OF demo_cache_inv demo_flags(2)])
  have d: "demo_cached = c" by (simp only: demo_cached_def c(1) sum.sel snd_conv)
  have "r = 0" using c(3) by (simp add: demo_cache_entries)
  then show "cache_exec demo (C_put 5 7) demo_cache = Inr (0, demo_cached)" using c(1) d by simp
  show "cache_inv demo demo_cached" using c(2) d by simp
  show "\<exists>b. cache_entries demo demo_cached = {#(5, 7, b)#}" using c(3) by (simp add: d demo_cache_entries demo_flags(1))
qed

lemma demo_cache_reach: "cache_reach demo demo_conf [(C_put 5 7, 16, 0)] demo_cached"
  using cache_reach.call [OF cache_reach.start [OF demo_cache_made], of "C_put 5 7" 0 demo_cached]
  by (simp only: demo_cache_capacity demo_cached_made cache_legal.simps demo_flags) simp

section \<open>Reachable states\<close>

text \<open>C4: Every cache a program reaches from one constructed with a valid configuration, by any legal
  calls, is well-formed: each entry lies in the bucket its hash selects, with the state of the hash,
  keys are distinct unless duplicates are allowed, and the counter of empty slots is exact.\<close>

theorem cache_reach_invariant:
  assumes "cache_reach (portable_map fp P) cf xs c" and "conf_ok 3 cf"
  shows "cache_inv (portable_map fp P) c"
  using portable_cache.cache_reach_ok(1) [OF assms(1)] assms(2) by simp

theorem cache_reach_invariant_witness: "cache_inv demo demo_cached"
  by (rule cache_reach_invariant [OF demo_cache_reach demo_conf_ok])

text \<open>C3: The contents of a reachable cache and the results of its calls are those its specification
  allows: only a reported eviction, scrubbing, and resizing to a smaller capacity lose entries; a call that
  keeps or raises the capacity loses none.\<close>

theorem cache_run_refines:
  assumes "cache_reach (portable_map fp P) cf xs c" and "conf_ok 3 cf"
  shows "cache_run (has_duplicates (portable_map fp P)) xs {#} (cache_entries (portable_map fp P) c)"
  using portable_cache.cache_reach_ok(2) [OF assms(1)] assms(2) by simp

theorem cache_run_refines_witness: "cache_run (has_duplicates demo) [(C_put 5 7, 16, 0)] {#} (cache_entries demo demo_cached)"
  by (rule cache_run_refines [OF demo_cache_reach demo_conf_ok])

section \<open>Lookup, insertion and eviction\<close>



text \<open>C14: An insertion of a key finds its entry, or takes a free slot of its bucket, or, when all slots
  of the bucket are taken, replaces the entry with the least stamp; every other entry stays.\<close>

theorem cache_insert_correct:
  assumes inv: "cache_inv (portable_map fp P) c" and nan: "\<not> pm_is_nan P k"
  shows "\<exists>pos op c'. cache_insert (portable_map fp P) k (pm_hash P k) c = Inr ((pos, op, cache_seq (portable_map fp P) (pm_hash P k)), c')
    \<and> cache_inv (portable_map fp P) c' \<and> cache_capacity (portable_map fp P) c' = cache_capacity (portable_map fp P) c
    \<and> (case op of
         Op_found \<Rightarrow> \<not> has_duplicates P \<and> pos \<in> c_occ (portable_map fp P) c \<and> c_keys c ! pos = k
           \<and> cache_entries (portable_map fp P) c' = cache_entries (portable_map fp P) c
       | Op_insert \<Rightarrow> pos \<notin> c_occ (portable_map fp P) c
           \<and> cache_entries (portable_map fp P) c' = add_mset (k, snd (cache_entry c pos)) (cache_entries (portable_map fp P) c)
       | Op_replace \<Rightarrow> (\<forall>q. q div 8 = pos div 8 \<longrightarrow> q \<in> c_occ (portable_map fp P) c
             \<and> c_lru (portable_map fp P) c pos \<le> c_lru (portable_map fp P) c q)
           \<and> cache_entries (portable_map fp P) c'
             = add_mset (k, snd (cache_entry c pos)) (cache_entries (portable_map fp P) c - {#cache_entry c pos#}))"
    (is "?Q")
proof -
  let ?P = "portable_map fp P"
  have h: "pm_hash ?P k = pm_hash P k" "\<not> pm_is_nan ?P k" "has_duplicates ?P = has_duplicates P"
    using nan by (simp_all add: pm_hash_def portable_map_def has_duplicates_def)
  show ?thesis
  proof (rule portable_cache.cache_insert_ok [OF inv h(2), unfolded h(1,3)])
    fix pos c' assume "cache_insert ?P k (pm_hash P k) c = Inr ((pos, Op_found, cache_seq ?P (pm_hash P k)), c')"
      "\<not> has_duplicates P" "pos \<in> c_occ ?P c" "c_keys c ! pos = k" "cache_inv ?P c'" "cache_entries ?P c' = cache_entries ?P c"
      "cache_capacity ?P c' = cache_capacity ?P c"
    then show ?Q by (intro exI [of _ pos] exI [of _ Op_found] exI [of _ c']) simp
  next
    fix pos c' assume "cache_insert ?P k (pm_hash P k) c = Inr ((pos, Op_insert, cache_seq ?P (pm_hash P k)), c')"
      "pos \<notin> c_occ ?P c" "cache_inv ?P c'" "cache_entries ?P c' = add_mset (k, snd (cache_entry c pos)) (cache_entries ?P c)"
      "cache_capacity ?P c' = cache_capacity ?P c"
    then show ?Q by (intro exI [of _ pos] exI [of _ Op_insert] exI [of _ c']) simp
  next
    fix pos c' assume i: "cache_insert ?P k (pm_hash P k) c = Inr ((pos, Op_replace, cache_seq ?P (pm_hash P k)), c')"
      and q: "\<And>q. q div ksize ?P = pos div ksize ?P \<Longrightarrow> q \<in> c_occ ?P c \<and> c_lru ?P c pos \<le> c_lru ?P c q"
      and e: "cache_inv ?P c'" "cache_entries ?P c' = add_mset (k, snd (cache_entry c pos)) (cache_entries ?P c - {#cache_entry c pos#})"
      "cache_capacity ?P c' = cache_capacity ?P c"
    have "\<forall>q. q div 8 = pos div 8 \<longrightarrow> q \<in> c_occ ?P c \<and> c_lru ?P c pos \<le> c_lru ?P c q" using q by simp
    then show ?Q using i e by (intro exI [of _ pos] exI [of _ Op_replace] exI [of _ c']) simp
  qed
qed

theorem cache_insert_witness:
  "\<exists>pos op seq c'. cache_insert demo 6 (pm_hash demo_base 6) demo_cached = Inr ((pos, op, seq), c') \<and> cache_inv demo c'"
  using cache_insert_correct [OF demo_cached_inv, of 6] by (auto simp: demo_base_def)

text \<open>A constructor refuses an invalid configuration and inserting a key that differs from itself
  fails; neither changes a cache.\<close>

theorem cache_errors:
  "(make_cache (portable_map fp P) cf = Inl Invalid_argument \<longleftrightarrow> \<not> is_valid 8 cf)
    \<and> (cache_insert (portable_map fp P) k h c = Inl Runtime_error \<longleftrightarrow> pm_is_nan P k)"
proof
  show "make_cache (portable_map fp P) cf = Inl Invalid_argument \<longleftrightarrow> \<not> is_valid 8 cf" by (simp add: make_cache_def Let_def)
  have "pm_is_nan (portable_map fp P) k = pm_is_nan P k" by (simp add: portable_map_def)
  then show "cache_insert (portable_map fp P) k h c = Inl Runtime_error \<longleftrightarrow> pm_is_nan P k"
    by (simp add: cache_insert_def Let_def split: option.splits prod.splits)
qed

section \<open>Losing entries\<close>

text \<open>C39: Scrubbing with a threshold below the maximum removes exactly the entries whose stamp is below
  it and returns their number; with the maximum, the default, it does nothing.\<close>

theorem cache_scrub_correct:
  assumes "cache_inv (portable_map fp P) c"
  shows "\<exists>c'. cache_scrub (portable_map fp P) t c
      = (int (card {q \<in> c_occ (portable_map fp P) c. t \<noteq> max_lru \<and> c_lru (portable_map fp P) c q < t}), c')
    \<and> cache_inv (portable_map fp P) c'
    \<and> c_occ (portable_map fp P) c' = {q \<in> c_occ (portable_map fp P) c. t = max_lru \<or> t \<le> c_lru (portable_map fp P) c q}
    \<and> cache_entry c' = cache_entry c"
proof -
  let ?P = "portable_map fp P"
  obtain c' where c': "cache_scrub ?P t c = (int (card {q \<in> c_occ ?P c. t \<noteq> max_lru \<and> c_lru ?P c q < t}), c')"
    "portable_cache.cerased fp P c {q. t \<noteq> max_lru \<and> c_lru ?P c q < t} c'" by (rule portable_cache.cache_scrub_ok [OF assms, of t])
  have "c_occ ?P c - {q. t \<noteq> max_lru \<and> c_lru ?P c q < t} = {q \<in> c_occ ?P c. t = max_lru \<or> t \<le> c_lru ?P c q}" by auto
  then show ?thesis using c' by (simp add: portable_cache.cerased_def)
qed

theorem cache_scrub_witness:
  "(\<exists>c'. cache_scrub demo max_lru demo_cached = (0, c') \<and> cache_inv demo c' \<and> c_occ demo c' = c_occ demo demo_cached)
   \<and> (\<exists>n c'. cache_scrub demo 200 demo_cached = (n, c') \<and> cache_inv demo c' \<and> n + int (card (c_occ demo c')) = 1)"
proof
  show "\<exists>c'. cache_scrub demo max_lru demo_cached = (0, c') \<and> cache_inv demo c' \<and> c_occ demo c' = c_occ demo demo_cached"
    using cache_scrub_correct [OF demo_cached_inv, of max_lru] by auto
  let ?O = "c_occ demo demo_cached" and ?A = "\<lambda>q. c_lru demo demo_cached q < 200"
  have fin: "finite ?O" by (simp add: c_occ_def)
  have "size (cache_entries demo demo_cached) = 1" using demo_cached_entries by auto
  then have "card ?O = 1" by (simp add: cache_entries_def)
  moreover have "card ?O = card {q \<in> ?O. ?A q} + card {q \<in> ?O. \<not> ?A q}"
    using fin by (subst card_Un_disjoint [symmetric]) (auto intro: arg_cong [of _ _ card])
  moreover have "(200 :: lru_t) \<noteq> max_lru" by (simp add: max_lru_def)
  ultimately show "\<exists>n c'. cache_scrub demo 200 demo_cached = (n, c') \<and> cache_inv demo c' \<and> n + int (card (c_occ demo c')) = 1"
    using cache_scrub_correct [OF demo_cached_inv, of 200] by (auto simp: not_less)
qed

text \<open>C17: Resizing to a power of two gives that capacity or the configured minimum, whichever is larger;
  the resized cache holds only entries it held before, and all of them unless it got smaller.\<close>

theorem cache_resize_correct:
  assumes "cache_inv (portable_map fp P) c" and "e \<le> 62"
  shows "\<exists>c'. cache_resize (portable_map fp P) (2 ^ e) c = (max (2 ^ e) (min_capacity (c_conf c)), c')
    \<and> cache_inv (portable_map fp P) c' \<and> cache_capacity (portable_map fp P) c' = max (2 ^ e) (min_capacity (c_conf c))
    \<and> cache_entries (portable_map fp P) c' \<subseteq># cache_entries (portable_map fp P) c
    \<and> (cache_capacity (portable_map fp P) c \<le> cache_capacity (portable_map fp P) c'
        \<longrightarrow> cache_entries (portable_map fp P) c' = cache_entries (portable_map fp P) c)"
proof -
  let ?P = "portable_map fp P"
  obtain c' g where c': "cache_resize ?P (2 ^ e) c = (2 ^ g, c')" "cache_inv ?P c'" "cache_capacity ?P c' = 2 ^ g"
    "2 ^ g = max (2 ^ e) (min_capacity (c_conf c))" "cache_entries ?P c' \<subseteq># cache_entries ?P c"
    "cache_capacity ?P c \<le> 2 ^ g \<longrightarrow> cache_entries ?P c' = cache_entries ?P c"
    by (rule portable_cache.cache_resize_ok [OF assms])
  show ?thesis unfolding c'(4) [symmetric] using c'(1,2,5,6) c'(3) by (intro exI [of _ c']) simp
qed

theorem cache_resize_witness:
  "\<exists>c'. cache_resize demo (2 ^ 5) demo_cached = (max (2 ^ 5) (min_capacity (c_conf demo_cached)), c') \<and> cache_inv demo c'"
proof -
  have "(5 :: nat) \<le> 62" by simp
  from cache_resize_correct [OF demo_cached_inv this] show ?thesis by blast
qed

section \<open>Copying and checking\<close>

text \<open>Copying a cache over another, which may reallocate, makes them equal in every field.\<close>

theorem cache_copy_correct:
  assumes "cache_inv (portable_map fp P) other" and "cache_inv (portable_map fp P) c"
  shows "cache_assign (portable_map fp P) other c = other"
  by (rule portable_cache.cache_assign_ok [OF assms])

theorem cache_copy_witness: "cache_assign demo demo_cached demo_cache = demo_cached"
  by (rule cache_copy_correct [OF demo_cached_inv demo_cache_inv])

text \<open>The integrity check, which recounts the empty slots kernel by kernel, passes on every
  well-formed cache.\<close>

theorem cache_integrity:
  assumes "cache_inv (portable_map fp P) c"
  shows "cache_check_integrity (portable_map fp P) c"
  by (rule portable_cache.cache_integrity_ok [OF assms])

theorem cache_integrity_witness: "cache_check_integrity demo demo_cached"
  by (rule cache_integrity [OF demo_cached_inv])

end
