(* ===== verification/Mutex.thy ===== *)
theory Mutex
  imports Main
begin

text \<open>
  The reader-writer lock of mutex.hpp: one atomic integer, negative while a writer holds the lock and
  the number of readers otherwise. A thread is what it executes next: \<open>pc\<close> has one constructor for each
  atomic action of a member function, with the local variables that are live there. A step of one
  thread is one atomic action. A relaxed load may be old when its value is used; so is every load
  here, as other threads may run in between. Memory outside the integer is not modelled.
  \<open>wait\<close> returns when the integer differs from its argument and is otherwise asleep until notified.
\<close>

section \<open>State\<close>

record mutex_conf =
  use_wait :: bool
  spin_iterations :: int

datatype pc =
    Idle | Write_held | Read_held
  | Lk_load int | Lk_cas int int | Lk_wait int | Lk_asleep int
  | Sh_load int | Sh_cas int int | Sh_wait int | Sh_asleep int
  | Try_sh int
  | Unlock_notify | Down_notify | Unsh_notify

record spin_wait_mutex =
  mx_state :: int
  mx_pc :: "nat \<Rightarrow> pc"

definition new_mutex :: spin_wait_mutex where
  "new_mutex = \<lparr>mx_state = 0, mx_pc = (\<lambda>_. Idle)\<rparr>"

text \<open>The largest value of the integer, when \<open>state_type\<close> has that many bits.\<close>

definition max_num_readers :: "nat \<Rightarrow> int" where
  "max_num_readers bits = 2 ^ (bits - 1) - 1"

definition is_locked :: "spin_wait_mutex \<Rightarrow> bool" where
  "is_locked m \<longleftrightarrow> mx_state m < 0"

definition num_shared_locks :: "spin_wait_mutex \<Rightarrow> int" where
  "num_shared_locks m = max (mx_state m) 0"

section \<open>Atomic actions\<close>

definition spinning :: "mutex_conf \<Rightarrow> int \<Rightarrow> bool" where
  "spinning cf i \<longleftrightarrow> i < spin_iterations cf \<or> \<not> use_wait cf"

datatype wake = Wake_none | Wake_one | Wake_all

text \<open>
  \<open>lock\<close>. The weak exchange of the spinning phase may fail although the integer is 0; the strong one of
  the waiting phase leaves the value it found in \<open>s\<close>. After a wait \<open>i\<close> is reset and incremented.
\<close>

inductive lock_step :: "mutex_conf \<Rightarrow> int \<Rightarrow> pc \<Rightarrow> int \<Rightarrow> pc \<Rightarrow> bool" for cf where
  lock_call: "lock_step cf s Idle s (Lk_load 0)"
| lock_load: "lock_step cf s (Lk_load i) s (Lk_cas i s)"
| lock_spin_take: "spinning cf i \<Longrightarrow> lock_step cf 0 (Lk_cas i 0) (- 1) Write_held"
| lock_spin_fail: "spinning cf i \<Longrightarrow> lock_step cf s (Lk_cas i s0) s (Lk_load (i + 1))"
| lock_take: "\<not> spinning cf i \<Longrightarrow> lock_step cf 0 (Lk_cas i 0) (- 1) Write_held"
| lock_lost: "\<not> spinning cf i \<Longrightarrow> s \<noteq> 0 \<Longrightarrow> lock_step cf s (Lk_cas i 0) s (Lk_wait s)"
| lock_busy: "\<not> spinning cf i \<Longrightarrow> s0 \<noteq> 0 \<Longrightarrow> lock_step cf s (Lk_cas i s0) s (Lk_wait s0)"
| lock_sleep: "lock_step cf s (Lk_wait s) s (Lk_asleep s)"
| lock_again: "s \<noteq> s0 \<Longrightarrow> lock_step cf s (Lk_wait s0) s (Lk_load 1)"

text \<open>\<open>try_lock\<close>, \<open>try_upgrade\<close>.\<close>

inductive try_lock_step :: "int \<Rightarrow> pc \<Rightarrow> int \<Rightarrow> pc \<Rightarrow> bool" where
  try_take: "try_lock_step 0 Idle (- 1) Write_held"
| try_refuse: "s \<noteq> 0 \<Longrightarrow> try_lock_step s Idle s Idle"

inductive try_upgrade_step :: "int \<Rightarrow> pc \<Rightarrow> int \<Rightarrow> pc \<Rightarrow> bool" where
  upgrade: "try_upgrade_step 1 Read_held (- 1) Write_held"
| upgrade_refuse: "s \<noteq> 1 \<Longrightarrow> try_upgrade_step s Read_held s Read_held"

text \<open>\<open>lock_shared\<close>.\<close>

inductive lock_shared_step :: "mutex_conf \<Rightarrow> int \<Rightarrow> pc \<Rightarrow> int \<Rightarrow> pc \<Rightarrow> bool" for cf where
  shared_call: "lock_shared_step cf s Idle s (Sh_load 0)"
| shared_load: "lock_shared_step cf s (Sh_load i) s (Sh_cas i s)"
| shared_take: "0 \<le> s \<Longrightarrow> lock_shared_step cf s (Sh_cas i s) (s + 1) Read_held"
| shared_spin_fail: "spinning cf i \<Longrightarrow> lock_shared_step cf s (Sh_cas i s0) s (Sh_load (i + 1))"
| shared_fail: "\<not> spinning cf i \<Longrightarrow> 0 \<le> s0 \<Longrightarrow> lock_shared_step cf s (Sh_cas i s0) s (Sh_load 1)"
| shared_busy: "\<not> spinning cf i \<Longrightarrow> s0 < 0 \<Longrightarrow> lock_shared_step cf s (Sh_cas i s0) s (Sh_wait s0)"
| shared_sleep: "lock_shared_step cf s (Sh_wait s) s (Sh_asleep s)"
| shared_again: "s \<noteq> s0 \<Longrightarrow> lock_shared_step cf s (Sh_wait s0) s (Sh_load 1)"

text \<open>\<open>try_lock_shared\<close>: a failed exchange leaves the value it found in \<open>s\<close>.\<close>

inductive try_lock_shared_step :: "int \<Rightarrow> pc \<Rightarrow> int \<Rightarrow> pc \<Rightarrow> bool" where
  try_shared_load: "try_lock_shared_step s Idle s (Try_sh s)"
| try_shared_take: "0 \<le> s \<Longrightarrow> try_lock_shared_step s (Try_sh s) (s + 1) Read_held"
| try_shared_fail: "0 \<le> s0 \<Longrightarrow> try_lock_shared_step s (Try_sh s0) s (Try_sh s)"
| try_shared_refuse: "s0 < 0 \<Longrightarrow> try_lock_shared_step s (Try_sh s0) s Idle"

text \<open>\<open>unlock\<close>, \<open>downgrade\<close>, \<open>unlock_shared\<close>, with the notification as an action of its own.\<close>

inductive unlock_step :: "mutex_conf \<Rightarrow> int \<Rightarrow> pc \<Rightarrow> wake \<Rightarrow> int \<Rightarrow> pc \<Rightarrow> bool" for cf where
  unlock: "unlock_step cf s Write_held Wake_none 0 (if use_wait cf then Unlock_notify else Idle)"
| unlock_notify: "unlock_step cf s Unlock_notify Wake_all s Idle"

inductive downgrade_step :: "mutex_conf \<Rightarrow> int \<Rightarrow> pc \<Rightarrow> wake \<Rightarrow> int \<Rightarrow> pc \<Rightarrow> bool" for cf where
  downgrade: "downgrade_step cf s Write_held Wake_none 1 (if use_wait cf then Down_notify else Read_held)"
| downgrade_notify: "downgrade_step cf s Down_notify Wake_all s Read_held"

inductive unlock_shared_step :: "mutex_conf \<Rightarrow> int \<Rightarrow> pc \<Rightarrow> wake \<Rightarrow> int \<Rightarrow> pc \<Rightarrow> bool" for cf where
  unlock_shared: "unlock_shared_step cf s Read_held Wake_none (s - 1) (if use_wait cf \<and> s = 1 then Unsh_notify else Idle)"
| unlock_shared_notify: "unlock_shared_step cf s Unsh_notify Wake_one s Idle"

inductive pc_step :: "mutex_conf \<Rightarrow> int \<Rightarrow> pc \<Rightarrow> wake \<Rightarrow> int \<Rightarrow> pc \<Rightarrow> bool" for cf where
  "lock_step cf s p s' p' \<Longrightarrow> pc_step cf s p Wake_none s' p'"
| "try_lock_step s p s' p' \<Longrightarrow> pc_step cf s p Wake_none s' p'"
| "try_upgrade_step s p s' p' \<Longrightarrow> pc_step cf s p Wake_none s' p'"
| "lock_shared_step cf s p s' p' \<Longrightarrow> pc_step cf s p Wake_none s' p'"
| "try_lock_shared_step s p s' p' \<Longrightarrow> pc_step cf s p Wake_none s' p'"
| "unlock_step cf s p w s' p' \<Longrightarrow> pc_step cf s p w s' p'"
| "downgrade_step cf s p w s' p' \<Longrightarrow> pc_step cf s p w s' p'"
| "unlock_shared_step cf s p w s' p' \<Longrightarrow> pc_step cf s p w s' p'"

section \<open>Threads\<close>

fun asleep :: "pc \<Rightarrow> bool" where
  "asleep (Lk_asleep s) = True"
| "asleep (Sh_asleep s) = True"
| "asleep _ = False"

fun awaken :: "pc \<Rightarrow> pc" where
  "awaken (Lk_asleep s) = Lk_wait s"
| "awaken (Sh_asleep s) = Sh_wait s"
| "awaken p = p"

text \<open>\<open>notify_one\<close> wakes one sleeping thread when there is one, \<open>notify_all\<close> every one.\<close>

inductive mutex_step :: "mutex_conf \<Rightarrow> nat \<Rightarrow> spin_wait_mutex \<Rightarrow> spin_wait_mutex \<Rightarrow> bool" for cf where
  quiet: "pc_step cf (mx_state m) (mx_pc m t) Wake_none s' p' \<Longrightarrow>
    mutex_step cf t m \<lparr>mx_state = s', mx_pc = (mx_pc m)(t := p')\<rparr>"
| notify_all: "pc_step cf (mx_state m) (mx_pc m t) Wake_all s' p' \<Longrightarrow>
    mutex_step cf t m \<lparr>mx_state = s', mx_pc = (\<lambda>u. awaken (mx_pc m u))(t := p')\<rparr>"
| notify_nobody: "pc_step cf (mx_state m) (mx_pc m t) Wake_one s' p' \<Longrightarrow> \<forall>u. \<not> asleep (mx_pc m u) \<Longrightarrow>
    mutex_step cf t m \<lparr>mx_state = s', mx_pc = (mx_pc m)(t := p')\<rparr>"
| notify_one: "pc_step cf (mx_state m) (mx_pc m t) Wake_one s' p' \<Longrightarrow> asleep (mx_pc m u) \<Longrightarrow>
    mutex_step cf t m \<lparr>mx_state = s', mx_pc = (mx_pc m)(u := awaken (mx_pc m u), t := p')\<rparr>"

inductive mutex_reach :: "mutex_conf \<Rightarrow> spin_wait_mutex \<Rightarrow> bool" for cf where
  start: "mutex_reach cf new_mutex"
| step: "mutex_reach cf m \<Longrightarrow> mutex_step cf t m m' \<Longrightarrow> mutex_reach cf m'"

text \<open>Steps of threads that are inside a call: no thread starts a call or gives a lock back.\<close>

fun in_call :: "pc \<Rightarrow> bool" where
  "in_call Idle = False"
| "in_call Write_held = False"
| "in_call Read_held = False"
| "in_call _ = True"

inductive mutex_run :: "mutex_conf \<Rightarrow> spin_wait_mutex \<Rightarrow> spin_wait_mutex \<Rightarrow> bool" for cf where
  stop: "mutex_run cf m m"
| more: "in_call (mx_pc m t) \<Longrightarrow> mutex_step cf t m m1 \<Longrightarrow> mutex_run cf m1 m' \<Longrightarrow> mutex_run cf m m'"

lemmas action_intros = lock_step.intros try_lock_step.intros try_upgrade_step.intros lock_shared_step.intros
  try_lock_shared_step.intros unlock_step.intros downgrade_step.intros unlock_shared_step.intros

lemmas action_elims = lock_step.cases try_lock_step.cases try_upgrade_step.cases lock_shared_step.cases
  try_lock_shared_step.cases unlock_step.cases downgrade_step.cases unlock_shared_step.cases

lemmas action_cases = lock_step.simps try_lock_step.simps try_upgrade_step.simps lock_shared_step.simps
  try_lock_shared_step.simps unlock_step.simps downgrade_step.simps unlock_shared_step.simps

section \<open>Who holds the lock\<close>

fun writing :: "pc \<Rightarrow> bool" where
  "writing Write_held = True"
| "writing _ = False"

fun reading :: "pc \<Rightarrow> bool" where
  "reading Read_held = True"
| "reading Down_notify = True"
| "reading _ = False"

definition writers :: "spin_wait_mutex \<Rightarrow> nat set" where
  "writers m = {t. writing (mx_pc m t)}"

definition readers :: "spin_wait_mutex \<Rightarrow> nat set" where
  "readers m = {t. reading (mx_pc m t)}"

definition active :: "spin_wait_mutex \<Rightarrow> nat set" where
  "active m = {t. mx_pc m t \<noteq> Idle}"

definition held_ok :: "spin_wait_mutex \<Rightarrow> bool" where
  "held_ok m \<longleftrightarrow> finite (active m)
     \<and> (mx_state m = - 1 \<and> readers m = {} \<and> (\<exists>t. writers m = {t}) \<or> mx_state m = int (card (readers m)) \<and> writers m = {})"

lemma awaken_held [simp]: "writing (awaken p) = writing p" "reading (awaken p) = reading p" "awaken p = Idle \<longleftrightarrow> p = Idle"
  by (cases p; simp)+

lemma awaken_awake: "\<not> asleep p \<Longrightarrow> awaken p = p"
  by (cases p) simp_all

lemma mutex_stepD:
  assumes "mutex_step cf t m m'"
  obtains w where "pc_step cf (mx_state m) (mx_pc m t) w (mx_state m') (mx_pc m' t)"
    and "\<forall>u. u \<noteq> t \<longrightarrow> mx_pc m' u = mx_pc m u \<or> mx_pc m' u = awaken (mx_pc m u)"
    and "w = Wake_all \<longrightarrow> (\<forall>u. u \<noteq> t \<longrightarrow> \<not> asleep (mx_pc m' u))"
    and "w = Wake_one \<longrightarrow> (\<forall>u. \<not> asleep (mx_pc m u)) \<or> (\<exists>u. u \<noteq> t \<and> asleep (mx_pc m u) \<and> mx_pc m' u = awaken (mx_pc m u))"
  using assms
proof cases
  case (quiet s' p')
  then show ?thesis using that [of Wake_none] by simp
next
  case (notify_all s' p')
  have "\<not> asleep (awaken p)" for p by (cases p) simp_all
  then show ?thesis using notify_all that [of Wake_all] by simp
next
  case (notify_nobody s' p')
  then show ?thesis using that [of Wake_one] by simp
next
  case (notify_one s' p' u)
  have "u \<noteq> t"
  proof
    assume "u = t"
    then show False using notify_one(2,3) by (auto simp: pc_step.simps action_cases)
  qed
  then show ?thesis by (intro that [of Wake_one]) (use notify_one in \<open>auto\<close>)
qed

lemma pc_step_held:
  assumes "pc_step cf s p w s' p'"
  shows "s' = s \<and> reading p' = reading p \<and> writing p' = writing p
    \<or> s = 0 \<and> s' = - 1 \<and> \<not> reading p \<and> \<not> writing p \<and> writing p' \<and> \<not> reading p'
    \<or> s = 1 \<and> s' = - 1 \<and> reading p \<and> \<not> writing p \<and> writing p' \<and> \<not> reading p'
    \<or> 0 \<le> s \<and> s' = s + 1 \<and> \<not> reading p \<and> \<not> writing p \<and> reading p' \<and> \<not> writing p'
    \<or> s' = 0 \<and> writing p \<and> \<not> reading p \<and> \<not> writing p' \<and> \<not> reading p'
    \<or> s' = 1 \<and> writing p \<and> \<not> reading p \<and> reading p' \<and> \<not> writing p'
    \<or> s' = s - 1 \<and> reading p \<and> \<not> writing p \<and> \<not> reading p' \<and> \<not> writing p'"
  using assms by cases (erule action_elims; force split: if_splits)+

lemma held_after:
  assumes "mutex_step cf t m m'"
  shows "readers m' = (if reading (mx_pc m' t) then insert t (readers m) else readers m - {t})"
    and "writers m' = (if writing (mx_pc m' t) then insert t (writers m) else writers m - {t})"
    and "active m' \<subseteq> insert t (active m)"
proof -
  have o: "reading (mx_pc m' u) = reading (mx_pc m u)" "writing (mx_pc m' u) = writing (mx_pc m u)" "mx_pc m' u = Idle \<longleftrightarrow> mx_pc m u = Idle"
    if "u \<noteq> t" for u
    using mutex_stepD [OF assms] that by (metis awaken_held)+
  have "u \<in> readers m' \<longleftrightarrow> u \<in> (if reading (mx_pc m' t) then insert t (readers m) else readers m - {t})"
    and "u \<in> writers m' \<longleftrightarrow> u \<in> (if writing (mx_pc m' t) then insert t (writers m) else writers m - {t})" for u
    by (cases "u = t"; simp add: readers_def writers_def o)+
  then show "readers m' = (if reading (mx_pc m' t) then insert t (readers m) else readers m - {t})"
    and "writers m' = (if writing (mx_pc m' t) then insert t (writers m) else writers m - {t})"
    by blast+
  show "active m' \<subseteq> insert t (active m)" using o(3) by (auto simp: active_def)
qed

lemma held_ok_step:
  assumes ok: "held_ok m" and st: "mutex_step cf t m m'"
  shows "held_ok m'"
proof -
  obtain w where p: "pc_step cf (mx_state m) (mx_pc m t) w (mx_state m') (mx_pc m' t)" by (rule mutex_stepD [OF st])
  note h = held_after [OF st]
  have fin: "finite (active m')" using h(3) ok unfolding held_ok_def by (meson finite_insert finite_subset)
  have "readers m \<subseteq> active m" by (auto simp: readers_def active_def)
  then have fr: "finite (readers m)" using ok unfolding held_ok_def by (meson finite_subset)
  have mem: "t \<in> readers m \<longleftrightarrow> reading (mx_pc m t)" "t \<in> writers m \<longleftrightarrow> writing (mx_pc m t)" by (simp_all add: readers_def writers_def)
  have cr: "0 < card (readers m)" if "t \<in> readers m" using that fr by (auto simp: card_gt_0_iff)
  have one: "readers m = {t}" if "card (readers m) = 1" "t \<in> readers m" using that by (metis card_1_singletonE singletonD)
  from pc_step_held [OF p] ok show ?thesis
    unfolding held_ok_def h(1,2)
    using fin fr mem cr one by (elim disjE conjE exE) (auto simp: insert_absorb card_Diff_singleton of_nat_diff)
qed

theorem mutex_reach_held:
  assumes "mutex_reach cf m"
  shows "held_ok m"
  using assms
proof induction
  case start
  then show ?case by (simp add: held_ok_def new_mutex_def active_def readers_def writers_def)
next
  case (step m t m')
  then show ?case using held_ok_step by blast
qed

end
