(* ===== verification/MutexProps.thy ===== *)
theory MutexProps
  imports Mutex
begin

text \<open>
  Mutual exclusion and progress of the lock. A writer asleep while the lock is free is always matched by
  a thread that will try to take the lock or is about to notify, and a reader asleep while no writer
  holds the lock by a thread about to notify all: no wake-up is lost.
\<close>

section \<open>Sleeping threads\<close>

fun wait_ok :: "pc \<Rightarrow> bool" where
  "wait_ok (Lk_wait s) = (s \<noteq> 0)"
| "wait_ok (Lk_asleep s) = (s \<noteq> 0)"
| "wait_ok (Sh_wait s) = (s < 0)"
| "wait_ok (Sh_asleep s) = (s < 0)"
| "wait_ok _ = True"

fun notifier :: "pc \<Rightarrow> bool" where
  "notifier Unlock_notify = True"
| "notifier Down_notify = True"
| "notifier _ = False"

fun live :: "pc \<Rightarrow> bool" where
  "live (Lk_load i) = True"
| "live (Lk_cas i s) = True"
| "live (Lk_wait s) = True"
| "live Unlock_notify = True"
| "live Down_notify = True"
| "live Unsh_notify = True"
| "live _ = False"

fun waiting :: "pc \<Rightarrow> bool" where
  "waiting (Lk_wait s) = True"
| "waiting (Lk_asleep s) = True"
| "waiting (Sh_wait s) = True"
| "waiting (Sh_asleep s) = True"
| "waiting _ = False"

definition sleep_ok :: "mutex_conf \<Rightarrow> spin_wait_mutex \<Rightarrow> bool" where
  "sleep_ok cf m \<longleftrightarrow> (\<forall>t. wait_ok (mx_pc m t)) \<and> (\<forall>t. waiting (mx_pc m t) \<longrightarrow> use_wait cf)
     \<and> (\<forall>t s. mx_pc m t = Sh_asleep s \<longrightarrow> 0 \<le> mx_state m \<longrightarrow> (\<exists>u. notifier (mx_pc m u)))
     \<and> (\<forall>t s. mx_pc m t = Lk_asleep s \<longrightarrow> mx_state m = 0 \<longrightarrow> (\<exists>u. live (mx_pc m u)))"

lemma awaken_wait [simp]: "wait_ok (awaken p) = wait_ok p" "waiting (awaken p) = waiting p" "\<not> asleep (awaken p)"
  by (cases p; simp)+

lemma awake_kinds: "notifier p \<Longrightarrow> \<not> asleep p" "live p \<Longrightarrow> \<not> asleep p" "notifier p \<Longrightarrow> live p" "asleep p \<Longrightarrow> waiting p"
  by (cases p; simp)+

lemma asleep_kinds: "asleep p \<Longrightarrow> (\<exists>s. p = Lk_asleep s) \<and> live (awaken p) \<or> (\<exists>s. p = Sh_asleep s)"
  by (cases p) simp_all

lemma pc_step_wait:
  assumes "pc_step cf s p w s' p'" and "wait_ok p"
  shows "wait_ok p' \<and> (waiting p' \<longrightarrow> waiting p \<or> use_wait cf)
    \<and> (asleep p' \<longrightarrow> s' = s \<and> s \<noteq> 0 \<and> w \<noteq> Wake_all \<and> ((\<exists>x. p' = Sh_asleep x) \<longrightarrow> s < 0))
    \<and> (notifier p \<longrightarrow> w = Wake_all) \<and> (s < 0 \<and> 0 \<le> s' \<and> use_wait cf \<longrightarrow> notifier p')
    \<and> (s \<noteq> 0 \<and> s' = 0 \<and> use_wait cf \<longrightarrow> live p')
    \<and> (s = 0 \<and> s' = 0 \<and> live p \<longrightarrow> live p' \<or> w = Wake_all \<or> w = Wake_one \<and> p = Unsh_notify)"
  using assms by cases (erule action_elims; force simp: spinning_def split: if_splits)+

lemma sleep_ok_step:
  assumes ok: "sleep_ok cf m" and st: "mutex_step cf t m m'"
  shows "sleep_ok cf m'"
proof -
  let ?p = "mx_pc m" and ?p' = "mx_pc m'"
  obtain w where p: "pc_step cf (mx_state m) (?p t) w (mx_state m') (?p' t)"
    and oth: "\<forall>u. u \<noteq> t \<longrightarrow> ?p' u = ?p u \<or> ?p' u = awaken (?p u)"
    and all: "w = Wake_all \<longrightarrow> (\<forall>u. u \<noteq> t \<longrightarrow> \<not> asleep (?p' u))"
    and one: "w = Wake_one \<longrightarrow> (\<forall>u. \<not> asleep (?p u)) \<or> (\<exists>u. u \<noteq> t \<and> asleep (?p u) \<and> ?p' u = awaken (?p u))"
    by (rule mutex_stepD [OF st])
  have wt: "wait_ok (?p t)" using ok by (simp add: sleep_ok_def)
  note ps = pc_step_wait [OF p wt]
  have wo: "wait_ok (?p' u)" "waiting (?p' u) \<longrightarrow> use_wait cf" for u
    using ps oth ok unfolding sleep_ok_def by (metis awaken_wait(1,2))+
  have was: "u \<noteq> t \<and> ?p u = ?p' u \<and> w \<noteq> Wake_all \<and> use_wait cf" if "asleep (?p' u)" "0 \<le> mx_state m'" "?p' u = Sh_asleep s \<or> mx_state m' = 0" for u s
  proof -
    have u: "u \<noteq> t" using that ps by force
    moreover have "w \<noteq> Wake_all" using that(1) all u by blast
    moreover have "?p u = ?p' u" using oth u that(1) by force
    ultimately show ?thesis using wo(2) awake_kinds(4) [OF that(1)] by blast
  qed
  have keep: "\<exists>v. R (?p' v)" if "\<And>q. R q \<Longrightarrow> \<not> asleep q" "R (?p v)" "v \<noteq> t" for R v
    using oth awaken_awake [of "?p v"] that by metis
  have "\<exists>v. notifier (?p' v)" if u: "?p' u = Sh_asleep s" "0 \<le> mx_state m'" for u s
  proof -
    have w: "u \<noteq> t" "?p u = Sh_asleep s" "w \<noteq> Wake_all" "use_wait cf" using was [of u s] u by simp_all
    show ?thesis
    proof (cases "0 \<le> mx_state m")
      case True
      then obtain v where v: "notifier (?p v)" using ok w(2) unfolding sleep_ok_def by blast
      then have "v \<noteq> t" using ps w(3) by blast
      then show ?thesis using keep [of notifier v] awake_kinds(1) v by blast
    next
      case False
      then show ?thesis using ps u(2) w(4) by force
    qed
  qed
  moreover have "\<exists>v. live (?p' v)" if u: "?p' u = Lk_asleep s" "mx_state m' = 0" for u s
  proof -
    have w: "u \<noteq> t" "?p u = Lk_asleep s" "w \<noteq> Wake_all" "use_wait cf" using was [of u 0] u by simp_all
    show ?thesis
    proof (cases "mx_state m = 0")
      case True
      then obtain v where v: "live (?p v)" using ok w(2) unfolding sleep_ok_def by blast
      show ?thesis
      proof (cases "v = t")
        case False
        then show ?thesis using keep [of live v] awake_kinds(2) v by blast
      next
        case vt: True
        consider "live (?p' t)" | "w = Wake_one" "?p t = Unsh_notify" using ps True u(2) v w(3) vt by blast
        then show ?thesis
        proof cases
          case 2
          have "asleep (?p u)" using w(2) by simp
          then obtain x where x: "x \<noteq> t" "asleep (?p x)" "?p' x = awaken (?p x)" using one 2(1) by blast
          show ?thesis
          proof (cases "live (?p' x)")
            case False
            then obtain s1 where "?p x = Sh_asleep s1" using asleep_kinds [OF x(2)] x(3) by auto
            then obtain y where y: "notifier (?p y)" using ok True unfolding sleep_ok_def by force
            then have "y \<noteq> t" using 2(2) by auto
            then show ?thesis using keep [of live y] awake_kinds(2,3) y by blast
          qed blast
        qed blast
      qed
    next
      case False
      then show ?thesis using ps u(2) w(4) by blast
    qed
  qed
  ultimately show ?thesis using wo unfolding sleep_ok_def by blast
qed

theorem mutex_reach_sleep:
  assumes "mutex_reach cf m"
  shows "sleep_ok cf m"
  using assms
proof induction
  case start
  then show ?case by (simp add: sleep_ok_def new_mutex_def)
next
  case (step m t m')
  then show ?case using sleep_ok_step by blast
qed

section \<open>Progress\<close>

lemma mutex_run_trans: "mutex_run cf m m1 \<Longrightarrow> mutex_run cf m1 m2 \<Longrightarrow> mutex_run cf m m2"
  by (induction rule: mutex_run.induct) (auto intro: mutex_run.intros)

lemma quiet_run:
  assumes "pc_step cf (mx_state m) (mx_pc m t) Wake_none s' p'" and "in_call (mx_pc m t)"
  shows "mutex_run cf m \<lparr>mx_state = s', mx_pc = (mx_pc m)(t := p')\<rparr>"
  using mutex_run.more [OF assms(2) mutex_step.quiet [OF assms(1)] mutex_run.stop] .

text \<open>A thread in \<open>lock\<close> that is awake takes a free lock, one in \<open>lock_shared\<close> a lock without a writer.\<close>

lemma lock_run:
  assumes "mx_state m = 0" and "wait_ok (mx_pc m t)" and "(\<exists>i. mx_pc m t = Lk_load i) \<or> (\<exists>i s. mx_pc m t = Lk_cas i s) \<or> (\<exists>s. mx_pc m t = Lk_wait s)"
  shows "\<exists>m'. mutex_run cf m m' \<and> mx_pc m' t = Write_held"
proof -
  have cas: "\<exists>m'. mutex_run cf m m' \<and> mx_pc m' t = Write_held" if "mx_state m = 0" "mx_pc m t = Lk_cas i 0" for m i
  proof -
    have "lock_step cf 0 (Lk_cas i 0) (- 1) Write_held" by (cases "spinning cf i") (auto intro: lock_step.intros)
    then have "pc_step cf (mx_state m) (mx_pc m t) Wake_none (- 1) Write_held" using that by (simp add: pc_step.intros)
    from quiet_run [OF this] that show ?thesis by (intro exI conjI) auto
  qed
  have load: "\<exists>m'. mutex_run cf m m' \<and> mx_pc m' t = Write_held" if "mx_state m = 0" "mx_pc m t = Lk_load i" for m i
  proof -
    have "pc_step cf (mx_state m) (mx_pc m t) Wake_none 0 (Lk_cas i 0)" using that by (auto intro: pc_step.intros lock_step.intros)
    from quiet_run [OF this] that cas [of "\<lparr>mx_state = 0, mx_pc = (mx_pc m)(t := Lk_cas i 0)\<rparr>" i] show ?thesis
      by (auto intro: mutex_run_trans)
  qed
  have wait: "\<exists>m'. mutex_run cf m m' \<and> mx_pc m' t = Write_held" if "mx_state m = 0" "mx_pc m t = Lk_wait s" "s \<noteq> 0" for m s
  proof -
    have "pc_step cf (mx_state m) (mx_pc m t) Wake_none 0 (Lk_load 1)" using that by (auto intro!: pc_step.intros(1) lock_step.intros)
    from quiet_run [OF this] that load [of "\<lparr>mx_state = 0, mx_pc = (mx_pc m)(t := Lk_load 1)\<rparr>" 1] show ?thesis
      by (auto intro: mutex_run_trans)
  qed
  have busy: "\<exists>m'. mutex_run cf m m' \<and> mx_pc m' t = Write_held" if "mx_state m = 0" "mx_pc m t = Lk_cas i s" "s \<noteq> 0" for m i s
  proof (cases "spinning cf i")
    case True
    then have "pc_step cf (mx_state m) (mx_pc m t) Wake_none 0 (Lk_load (i + 1))" using that by (auto intro!: pc_step.intros(1) lock_step.intros)
    from quiet_run [OF this] that load [of "\<lparr>mx_state = 0, mx_pc = (mx_pc m)(t := Lk_load (i + 1))\<rparr>" "i + 1"] show ?thesis
      by (auto intro: mutex_run_trans)
  next
    case False
    then have "pc_step cf (mx_state m) (mx_pc m t) Wake_none 0 (Lk_wait s)" using that by (auto intro!: pc_step.intros(1) lock_step.intros)
    from quiet_run [OF this] that wait [of "\<lparr>mx_state = 0, mx_pc = (mx_pc m)(t := Lk_wait s)\<rparr>" s] show ?thesis
      by (auto intro: mutex_run_trans)
  qed
  show ?thesis using assms cas load wait busy by (metis wait_ok.simps(1))
qed

lemma shared_run:
  assumes "0 \<le> mx_state m" and "wait_ok (mx_pc m t)" and "(\<exists>i. mx_pc m t = Sh_load i) \<or> (\<exists>i s. mx_pc m t = Sh_cas i s) \<or> (\<exists>s. mx_pc m t = Sh_wait s)"
  shows "\<exists>m'. mutex_run cf m m' \<and> mx_pc m' t = Read_held"
proof -
  have move: "\<exists>m'. mutex_run cf m m' \<and> mx_pc m' t = Read_held"
    if "lock_shared_step cf (mx_state m) (mx_pc m t) (mx_state m) p'" "in_call (mx_pc m t)"
      "\<And>m'. mx_state m' = mx_state m \<Longrightarrow> mx_pc m' t = p' \<Longrightarrow> \<exists>m2. mutex_run cf m' m2 \<and> mx_pc m2 t = Read_held" for m p'
    using quiet_run [OF pc_step.intros(4) [OF that(1)] that(2)] that(3) [of "\<lparr>mx_state = mx_state m, mx_pc = (mx_pc m)(t := p')\<rparr>"]
    by (auto intro: mutex_run_trans)
  have cas: "\<exists>m'. mutex_run cf m m' \<and> mx_pc m' t = Read_held" if "0 \<le> mx_state m" "mx_pc m t = Sh_cas i (mx_state m)" for m i
  proof -
    have "pc_step cf (mx_state m) (mx_pc m t) Wake_none (mx_state m + 1) Read_held"
      using that by (auto intro!: pc_step.intros(4) lock_shared_step.shared_take)
    from quiet_run [OF this] that show ?thesis by (intro exI conjI) auto
  qed
  have load: "\<exists>m'. mutex_run cf m m' \<and> mx_pc m' t = Read_held" if "0 \<le> mx_state m" "mx_pc m t = Sh_load i" for m i
    by (rule move [where p' = "Sh_cas i (mx_state m)"]) (use that cas in \<open>auto intro: lock_shared_step.intros\<close>)
  have wait: "\<exists>m'. mutex_run cf m m' \<and> mx_pc m' t = Read_held" if "0 \<le> mx_state m" "mx_pc m t = Sh_wait s" "s < 0" for m s
    by (rule move [where p' = "Sh_load 1"]) (use that load in \<open>auto intro!: lock_shared_step.shared_again\<close>)
  have busy: "\<exists>m'. mutex_run cf m m' \<and> mx_pc m' t = Read_held" if "0 \<le> mx_state m" "mx_pc m t = Sh_cas i s" for m i s
  proof (cases "spinning cf i")
    case True
    show ?thesis
      by (rule move [where p' = "Sh_load (i + 1)"]) (use that load True in \<open>auto intro!: lock_shared_step.shared_spin_fail\<close>)
  next
    case False
    show ?thesis
    proof (cases "s < 0")
      case True
      show ?thesis
        by (rule move [where p' = "Sh_wait s"]) (use that wait True False in \<open>auto intro!: lock_shared_step.shared_busy\<close>)
    next
      case nn: False
      show ?thesis
        by (rule move [where p' = "Sh_load 1"]) (use that load nn False in \<open>auto intro!: lock_shared_step.shared_fail\<close>)
    qed
  qed
  show ?thesis using assms load wait busy by (metis wait_ok.simps(3))
qed

text \<open>Pending notifications reach the sleepers.\<close>

lemma notifier_run:
  assumes "notifier (mx_pc m u)" and "u \<noteq> t"
  shows "\<exists>m'. mutex_run cf m m' \<and> mx_state m' = mx_state m \<and> mx_pc m' t = awaken (mx_pc m t)"
proof -
  obtain p' where "pc_step cf (mx_state m) (mx_pc m u) Wake_all (mx_state m) p'" and "in_call (mx_pc m u)"
    using assms(1) by (cases "mx_pc m u") (auto intro: pc_step.intros(6) unlock_step.unlock_notify pc_step.intros(7) downgrade_step.downgrade_notify)
  note run = mutex_run.more [OF this(2) mutex_step.notify_all [OF this(1)] mutex_run.stop]
  show ?thesis by (rule exI, rule conjI, rule run) (use assms(2) in simp)
qed

lemma one_run:
  assumes "mx_pc m u = Unsh_notify" and "asleep (mx_pc m t)"
  shows "\<exists>m'. mutex_run cf m m' \<and> mx_state m' = mx_state m \<and> mx_pc m' t = awaken (mx_pc m t)"
proof -
  have ut: "u \<noteq> t" using assms by auto
  have p: "pc_step cf (mx_state m) (mx_pc m u) Wake_one (mx_state m) Idle"
    using assms(1) by (auto intro: pc_step.intros(8) unlock_shared_step.unlock_shared_notify)
  have "in_call (mx_pc m u)" by (simp add: assms(1))
  note run = mutex_run.more [OF this mutex_step.notify_one [OF p assms(2)] mutex_run.stop]
  show ?thesis by (rule exI, rule conjI, rule run) (use ut in simp)
qed

section \<open>Properties\<close>

fun locking :: "pc \<Rightarrow> bool" where
  "locking (Lk_load i) = True"
| "locking (Lk_cas i s) = True"
| "locking (Lk_wait s) = True"
| "locking (Lk_asleep s) = True"
| "locking _ = False"

fun locking_shared :: "pc \<Rightarrow> bool" where
  "locking_shared (Sh_load i) = True"
| "locking_shared (Sh_cas i s) = True"
| "locking_shared (Sh_wait s) = True"
| "locking_shared (Sh_asleep s) = True"
| "locking_shared _ = False"

text \<open>A free lock with a writer asleep that the last owner is about to wake, and one with a reader
  asleep after a downgrade.\<close>

definition sleepy :: "int \<Rightarrow> pc \<Rightarrow> pc \<Rightarrow> spin_wait_mutex" where
  "sleepy s p q = \<lparr>mx_state = s, mx_pc = (\<lambda>_. Idle)(0 := p, 1 := q)\<rparr>"

definition eager_conf :: mutex_conf where
  "eager_conf = \<lparr>use_wait = True, spin_iterations = 0\<rparr>"

lemma sleepy_start: "new_mutex = sleepy 0 Idle Idle"
  by (simp add: new_mutex_def sleepy_def fun_eq_iff)

lemma sleepy_step:
  "pc_step cf s p Wake_none s' p' \<Longrightarrow> mutex_reach cf (sleepy s p q) \<Longrightarrow> mutex_reach cf (sleepy s' p' q)"
  "pc_step cf s q Wake_none s' q' \<Longrightarrow> mutex_reach cf (sleepy s p q) \<Longrightarrow> mutex_reach cf (sleepy s' p q')"
proof -
  assume "pc_step cf s p Wake_none s' p'" and r: "mutex_reach cf (sleepy s p q)"
  then have "mutex_step cf 0 (sleepy s p q) (sleepy s' p' q)"
    using mutex_step.quiet [of cf "sleepy s p q" 0 s' p'] by (simp add: sleepy_def fun_upd_twist)
  with r show "mutex_reach cf (sleepy s' p' q)" by (rule mutex_reach.step)
next
  assume "pc_step cf s q Wake_none s' q'" and r: "mutex_reach cf (sleepy s p q)"
  then have "mutex_step cf 1 (sleepy s p q) (sleepy s' p q')"
    using mutex_step.quiet [of cf "sleepy s p q" 1 s' q'] by (simp add: sleepy_def)
  with r show "mutex_reach cf (sleepy s' p q')" by (rule mutex_reach.step)
qed

lemma sleepy_writer: "mutex_reach eager_conf (sleepy 0 Unlock_notify (Lk_asleep (- 1)))"
proof -
  let ?R = "\<lambda>s p q. mutex_reach eager_conf (sleepy s p q)"
  have "?R 0 Idle Idle" using mutex_reach.start sleepy_start by metis
  then have "?R (- 1) Write_held Idle" by (rule sleepy_step(1) [OF pc_step.intros(2) [OF try_take]])
  then have "?R (- 1) Write_held (Lk_load 0)" by (rule sleepy_step(2) [OF pc_step.intros(1) [OF lock_call]])
  then have "?R (- 1) Write_held (Lk_cas 0 (- 1))" by (rule sleepy_step(2) [OF pc_step.intros(1) [OF lock_load]])
  then have "?R (- 1) Write_held (Lk_wait (- 1))"
    by (rule sleepy_step(2) [OF pc_step.intros(1) [OF lock_busy], rotated 2]) (simp_all add: spinning_def eager_conf_def)
  then have "?R (- 1) Write_held (Lk_asleep (- 1))" by (rule sleepy_step(2) [OF pc_step.intros(1) [OF lock_sleep]])
  from sleepy_step(1) [OF pc_step.intros(6) [OF unlock] this] show ?thesis by (simp add: eager_conf_def)
qed

lemma sleepy_reader: "mutex_reach eager_conf (sleepy 1 Down_notify (Sh_asleep (- 1)))"
proof -
  let ?R = "\<lambda>s p q. mutex_reach eager_conf (sleepy s p q)"
  have "?R 0 Idle Idle" using mutex_reach.start sleepy_start by metis
  then have "?R (- 1) Write_held Idle" by (rule sleepy_step(1) [OF pc_step.intros(2) [OF try_take]])
  then have "?R (- 1) Write_held (Sh_load 0)" by (rule sleepy_step(2) [OF pc_step.intros(4) [OF shared_call]])
  then have "?R (- 1) Write_held (Sh_cas 0 (- 1))" by (rule sleepy_step(2) [OF pc_step.intros(4) [OF shared_load]])
  then have "?R (- 1) Write_held (Sh_wait (- 1))"
    by (rule sleepy_step(2) [OF pc_step.intros(4) [OF shared_busy], rotated 2]) (simp_all add: spinning_def eager_conf_def)
  then have "?R (- 1) Write_held (Sh_asleep (- 1))" by (rule sleepy_step(2) [OF pc_step.intros(4) [OF shared_sleep]])
  from sleepy_step(1) [OF pc_step.intros(7) [OF downgrade] this] show ?thesis by (simp add: eager_conf_def)
qed

text \<open>C6: Mutual exclusion: in every reachable state of the lock, whatever the interleaving, at most one
  thread holds it for writing, and then none holds it for reading; \<open>is_locked\<close> and \<open>num_shared_locks\<close>
  report exactly who holds it.\<close>

theorem mutex_exclusion:
  assumes "mutex_reach cf m"
  shows "card (writers m) \<le> 1 \<and> (writers m \<noteq> {} \<longrightarrow> readers m = {}) \<and> (is_locked m \<longleftrightarrow> writers m \<noteq> {})
    \<and> num_shared_locks m = int (card (readers m))"
  using mutex_reach_held [OF assms] by (auto simp: held_ok_def is_locked_def num_shared_locks_def)

theorem mutex_exclusion_witness:
  "card (writers (sleepy 1 Down_notify (Sh_asleep (- 1)))) \<le> 1 \<and> num_shared_locks (sleepy 1 Down_notify (Sh_asleep (- 1))) = 1"
  using mutex_exclusion [OF sleepy_reader] by (simp add: num_shared_locks_def sleepy_def)

text \<open>C7: No lost wake-up: when no one holds the lock and a thread is in \<open>lock\<close>, asleep or not, the threads
  that are inside calls can run on, without any new call, until one of them holds the lock for writing.\<close>

theorem mutex_writer_progress:
  assumes reach: "mutex_reach cf m" and free: "mx_state m = 0" and t: "locking (mx_pc m t)"
  shows "\<exists>m'. mutex_run cf m m' \<and> writers m' \<noteq> {}"
proof -
  have ok: "sleep_ok cf m" by (rule mutex_reach_sleep [OF reach])
  then have wo: "wait_ok (mx_pc m u)" for u by (simp add: sleep_ok_def)
  have held: "\<exists>m'. mutex_run cf m m' \<and> writers m' \<noteq> {}" if w: "\<exists>m'. mutex_run cf m m' \<and> mx_pc m' u = Write_held" for u m
  proof -
    from w obtain m' where m': "mutex_run cf m m'" "mx_pc m' u = Write_held" by blast
    then have "u \<in> writers m'" by (simp add: writers_def)
    with m'(1) show ?thesis by blast
  qed
  have go: ?thesis if "(\<exists>i. mx_pc m u = Lk_load i) \<or> (\<exists>i s. mx_pc m u = Lk_cas i s) \<or> (\<exists>s. mx_pc m u = Lk_wait s)" for u
    by (rule held [OF lock_run [OF free wo that]])
  show ?thesis
  proof (cases "asleep (mx_pc m t)")
    case False
    then show ?thesis using go [of t] t by (cases "mx_pc m t") auto
  next
    case True
    then obtain s where s: "mx_pc m t = Lk_asleep s" using t by (cases "mx_pc m t") simp_all
    then obtain u where u: "live (mx_pc m u)" using ok free unfolding sleep_ok_def by blast
    have ut: "u \<noteq> t" using u s by auto
    have wake: ?thesis if w: "\<exists>m'. mutex_run cf m m' \<and> mx_state m' = mx_state m \<and> mx_pc m' t = awaken (mx_pc m t)"
    proof -
      obtain m1 where m1: "mutex_run cf m m1" "mx_state m1 = 0" "mx_pc m1 t = Lk_wait s" using w free s by auto
      then have "\<exists>m'. mutex_run cf m1 m' \<and> mx_pc m' t = Write_held" using lock_run [OF m1(2), of t] wo [of t] s by auto
      then show ?thesis using held m1(1) mutex_run_trans by blast
    qed
    show ?thesis
      using u wake notifier_run [OF _ ut] one_run [OF _ True] go [of u] by (cases "mx_pc m u") auto
  qed
qed

theorem mutex_writer_progress_witness:
  "\<exists>m'. mutex_run eager_conf (sleepy 0 Unlock_notify (Lk_asleep (- 1))) m' \<and> writers m' \<noteq> {}"
  by (rule mutex_writer_progress [OF sleepy_writer, of 1]) (simp_all add: sleepy_def)

text \<open>C8: When no writer holds the lock, a thread in \<open>lock_shared\<close>, asleep or not, gets it: the threads inside
  calls can run on, without any new call, until that very thread holds it.\<close>

theorem mutex_reader_progress:
  assumes reach: "mutex_reach cf m" and free: "\<not> is_locked m" and t: "locking_shared (mx_pc m t)"
  shows "\<exists>m'. mutex_run cf m m' \<and> t \<in> readers m'"
proof -
  have ok: "sleep_ok cf m" by (rule mutex_reach_sleep [OF reach])
  then have wo: "wait_ok (mx_pc m t)" by (simp add: sleep_ok_def)
  have nn: "0 \<le> mx_state m" using free by (simp add: is_locked_def)
  have held: "\<exists>m'. mutex_run cf m m' \<and> t \<in> readers m'" if "\<exists>m'. mutex_run cf m m' \<and> mx_pc m' t = Read_held" for m
    using that by (force simp: readers_def)
  show ?thesis
  proof (cases "asleep (mx_pc m t)")
    case False
    then show ?thesis using held shared_run [OF nn wo] t by (cases "mx_pc m t") simp_all
  next
    case True
    then obtain s where s: "mx_pc m t = Sh_asleep s" using t by (cases "mx_pc m t") simp_all
    then obtain u where u: "notifier (mx_pc m u)" using ok nn unfolding sleep_ok_def by blast
    then have "u \<noteq> t" using s by auto
    then obtain m1 where m1: "mutex_run cf m m1" "mx_state m1 = mx_state m" "mx_pc m1 t = Sh_wait s"
      using notifier_run [OF u, of t] s by auto
    then have "\<exists>m'. mutex_run cf m1 m' \<and> mx_pc m' t = Read_held" using shared_run [of m1 t] nn wo s by auto
    then show ?thesis using held m1(1) mutex_run_trans by blast
  qed
qed

theorem mutex_reader_progress_witness:
  "\<exists>m'. mutex_run eager_conf (sleepy 1 Down_notify (Sh_asleep (- 1))) m' \<and> 1 \<in> readers m'"
  by (rule mutex_reader_progress [OF sleepy_reader]) (simp_all add: sleepy_def is_locked_def)

text \<open>The integer never leaves the range from -1 to the number of active threads, so with at most
  \<open>max_num_readers\<close> threads the reader count does not overflow \<open>state_type\<close>.\<close>

theorem mutex_state_bounds:
  assumes "mutex_reach cf m" and "int (card (active m)) \<le> max_num_readers bits"
  shows "- 1 \<le> mx_state m \<and> mx_state m \<le> max_num_readers bits"
proof -
  have h: "held_ok m" by (rule mutex_reach_held [OF assms(1)])
  have "readers m \<subseteq> active m" by (auto simp: readers_def active_def)
  then have "card (readers m) \<le> card (active m)" using h by (simp add: held_ok_def card_mono)
  then show ?thesis using h assms(2) by (auto simp: held_ok_def)
qed

theorem mutex_state_bounds_witness:
  "- 1 \<le> mx_state (sleepy 1 Down_notify (Sh_asleep (- 1))) \<and> mx_state (sleepy 1 Down_notify (Sh_asleep (- 1))) \<le> max_num_readers 32"
proof (rule mutex_state_bounds [OF sleepy_reader])
  have "active (sleepy 1 Down_notify (Sh_asleep (- 1))) = {0, 1}" by (auto simp: active_def sleepy_def)
  then show "int (card (active (sleepy 1 Down_notify (Sh_asleep (- 1))))) \<le> max_num_readers 32" by (simp add: max_num_readers_def)
qed

end
