(* ===== verification/Locks.thy ===== *)
theory Locks
  imports Mutex
begin

text \<open>
  What the lock promises its clients, as a counter: -1 while a writer holds it, else the number of readers.
  \<open>rw_step\<close> are its transitions; every action of the mutex is one of them or leaves the counter
  alone. The lock objects of the standard library (a mutex and whether it is owned) and the functions
  of mutex.hpp that turn one kind into the other follow, with the mutex calls they make.
\<close>

section \<open>The abstract lock\<close>

datatype lock_event = Acquire_write | Release_write | Acquire_read | Release_read | Upgrade | Downgrade

inductive rw_step :: "int \<Rightarrow> lock_event \<Rightarrow> int \<Rightarrow> bool" where
  "rw_step 0 Acquire_write (- 1)"
| "rw_step (- 1) Release_write 0"
| "0 \<le> n \<Longrightarrow> rw_step n Acquire_read (n + 1)"
| "1 \<le> n \<Longrightarrow> rw_step n Release_read (n - 1)"
| "rw_step 1 Upgrade (- 1)"
| "rw_step (- 1) Downgrade 1"

inductive_simps rw_step_simps [simp]:
  "rw_step s Acquire_write s'" "rw_step s Release_write s'" "rw_step s Acquire_read s'" "rw_step s Release_read s'"
  "rw_step s Upgrade s'" "rw_step s Downgrade s'"

text \<open>What a thread holds before and after an event.\<close>

fun event_holds :: "lock_event \<Rightarrow> bool \<times> bool \<Rightarrow> bool \<times> bool \<Rightarrow> bool" where
  "event_holds Acquire_write h h' \<longleftrightarrow> h = (False, False) \<and> h' = (True, False)"
| "event_holds Release_write h h' \<longleftrightarrow> h = (True, False) \<and> h' = (False, False)"
| "event_holds Acquire_read h h' \<longleftrightarrow> h = (False, False) \<and> h' = (False, True)"
| "event_holds Release_read h h' \<longleftrightarrow> h = (False, True) \<and> h' = (False, False)"
| "event_holds Upgrade h h' \<longleftrightarrow> h = (False, True) \<and> h' = (True, False)"
| "event_holds Downgrade h h' \<longleftrightarrow> h = (True, False) \<and> h' = (False, True)"

definition holds :: "spin_wait_mutex \<Rightarrow> nat \<Rightarrow> bool \<times> bool" where
  "holds m t = (writing (mx_pc m t), reading (mx_pc m t))"

text \<open>One action of one thread: the counter makes the transition that what the thread holds shows.\<close>

lemma mutex_step_rw:
  assumes reach: "mutex_reach cf m" and st: "mutex_step cf t m m'"
  shows "(\<forall>u. u \<noteq> t \<longrightarrow> holds m' u = holds m u)
    \<and> (mx_state m' = mx_state m \<and> holds m' t = holds m t
       \<or> (\<exists>ev. rw_step (mx_state m) ev (mx_state m') \<and> event_holds ev (holds m t) (holds m' t)))"
proof
  have ok: "held_ok m" by (rule mutex_reach_held [OF reach])
  obtain w where p: "pc_step cf (mx_state m) (mx_pc m t) w (mx_state m') (mx_pc m' t)"
    and oth: "\<forall>u. u \<noteq> t \<longrightarrow> mx_pc m' u = mx_pc m u \<or> mx_pc m' u = awaken (mx_pc m u)"
    by (rule mutex_stepD [OF st])
  show "\<forall>u. u \<noteq> t \<longrightarrow> holds m' u = holds m u"
  proof (intro allI impI)
    fix u assume "u \<noteq> t"
    then have "mx_pc m' u = mx_pc m u \<or> mx_pc m' u = awaken (mx_pc m u)" using oth by blast
    then show "holds m' u = holds m u" unfolding holds_def by (elim disjE) simp_all
  qed
  have w: "mx_state m = - 1" if "writing (mx_pc m t)" using ok that by (auto simp: held_ok_def writers_def)
  have "readers m \<subseteq> active m" by (auto simp: readers_def active_def)
  then have fin: "finite (readers m)" using ok unfolding held_ok_def by (meson finite_subset)
  have r: "1 \<le> mx_state m" if "reading (mx_pc m t)"
  proof -
    have t: "t \<in> readers m" using that by (simp add: readers_def)
    then have "0 < card (readers m)" using fin by (auto simp: card_gt_0_iff)
    then show ?thesis using ok t by (auto simp: held_ok_def)
  qed
  from pc_step_held [OF p] w r show "mx_state m' = mx_state m \<and> holds m' t = holds m t
       \<or> (\<exists>ev. rw_step (mx_state m) ev (mx_state m') \<and> event_holds ev (holds m t) (holds m' t))"
  proof (elim disjE conjE)
    assume "0 \<le> mx_state m" "mx_state m' = mx_state m + 1" "\<not> reading (mx_pc m t)" "\<not> writing (mx_pc m t)"
      "reading (mx_pc m' t)" "\<not> writing (mx_pc m' t)"
    then show ?thesis by (intro disjI2 exI [of _ Acquire_read]) (simp add: holds_def)
  next
    assume "mx_state m = 0" "mx_state m' = - 1" "\<not> reading (mx_pc m t)" "\<not> writing (mx_pc m t)"
      "writing (mx_pc m' t)" "\<not> reading (mx_pc m' t)"
    then show ?thesis by (intro disjI2 exI [of _ Acquire_write]) (simp add: holds_def)
  next
    assume "mx_state m = 1" "mx_state m' = - 1" "reading (mx_pc m t)" "\<not> writing (mx_pc m t)"
      "writing (mx_pc m' t)" "\<not> reading (mx_pc m' t)"
    then show ?thesis by (intro disjI2 exI [of _ Upgrade]) (simp add: holds_def)
  next
    assume "mx_state m' = 0" "writing (mx_pc m t)" "\<not> reading (mx_pc m t)" "\<not> writing (mx_pc m' t)" "\<not> reading (mx_pc m' t)"
    then show ?thesis using w by (intro disjI2 exI [of _ Release_write]) (simp add: holds_def)
  next
    assume "mx_state m' = 1" "writing (mx_pc m t)" "\<not> reading (mx_pc m t)" "reading (mx_pc m' t)" "\<not> writing (mx_pc m' t)"
    then show ?thesis using w by (intro disjI2 exI [of _ Downgrade]) (simp add: holds_def)
  next
    assume "mx_state m' = mx_state m - 1" "reading (mx_pc m t)" "\<not> writing (mx_pc m t)" "\<not> reading (mx_pc m' t)" "\<not> writing (mx_pc m' t)"
    then show ?thesis using r by (intro disjI2 exI [of _ Release_read]) (simp add: holds_def)
  qed (simp add: holds_def)
qed

lemma event_unique: "event_holds e h h' \<Longrightarrow> event_holds e' h h' \<Longrightarrow> e' = e" "\<not> event_holds e h h"
  by (cases e; cases e'; simp) (cases e; auto)

text \<open>The histories of the lock: who acquired, gave back or converted what, in order.\<close>

inductive mutex_history :: "mutex_conf \<Rightarrow> (nat \<times> lock_event) list \<Rightarrow> spin_wait_mutex \<Rightarrow> bool" for cf where
  start: "mutex_history cf [] new_mutex"
| silent: "mutex_history cf es m \<Longrightarrow> mutex_step cf t m m' \<Longrightarrow> holds m' t = holds m t \<Longrightarrow> mutex_history cf es m'"
| visible: "mutex_history cf es m \<Longrightarrow> mutex_step cf t m m' \<Longrightarrow> event_holds ev (holds m t) (holds m' t)
    \<Longrightarrow> mutex_history cf (es @ [(t, ev)]) m'"

fun rw_run :: "int \<Rightarrow> lock_event list \<Rightarrow> int \<Rightarrow> bool" where
  "rw_run s [] s' \<longleftrightarrow> s' = s"
| "rw_run s (ev # evs) s' \<longleftrightarrow> (\<exists>s1. rw_step s ev s1 \<and> rw_run s1 evs s')"

lemma rw_run_snoc: "rw_run s evs s1 \<Longrightarrow> rw_step s1 ev s' \<Longrightarrow> rw_run s (evs @ [ev]) s'"
  by (induction evs arbitrary: s) auto

lemma history_reach: "mutex_history cf es m \<Longrightarrow> mutex_reach cf m"
  by (induction rule: mutex_history.induct) (auto intro: mutex_reach.intros)

lemma reach_history: "mutex_reach cf m \<Longrightarrow> \<exists>es. mutex_history cf es m"
proof (induction rule: mutex_reach.induct)
  case (step m t m')
  then show ?case using mutex_step_rw [OF step(1,2)] mutex_history.silent mutex_history.visible by metis
qed (auto intro: mutex_history.start)

lemma history_run: "mutex_history cf es m \<Longrightarrow> rw_run 0 (map snd es) (mx_state m)"
proof (induction rule: mutex_history.induct)
  case (silent es m t m')
  then show ?case using mutex_step_rw [OF history_reach silent(2)] event_unique(2) by fastforce
next
  case (visible es m t m' ev)
  then have "rw_step (mx_state m) ev (mx_state m')"
    using mutex_step_rw [OF history_reach visible(2)] event_unique by metis
  then show ?case using rw_run_snoc [OF visible(4)] by simp
qed (simp add: new_mutex_def)

text \<open>C9: The lock behaves like a counter. Every reachable state has a history of acquisitions, releases and
  conversions, and the transitions of the counter in that order lead from 0 to the integer of the lock:
  a writer gets in only when nobody holds the lock, a reader only when no writer does, an upgrade
  succeeds only for the single reader.\<close>

theorem mutex_refines_counter:
  "mutex_reach cf m \<Longrightarrow> \<exists>es. mutex_history cf es m \<and> rw_run 0 (map snd es) (mx_state m)"
  using reach_history history_run by blast

definition one_writer :: spin_wait_mutex where
  "one_writer = \<lparr>mx_state = - 1, mx_pc = (\<lambda>_. Idle)(0 := Write_held)\<rparr>"

lemma one_writer_step: "mutex_step cf 0 new_mutex one_writer"
proof -
  have "pc_step cf 0 Idle Wake_none (- 1) Write_held" by (intro pc_step.intros(2) try_take)
  then show ?thesis using mutex_step.quiet [of cf new_mutex 0 "- 1" Write_held] by (simp add: new_mutex_def one_writer_def)
qed

theorem mutex_refines_counter_witness:
  "\<exists>es. mutex_history \<lparr>use_wait = True, spin_iterations = 8\<rparr> es one_writer \<and> rw_run 0 (map snd es) (- 1)"
  using mutex_refines_counter [OF mutex_reach.step [OF mutex_reach.start one_writer_step]] by (simp add: one_writer_def)

section \<open>Lock objects\<close>

text \<open>\<open>std::unique_lock\<close> and \<open>std::shared_lock\<close>: the mutex, if any, and whether the object owns a lock on it.\<close>

record lock_obj =
  lo_mutex :: "nat option"
  lo_owns :: bool

definition no_lock :: lock_obj where
  "no_lock = \<lparr>lo_mutex = None, lo_owns = False\<rparr>"

definition defer_lock :: "nat \<Rightarrow> lock_obj" where
  "defer_lock m = \<lparr>lo_mutex = Some m, lo_owns = False\<rparr>"

definition adopt_lock :: "nat \<Rightarrow> lock_obj" where
  "adopt_lock m = \<lparr>lo_mutex = Some m, lo_owns = True\<rparr>"

datatype mutex_call = M_lock | M_unlock | M_lock_shared | M_unlock_shared | M_downgrade | M_try_upgrade bool

text \<open>The conversions return the calls they make on the mutex and the new lock object. A type that cannot
  downgrade has no \<open>downgrade\<close> member; whether an upgrade succeeds is up to the mutex.\<close>

definition downgrade_lock :: "bool \<Rightarrow> lock_obj \<Rightarrow> mutex_call list \<times> lock_obj" where
  "downgrade_lock is_downgradable lock = (case lo_mutex lock of
     None \<Rightarrow> ([], no_lock)
   | Some m \<Rightarrow> if \<not> lo_owns lock then ([], defer_lock m)
       else if is_downgradable then ([M_downgrade], adopt_lock m)
       else ([M_unlock, M_lock_shared], adopt_lock m))"

definition upgrade_or_relock :: "bool \<Rightarrow> bool \<Rightarrow> lock_obj \<Rightarrow> mutex_call list \<times> lock_obj" where
  "upgrade_or_relock is_upgradable success lock = (case lo_mutex lock of
     None \<Rightarrow> ([], no_lock)
   | Some m \<Rightarrow> if \<not> lo_owns lock then ([], defer_lock m)
       else if is_upgradable
       then (M_try_upgrade success # (if \<not> success then [M_unlock_shared, M_lock] else []), adopt_lock m)
       else ([M_unlock_shared, M_lock], adopt_lock m))"

text \<open>\<open>try_upgrade\<close> returns the new object, if any, and what is left of the old one.\<close>

definition try_upgrade_lock :: "bool \<Rightarrow> bool \<Rightarrow> lock_obj \<Rightarrow> mutex_call list \<times> lock_obj option \<times> lock_obj" where
  "try_upgrade_lock is_upgradable success lock = (
     if is_upgradable
     then (case lo_mutex lock of
         None \<Rightarrow> ([], None, lock)
       | Some m \<Rightarrow> if \<not> lo_owns lock then ([], None, lock)
           else if success then ([M_try_upgrade True], Some (adopt_lock m), no_lock)
           else ([M_try_upgrade False], None, lock))
     else ([], None, lock))"

text \<open>What a sequence of calls does to the counter, when the thread may make them.\<close>

fun call_event :: "mutex_call \<Rightarrow> lock_event option" where
  "call_event M_lock = Some Acquire_write"
| "call_event M_unlock = Some Release_write"
| "call_event M_lock_shared = Some Acquire_read"
| "call_event M_unlock_shared = Some Release_read"
| "call_event M_downgrade = Some Downgrade"
| "call_event (M_try_upgrade b) = (if b then Some Upgrade else None)"

fun holds_run :: "mutex_call list \<Rightarrow> bool \<times> bool \<Rightarrow> bool \<times> bool \<Rightarrow> bool" where
  "holds_run [] h h' \<longleftrightarrow> h' = h"
| "holds_run (c # cs) h h' \<longleftrightarrow> (case call_event c of
     None \<Rightarrow> holds_run cs h h'
   | Some ev \<Rightarrow> \<exists>h1. event_holds ev h h1 \<and> holds_run cs h1 h')"

lemma downgrade_lock_ok:
  assumes "lock = adopt_lock m"
  shows "holds_run (fst (downgrade_lock d lock)) (True, False) (False, True) \<and> snd (downgrade_lock d lock) = adopt_lock m"
  using assms by (simp add: downgrade_lock_def adopt_lock_def)

lemma upgrade_or_relock_ok:
  assumes "lock = adopt_lock m"
  shows "holds_run (fst (upgrade_or_relock u b lock)) (False, True) (True, False) \<and> snd (upgrade_or_relock u b lock) = adopt_lock m"
  using assms by (simp add: upgrade_or_relock_def adopt_lock_def)

lemma try_upgrade_lock_ok:
  assumes "lock = adopt_lock m" and "try_upgrade_lock u b lock = (cs, new, old)"
  shows "(case new of Some l \<Rightarrow> l = adopt_lock m \<and> old = no_lock \<and> holds_run cs (False, True) (True, False)
    | None \<Rightarrow> old = lock \<and> holds_run cs (False, True) (False, True))"
  using assms by (auto simp: try_upgrade_lock_def adopt_lock_def split: if_splits)

end
