(* ===== verification/Prefetch.thy ===== *)
theory Prefetch
  imports MapDemo
begin

text \<open>
  The prefetch queues of prefetch.hpp: a client pushes a key together with what prefetching it returned
  and gets the oldest pending pair back. The shift queue moves all pairs down by one, the ring
  queue moves two counters. The counters are integers; the code's wrap after \<open>2 ^ 63\<close> pushes. A
  slot that was moved from keeps its contents here, which is never read before it is overwritten.
  An assertion that fails ends the program when the check level has assertions: the result is then
  \<open>None\<close>. Both queues meet the contract \<open>fifo_queue\<close>, in which the loop of the benchmark that keeps
  \<open>queue_len\<close> lookups in flight is shown to process every key once and in order.
\<close>

definition nvhm_assert :: "check_level \<Rightarrow> bool \<Rightarrow> 'a \<Rightarrow> 'a option" where
  "nvhm_assert lvl b x = (if Check_prototype \<le> lvl \<and> \<not> b then None else Some x)"

lemma nvhm_assert_simps [simp]:
  "nvhm_assert lvl True x = Some x"
  "nvhm_assert Check_none b x = Some x" "nvhm_assert Check_release b x = Some x"
  by (simp_all add: nvhm_assert_def less_eq_check_level_def)

section \<open>The shift queue\<close>

record ('k, 'h) shift_queue =
  sq_keys :: "'k list"
  sq_values :: "'h list"

text \<open>\<open>shift<Idx>\<close>, unrolled at compile time in the code.\<close>

function shift_from :: "nat \<Rightarrow> 'a list \<Rightarrow> 'a list" where
  "shift_from idx arr = (if idx < length arr then shift_from (idx + 1) (arr[idx - 1 := arr ! idx]) else arr)"
  by auto
termination by (relation "measure (\<lambda>(idx, arr). length arr - idx)") auto

declare shift_from.simps [simp del]

definition shift_front :: "('k, 'h) shift_queue \<Rightarrow> 'k \<times> 'h" where
  "shift_front q = (sq_keys q ! 0, sq_values q ! 0)"

definition shift_back :: "('k, 'h) shift_queue \<Rightarrow> 'k \<times> 'h" where
  "shift_back q = (sq_keys q ! (length (sq_keys q) - 1), sq_values q ! (length (sq_values q) - 1))"

definition shift_skip :: "('k, 'h) shift_queue \<Rightarrow> ('k, 'h) shift_queue" where
  "shift_skip q = q\<lparr>sq_keys := shift_from 1 (sq_keys q), sq_values := shift_from 1 (sq_values q)\<rparr>"

definition shift_push :: "'k \<Rightarrow> 'h \<Rightarrow> ('k, 'h) shift_queue \<Rightarrow> ('k \<times> 'h) \<times> ('k, 'h) shift_queue" where
  "shift_push key value q = (
     let key0 = sq_keys q ! 0; value0 = sq_values q ! 0; q' = shift_skip q
     in ((key0, value0), q'\<lparr>sq_keys := (sq_keys q')[length (sq_keys q') - 1 := key],
                            sq_values := (sq_values q')[length (sq_values q') - 1 := value]\<rparr>))"

definition shift_pop :: "('k, 'h) shift_queue \<Rightarrow> ('k \<times> 'h) \<times> ('k, 'h) shift_queue" where
  "shift_pop q = ((sq_keys q ! 0, sq_values q ! 0), shift_skip q)"

definition shift_prefill :: "check_level \<Rightarrow> int \<Rightarrow> 'k \<Rightarrow> 'h \<Rightarrow> ('k, 'h) shift_queue \<Rightarrow> ('k, 'h) shift_queue option" where
  "shift_prefill lvl idx key value q = nvhm_assert lvl (0 \<le> idx \<and> idx < int (length (sq_keys q)))
     (q\<lparr>sq_keys := (sq_keys q)[nat idx := key], sq_values := (sq_values q)[nat idx := value]\<rparr>)"

section \<open>The ring queue\<close>

record ('k, 'h) ring_queue =
  rq_keys :: "'k list"
  rq_values :: "'h list"
  rq_begin :: int
  rq_end :: int

definition ring_capacity :: "('k, 'h) ring_queue \<Rightarrow> int" where
  "ring_capacity q = int (length (rq_keys q))"

definition ring_idx :: "('k, 'h) ring_queue \<Rightarrow> int \<Rightarrow> nat" where
  "ring_idx q i = unat (align_pos (make_size_mask (ring_capacity q)) (word_of_int i))"

definition ring_size :: "('k, 'h) ring_queue \<Rightarrow> int" where
  "ring_size q = rq_end q - rq_begin q"

definition ring_empty :: "('k, 'h) ring_queue \<Rightarrow> bool" where
  "ring_empty q \<longleftrightarrow> rq_begin q = rq_end q"

definition ring_full :: "('k, 'h) ring_queue \<Rightarrow> bool" where
  "ring_full q \<longleftrightarrow> ring_size q = ring_capacity q"

definition ring_front :: "check_level \<Rightarrow> ('k, 'h) ring_queue \<Rightarrow> ('k \<times> 'h) option" where
  "ring_front lvl q = nvhm_assert lvl (\<not> ring_empty q)
     (let idx = ring_idx q (rq_begin q) in (rq_keys q ! idx, rq_values q ! idx))"

definition ring_back :: "check_level \<Rightarrow> ('k, 'h) ring_queue \<Rightarrow> ('k \<times> 'h) option" where
  "ring_back lvl q = nvhm_assert lvl (\<not> ring_empty q)
     (let idx = ring_idx q (rq_end q - 1) in (rq_keys q ! idx, rq_values q ! idx))"

text \<open>A push asserts that the ring is full; without assertions it takes the oldest pair of any ring.\<close>

definition ring_push :: "check_level \<Rightarrow> 'k \<Rightarrow> 'h \<Rightarrow> ('k, 'h) ring_queue \<Rightarrow> (('k \<times> 'h) \<times> ('k, 'h) ring_queue) option" where
  "ring_push lvl key value q = nvhm_assert lvl (ring_full q) (
     let idx = ring_idx q (rq_begin q); key0 = rq_keys q ! idx; value0 = rq_values q ! idx; idx1 = ring_idx q (rq_end q)
     in ((key0, value0), q\<lparr>rq_begin := rq_begin q + 1, rq_end := rq_end q + 1,
          rq_keys := (rq_keys q)[idx1 := key], rq_values := (rq_values q)[idx1 := value]\<rparr>))"

definition ring_pop :: "check_level \<Rightarrow> ('k, 'h) ring_queue \<Rightarrow> (('k \<times> 'h) \<times> ('k, 'h) ring_queue) option" where
  "ring_pop lvl q = nvhm_assert lvl (\<not> ring_empty q) (
     let idx = ring_idx q (rq_begin q)
     in ((rq_keys q ! idx, rq_values q ! idx), q\<lparr>rq_begin := rq_begin q + 1\<rparr>))"

definition ring_skip :: "check_level \<Rightarrow> ('k, 'h) ring_queue \<Rightarrow> ('k, 'h) ring_queue option" where
  "ring_skip lvl q = nvhm_assert lvl (\<not> ring_empty q) (q\<lparr>rq_begin := rq_begin q + 1\<rparr>)"

definition ring_prefill :: "'k \<Rightarrow> 'h \<Rightarrow> ('k, 'h) ring_queue \<Rightarrow> ('k, 'h) ring_queue" where
  "ring_prefill key value q = (let idx = ring_idx q (rq_end q)
     in q\<lparr>rq_end := rq_end q + 1, rq_keys := (rq_keys q)[idx := key], rq_values := (rq_values q)[idx := value]\<rparr>)"

section \<open>Pushing what prefetching returned\<close>

text \<open>\<open>read_prefetch\<close> and \<open>write_prefetch\<close> of the map, as a function of the key.\<close>

definition push_prefetch :: "('k \<Rightarrow> 'h \<Rightarrow> 'q \<Rightarrow> (('k \<times> 'h) \<times> 'q) option) \<Rightarrow> ('k \<Rightarrow> 'h) \<Rightarrow> 'k \<Rightarrow> 'q \<Rightarrow> (('k \<times> 'h) \<times> 'q) option" where
  "push_prefetch push prefetch key q = push key (prefetch key) q"

definition prefill_prefetch :: "(int \<Rightarrow> 'k \<Rightarrow> 'h \<Rightarrow> 'q \<Rightarrow> 'q option) \<Rightarrow> ('k \<Rightarrow> 'h) \<Rightarrow> int \<Rightarrow> 'k \<Rightarrow> 'q \<Rightarrow> 'q option" where
  "prefill_prefetch prefill prefetch idx key q = prefill idx key (prefetch key) q"

text \<open>
  The client loop of map_benchmark.cpp: fill \<open>queue_len\<close> slots, push the keys that are left and process
  what comes back, then pop what is pending. The result is what is processed, in order, unless an
  assertion ends the program.
\<close>

fun push_keys ::
    "('k \<Rightarrow> 'h \<Rightarrow> 'q \<Rightarrow> (('k \<times> 'h) \<times> 'q) option) \<Rightarrow> ('k \<Rightarrow> 'h) \<Rightarrow> 'k list \<Rightarrow> 'q \<Rightarrow> (('k \<times> 'h) list \<times> 'q) option" where
  "push_keys push prefetch [] q = Some ([], q)"
| "push_keys push prefetch (k # ks) q = (case push_prefetch push prefetch k q of
     None \<Rightarrow> None
   | Some (e, q) \<Rightarrow> map_option (\<lambda>(es, q). (e # es, q)) (push_keys push prefetch ks q))"

fun pop_keys :: "('q \<Rightarrow> (('k \<times> 'h) \<times> 'q) option) \<Rightarrow> nat \<Rightarrow> 'q \<Rightarrow> (('k \<times> 'h) list \<times> 'q) option" where
  "pop_keys pop 0 q = Some ([], q)"
| "pop_keys pop (Suc n) q = (case pop q of
     None \<Rightarrow> None
   | Some (e, q) \<Rightarrow> map_option (\<lambda>(es, q). (e # es, q)) (pop_keys pop n q))"

definition prefetch_loop ::
    "(int \<Rightarrow> 'k \<Rightarrow> 'h \<Rightarrow> 'q \<Rightarrow> 'q option) \<Rightarrow> ('k \<Rightarrow> 'h \<Rightarrow> 'q \<Rightarrow> (('k \<times> 'h) \<times> 'q) option) \<Rightarrow> ('q \<Rightarrow> (('k \<times> 'h) \<times> 'q) option)
      \<Rightarrow> ('k \<Rightarrow> 'h) \<Rightarrow> nat \<Rightarrow> 'k list \<Rightarrow> 'q \<Rightarrow> ('k \<times> 'h) list option" where
  "prefetch_loop prefill push pop prefetch queue_len ks q = (
     case fold_opt (\<lambda>j. prefill_prefetch prefill prefetch (int j) (ks ! j)) [0..<queue_len] q of
       None \<Rightarrow> None
     | Some q \<Rightarrow> (case push_keys push prefetch (drop queue_len ks) q of
         None \<Rightarrow> None
       | Some (es, q) \<Rightarrow> map_option (\<lambda>(es', q). es @ es') (pop_keys pop queue_len q)))"

lemma fold_opt_append: "fold_opt f (xs @ ys) s = (case fold_opt f xs s of None \<Rightarrow> None | Some s' \<Rightarrow> fold_opt f ys s')"
  by (induction xs arbitrary: s) (auto split: option.splits)

section \<open>The contract\<close>

text \<open>
  \<open>rep q xs\<close>: the queue holds the pairs \<open>xs\<close>, oldest first. Pairs are added up to \<open>cap\<close>; \<open>full n\<close> are the
  numbers of pending pairs with which a push is allowed.
\<close>

locale fifo_queue =
  fixes rep :: "'q \<Rightarrow> ('k \<times> 'h) list \<Rightarrow> bool"
    and cap :: nat
    and full :: "nat \<Rightarrow> bool"
    and prefill :: "int \<Rightarrow> 'k \<Rightarrow> 'h \<Rightarrow> 'q \<Rightarrow> 'q option"
    and push :: "'k \<Rightarrow> 'h \<Rightarrow> 'q \<Rightarrow> (('k \<times> 'h) \<times> 'q) option"
    and pop :: "'q \<Rightarrow> (('k \<times> 'h) \<times> 'q) option"
  assumes prefill_law: "rep q xs \<Longrightarrow> length xs < cap \<Longrightarrow> \<exists>q'. prefill (int (length xs)) k h q = Some q' \<and> rep q' (xs @ [(k, h)])"
    and push_law: "rep q (x # xs) \<Longrightarrow> full (length (x # xs)) \<Longrightarrow> \<exists>q'. push k h q = Some (x, q') \<and> rep q' (xs @ [(k, h)])"
    and pop_law: "rep q (x # xs) \<Longrightarrow> \<exists>q'. pop q = Some (x, q') \<and> rep q' xs"
begin

lemma prefill_fold:
  assumes "rep q0 []" and "n \<le> cap"
  obtains q where "fold_opt (\<lambda>j. prefill_prefetch prefill prefetch (int j) (ks ! j)) [0..<n] q0 = Some q"
    and "rep q (map (\<lambda>j. (ks ! j, prefetch (ks ! j))) [0..<n])"
proof -
  have "\<exists>q. fold_opt (\<lambda>j. prefill_prefetch prefill prefetch (int j) (ks ! j)) [0..<n] q0 = Some q
      \<and> rep q (map (\<lambda>j. (ks ! j, prefetch (ks ! j))) [0..<n])"
    using assms(2)
  proof (induction n)
    case (Suc n)
    then obtain q where q: "fold_opt (\<lambda>j. prefill_prefetch prefill prefetch (int j) (ks ! j)) [0..<n] q0 = Some q"
        "rep q (map (\<lambda>j. (ks ! j, prefetch (ks ! j))) [0..<n])" by auto
    obtain q' where "prefill_prefetch prefill prefetch (int n) (ks ! n) q = Some q'"
        "rep q' (map (\<lambda>j. (ks ! j, prefetch (ks ! j))) [0..<n] @ [(ks ! n, prefetch (ks ! n))])"
      using prefill_law [OF q(2), of "ks ! n" "prefetch (ks ! n)"] Suc.prems by (auto simp: prefill_prefetch_def)
    then show ?case using q(1) by (simp add: fold_opt_append)
  qed (simp add: assms(1))
  then show thesis using that by blast
qed

lemma push_keys_ok:
  assumes "rep q xs" and "full (length xs)" and "xs \<noteq> []"
  shows "\<exists>q'. push_keys push prefetch ks q = Some (take (length ks) (xs @ map (\<lambda>k. (k, prefetch k)) ks), q')
    \<and> rep q' (drop (length ks) (xs @ map (\<lambda>k. (k, prefetch k)) ks))"
  using assms
proof (induction ks arbitrary: q xs)
  case (Cons k ks)
  obtain x ys where xs: "xs = x # ys" using Cons.prems(3) by (cases xs) auto
  obtain q1 where p: "push k (prefetch k) q = Some (x, q1)" "rep q1 (ys @ [(k, prefetch k)])"
    using push_law [OF Cons.prems(1,2) [unfolded xs]] by blast
  show ?case using Cons.IH [OF p(2)] p(1) Cons.prems(2) by (auto simp: xs push_prefetch_def)
qed simp

lemma pop_keys_ok: "rep q xs \<Longrightarrow> \<exists>q'. pop_keys pop (length xs) q = Some (xs, q')"
proof (induction xs arbitrary: q)
  case (Cons x xs)
  obtain q1 where "pop q = Some (x, q1)" "rep q1 xs" using pop_law [OF Cons.prems] by blast
  then show ?case using Cons.IH by fastforce
qed simp

lemma prefilled:
  assumes "rep q0 []" and "n \<le> cap" and "n \<le> length ks"
  obtains q where "fold_opt (\<lambda>j. prefill_prefetch prefill prefetch (int j) (ks ! j)) [0..<n] q0 = Some q"
    and "rep q (map (\<lambda>k. (k, prefetch k)) (take n ks))"
proof -
  have "map (\<lambda>j. (ks ! j, prefetch (ks ! j))) [0..<n] = map (\<lambda>k. (k, prefetch k)) (take n ks)"
    using assms(3) by (intro nth_equalityI) simp_all
  then show thesis using prefill_fold [OF assms(1,2), where prefetch = prefetch and ks = ks] that by metis
qed

theorem prefetch_loop_ok:
  assumes "rep q [] " and "0 < n" and "n \<le> cap" and "full n \<or> length ks = n" and "n \<le> length ks"
  shows "prefetch_loop prefill push pop prefetch n ks q = Some (map (\<lambda>k. (k, prefetch k)) ks)"
proof -
  let ?f = "\<lambda>k. (k, prefetch k)"
  obtain q1 where q1: "fold_opt (\<lambda>j. prefill_prefetch prefill prefetch (int j) (ks ! j)) [0..<n] q = Some q1"
      "rep q1 (map ?f (take n ks))" by (rule prefilled [OF assms(1,3,5)])
  have all: "map ?f (take n ks) @ map ?f (drop n ks) = map ?f ks" by (simp flip: map_append)
  have len: "length (map ?f (take n ks)) = n" using assms(5) by simp
  have ne: "map ?f (take n ks) \<noteq> []" using assms(2,5) by auto
  let ?rest = "drop (length ks - n) (map ?f ks)"
  obtain q2 where q2: "push_keys push prefetch (drop n ks) q1 = Some (take (length ks - n) (map ?f ks), q2)" "rep q2 ?rest"
  proof (cases "length ks = n")
    case True
    then show ?thesis using q1(2) that by simp
  next
    case False
    then show ?thesis using push_keys_ok [OF q1(2), of prefetch "drop n ks", unfolded len all] ne assms(4) that by auto
  qed
  have l: "length ?rest = n" using assms(5) by simp
  obtain q3 where "pop_keys pop n q2 = Some (?rest, q3)" using pop_keys_ok [OF q2(2)] unfolding l by blast
  then show ?thesis using q1(1) q2(1) by (simp add: prefetch_loop_def)
qed

text \<open>A push that is not allowed ends the loop, when there is one.\<close>

theorem prefetch_loop_stops:
  assumes "rep q []" and "n \<le> cap" and "n < length ks"
    and "\<And>q xs k h. rep q xs \<Longrightarrow> length xs = n \<Longrightarrow> push k h q = None"
  shows "prefetch_loop prefill push pop prefetch n ks q = None"
proof -
  obtain q1 where q1: "fold_opt (\<lambda>j. prefill_prefetch prefill prefetch (int j) (ks ! j)) [0..<n] q = Some q1"
      "rep q1 (map (\<lambda>k. (k, prefetch k)) (take n ks))" using prefilled [OF assms(1,2)] assms(3) by (metis less_imp_le)
  have "push k h q1 = None" for k h using assms(4) [OF q1(2)] assms(3) by simp
  then have "push_keys push prefetch (drop n ks) q1 = None"
    using assms(3) by (cases "drop n ks") (simp_all add: push_prefetch_def)
  then show ?thesis using q1(1) by (simp add: prefetch_loop_def)
qed

end

section \<open>The queues meet it\<close>

lemma shift_from_nth:
  "1 \<le> idx \<Longrightarrow> length (shift_from idx xs) = length xs
    \<and> (\<forall>i<length xs. shift_from idx xs ! i = (if idx - 1 \<le> i \<and> i + 1 < length xs then xs ! (i + 1) else xs ! i))"
proof (induction idx xs rule: shift_from.induct)
  case (1 idx xs)
  show ?case
  proof (cases "idx < length xs")
    case True
    have "shift_from idx xs = shift_from (idx + 1) (xs[idx - 1 := xs ! idx])" using True by (subst shift_from.simps) simp
    then show ?thesis using 1 True by (auto simp: nth_list_update)
  next
    case False
    then have "shift_from idx xs = xs" by (subst shift_from.simps) simp
    then show ?thesis using False 1(2) by auto
  qed
qed

definition shift_rep :: "nat \<Rightarrow> ('k, 'h) shift_queue \<Rightarrow> ('k \<times> 'h) list \<Rightarrow> bool" where
  "shift_rep cap q xs \<longleftrightarrow> length (sq_keys q) = cap \<and> length (sq_values q) = cap \<and> length xs \<le> cap
     \<and> (\<forall>i<length xs. xs ! i = (sq_keys q ! i, sq_values q ! i))"

lemma shift_skip_rep:
  assumes "shift_rep cap q (x # xs)"
  shows "shift_rep cap (shift_skip q) xs"
  using assms shift_from_nth [of 1 "sq_keys q"] shift_from_nth [of 1 "sq_values q"]
  by (auto simp: shift_rep_def shift_skip_def)

interpretation shift_fifo: fifo_queue "shift_rep cap" cap "\<lambda>n. n = cap" "shift_prefill lvl"
    "\<lambda>k h q. Some (shift_push k h q)" "\<lambda>q. Some (shift_pop q)" for cap lvl
proof
  fix q :: "('k, 'h) shift_queue" and xs x k h
  show "\<exists>q'. shift_prefill lvl (int (length xs)) k h q = Some q' \<and> shift_rep cap q' (xs @ [(k, h)])"
    if "shift_rep cap q xs" "length xs < cap"
    using that by (auto simp: shift_rep_def shift_prefill_def nvhm_assert_def nth_append nth_list_update less_Suc_eq)
  show "\<exists>q'. Some (shift_pop q) = Some (x, q') \<and> shift_rep cap q' xs" if "shift_rep cap q (x # xs)"
  proof -
    have "fst (shift_pop q) = x" using that by (auto simp: shift_rep_def shift_pop_def)
    moreover have "shift_rep cap (snd (shift_pop q)) xs" using shift_skip_rep [OF that] by (simp add: shift_pop_def)
    ultimately show ?thesis by (metis prod.collapse)
  qed
  show "\<exists>q'. Some (shift_push k h q) = Some (x, q') \<and> shift_rep cap q' (xs @ [(k, h)])"
    if r: "shift_rep cap q (x # xs)" and l: "length (x # xs) = cap"
  proof -
    have "fst (shift_push k h q) = x" using r by (auto simp: shift_rep_def shift_push_def Let_def)
    moreover have "shift_rep cap (snd (shift_push k h q)) (xs @ [(k, h)])"
      using shift_skip_rep [OF r] l r
      by (auto simp: shift_rep_def shift_push_def Let_def nth_append nth_list_update)
    ultimately show ?thesis by (metis prod.collapse)
  qed
qed

definition ring_ok :: "nat \<Rightarrow> ('k, 'h) ring_queue \<Rightarrow> bool" where
  "ring_ok cap q \<longleftrightarrow> (\<exists>e<63. cap = 2 ^ e) \<and> length (rq_keys q) = cap \<and> length (rq_values q) = cap"

definition ring_rep :: "nat \<Rightarrow> ('k, 'h) ring_queue \<Rightarrow> ('k \<times> 'h) list \<Rightarrow> bool" where
  "ring_rep cap q xs \<longleftrightarrow> ring_ok cap q \<and> ring_size q = int (length xs) \<and> length xs \<le> cap
     \<and> (\<forall>i<length xs. xs ! i = (let j = nat ((rq_begin q + int i) mod int cap) in (rq_keys q ! j, rq_values q ! j)))"

lemma ring_idx_mod:
  assumes "ring_ok cap q"
  shows "ring_idx q i = nat (i mod int cap)"
proof -
  obtain e where e: "e < 63" "cap = 2 ^ e" using assms by (auto simp: ring_ok_def)
  have m: "(word_of_int i :: u64) AND mask e = word_of_int (take_bit e i)"
    by (simp only: take_bit_eq_mask [symmetric] take_bit_of_int)
  have w: "unat (word_of_int (take_bit e i) :: u64) = nat (take_bit 64 (take_bit e i))" by (simp only: unsigned_of_int) simp
  have t: "take_bit 64 (take_bit e i) = take_bit e i" using e(1) by simp
  have "take_bit e i = i mod int cap" using e(2) by (simp add: take_bit_eq_mod)
  then have u: "unat ((word_of_int i :: u64) AND mask e) = nat (i mod int cap)" unfolding m w t by simp
  have "ring_capacity q = 2 ^ e" using assms e(2) by (simp add: ring_capacity_def ring_ok_def)
  then show ?thesis using u by (simp only: ring_idx_def align_pos_def size_mask)
qed

lemma ring_slots_differ:
  assumes "i < j" and "j < i + int c"
  shows "nat (i mod int c) \<noteq> nat (j mod int c)"
proof
  assume "nat (i mod int c) = nat (j mod int c)"
  moreover have c: "0 < int c" using assms by linarith
  ultimately have "j mod int c = i mod int c" by (simp add: eq_nat_nat_iff)
  then have "int c dvd j - i" by (simp add: mod_eq_dvd_iff)
  then show False using assms zdvd_imp_le [of "int c" "j - i"] by linarith
qed

lemma ring_slot_less: "ring_ok cap q \<Longrightarrow> nat (i mod int cap) < length (rq_keys q) \<and> nat (i mod int cap) < length (rq_values q)"
  by (auto simp: ring_ok_def nat_less_iff)

text \<open>Writing at the end of the ring appends, as long as fewer than \<open>cap\<close> pairs are pending.\<close>

lemma ring_write:
  assumes r: "ring_rep cap q xs" and l: "length xs < cap"
  shows "ring_rep cap (ring_prefill k h q) (xs @ [(k, h)])"
proof -
  have ok: "ring_ok cap q" and sz: "rq_end q = rq_begin q + int (length xs)" using r by (simp_all add: ring_rep_def ring_size_def)
  let ?q = "ring_prefill k h q" and ?b = "rq_begin q"
  have i: "rq_keys ?q = (rq_keys q)[nat ((?b + int (length xs)) mod int cap) := k]"
    "rq_values ?q = (rq_values q)[nat ((?b + int (length xs)) mod int cap) := h]" "rq_begin ?q = ?b" "rq_end ?q = rq_end q + 1"
    by (simp_all add: ring_prefill_def Let_def ring_idx_mod [OF ok] sz)
  have "ring_ok cap ?q" using ok by (simp add: ring_ok_def i)
  moreover have "(xs @ [(k, h)]) ! j = (let j = nat ((?b + int j) mod int cap) in (rq_keys ?q ! j, rq_values ?q ! j))"
    if j: "j < Suc (length xs)" for j
  proof (cases "j = length xs")
    case True
    then show ?thesis using ring_slot_less [OF ok] by (simp add: i Let_def)
  next
    case False
    then have "nat ((?b + int j) mod int cap) \<noteq> nat ((?b + int (length xs)) mod int cap)"
      using j l by (intro ring_slots_differ) simp_all
    then show ?thesis using False j r by (simp add: i Let_def nth_append ring_rep_def)
  qed
  ultimately show ?thesis using r l by (simp add: ring_rep_def ring_size_def i)
qed

lemma ring_rep_size:
  assumes "ring_rep cap q xs"
  shows "ring_size q = int (length xs)" and "ring_empty q \<longleftrightarrow> xs = []" and "ring_full q \<longleftrightarrow> length xs = cap"
proof -
  show s: "ring_size q = int (length xs)" using assms by (simp add: ring_rep_def)
  then show "ring_empty q \<longleftrightarrow> xs = []" by (auto simp: ring_empty_def ring_size_def)
  have ok: "ring_ok cap q" using assms by (simp add: ring_rep_def)
  then show "ring_full q \<longleftrightarrow> length xs = cap" using s by (simp add: ring_full_def ring_capacity_def ring_ok_def)
qed

definition ring_dropped :: "('k, 'h) ring_queue \<Rightarrow> ('k, 'h) ring_queue" where
  "ring_dropped q = q\<lparr>rq_begin := rq_begin q + 1\<rparr>"

lemma ring_drop:
  assumes r: "ring_rep cap q (x # xs)"
  shows "ring_rep cap (ring_dropped q) xs" and "ring_skip lvl q = Some (ring_dropped q)" and "ring_front lvl q = Some x"
    and "ring_pop lvl q = Some (x, ring_dropped q)"
proof -
  have ok: "ring_ok cap q" using r by (simp add: ring_rep_def)
  have n: "\<forall>i<Suc (length xs). (x # xs) ! i = (let j = nat ((rq_begin q + int i) mod int cap) in (rq_keys q ! j, rq_values q ! j))"
    using r by (simp add: ring_rep_def)
  have x: "(x # xs) ! 0 = (let j = nat ((rq_begin q + int 0) mod int cap) in (rq_keys q ! j, rq_values q ! j))" using n by blast
  have e: "\<not> ring_empty q" using ring_rep_size(2) [OF r] by simp
  show "ring_skip lvl q = Some (ring_dropped q)" by (simp add: ring_skip_def ring_dropped_def e)
  show "ring_front lvl q = Some x" "ring_pop lvl q = Some (x, ring_dropped q)" using x
    by (simp_all add: ring_front_def ring_pop_def ring_dropped_def Let_def ring_idx_mod [OF ok] e)
  have "xs ! i = (let j = nat ((rq_begin q + 1 + int i) mod int cap) in (rq_keys q ! j, rq_values q ! j))" if "i < length xs" for i
    using n [rule_format, of "Suc i"] that by (simp add: algebra_simps)
  then show "ring_rep cap (ring_dropped q) xs" using r by (simp add: ring_rep_def ring_dropped_def ring_ok_def ring_size_def)
qed

text \<open>A push takes the oldest pair before it writes, so that a full ring is no exception.\<close>

lemma ring_push_rep:
  assumes r: "ring_rep cap q (x # xs)" and a: "Check_prototype \<le> lvl \<Longrightarrow> length (x # xs) = cap"
  shows "ring_push lvl k h q = Some (x, ring_prefill k h (ring_dropped q))"
    and "ring_rep cap (ring_prefill k h (ring_dropped q)) (xs @ [(k, h)])"
proof -
  have x: "ring_front Check_none q = Some x" by (rule ring_drop(3) [OF r])
  have f: "\<not> (Check_prototype \<le> lvl \<and> \<not> ring_full q)" using ring_rep_size(3) [OF r] a by auto
  show "ring_push lvl k h q = Some (x, ring_prefill k h (ring_dropped q))" using x f
    by (simp add: ring_push_def nvhm_assert_def [of lvl] ring_front_def ring_dropped_def ring_prefill_def Let_def ring_idx_def ring_capacity_def)
  show "ring_rep cap (ring_prefill k h (ring_dropped q)) (xs @ [(k, h)])"
    by (rule ring_write [OF ring_drop(1) [OF r]]) (use r in \<open>simp add: ring_rep_def\<close>)
qed

interpretation ring_fifo: fifo_queue "ring_rep cap" cap "\<lambda>n. 0 < n \<and> (Check_prototype \<le> lvl \<longrightarrow> n = cap)"
    "\<lambda>_ k h q. Some (ring_prefill k h q)" "ring_push lvl" "ring_pop lvl" for cap lvl
proof
  fix q :: "('k, 'h) ring_queue" and xs x k h
  show "\<exists>q'. Some (ring_prefill k h q) = Some q' \<and> ring_rep cap q' (xs @ [(k, h)])" if "ring_rep cap q xs" "length xs < cap"
    using ring_write [OF that] by blast
  show "\<exists>q'. ring_push lvl k h q = Some (x, q') \<and> ring_rep cap q' (xs @ [(k, h)])"
    if "ring_rep cap q (x # xs)" "0 < length (x # xs) \<and> (Check_prototype \<le> lvl \<longrightarrow> length (x # xs) = cap)"
    using ring_push_rep [OF that(1)] that(2) by blast
  show "\<exists>q'. ring_pop lvl q = Some (x, q') \<and> ring_rep cap q' xs" if "ring_rep cap q (x # xs)"
    using ring_drop [OF that] by blast
qed

lemma ring_push_aborts: "ring_rep cap q xs \<Longrightarrow> length xs \<noteq> cap \<Longrightarrow> Check_prototype \<le> lvl \<Longrightarrow> ring_push lvl k h q = None"
  by (simp add: ring_push_def nvhm_assert_def ring_rep_size(3))

text \<open>The newest pair.\<close>

lemma ring_back_last:
  assumes "ring_rep cap q xs" and ne: "xs \<noteq> []"
  shows "ring_back lvl q = Some (last xs)"
proof -
  note s = ring_rep_size [OF assms(1)]
  have ok: "ring_ok cap q" using assms by (simp add: ring_rep_def)
  have e: "rq_end q - 1 = rq_begin q + int (length xs - 1)" using ne s(1) by (cases xs) (simp_all add: ring_size_def)
  have "last xs = xs ! (length xs - 1)" using ne by (rule last_conv_nth)
  moreover have "length xs - 1 < length xs" using ne by simp
  ultimately show ?thesis using assms(1) ne s(2) by (simp add: ring_rep_def ring_back_def ring_idx_mod [OF ok] e Let_def)
qed

section \<open>Properties\<close>

text \<open>Queues whose slots hold unspecified contents.\<close>

definition new_shift_queue :: "'k list \<Rightarrow> 'h list \<Rightarrow> ('k, 'h) shift_queue" where
  "new_shift_queue ks hs = \<lparr>sq_keys = ks, sq_values = hs\<rparr>"

definition new_ring_queue :: "'k list \<Rightarrow> 'h list \<Rightarrow> ('k, 'h) ring_queue" where
  "new_ring_queue ks hs = \<lparr>rq_keys = ks, rq_values = hs, rq_begin = 0, rq_end = 0\<rparr>"

lemma new_queues:
  "length ks = n \<Longrightarrow> length hs = n \<Longrightarrow> shift_rep n (new_shift_queue ks hs) []"
  "e < 63 \<Longrightarrow> length ks = 2 ^ e \<Longrightarrow> length hs = 2 ^ e \<Longrightarrow> ring_rep (2 ^ e) (new_ring_queue ks hs) []"
  by (auto simp: shift_rep_def new_shift_queue_def ring_rep_def ring_ok_def new_ring_queue_def ring_size_def)

lemma hinted_find: "api_find_hint lvl P k (prefetch_hint P k) m = map_option Inr (api_find P k m)"
  by (simp add: api_find_hint_def hint_to_hash_def prefetch_hint_def api_find_def option.map_comp comp_def split_def)

text \<open>C31: The benchmark's loop over either queue looks up every key once and in order, and each lookup with
  the hint that came back gives what the lookup without a hint gives. Over the shift queue of
  \<open>queue_len\<close> slots this holds at every check level. Over the ring, which has at least that many slots, it
  holds in every build without assertions; a build with assertions ends the program exactly when the
  ring is larger than \<open>queue_len\<close> and there is a key to push.\<close>

theorem prefetch_loop_finds:
  assumes "0 < n" and "n \<le> length keys" and "length ks = n" and "length hs = n"
    and "length ks1 = 2 ^ e" and "length hs1 = 2 ^ e" and "n \<le> 2 ^ e" and "e < 63"
  shows "map_option (map (\<lambda>(k, h). api_find_hint lvl P k h m))
        (prefetch_loop (shift_prefill lvl) (\<lambda>k h q. Some (shift_push k h q)) (\<lambda>q. Some (shift_pop q)) (prefetch_hint P) n keys
          (new_shift_queue ks hs))
      = Some (map (\<lambda>k. map_option Inr (api_find P k m)) keys)
    \<and> map_option (map (\<lambda>(k, h). api_find_hint lvl P k h m))
        (prefetch_loop (\<lambda>_ k h q. Some (ring_prefill k h q)) (ring_push lvl) (ring_pop lvl) (prefetch_hint P) n keys
          (new_ring_queue ks1 hs1))
      = (if Check_prototype \<le> lvl \<and> n < 2 ^ e \<and> n < length keys then None
         else Some (map (\<lambda>k. map_option Inr (api_find P k m)) keys))"
proof -
  let ?ring = "prefetch_loop (\<lambda>_ k h q. Some (ring_prefill k h q)) (ring_push lvl) (ring_pop lvl) (prefetch_hint P) n keys (new_ring_queue ks1 hs1)"
  note r = new_queues(2) [OF assms(8,5,6)]
  have "prefetch_loop (shift_prefill lvl) (\<lambda>k h q. Some (shift_push k h q)) (\<lambda>q. Some (shift_pop q)) (prefetch_hint P) n keys
      (new_shift_queue ks hs) = Some (map (\<lambda>k. (k, prefetch_hint P k)) keys)"
    using shift_fifo.prefetch_loop_ok [OF new_queues(1) [OF assms(3,4)], of n keys] assms by simp
  moreover have "?ring = None" if "Check_prototype \<le> lvl" "n < 2 ^ e" "n < length keys"
    by (rule ring_fifo.prefetch_loop_stops [OF r assms(7) that(3)]) (rule ring_push_aborts, assumption, use that in simp_all)
  moreover have "?ring = Some (map (\<lambda>k. (k, prefetch_hint P k)) keys)" if "\<not> (Check_prototype \<le> lvl \<and> n < 2 ^ e \<and> n < length keys)"
    by (rule ring_fifo.prefetch_loop_ok [OF r assms(1,7) _ assms(2)]) (use that assms(1,2,7) in auto)
  ultimately show ?thesis by (simp add: comp_def hinted_find)
qed

theorem prefetch_loop_finds_witness:
  "map_option (map (\<lambda>(k, h). api_find_hint Check_debug demo k h demo_one))
      (prefetch_loop (\<lambda>_ k h q. Some (ring_prefill k h q)) (ring_push Check_debug) (ring_pop Check_debug) (prefetch_hint demo) 4 [4, 5, 6, 7, 8]
        (new_ring_queue [0, 0, 0, 0] [1, 1, 1, 1]))
    = Some (map (\<lambda>k. map_option Inr (api_find demo k demo_one)) [4, 5, 6, 7, 8])
   \<and> map_option (map (\<lambda>(k, h). api_find_hint Check_debug demo k h demo_one))
      (prefetch_loop (\<lambda>_ k h q. Some (ring_prefill k h q)) (ring_push Check_debug) (ring_pop Check_debug) (prefetch_hint demo) 3 [4, 5, 6, 7, 8]
        (new_ring_queue [0, 0, 0, 0] [1, 1, 1, 1])) = None"
proof -
  have d: "Check_prototype \<le> Check_debug" by (simp add: less_eq_check_level_def)
  note full = prefetch_loop_finds [where n = 4 and e = 2 and ks = "[0, 0, 0, 0]" and hs = "[0, 0, 0, 0]", THEN conjunct2]
  note short = prefetch_loop_finds [where n = 3 and e = 2 and ks = "[0, 0, 0]" and hs = "[0, 0, 0]", THEN conjunct2]
  show ?thesis
  proof (rule conjI)
    show "map_option (map (\<lambda>(k, h). api_find_hint Check_debug demo k h demo_one))
        (prefetch_loop (\<lambda>_ k h q. Some (ring_prefill k h q)) (ring_push Check_debug) (ring_pop Check_debug) (prefetch_hint demo) 4 [4, 5, 6, 7, 8]
          (new_ring_queue [0, 0, 0, 0] [1, 1, 1, 1]))
      = Some (map (\<lambda>k. map_option Inr (api_find demo k demo_one)) [4, 5, 6, 7, 8])"
      by (rule trans [OF full]) simp_all
    show "map_option (map (\<lambda>(k, h). api_find_hint Check_debug demo k h demo_one))
        (prefetch_loop (\<lambda>_ k h q. Some (ring_prefill k h q)) (ring_push Check_debug) (ring_pop Check_debug) (prefetch_hint demo) 3 [4, 5, 6, 7, 8]
          (new_ring_queue [0, 0, 0, 0] [1, 1, 1, 1])) = None"
      by (rule trans [OF short]) (simp_all add: d)
  qed
qed

end
