(* ===== verification/Container.thy ===== *)
theory Container
  imports MapDemo
begin

text \<open>
  The interface every container of the library offers (container.hpp and the members that
  \<open>sharded\<close>, \<open>guarded\<close> and \<open>std_map_shim\<close> call on what they wrap), as a record of operations over an
  unspecified state \<open>'c\<close>, positions \<open>'p\<close>, probe sequences \<open>'q\<close>, prefetch hints \<open>'h\<close> and iterators
  \<open>'i\<close>, and the hash map as such a record. A call returns \<open>None\<close> when it does not end, \<open>Some (Inl e)\<close>
  when it throws \<open>e\<close>; lookups return the state too, as those of a cache change it. \<open>container_laws\<close> is
  the contract of a container that behaves like a bag of entries.
\<close>

section \<open>Results\<close>

type_synonym 'a res = "(exn + 'a) option"

definition ret :: "'a \<Rightarrow> 'a res" where
  "ret x = Some (Inr x)"

definition bind_res :: "'a res \<Rightarrow> ('a \<Rightarrow> 'b res) \<Rightarrow> 'b res" where
  "bind_res r f = (case r of None \<Rightarrow> None | Some (Inl e) \<Rightarrow> Some (Inl e) | Some (Inr x) \<Rightarrow> f x)"

definition map_res :: "('a \<Rightarrow> 'b) \<Rightarrow> 'a res \<Rightarrow> 'b res" where
  "map_res f = map_option (map_sum id f)"

text \<open>A query that leaves the state as it is, from a result that may fail in one way only.\<close>

definition keeping :: "'c \<Rightarrow> 'a option \<Rightarrow> ('a \<times> 'c) res" where
  "keeping c r = map_option (\<lambda>x. Inr (x, c)) r"

definition keeping_res :: "'c \<Rightarrow> 'a res \<Rightarrow> ('a \<times> 'c) res" where
  "keeping_res c r = map_res (\<lambda>x. (x, c)) r"

section \<open>The operations\<close>

record ('k, 'v, 'c, 'p, 'q, 'h) lookup_ops =
  ct_layout :: hash_layout
  ct_key_hash :: "'k \<Rightarrow> hash_t"
  ct_hint :: "'c \<Rightarrow> 'k \<Rightarrow> 'h"
  ct_hint_hash :: "'h \<Rightarrow> hash_t"
  ct_is_npos :: "'p \<Rightarrow> bool"
  ct_read_npos :: "'c \<Rightarrow> 'p"
  ct_contains :: "'k \<Rightarrow> 'c \<Rightarrow> (bool \<times> 'c) res"
  ct_contains_hint :: "'k \<Rightarrow> 'h \<Rightarrow> 'c \<Rightarrow> (bool \<times> 'c) res"
  ct_find :: "'k \<Rightarrow> 'c \<Rightarrow> ('p \<times> 'c) res"
  ct_find_hint :: "'k \<Rightarrow> 'h \<Rightarrow> 'c \<Rightarrow> ('p \<times> 'c) res"
  ct_find_first :: "'k \<Rightarrow> 'c \<Rightarrow> (('p \<times> 'q) \<times> 'c) res"
  ct_find_next :: "'p \<Rightarrow> 'q \<Rightarrow> 'k \<Rightarrow> 'c \<Rightarrow> (('p \<times> 'q) \<times> 'c) res"
  ct_find_if :: "('p \<Rightarrow> bool) \<Rightarrow> 'c \<Rightarrow> 'p res"
  ct_find_all :: "'k \<Rightarrow> 'c \<Rightarrow> 'p list res"
  ct_all_values_for :: "'k \<Rightarrow> 'c \<Rightarrow> 'v list res"
  ct_all_blobs_for :: "'k \<Rightarrow> 'c \<Rightarrow> u8 list res"
  ct_count :: "'k \<Rightarrow> 'c \<Rightarrow> int res"
  ct_count_if :: "('p \<Rightarrow> bool) \<Rightarrow> 'c \<Rightarrow> int res"
  ct_for_each :: "'c \<Rightarrow> 'p list res"
  ct_for_each_of :: "'k \<Rightarrow> 'c \<Rightarrow> ('p \<times> 'q) list res"
  ct_for_each_entry :: "'c \<Rightarrow> ('k \<times> 'v \<times> u8 list) list res"

record ('k, 'v, 'c, 'p, 'q, 'h) access_ops = "('k, 'v, 'c, 'p, 'q, 'h) lookup_ops" +
  ct_at :: "'p \<Rightarrow> 'c \<Rightarrow> ('k \<times> 'v \<times> u8 list) res"
  ct_contains_at :: "'p \<Rightarrow> 'c \<Rightarrow> bool res"
  ct_key_at :: "'p \<Rightarrow> 'c \<Rightarrow> 'k res"
  ct_value_at :: "'p \<Rightarrow> 'c \<Rightarrow> 'v res"
  ct_blob_at :: "'p \<Rightarrow> 'c \<Rightarrow> u8 list res"
  ct_get_blob_at :: "'p \<Rightarrow> int \<Rightarrow> 'c \<Rightarrow> u8 list res"
  ct_lru_at :: "'p \<Rightarrow> 'c \<Rightarrow> lru_t res"
  ct_state_at :: "'p \<Rightarrow> 'c \<Rightarrow> state_t res"
  ct_bucket_size_at :: "'p \<Rightarrow> 'c \<Rightarrow> nat res"
  ct_bucket_num_empty_slots_at :: "'p \<Rightarrow> 'c \<Rightarrow> nat res"
  ct_bucket_num_tombstone_slots_at :: "'p \<Rightarrow> 'c \<Rightarrow> nat res"
  ct_set_value_at :: "'p \<Rightarrow> 'v \<Rightarrow> 'c \<Rightarrow> 'c res"
  ct_set_blob_at :: "'p \<Rightarrow> u8 list \<Rightarrow> 'c \<Rightarrow> 'c res"
  ct_set_blob_at_n :: "'p \<Rightarrow> u8 list \<Rightarrow> int \<Rightarrow> 'c \<Rightarrow> 'c res"
  ct_size :: "'c \<Rightarrow> int"
  ct_capacity :: "'c \<Rightarrow> int"
  ct_num_empty_slots :: "'c \<Rightarrow> int"
  ct_num_tombstone_slots :: "'c \<Rightarrow> int"
  ct_num_not_hash_slots :: "'c \<Rightarrow> int"
  ct_is_empty :: "'c \<Rightarrow> bool"
  ct_is_full :: "'c \<Rightarrow> bool"
  ct_check_integrity :: "'c \<Rightarrow> bool"
  ct_kernel_populations :: "'c \<Rightarrow> int list \<Rightarrow> int list"
  ct_state_collisions :: "'c \<Rightarrow> int list \<Rightarrow> int list"

record ('k, 'v, 'c, 'p, 'q, 'h) update_ops = "('k, 'v, 'c, 'p, 'q, 'h) access_ops" +
  ct_insert :: "'k \<Rightarrow> 'c \<Rightarrow> (('p \<times> insert_op) \<times> 'c) res"
  ct_insert_hint :: "'k \<Rightarrow> 'h \<Rightarrow> 'c \<Rightarrow> (('p \<times> insert_op) \<times> 'c) res"
  ct_insert_ex :: "'k \<Rightarrow> 'c \<Rightarrow> (('p \<times> insert_op \<times> 'q) \<times> 'c) res"
  ct_subscript :: "'k \<Rightarrow> 'c \<Rightarrow> ('p \<times> 'c) res"
  ct_erase :: "'k \<Rightarrow> 'c \<Rightarrow> (bool \<times> 'c) res"
  ct_erase_hint :: "'k \<Rightarrow> 'h \<Rightarrow> 'c \<Rightarrow> (bool \<times> 'c) res"
  ct_erase_first :: "'k \<Rightarrow> 'c \<Rightarrow> ((bool \<times> 'p \<times> 'q) \<times> 'c) res"
  ct_erase_next :: "'p \<Rightarrow> 'q \<Rightarrow> 'k \<Rightarrow> 'c \<Rightarrow> ((bool \<times> 'p \<times> 'q) \<times> 'c) res"
  ct_erase_at :: "'p \<Rightarrow> 'c \<Rightarrow> ((bool \<times> 'p) \<times> 'c) res"
  ct_erase_if :: "('p \<Rightarrow> bool) \<Rightarrow> 'c \<Rightarrow> (int \<times> 'c) res"
  ct_erase_all :: "'k \<Rightarrow> 'c \<Rightarrow> (int \<times> 'c) res"
  ct_clear :: "'c \<Rightarrow> (int \<times> 'c) res"
  ct_clear_to :: "int \<Rightarrow> 'c \<Rightarrow> (int \<times> 'c) res"
  ct_grow :: "'c \<Rightarrow> (int \<times> 'c) res"
  ct_reserve :: "int \<Rightarrow> 'c \<Rightarrow> (int \<times> 'c) res"
  ct_resize :: "int \<Rightarrow> 'c \<Rightarrow> (int \<times> 'c) res"
  ct_shrink :: "'c \<Rightarrow> (int \<times> 'c) res"
  ct_scrub :: "lru_t \<Rightarrow> 'c \<Rightarrow> (int \<times> 'c) res"
  ct_equal :: "'c \<Rightarrow> 'c \<Rightarrow> bool res"

record ('k, 'v, 'c, 'p, 'q, 'h, 'i) container = "('k, 'v, 'c, 'p, 'q, 'h) update_ops" +
  ct_begin :: "'c \<Rightarrow> 'i"
  ct_end :: "'c \<Rightarrow> 'i"
  ct_inc :: "'c \<Rightarrow> 'i \<Rightarrow> 'i"
  ct_dec :: "'c \<Rightarrow> 'i \<Rightarrow> 'i"
  ct_is_left :: "'c \<Rightarrow> 'i \<Rightarrow> bool"
  ct_is_right :: "'c \<Rightarrow> 'i \<Rightarrow> bool"
  ct_iter_less :: "'i \<Rightarrow> 'i \<Rightarrow> bool"
  ct_iter_entry :: "'c \<Rightarrow> 'i \<Rightarrow> 'k \<times> 'v \<times> u8 list"
  ct_to_iterator :: "'p \<Rightarrow> 'c \<Rightarrow> 'i res"

section \<open>The hash map as a container\<close>

definition map_container ::
    "check_level \<Rightarrow> ('k, 'v, 'r, 'l, 'm, 'q) map_params \<Rightarrow> ('k, 'v, ('k, 'v) map_state, int, 'q, hash_t, int) container" where
  "map_container lvl P = \<lparr>
     ct_layout = pm_layout P,
     ct_key_hash = pm_hash P,
     ct_hint = (\<lambda>m. prefetch_hint P),
     ct_hint_hash = (\<lambda>h. h),
     ct_is_npos = (\<lambda>p. p = npos),
     ct_read_npos = (\<lambda>m. npos),
     ct_contains = (\<lambda>k m. keeping m (api_contains P k m)),
     ct_contains_hint = (\<lambda>k h m. keeping_res m (map_res (\<lambda>p. p \<noteq> npos) (api_find_hint lvl P k h m))),
     ct_find = (\<lambda>k m. keeping m (api_find P k m)),
     ct_find_hint = (\<lambda>k h m. keeping_res m (api_find_hint lvl P k h m)),
     ct_find_first = (\<lambda>k m. keeping m (api_update_first P k m)),
     ct_find_next = (\<lambda>p q k m. keeping_res m (api_find_next lvl P p q k m)),
     ct_find_if = (\<lambda>f m. ret (api_find_if P f m)),
     ct_find_all = (\<lambda>k m. map_option Inr (api_find_all P k m)),
     ct_all_values_for = (\<lambda>k m. map_option Inr (all_values_for P k m)),
     ct_all_blobs_for = (\<lambda>k m. map_option Inr (all_blobs_for P k m)),
     ct_count = (\<lambda>k m. map_option Inr (count_key P k m)),
     ct_count_if = (\<lambda>f m. ret (count_if P (\<lambda>pos. f (int pos)) m)),
     ct_for_each = (\<lambda>m. ret (map int (for_each P m))),
     ct_for_each_of = (\<lambda>k m. map_option (\<lambda>ps. Inr (map (\<lambda>(pos, seq). (int pos, seq)) ps)) (for_each_key P k (pm_hash P k) m)),
     ct_for_each_entry = (\<lambda>m. ret (for_each_entry P m)),
     ct_at = (\<lambda>p m. Some (api_at lvl P m p)),
     ct_contains_at = (\<lambda>p m. Some (api_contains_at lvl P m p)),
     ct_key_at = (\<lambda>p m. ret (key_at m (nat p))),
     ct_value_at = (\<lambda>p m. ret (value_at m (nat p))),
     ct_blob_at = (\<lambda>p m. Some (api_blob_at lvl P m p)),
     ct_get_blob_at = (\<lambda>p n m. Some (api_get_blob_at lvl P m p n)),
     ct_lru_at = (\<lambda>p m. ret max_lru),
     ct_state_at = (\<lambda>p m. ret (state_at m (nat p))),
     ct_bucket_size_at = (\<lambda>p m. ret (bucket_size_at P m (nat p))),
     ct_bucket_num_empty_slots_at = (\<lambda>p m. ret (bucket_num_empty_slots_at P m (nat p))),
     ct_bucket_num_tombstone_slots_at = (\<lambda>p m. ret (bucket_num_tombstone_slots_at P m (nat p))),
     ct_set_value_at = (\<lambda>p v m. ret (set_value_at (nat p) v m)),
     ct_set_blob_at = (\<lambda>p src m. Some (api_set_blob_at lvl P p src m)),
     ct_set_blob_at_n = (\<lambda>p src n m. Some (api_set_blob_at_n lvl P p src n m)),
     ct_size = map_size P,
     ct_capacity = capacity P,
     ct_num_empty_slots = m_num_empty,
     ct_num_tombstone_slots = m_num_tombstone,
     ct_num_not_hash_slots = num_not_hash_slots,
     ct_is_empty = is_empty_map P,
     ct_is_full = is_full,
     ct_check_integrity = check_integrity P,
     ct_kernel_populations = count_kernel_populations P,
     ct_state_collisions = count_state_collisions P,
     ct_insert = api_insert P,
     ct_insert_hint = api_insert_hint lvl P,
     ct_insert_ex = api_insert_ex P,
     ct_subscript = subscript P,
     ct_erase = api_erase P,
     ct_erase_hint = (\<lambda>k h m. case hint_to_hash lvl P k h of
         Inl e \<Rightarrow> Some (Inl e)
       | Inr h \<Rightarrow> map_res (\<lambda>((b, pos, seq), m). (b, m)) (erase_first P k h m)),
     ct_erase_first = api_erase_first P,
     ct_erase_next = api_erase_next lvl P,
     ct_erase_at = api_erase_at lvl P,
     ct_erase_if = api_erase_if P,
     ct_erase_all = api_erase_all P,
     ct_clear = (\<lambda>m. ret (clear_map P m)),
     ct_clear_to = (\<lambda>n m. ret (clear_to P n m)),
     ct_grow = grow P,
     ct_reserve = reserve P,
     ct_resize = resize_api P,
     ct_shrink = shrink P,
     ct_scrub = (\<lambda>threshold m. map_option Inr (scrub P m)),
     ct_equal = (\<lambda>m m'. map_option Inr (map_equal P m m')),
     ct_begin = iter_begin P,
     ct_end = iter_end P,
     ct_inc = iter_inc P,
     ct_dec = iter_dec P,
     ct_is_left = (\<lambda>m it. it < 0),
     ct_is_right = (\<lambda>m it. capacity P m \<le> it),
     ct_iter_less = (<),
     ct_iter_entry = (\<lambda>m it. entry_at m (nat it)),
     ct_to_iterator = (\<lambda>p m. Some (to_iterator lvl P m p))\<rparr>"

section \<open>Calls\<close>

text \<open>The calls of \<open>map_call\<close> on a container; \<open>Put\<close> writes through the reference \<open>operator[]\<close> returns.\<close>

fun ct_exec :: "('k, 'v, 'c, 'p, 'q, 'h, 'i) container \<Rightarrow> ('k, 'v) map_call \<Rightarrow> 'c \<Rightarrow> (int \<times> 'c) res" where
  "ct_exec C (Insert k) s = map_res (\<lambda>((p, op), s'). (of_bool (op = Op_insert), s')) (ct_insert C k s)"
| "ct_exec C (Put k v) s = bind_res (ct_subscript C k s) (\<lambda>(p, s'). map_res (\<lambda>s2. (0, s2)) (ct_set_value_at C p v s'))"
| "ct_exec C (Erase k) s = map_res (\<lambda>(b, s'). (of_bool b, s')) (ct_erase C k s)"
| "ct_exec C (Erase_all k) s = ct_erase_all C k s"
| "ct_exec C (Erase_if f) s = ct_erase_if C (\<lambda>p. case ct_key_at C p s of Some (Inr k) \<Rightarrow> f k | _ \<Rightarrow> False) s"
| "ct_exec C Clear s = ct_clear C s"
| "ct_exec C (Clear_to n) s = ct_clear_to C n s"
| "ct_exec C (Resize n) s = ct_resize C n s"
| "ct_exec C (Reserve n) s = ct_reserve C n s"
| "ct_exec C Grow s = ct_grow C s"
| "ct_exec C Shrink s = ct_shrink C s"
| "ct_exec C Scrub s = ct_scrub C max_lru s"

fun ct_legal :: "('k \<Rightarrow> bool) \<Rightarrow> ('k, 'v) map_call \<Rightarrow> bool" where
  "ct_legal nan (Insert k) \<longleftrightarrow> \<not> nan k"
| "ct_legal nan (Put k v) \<longleftrightarrow> \<not> nan k"
| "ct_legal nan (Clear_to n) \<longleftrightarrow> n \<le> 2 ^ 62"
| "ct_legal nan (Resize n) \<longleftrightarrow> 0 \<le> n \<and> n \<le> 2 ^ 62"
| "ct_legal nan (Reserve n) \<longleftrightarrow> n \<le> 2 ^ 62"
| "ct_legal nan _ \<longleftrightarrow> True"

text \<open>The iterators from \<open>it\<close> on are \<open>its\<close>, none of them right of the container, and then \<open>e\<close>.\<close>

fun iter_chain :: "('i \<Rightarrow> 'i) \<Rightarrow> ('i \<Rightarrow> bool) \<Rightarrow> 'i \<Rightarrow> 'i list \<Rightarrow> 'i \<Rightarrow> bool" where
  "iter_chain inc right e [] it \<longleftrightarrow> it = e"
| "iter_chain inc right e (x # xs) it \<longleftrightarrow> it = x \<and> \<not> right x \<and> iter_chain inc right e xs (inc x)"

section \<open>The contract\<close>

text \<open>
  \<open>good\<close> are the well-formed states, \<open>room\<close> those small enough to be resized, \<open>bag\<close> the contents.
\<close>

locale container_laws =
  fixes C :: "('k, 'v, 'c, 'p, 'q, 'h, 'i) container"
    and dup :: bool
    and nan :: "'k \<Rightarrow> bool"
    and good :: "'c \<Rightarrow> bool"
    and room :: "'c \<Rightarrow> bool"
    and bag :: "'c \<Rightarrow> ('k, 'v) bag"
  assumes exec_law: "good s \<Longrightarrow> room s \<Longrightarrow> ct_legal nan c \<Longrightarrow>
      \<exists>r s'. ct_exec C c s = ret (r, s') \<and> good s' \<and> spec_step dup c (bag s) r (bag s')"
    and contains_law: "good s \<Longrightarrow> ct_contains C k s = ret (k \<in># keys_of (bag s), s)"
    and find_law: "good s \<Longrightarrow> \<exists>p. ct_find C k s = ret (p, s) \<and> (ct_is_npos C p \<longleftrightarrow> k \<notin># keys_of (bag s))
      \<and> (\<not> ct_is_npos C p \<longrightarrow> (\<exists>v b. ct_at C p s = ret (k, v, b) \<and> (k, v, b) \<in># bag s))"
    and count_law: "good s \<Longrightarrow> ct_count C k s = ret (int (count (keys_of (bag s)) k))"
    and size_law: "good s \<Longrightarrow> ct_size C s = int (size (bag s)) \<and> ct_size C s \<le> ct_capacity C s"
    and empty_law: "good s \<Longrightarrow> ct_is_empty C s \<longleftrightarrow> bag s = {#}"
    and iter_law: "good s \<Longrightarrow> ct_is_right C s (ct_end C s)
      \<and> (\<exists>its. iter_chain (ct_inc C s) (ct_is_right C s) (ct_end C s) its (ct_begin C s)
        \<and> image_mset (ct_iter_entry C s) (mset its) = bag s)"

end
