(* ===== verification/MapContainer.thy ===== *)
theory MapContainer
  imports Container
begin

text \<open>
  The hash map meets the contract of a container: its calls are those of \<open>map_exec\<close>, its well-formed
  states those of \<open>map_inv\<close>, its contents \<open>entries\<close>.
\<close>

lemma res_simps [simp]:
  "bind_res (ret x) f = f x" "bind_res None f = None" "bind_res (Some (Inl e)) f = Some (Inl e)" "bind_res (Some (Inr x)) f = f x"
  "map_res g (ret x) = ret (g x)" "map_res g None = None" "map_res g (Some (Inl e)) = Some (Inl e)" "map_res g (Some (Inr x)) = ret (g x)"
  "ret x = ret y \<longleftrightarrow> x = y" "Some (Inr x) = ret y \<longleftrightarrow> x = y" "ret y = Some (Inr x) \<longleftrightarrow> x = y"
  "ret x \<noteq> None" "None \<noteq> ret x" "ret x \<noteq> Some (Inl e)" "Some (Inl e) \<noteq> ret x"
  by (auto simp: ret_def bind_res_def map_res_def)

lemma keeping_simps [simp]: "keeping c (Some x) = ret (x, c)" "keeping_res c (ret x) = ret (x, c)"
  by (simp_all add: keeping_def keeping_res_def ret_def map_res_def)

lemma map_container_simps [simp]:
  "ct_contains (map_container lvl P) k m = keeping m (api_contains P k m)"
  "ct_find (map_container lvl P) k m = keeping m (api_find P k m)"
  "ct_is_npos (map_container lvl P) p \<longleftrightarrow> p = npos"
  "ct_at (map_container lvl P) p m = Some (api_at lvl P m p)"
  "ct_key_at (map_container lvl P) p m = ret (key_at m (nat p))"
  "ct_count (map_container lvl P) k m = map_option Inr (count_key P k m)"
  "ct_size (map_container lvl P) = map_size P" "ct_capacity (map_container lvl P) = capacity P"
  "ct_is_empty (map_container lvl P) = is_empty_map P"
  "ct_begin (map_container lvl P) = iter_begin P" "ct_end (map_container lvl P) = iter_end P" "ct_inc (map_container lvl P) = iter_inc P"
  "ct_is_right (map_container lvl P) m it \<longleftrightarrow> capacity P m \<le> it"
  "ct_iter_entry (map_container lvl P) m it = entry_at m (nat it)"
  "ct_key_hash (map_container lvl P) = pm_hash P" "ct_layout (map_container lvl P) = pm_layout P"
  "ct_equal (map_container lvl P) m m' = map_option Inr (map_equal P m m')"
  by (simp_all add: map_container_def)

lemma map_ct_exec: "ct_exec (map_container lvl P) c m = map_exec P c m"
proof (cases c)
  case (Put k v)
  then show ?thesis
    by (auto simp: map_container_def bind_res_def map_res_def ret_def split: option.splits sum.splits)
qed (simp_all add: map_container_def map_res_def ret_def)

lemma map_ct_legal: "ct_legal (pm_is_nan P) c \<longleftrightarrow> legal_call P c"
  by (cases c) simp_all

context swiss_map
begin

lemma map_iter_chain:
  assumes inv: "map_inv P m" and xs: "xs = sorted_list_of_set (occupied m)" and i: "i \<le> length xs"
  shows "iter_chain (iter_inc P m) (\<lambda>it. capacity P m \<le> it) (iter_end P m) (map int (drop i xs))
    (if i < length xs then int (xs ! i) else capacity P m)"
  using i
proof (induction "length xs - i" arbitrary: i)
  case 0
  then show ?case by (simp add: iter_end_def)
next
  case (Suc n)
  then have i: "i < length xs" by simp
  have "xs ! i \<in> set xs" using i by simp
  then have "xs ! i \<in> occupied m" using xs by simp
  then have "int (xs ! i) < capacity P m" using capacity_states [OF inv] by (simp add: occupied_def)
  moreover have "drop i xs = xs ! i # drop (Suc i) xs" using i by (rule Cons_nth_drop_Suc [symmetric])
  ultimately show ?case using Suc(1) [of "Suc i"] Suc(2) i next_occupied(1) [OF inv xs i] by simp
qed

theorem map_container_laws:
  assumes K: "2 \<le> ksize P"
  shows "container_laws (map_container lvl P) (has_duplicates P) (pm_is_nan P) (map_inv P) (\<lambda>m. capacity P m \<le> 2 ^ 61) entries"
proof
  fix m :: "('k, 'v) map_state" and c k
  assume inv: "map_inv P m"
  show "\<exists>r s'. ct_exec (map_container lvl P) c m = ret (r, s') \<and> map_inv P s'
      \<and> spec_step (has_duplicates P) c (entries m) r (entries s')"
    if cap: "capacity P m \<le> 2 ^ 61" and lg: "ct_legal (pm_is_nan P) c"
  proof -
    have leg: "legal_call P c" using lg unfolding map_ct_legal .
    have safe: "scrub_safe" using K by (simp add: scrub_safe_def)
    obtain r m' where "map_exec P c m = Some (Inr (r, m'))" "map_inv P m'" "spec_step (has_duplicates P) c (entries m) r (entries m')"
      by (rule map_exec_ok [OF inv cap leg safe]) (use K in simp_all)
    then show ?thesis unfolding map_ct_exec ret_def by blast
  qed
  show "ct_contains (map_container lvl P) k m = ret (k \<in># keys_of (entries m), m)"
    using api_contains_ok [OF inv] by simp
  show "\<exists>p. ct_find (map_container lvl P) k m = ret (p, m) \<and> (ct_is_npos (map_container lvl P) p \<longleftrightarrow> k \<notin># keys_of (entries m))
      \<and> (\<not> ct_is_npos (map_container lvl P) p \<longrightarrow> (\<exists>v b. ct_at (map_container lvl P) p m = ret (k, v, b) \<and> (k, v, b) \<in># entries m))"
  proof -
    obtain p where p: "api_find P k m = Some p" "p = npos \<longleftrightarrow> k \<notin># keys_of (entries m)"
      "p \<noteq> npos \<Longrightarrow> 0 \<le> p \<and> nat p \<in> occupied m \<and> key_at m (nat p) = k" using api_find_ok [OF inv, of k] by blast
    have "\<exists>v b. ct_at (map_container lvl P) p m = ret (k, v, b) \<and> (k, v, b) \<in># entries m" if "p \<noteq> npos"
    proof -
      have q: "nat p \<in> occupied m" "key_at m (nat p) = k" "int (nat p) = p" using p(3) [OF that] by auto
      have "entry_at m (nat p) \<in># entries m" using q(1) by (simp add: entries_def)
      moreover have "validate lvl P m p = Inr p" using validate_ok(1) [OF capacity_states [OF inv] q(1), of lvl] q(3) by simp
      ultimately show ?thesis using q(2) by (simp add: api_at_def entry_at_def ret_def)
    qed
    then show ?thesis using p by simp
  qed
  show "ct_count (map_container lvl P) k m = ret (int (count (keys_of (entries m)) k))"
    using count_key_ok [OF inv] by (simp add: ret_def)
  have sz: "capacity P m - num_not_hash_slots m = int (size (entries m))" by (rule map_size_entries [OF inv])
  have nn: "0 \<le> num_not_hash_slots m" using inv by (simp add: map_inv_def counters_ok_def num_not_hash_slots_def)
  show "ct_size (map_container lvl P) m = int (size (entries m)) \<and> ct_size (map_container lvl P) m \<le> ct_capacity (map_container lvl P) m"
    using sz nn by (simp add: map_size_def)
  show "ct_is_empty (map_container lvl P) m \<longleftrightarrow> entries m = {#}" using sz by (auto simp: is_empty_map_def)
  show "ct_is_right (map_container lvl P) m (ct_end (map_container lvl P) m)
      \<and> (\<exists>its. iter_chain (ct_inc (map_container lvl P) m) (ct_is_right (map_container lvl P) m) (ct_end (map_container lvl P) m) its
          (ct_begin (map_container lvl P) m) \<and> image_mset (ct_iter_entry (map_container lvl P) m) (mset its) = entries m)"
  proof -
    let ?xs = "sorted_list_of_set (occupied m)"
    have "iter_begin P m = (if 0 < length ?xs then int (?xs ! 0) else capacity P m)" using iter_begin_ok [OF inv refl] by auto
    then have "iter_chain (iter_inc P m) (\<lambda>it. capacity P m \<le> it) (iter_end P m) (map int ?xs) (iter_begin P m)"
      using map_iter_chain [OF inv refl, of 0] by simp
    moreover have "mset ?xs = mset_set (occupied m)"
      using mset_set_set [of ?xs] by simp
    then have "image_mset (\<lambda>it. entry_at m (nat it)) (mset (map int ?xs)) = entries m"
      by (simp add: entries_def image_mset.compositionality comp_def)
    moreover have "ct_is_right (map_container lvl P) m = (\<lambda>it. capacity P m \<le> it)"
      and "ct_iter_entry (map_container lvl P) m = (\<lambda>it. entry_at m (nat it))" by (simp_all add: fun_eq_iff)
    ultimately show ?thesis by (auto simp: iter_end_def)
  qed
qed

end

interpretation portable_container: container_laws "map_container lvl (portable_map fp P)" "has_duplicates (portable_map fp P)"
    "pm_is_nan (portable_map fp P)" "map_inv (portable_map fp P)" "\<lambda>m. capacity (portable_map fp P) m \<le> 2 ^ 61" entries for lvl fp P
  by (rule portable.map_container_laws) simp

end
