(* ===== verification/Sharded.thy ===== *)
theory Sharded
  imports MapContainer
begin

text \<open>
  \<open>sharded<Shard>\<close> of sharded.hpp: a power of two of containers, each key living in the one its hash
  selects. The state is the list of shards, a position is an inner position with the index of its
  shard, a hint an inner hint with it, an iterator an inner iterator with it. Each member is a
  definition over the operations of the shard, and together they are a container again. The checks of
  \<open>NVHM_ASSUME_\<close> throw when the check level asks for it. The shards are visited in order; an exception
  of one leaves the call. The \<open>update\<close> members are the \<open>find\<close> members with positions that may write.
\<close>

section \<open>Which shard\<close>

definition shard_mask :: "'c list \<Rightarrow> bitmask_t" where
  "shard_mask s = make_size_mask (int (length s))"

definition to_shard_idx :: "('k, 'v, 'c, 'p, 'q, 'h, 'i) container \<Rightarrow> 'c list \<Rightarrow> 'k \<Rightarrow> nat" where
  "to_shard_idx C s key = unat (align_pos (shard_mask s) (word_of_int (hash_to_shard_idx (ct_layout C) (ct_key_hash C key))))"

definition sharded_hint :: "('k, 'v, 'c, 'p, 'q, 'h, 'i) container \<Rightarrow> 'c list \<Rightarrow> 'k \<Rightarrow> 'h \<times> nat" where
  "sharded_hint C s key = (
     let inner = ct_hint C (hd s) key
     in (inner, unat (align_pos (shard_mask s) (word_of_int (hash_to_shard_idx (ct_layout C) (ct_hint_hash C inner))))))"

definition sharded_hint_hash :: "('k, 'v, 'c, 'p, 'q, 'h, 'i) container \<Rightarrow> 'h \<times> nat \<Rightarrow> hash_t" where
  "sharded_hint_hash C hint = ct_hint_hash C (fst hint)"

definition hint_shard_idx ::
    "check_level \<Rightarrow> ('k, 'v, 'c, 'p, 'q, 'h, 'i) container \<Rightarrow> 'c list \<Rightarrow> 'k \<Rightarrow> 'h \<times> nat \<Rightarrow> nat res" where
  "hint_shard_idx lvl C s key hint = Some (nvhm_assume lvl (sharded_hint C s key = hint) (snd hint))"

definition pos_shard_idx :: "check_level \<Rightarrow> 'c list \<Rightarrow> 'p \<times> nat \<Rightarrow> nat res" where
  "pos_shard_idx lvl s pos = Some (nvhm_assume lvl (snd pos < length s) (snd pos))"

definition pos_key_shard_idx ::
    "check_level \<Rightarrow> ('k, 'v, 'c, 'p, 'q, 'h, 'i) container \<Rightarrow> 'c list \<Rightarrow> 'p \<times> nat \<Rightarrow> 'k \<Rightarrow> nat res" where
  "pos_key_shard_idx lvl C s pos key = bind_res (pos_shard_idx lvl s pos)
     (\<lambda>i. Some (nvhm_assume lvl (i = to_shard_idx C s key) i))"

text \<open>Run an operation on one shard, or on every one in order with the results added up.\<close>

definition on_shard :: "nat \<Rightarrow> ('c \<Rightarrow> ('a \<times> 'c) res) \<Rightarrow> 'c list \<Rightarrow> ('a \<times> 'c list) res" where
  "on_shard i f s = map_res (\<lambda>(x, c). (x, s[i := c])) (f (s ! i))"

definition tag_pos :: "nat \<Rightarrow> 'p \<Rightarrow> 'p \<times> nat" where
  "tag_pos i p = (p, i)"

fun each_shard :: "('c \<Rightarrow> (int \<times> 'c) res) \<Rightarrow> 'c list \<Rightarrow> (int \<times> 'c list) res" where
  "each_shard f [] = ret (0, [])"
| "each_shard f (c # cs) = bind_res (f c) (\<lambda>(n, c'). map_res (\<lambda>(m, cs'). (n + m, c' # cs')) (each_shard f cs))"

definition sum_shards :: "('c \<Rightarrow> int) \<Rightarrow> 'c list \<Rightarrow> int" where
  "sum_shards f s = fold (\<lambda>c n. n + f c) s 0"

text \<open>\<open>for_each_shard_\<close>, with the index; the results in order.\<close>

fun for_each_shard :: "(nat \<Rightarrow> 'c \<Rightarrow> 'a res) \<Rightarrow> nat \<Rightarrow> 'c list \<Rightarrow> 'a list res" where
  "for_each_shard f i [] = ret []"
| "for_each_shard f i (c # cs) = bind_res (f i c) (\<lambda>x. map_res (\<lambda>xs. x # xs) (for_each_shard f (i + 1) cs))"

section \<open>Construction\<close>

definition make_sharded :: "int \<Rightarrow> (exn + 'c) \<Rightarrow> exn + 'c list" where
  "make_sharded num_shards shard = (
     if num_shards < 1 \<or> num_shards > max_num_shards \<or> \<not> has_single_bit_fallback (word_of_int num_shards :: u64) then Inl Out_of_range
     else map_sum id (replicate (nat num_shards)) shard)"

section \<open>Positions\<close>

definition sharded_pos_eq :: "('p \<Rightarrow> bool) \<Rightarrow> 'p \<times> nat \<Rightarrow> 'p \<times> nat \<Rightarrow> bool" where
  "sharded_pos_eq is_npos lhs rhs = (
     if is_npos (fst lhs) then is_npos (fst rhs)
     else if is_npos (fst rhs) then False
     else snd lhs = snd rhs \<and> fst lhs = fst rhs)"

definition sharded_pos_less :: "('p \<Rightarrow> bool) \<Rightarrow> ('p \<Rightarrow> 'p \<Rightarrow> bool) \<Rightarrow> 'p \<times> nat \<Rightarrow> 'p \<times> nat \<Rightarrow> bool" where
  "sharded_pos_less is_npos lt lhs rhs = (
     if is_npos (fst lhs) then \<not> is_npos (fst rhs)
     else if is_npos (fst rhs) then False
     else snd lhs < snd rhs \<or> snd lhs = snd rhs \<and> lt (fst lhs) (fst rhs))"

definition sharded_npos :: "('k, 'v, 'c, 'p, 'q, 'h, 'i) container \<Rightarrow> 'c list \<Rightarrow> 'p \<times> nat" where
  "sharded_npos C s = (ct_read_npos C (last s), length s - 1)"

section \<open>Lookup\<close>

definition sharded_contains :: "('k, 'v, 'c, 'p, 'q, 'h, 'i) container \<Rightarrow> 'k \<Rightarrow> 'c list \<Rightarrow> (bool \<times> 'c list) res" where
  "sharded_contains C key s = on_shard (to_shard_idx C s key) (ct_contains C key) s"

definition sharded_contains_hint ::
    "check_level \<Rightarrow> ('k, 'v, 'c, 'p, 'q, 'h, 'i) container \<Rightarrow> 'k \<Rightarrow> 'h \<times> nat \<Rightarrow> 'c list \<Rightarrow> (bool \<times> 'c list) res" where
  "sharded_contains_hint lvl C key hint s = bind_res (hint_shard_idx lvl C s key hint)
     (\<lambda>i. on_shard i (ct_contains_hint C key (fst hint)) s)"

definition sharded_find ::
    "('k, 'v, 'c, 'p, 'q, 'h, 'i) container \<Rightarrow> 'k \<Rightarrow> 'c list \<Rightarrow> (('p \<times> nat) \<times> 'c list) res" where
  "sharded_find C key s = (let i = to_shard_idx C s key
     in map_res (\<lambda>(p, s). (tag_pos i p, s)) (on_shard i (ct_find C key) s))"

definition sharded_find_hint ::
    "check_level \<Rightarrow> ('k, 'v, 'c, 'p, 'q, 'h, 'i) container \<Rightarrow> 'k \<Rightarrow> 'h \<times> nat \<Rightarrow> 'c list \<Rightarrow> (('p \<times> nat) \<times> 'c list) res" where
  "sharded_find_hint lvl C key hint s = bind_res (hint_shard_idx lvl C s key hint)
     (\<lambda>i. map_res (\<lambda>(p, s). (tag_pos i p, s)) (on_shard i (ct_find_hint C key (fst hint)) s))"

definition sharded_find_first ::
    "('k, 'v, 'c, 'p, 'q, 'h, 'i) container \<Rightarrow> 'k \<Rightarrow> 'c list \<Rightarrow> ((('p \<times> nat) \<times> 'q) \<times> 'c list) res" where
  "sharded_find_first C key s = (let i = to_shard_idx C s key
     in map_res (\<lambda>((p, seq), s). ((tag_pos i p, seq), s)) (on_shard i (ct_find_first C key) s))"

definition sharded_find_next ::
    "check_level \<Rightarrow> ('k, 'v, 'c, 'p, 'q, 'h, 'i) container \<Rightarrow> 'p \<times> nat \<Rightarrow> 'q \<Rightarrow> 'k \<Rightarrow> 'c list
      \<Rightarrow> ((('p \<times> nat) \<times> 'q) \<times> 'c list) res" where
  "sharded_find_next lvl C pos seq key s = bind_res (pos_key_shard_idx lvl C s pos key)
     (\<lambda>i. map_res (\<lambda>((p, seq), s). ((tag_pos i p, seq), s)) (on_shard i (ct_find_next C (fst pos) seq key) s))"

fun find_if_shards ::
    "('k, 'v, 'c, 'p, 'q, 'h, 'i) container \<Rightarrow> ('p \<times> nat \<Rightarrow> bool) \<Rightarrow> 'p \<times> nat \<Rightarrow> nat \<Rightarrow> 'c list \<Rightarrow> ('p \<times> nat) res" where
  "find_if_shards C pred none i [] = ret none"
| "find_if_shards C pred none i (c # cs) = bind_res (ct_find_if C (\<lambda>p. pred (tag_pos i p)) c)
     (\<lambda>p. if \<not> ct_is_npos C p then ret (tag_pos i p) else find_if_shards C pred none (i + 1) cs)"

definition sharded_find_if ::
    "('k, 'v, 'c, 'p, 'q, 'h, 'i) container \<Rightarrow> ('p \<times> nat \<Rightarrow> bool) \<Rightarrow> 'c list \<Rightarrow> ('p \<times> nat) res" where
  "sharded_find_if C pred s = find_if_shards C pred (sharded_npos C s) 0 s"

definition sharded_find_all ::
    "('k, 'v, 'c, 'p, 'q, 'h, 'i) container \<Rightarrow> 'k \<Rightarrow> 'c list \<Rightarrow> ('p \<times> nat) list res" where
  "sharded_find_all C key s = (let i = to_shard_idx C s key in map_res (map (tag_pos i)) (ct_find_all C key (s ! i)))"

definition sharded_all_values_for :: "('k, 'v, 'c, 'p, 'q, 'h, 'i) container \<Rightarrow> 'k \<Rightarrow> 'c list \<Rightarrow> 'v list res" where
  "sharded_all_values_for C key s = ct_all_values_for C key (s ! to_shard_idx C s key)"

definition sharded_all_blobs_for :: "('k, 'v, 'c, 'p, 'q, 'h, 'i) container \<Rightarrow> 'k \<Rightarrow> 'c list \<Rightarrow> u8 list res" where
  "sharded_all_blobs_for C key s = ct_all_blobs_for C key (s ! to_shard_idx C s key)"

definition sharded_count :: "('k, 'v, 'c, 'p, 'q, 'h, 'i) container \<Rightarrow> 'k \<Rightarrow> 'c list \<Rightarrow> int res" where
  "sharded_count C key s = ct_count C key (s ! to_shard_idx C s key)"

definition sharded_count_if :: "('k, 'v, 'c, 'p, 'q, 'h, 'i) container \<Rightarrow> ('p \<times> nat \<Rightarrow> bool) \<Rightarrow> 'c list \<Rightarrow> int res" where
  "sharded_count_if C pred s = map_res sum_list (for_each_shard (\<lambda>i. ct_count_if C (\<lambda>p. pred (tag_pos i p))) 0 s)"

definition sharded_for_each :: "('k, 'v, 'c, 'p, 'q, 'h, 'i) container \<Rightarrow> 'c list \<Rightarrow> ('p \<times> nat) list res" where
  "sharded_for_each C s = map_res concat (for_each_shard (\<lambda>i c. map_res (map (tag_pos i)) (ct_for_each C c)) 0 s)"

definition sharded_for_each_of ::
    "('k, 'v, 'c, 'p, 'q, 'h, 'i) container \<Rightarrow> 'k \<Rightarrow> 'c list \<Rightarrow> (('p \<times> nat) \<times> 'q) list res" where
  "sharded_for_each_of C key s = (let i = to_shard_idx C s key
     in map_res (map (\<lambda>(p, seq). (tag_pos i p, seq))) (ct_for_each_of C key (s ! i)))"

definition sharded_for_each_entry :: "('k, 'v, 'c, 'p, 'q, 'h, 'i) container \<Rightarrow> 'c list \<Rightarrow> ('k \<times> 'v \<times> u8 list) list res" where
  "sharded_for_each_entry C s = map_res concat (for_each_shard (\<lambda>_. ct_for_each_entry C) 0 s)"

section \<open>Access by position\<close>

text \<open>Every access goes to the shard of the position: \<open>at\<close>, \<open>key_at\<close>, \<open>value_at\<close>, \<open>state_at\<close> and so on.\<close>

definition at_shard :: "check_level \<Rightarrow> ('p \<Rightarrow> 'c \<Rightarrow> 'a res) \<Rightarrow> 'p \<times> nat \<Rightarrow> 'c list \<Rightarrow> 'a res" where
  "at_shard lvl f pos s = bind_res (pos_shard_idx lvl s pos) (\<lambda>i. f (fst pos) (s ! i))"

definition set_at_shard :: "check_level \<Rightarrow> ('p \<Rightarrow> 'c \<Rightarrow> 'c res) \<Rightarrow> 'p \<times> nat \<Rightarrow> 'c list \<Rightarrow> 'c list res" where
  "set_at_shard lvl f pos s = bind_res (pos_shard_idx lvl s pos) (\<lambda>i. map_res (\<lambda>c. s[i := c]) (f (fst pos) (s ! i)))"

definition sharded_at :: "check_level \<Rightarrow> ('k, 'v, 'c, 'p, 'q, 'h, 'i) container \<Rightarrow> 'p \<times> nat \<Rightarrow> 'c list \<Rightarrow> ('k \<times> 'v \<times> u8 list) res" where
  "sharded_at lvl C = at_shard lvl (ct_at C)"

definition sharded_contains_at :: "check_level \<Rightarrow> ('k, 'v, 'c, 'p, 'q, 'h, 'i) container \<Rightarrow> 'p \<times> nat \<Rightarrow> 'c list \<Rightarrow> bool res" where
  "sharded_contains_at lvl C = at_shard lvl (ct_contains_at C)"

definition sharded_key_at :: "check_level \<Rightarrow> ('k, 'v, 'c, 'p, 'q, 'h, 'i) container \<Rightarrow> 'p \<times> nat \<Rightarrow> 'c list \<Rightarrow> 'k res" where
  "sharded_key_at lvl C = at_shard lvl (ct_key_at C)"

definition sharded_value_at :: "check_level \<Rightarrow> ('k, 'v, 'c, 'p, 'q, 'h, 'i) container \<Rightarrow> 'p \<times> nat \<Rightarrow> 'c list \<Rightarrow> 'v res" where
  "sharded_value_at lvl C = at_shard lvl (ct_value_at C)"

definition sharded_blob_at :: "check_level \<Rightarrow> ('k, 'v, 'c, 'p, 'q, 'h, 'i) container \<Rightarrow> 'p \<times> nat \<Rightarrow> 'c list \<Rightarrow> u8 list res" where
  "sharded_blob_at lvl C = at_shard lvl (ct_blob_at C)"

definition sharded_lru_at :: "check_level \<Rightarrow> ('k, 'v, 'c, 'p, 'q, 'h, 'i) container \<Rightarrow> 'p \<times> nat \<Rightarrow> 'c list \<Rightarrow> lru_t res" where
  "sharded_lru_at lvl C = at_shard lvl (ct_lru_at C)"

definition sharded_state_at :: "check_level \<Rightarrow> ('k, 'v, 'c, 'p, 'q, 'h, 'i) container \<Rightarrow> 'p \<times> nat \<Rightarrow> 'c list \<Rightarrow> state_t res" where
  "sharded_state_at lvl C = at_shard lvl (ct_state_at C)"

definition sharded_bucket_size_at :: "check_level \<Rightarrow> ('k, 'v, 'c, 'p, 'q, 'h, 'i) container \<Rightarrow> 'p \<times> nat \<Rightarrow> 'c list \<Rightarrow> nat res" where
  "sharded_bucket_size_at lvl C = at_shard lvl (ct_bucket_size_at C)"

definition sharded_bucket_num_empty_slots_at :: "check_level \<Rightarrow> ('k, 'v, 'c, 'p, 'q, 'h, 'i) container \<Rightarrow> 'p \<times> nat \<Rightarrow> 'c list \<Rightarrow> nat res" where
  "sharded_bucket_num_empty_slots_at lvl C = at_shard lvl (ct_bucket_num_empty_slots_at C)"

definition sharded_bucket_num_tombstone_slots_at :: "check_level \<Rightarrow> ('k, 'v, 'c, 'p, 'q, 'h, 'i) container \<Rightarrow> 'p \<times> nat \<Rightarrow> 'c list \<Rightarrow> nat res" where
  "sharded_bucket_num_tombstone_slots_at lvl C = at_shard lvl (ct_bucket_num_tombstone_slots_at C)"

definition sharded_get_blob_at :: "check_level \<Rightarrow> ('k, 'v, 'c, 'p, 'q, 'h, 'i) container \<Rightarrow> 'p \<times> nat \<Rightarrow> int \<Rightarrow> 'c list \<Rightarrow> u8 list res" where
  "sharded_get_blob_at lvl C pos n = at_shard lvl (\<lambda>p. ct_get_blob_at C p n) pos"

definition sharded_set_value_at :: "check_level \<Rightarrow> ('k, 'v, 'c, 'p, 'q, 'h, 'i) container \<Rightarrow> 'p \<times> nat \<Rightarrow> 'v \<Rightarrow> 'c list \<Rightarrow> 'c list res" where
  "sharded_set_value_at lvl C pos v = set_at_shard lvl (\<lambda>p. ct_set_value_at C p v) pos"

definition sharded_set_blob_at :: "check_level \<Rightarrow> ('k, 'v, 'c, 'p, 'q, 'h, 'i) container \<Rightarrow> 'p \<times> nat \<Rightarrow> u8 list \<Rightarrow> 'c list \<Rightarrow> 'c list res" where
  "sharded_set_blob_at lvl C pos src = set_at_shard lvl (\<lambda>p. ct_set_blob_at C p src) pos"

definition sharded_set_blob_at_n ::
    "check_level \<Rightarrow> ('k, 'v, 'c, 'p, 'q, 'h, 'i) container \<Rightarrow> 'p \<times> nat \<Rightarrow> u8 list \<Rightarrow> int \<Rightarrow> 'c list \<Rightarrow> 'c list res" where
  "sharded_set_blob_at_n lvl C pos src n = set_at_shard lvl (\<lambda>p. ct_set_blob_at_n C p src n) pos"

lemmas sharded_access_defs = sharded_at_def sharded_contains_at_def sharded_key_at_def sharded_value_at_def sharded_blob_at_def
  sharded_lru_at_def sharded_state_at_def sharded_bucket_size_at_def sharded_bucket_num_empty_slots_at_def
  sharded_bucket_num_tombstone_slots_at_def sharded_get_blob_at_def sharded_set_value_at_def sharded_set_blob_at_def
  sharded_set_blob_at_n_def

section \<open>Totals\<close>

definition sharded_size :: "('k, 'v, 'c, 'p, 'q, 'h, 'i) container \<Rightarrow> 'c list \<Rightarrow> int" where
  "sharded_size C = sum_shards (ct_size C)"

definition sharded_capacity :: "('k, 'v, 'c, 'p, 'q, 'h, 'i) container \<Rightarrow> 'c list \<Rightarrow> int" where
  "sharded_capacity C = sum_shards (ct_capacity C)"

definition sharded_num_empty_slots :: "('k, 'v, 'c, 'p, 'q, 'h, 'i) container \<Rightarrow> 'c list \<Rightarrow> int" where
  "sharded_num_empty_slots C = sum_shards (ct_num_empty_slots C)"

definition sharded_num_tombstone_slots :: "('k, 'v, 'c, 'p, 'q, 'h, 'i) container \<Rightarrow> 'c list \<Rightarrow> int" where
  "sharded_num_tombstone_slots C = sum_shards (ct_num_tombstone_slots C)"

definition sharded_num_not_hash_slots :: "('k, 'v, 'c, 'p, 'q, 'h, 'i) container \<Rightarrow> 'c list \<Rightarrow> int" where
  "sharded_num_not_hash_slots C = sum_shards (ct_num_not_hash_slots C)"

definition sharded_is_empty :: "('k, 'v, 'c, 'p, 'q, 'h, 'i) container \<Rightarrow> 'c list \<Rightarrow> bool" where
  "sharded_is_empty C s = list_all (ct_is_empty C) s"

definition sharded_is_full :: "('k, 'v, 'c, 'p, 'q, 'h, 'i) container \<Rightarrow> 'c list \<Rightarrow> bool" where
  "sharded_is_full C s = list_all (ct_is_full C) s"

definition sharded_check_integrity :: "('k, 'v, 'c, 'p, 'q, 'h, 'i) container \<Rightarrow> 'c list \<Rightarrow> bool" where
  "sharded_check_integrity C s = list_all (ct_check_integrity C) s"

definition sharded_kernel_populations :: "('k, 'v, 'c, 'p, 'q, 'h, 'i) container \<Rightarrow> 'c list \<Rightarrow> int list \<Rightarrow> int list" where
  "sharded_kernel_populations C s counts = fold (ct_kernel_populations C) s counts"

definition sharded_state_collisions :: "('k, 'v, 'c, 'p, 'q, 'h, 'i) container \<Rightarrow> 'c list \<Rightarrow> int list \<Rightarrow> int list" where
  "sharded_state_collisions C s counts = fold (ct_state_collisions C) s counts"

section \<open>Insertion and erasure\<close>

definition sharded_insert ::
    "('k, 'v, 'c, 'p, 'q, 'h, 'i) container \<Rightarrow> 'k \<Rightarrow> 'c list \<Rightarrow> ((('p \<times> nat) \<times> insert_op) \<times> 'c list) res" where
  "sharded_insert C key s = (let i = to_shard_idx C s key
     in map_res (\<lambda>((p, op), s). ((tag_pos i p, op), s)) (on_shard i (ct_insert C key) s))"

definition sharded_insert_hint ::
    "check_level \<Rightarrow> ('k, 'v, 'c, 'p, 'q, 'h, 'i) container \<Rightarrow> 'k \<Rightarrow> 'h \<times> nat \<Rightarrow> 'c list
      \<Rightarrow> ((('p \<times> nat) \<times> insert_op) \<times> 'c list) res" where
  "sharded_insert_hint lvl C key hint s = bind_res (hint_shard_idx lvl C s key hint)
     (\<lambda>i. map_res (\<lambda>((p, op), s). ((tag_pos i p, op), s)) (on_shard i (ct_insert_hint C key (fst hint)) s))"

definition sharded_insert_ex ::
    "('k, 'v, 'c, 'p, 'q, 'h, 'i) container \<Rightarrow> 'k \<Rightarrow> 'c list \<Rightarrow> ((('p \<times> nat) \<times> insert_op \<times> 'q) \<times> 'c list) res" where
  "sharded_insert_ex C key s = (let i = to_shard_idx C s key
     in map_res (\<lambda>((p, op, seq), s). ((tag_pos i p, op, seq), s)) (on_shard i (ct_insert_ex C key) s))"

definition sharded_subscript ::
    "('k, 'v, 'c, 'p, 'q, 'h, 'i) container \<Rightarrow> 'k \<Rightarrow> 'c list \<Rightarrow> (('p \<times> nat) \<times> 'c list) res" where
  "sharded_subscript C key s = (let i = to_shard_idx C s key
     in map_res (\<lambda>(p, s). (tag_pos i p, s)) (on_shard i (ct_subscript C key) s))"

definition sharded_erase :: "('k, 'v, 'c, 'p, 'q, 'h, 'i) container \<Rightarrow> 'k \<Rightarrow> 'c list \<Rightarrow> (bool \<times> 'c list) res" where
  "sharded_erase C key s = on_shard (to_shard_idx C s key) (ct_erase C key) s"

definition sharded_erase_hint ::
    "check_level \<Rightarrow> ('k, 'v, 'c, 'p, 'q, 'h, 'i) container \<Rightarrow> 'k \<Rightarrow> 'h \<times> nat \<Rightarrow> 'c list \<Rightarrow> (bool \<times> 'c list) res" where
  "sharded_erase_hint lvl C key hint s = bind_res (hint_shard_idx lvl C s key hint)
     (\<lambda>i. on_shard i (ct_erase_hint C key (fst hint)) s)"

definition sharded_erase_first ::
    "('k, 'v, 'c, 'p, 'q, 'h, 'i) container \<Rightarrow> 'k \<Rightarrow> 'c list \<Rightarrow> ((bool \<times> ('p \<times> nat) \<times> 'q) \<times> 'c list) res" where
  "sharded_erase_first C key s = (let i = to_shard_idx C s key
     in map_res (\<lambda>((b, p, seq), s). ((b, tag_pos i p, seq), s)) (on_shard i (ct_erase_first C key) s))"

definition sharded_erase_next ::
    "check_level \<Rightarrow> ('k, 'v, 'c, 'p, 'q, 'h, 'i) container \<Rightarrow> 'p \<times> nat \<Rightarrow> 'q \<Rightarrow> 'k \<Rightarrow> 'c list
      \<Rightarrow> ((bool \<times> ('p \<times> nat) \<times> 'q) \<times> 'c list) res" where
  "sharded_erase_next lvl C pos seq key s = bind_res (pos_key_shard_idx lvl C s pos key)
     (\<lambda>i. map_res (\<lambda>((b, p, seq), s). ((b, tag_pos i p, seq), s)) (on_shard i (ct_erase_next C (fst pos) seq key) s))"

definition sharded_erase_at ::
    "check_level \<Rightarrow> ('k, 'v, 'c, 'p, 'q, 'h, 'i) container \<Rightarrow> 'p \<times> nat \<Rightarrow> 'c list \<Rightarrow> ((bool \<times> ('p \<times> nat)) \<times> 'c list) res" where
  "sharded_erase_at lvl C pos s = bind_res (pos_shard_idx lvl s pos)
     (\<lambda>i. map_res (\<lambda>((b, p), s). ((b, tag_pos (snd pos) p), s)) (on_shard i (ct_erase_at C (fst pos)) s))"

fun erase_if_shards ::
    "('k, 'v, 'c, 'p, 'q, 'h, 'i) container \<Rightarrow> ('p \<times> nat \<Rightarrow> bool) \<Rightarrow> nat \<Rightarrow> 'c list \<Rightarrow> (int \<times> 'c list) res" where
  "erase_if_shards C pred i [] = ret (0, [])"
| "erase_if_shards C pred i (c # cs) = bind_res (ct_erase_if C (\<lambda>p. pred (tag_pos i p)) c)
     (\<lambda>(n, c'). map_res (\<lambda>(m, cs'). (n + m, c' # cs')) (erase_if_shards C pred (i + 1) cs))"

definition sharded_erase_if ::
    "('k, 'v, 'c, 'p, 'q, 'h, 'i) container \<Rightarrow> ('p \<times> nat \<Rightarrow> bool) \<Rightarrow> 'c list \<Rightarrow> (int \<times> 'c list) res" where
  "sharded_erase_if C pred s = erase_if_shards C pred 0 s"

definition sharded_erase_all :: "('k, 'v, 'c, 'p, 'q, 'h, 'i) container \<Rightarrow> 'k \<Rightarrow> 'c list \<Rightarrow> (int \<times> 'c list) res" where
  "sharded_erase_all C key s = on_shard (to_shard_idx C s key) (ct_erase_all C key) s"

section \<open>Capacity\<close>

definition sharded_clear :: "('k, 'v, 'c, 'p, 'q, 'h, 'i) container \<Rightarrow> 'c list \<Rightarrow> (int \<times> 'c list) res" where
  "sharded_clear C s = each_shard (ct_clear C) s"

definition sharded_clear_to :: "('k, 'v, 'c, 'p, 'q, 'h, 'i) container \<Rightarrow> int \<Rightarrow> 'c list \<Rightarrow> (int \<times> 'c list) res" where
  "sharded_clear_to C new_capacity s = each_shard (ct_clear_to C (ceil_div new_capacity (int (length s)))) s"

definition sharded_grow :: "('k, 'v, 'c, 'p, 'q, 'h, 'i) container \<Rightarrow> 'c list \<Rightarrow> (int \<times> 'c list) res" where
  "sharded_grow C s = each_shard (ct_grow C) s"

definition sharded_reserve :: "('k, 'v, 'c, 'p, 'q, 'h, 'i) container \<Rightarrow> int \<Rightarrow> 'c list \<Rightarrow> (int \<times> 'c list) res" where
  "sharded_reserve C new_capacity s = each_shard (ct_reserve C (ceil_div new_capacity (int (length s)))) s"

definition sharded_resize :: "('k, 'v, 'c, 'p, 'q, 'h, 'i) container \<Rightarrow> int \<Rightarrow> 'c list \<Rightarrow> (int \<times> 'c list) res" where
  "sharded_resize C new_capacity s = each_shard (ct_resize C (ceil_div new_capacity (int (length s)))) s"

definition sharded_shrink :: "('k, 'v, 'c, 'p, 'q, 'h, 'i) container \<Rightarrow> 'c list \<Rightarrow> (int \<times> 'c list) res" where
  "sharded_shrink C s = each_shard (ct_shrink C) s"

definition sharded_scrub :: "('k, 'v, 'c, 'p, 'q, 'h, 'i) container \<Rightarrow> lru_t \<Rightarrow> 'c list \<Rightarrow> (int \<times> 'c list) res" where
  "sharded_scrub C threshold s = each_shard (ct_scrub C threshold) s"

text \<open>\<open>operator==\<close> compares the vectors of shards.\<close>

fun sharded_equal :: "('k, 'v, 'c, 'p, 'q, 'h, 'i) container \<Rightarrow> 'c list \<Rightarrow> 'c list \<Rightarrow> bool res" where
  "sharded_equal C [] [] = ret True"
| "sharded_equal C (c # cs) (d # ds) = (
     if length cs \<noteq> length ds then ret False
     else bind_res (ct_equal C c d) (\<lambda>b. if b then sharded_equal C cs ds else ret False))"
| "sharded_equal C _ _ = ret False"

section \<open>Iterators\<close>

function next_shard :: "('k, 'v, 'c, 'p, 'q, 'h, 'i) container \<Rightarrow> 'c list \<Rightarrow> 'i \<times> nat \<Rightarrow> 'i \<times> nat" where
  "next_shard C s (it, i) = (
     if i < length s - 1
     then let it' = ct_begin C (s ! (i + 1))
          in if \<not> ct_is_right C (s ! (i + 1)) it' then (it', i + 1) else next_shard C s (it', i + 1)
     else (it, i))"
  by pat_completeness auto
termination by (relation "measure (\<lambda>(C, s, it, i). length s - i)") auto

declare next_shard.simps [simp del]

definition sharded_inc :: "('k, 'v, 'c, 'p, 'q, 'h, 'i) container \<Rightarrow> 'c list \<Rightarrow> 'i \<times> nat \<Rightarrow> 'i \<times> nat" where
  "sharded_inc C s x = (let (it, i) = x; it' = ct_inc C (s ! i) it
     in if ct_is_right C (s ! i) it' then next_shard C s (it', i) else (it', i))"

fun prev_shard :: "('k, 'v, 'c, 'p, 'q, 'h, 'i) container \<Rightarrow> 'c list \<Rightarrow> 'i \<Rightarrow> nat \<Rightarrow> 'i \<times> nat" where
  "prev_shard C s it 0 = (it, 0)"
| "prev_shard C s it (Suc i) = (let it' = ct_dec C (s ! i) (ct_end C (s ! i))
     in if \<not> ct_is_left C (s ! i) it' then (it', i) else prev_shard C s it' i)"

definition sharded_dec :: "('k, 'v, 'c, 'p, 'q, 'h, 'i) container \<Rightarrow> 'c list \<Rightarrow> 'i \<times> nat \<Rightarrow> 'i \<times> nat" where
  "sharded_dec C s x = (let (it, i) = x; it' = ct_dec C (s ! i) it
     in if ct_is_left C (s ! i) it' then prev_shard C s it' i else (it', i))"

definition sharded_iter_add :: "('k, 'v, 'c, 'p, 'q, 'h, 'i) container \<Rightarrow> 'c list \<Rightarrow> 'i \<times> nat \<Rightarrow> int \<Rightarrow> 'i \<times> nat" where
  "sharded_iter_add C s x n = (if n > 0 then (sharded_inc C s ^^ nat n) x else (sharded_dec C s ^^ nat (- n)) x)"

definition sharded_end :: "('k, 'v, 'c, 'p, 'q, 'h, 'i) container \<Rightarrow> 'c list \<Rightarrow> 'i \<times> nat" where
  "sharded_end C s = (ct_end C (last s), length s - 1)"

fun begin_from :: "('k, 'v, 'c, 'p, 'q, 'h, 'i) container \<Rightarrow> 'i \<times> nat \<Rightarrow> nat \<Rightarrow> 'c list \<Rightarrow> 'i \<times> nat" where
  "begin_from C e i [] = e"
| "begin_from C e i (c # cs) = (let it = ct_begin C c in if \<not> ct_is_right C c it then (it, i) else begin_from C e (i + 1) cs)"

definition sharded_begin :: "('k, 'v, 'c, 'p, 'q, 'h, 'i) container \<Rightarrow> 'c list \<Rightarrow> 'i \<times> nat" where
  "sharded_begin C s = begin_from C (sharded_end C s) 0 s"

definition sharded_is_left :: "('k, 'v, 'c, 'p, 'q, 'h, 'i) container \<Rightarrow> 'c list \<Rightarrow> 'i \<times> nat \<Rightarrow> bool" where
  "sharded_is_left C s x \<longleftrightarrow> snd x = 0 \<and> ct_is_left C (s ! snd x) (fst x)"

definition sharded_is_right :: "('k, 'v, 'c, 'p, 'q, 'h, 'i) container \<Rightarrow> 'c list \<Rightarrow> 'i \<times> nat \<Rightarrow> bool" where
  "sharded_is_right C s x \<longleftrightarrow> length s - 1 \<le> snd x \<and> ct_is_right C (s ! snd x) (fst x)"

definition sharded_iter_less :: "('k, 'v, 'c, 'p, 'q, 'h, 'i) container \<Rightarrow> 'i \<times> nat \<Rightarrow> 'i \<times> nat \<Rightarrow> bool" where
  "sharded_iter_less C lhs rhs \<longleftrightarrow> snd lhs < snd rhs \<or> snd lhs = snd rhs \<and> ct_iter_less C (fst lhs) (fst rhs)"

definition sharded_iter_entry :: "('k, 'v, 'c, 'p, 'q, 'h, 'i) container \<Rightarrow> 'c list \<Rightarrow> 'i \<times> nat \<Rightarrow> 'k \<times> 'v \<times> u8 list" where
  "sharded_iter_entry C s x = ct_iter_entry C (s ! snd x) (fst x)"

definition sharded_to_iterator ::
    "check_level \<Rightarrow> ('k, 'v, 'c, 'p, 'q, 'h, 'i) container \<Rightarrow> 'p \<times> nat \<Rightarrow> 'c list \<Rightarrow> ('i \<times> nat) res" where
  "sharded_to_iterator lvl C pos s = bind_res (pos_shard_idx lvl s pos)
     (\<lambda>i. map_res (\<lambda>it. (it, i)) (ct_to_iterator C (fst pos) (s ! i)))"

section \<open>The container of shards\<close>

definition sharded_container ::
    "check_level \<Rightarrow> ('k, 'v, 'c, 'p, 'q, 'h, 'i) container \<Rightarrow> ('k, 'v, 'c list, 'p \<times> nat, 'q, 'h \<times> nat, 'i \<times> nat) container" where
  "sharded_container lvl C = \<lparr>
     ct_layout = ct_layout C,
     ct_key_hash = ct_key_hash C,
     ct_hint = sharded_hint C,
     ct_hint_hash = sharded_hint_hash C,
     ct_is_npos = (\<lambda>p. ct_is_npos C (fst p)),
     ct_read_npos = sharded_npos C,
     ct_contains = sharded_contains C,
     ct_contains_hint = sharded_contains_hint lvl C,
     ct_find = sharded_find C,
     ct_find_hint = sharded_find_hint lvl C,
     ct_find_first = sharded_find_first C,
     ct_find_next = sharded_find_next lvl C,
     ct_find_if = sharded_find_if C,
     ct_find_all = sharded_find_all C,
     ct_all_values_for = sharded_all_values_for C,
     ct_all_blobs_for = sharded_all_blobs_for C,
     ct_count = sharded_count C,
     ct_count_if = sharded_count_if C,
     ct_for_each = sharded_for_each C,
     ct_for_each_of = sharded_for_each_of C,
     ct_for_each_entry = sharded_for_each_entry C,
     ct_at = sharded_at lvl C,
     ct_contains_at = sharded_contains_at lvl C,
     ct_key_at = sharded_key_at lvl C,
     ct_value_at = sharded_value_at lvl C,
     ct_blob_at = sharded_blob_at lvl C,
     ct_get_blob_at = sharded_get_blob_at lvl C,
     ct_lru_at = sharded_lru_at lvl C,
     ct_state_at = sharded_state_at lvl C,
     ct_bucket_size_at = sharded_bucket_size_at lvl C,
     ct_bucket_num_empty_slots_at = sharded_bucket_num_empty_slots_at lvl C,
     ct_bucket_num_tombstone_slots_at = sharded_bucket_num_tombstone_slots_at lvl C,
     ct_set_value_at = sharded_set_value_at lvl C,
     ct_set_blob_at = sharded_set_blob_at lvl C,
     ct_set_blob_at_n = sharded_set_blob_at_n lvl C,
     ct_size = sharded_size C,
     ct_capacity = sharded_capacity C,
     ct_num_empty_slots = sharded_num_empty_slots C,
     ct_num_tombstone_slots = sharded_num_tombstone_slots C,
     ct_num_not_hash_slots = sharded_num_not_hash_slots C,
     ct_is_empty = sharded_is_empty C,
     ct_is_full = sharded_is_full C,
     ct_check_integrity = sharded_check_integrity C,
     ct_kernel_populations = sharded_kernel_populations C,
     ct_state_collisions = sharded_state_collisions C,
     ct_insert = sharded_insert C,
     ct_insert_hint = sharded_insert_hint lvl C,
     ct_insert_ex = sharded_insert_ex C,
     ct_subscript = sharded_subscript C,
     ct_erase = sharded_erase C,
     ct_erase_hint = sharded_erase_hint lvl C,
     ct_erase_first = sharded_erase_first C,
     ct_erase_next = sharded_erase_next lvl C,
     ct_erase_at = sharded_erase_at lvl C,
     ct_erase_if = sharded_erase_if C,
     ct_erase_all = sharded_erase_all C,
     ct_clear = sharded_clear C,
     ct_clear_to = sharded_clear_to C,
     ct_grow = sharded_grow C,
     ct_reserve = sharded_reserve C,
     ct_resize = sharded_resize C,
     ct_shrink = sharded_shrink C,
     ct_scrub = sharded_scrub C,
     ct_equal = sharded_equal C,
     ct_begin = sharded_begin C,
     ct_end = sharded_end C,
     ct_inc = sharded_inc C,
     ct_dec = sharded_dec C,
     ct_is_left = sharded_is_left C,
     ct_is_right = sharded_is_right C,
     ct_iter_less = sharded_iter_less C,
     ct_iter_entry = sharded_iter_entry C,
     ct_to_iterator = sharded_to_iterator lvl C\<rparr>"

lemma sharded_container_simps [simp]:
  "ct_contains (sharded_container lvl C) = sharded_contains C" "ct_find (sharded_container lvl C) = sharded_find C"
  "ct_is_npos (sharded_container lvl C) p \<longleftrightarrow> ct_is_npos C (fst p)"
  "ct_at (sharded_container lvl C) = at_shard lvl (ct_at C)" "ct_key_at (sharded_container lvl C) = at_shard lvl (ct_key_at C)"
  "ct_count (sharded_container lvl C) = sharded_count C" "ct_size (sharded_container lvl C) = sharded_size C"
  "ct_capacity (sharded_container lvl C) = sharded_capacity C" "ct_is_empty (sharded_container lvl C) = sharded_is_empty C"
  "ct_begin (sharded_container lvl C) = sharded_begin C" "ct_end (sharded_container lvl C) = sharded_end C"
  "ct_inc (sharded_container lvl C) = sharded_inc C" "ct_is_right (sharded_container lvl C) = sharded_is_right C"
  "ct_iter_entry (sharded_container lvl C) = sharded_iter_entry C" "ct_equal (sharded_container lvl C) = sharded_equal C"
  "ct_key_hash (sharded_container lvl C) = ct_key_hash C" "ct_layout (sharded_container lvl C) = ct_layout C"
  "ct_to_iterator (sharded_container lvl C) = sharded_to_iterator lvl C"
  by (simp_all add: sharded_container_def sharded_access_defs)

lemma sharded_exec_simps [simp]:
  "ct_insert (sharded_container lvl C) = sharded_insert C" "ct_subscript (sharded_container lvl C) = sharded_subscript C"
  "ct_set_value_at (sharded_container lvl C) pos v = set_at_shard lvl (\<lambda>p. ct_set_value_at C p v) pos"
  "ct_erase (sharded_container lvl C) = sharded_erase C" "ct_erase_if (sharded_container lvl C) = sharded_erase_if C"
  "ct_erase_all (sharded_container lvl C) = sharded_erase_all C" "ct_clear (sharded_container lvl C) = sharded_clear C"
  "ct_clear_to (sharded_container lvl C) = sharded_clear_to C" "ct_grow (sharded_container lvl C) = sharded_grow C"
  "ct_reserve (sharded_container lvl C) = sharded_reserve C" "ct_resize (sharded_container lvl C) = sharded_resize C"
  "ct_shrink (sharded_container lvl C) = sharded_shrink C" "ct_scrub (sharded_container lvl C) = sharded_scrub C"
  by (simp_all add: sharded_container_def sharded_access_defs)

end
