(* ===== verification/Guarded.thy ===== *)
theory Guarded
  imports Locks Sharded
begin

text \<open>
  \<open>guarded<Inner>\<close> of guarded.hpp: a container with a reader-writer lock. Each member is a \<open>member\<close>: how it
  is entered (it takes the lock, in shared or exclusive mode, or it uses the lock of a position the
  caller passes), what it does with the inner container, and how many locks its result takes away from
  the scope that releases the lock. \<open>me\<close> is the mutex of the object. Positions and iterators carry a lock
  object; the members that take one check that it is of this mutex, not that it owns the lock.
\<close>

section \<open>Members\<close>

datatype lock_mode = Reading | Writing

datatype lock_entry = Take lock_mode | Use lock_mode

fun entry_mode :: "lock_entry \<Rightarrow> lock_mode" where
  "entry_mode (Take mode) = mode"
| "entry_mode (Use mode) = mode"

record ('c, 'r) member =
  mb_entry :: lock_entry
  mb_body :: "'c \<Rightarrow> ('r \<times> 'c) res"
  mb_keeps :: "'r \<Rightarrow> nat"

definition reads :: "('c \<Rightarrow> ('r \<times> 'c) res) \<Rightarrow> ('c, 'r) member" where
  "reads f = \<lparr>mb_entry = Take Reading, mb_body = f, mb_keeps = (\<lambda>_. 0)\<rparr>"

definition writes :: "('c \<Rightarrow> ('r \<times> 'c) res) \<Rightarrow> ('c, 'r) member" where
  "writes f = \<lparr>mb_entry = Take Writing, mb_body = f, mb_keeps = (\<lambda>_. 0)\<rparr>"

text \<open>The lock is moved into the result.\<close>

definition reads_keep :: "('c \<Rightarrow> ('r \<times> 'c) res) \<Rightarrow> ('c, 'r) member" where
  "reads_keep f = \<lparr>mb_entry = Take Reading, mb_body = f, mb_keeps = (\<lambda>_. 1)\<rparr>"

definition writes_keep :: "('c \<Rightarrow> ('r \<times> 'c) res) \<Rightarrow> ('c, 'r) member" where
  "writes_keep f = \<lparr>mb_entry = Take Writing, mb_body = f, mb_keeps = (\<lambda>_. 1)\<rparr>"

definition asks :: "('c \<Rightarrow> 'r) \<Rightarrow> ('c, 'r) member" where
  "asks g = reads (\<lambda>s. ret (g s, s))"

definition queries :: "('c \<Rightarrow> 'r res) \<Rightarrow> ('c, 'r) member" where
  "queries f = reads (\<lambda>s. keeping_res s (f s))"

section \<open>Positions\<close>

record 'p guarded_pos =
  gp_inner :: 'p
  gp_lock :: lock_obj

definition locked_pos :: "nat \<Rightarrow> 'p \<Rightarrow> 'p guarded_pos" where
  "locked_pos me p = \<lparr>gp_inner = p, gp_lock = adopt_lock me\<rparr>"

definition deferred_pos :: "nat \<Rightarrow> 'p \<Rightarrow> 'p guarded_pos" where
  "deferred_pos me p = \<lparr>gp_inner = p, gp_lock = defer_lock me\<rparr>"

definition bare_pos :: "'p \<Rightarrow> 'p guarded_pos" where
  "bare_pos p = \<lparr>gp_inner = p, gp_lock = no_lock\<rparr>"

definition guarded_pos_eq :: "'p guarded_pos \<Rightarrow> 'p guarded_pos \<Rightarrow> bool" where
  "guarded_pos_eq lhs rhs \<longleftrightarrow> gp_inner lhs = gp_inner rhs"

definition downgrade_pos :: "'p guarded_pos \<Rightarrow> mutex_call list \<times> 'p guarded_pos" where
  "downgrade_pos pos = (let (calls, lock) = downgrade_lock True (gp_lock pos) in (calls, pos\<lparr>gp_lock := lock\<rparr>))"

text \<open>A member that works at a position of the caller.\<close>

definition at_pos ::
    "lock_mode \<Rightarrow> check_level \<Rightarrow> nat \<Rightarrow> 'p guarded_pos \<Rightarrow> ('p \<Rightarrow> 'c \<Rightarrow> ('r \<times> 'c) res) \<Rightarrow> ('c, 'r) member" where
  "at_pos mode lvl me pos f = \<lparr>
     mb_entry = Use mode,
     mb_body = (\<lambda>s. bind_res (Some (nvhm_assume lvl (lo_mutex (gp_lock pos) = Some me) (gp_inner pos))) (\<lambda>p. f p s)),
     mb_keeps = (\<lambda>_. 0)\<rparr>"

definition ask_at :: "check_level \<Rightarrow> nat \<Rightarrow> ('p \<Rightarrow> 'c \<Rightarrow> 'r res) \<Rightarrow> 'p guarded_pos \<Rightarrow> ('c, 'r) member" where
  "ask_at lvl me f pos = at_pos Reading lvl me pos (\<lambda>p s. keeping_res s (f p s))"

definition set_at :: "check_level \<Rightarrow> nat \<Rightarrow> ('p \<Rightarrow> 'c \<Rightarrow> 'c res) \<Rightarrow> 'p guarded_pos \<Rightarrow> ('c, unit) member" where
  "set_at lvl me f pos = at_pos Writing lvl me pos (\<lambda>p s. map_res (\<lambda>s. ((), s)) (f p s))"

section \<open>Lookup\<close>

definition guarded_all_blobs_for where
  "guarded_all_blobs_for C key = queries (ct_all_blobs_for C key)"

definition guarded_all_values_for where
  "guarded_all_values_for C key = queries (ct_all_values_for C key)"

definition guarded_contains where
  "guarded_contains C key = reads (ct_contains C key)"

definition guarded_contains_hint where
  "guarded_contains_hint C key hint = reads (ct_contains_hint C key hint)"

definition guarded_count where
  "guarded_count C key = queries (ct_count C key)"

definition guarded_count_if where
  "guarded_count_if C me pred = queries (ct_count_if C (\<lambda>p. pred (deferred_pos me p)))"

definition guarded_kernel_populations where
  "guarded_kernel_populations C counts = asks (\<lambda>s. ct_kernel_populations C s counts)"

definition guarded_state_collisions where
  "guarded_state_collisions C counts = asks (\<lambda>s. ct_state_collisions C s counts)"

definition guarded_find where
  "guarded_find C me key = reads_keep (\<lambda>s. map_res (\<lambda>(p, s). (locked_pos me p, s)) (ct_find C key s))"

definition guarded_find_hint where
  "guarded_find_hint C me key hint = reads_keep (\<lambda>s. map_res (\<lambda>(p, s). (locked_pos me p, s)) (ct_find_hint C key hint s))"

definition guarded_find_first where
  "guarded_find_first C me key = reads_keep (\<lambda>s.
     map_res (\<lambda>((p, seq), s). ((locked_pos me p, seq), s)) (ct_find_first C key s))"

definition guarded_find_next where
  "guarded_find_next lvl C me pos seq key = at_pos Reading lvl me pos (\<lambda>p s.
     map_res (\<lambda>((p, seq), s). ((pos\<lparr>gp_inner := p\<rparr>, seq), s)) (ct_find_next C p seq key s))"

text \<open>With a position that may write: its lock is downgraded first.\<close>

definition guarded_find_next_write where
  "guarded_find_next_write lvl C me pos seq key = (let (calls, pos) = downgrade_pos pos
     in (calls, guarded_find_next lvl C me pos seq key))"

definition guarded_find_if where
  "guarded_find_if C me pred = reads_keep (\<lambda>s.
     map_res (\<lambda>p. (locked_pos me p, s)) (ct_find_if C (\<lambda>p. pred (deferred_pos me p)) s))"

text \<open>Every position of \<open>find_all\<close> takes a shared lock of its own, those of \<open>update_all\<close> but the last none.\<close>

definition guarded_find_all where
  "guarded_find_all C me key = \<lparr>
     mb_entry = Take Reading,
     mb_body = (\<lambda>s. map_res (\<lambda>ps. (map (\<lambda>(p, seq). locked_pos me p) ps, s)) (ct_for_each_of C key s)),
     mb_keeps = length\<rparr>"

definition give_lock :: "nat \<Rightarrow> 'p guarded_pos list \<Rightarrow> 'p guarded_pos list" where
  "give_lock me ps = (if ps \<noteq> [] then ps[length ps - 1 := (last ps)\<lparr>gp_lock := adopt_lock me\<rparr>] else ps)"

definition guarded_update_all where
  "guarded_update_all C me key = \<lparr>
     mb_entry = Take Writing,
     mb_body = (\<lambda>s. map_res (\<lambda>ps. (give_lock me (map (\<lambda>(p, seq). deferred_pos me p) ps), s)) (ct_for_each_of C key s)),
     mb_keeps = (\<lambda>ps. if ps \<noteq> [] then 1 else 0)\<rparr>"

text \<open>What \<open>for_each\<close> passes to the function, and the kinds of \<open>for_each\<close> that write: \<open>func\<close> changes the container.\<close>

definition guarded_for_each where
  "guarded_for_each C me = queries (\<lambda>s. map_res (map (deferred_pos me)) (ct_for_each C s))"

definition guarded_for_each_of where
  "guarded_for_each_of C me key = queries (\<lambda>s.
     map_res (map (\<lambda>(p, seq). (deferred_pos me p, seq))) (ct_for_each_of C key s))"

definition guarded_for_each_entry where
  "guarded_for_each_entry C = queries (ct_for_each_entry C)"

fun apply_at :: "('p \<Rightarrow> 'c \<Rightarrow> 'c) \<Rightarrow> 'p list \<Rightarrow> 'c \<Rightarrow> 'c" where
  "apply_at func [] s = s"
| "apply_at func (p # ps) s = apply_at func ps (func p s)"

definition guarded_for_each_write where
  "guarded_for_each_write C me func = writes (\<lambda>s.
     map_res (\<lambda>ps. ((), apply_at func (map (deferred_pos me) ps) s)) (ct_for_each C s))"

definition guarded_for_each_of_write where
  "guarded_for_each_of_write C me key func = writes (\<lambda>s.
     map_res (\<lambda>ps. ((), apply_at (\<lambda>(p, seq). func p seq) (map (\<lambda>(p, seq). (deferred_pos me p, seq)) ps) s)) (ct_for_each_of C key s))"

text \<open>The \<open>update\<close> members of the inner containers are their \<open>find\<close> members.\<close>

definition guarded_update where
  "guarded_update C me key = writes_keep (\<lambda>s. map_res (\<lambda>(p, s). (locked_pos me p, s)) (ct_find C key s))"

definition guarded_update_hint where
  "guarded_update_hint C me key hint = writes_keep (\<lambda>s. map_res (\<lambda>(p, s). (locked_pos me p, s)) (ct_find_hint C key hint s))"

definition guarded_update_first where
  "guarded_update_first C me key = writes_keep (\<lambda>s.
     map_res (\<lambda>((p, seq), s). ((locked_pos me p, seq), s)) (ct_find_first C key s))"

definition guarded_update_next where
  "guarded_update_next lvl C me pos seq key = at_pos Writing lvl me pos (\<lambda>p s.
     map_res (\<lambda>((p, seq), s). ((pos\<lparr>gp_inner := p\<rparr>, seq), s)) (ct_find_next C p seq key s))"

definition guarded_update_if where
  "guarded_update_if C me pred = writes_keep (\<lambda>s.
     map_res (\<lambda>p. (locked_pos me p, s)) (ct_find_if C (\<lambda>p. pred (deferred_pos me p)) s))"

section \<open>Access by position\<close>

definition guarded_at where
  "guarded_at lvl C me = ask_at lvl me (ct_at C)"

definition guarded_contains_at where
  "guarded_contains_at lvl C me = ask_at lvl me (ct_contains_at C)"

definition guarded_key_at where
  "guarded_key_at lvl C me = ask_at lvl me (ct_key_at C)"

definition guarded_value_at where
  "guarded_value_at lvl C me = ask_at lvl me (ct_value_at C)"

definition guarded_blob_at where
  "guarded_blob_at lvl C me = ask_at lvl me (ct_blob_at C)"

definition guarded_get_blob_at where
  "guarded_get_blob_at lvl C me pos n = ask_at lvl me (\<lambda>p. ct_get_blob_at C p n) pos"

definition guarded_lru_at where
  "guarded_lru_at lvl C me = ask_at lvl me (ct_lru_at C)"

definition guarded_state_at where
  "guarded_state_at lvl C me = ask_at lvl me (ct_state_at C)"

definition guarded_bucket_size_at where
  "guarded_bucket_size_at lvl C me = ask_at lvl me (ct_bucket_size_at C)"

definition guarded_bucket_num_empty_slots_at where
  "guarded_bucket_num_empty_slots_at lvl C me = ask_at lvl me (ct_bucket_num_empty_slots_at C)"

definition guarded_bucket_num_tombstone_slots_at where
  "guarded_bucket_num_tombstone_slots_at lvl C me = ask_at lvl me (ct_bucket_num_tombstone_slots_at C)"

definition guarded_set_value_at where
  "guarded_set_value_at lvl C me pos v = set_at lvl me (\<lambda>p. ct_set_value_at C p v) pos"

definition guarded_set_blob_at where
  "guarded_set_blob_at lvl C me pos src = set_at lvl me (\<lambda>p. ct_set_blob_at C p src) pos"

definition guarded_set_blob_at_n where
  "guarded_set_blob_at_n lvl C me pos src n = set_at lvl me (\<lambda>p. ct_set_blob_at_n C p src n) pos"

section \<open>Sizes and checks\<close>

definition guarded_size where
  "guarded_size C = asks (ct_size C)"

definition guarded_capacity where
  "guarded_capacity C = asks (ct_capacity C)"

definition guarded_num_empty_slots where
  "guarded_num_empty_slots C = asks (ct_num_empty_slots C)"

definition guarded_num_not_hash_slots where
  "guarded_num_not_hash_slots C = asks (ct_num_not_hash_slots C)"

definition guarded_num_tombstone_slots where
  "guarded_num_tombstone_slots C = asks (ct_num_tombstone_slots C)"

definition guarded_is_empty where
  "guarded_is_empty C = asks (ct_is_empty C)"

definition guarded_is_full where
  "guarded_is_full C = asks (ct_is_full C)"

definition guarded_check_integrity where
  "guarded_check_integrity C = asks (ct_check_integrity C)"

definition guarded_prefetch where
  "guarded_prefetch C key = asks (\<lambda>s. ct_hint C s key)"

section \<open>Insertion and erasure\<close>

definition guarded_insert where
  "guarded_insert C me key = writes_keep (\<lambda>s. map_res (\<lambda>((p, op), s). ((locked_pos me p, op), s)) (ct_insert C key s))"

definition guarded_insert_hint where
  "guarded_insert_hint C me key hint = writes_keep (\<lambda>s.
     map_res (\<lambda>((p, op), s). ((locked_pos me p, op), s)) (ct_insert_hint C key hint s))"

definition guarded_insert_ex where
  "guarded_insert_ex C me key = writes_keep (\<lambda>s.
     map_res (\<lambda>((p, op, seq), s). ((locked_pos me p, op, seq), s)) (ct_insert_ex C key s))"

definition guarded_subscript :: "'k \<Rightarrow> 'r res" where
  "guarded_subscript key = Some (Inl Runtime_error)"

definition guarded_erase where
  "guarded_erase C key = writes (ct_erase C key)"

definition guarded_erase_hint where
  "guarded_erase_hint C key hint = writes (ct_erase_hint C key hint)"

definition guarded_erase_first where
  "guarded_erase_first C me key = writes_keep (\<lambda>s.
     map_res (\<lambda>((b, p, seq), s). ((b, locked_pos me p, seq), s)) (ct_erase_first C key s))"

definition guarded_erase_next where
  "guarded_erase_next lvl C me pos seq key = at_pos Writing lvl me pos (\<lambda>p s.
     map_res (\<lambda>((b, p, seq), s). ((b, pos\<lparr>gp_inner := p\<rparr>, seq), s)) (ct_erase_next C p seq key s))"

definition guarded_erase_at where
  "guarded_erase_at lvl C me pos = at_pos Writing lvl me pos (\<lambda>p s.
     map_res (\<lambda>((b, p), s). ((b, pos\<lparr>gp_inner := p\<rparr>), s)) (ct_erase_at C p s))"

definition guarded_erase_if where
  "guarded_erase_if C me pred = writes (ct_erase_if C (\<lambda>p. pred (deferred_pos me p)))"

definition guarded_erase_all where
  "guarded_erase_all C key = writes (ct_erase_all C key)"

section \<open>Whole-container operations\<close>

definition guarded_clear where
  "guarded_clear C = writes (ct_clear C)"

definition guarded_clear_to where
  "guarded_clear_to C new_capacity = writes (ct_clear_to C new_capacity)"

definition guarded_grow where
  "guarded_grow C = writes (ct_grow C)"

definition guarded_reserve where
  "guarded_reserve C n = writes (ct_reserve C n)"

definition guarded_resize where
  "guarded_resize C n = writes (ct_resize C n)"

definition guarded_scrub where
  "guarded_scrub C threshold = writes (ct_scrub C threshold)"

definition guarded_shrink where
  "guarded_shrink C = writes (ct_shrink C)"

text \<open>The copy constructor reads the other object under its lock.\<close>

definition guarded_copy :: "('c, 'c) member" where
  "guarded_copy = asks (\<lambda>other. other)"

definition guarded_equal where
  "guarded_equal C same lhs rhs = (if same then ret True else ct_equal C lhs rhs)"

section \<open>Iterators\<close>

record 'i guarded_iterator =
  gi_inner :: 'i
  gi_lock :: lock_obj

definition guarded_begin where
  "guarded_begin C me mode = \<lparr>
     mb_entry = Take mode,
     mb_body = (\<lambda>s. ret (\<lparr>gi_inner = ct_begin C s, gi_lock = adopt_lock me\<rparr>, s)),
     mb_keeps = (\<lambda>_. 1)\<rparr>"

definition guarded_end where
  "guarded_end C s = \<lparr>gi_inner = ct_end C s, gi_lock = no_lock\<rparr>"

definition guarded_inc where
  "guarded_inc lvl C s it = nvhm_assume lvl (lo_owns (gi_lock it)) (it\<lparr>gi_inner := ct_inc C s (gi_inner it)\<rparr>)"

definition guarded_dec where
  "guarded_dec lvl C s it = nvhm_assume lvl (lo_owns (gi_lock it)) (it\<lparr>gi_inner := ct_dec C s (gi_inner it)\<rparr>)"

definition guarded_to_iterator where
  "guarded_to_iterator mode lvl C me pos = at_pos mode lvl me pos (\<lambda>p s.
     keeping_res s (map_res (\<lambda>it. \<lparr>gi_inner = it, gi_lock = gp_lock pos\<rparr>) (ct_to_iterator C p s)))"

definition guarded_to_citerator where
  "guarded_to_citerator lvl C me pos = (let (calls, pos) = downgrade_pos pos
     in (calls, guarded_to_iterator Reading lvl C me pos))"

definition guarded_npos where
  "guarded_npos C s = bare_pos (ct_read_npos C s)"

end
