(* ===== verification/GuardedRun.thy ===== *)
theory GuardedRun
  imports Guarded
begin

text \<open>
  Threads on a guarded container. A call is entered when the lock allows it, runs on the container as it
  is then, and leaves what it computed when it ends; other threads may enter and end calls in between.
  What the lock guarantees is that this makes no difference: every run has the results and the final
  container of the calls one after the other, in the order they ended. The lock is the counter of
  \<open>rw_step\<close>, which the mutex refines. Only a thread that holds the lock of a position uses members that
  take one; a thread may keep locks of results and give them back later.
\<close>

datatype ('x, 'c) activity = Calm | Running 'x 'c

record ('x, 'c) guarded_state =
  gs_lock :: int
  gs_inner :: 'c
  gs_thread :: "nat \<Rightarrow> ('x, 'c) activity"
  gs_reads :: "nat \<Rightarrow> nat"
  gs_writes :: "nat \<Rightarrow> bool"

definition new_guarded :: "'c \<Rightarrow> ('x, 'c) guarded_state" where
  "new_guarded s = \<lparr>gs_lock = 0, gs_inner = s, gs_thread = (\<lambda>_. Calm), gs_reads = (\<lambda>_. 0), gs_writes = (\<lambda>_. False)\<rparr>"

section \<open>Entering and leaving\<close>

text \<open>\<open>lock_()\<close>, the end of its scope with \<open>n\<close> locks left to the result, and the calls on the lock meanwhile.\<close>

fun take_lock :: "lock_mode \<Rightarrow> lock_event" where
  "take_lock Reading = Acquire_read"
| "take_lock Writing = Acquire_write"

fun leave_lock :: "lock_mode \<Rightarrow> nat \<Rightarrow> lock_event list" where
  "leave_lock Reading n = replicate n Acquire_read @ [Release_read]"
| "leave_lock Writing n = (if n = 0 then [Release_write] else [])"

fun reads_after :: "lock_mode \<Rightarrow> nat \<Rightarrow> nat \<Rightarrow> nat" where
  "reads_after Reading n r = r - 1 + n"
| "reads_after Writing n r = r"

fun writes_after :: "lock_mode \<Rightarrow> nat \<Rightarrow> bool \<Rightarrow> bool" where
  "writes_after Reading n w = w"
| "writes_after Writing n w = (w \<and> n \<noteq> 0)"

fun may_use :: "lock_mode \<Rightarrow> nat \<Rightarrow> bool \<Rightarrow> bool" where
  "may_use Reading r w \<longleftrightarrow> 0 < r \<or> w"
| "may_use Writing r w \<longleftrightarrow> w"

text \<open>The end of a call entered by \<open>Take\<close> and by \<open>Use\<close>.\<close>

fun leave :: "lock_entry \<Rightarrow> nat \<Rightarrow> nat \<Rightarrow> int \<Rightarrow> ('x, 'c) guarded_state \<Rightarrow> ('x, 'c) guarded_state" where
  "leave (Take mode) n t l g = g\<lparr>gs_lock := l, gs_thread := (gs_thread g)(t := Calm),
     gs_reads := (gs_reads g)(t := reads_after mode n (gs_reads g t)),
     gs_writes := (gs_writes g)(t := writes_after mode n (gs_writes g t))\<rparr>"
| "leave (Use mode) n t l g = g\<lparr>gs_thread := (gs_thread g)(t := Calm)\<rparr>"

fun leave_calls :: "lock_entry \<Rightarrow> nat \<Rightarrow> lock_event list" where
  "leave_calls (Take mode) n = leave_lock mode n"
| "leave_calls (Use mode) n = []"

section \<open>Runs\<close>

text \<open>\<open>N\<close> threads, calls named \<open>'x\<close>, each a member; a call is made only in states where it is allowed.\<close>

inductive guarded_step ::
    "nat \<Rightarrow> ('x \<Rightarrow> ('c, 'r) member) \<Rightarrow> ('x \<Rightarrow> 'c \<Rightarrow> bool) \<Rightarrow> ('x, 'c) guarded_state \<Rightarrow> (nat \<times> 'x \<times> (exn + 'r)) list \<Rightarrow> ('x, 'c) guarded_state \<Rightarrow> bool"
  for N mem allowed where
  enter_take: "t < N \<Longrightarrow> gs_thread g t = Calm \<Longrightarrow> mb_entry (mem x) = Take mode \<Longrightarrow> rw_step (gs_lock g) (take_lock mode) l
    \<Longrightarrow> allowed x (gs_inner g)
    \<Longrightarrow> guarded_step N mem allowed g [] (g\<lparr>gs_lock := l, gs_thread := (gs_thread g)(t := Running x (gs_inner g)),
         gs_reads := (gs_reads g)(t := gs_reads g t + (if mode = Reading then 1 else 0)),
         gs_writes := (gs_writes g)(t := gs_writes g t \<or> mode = Writing)\<rparr>)"
| enter_use: "t < N \<Longrightarrow> gs_thread g t = Calm \<Longrightarrow> mb_entry (mem x) = Use mode \<Longrightarrow> may_use mode (gs_reads g t) (gs_writes g t)
    \<Longrightarrow> allowed x (gs_inner g)
    \<Longrightarrow> guarded_step N mem allowed g [] (g\<lparr>gs_thread := (gs_thread g)(t := Running x (gs_inner g))\<rparr>)"
| return: "t < N \<Longrightarrow> gs_thread g t = Running x s \<Longrightarrow> mb_body (mem x) s = Some (Inr (r, s'))
    \<Longrightarrow> rw_run (gs_lock g) (leave_calls (mb_entry (mem x)) (mb_keeps (mem x) r)) l
    \<Longrightarrow> guarded_step N mem allowed g [(t, x, Inr r)] (leave (mb_entry (mem x)) (mb_keeps (mem x) r) t l (g\<lparr>gs_inner := s'\<rparr>))"
| throw: "t < N \<Longrightarrow> gs_thread g t = Running x s \<Longrightarrow> mb_body (mem x) s = Some (Inl e)
    \<Longrightarrow> rw_run (gs_lock g) (leave_calls (mb_entry (mem x)) 0) l
    \<Longrightarrow> guarded_step N mem allowed g [(t, x, Inl e)] (leave (mb_entry (mem x)) 0 t l g)"
| give_back_read: "t < N \<Longrightarrow> gs_thread g t = Calm \<Longrightarrow> 0 < gs_reads g t \<Longrightarrow> rw_step (gs_lock g) Release_read l
    \<Longrightarrow> guarded_step N mem allowed g [] (g\<lparr>gs_lock := l, gs_reads := (gs_reads g)(t := gs_reads g t - 1)\<rparr>)"
| give_back_write: "t < N \<Longrightarrow> gs_thread g t = Calm \<Longrightarrow> gs_writes g t \<Longrightarrow> rw_step (gs_lock g) Release_write l
    \<Longrightarrow> guarded_step N mem allowed g [] (g\<lparr>gs_lock := l, gs_writes := (gs_writes g)(t := False)\<rparr>)"
| downgrade: "t < N \<Longrightarrow> gs_thread g t = Calm \<Longrightarrow> gs_writes g t \<Longrightarrow> rw_step (gs_lock g) Downgrade l
    \<Longrightarrow> guarded_step N mem allowed g [] (g\<lparr>gs_lock := l, gs_writes := (gs_writes g)(t := False),
         gs_reads := (gs_reads g)(t := gs_reads g t + 1)\<rparr>)"

inductive guarded_run ::
    "nat \<Rightarrow> ('x \<Rightarrow> ('c, 'r) member) \<Rightarrow> ('x \<Rightarrow> 'c \<Rightarrow> bool) \<Rightarrow> 'c \<Rightarrow> (nat \<times> 'x \<times> (exn + 'r)) list \<Rightarrow> ('x, 'c) guarded_state \<Rightarrow> bool"
  for N mem allowed s0 where
  start: "guarded_run N mem allowed s0 [] (new_guarded s0)"
| step: "guarded_run N mem allowed s0 h g \<Longrightarrow> guarded_step N mem allowed g e g' \<Longrightarrow> guarded_run N mem allowed s0 (h @ e) g'"

text \<open>The calls one after the other.\<close>

fun sequential ::
    "('x \<Rightarrow> ('c, 'r) member) \<Rightarrow> ('x \<Rightarrow> 'c \<Rightarrow> bool) \<Rightarrow> (nat \<times> 'x \<times> (exn + 'r)) list \<Rightarrow> 'c \<Rightarrow> 'c \<Rightarrow> bool" where
  "sequential mem allowed [] s s' \<longleftrightarrow> s' = s"
| "sequential mem allowed ((t, x, r) # h) s s' \<longleftrightarrow> allowed x s \<and> (case mb_body (mem x) s of
     None \<Rightarrow> False
   | Some (Inl e) \<Rightarrow> r = Inl e \<and> sequential mem allowed h s s'
   | Some (Inr (r', s1)) \<Rightarrow> r = Inr r' \<and> sequential mem allowed h s1 s')"

lemma sequential_append:
  "sequential mem allowed h s s1 \<Longrightarrow> sequential mem allowed h' s1 s' \<Longrightarrow> sequential mem allowed (h @ h') s s'"
proof (induction h arbitrary: s)
  case (Cons e h)
  obtain t x r where e: "e = (t, x, r)" by (cases e)
  show ?case using Cons by (auto simp: e split: option.splits sum.splits)
qed simp

section \<open>What the lock protects\<close>

definition total_reads :: "nat \<Rightarrow> (nat \<Rightarrow> nat) \<Rightarrow> int" where
  "total_reads N f = int (\<Sum>t<N. f t)"

text \<open>The counter is what the threads hold, and a running call holds what it needs and has seen the latest state.\<close>

definition lock_ok :: "nat \<Rightarrow> int \<Rightarrow> (nat \<Rightarrow> nat) \<Rightarrow> (nat \<Rightarrow> bool) \<Rightarrow> bool" where
  "lock_ok N l R W \<longleftrightarrow> (if \<exists>t<N. W t
     then l = - 1 \<and> (\<forall>t<N. R t = 0) \<and> (\<forall>t<N. \<forall>u<N. W t \<longrightarrow> W u \<longrightarrow> t = u)
     else l = total_reads N R)"

definition running_ok ::
    "nat \<Rightarrow> ('x \<Rightarrow> ('c, 'r) member) \<Rightarrow> ('x \<Rightarrow> 'c \<Rightarrow> bool) \<Rightarrow> ('x, 'c) guarded_state \<Rightarrow> bool" where
  "running_ok N mem allowed g \<longleftrightarrow> (\<forall>t<N. \<forall>x s. gs_thread g t = Running x s \<longrightarrow>
     s = gs_inner g \<and> allowed x s \<and> may_use (entry_mode (mb_entry (mem x))) (gs_reads g t) (gs_writes g t)
     \<and> (mb_entry (mem x) = Take Reading \<longrightarrow> 0 < gs_reads g t))"

lemma total_reads_upd: "t < N \<Longrightarrow> total_reads N (f(t := n)) = total_reads N f - int (f t) + int n"
proof -
  assume t: "t < N"
  have s: "{..<N} = insert t ({..<N} - {t})" using t by auto
  have "(\<Sum>u<N. g u) = g t + (\<Sum>u\<in>{..<N} - {t}. g u)" for g :: "nat \<Rightarrow> nat"
    by (subst s, subst sum.insert) auto
  moreover have "(\<Sum>u\<in>{..<N} - {t}. (f(t := n)) u) = (\<Sum>u\<in>{..<N} - {t}. f u)" by (rule sum.cong) auto
  ultimately show ?thesis by (simp add: total_reads_def)
qed

lemma total_reads_0: "total_reads N f = 0 \<longleftrightarrow> (\<forall>t<N. f t = 0)" "0 \<le> total_reads N f" "t < N \<Longrightarrow> int (f t) \<le> total_reads N f"
  by (auto simp: total_reads_def simp del: of_nat_sum intro: member_le_sum)

lemma rw_run_append: "rw_run s (es @ es') s' \<longleftrightarrow> (\<exists>s1. rw_run s es s1 \<and> rw_run s1 es' s')"
  by (induction es arbitrary: s) auto

lemma run_acquires: "rw_run s (replicate n Acquire_read) s' \<longleftrightarrow> s' = s + int n \<and> (n = 0 \<or> 0 \<le> s)"
proof (induction n arbitrary: s)
  case (Suc n)
  have "rw_run s (replicate (Suc n) Acquire_read) s' \<longleftrightarrow> 0 \<le> s \<and> rw_run (s + 1) (replicate n Acquire_read) s'" by auto
  then show ?case by (simp only: Suc.IH) auto
qed auto

lemma run_leave:
  "rw_run l (leave_lock Reading n) l' \<longleftrightarrow> l' = l + int n - 1 \<and> 1 \<le> l + int n \<and> (n = 0 \<or> 0 \<le> l)"
  "rw_run l (leave_lock Writing n) l' \<longleftrightarrow> (if n = 0 then l = - 1 \<and> l' = 0 else l' = l)"
  by (auto simp: rw_run_append run_acquires)

lemma lock_okD:
  assumes "lock_ok N l R W" and "t < N"
  shows "W t \<Longrightarrow> l = - 1 \<and> (\<forall>u<N. R u = 0) \<and> (\<forall>u<N. u \<noteq> t \<longrightarrow> \<not> W u)"
    and "0 < R t \<Longrightarrow> l = total_reads N R \<and> (\<forall>u<N. \<not> W u)"
    and "0 \<le> l \<Longrightarrow> l = total_reads N R \<and> (\<forall>u<N. \<not> W u)"
  using assms unfolding lock_ok_def by (force split: if_splits)+

lemma lock_take:
  assumes ok: "lock_ok N l R W" and t: "t < N" and st: "rw_step l (take_lock mode) l'"
  shows "lock_ok N l' (R(t := R t + (if mode = Reading then 1 else 0))) (W(t := W t \<or> mode = Writing))"
proof (cases mode)
  case Reading
  then have "0 \<le> l" "l' = l + 1" using st by auto
  moreover from this have "l = total_reads N R" "\<forall>u<N. \<not> W u" using lock_okD(3) [OF ok t] by auto
  ultimately show ?thesis using Reading t by (simp add: lock_ok_def total_reads_upd)
next
  case Writing
  then have "l = 0" "l' = - 1" using st by auto
  moreover from this have "total_reads N R = 0" "\<forall>u<N. \<not> W u" using lock_okD(3) [OF ok t] by auto
  ultimately show ?thesis using Writing t unfolding total_reads_0(1) by (auto simp: lock_ok_def)
qed

lemma lock_leave:
  assumes ok: "lock_ok N l R W" and t: "t < N" and st: "rw_run l (leave_lock mode n) l'"
    and held: "mode = Reading \<Longrightarrow> 0 < R t" "mode = Writing \<Longrightarrow> W t"
  shows "lock_ok N l' (R(t := reads_after mode n (R t))) (W(t := writes_after mode n (W t)))"
proof (cases mode)
  case Reading
  have r: "0 < R t" using held(1) Reading by simp
  have "l = total_reads N R" "\<forall>u<N. \<not> W u" using lock_okD(2) [OF ok t r] by auto
  moreover have "l' = l + int n - 1" using st unfolding Reading run_leave by simp
  ultimately show ?thesis using Reading t r by (auto simp add: lock_ok_def total_reads_upd)
next
  case Writing
  have w: "W t" using held(2) Writing by simp
  note ow = lock_okD(1) [OF ok t w]
  show ?thesis
  proof (cases "n = 0")
    case True
    then have "l' = 0" using st Writing by auto
    moreover have "\<not> (\<exists>u<N. (W(t := False)) u)" using ow by auto
    moreover have "total_reads N R = 0" using ow total_reads_0(1) by blast
    ultimately show ?thesis using Writing True by (simp add: lock_ok_def)
  next
    case False
    then have "l' = l" using st Writing by simp
    moreover have "W(t := True) = W" by (rule fun_upd_idem) (use w in simp)
    ultimately show ?thesis using Writing False ok w by simp
  qed
qed

lemma lock_downgrade:
  assumes ok: "lock_ok N l R W" and t: "t < N" and w: "W t" and st: "rw_step l Downgrade l'"
  shows "lock_ok N l' (R(t := R t + 1)) (W(t := False))"
proof -
  note ow = lock_okD(1) [OF ok t w]
  have "total_reads N R = 0" using ow total_reads_0(1) by blast
  moreover have "\<not> (\<exists>u<N. (W(t := False)) u)" using ow by auto
  moreover have "l' = 1" using st by simp
  ultimately show ?thesis using t by (simp add: lock_ok_def total_reads_upd)
qed

section \<open>Calls one after the other\<close>

text \<open>The contract of the calls: those that only take the shared lock leave the container as it is.\<close>

locale guarded_laws =
  fixes mem :: "'x \<Rightarrow> ('c, 'r) member" and allowed :: "'x \<Rightarrow> 'c \<Rightarrow> bool"
  assumes reads_pure: "allowed x s \<Longrightarrow> entry_mode (mb_entry (mem x)) = Reading \<Longrightarrow> mb_body (mem x) s = Some (Inr (r, s')) \<Longrightarrow> s' = s"
begin

lemma end_call:
  assumes lock: "lock_ok N (gs_lock g) (gs_reads g) (gs_writes g)" and run: "running_ok N mem allowed g"
    and t: "t < N" "gs_thread g t = Running x s"
    and l: "rw_run (gs_lock g) (leave_calls (mb_entry (mem x)) n) l"
    and s': "s' = s \<or> (\<exists>r. mb_body (mem x) s = Some (Inr (r, s')))"
  shows "lock_ok N (gs_lock (leave (mb_entry (mem x)) n t l (g\<lparr>gs_inner := s'\<rparr>)))
      (gs_reads (leave (mb_entry (mem x)) n t l (g\<lparr>gs_inner := s'\<rparr>))) (gs_writes (leave (mb_entry (mem x)) n t l (g\<lparr>gs_inner := s'\<rparr>)))"
    and "running_ok N mem allowed (leave (mb_entry (mem x)) n t l (g\<lparr>gs_inner := s'\<rparr>))"
proof -
  have x: "s = gs_inner g" "allowed x s" "may_use (entry_mode (mb_entry (mem x))) (gs_reads g t) (gs_writes g t)"
    "mb_entry (mem x) = Take Reading \<Longrightarrow> 0 < gs_reads g t" using run t unfolding running_ok_def by blast+
  show "lock_ok N (gs_lock (leave (mb_entry (mem x)) n t l (g\<lparr>gs_inner := s'\<rparr>)))
      (gs_reads (leave (mb_entry (mem x)) n t l (g\<lparr>gs_inner := s'\<rparr>))) (gs_writes (leave (mb_entry (mem x)) n t l (g\<lparr>gs_inner := s'\<rparr>)))"
  proof (cases "mb_entry (mem x)")
    case (Take mode)
    then show ?thesis using lock_leave [OF lock t(1), of mode n l] l x(3,4) by (cases mode) simp_all
  next
    case (Use mode)
    then show ?thesis using lock by simp
  qed
  have same: "s' = gs_inner g \<or> (\<forall>u<N. u \<noteq> t \<longrightarrow> gs_thread g u = Calm)"
  proof (cases "entry_mode (mb_entry (mem x))")
    case Reading
    then show ?thesis using s' x(1) reads_pure [OF x(2)] by auto
  next
    case Writing
    then have "gs_writes g t" using x(3) by simp
    then have idle: "gs_reads g u = 0 \<and> \<not> gs_writes g u" if "u < N" "u \<noteq> t" for u using lock_okD(1) [OF lock t(1)] that by blast
    have "gs_thread g u = Calm" if u: "u < N" "u \<noteq> t" for u
    proof (cases "gs_thread g u")
      case (Running y s2)
      then have "may_use (entry_mode (mb_entry (mem y))) (gs_reads g u) (gs_writes g u)" using run u(1) unfolding running_ok_def by blast
      then show ?thesis using idle [OF u] by (cases "entry_mode (mb_entry (mem y))") simp_all
    qed
    then show ?thesis by blast
  qed
  show "running_ok N mem allowed (leave (mb_entry (mem x)) n t l (g\<lparr>gs_inner := s'\<rparr>))"
    using run same by (cases "mb_entry (mem x)") (auto simp: running_ok_def)
qed

lemma running_step:
  assumes lock: "lock_ok N (gs_lock g) (gs_reads g) (gs_writes g)" and run: "running_ok N mem allowed g"
    and st: "guarded_step N mem allowed g e g'"
  shows "lock_ok N (gs_lock g') (gs_reads g') (gs_writes g') \<and> running_ok N mem allowed g'
    \<and> sequential mem allowed e (gs_inner g) (gs_inner g')"
  using st
proof cases
  case (enter_take t x mode l)
  have "running_ok N mem allowed g'" using run enter_take unfolding running_ok_def
    by (cases mode) (auto)
  then show ?thesis using enter_take lock_take [OF lock enter_take(3,6)] by simp
next
  case (enter_use t x mode)
  then show ?thesis using lock run by (auto simp: running_ok_def)
next
  case (return t x s r s' l)
  have "s = gs_inner g" "allowed x s" using run return(3,4) unfolding running_ok_def by blast+
  moreover have "gs_inner g' = s'" unfolding return(2) by (cases "mb_entry (mem x)") simp_all
  ultimately show ?thesis using end_call [OF lock run return(3,4,6), of s'] return(1,2,5) by simp
next
  case (throw t x s e l)
  have s: "s = gs_inner g" "allowed x s" using run throw(3,4) unfolding running_ok_def by blast+
  then have g: "g\<lparr>gs_inner := s\<rparr> = g" by simp
  have "gs_inner g' = s" unfolding throw(2) using s(1) by (cases "mb_entry (mem x)") simp_all
  then show ?thesis using end_call [OF lock run throw(3,4,6), of s] throw(1,2,5) s by (simp add: g)
next
  case (give_back_read t l)
  then show ?thesis using lock_leave [OF lock give_back_read(3), of Reading 0 l] run by (auto simp: running_ok_def)
next
  case (give_back_write t l)
  then show ?thesis using lock_leave [OF lock give_back_write(3), of Writing 0 l] run by (auto simp: running_ok_def)
next
  case (downgrade t l)
  then show ?thesis using lock_downgrade [OF lock downgrade(3)] run by (auto simp: running_ok_def)
qed

theorem run_is_sequential:
  assumes "guarded_run N mem allowed s0 h g"
  shows "sequential mem allowed h s0 (gs_inner g)" and "lock_ok N (gs_lock g) (gs_reads g) (gs_writes g)" and "running_ok N mem allowed g"
proof -
  have "sequential mem allowed h s0 (gs_inner g) \<and> lock_ok N (gs_lock g) (gs_reads g) (gs_writes g) \<and> running_ok N mem allowed g"
    using assms
  proof induction
    case start
    then show ?case by (simp add: new_guarded_def lock_ok_def running_ok_def total_reads_def)
  next
    case (step h g e g')
    then have g: "lock_ok N (gs_lock g) (gs_reads g) (gs_writes g)" "running_ok N mem allowed g" "sequential mem allowed h s0 (gs_inner g)"
      by simp_all
    show ?case using running_step [OF g(1,2) step.hyps(2)] sequential_append [OF g(3)] by blast
  qed
  then show "sequential mem allowed h s0 (gs_inner g)" and "lock_ok N (gs_lock g) (gs_reads g) (gs_writes g)"
    and "running_ok N mem allowed g" by simp_all
qed

end

end
