(* ===== verification/ShardedLaws.thy ===== *)
theory ShardedLaws
  imports Sharded
begin

text \<open>
  A sharded container keeps the contract of its shards: a key's entries live in the shard its hash
  selects and nowhere else, so that an operation on one key acts on the union of the bags, and the
  operations on all shards act on it shard by shard. Iteration visits the shards one after the other.
\<close>

section \<open>The shard of a key\<close>

lemma to_shard_idx_less:
  assumes "length s = 2 ^ e"
  shows "to_shard_idx C s k < length s"
proof -
  let ?h = "word_of_int (hash_to_shard_idx (ct_layout C) (ct_key_hash C k)) :: u64"
  have "shard_mask s = mask e" using assms by (simp add: shard_mask_def size_mask)
  then have "to_shard_idx C s k = unat (take_bit e ?h)" by (simp add: to_shard_idx_def align_pos_def take_bit_eq_mask)
  also have "\<dots> = take_bit e (unat ?h)" by (rule unsigned_take_bit_eq)
  also have "\<dots> < 2 ^ e" by (rule take_bit_nat_less_exp)
  finally show ?thesis using assms by simp
qed

lemma to_shard_idx_length: "length s' = length s \<Longrightarrow> to_shard_idx C s' k = to_shard_idx C s k"
  by (simp add: to_shard_idx_def shard_mask_def)

section \<open>The union of the bags\<close>

definition shards_bag :: "('c \<Rightarrow> 'a multiset) \<Rightarrow> 'c list \<Rightarrow> 'a multiset" where
  "shards_bag bag s = sum_list (map bag s)"

definition shards_ok :: "('k, 'v, 'c, 'p, 'q, 'h, 'i) container \<Rightarrow> ('c \<Rightarrow> bool) \<Rightarrow> ('c \<Rightarrow> ('k, 'v) bag) \<Rightarrow> 'c list \<Rightarrow> bool" where
  "shards_ok C good bag s \<longleftrightarrow> (\<exists>e\<le>14. length s = 2 ^ e) \<and> list_all good s
     \<and> (\<forall>i<length s. \<forall>k\<in>#keys_of (bag (s ! i)). to_shard_idx C s k = i)"

lemma in_shards_bag: "x \<in># shards_bag bag s \<longleftrightarrow> (\<exists>i<length s. x \<in># bag (s ! i))"
proof (induction s)
  case (Cons c s)
  then show ?case by (auto simp: shards_bag_def less_Suc_eq_0_disj)
qed (simp add: shards_bag_def)

lemma shards_split:
  assumes "i < length s"
  shows "\<exists>R. shards_bag bag s = bag (s ! i) + R \<and> (\<forall>c. shards_bag bag (s[i := c]) = bag c + R)
    \<and> (\<forall>x\<in>#R. \<exists>j<length s. j \<noteq> i \<and> x \<in># bag (s ! j))"
proof (rule exI, intro conjI allI ballI)
  let ?R = "shards_bag bag (take i s) + shards_bag bag (drop (Suc i) s)"
  have e: "map bag (s[i := c]) = map bag (take i s) @ bag c # map bag (drop (Suc i) s)" for c
    using assms by (simp add: upd_conv_take_nth_drop)
  show "shards_bag bag (s[i := c]) = bag c + ?R" for c unfolding shards_bag_def e by (simp add: union_ac)
  from this [of "s ! i"] show "shards_bag bag s = bag (s ! i) + ?R" by simp
  fix x assume "x \<in># ?R"
  then consider "x \<in># shards_bag bag (take i s)" | "x \<in># shards_bag bag (drop (Suc i) s)" by auto
  then show "\<exists>j<length s. j \<noteq> i \<and> x \<in># bag (s ! j)"
  proof cases
    case 1
    then obtain j where "j < length (take i s)" "x \<in># bag (take i s ! j)" unfolding in_shards_bag by blast
    then show ?thesis by (intro exI [of _ j]) simp
  next
    case 2
    then obtain j where "j < length (drop (Suc i) s)" "x \<in># bag (drop (Suc i) s ! j)" unfolding in_shards_bag by blast
    then show ?thesis by (intro exI [of _ "Suc i + j"]) simp
  qed
qed

lemma shards_bag_map:
  assumes "length s' = length s" and "\<And>i. i < length s \<Longrightarrow> bag (s' ! i) = g (bag (s ! i))" and "g {#} = {#}"
    and "\<And>A B. g (A + B) = g A + g B"
  shows "shards_bag bag s' = g (shards_bag bag s)"
proof -
  have m: "map bag s' = map (\<lambda>c. g (bag c)) s" using assms(1,2) by (intro nth_equalityI) simp_all
  have "sum_list (map (\<lambda>c. g (bag c)) s) = g (sum_list (map bag s))" by (induction s) (simp_all add: assms(3,4))
  then show ?thesis by (simp add: shards_bag_def m)
qed

lemma sum_shards_list: "sum_shards f s = sum_list (map f s)"
proof -
  have "fold (\<lambda>c n. n + f c) s a = a + sum_list (map f s)" for a by (induction s arbitrary: a) simp_all
  then show ?thesis by (simp add: sum_shards_def)
qed

lemma sum_list_ge:
  assumes "\<And>i. i < length rs \<Longrightarrow> n \<le> rs ! i"
  shows "int (length rs) * n \<le> sum_list (rs :: int list)"
proof -
  have "\<forall>r\<in>set rs. n \<le> r" using assms by (auto simp: in_set_conv_nth)
  then show ?thesis by (induction rs) (auto simp: algebra_simps)
qed

lemma ceil_div_bounds:
  assumes "0 < n"
  shows "x \<le> n * ceil_div x n" and "x \<le> b \<Longrightarrow> 1 \<le> b \<Longrightarrow> ceil_div x n \<le> b" and "0 \<le> x \<Longrightarrow> 0 \<le> ceil_div x n"
proof -
  let ?a = "x + n - 1"
  have pos: "ceil_div x n = ?a div n" if "0 \<le> ?a" using that by (cases "?a = 0") (simp_all add: ceil_div_def Let_def)
  have neg: "ceil_div x n = - ((- ?a) div n)" if "?a < 0" using that by (simp add: ceil_div_def Let_def)
  have m: "n * (y div n) = y - y mod n" for y by (simp add: minus_mod_eq_mult_div)
  have b: "0 \<le> y mod n" "y mod n \<le> n - 1" for y using assms pos_mod_bound [of n y] by simp_all
  show "x \<le> n * ceil_div x n"
  proof (cases "0 \<le> ?a")
    case True
    then show ?thesis unfolding pos [OF True] m using b(2) [of ?a] by linarith
  next
    case False
    then have "n * ceil_div x n = - (n * ((- ?a) div n))" using neg by simp
    then show ?thesis unfolding m using b(1) [of "- ?a"] False assms by linarith
  qed
  show "0 \<le> ceil_div x n" if "0 \<le> x" using that assms pos by (simp add: pos_imp_zdiv_nonneg_iff)
  show "ceil_div x n \<le> b" if "x \<le> b" "1 \<le> b"
  proof (cases "0 \<le> ?a")
    case True
    have "(b - 1) * 1 \<le> (b - 1) * n" using assms that(2) by (intro mult_left_mono) simp_all
    then have "?a < n * (b + 1)" using that assms by (simp add: algebra_simps)
    moreover have "n * (?a div n) \<le> ?a" unfolding m using b(1) [of ?a] by simp
    ultimately have "n * (?a div n) < n * (b + 1)" by (rule order.strict_trans1 [rotated])
    then have "?a div n < b + 1" using assms by simp
    then show ?thesis using pos [OF True] by simp
  next
    case False
    then have "0 \<le> (- ?a) div n" using assms by (simp add: pos_imp_zdiv_nonneg_iff)
    then show ?thesis using neg False that(2) by simp
  qed
qed

section \<open>Every shard in order\<close>

lemma each_shard_ok:
  assumes "\<And>c. c \<in> set s \<Longrightarrow> \<exists>r c'. f c = ret (r, c') \<and> Q c r c'"
  shows "\<exists>rs s'. each_shard f s = ret (sum_list rs, s') \<and> length rs = length s \<and> length s' = length s
    \<and> (\<forall>i<length s. Q (s ! i) (rs ! i) (s' ! i))"
  using assms
proof (induction s)
  case (Cons c s)
  obtain r c' where c: "f c = ret (r, c')" "Q c r c'" using Cons.prems [of c] by auto
  have "\<exists>rs s'. each_shard f s = ret (sum_list rs, s') \<and> length rs = length s \<and> length s' = length s
    \<and> (\<forall>i<length s. Q (s ! i) (rs ! i) (s' ! i))" by (rule Cons.IH) (use Cons.prems in auto)
  then obtain rs s' where s: "each_shard f s = ret (sum_list rs, s')" "length rs = length s" "length s' = length s"
    "\<forall>i<length s. Q (s ! i) (rs ! i) (s' ! i)" by blast
  show ?case by (rule exI [of _ "r # rs"], rule exI [of _ "c' # s'"]) (use c s in \<open>auto simp: less_Suc_eq_0_disj\<close>)
qed simp

lemma erase_if_shards_each:
  assumes "\<And>j. j < length s \<Longrightarrow> ct_erase_if C (\<lambda>p. pred (tag_pos (i + j) p)) (s ! j) = f (s ! j)"
  shows "erase_if_shards C pred i s = each_shard f s"
  using assms
proof (induction s arbitrary: i)
  case (Cons c s)
  have "ct_erase_if C (\<lambda>p. pred (tag_pos (i + 1 + j) p)) (s ! j) = f (s ! j)" if "j < length s" for j
    using Cons.prems [of "Suc j"] that by simp
  then have "erase_if_shards C pred (i + 1) s = each_shard f s" by (rule Cons.IH)
  moreover have "ct_erase_if C (\<lambda>p. pred (tag_pos i p)) c = f c" using Cons.prems [of 0] by simp
  ultimately show ?case by simp
qed simp

text \<open>An operation on one key acts on the bag it is in, with any entries of other keys beside it.\<close>

lemma spec_step_frame:
  assumes "spec_step dup c B r B'" and "k \<notin># keys_of R" and "c = Insert k \<or> c = Erase k \<or> c = Erase_all k \<or> (\<exists>v. c = Put k v)"
  shows "spec_step dup c (B + R) r (B' + R)"
proof -
  have f: "filter_mset (\<lambda>e. fst e \<noteq> k) R = R" using assms(2) by (intro filter_mset_eq_conv [THEN iffD2]) auto
  have n: "count (keys_of R) k = 0" using assms(2) by (simp only: not_in_iff)
  show ?thesis using assms by (elim disjE exE) (auto simp: f n split: if_splits)
qed

lemma spec_step_keys:
  assumes "spec_step dup c B r B'" and "c = Insert k \<or> c = Erase k \<or> c = Erase_all k \<or> (\<exists>v. c = Put k v)"
  shows "set_mset (keys_of B') \<subseteq> insert k (set_mset (keys_of B))"
  using assms by (elim disjE exE) (auto split: if_splits)

end
