(* ===== verification/ShardedSpec.thy ===== *)
theory ShardedSpec
  imports ShardedLaws
begin

text \<open>The contract of a sharded container, from that of its shards, and its instance for the hash map.\<close>

section \<open>Calls\<close>

lemma map_res_comp [simp]: "map_res f (map_res g r) = map_res (\<lambda>x. f (g x)) r"
  by (cases r) (simp_all add: map_res_def sum.map_comp comp_def id_def)

lemma ct_exec_fun [simp]:
  "ct_exec C Clear = ct_clear C" "ct_exec C (Clear_to n) = ct_clear_to C n" "ct_exec C (Resize n) = ct_resize C n"
  "ct_exec C (Reserve n) = ct_reserve C n" "ct_exec C Grow = ct_grow C" "ct_exec C Shrink = ct_shrink C" "ct_exec C Scrub = ct_scrub C max_lru"
  by (simp_all add: fun_eq_iff)

lemma sharded_exec_key:
  assumes "c = Insert k \<or> c = Erase k \<or> c = Erase_all k \<or> (\<exists>v. c = Put k v)" and i: "i = to_shard_idx C s k" "i < length s"
  shows "ct_exec (sharded_container lvl C) c s = map_res (\<lambda>(r, c'). (r, s[i := c'])) (ct_exec C c (s ! i))"
  using assms(1)
proof (elim disjE exE)
  fix v assume c: "c = Put k v"
  show ?thesis
  proof (cases "ct_subscript C k (s ! i)")
    case (Some x)
    then show ?thesis using i
      by (cases x) (auto simp: c sharded_subscript_def on_shard_def Let_def tag_pos_def set_at_shard_def pos_shard_idx_def ret_def split_def)
  qed (simp add: c sharded_subscript_def on_shard_def Let_def i(1) [symmetric])
qed (simp_all add: sharded_insert_def sharded_erase_def sharded_erase_all_def on_shard_def Let_def i(1) [symmetric] split_def)

context container_laws
begin

lemma shard_good: "shards_ok C good bag s \<Longrightarrow> i < length s \<Longrightarrow> good (s ! i)"
  by (simp add: shards_ok_def list_all_length)

lemma shard_idx: "shards_ok C good bag s \<Longrightarrow> to_shard_idx C s k < length s"
  by (auto simp: shards_ok_def intro: to_shard_idx_less)

lemma entry_shard: "shards_ok C good bag s \<Longrightarrow> j < length s \<Longrightarrow> x \<in># bag (s ! j) \<Longrightarrow> to_shard_idx C s (fst x) = j"
  by (simp add: shards_ok_def)

lemma shard_keys:
  assumes "shards_ok C good bag s"
  shows "k \<in># keys_of (shards_bag bag s) \<longleftrightarrow> k \<in># keys_of (bag (s ! to_shard_idx C s k))"
    and "count (keys_of (shards_bag bag s)) k = count (keys_of (bag (s ! to_shard_idx C s k))) k"
proof -
  let ?i = "to_shard_idx C s k"
  obtain R where R: "shards_bag bag s = bag (s ! ?i) + R" "\<forall>x\<in>#R. \<exists>j<length s. j \<noteq> ?i \<and> x \<in># bag (s ! j)"
    using shards_split [OF shard_idx [OF assms, of k], of bag] by blast
  have "k \<notin># keys_of R" using R(2) entry_shard [OF assms] by force
  then have "count (keys_of R) k = 0" by (simp only: not_in_iff)
  then show "count (keys_of (shards_bag bag s)) k = count (keys_of (bag (s ! ?i))) k" by (simp add: R(1))
  then show "k \<in># keys_of (shards_bag bag s) \<longleftrightarrow> k \<in># keys_of (bag (s ! ?i))" by (simp only: count_greater_zero_iff [symmetric])
qed

lemma exec_key:
  assumes ok: "shards_ok C good bag s" and rm: "list_all room s" and leg: "ct_legal nan c"
    and c: "c = Insert k \<or> c = Erase k \<or> c = Erase_all k \<or> (\<exists>v. c = Put k v)"
  shows "\<exists>r s'. ct_exec (sharded_container lvl C) c s = ret (r, s') \<and> shards_ok C good bag s'
    \<and> spec_step dup c (shards_bag bag s) r (shards_bag bag s')"
proof -
  let ?i = "to_shard_idx C s k"
  have i: "?i < length s" by (rule shard_idx [OF ok])
  have "room (s ! ?i)" using rm i by (simp add: list_all_length)
  then obtain r c' where e: "ct_exec C c (s ! ?i) = ret (r, c')" "good c'" "spec_step dup c (bag (s ! ?i)) r (bag c')"
    using exec_law [OF shard_good [OF ok i] _ leg] by blast
  let ?s = "s[?i := c']"
  obtain R where R: "shards_bag bag s = bag (s ! ?i) + R" "\<forall>c. shards_bag bag (s[?i := c]) = bag c + R"
    "\<forall>x\<in>#R. \<exists>j<length s. j \<noteq> ?i \<and> x \<in># bag (s ! j)"
    using shards_split [OF i, of bag] by blast
  have "k \<notin># keys_of R" using R(3) entry_shard [OF ok] by force
  then have "spec_step dup c (shards_bag bag s) r (shards_bag bag ?s)"
    unfolding R(1) R(2) [rule_format] by (rule spec_step_frame [OF e(3) _ c])
  moreover have "shards_ok C good bag ?s"
  proof -
    have "to_shard_idx C ?s x = j" if j: "j < length s" and x: "x \<in># keys_of (bag (?s ! j))" for j x
    proof -
      have l: "to_shard_idx C ?s x = to_shard_idx C s x" by (rule to_shard_idx_length) simp
      show ?thesis
      proof (cases "j = ?i")
        case True
        then have "x \<in># keys_of (bag c')" using x i by simp
        then have "x = k \<or> x \<in># keys_of (bag (s ! ?i))" using spec_step_keys [OF e(3) c] by blast
        then have "to_shard_idx C s x = ?i" using ok i unfolding shards_ok_def by blast
        then show ?thesis using True l by simp
      next
        case False
        then have "x \<in># keys_of (bag (s ! j))" using x by simp
        then have "to_shard_idx C s x = j" using ok j unfolding shards_ok_def by blast
        then show ?thesis using l by simp
      qed
    qed
    moreover have "list_all good ?s" using ok e(2) by (auto simp: shards_ok_def list_all_length nth_list_update_if)
    ultimately show ?thesis using ok by (simp add: shards_ok_def)
  qed
  ultimately show ?thesis using sharded_exec_key [OF c refl i, of lvl] e(1) by auto
qed

lemma exec_each:
  assumes ok: "shards_ok C good bag s" and rm: "list_all room s" and leg: "ct_legal nan c"
  shows "\<exists>rs s'. each_shard (ct_exec C c) s = ret (sum_list rs, s') \<and> length rs = length s \<and> length s' = length s
    \<and> (\<forall>i<length s. good (s' ! i) \<and> spec_step dup c (bag (s ! i)) (rs ! i) (bag (s' ! i)))"
proof -
  have "\<exists>r c'. ct_exec C c x = ret (r, c') \<and> good c' \<and> spec_step dup c (bag x) r (bag c')" if x: "x \<in> set s" for x
  proof -
    have "good x" "room x" using ok rm x by (simp_all add: shards_ok_def list_all_iff)
    then show ?thesis using exec_law leg by blast
  qed
  from each_shard_ok [where Q = "\<lambda>x r c'. good c' \<and> spec_step dup c (bag x) r (bag c')", OF this] show ?thesis .
qed

lemma shrunk_ok:
  assumes ok: "shards_ok C good bag s" and len: "length s' = length s" and g: "\<And>i. i < length s \<Longrightarrow> good (s' ! i)"
    and sub: "\<And>i. i < length s \<Longrightarrow> bag (s' ! i) \<subseteq># bag (s ! i)"
  shows "shards_ok C good bag s'"
proof -
  have "to_shard_idx C s' x = i" if i: "i < length s" and x: "x \<in># keys_of (bag (s' ! i))" for i x
  proof -
    have "x \<in># keys_of (bag (s ! i))" using x by (rule mset_subset_eqD [OF image_mset_subseteq_mono [OF sub [OF i]]])
    then have "to_shard_idx C s x = i" using ok i unfolding shards_ok_def by blast
    then show ?thesis using to_shard_idx_length [OF len, of C x] by simp
  qed
  then show ?thesis using ok len g by (simp add: shards_ok_def list_all_length)
qed

text \<open>Calls that keep every bag, empty every bag, or filter every bag.\<close>

lemma each_to_all:
  assumes ok: "shards_ok C good bag s" and rm: "list_all room s" and leg: "ct_legal nan c"
    and step: "\<And>A r B. spec_step dup c A r B \<Longrightarrow> B = g A \<and> B \<subseteq># A"
    and g: "g {#} = {#}" "\<And>A B. g (A + B) = g A + g B"
  shows "\<exists>r s'. each_shard (ct_exec C c) s = ret (r, s') \<and> shards_ok C good bag s' \<and> shards_bag bag s' = g (shards_bag bag s)
    \<and> (\<forall>n. (\<forall>A r B. spec_step dup c A r B \<longrightarrow> n \<le> r) \<longrightarrow> int (length s) * n \<le> r)"
proof -
  obtain rs s' where e: "each_shard (ct_exec C c) s = ret (sum_list rs, s')" "length rs = length s" "length s' = length s"
    "\<And>i. i < length s \<Longrightarrow> good (s' ! i) \<and> spec_step dup c (bag (s ! i)) (rs ! i) (bag (s' ! i))"
    using exec_each [OF ok rm leg] by blast
  have s: "bag (s' ! i) = g (bag (s ! i)) \<and> bag (s' ! i) \<subseteq># bag (s ! i)" if "i < length s" for i
    using step e(4) [OF that] by blast
  have "shards_ok C good bag s'" by (rule shrunk_ok [OF ok e(3)]) (use e(4) s in blast)+
  moreover have "shards_bag bag s' = g (shards_bag bag s)"
    by (rule shards_bag_map [OF e(3) _ g]) (use s in blast)
  moreover have "int (length s) * n \<le> sum_list rs" if "\<forall>A r B. spec_step dup c A r B \<longrightarrow> n \<le> r" for n
    using sum_list_ge [of rs n] that e(2,4) by metis
  ultimately show ?thesis using e(1) by blast
qed

lemma sharded_erase_if_each:
  assumes "list_all (\<lambda>_. True) s"
  shows "ct_exec (sharded_container lvl C) (Erase_if f) s = each_shard (ct_exec C (Erase_if f)) s"
proof -
  have "(case at_shard lvl (ct_key_at C) (tag_pos j p) s of Some (Inr k) \<Rightarrow> f k | _ \<Rightarrow> False)
      = (case ct_key_at C p (s ! j) of Some (Inr k) \<Rightarrow> f k | _ \<Rightarrow> False)" if "j < length s" for j p
    using that by (simp add: at_shard_def tag_pos_def pos_shard_idx_def)
  then show ?thesis by (simp add: sharded_erase_if_def erase_if_shards_each [where f = "ct_exec C (Erase_if f)"])
qed

lemma exec_erase_if:
  assumes ok: "shards_ok C good bag s" and rm: "list_all room s"
  shows "\<exists>r s'. ct_exec (sharded_container lvl C) (Erase_if f) s = ret (r, s') \<and> shards_ok C good bag s'
    \<and> spec_step dup (Erase_if f) (shards_bag bag s) r (shards_bag bag s')"
proof -
  let ?g = "filter_mset (\<lambda>e. \<not> f (fst e))" and ?h = "filter_mset (\<lambda>e. f (fst e))"
  obtain rs s' where e: "each_shard (ct_exec C (Erase_if f)) s = ret (sum_list rs, s')" "length rs = length s" "length s' = length s"
    "\<And>i. i < length s \<Longrightarrow> good (s' ! i) \<and> spec_step dup (Erase_if f) (bag (s ! i)) (rs ! i) (bag (s' ! i))"
    using exec_each [OF ok rm, of "Erase_if f"] by auto
  have "shards_ok C good bag s'" by (rule shrunk_ok [OF ok e(3)]) (use e(4) in auto)
  moreover have "shards_bag bag s' = ?g (shards_bag bag s)" by (rule shards_bag_map [OF e(3)]) (use e(4) in auto)
  moreover have "sum_list rs = int (size (?h (shards_bag bag s)))"
  proof -
    have "rs = map (\<lambda>c. int (size (?h (bag c)))) s" using e(2,4) by (intro nth_equalityI) auto
    moreover have "sum_list (map (\<lambda>c. int (size (?h (bag c)))) s) = int (size (?h (shards_bag bag s)))"
      by (induction s) (simp_all add: shards_bag_def)
    ultimately show ?thesis by simp
  qed
  moreover have "ct_exec (sharded_container lvl C) (Erase_if f) s = each_shard (ct_exec C (Erase_if f)) s"
    by (rule sharded_erase_if_each) (simp add: list_all_iff)
  ultimately show ?thesis using e(1) by auto
qed

theorem sharded_exec_ok:
  assumes ok: "shards_ok C good bag s" and rm: "list_all room s" and leg: "ct_legal nan c"
  shows "\<exists>r s'. ct_exec (sharded_container lvl C) c s = ret (r, s') \<and> shards_ok C good bag s'
    \<and> spec_step dup c (shards_bag bag s) r (shards_bag bag s')"
proof -
  have ln: "1 \<le> int (length s)" using ok by (auto simp: shards_ok_def)
  then have "0 < int (length s)" by linarith
  note cd = ceil_div_bounds [OF this]
  have keep: "\<exists>r s'. each_shard (ct_exec C d) s = ret (r, s') \<and> shards_ok C good bag s' \<and> shards_bag bag s' = shards_bag bag s
      \<and> (\<forall>n. (\<forall>A r B. spec_step dup d A r B \<longrightarrow> n \<le> r) \<longrightarrow> int (length s) * n \<le> r)"
    if "ct_legal nan d" "\<And>A r B. spec_step dup d A r B \<Longrightarrow> B = A" for d
    by (rule each_to_all [where g = "\<lambda>A. A", OF ok rm that(1)]) (use that(2) in auto)
  have enough: "n \<le> r" if "int (length s) * ceil_div n (int (length s)) \<le> r" for n r
    using cd(1) [of n] ln that by linarith
  show ?thesis
  proof (cases c)
    case (Insert k)
    then show ?thesis using exec_key [OF ok rm leg] by blast
  next
    case (Put k v)
    then show ?thesis using exec_key [OF ok rm leg] by blast
  next
    case (Erase k)
    then show ?thesis using exec_key [OF ok rm leg] by blast
  next
    case (Erase_all k)
    then show ?thesis using exec_key [OF ok rm leg] by blast
  next
    case (Erase_if f)
    then show ?thesis using exec_erase_if [OF ok rm] by simp
  next
    case (Resize n)
    let ?n = "ceil_div n (int (length s))"
    have "ct_legal nan (Resize ?n)" using cd(2) [of n "2 ^ 62"] cd(3) [of n] leg ln by (simp add: Resize)
    from keep [OF this] obtain r s' where "each_shard (ct_exec C (Resize ?n)) s = ret (r, s')" "shards_ok C good bag s'"
      "shards_bag bag s' = shards_bag bag s" "int (length s) * ?n \<le> r" by auto
    then show ?thesis using enough by (simp add: Resize sharded_resize_def)
  next
    case (Reserve n)
    let ?n = "ceil_div n (int (length s))"
    have "ct_legal nan (Reserve ?n)" using cd(2) [of n "2 ^ 62"] leg ln by (simp add: Reserve)
    from keep [OF this] obtain r s' where "each_shard (ct_exec C (Reserve ?n)) s = ret (r, s')" "shards_ok C good bag s'"
      "shards_bag bag s' = shards_bag bag s" "int (length s) * ?n \<le> r" by auto
    then show ?thesis using enough by (simp add: Reserve sharded_reserve_def)
  next
    case (Clear_to n)
    let ?n = "ceil_div n (int (length s))"
    have l: "ct_legal nan (Clear_to ?n)" using cd(2) [of n "2 ^ 62"] leg ln by (simp add: Clear_to)
    from each_to_all [where g = "\<lambda>_. {#}", OF ok rm l, simplified]
    obtain r s' where "each_shard (ct_exec C (Clear_to ?n)) s = ret (r, s')" "shards_ok C good bag s'"
      "shards_bag bag s' = {#}" "int (length s) * ?n \<le> r" by auto
    then show ?thesis using enough by (simp add: Clear_to sharded_clear_to_def)
  next
    case Clear
    from each_to_all [where g = "\<lambda>_. {#}", OF ok rm leg [unfolded Clear], simplified]
    show ?thesis by (auto simp: Clear sharded_clear_def)
  next
    case Grow
    from keep [of Grow] show ?thesis by (auto simp: Grow sharded_grow_def)
  next
    case Shrink
    from keep [of Shrink] show ?thesis by (auto simp: Shrink sharded_shrink_def)
  next
    case Scrub
    from keep [of Scrub] show ?thesis by (auto simp: Scrub sharded_scrub_def)
  qed
qed

section \<open>Lookups\<close>

lemma sharded_contains_ok:
  assumes ok: "shards_ok C good bag s"
  shows "sharded_contains C k s = ret (k \<in># keys_of (shards_bag bag s), s)"
  unfolding shard_keys(1) [OF ok, of k] using contains_law [OF shard_good [OF ok shard_idx [OF ok]], of k k]
  by (simp add: sharded_contains_def on_shard_def)

lemma sharded_count_ok:
  assumes ok: "shards_ok C good bag s"
  shows "sharded_count C k s = ret (int (count (keys_of (shards_bag bag s)) k))"
  using count_law [OF shard_good [OF ok shard_idx [OF ok]], of k k]
  by (simp add: sharded_count_def shard_keys(2) [OF ok])

lemma sharded_find_ok:
  assumes ok: "shards_ok C good bag s"
  shows "\<exists>p. sharded_find C k s = ret (p, s) \<and> (ct_is_npos C (fst p) \<longleftrightarrow> k \<notin># keys_of (shards_bag bag s))
    \<and> (\<not> ct_is_npos C (fst p) \<longrightarrow> (\<exists>v b. at_shard lvl (ct_at C) p s = ret (k, v, b) \<and> (k, v, b) \<in># shards_bag bag s))"
proof -
  let ?i = "to_shard_idx C s k"
  have i: "?i < length s" by (rule shard_idx [OF ok])
  obtain p where p: "ct_find C k (s ! ?i) = ret (p, s ! ?i)" "ct_is_npos C p \<longleftrightarrow> k \<notin># keys_of (bag (s ! ?i))"
    "\<not> ct_is_npos C p \<longrightarrow> (\<exists>v b. ct_at C p (s ! ?i) = ret (k, v, b) \<and> (k, v, b) \<in># bag (s ! ?i))"
    using find_law [OF shard_good [OF ok i], of k] by blast
  have "sharded_find C k s = ret ((p, ?i), s)" by (simp add: sharded_find_def Let_def on_shard_def p(1) tag_pos_def)
  moreover have "at_shard lvl (ct_at C) (p, ?i) s = ct_at C p (s ! ?i)" using i by (simp add: at_shard_def pos_shard_idx_def)
  ultimately show ?thesis using p(2,3) i shard_keys(1) [OF ok, of k] in_shards_bag [of _ bag s] by auto
qed

lemma sharded_sizes:
  assumes ok: "shards_ok C good bag s"
  shows "sharded_size C s = int (size (shards_bag bag s))" and "sharded_size C s \<le> sharded_capacity C s"
    and "sharded_is_empty C s \<longleftrightarrow> shards_bag bag s = {#}"
proof -
  have g: "list_all good s" using ok by (simp add: shards_ok_def)
  then show "sharded_size C s = int (size (shards_bag bag s))" unfolding sharded_size_def sum_shards_list
    by (induction s) (use size_law in \<open>auto simp: shards_bag_def\<close>)
  show "sharded_size C s \<le> sharded_capacity C s" unfolding sharded_size_def sharded_capacity_def sum_shards_list
    by (rule sum_list_mono) (use g in \<open>simp add: list_all_iff size_law [THEN conjunct2]\<close>)
  show "sharded_is_empty C s \<longleftrightarrow> shards_bag bag s = {#}" using g unfolding sharded_is_empty_def
    by (induction s) (use empty_law in \<open>auto simp: shards_bag_def\<close>)
qed

section \<open>Iteration\<close>

text \<open>What is visited from shard \<open>i\<close> on, given what each shard visits.\<close>

lemma next_shard_begin:
  assumes good: "\<And>j. j < length s \<Longrightarrow> good (s ! j)" and i: "i < length s" and r: "ct_is_right C (s ! i) it"
  shows "next_shard C s (it, i) = (if i < length s - 1 then begin_from C (sharded_end C s) (i + 1) (drop (i + 1) s) else (it, i))"
  using i r
proof (induction "length s - i" arbitrary: i it)
  case (Suc n)
  show ?case
  proof (cases "i < length s - 1")
    case True
    let ?it = "ct_begin C (s ! (i + 1))"
    have i1: "i + 1 < length s" using True by simp
    have d: "drop (i + 1) s = s ! (i + 1) # drop (i + 1 + 1) s" using Cons_nth_drop_Suc [OF i1] by simp
    show ?thesis
    proof (cases "ct_is_right C (s ! (i + 1)) ?it")
      case False
      then show ?thesis using True d by (subst next_shard.simps) (simp add: Let_def)
    next
      case right: True
      have n: "next_shard C s (it, i) = next_shard C s (?it, i + 1)" using True right by (subst next_shard.simps) (simp add: Let_def)
      have h: "next_shard C s (?it, i + 1) = (if i + 1 < length s - 1
          then begin_from C (sharded_end C s) (i + 1 + 1) (drop (i + 1 + 1) s) else (?it, i + 1))"
        by (rule Suc.hyps(1)) (use Suc.hyps(2) i1 right in simp_all)
      have b: "begin_from C (sharded_end C s) (i + 1) (drop (i + 1) s) = begin_from C (sharded_end C s) (i + 1 + 1) (drop (i + 1 + 1) s)"
        using right unfolding d by (simp add: Let_def)
      show ?thesis
      proof (cases "i + 1 < length s - 1")
        case True
        then show ?thesis using n h b \<open>i < length s - 1\<close> by simp
      next
        case False
        then have l: "i + 1 = length s - 1" using i1 by simp
        then have "s ! (i + 1) = last s" using i1 by (simp add: last_conv_nth flip: length_greater_0_conv)
        moreover obtain its where "iter_chain (ct_inc C (s ! (i + 1))) (ct_is_right C (s ! (i + 1))) (ct_end C (s ! (i + 1))) its ?it"
          using iter_law [OF good [OF i1]] by blast
        then have "?it = ct_end C (s ! (i + 1))" using right by (cases its) auto
        moreover have "drop (i + 1 + 1) s = []" using l i1 by simp
        ultimately show ?thesis using n h b \<open>i < length s - 1\<close> l by (simp add: sharded_end_def)
      qed
    qed
  qed (subst next_shard.simps, simp)
qed simp

lemma chain_in_shard:
  assumes good: "\<And>j. j < length s \<Longrightarrow> good (s ! j)" and i: "i < length s"
    and ch: "iter_chain (ct_inc C (s ! i)) (ct_is_right C (s ! i)) (ct_end C (s ! i)) (x # its) x"
    and rest: "i < length s - 1 \<Longrightarrow> iter_chain (sharded_inc C s) (sharded_is_right C s) (sharded_end C s) later
      (begin_from C (sharded_end C s) (i + 1) (drop (i + 1) s))" and lst: "i = length s - 1 \<Longrightarrow> later = []"
  shows "iter_chain (sharded_inc C s) (sharded_is_right C s) (sharded_end C s) (map (\<lambda>x. (x, i)) (x # its) @ later) (x, i)"
  using ch
proof (induction its arbitrary: x)
  case Nil
  have r: "ct_is_right C (s ! i) (ct_end C (s ! i))" using iter_law [OF good [OF i]] by blast
  have nx: "ct_inc C (s ! i) x = ct_end C (s ! i)" and "\<not> ct_is_right C (s ! i) x" using Nil by simp_all
  then have nr: "\<not> sharded_is_right C s (x, i)" by (simp add: sharded_is_right_def)
  have "sharded_inc C s (x, i) = next_shard C s (ct_end C (s ! i), i)" by (simp add: sharded_inc_def nx r)
  also have "\<dots> = (if i < length s - 1 then begin_from C (sharded_end C s) (i + 1) (drop (i + 1) s) else (ct_end C (s ! i), i))"
    by (rule next_shard_begin [OF good i r])
  finally have inc: "sharded_inc C s (x, i) = \<dots>" .
  show ?case
  proof (cases "i < length s - 1")
    case True
    then show ?thesis using rest inc nr by simp
  next
    case False
    then have l: "i = length s - 1" using i by simp
    then have "s ! i = last s" using i by (simp add: last_conv_nth flip: length_greater_0_conv)
    then show ?thesis using inc nr lst [OF l] l by (simp add: sharded_end_def)
  qed
next
  case (Cons y its)
  have nx: "ct_inc C (s ! i) x = y" and nr: "\<not> ct_is_right C (s ! i) x" "\<not> ct_is_right C (s ! i) y"
    and ch: "iter_chain (ct_inc C (s ! i)) (ct_is_right C (s ! i)) (ct_end C (s ! i)) (y # its) y"
    using Cons.prems by simp_all
  have "sharded_inc C s (x, i) = (y, i)" by (simp add: sharded_inc_def nx nr)
  moreover have "\<not> sharded_is_right C s (x, i)" using nr(1) by (simp add: sharded_is_right_def)
  ultimately show ?case using Cons.IH [OF ch] by simp
qed

lemma chain_from_shard:
  assumes good: "\<And>j. j < length s \<Longrightarrow> good (s ! j)" and i: "i \<le> length s" and s: "s \<noteq> []"
  shows "\<exists>its. iter_chain (sharded_inc C s) (sharded_is_right C s) (sharded_end C s) its (begin_from C (sharded_end C s) i (drop i s))
    \<and> image_mset (sharded_iter_entry C s) (mset its) = shards_bag bag (drop i s)"
  using i
proof (induction "length s - i" arbitrary: i)
  case 0
  then show ?case by (intro exI [of _ "[]"]) (simp add: shards_bag_def)
next
  case (Suc n)
  then have i: "i < length s" by simp
  have d: "drop i s = s ! i # drop (i + 1) s" using Cons_nth_drop_Suc [OF i] by simp
  obtain later where later: "iter_chain (sharded_inc C s) (sharded_is_right C s) (sharded_end C s) later
      (begin_from C (sharded_end C s) (i + 1) (drop (i + 1) s))"
    "image_mset (sharded_iter_entry C s) (mset later) = shards_bag bag (drop (i + 1) s)"
  proof -
    have "n = length s - (i + 1)" using Suc.hyps(2) by simp
    from Suc.hyps(1) [OF this] i that show thesis by auto
  qed
  obtain its where its: "iter_chain (ct_inc C (s ! i)) (ct_is_right C (s ! i)) (ct_end C (s ! i)) its (ct_begin C (s ! i))"
    "image_mset (ct_iter_entry C (s ! i)) (mset its) = bag (s ! i)" and r: "ct_is_right C (s ! i) (ct_end C (s ! i))"
    using iter_law [OF good [OF i]] by blast
  have b: "shards_bag bag (drop i s) = bag (s ! i) + shards_bag bag (drop (i + 1) s)" unfolding d by (simp add: shards_bag_def)
  show ?case
  proof (cases its)
    case Nil
    then show ?thesis using its r later b unfolding d by (intro exI [of _ later]) (simp add: Let_def)
  next
    case (Cons x xs)
    then have x: "ct_begin C (s ! i) = x" "\<not> ct_is_right C (s ! i) x" using its(1) by simp_all
    have ne: "later = []" if l: "i = length s - 1"
    proof -
      have "drop (i + 1) s = []" using l i by simp
      then show ?thesis using later(1) iter_law [OF good [OF i]] s l
        by (cases later) (auto simp: sharded_end_def sharded_is_right_def last_conv_nth)
    qed
    have "iter_chain (sharded_inc C s) (sharded_is_right C s) (sharded_end C s) (map (\<lambda>x. (x, i)) (x # xs) @ later) (x, i)"
      by (rule chain_in_shard [OF good i _ later(1) ne]) (use its(1) Cons x in simp_all)
    moreover have "image_mset (sharded_iter_entry C s) (mset (map (\<lambda>x. (x, i)) (x # xs) @ later)) = shards_bag bag (drop i s)"
      using its(2) later(2) b by (simp add: Cons image_mset.compositionality comp_def sharded_iter_entry_def)
    moreover have "begin_from C (sharded_end C s) i (drop i s) = (x, i)" unfolding d by (simp add: Let_def x)
    ultimately show ?thesis by (intro exI [of _ "map (\<lambda>x. (x, i)) (x # xs) @ later"]) simp
  qed
qed

section \<open>The contract\<close>

theorem sharded_laws:
  "container_laws (sharded_container lvl C) dup nan (shards_ok C good bag) (list_all room) (shards_bag bag)"
proof
  fix s c k
  assume ok: "shards_ok C good bag s"
  show "\<exists>r s'. ct_exec (sharded_container lvl C) c s = ret (r, s') \<and> shards_ok C good bag s'
      \<and> spec_step dup c (shards_bag bag s) r (shards_bag bag s')" if rm: "list_all room s" and lg: "ct_legal nan c"
    by (rule sharded_exec_ok [OF ok rm lg])
  show "ct_contains (sharded_container lvl C) k s = ret (k \<in># keys_of (shards_bag bag s), s)"
    using sharded_contains_ok [OF ok] by simp
  show "\<exists>p. ct_find (sharded_container lvl C) k s = ret (p, s)
      \<and> (ct_is_npos (sharded_container lvl C) p \<longleftrightarrow> k \<notin># keys_of (shards_bag bag s))
      \<and> (\<not> ct_is_npos (sharded_container lvl C) p \<longrightarrow>
          (\<exists>v b. ct_at (sharded_container lvl C) p s = ret (k, v, b) \<and> (k, v, b) \<in># shards_bag bag s))"
    using sharded_find_ok [OF ok] by simp
  show "ct_count (sharded_container lvl C) k s = ret (int (count (keys_of (shards_bag bag s)) k))"
    using sharded_count_ok [OF ok] by simp
  show "ct_size (sharded_container lvl C) s = int (size (shards_bag bag s))
      \<and> ct_size (sharded_container lvl C) s \<le> ct_capacity (sharded_container lvl C) s"
    using sharded_sizes [OF ok] by simp
  show "ct_is_empty (sharded_container lvl C) s \<longleftrightarrow> shards_bag bag s = {#}" using sharded_sizes [OF ok] by simp
  have good: "\<And>j. j < length s \<Longrightarrow> good (s ! j)" by (rule shard_good [OF ok])
  have ne: "s \<noteq> []" using ok by (auto simp: shards_ok_def)
  have "ct_is_right C (last s) (ct_end C (last s))" using iter_law [of "last s"] good [of "length s - 1"] ne by (simp add: last_conv_nth)
  then have "sharded_is_right C s (sharded_end C s)" using ne by (simp add: sharded_is_right_def sharded_end_def last_conv_nth)
  then show "ct_is_right (sharded_container lvl C) s (ct_end (sharded_container lvl C) s)
      \<and> (\<exists>its. iter_chain (ct_inc (sharded_container lvl C) s) (ct_is_right (sharded_container lvl C) s)
            (ct_end (sharded_container lvl C) s) its (ct_begin (sharded_container lvl C) s)
          \<and> image_mset (ct_iter_entry (sharded_container lvl C) s) (mset its) = shards_bag bag s)"
    using chain_from_shard [OF good _ ne, of 0] by (simp add: sharded_begin_def)
qed

end

end
