(* ===== verification/ShardedProps.thy ===== *)
theory ShardedProps
  imports ShardedSpec
begin

text \<open>
  The properties of sharded containers, stated for shards that are hash maps of a build without vector
  instructions; \<open>sharded_map\<close> is the contract of such a sharded map.
\<close>

interpretation sharded_map: container_laws "sharded_container lvl (map_container lvl (portable_map fp P))"
    "has_duplicates (portable_map fp P)" "pm_is_nan (portable_map fp P)"
    "shards_ok (map_container lvl (portable_map fp P)) (map_inv (portable_map fp P)) entries"
    "list_all (\<lambda>m. capacity (portable_map fp P) m \<le> 2 ^ 61)" "shards_bag entries" for lvl fp P
  by (rule portable_container.sharded_laws)

lemma map_to_iterator: "ct_to_iterator (map_container lvl P) p m = Some (to_iterator lvl P m p)"
  by (simp add: map_container_def)

section \<open>Construction\<close>

lemma one_bit_number:
  assumes "1 \<le> n" and "n \<le> max_num_shards"
  shows "has_single_bit_fallback (word_of_int n :: u64) \<longleftrightarrow> (\<exists>e\<le>14. n = 2 ^ e)"
proof
  have le: "n \<le> 2 ^ 14" using assms(2) by (simp add: max_num_shards_def)
  have u: "uint (word_of_int n :: u64) = n" using assms(1) le by (simp add: unsigned_of_int take_bit_int_eq_self)
  show "\<exists>e\<le>14. n = 2 ^ e" if b: "has_single_bit_fallback (word_of_int n :: u64)"
  proof -
    obtain e where "bits (word_of_int n :: u64) = {e}" using b unfolding has_single_bit_iff by blast
    then have e: "e < 64" "(word_of_int n :: u64) = 2 ^ e" unfolding bits_singleton by simp_all
    have "uint (2 ^ e :: u64) = int (unat (2 ^ e :: u64))" by simp
    also have "unat (2 ^ e :: u64) = 2 ^ e" by (rule unat_exp) (use e(1) in simp)
    finally have "n = 2 ^ e" using u e(2) by simp
    moreover have "e \<le> 14" using le unfolding \<open>n = 2 ^ e\<close> by (simp only: power_le_iff_2)
    ultimately show ?thesis by blast
  qed
  show "has_single_bit_fallback (word_of_int n :: u64)" if e: "\<exists>e\<le>14. n = 2 ^ e"
  proof -
    obtain e where "e \<le> 14" "n = 2 ^ e" using e by blast
    then have "(word_of_int n :: u64) = 2 ^ e" "e < 64" by simp_all
    then have "bits (word_of_int n :: u64) = {e}" unfolding bits_singleton by simp
    then show ?thesis unfolding has_single_bit_iff by blast
  qed
qed

text \<open>The constructor throws \<open>out_of_range\<close> exactly when the number of shards is not a power of two from 1
  to \<open>max_num_shards\<close>; otherwise it makes that many empty maps, or passes on what the map's constructor
  throws.\<close>

theorem sharded_construction:
  "make_sharded n shard = (if \<exists>e\<le>14. n = 2 ^ e then map_sum id (replicate (nat n)) shard else Inl Out_of_range)"
proof -
  have "1 \<le> n \<and> n \<le> 2 ^ 14" if e: "\<exists>e\<le>14. n = 2 ^ e"
  proof -
    obtain e where e: "e \<le> 14" "n = 2 ^ e" using e by blast
    have "(2 :: int) ^ e \<le> 2 ^ 14" using e(1) by (simp only: power_le_iff_2)
    then show ?thesis using e(2) by simp
  qed
  then have b: "(\<exists>e\<le>14. n = 2 ^ e) \<longrightarrow> 1 \<le> n \<and> n \<le> 2 ^ 14" by blast
  have "\<not> (\<exists>e\<le>14. n = 2 ^ e)" if "n < 1 \<or> n > max_num_shards"
  proof
    assume "\<exists>e\<le>14. n = 2 ^ e"
    with b have "1 \<le> n \<and> n \<le> 2 ^ 14" by blast
    then show False using that by (simp add: max_num_shards_def)
  qed
  then have "(n < 1 \<or> n > max_num_shards \<or> \<not> has_single_bit_fallback (word_of_int n :: u64)) \<longleftrightarrow> \<not> (\<exists>e\<le>14. n = 2 ^ e)"
    using one_bit_number [of n] by (metis not_less)
  then have "make_sharded n shard = (if \<not> (\<exists>e\<le>14. n = 2 ^ e) then Inl Out_of_range else map_sum id (replicate (nat n)) shard)"
    by (simp only: make_sharded_def)
  then show ?thesis by (cases "\<exists>e\<le>14. n = 2 ^ e") (simp_all only: if_True if_False not_True_eq_False not_False_eq_True)
qed

lemma sharded_start:
  assumes "make_sharded n (make_map (portable_map fp P) cf) = Inr s" and "conf_ok 3 cf"
  shows "shards_ok (map_container lvl (portable_map fp P)) (map_inv (portable_map fp P)) entries s" and "shards_bag entries s = {#}"
proof -
  obtain m where m: "make_map (portable_map fp P) cf = Inr m" "map_inv (portable_map fp P) m" "entries m = {#}"
    by (rule portable.make_map_ok [of fp P cf, unfolded map_size_bits]) (use assms(2) in simp_all)
  have "\<exists>e\<le>14. n = 2 ^ e" using assms(1) unfolding sharded_construction by (auto split: if_splits)
  then obtain e where e: "e \<le> 14" "n = 2 ^ e" by blast
  have s: "s = replicate (nat n) m" using assms(1) m(1) unfolding sharded_construction by (auto split: if_splits)
  have ln: "length s = 2 ^ e" unfolding s e(2) by (simp add: nat_power_eq)
  have each: "x = m" if "x \<in> set s" for x using that unfolding s by simp
  have nth: "s ! i = m" if "i < length s" for i by (rule each [OF nth_mem [OF that]])
  show "shards_ok (map_container lvl (portable_map fp P)) (map_inv (portable_map fp P)) entries s"
    using ln e(1) each m(2) nth m(3) unfolding shards_ok_def list_all_iff by (metis image_mset_empty empty_iff set_mset_empty)
  have "map entries s = replicate (length s) {#}" using nth m(3) by (intro nth_equalityI) simp_all
  moreover have "sum_list (replicate j {#}) = ({#} :: ('a \<times> 'b \<times> u8 list) multiset)" for j by (induction j) simp_all
  ultimately show "shards_bag entries s = {#}" by (simp add: shards_bag_def)
qed

section \<open>Runs\<close>

text \<open>The states a program reaches from a constructed sharded map, with the calls made and their results.\<close>

inductive sharded_reach ::
    "check_level \<Rightarrow> ('k, 'v, 'r, 'l, 'm, 'q) map_params \<Rightarrow> int \<Rightarrow> conf \<Rightarrow> (('k, 'v) map_call \<times> int) list \<Rightarrow> ('k, 'v) map_state list \<Rightarrow> bool"
  for lvl :: check_level and P :: "('k, 'v, 'r, 'l, 'm, 'q) map_params" and n :: int and cf :: conf where
  start: "make_sharded n (make_map P cf) = Inr s \<Longrightarrow> sharded_reach lvl P n cf [] s"
| call: "sharded_reach lvl P n cf cs s \<Longrightarrow> list_all (\<lambda>m. capacity P m \<le> 2 ^ 61) s \<Longrightarrow> ct_legal (pm_is_nan P) c
    \<Longrightarrow> ct_exec (sharded_container lvl (map_container lvl P)) c s = ret (r, s')
    \<Longrightarrow> sharded_reach lvl P n cf (cs @ [(c, r)]) s'"

lemma sharded_reach_ok:
  assumes "sharded_reach lvl (portable_map fp P) n cf cs s" and cf: "conf_ok 3 cf"
  shows "shards_ok (map_container lvl (portable_map fp P)) (map_inv (portable_map fp P)) entries s
    \<and> spec_run (has_duplicates (portable_map fp P)) cs {#} (shards_bag entries s)"
  using assms(1)
proof induction
  case (start s)
  then show ?case using sharded_start [OF start cf] by simp
next
  case (call cs s c r s')
  then show ?case using sharded_map.exec_law [OF _ call.hyps(2,3), of lvl] spec_run_snoc by fastforce
qed

definition demo_shards :: "(u64, u64) map_state list" where
  "demo_shards = [demo_map, demo_map]"

lemma demo_shards_made: "make_sharded 2 (make_map demo demo_conf) = Inr demo_shards"
proof -
  have "\<exists>e\<le>14. (2 :: int) = 2 ^ e" by (rule exI [of _ 1]) simp
  then show ?thesis by (simp add: sharded_construction demo_map_made demo_shards_def numeral_2_eq_2)
qed

lemma demo_shards_ok: "shards_ok (map_container lvl demo) (map_inv demo) entries demo_shards" and demo_shards_bag: "shards_bag entries demo_shards = {#}"
  using sharded_start [OF demo_shards_made demo_conf_ok] by simp_all

lemma demo_shards_room: "list_all (\<lambda>m. capacity demo m \<le> 2 ^ 61) demo_shards"
  by (simp add: demo_shards_def demo_map_capacity)

lemma demo_shards_put:
  "\<exists>r s. sharded_reach Check_debug demo 2 demo_conf [(Put 5 7, r)] s"
proof -
  have "ct_legal (pm_is_nan demo) (Put 5 7 :: (u64, u64) map_call)" using demo_flags by simp
  then obtain r s where "ct_exec (sharded_container Check_debug (map_container Check_debug demo)) (Put 5 7) demo_shards = ret (r, s)"
    using sharded_map.exec_law [OF demo_shards_ok demo_shards_room] by blast
  from sharded_reach.call [OF sharded_reach.start [OF demo_shards_made] demo_shards_room _ this] show ?thesis
    using demo_flags by auto
qed

text \<open>C11: A sharded map behaves like one map: whatever the number of shards, the union of the shards' contents
  and the results of any sequence of calls are those the abstract bag of entries gives, every entry
  lies in the shard its key's hash selects, and every shard is well-formed.\<close>

theorem sharded_run_refines:
  assumes "sharded_reach lvl (portable_map fp P) n cf cs s" and "conf_ok 3 cf"
  shows "spec_run (has_duplicates (portable_map fp P)) cs {#} (shards_bag entries s)
    \<and> shards_ok (map_container lvl (portable_map fp P)) (map_inv (portable_map fp P)) entries s"
  using sharded_reach_ok [OF assms] by blast

theorem sharded_run_witness:
  "\<exists>r s. spec_run (has_duplicates demo) [(Put 5 7, r)] {#} (shards_bag entries (s :: (u64, u64) map_state list))"
proof -
  obtain r s where "sharded_reach Check_debug demo 2 demo_conf [(Put 5 7, r)] s" using demo_shards_put by blast
  from sharded_run_refines [OF this demo_conf_ok] show ?thesis by blast
qed

text \<open>C16: Every legal call on a well-formed sharded map returns; what it returns and leaves behind is what the
  specification of a single map says: \<open>erase_if\<close> and \<open>size\<close> add up, \<open>resize\<close>, \<open>reserve\<close> and \<open>clear\<close>
  give at least the capacity asked for although each shard gets its share, rounded up.\<close>

theorem sharded_call_refines:
  assumes "shards_ok (map_container lvl (portable_map fp P)) (map_inv (portable_map fp P)) entries s"
    and "list_all (\<lambda>m. capacity (portable_map fp P) m \<le> 2 ^ 61) s" and "ct_legal (pm_is_nan (portable_map fp P)) c"
  shows "\<exists>r s'. ct_exec (sharded_container lvl (map_container lvl (portable_map fp P))) c s = ret (r, s')
    \<and> shards_ok (map_container lvl (portable_map fp P)) (map_inv (portable_map fp P)) entries s'
    \<and> spec_step (has_duplicates (portable_map fp P)) c (shards_bag entries s) r (shards_bag entries s')"
  by (rule sharded_map.exec_law [OF assms])

theorem sharded_call_witness:
  "\<exists>r s'. ct_exec (sharded_container Check_debug (map_container Check_debug demo)) (Reserve 1000) demo_shards = ret (r, s')
    \<and> shards_ok (map_container Check_debug demo) (map_inv demo) entries s'
    \<and> spec_step (has_duplicates demo) (Reserve 1000) (shards_bag entries demo_shards) r (shards_bag entries s')"
  by (rule sharded_call_refines [OF demo_shards_ok demo_shards_room]) simp

section \<open>Lookups and iteration\<close>

text \<open>Lookups, counts and sizes of a sharded map are those of the union of its shards.\<close>

theorem sharded_lookup_correct:
  assumes "shards_ok (map_container lvl (portable_map fp P)) (map_inv (portable_map fp P)) entries s"
  shows "sharded_contains (map_container lvl (portable_map fp P)) k s = ret (k \<in># keys_of (shards_bag entries s), s)
    \<and> sharded_count (map_container lvl (portable_map fp P)) k s = ret (int (count (keys_of (shards_bag entries s)) k))
    \<and> sharded_size (map_container lvl (portable_map fp P)) s = int (size (shards_bag entries s))
    \<and> (\<exists>p. sharded_find (map_container lvl (portable_map fp P)) k s = ret (p, s)
        \<and> (if k \<in># keys_of (shards_bag entries s)
           then \<exists>v b. at_shard lvl (ct_at (map_container lvl (portable_map fp P))) p s = ret (k, v, b) \<and> (k, v, b) \<in># shards_bag entries s
           else fst p = npos))"
  using sharded_map.contains_law [OF assms, of k] sharded_map.count_law [OF assms, of k] sharded_map.size_law [OF assms]
    sharded_map.find_law [OF assms, of k] by auto

theorem sharded_lookup_witness: "sharded_contains (map_container Check_debug demo) 5 demo_shards = ret (False, demo_shards)"
  using sharded_lookup_correct [OF demo_shards_ok, of Check_debug 5] by (simp add: demo_shards_bag)

text \<open>C32: From \<open>begin()\<close> on, incrementing visits the entries of all shards, each once, passing over empty
  shards, and then stands at \<open>end()\<close>, which is right of the container.\<close>

theorem sharded_iteration_correct:
  assumes "shards_ok (map_container lvl (portable_map fp P)) (map_inv (portable_map fp P)) entries s"
  shows "\<exists>its. iter_chain (sharded_inc (map_container lvl (portable_map fp P)) s) (sharded_is_right (map_container lvl (portable_map fp P)) s)
      (sharded_end (map_container lvl (portable_map fp P)) s) its (sharded_begin (map_container lvl (portable_map fp P)) s)
    \<and> image_mset (sharded_iter_entry (map_container lvl (portable_map fp P)) s) (mset its) = shards_bag entries s
    \<and> sharded_is_right (map_container lvl (portable_map fp P)) s (sharded_end (map_container lvl (portable_map fp P)) s)"
  using sharded_map.iter_law [OF assms] by auto

theorem sharded_iteration_witness:
  "sharded_begin (map_container Check_debug demo) demo_shards = sharded_end (map_container Check_debug demo) demo_shards"
proof -
  obtain its where its: "iter_chain (sharded_inc (map_container Check_debug demo) demo_shards)
      (sharded_is_right (map_container Check_debug demo) demo_shards) (sharded_end (map_container Check_debug demo) demo_shards) its
      (sharded_begin (map_container Check_debug demo) demo_shards)"
    "image_mset (sharded_iter_entry (map_container Check_debug demo) demo_shards) (mset its) = shards_bag entries demo_shards"
    using sharded_iteration_correct [OF demo_shards_ok, of Check_debug] by blast
  then have "its = []" by (simp add: demo_shards_bag)
  then show ?thesis using its(1) by simp
qed

text \<open>C33: The iterator made from the position \<open>find\<close> returns for a key that is not there stands at the end
  of the key's shard. Unless that is the last shard it is neither \<open>end()\<close> nor right of the container, so
  that comparing it with \<open>end()\<close>, as \<open>std_map_shim\<close> has its callers do, does not tell that the key is missing.\<close>

theorem sharded_missing_not_end:
  assumes ok: "shards_ok (map_container lvl (portable_map fp P)) (map_inv (portable_map fp P)) entries s"
    and k: "k \<notin># keys_of (shards_bag entries s)" and i: "to_shard_idx (map_container lvl (portable_map fp P)) s k < length s - 1"
  shows "\<exists>p it. sharded_find (map_container lvl (portable_map fp P)) k s = ret (p, s)
    \<and> sharded_to_iterator lvl (map_container lvl (portable_map fp P)) p s = ret it
    \<and> it \<noteq> sharded_end (map_container lvl (portable_map fp P)) s \<and> \<not> sharded_is_right (map_container lvl (portable_map fp P)) s it"
proof -
  let ?C = "map_container lvl (portable_map fp P)" and ?i = "to_shard_idx (map_container lvl (portable_map fp P)) s k"
  obtain p where p: "sharded_find ?C k s = ret (p, s)" "fst p = npos"
    using sharded_lookup_correct [OF ok, of k] k by auto
  have "snd p = ?i" using p(1) by (cases "ct_find ?C k (s ! ?i)" rule: option.exhaust)
    (auto simp: sharded_find_def Let_def on_shard_def tag_pos_def map_res_def ret_def map_sum_Inr)
  then have "p = (npos, ?i)" using p(2) by (metis prod.collapse)
  moreover have "?i < length s" using i by simp
  ultimately have "sharded_to_iterator lvl ?C p s = ret (iter_end (portable_map fp P) (s ! ?i), ?i)"
    by (simp add: sharded_to_iterator_def pos_shard_idx_def map_to_iterator to_iterator_def)
  then show ?thesis using p(1) i by (auto simp: sharded_end_def sharded_is_right_def)
qed

theorem sharded_missing_witness:
  "\<exists>p it. sharded_find (map_container Check_debug demo) 0 demo_shards = ret (p, demo_shards)
    \<and> sharded_to_iterator Check_debug (map_container Check_debug demo) p demo_shards = ret it
    \<and> it \<noteq> sharded_end (map_container Check_debug demo) demo_shards \<and> \<not> sharded_is_right (map_container Check_debug demo) demo_shards it"
proof (rule sharded_missing_not_end [OF demo_shards_ok])
  have "marsaglia_mix 0 = 0" by code_simp
  then have "pm_hash demo 0 = 0" by (simp add: pm_hash_def key_to_hash_def portable_map_def demo_base_def)
  then show "to_shard_idx (map_container Check_debug demo) demo_shards 0 < length demo_shards - 1"
    by (simp add: to_shard_idx_def hash_to_shard_idx_def align_pos_def demo_shards_def split: hash_layout.splits)
qed (simp add: demo_shards_bag)

section \<open>Equality\<close>

lemma bag_of_shard:
  assumes ok: "shards_ok C good bag s" and i: "i < length s"
  shows "bag (s ! i) = filter_mset (\<lambda>e. to_shard_idx C s (fst e) = i) (shards_bag bag s)"
proof -
  obtain R where R: "shards_bag bag s = bag (s ! i) + R" "\<forall>x\<in>#R. \<exists>j<length s. j \<noteq> i \<and> x \<in># bag (s ! j)"
    using shards_split [OF i, of bag] by blast
  have idx: "to_shard_idx C s (fst x) = j" if "j < length s" "x \<in># bag (s ! j)" for x j using ok that by (simp add: shards_ok_def)
  have "filter_mset (\<lambda>e. to_shard_idx C s (fst e) = i) R = {#}" using R(2) idx by (force simp: filter_mset_eq_conv)
  moreover have "filter_mset (\<lambda>e. to_shard_idx C s (fst e) = i) (bag (s ! i)) = bag (s ! i)"
    using idx i by (intro filter_mset_eq_conv [THEN iffD2]) auto
  ultimately show ?thesis by (simp add: R(1))
qed

text \<open>\<open>operator==\<close> on two sharded maps of as many shards, without duplicate keys and with blobs of one
  size, decides whether their contents are the same, as each key has its shard.\<close>

theorem sharded_equal_correct:
  assumes ok: "shards_ok (map_container lvl (portable_map fp P)) (map_inv (portable_map fp P)) entries s"
    and ok': "shards_ok (map_container lvl (portable_map fp P)) (map_inv (portable_map fp P)) entries t"
    and len: "length s = length t" and nd: "\<not> has_duplicates (portable_map fp P)"
    and w: "\<forall>m\<in>set s. \<forall>m'\<in>set t. blob_size (m_conf m) = blob_size (m_conf m')"
  shows "sharded_equal (map_container lvl (portable_map fp P)) s t = ret (shards_bag entries s = shards_bag entries t)"
proof -
  let ?C = "map_container lvl (portable_map fp P)"
  have each: "sharded_equal ?C s t = ret (\<forall>i<length s. entries (s ! i) = entries (t ! i))"
    if "list_all (map_inv (portable_map fp P)) s" "list_all (map_inv (portable_map fp P)) t" "length s = length t"
      "\<forall>m\<in>set s. \<forall>m'\<in>set t. blob_size (m_conf m) = blob_size (m_conf m')" for s t
    using that
  proof (induction s arbitrary: t)
    case (Cons c s)
    then obtain d t' where t: "t = d # t'" by (cases t) auto
    have "map_equal (portable_map fp P) c d = Some (entries c = entries d)"
      using portable.map_equal_ok [of fp P c d] Cons.prems nd t by auto
    moreover have "sharded_equal ?C s t' = ret (\<forall>i<length s. entries (s ! i) = entries (t' ! i))"
      using Cons.IH [of t'] Cons.prems t by auto
    ultimately show ?case using Cons.prems t by (auto simp: All_less_Suc2)
  qed simp
  have "(\<forall>i<length s. entries (s ! i) = entries (t ! i)) \<longleftrightarrow> shards_bag entries s = shards_bag entries t"
  proof
    assume "\<forall>i<length s. entries (s ! i) = entries (t ! i)"
    then have "map entries s = map entries t" using len by (intro nth_equalityI) simp_all
    then show "shards_bag entries s = shards_bag entries t" by (simp add: shards_bag_def)
  next
    assume "shards_bag entries s = shards_bag entries t"
    then show "\<forall>i<length s. entries (s ! i) = entries (t ! i)"
      using bag_of_shard [OF ok] bag_of_shard [OF ok'] to_shard_idx_length [OF len, of ?C] len by simp
  qed
  then show ?thesis using each [OF _ _ len w] ok ok' by (simp add: shards_ok_def)
qed

theorem sharded_equal_witness: "sharded_equal (map_container Check_debug demo) demo_shards demo_shards = ret True"
  using sharded_equal_correct [OF demo_shards_ok demo_shards_ok refl demo_flags(1), of Check_debug]
  by (simp add: demo_shards_def)

end
