(* ===== verification/GuardedProps.thy ===== *)
theory GuardedProps
  imports GuardedRun ShardedProps
begin

text \<open>
  Threads that share a guarded container and call its members: the calls of \<open>map_call\<close>, lookups, counts
  and sizes. Each sees the container as if the calls ran one after the other, and what they return is
  what the abstract bag of entries gives.
\<close>

section \<open>The calls\<close>

datatype ('k, 'v) guarded_call = Update "('k, 'v) map_call" | Ask_contains 'k | Ask_find 'k | Ask_count 'k | Ask_size

text \<open>A member with a number instead of its result, and the number of locks it keeps.\<close>

definition observe :: "('r \<Rightarrow> int) \<Rightarrow> ('c, 'r) member \<Rightarrow> ('c, int \<times> nat) member" where
  "observe f mb = \<lparr>mb_entry = mb_entry mb,
     mb_body = (\<lambda>s. map_res (\<lambda>(r, s). ((f r, mb_keeps mb r), s)) (mb_body mb s)), mb_keeps = snd\<rparr>"

fun guarded_member ::
    "('k, 'v, 'c, 'p, 'q, 'h, 'i) container \<Rightarrow> nat \<Rightarrow> ('k, 'v) guarded_call \<Rightarrow> ('c, int \<times> nat) member" where
  "guarded_member C me (Update (Insert k)) = observe (\<lambda>(p, op). of_bool (op = Op_insert)) (guarded_insert C me k)"
| "guarded_member C me (Update (Put k v)) = writes (\<lambda>s. guarded_subscript k)"
| "guarded_member C me (Update (Erase k)) = observe of_bool (guarded_erase C k)"
| "guarded_member C me (Update (Erase_all k)) = observe id (guarded_erase_all C k)"
| "guarded_member C me (Update (Erase_if f)) = observe id (writes (\<lambda>s. mb_body (guarded_erase_if C me
     (\<lambda>pos. case ct_key_at C (gp_inner pos) s of Some (Inr k) \<Rightarrow> f k | _ \<Rightarrow> False)) s))"
| "guarded_member C me (Update Clear) = observe id (guarded_clear C)"
| "guarded_member C me (Update (Clear_to n)) = observe id (guarded_clear_to C n)"
| "guarded_member C me (Update (Resize n)) = observe id (guarded_resize C n)"
| "guarded_member C me (Update (Reserve n)) = observe id (guarded_reserve C n)"
| "guarded_member C me (Update Grow) = observe id (guarded_grow C)"
| "guarded_member C me (Update Shrink) = observe id (guarded_shrink C)"
| "guarded_member C me (Update Scrub) = observe id (guarded_scrub C max_lru)"
| "guarded_member C me (Ask_contains k) = observe of_bool (guarded_contains C k)"
| "guarded_member C me (Ask_find k) = observe (\<lambda>pos. of_bool (\<not> ct_is_npos C (gp_inner pos))) (guarded_find C me k)"
| "guarded_member C me (Ask_count k) = observe id (guarded_count C k)"
| "guarded_member C me Ask_size = observe id (guarded_size C)"

text \<open>\<open>operator[]\<close> always throws; writing a value takes the position of an insertion.\<close>

fun guarded_legal :: "('k \<Rightarrow> bool) \<Rightarrow> ('k, 'v) guarded_call \<Rightarrow> bool" where
  "guarded_legal nan (Update (Put k v)) \<longleftrightarrow> False"
| "guarded_legal nan (Update c) \<longleftrightarrow> ct_legal nan c"
| "guarded_legal nan _ \<longleftrightarrow> True"

fun guarded_spec :: "bool \<Rightarrow> ('k, 'v) guarded_call \<Rightarrow> ('k, 'v) bag \<Rightarrow> int \<Rightarrow> ('k, 'v) bag \<Rightarrow> bool" where
  "guarded_spec dup (Update c) E r E' \<longleftrightarrow> spec_step dup c E r E'"
| "guarded_spec dup (Ask_contains k) E r E' \<longleftrightarrow> r = of_bool (k \<in># keys_of E) \<and> E' = E"
| "guarded_spec dup (Ask_find k) E r E' \<longleftrightarrow> r = of_bool (k \<in># keys_of E) \<and> E' = E"
| "guarded_spec dup (Ask_count k) E r E' \<longleftrightarrow> r = int (count (keys_of E) k) \<and> E' = E"
| "guarded_spec dup Ask_size E r E' \<longleftrightarrow> r = int (size E) \<and> E' = E"

fun guarded_spec_run ::
    "bool \<Rightarrow> (nat \<times> ('k, 'v) guarded_call \<times> (exn + int \<times> nat)) list \<Rightarrow> ('k, 'v) bag \<Rightarrow> ('k, 'v) bag \<Rightarrow> bool" where
  "guarded_spec_run dup [] E E' \<longleftrightarrow> E' = E"
| "guarded_spec_run dup ((t, x, r) # h) E E' \<longleftrightarrow> (\<exists>v n E1. r = Inr (v, n) \<and> guarded_spec dup x E v E1 \<and> guarded_spec_run dup h E1 E')"

lemmas member_defs = observe_def reads_def writes_def reads_keep_def writes_keep_def asks_def queries_def
  guarded_insert_def guarded_erase_def guarded_erase_all_def guarded_erase_if_def guarded_clear_def guarded_clear_to_def
  guarded_resize_def guarded_reserve_def guarded_grow_def guarded_shrink_def guarded_scrub_def guarded_contains_def
  guarded_find_def guarded_count_def guarded_size_def

lemma map_res_id: "map_res (\<lambda>x. x) r = r"
proof (cases r)
  case (Some z)
  then show ?thesis by (cases z) (simp_all add: map_res_def)
qed (simp add: map_res_def)

lemma update_exec:
  assumes "guarded_legal nan (Update c)"
  shows "map_res (\<lambda>((v, n), s). (v, s)) (mb_body (guarded_member C me (Update c)) s) = ct_exec C c s"
  using assms
  by (cases c) (simp_all add: member_defs map_res_comp map_res_id deferred_pos_def case_prod_unfold o_def)

lemma update_writes: "mb_entry (guarded_member C me (Update c)) = Take Writing"
  by (cases c) (simp_all add: member_defs)

section \<open>The contract\<close>

text \<open>A container whose lookups do not change it.\<close>

locale guarded_container = container_laws C dup nan good room bag
  for C :: "('k, 'v, 'c, 'p, 'q, 'h, 'i) container" and dup nan good room bag +
  assumes contains_pure: "ct_contains C k s = ret (b, s') \<Longrightarrow> s' = s"
    and find_pure: "ct_find C k s = ret (p, s') \<Longrightarrow> s' = s"
begin

abbreviation allowed :: "('k, 'v) guarded_call \<Rightarrow> 'c \<Rightarrow> bool" where
  "allowed x s \<equiv> guarded_legal nan x \<and> room s"

lemma member_spec:
  assumes good: "good s" and ok: "allowed x s"
  shows "\<exists>v n s'. mb_body (guarded_member C me x) s = ret ((v, n), s') \<and> good s' \<and> guarded_spec dup x (bag s) v (bag s')"
proof (cases x)
  case (Update c)
  have "ct_legal nan c" using ok Update by (cases c) simp_all
  then obtain r s' where e: "ct_exec C c s = ret (r, s')" "good s'" "spec_step dup c (bag s) r (bag s')"
    using exec_law [OF good] ok by blast
  have "map_res (\<lambda>((v, n), s). (v, s)) (mb_body (guarded_member C me (Update c)) s) = ret (r, s')"
    using update_exec [of nan c C me s] ok e(1) unfolding Update by (simp only:)
  then obtain n where "mb_body (guarded_member C me (Update c)) s = ret ((r, n), s')"
    by (auto simp: map_res_def ret_def map_sum_Inr)
  then show ?thesis using e(2,3) Update by auto
next
  case (Ask_contains k)
  then show ?thesis using contains_law [OF good, of k] good by (simp add: member_defs)
next
  case (Ask_find k)
  obtain p where "ct_find C k s = ret (p, s)" "ct_is_npos C p \<longleftrightarrow> k \<notin># keys_of (bag s)" using find_law [OF good] by blast
  then show ?thesis using Ask_find good by (simp add: member_defs locked_pos_def)
next
  case (Ask_count k)
  then show ?thesis using count_law [OF good, of k] good by (simp add: member_defs)
next
  case Ask_size
  then show ?thesis using size_law [OF good] good by (simp add: member_defs)
qed

lemma sequential_spec:
  assumes "sequential (guarded_member C me) allowed h s s'" and "good s"
  shows "good s' \<and> guarded_spec_run dup h (bag s) (bag s')"
  using assms
proof (induction h arbitrary: s)
  case (Cons e h)
  obtain t x r where e: "e = (t, x, r)" by (cases e)
  have ok: "allowed x s" using Cons.prems(1) e by simp
  obtain v n s1 where m: "mb_body (guarded_member C me x) s = ret ((v, n), s1)" "good s1" "guarded_spec dup x (bag s) v (bag s1)"
    using member_spec [OF Cons.prems(2) ok] by blast
  then have "r = Inr (v, n)" "sequential (guarded_member C me) allowed h s1 s'" using Cons.prems(1) e by (simp_all add: ret_def)
  then show ?case using Cons.IH [OF _ m(2)] m(3) e by auto
qed simp

end

sublocale guarded_container \<subseteq> calls: guarded_laws "guarded_member C me" allowed for me
proof
  fix x s r s'
  assume "entry_mode (mb_entry (guarded_member C me x)) = Reading" and b: "mb_body (guarded_member C me x) s = Some (Inr (r, s'))"
  then show "s' = s" using contains_pure find_pure
    by (cases x) (auto simp: update_writes member_defs keeping_res_def map_res_def map_sum_Inr ret_def)
qed


text \<open>Hash maps and sharded hash maps are such containers.\<close>

interpretation guarded_map: guarded_container "map_container lvl (portable_map fp P)" "has_duplicates (portable_map fp P)"
    "pm_is_nan (portable_map fp P)" "map_inv (portable_map fp P)" "\<lambda>m. capacity (portable_map fp P) m \<le> 2 ^ 61" entries for lvl fp P
  by unfold_locales (auto simp: keeping_def ret_def)

interpretation guarded_shards: guarded_container "sharded_container lvl (map_container lvl (portable_map fp P))"
    "has_duplicates (portable_map fp P)" "pm_is_nan (portable_map fp P)"
    "shards_ok (map_container lvl (portable_map fp P)) (map_inv (portable_map fp P)) entries"
    "list_all (\<lambda>m. capacity (portable_map fp P) m \<le> 2 ^ 61)" "shards_bag entries" for lvl fp P
  by unfold_locales (auto simp: sharded_contains_def sharded_find_def Let_def on_shard_def keeping_def map_res_def map_sum_Inr ret_def)

abbreviation guarded_map_run where
  "guarded_map_run lvl P me N \<equiv> guarded_run N (guarded_member (map_container lvl P) me)
     (\<lambda>x m. guarded_legal (pm_is_nan P) x \<and> capacity P m \<le> 2 ^ 61)"

section \<open>Threads on a guarded map\<close>

text \<open>C10: Any number of threads may call the members of a guarded map at the same time: the results, in the
  order the calls end, and the final contents are those of the abstract bag of entries when the calls are
  made one after the other, no call throws, and the map is well-formed in between.\<close>

theorem guarded_map_linearizable:
  assumes "make_map (portable_map fp P) cf = Inr m" and "conf_ok 3 cf"
    and "guarded_map_run lvl (portable_map fp P) me N m h g"
  shows "guarded_spec_run (has_duplicates (portable_map fp P)) h {#} (entries (gs_inner g)) \<and> map_inv (portable_map fp P) (gs_inner g)"
proof -
  obtain m' where "make_map (portable_map fp P) cf = Inr m'" "map_inv (portable_map fp P) m'" "entries m' = {#}"
    by (rule portable.make_map_ok [of fp P cf, unfolded map_size_bits]) (use assms(2) in simp_all)
  then have "map_inv (portable_map fp P) m" "entries m = {#}" using assms(1) by simp_all
  then show ?thesis
    using guarded_map.sequential_spec [OF guarded_map.calls.run_is_sequential(1) [OF assms(3)]] by simp
qed

text \<open>A thread asks whether key 5 is in the map; below, one has just entered an insertion.\<close>

definition asking :: "((u64, u64) guarded_call, (u64, u64) map_state) guarded_state" where
  "asking = (new_guarded demo_map)\<lparr>gs_lock := 1, gs_thread := (\<lambda>_. Calm)(0 := Running (Ask_contains 5) demo_map), gs_reads := (\<lambda>_. 0)(0 := 1),
     gs_writes := (\<lambda>_. False)(0 := False)\<rparr>"

lemma upd_const: "(\<lambda>_. c)(t := c) = (\<lambda>_. c)"
  by auto

lemma demo_ask: "guarded_map_run Check_debug demo 0 2 demo_map [(0, Ask_contains 5, Inr (0, 0))] (new_guarded demo_map)"
proof -
  let ?mem = "guarded_member (map_container Check_debug demo) 0"
  let ?al = "\<lambda>x m. guarded_legal (pm_is_nan demo) x \<and> capacity demo m \<le> 2 ^ 61"
  have e: "mb_entry (?mem (Ask_contains 5)) = Take Reading" by (simp add: member_defs)
  have "guarded_step 2 ?mem ?al (new_guarded demo_map) [] asking"
    using guarded_step.enter_take [of 0 2 "new_guarded demo_map" ?mem "Ask_contains 5" Reading 1 ?al] e
    by (simp add: new_guarded_def asking_def demo_map_capacity upd_const)
  moreover have "guarded_step 2 ?mem ?al asking [(0, Ask_contains 5, Inr (0, 0))] (new_guarded demo_map)"
  proof -
    have "ct_contains (map_container Check_debug demo) 5 demo_map = ret (False, demo_map)"
      using portable_container.contains_law [OF demo_map_inv, of Check_debug 5] by (simp add: demo_map_entries)
    then have b: "mb_body (?mem (Ask_contains 5)) demo_map = Some (Inr ((0, 0), demo_map))" by (simp add: member_defs ret_def map_res_def)
    have k: "mb_keeps (?mem (Ask_contains 5)) (0, 0) = 0" by (simp add: member_defs)
    have "rw_run 1 (leave_calls (Take Reading) 0) 0" by simp
    then show ?thesis
      using guarded_step.return [of 0 2 asking "Ask_contains 5" demo_map ?mem "(0, 0)" demo_map 0 ?al] b e k
      by (simp add: new_guarded_def asking_def upd_const)
  qed
  ultimately show ?thesis
    using guarded_run.step [OF guarded_run.step [OF guarded_run.start]] by (metis append_Nil)
qed

theorem guarded_map_linearizable_witness:
  "guarded_spec_run (has_duplicates demo) [(0, Ask_contains 5, Inr (0, 0))] {#} (entries (gs_inner
     (new_guarded demo_map :: ((u64, u64) guarded_call, (u64, u64) map_state) guarded_state)))"
  using guarded_map_linearizable [OF demo_map_made demo_conf_ok demo_ask] by blast

text \<open>C34: While a call that takes the exclusive lock runs on a guarded map, no other thread runs a call or
  holds a lock; a call that runs sees the map as it is now.\<close>

theorem guarded_exclusion:
  assumes run: "guarded_map_run lvl (portable_map fp P) me N m h g" and t: "t < N" "gs_thread g t = Running x s"
  shows "s = gs_inner g \<and> (mb_entry (guarded_member (map_container lvl (portable_map fp P)) me x) = Take Writing \<longrightarrow>
    gs_lock g = - 1 \<and> (\<forall>u<N. u \<noteq> t \<longrightarrow> gs_thread g u = Calm \<and> gs_reads g u = 0 \<and> \<not> gs_writes g u))"
proof -
  note inv = guarded_map.calls.run_is_sequential(2,3) [OF run]
  have x: "s = gs_inner g" "may_use (entry_mode (mb_entry (guarded_member (map_container lvl (portable_map fp P)) me x))) (gs_reads g t) (gs_writes g t)"
    using inv(2) t unfolding running_ok_def by blast+
  have "gs_lock g = - 1 \<and> (\<forall>u<N. u \<noteq> t \<longrightarrow> gs_thread g u = Calm \<and> gs_reads g u = 0 \<and> \<not> gs_writes g u)"
    if w: "mb_entry (guarded_member (map_container lvl (portable_map fp P)) me x) = Take Writing"
  proof -
    have "gs_writes g t" using x(2) w by simp
    then have l: "gs_lock g = - 1" "\<forall>u<N. gs_reads g u = 0" "\<forall>u<N. u \<noteq> t \<longrightarrow> \<not> gs_writes g u"
      using lock_okD(1) [OF inv(1) t(1)] by auto
    have "gs_thread g u = Calm" if u: "u < N" "u \<noteq> t" for u
    proof (cases "gs_thread g u")
      case (Running y s2)
      then have "may_use (entry_mode (mb_entry (guarded_member (map_container lvl (portable_map fp P)) me y))) (gs_reads g u) (gs_writes g u)"
        using inv(2) u(1) unfolding running_ok_def by blast
      then show ?thesis using l(2,3) u by (cases "entry_mode (mb_entry (guarded_member (map_container lvl (portable_map fp P)) me y))") auto
    qed
    then show ?thesis using l by blast
  qed
  then show ?thesis using x(1) by blast
qed

definition inserting :: "((u64, u64) guarded_call, (u64, u64) map_state) guarded_state" where
  "inserting = (new_guarded demo_map)\<lparr>gs_lock := - 1, gs_thread := (\<lambda>_. Calm)(0 := Running (Update (Insert 5)) demo_map),
     gs_reads := (\<lambda>_. 0)(0 := 0), gs_writes := (\<lambda>_. False)(0 := True)\<rparr>"

lemma demo_inserting: "guarded_map_run Check_debug demo 0 2 demo_map [] inserting"
proof -
  let ?mem = "guarded_member (map_container Check_debug demo) 0"
  let ?al = "\<lambda>x m. guarded_legal (pm_is_nan demo) x \<and> capacity demo m \<le> 2 ^ 61"
  have e: "mb_entry (?mem (Update (Insert 5))) = Take Writing" by (rule update_writes)
  have "guarded_step 2 ?mem ?al (new_guarded demo_map) [] inserting"
    using guarded_step.enter_take [of 0 2 "new_guarded demo_map" ?mem "Update (Insert 5)" Writing "- 1" ?al] e
    by (simp add: new_guarded_def inserting_def demo_map_capacity demo_flags upd_const)
  then show ?thesis using guarded_run.step [OF guarded_run.start] by (metis append_Nil)
qed

theorem guarded_exclusion_witness: "gs_lock inserting = - 1 \<and> gs_thread inserting 1 = Calm"
  using guarded_exclusion [OF demo_inserting, of 0 "Update (Insert 5)" demo_map]
    update_writes [of "map_container Check_debug demo" 0 "Insert 5"] by (simp add: inserting_def)

end
