(* ===== verification/Shim.thy ===== *)
theory Shim
  imports Sharded
begin

text \<open>
  \<open>std_map_shim<Inner>\<close> of std_map_shim.hpp: the interface of \<open>std::unordered_map\<close> over a container. The state is
  that of the inner container, an iterator an inner iterator. The forms that may write use the inner
  \<open>update\<close>, which is the inner \<open>find\<close>. \<open>mapped_at\<close> is taken at containers with values, where it is \<open>value_at\<close>.
\<close>

section \<open>Lookup\<close>

definition shim_at :: "('k, 'v, 'c, 'p, 'q, 'h, 'i) container \<Rightarrow> 'k \<Rightarrow> 'c \<Rightarrow> ('v \<times> 'c) res" where
  "shim_at C key s = bind_res (ct_find C key s) (\<lambda>(pos, s).
     if ct_is_npos C pos then Some (Inl Out_of_range) else keeping_res s (ct_value_at C pos s))"

definition shim_find :: "('k, 'v, 'c, 'p, 'q, 'h, 'i) container \<Rightarrow> 'k \<Rightarrow> 'c \<Rightarrow> ('i \<times> 'c) res" where
  "shim_find C key s = bind_res (ct_find C key s) (\<lambda>(pos, s). keeping_res s (ct_to_iterator C pos s))"

definition shim_equal_range :: "('k, 'v, 'c, 'p, 'q, 'h, 'i) container \<Rightarrow> 'k \<Rightarrow> 'c \<Rightarrow> (('i \<times> 'i) \<times> 'c) res" where
  "shim_equal_range C key s = bind_res (ct_find C key s) (\<lambda>(pos, s).
     bind_res (ct_to_iterator C pos s) (\<lambda>it1.
       let it1 = if \<not> ct_is_npos C pos then ct_inc C s it1 else it1
       in bind_res (ct_find C key s) (\<lambda>(pos, s). map_res (\<lambda>it0. ((it0, it1), s)) (ct_to_iterator C pos s))))"

definition shim_contains :: "('k, 'v, 'c, 'p, 'q, 'h, 'i) container \<Rightarrow> 'k \<Rightarrow> 'c \<Rightarrow> (bool \<times> 'c) res" where
  "shim_contains C key s = ct_contains C key s"

definition shim_count :: "('k, 'v, 'c, 'p, 'q, 'h, 'i) container \<Rightarrow> 'k \<Rightarrow> 'c \<Rightarrow> int res" where
  "shim_count C key s = ct_count C key s"

section \<open>Sizes\<close>

definition shim_capacity :: "('k, 'v, 'c, 'p, 'q, 'h, 'i) container \<Rightarrow> 'c \<Rightarrow> int" where
  "shim_capacity C s = ct_capacity C s"

definition shim_size :: "('k, 'v, 'c, 'p, 'q, 'h, 'i) container \<Rightarrow> 'c \<Rightarrow> int" where
  "shim_size C s = ct_size C s"

definition shim_empty :: "('k, 'v, 'c, 'p, 'q, 'h, 'i) container \<Rightarrow> 'c \<Rightarrow> bool" where
  "shim_empty C s = ct_is_empty C s"

definition shim_max_size :: int where
  "shim_max_size = max_capacity"

definition shim_set_max_load_factor :: "'f \<Rightarrow> unit res" where
  "shim_set_max_load_factor f = Some (Inl Out_of_range)"

definition shim_clear :: "('k, 'v, 'c, 'p, 'q, 'h, 'i) container \<Rightarrow> 'c \<Rightarrow> 'c res" where
  "shim_clear C s = map_res snd (ct_clear C s)"

definition shim_rehash :: "('k, 'v, 'c, 'p, 'q, 'h, 'i) container \<Rightarrow> int \<Rightarrow> 'c \<Rightarrow> 'c res" where
  "shim_rehash C n s = map_res snd (ct_resize C n s)"

definition shim_reserve :: "('k, 'v, 'c, 'p, 'q, 'h, 'i) container \<Rightarrow> int \<Rightarrow> 'c \<Rightarrow> 'c res" where
  "shim_reserve C n s = map_res snd (ct_reserve C n s)"

section \<open>Insertion\<close>

definition shim_insert :: "('k, 'v, 'c, 'p, 'q, 'h, 'i) container \<Rightarrow> 'k \<Rightarrow> 'v \<Rightarrow> 'c \<Rightarrow> (('i \<times> bool) \<times> 'c) res" where
  "shim_insert C key value s = bind_res (ct_insert C key s) (\<lambda>((pos, op), s).
     if op = Op_reject then Some (Inl Runtime_error)
     else let inserted = (op \<noteq> Op_found)
       in bind_res (if inserted then ct_set_value_at C pos value s else ret s) (\<lambda>s.
            map_res (\<lambda>it. ((it, inserted), s)) (ct_to_iterator C pos s)))"

definition shim_emplace :: "('k, 'v, 'c, 'p, 'q, 'h, 'i) container \<Rightarrow> 'k \<Rightarrow> 'v \<Rightarrow> 'c \<Rightarrow> (('i \<times> bool) \<times> 'c) res" where
  "shim_emplace C key value s = shim_insert C key value s"

definition shim_insert_or_assign :: "('k, 'v, 'c, 'p, 'q, 'h, 'i) container \<Rightarrow> 'k \<Rightarrow> 'v \<Rightarrow> 'c \<Rightarrow> (('i \<times> bool) \<times> 'c) res" where
  "shim_insert_or_assign C key value s = bind_res (ct_insert C key s) (\<lambda>((pos, op), s).
     if op = Op_reject then Some (Inl Runtime_error)
     else bind_res (ct_set_value_at C pos value s) (\<lambda>s.
       map_res (\<lambda>it. ((it, op \<noteq> Op_found), s)) (ct_to_iterator C pos s)))"

text \<open>The value is made from the arguments only when the key is new.\<close>

definition shim_try_emplace ::
    "('k, 'v, 'c, 'p, 'q, 'h, 'i) container \<Rightarrow> 'k \<Rightarrow> (unit \<Rightarrow> 'v) \<Rightarrow> 'c \<Rightarrow> (('i \<times> bool) \<times> 'c) res" where
  "shim_try_emplace C key construct s = bind_res (ct_insert C key s) (\<lambda>((pos, op), s).
     if op = Op_reject then Some (Inl Runtime_error)
     else let inserted = (op \<noteq> Op_found)
       in bind_res (if inserted then ct_set_value_at C pos (construct ()) s else ret s) (\<lambda>s.
            map_res (\<lambda>it. ((it, inserted), s)) (ct_to_iterator C pos s)))"

text \<open>\<open>operator[]\<close> returns a reference to the mapped value at this position.\<close>

definition shim_subscript :: "('k, 'v, 'c, 'p, 'q, 'h, 'i) container \<Rightarrow> 'k \<Rightarrow> 'c \<Rightarrow> ('p \<times> 'c) res" where
  "shim_subscript C key s = ct_subscript C key s"

section \<open>Erasure\<close>

definition shim_erase :: "('k, 'v, 'c, 'p, 'q, 'h, 'i) container \<Rightarrow> 'k \<Rightarrow> 'c \<Rightarrow> ('i \<times> 'c) res" where
  "shim_erase C key s = bind_res (ct_erase_first C key s) (\<lambda>((b, pos, seq), s).
     map_res (\<lambda>it. (if \<not> ct_is_npos C pos then ct_inc C s it else it, s)) (ct_to_iterator C pos s))"

text \<open>\<open>it_erase\<close> is the member \<open>erase\<close> of the inner iterator.\<close>

definition shim_erase_it :: "('i \<Rightarrow> 'c \<Rightarrow> (bool \<times> 'c) res) \<Rightarrow> 'i \<Rightarrow> 'c \<Rightarrow> 'c res" where
  "shim_erase_it it_erase it s = bind_res (it_erase it s) (\<lambda>(b, s). if \<not> b then Some (Inl Out_of_range) else ret s)"

fun shim_erase_loop ::
    "('k, 'v, 'c, 'p, 'q, 'h, 'i) container \<Rightarrow> ('i \<Rightarrow> 'c \<Rightarrow> (bool \<times> 'c) res) \<Rightarrow> nat \<Rightarrow> 'i \<Rightarrow> 'i \<Rightarrow> 'c \<Rightarrow> ('i \<times> 'c) res" where
  "shim_erase_loop C it_erase 0 first1 last1 s = None"
| "shim_erase_loop C it_erase (Suc n) first1 last1 s = (
     if ct_iter_less C first1 last1
     then bind_res (shim_erase_it it_erase first1 s) (\<lambda>s. shim_erase_loop C it_erase n (ct_inc C s first1) last1 s)
     else ret (first1, s))"

definition shim_erase_range ::
    "('k, 'v, 'c, 'p, 'q, 'h, 'i) container \<Rightarrow> bool \<Rightarrow> ('i \<Rightarrow> 'c \<Rightarrow> (bool \<times> 'c) res) \<Rightarrow> nat \<Rightarrow> 'i \<Rightarrow> 'i \<Rightarrow> 'c \<Rightarrow> ('i \<times> 'c) res" where
  "shim_erase_range C auto_shrink it_erase n first1 last1 s = (
     if auto_shrink then Some (Inl Runtime_error) else shim_erase_loop C it_erase n first1 last1 s)"

text \<open>The inner iterator of a hash map.\<close>

definition map_iter_erase ::
    "('k, 'v, 'r, 'l, 'm, 'q) map_params \<Rightarrow> int \<Rightarrow> ('k, 'v) map_state \<Rightarrow> (bool \<times> ('k, 'v) map_state) res" where
  "map_iter_erase P it m = map_res (\<lambda>((b, pos), m). (b, m)) (erase_at P (nat it) m)"

section \<open>Iterators and equality\<close>

definition shim_begin :: "('k, 'v, 'c, 'p, 'q, 'h, 'i) container \<Rightarrow> 'c \<Rightarrow> 'i" where
  "shim_begin C s = ct_begin C s"

definition shim_end :: "('k, 'v, 'c, 'p, 'q, 'h, 'i) container \<Rightarrow> 'c \<Rightarrow> 'i" where
  "shim_end C s = ct_end C s"

definition shim_inc :: "('k, 'v, 'c, 'p, 'q, 'h, 'i) container \<Rightarrow> 'c \<Rightarrow> 'i \<Rightarrow> 'i" where
  "shim_inc C s it = ct_inc C s it"

definition shim_deref :: "('k, 'v, 'c, 'p, 'q, 'h, 'i) container \<Rightarrow> 'c \<Rightarrow> 'i \<Rightarrow> 'k \<times> 'v" where
  "shim_deref C s it = (let (key, value, blob) = ct_iter_entry C s it in (key, value))"

definition shim_equal :: "('k, 'v, 'c, 'p, 'q, 'h, 'i) container \<Rightarrow> bool \<Rightarrow> 'c \<Rightarrow> 'c \<Rightarrow> bool res" where
  "shim_equal C same lhs rhs = (if same then ret True else ct_equal C lhs rhs)"

end
