(* ===== verification/ShimProps.thy ===== *)
theory ShimProps
  imports Shim MapDemo
begin

text \<open>
  The shim over a hash map without duplicate keys is the map of the standard library: a call on the shim
  returns what it returns on a partial function from keys to values and leaves what it leaves.
\<close>

section \<open>The standard map\<close>

datatype ('k, 'v) shim_call =
    S_insert 'k 'v | S_insert_or_assign 'k 'v | S_erase 'k | S_at 'k | S_find 'k | S_contains 'k | S_count 'k
  | S_size | S_empty | S_clear | S_reserve int | S_rehash int

datatype ('k, 'v) shim_result =
    R_unit | R_bool bool | R_int int | R_value 'v | R_end | R_entry 'k 'v | R_pair "('k, 'v) shim_result" bool | R_throw exn

text \<open>
  What a call on the standard map with the contents \<open>f\<close> returns. An iterator is \<open>end()\<close> or stands at an entry.
  The order of the entries is not specified: after an erasure the iterator is at \<open>end()\<close> or at any other entry.
\<close>

fun std_result :: "('k \<rightharpoonup> 'v) \<Rightarrow> ('k, 'v) shim_call \<Rightarrow> ('k, 'v) shim_result \<Rightarrow> bool" where
  "std_result f (S_insert k v) r \<longleftrightarrow> r = R_pair (R_entry k (case f k of None \<Rightarrow> v | Some w \<Rightarrow> w)) (f k = None)"
| "std_result f (S_insert_or_assign k v) r \<longleftrightarrow> r = R_pair (R_entry k v) (f k = None)"
| "std_result f (S_erase k) r \<longleftrightarrow> (case r of
     R_end \<Rightarrow> True | R_entry k' v' \<Rightarrow> f k \<noteq> None \<and> k' \<noteq> k \<and> f k' = Some v' | _ \<Rightarrow> False)"
| "std_result f (S_at k) r \<longleftrightarrow> r = (case f k of None \<Rightarrow> R_throw Out_of_range | Some v \<Rightarrow> R_value v)"
| "std_result f (S_find k) r \<longleftrightarrow> r = (case f k of None \<Rightarrow> R_end | Some v \<Rightarrow> R_entry k v)"
| "std_result f (S_contains k) r \<longleftrightarrow> r = R_bool (f k \<noteq> None)"
| "std_result f (S_count k) r \<longleftrightarrow> r = R_int (of_bool (f k \<noteq> None))"
| "std_result f S_size r \<longleftrightarrow> r = R_int (int (card (dom f)))"
| "std_result f S_empty r \<longleftrightarrow> r = R_bool (f = Map.empty)"
| "std_result f S_clear r \<longleftrightarrow> r = R_unit"
| "std_result f (S_reserve n) r \<longleftrightarrow> r = R_unit"
| "std_result f (S_rehash n) r \<longleftrightarrow> r = R_unit"

fun std_next :: "('k \<rightharpoonup> 'v) \<Rightarrow> ('k, 'v) shim_call \<Rightarrow> ('k \<rightharpoonup> 'v)" where
  "std_next f (S_insert k v) = (if f k = None then f(k \<mapsto> v) else f)"
| "std_next f (S_insert_or_assign k v) = f(k \<mapsto> v)"
| "std_next f (S_erase k) = f(k := None)"
| "std_next f S_clear = Map.empty"
| "std_next f _ = f"

text \<open>A call on the shim. An iterator it returns is compared with \<open>end()\<close> and read.\<close>

definition catching :: "'c \<Rightarrow> ('v \<times> 'c) res \<Rightarrow> (('k, 'v) shim_result \<times> 'c) res" where
  "catching s r = (case r of None \<Rightarrow> None | Some (Inl e) \<Rightarrow> ret (R_throw e, s) | Some (Inr (v, s')) \<Rightarrow> ret (R_value v, s'))"

definition shim_read :: "('k, 'v, 'c, 'p, 'q, 'h, 'i) container \<Rightarrow> 'c \<Rightarrow> 'i \<Rightarrow> ('k, 'v) shim_result" where
  "shim_read C s it = (if it = shim_end C s then R_end else R_entry (fst (shim_deref C s it)) (snd (shim_deref C s it)))"

lemma catching_simps: "catching s (ret (v, s')) = ret (R_value v, s')" "catching s (Some (Inl e)) = ret (R_throw e, s)"
  by (simp_all add: catching_def ret_def)

fun shim_exec ::
    "('k, 'v, 'c, 'p, 'q, 'h, 'i) container \<Rightarrow> ('k, 'v) shim_call \<Rightarrow> 'c \<Rightarrow> (('k, 'v) shim_result \<times> 'c) res" where
  "shim_exec C (S_insert k v) s = map_res (\<lambda>((it, b), s). (R_pair (shim_read C s it) b, s)) (shim_insert C k v s)"
| "shim_exec C (S_insert_or_assign k v) s = map_res (\<lambda>((it, b), s). (R_pair (shim_read C s it) b, s)) (shim_insert_or_assign C k v s)"
| "shim_exec C (S_erase k) s = map_res (\<lambda>(it, s). (shim_read C s it, s)) (shim_erase C k s)"
| "shim_exec C (S_at k) s = catching s (shim_at C k s)"
| "shim_exec C (S_find k) s = map_res (\<lambda>(it, s). (shim_read C s it, s)) (shim_find C k s)"
| "shim_exec C (S_contains k) s = map_res (\<lambda>(b, s). (R_bool b, s)) (shim_contains C k s)"
| "shim_exec C (S_count k) s = map_res (\<lambda>n. (R_int n, s)) (shim_count C k s)"
| "shim_exec C S_size s = ret (R_int (shim_size C s), s)"
| "shim_exec C S_empty s = ret (R_bool (shim_empty C s), s)"
| "shim_exec C S_clear s = map_res (\<lambda>s. (R_unit, s)) (shim_clear C s)"
| "shim_exec C (S_reserve n) s = map_res (\<lambda>s. (R_unit, s)) (shim_reserve C n s)"
| "shim_exec C (S_rehash n) s = map_res (\<lambda>s. (R_unit, s)) (shim_rehash C n s)"

fun shim_legal :: "('k \<Rightarrow> bool) \<Rightarrow> ('k, 'v) shim_call \<Rightarrow> bool" where
  "shim_legal nan (S_insert k v) \<longleftrightarrow> \<not> nan k"
| "shim_legal nan (S_insert_or_assign k v) \<longleftrightarrow> \<not> nan k"
| "shim_legal nan (S_reserve n) \<longleftrightarrow> n \<le> 2 ^ 62"
| "shim_legal nan (S_rehash n) \<longleftrightarrow> 0 \<le> n \<and> n \<le> 2 ^ 62"
| "shim_legal nan _ \<longleftrightarrow> True"

section \<open>Bags as functions\<close>

definition models :: "('k, 'v) bag \<Rightarrow> ('k \<rightharpoonup> 'v) \<Rightarrow> bool" where
  "models E f \<longleftrightarrow> (\<forall>k v. f k = Some v \<longleftrightarrow> (\<exists>b. (k, v, b) \<in># E))"

lemma models_None: "models E f \<Longrightarrow> f k = None \<longleftrightarrow> k \<notin># keys_of E"
  by (cases "f k") (force simp: models_def)+

lemma models_dom: "models E f \<Longrightarrow> dom f = set_mset (keys_of E)"
  using models_None [of E f] by (auto simp: dom_def)

lemma models_value: "models E f \<Longrightarrow> (k, v, b) \<in># E \<Longrightarrow> f k = Some v"
  by (auto simp: models_def)

lemma models_remove: "models E f \<Longrightarrow> models (filter_mset (\<lambda>e. fst e \<noteq> k) E) (f(k := None))"
  by (auto simp: models_def)

lemma models_put: "models E f \<Longrightarrow> models (add_mset (k, v, b) (filter_mset (\<lambda>e. fst e \<noteq> k) E)) (f(k \<mapsto> v))"
  by (auto simp: models_def)

lemma small_count: "c \<le> 1 \<Longrightarrow> (0 < c) = b \<Longrightarrow> c = of_bool b" for c :: nat
  by (cases b) simp_all

lemma unique_keys:
  assumes "\<forall>k. count (keys_of E) k \<le> 1"
  shows "size E = card (set_mset (keys_of E))" and "E = add_mset (k, v, b) E' \<Longrightarrow> E' = filter_mset (\<lambda>e. fst e \<noteq> k) E"
proof -
  have "keys_of E = mset_set (set_mset (keys_of E))"
  proof (rule multiset_eqI)
    fix k
    have "count (keys_of E) k \<le> 1" using assms by blast
    then have "count (keys_of E) k = of_bool (k \<in># keys_of E)" by (rule small_count) (rule count_greater_zero_iff)
    moreover have "count (mset_set (set_mset (keys_of E))) k = of_bool (k \<in># keys_of E)" by (simp only: count_mset_set' finite_set_mset) simp
    ultimately show "count (keys_of E) k = count (mset_set (set_mset (keys_of E))) k"
      by (rule trans [OF _ sym])
  qed
  then show "size E = card (set_mset (keys_of E))" by (metis size_image_mset size_mset_set)
  assume E: "E = add_mset (k, v, b) E'"
  have "count (keys_of E) k \<le> 1" using assms by blast
  then have "count (keys_of E') k = 0" unfolding E by simp
  then have "k \<notin># keys_of E'" unfolding not_in_iff .
  then have "filter_mset (\<lambda>e. fst e \<noteq> k) E' = E'" by (intro filter_mset_eq_conv [THEN iffD2]) auto
  then show "E' = filter_mset (\<lambda>e. fst e \<noteq> k) E" by (simp add: E)
qed


lemma map_shim_simps:
  "ct_insert (map_container lvl P) = api_insert P" "ct_set_value_at (map_container lvl P) p v m = ret (set_value_at (nat p) v m)"
  "ct_value_at (map_container lvl P) p m = ret (value_at m (nat p))"
  "ct_to_iterator (map_container lvl P) p m = Some (to_iterator lvl P m p)"
  "ct_erase_first (map_container lvl P) = api_erase_first P" "ct_clear (map_container lvl P) m = ret (clear_map P m)"
  "ct_reserve (map_container lvl P) = reserve P" "ct_resize (map_container lvl P) = resize_api P"
  by (simp_all add: map_container_def)

section \<open>The hash map behind the shim\<close>

lemma keeping_Inr [simp]: "keeping_res m (Some (Inr x)) = ret (x, m)"
  by (simp add: keeping_res_def)

lemma valid_unchanged: "auto_shrink_and_scrub P end1 n m = Some (Inr (True, m')) \<Longrightarrow> m' = m"
  by (auto simp: auto_shrink_and_scrub_def map_sum_Inr split: if_splits)

context swiss_map
begin

lemma in_range:
  assumes "map_inv P m" and "pos < length (m_states m)"
  shows "to_iterator lvl P m (int pos) = Inr (int pos)"
  using capacity_states [OF assms(1)] assms(2) by (simp add: to_iterator_def validate_range_def nvhm_assume_def npos_def)

lemma to_iterator_npos: "to_iterator lvl P m npos = Inr (iter_end P m)"
  by (simp add: to_iterator_def)

lemma set_value_length: "m_states (set_value_at pos v m) = m_states m"
  by (simp add: set_value_at_def)

lemma erase_first_pos:
  assumes inv: "map_inv P m" and inv': "map_inv P m'" and e: "erase_first P key (pm_hash P key) m = Some (Inr ((b, Some pos, seq), m'))"
  shows "pos < length (m_states m')"
proof -
  obtain c where c: "shape_ok P c m" "slots_ok P m" "empty_state \<in> set (m_states m)" by (rule map_invD [OF inv])
  show ?thesis
  proof (rule find_probe_ok [OF c refl, of key])
    fix n p assume f: "find_probe P key (pm_hash P key) m
        = Some (Some (p, empty_state \<in> set (bucket P (m_states m) (p div ksize P * ksize P))), seq_at P (pm_hash P key) n)"
      and p: "p \<in> occupied m"
    let ?e = "empty_state \<in> set (bucket P (m_states m) (p div ksize P * ksize P))"
    obtain x where x: "reset_slot P (capacity P m) p ?e m = Some (Inr x)" "(b, Some pos) = (True, if fst x then Some p else None)" "m' = snd x"
      using e f by (auto simp: erase_first_def erase_found_def map_sum_Inr)
    then have "fst x" "pos = p" by (auto split: if_splits)
    then have "x = (True, m')" using x(3) by (cases x) simp
    then have "m' = bury_slot ?e p m" using x(1) unfolding reset_slot_def by (simp only: valid_unchanged)
    then show ?thesis using p \<open>pos = p\<close> by (simp add: occupied_def bury_slot_def set_state_def)
  next
    fix n assume "find_probe P key (pm_hash P key) m = Some (None, seq_at P (pm_hash P key) n)"
    then show ?thesis using e by (simp add: erase_first_def erase_found_def)
  qed
qed

lemma read_iterator:
  assumes "map_inv P m" and "pos \<in> occupied m"
  shows "shim_read (map_container lvl P) m (int pos) = R_entry (key_at m pos) (value_at m pos)"
proof -
  have "int pos < capacity P m" using capacity_states [OF assms(1)] assms(2) by (simp add: occupied_def)
  then show ?thesis by (simp add: shim_read_def shim_end_def shim_deref_def iter_end_def entry_at_def)
qed

lemma shim_insert_ok:
  assumes inv: "map_inv P m" and cap: "capacity P m \<le> 2 ^ 61" and nan: "\<not> pm_is_nan P k" and nd: "\<not> has_duplicates P"
    and f: "models (entries m) f"
  shows "\<exists>it m'. shim_insert (map_container lvl P) k v m = ret ((it, f k = None), m') \<and> map_inv P m' \<and> models (entries m') (std_next f (S_insert k v))
      \<and> shim_read (map_container lvl P) m' it = R_entry k (case f k of None \<Rightarrow> v | Some w \<Rightarrow> w)"
    and "\<exists>it m'. shim_insert_or_assign (map_container lvl P) k v m = ret ((it, f k = None), m') \<and> map_inv P m' \<and> models (entries m') (f(k \<mapsto> v))
      \<and> shim_read (map_container lvl P) m' it = R_entry k v"
proof -
  obtain pos op n m1 where i: "insert_key P k (pm_hash P k) m = Some (Inr ((pos, op, seq_at P (pm_hash P k) n), m1))"
    "map_inv P m1" "pos \<in> occupied m1" "key_at m1 pos = k"
    and op: "op = Op_found \<and> entries m1 = entries m \<and> k \<in># keys_of (entries m)
      \<or> op = Op_insert \<and> k \<notin># keys_of (entries m)"
    by (rule insert_key_at [OF inv cap nan]) (use nd in auto)
  let ?m' = "set_value_at pos v m1"
  obtain r m' where p: "map_exec P (Put k v) m = Some (Inr (r, m'))" "map_inv P m'" "spec_step (has_duplicates P) (Put k v) (entries m) r (entries m')"
    by (rule put_ok [OF inv cap nan])
  have "m' = ?m'" using p(1) by (simp add: subscript_def i(1) npos_def)
  then have put: "map_inv P ?m'" "models (entries ?m') (f(k \<mapsto> v))" using p(2,3) nd models_put [OF f] by auto
  have len: "pos < length (m_states m1)" using i(3) by (simp add: occupied_def)
  have a: "api_insert P k m = ret ((int pos, op), m1)" by (simp add: api_insert_def i(1) ret_def)
  have it: "to_iterator lvl P ?m' (int pos) = Inr (int pos)" "to_iterator lvl P m1 (int pos) = Inr (int pos)"
    using in_range [OF put(1)] in_range [OF i(2) len] len by (simp_all add: set_value_length)
  note new = models_None [OF f, of k]
  have "key_at ?m' pos = k" "value_at ?m' pos = v"
    using set_value_at_ok(3) [OF i(2,3), of v pos] i(4) by (simp_all add: entry_at_def)
  then have read: "shim_read (map_container lvl P) ?m' (int pos) = R_entry k v"
    "shim_read (map_container lvl P) m1 (int pos) = R_entry k (value_at m1 pos)"
    using read_iterator [OF put(1), of pos lvl] read_iterator [OF i(2,3), of lvl] set_value_at_ok(2) [OF i(2,3), of v] i(3,4)
    by simp_all
  have "entry_at m1 pos \<in># entries m1" using i(3) by (simp add: entries_def)
  then have "f k = Some (value_at m1 pos)" if "entries m1 = entries m"
    using i(4) that by (intro models_value [OF f, where b = "blob_at m1 pos"]) (simp add: entry_at_def)
  then show "\<exists>it m'. shim_insert (map_container lvl P) k v m = ret ((it, f k = None), m') \<and> map_inv P m' \<and> models (entries m') (std_next f (S_insert k v))
      \<and> shim_read (map_container lvl P) m' it = R_entry k (case f k of None \<Rightarrow> v | Some w \<Rightarrow> w)"
    using op put i(2) f new read by (auto simp: shim_insert_def map_shim_simps a it)
  show "\<exists>it m'. shim_insert_or_assign (map_container lvl P) k v m = ret ((it, f k = None), m') \<and> map_inv P m' \<and> models (entries m') (f(k \<mapsto> v))
      \<and> shim_read (map_container lvl P) m' it = R_entry k v"
    using op put new read(1) by (auto simp: shim_insert_or_assign_def map_shim_simps a it)
qed

text \<open>After an erasure the iterator is at the end or at the next entry, which was there before.\<close>

lemma read_next:
  assumes inv: "map_inv P m'" and pos: "pos < length (m_states m')"
  shows "shim_read (map_container lvl P) m' (iter_inc P m' (int pos)) = R_end
    \<or> (\<exists>q \<in> occupied m'. shim_read (map_container lvl P) m' (iter_inc P m' (int pos)) = R_entry (key_at m' q) (value_at m' q))"
proof -
  let ?i = "iter_inc P m' (int pos)"
  have i: "?i = iter_up m' (capacity P m') (int pos + 1)" by (simp add: iter_inc_def)
  have "?i \<le> capacity P m'" using iter_up_spec [of "int pos + 1" m' "capacity P m'"] capacity_states [OF inv] pos by (simp add: i)
  moreover have "nat ?i \<in> occupied m' \<and> 0 \<le> ?i" if "?i < capacity P m'"
    using iter_up_spec [of "int pos + 1" m' "capacity P m'"] that capacity_states [OF inv]
    by (auto simp: i occupied_def contains_at_def state_at_def)
  moreover have "shim_read (map_container lvl P) m' (capacity P m') = R_end" by (simp add: shim_read_def shim_end_def iter_end_def)
  ultimately show ?thesis using read_iterator [OF inv, of "nat ?i" lvl] by (cases "?i < capacity P m'") auto
qed

lemma shim_erase_ok:
  assumes inv: "map_inv P m" and cap: "capacity P m \<le> 2 ^ 61" and safe: "scrub_safe" and nd: "\<not> has_duplicates P"
    and f: "models (entries m) f"
  shows "\<exists>it m'. shim_erase (map_container lvl P) k m = ret (it, m') \<and> map_inv P m' \<and> models (entries m') (f(k := None))
    \<and> std_result f (S_erase k) (shim_read (map_container lvl P) m' it)"
proof (rule erase_first_ok [OF inv cap safe, of k])
  fix n assume e: "erase_first P k (pm_hash P k) m = Some (Inr ((False, None, seq_at P (pm_hash P k) n), m))" "k \<notin># keys_of (entries m)"
  then have "f(k := None) = f" using models_None [OF f, of k] by auto
  then show ?thesis using inv f
    by (simp add: shim_erase_def map_shim_simps api_erase_first_def e(1) raw_of_def to_iterator_npos shim_read_def shim_end_def)
next
  fix n r m' v b assume e: "erase_first P k (pm_hash P k) m = Some (Inr ((True, r, seq_at P (pm_hash P k) n), m'))" "map_inv P m'"
    "entries m = add_mset (k, v, b) (entries m')"
  have "\<forall>k. count (keys_of (entries m)) k \<le> 1" using inv nd by (auto simp: map_inv_def keys_ok_entries)
  then have "entries m' = filter_mset (\<lambda>e. fst e \<noteq> k) (entries m)" using e(3) by (rule unique_keys(2))
  then have mo: "models (entries m') (f(k := None))" using models_remove [OF f] by simp
  have there: "f k \<noteq> None" using models_None [OF f, of k] e(3) by simp
  have left: "key_at m' q \<noteq> k \<and> f (key_at m' q) = Some (value_at m' q)" if "q \<in> occupied m'" for q
  proof -
    have "(f(k := None)) (key_at m' q) = Some (value_at m' q)"
      using that by (intro models_value [OF mo, where b = "blob_at m' q"]) (auto simp: entries_def entry_at_def)
    then show ?thesis by (auto split: if_splits)
  qed
  show ?thesis
  proof (cases r)
    case None
    then show ?thesis using e(1,2) mo
      by (simp add: shim_erase_def map_shim_simps api_erase_first_def raw_of_def to_iterator_npos shim_read_def shim_end_def)
  next
    case (Some pos)
    then have pos: "pos < length (m_states m')" using erase_first_pos [OF inv e(2)] e(1) by blast
    have "shim_erase (map_container lvl P) k m = ret (iter_inc P m' (int pos), m')"
      using in_range [OF e(2) pos] Some e(1) by (simp add: shim_erase_def map_shim_simps api_erase_first_def raw_of_def npos_def)
    then show ?thesis using e(2) mo read_next [OF e(2) pos, of lvl] left there by (auto simp: models_def)
  qed
qed

theorem shim_exec_ok:
  assumes inv: "map_inv P m" and cap: "capacity P m \<le> 2 ^ 61" and safe: "scrub_safe" and nd: "\<not> has_duplicates P"
    and leg: "shim_legal (pm_is_nan P) c" and f: "models (entries m) f"
  shows "\<exists>r m'. shim_exec (map_container lvl P) c m = ret (r, m') \<and> std_result f c r
    \<and> map_inv P m' \<and> models (entries m') (std_next f c)"
proof (cases c)
  case (S_insert k v)
  then show ?thesis using shim_insert_ok(1) [OF inv cap _ nd f, of k lvl v] leg by auto
next
  case (S_insert_or_assign k v)
  then show ?thesis using shim_insert_ok(2) [OF inv cap _ nd f, of k lvl v] leg by auto
next
  case (S_erase k)
  then show ?thesis using shim_erase_ok [OF inv cap safe nd f, of lvl k] by auto
next
  case (S_at k)
  obtain p where p: "api_find P k m = Some p" "p = npos \<longleftrightarrow> k \<notin># keys_of (entries m)"
    "p \<noteq> npos \<Longrightarrow> 0 \<le> p \<and> nat p \<in> occupied m \<and> key_at m (nat p) = k" using api_find_ok [OF inv, of k] by blast
  have "f k = Some (value_at m (nat p))" if "p \<noteq> npos"
  proof -
    have "entry_at m (nat p) \<in># entries m" using p(3) [OF that] by (simp add: entries_def)
    then show ?thesis using p(3) [OF that] models_value [OF f] by (simp add: entry_at_def)
  qed
  then show ?thesis using S_at p(1,2) models_None [OF f, of k] inv f
    by (cases "p = npos") (simp_all add: shim_at_def map_shim_simps catching_simps)
next
  case (S_find k)
  obtain p where p: "api_find P k m = Some p" "p = npos \<longleftrightarrow> k \<notin># keys_of (entries m)"
    "p \<noteq> npos \<Longrightarrow> 0 \<le> p \<and> nat p \<in> occupied m \<and> key_at m (nat p) = k" using api_find_ok [OF inv, of k] by blast
  show ?thesis
  proof (cases "p = npos")
    case True
    then show ?thesis using S_find p(1,2) models_None [OF f, of k] inv f
      by (simp add: shim_find_def map_shim_simps to_iterator_npos shim_read_def shim_end_def)
  next
    case False
    have o: "nat p \<in> occupied m" "key_at m (nat p) = k" "int (nat p) = p" using p(3) [OF False] by simp_all
    have "nat p < length (m_states m)" using o(1) by (simp add: occupied_def)
    then have it: "to_iterator lvl P m p = Inr p" "p < capacity P m" using in_range [OF inv, of "nat p" lvl] o(3) capacity_states [OF inv] by auto
    have "entry_at m (nat p) \<in># entries m" using o(1) by (simp add: entries_def)
    then have "f k = Some (value_at m (nat p))" using o(2) models_value [OF f] by (simp add: entry_at_def)
    then show ?thesis using S_find p(1) inv f it
      by (simp add: shim_find_def map_shim_simps shim_read_def shim_end_def iter_end_def shim_deref_def entry_at_def o(2))
  qed
next
  case (S_contains k)
  then show ?thesis using api_contains_ok [OF inv, of k] models_None [OF f, of k] inv f by (simp add: shim_contains_def)
next
  case (S_count k)
  have "count (keys_of (entries m)) k \<le> 1" using inv nd by (auto simp: map_inv_def keys_ok_entries)
  then have "count (keys_of (entries m)) k = of_bool (k \<in># keys_of (entries m))" by (rule small_count) (rule count_greater_zero_iff)
  moreover have "k \<in># keys_of (entries m) \<longleftrightarrow> f k \<noteq> None" by (simp only: models_None [OF f] not_not)
  ultimately have "int (count (keys_of (entries m)) k) = of_bool (f k \<noteq> None)" by (simp only: of_nat_of_bool)
  then show ?thesis using S_count count_key_ok [OF inv, of k] inv f by (simp add: shim_count_def ret_def)
next
  case S_size
  have "\<forall>k. count (keys_of (entries m)) k \<le> 1" using inv nd by (auto simp: map_inv_def keys_ok_entries)
  then have "size (entries m) = card (dom f)" using unique_keys(1) models_dom [OF f] by metis
  then show ?thesis using S_size map_size_entries [OF inv] inv f by (simp add: shim_size_def map_size_def)
next
  case S_empty
  have "entries m = {#} \<longleftrightarrow> f = Map.empty" using models_dom [OF f] by (metis dom_eq_empty_conv image_mset_is_empty_iff set_mset_eq_empty_iff)
  moreover have "is_empty_map P m \<longleftrightarrow> entries m = {#}" using map_size_entries [OF inv] by (auto simp: is_empty_map_def)
  ultimately show ?thesis using S_empty inv f by (simp add: shim_empty_def)
next
  case S_clear
  have "models {#} Map.empty" by (simp add: models_def)
  then show ?thesis using S_clear clear_map_ok(1,2) [OF inv] by (auto simp: shim_clear_def map_shim_simps)
next
  case (S_reserve n)
  obtain m' where "reserve P n m = Some (Inr (capacity P m', m'))" "map_inv P m'" "entries m' = entries m"
    by (rule reserve_ok [OF inv cap, of n]) (use leg S_reserve in simp_all)
  then show ?thesis using S_reserve f by (simp add: shim_reserve_def map_shim_simps)
next
  case (S_rehash n)
  obtain m' where "resize_api P n m = Some (Inr (capacity P m', m'))" "map_inv P m'" "entries m' = entries m"
    by (rule resize_api_ok [OF inv cap, of n]) (use leg S_rehash in simp_all)
  then show ?thesis using S_rehash f by (simp add: shim_rehash_def map_shim_simps)
qed

end


section \<open>The shim is the standard map\<close>

text \<open>C12: A call on the shim over a hash map without duplicate keys returns what a map of the standard
  library, a partial function, may return, and leaves what it leaves: \<open>insert\<close> does not overwrite,
  \<open>insert_or_assign\<close> does, both return an iterator at the entry of the key; \<open>at\<close> throws exactly for missing
  keys and \<open>find\<close> returns \<open>end()\<close> for them; \<open>erase\<close> returns \<open>end()\<close> or an iterator at another entry.\<close>

theorem shim_refines_std_map:
  assumes "map_inv (portable_map fp P) m" and "capacity (portable_map fp P) m \<le> 2 ^ 61" and "\<not> has_duplicates (portable_map fp P)"
    and "shim_legal (pm_is_nan (portable_map fp P)) c" and "models (entries m) f"
  shows "\<exists>r m'. shim_exec (map_container lvl (portable_map fp P)) c m = ret (r, m') \<and> std_result f c r
    \<and> map_inv (portable_map fp P) m' \<and> models (entries m') (std_next f c)"
  by (rule portable.shim_exec_ok [OF assms(1,2) _ assms(3-5)]) (simp add: portable.scrub_safe_def)

theorem shim_refines_std_map_witness:
  "\<exists>m'. shim_exec (map_container Check_debug demo) (S_insert 5 9) demo_one = ret (R_pair (R_entry 5 7) False, m')
    \<and> models (entries m') [5 \<mapsto> 7]"
proof -
  obtain b where "entries demo_one = {#(5, 7, b)#}" using demo_one_entries by blast
  then have "models (entries demo_one) [5 \<mapsto> 7]" by (auto simp: models_def)
  moreover have "capacity demo demo_one \<le> 2 ^ 61" by (simp add: demo_one_capacity)
  ultimately obtain r m' where "shim_exec (map_container Check_debug demo) (S_insert 5 9) demo_one = ret (r, m')"
    "std_result [5 \<mapsto> 7] (S_insert 5 (9 :: u64)) r" "models (entries m') (std_next [5 \<mapsto> 7] (S_insert 5 9))"
    using shim_refines_std_map [OF demo_one_inv _ demo_flags(1), of "S_insert 5 9" "[5 \<mapsto> 7]" Check_debug] demo_flags(2) by auto
  then show ?thesis by simp
qed

end
