(* ===== verification/ShimRange.thy ===== *)
theory ShimRange
  imports ShimProps
begin

text \<open>
  Erasing a range through the shim. It is refused for maps that shrink by themselves, but not for maps
  that scrub by themselves, where an erasure may move entries that the range has not reached yet to
  slots it has already passed.
\<close>

section \<open>A map that scrubs\<close>

definition pair_base :: "(u64, unit, state_t list, lru_t list, 32 word, probe_seq) map_params" where
  "pair_base = \<lparr>pm_flags = flag_auto_scrub, pm_kernel = array_kernel 2, pm_seq = default_seq, pm_bounded = False,
     pm_layout = Monkey_wrench, pm_mixer = Mixer_none, pm_hasher = (\<lambda>k. k), pm_is_nan = (\<lambda>_. False),
     pm_fresh_key = 0, pm_fresh_value = (), pm_fresh_byte = 0, pm_fresh_state = 0\<rparr>"

definition pair_conf :: conf where
  "pair_conf = \<lparr>min_capacity = 4, init_capacity = 4, blob_size = 0, blob_stride = 0, scrub_bias = 4, grow_bias = 4,
     shrink_bias = 4\<rparr>"

definition pair_map :: "u64 list \<Rightarrow> state_t list \<Rightarrow> int \<Rightarrow> int \<Rightarrow> (u64, unit) map_state" where
  "pair_map keys states ne nt = \<lparr>m_conf = pair_conf, m_bucket_mask = 2, m_values = replicate 4 (),
     m_blobs = [], m_keys = keys, m_grow_threshold = 1, m_states = states, m_num_empty = ne, m_num_tombstone = nt\<rparr>"

lemma pair_conf_ok: "conf_ok 1 pair_conf"
proof -
  have "is_valid 2 pair_conf" by code_simp
  moreover have "\<exists>a b. a \<le> b \<and> b \<le> 62 \<and> 4 = (2 :: int) ^ a \<and> 4 = (2 :: int) ^ b"
    by (rule exI [of _ 2], rule exI [of _ 2]) simp
  ultimately show ?thesis
    by (simp add: conf_ok_def pair_conf_def min_grow_bias_def max_grow_bias_def min_scrub_bias_def max_scrub_bias_def
        min_shrink_bias_def max_shrink_bias_def cache_line_size_def)
qed

lemma pair_made: "make_map pair_base pair_conf = Inr (pair_map [0, 0, 0, 0] [128, 128, 128, 128] 4 0)"
  by code_simp

lemma pair_capacity [simp]: "capacity pair_base (pair_map keys states ne nt) = 4"
proof -
  have "aligned_mask_to_capacity 2 2 = 4" by code_simp
  moreover have "ksize pair_base = 2" by (simp add: ksize_def pair_base_def array_kernel_def array_kernel_with_def)
  ultimately show ?thesis by (simp add: capacity_def pair_map_def)
qed

lemma pair_not_full: "2 \<le> ne \<Longrightarrow> \<not> is_full (pair_map keys states ne nt)"
  by (simp add: is_full_def should_grow_precalc_def pair_map_def)

lemma pair_nan [simp]: "\<not> pm_is_nan pair_base k"
  by (simp add: pair_base_def)

lemma insert_step:
  assumes p: "map_option snd (insert_probe P k (pm_hash P k) (capacity P m) m) = Some (Inr (Inr (pos, True)))"
    and full: "\<not> is_full m" and nan: "\<not> pm_is_nan P k"
  shows "map_exec P (Insert k) m = Some (Inr (1, place_key k (pm_state P (pm_hash P k)) pos True m))"
proof -
  obtain seq where "insert_probe P k (pm_hash P k) (capacity P m) m = Some (seq, Inr (Inr (pos, True)))" using p by auto
  then have "insert_loop P k (pm_hash P k) (capacity P m) m = Some (Inr (Inr (pos, True), seq, m))"
    by (subst insert_loop.simps) simp
  then have "insert_key P k (pm_hash P k) m = Some (Inr ((pos, Op_insert, seq), place_key k (pm_state P (pm_hash P k)) pos True m))"
    by (simp add: insert_key_def nan full)
  then show ?thesis by (simp add: api_insert_def)
qed

text \<open>Three keys of the first bucket: it takes two of them.\<close>

lemma pair_probes:
  "map_option snd (insert_probe pair_base 0 (pm_hash pair_base 0) 4 (pair_map [0, 0, 0, 0] [128, 128, 128, 128] 4 0))
    = Some (Inr (Inr (0, True)))"
  "map_option snd (insert_probe pair_base 4 (pm_hash pair_base 4) 4 (pair_map [0, 0, 0, 0] [0, 128, 128, 128] 3 0))
    = Some (Inr (Inr (1, True)))"
  "map_option snd (insert_probe pair_base 8 (pm_hash pair_base 8) 4 (pair_map [0, 4, 0, 0] [0, 0, 128, 128] 2 0))
    = Some (Inr (Inr (2, True)))"
  by code_simp+

lemma pair_places:
  "place_key 0 (pm_state pair_base (pm_hash pair_base 0)) 0 True (pair_map [0, 0, 0, 0] [128, 128, 128, 128] 4 0)
    = pair_map [0, 0, 0, 0] [0, 128, 128, 128] 3 0"
  "place_key 4 (pm_state pair_base (pm_hash pair_base 4)) 1 True (pair_map [0, 0, 0, 0] [0, 128, 128, 128] 3 0)
    = pair_map [0, 4, 0, 0] [0, 0, 128, 128] 2 0"
  "place_key 8 (pm_state pair_base (pm_hash pair_base 8)) 2 True (pair_map [0, 4, 0, 0] [0, 0, 128, 128] 2 0)
    = pair_map [0, 4, 8, 0] [0, 0, 0, 128] 1 0"
  by code_simp+

lemma pair_inserts:
  "map_exec pair_base (Insert 0) (pair_map [0, 0, 0, 0] [128, 128, 128, 128] 4 0) = Some (Inr (1, pair_map [0, 0, 0, 0] [0, 128, 128, 128] 3 0))"
  "map_exec pair_base (Insert 4) (pair_map [0, 0, 0, 0] [0, 128, 128, 128] 3 0) = Some (Inr (1, pair_map [0, 4, 0, 0] [0, 0, 128, 128] 2 0))"
  "map_exec pair_base (Insert 8) (pair_map [0, 4, 0, 0] [0, 0, 128, 128] 2 0) = Some (Inr (1, pair_map [0, 4, 8, 0] [0, 0, 0, 128] 1 0))"
  using insert_step [of pair_base 0 "pair_map [0, 0, 0, 0] [128, 128, 128, 128] 4 0" 0]
    insert_step [of pair_base 4 "pair_map [0, 0, 0, 0] [0, 128, 128, 128] 3 0" 1]
    insert_step [of pair_base 8 "pair_map [0, 4, 0, 0] [0, 0, 128, 128] 2 0" 2]
  by (simp_all only: pair_capacity pair_probes pair_places pair_nan pair_not_full) (simp_all add: pair_not_full)

lemma pair_reach: "map_reach pair_base pair_conf [(Insert 0, 1), (Insert 4, 1), (Insert 8, 1)] (pair_map [0, 4, 8, 0] [0, 0, 0, 128] 1 0)"
proof -
  note r0 = map_reach.start [OF pair_made]
  note r1 = map_reach.call [OF r0 _ _ pair_inserts(1), simplified]
  note r2 = map_reach.call [OF r1 _ _ pair_inserts(2), simplified]
  show ?thesis using map_reach.call [OF r2 _ _ pair_inserts(3)] by simp
qed

section \<open>The range\<close>

lemma pair_erases:
  "map_iter_erase pair_base 0 (pair_map [0, 4, 8, 0] [0, 0, 0, 128] 1 0) = ret (True, pair_map [8, 4, 8, 0] [0, 0, 128, 128] 2 0)"
  "map_iter_erase pair_base 1 (pair_map [8, 4, 8, 0] [0, 0, 128, 128] 2 0) = ret (True, pair_map [8, 4, 8, 0] [0, 129, 128, 128] 2 1)"
  by code_simp+

lemma pair_iterators:
  "iter_begin pair_base (pair_map [0, 4, 8, 0] [0, 0, 0, 128] 1 0) = 0"
  "iter_inc pair_base (pair_map [8, 4, 8, 0] [0, 0, 128, 128] 2 0) 0 = 1"
  "iter_inc pair_base (pair_map [8, 4, 8, 0] [0, 129, 128, 128] 2 1) 1 = 4"
  by code_simp+

lemma pair_contains: "api_contains pair_base 8 (pair_map [8, 4, 8, 0] [0, 129, 128, 128] 2 1) = Some True"
  by code_simp

text \<open>C37: Erasing everything from \<open>begin()\<close> to \<open>end()\<close> through the shim can leave an entry behind when the map
  scrubs by itself: after three insertions of keys that collide, the range erases two of them and ends at
  \<open>end()\<close>, and the third, moved to the first slot meanwhile, is still in the map.\<close>

theorem shim_range_erase_leaves:
  "\<exists>cs m m'. map_reach pair_base pair_conf cs m \<and> conf_ok 1 pair_conf
    \<and> shim_erase_range (map_container lvl pair_base) (test_flags (pm_flags pair_base) flag_auto_shrink) (map_iter_erase pair_base) 3
        (shim_begin (map_container lvl pair_base) m) (shim_end (map_container lvl pair_base) m) m
      = ret (shim_end (map_container lvl pair_base) m', m')
    \<and> api_contains pair_base 8 m' = Some True"
proof (intro exI conjI)
  show "map_reach pair_base pair_conf [(Insert 0, 1), (Insert 4, 1), (Insert 8, 1)] (pair_map [0, 4, 8, 0] [0, 0, 0, 128] 1 0)" by (rule pair_reach)
  have "ct_iter_less (map_container lvl pair_base) = (<)" by (simp add: map_container_def)
  moreover have "\<not> test_flags (pm_flags pair_base) flag_auto_shrink" by code_simp
  ultimately show "shim_erase_range (map_container lvl pair_base) (test_flags (pm_flags pair_base) flag_auto_shrink) (map_iter_erase pair_base) 3
        (shim_begin (map_container lvl pair_base) (pair_map [0, 4, 8, 0] [0, 0, 0, 128] 1 0))
        (shim_end (map_container lvl pair_base) (pair_map [0, 4, 8, 0] [0, 0, 0, 128] 1 0)) (pair_map [0, 4, 8, 0] [0, 0, 0, 128] 1 0)
      = ret (shim_end (map_container lvl pair_base) (pair_map [8, 4, 8, 0] [0, 129, 128, 128] 2 1), pair_map [8, 4, 8, 0] [0, 129, 128, 128] 2 1)"
    by (simp add: shim_erase_range_def shim_begin_def shim_end_def iter_end_def pair_iterators shim_erase_it_def pair_erases numeral_3_eq_3)
qed (rule pair_conf_ok, rule pair_contains)

end
