(* ===== verification/VectorKernel.thy ===== *)
theory VectorKernel
  imports ArrayKernel UintKernel
begin

text \<open>
  Kernels whose registers are vectors: a load copies the bytes of a bucket, and every operation is told by
  what it does to those bytes. The locale \<open>vector_kernel\<close> is what an implementation has to show; the
  contract of a kernel follows from it.
\<close>

section \<open>Bytes, signed and unsigned\<close>

lemma sint_u8: "sint x = (if is_hash x then uint x else uint x - 256)" for x :: u8
  using take_bit_int_eq_self [of "uint x" 8] uint_lt2p [of x]
  by (simp add: is_hash_iff_bit sint_uint signed_take_bit_eq_take_bit_minus bit_uint_iff)

lemma uint_u8: "0 \<le> uint x" "uint x < 256" "is_hash x \<longleftrightarrow> uint x < 128" for x :: u8
  using uint_lt2p [of x] by (simp_all add: is_hash_iff_bit bit_7_uint not_le)

lemma uint_minus: "uint (- x) = (if x = 0 then 0 else 256 - uint x)" for x :: u8
  using uint_lt2p [of x] by (auto simp: uint_word_ariths(4) zmod_zminus1_eq_if word_uint_eq_iff)

lemma sign_byte: "is_hash (if sint x < 0 then - x else if x = 0 then 0 else x) \<longleftrightarrow> x \<noteq> empty_state"
proof -
  have e: "x = empty_state \<longleftrightarrow> uint x = 128" by (simp add: word_uint_eq_iff empty_state_def)
  have z: "x = 0 \<longleftrightarrow> uint x = 0" by (simp add: word_uint_eq_iff)
  have "sint x < 0 \<longleftrightarrow> 128 \<le> uint x" using uint_u8 [of x] by (auto simp: sint_u8)
  then show ?thesis using uint_u8 [of x] by (auto simp: uint_u8(3) uint_minus e z)
qed

lemma flag_bytes: "is_hash (if b then 255 else 0) \<longleftrightarrow> \<not> b" "bit (if b then 255 else 0 :: u8) 7 \<longleftrightarrow> b"
  by (simp_all add: is_hash_iff_bit)

lemma all_ones: "0xff AND x = x" "x AND 0xff = x" "- 256 AND x = 0" "NOT 0 AND x = x" for x :: u8
proof -
  have m: "(0xff :: u8) = - 1" "(- 256 :: u8) = 0" by simp_all
  show "0xff AND x = x" "x AND 0xff = x" "- 256 AND x = 0" "NOT 0 AND x = x" unfolding m by simp_all
qed

text \<open>Flipping the sign bit turns the signed comparison into the unsigned one.\<close>

lemma bias_less: "sint (x XOR 0x80) < sint (y XOR 0x80) \<longleftrightarrow> x < y" for x y :: u8
proof -
  have b: "bit (0x80 :: u8) i \<longleftrightarrow> i = 7" for i by (rule bit_0x80)
  have u: "uint (x XOR 0x80) = (if is_hash x then uint x + 128 else uint x - 128)" for x :: u8
  proof (cases "is_hash x")
    case True
    have "x AND 0x80 = 0" by (rule bit_word_eqI) (use True in \<open>auto simp only: is_hash_iff_bit bit_and_iff b bit_0_eq bot_apply bot_bool_def\<close>)
    then have "x XOR 0x80 = x + 0x80" by (metis disjunctive_add_eq_or disjunctive_add_eq_xor)
    then show ?thesis using True uint_u8 [of x] by (simp add: uint_word_ariths)
  next
    case False
    have e: "(x XOR 0x80) XOR 0x80 = x" by (simp add: xor.assoc)
    have "(x XOR 0x80) AND 0x80 = 0"
      by (rule bit_word_eqI) (use False in \<open>auto simp only: is_hash_iff_bit bit_and_iff bit_xor_iff b bit_0_eq bot_apply bot_bool_def\<close>)
    then have "(x XOR 0x80) + 0x80 = x" using e by (metis disjunctive_add_eq_xor)
    then have "x XOR 0x80 = x - 0x80" by (metis add_diff_cancel_right')
    then show ?thesis using False uint_u8 [of x] by (simp add: uint_word_ariths)
  qed
  have "sint (x XOR 0x80) = uint x - 128" for x :: u8
    using uint_u8 [of x] by (auto simp: sint_u8 [of "x XOR 0x80"] uint_u8(3) u)
  then show ?thesis by (simp add: word_less_def)
qed

lemma tombstone_byte:
  "(if sint x < sint tombstone_state then 0xff else 0) + tombstone_state = (if sint tombstone_state < sint x then tombstone_state else x)"
proof -
  have t: "sint tombstone_state = - 127" "uint tombstone_state = 129" by (simp_all add: sint_u8 uint_u8(3) tombstone_state_def)
  have s: "uint x < 128 \<Longrightarrow> sint x = uint x" "\<not> uint x < 128 \<Longrightarrow> sint x = uint x - 256"
    by (simp_all add: sint_u8 uint_u8(3))
  have "0xff + tombstone_state = (0x80 :: u8)" by (simp add: tombstone_state_def)
  moreover have "x = 0x80" if "sint x < - 127"
  proof -
    have "uint x = 128" by (cases "uint x < 128") (use that s uint_u8(1,2) [of x] in linarith)+
    then show ?thesis by (simp add: word_uint_eq_iff)
  qed
  moreover have "x = tombstone_state" if "sint x = - 127"
  proof -
    have "uint x = uint tombstone_state" by (cases "uint x < 128") (use that s t(2) uint_u8(1,2) [of x] in linarith)+
    then show ?thesis by (simp add: word_uint_eq_iff)
  qed
  ultimately show ?thesis using t by auto
qed

lemma not_hash_to_empty_min: "(ucast (min (scast x :: u64) (scast empty_state)) :: u8) = min x empty_state" for x :: u8
proof (cases "is_hash x")
  case True
  then have "min x empty_state = x" by (simp add: uint_u8 min_def word_le_def empty_state_def)
  then show ?thesis using not_hash_to_empty_byte [of x] True by simp
next
  case False
  have u: "uint (scast x :: u64) = sint x mod 2 ^ 64" for x :: u8 by (simp only: scast_eq uint_word_of_int) simp
  have "uint (scast x :: u64) = uint x - 256 + 2 ^ 64"
  proof -
    have "uint (scast x :: u64) = (uint x - 256 + 2 ^ 64) mod 2 ^ 64" using False by (simp only: u sint_u8 if_False mod_add_self2)
    also have "\<dots> = uint x - 256 + 2 ^ 64" by (rule mod_pos_pos_trivial) (use uint_u8(1,2) [of x] in simp_all)
    finally show ?thesis .
  qed
  moreover have "uint (scast empty_state :: u64) = 2 ^ 64 - 128" by (simp add: empty_state_def)
  ultimately have "(scast empty_state :: u64) \<le> scast x" using False uint_u8 [of x] by (simp add: word_le_def)
  moreover have "empty_state \<le> x" using False by (simp add: uint_u8 word_le_def empty_state_def)
  ultimately show ?thesis by (simp add: min_absorb2 empty_state_def)
qed

section \<open>What an implementation shows\<close>

definition least_lru :: "lru_t list \<Rightarrow> lru_t" where
  "least_lru ls = Min (set ls)"

locale vector_kernel = array_mask M ok slots n loop
  for M :: "'m mask_ops" and ok :: "'m \<Rightarrow> bool" and slots :: "'m \<Rightarrow> nat set" and n :: nat
    and loop :: "(nat \<Rightarrow> bool) \<Rightarrow> 'm" +
  fixes K :: "('x, 'x, 'm) kernel_ops"
  assumes at_slot: "ok m \<Longrightarrow> i < n \<Longrightarrow> mk_at M m i \<longleftrightarrow> i \<in> slots m"
    and join_loop: "fold (\<lambda>i m. if p i then mk_join M m (mk_single M i) else m) [0..<n] (mk_empty M) = loop p"
    and K_size: "kn_size K = n"
    and K_mask: "kn_mask_ops K = M"
    and K_store: "length (kn_store K k) = n" "kn_load K (kn_store K k) = k" "length xs = n \<Longrightarrow> kn_store K (kn_load K xs) = xs"
    and K_lru: "kn_load_lru K = kn_load K" "kn_store_lru K = kn_store K"
    and K_masks: "kn_mask K k s = loop (\<lambda>i. kn_store K k ! i = s)"
      "kn_mask_not K k s = loop (\<lambda>i. kn_store K k ! i \<noteq> s)"
      "kn_mask_hash K k = loop (\<lambda>i. is_hash (kn_store K k ! i))"
      "kn_mask_not_hash K k = loop (\<lambda>i. is_not_hash (kn_store K k ! i))"
      "kn_mask_empty K k = loop (\<lambda>i. kn_store K k ! i = empty_state)"
      "kn_mask_not_empty K k = loop (\<lambda>i. kn_store K k ! i \<noteq> empty_state)"
      "kn_mask_tombstone K k = loop (\<lambda>i. kn_store K k ! i = tombstone_state)"
      "kn_mask_not_tombstone K k = loop (\<lambda>i. kn_store K k ! i \<noteq> tombstone_state)"
      "kn_mask_equal K k k' = loop (\<lambda>i. kn_store K k ! i = kn_store K k' ! i)"
      "kn_mask_not_equal K k k' = loop (\<lambda>i. kn_store K k ! i \<noteq> kn_store K k' ! i)"
      "kn_mask_min_lru K k = loop (\<lambda>i. kn_store K k ! i = least_lru (kn_store K k))"
      "kn_mask_lru_below K k t = loop (\<lambda>i. kn_store K k ! i < t)"
    and K_has: "kn_has_hash K k \<longleftrightarrow> mk_has_next M (kn_mask_hash K k)"
      "kn_has_not_hash K k \<longleftrightarrow> mk_has_next M (kn_mask_not_hash K k)"
      "kn_has_empty K k \<longleftrightarrow> mk_has_next M (kn_mask_empty K k)"
      "kn_has_not_empty K k \<longleftrightarrow> mk_has_next M (kn_mask_not_empty K k)"
      "kn_has_tombstone K k \<longleftrightarrow> mk_has_next M (kn_mask_tombstone K k)"
      "kn_has_not_tombstone K k \<longleftrightarrow> mk_has_next M (kn_mask_not_tombstone K k)"
    and K_count: "kn_count_equal K k k' = mk_count M (kn_mask_equal K k k')"
      "kn_count_not_equal K k k' = mk_count M (kn_mask_not_equal K k k')"
    and K_states: "kn_store K (kn_hash_to_tombstone K k) = map (\<lambda>x. if sint tombstone_state < sint x then tombstone_state else x) (kn_store K k)"
      "kn_store K (kn_not_hash_to_empty K k) = map (\<lambda>x. min x empty_state) (kn_store K k)"
      "ok m \<Longrightarrow> kn_store K (kn_to_empty K k m) = map (\<lambda>i. if i \<in> slots m then empty_state else kn_store K k ! i) [0..<n]"
      "kn_store K (kn_to_empty_if_lru_below K k l t)
        = map (\<lambda>i. if kn_store K l ! i < t then empty_state else kn_store K k ! i) [0..<n]"
    and K_at: "i < n \<Longrightarrow> kn_at K k i = kn_store K k ! i" "i < n \<Longrightarrow> kn_lru_at K k i = kn_store K k ! i"
    and K_min_lru: "kn_min_lru K l = (least_lru (kn_store K l), mk_next M (kn_mask_min_lru K l))"
    and K_update: "ok m \<Longrightarrow> slots m \<noteq> {} \<Longrightarrow> kn_store K (kn_update_lru K l m) = bump_lru (kn_store K l) (Min (slots m))"
begin

lemmas mask_facts = array_mask.axioms(1) [OF array_mask_axioms]

lemma has_next_loop: "mk_has_next M (loop p) \<longleftrightarrow> (\<exists>i<n. p i)"
  using mask_laws.has_next_iff [OF mask_facts loop_ok] by (auto simp: loop_slots)

lemma count_loop: "mk_count M (loop p) = card {i. i < n \<and> p i}"
  using mask_laws.count_card [OF mask_facts loop_ok] by (simp add: loop_slots)

lemma least_lru_min: "i < n \<Longrightarrow> least_lru (kn_store K l) \<le> kn_store K l ! i"
  by (simp add: least_lru_def K_store(1))

lemma least_lru_found: "\<exists>i<n. kn_store K l ! i = least_lru (kn_store K l)"
proof -
  have "Min (set (kn_store K l)) \<in> set (kn_store K l)"
    by (rule Min_in) (use n_pos K_store(1) [of l] in auto)
  then show ?thesis by (auto simp: least_lru_def in_set_conv_nth K_store(1))
qed

lemma min_mask: "slots (kn_mask_min_lru K l) \<noteq> {}" "first_min (kn_store K l) (Min (slots (kn_mask_min_lru K l)))"
proof -
  let ?S = "slots (kn_mask_min_lru K l)"
  have S: "?S = {i. i < n \<and> kn_store K l ! i = least_lru (kn_store K l)}" by (simp add: K_masks loop_slots)
  then show ne: "?S \<noteq> {}" using least_lru_found [of l] by blast
  have fin: "finite ?S" by (simp add: S)
  have m: "Min ?S \<in> ?S" using fin ne by (rule Min_in)
  have lt: "kn_store K l ! Min ?S < kn_store K l ! j" if "j < Min ?S" for j
  proof -
    have "j \<notin> ?S" using Min_le [OF fin] that by (meson not_le)
    then have "kn_store K l ! j \<noteq> least_lru (kn_store K l)" "j < n" using that m S by auto
    then show ?thesis using least_lru_min [of j l] m S by auto
  qed
  show "first_min (kn_store K l) (Min ?S)"
    unfolding first_min_def using m S lt least_lru_min by (auto simp: K_store(1))
qed

lemma min_lru_array: "kn_min_lru K l = array_min_lru (kn_store K l)"
proof -
  obtain v i where a: "array_min_lru (kn_store K l) = (v, i)" by fastforce
  have f: "first_min (kn_store K l) i" "v = kn_store K l ! i"
    using array_min_lru_first [OF _ a] n_pos by (simp_all add: K_store(1))
  have i: "Min (slots (kn_mask_min_lru K l)) = i" by (rule first_min_unique [OF min_mask(2) f(1)])
  have "mk_next M (kn_mask_min_lru K l) = i"
    using mask_laws.next_slot [OF mask_facts _ min_mask(1)] i by (simp add: K_masks(11) loop_ok)
  moreover have "v = least_lru (kn_store K l)"
    using f least_lru_found [of l] least_lru_min [of i l] by (metis K_store(1) first_min_def order_antisym)
  ultimately show ?thesis by (simp add: K_min_lru a)
qed

lemma next_min: "mk_next M (kn_mask_min_lru K l) = snd (array_min_lru (kn_store K l))"
  using K_min_lru [of l] by (simp add: min_lru_array)

end

sublocale vector_kernel \<subseteq> lanes: swiss_lru_kernel K ok slots
proof (intro swiss_lru_kernel.intro swiss_kernel.intro swiss_kernel_axioms.intro swiss_lru_kernel_axioms.intro; (unfold K_size K_mask K_lru)?)
  note loops = K_masks loop_ok loop_slots has_next_loop
  show "mask_laws M ok slots" by (rule mask_facts)
  show "0 < n" by (rule n_pos)
  show "mk_max_count M = n" by (rule max_count_n)
  fix xs :: "u8 list" assume xs: "length xs = n"
  show "kn_store K (kn_load K xs) = xs" by (rule K_store(3) [OF xs])
  show "kn_at K (kn_load K xs) i = xs ! i" and "kn_lru_at K (kn_load K xs) i = xs ! i" if "i < n" for i
    using that by (simp_all add: K_at K_store(3) [OF xs])
  show "ok (kn_mask K (kn_load K xs) s)" and "slots_with (\<lambda>x. x = s) xs \<subseteq> slots (kn_mask K (kn_load K xs) s)" for s
    by (auto simp: loops slots_with_def xs K_store(3))
  show "slots (kn_mask K (kn_load K xs) s) \<subseteq> slots_with is_hash xs" if "is_hash s" for s
    using that by (auto simp: loops slots_with_def xs K_store(3))
  show "ok (kn_mask_hash K (kn_load K xs))" and "slots (kn_mask_hash K (kn_load K xs)) = slots_with is_hash xs"
    and "ok (kn_mask_not_hash K (kn_load K xs))" and "slots (kn_mask_not_hash K (kn_load K xs)) = slots_with is_not_hash xs"
    and "ok (kn_mask_empty K (kn_load K xs))" and "slots (kn_mask_empty K (kn_load K xs)) = slots_with (\<lambda>x. x = empty_state) xs"
    and "ok (kn_mask_tombstone K (kn_load K xs))"
    and "slots (kn_mask_tombstone K (kn_load K xs)) = slots_with (\<lambda>x. x = tombstone_state) xs"
    by (simp_all add: loops slots_with_def xs K_store(3))
  show "kn_has_empty K (kn_load K xs) \<longleftrightarrow> empty_state \<in> set xs"
    and "kn_has_not_tombstone K (kn_load K xs) \<longleftrightarrow> (\<exists>x\<in>set xs. x \<noteq> tombstone_state)"
    by (auto simp: K_has loops in_set_conv_nth Bex_def xs K_store(3))
  show "kn_store K (kn_not_hash_to_empty K (kn_load K xs)) = map (\<lambda>s. if is_hash s then s else empty_state) xs"
    if "valid_states xs"
    using that not_hash_to_empty_byte by (auto simp: K_states K_store(3) xs valid_states_def list_all_iff not_hash_to_empty_min)
  show "first_min xs i \<and> v = xs ! i" if "kn_min_lru K (kn_load K xs) = (v, i)" for v i
    using array_min_lru_first [of xs v i] that n_pos by (simp add: min_lru_array K_store(3) xs)
  show "ok (kn_mask_min_lru K (kn_load K xs))" by (simp add: loops)
  show "slots (kn_mask_min_lru K (kn_load K xs)) \<noteq> {}" by (rule min_mask)
  then show "Min (slots (kn_mask_min_lru K (kn_load K xs))) = snd (kn_min_lru K (kn_load K xs))"
    using mask_laws.next_slot [OF mask_facts] by (simp add: K_min_lru loops)
  show "kn_store K (kn_update_lru K (kn_load K xs) m) = bump_lru xs (Min (slots m))" if "ok m" "slots m \<noteq> {}" for m
    using K_update [OF that] by (simp add: K_store(3) xs)
  show "kn_to_empty_if_lru_below K (kn_load K xs) (kn_load K ls) t
      = kn_load K (map2 (\<lambda>x l. if l < t then empty_state else x) xs ls)" if "length ls = n" for ls t
  proof -
    have "kn_store K (kn_to_empty_if_lru_below K (kn_load K xs) (kn_load K ls) t)
        = map2 (\<lambda>x l. if l < t then empty_state else x) xs ls"
      by (rule nth_equalityI) (simp_all add: K_states K_store(3) xs that)
    then show ?thesis by (metis K_store(2))
  qed
  show "kn_count_not_equal K (kn_load K xs) (kn_load K ys) = card {i. i < n \<and> xs ! i \<noteq> ys ! i}" if "length ys = n" for ys
    by (simp add: K_count K_masks count_loop K_store(3) xs that)
qed (rule K_store(3))

context vector_kernel
begin

lemma lanes_swiss: "swiss_lru_kernel K ok slots"
  by (rule lanes.swiss_lru_kernel_axioms)

end

lemmas vector_kernel_laws = vector_kernel.lanes_swiss

section \<open>Word masks\<close>

definition slots_word :: "nat \<Rightarrow> nat \<Rightarrow> mask_align \<Rightarrow> (nat \<Rightarrow> bool) \<Rightarrow> 'w::len word" where
  "slots_word n shift align p = fold (\<lambda>i m. if p i then m OR uint_mask_single shift align i True else m) [0..<n] 0"

lemma slots_word_cong [cong]:
  "n = n' \<Longrightarrow> shift = shift' \<Longrightarrow> align = align' \<Longrightarrow> (\<And>i. i < n' \<Longrightarrow> p i = q i)
    \<Longrightarrow> slots_word n shift align p = slots_word n' shift' align' q"
  unfolding slots_word_def by (auto intro: fold_cong)

lemma bit_slots_word:
  assumes len: "n * 2 ^ shift \<le> LENGTH('w)"
  shows "bit (slots_word n shift align p :: 'w::len word) j \<longleftrightarrow> (\<exists>i<n. p i \<and> j = slot_bit shift align i)"
proof -
  let ?f = "\<lambda>i m. if p i then m OR uint_mask_single shift align i True else m :: 'w word"
  have "bit (fold ?f [0..<k] 0) j \<longleftrightarrow> (\<exists>i<k. p i \<and> j = slot_bit shift align i)" if "k \<le> n" for k
    using that
  proof (induction k)
    case (Suc k)
    have "k < n" using Suc.prems by simp
    then have "bit (uint_mask_single shift align k True :: 'w word) j \<longleftrightarrow> j = slot_bit shift align k"
      using uint_mask_single_bits [OF _ len] by (metis in_bits singleton_iff)
    then show ?case using Suc by (auto simp: bit_or_iff less_Suc_eq)
  qed simp
  then show ?thesis by (simp add: slots_word_def)
qed

lemma slots_word_right: "n \<le> LENGTH('w) \<Longrightarrow> (slots_word n 0 Align_right p :: 'w::len word) = array_mask_loop n p"
  by (rule bit_word_eqI) (auto simp: bit_slots_word bit_array_mask_loop)

lemma uint_vector:
  assumes pos: "0 < n" and len: "n * 2 ^ shift \<le> LENGTH('w::len)"
  shows "array_mask (uint_mask n shift align :: 'w word mask_ops) (uint_mask_ok n shift align)
      (uint_mask_slots n shift align) n (slots_word n shift align)"
    and "i < n \<Longrightarrow> mk_at (uint_mask n shift align) (m :: 'w word) i \<longleftrightarrow> i \<in> uint_mask_slots n shift align m"
    and "fold (\<lambda>i m. if p i then mk_join (uint_mask n shift align) m (mk_single (uint_mask n shift align) i) else m) [0..<n]
      (mk_empty (uint_mask n shift align)) = (slots_word n shift align p :: 'w word)"
proof -
  show "array_mask (uint_mask n shift align :: 'w word mask_ops) (uint_mask_ok n shift align)
      (uint_mask_slots n shift align) n (slots_word n shift align)"
    by (intro array_mask.intro uint_mask_laws [OF len] array_mask_axioms.intro)
      (use pos in \<open>auto simp: uint_mask_def uint_mask_ok_def uint_mask_slots_def bit_slots_word [OF len] slot_bit_inj\<close>)
  show "fold (\<lambda>i m. if p i then mk_join (uint_mask n shift align) m (mk_single (uint_mask n shift align) i) else m) [0..<n]
      (mk_empty (uint_mask n shift align)) = (slots_word n shift align p :: 'w word)"
    by (simp add: slots_word_def uint_mask_def cong: if_cong)
  assume i: "i < n"
  have "bit (uint_mask_single shift align i True :: 'w word) j \<longleftrightarrow> j = slot_bit shift align i" for j
    using uint_mask_single_bits [OF i len] by (metis in_bits singleton_iff)
  then have "m AND uint_mask_single shift align i True \<noteq> 0 \<longleftrightarrow> bit m (slot_bit shift align i)"
    using bits_empty_iff [of "m AND uint_mask_single shift align i True"] by (auto simp: bits_def bit_and_iff)
  then show "mk_at (uint_mask n shift align) m i \<longleftrightarrow> i \<in> uint_mask_slots n shift align m"
    using i by (simp add: uint_mask_def uint_mask_slots_def)
qed

lemma truncate_slot:
  fixes m :: "'w::len word"
  assumes len: "n * 2 ^ shift \<le> LENGTH('w)" and ok: "uint_mask_ok n shift align m" and ne: "uint_mask_slots n shift align m \<noteq> {}"
  shows "bit (mk_truncate (uint_mask n shift align) m) j \<longleftrightarrow> j = slot_bit shift align (Min (uint_mask_slots n shift align m))"
proof -
  let ?S = "uint_mask_slots n shift align m"
  have fin: "finite ?S" by (simp add: uint_mask_slots_def)
  note b = bits_of_slots [OF ok]
  have m0: "m \<noteq> 0" using b ne bits_empty_iff [of m] by simp
  have min: "Min (bits m) = slot_bit shift align (Min ?S)"
    unfolding b by (rule mono_Min_commute [symmetric]) (use fin ne in \<open>auto simp: mono_def slot_bit_def\<close>)
  have st: "bit (m AND (m - 1)) j \<longleftrightarrow> bit m j \<and> j \<noteq> Min (bits m)" for j
    using bits_and_minus_one [OF m0] by (metis Diff_iff in_bits singleton_iff)
  have "Min ?S \<in> ?S" using fin ne by (rule Min_in)
  then have "bit m (slot_bit shift align (Min ?S))" by (simp add: uint_mask_slots_def)
  then show ?thesis using st by (auto simp: uint_mask_def bit_xor_iff min)
qed

lemma next_single:
  assumes "0 < n" and "n * 2 ^ shift \<le> LENGTH('w)" and "i < n"
  shows "mk_next (uint_mask n shift align) (slots_word n shift align (\<lambda>j. j = i) :: 'w::len word) = i"
proof -
  note laws = uint_vector(1) [OF assms(1,2), of align]
  have "uint_mask_slots n shift align (slots_word n shift align (\<lambda>j. j = i) :: 'w word) = {i}"
    using assms(3) by (auto simp: array_mask.loop_slots [OF laws])
  then show ?thesis
    using mask_laws.next_slot [OF uint_mask_laws [OF assms(2)], of align "slots_word n shift align (\<lambda>j. j = i)"]
      array_mask.loop_ok [OF laws] by simp
qed

lemma has_next_bit: "mk_has_next (uint_mask n shift align) w \<longleftrightarrow> (\<exists>j. bit w j)"
  using bits_empty_iff [of w] by (auto simp: uint_mask_def bits_def)

lemma has_next_nonzero: "mk_has_next (uint_mask n shift align) w \<longleftrightarrow> w \<noteq> 0"
  by (simp add: uint_mask_def)

end
