(* ===== verification/Simd.thy ===== *)
theory Simd
  imports VectorKernel
begin

text \<open>
  The vendor intrinsics the SSE and AVX kernels of kernel.hpp are written in. They are not part of the
  repository: \<open>vec_ops\<close> and its extensions are records of them, over an unspecified type of registers, and the
  locales state what the vendor documents of each, on the bytes of a register as a store writes them.
  \<open>vec_ops\<close> are those that exist for registers of 16, 32 and 64 bytes (\<open>_mm_\<close>, \<open>_mm256_\<close>, \<open>_mm512_\<close>),
  \<open>avx_ops\<close> those for 16 and 32 bytes only, and the others belong to one size. A mask register or
  the result of \<open>movemask\<close> is a word with one bit per byte; it is as wide as the mask of the kernel.
\<close>

section \<open>The intrinsics\<close>

record ('x, 'w) vec_ops =
  v_load :: "u8 list \<Rightarrow> 'x"
  v_store :: "'x \<Rightarrow> u8 list"
  v_set1_epi8 :: "u8 \<Rightarrow> 'x"
  v_set1_epi32 :: "32 word \<Rightarrow> 'x"
  v_min_epi8 :: "'x \<Rightarrow> 'x \<Rightarrow> 'x"
  v_min_epu8 :: "'x \<Rightarrow> 'x \<Rightarrow> 'x"
  v_and :: "'x \<Rightarrow> 'x \<Rightarrow> 'x"
  v_srli_epi32 :: "'x \<Rightarrow> nat \<Rightarrow> 'x"
  v_cvt_si32 :: "'x \<Rightarrow> 32 word"
  v_movepi8_mask :: "'x \<Rightarrow> 'w"
  v_cmpeq_epi8_mask :: "'x \<Rightarrow> 'x \<Rightarrow> 'w"
  v_cmpneq_epi8_mask :: "'x \<Rightarrow> 'x \<Rightarrow> 'w"
  v_cmplt_epu8_mask :: "'x \<Rightarrow> 'x \<Rightarrow> 'w"
  v_mask_set1_epi8 :: "'x \<Rightarrow> 'w \<Rightarrow> u8 \<Rightarrow> 'x"
  v_mask_add_epi8 :: "'x \<Rightarrow> 'w \<Rightarrow> 'x \<Rightarrow> 'x \<Rightarrow> 'x"
  v_permutexvar_epi8 :: "'x \<Rightarrow> 'x \<Rightarrow> 'x"

record ('x, 'w) avx_ops = "('x, 'w) vec_ops" +
  v_setzero :: 'x
  v_set1_epi64x :: "u64 \<Rightarrow> 'x"
  v_xor :: "'x \<Rightarrow> 'x \<Rightarrow> 'x"
  v_cmpeq_epi8 :: "'x \<Rightarrow> 'x \<Rightarrow> 'x"
  v_cmpgt_epi8 :: "'x \<Rightarrow> 'x \<Rightarrow> 'x"
  v_add_epi8 :: "'x \<Rightarrow> 'x \<Rightarrow> 'x"
  v_sign_epi8 :: "'x \<Rightarrow> 'x \<Rightarrow> 'x"
  v_blendv_epi8 :: "'x \<Rightarrow> 'x \<Rightarrow> 'x \<Rightarrow> 'x"
  v_movemask_epi8 :: "'x \<Rightarrow> 'w"
  v_unpacklo_epi8 :: "'x \<Rightarrow> 'x \<Rightarrow> 'x"

record 'x sse_ops = "('x, 32 word) avx_ops" +
  mm_or :: "'x \<Rightarrow> 'x \<Rightarrow> 'x"
  mm_andnot :: "'x \<Rightarrow> 'x \<Rightarrow> 'x"
  mm_cmplt_epi8 :: "'x \<Rightarrow> 'x \<Rightarrow> 'x"
  mm_set1_epi16 :: "16 word \<Rightarrow> 'x"
  mm_srli_si128 :: "'x \<Rightarrow> nat \<Rightarrow> 'x"
  mm_srli_epi64 :: "'x \<Rightarrow> nat \<Rightarrow> 'x"
  mm_unpacklo_epi64 :: "'x \<Rightarrow> 'x \<Rightarrow> 'x"
  mm_minpos_epu16 :: "'x \<Rightarrow> 'x"
  mm_cvtsi128_si64 :: "'x \<Rightarrow> u64"
  mm_cvtsi64_si128 :: "u64 \<Rightarrow> 'x"
  mm_insert_epi64 :: "'x \<Rightarrow> u64 \<Rightarrow> nat \<Rightarrow> 'x"
  mm_shuffle_epi8 :: "'x \<Rightarrow> 'x \<Rightarrow> 'x"
  mm_broadcastb_epi8 :: "'x \<Rightarrow> 'x"

record ('x, 'y) avx2_ops = "('y, 32 word) avx_ops" +
  mm256_castsi256_si128 :: "'y \<Rightarrow> 'x"
  mm256_extracti128_si256 :: "'y \<Rightarrow> nat \<Rightarrow> 'x"
  mm256_permute4x64_epi64 :: "'y \<Rightarrow> nat list \<Rightarrow> 'y"
  mm256_permutevar8x32_epi32 :: "'y \<Rightarrow> 'y \<Rightarrow> 'y"
  mm256_cvtepi8_epi64 :: "'x \<Rightarrow> 'y"
  mm256_broadcastb_epi8 :: "'x \<Rightarrow> 'y"

record ('x, 'y, 'z) avx512_ops = "('z, 64 word) vec_ops" +
  mm512_castsi512_si256 :: "'z \<Rightarrow> 'y"
  mm512_extracti64x4_epi64 :: "'z \<Rightarrow> nat \<Rightarrow> 'y"
  mm512_permutexvar_epi32 :: "'z \<Rightarrow> 'z \<Rightarrow> 'z"
  mm512_broadcastb_epi8 :: "'x \<Rightarrow> 'z"

section \<open>Lanes of several bytes\<close>

definition lane :: "nat \<Rightarrow> u8 list \<Rightarrow> nat \<Rightarrow> 'w::len word" where
  "lane g xs q = load_bytes (take g (drop (g * q) xs))"

definition each_lane :: "nat \<Rightarrow> ('w::len word \<Rightarrow> 'w word) \<Rightarrow> u8 list \<Rightarrow> u8 list" where
  "each_lane g f xs = concat (map (\<lambda>q. store_bytes (f (lane g xs q))) [0..<length xs div g])"

definition from_lanes :: "'w::len word list \<Rightarrow> u8 list" where
  "from_lanes ws = concat (map store_bytes ws)"

lemma length_store_bytes [simp]: "length (store_bytes (w :: 'w::len word)) = n_bytes TYPE('w)"
  by (simp add: store_bytes_def)

lemma nth_store_bytes [simp]: "i < n_bytes TYPE('w) \<Longrightarrow> store_bytes (w :: 'w::len word) ! i = byte_of w i"
  by (simp add: store_bytes_def)

lemma nth_concat_equal:
  "\<forall>ys \<in> set xss. length ys = g \<Longrightarrow> i < g * length xss \<Longrightarrow> concat xss ! i = xss ! (i div g) ! (i mod g)"
proof (induction xss arbitrary: i)
  case (Cons ys xss)
  have g: "length ys = g" "0 < g" using Cons.prems by (simp, cases g) simp_all
  show ?case
  proof (cases "i < g")
    case False
    then have "i - g < g * length xss" using Cons.prems(2) by (simp add: algebra_simps)
    moreover have "i div g = Suc ((i - g) div g)" "i mod g = (i - g) mod g"
      using False g by (simp_all add: le_div_geq le_mod_geq)
    ultimately show ?thesis using Cons.IH [of "i - g"] Cons.prems(1) False g by (simp add: nth_append)
  qed (use g in \<open>simp add: nth_append\<close>)
qed simp

lemma length_concat_equal: "\<forall>ys \<in> set xss. length ys = g \<Longrightarrow> length (concat xss) = g * length xss"
  by (induction xss) simp_all

lemma from_lanes_bytes [simp]:
  "length (from_lanes ws) = n_bytes TYPE('w) * length (ws :: 'w::len word list)"
  "i < n_bytes TYPE('w) * length ws \<Longrightarrow> from_lanes ws ! i = byte_of (ws ! (i div n_bytes TYPE('w))) (i mod n_bytes TYPE('w))"
proof -
  show "length (from_lanes ws) = n_bytes TYPE('w) * length ws"
    by (simp add: from_lanes_def length_concat_equal [where g = "n_bytes TYPE('w)"])
  assume i: "i < n_bytes TYPE('w) * length ws"
  then have "0 < n_bytes TYPE('w)" by (cases "n_bytes TYPE('w)") simp_all
  then show "from_lanes ws ! i = byte_of (ws ! (i div n_bytes TYPE('w))) (i mod n_bytes TYPE('w))"
    using i nth_concat_equal [of "map store_bytes ws" "n_bytes TYPE('w)" i]
    by (simp add: from_lanes_def less_mult_imp_div_less mult.commute)
qed

lemma each_lane_bytes:
  fixes f :: "'w::len word \<Rightarrow> 'w word"
  assumes "g = n_bytes TYPE('w)" and "g dvd length xs" and "i < length xs"
  shows "each_lane g f xs ! i = byte_of (f (lane g xs (i div g))) (i mod g)"
proof -
  have e: "each_lane g f xs = from_lanes (map (\<lambda>q. f (lane g xs q)) [0..<length xs div g])"
    by (simp add: each_lane_def from_lanes_def comp_def)
  have l: "g * (length xs div g) = length xs" using assms(2) by simp
  then have g: "0 < g" using assms(3) by (cases g) auto
  have "i div g < length xs div g" using assms(3) l g by (metis less_mult_imp_div_less mult.commute)
  moreover have "i < n_bytes TYPE('w) * length (map (\<lambda>q. f (lane g xs q)) [0..<length xs div g])"
    using assms(1,3) l by simp
  ultimately show "each_lane g f xs ! i = byte_of (f (lane g xs (i div g))) (i mod g)"
    unfolding e using from_lanes_bytes(2) assms(1) by simp
qed

lemma length_each_lane:
  fixes f :: "'w::len word \<Rightarrow> 'w word"
  shows "g = n_bytes TYPE('w) \<Longrightarrow> g dvd length xs \<Longrightarrow> length (each_lane g f xs) = length xs"
  unfolding each_lane_def by (subst length_concat_equal [where g = "n_bytes TYPE('w)"]) auto

lemma byte_lane:
  assumes "8 * g \<le> LENGTH('w)" and "j < g" and "g * q + j < length xs"
  shows "byte_of (lane g xs q :: 'w::len word) j = xs ! (g * q + j)"
  using assms by (simp add: lane_def byte_load_bytes)

lemma size_bytes [simp]: "n_bytes TYPE(16) = 2" "n_bytes TYPE(32) = 4" "n_bytes TYPE(64) = 8"
  by (simp_all add: n_bytes_def)

section \<open>What the intrinsics do\<close>

locale vec_intrinsics =
  fixes V :: "('x, 'm::len word, 'z) vec_ops_scheme" and n :: nat
  assumes n_size: "n \<in> {16, 32, 64}" "n \<le> LENGTH('m)"
    and store_length [simp]: "length (v_store V x) = n"
    and store_load: "length bs = n \<Longrightarrow> v_store V (v_load V bs) = bs"
    and load_store: "v_load V (v_store V x) = x"
    and set1_epi8: "v_store V (v_set1_epi8 V b) = replicate n b"
    and set1_epi32: "v_store V (v_set1_epi32 V w) = from_lanes (replicate (n div 4) w)"
    and min_epi8: "v_store V (v_min_epi8 V x y) = map2 (\<lambda>a b. if sint b < sint a then b else a) (v_store V x) (v_store V y)"
    and min_epu8: "v_store V (v_min_epu8 V x y) = map2 min (v_store V x) (v_store V y)"
    and v_and: "v_store V (v_and V x y) = map2 (AND) (v_store V x) (v_store V y)"
    and srli_epi32: "v_store V (v_srli_epi32 V x k) = each_lane 4 (drop_bit k :: 32 word \<Rightarrow> 32 word) (v_store V x)"
    and cvt_si32: "v_cvt_si32 V x = lane 4 (v_store V x) 0"
    and movepi8_mask: "bit (v_movepi8_mask V x) i \<longleftrightarrow> i < n \<and> bit (v_store V x ! i) 7"
    and cmpeq_epi8_mask: "bit (v_cmpeq_epi8_mask V x y) i \<longleftrightarrow> i < n \<and> v_store V x ! i = v_store V y ! i"
    and cmpneq_epi8_mask: "bit (v_cmpneq_epi8_mask V x y) i \<longleftrightarrow> i < n \<and> v_store V x ! i \<noteq> v_store V y ! i"
    and cmplt_epu8_mask: "bit (v_cmplt_epu8_mask V x y) i \<longleftrightarrow> i < n \<and> v_store V x ! i < v_store V y ! i"
    and mask_set1_epi8: "v_store V (v_mask_set1_epi8 V x m b) = map (\<lambda>i. if bit m i then b else v_store V x ! i) [0..<n]"
    and mask_add_epi8: "v_store V (v_mask_add_epi8 V src m x y)
      = map (\<lambda>i. if bit m i then v_store V x ! i + v_store V y ! i else v_store V src ! i) [0..<n]"
    and permutexvar_epi8: "v_store V (v_permutexvar_epi8 V idx x)
      = map (\<lambda>i. v_store V x ! (unat (v_store V idx ! i) mod n)) [0..<n]"

locale avx_intrinsics = vec_intrinsics V n
  for V :: "('x, 'm::len word, 'z) avx_ops_scheme" and n :: nat +
  assumes setzero: "v_store V (v_setzero V) = replicate n 0"
    and set1_epi64x: "v_store V (v_set1_epi64x V w) = from_lanes (replicate (n div 8) w)"
    and v_xor: "v_store V (v_xor V x y) = map2 (XOR) (v_store V x) (v_store V y)"
    and cmpeq_epi8: "v_store V (v_cmpeq_epi8 V x y) = map2 (\<lambda>a b. if a = b then 0xff else 0) (v_store V x) (v_store V y)"
    and cmpgt_epi8: "v_store V (v_cmpgt_epi8 V x y) = map2 (\<lambda>a b. if sint b < sint a then 0xff else 0) (v_store V x) (v_store V y)"
    and add_epi8: "v_store V (v_add_epi8 V x y) = map2 (+) (v_store V x) (v_store V y)"
    and sign_epi8: "v_store V (v_sign_epi8 V x y)
      = map2 (\<lambda>a b. if sint b < 0 then - a else if b = 0 then 0 else a) (v_store V x) (v_store V y)"
    and blendv_epi8: "v_store V (v_blendv_epi8 V x y m)
      = map (\<lambda>i. if bit (v_store V m ! i) 7 then v_store V y ! i else v_store V x ! i) [0..<n]"
    and movemask_epi8: "bit (v_movemask_epi8 V x) i \<longleftrightarrow> i < n \<and> bit (v_store V x ! i) 7"
    and unpacklo_epi8: "v_store V (v_unpacklo_epi8 V x y)
      = map (\<lambda>i. v_store V (if even i then x else y) ! (16 * (i div 16) + i mod 16 div 2)) [0..<n]"

locale sse_intrinsics = avx_intrinsics I 16
  for I :: "'x sse_ops" +
  assumes mm_or: "v_store I (mm_or I x y) = map2 (OR) (v_store I x) (v_store I y)"
    and mm_andnot: "v_store I (mm_andnot I x y) = map2 (\<lambda>a b. NOT a AND b) (v_store I x) (v_store I y)"
    and mm_cmplt_epi8: "v_store I (mm_cmplt_epi8 I x y) = map2 (\<lambda>a b. if sint a < sint b then 0xff else 0) (v_store I x) (v_store I y)"
    and mm_set1_epi16: "v_store I (mm_set1_epi16 I v) = from_lanes (replicate 8 v)"
    and mm_srli_si128: "v_store I (mm_srli_si128 I x k) = map (\<lambda>i. if i + k < 16 then v_store I x ! (i + k) else 0) [0..<16]"
    and mm_srli_epi64: "v_store I (mm_srli_epi64 I x k) = each_lane 8 (drop_bit k :: u64 \<Rightarrow> u64) (v_store I x)"
    and mm_unpacklo_epi64: "v_store I (mm_unpacklo_epi64 I x y) = take 8 (v_store I x) @ take 8 (v_store I y)"
    and mm_minpos_epu16: "v_store I (mm_minpos_epu16 I x)
      = (let ws = map (lane 2 (v_store I x)) [0..<8] :: 16 word list; v = Min (set ws)
         in from_lanes (v # of_nat (length (takeWhile (\<lambda>w. w \<noteq> v) ws)) # replicate 6 0))"
    and mm_cvtsi128_si64: "mm_cvtsi128_si64 I x = lane 8 (v_store I x) 0"
    and mm_cvtsi64_si128: "v_store I (mm_cvtsi64_si128 I w) = store_bytes w @ replicate 8 0"
    and mm_insert_epi64: "v_store I (mm_insert_epi64 I x w k)
      = (if k = 0 then store_bytes w @ drop 8 (v_store I x) else take 8 (v_store I x) @ store_bytes w)"
    and mm_shuffle_epi8: "v_store I (mm_shuffle_epi8 I x idx)
      = map (\<lambda>i. let s = v_store I idx ! i in if bit s 7 then 0 else v_store I x ! (unat s mod 16)) [0..<16]"
    and mm_broadcastb_epi8: "v_store I (mm_broadcastb_epi8 I x) = replicate 16 (v_store I x ! 0)"

locale avx2_intrinsics = sse_intrinsics I + wide: avx_intrinsics J 32
  for I :: "'x sse_ops" and J :: "('x, 'y) avx2_ops" +
  assumes mm256_castsi256_si128: "v_store I (mm256_castsi256_si128 J y) = take 16 (v_store J y)"
    and mm256_extracti128_si256: "v_store I (mm256_extracti128_si256 J y k) = (if k = 0 then take 16 (v_store J y) else drop 16 (v_store J y))"
    and mm256_permute4x64_epi64: "length ks = 4 \<Longrightarrow> set ks \<subseteq> {0..<4} \<Longrightarrow> v_store J (mm256_permute4x64_epi64 J y ks)
      = map (\<lambda>i. v_store J y ! (8 * (ks ! (i div 8)) + i mod 8)) [0..<32]"
    and mm256_permutevar8x32_epi32: "v_store J (mm256_permutevar8x32_epi32 J y idx)
      = from_lanes (map (\<lambda>i. lane 4 (v_store J y) (unat (lane 4 (v_store J idx) i :: 32 word) mod 8) :: 32 word) [0..<8])"
    and mm256_cvtepi8_epi64: "v_store J (mm256_cvtepi8_epi64 J x) = from_lanes (map (\<lambda>i. scast (v_store I x ! i) :: u64) [0..<4])"
    and mm256_broadcastb_epi8: "v_store J (mm256_broadcastb_epi8 J x) = replicate 32 (v_store I x ! 0)"

locale avx512_intrinsics = avx2_intrinsics I J + zmm: vec_intrinsics L 64
  for I :: "'x sse_ops" and J :: "('x, 'y) avx2_ops" and L :: "('x, 'y, 'v) avx512_ops" +
  assumes mm512_castsi512_si256: "v_store J (mm512_castsi512_si256 L z) = take 32 (v_store L z)"
    and mm512_extracti64x4_epi64: "v_store J (mm512_extracti64x4_epi64 L z k) = (if k = 0 then take 32 (v_store L z) else drop 32 (v_store L z))"
    and mm512_permutexvar_epi32: "v_store L (mm512_permutexvar_epi32 L idx z)
      = from_lanes (map (\<lambda>i. lane 4 (v_store L z) (unat (lane 4 (v_store L idx) i :: 32 word) mod 16) :: 32 word) [0..<16])"
    and mm512_broadcastb_epi8: "v_store L (mm512_broadcastb_epi8 L x) = replicate 64 (v_store I x ! 0)"

section \<open>Facts the kernels share\<close>

lemma byte_of_selector: "j < 8 \<Longrightarrow> byte_of (0x8040201008040201 :: u64) j = 2 ^ j"
proof -
  assume "j < 8"
  then consider "j = 0" | "j = 1" | "j = 2" | "j = 3" | "j = 4" | "j = 5" | "j = 6" | "j = 7" by linarith
  then show ?thesis by cases (simp_all add: byte_of_def)
qed

lemma low_byte:
  "8 \<le> length xs \<Longrightarrow> ucast (lane 8 xs 0 :: u64) = xs ! 0" "4 \<le> length xs \<Longrightarrow> ucast (lane 4 xs 0 :: 32 word) = xs ! 0"
  using byte_lane [of 8 0 0 xs, where 'w = 64] byte_lane [of 4 0 0 xs, where 'w = 32] by (cases xs; simp add: byte_of_def)+

lemma wide_byte: "8 * j + 8 \<le> LENGTH('w) \<Longrightarrow> ucast (signed_drop_bit (j * 8) w) = byte_of w j" for w :: "'w::len word"
  by (rule bit_word_eqI) (auto simp: bit_ucast_iff bit_signed_drop_bit_iff bit_byte_of ac_simps)

lemma lane_from_lanes:
  fixes ws :: "'w::len word list"
  assumes "g = n_bytes TYPE('w)" and "whole_bytes TYPE('w)" and "q < length ws"
  shows "lane g (from_lanes ws) q = ws ! q"
proof (rule word_eq_bytesI [OF assms(2)])
  fix j assume j: "j < n_bytes TYPE('w)"
  have len: "8 * n_bytes TYPE('w) \<le> LENGTH('w)" by (simp add: n_bytes_def)
  have "n_bytes TYPE('w) * q + j < n_bytes TYPE('w) * q + n_bytes TYPE('w)" using j by simp
  also have "\<dots> = n_bytes TYPE('w) * Suc q" by simp
  also have "\<dots> \<le> n_bytes TYPE('w) * length ws" using assms(3) by (intro mult_left_mono) simp_all
  finally have l: "n_bytes TYPE('w) * q + j < n_bytes TYPE('w) * length ws" .
  then show "byte_of (lane g (from_lanes ws) q :: 'w word) j = byte_of (ws ! q) j"
    using byte_lane [OF len j, of q "from_lanes ws"] j assms(1) by simp
qed

lemma least_lru_halves:
  assumes "length xs = n" and "length ys = n" and "0 < n"
  shows "least_lru (map2 min xs ys) = least_lru (xs @ ys)"
proof -
  have ne: "xs \<noteq> []" "ys \<noteq> []" using assms by auto
  have "min (Min (set xs)) (Min (set ys)) = Min (set (map2 min xs ys))"
  proof (rule Min_eqI [symmetric])
    fix v assume "v \<in> set (map2 min xs ys)"
    then obtain i where "i < n" "v = min (xs ! i) (ys ! i)" using assms by (auto simp: in_set_conv_nth)
    then show "min (Min (set xs)) (Min (set ys)) \<le> v" using assms by (simp only:) (rule min.mono; simp)
  next
    have a: "Min (set xs) \<in> set xs" "Min (set ys) \<in> set ys" using ne by simp_all
    show "min (Min (set xs)) (Min (set ys)) \<in> set (map2 min xs ys)"
    proof (cases "Min (set xs) \<le> Min (set ys)")
      case True
      obtain i where i: "i < n" "xs ! i = Min (set xs)" using a(1) assms by (auto simp: in_set_conv_nth)
      then have "xs ! i \<le> ys ! i" using True assms by (simp add: order_trans [OF _ Min_le])
      then have "map2 min xs ys ! i = Min (set xs)" using i assms by simp
      then show ?thesis using True i assms by (metis length_map length_zip min.idem min_absorb1 nth_mem)
    next
      case False
      obtain i where i: "i < n" "ys ! i = Min (set ys)" using a(2) assms by (auto simp: in_set_conv_nth)
      have "Min (set xs) \<le> xs ! i" using i(1) assms by simp
      then have "ys ! i \<le> xs ! i" using False i(2) by (metis nle_le order_trans)
      then have "map2 min xs ys ! i = Min (set ys)" using i assms by (simp add: min_absorb2)
      then show ?thesis using False i assms by (metis length_map length_zip min.idem min_absorb2 nle_le nth_mem)
    qed
  qed simp
  then show ?thesis using ne by (simp add: least_lru_def Min_Un)
qed

lemma half_byte: "byte_of (drop_bit 1 w) j AND 0x7f = drop_bit 1 (byte_of w j)" for w :: "'w::len word"
proof -
  have m: "(0x7f :: u8) = mask 7" by (simp add: mask_eq_exp_minus_1)
  have b: "bit (0x7f :: u8) i \<longleftrightarrow> i < 7" for i unfolding m bit_mask_iff by auto
  show ?thesis by (rule bit_word_eqI) (auto simp: bit_and_iff b bit_byte_of bit_drop_bit_eq ac_simps simp del: bit_numeral_word_iff)
qed

lemma byte_exp: "j < 8 \<Longrightarrow> k < 8 \<Longrightarrow> byte_of (2 ^ (k * 8) :: u64) j = of_bool (j = k)"
  by (rule bit_word_eqI) (auto simp: bit_byte_of bit_exp_iff bit_1_iff)

lemma each_lane_halves:
  assumes "g = n_bytes TYPE('w::len)" and "8 * g \<le> LENGTH('w)" and "g dvd length xs" and "i < length xs"
  shows "each_lane g (drop_bit (Suc 0) :: 'w word \<Rightarrow> 'w word) xs ! i AND 0x7f = drop_bit (Suc 0) (xs ! i)"
proof -
  have g: "0 < g" using assms(3,4) by (cases g) auto
  then have "byte_of (lane g xs (i div g) :: 'w word) (i mod g) = xs ! i"
    using byte_lane [OF assms(2), of "i mod g" "i div g" xs] assms(4) by simp
  then show ?thesis
    using each_lane_bytes [OF assms(1,3,4), of "drop_bit (Suc 0)"] by (simp add: half_byte [unfolded One_nat_def])
qed

lemma least_lruI: "length ls = n \<Longrightarrow> (\<And>i. i < n \<Longrightarrow> v \<le> ls ! i) \<Longrightarrow> i < n \<Longrightarrow> v = ls ! i \<Longrightarrow> v = least_lru ls"
  unfolding least_lru_def by (rule Min_eqI [symmetric]) (auto simp: in_set_conv_nth)

text \<open>The least of eight 16 bit lanes whose upper bytes are zero.\<close>

lemma minpos_low:
  assumes "length xs = 16" and "\<And>q. q < 8 \<Longrightarrow> xs ! (2 * q + 1) = 0"
  shows "ucast (Min (set (map (lane 2 xs) [0..<8])) :: 16 word) = Min ((\<lambda>q. xs ! (2 * q)) ` {0..<8})"
proof -
  have "(lane 2 xs q :: 16 word) = ucast (xs ! (2 * q))" if q: "q < 8" for q
  proof (rule word_eq_bytesI)
    fix j assume "j < n_bytes TYPE(16)"
    then consider "j = 0" | "j = 1" by (simp, linarith)
    then show "byte_of (lane 2 xs q :: 16 word) j = byte_of (ucast (xs ! (2 * q)) :: 16 word) j"
    proof cases
      case 1
      have "byte_of (ucast (xs ! (2 * q)) :: 16 word) 0 = xs ! (2 * q)"
        by (rule bit_word_eqI) (auto simp: bit_byte_of bit_ucast_iff dest: bit_imp_le_length)
      then show ?thesis using 1 byte_lane [of 2 0 q xs, where 'w = 16] q assms(1) by simp
    next
      case 2
      have "byte_of (ucast (xs ! (2 * q)) :: 16 word) 1 = 0"
        by (rule bit_word_eqI) (auto simp: bit_byte_of bit_ucast_iff dest: bit_imp_le_length)
      then show ?thesis using 2 byte_lane [of 2 1 q xs, where 'w = 16] q assms by simp
    qed
  qed simp
  then have "set (map (lane 2 xs) [0..<8]) = (ucast :: u8 \<Rightarrow> 16 word) ` (\<lambda>q. xs ! (2 * q)) ` {0..<8}"
    unfolding image_image set_map by (intro image_cong) auto
  moreover have "Min ((ucast :: u8 \<Rightarrow> 16 word) ` (\<lambda>q. xs ! (2 * q)) ` {0..<8}) = ucast (Min ((\<lambda>q. xs ! (2 * q)) ` {0..<8}))"
    by (rule mono_Min_commute [symmetric]) (auto simp: mono_def word_le_def uint_up_ucast is_up)
  ultimately show ?thesis by (simp add: ucast_up_ucast_id is_up)
qed

lemma pair_least:
  assumes "length ls = 2 * k" and "0 < k" and f: "\<And>q. q < k \<Longrightarrow> f q = min (ls ! (2 * q)) (ls ! (2 * q + 1))"
  shows "Min (f ` {0..<k}) = least_lru ls"
proof -
  have "Min (f ` {0..<k}) \<in> f ` {0..<k}" by (rule Min_in) (use assms(2) in auto)
  then obtain q where m: "Min (f ` {0..<k}) = f q" and q: "q < k" by auto
  have "\<exists>i<2 * k. f q = ls ! i"
  proof (cases "ls ! (2 * q) \<le> ls ! (2 * q + 1)")
    case True
    then show ?thesis using f [OF q] q by (intro exI [of _ "2 * q"]) (simp add: min_def)
  next
    case False
    then show ?thesis using f [OF q] q by (intro exI [of _ "2 * q + 1"]) (simp add: min_def)
  qed
  then obtain i where i: "i < 2 * k" "f q = ls ! i" by blast
  have le: "Min (f ` {0..<k}) \<le> ls ! j" if "j < 2 * k" for j
  proof -
    have "j div 2 < k" using that by (simp add: less_mult_imp_div_less)
    then have "Min (f ` {0..<k}) \<le> f (j div 2)" by (intro Min_le) auto
    also have "\<dots> \<le> ls ! j"
      using f [OF \<open>j div 2 < k\<close>] by (cases "even j") (auto elim!: evenE oddE simp: min_le_iff_disj)
    finally show ?thesis .
  qed
  show ?thesis by (rule least_lruI [OF assms(1) le i(1)]) (simp_all add: m i)
qed

end
