(* ===== verification/Neon.thy ===== *)
theory Neon
  imports Simd
begin

text \<open>
  The NEON intrinsics of kernel.hpp, as \<open>Simd\<close> has those of x86: records of functions over unspecified types
  of registers, and locales with what the vendor documents. \<open>neon_ops\<close> are those that exist for
  registers of 8 and 16 bytes (\<open>v..._s8\<close> and \<open>v...q_s8\<close>), \<open>neon_d_ops\<close> those used of 8 bytes only, \<open>neon_q_ops\<close> those
  of 16 bytes. Signed and unsigned vectors are one type of registers, a reinterpretation leaves the register
  as it is; a suffix tells how the lanes are read.
\<close>

section \<open>The intrinsics\<close>

record 'x neon_ops =
  n_ld1 :: "u8 list \<Rightarrow> 'x"
  n_st1 :: "'x \<Rightarrow> u8 list"
  n_dup_8 :: "u8 \<Rightarrow> 'x"
  n_ceq :: "'x \<Rightarrow> 'x \<Rightarrow> 'x"
  n_clt_u8 :: "'x \<Rightarrow> 'x \<Rightarrow> 'x"
  n_min_s8 :: "'x \<Rightarrow> 'x \<Rightarrow> 'x"
  n_min_u8 :: "'x \<Rightarrow> 'x \<Rightarrow> 'x"
  n_minv_s8 :: "'x \<Rightarrow> u8"
  n_maxv_s8 :: "'x \<Rightarrow> u8"
  n_minv_u8 :: "'x \<Rightarrow> u8"
  n_maxv_u8 :: "'x \<Rightarrow> u8"
  n_addv_s8 :: "'x \<Rightarrow> u8"
  n_bsl :: "'x \<Rightarrow> 'x \<Rightarrow> 'x \<Rightarrow> 'x"
  n_tst_u8 :: "'x \<Rightarrow> 'x \<Rightarrow> 'x"
  n_sub_u8 :: "'x \<Rightarrow> 'x \<Rightarrow> 'x"
  n_shl_u8 :: "'x \<Rightarrow> 'x \<Rightarrow> 'x"
  n_get_lane_8 :: "'x \<Rightarrow> nat \<Rightarrow> u8"

record 'd neon_d_ops = "'d neon_ops" +
  d_create :: "u64 \<Rightarrow> 'd"
  d_get_lane_u64 :: "'d \<Rightarrow> nat \<Rightarrow> u64"
  d_tst_u64 :: "'d \<Rightarrow> 'd \<Rightarrow> 'd"
  d_tbl1 :: "'d \<Rightarrow> 'd \<Rightarrow> 'd"

record ('d, 'x) neon_q_ops = "'x neon_ops" +
  q_cgez_s8 :: "'x \<Rightarrow> 'x"
  q_cltz_s8 :: "'x \<Rightarrow> 'x"
  q_max_s8 :: "'x \<Rightarrow> 'x \<Rightarrow> 'x"
  q_max_u8 :: "'x \<Rightarrow> 'x \<Rightarrow> 'x"
  q_add_s8 :: "'x \<Rightarrow> 'x \<Rightarrow> 'x"
  q_and :: "'x \<Rightarrow> 'x \<Rightarrow> 'x"
  q_orr :: "'x \<Rightarrow> 'x \<Rightarrow> 'x"
  q_padd_u8 :: "'x \<Rightarrow> 'x \<Rightarrow> 'x"
  q_zip1_u8 :: "'x \<Rightarrow> 'x \<Rightarrow> 'x"
  q_zip1_u16 :: "'x \<Rightarrow> 'x \<Rightarrow> 'x"
  q_zip2_u16 :: "'x \<Rightarrow> 'x \<Rightarrow> 'x"
  q_zip1_u32 :: "'x \<Rightarrow> 'x \<Rightarrow> 'x"
  q_zip2_u32 :: "'x \<Rightarrow> 'x \<Rightarrow> 'x"
  q_dup_u32 :: "32 word \<Rightarrow> 'x"
  q_dup_u64 :: "u64 \<Rightarrow> 'x"
  q_dup_lane_u32 :: "'d \<Rightarrow> nat \<Rightarrow> 'x"
  q_tst_u32 :: "'x \<Rightarrow> 'x \<Rightarrow> 'x"
  q_maxv_u32 :: "'x \<Rightarrow> 32 word"
  q_get_lane_u64 :: "'x \<Rightarrow> nat \<Rightarrow> u64"
  q_shrn_u16 :: "'x \<Rightarrow> nat \<Rightarrow> 'd"
  q_shll_u8 :: "'d \<Rightarrow> nat \<Rightarrow> 'x"
  q_tbl1 :: "'x \<Rightarrow> 'x \<Rightarrow> 'x"
  q_tbl2 :: "'x \<times> 'x \<Rightarrow> 'x \<Rightarrow> 'x"
  q_tbl4 :: "'x \<times> 'x \<times> 'x \<times> 'x \<Rightarrow> 'x \<Rightarrow> 'x"
  q_ld1_x2 :: "u8 list \<Rightarrow> 'x \<times> 'x"
  q_st1_x2 :: "'x \<times> 'x \<Rightarrow> u8 list"
  q_ld1_x4 :: "u8 list \<Rightarrow> 'x \<times> 'x \<times> 'x \<times> 'x"
  q_st1_x4 :: "'x \<times> 'x \<times> 'x \<times> 'x \<Rightarrow> u8 list"

section \<open>What they do\<close>

text \<open>A table lookup gives zero for an index beyond the table; interleaving takes elements of \<open>g\<close> bytes
  from byte \<open>o\<close> on.\<close>

definition lookup_bytes :: "u8 list \<Rightarrow> u8 list \<Rightarrow> u8 list" where
  "lookup_bytes xs idx = map (\<lambda>b. if unat b < length xs then xs ! unat b else 0) idx"

definition zip_bytes :: "nat \<Rightarrow> nat \<Rightarrow> u8 list \<Rightarrow> u8 list \<Rightarrow> u8 list" where
  "zip_bytes g off xs ys = map (\<lambda>i. (if even (i div g) then xs else ys) ! (off + g * (i div (2 * g)) + i mod g)) [0..<16]"

definition pair_sums :: "u8 list \<Rightarrow> u8 list" where
  "pair_sums xs = map (\<lambda>i. xs ! (2 * i) + xs ! (2 * i + 1)) [0..<length xs div 2]"

locale neon_intrinsics =
  fixes V :: "('x, 'z) neon_ops_scheme" and n :: nat
  assumes n_size: "n \<in> {8, 16}"
    and st1_length [simp]: "length (n_st1 V x) = n"
    and st1_ld1: "length bs = n \<Longrightarrow> n_st1 V (n_ld1 V bs) = bs"
    and ld1_st1: "n_ld1 V (n_st1 V x) = x"
    and dup_8: "n_st1 V (n_dup_8 V b) = replicate n b"
    and ceq: "n_st1 V (n_ceq V x y) = map2 (\<lambda>a b. if a = b then 0xff else 0) (n_st1 V x) (n_st1 V y)"
    and clt_u8: "n_st1 V (n_clt_u8 V x y) = map2 (\<lambda>a b. if a < b then 0xff else 0) (n_st1 V x) (n_st1 V y)"
    and min_s8: "n_st1 V (n_min_s8 V x y) = map2 (\<lambda>a b. if sint b < sint a then b else a) (n_st1 V x) (n_st1 V y)"
    and min_u8: "n_st1 V (n_min_u8 V x y) = map2 min (n_st1 V x) (n_st1 V y)"
    and minv_s8: "sint (n_minv_s8 V x) = Min (sint ` set (n_st1 V x))"
    and maxv_s8: "sint (n_maxv_s8 V x) = Max (sint ` set (n_st1 V x))"
    and minv_u8: "n_minv_u8 V x = Min (set (n_st1 V x))"
    and maxv_u8: "n_maxv_u8 V x = Max (set (n_st1 V x))"
    and addv_s8: "n_addv_s8 V x = sum_list (n_st1 V x)"
    and bsl: "n_st1 V (n_bsl V m x y) = map (\<lambda>i. n_st1 V m ! i AND n_st1 V x ! i OR NOT (n_st1 V m ! i) AND n_st1 V y ! i) [0..<n]"
    and tst_u8: "n_st1 V (n_tst_u8 V x y) = map2 (\<lambda>a b. if a AND b \<noteq> 0 then 0xff else 0) (n_st1 V x) (n_st1 V y)"
    and sub_u8: "n_st1 V (n_sub_u8 V x y) = map2 (-) (n_st1 V x) (n_st1 V y)"
    and shl_u8: "n_st1 V (n_shl_u8 V x y)
      = map2 (\<lambda>a b. if sint b < 0 then drop_bit (nat (- sint b)) a else push_bit (nat (sint b)) a) (n_st1 V x) (n_st1 V y)"
    and get_lane_8: "i < n \<Longrightarrow> n_get_lane_8 V x i = n_st1 V x ! i"

locale neon_d_intrinsics = neon_intrinsics D 8
  for D :: "'d neon_d_ops" +
  assumes d_create: "n_st1 D (d_create D w) = store_bytes w"
    and d_get_lane_u64: "d_get_lane_u64 D x 0 = lane 8 (n_st1 D x) 0"
    and d_tst_u64: "n_st1 D (d_tst_u64 D x y)
      = replicate 8 (if lane 8 (n_st1 D x) 0 AND lane 8 (n_st1 D y) 0 \<noteq> (0 :: u64) then 0xff else 0)"
    and d_tbl1: "n_st1 D (d_tbl1 D x idx) = lookup_bytes (n_st1 D x) (n_st1 D idx)"

locale neon_q_intrinsics = neon_d_intrinsics D + quad: neon_intrinsics Q 16
  for D :: "'d neon_d_ops" and Q :: "('d, 'x) neon_q_ops" +
  assumes q_cgez_s8: "n_st1 Q (q_cgez_s8 Q x) = map (\<lambda>a. if 0 \<le> sint a then 0xff else 0) (n_st1 Q x)"
    and q_cltz_s8: "n_st1 Q (q_cltz_s8 Q x) = map (\<lambda>a. if sint a < 0 then 0xff else 0) (n_st1 Q x)"
    and q_max_s8: "n_st1 Q (q_max_s8 Q x y) = map2 (\<lambda>a b. if sint a < sint b then b else a) (n_st1 Q x) (n_st1 Q y)"
    and q_max_u8: "n_st1 Q (q_max_u8 Q x y) = map2 max (n_st1 Q x) (n_st1 Q y)"
    and q_add_s8: "n_st1 Q (q_add_s8 Q x y) = map2 (+) (n_st1 Q x) (n_st1 Q y)"
    and q_and: "n_st1 Q (q_and Q x y) = map2 (AND) (n_st1 Q x) (n_st1 Q y)"
    and q_orr: "n_st1 Q (q_orr Q x y) = map2 (OR) (n_st1 Q x) (n_st1 Q y)"
    and q_padd_u8: "n_st1 Q (q_padd_u8 Q x y) = pair_sums (n_st1 Q x @ n_st1 Q y)"
    and q_zip_u8: "n_st1 Q (q_zip1_u8 Q x y) = zip_bytes 1 0 (n_st1 Q x) (n_st1 Q y)"
    and q_zip_u16: "n_st1 Q (q_zip1_u16 Q x y) = zip_bytes 2 0 (n_st1 Q x) (n_st1 Q y)"
      "n_st1 Q (q_zip2_u16 Q x y) = zip_bytes 2 8 (n_st1 Q x) (n_st1 Q y)"
    and q_zip_u32: "n_st1 Q (q_zip1_u32 Q x y) = zip_bytes 4 0 (n_st1 Q x) (n_st1 Q y)"
      "n_st1 Q (q_zip2_u32 Q x y) = zip_bytes 4 8 (n_st1 Q x) (n_st1 Q y)"
    and q_dup_u32: "n_st1 Q (q_dup_u32 Q w) = from_lanes (replicate 4 w)"
    and q_dup_u64: "n_st1 Q (q_dup_u64 Q v) = from_lanes (replicate 2 v)"
    and q_dup_lane_u32: "k < 2 \<Longrightarrow> n_st1 Q (q_dup_lane_u32 Q d k) = from_lanes (replicate 4 (lane 4 (n_st1 D d) k :: 32 word))"
    and q_tst_u32: "n_st1 Q (q_tst_u32 Q x y)
      = from_lanes (map (\<lambda>i. if lane 4 (n_st1 Q x) i AND lane 4 (n_st1 Q y) i \<noteq> (0 :: 32 word) then - 1 else 0 :: 32 word) [0..<4])"
    and q_maxv_u32: "q_maxv_u32 Q x = Max (lane 4 (n_st1 Q x) ` {..<4})"
    and q_get_lane_u64: "q_get_lane_u64 Q x 0 = lane 8 (n_st1 Q x) 0"
    and q_shrn_u16: "n_st1 D (q_shrn_u16 Q x k) = map (\<lambda>i. ucast (drop_bit k (lane 2 (n_st1 Q x) i :: 16 word))) [0..<8]"
    and q_shll_u8: "n_st1 Q (q_shll_u8 Q d k) = from_lanes (map (\<lambda>b. push_bit k (ucast b) :: 16 word) (n_st1 D d))"
    and q_tbl1: "n_st1 Q (q_tbl1 Q x idx) = lookup_bytes (n_st1 Q x) (n_st1 Q idx)"
    and q_tbl2: "n_st1 Q (q_tbl2 Q (x, y) idx) = lookup_bytes (n_st1 Q x @ n_st1 Q y) (n_st1 Q idx)"
    and q_tbl4: "n_st1 Q (q_tbl4 Q (x, y, z, u) idx) = lookup_bytes (n_st1 Q x @ n_st1 Q y @ n_st1 Q z @ n_st1 Q u) (n_st1 Q idx)"
    and q_ld1_x2: "length bs = 32 \<Longrightarrow> q_ld1_x2 Q bs = (n_ld1 Q (take 16 bs), n_ld1 Q (drop 16 bs))"
    and q_st1_x2: "q_st1_x2 Q (x, y) = n_st1 Q x @ n_st1 Q y"
    and q_ld1_x4: "length bs = 64 \<Longrightarrow> q_ld1_x4 Q bs
      = (n_ld1 Q (take 16 bs), n_ld1 Q (take 16 (drop 16 bs)), n_ld1 Q (take 16 (drop 32 bs)), n_ld1 Q (drop 48 bs))"
    and q_st1_x4: "q_st1_x4 Q (x, y, z, u) = n_st1 Q x @ n_st1 Q y @ n_st1 Q z @ n_st1 Q u"

section \<open>Facts the kernels share\<close>

text \<open>The bytes of a register that holds a condition per lane.\<close>

definition flag_byte :: "bool \<Rightarrow> u8" where
  "flag_byte b = (if b then 0xff else 0)"

lemma flag_byte_simps [simp]:
  "flag_byte b = 0 \<longleftrightarrow> \<not> b" "flag_byte b = 0xff \<longleftrightarrow> b" "0xff = flag_byte b \<longleftrightarrow> b" "0 = flag_byte b \<longleftrightarrow> \<not> b"
  "flag_byte b AND x = (if b then x else 0)" "NOT (flag_byte b) AND x = (if b then 0 else x)"
  "x - flag_byte b = x + of_bool b" "bit (flag_byte b) 7 = b"
  by (auto simp: flag_byte_def all_ones flag_bytes)

lemma bit_flag_byte: "bit (flag_byte b) r \<longleftrightarrow> b \<and> r < 8"
proof -
  have "(0xff :: u8) = mask 8" by (simp add: mask_eq_exp_minus_1)
  then show ?thesis by (simp only: flag_byte_def bit_mask_iff split: if_split) auto
qed

lemma flag_shift: "(if sint (flag_byte b) < 0 then drop_bit (nat (- sint (flag_byte b))) x
    else push_bit (nat (sint (flag_byte b))) x) = (if b then drop_bit 1 x else x)"
  by (simp add: flag_byte_def)

lemma sum_flags: "(\<Sum>i\<leftarrow>xs. flag_byte (p i)) = - of_nat (length (filter p xs))"
proof (induction xs)
  case (Cons x xs)
  have "(0xff :: u8) = - 1" by simp
  then show ?case using Cons by (simp add: flag_byte_def)
qed simp

lemma sint_neg_count: "c \<le> 64 \<Longrightarrow> sint (- of_nat c :: u8) = - int c"
proof -
  assume c: "c \<le> 64"
  have "(- of_nat c :: u8) = word_of_int (- int c)" by simp
  then have "sint (- of_nat c :: u8) = signed_take_bit 7 (- int c)" by (simp only: sint_sbintrunc') simp
  also have "\<dots> = - int c" by (rule signed_take_bit_int_eq_self) (use c in simp_all)
  finally show ?thesis .
qed

lemma filter_count: "length (filter p [0..<n]) = card {i. i < n \<and> p i}"
  by (simp add: length_filter_conv_card cong: conj_cong)

section \<open>Masks and lanes\<close>

lemma slots_word_ops:
  assumes "n * 2 ^ shift \<le> LENGTH('w)"
  shows "slots_word n shift align p AND slots_word n shift align q = (slots_word n shift align (\<lambda>i. p i \<and> q i) :: 'w::len word)"
    and "slots_word n shift align p XOR slots_word n shift align (\<lambda>_. True) = (slots_word n shift align (\<lambda>i. \<not> p i) :: 'w word)"
  by (rule bit_word_eqI; auto simp: bit_and_iff bit_xor_iff bit_slots_word [OF assms] slot_bit_inj)+

lemma slots_word_has: "n * 2 ^ shift \<le> LENGTH('w) \<Longrightarrow>
    mk_has_next (uint_mask n shift align) (slots_word n shift align p :: 'w::len word) \<longleftrightarrow> (\<exists>i<n. p i)"
  by (auto simp: has_next_bit bit_slots_word)

lemma slots_word_count:
  assumes "0 < n" and len: "n * 2 ^ shift \<le> LENGTH('w)"
  shows "mk_count (uint_mask n shift align) (slots_word n shift align p :: 'w::len word) = card {i. i < n \<and> p i}"
proof -
  note laws = uint_vector(1) [OF assms, of align]
  show ?thesis
    using mask_laws.count_card [OF uint_mask_laws [OF len] array_mask.loop_ok [OF laws]] by (simp add: array_mask.loop_slots [OF laws])
qed

lemma bit_lane:
  assumes "8 * g = LENGTH('w)" and "g * q + g \<le> length xs"
  shows "bit (lane g xs q :: 'w::len word) j \<longleftrightarrow> j < 8 * g \<and> bit (xs ! (g * q + j div 8)) (j mod 8)"
proof (cases "j < 8 * g")
  case True
  then have d: "j div 8 < g" by (simp add: less_mult_imp_div_less mult.commute)
  have "bit (lane g xs q :: 'w word) j \<longleftrightarrow> bit (byte_of (lane g xs q :: 'w word) (j div 8)) (j mod 8)" by (simp add: bit_byte_of)
  also have "byte_of (lane g xs q :: 'w word) (j div 8) = xs ! (g * q + j div 8)"
    by (rule byte_lane) (use assms d in auto)
  finally show ?thesis using True by simp
qed (use assms(1) in \<open>auto dest: bit_imp_le_length\<close>)

lemma lane_and:
  assumes "8 * g = LENGTH('w)" and "g * q + g \<le> length xs" and "g * q + g \<le> length ys"
  shows "lane g xs q AND lane g ys q \<noteq> (0 :: 'w::len word) \<longleftrightarrow> (\<exists>j<g. xs ! (g * q + j) AND ys ! (g * q + j) \<noteq> 0)"
proof -
  have b: "byte_of (lane g xs q AND lane g ys q :: 'w word) j = xs ! (g * q + j) AND ys ! (g * q + j)" if "j < g" for j
    using that assms by (simp add: byte_of_and byte_lane)
  have w: "whole_bytes TYPE('w)" "n_bytes TYPE('w) = g" using assms(1) by (auto simp: n_bytes_def simp flip: assms(1))
  show ?thesis
  proof
    assume "lane g xs q AND lane g ys q \<noteq> (0 :: 'w word)"
    then show "\<exists>j<g. xs ! (g * q + j) AND ys ! (g * q + j) \<noteq> 0"
      using word_eq_bytesI [OF w(1), of "lane g xs q AND lane g ys q" 0] b by (auto simp: w(2) byte_of_0)
  next
    assume "\<exists>j<g. xs ! (g * q + j) AND ys ! (g * q + j) \<noteq> 0"
    then show "lane g xs q AND lane g ys q \<noteq> (0 :: 'w word)" using b by (auto simp: byte_of_0)
  qed
qed

lemma lookup_constant:
  "i < length xs \<Longrightarrow> length xs \<le> 64 \<Longrightarrow> 0 < n \<Longrightarrow> lookup_bytes xs (replicate n (of_nat i)) ! 0 = xs ! i"
  by (simp add: lookup_bytes_def unat_of_nat)

text \<open>A byte of a mask with eight bits per slot is zero when the slot is not in the mask; with fewer bits per slot a
  byte has the bits of several slots.\<close>

lemma ok_mask_bit:
  assumes "uint_mask_ok n shift align m" and "i < n"
  shows "(\<exists>r < 2 ^ shift. bit m (i * 2 ^ shift + r)) \<longleftrightarrow> i \<in> uint_mask_slots n shift align m"
proof
  assume "\<exists>r < 2 ^ shift. bit m (i * 2 ^ shift + r)"
  then obtain r where r: "r < 2 ^ shift" "bit m (i * 2 ^ shift + r)" by blast
  then obtain j where j: "j < n" "i * 2 ^ shift + r = slot_bit shift align j"
    using assms(1) by (auto simp: uint_mask_ok_def bits_def)
  then have "i = j" using slot_bit_div [of shift align j] r(1) by (metis add_cancel_left_right div_less div_mult_self3 power_not_zero zero_neq_numeral add.commute)
  then show "i \<in> uint_mask_slots n shift align m" using j r by (simp add: uint_mask_slots_def)
next
  assume "i \<in> uint_mask_slots n shift align m"
  then show "\<exists>r < 2 ^ shift. bit m (i * 2 ^ shift + r)"
    by (auto simp: uint_mask_slots_def slot_bit_def intro: exI [of _ "if align = Align_left then 2 ^ shift - 1 else 0"])
qed

end
