(* ===== verification/SseKernel.thy ===== *)
theory SseKernel
  imports Simd
begin

text \<open>
  The \<open>sse_kernel\<close> of kernel.hpp: a bucket of 16 slots in a 128 bit register, over the intrinsics \<open>I\<close>. \<open>B\<close> is
  the build: the level of each instruction set decides which of several sequences of intrinsics is
  compiled. Whatever it is, every operation does what the array kernel of 16 slots does.
\<close>

record build =
  with_sse :: nat
  with_avx :: nat
  with_avx_bwvl :: bool
  with_avx_vbmi :: bool
  gcc :: bool

section \<open>The operations\<close>

abbreviation sse_mask_type :: "32 word mask_ops" where
  "sse_mask_type \<equiv> uint_mask 16 0 Align_right"

definition sse_full_mask :: "32 word" where
  "sse_full_mask = mk_full sse_mask_type"

definition sse_mask_not_hash :: "build \<Rightarrow> 'x sse_ops \<Rightarrow> 'x \<Rightarrow> 32 word" where
  "sse_mask_not_hash B I k = (if with_avx_bwvl B then v_movepi8_mask I k else v_movemask_epi8 I k)"

definition sse_mask_hash :: "build \<Rightarrow> 'x sse_ops \<Rightarrow> 'x \<Rightarrow> 32 word" where
  "sse_mask_hash B I k = sse_mask_not_hash B I k XOR sse_full_mask"

definition sse_mask_equal :: "build \<Rightarrow> 'x sse_ops \<Rightarrow> 'x \<Rightarrow> 'x \<Rightarrow> 32 word" where
  "sse_mask_equal B I k0 k1 =
     (if with_avx_bwvl B then v_cmpeq_epi8_mask I k0 k1 else sse_mask_not_hash B I (v_cmpeq_epi8 I k0 k1))"

definition sse_mask_not_equal :: "build \<Rightarrow> 'x sse_ops \<Rightarrow> 'x \<Rightarrow> 'x \<Rightarrow> 32 word" where
  "sse_mask_not_equal B I k0 k1 =
     (if with_avx_bwvl B then v_cmpneq_epi8_mask I k0 k1 else sse_mask_hash B I (v_cmpeq_epi8 I k0 k1))"

definition sse_mask :: "build \<Rightarrow> 'x sse_ops \<Rightarrow> 'x \<Rightarrow> state_t \<Rightarrow> 32 word" where
  "sse_mask B I k s = sse_mask_equal B I k (v_set1_epi8 I s)"

definition sse_mask_not :: "build \<Rightarrow> 'x sse_ops \<Rightarrow> 'x \<Rightarrow> state_t \<Rightarrow> 32 word" where
  "sse_mask_not B I k s = sse_mask_not_equal B I k (v_set1_epi8 I s)"

definition sse_mask_empty :: "build \<Rightarrow> 'x sse_ops \<Rightarrow> 'x \<Rightarrow> 32 word" where
  "sse_mask_empty B I k =
     (if with_avx_bwvl B then sse_mask B I k empty_state
      else sse_mask_not_hash B I
        (if 3 \<le> with_sse B then v_sign_epi8 I k k else v_cmpeq_epi8 I k (v_set1_epi8 I empty_state)))"

definition sse_mask_not_empty :: "build \<Rightarrow> 'x sse_ops \<Rightarrow> 'x \<Rightarrow> 32 word" where
  "sse_mask_not_empty B I k =
     (if with_avx_bwvl B then sse_mask_not B I k empty_state
      else sse_mask_hash B I
        (if 3 \<le> with_sse B then v_sign_epi8 I k k else v_cmpeq_epi8 I k (v_set1_epi8 I empty_state)))"

definition sse_count_equal :: "build \<Rightarrow> 'x sse_ops \<Rightarrow> 'x \<Rightarrow> 'x \<Rightarrow> nat" where
  "sse_count_equal B I k0 k1 =
     (if gcc B then mk_count sse_mask_type (sse_mask_not_hash B I (v_cmpeq_epi8 I k0 k1))
      else mk_count sse_mask_type (sse_mask_equal B I k0 k1))"

definition sse_blendv_epi8 :: "build \<Rightarrow> 'x sse_ops \<Rightarrow> 'x \<Rightarrow> 'x \<Rightarrow> 'x \<Rightarrow> 'x" where
  "sse_blendv_epi8 B I a b m =
     (if 4 \<le> with_sse B then v_blendv_epi8 I a b m
      else mm_or I (mm_andnot I m a) (v_and I m b))"

definition sse_cmplt_epu8 :: "'x sse_ops \<Rightarrow> 'x \<Rightarrow> 'x \<Rightarrow> 'x" where
  "sse_cmplt_epu8 I a b = (let bias = v_set1_epi8 I 0x80 in v_cmpgt_epi8 I (v_xor I b bias) (v_xor I a bias))"

definition sse_hash_to_tombstone :: "build \<Rightarrow> 'x sse_ops \<Rightarrow> 'x \<Rightarrow> 'x" where
  "sse_hash_to_tombstone B I k = (
     let t = v_set1_epi8 I tombstone_state
     in if 4 \<le> with_sse B then v_min_epi8 I k t else v_add_epi8 I (mm_cmplt_epi8 I k t) t)"

definition sse_to_empty :: "build \<Rightarrow> 'x sse_ops \<Rightarrow> 'x \<Rightarrow> 32 word \<Rightarrow> 'x" where
  "sse_to_empty B I k m =
     (if with_avx_bwvl B then v_mask_set1_epi8 I k m empty_state
      else let mx = v_set1_epi32 I m;
               mx = v_unpacklo_epi8 I mx mx;
               mx = v_unpacklo_epi8 I mx mx;
               mx = v_unpacklo_epi8 I mx mx;
               mx = v_and I mx (v_set1_epi64x I 0x8040201008040201);
               mx = v_cmpeq_epi8 I mx (v_setzero I)
           in sse_blendv_epi8 B I (v_set1_epi8 I empty_state) k mx)"

definition sse_at :: "build \<Rightarrow> 'x sse_ops \<Rightarrow> 'x \<Rightarrow> nat \<Rightarrow> state_t" where
  "sse_at B I k i =
     (if with_avx_vbmi B then ucast (mm_cvtsi128_si64 I (v_permutexvar_epi8 I (v_set1_epi8 I (of_nat i)) k))
      else if 3 \<le> with_sse B then ucast (mm_cvtsi128_si64 I (mm_shuffle_epi8 I k (v_set1_epi8 I (of_nat i))))
      else let k0 = mm_cvtsi128_si64 I k;
               k8 = mm_cvtsi128_si64 I (mm_srli_si128 I k 8);
               s = (if i < 8 then k0 else k8)
           in ucast (signed_drop_bit (i mod 8 * 8) s))"

definition sse_min_reduce_epu8 :: "build \<Rightarrow> 'x sse_ops \<Rightarrow> 'x \<Rightarrow> 'x" where
  "sse_min_reduce_epu8 B I l = (
     let s = v_min_epu8 I l (mm_srli_si128 I l 1)
     in if 4 \<le> with_sse B then mm_minpos_epu16 I (v_and I s (mm_set1_epi16 I 0xff))
        else let s = v_min_epu8 I s (mm_srli_si128 I s 2);
                 s = v_min_epu8 I s (mm_srli_si128 I s 4)
             in v_min_epu8 I s (mm_srli_si128 I s 8))"

definition sse_min_lru :: "build \<Rightarrow> 'x sse_ops \<Rightarrow> 'x \<Rightarrow> lru_t \<times> nat" where
  "sse_min_lru B I l = (
     let s = sse_min_reduce_epu8 B I l;
         lru = ucast (v_cvt_si32 I s) :: lru_t;
         s = (if 3 \<le> with_sse B then mm_shuffle_epi8 I s (v_setzero I) else v_set1_epi8 I lru)
     in (lru, mk_next sse_mask_type (sse_mask_equal B I l s)))"

definition sse_mask_min_lru :: "build \<Rightarrow> 'x sse_ops \<Rightarrow> 'x \<Rightarrow> 32 word" where
  "sse_mask_min_lru B I l = (
     let s = sse_min_reduce_epu8 B I l;
         s = (if 2 \<le> with_avx B then mm_broadcastb_epi8 I s
              else if 3 \<le> with_sse B then mm_shuffle_epi8 I s (v_setzero I)
              else v_set1_epi8 I (ucast (v_cvt_si32 I s)))
     in sse_mask_equal B I l s)"

definition sse_mask_lru_below :: "build \<Rightarrow> 'x sse_ops \<Rightarrow> 'x \<Rightarrow> lru_t \<Rightarrow> 32 word" where
  "sse_mask_lru_below B I l t = (
     let tx = v_set1_epi8 I t
     in if with_avx_bwvl B then v_cmplt_epu8_mask I l tx else sse_mask_not_hash B I (sse_cmplt_epu8 I l tx))"

definition sse_update_lru :: "build \<Rightarrow> 'x sse_ops \<Rightarrow> 'x \<Rightarrow> 32 word \<Rightarrow> 'x" where
  "sse_update_lru B I l n = (
     let n = mk_truncate sse_mask_type n;
         l = (if mk_has_next sse_mask_type (sse_mask B I l max_lru AND n)
              then v_and I (mm_srli_epi64 I l 1) (v_set1_epi8 I 0x7f) else l)
     in if with_avx_bwvl B then v_mask_add_epi8 I l n l (v_set1_epi8 I 1)
        else let i = mk_next sse_mask_type n;
                 inc_lo = (of_bool (i < 8) :: u64);
                 inc_hi = (of_bool (i \<ge> 8) :: u64);
                 i = i mod 8 * 8;
                 inc_lo = push_bit i inc_lo;
                 inc_hi = push_bit i inc_hi;
                 inc = mm_cvtsi64_si128 I inc_lo;
                 inc = (if 4 \<le> with_sse B then mm_insert_epi64 I inc inc_hi 1
                        else mm_unpacklo_epi64 I inc (mm_cvtsi64_si128 I inc_hi))
             in v_add_epi8 I l inc)"

definition sse_to_empty_if_lru_below :: "build \<Rightarrow> 'x sse_ops \<Rightarrow> 'x \<Rightarrow> 'x \<Rightarrow> lru_t \<Rightarrow> 'x" where
  "sse_to_empty_if_lru_below B I k l t =
     sse_blendv_epi8 B I k (v_set1_epi8 I 0x80) (sse_cmplt_epu8 I l (v_set1_epi8 I t))"

definition sse_kernel :: "build \<Rightarrow> 'x sse_ops \<Rightarrow> ('x, 'x, 32 word) kernel_ops" where
  "sse_kernel B I = \<lparr>
     kn_size = 16,
     kn_mask_ops = sse_mask_type,
     kn_load = v_load I,
     kn_store = v_store I,
     kn_mask = sse_mask B I,
     kn_mask_not = sse_mask_not B I,
     kn_mask_hash = sse_mask_hash B I,
     kn_mask_not_hash = sse_mask_not_hash B I,
     kn_mask_empty = sse_mask_empty B I,
     kn_mask_not_empty = sse_mask_not_empty B I,
     kn_mask_tombstone = (\<lambda>k. sse_mask B I k tombstone_state),
     kn_mask_not_tombstone = (\<lambda>k. sse_mask_not B I k tombstone_state),
     kn_mask_equal = sse_mask_equal B I,
     kn_mask_not_equal = sse_mask_not_equal B I,
     kn_has_hash = (\<lambda>k. sse_mask_hash B I k \<noteq> 0),
     kn_has_not_hash = (\<lambda>k. sse_mask_not_hash B I k \<noteq> 0),
     kn_has_empty = (\<lambda>k. sse_mask_empty B I k \<noteq> 0),
     kn_has_not_empty = (\<lambda>k. sse_mask_not_empty B I k \<noteq> 0),
     kn_has_tombstone = (\<lambda>k. sse_mask B I k tombstone_state \<noteq> 0),
     kn_has_not_tombstone = (\<lambda>k. sse_mask_not B I k tombstone_state \<noteq> 0),
     kn_count_equal = sse_count_equal B I,
     kn_count_not_equal = (\<lambda>k0 k1. mk_count sse_mask_type (sse_mask_not_equal B I k0 k1)),
     kn_hash_to_tombstone = sse_hash_to_tombstone B I,
     kn_not_hash_to_empty = (\<lambda>k. v_min_epu8 I k (v_set1_epi8 I empty_state)),
     kn_to_empty = sse_to_empty B I,
     kn_at = sse_at B I,
     kn_load_lru = v_load I,
     kn_store_lru = v_store I,
     kn_min_lru = sse_min_lru B I,
     kn_mask_min_lru = sse_mask_min_lru B I,
     kn_mask_lru_below = sse_mask_lru_below B I,
     kn_update_lru = sse_update_lru B I,
     kn_to_empty_if_lru_below = sse_to_empty_if_lru_below B I,
     kn_lru_at = sse_at B I\<rparr>"

section \<open>The masks\<close>

lemma bit_sse_full: "bit sse_full_mask i \<longleftrightarrow> i < 16"
proof -
  have "sse_full_mask = (mask 16 :: 32 word)" unfolding sse_full_mask_def uint_mask_def by code_simp
  then have "bit sse_full_mask i \<longleftrightarrow> bit (mask 16 :: 32 word) i" by (rule arg_cong)
  then show ?thesis unfolding bit_mask_iff by auto
qed

context sse_intrinsics
begin

lemma sse_masks:
  "sse_mask_not_hash B I k = slots_word 16 0 Align_right (\<lambda>i. is_not_hash (v_store I k ! i))"
  "sse_mask_hash B I k = slots_word 16 0 Align_right (\<lambda>i. is_hash (v_store I k ! i))"
  by (rule bit_word_eqI; auto simp: sse_mask_not_hash_def sse_mask_hash_def slots_word_right bit_array_mask_loop is_hash_iff_bit
      movepi8_mask movemask_epi8 bit_xor_iff bit_sse_full)+

lemma sse_equal_masks:
  "sse_mask_equal B I k k' = slots_word 16 0 Align_right (\<lambda>i. v_store I k ! i = v_store I k' ! i)"
  "sse_mask_not_equal B I k k' = slots_word 16 0 Align_right (\<lambda>i. v_store I k ! i \<noteq> v_store I k' ! i)"
  by (rule bit_word_eqI; auto simp: sse_mask_equal_def sse_mask_not_equal_def sse_masks slots_word_right bit_array_mask_loop
      cmpeq_epi8_mask cmpneq_epi8_mask cmpeq_epi8 flag_bytes)+

lemma sse_state_masks:
  "sse_mask B I k s = slots_word 16 0 Align_right (\<lambda>i. v_store I k ! i = s)"
  "sse_mask_not B I k s = slots_word 16 0 Align_right (\<lambda>i. v_store I k ! i \<noteq> s)"
  by (simp_all add: sse_mask_def sse_mask_not_def sse_equal_masks set1_epi8)

lemma sse_empty_masks:
  "sse_mask_empty B I k = slots_word 16 0 Align_right (\<lambda>i. v_store I k ! i = empty_state)"
  "sse_mask_not_empty B I k = slots_word 16 0 Align_right (\<lambda>i. v_store I k ! i \<noteq> empty_state)"
  by (simp_all add: sse_mask_empty_def sse_mask_not_empty_def sse_state_masks sse_masks sign_epi8 sign_byte cmpeq_epi8
      set1_epi8 flag_bytes)

lemma sse_cmplt_byte: "i < 16 \<Longrightarrow> bit (v_store I (sse_cmplt_epu8 I x y) ! i) 7 \<longleftrightarrow> v_store I x ! i < v_store I y ! i"
  by (simp add: sse_cmplt_epu8_def Let_def cmpgt_epi8 v_xor set1_epi8 bias_less flag_bytes)

lemma sse_lru_below: "sse_mask_lru_below B I l t = slots_word 16 0 Align_right (\<lambda>i. v_store I l ! i < t)"
  by (rule bit_word_eqI) (auto simp: sse_mask_lru_below_def Let_def sse_masks slots_word_right bit_array_mask_loop
      cmplt_epu8_mask set1_epi8 is_hash_iff_bit sse_cmplt_byte)

text \<open>Blending; every mask it gets has bytes of all ones or all zeros.\<close>

lemma sse_blend:
  assumes "\<And>i. i < 16 \<Longrightarrow> v_store I m ! i = (if p i then 0xff else 0)"
  shows "v_store I (sse_blendv_epi8 B I x y m) = map (\<lambda>i. if p i then v_store I y ! i else v_store I x ! i) [0..<16]"
  by (rule nth_equalityI) (auto simp: sse_blendv_epi8_def blendv_epi8 mm_or mm_andnot v_and assms flag_bytes all_ones)

lemma sse_to_empty_lru:
  "v_store I (sse_to_empty_if_lru_below B I k l t)
    = map (\<lambda>i. if v_store I l ! i < t then empty_state else v_store I k ! i) [0..<16]"
proof -
  have "v_store I (sse_cmplt_epu8 I l (v_set1_epi8 I t)) ! i = (if v_store I l ! i < t then 0xff else 0)" if "i < 16" for i
    using that by (simp add: sse_cmplt_epu8_def Let_def cmpgt_epi8 v_xor set1_epi8 bias_less)
  note b = sse_blend [OF this]
  show ?thesis unfolding sse_to_empty_if_lru_below_def
    by (subst b) (auto simp: set1_epi8 empty_state_def)
qed

lemma sse_states:
  "v_store I (sse_hash_to_tombstone B I k) = map (\<lambda>x. if sint tombstone_state < sint x then tombstone_state else x) (v_store I k)"
  "v_store I (v_min_epu8 I k (v_set1_epi8 I empty_state)) = map (\<lambda>x. min x empty_state) (v_store I k)"
  by (rule nth_equalityI; simp add: sse_hash_to_tombstone_def Let_def min_epi8 min_epu8 set1_epi8 add_epi8 mm_cmplt_epi8 tombstone_byte)+

section \<open>Expanding a mask\<close>

lemma sse_to_empty_slots:
  "v_store I (sse_to_empty B I k m) = map (\<lambda>i. if bit m i then empty_state else v_store I k ! i) [0..<16]"
proof (cases "with_avx_bwvl B")
  case False
  let ?u = "\<lambda>x. v_unpacklo_epi8 I x x"
  have twice: "v_store I (?u x) ! i = v_store I x ! (i div 2)" if "i < 16" for x i using that by (simp add: unpacklo_epi8)
  have u: "v_store I (?u (?u (?u (v_set1_epi32 I m)))) ! i = byte_of m (i div 8)" if "i < 16" for i
    using that by (simp add: twice set1_epi32 div_mult2_eq [symmetric])
  let ?mx = "v_cmpeq_epi8 I (v_and I (?u (?u (?u (v_set1_epi32 I m)))) (v_set1_epi64x I 0x8040201008040201)) (v_setzero I)"
  have mx: "v_store I ?mx ! i = (if \<not> bit m i then 0xff else 0)" if i: "i < 16" for i
  proof -
    have "byte_of m (i div 8) AND 2 ^ (i mod 8) = 0 \<longleftrightarrow> \<not> bit (byte_of m (i div 8)) (i mod 8)"
      by (simp add: and_exp_eq_0_iff_not_bit)
    also have "bit (byte_of m (i div 8)) (i mod 8) \<longleftrightarrow> bit m i" by (simp add: bit_byte_of)
    finally show ?thesis using i by (simp add: cmpeq_epi8 v_and set1_epi64x setzero u byte_of_selector)
  qed
  show ?thesis
    unfolding sse_to_empty_def Let_def using False by (simp add: sse_blend [OF mx] set1_epi8)
qed (simp add: sse_to_empty_def mask_set1_epi8)

section \<open>Reading one byte\<close>

lemma sse_at_byte:
  assumes i: "i < 16"
  shows "sse_at B I k i = v_store I k ! i"
proof -
  have u: "unat (of_nat i :: u8) = i" using i by (simp add: unat_of_nat)
  have n: "\<not> bit (of_nat i :: u8) 7" using i uint_u8(3) [of "of_nat i"] by (simp add: is_hash_iff_bit uint_nat u)
  have "ucast (signed_drop_bit (i mod 8 * 8) (lane 8 (v_store I k) 0 :: u64)) = v_store I k ! i" if "i < 8"
    using that byte_lane [of 8 i 0 "v_store I k", where 'w = 64] by (simp add: wide_byte)
  moreover have "ucast (signed_drop_bit (i mod 8 * 8) (lane 8 (v_store I (mm_srli_si128 I k 8)) 0 :: u64)) = v_store I k ! i" if "\<not> i < 8"
    using that i byte_lane [of 8 "i mod 8" 0 "v_store I (mm_srli_si128 I k 8)", where 'w = 64]
    by (simp add: wide_byte mm_srli_si128 le_mod_geq)
  ultimately show ?thesis
    using i u n by (simp add: sse_at_def Let_def mm_cvtsi128_si64 low_byte permutexvar_epi8 mm_shuffle_epi8 set1_epi8)
qed

section \<open>The least stamp\<close>

lemma sse_window:
  assumes "\<And>i. i + w \<le> 16 \<Longrightarrow> v_store I x ! i = Min ((!) ls ` {i..<i + w})" and "0 < w" and "i + 2 * w \<le> 16"
  shows "v_store I (v_min_epu8 I x (mm_srli_si128 I x w)) ! i = Min ((!) ls ` {i..<i + 2 * w})"
proof -
  have "{i..<i + 2 * w} = {i..<i + w} \<union> {i + w..<(i + w) + w}" by auto
  then have "Min ((!) ls ` {i..<i + 2 * w}) = min (Min ((!) ls ` {i..<i + w})) (Min ((!) ls ` {i + w..<(i + w) + w}))"
    by (simp only: image_Un) (rule Min_Un; use assms(2) in auto)
  then show ?thesis
    using assms by (simp add: min_epu8 mm_srli_si128)
qed

lemma sse_reduce_least: "v_store I (sse_min_reduce_epu8 B I l) ! 0 = least_lru (v_store I l)"
proof (cases "4 \<le> with_sse B")
  case True
  let ?t = "v_store I (v_and I (v_min_epu8 I l (mm_srli_si128 I l 1)) (mm_set1_epi16 I 0xff))"
  have even: "?t ! (2 * q) = min (v_store I l ! (2 * q)) (v_store I l ! (2 * q + 1))" if "q < 8" for q
    using that by (simp add: v_and min_epu8 mm_srli_si128 mm_set1_epi16 byte_of_def all_ones)
  have odd: "?t ! (2 * q + 1) = 0" if "q < 8" for q
    using that by (simp add: v_and min_epu8 mm_set1_epi16 byte_of_def)
  have "v_store I (sse_min_reduce_epu8 B I l) ! 0 = Min ((\<lambda>q. ?t ! (2 * q)) ` {0..<8})"
    using True minpos_low [OF _ odd] by (simp add: sse_min_reduce_epu8_def mm_minpos_epu16 Let_def byte_of_def)
  also have "\<dots> = least_lru (v_store I l)" by (rule pair_least [where k = 8]) (simp, simp, rule even)
  finally show ?thesis .
next
  case False
  let ?s = "\<lambda>x w. v_min_epu8 I x (mm_srli_si128 I x w)" and ?m = "\<lambda>i w. Min ((!) (v_store I l) ` {i..<i + w})"
  have "v_store I (?s l 1) ! i = ?m i 2" if "i + 2 \<le> 16" for i using sse_window [of 1 l "v_store I l" i] that by simp
  then have "v_store I (?s (?s l 1) 2) ! i = ?m i 4" if "i + 4 \<le> 16" for i using sse_window [of 2 "?s l 1" "v_store I l" i] that by simp
  then have "v_store I (?s (?s (?s l 1) 2) 4) ! i = ?m i 8" if "i + 8 \<le> 16" for i
    using sse_window [of 4 "?s (?s l 1) 2" "v_store I l" i] that by simp
  then have "v_store I (?s (?s (?s (?s l 1) 2) 4) 8) ! 0 = ?m 0 16"
    using sse_window [of 8 "?s (?s (?s l 1) 2) 4" "v_store I l" 0] by simp
  moreover have "(!) (v_store I l) ` {0..<16} = set (v_store I l)"
    using nth_image [of 16 "v_store I l"] by (simp add: atLeast0LessThan)
  ultimately show ?thesis using False by (simp add: sse_min_reduce_epu8_def Let_def least_lru_def)
qed

lemma sse_spread_least:
  assumes "v_store I s ! 0 = v"
  shows "v_store I (mm_shuffle_epi8 I s (v_setzero I)) = replicate 16 v" "v_store I (mm_broadcastb_epi8 I s) = replicate 16 v"
    "ucast (v_cvt_si32 I s) = v"
proof -
  show "v_store I (mm_shuffle_epi8 I s (v_setzero I)) = replicate 16 v"
    using assms by (intro nth_equalityI) (simp_all add: mm_shuffle_epi8 setzero)
  show "v_store I (mm_broadcastb_epi8 I s) = replicate 16 v" "ucast (v_cvt_si32 I s) = v"
    using assms by (simp_all add: mm_broadcastb_epi8 cvt_si32 low_byte)
qed

lemma sse_mins:
  "sse_mask_min_lru B I l = slots_word 16 0 Align_right (\<lambda>i. v_store I l ! i = least_lru (v_store I l))"
  "sse_min_lru B I l = (least_lru (v_store I l), mk_next sse_mask_type (sse_mask_min_lru B I l))"
  by (simp_all add: sse_mask_min_lru_def sse_min_lru_def Let_def sse_equal_masks set1_epi8
      sse_spread_least [OF sse_reduce_least])

section \<open>Updating a stamp\<close>

lemma sse_halve: "v_store I (v_and I (mm_srli_epi64 I l 1) (v_set1_epi8 I 0x7f)) = map (drop_bit 1) (v_store I l)"
  by (rule nth_equalityI) (simp_all add: v_and mm_srli_epi64 set1_epi8 each_lane_halves [where 'w = 64] length_each_lane)

text \<open>Both ways to add one to the byte of slot \<open>i\<close>.\<close>

lemma sse_inc:
  assumes "i < 16"
  shows "v_store I (v_add_epi8 I l
      (if 4 \<le> with_sse B then mm_insert_epi64 I (mm_cvtsi64_si128 I (push_bit (i mod 8 * 8) (of_bool (i < 8)))) (push_bit (i mod 8 * 8) (of_bool (8 \<le> i))) 1
       else mm_unpacklo_epi64 I (mm_cvtsi64_si128 I (push_bit (i mod 8 * 8) (of_bool (i < 8)))) (mm_cvtsi64_si128 I (push_bit (i mod 8 * 8) (of_bool (8 \<le> i))))))
    = map (\<lambda>j. v_store I l ! j + of_bool (j = i)) [0..<16]"
proof (rule nth_equalityI)
  fix j assume "j < length (v_store I (v_add_epi8 I l
      (if 4 \<le> with_sse B then mm_insert_epi64 I (mm_cvtsi64_si128 I (push_bit (i mod 8 * 8) (of_bool (i < 8)))) (push_bit (i mod 8 * 8) (of_bool (8 \<le> i))) 1
       else mm_unpacklo_epi64 I (mm_cvtsi64_si128 I (push_bit (i mod 8 * 8) (of_bool (i < 8)))) (mm_cvtsi64_si128 I (push_bit (i mod 8 * 8) (of_bool (8 \<le> i)))))))"
  then have j: "j < 16" by simp
  show "v_store I (v_add_epi8 I l
      (if 4 \<le> with_sse B then mm_insert_epi64 I (mm_cvtsi64_si128 I (push_bit (i mod 8 * 8) (of_bool (i < 8)))) (push_bit (i mod 8 * 8) (of_bool (8 \<le> i))) 1
       else mm_unpacklo_epi64 I (mm_cvtsi64_si128 I (push_bit (i mod 8 * 8) (of_bool (i < 8)))) (mm_cvtsi64_si128 I (push_bit (i mod 8 * 8) (of_bool (8 \<le> i)))))) ! j
    = map (\<lambda>j. v_store I l ! j + of_bool (j = i)) [0..<16] ! j"
    using assms j by (cases "i < 8"; cases "j < 8")
      (auto simp: add_epi8 mm_insert_epi64 mm_unpacklo_epi64 mm_cvtsi64_si128 nth_append byte_exp byte_of_0 le_mod_geq)
qed simp

lemma sse_update:
  assumes ok: "uint_mask_ok 16 0 Align_right m" and ne: "uint_mask_slots 16 0 Align_right m \<noteq> {}"
  shows "v_store I (sse_update_lru B I l m) = bump_lru (v_store I l) (Min (uint_mask_slots 16 0 Align_right m))"
proof -
  let ?i = "Min (uint_mask_slots 16 0 Align_right m)" and ?t = "mk_truncate sse_mask_type m"
  let ?h = "v_and I (mm_srli_epi64 I l 1) (v_set1_epi8 I 0x7f)"
  have t: "bit ?t j \<longleftrightarrow> j = ?i" for j using truncate_slot [OF _ ok ne] by simp
  have "?i \<in> uint_mask_slots 16 0 Align_right m" by (rule Min_in [OF _ ne]) (simp add: uint_mask_slots_def)
  then have i: "?i < 16" by (simp add: uint_mask_slots_def)
  have single: "?t = slots_word 16 0 Align_right (\<lambda>j. j = ?i)"
    by (rule bit_word_eqI) (use i in \<open>auto simp: t slots_word_right bit_array_mask_loop\<close>)
  have nxt: "mk_next sse_mask_type ?t = ?i" unfolding single by (rule next_single) (use i in simp_all)
  have top: "mk_has_next sse_mask_type (sse_mask B I l max_lru AND ?t) \<longleftrightarrow> v_store I l ! ?i = max_lru"
    using i by (auto simp: has_next_bit bit_and_iff t sse_state_masks slots_word_right bit_array_mask_loop)
  have add: "v_store I (if with_avx_bwvl B then v_mask_add_epi8 I x ?t x (v_set1_epi8 I 1)
      else v_add_epi8 I x (if 4 \<le> with_sse B
          then mm_insert_epi64 I (mm_cvtsi64_si128 I (push_bit (?i mod 8 * 8) (of_bool (?i < 8)))) (push_bit (?i mod 8 * 8) (of_bool (8 \<le> ?i))) 1
          else mm_unpacklo_epi64 I (mm_cvtsi64_si128 I (push_bit (?i mod 8 * 8) (of_bool (?i < 8))))
            (mm_cvtsi64_si128 I (push_bit (?i mod 8 * 8) (of_bool (8 \<le> ?i))))))
    = map (\<lambda>j. v_store I x ! j + of_bool (j = ?i)) [0..<16]" for x
    using sse_inc [OF i, of x B] by (simp add: mask_add_epi8 t set1_epi8)
  show ?thesis
    unfolding sse_update_lru_def Let_def nxt top add
    by (rule nth_equalityI) (use i in \<open>auto simp: bump_lru_def sse_halve [unfolded One_nat_def] nth_list_update\<close>)
qed

section \<open>The kernel\<close>

lemma sse_array_like:
  "vector_kernel sse_mask_type (uint_mask_ok 16 0 Align_right) (uint_mask_slots 16 0 Align_right) 16
    (slots_word 16 0 Align_right) (sse_kernel B I)"
proof (intro vector_kernel.intro vector_kernel_axioms.intro)
  show "array_mask sse_mask_type (uint_mask_ok 16 0 Align_right) (uint_mask_slots 16 0 Align_right) 16 (slots_word 16 0 Align_right)"
    by (rule uint_vector) simp_all
  show "mk_at sse_mask_type m i \<longleftrightarrow> i \<in> uint_mask_slots 16 0 Align_right m" if "i < 16" for m i
    by (rule uint_vector(2)) (use that in simp_all)
  show "fold (\<lambda>i m. if p i then mk_join sse_mask_type m (mk_single sse_mask_type i) else m) [0..<16] (mk_empty sse_mask_type)
      = slots_word 16 0 Align_right p" for p
    by (rule uint_vector(3)) simp_all
  show "kn_store (sse_kernel B I) (kn_to_empty (sse_kernel B I) k m)
      = map (\<lambda>i. if i \<in> uint_mask_slots 16 0 Align_right m then empty_state else kn_store (sse_kernel B I) k ! i) [0..<16]" for k m
    by (simp add: sse_kernel_def sse_to_empty_slots uint_mask_slots_def)
  show "kn_count_equal (sse_kernel B I) k k' = mk_count sse_mask_type (kn_mask_equal (sse_kernel B I) k k')" for k k'
    by (simp add: sse_kernel_def sse_count_equal_def sse_equal_masks sse_masks cmpeq_epi8 flag_bytes)
qed (simp_all add: sse_kernel_def has_next_nonzero load_store store_load sse_state_masks sse_masks sse_equal_masks sse_empty_masks sse_mins
    sse_lru_below sse_states sse_to_empty_lru sse_at_byte sse_update)

end

end
