(* ===== verification/NeonKernel.thy ===== *)
theory NeonKernel
  imports Neon SseKernel
begin

text \<open>
  \<open>neon_kernel<8>\<close> and \<open>neon_kernel<16>\<close> of kernel.hpp: a bucket of 8 or 16 slots in one register, with masks of 8
  and 4 bits per slot. Every operation does what the array kernel of the same size and mask does.
\<close>

section \<open>The operations of neon_kernel<8>\<close>

abbreviation neon8_mask_type :: "u64 mask_ops" where
  "neon8_mask_type \<equiv> uint_mask 8 3 Align_left"

definition neon8_full :: u64 where
  "neon8_full = mk_full neon8_mask_type"

definition neon8_collapse :: "'d neon_d_ops \<Rightarrow> 'd \<Rightarrow> u64" where
  "neon8_collapse D m = d_get_lane_u64 D m 0"

definition neon8_expand :: "'d neon_d_ops \<Rightarrow> u64 \<Rightarrow> 'd" where
  "neon8_expand D m = (let mx = d_create D m in n_tst_u8 D mx mx)"

definition neon8_mask_equal :: "'d neon_d_ops \<Rightarrow> 'd \<Rightarrow> 'd \<Rightarrow> u64" where
  "neon8_mask_equal D k0 k1 = neon8_full AND neon8_collapse D (n_ceq D k0 k1)"

definition neon8_mask_not_equal :: "'d neon_d_ops \<Rightarrow> 'd \<Rightarrow> 'd \<Rightarrow> u64" where
  "neon8_mask_not_equal D k0 k1 = neon8_mask_equal D k0 k1 XOR neon8_full"

definition neon8_mask :: "'d neon_d_ops \<Rightarrow> 'd \<Rightarrow> state_t \<Rightarrow> u64" where
  "neon8_mask D k s = neon8_mask_equal D k (n_dup_8 D s)"

definition neon8_mask_not :: "'d neon_d_ops \<Rightarrow> 'd \<Rightarrow> state_t \<Rightarrow> u64" where
  "neon8_mask_not D k s = neon8_mask_not_equal D k (n_dup_8 D s)"

definition neon8_mask_not_hash :: "'d neon_d_ops \<Rightarrow> 'd \<Rightarrow> u64" where
  "neon8_mask_not_hash D k = neon8_full AND neon8_collapse D k"

definition neon8_mask_hash :: "'d neon_d_ops \<Rightarrow> 'd \<Rightarrow> u64" where
  "neon8_mask_hash D k = neon8_mask_not_hash D k XOR neon8_full"

definition neon_has :: "('x, 'z) neon_ops_scheme \<Rightarrow> 'x \<Rightarrow> state_t \<Rightarrow> bool" where
  "neon_has V k s \<longleftrightarrow> n_maxv_u8 V (n_ceq V k (n_dup_8 V s)) \<noteq> 0"

definition neon_has_not :: "('x, 'z) neon_ops_scheme \<Rightarrow> 'x \<Rightarrow> state_t \<Rightarrow> bool" where
  "neon_has_not V k s \<longleftrightarrow> n_minv_u8 V (n_ceq V k (n_dup_8 V s)) = 0"

definition neon_count_equal :: "('x, 'z) neon_ops_scheme \<Rightarrow> 'x \<Rightarrow> 'x \<Rightarrow> nat" where
  "neon_count_equal V k0 k1 = nat (- sint (n_addv_s8 V (n_ceq V k0 k1)))"

definition neon_count_not_equal :: "nat \<Rightarrow> ('x, 'z) neon_ops_scheme \<Rightarrow> 'x \<Rightarrow> 'x \<Rightarrow> nat" where
  "neon_count_not_equal n V k0 k1 = nat (int n + sint (n_addv_s8 V (n_ceq V k0 k1)))"

definition neon8_to_empty :: "'d neon_d_ops \<Rightarrow> 'd \<Rightarrow> u64 \<Rightarrow> 'd" where
  "neon8_to_empty D k m = (let mx = neon8_expand D m in n_bsl D mx (n_dup_8 D empty_state) k)"

definition neon8_at :: "'d neon_d_ops \<Rightarrow> 'd \<Rightarrow> nat \<Rightarrow> state_t" where
  "neon8_at D k i = n_get_lane_8 D (d_tbl1 D k (n_dup_8 D (of_nat i))) 0"

definition neon8_mask_lru :: "'d neon_d_ops \<Rightarrow> 'd \<Rightarrow> lru_t \<Rightarrow> u64" where
  "neon8_mask_lru D l lru = neon8_full AND neon8_collapse D (n_ceq D l (n_dup_8 D lru))"

definition neon8_min_lru :: "'d neon_d_ops \<Rightarrow> 'd \<Rightarrow> lru_t \<times> nat" where
  "neon8_min_lru D l = (let lru = n_minv_u8 D l in (lru, mk_next neon8_mask_type (neon8_mask_lru D l lru)))"

definition neon8_mask_min_lru :: "'d neon_d_ops \<Rightarrow> 'd \<Rightarrow> u64" where
  "neon8_mask_min_lru D l = neon8_full AND neon8_collapse D (n_ceq D l (n_dup_8 D (n_minv_u8 D l)))"

definition neon8_mask_lru_below :: "'d neon_d_ops \<Rightarrow> 'd \<Rightarrow> lru_t \<Rightarrow> u64" where
  "neon8_mask_lru_below D l t = neon8_full AND neon8_collapse D (n_clt_u8 D l (n_dup_8 D t))"

definition neon8_update_lru :: "'d neon_d_ops \<Rightarrow> 'd \<Rightarrow> u64 \<Rightarrow> 'd" where
  "neon8_update_lru D l n = (
     let n = mk_truncate neon8_mask_type n;
         nx = neon8_expand D n;
         r = n_ceq D l (n_dup_8 D max_lru);
         r = d_tst_u64 D r nx;
         l = n_shl_u8 D l r
     in n_sub_u8 D l nx)"

definition neon_to_empty_if_lru_below :: "('x, 'z) neon_ops_scheme \<Rightarrow> 'x \<Rightarrow> 'x \<Rightarrow> lru_t \<Rightarrow> 'x" where
  "neon_to_empty_if_lru_below V k l t =
     (let l = n_clt_u8 V l (n_dup_8 V t) in n_bsl V l (n_dup_8 V empty_state) k)"

definition neon_hash_to_tombstone :: "('x, 'z) neon_ops_scheme \<Rightarrow> 'x \<Rightarrow> 'x" where
  "neon_hash_to_tombstone V k = n_min_s8 V k (n_dup_8 V tombstone_state)"

definition neon_not_hash_to_empty :: "('x, 'z) neon_ops_scheme \<Rightarrow> 'x \<Rightarrow> 'x" where
  "neon_not_hash_to_empty V k = n_min_u8 V k (n_dup_8 V empty_state)"

definition neon8_kernel :: "'d neon_d_ops \<Rightarrow> ('d, 'd, u64) kernel_ops" where
  "neon8_kernel D = \<lparr>
     kn_size = 8,
     kn_mask_ops = neon8_mask_type,
     kn_load = n_ld1 D,
     kn_store = n_st1 D,
     kn_mask = neon8_mask D,
     kn_mask_not = neon8_mask_not D,
     kn_mask_hash = neon8_mask_hash D,
     kn_mask_not_hash = neon8_mask_not_hash D,
     kn_mask_empty = (\<lambda>k. neon8_mask D k empty_state),
     kn_mask_not_empty = (\<lambda>k. neon8_mask_not D k empty_state),
     kn_mask_tombstone = (\<lambda>k. neon8_mask D k tombstone_state),
     kn_mask_not_tombstone = (\<lambda>k. neon8_mask_not D k tombstone_state),
     kn_mask_equal = neon8_mask_equal D,
     kn_mask_not_equal = neon8_mask_not_equal D,
     kn_has_hash = (\<lambda>k. is_hash (n_maxv_s8 D k)),
     kn_has_not_hash = (\<lambda>k. is_not_hash (n_minv_s8 D k)),
     kn_has_empty = (\<lambda>k. n_minv_s8 D k = empty_state),
     kn_has_not_empty = (\<lambda>k. n_maxv_s8 D k \<noteq> empty_state),
     kn_has_tombstone = (\<lambda>k. neon_has D k tombstone_state),
     kn_has_not_tombstone = (\<lambda>k. neon_has_not D k tombstone_state),
     kn_count_equal = neon_count_equal D,
     kn_count_not_equal = neon_count_not_equal 8 D,
     kn_hash_to_tombstone = neon_hash_to_tombstone D,
     kn_not_hash_to_empty = neon_not_hash_to_empty D,
     kn_to_empty = neon8_to_empty D,
     kn_at = neon8_at D,
     kn_load_lru = n_ld1 D,
     kn_store_lru = n_st1 D,
     kn_min_lru = neon8_min_lru D,
     kn_mask_min_lru = neon8_mask_min_lru D,
     kn_mask_lru_below = neon8_mask_lru_below D,
     kn_update_lru = neon8_update_lru D,
     kn_to_empty_if_lru_below = neon_to_empty_if_lru_below D,
     kn_lru_at = neon8_at D\<rparr>"

section \<open>The operations of neon_kernel<16>\<close>

abbreviation neon16_mask_type :: "u64 mask_ops" where
  "neon16_mask_type \<equiv> uint_mask 16 2 Align_right"

definition neon16_full :: u64 where
  "neon16_full = mk_full neon16_mask_type"

definition neon16_collapse :: "'d neon_d_ops \<Rightarrow> ('d, 'x) neon_q_ops \<Rightarrow> 'x \<Rightarrow> u64" where
  "neon16_collapse D Q m8 = (let m4 = q_shrn_u16 Q m8 4 in d_get_lane_u64 D m4 0)"

definition neon16_expand :: "'d neon_d_ops \<Rightarrow> ('d, 'x) neon_q_ops \<Rightarrow> u64 \<Rightarrow> 'x" where
  "neon16_expand D Q m = (let mx = q_shll_u8 Q (d_create D m) 4 in n_tst_u8 Q mx mx)"

definition neon16_mask_equal :: "'d neon_d_ops \<Rightarrow> ('d, 'x) neon_q_ops \<Rightarrow> 'x \<Rightarrow> 'x \<Rightarrow> u64" where
  "neon16_mask_equal D Q k0 k1 = neon16_full AND neon16_collapse D Q (n_ceq Q k0 k1)"

definition neon16_mask_not_equal :: "'d neon_d_ops \<Rightarrow> ('d, 'x) neon_q_ops \<Rightarrow> 'x \<Rightarrow> 'x \<Rightarrow> u64" where
  "neon16_mask_not_equal D Q k0 k1 = neon16_mask_equal D Q k0 k1 XOR neon16_full"

definition neon16_mask :: "'d neon_d_ops \<Rightarrow> ('d, 'x) neon_q_ops \<Rightarrow> 'x \<Rightarrow> state_t \<Rightarrow> u64" where
  "neon16_mask D Q k s = neon16_mask_equal D Q k (n_dup_8 Q s)"

definition neon16_mask_not :: "'d neon_d_ops \<Rightarrow> ('d, 'x) neon_q_ops \<Rightarrow> 'x \<Rightarrow> state_t \<Rightarrow> u64" where
  "neon16_mask_not D Q k s = neon16_mask_not_equal D Q k (n_dup_8 Q s)"

definition neon16_mask_hash :: "'d neon_d_ops \<Rightarrow> ('d, 'x) neon_q_ops \<Rightarrow> 'x \<Rightarrow> u64" where
  "neon16_mask_hash D Q k = neon16_full AND neon16_collapse D Q (q_cgez_s8 Q k)"

definition neon16_mask_not_hash :: "'d neon_d_ops \<Rightarrow> ('d, 'x) neon_q_ops \<Rightarrow> 'x \<Rightarrow> u64" where
  "neon16_mask_not_hash D Q k = neon16_full AND neon16_collapse D Q (q_cltz_s8 Q k)"

definition neon16_to_empty :: "'d neon_d_ops \<Rightarrow> ('d, 'x) neon_q_ops \<Rightarrow> 'x \<Rightarrow> u64 \<Rightarrow> 'x" where
  "neon16_to_empty D Q k m = (let mx = neon16_expand D Q m in n_bsl Q mx (n_dup_8 Q empty_state) k)"

definition neon16_at :: "('d, 'x) neon_q_ops \<Rightarrow> 'x \<Rightarrow> nat \<Rightarrow> state_t" where
  "neon16_at Q k i = n_get_lane_8 Q (q_tbl1 Q k (n_dup_8 Q (of_nat i))) 0"

definition neon16_mask_lru :: "'d neon_d_ops \<Rightarrow> ('d, 'x) neon_q_ops \<Rightarrow> 'x \<Rightarrow> lru_t \<Rightarrow> u64" where
  "neon16_mask_lru D Q l lru = neon16_full AND neon16_collapse D Q (n_ceq Q l (n_dup_8 Q lru))"

definition neon16_min_lru :: "'d neon_d_ops \<Rightarrow> ('d, 'x) neon_q_ops \<Rightarrow> 'x \<Rightarrow> lru_t \<times> nat" where
  "neon16_min_lru D Q l = (let lru = n_minv_u8 Q l in (lru, mk_next neon16_mask_type (neon16_mask_lru D Q l lru)))"

definition neon16_mask_min_lru :: "'d neon_d_ops \<Rightarrow> ('d, 'x) neon_q_ops \<Rightarrow> 'x \<Rightarrow> u64" where
  "neon16_mask_min_lru D Q l = neon16_full AND neon16_collapse D Q (n_ceq Q l (n_dup_8 Q (n_minv_u8 Q l)))"

definition neon16_mask_lru_below :: "'d neon_d_ops \<Rightarrow> ('d, 'x) neon_q_ops \<Rightarrow> 'x \<Rightarrow> lru_t \<Rightarrow> u64" where
  "neon16_mask_lru_below D Q l t = neon16_full AND neon16_collapse D Q (n_clt_u8 Q l (n_dup_8 Q t))"

definition neon16_update_lru :: "'d neon_d_ops \<Rightarrow> ('d, 'x) neon_q_ops \<Rightarrow> 'x \<Rightarrow> u64 \<Rightarrow> 'x" where
  "neon16_update_lru D Q l n = (
     let n = mk_truncate neon16_mask_type n;
         nx = neon16_expand D Q n;
         r = n_ceq Q l (n_dup_8 Q max_lru);
         r = q_tst_u32 Q r nx;
         r = q_dup_u32 Q (q_maxv_u32 Q r);
         l = n_shl_u8 Q l r
     in n_sub_u8 Q l nx)"

definition neon16_kernel :: "'d neon_d_ops \<Rightarrow> ('d, 'x) neon_q_ops \<Rightarrow> ('x, 'x, u64) kernel_ops" where
  "neon16_kernel D Q = \<lparr>
     kn_size = 16,
     kn_mask_ops = neon16_mask_type,
     kn_load = n_ld1 Q,
     kn_store = n_st1 Q,
     kn_mask = neon16_mask D Q,
     kn_mask_not = neon16_mask_not D Q,
     kn_mask_hash = neon16_mask_hash D Q,
     kn_mask_not_hash = neon16_mask_not_hash D Q,
     kn_mask_empty = (\<lambda>k. neon16_mask D Q k empty_state),
     kn_mask_not_empty = (\<lambda>k. neon16_mask_not D Q k empty_state),
     kn_mask_tombstone = (\<lambda>k. neon16_mask D Q k tombstone_state),
     kn_mask_not_tombstone = (\<lambda>k. neon16_mask_not D Q k tombstone_state),
     kn_mask_equal = neon16_mask_equal D Q,
     kn_mask_not_equal = neon16_mask_not_equal D Q,
     kn_has_hash = (\<lambda>k. is_hash (n_maxv_s8 Q k)),
     kn_has_not_hash = (\<lambda>k. is_not_hash (n_minv_s8 Q k)),
     kn_has_empty = (\<lambda>k. n_minv_s8 Q k = empty_state),
     kn_has_not_empty = (\<lambda>k. n_maxv_s8 Q k \<noteq> empty_state),
     kn_has_tombstone = (\<lambda>k. neon_has Q k tombstone_state),
     kn_has_not_tombstone = (\<lambda>k. neon_has_not Q k tombstone_state),
     kn_count_equal = neon_count_equal Q,
     kn_count_not_equal = neon_count_not_equal 16 Q,
     kn_hash_to_tombstone = neon_hash_to_tombstone Q,
     kn_not_hash_to_empty = neon_not_hash_to_empty Q,
     kn_to_empty = neon16_to_empty D Q,
     kn_at = neon16_at Q,
     kn_load_lru = n_ld1 Q,
     kn_store_lru = n_st1 Q,
     kn_min_lru = neon16_min_lru D Q,
     kn_mask_min_lru = neon16_mask_min_lru D Q,
     kn_mask_lru_below = neon16_mask_lru_below D Q,
     kn_update_lru = neon16_update_lru D Q,
     kn_to_empty_if_lru_below = neon_to_empty_if_lru_below Q,
     kn_lru_at = neon16_at Q\<rparr>"

section \<open>Registers that hold a condition per lane\<close>

context neon_intrinsics
begin

lemma n_pos: "0 < n"
  using n_size by auto

lemma ceq_flags: "n_st1 V (n_ceq V x y) = map (\<lambda>i. flag_byte (n_st1 V x ! i = n_st1 V y ! i)) [0..<n]"
  by (rule nth_equalityI) (simp_all add: ceq flag_byte_def)

lemma clt_flags: "n_st1 V (n_clt_u8 V x y) = map (\<lambda>i. flag_byte (n_st1 V x ! i < n_st1 V y ! i)) [0..<n]"
  by (rule nth_equalityI) (simp_all add: clt_u8 flag_byte_def)

lemma tst_flags: "n_st1 V (n_tst_u8 V x y) = map (\<lambda>i. flag_byte (n_st1 V x ! i AND n_st1 V y ! i \<noteq> 0)) [0..<n]"
  by (rule nth_equalityI) (simp_all add: tst_u8 flag_byte_def)

lemma bsl_flags:
  assumes "n_st1 V m = map (\<lambda>i. flag_byte (p i)) [0..<n]"
  shows "n_st1 V (n_bsl V m x y) = map (\<lambda>i. if p i then n_st1 V x ! i else n_st1 V y ! i) [0..<n]"
  by (simp add: bsl assms)

lemma some_flag:
  assumes "n_st1 V m = map (\<lambda>i. flag_byte (p i)) [0..<n]"
  shows "n_maxv_u8 V m \<noteq> 0 \<longleftrightarrow> (\<exists>i<n. p i)" and "n_minv_u8 V m = 0 \<longleftrightarrow> (\<exists>i<n. \<not> p i)"
proof -
  have s: "set (n_st1 V m) = flag_byte ` p ` {..<n}" by (auto simp: assms)
  have ne: "set (n_st1 V m) \<noteq> {}" using n_pos by (auto simp: s)
  have "Max (set (n_st1 V m)) = 0 \<longleftrightarrow> (\<forall>b \<in> set (n_st1 V m). b = 0)"
    using Max_in [OF _ ne] Max_ge [of "set (n_st1 V m)"] by (metis List.finite_set word_coorder.extremum_uniqueI)
  then have "n_maxv_u8 V m \<noteq> 0 \<longleftrightarrow> (\<exists>b \<in> set (n_st1 V m). b \<noteq> 0)" by (simp add: maxv_u8)
  then show "n_maxv_u8 V m \<noteq> 0 \<longleftrightarrow> (\<exists>i<n. p i)" by (auto simp: s)
  have "n_minv_u8 V m = 0 \<longleftrightarrow> 0 \<in> set (n_st1 V m)"
    using Min_in [OF _ ne] Min_le [of "set (n_st1 V m)" 0] by (auto simp: minv_u8)
  then show "n_minv_u8 V m = 0 \<longleftrightarrow> (\<exists>i<n. \<not> p i)" by (auto simp: s)
qed

lemma sum_flag_register:
  assumes "n_st1 V m = map (\<lambda>i. flag_byte (p i)) [0..<n]"
  shows "sint (n_addv_s8 V m) = - int (card {i. i < n \<and> p i})"
proof -
  have "card {i. i < n \<and> p i} \<le> card {..<n}" by (rule card_mono) auto
  then have "card {i. i < n \<and> p i} \<le> 64" using n_size by auto
  moreover have "n_addv_s8 V m = - of_nat (card {i. i < n \<and> p i})"
    by (simp add: addv_s8 assms sum_flags filter_count)
  ultimately show ?thesis by (simp only: sint_neg_count)
qed

text \<open>The least and the greatest state tell whether some slot holds a hash, and whether some is empty.\<close>

lemma extreme_states:
  "is_hash (n_maxv_s8 V x) \<longleftrightarrow> (\<exists>i<n. is_hash (n_st1 V x ! i))"
  "\<not> is_hash (n_minv_s8 V x) \<longleftrightarrow> (\<exists>i<n. \<not> is_hash (n_st1 V x ! i))"
  "n_minv_s8 V x = empty_state \<longleftrightarrow> (\<exists>i<n. n_st1 V x ! i = empty_state)"
  "n_maxv_s8 V x \<noteq> empty_state \<longleftrightarrow> (\<exists>i<n. n_st1 V x ! i \<noteq> empty_state)"
proof -
  let ?S = "sint ` set (n_st1 V x)"
  have S: "?S = (\<lambda>i. sint (n_st1 V x ! i)) ` {..<n}" by (auto simp: set_conv_nth)
  have ne: "?S \<noteq> {}" using n_pos by (auto simp: S)
  have h: "is_hash b \<longleftrightarrow> 0 \<le> sint b" "b = empty_state \<longleftrightarrow> sint b \<le> - 128" for b :: u8
  proof -
    have e: "b = empty_state \<longleftrightarrow> uint b = 128" by (simp add: empty_state_def word_uint_eq_iff)
    have "(u < 128) = (0 \<le> (if u < 128 then u else u - 256))" "(u = 128) = ((if u < 128 then u else u - 256) \<le> - 128)"
      if "0 \<le> u" "u < 256" for u :: int using that by auto
    note this [OF uint_u8(1,2) [of b]]
    then show "is_hash b \<longleftrightarrow> 0 \<le> sint b" "b = empty_state \<longleftrightarrow> sint b \<le> - 128" unfolding e sint_u8 uint_u8(3) by this
  qed
  have n: "\<not> is_hash b \<longleftrightarrow> sint b < 0" for b :: u8 using h(1) [of b] by auto
  show "is_hash (n_maxv_s8 V x) \<longleftrightarrow> (\<exists>i<n. is_hash (n_st1 V x ! i))"
    unfolding h maxv_s8 Max_ge_iff [OF finite_imageI [OF List.finite_set] ne] by (auto simp: S)
  show "\<not> is_hash (n_minv_s8 V x) \<longleftrightarrow> (\<exists>i<n. \<not> is_hash (n_st1 V x ! i))"
    unfolding n minv_s8 Min_less_iff [OF finite_imageI [OF List.finite_set] ne] by (auto simp: S)
  show "n_minv_s8 V x = empty_state \<longleftrightarrow> (\<exists>i<n. n_st1 V x ! i = empty_state)"
    unfolding h minv_s8 Min_le_iff [OF finite_imageI [OF List.finite_set] ne] by (auto simp: S)
  show "n_maxv_s8 V x \<noteq> empty_state \<longleftrightarrow> (\<exists>i<n. n_st1 V x ! i \<noteq> empty_state)"
    unfolding h maxv_s8 Max_le_iff [OF finite_imageI [OF List.finite_set] ne] by (auto simp: S)
qed

lemma neon_tests:
  "neon_has V k s \<longleftrightarrow> (\<exists>i<n. n_st1 V k ! i = s)" "neon_has_not V k s \<longleftrightarrow> (\<exists>i<n. n_st1 V k ! i \<noteq> s)"
  using some_flag [OF ceq_flags [of k "n_dup_8 V s"]] by (auto simp: neon_has_def neon_has_not_def dup_8)

lemma neon_counts:
  "neon_count_equal V k k' = card {i. i < n \<and> n_st1 V k ! i = n_st1 V k' ! i}"
  "neon_count_not_equal n V k k' = card {i. i < n \<and> n_st1 V k ! i \<noteq> n_st1 V k' ! i}"
proof -
  let ?E = "{i. i < n \<and> n_st1 V k ! i = n_st1 V k' ! i}" and ?N = "{i. i < n \<and> n_st1 V k ! i \<noteq> n_st1 V k' ! i}"
  note c = sum_flag_register [OF ceq_flags [of k k']]
  show "neon_count_equal V k k' = card ?E" by (simp add: neon_count_equal_def c)
  have "?E \<union> ?N = {..<n}" by auto
  then have "card ?E + card ?N = n" by (subst card_Un_disjoint [symmetric]) auto
  then show "neon_count_not_equal n V k k' = card ?N" by (simp add: neon_count_not_equal_def c)
qed

lemma neon_states:
  "n_st1 V (neon_hash_to_tombstone V k) = map (\<lambda>x. if sint tombstone_state < sint x then tombstone_state else x) (n_st1 V k)"
  "n_st1 V (neon_not_hash_to_empty V k) = map (\<lambda>x. min x empty_state) (n_st1 V k)"
  "n_st1 V (neon_to_empty_if_lru_below V k l t)
    = map (\<lambda>i. if n_st1 V l ! i < t then empty_state else n_st1 V k ! i) [0..<n]"
  by (rule nth_equalityI; simp add: neon_hash_to_tombstone_def neon_not_hash_to_empty_def min_s8 min_u8 dup_8
      neon_to_empty_if_lru_below_def Let_def bsl_flags [OF clt_flags])+

lemma least_lru_register: "n_minv_u8 V l = least_lru (n_st1 V l)"
  by (simp add: minv_u8 least_lru_def)

text \<open>Halving on overflow, then adding one to one slot.\<close>

lemma neon_bump:
  assumes i: "i < n" and nx: "n_st1 V nx = map (\<lambda>j. flag_byte (j = i)) [0..<n]"
    and r: "n_st1 V r = replicate n (flag_byte (n_st1 V l ! i = max_lru))"
  shows "n_st1 V (n_sub_u8 V (n_shl_u8 V l r) nx) = bump_lru (n_st1 V l) i"
proof (rule nth_equalityI)
  fix j assume "j < length (n_st1 V (n_sub_u8 V (n_shl_u8 V l r) nx))"
  then have j: "j < n" by simp
  have "n_st1 V (n_shl_u8 V l r) ! j = (if n_st1 V l ! i = max_lru then drop_bit 1 (n_st1 V l ! j) else n_st1 V l ! j)"
    using j by (simp add: shl_u8 r flag_shift)
  then show "n_st1 V (n_sub_u8 V (n_shl_u8 V l r) nx) ! j = bump_lru (n_st1 V l) i ! j"
    using i j by (auto simp: sub_u8 nx bump_lru_def nth_list_update)
qed (simp add: bump_lru_def)

end

section \<open>neon_kernel<8> is the array kernel of 8 slots\<close>

abbreviation neon8_slots :: "u64 \<Rightarrow> nat set" where
  "neon8_slots \<equiv> uint_mask_slots 8 3 Align_left"

abbreviation neon8_loop :: "(nat \<Rightarrow> bool) \<Rightarrow> u64" where
  "neon8_loop \<equiv> slots_word 8 3 Align_left"

lemma neon8_full_loop: "neon8_full = neon8_loop (\<lambda>_. True)"
  unfolding neon8_full_def uint_mask_def slots_word_def by code_simp

lemma neon8_ops: "neon8_loop p AND neon8_loop q = neon8_loop (\<lambda>i. p i \<and> q i)"
  "neon8_loop p XOR neon8_full = neon8_loop (\<lambda>i. \<not> p i)"
  unfolding neon8_full_loop by (rule slots_word_ops; simp)+

lemma ok_byte: "uint_mask_ok 8 3 Align_left m \<Longrightarrow> i < 8 \<Longrightarrow> byte_of m i \<noteq> 0 \<longleftrightarrow> i \<in> neon8_slots m" for m :: u64
  using ok_mask_bit [of 8 3 Align_left m i] by (auto simp: bit_eq_iff bit_byte_of ac_simps)

context neon_d_intrinsics
begin

lemma neon8_masked: "neon8_full AND neon8_collapse D m = neon8_loop (\<lambda>i. bit (n_st1 D m ! i) 7)"
proof (rule bit_word_eqI)
  fix j assume "j < LENGTH(64)"
  have "j mod 8 = 7 \<Longrightarrow> j = j div 8 * 8 + 7" using mult_div_mod_eq [of 8 j] by linarith
  then have "(\<exists>i<8. j = slot_bit 3 Align_left i) \<longleftrightarrow> j < 64 \<and> j mod 8 = 7"
    by (auto simp: slot_bit_def intro!: exI [of _ "j div 8"])
  moreover have "slot_bit 3 Align_left i div 8 = i" "slot_bit 3 Align_left i mod 8 = 7" for i by (simp_all add: slot_bit_def)
  ultimately show "bit (neon8_full AND neon8_collapse D m) j = bit (neon8_loop (\<lambda>i. bit (n_st1 D m ! i) 7)) j"
    by (auto simp: bit_and_iff neon8_full_loop bit_slots_word neon8_collapse_def d_get_lane_u64 bit_lane)
qed

lemma neon8_masks:
  "neon8_mask_equal D k k' = neon8_loop (\<lambda>i. n_st1 D k ! i = n_st1 D k' ! i)"
  "neon8_mask_not_equal D k k' = neon8_loop (\<lambda>i. n_st1 D k ! i \<noteq> n_st1 D k' ! i)"
  "neon8_mask D k s = neon8_loop (\<lambda>i. n_st1 D k ! i = s)"
  "neon8_mask_not D k s = neon8_loop (\<lambda>i. n_st1 D k ! i \<noteq> s)"
  "neon8_mask_not_hash D k = neon8_loop (\<lambda>i. is_not_hash (n_st1 D k ! i))"
  "neon8_mask_hash D k = neon8_loop (\<lambda>i. is_hash (n_st1 D k ! i))"
  "neon8_mask_lru D l v = neon8_loop (\<lambda>i. n_st1 D l ! i = v)"
  "neon8_mask_min_lru D l = neon8_loop (\<lambda>i. n_st1 D l ! i = least_lru (n_st1 D l))"
  "neon8_mask_lru_below D l v = neon8_loop (\<lambda>i. n_st1 D l ! i < v)"
  by (simp_all add: neon8_mask_equal_def neon8_mask_not_equal_def neon8_mask_def neon8_mask_not_def neon8_mask_not_hash_def
      neon8_mask_hash_def neon8_mask_lru_def neon8_mask_min_lru_def neon8_mask_lru_below_def ceq_flags
      clt_flags neon8_masked neon8_ops dup_8 is_hash_iff_bit least_lru_register)

lemma neon8_expand_flags: "n_st1 D (neon8_expand D m) = map (\<lambda>i. flag_byte (byte_of m i \<noteq> 0)) [0..<8]"
  by (simp add: neon8_expand_def Let_def tst_flags d_create)

lemma neon8_update:
  assumes ok: "uint_mask_ok 8 3 Align_left m" and ne: "neon8_slots m \<noteq> {}"
  shows "n_st1 D (neon8_update_lru D l m) = bump_lru (n_st1 D l) (Min (neon8_slots m))"
proof -
  let ?i = "Min (neon8_slots m)" and ?t = "mk_truncate neon8_mask_type m"
  have "?i \<in> neon8_slots m" by (rule Min_in [OF _ ne]) (simp add: uint_mask_slots_def)
  then have i: "?i < 8" by (simp add: uint_mask_slots_def)
  have t: "bit ?t j \<longleftrightarrow> j = slot_bit 3 Align_left ?i" for j by (rule truncate_slot [OF _ ok ne]) simp
  have b: "byte_of ?t j \<noteq> 0 \<longleftrightarrow> j = ?i" if "j < 8" for j
  proof -
    have "byte_of ?t j \<noteq> 0 \<longleftrightarrow> (\<exists>r<8. bit ?t (8 * j + r))" by (auto simp: bit_eq_iff bit_byte_of)
    also have "\<dots> \<longleftrightarrow> j = ?i" unfolding t by (auto simp: slot_bit_def)
    finally show ?thesis .
  qed
  have nx: "n_st1 D (neon8_expand D ?t) = map (\<lambda>j. flag_byte (j = ?i)) [0..<8]"
    unfolding neon8_expand_flags by (rule map_cong) (use b in simp_all)
  let ?c = "n_ceq D l (n_dup_8 D max_lru)"
  have "(\<exists>j<8. n_st1 D ?c ! (8 * 0 + j) AND n_st1 D (neon8_expand D ?t) ! (8 * 0 + j) \<noteq> 0) \<longleftrightarrow> n_st1 D l ! ?i = max_lru"
    using i by (auto simp: ceq_flags nx dup_8 split: if_splits)
  then have "n_st1 D (d_tst_u64 D ?c (neon8_expand D ?t)) = replicate 8 (flag_byte (n_st1 D l ! ?i = max_lru))"
    unfolding d_tst_u64 by (subst lane_and) (simp_all add: flag_byte_def)
  from neon_bump [OF i nx this] show ?thesis by (simp add: neon8_update_lru_def Let_def)
qed

lemma neon8_array_like:
  "vector_kernel neon8_mask_type (uint_mask_ok 8 3 Align_left) neon8_slots 8 neon8_loop (neon8_kernel D)"
proof (intro vector_kernel.intro vector_kernel_axioms.intro)
  have len: "8 * 2 ^ 3 \<le> LENGTH(64)" by simp
  show "array_mask neon8_mask_type (uint_mask_ok 8 3 Align_left) neon8_slots 8 neon8_loop"
    by (rule uint_vector(1) [OF _ len]) simp
  show "mk_at neon8_mask_type m i \<longleftrightarrow> i \<in> neon8_slots m" if "i < 8" for m i
    by (rule uint_vector(2) [OF _ len that]) simp
  show "fold (\<lambda>i m. if p i then mk_join neon8_mask_type m (mk_single neon8_mask_type i) else m) [0..<8] (mk_empty neon8_mask_type)
      = neon8_loop p" for p by (rule uint_vector(3) [OF _ len]) simp
  show "kn_store (neon8_kernel D) (kn_to_empty (neon8_kernel D) k m)
      = map (\<lambda>i. if i \<in> neon8_slots m then empty_state else kn_store (neon8_kernel D) k ! i) [0..<8]"
    if "uint_mask_ok 8 3 Align_left m" for k m
    using ok_byte [OF that] by (simp add: neon8_kernel_def neon8_to_empty_def bsl_flags [OF neon8_expand_flags] dup_8)
  note has = slots_word_has [OF len] and count = slots_word_count [OF _ len]
  show "kn_has_hash (neon8_kernel D) k \<longleftrightarrow> mk_has_next neon8_mask_type (kn_mask_hash (neon8_kernel D) k)"
    "kn_has_not_hash (neon8_kernel D) k \<longleftrightarrow> mk_has_next neon8_mask_type (kn_mask_not_hash (neon8_kernel D) k)"
    "kn_has_empty (neon8_kernel D) k \<longleftrightarrow> mk_has_next neon8_mask_type (kn_mask_empty (neon8_kernel D) k)"
    "kn_has_not_empty (neon8_kernel D) k \<longleftrightarrow> mk_has_next neon8_mask_type (kn_mask_not_empty (neon8_kernel D) k)"
    "kn_has_tombstone (neon8_kernel D) k \<longleftrightarrow> mk_has_next neon8_mask_type (kn_mask_tombstone (neon8_kernel D) k)"
    "kn_has_not_tombstone (neon8_kernel D) k \<longleftrightarrow> mk_has_next neon8_mask_type (kn_mask_not_tombstone (neon8_kernel D) k)" for k
    by (simp_all add: neon8_kernel_def has extreme_states neon_tests neon8_masks)
  show "kn_count_equal (neon8_kernel D) k k' = mk_count neon8_mask_type (kn_mask_equal (neon8_kernel D) k k')"
    "kn_count_not_equal (neon8_kernel D) k k' = mk_count neon8_mask_type (kn_mask_not_equal (neon8_kernel D) k k')" for k k'
    by (simp_all add: neon8_kernel_def count neon_counts neon8_masks)
qed (simp_all add: neon8_kernel_def neon8_masks st1_ld1 ld1_st1 neon_states neon8_at_def get_lane_8 d_tbl1 dup_8 lookup_constant
    neon8_min_lru_def Let_def least_lru_register neon8_update)

end

section \<open>neon_kernel<16> is the array kernel of 16 slots\<close>

text \<open>A condition per lane of 32 bits, spread over the whole register.\<close>

context neon_q_intrinsics
begin

lemma tst_lanes: "q < 4 \<Longrightarrow> lane 4 (n_st1 Q (q_tst_u32 Q x y)) q
    = (if \<exists>j<4. n_st1 Q x ! (4 * q + j) AND n_st1 Q y ! (4 * q + j) \<noteq> 0 then - 1 else 0 :: 32 word)"
  by (simp add: q_tst_u32 lane_from_lanes lane_and)

lemma orr_lanes: "q < 4 \<Longrightarrow> lane 4 (n_st1 Q (q_orr Q x y)) q = (lane 4 (n_st1 Q x) q OR lane 4 (n_st1 Q y) q :: 32 word)"
  by (rule word_eq_bytesI) (simp_all add: byte_of_or byte_lane q_orr)

lemma spread_any:
  assumes "\<And>q. q < 4 \<Longrightarrow> lane 4 (n_st1 Q x) q = (if f q then - 1 else 0 :: 32 word)"
  shows "n_st1 Q (q_dup_u32 Q (q_maxv_u32 Q x)) = replicate 16 (flag_byte (\<exists>q<4. f q))"
proof -
  let ?L = "lane 4 (n_st1 Q x) ` {..<4} :: 32 word set"
  have L: "?L = (\<lambda>q. if f q then - 1 else 0) ` {..<4}" by (rule image_cong) (use assms in simp_all)
  have "Max ?L = (if \<exists>q<4. f q then - 1 else 0)"
  proof (rule Max_eqI)
    show "y \<le> (if \<exists>q<4. f q then - 1 else 0)" if "y \<in> ?L" for y using that by (auto simp: L)
    show "(if \<exists>q<4. f q then - 1 else 0) \<in> ?L" by (auto simp: L image_iff) (metis zero_less_numeral)
  qed simp
  moreover have "byte_of (- 1 :: 32 word) j = 0xff" if "j < 4" for j
  proof -
    have "byte_of (NOT 0 :: 32 word) j = NOT (byte_of (0 :: 32 word) j)" by (rule byte_of_not) (use that in simp_all)
    then show ?thesis by (simp add: byte_of_0)
  qed
  ultimately show ?thesis
    unfolding q_dup_u32 q_maxv_u32 by (intro nth_equalityI) (simp_all add: flag_byte_def byte_of_0)
qed

lemma lanes_bytes: "(\<exists>q<4. \<exists>j<4. P (4 * q + j)) \<longleftrightarrow> (\<exists>i<16. P i)" for P :: "nat \<Rightarrow> bool"
proof
  assume "\<exists>i<16. P i"
  then obtain i where "i < 16" "P i" by blast
  then have "i div 4 < 4 \<and> (\<exists>j<4. P (4 * (i div 4) + j))" by (intro conjI exI [of _ "i mod 4"]) simp_all
  then show "\<exists>q<4. \<exists>j<4. P (4 * q + j)" by blast
next
  assume "\<exists>q<4. \<exists>j<4. P (4 * q + j)"
  then obtain q j where "q < 4" "j < 4" "P (4 * q + j)" by blast
  then show "\<exists>i<16. P i" by (intro exI [of _ "4 * q + j"]) simp
qed

end

abbreviation neon16_slots :: "u64 \<Rightarrow> nat set" where
  "neon16_slots \<equiv> uint_mask_slots 16 2 Align_right"

abbreviation neon16_loop :: "(nat \<Rightarrow> bool) \<Rightarrow> u64" where
  "neon16_loop \<equiv> slots_word 16 2 Align_right"

lemma neon16_full_loop: "neon16_full = neon16_loop (\<lambda>_. True)"
  unfolding neon16_full_def uint_mask_def slots_word_def by code_simp

lemma neon16_ops: "neon16_loop p XOR neon16_full = neon16_loop (\<lambda>i. \<not> p i)"
  unfolding neon16_full_loop by (rule slots_word_ops) simp

context neon_q_intrinsics
begin

lemma sign_flags:
  "n_st1 Q (q_cgez_s8 Q x) = map (\<lambda>i. flag_byte (is_hash (n_st1 Q x ! i))) [0..<16]"
  "n_st1 Q (q_cltz_s8 Q x) = map (\<lambda>i. flag_byte (\<not> is_hash (n_st1 Q x ! i))) [0..<16]"
  by (rule nth_equalityI; simp add: q_cgez_s8 q_cltz_s8 flag_byte_def is_hash_def not_le)+

lemma neon16_masked:
  assumes "n_st1 Q m = map (\<lambda>i. flag_byte (p i)) [0..<16]"
  shows "neon16_full AND neon16_collapse D Q m = neon16_loop p"
proof (rule bit_word_eqI)
  fix j assume "j < LENGTH(64)"
  have "bit (neon16_collapse D Q m) (i * 4) \<longleftrightarrow> p i" if "i < 16" for i
  proof -
    have "i * 4 mod 8 = 4 * (i mod 2)" "i * 4 div 8 = i div 2" using mult_mod_right [of 4 i 2] by (simp_all add: mult.commute)
    then have "bit (neon16_collapse D Q m) (i * 4) \<longleftrightarrow> bit (lane 2 (n_st1 Q m) (i div 2) :: 16 word) (4 + 4 * (i mod 2))"
      using that by (simp add: neon16_collapse_def d_get_lane_u64 bit_lane q_shrn_u16 bit_ucast_iff bit_drop_bit_eq)
    also have "\<dots> \<longleftrightarrow> p i"
      using that by (cases "even i") (auto simp: bit_lane assms bit_flag_byte odd_iff_mod_2_eq_one elim!: evenE oddE)
    finally show ?thesis .
  qed
  then show "bit (neon16_full AND neon16_collapse D Q m) j = bit (neon16_loop p) j"
    by (auto simp: bit_and_iff neon16_full_loop bit_slots_word slot_bit_def)
qed

lemma neon16_masks:
  "neon16_mask_equal D Q k k' = neon16_loop (\<lambda>i. n_st1 Q k ! i = n_st1 Q k' ! i)"
  "neon16_mask_not_equal D Q k k' = neon16_loop (\<lambda>i. n_st1 Q k ! i \<noteq> n_st1 Q k' ! i)"
  "neon16_mask D Q k s = neon16_loop (\<lambda>i. n_st1 Q k ! i = s)"
  "neon16_mask_not D Q k s = neon16_loop (\<lambda>i. n_st1 Q k ! i \<noteq> s)"
  "neon16_mask_not_hash D Q k = neon16_loop (\<lambda>i. is_not_hash (n_st1 Q k ! i))"
  "neon16_mask_hash D Q k = neon16_loop (\<lambda>i. is_hash (n_st1 Q k ! i))"
  "neon16_mask_lru D Q l v = neon16_loop (\<lambda>i. n_st1 Q l ! i = v)"
  "neon16_mask_min_lru D Q l = neon16_loop (\<lambda>i. n_st1 Q l ! i = least_lru (n_st1 Q l))"
  "neon16_mask_lru_below D Q l v = neon16_loop (\<lambda>i. n_st1 Q l ! i < v)"
  by (simp_all add: neon16_mask_equal_def neon16_mask_not_equal_def neon16_mask_def neon16_mask_not_def neon16_mask_not_hash_def
      neon16_mask_hash_def neon16_mask_lru_def neon16_mask_min_lru_def neon16_mask_lru_below_def neon16_masked [OF quad.ceq_flags]
      neon16_masked [OF quad.clt_flags] neon16_masked [OF sign_flags(1)] neon16_masked [OF sign_flags(2)] neon16_ops quad.dup_8
      quad.least_lru_register)

lemma neon16_expand_flags: "n_st1 Q (neon16_expand D Q m) = map (\<lambda>i. flag_byte (\<exists>r<4. bit m (i * 4 + r))) [0..<16]"
proof (rule nth_equalityI)
  fix i assume "i < length (n_st1 Q (neon16_expand D Q m))"
  then have i: "i < 16" by simp
  let ?w = "push_bit 4 (ucast (byte_of m (i div 2))) :: 16 word"
  have "byte_of ?w (i mod 2) \<noteq> 0 \<longleftrightarrow> (\<exists>r<8. bit ?w (8 * (i mod 2) + r))" by (auto simp: bit_eq_iff bit_byte_of)
  also have "\<dots> \<longleftrightarrow> (\<exists>r<4. bit m (i * 4 + r))" (is "?l = ?r")
  proof
    assume ?l
    then obtain r where r: "r < 8" "bit ?w (8 * (i mod 2) + r)" by blast
    then have "4 \<le> 8 * (i mod 2) + r" "bit m (8 * (i div 2) + (8 * (i mod 2) + r - 4))" "8 * (i mod 2) + r - 4 < 8"
      by (auto simp: bit_push_bit_iff bit_ucast_iff bit_byte_of)
    moreover have "8 * (i div 2) + (8 * (i mod 2) + r - 4) = i * 4 + (4 * (i mod 2) + r - 4)" "4 * (i mod 2) + r - 4 < 4"
      using calculation r(1) by (cases "even i"; auto elim!: evenE oddE)+
    ultimately show ?r by metis
  next
    assume ?r
    then obtain r where r: "r < 4" "bit m (i * 4 + r)" by blast
    have "i * 4 + r = 8 * (i div 2) + (4 * (i mod 2) + r)" by (cases "even i") (auto elim!: evenE oddE)
    then have "bit ?w (8 * (i mod 2) + (4 - 4 * (i mod 2) + r))"
      using r by (cases "even i") (auto simp: bit_push_bit_iff bit_ucast_iff bit_byte_of odd_iff_mod_2_eq_one add.assoc)
    then show ?l using r(1) by (intro exI [of _ "4 - 4 * (i mod 2) + r"]) auto
  qed
  finally have "byte_of ?w (i mod 2) \<noteq> 0 \<longleftrightarrow> (\<exists>r<4. bit m (i * 4 + r))" .
  then show "n_st1 Q (neon16_expand D Q m) ! i = map (\<lambda>i. flag_byte (\<exists>r<4. bit m (i * 4 + r))) [0..<16] ! i"
    using i by (simp add: neon16_expand_def Let_def quad.tst_flags q_shll_u8 d_create less_mult_imp_div_less)
qed simp

lemma neon16_update:
  assumes ok: "uint_mask_ok 16 2 Align_right m" and ne: "neon16_slots m \<noteq> {}"
  shows "n_st1 Q (neon16_update_lru D Q l m) = bump_lru (n_st1 Q l) (Min (neon16_slots m))"
proof -
  let ?i = "Min (neon16_slots m)" and ?t = "mk_truncate neon16_mask_type m"
  have "?i \<in> neon16_slots m" by (rule Min_in [OF _ ne]) (simp add: uint_mask_slots_def)
  then have i: "?i < 16" by (simp add: uint_mask_slots_def)
  have t: "bit ?t j \<longleftrightarrow> j = ?i * 4" for j using truncate_slot [OF _ ok ne] by (simp add: slot_bit_def)
  have nx: "n_st1 Q (neon16_expand D Q ?t) = map (\<lambda>j. flag_byte (j = ?i)) [0..<16]"
  proof -
    have "(\<exists>r<4. x * 4 + r = k * 4) \<longleftrightarrow> x = k" for x k :: nat
    proof
      assume "\<exists>r<4. x * 4 + r = k * 4"
      then obtain r where "r < 4" "(x * 4 + r) div 4 = k * 4 div 4" by auto
      then show "x = k" by simp
    qed simp
    then show ?thesis unfolding neon16_expand_flags t by (simp only:)
  qed
  let ?c = "n_ceq Q l (n_dup_8 Q max_lru)"
  have "(\<exists>q<4. \<exists>j<4. n_st1 Q ?c ! (4 * q + j) AND n_st1 Q (neon16_expand D Q ?t) ! (4 * q + j) \<noteq> 0) \<longleftrightarrow> n_st1 Q l ! ?i = max_lru"
    unfolding lanes_bytes [where P = "\<lambda>j. n_st1 Q ?c ! j AND n_st1 Q (neon16_expand D Q ?t) ! j \<noteq> 0"]
    using i by (auto simp: quad.ceq_flags nx quad.dup_8 split: if_splits)
  then have "n_st1 Q (q_dup_u32 Q (q_maxv_u32 Q (q_tst_u32 Q ?c (neon16_expand D Q ?t)))) = replicate 16 (flag_byte (n_st1 Q l ! ?i = max_lru))"
    using spread_any [OF tst_lanes] by simp
  from quad.neon_bump [OF i nx this] show ?thesis by (simp add: neon16_update_lru_def Let_def)
qed

lemma neon16_array_like:
  "vector_kernel neon16_mask_type (uint_mask_ok 16 2 Align_right) neon16_slots 16 neon16_loop (neon16_kernel D Q)"
proof (intro vector_kernel.intro vector_kernel_axioms.intro)
  have len: "16 * 2 ^ 2 \<le> LENGTH(64)" by simp
  show "array_mask neon16_mask_type (uint_mask_ok 16 2 Align_right) neon16_slots 16 neon16_loop"
    by (rule uint_vector(1) [OF _ len]) simp
  show "mk_at neon16_mask_type m i \<longleftrightarrow> i \<in> neon16_slots m" if "i < 16" for m i
    by (rule uint_vector(2) [OF _ len that]) simp
  show "fold (\<lambda>i m. if p i then mk_join neon16_mask_type m (mk_single neon16_mask_type i) else m) [0..<16] (mk_empty neon16_mask_type)
      = neon16_loop p" for p by (rule uint_vector(3) [OF _ len]) simp
  show "kn_store (neon16_kernel D Q) (kn_to_empty (neon16_kernel D Q) k m)
      = map (\<lambda>i. if i \<in> neon16_slots m then empty_state else kn_store (neon16_kernel D Q) k ! i) [0..<16]"
    if "uint_mask_ok 16 2 Align_right m" for k m
    using ok_mask_bit [OF that]
    by (simp add: neon16_kernel_def neon16_to_empty_def quad.bsl_flags [OF neon16_expand_flags] quad.dup_8)
  note has = slots_word_has [OF len] and count = slots_word_count [OF _ len]
  show "kn_has_hash (neon16_kernel D Q) k \<longleftrightarrow> mk_has_next neon16_mask_type (kn_mask_hash (neon16_kernel D Q) k)"
    "kn_has_not_hash (neon16_kernel D Q) k \<longleftrightarrow> mk_has_next neon16_mask_type (kn_mask_not_hash (neon16_kernel D Q) k)"
    "kn_has_empty (neon16_kernel D Q) k \<longleftrightarrow> mk_has_next neon16_mask_type (kn_mask_empty (neon16_kernel D Q) k)"
    "kn_has_not_empty (neon16_kernel D Q) k \<longleftrightarrow> mk_has_next neon16_mask_type (kn_mask_not_empty (neon16_kernel D Q) k)"
    "kn_has_tombstone (neon16_kernel D Q) k \<longleftrightarrow> mk_has_next neon16_mask_type (kn_mask_tombstone (neon16_kernel D Q) k)"
    "kn_has_not_tombstone (neon16_kernel D Q) k \<longleftrightarrow> mk_has_next neon16_mask_type (kn_mask_not_tombstone (neon16_kernel D Q) k)" for k
    by (simp_all add: neon16_kernel_def has quad.extreme_states quad.neon_tests neon16_masks)
  show "kn_count_equal (neon16_kernel D Q) k k' = mk_count neon16_mask_type (kn_mask_equal (neon16_kernel D Q) k k')"
    "kn_count_not_equal (neon16_kernel D Q) k k' = mk_count neon16_mask_type (kn_mask_not_equal (neon16_kernel D Q) k k')" for k k'
    by (simp_all add: neon16_kernel_def count quad.neon_counts neon16_masks)
qed (simp_all add: neon16_kernel_def neon16_masks quad.st1_ld1 quad.ld1_st1 quad.neon_states neon16_at_def quad.get_lane_8 q_tbl1
    quad.dup_8 lookup_constant neon16_min_lru_def Let_def quad.least_lru_register neon16_update)

end

end
