(* ===== verification/NeonWide.thy ===== *)
theory NeonWide
  imports NeonKernel
begin

text \<open>
  \<open>neon_kernel<32>\<close> and \<open>neon_kernel<64>\<close> of kernel.hpp: a bucket of 32 or 64 slots in two or four registers, with
  masks of two bits and of one bit per slot. Every operation does what the array kernel does.
\<close>

section \<open>The operations of neon_kernel<32>\<close>

type_synonym 'x neon_2 = "'x \<times> 'x"
type_synonym 'x neon_4 = "'x \<times> 'x \<times> 'x \<times> 'x"

abbreviation neon32_mask_type :: "u64 mask_ops" where
  "neon32_mask_type \<equiv> uint_mask 32 1 Align_right"

definition neon32_full :: u64 where
  "neon32_full = mk_full neon32_mask_type"

definition neon32_collapse :: "('d, 'x) neon_q_ops \<Rightarrow> 'x \<Rightarrow> 'x \<Rightarrow> u64" where
  "neon32_collapse Q m8_0 m8_1 = (
     let bits = q_dup_u32 Q 0x40100401;
         m8_0 = q_and Q m8_0 bits;
         m8_1 = q_and Q m8_1 bits;
         m8_0 = q_padd_u8 Q m8_0 m8_1;
         m8_0 = q_padd_u8 Q m8_0 m8_0
     in q_get_lane_u64 Q m8_0 0)"

definition neon32_expand :: "('d, 'x) neon_q_ops \<Rightarrow> u64 \<Rightarrow> 'x neon_2" where
  "neon32_expand Q m = (
     let m2 = q_dup_u64 Q m;
         m4 = q_zip1_u8 Q m2 m2;
         m8_0 = q_zip1_u16 Q m4 m4;
         m8_1 = q_zip2_u16 Q m4 m4;
         bits = q_dup_u32 Q 0x40100401
     in (n_tst_u8 Q m8_0 bits, n_tst_u8 Q m8_1 bits))"

fun neon32_mask :: "('d, 'x) neon_q_ops \<Rightarrow> 'x neon_2 \<Rightarrow> state_t \<Rightarrow> u64" where
  "neon32_mask Q (k0, k1) s = (
     let sx = n_dup_8 Q s;
         m0 = n_ceq Q k0 sx;
         m1 = n_ceq Q k1 sx
     in neon32_collapse Q m0 m1)"

definition neon32_mask_not :: "('d, 'x) neon_q_ops \<Rightarrow> 'x neon_2 \<Rightarrow> state_t \<Rightarrow> u64" where
  "neon32_mask_not Q k s = neon32_mask Q k s XOR neon32_full"

fun neon32_mask_hash :: "('d, 'x) neon_q_ops \<Rightarrow> 'x neon_2 \<Rightarrow> u64" where
  "neon32_mask_hash Q (k0, k1) = neon32_collapse Q (q_cgez_s8 Q k0) (q_cgez_s8 Q k1)"

fun neon32_mask_not_hash :: "('d, 'x) neon_q_ops \<Rightarrow> 'x neon_2 \<Rightarrow> u64" where
  "neon32_mask_not_hash Q (k0, k1) = neon32_collapse Q (q_cltz_s8 Q k0) (q_cltz_s8 Q k1)"

fun neon32_mask_equal :: "('d, 'x) neon_q_ops \<Rightarrow> 'x neon_2 \<Rightarrow> 'x neon_2 \<Rightarrow> u64" where
  "neon32_mask_equal Q (k0, k1) (j0, j1) = neon32_collapse Q (n_ceq Q k0 j0) (n_ceq Q k1 j1)"

definition neon32_mask_not_equal :: "('d, 'x) neon_q_ops \<Rightarrow> 'x neon_2 \<Rightarrow> 'x neon_2 \<Rightarrow> u64" where
  "neon32_mask_not_equal Q k j = neon32_mask_equal Q k j XOR neon32_full"

fun neon32_min :: "('d, 'x) neon_q_ops \<Rightarrow> 'x neon_2 \<Rightarrow> state_t" where
  "neon32_min Q (k0, k1) = n_minv_s8 Q (n_min_s8 Q k0 k1)"

fun neon32_max :: "('d, 'x) neon_q_ops \<Rightarrow> 'x neon_2 \<Rightarrow> state_t" where
  "neon32_max Q (k0, k1) = n_maxv_s8 Q (q_max_s8 Q k0 k1)"

fun neon32_has :: "('d, 'x) neon_q_ops \<Rightarrow> 'x neon_2 \<Rightarrow> state_t \<Rightarrow> bool" where
  "neon32_has Q (k0, k1) s = (
     let t = n_dup_8 Q s;
         m0 = n_ceq Q k0 t;
         m1 = n_ceq Q k1 t
     in n_maxv_u8 Q (q_max_u8 Q m0 m1) \<noteq> 0)"

fun neon32_has_not :: "('d, 'x) neon_q_ops \<Rightarrow> 'x neon_2 \<Rightarrow> state_t \<Rightarrow> bool" where
  "neon32_has_not Q (k0, k1) s = (
     let t = n_dup_8 Q s;
         m0 = n_ceq Q k0 t;
         m1 = n_ceq Q k1 t
     in n_minv_u8 Q (n_min_u8 Q m0 m1) = 0)"

fun neon32_count_equal :: "('d, 'x) neon_q_ops \<Rightarrow> 'x neon_2 \<Rightarrow> 'x neon_2 \<Rightarrow> nat" where
  "neon32_count_equal Q (k0, k1) (j0, j1) = (
     let m0 = n_ceq Q k0 j0;
         m1 = n_ceq Q k1 j1
     in nat (- sint (n_addv_s8 Q (q_add_s8 Q m0 m1))))"

fun neon32_count_not_equal :: "('d, 'x) neon_q_ops \<Rightarrow> 'x neon_2 \<Rightarrow> 'x neon_2 \<Rightarrow> nat" where
  "neon32_count_not_equal Q (k0, k1) (j0, j1) = (
     let m0 = n_ceq Q k0 j0;
         m1 = n_ceq Q k1 j1
     in nat (32 + sint (n_addv_s8 Q (q_add_s8 Q m0 m1))))"

fun neon32_hash_to_tombstone :: "('d, 'x) neon_q_ops \<Rightarrow> 'x neon_2 \<Rightarrow> 'x neon_2" where
  "neon32_hash_to_tombstone Q (k0, k1) = (let t = n_dup_8 Q tombstone_state in (n_min_s8 Q k0 t, n_min_s8 Q k1 t))"

fun neon32_not_hash_to_empty :: "('d, 'x) neon_q_ops \<Rightarrow> 'x neon_2 \<Rightarrow> 'x neon_2" where
  "neon32_not_hash_to_empty Q (k0, k1) = (let e = n_dup_8 Q empty_state in (n_min_u8 Q k0 e, n_min_u8 Q k1 e))"

fun neon32_to_empty :: "('d, 'x) neon_q_ops \<Rightarrow> 'x neon_2 \<Rightarrow> u64 \<Rightarrow> 'x neon_2" where
  "neon32_to_empty Q (k0, k1) m = (
     let e = n_dup_8 Q empty_state;
         mx = neon32_expand Q m
     in (n_bsl Q (fst mx) e k0, n_bsl Q (snd mx) e k1))"

definition neon32_at :: "('d, 'x) neon_q_ops \<Rightarrow> 'x neon_2 \<Rightarrow> nat \<Rightarrow> state_t" where
  "neon32_at Q k i = n_get_lane_8 Q (q_tbl2 Q k (n_dup_8 Q (of_nat i))) 0"

fun neon32_mask_lru :: "('d, 'x) neon_q_ops \<Rightarrow> 'x neon_2 \<Rightarrow> lru_t \<Rightarrow> u64" where
  "neon32_mask_lru Q (l0, l1) lru = (let nx = n_dup_8 Q lru in neon32_collapse Q (n_ceq Q l0 nx) (n_ceq Q l1 nx))"

fun neon32_least :: "('d, 'x) neon_q_ops \<Rightarrow> 'x neon_2 \<Rightarrow> lru_t" where
  "neon32_least Q (l0, l1) = n_minv_u8 Q (n_min_u8 Q l0 l1)"

definition neon32_min_lru :: "('d, 'x) neon_q_ops \<Rightarrow> 'x neon_2 \<Rightarrow> lru_t \<times> nat" where
  "neon32_min_lru Q l = (let lru = neon32_least Q l in (lru, mk_next neon32_mask_type (neon32_mask_lru Q l lru)))"

definition neon32_mask_min_lru :: "('d, 'x) neon_q_ops \<Rightarrow> 'x neon_2 \<Rightarrow> u64" where
  "neon32_mask_min_lru Q l = neon32_mask_lru Q l (neon32_least Q l)"

fun neon32_mask_lru_below :: "('d, 'x) neon_q_ops \<Rightarrow> 'x neon_2 \<Rightarrow> lru_t \<Rightarrow> u64" where
  "neon32_mask_lru_below Q (l0, l1) t = (let tx = n_dup_8 Q t in neon32_collapse Q (n_clt_u8 Q l0 tx) (n_clt_u8 Q l1 tx))"

fun neon32_update_lru :: "('d, 'x) neon_q_ops \<Rightarrow> 'x neon_2 \<Rightarrow> u64 \<Rightarrow> 'x neon_2" where
  "neon32_update_lru Q (l0, l1) n = (
     let n = mk_truncate neon32_mask_type n;
         nx = neon32_expand Q n;
         max_lru_u8 = n_dup_8 Q max_lru;
         r0 = n_ceq Q l0 max_lru_u8;
         r1 = n_ceq Q l1 max_lru_u8;
         r0 = q_tst_u32 Q r0 (fst nx);
         r1 = q_tst_u32 Q r1 (snd nx);
         r0 = q_orr Q r0 r1;
         r0 = q_dup_u32 Q (q_maxv_u32 Q r0);
         l0 = n_shl_u8 Q l0 r0;
         l1 = n_shl_u8 Q l1 r0
     in (n_sub_u8 Q l0 (fst nx), n_sub_u8 Q l1 (snd nx)))"

fun neon32_to_empty_if_lru_below :: "('d, 'x) neon_q_ops \<Rightarrow> 'x neon_2 \<Rightarrow> 'x neon_2 \<Rightarrow> lru_t \<Rightarrow> 'x neon_2" where
  "neon32_to_empty_if_lru_below Q (k0, k1) (l0, l1) t = (
     let tx = n_dup_8 Q t;
         l0 = n_clt_u8 Q l0 tx;
         l1 = n_clt_u8 Q l1 tx;
         e = n_dup_8 Q empty_state
     in (n_bsl Q l0 e k0, n_bsl Q l1 e k1))"

definition neon32_kernel :: "('d, 'x) neon_q_ops \<Rightarrow> ('x neon_2, 'x neon_2, u64) kernel_ops" where
  "neon32_kernel Q = \<lparr>
     kn_size = 32,
     kn_mask_ops = neon32_mask_type,
     kn_load = q_ld1_x2 Q,
     kn_store = q_st1_x2 Q,
     kn_mask = neon32_mask Q,
     kn_mask_not = neon32_mask_not Q,
     kn_mask_hash = neon32_mask_hash Q,
     kn_mask_not_hash = neon32_mask_not_hash Q,
     kn_mask_empty = (\<lambda>k. neon32_mask Q k empty_state),
     kn_mask_not_empty = (\<lambda>k. neon32_mask_not Q k empty_state),
     kn_mask_tombstone = (\<lambda>k. neon32_mask Q k tombstone_state),
     kn_mask_not_tombstone = (\<lambda>k. neon32_mask_not Q k tombstone_state),
     kn_mask_equal = neon32_mask_equal Q,
     kn_mask_not_equal = neon32_mask_not_equal Q,
     kn_has_hash = (\<lambda>k. is_hash (neon32_max Q k)),
     kn_has_not_hash = (\<lambda>k. is_not_hash (neon32_min Q k)),
     kn_has_empty = (\<lambda>k. neon32_min Q k = empty_state),
     kn_has_not_empty = (\<lambda>k. neon32_max Q k \<noteq> empty_state),
     kn_has_tombstone = (\<lambda>k. neon32_has Q k tombstone_state),
     kn_has_not_tombstone = (\<lambda>k. neon32_has_not Q k tombstone_state),
     kn_count_equal = neon32_count_equal Q,
     kn_count_not_equal = neon32_count_not_equal Q,
     kn_hash_to_tombstone = neon32_hash_to_tombstone Q,
     kn_not_hash_to_empty = neon32_not_hash_to_empty Q,
     kn_to_empty = neon32_to_empty Q,
     kn_at = neon32_at Q,
     kn_load_lru = q_ld1_x2 Q,
     kn_store_lru = q_st1_x2 Q,
     kn_min_lru = neon32_min_lru Q,
     kn_mask_min_lru = neon32_mask_min_lru Q,
     kn_mask_lru_below = neon32_mask_lru_below Q,
     kn_update_lru = neon32_update_lru Q,
     kn_to_empty_if_lru_below = neon32_to_empty_if_lru_below Q,
     kn_lru_at = neon32_at Q\<rparr>"

section \<open>The operations of neon_kernel<64>\<close>

abbreviation neon64_mask_type :: "u64 mask_ops" where
  "neon64_mask_type \<equiv> uint_mask 64 0 Align_right"

definition neon64_collapse :: "('d, 'x) neon_q_ops \<Rightarrow> 'x \<Rightarrow> 'x \<Rightarrow> 'x \<Rightarrow> 'x \<Rightarrow> u64" where
  "neon64_collapse Q m8_0 m8_1 m8_2 m8_3 = (
     let bits = q_dup_u64 Q 0x8040201008040201;
         m8_0 = q_and Q m8_0 bits;
         m8_1 = q_and Q m8_1 bits;
         m8_2 = q_and Q m8_2 bits;
         m8_3 = q_and Q m8_3 bits;
         m8_0 = q_padd_u8 Q m8_0 m8_1;
         m8_2 = q_padd_u8 Q m8_2 m8_3;
         m8_0 = q_padd_u8 Q m8_0 m8_2;
         m8_0 = q_padd_u8 Q m8_0 m8_0
     in q_get_lane_u64 Q m8_0 0)"

definition neon64_expand :: "'d neon_d_ops \<Rightarrow> ('d, 'x) neon_q_ops \<Rightarrow> u64 \<Rightarrow> 'x neon_4" where
  "neon64_expand D Q m = (
     let m1 = d_create D m;
         m1_0 = q_dup_lane_u32 Q m1 0;
         m1_1 = q_dup_lane_u32 Q m1 1;
         m2_0 = q_zip1_u8 Q m1_0 m1_0;
         m2_1 = q_zip1_u8 Q m1_1 m1_1;
         m4_0 = q_zip1_u16 Q m2_0 m2_0;
         m4_1 = q_zip1_u16 Q m2_1 m2_1;
         m8_0 = q_zip1_u32 Q m4_0 m4_0;
         m8_1 = q_zip2_u32 Q m4_0 m4_0;
         m8_2 = q_zip1_u32 Q m4_1 m4_1;
         m8_3 = q_zip2_u32 Q m4_1 m4_1;
         bits = q_dup_u64 Q 0x8040201008040201
     in (n_tst_u8 Q m8_0 bits, n_tst_u8 Q m8_1 bits, n_tst_u8 Q m8_2 bits, n_tst_u8 Q m8_3 bits))"

fun neon64_mask :: "('d, 'x) neon_q_ops \<Rightarrow> 'x neon_4 \<Rightarrow> state_t \<Rightarrow> u64" where
  "neon64_mask Q (k0, k1, k2, k3) s = (
     let sx = n_dup_8 Q s
     in neon64_collapse Q (n_ceq Q k0 sx) (n_ceq Q k1 sx) (n_ceq Q k2 sx) (n_ceq Q k3 sx))"

definition neon64_mask_not :: "('d, 'x) neon_q_ops \<Rightarrow> 'x neon_4 \<Rightarrow> state_t \<Rightarrow> u64" where
  "neon64_mask_not Q k s = NOT (neon64_mask Q k s)"

fun neon64_mask_hash :: "('d, 'x) neon_q_ops \<Rightarrow> 'x neon_4 \<Rightarrow> u64" where
  "neon64_mask_hash Q (k0, k1, k2, k3) = neon64_collapse Q (q_cgez_s8 Q k0) (q_cgez_s8 Q k1) (q_cgez_s8 Q k2) (q_cgez_s8 Q k3)"

fun neon64_mask_not_hash :: "('d, 'x) neon_q_ops \<Rightarrow> 'x neon_4 \<Rightarrow> u64" where
  "neon64_mask_not_hash Q (k0, k1, k2, k3) = neon64_collapse Q (q_cltz_s8 Q k0) (q_cltz_s8 Q k1) (q_cltz_s8 Q k2) (q_cltz_s8 Q k3)"

fun neon64_mask_equal :: "('d, 'x) neon_q_ops \<Rightarrow> 'x neon_4 \<Rightarrow> 'x neon_4 \<Rightarrow> u64" where
  "neon64_mask_equal Q (k0, k1, k2, k3) (j0, j1, j2, j3)
     = neon64_collapse Q (n_ceq Q k0 j0) (n_ceq Q k1 j1) (n_ceq Q k2 j2) (n_ceq Q k3 j3)"

definition neon64_mask_not_equal :: "('d, 'x) neon_q_ops \<Rightarrow> 'x neon_4 \<Rightarrow> 'x neon_4 \<Rightarrow> u64" where
  "neon64_mask_not_equal Q k j = NOT (neon64_mask_equal Q k j)"

fun neon64_min :: "('d, 'x) neon_q_ops \<Rightarrow> 'x neon_4 \<Rightarrow> state_t" where
  "neon64_min Q (k0, k1, k2, k3) = n_minv_s8 Q (n_min_s8 Q (n_min_s8 Q k0 k1) (n_min_s8 Q k2 k3))"

fun neon64_max :: "('d, 'x) neon_q_ops \<Rightarrow> 'x neon_4 \<Rightarrow> state_t" where
  "neon64_max Q (k0, k1, k2, k3) = n_maxv_s8 Q (q_max_s8 Q (q_max_s8 Q k0 k1) (q_max_s8 Q k2 k3))"

fun neon64_has :: "('d, 'x) neon_q_ops \<Rightarrow> 'x neon_4 \<Rightarrow> state_t \<Rightarrow> bool" where
  "neon64_has Q (k0, k1, k2, k3) s = (
     let sx = n_dup_8 Q s;
         m0 = q_max_u8 Q (n_ceq Q k0 sx) (n_ceq Q k1 sx);
         m2 = q_max_u8 Q (n_ceq Q k2 sx) (n_ceq Q k3 sx);
         m0 = q_max_u8 Q m0 m2
     in n_maxv_u8 Q m0 \<noteq> 0)"

fun neon64_has_not :: "('d, 'x) neon_q_ops \<Rightarrow> 'x neon_4 \<Rightarrow> state_t \<Rightarrow> bool" where
  "neon64_has_not Q (k0, k1, k2, k3) s = (
     let sx = n_dup_8 Q s;
         m0 = n_min_u8 Q (n_ceq Q k0 sx) (n_ceq Q k1 sx);
         m2 = n_min_u8 Q (n_ceq Q k2 sx) (n_ceq Q k3 sx);
         m0 = n_min_u8 Q m0 m2
     in n_minv_u8 Q m0 = 0)"

fun neon64_count_equal :: "('d, 'x) neon_q_ops \<Rightarrow> 'x neon_4 \<Rightarrow> 'x neon_4 \<Rightarrow> nat" where
  "neon64_count_equal Q (k0, k1, k2, k3) (j0, j1, j2, j3) = (
     let m0 = q_add_s8 Q (n_ceq Q k0 j0) (n_ceq Q k1 j1);
         m2 = q_add_s8 Q (n_ceq Q k2 j2) (n_ceq Q k3 j3)
     in nat (- sint (n_addv_s8 Q (q_add_s8 Q m0 m2))))"

fun neon64_count_not_equal :: "('d, 'x) neon_q_ops \<Rightarrow> 'x neon_4 \<Rightarrow> 'x neon_4 \<Rightarrow> nat" where
  "neon64_count_not_equal Q (k0, k1, k2, k3) (j0, j1, j2, j3) = (
     let m0 = q_add_s8 Q (n_ceq Q k0 j0) (n_ceq Q k1 j1);
         m2 = q_add_s8 Q (n_ceq Q k2 j2) (n_ceq Q k3 j3)
     in nat (64 + sint (n_addv_s8 Q (q_add_s8 Q m0 m2))))"

fun neon64_hash_to_tombstone :: "('d, 'x) neon_q_ops \<Rightarrow> 'x neon_4 \<Rightarrow> 'x neon_4" where
  "neon64_hash_to_tombstone Q (k0, k1, k2, k3) = (
     let t = n_dup_8 Q tombstone_state in (n_min_s8 Q k0 t, n_min_s8 Q k1 t, n_min_s8 Q k2 t, n_min_s8 Q k3 t))"

fun neon64_not_hash_to_empty :: "('d, 'x) neon_q_ops \<Rightarrow> 'x neon_4 \<Rightarrow> 'x neon_4" where
  "neon64_not_hash_to_empty Q (k0, k1, k2, k3) = (
     let e = n_dup_8 Q empty_state in (n_min_u8 Q k0 e, n_min_u8 Q k1 e, n_min_u8 Q k2 e, n_min_u8 Q k3 e))"

fun neon64_to_empty :: "'d neon_d_ops \<Rightarrow> ('d, 'x) neon_q_ops \<Rightarrow> 'x neon_4 \<Rightarrow> u64 \<Rightarrow> 'x neon_4" where
  "neon64_to_empty D Q (k0, k1, k2, k3) m = (
     let e = n_dup_8 Q empty_state;
         (mx0, mx1, mx2, mx3) = neon64_expand D Q m
     in (n_bsl Q mx0 e k0, n_bsl Q mx1 e k1, n_bsl Q mx2 e k2, n_bsl Q mx3 e k3))"

definition neon64_at :: "('d, 'x) neon_q_ops \<Rightarrow> 'x neon_4 \<Rightarrow> nat \<Rightarrow> state_t" where
  "neon64_at Q k i = n_get_lane_8 Q (q_tbl4 Q k (n_dup_8 Q (of_nat i))) 0"

fun neon64_mask_lru :: "('d, 'x) neon_q_ops \<Rightarrow> 'x neon_4 \<Rightarrow> lru_t \<Rightarrow> u64" where
  "neon64_mask_lru Q (l0, l1, l2, l3) lru = (
     let nx = n_dup_8 Q lru
     in neon64_collapse Q (n_ceq Q l0 nx) (n_ceq Q l1 nx) (n_ceq Q l2 nx) (n_ceq Q l3 nx))"

fun neon64_least :: "('d, 'x) neon_q_ops \<Rightarrow> 'x neon_4 \<Rightarrow> lru_t" where
  "neon64_least Q (l0, l1, l2, l3) = n_minv_u8 Q (n_min_u8 Q (n_min_u8 Q l0 l1) (n_min_u8 Q l2 l3))"

definition neon64_min_lru :: "('d, 'x) neon_q_ops \<Rightarrow> 'x neon_4 \<Rightarrow> lru_t \<times> nat" where
  "neon64_min_lru Q l = (let lru = neon64_least Q l in (lru, mk_next neon64_mask_type (neon64_mask_lru Q l lru)))"

definition neon64_mask_min_lru :: "('d, 'x) neon_q_ops \<Rightarrow> 'x neon_4 \<Rightarrow> u64" where
  "neon64_mask_min_lru Q l = neon64_mask_lru Q l (neon64_least Q l)"

fun neon64_mask_lru_below :: "('d, 'x) neon_q_ops \<Rightarrow> 'x neon_4 \<Rightarrow> lru_t \<Rightarrow> u64" where
  "neon64_mask_lru_below Q (l0, l1, l2, l3) t = (
     let tx = n_dup_8 Q t
     in neon64_collapse Q (n_clt_u8 Q l0 tx) (n_clt_u8 Q l1 tx) (n_clt_u8 Q l2 tx) (n_clt_u8 Q l3 tx))"

fun neon64_update_lru :: "'d neon_d_ops \<Rightarrow> ('d, 'x) neon_q_ops \<Rightarrow> 'x neon_4 \<Rightarrow> u64 \<Rightarrow> 'x neon_4" where
  "neon64_update_lru D Q (l0, l1, l2, l3) n = (
     let n = mk_truncate neon64_mask_type n;
         (nx0, nx1, nx2, nx3) = neon64_expand D Q n;
         max_lru_u8 = n_dup_8 Q max_lru;
         r0 = q_tst_u32 Q (n_ceq Q l0 max_lru_u8) nx0;
         r1 = q_tst_u32 Q (n_ceq Q l1 max_lru_u8) nx1;
         r2 = q_tst_u32 Q (n_ceq Q l2 max_lru_u8) nx2;
         r3 = q_tst_u32 Q (n_ceq Q l3 max_lru_u8) nx3;
         r0 = q_orr Q (q_orr Q r0 r1) (q_orr Q r2 r3);
         r0 = q_dup_u32 Q (q_maxv_u32 Q r0)
     in (n_sub_u8 Q (n_shl_u8 Q l0 r0) nx0, n_sub_u8 Q (n_shl_u8 Q l1 r0) nx1,
         n_sub_u8 Q (n_shl_u8 Q l2 r0) nx2, n_sub_u8 Q (n_shl_u8 Q l3 r0) nx3))"

fun neon64_to_empty_if_lru_below :: "('d, 'x) neon_q_ops \<Rightarrow> 'x neon_4 \<Rightarrow> 'x neon_4 \<Rightarrow> lru_t \<Rightarrow> 'x neon_4" where
  "neon64_to_empty_if_lru_below Q (k0, k1, k2, k3) (l0, l1, l2, l3) t = (
     let tx = n_dup_8 Q t;
         e = n_dup_8 Q empty_state
     in (n_bsl Q (n_clt_u8 Q l0 tx) e k0, n_bsl Q (n_clt_u8 Q l1 tx) e k1,
         n_bsl Q (n_clt_u8 Q l2 tx) e k2, n_bsl Q (n_clt_u8 Q l3 tx) e k3))"

definition neon64_kernel :: "'d neon_d_ops \<Rightarrow> ('d, 'x) neon_q_ops \<Rightarrow> ('x neon_4, 'x neon_4, u64) kernel_ops" where
  "neon64_kernel D Q = \<lparr>
     kn_size = 64,
     kn_mask_ops = neon64_mask_type,
     kn_load = q_ld1_x4 Q,
     kn_store = q_st1_x4 Q,
     kn_mask = neon64_mask Q,
     kn_mask_not = neon64_mask_not Q,
     kn_mask_hash = neon64_mask_hash Q,
     kn_mask_not_hash = neon64_mask_not_hash Q,
     kn_mask_empty = (\<lambda>k. neon64_mask Q k empty_state),
     kn_mask_not_empty = (\<lambda>k. neon64_mask_not Q k empty_state),
     kn_mask_tombstone = (\<lambda>k. neon64_mask Q k tombstone_state),
     kn_mask_not_tombstone = (\<lambda>k. neon64_mask_not Q k tombstone_state),
     kn_mask_equal = neon64_mask_equal Q,
     kn_mask_not_equal = neon64_mask_not_equal Q,
     kn_has_hash = (\<lambda>k. is_hash (neon64_max Q k)),
     kn_has_not_hash = (\<lambda>k. is_not_hash (neon64_min Q k)),
     kn_has_empty = (\<lambda>k. neon64_min Q k = empty_state),
     kn_has_not_empty = (\<lambda>k. neon64_max Q k \<noteq> empty_state),
     kn_has_tombstone = (\<lambda>k. neon64_has Q k tombstone_state),
     kn_has_not_tombstone = (\<lambda>k. neon64_has_not Q k tombstone_state),
     kn_count_equal = neon64_count_equal Q,
     kn_count_not_equal = neon64_count_not_equal Q,
     kn_hash_to_tombstone = neon64_hash_to_tombstone Q,
     kn_not_hash_to_empty = neon64_not_hash_to_empty Q,
     kn_to_empty = neon64_to_empty D Q,
     kn_at = neon64_at Q,
     kn_load_lru = q_ld1_x4 Q,
     kn_store_lru = q_st1_x4 Q,
     kn_min_lru = neon64_min_lru Q,
     kn_mask_min_lru = neon64_mask_min_lru Q,
     kn_mask_lru_below = neon64_mask_lru_below Q,
     kn_update_lru = neon64_update_lru D Q,
     kn_to_empty_if_lru_below = neon64_to_empty_if_lru_below Q,
     kn_lru_at = neon64_at Q\<rparr>"

section \<open>Several registers\<close>

lemma bytes_append:
  "length xs = 16 \<Longrightarrow> i < 16 \<Longrightarrow> (xs @ ys) ! i = xs ! i" "length xs = 16 \<Longrightarrow> (xs @ ys) ! (16 + i) = ys ! i"
  by (simp_all add: nth_append)

lemma slots_append: "(\<exists>i<16 + n. P i) \<longleftrightarrow> (\<exists>i<16. P i) \<or> (\<exists>i<n. P (16 + i))" for n :: nat
proof -
  have "(\<exists>i<16 + n. P i) \<longleftrightarrow> (\<exists>i<16. P i) \<or> (\<exists>i. 16 \<le> i \<and> i < 16 + n \<and> P i)" by (metis leI less_add_Suc1 trans_less_add1)
  also have "(\<exists>i. 16 \<le> i \<and> i < 16 + n \<and> P i) \<longleftrightarrow> (\<exists>i<n. P (16 + i))" by (metis le_add1 le_add_diff_inverse nat_add_left_cancel_less)
  finally show ?thesis .
qed

lemma card_append: "card {i. i < 16 + n \<and> P i} = card {i. i < 16 \<and> P i} + card {i. i < n \<and> P (16 + i)}" for n :: nat
proof -
  have "[0..<16 + n] = [0..<16] @ map (\<lambda>i. i + 16) [0..<n]" using upt_add_eq_append [of 0 16 n] by (simp add: map_add_upt add.commute)
  then have "length (filter P [0..<16 + n]) = length (filter P [0..<16]) + length (filter (\<lambda>i. P (16 + i)) [0..<n])"
    by (simp add: filter_map comp_def add.commute)
  then show ?thesis by (simp only: filter_count)
qed

lemma bit_sum_exps:
  fixes e :: "nat \<Rightarrow> nat"
  assumes "inj_on e {..<g}" and "\<And>t. t < g \<Longrightarrow> e t < 8"
  shows "bit (\<Sum>t<g. if p t then 2 ^ e t else 0 :: u8) r \<longleftrightarrow> (\<exists>t<g. p t \<and> r = e t)"
  using assms
proof (induction g arbitrary: r)
  case (Suc g)
  have inj: "inj_on e {..<g}" by (rule inj_on_subset [OF Suc.prems(1)]) auto
  let ?s = "\<Sum>t<g. if p t then 2 ^ e t else 0 :: u8" and ?x = "if p g then 2 ^ e g else 0 :: u8"
  have IH: "bit ?s r \<longleftrightarrow> (\<exists>t<g. p t \<and> r = e t)" for r by (rule Suc.IH [OF inj]) (use Suc.prems(2) in simp)
  have x: "bit ?x r \<longleftrightarrow> p g \<and> r = e g" for r using Suc.prems(2) [of g] by (auto simp: bit_exp_iff)
  have ne: "e t \<noteq> e g" if "t < g" for t using inj_onD [OF Suc.prems(1), of t g] that by auto
  have "?s AND ?x = 0" by (intro bit_word_eqI) (use ne in \<open>fastforce simp: bit_and_iff IH x\<close>)
  then have "?s + ?x = ?s OR ?x" by (rule disjunctive_add_eq_or)
  then show ?case by (auto simp: bit_or_iff IH x less_Suc_eq)
qed simp

lemma byte_of_selector32: "j < 4 \<Longrightarrow> byte_of (0x40100401 :: 32 word) j = 2 ^ (2 * j)"
proof -
  assume "j < 4"
  then consider "j = 0" | "j = 1" | "j = 2" | "j = 3" by linarith
  then show ?thesis by cases (simp_all add: byte_of_def)
qed

lemma byte_and_exp: "t < 8 \<Longrightarrow> byte_of m q AND 2 ^ t \<noteq> 0 \<longleftrightarrow> bit m (8 * q + t)" for m :: "'w::len word"
  by (auto simp: bit_eq_iff [where 'a = u8] bit_and_iff bit_exp_iff bit_byte_of)

context neon_intrinsics
begin

lemma min_flags:
  assumes "n_st1 V x = map (\<lambda>i. flag_byte (p i)) [0..<n]" and "n_st1 V y = map (\<lambda>i. flag_byte (q i)) [0..<n]"
  shows "n_st1 V (n_min_u8 V x y) = map (\<lambda>i. flag_byte (p i \<and> q i)) [0..<n]"
  by (rule nth_equalityI) (simp_all add: min_u8 assms flag_byte_def min_def)

lemma bump_register:
  assumes "n_st1 V nx = map (\<lambda>j. flag_byte (p j)) [0..<n]" and "n_st1 V r = replicate n (flag_byte b)"
  shows "n_st1 V (n_sub_u8 V (n_shl_u8 V l r) nx) = map (\<lambda>j. (if b then drop_bit 1 (n_st1 V l ! j) else n_st1 V l ! j) + of_bool (p j)) [0..<n]"
  by (rule nth_equalityI) (simp_all add: sub_u8 shl_u8 assms flag_shift)

end

lemma bump_bytes:
  assumes "i < length ls"
  shows "bump_lru ls i = map (\<lambda>j. (if ls ! i = max_lru then drop_bit 1 (ls ! j) else ls ! j) + of_bool (j = i)) [0..<length ls]"
  by (rule nth_equalityI) (use assms in \<open>auto simp: bump_lru_def nth_list_update\<close>)

context neon_q_intrinsics
begin

lemma max_flags:
  assumes "n_st1 Q x = map (\<lambda>i. flag_byte (p i)) [0..<16]" and "n_st1 Q y = map (\<lambda>i. flag_byte (q i)) [0..<16]"
  shows "n_st1 Q (q_max_u8 Q x y) = map (\<lambda>i. flag_byte (p i \<or> q i)) [0..<16]"
  by (rule nth_equalityI) (simp_all add: q_max_u8 assms flag_byte_def max_def)

lemma add_sums: "sum_list (n_st1 Q (q_add_s8 Q x y)) = sum_list (n_st1 Q x) + sum_list (n_st1 Q y)"
proof -
  have "sum_list (map2 (+) xs ys) = sum_list xs + sum_list ys" if "length xs = length ys" for xs ys :: "u8 list"
    using that by (induction xs ys rule: list_induct2) simp_all
  then show ?thesis by (simp add: q_add_s8)
qed

lemma equal_sum: "sum_list (n_st1 Q (n_ceq Q x y)) = - of_nat (card {i. i < 16 \<and> n_st1 Q x ! i = n_st1 Q y ! i})"
  by (simp add: quad.ceq_flags sum_flags filter_count)

text \<open>The least or greatest of two registers has an empty slot, or a slot with a hash, when one of them has.\<close>

lemma extreme_two:
  "i < 16 \<Longrightarrow> is_hash (n_st1 Q (q_max_s8 Q x y) ! i) \<longleftrightarrow> is_hash (n_st1 Q x ! i) \<or> is_hash (n_st1 Q y ! i)"
  "i < 16 \<Longrightarrow> is_hash (n_st1 Q (n_min_s8 Q x y) ! i) \<longleftrightarrow> is_hash (n_st1 Q x ! i) \<and> is_hash (n_st1 Q y ! i)"
  "i < 16 \<Longrightarrow> n_st1 Q (n_min_s8 Q x y) ! i = empty_state \<longleftrightarrow> n_st1 Q x ! i = empty_state \<or> n_st1 Q y ! i = empty_state"
  "i < 16 \<Longrightarrow> n_st1 Q (q_max_s8 Q x y) ! i = empty_state \<longleftrightarrow> n_st1 Q x ! i = empty_state \<and> n_st1 Q y ! i = empty_state"
proof -
  have h: "is_hash b \<longleftrightarrow> 0 \<le> sint b" for b :: u8 by (simp add: is_hash_def)
  have e: "sint empty_state = - 128" by (simp add: empty_state_def)
  have l: "- 128 \<le> sint b" for b :: u8 using sint_ge [of b] by simp
  have ex: "b = empty_state \<longleftrightarrow> sint b = - 128" for b :: u8 using signed_word_eqI [where 'a = int, of b empty_state] e by auto
  assume i: "i < 16"
  show "is_hash (n_st1 Q (q_max_s8 Q x y) ! i) \<longleftrightarrow> is_hash (n_st1 Q x ! i) \<or> is_hash (n_st1 Q y ! i)"
    "is_hash (n_st1 Q (n_min_s8 Q x y) ! i) \<longleftrightarrow> is_hash (n_st1 Q x ! i) \<and> is_hash (n_st1 Q y ! i)"
    using i by (auto simp: h q_max_s8 quad.min_s8)
  show "n_st1 Q (n_min_s8 Q x y) ! i = empty_state \<longleftrightarrow> n_st1 Q x ! i = empty_state \<or> n_st1 Q y ! i = empty_state"
    "n_st1 Q (q_max_s8 Q x y) ! i = empty_state \<longleftrightarrow> n_st1 Q x ! i = empty_state \<and> n_st1 Q y ! i = empty_state"
    using i l [of "n_st1 Q x ! i"] l [of "n_st1 Q y ! i"] by (auto simp: ex q_max_s8 quad.min_s8)
qed

end

section \<open>Masks of two bits and of one bit per slot\<close>

lemma length_pair_sums [simp]: "length (pair_sums xs) = length xs div 2"
  by (simp add: pair_sums_def)

lemma nth_pair_sums: "i < length xs div 2 \<Longrightarrow> pair_sums xs ! i = xs ! (2 * i) + xs ! (2 * i + 1)"
  by (simp add: pair_sums_def)

lemma pair_sums_append: "even (length xs) \<Longrightarrow> pair_sums (xs @ ys) = pair_sums xs @ pair_sums ys"
proof (rule nth_equalityI)
  fix i assume e: "even (length xs)" and i: "i < length (pair_sums (xs @ ys))"
  show "pair_sums (xs @ ys) ! i = (pair_sums xs @ pair_sums ys) ! i"
  proof (cases "i < length xs div 2")
    case True
    then show ?thesis using e i by (auto simp: nth_append nth_pair_sums elim!: evenE)
  next
    case False
    then have "2 * (i - length xs div 2) = 2 * i - length xs" "length xs \<le> 2 * i" using e by (auto elim!: evenE)
    moreover have "2 * i + 1 - length xs = 2 * i - length xs + 1" using calculation by simp
    ultimately show ?thesis using e i False by (auto simp: nth_append nth_pair_sums elim!: evenE)
  qed
qed (auto elim!: evenE)

lemma sum_pairs: "(\<Sum>t<2 * n. f t) = (\<Sum>t<n. f (2 * t) + f (2 * t + 1))" for f :: "nat \<Rightarrow> 'a::comm_monoid_add"
  by (induction n) (simp_all add: ac_simps)

lemma pair_sums_sum:
  assumes "g * i + g \<le> length xs div 2"
  shows "(\<Sum>t<g. pair_sums xs ! (g * i + t)) = (\<Sum>t<2 * g. xs ! (2 * g * i + t))"
  unfolding sum_pairs
proof (rule sum.cong)
  fix t assume "t \<in> {..<g}"
  then have "g * i + t < length xs div 2" using assms by simp
  then show "pair_sums xs ! (g * i + t) = xs ! (2 * g * i + 2 * t) + xs ! (2 * g * i + (2 * t + 1))"
    by (simp add: nth_pair_sums algebra_simps)
qed simp

lemma pair_sums_four: "i < length xs div 4 \<Longrightarrow> pair_sums (pair_sums xs) ! i = (\<Sum>t<4. xs ! (4 * i + t))"
proof -
  assume "i < length xs div 4"
  then have i: "i < length (pair_sums xs) div 2" "2 * i + 2 \<le> length xs div 2" by simp_all
  have "pair_sums (pair_sums xs) ! i = (\<Sum>t<2. pair_sums xs ! (2 * i + t))"
    using nth_pair_sums [OF i(1)] by (simp add: numeral_2_eq_2 lessThan_Suc add.commute)
  then show ?thesis using pair_sums_sum [OF i(2)] by simp
qed

lemma pair_sums_eight: "i < length xs div 8 \<Longrightarrow> pair_sums (pair_sums (pair_sums xs)) ! i = (\<Sum>t<8. xs ! (8 * i + t))"
proof -
  assume "i < length xs div 8"
  then have "i < length (pair_sums xs) div 4" "4 * i + 4 \<le> length xs div 2" by simp_all
  then show ?thesis using pair_sums_four [of i "pair_sums xs"] pair_sums_sum [of 4 i xs] by simp
qed

lemma zip_self: "i < 16 \<Longrightarrow> zip_bytes g off xs xs ! i = xs ! (off + g * (i div (2 * g)) + i mod g)"
  by (simp add: zip_bytes_def)

abbreviation two :: "(nat \<Rightarrow> bool) \<Rightarrow> (nat \<Rightarrow> bool) \<Rightarrow> nat \<Rightarrow> bool" where
  "two p q i \<equiv> if i < 16 then p i else q (i - 16)"

abbreviation neon32_slots :: "u64 \<Rightarrow> nat set" where
  "neon32_slots \<equiv> uint_mask_slots 32 1 Align_right"

abbreviation neon32_loop :: "(nat \<Rightarrow> bool) \<Rightarrow> u64" where
  "neon32_loop \<equiv> slots_word 32 1 Align_right"

abbreviation neon64_slots :: "u64 \<Rightarrow> nat set" where
  "neon64_slots \<equiv> uint_mask_slots 64 0 Align_right"

abbreviation neon64_loop :: "(nat \<Rightarrow> bool) \<Rightarrow> u64" where
  "neon64_loop \<equiv> slots_word 64 0 Align_right"

lemma bit_neon32_loop: "bit (neon32_loop p) j \<longleftrightarrow> (\<exists>i<32. p i \<and> j = i * 2)"
  by (subst bit_slots_word) (simp_all add: slot_bit_def)

lemma neon32_full_loop: "neon32_full = neon32_loop (\<lambda>_. True)"
  unfolding neon32_full_def uint_mask_def slots_word_def by code_simp

lemma neon32_ops: "neon32_loop p XOR neon32_full = neon32_loop (\<lambda>i. \<not> p i)"
  unfolding neon32_full_loop by (rule slots_word_ops) simp

lemma neon64_ops: "NOT (neon64_loop p) = neon64_loop (\<lambda>i. \<not> p i)"
  by (rule bit_word_eqI) (auto simp: bit_not_iff bit_slots_word slot_bit_def)

context neon_q_intrinsics
begin

lemma neon32_collapse_flags:
  assumes "n_st1 Q m0 = map (\<lambda>i. flag_byte (p i)) [0..<16]" and "n_st1 Q m1 = map (\<lambda>i. flag_byte (q i)) [0..<16]"
  shows "neon32_collapse Q m0 m1 = neon32_loop (two p q)"
proof (rule bit_word_eqI)
  fix j assume "j < LENGTH(64)"
  let ?b = "q_dup_u32 Q 0x40100401" and ?P = "two p q"
  let ?z = "n_st1 Q (q_and Q m0 ?b) @ n_st1 Q (q_and Q m1 ?b)"
  have z: "?z ! i = (if ?P i then 2 ^ (2 * (i mod 4)) else 0)" if "i < 32" for i
  proof (cases "i < 16")
    case True
    then show ?thesis by (simp add: nth_append q_and assms q_dup_u32 byte_of_selector32)
  next
    case False
    moreover have "(i - 16) mod 4 = i mod 4" using False mod_mult_self2 [of "i - 16" 4 4] by simp
    ultimately show ?thesis using that by (simp add: nth_append q_and assms q_dup_u32 byte_of_selector32)
  qed
  have v: "pair_sums (pair_sums ?z @ pair_sums ?z) ! i = (\<Sum>t<4. if ?P (4 * i + t) then 2 ^ (2 * t) else 0)" if "i < 8" for i
  proof -
    have "pair_sums (pair_sums ?z @ pair_sums ?z) ! i = (\<Sum>t<4. ?z ! (4 * i + t))"
      using that pair_sums_four [of i ?z] by (simp add: pair_sums_append [of "pair_sums ?z"] nth_append [of "pair_sums (pair_sums ?z)"])
    also have "\<dots> = (\<Sum>t<4. if ?P (4 * i + t) then 2 ^ (2 * t) else 0)"
      by (rule sum.cong) (use that z in \<open>auto simp: mod_mult_self4\<close>)
    finally show ?thesis .
  qed
  have "bit (neon32_collapse Q m0 m1) j \<longleftrightarrow> j < 64 \<and> (\<exists>t<4. ?P (4 * (j div 8) + t) \<and> j mod 8 = 2 * t)"
    unfolding neon32_collapse_def Let_def q_get_lane_u64 q_padd_u8
    by (cases "j < 64") (simp_all add: bit_lane v less_mult_imp_div_less bit_sum_exps inj_on_def)
  also have "\<dots> \<longleftrightarrow> bit (neon32_loop ?P) j" (is "?l \<longleftrightarrow> ?r")
  proof
    assume ?l
    then obtain t where t: "j < 64" "t < 4" "?P (4 * (j div 8) + t)" "j mod 8 = 2 * t" by blast
    have "j = (4 * (j div 8) + t) * 2" "4 * (j div 8) + t < 32" using t(1,2,4) mult_div_mod_eq [of 8 j] unfolding distrib_right by linarith+
    then show ?r using t(3) unfolding bit_neon32_loop by blast
  next
    assume ?r
    then obtain i where i: "i < 32" "?P i" "j = i * 2" unfolding bit_neon32_loop by blast
    have "4 * (j div 8) + i mod 4 = i" "j mod 8 = 2 * (i mod 4)"
      using i(3) mult_mod_right [of 2 i 4] by (simp_all add: mult.commute)
    then show ?l using i by (intro conjI exI [of _ "i mod 4"]) auto
  qed
  finally show "bit (neon32_collapse Q m0 m1) j = bit (neon32_loop ?P) j" .
qed

lemma neon32_expand_flags:
  "n_st1 Q (fst (neon32_expand Q m)) = map (\<lambda>i. flag_byte (bit m (i * 2))) [0..<16]"
  "n_st1 Q (snd (neon32_expand Q m)) = map (\<lambda>i. flag_byte (bit m ((16 + i) * 2))) [0..<16]"
proof -
  let ?m2 = "q_dup_u64 Q m" let ?m4 = "q_zip1_u8 Q ?m2 ?m2"
  have m4: "n_st1 Q ?m4 ! i = byte_of m (i div 2)" if "i < 16" for i
    using that by (simp add: q_zip_u8 zip_self q_dup_u64)
  have "n_st1 Q (q_zip1_u16 Q ?m4 ?m4) ! i = byte_of m (i div 4)" "n_st1 Q (q_zip2_u16 Q ?m4 ?m4) ! i = byte_of m (4 + i div 4)"
    if i: "i < 16" for i
  proof -
    have "(2 * (i div 4) + i mod 2) div 2 = i div 4" "(8 + (2 * (i div 4) + i mod 2)) div 2 = 4 + i div 4"
      by simp_all
    moreover have "i div 4 < 4" "i mod 2 < 2" using i by (simp_all add: less_mult_imp_div_less)
    then have "2 * (i div 4) + i mod 2 < 16" "8 + (2 * (i div 4) + i mod 2) < 16" by linarith+
    ultimately show "n_st1 Q (q_zip1_u16 Q ?m4 ?m4) ! i = byte_of m (i div 4)" "n_st1 Q (q_zip2_u16 Q ?m4 ?m4) ! i = byte_of m (4 + i div 4)"
      using i by (simp_all add: q_zip_u16 zip_self m4 add.assoc)
  qed
  note m8 = this
  have b: "byte_of m (c + i div 4) AND 2 ^ (2 * (i mod 4)) \<noteq> 0 \<longleftrightarrow> bit m (8 * c + i * 2)" for c i
  proof -
    have "8 * (c + i div 4) + 2 * (i mod 4) = 8 * c + i * 2" by presburger
    moreover have "2 * (i mod 4) < 8" by simp
    ultimately show ?thesis using byte_and_exp [of "2 * (i mod 4)" m "c + i div 4"] by (simp only:)
  qed
  have sel: "from_lanes (replicate 4 (0x40100401 :: 32 word)) ! i = 2 ^ (2 * (i mod 4))" if "i < 16" for i
    using that by (simp add: byte_of_selector32)
  have four: "8 * 4 + i * 2 = (16 + i) * 2" for i :: nat by simp
  show "n_st1 Q (fst (neon32_expand Q m)) = map (\<lambda>i. flag_byte (bit m (i * 2))) [0..<16]"
    "n_st1 Q (snd (neon32_expand Q m)) = map (\<lambda>i. flag_byte (bit m ((16 + i) * 2))) [0..<16]"
    by (rule nth_equalityI; simp only: neon32_expand_def Let_def fst_conv snd_conv quad.tst_flags quad.st1_length length_map length_upt diff_zero nth_map
        nth_upt add_0 m8 q_dup_u32 sel b [of 0, simplified add_0 mult_0_right] b [of 4, simplified four])+
qed

end

section \<open>Four registers\<close>

abbreviation four :: "(nat \<Rightarrow> bool) \<Rightarrow> (nat \<Rightarrow> bool) \<Rightarrow> (nat \<Rightarrow> bool) \<Rightarrow> (nat \<Rightarrow> bool) \<Rightarrow> nat \<Rightarrow> bool" where
  "four p q r s i \<equiv> if i < 16 then p i else if i < 32 then q (i - 16) else if i < 48 then r (i - 32) else s (i - 48)"

lemma bit_neon64_loop: "bit (neon64_loop p) j \<longleftrightarrow> j < 64 \<and> p j"
  by (subst bit_slots_word) (auto simp: slot_bit_def)

lemma nth_four:
  assumes "length a = 16" and "length b = 16" and "length c = 16"
  shows "(a @ b @ c @ d) ! i = (if i < 16 then a ! i else if i < 32 then b ! (i - 16) else if i < 48 then c ! (i - 32) else d ! (i - 48))"
  using assms by (cases "i < 16"; cases "i < 32"; cases "i < 48") (simp_all add: nth_append less_diff_conv2 not_less)

lemma mod_diff_multiple: "g * c \<le> i \<Longrightarrow> (i - g * c) mod g = i mod g" for i g c :: nat
  using mod_mult_self2 [of "i - g * c" g c] by simp

context neon_q_intrinsics
begin

lemma selected_byte:
  assumes "n_st1 Q m = map (\<lambda>i. flag_byte (p i)) [0..<16]" and "i < 16"
  shows "n_st1 Q (q_and Q m (q_dup_u64 Q 0x8040201008040201)) ! i = (if p i then 2 ^ (i mod 8) else 0)"
  using assms(2) by (simp add: q_and assms(1) q_dup_u64 byte_of_selector)

lemma neon64_collapse_flags:
  assumes "n_st1 Q m0 = map (\<lambda>i. flag_byte (p i)) [0..<16]" and "n_st1 Q m1 = map (\<lambda>i. flag_byte (q i)) [0..<16]"
    and "n_st1 Q m2 = map (\<lambda>i. flag_byte (r i)) [0..<16]" and "n_st1 Q m3 = map (\<lambda>i. flag_byte (s i)) [0..<16]"
  shows "neon64_collapse Q m0 m1 m2 m3 = neon64_loop (four p q r s)"
proof (rule bit_word_eqI)
  fix j assume "j < LENGTH(64)"
  let ?b = "q_dup_u64 Q 0x8040201008040201" and ?P = "four p q r s"
  let ?x = "n_st1 Q (q_and Q m0 ?b) @ n_st1 Q (q_and Q m1 ?b)" and ?y = "n_st1 Q (q_and Q m2 ?b) @ n_st1 Q (q_and Q m3 ?b)"
  let ?z = "n_st1 Q (q_and Q m0 ?b) @ n_st1 Q (q_and Q m1 ?b) @ n_st1 Q (q_and Q m2 ?b) @ n_st1 Q (q_and Q m3 ?b)"
  have z: "?z ! i = (if ?P i then 2 ^ (i mod 8) else 0)" if "i < 64" for i
    using that mod_diff_multiple [of 8 2 i] mod_diff_multiple [of 8 4 i] mod_diff_multiple [of 8 6 i]
    by (simp add: nth_four selected_byte [OF assms(1)] selected_byte [OF assms(2)] selected_byte [OF assms(3)] selected_byte [OF assms(4)])
  have "pair_sums (pair_sums ?x @ pair_sums ?y) = pair_sums (pair_sums ?z)" by (simp add: pair_sums_append)
  then have v: "pair_sums (pair_sums (pair_sums ?x @ pair_sums ?y) @ pair_sums (pair_sums ?x @ pair_sums ?y)) ! i
      = (\<Sum>t<8. if ?P (8 * i + t) then 2 ^ t else 0)" if "i < 8" for i
  proof -
    have "pair_sums (pair_sums (pair_sums ?z) @ pair_sums (pair_sums ?z)) ! i = (\<Sum>t<8. ?z ! (8 * i + t))"
      using that pair_sums_eight [of i ?z]
      by (simp add: pair_sums_append [of "pair_sums (pair_sums ?z)"] nth_append [of "pair_sums (pair_sums (pair_sums ?z))"] del: append_assoc)
    also have "\<dots> = (\<Sum>t<8. if ?P (8 * i + t) then 2 ^ t else 0)"
      by (rule sum.cong) (use that z in \<open>auto simp: mod_mult_self4\<close>)
    finally show ?thesis using \<open>pair_sums (pair_sums ?x @ pair_sums ?y) = pair_sums (pair_sums ?z)\<close> by (simp only:)
  qed
  have "bit (neon64_collapse Q m0 m1 m2 m3) j \<longleftrightarrow> j < 64 \<and> (\<exists>t<8. ?P (8 * (j div 8) + t) \<and> j mod 8 = t)"
    unfolding neon64_collapse_def Let_def q_get_lane_u64 q_padd_u8
    by (cases "j < 64") (simp_all add: bit_lane v less_mult_imp_div_less bit_sum_exps inj_on_def)
  also have "\<dots> \<longleftrightarrow> bit (neon64_loop ?P) j" unfolding bit_neon64_loop using mult_div_mod_eq [of 8 j] by auto
  finally show "bit (neon64_collapse Q m0 m1 m2 m3) j = bit (neon64_loop ?P) j" .
qed

end

context neon_q_intrinsics
begin

lemma neon64_expand_flags:
  assumes "neon64_expand D Q m = (x0, x1, x2, x3)"
  shows "n_st1 Q x0 = map (\<lambda>i. flag_byte (bit m i)) [0..<16]" "n_st1 Q x1 = map (\<lambda>i. flag_byte (bit m (16 + i))) [0..<16]"
    "n_st1 Q x2 = map (\<lambda>i. flag_byte (bit m (32 + i))) [0..<16]" "n_st1 Q x3 = map (\<lambda>i. flag_byte (bit m (48 + i))) [0..<16]"
proof -
  let ?m1 = "\<lambda>k. q_dup_lane_u32 Q (d_create D m) k"
  let ?m2 = "\<lambda>k. q_zip1_u8 Q (?m1 k) (?m1 k)"
  let ?m4 = "\<lambda>k. q_zip1_u16 Q (?m2 k) (?m2 k)"
  have m1: "n_st1 Q (?m1 k) ! i = byte_of m (4 * k + i mod 4)" if "i < 16" "k < 2" for i k
  proof -
    have "i mod 4 < 4" by simp
    then have "4 * k + i mod 4 < 8" using that by linarith
    then show ?thesis using that by (simp add: q_dup_lane_u32 d_create byte_lane)
  qed
  have m2: "n_st1 Q (?m2 k) ! i = byte_of m (4 * k + i div 2)" if "i < 8" "k < 2" for i k
    using that by (simp add: q_zip_u8 zip_self m1 less_mult_imp_div_less)
  have m4: "n_st1 Q (?m4 k) ! i = byte_of m (4 * k + i div 4)" if "i < 16" "k < 2" for i k
  proof -
    have "i div 4 < 4" "i mod 2 < 2" using that(1) by (simp_all add: less_mult_imp_div_less)
    then have "2 * (i div 4) + i mod 2 < 8" by linarith
    then show ?thesis using that by (simp add: q_zip_u16 zip_self m2)
  qed
  have m8: "n_st1 Q (q_zip1_u32 Q (?m4 k) (?m4 k)) ! i = byte_of m (4 * k + i div 8)"
    "n_st1 Q (q_zip2_u32 Q (?m4 k) (?m4 k)) ! i = byte_of m (4 * k + 2 + i div 8)" if "i < 16" "k < 2" for i k
  proof -
    have "i div 8 < 2" "i mod 4 < 4" using that(1) by (simp_all add: less_mult_imp_div_less)
    then have "4 * (i div 8) + i mod 4 < 16" "8 + (4 * (i div 8) + i mod 4) < 16" by linarith+
    moreover have "(8 + (4 * (i div 8) + i mod 4)) div 4 = 2 + i div 8" by simp
    ultimately show "n_st1 Q (q_zip1_u32 Q (?m4 k) (?m4 k)) ! i = byte_of m (4 * k + i div 8)"
      "n_st1 Q (q_zip2_u32 Q (?m4 k) (?m4 k)) ! i = byte_of m (4 * k + 2 + i div 8)"
      using that by (simp_all add: q_zip_u32 zip_self m4 add.assoc)
  qed
  have sel: "from_lanes (replicate 2 (0x8040201008040201 :: u64)) ! i = 2 ^ (i mod 8)" if "i < 16" for i
    using that by (simp add: byte_of_selector)
  have b: "byte_of m (c + i div 8) AND 2 ^ (i mod 8) \<noteq> 0 \<longleftrightarrow> bit m (8 * c + i)" for c i
    using byte_and_exp [of "i mod 8" m "c + i div 8"] mult_div_mod_eq [of 8 i] by (simp add: add.assoc add_mult_distrib2)
  have x: "x0 = n_tst_u8 Q (q_zip1_u32 Q (?m4 0) (?m4 0)) (q_dup_u64 Q 0x8040201008040201)"
    "x1 = n_tst_u8 Q (q_zip2_u32 Q (?m4 0) (?m4 0)) (q_dup_u64 Q 0x8040201008040201)"
    "x2 = n_tst_u8 Q (q_zip1_u32 Q (?m4 1) (?m4 1)) (q_dup_u64 Q 0x8040201008040201)"
    "x3 = n_tst_u8 Q (q_zip2_u32 Q (?m4 1) (?m4 1)) (q_dup_u64 Q 0x8040201008040201)"
    using assms by (simp_all add: neon64_expand_def Let_def)
  show "n_st1 Q x0 = map (\<lambda>i. flag_byte (bit m i)) [0..<16]" "n_st1 Q x1 = map (\<lambda>i. flag_byte (bit m (16 + i))) [0..<16]"
    "n_st1 Q x2 = map (\<lambda>i. flag_byte (bit m (32 + i))) [0..<16]" "n_st1 Q x3 = map (\<lambda>i. flag_byte (bit m (48 + i))) [0..<16]"
    unfolding x quad.tst_flags q_dup_u64
    using b [of 0] b [of 2] b [of 4] b [of 6] by (simp_all add: m8 sel del: from_lanes_bytes)
qed

lemma tst_top:
  assumes "n_st1 Q nx = map (\<lambda>j. flag_byte (p j)) [0..<16]" and "q < 4"
  shows "lane 4 (n_st1 Q (q_tst_u32 Q (n_ceq Q l (n_dup_8 Q v)) nx)) q
    = (if \<exists>j<4. n_st1 Q l ! (4 * q + j) = v \<and> p (4 * q + j) then - 1 else 0 :: 32 word)"
proof -
  have "n_st1 Q (n_ceq Q l (n_dup_8 Q v)) ! (4 * q + j) AND n_st1 Q nx ! (4 * q + j) \<noteq> 0
      \<longleftrightarrow> n_st1 Q l ! (4 * q + j) = v \<and> p (4 * q + j)" if "j < 4" for j
    using that assms by (simp add: quad.ceq_flags quad.dup_8)
  then show ?thesis using assms(2) by (simp add: tst_lanes cong: conj_cong)
qed

lemma flag_or: "(if a then - 1 else 0) OR (if b then - 1 else 0) = (if a \<or> b then - 1 else 0 :: 32 word)"
  by simp

lemma any_lanes: "(\<exists>q<4. (\<exists>j<4. f (4 * q + j)) \<or> B q) \<longleftrightarrow> (\<exists>i<16. f i) \<or> (\<exists>q<4. B q)" for f B :: "nat \<Rightarrow> bool"
  using lanes_bytes [of f] by blast

lemma least_append: "xs \<noteq> [] \<Longrightarrow> ys \<noteq> [] \<Longrightarrow> least_lru (xs @ ys) = min (least_lru xs) (least_lru ys)"
  by (simp add: least_lru_def Min_Un)

lemma least_min: "n_minv_u8 Q (n_min_u8 Q x y) = min (n_minv_u8 Q x) (n_minv_u8 Q y)"
proof -
  have ne: "n_st1 Q z \<noteq> []" for z using quad.st1_length [of z] by (metis list.size(3) zero_neq_numeral)
  show ?thesis using least_lru_halves [of "n_st1 Q x" 16 "n_st1 Q y"]
    by (simp add: quad.least_lru_register quad.min_u8 least_append ne)
qed

end

end
