(* ===== verification/Neon32.thy ===== *)
theory Neon32
  imports NeonWide
begin

text \<open>\<open>neon_kernel<32>\<close> is the array kernel of 32 slots.\<close>

context neon_q_intrinsics
begin

lemma neon32_masks:
  "neon32_mask Q (k0, k1) s = neon32_loop (\<lambda>i. (n_st1 Q k0 @ n_st1 Q k1) ! i = s)"
  "neon32_mask_not Q (k0, k1) s = neon32_loop (\<lambda>i. (n_st1 Q k0 @ n_st1 Q k1) ! i \<noteq> s)"
  "neon32_mask_hash Q (k0, k1) = neon32_loop (\<lambda>i. is_hash ((n_st1 Q k0 @ n_st1 Q k1) ! i))"
  "neon32_mask_not_hash Q (k0, k1) = neon32_loop (\<lambda>i. \<not> is_hash ((n_st1 Q k0 @ n_st1 Q k1) ! i))"
  "neon32_mask_equal Q (k0, k1) (j0, j1) = neon32_loop (\<lambda>i. (n_st1 Q k0 @ n_st1 Q k1) ! i = (n_st1 Q j0 @ n_st1 Q j1) ! i)"
  "neon32_mask_not_equal Q (k0, k1) (j0, j1) = neon32_loop (\<lambda>i. (n_st1 Q k0 @ n_st1 Q k1) ! i \<noteq> (n_st1 Q j0 @ n_st1 Q j1) ! i)"
  "neon32_mask_lru Q (k0, k1) v = neon32_loop (\<lambda>i. (n_st1 Q k0 @ n_st1 Q k1) ! i = v)"
  "neon32_mask_lru_below Q (k0, k1) v = neon32_loop (\<lambda>i. (n_st1 Q k0 @ n_st1 Q k1) ! i < v)"
  by (simp_all add: neon32_mask_not_def neon32_mask_not_equal_def neon32_ops [unfolded One_nat_def] Let_def nth_append quad.dup_8 if_distrib [of Not]
      neon32_collapse_flags [OF quad.ceq_flags quad.ceq_flags] neon32_collapse_flags [OF quad.clt_flags quad.clt_flags]
      neon32_collapse_flags [OF sign_flags(1) sign_flags(1)] neon32_collapse_flags [OF sign_flags(2) sign_flags(2)] cong: if_cong)

lemma neon32_least_lru: "neon32_least Q (l0, l1) = least_lru (n_st1 Q l0 @ n_st1 Q l1)"
proof -
  have ne: "n_st1 Q z \<noteq> []" for z using quad.st1_length [of z] by (metis list.size(3) zero_neq_numeral)
  show ?thesis unfolding neon32_least.simps least_min by (simp add: quad.least_lru_register least_append ne)
qed

lemma neon32_counts:
  "neon32_count_equal Q (k0, k1) (j0, j1) = card {i. i < 32 \<and> (n_st1 Q k0 @ n_st1 Q k1) ! i = (n_st1 Q j0 @ n_st1 Q j1) ! i}"
  "neon32_count_not_equal Q (k0, k1) (j0, j1) = card {i. i < 32 \<and> (n_st1 Q k0 @ n_st1 Q k1) ! i \<noteq> (n_st1 Q j0 @ n_st1 Q j1) ! i}"
proof -
  let ?k = "n_st1 Q k0 @ n_st1 Q k1" and ?j = "n_st1 Q j0 @ n_st1 Q j1"
  have c: "card {i. i < 32 \<and> ?k ! i = ?j ! i} = card {i. i < 16 \<and> n_st1 Q k0 ! i = n_st1 Q j0 ! i} + card {i. i < 16 \<and> n_st1 Q k1 ! i = n_st1 Q j1 ! i}"
    using card_append [of 16 "\<lambda>i. ?k ! i = ?j ! i"] by (simp add: bytes_append cong: conj_cong)
  have "n_addv_s8 Q (q_add_s8 Q (n_ceq Q k0 j0) (n_ceq Q k1 j1)) = - of_nat (card {i. i < 32 \<and> ?k ! i = ?j ! i})"
    by (simp only: quad.addv_s8 add_sums equal_sum c of_nat_add minus_add_distrib add.commute)
  moreover have le: "card {i. i < 32 \<and> ?k ! i = ?j ! i} \<le> card {..<32 :: nat}" by (rule card_mono) auto
  ultimately have s: "sint (n_addv_s8 Q (q_add_s8 Q (n_ceq Q k0 j0) (n_ceq Q k1 j1))) = - int (card {i. i < 32 \<and> ?k ! i = ?j ! i})"
    using sint_neg_count by simp
  then show "neon32_count_equal Q (k0, k1) (j0, j1) = card {i. i < 32 \<and> ?k ! i = ?j ! i}" by (simp add: Let_def)
  have "{i. i < 32 \<and> ?k ! i = ?j ! i} \<union> {i. i < 32 \<and> ?k ! i \<noteq> ?j ! i} = {..<32}" by auto
  then have "card {i. i < 32 \<and> ?k ! i = ?j ! i} + card {i. i < 32 \<and> ?k ! i \<noteq> ?j ! i} = 32"
    by (subst card_Un_disjoint [symmetric]) auto
  then show "neon32_count_not_equal Q (k0, k1) (j0, j1) = card {i. i < 32 \<and> ?k ! i \<noteq> ?j ! i}" using s by (simp add: Let_def)
qed

lemma neon32_tests:
  "is_hash (neon32_max Q (k0, k1)) \<longleftrightarrow> (\<exists>i<32. is_hash ((n_st1 Q k0 @ n_st1 Q k1) ! i))"
  "is_hash (neon32_min Q (k0, k1)) \<longleftrightarrow> (\<forall>i<32. is_hash ((n_st1 Q k0 @ n_st1 Q k1) ! i))"
  "neon32_min Q (k0, k1) = empty_state \<longleftrightarrow> (\<exists>i<32. (n_st1 Q k0 @ n_st1 Q k1) ! i = empty_state)"
  "neon32_max Q (k0, k1) = empty_state \<longleftrightarrow> (\<forall>i<32. (n_st1 Q k0 @ n_st1 Q k1) ! i = empty_state)"
  "neon32_has Q (k0, k1) s \<longleftrightarrow> (\<exists>i<32. (n_st1 Q k0 @ n_st1 Q k1) ! i = s)"
  "neon32_has_not Q (k0, k1) s \<longleftrightarrow> (\<exists>i<32. (n_st1 Q k0 @ n_st1 Q k1) ! i \<noteq> s)"
proof -
  have split: "(\<exists>i<32. P i) \<longleftrightarrow> (\<exists>i<16. P i \<or> P (16 + i))" "(\<forall>i<32. P i) \<longleftrightarrow> (\<forall>i<16. P i \<and> P (16 + i))" for P :: "nat \<Rightarrow> bool"
    using slots_append [of 16 P] slots_append [of 16 "\<lambda>i. \<not> P i"] by auto
  have all: "is_hash (n_minv_s8 Q x) \<longleftrightarrow> (\<forall>i<16. is_hash (n_st1 Q x ! i))"
    "n_maxv_s8 Q x = empty_state \<longleftrightarrow> (\<forall>i<16. n_st1 Q x ! i = empty_state)" for x
    using quad.extreme_states [of x] by blast+
  note max = extreme_two(1,4) and min = extreme_two(2,3)
  show "is_hash (neon32_max Q (k0, k1)) \<longleftrightarrow> (\<exists>i<32. is_hash ((n_st1 Q k0 @ n_st1 Q k1) ! i))"
    "neon32_min Q (k0, k1) = empty_state \<longleftrightarrow> (\<exists>i<32. (n_st1 Q k0 @ n_st1 Q k1) ! i = empty_state)"
    by (simp_all add: quad.extreme_states(1,3) split bytes_append max min cong: conj_cong)
  show "is_hash (neon32_min Q (k0, k1)) \<longleftrightarrow> (\<forall>i<32. is_hash ((n_st1 Q k0 @ n_st1 Q k1) ! i))"
    "neon32_max Q (k0, k1) = empty_state \<longleftrightarrow> (\<forall>i<32. (n_st1 Q k0 @ n_st1 Q k1) ! i = empty_state)"
    by (simp_all add: all split bytes_append max min)
  note flags = max_flags [OF quad.ceq_flags quad.ceq_flags] quad.min_flags [OF quad.ceq_flags quad.ceq_flags]
  show "neon32_has Q (k0, k1) s \<longleftrightarrow> (\<exists>i<32. (n_st1 Q k0 @ n_st1 Q k1) ! i = s)"
    using quad.some_flag(1) [OF flags(1)] by (simp add: Let_def quad.dup_8 split bytes_append cong: conj_cong)
  show "neon32_has_not Q (k0, k1) s \<longleftrightarrow> (\<exists>i<32. (n_st1 Q k0 @ n_st1 Q k1) ! i \<noteq> s)"
    using quad.some_flag(2) [OF flags(2)] by (auto simp: Let_def quad.dup_8 split bytes_append)
qed

lemma neon32_update:
  assumes ok: "uint_mask_ok 32 1 Align_right m" and ne: "neon32_slots m \<noteq> {}"
  shows "q_st1_x2 Q (neon32_update_lru Q (l0, l1) m) = bump_lru (n_st1 Q l0 @ n_st1 Q l1) (Min (neon32_slots m))"
proof -
  let ?i = "Min (neon32_slots m)" and ?t = "mk_truncate neon32_mask_type m" and ?l = "n_st1 Q l0 @ n_st1 Q l1"
  have "?i \<in> neon32_slots m" by (rule Min_in [OF _ ne]) (simp add: uint_mask_slots_def)
  then have i: "?i < 32" by (simp add: uint_mask_slots_def)
  have t: "bit ?t j \<longleftrightarrow> j = ?i * 2" for j using truncate_slot [OF _ ok ne] by (simp add: slot_bit_def)
  let ?n0 = "fst (neon32_expand Q ?t)" and ?n1 = "snd (neon32_expand Q ?t)"
  have nx: "n_st1 Q ?n0 = map (\<lambda>j. flag_byte (j = ?i)) [0..<16]" "n_st1 Q ?n1 = map (\<lambda>j. flag_byte (16 + j = ?i)) [0..<16]"
    unfolding neon32_expand_flags t by (simp_all only: mult_cancel2) simp_all
  let ?r = "q_dup_u32 Q (q_maxv_u32 Q (q_orr Q (q_tst_u32 Q (n_ceq Q l0 (n_dup_8 Q max_lru)) ?n0) (q_tst_u32 Q (n_ceq Q l1 (n_dup_8 Q max_lru)) ?n1)))"
  have "n_st1 Q ?r = replicate 16 (flag_byte (\<exists>q<4. (\<exists>j<4. n_st1 Q l0 ! (4 * q + j) = max_lru \<and> 4 * q + j = ?i)
      \<or> (\<exists>j<4. n_st1 Q l1 ! (4 * q + j) = max_lru \<and> 16 + (4 * q + j) = ?i)))"
    by (rule spread_any) (simp only: orr_lanes tst_top [OF nx(1)] tst_top [OF nx(2)] flag_or)
  also have "\<dots> = replicate 16 (flag_byte ((\<exists>j<16. n_st1 Q l0 ! j = max_lru \<and> j = ?i) \<or> (\<exists>j<16. n_st1 Q l1 ! j = max_lru \<and> 16 + j = ?i)))"
    unfolding any_lanes [of "\<lambda>j. n_st1 Q l0 ! j = max_lru \<and> j = ?i"] lanes_bytes [of "\<lambda>j. n_st1 Q l1 ! j = max_lru \<and> 16 + j = ?i"] ..
  also have "(\<exists>j<16. n_st1 Q l0 ! j = max_lru \<and> j = ?i) \<or> (\<exists>j<16. n_st1 Q l1 ! j = max_lru \<and> 16 + j = ?i) \<longleftrightarrow> ?l ! ?i = max_lru"
    using slots_append [of 16 "\<lambda>j. ?l ! j = max_lru \<and> j = ?i"] i by (auto simp: bytes_append)
  finally have r: "n_st1 Q ?r = replicate 16 (flag_byte (?l ! ?i = max_lru))" .
  have "q_st1_x2 Q (neon32_update_lru Q (l0, l1) m)
      = n_st1 Q (n_sub_u8 Q (n_shl_u8 Q l0 ?r) ?n0) @ n_st1 Q (n_sub_u8 Q (n_shl_u8 Q l1 ?r) ?n1)"
    by (simp add: Let_def q_st1_x2)
  also have "\<dots> = bump_lru ?l ?i"
    unfolding quad.bump_register [OF nx(1) r] quad.bump_register [OF nx(2) r]
    by (subst bump_bytes) (use i in \<open>auto intro!: nth_equalityI simp: nth_append\<close>)
  finally show ?thesis .
qed

lemma neon32_array_like:
  "vector_kernel neon32_mask_type (uint_mask_ok 32 1 Align_right) neon32_slots 32 neon32_loop (neon32_kernel Q)"
proof (intro vector_kernel.intro vector_kernel_axioms.intro)
  have len: "32 * 2 ^ 1 \<le> LENGTH(64)" by simp
  show "array_mask neon32_mask_type (uint_mask_ok 32 1 Align_right) neon32_slots 32 neon32_loop"
    by (rule uint_vector(1) [OF _ len]) simp
  show "mk_at neon32_mask_type m i \<longleftrightarrow> i \<in> neon32_slots m" if "i < 32" for m i
    by (rule uint_vector(2) [OF _ len that]) simp
  show "fold (\<lambda>i m. if p i then mk_join neon32_mask_type m (mk_single neon32_mask_type i) else m) [0..<32] (mk_empty neon32_mask_type)
      = neon32_loop p" for p by (rule uint_vector(3) [OF _ len]) simp
  show "kn_store (neon32_kernel Q) (kn_to_empty (neon32_kernel Q) k m)
      = map (\<lambda>i. if i \<in> neon32_slots m then empty_state else kn_store (neon32_kernel Q) k ! i) [0..<32]" for k m
  proof (cases k)
    case (Pair k0 k1)
    have upper: "\<not> i < 16 \<Longrightarrow> 32 + (i - 16) * 2 = i * 2" for i :: nat by simp
    have "n_st1 Q (n_bsl Q (fst (neon32_expand Q m)) (n_dup_8 Q empty_state) k0) @ n_st1 Q (n_bsl Q (snd (neon32_expand Q m)) (n_dup_8 Q empty_state) k1)
        = map (\<lambda>i. if i \<in> neon32_slots m then empty_state else (n_st1 Q k0 @ n_st1 Q k1) ! i) [0..<32]"
      unfolding quad.bsl_flags [OF neon32_expand_flags(1)] quad.bsl_flags [OF neon32_expand_flags(2)]
      by (rule nth_equalityI) (auto simp: nth_append quad.dup_8 uint_mask_slots_def slot_bit_def upper)
    then show ?thesis by (simp add: Pair neon32_kernel_def Let_def q_st1_x2)
  qed
  show "kn_store (neon32_kernel Q) (kn_to_empty_if_lru_below (neon32_kernel Q) k l v)
      = map (\<lambda>i. if kn_store (neon32_kernel Q) l ! i < v then empty_state else kn_store (neon32_kernel Q) k ! i) [0..<32]" for k l v
    by (cases k; cases l) (auto intro!: nth_equalityI simp: neon32_kernel_def Let_def q_st1_x2 quad.bsl_flags [OF quad.clt_flags] nth_append quad.dup_8)
  note has = slots_word_has [OF len] and count = slots_word_count [OF _ len]
  show "kn_has_hash (neon32_kernel Q) k \<longleftrightarrow> mk_has_next neon32_mask_type (kn_mask_hash (neon32_kernel Q) k)"
    "kn_has_not_hash (neon32_kernel Q) k \<longleftrightarrow> mk_has_next neon32_mask_type (kn_mask_not_hash (neon32_kernel Q) k)"
    "kn_has_empty (neon32_kernel Q) k \<longleftrightarrow> mk_has_next neon32_mask_type (kn_mask_empty (neon32_kernel Q) k)"
    "kn_has_not_empty (neon32_kernel Q) k \<longleftrightarrow> mk_has_next neon32_mask_type (kn_mask_not_empty (neon32_kernel Q) k)"
    "kn_has_tombstone (neon32_kernel Q) k \<longleftrightarrow> mk_has_next neon32_mask_type (kn_mask_tombstone (neon32_kernel Q) k)"
    "kn_has_not_tombstone (neon32_kernel Q) k \<longleftrightarrow> mk_has_next neon32_mask_type (kn_mask_not_tombstone (neon32_kernel Q) k)" for k
    by (cases k; simp only: neon32_kernel_def kernel_ops.simps has neon32_masks neon32_tests is_not_hash_iff not_all not_imp)+
  show "kn_count_equal (neon32_kernel Q) k k' = mk_count neon32_mask_type (kn_mask_equal (neon32_kernel Q) k k')"
    "kn_count_not_equal (neon32_kernel Q) k k' = mk_count neon32_mask_type (kn_mask_not_equal (neon32_kernel Q) k k')" for k k'
    by (cases k; cases k'; simp only: neon32_kernel_def kernel_ops.simps count neon32_counts neon32_masks; simp)+
qed (simp_all add: split_paired_all neon32_kernel_def q_st1_x2 q_ld1_x2 quad.st1_ld1 quad.ld1_st1 neon32_masks neon32_mask_min_lru_def
    neon32_least_lru neon32_at_def quad.get_lane_8 q_tbl2 quad.dup_8 lookup_constant neon32_min_lru_def Let_def neon32_update
    quad.neon_states [unfolded neon_hash_to_tombstone_def neon_not_hash_to_empty_def] nth_append
    del: neon32_mask.simps neon32_mask_hash.simps neon32_mask_not_hash.simps neon32_mask_equal.simps neon32_mask_lru.simps
      neon32_mask_lru_below.simps neon32_least.simps neon32_update_lru.simps)

end

end
