(* ===== verification/Neon64.thy ===== *)
theory Neon64
  imports NeonWide
begin

text \<open>\<open>neon_kernel<64>\<close> is the array kernel of 64 slots.\<close>

abbreviation bytes4 :: "('d, 'x) neon_q_ops \<Rightarrow> 'x neon_4 \<Rightarrow> u8 list" where
  "bytes4 Q k \<equiv> (case k of (k0, k1, k2, k3) \<Rightarrow> n_st1 Q k0 @ n_st1 Q k1 @ n_st1 Q k2 @ n_st1 Q k3)"

lemma nth_four_lists:
  assumes "length a = 16" and "length b = 16" and "length c = 16" and "i < 16"
  shows "(a @ b @ c @ d) ! i = a ! i" "(a @ b @ c @ d) ! (16 + i) = b ! i" "(a @ b @ c @ d) ! (32 + i) = c ! i" "(a @ b @ c @ d) ! (48 + i) = d ! i"
  using assms(4) by (simp_all add: nth_four [OF assms(1-3)])

lemma four_parts: "take 16 xs @ take 16 (drop 16 xs) @ take 16 (drop 32 xs) @ drop 48 xs = xs"
  using append_take_drop_id [of 16 "drop 32 xs"] append_take_drop_id [of 16 "drop 16 xs"] by simp

lemma slots_four:
  "(\<exists>i<64. P i) \<longleftrightarrow> (\<exists>i<16. P i \<or> P (16 + i) \<or> P (32 + i) \<or> P (48 + i))"
  "(\<forall>i<64. P i) \<longleftrightarrow> (\<forall>i<16. P i \<and> P (16 + i) \<and> P (32 + i) \<and> P (48 + i))" for P :: "nat \<Rightarrow> bool"
proof -
  have e: "(\<exists>i<64. P i) \<longleftrightarrow> (\<exists>i<16. P i \<or> P (16 + i) \<or> P (32 + i) \<or> P (48 + i))" for P :: "nat \<Rightarrow> bool"
    using slots_append [of 48 P] slots_append [of 32 "\<lambda>i. P (16 + i)"] slots_append [of 16 "\<lambda>i. P (32 + i)"]
    by (simp add: add.assoc [symmetric]) blast
  then show "(\<exists>i<64. P i) \<longleftrightarrow> (\<exists>i<16. P i \<or> P (16 + i) \<or> P (32 + i) \<or> P (48 + i))" .
  show "(\<forall>i<64. P i) \<longleftrightarrow> (\<forall>i<16. P i \<and> P (16 + i) \<and> P (32 + i) \<and> P (48 + i))" using e [of "\<lambda>i. \<not> P i"] by blast
qed

lemma card_four: "card {i. i < 64 \<and> P i} = card {i. i < 16 \<and> P i} + card {i. i < 16 \<and> P (16 + i)}
    + (card {i. i < 16 \<and> P (32 + i)} + card {i. i < 16 \<and> P (48 + i)})" for P :: "nat \<Rightarrow> bool"
  using card_append [of 48 P] card_append [of 32 "\<lambda>i. P (16 + i)"] card_append [of 16 "\<lambda>i. P (32 + i)"]
  by (simp add: add.assoc [symmetric])

context neon_q_intrinsics
begin

lemma neon64_masks:
  "neon64_mask Q (k0, k1, k2, k3) s = neon64_loop (\<lambda>i. bytes4 Q (k0, k1, k2, k3) ! i = s)"
  "neon64_mask_not Q (k0, k1, k2, k3) s = neon64_loop (\<lambda>i. bytes4 Q (k0, k1, k2, k3) ! i \<noteq> s)"
  "neon64_mask_hash Q (k0, k1, k2, k3) = neon64_loop (\<lambda>i. is_hash (bytes4 Q (k0, k1, k2, k3) ! i))"
  "neon64_mask_not_hash Q (k0, k1, k2, k3) = neon64_loop (\<lambda>i. \<not> is_hash (bytes4 Q (k0, k1, k2, k3) ! i))"
  "neon64_mask_equal Q (k0, k1, k2, k3) (j0, j1, j2, j3) = neon64_loop (\<lambda>i. bytes4 Q (k0, k1, k2, k3) ! i = bytes4 Q (j0, j1, j2, j3) ! i)"
  "neon64_mask_not_equal Q (k0, k1, k2, k3) (j0, j1, j2, j3) = neon64_loop (\<lambda>i. bytes4 Q (k0, k1, k2, k3) ! i \<noteq> bytes4 Q (j0, j1, j2, j3) ! i)"
  "neon64_mask_lru Q (k0, k1, k2, k3) v = neon64_loop (\<lambda>i. bytes4 Q (k0, k1, k2, k3) ! i = v)"
  "neon64_mask_lru_below Q (k0, k1, k2, k3) v = neon64_loop (\<lambda>i. bytes4 Q (k0, k1, k2, k3) ! i < v)"
proof -
  note f = neon64_collapse_flags
  have s: "i - 16 < 16" "i - 32 < 16" "i - 48 < 16" if "i < 32" "i < 48" "i < 64" for i :: nat using that by auto
  show e: "neon64_mask Q (k0, k1, k2, k3) s = neon64_loop (\<lambda>i. bytes4 Q (k0, k1, k2, k3) ! i = s)" for k0 k1 k2 k3 s
    by (simp add: Let_def quad.dup_8 f [OF quad.ceq_flags quad.ceq_flags quad.ceq_flags quad.ceq_flags] nth_four cong: if_cong)
  show "neon64_mask_not Q (k0, k1, k2, k3) s = neon64_loop (\<lambda>i. bytes4 Q (k0, k1, k2, k3) ! i \<noteq> s)"
    unfolding neon64_mask_not_def e neon64_ops ..
  show q: "neon64_mask_equal Q (k0, k1, k2, k3) (j0, j1, j2, j3)
      = neon64_loop (\<lambda>i. bytes4 Q (k0, k1, k2, k3) ! i = bytes4 Q (j0, j1, j2, j3) ! i)" for k0 k1 k2 k3 j0 j1 j2 j3
    by (simp add: f [OF quad.ceq_flags quad.ceq_flags quad.ceq_flags quad.ceq_flags] nth_four cong: if_cong)
  show "neon64_mask_not_equal Q (k0, k1, k2, k3) (j0, j1, j2, j3)
      = neon64_loop (\<lambda>i. bytes4 Q (k0, k1, k2, k3) ! i \<noteq> bytes4 Q (j0, j1, j2, j3) ! i)"
    unfolding neon64_mask_not_equal_def q neon64_ops ..
  show "neon64_mask_hash Q (k0, k1, k2, k3) = neon64_loop (\<lambda>i. is_hash (bytes4 Q (k0, k1, k2, k3) ! i))"
    "neon64_mask_not_hash Q (k0, k1, k2, k3) = neon64_loop (\<lambda>i. \<not> is_hash (bytes4 Q (k0, k1, k2, k3) ! i))"
    by (simp_all add: f [OF sign_flags(1) sign_flags(1) sign_flags(1) sign_flags(1)]
        f [OF sign_flags(2) sign_flags(2) sign_flags(2) sign_flags(2)] nth_four cong: if_cong)
  show "neon64_mask_lru Q (k0, k1, k2, k3) v = neon64_loop (\<lambda>i. bytes4 Q (k0, k1, k2, k3) ! i = v)"
    "neon64_mask_lru_below Q (k0, k1, k2, k3) v = neon64_loop (\<lambda>i. bytes4 Q (k0, k1, k2, k3) ! i < v)"
    by (simp_all add: Let_def quad.dup_8 f [OF quad.ceq_flags quad.ceq_flags quad.ceq_flags quad.ceq_flags]
        f [OF quad.clt_flags quad.clt_flags quad.clt_flags quad.clt_flags] nth_four cong: if_cong)
qed

lemma neon64_least_lru: "neon64_least Q (l0, l1, l2, l3) = least_lru (bytes4 Q (l0, l1, l2, l3))"
proof -
  have ne: "n_st1 Q z \<noteq> []" for z using quad.st1_length [of z] by (metis list.size(3) zero_neq_numeral)
  show ?thesis unfolding neon64_least.simps least_min by (simp add: quad.least_lru_register least_append ne min.assoc)
qed

lemma neon64_counts:
  "neon64_count_equal Q (k0, k1, k2, k3) (j0, j1, j2, j3) = card {i. i < 64 \<and> bytes4 Q (k0, k1, k2, k3) ! i = bytes4 Q (j0, j1, j2, j3) ! i}"
  "neon64_count_not_equal Q (k0, k1, k2, k3) (j0, j1, j2, j3) = card {i. i < 64 \<and> bytes4 Q (k0, k1, k2, k3) ! i \<noteq> bytes4 Q (j0, j1, j2, j3) ! i}"
proof -
  let ?k = "bytes4 Q (k0, k1, k2, k3)" and ?j = "bytes4 Q (j0, j1, j2, j3)"
  let ?E = "{i. i < 64 \<and> ?k ! i = ?j ! i}" and ?N = "{i. i < 64 \<and> ?k ! i \<noteq> ?j ! i}"
  let ?s = "q_add_s8 Q (q_add_s8 Q (n_ceq Q k0 j0) (n_ceq Q k1 j1)) (q_add_s8 Q (n_ceq Q k2 j2) (n_ceq Q k3 j3))"
  have c: "card ?E = card {i. i < 16 \<and> n_st1 Q k0 ! i = n_st1 Q j0 ! i} + card {i. i < 16 \<and> n_st1 Q k1 ! i = n_st1 Q j1 ! i}
      + (card {i. i < 16 \<and> n_st1 Q k2 ! i = n_st1 Q j2 ! i} + card {i. i < 16 \<and> n_st1 Q k3 ! i = n_st1 Q j3 ! i})"
    unfolding card_four by (simp add: nth_four_lists cong: conj_cong)
  have "n_addv_s8 Q ?s = - of_nat (card ?E)"
    unfolding quad.addv_s8 add_sums equal_sum c by simp
  moreover have le: "card ?E \<le> card {..<64 :: nat}" by (rule card_mono) auto
  ultimately have s: "sint (n_addv_s8 Q ?s) = - int (card ?E)" using sint_neg_count by simp
  then show "neon64_count_equal Q (k0, k1, k2, k3) (j0, j1, j2, j3) = card ?E" by (simp add: Let_def)
  have "?E \<union> ?N = {..<64}" by auto
  then have "card ?E + card ?N = 64" by (subst card_Un_disjoint [symmetric]) auto
  then show "neon64_count_not_equal Q (k0, k1, k2, k3) (j0, j1, j2, j3) = card ?N" using s by (simp add: Let_def)
qed

lemma neon64_tests:
  "is_hash (neon64_max Q (k0, k1, k2, k3)) \<longleftrightarrow> (\<exists>i<64. is_hash (bytes4 Q (k0, k1, k2, k3) ! i))"
  "is_hash (neon64_min Q (k0, k1, k2, k3)) \<longleftrightarrow> (\<forall>i<64. is_hash (bytes4 Q (k0, k1, k2, k3) ! i))"
  "neon64_min Q (k0, k1, k2, k3) = empty_state \<longleftrightarrow> (\<exists>i<64. bytes4 Q (k0, k1, k2, k3) ! i = empty_state)"
  "neon64_max Q (k0, k1, k2, k3) = empty_state \<longleftrightarrow> (\<forall>i<64. bytes4 Q (k0, k1, k2, k3) ! i = empty_state)"
  "neon64_has Q (k0, k1, k2, k3) s \<longleftrightarrow> (\<exists>i<64. bytes4 Q (k0, k1, k2, k3) ! i = s)"
  "neon64_has_not Q (k0, k1, k2, k3) s \<longleftrightarrow> (\<exists>i<64. bytes4 Q (k0, k1, k2, k3) ! i \<noteq> s)"
proof -
  have all: "is_hash (n_minv_s8 Q x) \<longleftrightarrow> (\<forall>i<16. is_hash (n_st1 Q x ! i))"
    "n_maxv_s8 Q x = empty_state \<longleftrightarrow> (\<forall>i<16. n_st1 Q x ! i = empty_state)" for x
    using quad.extreme_states [of x] by blast+
  note max = extreme_two(1,4) and min = extreme_two(2,3)
  show "is_hash (neon64_max Q (k0, k1, k2, k3)) \<longleftrightarrow> (\<exists>i<64. is_hash (bytes4 Q (k0, k1, k2, k3) ! i))"
    "neon64_min Q (k0, k1, k2, k3) = empty_state \<longleftrightarrow> (\<exists>i<64. bytes4 Q (k0, k1, k2, k3) ! i = empty_state)"
    by (simp_all add: quad.extreme_states(1,3) slots_four nth_four_lists max min disj_assoc cong: conj_cong)
  show "is_hash (neon64_min Q (k0, k1, k2, k3)) \<longleftrightarrow> (\<forall>i<64. is_hash (bytes4 Q (k0, k1, k2, k3) ! i))"
    "neon64_max Q (k0, k1, k2, k3) = empty_state \<longleftrightarrow> (\<forall>i<64. bytes4 Q (k0, k1, k2, k3) ! i = empty_state)"
    by (simp_all add: all slots_four nth_four_lists max min conj_assoc)
  note e = quad.ceq_flags
  show "neon64_has Q (k0, k1, k2, k3) s \<longleftrightarrow> (\<exists>i<64. bytes4 Q (k0, k1, k2, k3) ! i = s)"
    using quad.some_flag(1) [OF max_flags [OF max_flags [OF e e] max_flags [OF e e]]]
    by (simp add: Let_def quad.dup_8 slots_four nth_four_lists disj_assoc cong: conj_cong)
  show "neon64_has_not Q (k0, k1, k2, k3) s \<longleftrightarrow> (\<exists>i<64. bytes4 Q (k0, k1, k2, k3) ! i \<noteq> s)"
    using quad.some_flag(2) [OF quad.min_flags [OF quad.min_flags [OF e e] quad.min_flags [OF e e]]]
    by (simp add: Let_def quad.dup_8 slots_four nth_four_lists disj_assoc cong: conj_cong)
qed

lemma neon64_update:
  assumes ne: "neon64_slots m \<noteq> {}" and ok: "uint_mask_ok 64 0 Align_right m"
  shows "q_st1_x4 Q (neon64_update_lru D Q (l0, l1, l2, l3) m) = bump_lru (bytes4 Q (l0, l1, l2, l3)) (Min (neon64_slots m))"
proof -
  let ?i = "Min (neon64_slots m)" and ?t = "mk_truncate neon64_mask_type m" and ?l = "bytes4 Q (l0, l1, l2, l3)"
  have "?i \<in> neon64_slots m" by (rule Min_in [OF _ ne]) (simp add: uint_mask_slots_def)
  then have i: "?i < 64" by (simp add: uint_mask_slots_def)
  have t: "bit ?t j \<longleftrightarrow> j = ?i" for j using truncate_slot [OF _ ok ne] by (simp add: slot_bit_def)
  obtain n0 n1 n2 n3 where x: "neon64_expand D Q ?t = (n0, n1, n2, n3)" by (metis prod_cases4)
  note nx = neon64_expand_flags [OF x, unfolded t]
  let ?c = "\<lambda>l nx. q_tst_u32 Q (n_ceq Q l (n_dup_8 Q max_lru)) nx"
  let ?r = "q_dup_u32 Q (q_maxv_u32 Q (q_orr Q (q_orr Q (?c l0 n0) (?c l1 n1)) (q_orr Q (?c l2 n2) (?c l3 n3))))"
  let ?T = "\<lambda>l d j. n_st1 Q l ! j = max_lru \<and> d + j = ?i"
  have "n_st1 Q ?r = replicate 16 (flag_byte (\<exists>q<4. ((\<exists>j<4. n_st1 Q l0 ! (4 * q + j) = max_lru \<and> 4 * q + j = ?i)
      \<or> (\<exists>j<4. ?T l1 16 (4 * q + j))) \<or> ((\<exists>j<4. ?T l2 32 (4 * q + j)) \<or> (\<exists>j<4. ?T l3 48 (4 * q + j)))))"
    by (rule spread_any) (simp only: orr_lanes tst_top [OF nx(1)] tst_top [OF nx(2)] tst_top [OF nx(3)] tst_top [OF nx(4)] flag_or)
  also have "\<dots> = replicate 16 (flag_byte ((\<exists>j<16. n_st1 Q l0 ! j = max_lru \<and> j = ?i)
      \<or> (\<exists>j<16. ?T l1 16 j) \<or> (\<exists>j<16. ?T l2 32 j) \<or> (\<exists>j<16. ?T l3 48 j)))"
    unfolding disj_assoc any_lanes [of "\<lambda>j. n_st1 Q l0 ! j = max_lru \<and> j = ?i"] any_lanes [of "?T l1 16"] any_lanes [of "?T l2 32"]
      lanes_bytes [of "?T l3 48"] ..
  also have "(\<exists>j<16. n_st1 Q l0 ! j = max_lru \<and> j = ?i) \<or> (\<exists>j<16. ?T l1 16 j) \<or> (\<exists>j<16. ?T l2 32 j) \<or> (\<exists>j<16. ?T l3 48 j)
      \<longleftrightarrow> (\<exists>j<64. ?l ! j = max_lru \<and> j = ?i)"
    unfolding slots_four by (simp add: nth_four_lists cong: conj_cong) blast
  also have "\<dots> \<longleftrightarrow> ?l ! ?i = max_lru" using i by blast
  finally have r: "n_st1 Q ?r = replicate 16 (flag_byte (?l ! ?i = max_lru))" .
  have "q_st1_x4 Q (neon64_update_lru D Q (l0, l1, l2, l3) m)
      = n_st1 Q (n_sub_u8 Q (n_shl_u8 Q l0 ?r) n0) @ n_st1 Q (n_sub_u8 Q (n_shl_u8 Q l1 ?r) n1)
        @ n_st1 Q (n_sub_u8 Q (n_shl_u8 Q l2 ?r) n2) @ n_st1 Q (n_sub_u8 Q (n_shl_u8 Q l3 ?r) n3)"
    by (simp add: Let_def q_st1_x4 x)
  also have "\<dots> = bump_lru ?l ?i"
  proof (rule nth_equalityI)
    fix j assume "j < length (n_st1 Q (n_sub_u8 Q (n_shl_u8 Q l0 ?r) n0) @ n_st1 Q (n_sub_u8 Q (n_shl_u8 Q l1 ?r) n1)
        @ n_st1 Q (n_sub_u8 Q (n_shl_u8 Q l2 ?r) n2) @ n_st1 Q (n_sub_u8 Q (n_shl_u8 Q l3 ?r) n3))"
    then have j: "j < 64" by simp
    have d: "16 + (j - 16) = ?i \<longleftrightarrow> j = ?i" if "16 \<le> j" using that by simp
    have e: "32 + (j - 32) = ?i \<longleftrightarrow> j = ?i" if "32 \<le> j" using that by simp
    have f: "48 + (j - 48) = ?i \<longleftrightarrow> j = ?i" if "48 \<le> j" using that by simp
    have b: "bump_lru ?l ?i ! j = (if ?l ! ?i = max_lru then drop_bit 1 (?l ! j) else ?l ! j) + of_bool (j = ?i)"
      by (subst bump_bytes) (use i j in simp_all)
    show "(n_st1 Q (n_sub_u8 Q (n_shl_u8 Q l0 ?r) n0) @ n_st1 Q (n_sub_u8 Q (n_shl_u8 Q l1 ?r) n1)
        @ n_st1 Q (n_sub_u8 Q (n_shl_u8 Q l2 ?r) n2) @ n_st1 Q (n_sub_u8 Q (n_shl_u8 Q l3 ?r) n3)) ! j = bump_lru ?l ?i ! j"
      unfolding b quad.bump_register [OF nx(1) r] quad.bump_register [OF nx(2) r] quad.bump_register [OF nx(3) r] quad.bump_register [OF nx(4) r]
      using j d e f by (cases "?l ! ?i = max_lru") (simp_all add: nth_four not_less)
  qed (simp add: bump_lru_def)
  finally show ?thesis .
qed

lemma neon64_array_like:
  "vector_kernel neon64_mask_type (uint_mask_ok 64 0 Align_right) neon64_slots 64 neon64_loop (neon64_kernel D Q)"
proof (intro vector_kernel.intro vector_kernel_axioms.intro)
  have len: "64 * 2 ^ 0 \<le> LENGTH(64)" by simp
  show "array_mask neon64_mask_type (uint_mask_ok 64 0 Align_right) neon64_slots 64 neon64_loop"
    by (rule uint_vector(1) [OF _ len]) simp
  show "mk_at neon64_mask_type m i \<longleftrightarrow> i \<in> neon64_slots m" if "i < 64" for m i
    by (rule uint_vector(2) [OF _ len that]) simp
  show "fold (\<lambda>i m. if p i then mk_join neon64_mask_type m (mk_single neon64_mask_type i) else m) [0..<64] (mk_empty neon64_mask_type)
      = neon64_loop p" for p by (rule uint_vector(3) [OF _ len]) simp
  show "kn_store (neon64_kernel D Q) (kn_to_empty (neon64_kernel D Q) k m)
      = map (\<lambda>i. if i \<in> neon64_slots m then empty_state else kn_store (neon64_kernel D Q) k ! i) [0..<64]" for k m
  proof -
    obtain k0 k1 k2 k3 where k: "k = (k0, k1, k2, k3)" by (metis prod_cases4)
    obtain n0 n1 n2 n3 where x: "neon64_expand D Q m = (n0, n1, n2, n3)" by (metis prod_cases4)
    note nx = neon64_expand_flags [OF x]
    let ?b = "\<lambda>n k. n_st1 Q (n_bsl Q n (n_dup_8 Q empty_state) k)"
    have "?b n0 k0 @ ?b n1 k1 @ ?b n2 k2 @ ?b n3 k3
        = map (\<lambda>i. if i \<in> neon64_slots m then empty_state else bytes4 Q (k0, k1, k2, k3) ! i) [0..<64]"
    proof (rule nth_equalityI)
      fix j assume "j < length (?b n0 k0 @ ?b n1 k1 @ ?b n2 k2 @ ?b n3 k3)"
      then have j: "j < 64" by simp
      show "(?b n0 k0 @ ?b n1 k1 @ ?b n2 k2 @ ?b n3 k3) ! j
          = map (\<lambda>i. if i \<in> neon64_slots m then empty_state else bytes4 Q (k0, k1, k2, k3) ! i) [0..<64] ! j"
        unfolding quad.bsl_flags [OF nx(1)] quad.bsl_flags [OF nx(2)] quad.bsl_flags [OF nx(3)] quad.bsl_flags [OF nx(4)]
        using j by (simp add: nth_four quad.dup_8 uint_mask_slots_def slot_bit_def not_less)
    qed simp
    then show ?thesis by (simp add: k x neon64_kernel_def Let_def q_st1_x4)
  qed
  show "kn_store (neon64_kernel D Q) (kn_to_empty_if_lru_below (neon64_kernel D Q) k l v)
      = map (\<lambda>i. if kn_store (neon64_kernel D Q) l ! i < v then empty_state else kn_store (neon64_kernel D Q) k ! i) [0..<64]" for k l v
    by (cases k rule: prod_cases4; cases l rule: prod_cases4)
      (auto intro!: nth_equalityI simp: neon64_kernel_def Let_def q_st1_x4 quad.bsl_flags [OF quad.clt_flags] nth_four quad.dup_8)
  note has = slots_word_has [OF len] and count = slots_word_count [OF _ len]
  show "kn_has_hash (neon64_kernel D Q) k \<longleftrightarrow> mk_has_next neon64_mask_type (kn_mask_hash (neon64_kernel D Q) k)"
    "kn_has_not_hash (neon64_kernel D Q) k \<longleftrightarrow> mk_has_next neon64_mask_type (kn_mask_not_hash (neon64_kernel D Q) k)"
    "kn_has_empty (neon64_kernel D Q) k \<longleftrightarrow> mk_has_next neon64_mask_type (kn_mask_empty (neon64_kernel D Q) k)"
    "kn_has_not_empty (neon64_kernel D Q) k \<longleftrightarrow> mk_has_next neon64_mask_type (kn_mask_not_empty (neon64_kernel D Q) k)"
    "kn_has_tombstone (neon64_kernel D Q) k \<longleftrightarrow> mk_has_next neon64_mask_type (kn_mask_tombstone (neon64_kernel D Q) k)"
    "kn_has_not_tombstone (neon64_kernel D Q) k \<longleftrightarrow> mk_has_next neon64_mask_type (kn_mask_not_tombstone (neon64_kernel D Q) k)" for k
    by (cases k rule: prod_cases4; simp only: neon64_kernel_def kernel_ops.simps has neon64_masks neon64_tests is_not_hash_iff not_all not_imp)+
  show "kn_count_equal (neon64_kernel D Q) k k' = mk_count neon64_mask_type (kn_mask_equal (neon64_kernel D Q) k k')"
    "kn_count_not_equal (neon64_kernel D Q) k k' = mk_count neon64_mask_type (kn_mask_not_equal (neon64_kernel D Q) k k')" for k k'
    by (cases k rule: prod_cases4; cases k' rule: prod_cases4;
        simp only: neon64_kernel_def kernel_ops.simps count neon64_counts neon64_masks; simp)+
qed (simp_all add: split_paired_all neon64_kernel_def q_st1_x4 q_ld1_x4 quad.st1_ld1 quad.ld1_st1 neon64_masks neon64_mask_min_lru_def
    neon64_least_lru neon64_at_def quad.get_lane_8 q_tbl4 quad.dup_8 lookup_constant neon64_min_lru_def Let_def neon64_update four_parts
    quad.neon_states [unfolded neon_hash_to_tombstone_def neon_not_hash_to_empty_def]
    del: neon64_mask.simps neon64_mask_hash.simps neon64_mask_not_hash.simps neon64_mask_equal.simps neon64_mask_lru.simps
      neon64_mask_lru_below.simps neon64_least.simps neon64_update_lru.simps)

end

end
