(* ===== verification/AvxKernel.thy ===== *)
theory AvxKernel
  imports SseKernel
begin

text \<open>
  The \<open>avx_kernel\<close> (32 slots in a 256 bit register) and the \<open>avx512_kernel\<close> (64 slots in a 512 bit register) of
  kernel.hpp, over the intrinsics \<open>J\<close> and \<open>L\<close> of their registers and the intrinsics \<open>I\<close> of 128 bit registers, in which
  both finish the search for the least stamp.
\<close>

section \<open>The operations of avx_kernel\<close>

abbreviation avx_mask_type :: "32 word mask_ops" where
  "avx_mask_type \<equiv> uint_mask 32 0 Align_right"

definition avx_mask_not_hash :: "build \<Rightarrow> ('x, 'y) avx2_ops \<Rightarrow> 'y \<Rightarrow> 32 word" where
  "avx_mask_not_hash B J k = (if with_avx_bwvl B then v_movepi8_mask J k else v_movemask_epi8 J k)"

definition avx_mask_hash :: "build \<Rightarrow> ('x, 'y) avx2_ops \<Rightarrow> 'y \<Rightarrow> 32 word" where
  "avx_mask_hash B J k = NOT (avx_mask_not_hash B J k)"

definition avx_mask_equal :: "build \<Rightarrow> ('x, 'y) avx2_ops \<Rightarrow> 'y \<Rightarrow> 'y \<Rightarrow> 32 word" where
  "avx_mask_equal B J k0 k1 =
     (if with_avx_bwvl B then v_cmpeq_epi8_mask J k0 k1 else avx_mask_not_hash B J (v_cmpeq_epi8 J k0 k1))"

definition avx_mask_not_equal :: "build \<Rightarrow> ('x, 'y) avx2_ops \<Rightarrow> 'y \<Rightarrow> 'y \<Rightarrow> 32 word" where
  "avx_mask_not_equal B J k0 k1 =
     (if with_avx_bwvl B then v_cmpneq_epi8_mask J k0 k1 else avx_mask_hash B J (v_cmpeq_epi8 J k0 k1))"

definition avx_mask :: "build \<Rightarrow> ('x, 'y) avx2_ops \<Rightarrow> 'y \<Rightarrow> state_t \<Rightarrow> 32 word" where
  "avx_mask B J k s = avx_mask_equal B J k (v_set1_epi8 J s)"

definition avx_mask_not :: "build \<Rightarrow> ('x, 'y) avx2_ops \<Rightarrow> 'y \<Rightarrow> state_t \<Rightarrow> 32 word" where
  "avx_mask_not B J k s = avx_mask_not_equal B J k (v_set1_epi8 J s)"

definition avx_mask_empty :: "build \<Rightarrow> ('x, 'y) avx2_ops \<Rightarrow> 'y \<Rightarrow> 32 word" where
  "avx_mask_empty B J k = avx_mask_not_hash B J (v_sign_epi8 J k k)"

definition avx_mask_not_empty :: "build \<Rightarrow> ('x, 'y) avx2_ops \<Rightarrow> 'y \<Rightarrow> 32 word" where
  "avx_mask_not_empty B J k = avx_mask_hash B J (v_sign_epi8 J k k)"

definition avx_cmplt_epu8 :: "('x, 'y) avx2_ops \<Rightarrow> 'y \<Rightarrow> 'y \<Rightarrow> 'y" where
  "avx_cmplt_epu8 J a b = (let bias = v_set1_epi8 J 0x80 in v_cmpgt_epi8 J (v_xor J b bias) (v_xor J a bias))"

definition avx_to_empty :: "build \<Rightarrow> ('x, 'y) avx2_ops \<Rightarrow> 'y \<Rightarrow> 32 word \<Rightarrow> 'y" where
  "avx_to_empty B J k m =
     (if with_avx_bwvl B then v_mask_set1_epi8 J k m empty_state
      else let mx = v_set1_epi32 J m;
               mx = v_unpacklo_epi8 J mx mx;
               mx = v_unpacklo_epi8 J mx mx;
               mx = mm256_permute4x64_epi64 J mx [0, 0, 1, 1];
               mx = v_unpacklo_epi8 J mx mx;
               mx = v_and J mx (v_set1_epi64x J 0x8040201008040201);
               mx = v_cmpeq_epi8 J mx (v_setzero J)
           in v_blendv_epi8 J (v_set1_epi8 J empty_state) k mx)"

definition avx_at :: "build \<Rightarrow> ('x, 'y) avx2_ops \<Rightarrow> 'y \<Rightarrow> nat \<Rightarrow> state_t" where
  "avx_at B J k i =
     (if with_avx_vbmi B then ucast (v_cvt_si32 J (v_permutexvar_epi8 J (v_set1_epi8 J (of_nat i)) k))
      else let s = v_cvt_si32 J (mm256_permutevar8x32_epi32 J k (v_set1_epi32 J (of_nat (i div 4))))
           in ucast (signed_drop_bit (i mod 4 * 8) s))"

definition avx_min_reduce_epu8 :: "'x sse_ops \<Rightarrow> ('x, 'y) avx2_ops \<Rightarrow> 'y \<Rightarrow> 'x" where
  "avx_min_reduce_epu8 I J l = (
     let s = v_min_epu8 I (mm256_castsi256_si128 J l) (mm256_extracti128_si256 J l 1);
         s = v_min_epu8 I s (mm_srli_si128 I s 1);
         s = v_and I s (mm_set1_epi16 I 0xff)
     in mm_minpos_epu16 I s)"

definition avx_min_lru :: "build \<Rightarrow> 'x sse_ops \<Rightarrow> ('x, 'y) avx2_ops \<Rightarrow> 'y \<Rightarrow> lru_t \<times> nat" where
  "avx_min_lru B I J l = (
     let s = v_min_epu8 I (mm256_castsi256_si128 J l) (mm256_extracti128_si256 J l 1);
         s = v_min_epu8 I s (mm_srli_si128 I s 1);
         s = v_and I s (mm_set1_epi16 I 0xff);
         s = mm_minpos_epu16 I s;
         lru = ucast (v_cvt_si32 I s) :: lru_t
     in (lru, mk_next avx_mask_type (avx_mask_equal B J l (mm256_broadcastb_epi8 J s))))"

definition avx_mask_min_lru :: "build \<Rightarrow> 'x sse_ops \<Rightarrow> ('x, 'y) avx2_ops \<Rightarrow> 'y \<Rightarrow> 32 word" where
  "avx_mask_min_lru B I J l = avx_mask_equal B J l (mm256_broadcastb_epi8 J (avx_min_reduce_epu8 I J l))"

definition avx_mask_lru_below :: "build \<Rightarrow> ('x, 'y) avx2_ops \<Rightarrow> 'y \<Rightarrow> lru_t \<Rightarrow> 32 word" where
  "avx_mask_lru_below B J l t = (
     let tx = v_set1_epi8 J t
     in if with_avx_bwvl B then v_cmplt_epu8_mask J l tx else v_movemask_epi8 J (avx_cmplt_epu8 J l tx))"

definition avx_update_lru :: "build \<Rightarrow> 'x sse_ops \<Rightarrow> ('x, 'y) avx2_ops \<Rightarrow> 'y \<Rightarrow> 32 word \<Rightarrow> 'y" where
  "avx_update_lru B I J l n = (
     let n = mk_truncate avx_mask_type n;
         l = (if mk_has_next avx_mask_type (avx_mask B J l max_lru AND n)
              then v_and J (v_srli_epi32 J l 1) (v_set1_epi8 J 0x7f) else l)
     in if with_avx_bwvl B then v_mask_add_epi8 J l n l (v_set1_epi8 J 1)
        else let i = mk_next avx_mask_type n;
                 maj = mm_cvtsi64_si128 I (push_bit (i div 8 * 8) 0xff);
                 min = v_set1_epi64x J (push_bit (i mod 8 * 8) 0x01)
             in v_add_epi8 J l (v_and J (mm256_cvtepi8_epi64 J maj) min))"

definition avx_to_empty_if_lru_below :: "('x, 'y) avx2_ops \<Rightarrow> 'y \<Rightarrow> 'y \<Rightarrow> lru_t \<Rightarrow> 'y" where
  "avx_to_empty_if_lru_below J k l t =
     v_blendv_epi8 J k (v_set1_epi8 J 0x80) (avx_cmplt_epu8 J l (v_set1_epi8 J t))"

definition avx_kernel :: "build \<Rightarrow> 'x sse_ops \<Rightarrow> ('x, 'y) avx2_ops \<Rightarrow> ('y, 'y, 32 word) kernel_ops" where
  "avx_kernel B I J = \<lparr>
     kn_size = 32,
     kn_mask_ops = avx_mask_type,
     kn_load = v_load J,
     kn_store = v_store J,
     kn_mask = avx_mask B J,
     kn_mask_not = avx_mask_not B J,
     kn_mask_hash = avx_mask_hash B J,
     kn_mask_not_hash = avx_mask_not_hash B J,
     kn_mask_empty = avx_mask_empty B J,
     kn_mask_not_empty = avx_mask_not_empty B J,
     kn_mask_tombstone = (\<lambda>k. avx_mask B J k tombstone_state),
     kn_mask_not_tombstone = (\<lambda>k. avx_mask_not B J k tombstone_state),
     kn_mask_equal = avx_mask_equal B J,
     kn_mask_not_equal = avx_mask_not_equal B J,
     kn_has_hash = (\<lambda>k. avx_mask_hash B J k \<noteq> 0),
     kn_has_not_hash = (\<lambda>k. avx_mask_not_hash B J k \<noteq> 0),
     kn_has_empty = (\<lambda>k. avx_mask_empty B J k \<noteq> 0),
     kn_has_not_empty = (\<lambda>k. avx_mask_not_empty B J k \<noteq> 0),
     kn_has_tombstone = (\<lambda>k. avx_mask B J k tombstone_state \<noteq> 0),
     kn_has_not_tombstone = (\<lambda>k. avx_mask_not B J k tombstone_state \<noteq> 0),
     kn_count_equal = (\<lambda>k0 k1. mk_count avx_mask_type (avx_mask_equal B J k0 k1)),
     kn_count_not_equal = (\<lambda>k0 k1. mk_count avx_mask_type (avx_mask_not_equal B J k0 k1)),
     kn_hash_to_tombstone = (\<lambda>k. v_min_epi8 J k (v_set1_epi8 J tombstone_state)),
     kn_not_hash_to_empty = (\<lambda>k. v_min_epu8 J k (v_set1_epi8 J empty_state)),
     kn_to_empty = avx_to_empty B J,
     kn_at = avx_at B J,
     kn_load_lru = v_load J,
     kn_store_lru = v_store J,
     kn_min_lru = avx_min_lru B I J,
     kn_mask_min_lru = avx_mask_min_lru B I J,
     kn_mask_lru_below = avx_mask_lru_below B J,
     kn_update_lru = avx_update_lru B I J,
     kn_to_empty_if_lru_below = avx_to_empty_if_lru_below J,
     kn_lru_at = avx_at B J\<rparr>"

section \<open>The operations of avx512_kernel\<close>

abbreviation avx512_mask_type :: "64 word mask_ops" where
  "avx512_mask_type \<equiv> uint_mask 64 0 Align_right"

definition avx512_mask :: "('x, 'y, 'v) avx512_ops \<Rightarrow> 'v \<Rightarrow> state_t \<Rightarrow> 64 word" where
  "avx512_mask L k s = v_cmpeq_epi8_mask L k (v_set1_epi8 L s)"

definition avx512_mask_not :: "('x, 'y, 'v) avx512_ops \<Rightarrow> 'v \<Rightarrow> state_t \<Rightarrow> 64 word" where
  "avx512_mask_not L k s = v_cmpneq_epi8_mask L k (v_set1_epi8 L s)"

definition avx512_mask_hash :: "('x, 'y, 'v) avx512_ops \<Rightarrow> 'v \<Rightarrow> 64 word" where
  "avx512_mask_hash L k = NOT (v_movepi8_mask L k)"

definition avx512_at :: "build \<Rightarrow> ('x, 'y, 'v) avx512_ops \<Rightarrow> 'v \<Rightarrow> nat \<Rightarrow> state_t" where
  "avx512_at B L k i =
     (if with_avx_vbmi B then ucast (v_cvt_si32 L (v_permutexvar_epi8 L (v_set1_epi8 L (of_nat i)) k))
      else let s = v_cvt_si32 L (mm512_permutexvar_epi32 L (v_set1_epi32 L (of_nat (i div 4))) k)
           in ucast (signed_drop_bit (i mod 4 * 8) s))"

definition avx512_min_reduce_epu8 :: "'x sse_ops \<Rightarrow> ('x, 'y) avx2_ops \<Rightarrow> ('x, 'y, 'v) avx512_ops \<Rightarrow> 'v \<Rightarrow> 'x" where
  "avx512_min_reduce_epu8 I J L l = (
     let ss = v_min_epu8 J (mm512_castsi512_si256 L l) (mm512_extracti64x4_epi64 L l 1);
         s = v_min_epu8 I (mm256_castsi256_si128 J ss) (mm256_extracti128_si256 J ss 1);
         s = v_min_epu8 I s (mm_srli_si128 I s 1);
         s = v_and I s (mm_set1_epi16 I 0xff)
     in mm_minpos_epu16 I s)"

definition avx512_mask_min_lru :: "'x sse_ops \<Rightarrow> ('x, 'y) avx2_ops \<Rightarrow> ('x, 'y, 'v) avx512_ops \<Rightarrow> 'v \<Rightarrow> 64 word" where
  "avx512_mask_min_lru I J L l = v_cmpeq_epi8_mask L l (mm512_broadcastb_epi8 L (avx512_min_reduce_epu8 I J L l))"

definition avx512_min_lru :: "'x sse_ops \<Rightarrow> ('x, 'y) avx2_ops \<Rightarrow> ('x, 'y, 'v) avx512_ops \<Rightarrow> 'v \<Rightarrow> lru_t \<times> nat" where
  "avx512_min_lru I J L l = (
     let s = avx512_min_reduce_epu8 I J L l;
         lru = ucast (v_cvt_si32 I s) :: lru_t
     in (lru, mk_next avx512_mask_type (v_cmpeq_epi8_mask L l (mm512_broadcastb_epi8 L s))))"

definition avx512_mask_lru_below :: "('x, 'y, 'v) avx512_ops \<Rightarrow> 'v \<Rightarrow> lru_t \<Rightarrow> 64 word" where
  "avx512_mask_lru_below L l t = v_cmplt_epu8_mask L l (v_set1_epi8 L t)"

definition avx512_update_lru :: "('x, 'y, 'v) avx512_ops \<Rightarrow> 'v \<Rightarrow> 64 word \<Rightarrow> 'v" where
  "avx512_update_lru L l n = (
     let n = mk_truncate avx512_mask_type n;
         l = (if mk_has_next avx512_mask_type (avx512_mask L l max_lru AND n)
              then v_and L (v_srli_epi32 L l 1) (v_set1_epi8 L 0x7f) else l)
     in v_mask_add_epi8 L l n l (v_set1_epi8 L 1))"

definition avx512_kernel :: "build \<Rightarrow> 'x sse_ops \<Rightarrow> ('x, 'y) avx2_ops \<Rightarrow> ('x, 'y, 'v) avx512_ops \<Rightarrow> ('v, 'v, 64 word) kernel_ops" where
  "avx512_kernel B I J L = \<lparr>
     kn_size = 64,
     kn_mask_ops = avx512_mask_type,
     kn_load = v_load L,
     kn_store = v_store L,
     kn_mask = avx512_mask L,
     kn_mask_not = avx512_mask_not L,
     kn_mask_hash = avx512_mask_hash L,
     kn_mask_not_hash = v_movepi8_mask L,
     kn_mask_empty = (\<lambda>k. avx512_mask L k empty_state),
     kn_mask_not_empty = (\<lambda>k. avx512_mask_not L k empty_state),
     kn_mask_tombstone = (\<lambda>k. avx512_mask L k tombstone_state),
     kn_mask_not_tombstone = (\<lambda>k. avx512_mask_not L k tombstone_state),
     kn_mask_equal = v_cmpeq_epi8_mask L,
     kn_mask_not_equal = v_cmpneq_epi8_mask L,
     kn_has_hash = (\<lambda>k. avx512_mask_hash L k \<noteq> 0),
     kn_has_not_hash = (\<lambda>k. v_movepi8_mask L k \<noteq> 0),
     kn_has_empty = (\<lambda>k. avx512_mask L k empty_state \<noteq> 0),
     kn_has_not_empty = (\<lambda>k. avx512_mask_not L k empty_state \<noteq> 0),
     kn_has_tombstone = (\<lambda>k. avx512_mask L k tombstone_state \<noteq> 0),
     kn_has_not_tombstone = (\<lambda>k. avx512_mask_not L k tombstone_state \<noteq> 0),
     kn_count_equal = (\<lambda>k0 k1. mk_count avx512_mask_type (v_cmpeq_epi8_mask L k0 k1)),
     kn_count_not_equal = (\<lambda>k0 k1. mk_count avx512_mask_type (v_cmpneq_epi8_mask L k0 k1)),
     kn_hash_to_tombstone = (\<lambda>k. v_min_epi8 L k (v_set1_epi8 L tombstone_state)),
     kn_not_hash_to_empty = (\<lambda>k. v_min_epu8 L k (v_set1_epi8 L empty_state)),
     kn_to_empty = (\<lambda>k m. v_mask_set1_epi8 L k m empty_state),
     kn_at = avx512_at B L,
     kn_load_lru = v_load L,
     kn_store_lru = v_store L,
     kn_min_lru = avx512_min_lru I J L,
     kn_mask_min_lru = avx512_mask_min_lru I J L,
     kn_mask_lru_below = avx512_mask_lru_below L,
     kn_update_lru = avx512_update_lru L,
     kn_to_empty_if_lru_below = (\<lambda>k l t. v_mask_set1_epi8 L k (avx512_mask_lru_below L l t) empty_state),
     kn_lru_at = avx512_at B L\<rparr>"

section \<open>avx_kernel is the array kernel of 32 slots\<close>

context sse_intrinsics
begin

lemma minpos_least:
  "v_store I (mm_minpos_epu16 I (v_and I (v_min_epu8 I s (mm_srli_si128 I s 1)) (mm_set1_epi16 I 0xff))) ! 0
    = least_lru (v_store I s)"
  using sse_reduce_least [of "\<lparr>with_sse = 4, with_avx = 2, with_avx_bwvl = False, with_avx_vbmi = False, gcc = False\<rparr>" s]
  by (simp add: sse_min_reduce_epu8_def Let_def)

end

context avx2_intrinsics
begin

lemma avx_masks:
  "avx_mask_not_hash B J k = slots_word 32 0 Align_right (\<lambda>i. is_not_hash (v_store J k ! i))"
  "avx_mask_hash B J k = slots_word 32 0 Align_right (\<lambda>i. is_hash (v_store J k ! i))"
  by (rule bit_word_eqI; auto simp: avx_mask_not_hash_def avx_mask_hash_def slots_word_right bit_array_mask_loop is_hash_iff_bit
      wide.movepi8_mask wide.movemask_epi8 bit_not_iff)+

lemma avx_equal_masks:
  "avx_mask_equal B J k k' = slots_word 32 0 Align_right (\<lambda>i. v_store J k ! i = v_store J k' ! i)"
  "avx_mask_not_equal B J k k' = slots_word 32 0 Align_right (\<lambda>i. v_store J k ! i \<noteq> v_store J k' ! i)"
  by (rule bit_word_eqI; auto simp: avx_mask_equal_def avx_mask_not_equal_def avx_masks slots_word_right bit_array_mask_loop
      wide.cmpeq_epi8_mask wide.cmpneq_epi8_mask wide.cmpeq_epi8 flag_bytes)+

lemma avx_state_masks:
  "avx_mask B J k s = slots_word 32 0 Align_right (\<lambda>i. v_store J k ! i = s)"
  "avx_mask_not B J k s = slots_word 32 0 Align_right (\<lambda>i. v_store J k ! i \<noteq> s)"
  "avx_mask_empty B J k = slots_word 32 0 Align_right (\<lambda>i. v_store J k ! i = empty_state)"
  "avx_mask_not_empty B J k = slots_word 32 0 Align_right (\<lambda>i. v_store J k ! i \<noteq> empty_state)"
  by (simp_all add: avx_mask_def avx_mask_not_def avx_equal_masks wide.set1_epi8 avx_mask_empty_def avx_mask_not_empty_def
      avx_masks wide.sign_epi8 sign_byte)

lemma avx_cmplt_byte: "i < 32 \<Longrightarrow> v_store J (avx_cmplt_epu8 J x y) ! i = (if v_store J x ! i < v_store J y ! i then 0xff else 0)"
  by (simp add: avx_cmplt_epu8_def Let_def wide.cmpgt_epi8 wide.v_xor wide.set1_epi8 bias_less)

lemma avx_lru_below: "avx_mask_lru_below B J l t = slots_word 32 0 Align_right (\<lambda>i. v_store J l ! i < t)"
  by (rule bit_word_eqI) (auto simp: avx_mask_lru_below_def Let_def slots_word_right bit_array_mask_loop
      wide.cmplt_epu8_mask wide.movemask_epi8 wide.set1_epi8 avx_cmplt_byte flag_bytes)

lemma avx_to_empty_lru:
  "v_store J (avx_to_empty_if_lru_below J k l t)
    = map (\<lambda>i. if v_store J l ! i < t then empty_state else v_store J k ! i) [0..<32]"
  by (rule nth_equalityI)
    (auto simp: avx_to_empty_if_lru_below_def wide.blendv_epi8 wide.set1_epi8 avx_cmplt_byte flag_bytes empty_state_def)

lemma avx_states:
  "v_store J (v_min_epi8 J k (v_set1_epi8 J tombstone_state)) = map (\<lambda>x. if sint tombstone_state < sint x then tombstone_state else x) (v_store J k)"
  "v_store J (v_min_epu8 J k (v_set1_epi8 J empty_state)) = map (\<lambda>x. min x empty_state) (v_store J k)"
  by (rule nth_equalityI; simp add: wide.min_epi8 wide.min_epu8 wide.set1_epi8)+

lemma avx_blend:
  assumes "\<And>i. i < 32 \<Longrightarrow> v_store J m ! i = (if p i then 0xff else 0)"
  shows "v_store J (v_blendv_epi8 J x y m) = map (\<lambda>i. if p i then v_store J y ! i else v_store J x ! i) [0..<32]"
  by (rule nth_equalityI) (auto simp: wide.blendv_epi8 assms flag_bytes)

text \<open>Byte \<open>i\<close> of the expanded mask is the byte of the mask that holds the bit of slot \<open>i\<close>.\<close>

lemma avx_spread:
  fixes m :: "32 word"
  defines "u \<equiv> \<lambda>x. v_unpacklo_epi8 J x x"
  assumes "i < 32"
  shows "v_store J (u (mm256_permute4x64_epi64 J (u (u (v_set1_epi32 J m))) [0, 0, 1, 1])) ! i = byte_of m (i div 8)"
proof -
  have twice: "v_store J (u x) ! i = v_store J x ! (16 * (i div 16) + i mod 16 div 2)" if "i < 32" for x i
    using that by (simp add: u_def wide.unpacklo_epi8)
  have r: "i mod 16 div 2 < 8" for i :: nat by (simp add: div_less_iff_less_mult)
  have up: "16 * (i div 16) + i mod 16 div 2 < 32" "(16 * (i div 16) + i mod 16 div 2) mod 16 = i mod 16 div 2"
    "(16 * (i div 16) + i mod 16 div 2) div 16 = i div 16" if "i < 32" for i :: nat
  proof -
    have "i div 16 < 2" using that by (simp add: div_less_iff_less_mult)
    then show "16 * (i div 16) + i mod 16 div 2 < 32" using r [of i] by linarith
  qed (use r [of i] in \<open>simp_all add: div_add1_eq\<close>)
  have "i mod 16 div 2 mod 4 = (16 * (i div 16) + i mod 16 div 2) mod 4" for i :: nat
    using mod_mult_self4 [of 4 "4 * (i div 16)" "i mod 16 div 2"] by (simp add: mult.assoc [symmetric])
  then have 1: "v_store J (u (v_set1_epi32 J m)) ! i = byte_of m (i mod 16 div 2 mod 4)" if "i < 32" for i
    using that up(1) [OF that] by (simp add: twice wide.set1_epi32)
  have "i mod 16 div 2 div 2 mod 4 = i mod 16 div 4" for i :: nat
    by (simp add: div_mult2_eq [symmetric] div_less_iff_less_mult)
  then have 2: "v_store J (u (u (v_set1_epi32 J m))) ! i = byte_of m (i mod 16 div 4)" if "i < 32" for i
    using that up [OF that] by (simp add: twice [OF that] 1)
  let ?p = "mm256_permute4x64_epi64 J (u (u (v_set1_epi32 J m))) [0, 0, 1, 1]"
  have 3: "v_store J ?p ! i = byte_of m (2 * (i div 16) + i mod 8 div 4)" if i: "i < 32" for i
  proof -
    have "i div 8 = 0 \<or> i div 8 = 1 \<or> i div 8 = 2 \<or> i div 8 = 3" using i by presburger
    then have ks: "[0, 0, 1, 1] ! (i div 8) = i div 16" using i by (auto simp: nth_Cons split: nat.split)
    have "i div 16 < 2" using i by (simp add: div_less_iff_less_mult)
    then have q: "i div 16 = 0 \<or> i div 16 = 1" by linarith
    have "i mod 8 < 8" by simp
    then have "(8 * (i div 16) + i mod 8) mod 16 div 4 = 2 * (i div 16) + i mod 8 div 4" and "8 * (i div 16) + i mod 8 < 32"
      using q by (auto simp: mod_less)
    then show ?thesis using i by (simp add: mm256_permute4x64_epi64 ks [unfolded One_nat_def] 2)
  qed
  have "i mod 16 div 2 mod 8 div 4 = i mod 16 div 8" using r [of i] by (simp add: div_mult2_eq [symmetric])
  moreover have "2 * (i div 16) + i mod 16 div 8 = i div 8"
  proof -
    have "8 * (2 * (i div 16)) + i mod 16 = i" using mult_div_mod_eq [of 16 i] by linarith
    then show ?thesis using div_mult_self4 [of 8 "2 * (i div 16)" "i mod 16"] by simp
  qed
  moreover have "(16 * (i div 16) + i mod 16 div 2) mod 8 = i mod 16 div 2 mod 8"
    using mod_mult_self4 [of 8 "2 * (i div 16)" "i mod 16 div 2"] by (simp add: mult.assoc [symmetric])
  ultimately show ?thesis using assms(2) up [OF assms(2)] by (simp add: twice [OF assms(2)] 3 [unfolded One_nat_def])
qed

lemma avx_to_empty_slots:
  "v_store J (avx_to_empty B J k m) = map (\<lambda>i. if bit m i then empty_state else v_store J k ! i) [0..<32]"
proof (cases "with_avx_bwvl B")
  case False
  let ?u = "\<lambda>x. v_unpacklo_epi8 J x x"
  let ?x = "?u (mm256_permute4x64_epi64 J (?u (?u (v_set1_epi32 J m))) [0, 0, 1, 1])"
  let ?mx = "v_cmpeq_epi8 J (v_and J ?x (v_set1_epi64x J 0x8040201008040201)) (v_setzero J)"
  have mx: "v_store J ?mx ! i = (if \<not> bit m i then 0xff else 0)" if i: "i < 32" for i
  proof -
    have "byte_of m (i div 8) AND 2 ^ (i mod 8) = 0 \<longleftrightarrow> \<not> bit (byte_of m (i div 8)) (i mod 8)"
      by (simp add: and_exp_eq_0_iff_not_bit)
    also have "bit (byte_of m (i div 8)) (i mod 8) \<longleftrightarrow> bit m i" by (simp add: bit_byte_of)
    finally show ?thesis using i by (simp add: wide.cmpeq_epi8 wide.v_and wide.set1_epi64x wide.setzero avx_spread [unfolded One_nat_def] byte_of_selector)
  qed
  show ?thesis
    unfolding avx_to_empty_def Let_def using False by (simp only: if_False avx_blend [OF mx]) (simp add: wide.set1_epi8)
qed (simp add: avx_to_empty_def wide.mask_set1_epi8)

lemma avx_at_byte:
  assumes i: "i < 32"
  shows "avx_at B J k i = v_store J k ! i"
proof -
  have u: "unat (of_nat i :: u8) = i" and u': "unat (of_nat (i div 4) :: 32 word) = i div 4" using i by (simp_all add: unat_of_nat)
  have q: "i div 4 < 8" using i by (simp add: div_less_iff_less_mult)
  have "ucast (signed_drop_bit (i mod 4 * 8) (lane 4 (v_store J k) (i div 4) :: 32 word)) = v_store J k ! i"
    using i byte_lane [of 4 "i mod 4" "i div 4" "v_store J k", where 'w = 32] by (simp add: wide_byte)
  moreover have "lane 4 (v_store J (mm256_permutevar8x32_epi32 J k (v_set1_epi32 J (of_nat (i div 4))))) 0
      = (lane 4 (v_store J k) (i div 4) :: 32 word)"
    using q u' by (simp add: mm256_permutevar8x32_epi32 wide.set1_epi32 lane_from_lanes)
  ultimately show ?thesis
    using i u by (simp add: avx_at_def Let_def wide.cvt_si32 low_byte wide.permutexvar_epi8 wide.set1_epi8)
qed

lemma avx_reduce_least: "v_store I (avx_min_reduce_epu8 I J l) ! 0 = least_lru (v_store J l)"
proof -
  have "least_lru (map2 min (take 16 (v_store J l)) (drop 16 (v_store J l))) = least_lru (v_store J l)"
    by (subst least_lru_halves [where n = 16]) simp_all
  then show ?thesis
    by (simp only: avx_min_reduce_epu8_def Let_def minpos_least) (simp add: min_epu8 mm256_castsi256_si128 mm256_extracti128_si256)
qed

lemma avx_mins:
  "avx_mask_min_lru B I J l = slots_word 32 0 Align_right (\<lambda>i. v_store J l ! i = least_lru (v_store J l))"
  "avx_min_lru B I J l = (least_lru (v_store J l), mk_next avx_mask_type (avx_mask_min_lru B I J l))"
proof -
  have r: "avx_min_lru B I J l = (ucast (v_cvt_si32 I (avx_min_reduce_epu8 I J l)), mk_next avx_mask_type (avx_mask_min_lru B I J l))"
    by (simp add: avx_min_lru_def avx_mask_min_lru_def avx_min_reduce_epu8_def Let_def)
  show "avx_mask_min_lru B I J l = slots_word 32 0 Align_right (\<lambda>i. v_store J l ! i = least_lru (v_store J l))"
    by (simp add: avx_mask_min_lru_def avx_equal_masks mm256_broadcastb_epi8 avx_reduce_least)
  show "avx_min_lru B I J l = (least_lru (v_store J l), mk_next avx_mask_type (avx_mask_min_lru B I J l))"
    unfolding r by (simp add: cvt_si32 low_byte avx_reduce_least)
qed

lemma avx_halve: "v_store J (v_and J (v_srli_epi32 J l 1) (v_set1_epi8 J 0x7f)) = map (drop_bit 1) (v_store J l)"
  by (rule nth_equalityI) (simp_all add: wide.v_and wide.srli_epi32 wide.set1_epi8 each_lane_halves [where 'w = 32] length_each_lane)

lemma byte_push_ff: "p < 8 \<Longrightarrow> q < 8 \<Longrightarrow> byte_of (push_bit (q * 8) 0xff :: u64) p = (if p = q then 0xff else 0)"
proof -
  assume "p < 8" "q < 8"
  have m: "(0xff :: u64) = mask 8" "(0xff :: u8) = - 1" by (simp_all add: mask_eq_exp_minus_1)
  have "q * 8 \<le> 8 * p + n \<and> 8 * p + n - q * 8 < 8 \<longleftrightarrow> p = q" if "n < 8" for n
    using that by (cases p q rule: linorder_cases) auto
  then show ?thesis
    unfolding m using \<open>p < 8\<close> by (intro bit_word_eqI) (auto simp: bit_byte_of bit_push_bit_iff bit_mask_iff)
qed

lemma avx_inc:
  assumes i: "i < 32"
  shows "v_store J (v_add_epi8 J l (v_and J (mm256_cvtepi8_epi64 J (mm_cvtsi64_si128 I (push_bit (i div 8 * 8) 0xff)))
      (v_set1_epi64x J (push_bit (i mod 8 * 8) 0x01))))
    = map (\<lambda>j. v_store J l ! j + of_bool (j = i)) [0..<32]" (is "v_store J ?r = _")
proof (rule nth_equalityI)
  fix j assume "j < length (v_store J ?r)"
  then have j: "j < 32" by simp
  have q: "i div 8 < 4" "j div 8 < 4" using i j by (simp_all add: div_less_iff_less_mult)
  have e: "j = i \<longleftrightarrow> j div 8 = i div 8 \<and> j mod 8 = i mod 8" by (metis div_mult_mod_eq)
  have s: "byte_of (scast (if b then 0xff else 0 :: u8) :: u64) k = (if b then 0xff else 0)" if "k < 8" for b k
  proof -
    have "(scast (0xff :: u8) :: u64) = - 1" "(0xff :: u8) = - 1" by simp_all
    moreover have "byte_of (- 1 :: u64) k = - 1" using that by (intro bit_word_eqI) (simp add: bit_byte_of)
    ultimately show ?thesis by (cases b) (simp_all only: if_True if_False, simp_all add: byte_of_0)
  qed
  have "v_store J (mm256_cvtepi8_epi64 J (mm_cvtsi64_si128 I (push_bit (i div 8 * 8) 0xff))) ! j = (if j div 8 = i div 8 then 0xff else 0)"
    using j q by (simp add: mm256_cvtepi8_epi64 mm_cvtsi64_si128 nth_append byte_push_ff s)
  then show "v_store J ?r ! j = map (\<lambda>j. v_store J l ! j + of_bool (j = i)) [0..<32] ! j"
    using j by (auto simp: wide.add_epi8 wide.v_and wide.set1_epi64x byte_exp all_ones e)
qed simp

lemma avx_update:
  assumes ok: "uint_mask_ok 32 0 Align_right m" and ne: "uint_mask_slots 32 0 Align_right m \<noteq> {}"
  shows "v_store J (avx_update_lru B I J l m) = bump_lru (v_store J l) (Min (uint_mask_slots 32 0 Align_right m))"
proof -
  let ?i = "Min (uint_mask_slots 32 0 Align_right m)" and ?t = "mk_truncate avx_mask_type m"
  have t: "bit ?t j \<longleftrightarrow> j = ?i" for j using truncate_slot [OF _ ok ne] by simp
  have "?i \<in> uint_mask_slots 32 0 Align_right m" by (rule Min_in [OF _ ne]) (simp add: uint_mask_slots_def)
  then have i: "?i < 32" by (simp add: uint_mask_slots_def)
  have single: "?t = slots_word 32 0 Align_right (\<lambda>j. j = ?i)"
    by (rule bit_word_eqI) (use i in \<open>auto simp: t slots_word_right bit_array_mask_loop\<close>)
  have nxt: "mk_next avx_mask_type ?t = ?i" unfolding single by (rule next_single) (use i in simp_all)
  have top: "mk_has_next avx_mask_type (avx_mask B J l max_lru AND ?t) \<longleftrightarrow> v_store J l ! ?i = max_lru"
    using i by (auto simp: has_next_bit bit_and_iff t avx_state_masks slots_word_right bit_array_mask_loop)
  have add: "v_store J (if with_avx_bwvl B then v_mask_add_epi8 J x ?t x (v_set1_epi8 J 1)
      else v_add_epi8 J x (v_and J (mm256_cvtepi8_epi64 J (mm_cvtsi64_si128 I (push_bit (?i div 8 * 8) 0xff)))
        (v_set1_epi64x J (push_bit (?i mod 8 * 8) 0x01))))
    = map (\<lambda>j. v_store J x ! j + of_bool (j = ?i)) [0..<32]" for x
    using avx_inc [OF i, of x] by (simp add: wide.mask_add_epi8 t wide.set1_epi8)
  show ?thesis
    unfolding avx_update_lru_def Let_def nxt top add
    by (rule nth_equalityI) (use i in \<open>auto simp: bump_lru_def avx_halve [unfolded One_nat_def] nth_list_update\<close>)
qed

lemma avx_array_like:
  "vector_kernel avx_mask_type (uint_mask_ok 32 0 Align_right) (uint_mask_slots 32 0 Align_right) 32
    (slots_word 32 0 Align_right) (avx_kernel B I J)"
proof (intro vector_kernel.intro vector_kernel_axioms.intro)
  show "array_mask avx_mask_type (uint_mask_ok 32 0 Align_right) (uint_mask_slots 32 0 Align_right) 32 (slots_word 32 0 Align_right)"
    by (rule uint_vector) simp_all
  show "mk_at avx_mask_type m i \<longleftrightarrow> i \<in> uint_mask_slots 32 0 Align_right m" if "i < 32" for m i
    by (rule uint_vector(2)) (use that in simp_all)
  show "fold (\<lambda>i m. if p i then mk_join avx_mask_type m (mk_single avx_mask_type i) else m) [0..<32] (mk_empty avx_mask_type)
      = slots_word 32 0 Align_right p" for p
    by (rule uint_vector(3)) simp_all
  show "kn_store (avx_kernel B I J) (kn_to_empty (avx_kernel B I J) k m)
      = map (\<lambda>i. if i \<in> uint_mask_slots 32 0 Align_right m then empty_state else kn_store (avx_kernel B I J) k ! i) [0..<32]" for k m
    by (simp add: avx_kernel_def avx_to_empty_slots uint_mask_slots_def)
qed (simp_all add: avx_kernel_def has_next_nonzero wide.load_store wide.store_load avx_state_masks avx_masks avx_equal_masks
    avx_mins avx_lru_below avx_states avx_to_empty_lru avx_at_byte avx_update)

end

section \<open>avx512_kernel is the array kernel of 64 slots\<close>

context avx512_intrinsics
begin

lemma avx512_masks:
  "v_movepi8_mask L k = slots_word 64 0 Align_right (\<lambda>i. is_not_hash (v_store L k ! i))"
  "avx512_mask_hash L k = slots_word 64 0 Align_right (\<lambda>i. is_hash (v_store L k ! i))"
  "v_cmpeq_epi8_mask L k k' = slots_word 64 0 Align_right (\<lambda>i. v_store L k ! i = v_store L k' ! i)"
  "v_cmpneq_epi8_mask L k k' = slots_word 64 0 Align_right (\<lambda>i. v_store L k ! i \<noteq> v_store L k' ! i)"
  "avx512_mask_lru_below L k t = slots_word 64 0 Align_right (\<lambda>i. v_store L k ! i < t)"
  by (rule bit_word_eqI; auto simp: avx512_mask_hash_def avx512_mask_lru_below_def slots_word_right bit_array_mask_loop is_hash_iff_bit
      zmm.movepi8_mask zmm.cmpeq_epi8_mask zmm.cmpneq_epi8_mask zmm.cmplt_epu8_mask zmm.set1_epi8 bit_not_iff)+

lemma avx512_state_masks:
  "avx512_mask L k s = slots_word 64 0 Align_right (\<lambda>i. v_store L k ! i = s)"
  "avx512_mask_not L k s = slots_word 64 0 Align_right (\<lambda>i. v_store L k ! i \<noteq> s)"
  by (simp_all add: avx512_mask_def avx512_mask_not_def avx512_masks zmm.set1_epi8)

lemma avx512_at_byte:
  assumes i: "i < 64"
  shows "avx512_at B L k i = v_store L k ! i"
proof -
  have u: "unat (of_nat i :: u8) = i" and u': "unat (of_nat (i div 4) :: 32 word) = i div 4" using i by (simp_all add: unat_of_nat)
  have q: "i div 4 < 16" using i by (simp add: div_less_iff_less_mult)
  have "ucast (signed_drop_bit (i mod 4 * 8) (lane 4 (v_store L k) (i div 4) :: 32 word)) = v_store L k ! i"
    using i byte_lane [of 4 "i mod 4" "i div 4" "v_store L k", where 'w = 32] by (simp add: wide_byte)
  moreover have "lane 4 (v_store L (mm512_permutexvar_epi32 L (v_set1_epi32 L (of_nat (i div 4))) k)) 0
      = (lane 4 (v_store L k) (i div 4) :: 32 word)"
    using q u' by (simp add: mm512_permutexvar_epi32 zmm.set1_epi32 lane_from_lanes)
  ultimately show ?thesis
    using i u by (simp add: avx512_at_def Let_def zmm.cvt_si32 low_byte zmm.permutexvar_epi8 zmm.set1_epi8)
qed

lemma avx512_reduce_least: "v_store I (avx512_min_reduce_epu8 I J L l) ! 0 = least_lru (v_store L l)"
proof -
  let ?h = "v_min_epu8 J (mm512_castsi512_si256 L l) (mm512_extracti64x4_epi64 L l 1)"
  have "least_lru (map2 min (take 32 (v_store L l)) (drop 32 (v_store L l))) = least_lru (v_store L l)"
    by (subst least_lru_halves [where n = 32]) simp_all
  then have "least_lru (v_store J ?h) = least_lru (v_store L l)"
    by (simp add: wide.min_epu8 mm512_castsi512_si256 mm512_extracti64x4_epi64)
  then show ?thesis using avx_reduce_least [of ?h] by (simp add: avx512_min_reduce_epu8_def avx_min_reduce_epu8_def Let_def)
qed

lemma avx512_mins:
  "avx512_mask_min_lru I J L l = slots_word 64 0 Align_right (\<lambda>i. v_store L l ! i = least_lru (v_store L l))"
  "avx512_min_lru I J L l = (least_lru (v_store L l), mk_next avx512_mask_type (avx512_mask_min_lru I J L l))"
  by (simp_all add: avx512_mask_min_lru_def avx512_min_lru_def Let_def avx512_masks mm512_broadcastb_epi8 avx512_reduce_least cvt_si32 low_byte)

lemma avx512_halve: "v_store L (v_and L (v_srli_epi32 L l 1) (v_set1_epi8 L 0x7f)) = map (drop_bit 1) (v_store L l)"
  by (rule nth_equalityI) (simp_all add: zmm.v_and zmm.srli_epi32 zmm.set1_epi8 each_lane_halves [where 'w = 32] length_each_lane)

lemma avx512_update:
  assumes ok: "uint_mask_ok 64 0 Align_right m" and ne: "uint_mask_slots 64 0 Align_right m \<noteq> {}"
  shows "v_store L (avx512_update_lru L l m) = bump_lru (v_store L l) (Min (uint_mask_slots 64 0 Align_right m))"
proof -
  let ?i = "Min (uint_mask_slots 64 0 Align_right m)" and ?t = "mk_truncate avx512_mask_type m"
  have t: "bit ?t j \<longleftrightarrow> j = ?i" for j using truncate_slot [OF _ ok ne] by simp
  have "?i \<in> uint_mask_slots 64 0 Align_right m" by (rule Min_in [OF _ ne]) (simp add: uint_mask_slots_def)
  then have i: "?i < 64" by (simp add: uint_mask_slots_def)
  have top: "mk_has_next avx512_mask_type (avx512_mask L l max_lru AND ?t) \<longleftrightarrow> v_store L l ! ?i = max_lru"
    using i by (auto simp: has_next_bit bit_and_iff t avx512_state_masks slots_word_right bit_array_mask_loop)
  show ?thesis
    unfolding avx512_update_lru_def Let_def top
    by (rule nth_equalityI)
      (use i in \<open>auto simp: bump_lru_def avx512_halve [unfolded One_nat_def] nth_list_update zmm.mask_add_epi8 t zmm.set1_epi8\<close>)
qed

lemma avx512_array_like:
  "vector_kernel avx512_mask_type (uint_mask_ok 64 0 Align_right) (uint_mask_slots 64 0 Align_right) 64
    (slots_word 64 0 Align_right) (avx512_kernel B I J L)"
proof (intro vector_kernel.intro vector_kernel_axioms.intro)
  show "array_mask avx512_mask_type (uint_mask_ok 64 0 Align_right) (uint_mask_slots 64 0 Align_right) 64 (slots_word 64 0 Align_right)"
    by (rule uint_vector) simp_all
  show "mk_at avx512_mask_type m i \<longleftrightarrow> i \<in> uint_mask_slots 64 0 Align_right m" if "i < 64" for m i
    by (rule uint_vector(2)) (use that in simp_all)
  show "fold (\<lambda>i m. if p i then mk_join avx512_mask_type m (mk_single avx512_mask_type i) else m) [0..<64] (mk_empty avx512_mask_type)
      = slots_word 64 0 Align_right p" for p
    by (rule uint_vector(3)) simp_all
  show "kn_store (avx512_kernel B I J L) (kn_to_empty (avx512_kernel B I J L) k m)
      = map (\<lambda>i. if i \<in> uint_mask_slots 64 0 Align_right m then empty_state else kn_store (avx512_kernel B I J L) k ! i) [0..<64]" for k m
    by (simp add: avx512_kernel_def zmm.mask_set1_epi8 uint_mask_slots_def)
  show "kn_store (avx512_kernel B I J L) (kn_to_empty_if_lru_below (avx512_kernel B I J L) k l t)
      = map (\<lambda>i. if kn_store (avx512_kernel B I J L) l ! i < t then empty_state else kn_store (avx512_kernel B I J L) k ! i) [0..<64]" for k l t
    by (simp add: avx512_kernel_def zmm.mask_set1_epi8 avx512_masks slots_word_right bit_array_mask_loop)
  show "kn_store (avx512_kernel B I J L) (kn_hash_to_tombstone (avx512_kernel B I J L) k)
      = map (\<lambda>x. if sint tombstone_state < sint x then tombstone_state else x) (kn_store (avx512_kernel B I J L) k)" for k
    by (rule nth_equalityI) (simp_all add: avx512_kernel_def zmm.min_epi8 zmm.set1_epi8)
  show "kn_store (avx512_kernel B I J L) (kn_not_hash_to_empty (avx512_kernel B I J L) k)
      = map (\<lambda>x. min x empty_state) (kn_store (avx512_kernel B I J L) k)" for k
    by (rule nth_equalityI) (simp_all add: avx512_kernel_def zmm.min_epu8 zmm.set1_epi8)
qed (simp_all add: avx512_kernel_def has_next_nonzero zmm.load_store zmm.store_load avx512_masks avx512_state_masks avx512_mins
    avx512_at_byte avx512_update)

end

end
