(* ===== verification/SimdReference.thy ===== *)
theory SimdReference
  imports AvxKernel
begin

text \<open>
  The documented behaviour of the intrinsics can be had: each computed on the bytes of a word as wide as the
  register. The kernels are instantiated with these functions where a concrete one is needed.
\<close>

definition on_bytes :: "(u8 \<Rightarrow> u8) \<Rightarrow> 'r::len word \<Rightarrow> 'r word" where
  "on_bytes f x = load_bytes (map f (store_bytes x))"

definition on_bytes2 :: "(u8 \<Rightarrow> u8 \<Rightarrow> u8) \<Rightarrow> 'r::len word \<Rightarrow> 'r word \<Rightarrow> 'r word" where
  "on_bytes2 f x y = load_bytes (map2 f (store_bytes x) (store_bytes y))"

definition from_index :: "(nat \<Rightarrow> u8) \<Rightarrow> 'r::len word" where
  "from_index f = load_bytes (map f [0..<n_bytes TYPE('r)])"

definition ref_vec :: "('r::len word, 'm::len word) vec_ops" where
  "ref_vec = (let n = n_bytes TYPE('r) in \<lparr>
     v_load = load_bytes,
     v_store = store_bytes,
     v_set1_epi8 = (\<lambda>b. from_index (\<lambda>_. b)),
     v_set1_epi32 = (\<lambda>w. load_bytes (from_lanes (replicate (n div 4) w))),
     v_min_epi8 = on_bytes2 (\<lambda>a b. if sint b < sint a then b else a),
     v_min_epu8 = on_bytes2 min,
     v_and = (AND),
     v_srli_epi32 = (\<lambda>x k. load_bytes (each_lane 4 (drop_bit k :: 32 word \<Rightarrow> 32 word) (store_bytes x))),
     v_cvt_si32 = (\<lambda>x. lane 4 (store_bytes x) 0),
     v_movepi8_mask = (\<lambda>x. array_mask_loop n (\<lambda>i. bit (byte_of x i) 7)),
     v_cmpeq_epi8_mask = (\<lambda>x y. array_mask_loop n (\<lambda>i. byte_of x i = byte_of y i)),
     v_cmpneq_epi8_mask = (\<lambda>x y. array_mask_loop n (\<lambda>i. byte_of x i \<noteq> byte_of y i)),
     v_cmplt_epu8_mask = (\<lambda>x y. array_mask_loop n (\<lambda>i. byte_of x i < byte_of y i)),
     v_mask_set1_epi8 = (\<lambda>x m b. from_index (\<lambda>i. if bit m i then b else byte_of x i)),
     v_mask_add_epi8 = (\<lambda>src m x y. from_index (\<lambda>i. if bit m i then byte_of x i + byte_of y i else byte_of src i)),
     v_permutexvar_epi8 = (\<lambda>idx x. from_index (\<lambda>i. byte_of x (unat (byte_of idx i) mod n)))\<rparr>)"

definition ref_avx :: "('r::len word, 'm::len word) avx_ops" where
  "ref_avx = (let n = n_bytes TYPE('r) in vec_ops.extend ref_vec (avx_ops.fields
     0
     (\<lambda>w. load_bytes (from_lanes (replicate (n div 8) w)))
     (XOR)
     (on_bytes2 (\<lambda>a b. if a = b then 0xff else 0))
     (on_bytes2 (\<lambda>a b. if sint b < sint a then 0xff else 0))
     (on_bytes2 (+))
     (on_bytes2 (\<lambda>a b. if sint b < 0 then - a else if b = 0 then 0 else a))
     (\<lambda>x y m. from_index (\<lambda>i. if bit (byte_of m i) 7 then byte_of y i else byte_of x i))
     (\<lambda>x. array_mask_loop n (\<lambda>i. bit (byte_of x i) 7))
     (\<lambda>x y. from_index (\<lambda>i. byte_of (if even i then x else y) (16 * (i div 16) + i mod 16 div 2)))))"

definition ref_sse :: "128 word sse_ops" where
  "ref_sse = avx_ops.extend ref_avx (sse_ops.fields
     (OR)
     (\<lambda>x y. NOT x AND y)
     (on_bytes2 (\<lambda>a b. if sint a < sint b then 0xff else 0))
     (\<lambda>v. load_bytes (from_lanes (replicate 8 v)))
     (\<lambda>x k. from_index (\<lambda>i. if i + k < 16 then byte_of x (i + k) else 0))
     (\<lambda>x k. load_bytes (each_lane 8 (drop_bit k :: u64 \<Rightarrow> u64) (store_bytes x)))
     (\<lambda>x y. load_bytes (take 8 (store_bytes x) @ take 8 (store_bytes y)))
     (\<lambda>x. load_bytes (let ws = map (lane 2 (store_bytes x)) [0..<8] :: 16 word list; v = Min (set ws)
       in from_lanes (v # of_nat (length (takeWhile (\<lambda>w. w \<noteq> v) ws)) # replicate 6 0)))
     (\<lambda>x. lane 8 (store_bytes x) 0)
     (\<lambda>w. load_bytes (store_bytes w @ replicate 8 0))
     (\<lambda>x w k. load_bytes (if k = 0 then store_bytes w @ drop 8 (store_bytes x) else take 8 (store_bytes x) @ store_bytes w))
     (\<lambda>x idx. from_index (\<lambda>i. let s = byte_of idx i in if bit s 7 then 0 else byte_of x (unat s mod 16)))
     (\<lambda>x. from_index (\<lambda>_. byte_of x 0)))"

definition ref_avx2 :: "(128 word, 256 word) avx2_ops" where
  "ref_avx2 = avx_ops.extend ref_avx (avx2_ops.fields
     (\<lambda>y. load_bytes (take 16 (store_bytes y)))
     (\<lambda>y k. load_bytes (if k = 0 then take 16 (store_bytes y) else drop 16 (store_bytes y)))
     (\<lambda>y ks. from_index (\<lambda>i. store_bytes y ! (8 * (ks ! (i div 8)) + i mod 8)))
     (\<lambda>y idx. load_bytes (from_lanes (map (\<lambda>i. lane 4 (store_bytes y) (unat (lane 4 (store_bytes idx) i :: 32 word) mod 8) :: 32 word) [0..<8])))
     (\<lambda>x. load_bytes (from_lanes (map (\<lambda>i. scast (store_bytes x ! i) :: u64) [0..<4])))
     (\<lambda>x. from_index (\<lambda>_. byte_of x 0)))"

definition ref_avx512 :: "(128 word, 256 word, 512 word) avx512_ops" where
  "ref_avx512 = vec_ops.extend ref_vec (avx512_ops.fields
     (\<lambda>z. load_bytes (take 32 (store_bytes z)))
     (\<lambda>z k. load_bytes (if k = 0 then take 32 (store_bytes z) else drop 32 (store_bytes z)))
     (\<lambda>idx z. load_bytes (from_lanes (map (\<lambda>i. lane 4 (store_bytes z) (unat (lane 4 (store_bytes idx) i :: 32 word) mod 16) :: 32 word) [0..<16])))
     (\<lambda>x. from_index (\<lambda>_. byte_of x 0)))"

lemma ref_store_load: "length bs = n_bytes TYPE('r) \<Longrightarrow> store_bytes (load_bytes bs :: 'r::len word) = bs"
  by (rule nth_equalityI) (simp_all add: byte_load_bytes n_bytes_def)

lemma ref_load_store: "whole_bytes TYPE('r) \<Longrightarrow> load_bytes (store_bytes x) = (x :: 'r::len word)"
  by (rule word_eq_bytesI) (simp_all add: byte_load_bytes n_bytes_def)

lemma store_on_bytes:
  "store_bytes (on_bytes f (x :: 'r::len word)) = map f (store_bytes x)"
  "store_bytes (on_bytes2 g (x :: 'r::len word) y) = map2 g (store_bytes x) (store_bytes y)"
  "store_bytes (from_index h :: 'r::len word) = map h [0..<n_bytes TYPE('r)]"
  by (simp_all add: on_bytes_def on_bytes2_def from_index_def ref_store_load)

lemma ref_sizes [simp]: "n_bytes TYPE(128) = 16" "n_bytes TYPE(256) = 32" "n_bytes TYPE(512) = 64"
  by (simp_all add: n_bytes_def)

lemma ref_bitwise:
  "store_bytes (x AND y) = map2 (AND) (store_bytes x) (store_bytes y)" "store_bytes (x XOR y) = map2 (XOR) (store_bytes x) (store_bytes y)"
  "store_bytes (x OR y) = map2 (OR) (store_bytes x) (store_bytes y)" for x y :: "'r::len word"
  by (rule nth_equalityI; simp add: byte_of_and byte_of_xor byte_of_or)+

lemma ref_setzero: "store_bytes (0 :: 'r::len word) = replicate (n_bytes TYPE('r)) 0"
  by (rule nth_equalityI) (simp_all add: byte_of_0)

lemma ref_vec_ok:
  fixes V :: "('r::len word, 'm::len word, 'e) vec_ops_scheme"
  assumes "vec_ops.truncate V = ref_vec" and "n = n_bytes TYPE('r)" and "n \<in> {16, 32, 64}" and "n \<le> LENGTH('m)" and "whole_bytes TYPE('r)"
  shows "vec_intrinsics V n"
proof -
  have d: "4 dvd n" using assms(3) by auto
  note sel = assms(1) [unfolded vec_ops.defs ref_vec_def Let_def vec_ops.ext_inject, folded assms(2)]
  show ?thesis
    unfolding vec_intrinsics_def
    using assms(2-) d sel by (auto simp: store_on_bytes ref_store_load ref_load_store ref_bitwise length_each_lane bit_array_mask_loop
      map_replicate_const)
qed

lemma unpack_less: "i < n \<Longrightarrow> 16 * (i div 16) + i mod 16 div 2 < (n :: nat)"
  using mult_div_mod_eq [of 16 i] div_le_dividend [of "i mod 16" 2] by linarith

lemma ref_avx_ok:
  fixes V :: "('r::len word, 'm::len word, 'e) avx_ops_scheme"
  assumes "avx_ops.truncate V = ref_avx" and "n = n_bytes TYPE('r)" and "n \<in> {16, 32}" and "n \<le> LENGTH('m)" and "whole_bytes TYPE('r)"
  shows "avx_intrinsics V n"
proof -
  have d: "8 dvd n" using assms(3) by auto
  have v: "vec_ops.truncate V = ref_vec" and s: "v_store V = store_bytes"
    and sel: "v_setzero V = 0 \<and> v_set1_epi64x V = (\<lambda>w. load_bytes (from_lanes (replicate (n div 8) w))) \<and> v_xor V = (XOR)
      \<and> v_cmpeq_epi8 V = on_bytes2 (\<lambda>a b. if a = b then 0xff else 0)
      \<and> v_cmpgt_epi8 V = on_bytes2 (\<lambda>a b. if sint b < sint a then 0xff else 0)
      \<and> v_add_epi8 V = on_bytes2 (+)
      \<and> v_sign_epi8 V = on_bytes2 (\<lambda>a b. if sint b < 0 then - a else if b = 0 then 0 else a)
      \<and> v_blendv_epi8 V = (\<lambda>x y m. from_index (\<lambda>i. if bit (byte_of m i) 7 then byte_of y i else byte_of x i))
      \<and> v_movemask_epi8 V = (\<lambda>x. array_mask_loop n (\<lambda>i. bit (byte_of x i) 7))
      \<and> v_unpacklo_epi8 V = (\<lambda>x y. from_index (\<lambda>i. byte_of (if even i then x else y) (16 * (i div 16) + i mod 16 div 2)))"
    using assms(1,2) by (auto simp: avx_ops.defs vec_ops.defs ref_avx_def ref_vec_def Let_def)
  have "vec_intrinsics V n" by (rule ref_vec_ok [OF v]) (use assms in auto)
  then show ?thesis
    unfolding avx_intrinsics_def avx_intrinsics_axioms_def
    using assms(2-) d s sel by (auto simp: store_on_bytes ref_store_load ref_bitwise ref_setzero bit_array_mask_loop unpack_less)
qed

lemma ref_not: "whole_bytes TYPE('r) \<Longrightarrow> store_bytes (NOT x) = map NOT (store_bytes x)" for x :: "'r::len word"
  by (rule nth_equalityI) (simp_all add: byte_of_not)

lemma map2_map1: "map2 f (map g xs) ys = map2 (\<lambda>a. f (g a)) xs ys"
  by (rule nth_equalityI) simp_all

lemma ref_truncate:
  "avx_ops.truncate ref_sse = ref_avx" "avx_ops.truncate ref_avx2 = ref_avx" "vec_ops.truncate ref_avx512 = ref_vec"
  by (simp_all add: ref_sse_def ref_avx2_def ref_avx512_def avx_ops.defs vec_ops.defs)

lemma ref_store [simp]: "v_store ref_vec = store_bytes" "v_store ref_avx = store_bytes"
  "v_store ref_sse = store_bytes" "v_store ref_avx2 = store_bytes" "v_store ref_avx512 = store_bytes"
  by (simp_all add: ref_sse_def ref_avx2_def ref_avx512_def ref_avx_def ref_vec_def avx_ops.defs vec_ops.defs Let_def)

interpretation ref: avx512_intrinsics ref_sse ref_avx2 ref_avx512
proof (intro avx512_intrinsics.intro avx2_intrinsics.intro sse_intrinsics.intro)
  show "avx_intrinsics ref_sse 16" and "avx_intrinsics ref_avx2 32"
    by (rule ref_avx_ok [OF ref_truncate(1)] ref_avx_ok [OF ref_truncate(2)]; simp)+
  show "vec_intrinsics ref_avx512 64" by (rule ref_vec_ok [OF ref_truncate(3)]) simp_all
  show "sse_intrinsics_axioms ref_sse"
    by (rule sse_intrinsics_axioms.intro)
      (simp_all add: ref_sse_def avx_ops.defs sse_ops.defs ref_store_load store_on_bytes ref_bitwise length_each_lane Let_def ref_not map2_map1
        map_replicate_const)
  show "avx2_intrinsics_axioms ref_sse ref_avx2"
    by (rule avx2_intrinsics_axioms.intro)
      (simp_all add: ref_avx2_def avx_ops.defs avx2_ops.defs ref_store_load store_on_bytes map_replicate_const)
  show "avx512_intrinsics_axioms ref_sse ref_avx2 ref_avx512"
    by (rule avx512_intrinsics_axioms.intro)
      (simp_all add: ref_avx512_def vec_ops.defs avx512_ops.defs ref_store_load store_on_bytes map_replicate_const)
qed

end
