(* ===== verification/NeonReference.thy ===== *)
theory NeonReference
  imports Neon32 Neon64 SimdReference
begin

text \<open>The NEON intrinsics computed on the bytes of words of 64 and 128 bits: what the vendor documents can be had.\<close>

definition ref_neon :: "('r::len word) neon_ops" where
  "ref_neon = \<lparr>
     n_ld1 = load_bytes,
     n_st1 = store_bytes,
     n_dup_8 = (\<lambda>b. from_index (\<lambda>_. b)),
     n_ceq = on_bytes2 (\<lambda>a b. if a = b then 0xff else 0),
     n_clt_u8 = on_bytes2 (\<lambda>a b. if a < b then 0xff else 0),
     n_min_s8 = on_bytes2 (\<lambda>a b. if sint b < sint a then b else a),
     n_min_u8 = on_bytes2 min,
     n_minv_s8 = (\<lambda>x. word_of_int (Min (sint ` set (store_bytes x)))),
     n_maxv_s8 = (\<lambda>x. word_of_int (Max (sint ` set (store_bytes x)))),
     n_minv_u8 = (\<lambda>x. Min (set (store_bytes x))),
     n_maxv_u8 = (\<lambda>x. Max (set (store_bytes x))),
     n_addv_s8 = (\<lambda>x. sum_list (store_bytes x)),
     n_bsl = (\<lambda>m x y. from_index (\<lambda>i. byte_of m i AND byte_of x i OR NOT (byte_of m i) AND byte_of y i)),
     n_tst_u8 = on_bytes2 (\<lambda>a b. if a AND b \<noteq> 0 then 0xff else 0),
     n_sub_u8 = on_bytes2 (-),
     n_shl_u8 = on_bytes2 (\<lambda>a b. if sint b < 0 then drop_bit (nat (- sint b)) a else push_bit (nat (sint b)) a),
     n_get_lane_8 = (\<lambda>x i. byte_of x i)\<rparr>"

definition ref_neon_d :: "u64 neon_d_ops" where
  "ref_neon_d = neon_ops.extend ref_neon (neon_d_ops.fields
     (\<lambda>w. w)
     (\<lambda>x k. lane 8 (store_bytes x) k)
     (\<lambda>x y. from_index (\<lambda>_. if lane 8 (store_bytes x) 0 AND lane 8 (store_bytes y) 0 \<noteq> (0 :: u64) then 0xff else 0))
     (\<lambda>x idx. load_bytes (lookup_bytes (store_bytes x) (store_bytes idx))))"

definition ref_neon_q :: "(u64, 128 word) neon_q_ops" where
  "ref_neon_q = neon_ops.extend ref_neon (neon_q_ops.fields
     (on_bytes (\<lambda>a. if 0 \<le> sint a then 0xff else 0))
     (on_bytes (\<lambda>a. if sint a < 0 then 0xff else 0))
     (on_bytes2 (\<lambda>a b. if sint a < sint b then b else a))
     (on_bytes2 max)
     (on_bytes2 (+))
     (AND)
     (OR)
     (\<lambda>x y. load_bytes (pair_sums (store_bytes x @ store_bytes y)))
     (\<lambda>x y. load_bytes (zip_bytes 1 0 (store_bytes x) (store_bytes y)))
     (\<lambda>x y. load_bytes (zip_bytes 2 0 (store_bytes x) (store_bytes y)))
     (\<lambda>x y. load_bytes (zip_bytes 2 8 (store_bytes x) (store_bytes y)))
     (\<lambda>x y. load_bytes (zip_bytes 4 0 (store_bytes x) (store_bytes y)))
     (\<lambda>x y. load_bytes (zip_bytes 4 8 (store_bytes x) (store_bytes y)))
     (\<lambda>w. load_bytes (from_lanes (replicate 4 w)))
     (\<lambda>v. load_bytes (from_lanes (replicate 2 v)))
     (\<lambda>d k. load_bytes (from_lanes (replicate 4 (lane 4 (store_bytes d) k :: 32 word))))
     (\<lambda>x y. load_bytes (from_lanes
       (map (\<lambda>i. if lane 4 (store_bytes x) i AND lane 4 (store_bytes y) i \<noteq> (0 :: 32 word) then - 1 else 0 :: 32 word) [0..<4])))
     (\<lambda>x. Max (set (map (lane 4 (store_bytes x)) [0..<4])))
     (\<lambda>x k. lane 8 (store_bytes x) k)
     (\<lambda>x k. load_bytes (map (\<lambda>i. ucast (drop_bit k (lane 2 (store_bytes x) i :: 16 word))) [0..<8]))
     (\<lambda>d k. load_bytes (from_lanes (map (\<lambda>b. push_bit k (ucast b) :: 16 word) (store_bytes d))))
     (\<lambda>x idx. load_bytes (lookup_bytes (store_bytes x) (store_bytes idx)))
     (\<lambda>(x, y) idx. load_bytes (lookup_bytes (store_bytes x @ store_bytes y) (store_bytes idx)))
     (\<lambda>(x, y, z, u) idx. load_bytes (lookup_bytes (store_bytes x @ store_bytes y @ store_bytes z @ store_bytes u) (store_bytes idx)))
     (\<lambda>bs. (load_bytes (take 16 bs), load_bytes (drop 16 bs)))
     (\<lambda>(x, y). store_bytes x @ store_bytes y)
     (\<lambda>bs. (load_bytes (take 16 bs), load_bytes (take 16 (drop 16 bs)), load_bytes (take 16 (drop 32 bs)), load_bytes (drop 48 bs)))
     (\<lambda>(x, y, z, u). store_bytes x @ store_bytes y @ store_bytes z @ store_bytes u))"

lemma sint_of_member: "x \<in> sint ` set bs \<Longrightarrow> sint (word_of_int x :: u8) = x" for bs :: "u8 list"
  by auto

lemma ref_neon_ok:
  fixes V :: "('r::len word, 'e) neon_ops_scheme"
  assumes "neon_ops.truncate V = ref_neon" and "n = n_bytes TYPE('r)" and "n \<in> {8, 16}" and "whole_bytes TYPE('r)"
  shows "neon_intrinsics V n"
proof -
  note sel = assms(1) [unfolded neon_ops.defs ref_neon_def neon_ops.ext_inject, folded assms(2)]
  have ne: "sint ` set (store_bytes (x :: 'r word)) \<noteq> {}" for x
    using assms(2,3) length_store_bytes [of x] by (metis empty_iff image_is_empty insert_iff list.size(3) set_empty zero_neq_numeral)
  have m: "sint (word_of_int (Min (sint ` set (store_bytes (x :: 'r word)))) :: u8) = Min (sint ` set (store_bytes x))"
    "sint (word_of_int (Max (sint ` set (store_bytes x))) :: u8) = Max (sint ` set (store_bytes x))" for x
    by (rule sint_of_member, rule Min_in Max_in; simp add: ne [simplified])+
  show ?thesis
    unfolding neon_intrinsics_def
    using assms(2-) sel m by (simp add: store_on_bytes ref_store_load ref_load_store map_replicate_const)
qed

lemma ref_neon_truncate: "neon_ops.truncate ref_neon_d = ref_neon" "neon_ops.truncate ref_neon_q = ref_neon"
  by (simp_all add: ref_neon_d_def ref_neon_q_def neon_ops.defs)

lemma ref_neon_store [simp]: "n_st1 ref_neon = store_bytes" "n_st1 ref_neon_d = store_bytes" "n_st1 ref_neon_q = store_bytes"
  "n_ld1 ref_neon = load_bytes" "n_ld1 ref_neon_q = load_bytes"
  by (simp_all add: ref_neon_d_def ref_neon_q_def ref_neon_def neon_ops.defs)

lemma ref_lengths [simp]: "length (lookup_bytes xs idx) = length idx" "length (zip_bytes g off xs ys) = 16"
  by (simp_all add: lookup_bytes_def zip_bytes_def)

interpretation neon_ref: neon_q_intrinsics ref_neon_d ref_neon_q
proof (intro neon_q_intrinsics.intro neon_d_intrinsics.intro)
  show "neon_intrinsics ref_neon_d 8" and "neon_intrinsics ref_neon_q 16"
    by (rule ref_neon_ok [OF ref_neon_truncate(1)] ref_neon_ok [OF ref_neon_truncate(2)]; simp)+
  show "neon_d_intrinsics_axioms ref_neon_d"
    by (rule neon_d_intrinsics_axioms.intro)
      (simp_all add: ref_neon_d_def neon_ops.defs neon_d_ops.defs ref_store_load store_on_bytes map_replicate_const)
  show "neon_q_intrinsics_axioms ref_neon_d ref_neon_q"
    by (rule neon_q_intrinsics_axioms.intro)
      (simp_all add: ref_neon_q_def neon_ops.defs neon_q_ops.defs ref_store_load store_on_bytes ref_bitwise atLeast0LessThan)
qed

end
