(* ===== verification/KernelAgreement.thy ===== *)
theory KernelAgreement
  imports VectorKernel
begin

text \<open>
  When two kernels are the same: \<open>same_kernel K A ok tr\<close> compares every operation of a kernel with that
  of the array kernel. The masks of \<open>K\<close> are well-formed (\<open>ok\<close>) and \<open>tr\<close> takes them to the masks of the
  array kernel, which have one bit per slot. Everything that satisfies \<open>vector_kernel\<close> agrees with
  the array kernel of its size.
\<close>

section \<open>Agreement\<close>

definition same_masks :: "'m mask_ops \<Rightarrow> 'a mask_ops \<Rightarrow> ('m \<Rightarrow> bool) \<Rightarrow> ('m \<Rightarrow> 'a) \<Rightarrow> bool" where
  "same_masks M A ok tr \<longleftrightarrow> mk_max_count M = mk_max_count A
     \<and> (\<forall>m. ok m \<longrightarrow> mk_has_next M m = mk_has_next A (tr m) \<and> mk_count M m = mk_count A (tr m)
         \<and> (\<forall>i < mk_max_count M. mk_at M m i = mk_at A (tr m) i)
         \<and> (mk_has_next M m \<longrightarrow> mk_next M m = mk_next A (tr m) \<and> ok (mk_step M m) \<and> tr (mk_step M m) = mk_step A (tr m)))
     \<and> (\<forall>i < mk_max_count M. ok (mk_single M i) \<and> tr (mk_single M i) = mk_single A i)
     \<and> (\<forall>m j. ok m \<longrightarrow> - 1 \<le> j \<longrightarrow> j < int (mk_max_count M) \<longrightarrow> ok (mk_above M m j) \<and> tr (mk_above M m j) = mk_above A (tr m) j)"

text \<open>
  The mask of the slots with the least stamp is that of all of them, where the array kernel's has the
  first one only; both start with the same slot, which is the one \<open>kn_min_lru\<close> returns.
\<close>

definition same_kernel ::
    "('x, 'x, 'm) kernel_ops \<Rightarrow> (state_t list, lru_t list, 'a) kernel_ops \<Rightarrow> ('m \<Rightarrow> bool) \<Rightarrow> ('m \<Rightarrow> 'a) \<Rightarrow> bool" where
  "same_kernel K A ok tr \<longleftrightarrow> (let st = kn_store K; n = kn_size K; same = (\<lambda>m a. ok m \<and> tr m = a) in
     n = kn_size A \<and> same_masks (kn_mask_ops K) (kn_mask_ops A) ok tr
     \<and> (\<forall>k. length (st k) = n \<and> kn_load K (st k) = k \<and> kn_store_lru K k = st k)
     \<and> (\<forall>xs. length xs = n \<longrightarrow> st (kn_load K xs) = xs \<and> kn_load_lru K xs = kn_load K xs)
     \<and> (\<forall>k s. same (kn_mask K k s) (kn_mask A (st k) s) \<and> same (kn_mask_not K k s) (kn_mask_not A (st k) s))
     \<and> (\<forall>k. same (kn_mask_hash K k) (kn_mask_hash A (st k)) \<and> same (kn_mask_not_hash K k) (kn_mask_not_hash A (st k))
         \<and> same (kn_mask_empty K k) (kn_mask_empty A (st k)) \<and> same (kn_mask_not_empty K k) (kn_mask_not_empty A (st k))
         \<and> same (kn_mask_tombstone K k) (kn_mask_tombstone A (st k))
         \<and> same (kn_mask_not_tombstone K k) (kn_mask_not_tombstone A (st k)))
     \<and> (\<forall>k k'. same (kn_mask_equal K k k') (kn_mask_equal A (st k) (st k'))
         \<and> same (kn_mask_not_equal K k k') (kn_mask_not_equal A (st k) (st k'))
         \<and> kn_count_equal K k k' = kn_count_equal A (st k) (st k') \<and> kn_count_not_equal K k k' = kn_count_not_equal A (st k) (st k'))
     \<and> (\<forall>k. kn_has_hash K k = kn_has_hash A (st k) \<and> kn_has_not_hash K k = kn_has_not_hash A (st k)
         \<and> kn_has_empty K k = kn_has_empty A (st k) \<and> kn_has_not_empty K k = kn_has_not_empty A (st k)
         \<and> kn_has_tombstone K k = kn_has_tombstone A (st k) \<and> kn_has_not_tombstone K k = kn_has_not_tombstone A (st k))
     \<and> (\<forall>k. st (kn_hash_to_tombstone K k) = kn_hash_to_tombstone A (st k)
         \<and> st (kn_not_hash_to_empty K k) = kn_not_hash_to_empty A (st k))
     \<and> (\<forall>k m. ok m \<longrightarrow> st (kn_to_empty K k m) = kn_to_empty A (st k) (tr m))
     \<and> (\<forall>k i. i < n \<longrightarrow> kn_at K k i = kn_at A (st k) i \<and> kn_lru_at K k i = kn_lru_at A (st k) i)
     \<and> (\<forall>l. kn_min_lru K l = kn_min_lru A (st l)
         \<and> same (kn_mask_min_lru K l) (kn_mask A (st l) (fst (kn_min_lru A (st l))))
         \<and> mk_next (kn_mask_ops K) (kn_mask_min_lru K l) = mk_next (kn_mask_ops A) (kn_mask_min_lru A (st l)))
     \<and> (\<forall>l t. same (kn_mask_lru_below K l t) (kn_mask_lru_below A (st l) t))
     \<and> (\<forall>l m. ok m \<longrightarrow> mk_has_next (kn_mask_ops K) m \<longrightarrow> st (kn_update_lru K l m) = kn_update_lru A (st l) (tr m))
     \<and> (\<forall>k l t. st (kn_to_empty_if_lru_below K k l t) = kn_to_empty_if_lru_below A (st k) (st l) t))"

text \<open>The mask with one bit per slot that has the slots of a mask with \<open>2 ^ shift\<close> bits per slot.\<close>

definition one_bit_mask :: "nat \<Rightarrow> nat \<Rightarrow> mask_align \<Rightarrow> 'w::len word \<Rightarrow> 'v::len word" where
  "one_bit_mask n shift align m = array_mask_loop n (\<lambda>i. bit m (slot_bit shift align i))"

section \<open>One-bit masks are determined by their slots\<close>

lemma array_loop_cong: "(\<And>i. i < n \<Longrightarrow> p i = q i) \<Longrightarrow> (array_mask_loop n p :: 'v::len word) = array_mask_loop n q"
  by (rule bit_word_eqI) (auto simp: bit_array_mask_loop)

lemma one_bit_slots:
  assumes "n \<le> LENGTH('v::len)"
  shows "uint_mask_ok n 0 Align_right (array_mask_loop n p :: 'v word)"
    and "uint_mask_slots n 0 Align_right (array_mask_loop n p :: 'v word) = {i. i < n \<and> p i}"
  using assms by (auto simp: uint_mask_ok_def uint_mask_slots_def bit_array_mask_loop)

lemma mask_of_slots:
  assumes "uint_mask_ok n 0 Align_right (a :: 'v::len word)" and "n \<le> LENGTH('v)"
  shows "a = array_mask_loop n (\<lambda>i. i \<in> uint_mask_slots n 0 Align_right a)"
  by (rule bit_word_eqI) (use assms in \<open>auto simp: bit_array_mask_loop uint_mask_ok_def uint_mask_slots_def bits_def\<close>)

lemma one_bit_mask_same: "uint_mask_ok n 0 Align_right (m :: 'w::len word) \<Longrightarrow> n \<le> LENGTH('w) \<Longrightarrow> one_bit_mask n 0 Align_right m = m"
  using mask_of_slots [of n m]
  by (simp add: one_bit_mask_def uint_mask_slots_def cong: array_loop_cong)

lemma one_bit_mask_slots:
  "one_bit_mask n shift align m = array_mask_loop n (\<lambda>i. i \<in> uint_mask_slots n shift align m)"
  by (simp add: one_bit_mask_def uint_mask_slots_def cong: array_loop_cong)

text \<open>A class of masks agrees with the one-bit masks when \<open>tr\<close> keeps the slots.\<close>

lemma same_masks_one_bit:
  fixes tr :: "'m \<Rightarrow> 'v::len word"
  assumes M: "array_mask M ok slots n loop" and len: "n \<le> LENGTH('v)"
    and at: "\<And>m i. ok m \<Longrightarrow> i < n \<Longrightarrow> mk_at M m i \<longleftrightarrow> i \<in> slots m"
    and tr: "\<And>m. ok m \<Longrightarrow> tr m = array_mask_loop n (\<lambda>i. i \<in> slots m)"
  shows "same_masks M (uint_mask n 0 Align_right :: 'v word mask_ops) ok tr"
proof -
  let ?A = "uint_mask n 0 Align_right :: 'v word mask_ops" and ?ok = "uint_mask_ok n 0 Align_right :: 'v word \<Rightarrow> bool"
  let ?sl = "uint_mask_slots n 0 Align_right :: 'v word \<Rightarrow> nat set"
  note L = array_mask.axioms(1) [OF M] and n = array_mask.n_pos [OF M] array_mask.max_count_n [OF M]
  have A: "mask_laws ?A ?ok ?sl" by (rule uint_mask_laws) (use len in simp)
  have nA: "mk_max_count ?A = n" by (simp add: uint_mask_def)
  have okA: "?ok (tr m)" and slA: "?sl (tr m) = slots m" if "ok m" for m
    using one_bit_slots [OF len] mask_laws.slots_bound [OF L that] by (auto simp: tr [OF that] n(2))
  have eqA: "tr m = a" if "ok m" "?ok a" "slots m = ?sl a" for m a
    using mask_of_slots [OF that(2) len] tr [OF that(1)] that(3) by simp
  have hn: "mk_has_next M m = mk_has_next ?A (tr m)" if "ok m" for m
    by (simp add: mask_laws.has_next_iff [OF L that] mask_laws.has_next_iff [OF A okA [OF that]] slA [OF that])
  have cnt: "mk_count M m = mk_count ?A (tr m)" if "ok m" for m
    by (simp add: mask_laws.count_card [OF L that] mask_laws.count_card [OF A okA [OF that]] slA [OF that])
  have ata: "mk_at M m i = mk_at ?A (tr m) i" if "ok m" "i < n" for m i
    using at [OF that] uint_vector(2) [OF n(1) _ that(2), of 0 Align_right "tr m"] len slA [OF that(1)] by simp
  have nx: "mk_next M m = mk_next ?A (tr m) \<and> ok (mk_step M m) \<and> tr (mk_step M m) = mk_step ?A (tr m)"
    if m: "ok m" "mk_has_next M m" for m
  proof -
    have ne: "slots m \<noteq> {}" "?sl (tr m) \<noteq> {}" using m mask_laws.has_next_iff [OF L m(1)] slA [OF m(1)] by simp_all
    have "tr (mk_step M m) = mk_step ?A (tr m)"
      by (rule eqA [OF mask_laws.step_ok [OF L m(1) ne(1)] mask_laws.step_ok [OF A okA [OF m(1)] ne(2)]])
        (simp add: mask_laws.step_slots [OF L m(1) ne(1)] mask_laws.step_slots [OF A okA [OF m(1)] ne(2)] slA [OF m(1)])
    then show ?thesis
      by (simp add: mask_laws.next_slot [OF L m(1) ne(1)] mask_laws.next_slot [OF A okA [OF m(1)] ne(2)] slA [OF m(1)]
          mask_laws.step_ok [OF L m(1) ne(1)])
  qed
  have sg: "ok (mk_single M i) \<and> tr (mk_single M i) = mk_single ?A i" if i: "i < n" for i
  proof -
    have iM: "i < mk_max_count M" "i < mk_max_count ?A" using i n nA by simp_all
    note o = mask_laws.single_ok [OF L iM(1)]
    show ?thesis using o
      by (auto intro!: eqA mask_laws.single_ok [OF A iM(2)] simp: mask_laws.single_slots [OF L iM(1)] mask_laws.single_slots [OF A iM(2)])
  qed
  have ab: "ok (mk_above M m j) \<and> tr (mk_above M m j) = mk_above ?A (tr m) j" if m: "ok m" "- 1 \<le> j" "j < int n" for m j
  proof -
    have j: "j < int (mk_max_count M)" "j < int (mk_max_count ?A)" using m(3) n nA by simp_all
    note o = mask_laws.above_ok [OF L m(1,2) j(1)]
    show ?thesis using o
      by (auto intro!: eqA mask_laws.above_ok [OF A okA [OF m(1)] m(2) j(2)]
          simp: mask_laws.above_slots [OF L m(1,2) j(1)] mask_laws.above_slots [OF A okA [OF m(1)] m(2) j(2)] slA [OF m(1)])
  qed
  show ?thesis unfolding same_masks_def n(2) nA
    by (intro conjI allI impI refl; (rule hn | rule cnt | rule ata | erule (1) nx [THEN conjunct1]
        | erule (1) nx [THEN conjunct2, THEN conjunct1] | erule (1) nx [THEN conjunct2, THEN conjunct2]
        | erule sg [THEN conjunct1] | erule sg [THEN conjunct2] | erule (2) ab [THEN conjunct1] | erule (2) ab [THEN conjunct2]); assumption?)
qed

section \<open>Vector kernels agree with the array kernel\<close>

context vector_kernel
begin

lemma agrees:
  fixes tr :: "'m \<Rightarrow> 'v::len word"
  assumes len: "n \<le> LENGTH('v)" and tr: "\<And>m. ok m \<Longrightarrow> tr m = array_mask_loop n (\<lambda>i. i \<in> slots m)"
  shows "same_kernel K (array_kernel n :: (_, _, 'v word) kernel_ops) ok tr"
proof -
  let ?A = "uint_mask n 0 Align_right :: 'v word mask_ops"
  have len0: "n * 2 ^ 0 \<le> LENGTH('v)" using len by simp
  note masks = same_masks_one_bit [OF array_mask_axioms len at_slot tr]
  have trl: "tr (loop p) = array_mask_loop n p" for p
    by (simp add: tr loop_ok loop_slots cong: array_loop_cong)
  have slA: "uint_mask_slots n 0 Align_right (tr m) = slots m" if "ok m" for m
    using one_bit_slots(2) [OF len] mask_laws.slots_bound [OF mask_facts that] by (auto simp: tr [OF that] max_count_n)
  have at: "mk_at ?A (tr m) i \<longleftrightarrow> i \<in> slots m" if "ok m" "i < n" for m i
    using uint_vector(2) [OF n_pos len0 that(2)] slA [OF that(1)] by simp
  have nxt: "mk_next ?A (tr m) = mk_next M m" if "ok m" "mk_has_next M m" for m
    using masks that by (auto simp: same_masks_def)
  have lru: "kn_store K (kn_update_lru K l m) = array_update_lru (mk_next M m) (kn_store K l)"
    if "ok m" "mk_has_next M m" for l m
  proof -
    have ne: "slots m \<noteq> {}" using mask_laws.has_next_iff [OF mask_facts that(1)] that(2) by simp
    then have "Min (slots m) \<in> slots m"
      using mask_laws.slots_bound [OF mask_facts that(1)] by (intro Min_in) (auto intro: finite_subset)
    then have "Min (slots m) < length (kn_store K l)"
      using mask_laws.slots_bound [OF mask_facts that(1)] by (auto simp: max_count_n K_store(1))
    then show ?thesis
      using K_update [OF that(1) ne] mask_laws.next_slot [OF mask_facts that(1) ne] by (simp add: array_update_lru_bump)
  qed
  have map_nth: "map (\<lambda>i. f (kn_store K k ! i)) [0..<n] = map f (kn_store K k)" for f :: "u8 \<Rightarrow> u8" and k
    by (rule nth_equalityI) (simp_all add: K_store(1))
  have single: "mk_next ?A (mk_single ?A (snd (array_min_lru (kn_store K l)))) = snd (array_min_lru (kn_store K l))" for l
  proof -
    have "snd (array_min_lru (kn_store K l)) < mk_max_count ?A"
      using array_min_lru_first [of "kn_store K l" "fst (array_min_lru (kn_store K l))" "snd (array_min_lru (kn_store K l))"] n_pos
      by (simp add: K_store(1) first_min_def uint_mask_def)
    then show ?thesis
      using mask_laws.next_slot [OF uint_mask_laws [OF len0] mask_laws.single_ok [OF uint_mask_laws [OF len0]]]
        mask_laws.single_slots [OF uint_mask_laws [OF len0]] by simp
  qed
  have least: "fst (array_min_lru (kn_store K l)) = least_lru (kn_store K l)" for l
    using min_lru_array [of l] by (simp add: K_min_lru prod_eq_iff)
  have below: "fold (\<lambda>i m. if p i then mk_join ?A m (mk_single ?A i) else m) [0..<n] (mk_empty ?A) = array_mask_loop n p" for p
    using uint_vector(3) [OF n_pos len0, of p Align_right] slots_word_right [OF len, of p] by simp
  have array_empty: "array_to_empty (mk_at ?A (tr m)) (kn_store K k) = map (\<lambda>i. if i \<in> slots m then empty_state else kn_store K k ! i) [0..<n]"
    if "ok m" for m k
    using at [OF that] by (simp add: array_to_empty_def K_store(1))
  show ?thesis
    unfolding same_kernel_def Let_def array_kernel_def array_kernel_with_def
    by (intro conjI allI impI; simp add: K_size K_mask masks K_store K_lru K_masks K_has loop_ok trl has_next_loop list_ex_length
        single K_count count_loop array_count_card [OF K_store(1)] K_states K_at next_min [unfolded K_masks(11)] min_lru_array lru nxt
        least below array_empty array_hash_to_tombstone_def array_not_hash_to_empty_def Let_def not_hash_to_empty_min
        map_nth [of "\<lambda>x. min x empty_state"] map_nth [of "\<lambda>x. if sint tombstone_state < sint x then tombstone_state else x"]
        array_to_empty_if_lru_below_def)
qed

end

lemmas vector_kernel_agrees = vector_kernel.agrees

end
