(* ===== verification/SimdMap.thy ===== *)
theory SimdMap
  imports MapDemo CacheSpec NeonReference KernelAgreement
begin

text \<open>
  Maps and caches on the vector kernels: the kernels agree with the array kernel of their size, so everything
  proved of maps and caches holds for the builds with SSE, AVX2, AVX-512 and NEON as well. At the end the
  choice of the default kernel.
\<close>

section \<open>The kernels\<close>

text \<open>C20: Whatever instruction sets the build has, every operation of the SSE kernel returns the mask, count, state
  or stamp, and leaves the bytes, that the array kernel of 16 slots gives on the same bucket, bit for bit: the
  vector code, its variants for each level included, is equivalent to the loops over the slots. One mask
  differs: that of the least stamps has every slot with the least stamp, the array kernel's the first of them.\<close>

theorem sse_kernel_refines_array:
  assumes "sse_intrinsics I"
  shows "same_kernel (sse_kernel B I) (array_kernel 16) (uint_mask_ok 16 0 Align_right) (\<lambda>m. m)
    \<and> kn_mask_ops (sse_kernel B I) = kn_mask_ops (array_kernel 16)"
proof
  show "same_kernel (sse_kernel B I) (array_kernel 16) (uint_mask_ok 16 0 Align_right) (\<lambda>m. m)"
    by (rule vector_kernel_agrees [OF sse_intrinsics.sse_array_like [OF assms]]) (simp_all add: mask_of_slots)
  show "kn_mask_ops (sse_kernel B I) = kn_mask_ops (array_kernel 16)"
    by (simp add: vector_kernel.K_mask [OF sse_intrinsics.sse_array_like [OF assms]] array_kernel_def array_kernel_with_def)
qed

definition demo_build :: build where
  "demo_build = \<lparr>with_sse = 2, with_avx = 0, with_avx_bwvl = False, with_avx_vbmi = False, gcc = True\<rparr>"

theorem sse_kernel_refines_array_witness:
  "same_kernel (sse_kernel demo_build ref_sse) (array_kernel 16) (uint_mask_ok 16 0 Align_right) (\<lambda>m. m)"
  by (rule sse_kernel_refines_array [OF ref.sse_intrinsics_axioms, THEN conjunct1])

text \<open>C22: Every operation of the AVX2 and AVX-512 kernels does what the array kernels of 32 and 64 slots do, bit for
  bit, in builds with and without the mask registers and byte permutations of AVX-512; only the mask of the
  least stamps has every slot with the least stamp instead of the first.\<close>

theorem avx_kernels_refine_array:
  assumes "avx512_intrinsics I J L"
  shows "same_kernel (avx_kernel B I J) (array_kernel 32) (uint_mask_ok 32 0 Align_right) (\<lambda>m. m)
    \<and> same_kernel (avx512_kernel B I J L) (array_kernel 64) (uint_mask_ok 64 0 Align_right) (\<lambda>m. m)"
proof
  have J: "avx2_intrinsics I J" by (rule avx512_intrinsics.axioms(1) [OF assms])
  show "same_kernel (avx_kernel B I J) (array_kernel 32) (uint_mask_ok 32 0 Align_right) (\<lambda>m. m)"
    by (rule vector_kernel_agrees [OF avx2_intrinsics.avx_array_like [OF J]]) (simp_all add: mask_of_slots)
  show "same_kernel (avx512_kernel B I J L) (array_kernel 64) (uint_mask_ok 64 0 Align_right) (\<lambda>m. m)"
    by (rule vector_kernel_agrees [OF avx512_intrinsics.avx512_array_like [OF assms]]) (simp_all add: mask_of_slots)
qed

theorem avx_kernels_refine_array_witness:
  "same_kernel (avx_kernel demo_build ref_sse ref_avx2) (array_kernel 32) (uint_mask_ok 32 0 Align_right) (\<lambda>m. m)
   \<and> same_kernel (avx512_kernel demo_build ref_sse ref_avx2 ref_avx512) (array_kernel 64) (uint_mask_ok 64 0 Align_right) (\<lambda>m. m)"
  by (rule avx_kernels_refine_array [OF ref.avx512_intrinsics_axioms])

text \<open>C21: Every operation of the four NEON kernels does what the array kernels of 8, 16, 32 and 64 slots do. Their
  masks have eight, four, two bits and one bit per slot; read as slots they are the masks of the array
  kernels, but that of the least stamps, which has every slot with the least stamp instead of the first.\<close>

theorem neon_kernels_refine_array:
  assumes "neon_q_intrinsics D Q"
  shows "same_kernel (neon8_kernel D) (array_kernel 8 :: (_, _, 32 word) kernel_ops) (uint_mask_ok 8 3 Align_left) (one_bit_mask 8 3 Align_left)
    \<and> same_kernel (neon16_kernel D Q) (array_kernel 16 :: (_, _, 32 word) kernel_ops) (uint_mask_ok 16 2 Align_right) (one_bit_mask 16 2 Align_right)
    \<and> same_kernel (neon32_kernel Q) (array_kernel 32 :: (_, _, 32 word) kernel_ops) (uint_mask_ok 32 1 Align_right) (one_bit_mask 32 1 Align_right)
    \<and> same_kernel (neon64_kernel D Q) (array_kernel 64) (uint_mask_ok 64 0 Align_right) (\<lambda>m. m)"
proof (intro conjI)
  have D: "neon_d_intrinsics D" using assms by (simp add: neon_q_intrinsics_def)
  show "same_kernel (neon8_kernel D) (array_kernel 8 :: (_, _, 32 word) kernel_ops) (uint_mask_ok 8 3 Align_left) (one_bit_mask 8 3 Align_left)"
    by (rule vector_kernel_agrees [OF neon_d_intrinsics.neon8_array_like [OF D]]) (simp_all add: one_bit_mask_slots)
  show "same_kernel (neon16_kernel D Q) (array_kernel 16 :: (_, _, 32 word) kernel_ops) (uint_mask_ok 16 2 Align_right) (one_bit_mask 16 2 Align_right)"
    by (rule vector_kernel_agrees [OF neon_q_intrinsics.neon16_array_like [OF assms]]) (simp_all add: one_bit_mask_slots)
  show "same_kernel (neon32_kernel Q) (array_kernel 32 :: (_, _, 32 word) kernel_ops) (uint_mask_ok 32 1 Align_right) (one_bit_mask 32 1 Align_right)"
    by (rule vector_kernel_agrees [OF neon_q_intrinsics.neon32_array_like [OF assms]]) (simp_all add: one_bit_mask_slots)
  show "same_kernel (neon64_kernel D Q) (array_kernel 64) (uint_mask_ok 64 0 Align_right) (\<lambda>m. m)"
    by (rule vector_kernel_agrees [OF neon_q_intrinsics.neon64_array_like [OF assms]]) (simp_all add: mask_of_slots)
qed

theorem neon_kernels_refine_array_witness:
  "same_kernel (neon8_kernel ref_neon_d) (array_kernel 8 :: (_, _, 32 word) kernel_ops) (uint_mask_ok 8 3 Align_left) (one_bit_mask 8 3 Align_left)
    \<and> same_kernel (neon64_kernel ref_neon_d ref_neon_q) (array_kernel 64) (uint_mask_ok 64 0 Align_right) (\<lambda>m. m)"
  using neon_kernels_refine_array [OF neon_ref.neon_q_intrinsics_axioms] by blast

section \<open>Maps and caches\<close>

definition vector_map :: "('x, 'x, 'm) kernel_ops \<Rightarrow> ('k, 'v, 'x, 'x, 'm, probe_seq) map_params \<Rightarrow> ('k, 'v, 'x, 'x, 'm, probe_seq) map_params" where
  "vector_map K P = P\<lparr>pm_kernel := K, pm_seq := default_seq, pm_bounded := False\<rparr>"

lemma vector_map_simps [simp]:
  "ksize (vector_map K P) = kn_size K" "has_duplicates (vector_map K P) = has_duplicates P" "pm_kernel (vector_map K P) = K"
  by (simp_all add: vector_map_def ksize_def has_duplicates_def)

lemma vector_map_laws:
  assumes "vector_kernel M ok slots n loop K" and "n = 2 ^ k" and "k \<le> 6"
  shows "swiss_map (vector_map K P) ok slots" and "swiss_cache (vector_map K P) ok slots" and "kbits (vector_map K P) = k"
    and "ksize (vector_map K P) = 2 ^ k"
proof -
  have K: "swiss_lru_kernel K ok slots" by (rule vector_kernel_laws [OF assms(1)])
  have n: "kn_size K = n" by (rule vector_kernel.K_size [OF assms(1)])
  show s: "ksize (vector_map K P) = 2 ^ k" by (simp add: n assms(2))
  show "swiss_map (vector_map K P) ok slots"
    by (rule swiss_mapI [OF _ _ s assms(3)]) (simp_all add: swiss_lru_kernel.axioms(1) [OF K], simp add: vector_map_def)
  show "swiss_cache (vector_map K P) ok slots" using K ctz_power [of k] assms(3) s by (simp add: swiss_cache_def swiss_cache_axioms_def kbits_def)
  show "kbits (vector_map K P) = k" using ctz_power [of k] assms(3) s by (simp add: kbits_def)
qed

lemma vector_map_run:
  assumes "vector_kernel M ok slots n loop K" and "n = 2 ^ k" and "k \<le> 6" and "1 \<le> k"
    and "map_reach (vector_map K P) cf cs m" and "conf_ok k cf"
  shows "map_inv (vector_map K P) m \<and> spec_run (has_duplicates P) cs {#} (entries m)"
proof -
  note laws = vector_map_laws [OF assms(1-3), of P]
  have "2 \<le> ksize (vector_map K P)" using assms(4) self_le_power [of 2 k] laws(4) by simp
  then show ?thesis
    using swiss_map.map_reach_ok [OF laws(1) assms(5)] assms(3,6) laws(3) by simp
qed

lemma vector_cache_run:
  assumes "vector_kernel M ok slots n loop K" and "n = 2 ^ k" and "k \<le> 6"
    and "cache_reach (vector_map K P) cf cs c" and "conf_ok k cf"
  shows "cache_inv (vector_map K P) c \<and> cache_run (has_duplicates P) cs {#} (cache_entries (vector_map K P) c)"
proof -
  note laws = vector_map_laws [OF assms(1-3), of P]
  show ?thesis using swiss_cache.cache_reach_ok [OF laws(2) assms(4)] assms(3,5) laws(3) by simp
qed

text \<open>The AVX2 and AVX-512 kernels, for buckets of 32 and 64 slots.\<close>

lemma avx_map_run:
  assumes "avx2_intrinsics I J" and "map_reach (vector_map (avx_kernel B I J) P) cf cs m" and "conf_ok 5 cf"
  shows "map_inv (vector_map (avx_kernel B I J) P) m \<and> spec_run (has_duplicates P) cs {#} (entries m)"
  by (rule vector_map_run [OF avx2_intrinsics.avx_array_like [OF assms(1)] _ _ _ assms(2,3)]) simp_all

lemma avx512_map_run:
  assumes "avx512_intrinsics I J L" and "map_reach (vector_map (avx512_kernel B I J L) P) cf cs m" and "conf_ok 6 cf"
  shows "map_inv (vector_map (avx512_kernel B I J L) P) m \<and> spec_run (has_duplicates P) cs {#} (entries m)"
  by (rule vector_map_run [OF avx512_intrinsics.avx512_array_like [OF assms(1)] _ _ _ assms(2,3)]) simp_all

text \<open>A map of two words on the SSE kernel, with one entry.\<close>

definition demo_sse :: "(u64, u64, 128 word, 128 word, 32 word, probe_seq) map_params" where
  "demo_sse = vector_map (sse_kernel demo_build ref_sse) \<lparr>pm_flags = flag_none, pm_kernel = sse_kernel demo_build ref_sse,
     pm_seq = default_seq, pm_bounded = False, pm_layout = Monkey_wrench, pm_mixer = Marsaglia, pm_hasher = (\<lambda>k. k),
     pm_is_nan = (\<lambda>k. k = 99), pm_fresh_key = 0, pm_fresh_value = 0, pm_fresh_byte = 0, pm_fresh_state = 0\<rparr>"

definition demo_wide_conf :: conf where
  "demo_wide_conf = (default_conf 16 8 8)\<lparr>init_capacity := 16\<rparr>"

lemma demo_wide_conf_ok: "conf_ok 4 demo_wide_conf" and demo_wide_capacity: "init_capacity demo_wide_conf = 16"
proof -
  have "conf_ok 4 (default_conf 16 8 8)" using default_conf_wf [of 4 8 8] by simp
  moreover have "min_capacity (default_conf 16 8 8) = 2 ^ 4" by code_simp
  moreover have "\<exists>a b. a \<le> b \<and> b \<le> 62 \<and> 16 = (2 :: int) ^ a \<and> 16 = (2 :: int) ^ b"
    by (rule exI [of _ 4], rule exI [of _ 4]) simp
  ultimately show "conf_ok 4 demo_wide_conf" by (simp add: conf_ok_def demo_wide_conf_def is_valid_def)
  show "init_capacity demo_wide_conf = 16" by (simp add: demo_wide_conf_def)
qed

lemma demo_sse_laws: "swiss_map demo_sse (uint_mask_ok 16 0 Align_right) (uint_mask_slots 16 0 Align_right)"
  and demo_sse_cache: "swiss_cache demo_sse (uint_mask_ok 16 0 Align_right) (uint_mask_slots 16 0 Align_right)"
  and demo_sse_bits: "kbits demo_sse = 4" and demo_sse_nan: "\<not> pm_is_nan demo_sse 5"
proof -
  note laws = vector_map_laws [OF sse_intrinsics.sse_array_like [OF ref.sse_intrinsics_axioms], where k = 4]
  show "swiss_map demo_sse (uint_mask_ok 16 0 Align_right) (uint_mask_slots 16 0 Align_right)"
    unfolding demo_sse_def by (rule laws(1)) simp_all
  show "swiss_cache demo_sse (uint_mask_ok 16 0 Align_right) (uint_mask_slots 16 0 Align_right)"
    unfolding demo_sse_def by (rule laws(2)) simp_all
  show "kbits demo_sse = 4" unfolding demo_sse_def by (rule laws(3)) simp_all
  show "\<not> pm_is_nan demo_sse 5" by (simp add: demo_sse_def vector_map_def)
qed

lemma demo_sse_put:
  "\<exists>r m. map_reach demo_sse demo_wide_conf [(Put 5 7, r)] m \<and> entries m \<noteq> {#}"
proof -
  note laws = demo_sse_laws
  obtain m0 where m0: "make_map demo_sse demo_wide_conf = Inr m0" "map_inv demo_sse m0" "entries m0 = {#}"
    "m_conf m0 = demo_wide_conf" "capacity demo_sse m0 = init_capacity demo_wide_conf"
    by (rule swiss_map.make_map_ok [OF laws, of demo_wide_conf]) (use demo_wide_conf_ok demo_sse_bits in simp_all)
  have cap: "capacity demo_sse m0 \<le> 2 ^ 61" by (simp add: m0(5) demo_wide_capacity)
  obtain r m where m: "map_exec demo_sse (Put 5 7) m0 = Some (Inr (r, m))"
    "spec_step (has_duplicates demo_sse) (Put 5 7) (entries m0) r (entries m)"
    by (rule swiss_map.put_ok [OF laws m0(2) cap demo_sse_nan])
  have "map_reach demo_sse demo_wide_conf ([] @ [(Put 5 7, r)]) m"
    by (rule map_reach.call [OF map_reach.start [OF m0(1)] cap _ m(1)]) (simp add: demo_sse_nan)
  moreover have "entries m \<noteq> {#}" using m(2) by (auto simp: m0(3))
  ultimately show ?thesis by auto
qed

lemma demo_sse_cache_put:
  "\<exists>r c. cache_reach demo_sse demo_wide_conf [(C_put 5 7, 16, r)] c"
proof -
  note laws = demo_sse_cache
  obtain c0 where c0: "make_cache demo_sse demo_wide_conf = Inr c0" "cache_inv demo_sse c0" "cache_entries demo_sse c0 = {#}"
    "cache_capacity demo_sse c0 = init_capacity demo_wide_conf"
    by (rule swiss_cache.make_cache_ok [OF laws, of demo_wide_conf]) (use demo_wide_conf_ok demo_sse_bits in simp_all)
  obtain r c where c: "cache_exec demo_sse (C_put 5 7) c0 = Inr (r, c)"
    by (rule swiss_cache.cache_put_exec_ok [OF laws c0(2) demo_sse_nan])
  have "cache_reach demo_sse demo_wide_conf ([] @ [(C_put 5 7, cache_capacity demo_sse c0, r)]) c"
    by (rule cache_reach.call [OF cache_reach.start [OF c0(1)] _ _ c]) (simp_all add: demo_sse_nan c0(4) demo_wide_capacity)
  then show ?thesis by (auto simp: c0(4) demo_wide_capacity)
qed

text \<open>C23: On the SSE kernel, the default of the x86 builds, the map implements the bag of entries: after any sequence
  of calls its state is well-formed, and its contents and results are those the specification gives.\<close>

theorem sse_map_run_refines:
  assumes "sse_intrinsics I" and "map_reach (vector_map (sse_kernel B I) P) cf cs m" and "conf_ok 4 cf"
  shows "map_inv (vector_map (sse_kernel B I) P) m \<and> spec_run (has_duplicates P) cs {#} (entries m)"
  by (rule vector_map_run [OF sse_intrinsics.sse_array_like [OF assms(1)] _ _ _ assms(2,3)]) simp_all

theorem sse_map_run_refines_witness:
  "\<exists>r m. map_reach demo_sse demo_wide_conf [(Put 5 7, r)] m \<and> map_inv demo_sse m
    \<and> spec_run (has_duplicates demo_sse) [(Put 5 7, r)] {#} (entries m)"
proof -
  obtain r m where m: "map_reach demo_sse demo_wide_conf [(Put 5 7, r)] m" using demo_sse_put by blast
  have "map_inv demo_sse m \<and> spec_run (has_duplicates demo_sse) [(Put 5 7, r)] {#} (entries m)"
    using sse_map_run_refines [OF ref.sse_intrinsics_axioms m [unfolded demo_sse_def] demo_wide_conf_ok]
    by (simp only: demo_sse_def vector_map_simps)
  with m show ?thesis by blast
qed

text \<open>On the SSE kernel the cache implements the bag of stamped entries, eviction included.\<close>

theorem sse_cache_run_refines:
  assumes "sse_intrinsics I" and "cache_reach (vector_map (sse_kernel B I) P) cf cs c" and "conf_ok 4 cf"
  shows "cache_inv (vector_map (sse_kernel B I) P) c
    \<and> cache_run (has_duplicates P) cs {#} (cache_entries (vector_map (sse_kernel B I) P) c)"
  by (rule vector_cache_run [OF sse_intrinsics.sse_array_like [OF assms(1)] _ _ assms(2,3)]) simp_all

theorem sse_cache_run_refines_witness:
  "\<exists>r c. cache_reach demo_sse demo_wide_conf [(C_put 5 7, 16, r)] c \<and> cache_inv demo_sse c
    \<and> cache_run (has_duplicates demo_sse) [(C_put 5 7, 16, r)] {#} (cache_entries demo_sse c)"
proof -
  obtain r c where c: "cache_reach demo_sse demo_wide_conf [(C_put 5 7, 16, r)] c" using demo_sse_cache_put by blast
  have "cache_inv demo_sse c \<and> cache_run (has_duplicates demo_sse) [(C_put 5 7, 16, r)] {#} (cache_entries demo_sse c)"
    using sse_cache_run_refines [OF ref.sse_intrinsics_axioms c [unfolded demo_sse_def] demo_wide_conf_ok]
    by (simp only: demo_sse_def vector_map_simps)
  with c show ?thesis by blast
qed

text \<open>The NEON kernels, for buckets of 8, 16, 32 and 64 slots.\<close>

lemma neon_map_runs:
  assumes "neon_q_intrinsics D Q"
  shows "map_reach (vector_map (neon8_kernel D) P) cf cs m \<Longrightarrow> conf_ok 3 cf
      \<Longrightarrow> map_inv (vector_map (neon8_kernel D) P) m \<and> spec_run (has_duplicates P) cs {#} (entries m)"
    and "map_reach (vector_map (neon16_kernel D Q) P1) cf cs m \<Longrightarrow> conf_ok 4 cf
      \<Longrightarrow> map_inv (vector_map (neon16_kernel D Q) P1) m \<and> spec_run (has_duplicates P1) cs {#} (entries m)"
    and "map_reach (vector_map (neon32_kernel Q) P2) cf cs m \<Longrightarrow> conf_ok 5 cf
      \<Longrightarrow> map_inv (vector_map (neon32_kernel Q) P2) m \<and> spec_run (has_duplicates P2) cs {#} (entries m)"
    and "map_reach (vector_map (neon64_kernel D Q) P4) cf cs m \<Longrightarrow> conf_ok 6 cf
      \<Longrightarrow> map_inv (vector_map (neon64_kernel D Q) P4) m \<and> spec_run (has_duplicates P4) cs {#} (entries m)"
proof -
  have D: "neon_d_intrinsics D" using assms by (simp add: neon_q_intrinsics_def)
  show "map_inv (vector_map (neon8_kernel D) P) m \<and> spec_run (has_duplicates P) cs {#} (entries m)"
    if "map_reach (vector_map (neon8_kernel D) P) cf cs m" "conf_ok 3 cf"
    by (rule vector_map_run [OF neon_d_intrinsics.neon8_array_like [OF D] _ _ _ that]) simp_all
  show "map_inv (vector_map (neon16_kernel D Q) P1) m \<and> spec_run (has_duplicates P1) cs {#} (entries m)"
    if "map_reach (vector_map (neon16_kernel D Q) P1) cf cs m" "conf_ok 4 cf"
    by (rule vector_map_run [OF neon_q_intrinsics.neon16_array_like [OF assms] _ _ _ that]) simp_all
  show "map_inv (vector_map (neon32_kernel Q) P2) m \<and> spec_run (has_duplicates P2) cs {#} (entries m)"
    if "map_reach (vector_map (neon32_kernel Q) P2) cf cs m" "conf_ok 5 cf"
    by (rule vector_map_run [OF neon_q_intrinsics.neon32_array_like [OF assms] _ _ _ that]) simp_all
  show "map_inv (vector_map (neon64_kernel D Q) P4) m \<and> spec_run (has_duplicates P4) cs {#} (entries m)"
    if "map_reach (vector_map (neon64_kernel D Q) P4) cf cs m" "conf_ok 6 cf"
    by (rule vector_map_run [OF neon_q_intrinsics.neon64_array_like [OF assms] _ _ _ that]) simp_all
qed

section \<open>The default kernels\<close>

datatype kernel_type = Fast_uint_kernel nat | Array_kernel nat | Sse_kernel | Avx_kernel | Avx512_kernel
  | Neon_kernel nat | Sve_kernel nat

record target = build +
  with_avx512 :: bool
  with_neon :: bool
  with_sve :: bool
  with_sve_size :: nat

text \<open>\<open>default_kernel<Size>::type\<close>; there is none for other sizes.\<close>

definition default_kernel :: "target \<Rightarrow> nat \<Rightarrow> kernel_type option" where
  "default_kernel T n = (
     if n = 1 \<or> n = 2 \<or> n = 4 then Some (Fast_uint_kernel n)
     else if n = 8 then Some (if with_sve T \<and> with_sve_size T \<ge> 8 then Sve_kernel 8
       else if with_neon T then Neon_kernel 8 else Fast_uint_kernel 8)
     else if n = 16 then Some (if with_sse T \<ge> 2 then Sse_kernel
       else if with_sve T \<and> with_sve_size T \<ge> 16 then Sve_kernel 16
       else if with_neon T then Neon_kernel 16 else Fast_uint_kernel 16)
     else if n = 32 then Some (if with_avx T \<ge> 2 then Avx_kernel
       else if with_sve T \<and> with_sve_size T \<ge> 32 then Sve_kernel 32
       else if with_neon T then Neon_kernel 32 else Array_kernel 32)
     else if n = 64 then Some (if with_avx512 T then Avx512_kernel
       else if with_sve T \<and> with_sve_size T \<ge> 64 then Sve_kernel 64
       else if with_neon T then Neon_kernel 64 else Array_kernel 64)
     else if n = 128 then Some (if with_sve T \<and> with_sve_size T \<ge> 128 then Sve_kernel 128 else Array_kernel 128)
     else if n = 256 then Some (if with_sve T \<and> with_sve_size T \<ge> 256 then Sve_kernel 256 else Array_kernel 256)
     else if n = 512 then Some (Array_kernel 512)
     else None)"

definition default_kernel_size :: "target \<Rightarrow> nat" where
  "default_kernel_size T = (if with_sse T \<ge> 2 \<or> with_neon T \<or> (with_sve T \<and> with_sve_size T \<ge> 16) then 16 else 8)"

fun kernel_type_size :: "kernel_type \<Rightarrow> nat" where
  "kernel_type_size (Fast_uint_kernel n) = n"
| "kernel_type_size (Array_kernel n) = n"
| "kernel_type_size Sse_kernel = 16"
| "kernel_type_size Avx_kernel = 32"
| "kernel_type_size Avx512_kernel = 64"
| "kernel_type_size (Neon_kernel n) = n"
| "kernel_type_size (Sve_kernel n) = n"

text \<open>Every target has a default kernel, and the kernel chosen for a size has that many slots.\<close>

lemma default_kernel_exists: "default_kernel T (default_kernel_size T) \<noteq> None"
  by (simp add: default_kernel_def default_kernel_size_def)

lemma default_kernel_slots: "default_kernel T n = Some k \<Longrightarrow> kernel_type_size k = n"
  by (auto simp: default_kernel_def split: if_splits)

end
