(* ===== verification/Memory.thy ===== *)
theory Memory
  imports Conf Common
begin

text \<open>
  allocator.hpp: the size and alignment a request is rounded to, the two allocators over the
  system's memory services, their deleters, and the owning pointers the maps keep their arrays in.
  The services (\<open>aligned_alloc\<close>, \<open>free\<close>, \<open>madvise\<close>, \<open>mmap\<close>, \<open>munmap\<close>) and the constants the build
  configures are parameters. An address is an integer, the null pointer is 0; what the model tracks
  of an array is its address, the regions the system holds for the program, and how many elements
  are still due for destruction.
\<close>

section \<open>Log levels\<close>

datatype log_level = Log_error | Log_warning | Log_info | Log_debug

fun log_rank :: "log_level \<Rightarrow> nat" where
  "log_rank Log_error = 0"
| "log_rank Log_warning = 1"
| "log_rank Log_info = 2"
| "log_rank Log_debug = 3"

section \<open>Parameters\<close>

text \<open>The system's services over its state \<open>'s\<close>; a refused request is \<open>None\<close> or \<open>False\<close>.\<close>

record 's os_ops =
  os_aligned_alloc :: "int \<Rightarrow> int \<Rightarrow> 's \<Rightarrow> int option \<times> 's"
  os_free :: "int \<Rightarrow> 's \<Rightarrow> 's"
  os_madvise :: "int \<Rightarrow> int \<Rightarrow> 's \<Rightarrow> bool \<times> 's"
  os_mmap :: "int \<Rightarrow> 32 word \<Rightarrow> 's \<Rightarrow> int option \<times> 's"
  os_munmap :: "int \<Rightarrow> int \<Rightarrow> 's \<Rightarrow> bool \<times> 's"

text \<open>
  The constants of the build: sizes, the flags of \<open>mmap\<close> (\<open>MAP_PRIVATE | MAP_ANONYMOUS\<close>, and
  \<open>MAP_HUGETLB\<close> with \<open>MAP_HUGE_SHIFT\<close> where they are defined), whether \<open>MADV_HUGEPAGE\<close> is defined, and
  the most detailed level that is logged.
\<close>

record mem_build =
  b_line :: int
  b_page :: int
  b_hugepage :: int
  b_map_flags :: "32 word"
  b_map_hugetlb :: "(32 word \<times> nat) option"
  b_madv_hugepage :: bool
  b_log :: log_level

text \<open>The template arguments of an allocator; the switch threshold is a ratio.\<close>

record alloc_params =
  ap_page_align :: bool
  ap_use_hugepages :: bool
  ap_num :: int
  ap_den :: int

text \<open>What the allocators ask of an element type: \<open>sizeof\<close> and two type traits.\<close>

record elem =
  e_bytes :: int
  e_trivial_ctor :: bool
  e_trivial_dtor :: bool

record 's mem =
  mm_os :: 's
  mm_due :: int
  mm_log :: "log_level list"

definition nvhm_log :: "mem_build \<Rightarrow> log_level \<Rightarrow> 's mem \<Rightarrow> 's mem" where
  "nvhm_log B lvl m = (if log_rank lvl \<le> log_rank (b_log B) then m\<lparr>mm_log := mm_log m @ [lvl]\<rparr> else m)"

section \<open>Sizes\<close>

definition default_hugepage_switch_threshold :: "int \<times> int" where
  "default_hugepage_switch_threshold = (2, 3)"

definition alloc_size :: "mem_build \<Rightarrow> alloc_params \<Rightarrow> elem \<Rightarrow> int \<Rightarrow> int \<times> int" where
  "alloc_size B A t n = (
     let n = n * e_bytes t
     in if ap_page_align A \<and> ap_use_hugepages A \<and> ap_num A * b_hugepage B div ap_den A \<le> n
        then (b_hugepage B, round_up n (b_hugepage B))
        else if ap_page_align A \<and> ap_num A * b_page B div ap_den A \<le> n
        then (b_page B, round_up n (b_page B))
        else (b_line B, round_up n (b_line B)))"

section \<open>Deleters\<close>

text \<open>
  \<open>deleter_base::operator()\<close> destroys the elements; the deleters of the allocators then release the
  region. \<open>madv_allocator\<close> remembers the number of elements, \<open>mmap_allocator\<close> also the number of bytes.
\<close>

definition destroy_elems :: "elem \<Rightarrow> int \<Rightarrow> 's mem \<Rightarrow> 's mem" where
  "destroy_elems t n m = (if \<not> e_trivial_ctor t \<and> \<not> e_trivial_dtor t then m\<lparr>mm_due := mm_due m - n\<rparr> else m)"

definition madv_delete :: "'s os_ops \<Rightarrow> elem \<Rightarrow> int \<Rightarrow> int \<Rightarrow> 's mem \<Rightarrow> 's mem" where
  "madv_delete os t n p m = (let m = destroy_elems t n m in m\<lparr>mm_os := os_free os p (mm_os m)\<rparr>)"

definition mmap_delete :: "mem_build \<Rightarrow> 's os_ops \<Rightarrow> elem \<Rightarrow> int \<times> int \<Rightarrow> int \<Rightarrow> 's mem \<Rightarrow> 's mem" where
  "mmap_delete B os t d p m = (
     let (n, n_bytes) = d;
         m = destroy_elems t n m;
         (ok, s) = os_munmap os p n_bytes (mm_os m);
         m = m\<lparr>mm_os := s\<rparr>
     in if ok then m else nvhm_log B Log_error m)"

section \<open>Allocation\<close>

definition madv_alloc ::
    "mem_build \<Rightarrow> alloc_params \<Rightarrow> 's os_ops \<Rightarrow> elem \<Rightarrow> int \<Rightarrow> 's mem \<Rightarrow> (exn + int \<times> int) \<times> 's mem" where
  "madv_alloc B A os t n m = (
     if n \<le> 0 then (Inr (0, 0), m)
     else let (align_size, n_bytes) = alloc_size B A t n;
              (r, s) = os_aligned_alloc os align_size n_bytes (mm_os m);
              m = m\<lparr>mm_os := s\<rparr>
          in case r of
               None \<Rightarrow> (Inl Runtime_error, m)
             | Some p \<Rightarrow>
                 (Inr (p, n),
                  if ap_page_align A \<and> ap_use_hugepages A \<and> b_hugepage B \<le> align_size
                  then if b_madv_hugepage B
                       then let (ok, s) = os_madvise os p n_bytes (mm_os m); m = m\<lparr>mm_os := s\<rparr>
                            in if ok then m else nvhm_log B Log_error m
                       else nvhm_log B Log_warning m
                  else m))"

definition map_flags :: "mem_build \<Rightarrow> alloc_params \<Rightarrow> int \<Rightarrow> 's mem \<Rightarrow> 32 word \<times> 's mem" where
  "map_flags B A align_size m = (
     if ap_use_hugepages A
     then case b_map_hugetlb B of
            Some (huge_flag, shift) \<Rightarrow>
              (if b_hugepage B \<le> align_size
               then b_map_flags B OR huge_flag OR push_bit shift (word_of_nat (ctz (word_of_int (b_hugepage B) :: u64)))
               else b_map_flags B, m)
          | None \<Rightarrow> (b_map_flags B, nvhm_log B Log_warning m)
     else (b_map_flags B, m))"

definition mmap_alloc ::
    "mem_build \<Rightarrow> alloc_params \<Rightarrow> 's os_ops \<Rightarrow> elem \<Rightarrow> int \<Rightarrow> 's mem \<Rightarrow> (exn + int \<times> int \<times> int) \<times> 's mem" where
  "mmap_alloc B A os t n m = (
     if n \<le> 0 then (Inr (0, 0, 0), m)
     else let (align_size, n_bytes) = alloc_size B (A\<lparr>ap_page_align := True\<rparr>) t n;
              (flags, m) = map_flags B A align_size m;
              (r, s) = os_mmap os n_bytes flags (mm_os m);
              m = m\<lparr>mm_os := s\<rparr>;
              (r, m) =
                (if flags \<noteq> b_map_flags B \<and> r = None
                 then let m = nvhm_log B Log_error m; (r, s) = os_mmap os n_bytes (b_map_flags B) (mm_os m)
                      in (r, m\<lparr>mm_os := s\<rparr>)
                 else (r, m))
          in case r of None \<Rightarrow> (Inl Runtime_error, m) | Some p \<Rightarrow> (Inr (p, n, n_bytes), m))"

text \<open>An allocator as its clients see it: \<open>alloc_\<close>, the call of the deleter, and the deleter of no region.\<close>

record ('s, 'd) allocator =
  al_alloc :: "elem \<Rightarrow> int \<Rightarrow> 's mem \<Rightarrow> (exn + int \<times> 'd) \<times> 's mem"
  al_delete :: "elem \<Rightarrow> 'd \<Rightarrow> int \<Rightarrow> 's mem \<Rightarrow> 's mem"
  al_none :: 'd

definition madv_allocator :: "mem_build \<Rightarrow> alloc_params \<Rightarrow> 's os_ops \<Rightarrow> ('s, int) allocator" where
  "madv_allocator B A os = \<lparr>al_alloc = madv_alloc B A os, al_delete = madv_delete os, al_none = 0\<rparr>"

definition mmap_allocator :: "mem_build \<Rightarrow> alloc_params \<Rightarrow> 's os_ops \<Rightarrow> ('s, int \<times> int) allocator" where
  "mmap_allocator B A os = \<lparr>al_alloc = mmap_alloc B A os, al_delete = mmap_delete B os, al_none = (0, 0)\<rparr>"

section \<open>Owning pointers\<close>

text \<open>
  \<open>uninitialized_default_construct_n\<close> and \<open>uninitialized_copy_n\<close> construct the elements in order; when a
  constructor throws, those before it are destroyed. \<open>ok i\<close> says whether the constructor of the
  element \<open>i\<close> returns.
\<close>

fun construct_elems :: "elem \<Rightarrow> (nat \<Rightarrow> bool) \<Rightarrow> nat \<Rightarrow> nat \<Rightarrow> 's mem \<Rightarrow> (exn + unit) \<times> 's mem" where
  "construct_elems t ok i 0 m = (Inr (), m)"
| "construct_elems t ok i (Suc n) m =
    (if ok i then construct_elems t ok (Suc i) n (if e_trivial_dtor t then m else m\<lparr>mm_due := mm_due m + 1\<rparr>)
     else (Inl Runtime_error, if e_trivial_dtor t then m else m\<lparr>mm_due := mm_due m - int i\<rparr>))"

text \<open>The owning pointer: an address and its deleter. A \<open>unique_ptr\<close> calls its deleter unless it is null.\<close>

type_synonym 'd owner = "int \<times> 'd"

definition make_unique ::
    "('s, 'd) allocator \<Rightarrow> elem \<Rightarrow> (nat \<Rightarrow> bool) \<Rightarrow> int \<Rightarrow> 's mem \<Rightarrow> (exn + 'd owner) \<times> 's mem" where
  "make_unique al t ok n m = (case al_alloc al t n m of
     (Inl e, m) \<Rightarrow> (Inl e, m)
   | (Inr (p, d), m) \<Rightarrow>
       if e_trivial_ctor t then (Inr (p, d), m)
       else (case construct_elems t ok 0 (nat n) m of (Inl e, m) \<Rightarrow> (Inl e, m) | (Inr _, m) \<Rightarrow> (Inr (p, d), m)))"

definition make_shared ::
    "('s, 'd) allocator \<Rightarrow> elem \<Rightarrow> (nat \<Rightarrow> bool) \<Rightarrow> int \<Rightarrow> 's mem \<Rightarrow> (exn + 'd owner) \<times> 's mem" where
  "make_shared al t ok n m = (case al_alloc al t n m of
     (Inl e, m) \<Rightarrow> (Inl e, m)
   | (Inr (p, d), m) \<Rightarrow>
       if e_trivial_ctor t then (Inr (p, d), m)
       else (case construct_elems t ok 0 (nat n) m of (Inl e, m) \<Rightarrow> (Inl e, m) | (Inr _, m) \<Rightarrow> (Inr (p, d), m)))"

definition make_copy ::
    "('s, 'd) allocator \<Rightarrow> elem \<Rightarrow> (nat \<Rightarrow> bool) \<Rightarrow> int \<Rightarrow> 's mem \<Rightarrow> (exn + 'd owner) \<times> 's mem" where
  "make_copy al t ok n m = (case al_alloc al t n m of
     (Inl e, m) \<Rightarrow> (Inl e, m)
   | (Inr (p, d), m) \<Rightarrow>
       (case construct_elems t ok 0 (nat n) m of (Inl e, m) \<Rightarrow> (Inl e, m) | (Inr _, m) \<Rightarrow> (Inr (p, d), m)))"

definition drop_unique :: "('s, 'd) allocator \<Rightarrow> elem \<Rightarrow> 'd owner \<Rightarrow> 's mem \<Rightarrow> 's mem" where
  "drop_unique al t u m = (if fst u = 0 then m else al_delete al t (snd u) (fst u) m)"

definition drop_shared :: "('s, 'd) allocator \<Rightarrow> elem \<Rightarrow> 'd owner \<Rightarrow> 's mem \<Rightarrow> 's mem" where
  "drop_shared al t u m = al_delete al t (snd u) (fst u) m"

section \<open>The arrays of a map\<close>

text \<open>
  The four arrays of \<open>map\<close> with the bucket mask their capacity is read from: the members of
  \<open>raw_map_base\<close>, \<open>swiss_map_base\<close> and \<open>map\<close>. Assigning a new array to a member releases the old one;
  when the new one cannot be made the member keeps the old one.
\<close>

record 'd arrays =
  ar_mask :: bitmask_t
  ar_values :: "'d owner"
  ar_blobs :: "'d owner"
  ar_keys :: "'d owner"
  ar_states :: "'d owner"

text \<open>The types of the elements, which constructors return, and the sizes of the configuration.\<close>

record array_types =
  at_value :: elem
  at_key :: elem
  at_has_values :: bool
  at_has_blobs :: bool
  at_value_ok :: "nat \<Rightarrow> bool"
  at_key_ok :: "nat \<Rightarrow> bool"
  at_stride :: int
  at_kernel_size :: int

definition byte_elem :: elem where
  "byte_elem = \<lparr>e_bytes = 1, e_trivial_ctor = True, e_trivial_dtor = True\<rparr>"

definition no_arrays :: "('s, 'd) allocator \<Rightarrow> bitmask_t \<Rightarrow> 'd arrays" where
  "no_arrays al mask1 = \<lparr>ar_mask = mask1, ar_values = (0, al_none al), ar_blobs = (0, al_none al),
     ar_keys = (0, al_none al), ar_states = (0, al_none al)\<rparr>"

definition assign_array ::
    "('s, 'd) allocator \<Rightarrow> elem \<Rightarrow> (nat \<Rightarrow> bool) \<Rightarrow> int \<Rightarrow> 'd owner \<Rightarrow> 's mem \<Rightarrow> (exn + unit) \<times> 'd owner \<times> 's mem" where
  "assign_array al t ok n old m = (case make_unique al t ok n m of
     (Inl e, m) \<Rightarrow> (Inl e, old, m)
   | (Inr u, m) \<Rightarrow> (Inr (), u, drop_unique al t old m))"

definition alloc_base ::
    "('s, 'd) allocator \<Rightarrow> array_types \<Rightarrow> int \<Rightarrow> 'd arrays \<Rightarrow> 's mem \<Rightarrow> (exn + unit) \<times> 'd arrays \<times> 's mem" where
  "alloc_base al T end1 ar m = (
     let ar = ar\<lparr>ar_mask := make_aligned_mask end1 (at_kernel_size T)\<rparr>;
         (r, u, m) = (if at_has_values T then assign_array al (at_value T) (at_value_ok T) end1 (ar_values ar) m
                      else (Inr (), ar_values ar, m));
         ar = ar\<lparr>ar_values := u\<rparr>
     in case r of
          Inl e \<Rightarrow> (Inl e, ar, m)
        | Inr _ \<Rightarrow>
            let (r, u, m) = (if at_has_blobs T then assign_array al byte_elem (\<lambda>_. True) (end1 * at_stride T) (ar_blobs ar) m
                             else (Inr (), ar_blobs ar, m))
            in (r, ar\<lparr>ar_blobs := u\<rparr>, m))"

definition alloc_swiss ::
    "('s, 'd) allocator \<Rightarrow> array_types \<Rightarrow> int \<Rightarrow> 'd arrays \<Rightarrow> 's mem \<Rightarrow> (exn + unit) \<times> 'd arrays \<times> 's mem" where
  "alloc_swiss al T end1 ar m = (case alloc_base al T end1 ar m of
     (Inl e, ar, m) \<Rightarrow> (Inl e, ar, m)
   | (Inr _, ar, m) \<Rightarrow>
       let (r, u, m) = assign_array al (at_key T) (at_key_ok T) end1 (ar_keys ar) m in (r, ar\<lparr>ar_keys := u\<rparr>, m))"

definition alloc_arrays ::
    "('s, 'd) allocator \<Rightarrow> array_types \<Rightarrow> int \<Rightarrow> 'd arrays \<Rightarrow> 's mem \<Rightarrow> (exn + unit) \<times> 'd arrays \<times> 's mem" where
  "alloc_arrays al T end1 ar m = (case alloc_swiss al T end1 ar m of
     (Inl e, ar, m) \<Rightarrow> (Inl e, ar, m)
   | (Inr _, ar, m) \<Rightarrow>
       let (r, u, m) = assign_array al byte_elem (\<lambda>_. True) end1 (ar_states ar) m in (r, ar\<lparr>ar_states := u\<rparr>, m))"

text \<open>The destructors of the members, in the order the classes and members are destroyed.\<close>

definition drop_arrays :: "('s, 'd) allocator \<Rightarrow> array_types \<Rightarrow> 'd arrays \<Rightarrow> 's mem \<Rightarrow> 's mem" where
  "drop_arrays al T ar m = drop_unique al (at_value T) (ar_values ar) (drop_unique al byte_elem (ar_blobs ar)
     (drop_unique al (at_key T) (ar_keys ar) (drop_unique al byte_elem (ar_states ar) m)))"

text \<open>
  The constructors from a configuration, as far as the arrays go: they are made in the order of
  \<open>alloc_arrays\<close>, and an exception destroys what was made.
\<close>

definition construct_arrays ::
    "('s, 'd) allocator \<Rightarrow> array_types \<Rightarrow> int \<Rightarrow> 's mem \<Rightarrow> (exn + 'd arrays) \<times> 's mem" where
  "construct_arrays al T end1 m = (
     case alloc_arrays al T end1 (no_arrays al (make_aligned_mask end1 (at_kernel_size T))) m of
       (Inl e, ar, m) \<Rightarrow> (Inl e, drop_arrays al T ar m)
     | (Inr _, ar, m) \<Rightarrow> (Inr ar, m))"

section \<open>Prefetch instructions\<close>

text \<open>
  memory.hpp: prefetching \<open>n\<close> bytes is one instruction per cache line, or on 64 bit ARM one range
  prefetch whose operand packs the size and the number of the blocks. Addresses are relative to the
  start; the locality is that of \<open>__builtin_prefetch\<close>.
\<close>

function prefetch_offs :: "int \<Rightarrow> int \<Rightarrow> int list" where
  "prefetch_offs i n = (if i < n then i # prefetch_offs (i + cache_line_size) n else [])"
  by auto
termination by (relation "measure (\<lambda>(i, n). nat (n - i))") (auto simp: cache_line_size_def)

declare prefetch_offs.simps [simp del]

definition prefetch_locality :: "int \<Rightarrow> int" where
  "prefetch_locality level = 4 - min level 4"

definition rprfm_block_size :: "int \<Rightarrow> int" where
  "rprfm_block_size n = min (max n 1) (2 ^ 20)"

definition rprfm_block_count :: "int \<Rightarrow> int" where
  "rprfm_block_count n = min ((n + rprfm_block_size n - 1) div rprfm_block_size n) (2 ^ 16 - 1)"

definition rprfm_meta :: "int \<Rightarrow> int" where
  "rprfm_meta n = push_bit 60 0 OR push_bit 38 0 OR push_bit 22 (rprfm_block_count n) OR rprfm_block_size n"

text \<open>The build chooses between range prefetches, the SSE instruction, and the compiler's builtin.\<close>

datatype mm_hint = Hint_T0 | Hint_T1 | Hint_T2 | Hint_NTA | Hint_ET0 | Hint_ET1

datatype prefetch_insn = Rprfm bool int | Mm_prefetch int mm_hint | Builtin_prefetch int bool int

record prefetch_build =
  pb_range :: bool
  pb_sse :: bool
  pb_level :: int
  pb_et1 :: bool

definition read_prefetch_bytes :: "prefetch_build \<Rightarrow> int \<Rightarrow> prefetch_insn list" where
  "read_prefetch_bytes B n = (
     if pb_range B then [Rprfm False (rprfm_meta n)]
     else map (\<lambda>i. if pb_sse B
         then Mm_prefetch i (if pb_level B = 1 then Hint_T0 else if pb_level B = 2 then Hint_T1
           else if pb_level B = 3 then Hint_T2 else Hint_NTA)
         else Builtin_prefetch i False (prefetch_locality (pb_level B))) (prefetch_offs 0 n))"

definition write_prefetch_bytes :: "prefetch_build \<Rightarrow> int \<Rightarrow> prefetch_insn list" where
  "write_prefetch_bytes B n = (
     if pb_range B then [Rprfm True (rprfm_meta n)]
     else map (\<lambda>i. if pb_sse B
         then Mm_prefetch i (if pb_et1 B \<and> pb_level B \<noteq> 1 then Hint_ET1 else Hint_ET0)
         else Builtin_prefetch i True (prefetch_locality (pb_level B))) (prefetch_offs 0 n))"

end
