(* ===== verification/MemoryLaws.thy ===== *)
theory MemoryLaws
  imports Memory
begin

text \<open>
  What the allocators promise. \<open>os_memory\<close> states the documented behaviour of the system's services
  over the regions they have handed out; \<open>allocator_laws\<close> is the contract of an allocator, which both
  allocators of allocator.hpp fulfil over any such system. Inside it, the owning pointers and the
  arrays of a map: nothing is lost as long as constructors return, and a constructor that throws
  leaves a region nobody owns.
\<close>

section \<open>Regions\<close>

definition fresh :: "int \<Rightarrow> int \<Rightarrow> (int \<times> int) set \<Rightarrow> bool" where
  "fresh p n R \<longleftrightarrow> (\<forall>(q, k) \<in> R. p + n \<le> q \<or> q + k \<le> p)"

text \<open>A request for \<open>n\<close> bytes aligned to \<open>a\<close> was refused, or gave the program a new region.\<close>

definition served :: "int option \<Rightarrow> int \<Rightarrow> int \<Rightarrow> (int \<times> int) set \<Rightarrow> (int \<times> int) set \<Rightarrow> (int \<times> int) set \<Rightarrow> bool" where
  "served r a n own other own' = (case r of
     None \<Rightarrow> own' = own
   | Some p \<Rightarrow> 0 < p \<and> a dvd p \<and> fresh p n (own \<union> other) \<and> own' = insert (p, n) own)"

definition build_ok :: "mem_build \<Rightarrow> bool" where
  "build_ok B \<longleftrightarrow> (\<exists>a b c. b_line B = 2 ^ a \<and> b_page B = 2 ^ b \<and> b_hugepage B = 2 ^ c \<and> a \<le> b \<and> b \<le> c \<and> c \<le> 40)
     \<and> (\<forall>f sh. b_map_hugetlb B = Some (f, sh) \<longrightarrow> f \<noteq> 0 \<and> b_map_flags B AND f = 0)"

lemma fresh_new: "0 < n \<Longrightarrow> fresh p n R \<Longrightarrow> (p, n) \<notin> R"
  by (force simp: fresh_def)

lemma build_okD:
  assumes "build_ok B"
  shows "0 < b_line B" "0 < b_page B" "0 < b_hugepage B" "b_line B dvd b_page B" "b_page B dvd b_hugepage B"
    "b_line B dvd b_hugepage B" "b_line B \<le> b_page B" "b_page B \<le> b_hugepage B" "b_hugepage B \<le> 2 ^ 40"
proof -
  obtain a b c where e: "b_line B = 2 ^ a" "b_page B = 2 ^ b" "b_hugepage B = 2 ^ c" "a \<le> b" "b \<le> c" "c \<le> 40"
    using assms unfolding build_ok_def by blast
  show "0 < b_line B" "0 < b_page B" "0 < b_hugepage B" using e by simp_all
  show "b_line B dvd b_page B" "b_page B dvd b_hugepage B" "b_line B dvd b_hugepage B"
    using e by (simp_all add: le_imp_power_dvd)
  show "b_line B \<le> b_page B" "b_page B \<le> b_hugepage B" "b_hugepage B \<le> 2 ^ 40"
    using e by (simp_all only: power_increasing [of _ _ "2 :: int"] one_le_numeral)
qed

section \<open>Sizes\<close>

lemma alloc_size_cases:
  obtains "alloc_size B A t n = (b_hugepage B, round_up (n * e_bytes t) (b_hugepage B))"
      "ap_page_align A" "ap_use_hugepages A" "ap_num A * b_hugepage B div ap_den A \<le> n * e_bytes t"
    | "alloc_size B A t n = (b_page B, round_up (n * e_bytes t) (b_page B))"
      "ap_page_align A" "ap_num A * b_page B div ap_den A \<le> n * e_bytes t"
    | "alloc_size B A t n = (b_line B, round_up (n * e_bytes t) (b_line B))"
  by (simp add: alloc_size_def Let_def) metis

lemma alloc_size_facts:
  assumes "build_ok B" and "0 < n" and "0 < e_bytes t" and "alloc_size B A t n = (al, nb)"
  shows "al \<in> {b_line B, b_page B, b_hugepage B}" and "\<exists>e\<le>40. al = 2 ^ e" and "al dvd nb" and "b_line B dvd al"
    and "n * e_bytes t \<le> nb" and "nb < n * e_bytes t + al" and "0 < nb"
    and "b_hugepage B \<le> al \<Longrightarrow> b_hugepage B dvd nb"
proof -
  note B = build_okD [OF assms(1)]
  have e: "0 < n * e_bytes t" using assms(2,3) by simp
  have al: "al \<in> {b_line B, b_page B, b_hugepage B} \<and> nb = round_up (n * e_bytes t) al"
    using assms(4) by (cases rule: alloc_size_cases [of B A t n]) auto
  then show m: "al \<in> {b_line B, b_page B, b_hugepage B}" by simp
  then show p: "\<exists>e\<le>40. al = 2 ^ e" using assms(1) unfolding build_ok_def by fastforce
  have pos: "0 < al" using m B by auto
  show d: "al dvd nb" and "n * e_bytes t \<le> nb" and "nb < n * e_bytes t + al"
    using round_up_least [of "n * e_bytes t" al] e pos al by auto
  then show "0 < nb" using e by linarith
  show "b_line B dvd al" using m B by auto
  show "b_hugepage B dvd nb" if "b_hugepage B \<le> al"
  proof -
    have "al = b_hugepage B" using that m B by auto
    then show ?thesis using d by simp
  qed
qed

section \<open>The system\<close>

locale os_memory =
  fixes B :: mem_build and os :: "'s os_ops" and heap maps :: "'s \<Rightarrow> (int \<times> int) set" and os_ok :: "'s \<Rightarrow> bool"
  assumes build: "build_ok B"
    and aligned_alloc: "os_ok s \<Longrightarrow> 0 < n \<Longrightarrow> a dvd n \<Longrightarrow> \<exists>e\<le>40. a = 2 ^ e \<Longrightarrow> os_aligned_alloc os a n s = (r, s')
      \<Longrightarrow> os_ok s' \<and> maps s' = maps s \<and> served r a n (heap s) (maps s) (heap s')"
    and free: "os_ok s \<Longrightarrow> (p, n) \<in> heap s
      \<Longrightarrow> os_ok (os_free os p s) \<and> maps (os_free os p s) = maps s \<and> heap (os_free os p s) = heap s - {(p, n)}"
    and madvise: "os_ok s \<Longrightarrow> os_madvise os p n s = (yes, s') \<Longrightarrow> os_ok s' \<and> heap s' = heap s \<and> maps s' = maps s"
    and mmap: "os_ok s \<Longrightarrow> 0 < n \<Longrightarrow> flags = b_map_flags B \<or> b_hugepage B dvd n \<Longrightarrow> os_mmap os n flags s = (r, s')
      \<Longrightarrow> os_ok s' \<and> heap s' = heap s \<and> served r (b_page B) n (maps s) (heap s) (maps s')"
    and munmap: "os_ok s \<Longrightarrow> (p, n) \<in> maps s \<Longrightarrow> os_munmap os p n s = (yes, s')
      \<Longrightarrow> yes \<and> os_ok s' \<and> heap s' = heap s \<and> maps s' = maps s - {(p, n)}"
    and munmap_nothing: "os_ok s \<Longrightarrow> os_munmap os p 0 s = (yes, s') \<Longrightarrow> \<not> yes \<and> os_ok s' \<and> heap s' = heap s \<and> maps s' = maps s"

section \<open>The contract of an allocator\<close>

definition elem_ok :: "elem \<Rightarrow> bool" where
  "elem_ok t \<longleftrightarrow> 0 < e_bytes t \<and> (e_trivial_ctor t \<longrightarrow> e_trivial_dtor t)"

definition due_of :: "elem \<Rightarrow> int \<Rightarrow> int" where
  "due_of t n = (if e_trivial_dtor t then 0 else max 0 n)"

locale allocator_laws =
  fixes al :: "('s, 'd) allocator" and owned foreign :: "'s \<Rightarrow> (int \<times> int) set" and os_ok :: "'s \<Rightarrow> bool"
    and line :: int and holds :: "elem \<Rightarrow> int \<Rightarrow> 'd \<Rightarrow> int \<Rightarrow> bool"
  assumes alloc_nothing: "n \<le> 0 \<Longrightarrow> al_alloc al t n m = (Inr (0, al_none al), m)"
    and alloc_fails: "os_ok (mm_os m) \<Longrightarrow> 0 < n \<Longrightarrow> elem_ok t \<Longrightarrow> al_alloc al t n m = (Inl e, m')
      \<Longrightarrow> e = Runtime_error \<and> os_ok (mm_os m') \<and> mm_due m' = mm_due m
        \<and> owned (mm_os m') = owned (mm_os m) \<and> foreign (mm_os m') = foreign (mm_os m)"
    and alloc_gives: "os_ok (mm_os m) \<Longrightarrow> 0 < n \<Longrightarrow> elem_ok t \<Longrightarrow> al_alloc al t n m = (Inr (p, d), m')
      \<Longrightarrow> os_ok (mm_os m') \<and> mm_due m' = mm_due m \<and> foreign (mm_os m') = foreign (mm_os m)
        \<and> (\<exists>b. holds t n d b \<and> n * e_bytes t \<le> b \<and> 0 < p \<and> line dvd p
             \<and> fresh p b (owned (mm_os m) \<union> foreign (mm_os m)) \<and> owned (mm_os m') = insert (p, b) (owned (mm_os m)))"
    and delete: "os_ok (mm_os m) \<Longrightarrow> elem_ok t \<Longrightarrow> 0 < n \<Longrightarrow> holds t n d b \<Longrightarrow> (p, b) \<in> owned (mm_os m)
      \<Longrightarrow> os_ok (mm_os (al_delete al t d p m)) \<and> mm_due (al_delete al t d p m) = mm_due m - due_of t n
        \<and> foreign (mm_os (al_delete al t d p m)) = foreign (mm_os m)
        \<and> owned (mm_os (al_delete al t d p m)) = owned (mm_os m) - {(p, b)}"

section \<open>Owning pointers\<close>

text \<open>The region a pointer to \<open>n\<close> elements owns; none when it is null.\<close>

definition owns :: "(elem \<Rightarrow> int \<Rightarrow> 'd \<Rightarrow> int \<Rightarrow> bool) \<Rightarrow> elem \<Rightarrow> int \<Rightarrow> 'd owner \<Rightarrow> (int \<times> int) set \<Rightarrow> bool" where
  "owns holds t n u R \<longleftrightarrow> fst u = 0 \<and> n \<le> 0 \<and> R = {}
     \<or> 0 < fst u \<and> 0 < n \<and> (\<exists>b. holds t n (snd u) b \<and> n * e_bytes t \<le> b \<and> R = {(fst u, b)})"

definition ctors_ok :: "elem \<Rightarrow> (nat \<Rightarrow> bool) \<Rightarrow> int \<Rightarrow> bool" where
  "ctors_ok t ok n \<longleftrightarrow> e_trivial_ctor t \<or> (\<forall>i<nat n. ok i)"

text \<open>
  Making an array takes a new region for its elements, or throws and changes nothing; releasing it
  gives everything back.
\<close>

definition gives_back ::
    "('s, 'd) allocator \<Rightarrow> ('s \<Rightarrow> (int \<times> int) set) \<Rightarrow> ('s \<Rightarrow> (int \<times> int) set) \<Rightarrow> (elem \<Rightarrow> int \<Rightarrow> 'd \<Rightarrow> int \<Rightarrow> bool)
      \<Rightarrow> elem \<Rightarrow> (nat \<Rightarrow> bool) \<Rightarrow> int \<Rightarrow> 's mem \<Rightarrow> bool" where
  "gives_back al own other holds t ok n m \<longleftrightarrow> (case make_unique al t ok n m of
      (Inl e, m') \<Rightarrow> e = Runtime_error \<and> own (mm_os m') = own (mm_os m) \<and> other (mm_os m') = other (mm_os m)
        \<and> mm_due m' = mm_due m
    | (Inr u, m') \<Rightarrow> (\<exists>R. owns holds t n u R \<and> R \<inter> own (mm_os m) = {} \<and> own (mm_os m') = own (mm_os m) \<union> R)
        \<and> mm_due m' = mm_due m + due_of t n
        \<and> own (mm_os (drop_unique al t u m')) = own (mm_os m) \<and> other (mm_os (drop_unique al t u m')) = other (mm_os m)
        \<and> mm_due (drop_unique al t u m') = mm_due m)"

lemma construct_elems_all: "construct_elems t ok i n m = (Inr (), m') \<Longrightarrow> j < n \<Longrightarrow> ok (i + j)"
proof (induction t ok i n m arbitrary: j rule: construct_elems.induct)
  case (2 t ok i n m)
  then have "ok i" by (auto split: if_splits)
  then show ?case using 2 by (cases j) auto
qed simp

lemma construct_elems_gives:
  "construct_elems t ok i n m = (r, m') \<Longrightarrow> mm_os m' = mm_os m \<and>
    (r = Inr () \<and> mm_due m' = mm_due m + due_of t (int n)
     \<or> r = Inl Runtime_error \<and> (\<exists>j<n. \<not> ok (i + j)) \<and> mm_due m' = mm_due m - due_of t (int i))"
proof (induction t ok i n m rule: construct_elems.induct)
  case (2 t ok i n m)
  show ?case
  proof (cases "ok i")
    case True
    have "mm_os m' = mm_os m \<and>
      (r = Inr () \<and> mm_due m' = mm_due m + due_of t (int (Suc n))
       \<or> r = Inl Runtime_error \<and> (\<exists>j<n. \<not> ok (Suc i + j)) \<and> mm_due m' = mm_due m - due_of t (int i))"
      using 2 True by (auto simp: due_of_def)
    then show ?thesis by (metis Suc_mono add_Suc_shift)
  next
    case False
    then have "\<exists>j<Suc n. \<not> ok (i + j)" by (intro exI [of _ 0]) simp
    with 2(2) False show ?thesis by (auto simp: due_of_def)
  qed
qed (simp add: due_of_def)

context allocator_laws
begin

lemma alloc_owns:
  assumes "os_ok (mm_os m)" and "elem_ok t" and "al_alloc al t n m = (Inr (p, d), m')"
  shows "os_ok (mm_os m') \<and> mm_due m' = mm_due m \<and> foreign (mm_os m') = foreign (mm_os m)
    \<and> (\<exists>R. owns holds t n (p, d) R \<and> R \<inter> owned (mm_os m) = {} \<and> owned (mm_os m') = owned (mm_os m) \<union> R)"
proof (cases "n \<le> 0")
  case True
  then show ?thesis using assms alloc_nothing [of n t m] by (auto simp: owns_def)
next
  case False
  then have n: "0 < n" by simp
  obtain b where b: "holds t n d b" "n * e_bytes t \<le> b" "0 < p" "fresh p b (owned (mm_os m) \<union> foreign (mm_os m))"
      "owned (mm_os m') = insert (p, b) (owned (mm_os m))"
    using alloc_gives [OF assms(1) n assms(2,3)] by blast
  have "0 < n * e_bytes t" using n assms(2) by (simp add: elem_ok_def)
  then have "(p, b) \<notin> owned (mm_os m)" using fresh_new [OF _ b(4)] b(2) by auto
  moreover have "owns holds t n (p, d) {(p, b)}" using b n by (auto simp: owns_def)
  ultimately show ?thesis using alloc_gives [OF assms(1) n assms(2,3)] b(5) by auto
qed

lemma make_unique_gives:
  assumes "os_ok (mm_os m)" and "elem_ok t" and "make_unique al t ok n m = (r, m')"
  shows "os_ok (mm_os m') \<and> foreign (mm_os m') = foreign (mm_os m) \<and>
    ((\<exists>u R. r = Inr u \<and> owns holds t n u R \<and> R \<inter> owned (mm_os m) = {} \<and> owned (mm_os m') = owned (mm_os m) \<union> R
        \<and> mm_due m' = mm_due m + due_of t n)
     \<or> r = Inl Runtime_error \<and> mm_due m' = mm_due m
        \<and> (owned (mm_os m') = owned (mm_os m)
           \<or> \<not> ctors_ok t ok n \<and> (\<exists>p b. (p, b) \<notin> owned (mm_os m) \<and> owned (mm_os m') = insert (p, b) (owned (mm_os m)))))"
proof (cases "al_alloc al t n m")
  case (Pair q m1)
  show ?thesis
  proof (cases q)
    case (Inl e)
    then have "0 < n" using alloc_nothing [of n t m] Pair by (cases "n \<le> 0") auto
    then show ?thesis using alloc_fails [OF assms(1) _ assms(2), of n e m1] assms(3) Pair Inl
      by (simp add: make_unique_def)
  next
    case (Inr v)
    obtain p d where v: "v = (p, d)" by (cases v)
    have al: "al_alloc al t n m = (Inr (p, d), m1)" using Pair Inr v by simp
    obtain R where a: "os_ok (mm_os m1)" "mm_due m1 = mm_due m" "foreign (mm_os m1) = foreign (mm_os m)"
        "owns holds t n (p, d) R" "R \<inter> owned (mm_os m) = {}" "owned (mm_os m1) = owned (mm_os m) \<union> R"
      using alloc_owns [OF assms(1,2) al] by blast
    show ?thesis
    proof (cases "e_trivial_ctor t")
      case True
      then have "r = Inr (p, d)" "m' = m1" "due_of t n = 0"
        using assms(2,3) by (simp_all add: make_unique_def al elem_ok_def due_of_def)
      then show ?thesis using a by (intro conjI disjI1 exI [of _ "(p, d)"] exI [of _ R]) simp_all
    next
      case False
      obtain x m2 where c: "construct_elems t ok 0 (nat n) m1 = (x, m2)" by (cases "construct_elems t ok 0 (nat n) m1")
      note C = construct_elems_gives [OF c]
      have d: "due_of t (int (nat n)) = due_of t n" by (simp add: due_of_def)
      show ?thesis
      proof (cases x)
        case (Inl e)
        then have bad: "\<not> ctors_ok t ok n" and "0 < n" using C False by (auto simp: ctors_ok_def)
        then obtain b where "R = {(p, b)}" using a(4) by (auto simp: owns_def)
        then have "(p, b) \<notin> owned (mm_os m)" "owned (mm_os m2) = insert (p, b) (owned (mm_os m))" using a C by auto
        then show ?thesis using assms(3) a C False bad Inl by (auto simp: make_unique_def al c due_of_def)
      next
        case (Inr w)
        then have "r = Inr (p, d)" "m' = m2" using assms(3) C False by (auto simp: make_unique_def al c)
        then show ?thesis using a C Inr d by (intro conjI disjI1 exI [of _ "(p, d)"] exI [of _ R]) simp_all
      qed
    qed
  qed
qed

lemma drop_unique_gives:
  assumes "os_ok (mm_os m)" and "elem_ok t" and "owns holds t n u R" and "R \<subseteq> owned (mm_os m)"
  shows "os_ok (mm_os (drop_unique al t u m))" and "foreign (mm_os (drop_unique al t u m)) = foreign (mm_os m)"
    and "owned (mm_os (drop_unique al t u m)) = owned (mm_os m) - R"
    and "mm_due (drop_unique al t u m) = mm_due m - due_of t n"
  using assms delete [OF assms(1,2), of n "snd u" _ "fst u"]
  by (auto simp: owns_def drop_unique_def due_of_def)

lemma make_drop:
  assumes "os_ok (mm_os m)" and "elem_ok t" and "ctors_ok t ok n"
  shows "gives_back al owned foreign holds t ok n m"
proof (cases "make_unique al t ok n m")
  case (Pair r m')
  note M = make_unique_gives [OF assms(1,2) Pair]
  show ?thesis
  proof (cases r)
    case (Inl e)
    then show ?thesis using M Pair assms(3) by (auto simp: gives_back_def)
  next
    case (Inr u)
    then obtain R where R: "owns holds t n u R" "R \<inter> owned (mm_os m) = {}" "owned (mm_os m') = owned (mm_os m) \<union> R"
        "mm_due m' = mm_due m + due_of t n" "os_ok (mm_os m')" "foreign (mm_os m') = foreign (mm_os m)"
      using M by auto
    have "R \<subseteq> owned (mm_os m')" using R(3) by blast
    note D = drop_unique_gives [OF R(5) assms(2) R(1) this]
    have "owned (mm_os m') - R = owned (mm_os m)" using R(2,3) by blast
    then show ?thesis using D R Pair Inr by (auto simp: gives_back_def)
  qed
qed

lemma assign_array_gives:
  assumes "os_ok (mm_os m)" and "elem_ok t" and "ctors_ok t ok n'" and "owns holds t n u R" and "R \<subseteq> owned (mm_os m)"
    and "assign_array al t ok n' u m = (r, u', m')"
  shows "os_ok (mm_os m') \<and> foreign (mm_os m') = foreign (mm_os m) \<and>
    (r = Inr () \<and> (\<exists>R'. owns holds t n' u' R' \<and> R' \<inter> owned (mm_os m) = {} \<and> owned (mm_os m') = owned (mm_os m) - R \<union> R'
        \<and> mm_due m' = mm_due m - due_of t n + due_of t n')
     \<or> r = Inl Runtime_error \<and> u' = u \<and> owned (mm_os m') = owned (mm_os m) \<and> mm_due m' = mm_due m)"
proof (cases "make_unique al t ok n' m")
  case (Pair q m1)
  note M = make_unique_gives [OF assms(1,2) Pair]
  show ?thesis
  proof (cases q)
    case (Inl e)
    then show ?thesis using M assms(3,6) Pair by (auto simp: assign_array_def)
  next
    case (Inr v)
    obtain R' where R': "owns holds t n' v R'" "R' \<inter> owned (mm_os m) = {}" "owned (mm_os m1) = owned (mm_os m) \<union> R'"
        "mm_due m1 = mm_due m + due_of t n'" "os_ok (mm_os m1)" "foreign (mm_os m1) = foreign (mm_os m)"
      using M Inr by auto
    have "R \<subseteq> owned (mm_os m1)" using assms(5) R'(3) by blast
    note D = drop_unique_gives [OF R'(5) assms(2,4) this]
    have "r = Inr ()" "u' = v" "m' = drop_unique al t u m1"
      using assms(6) Pair Inr by (simp_all add: assign_array_def)
    moreover have "owned (mm_os m1) - R = owned (mm_os m) - R \<union> R'" using R'(2,3) assms(5) by blast
    ultimately show ?thesis using D R' by auto
  qed
qed

end

section \<open>The arrays of a map\<close>

definition types_ok :: "array_types \<Rightarrow> int \<Rightarrow> bool" where
  "types_ok T n \<longleftrightarrow> elem_ok (at_value T) \<and> elem_ok (at_key T)
     \<and> ctors_ok (at_value T) (at_value_ok T) n \<and> ctors_ok (at_key T) (at_key_ok T) n"

text \<open>
  A list of pointers, each with its element type and number of elements, owns disjoint regions that
  together with those of others, \<open>F\<close>, are all the allocator has handed out, \<open>S\<close>; their elements are
  the ones due beyond those of others.
\<close>

definition keeps_all ::
    "(elem \<Rightarrow> int \<Rightarrow> 'd \<Rightarrow> int \<Rightarrow> bool) \<Rightarrow> (elem \<times> int \<times> 'd owner) list \<Rightarrow> (int \<times> int) set \<Rightarrow> int
      \<Rightarrow> (int \<times> int) set \<Rightarrow> int \<Rightarrow> bool" where
  "keeps_all holds xs F D S due \<longleftrightarrow> (\<exists>R. (\<forall>i<length xs. case xs ! i of (t, n, u) \<Rightarrow> owns holds t n u (R i) \<and> F \<inter> R i = {})
     \<and> (\<forall>i<length xs. \<forall>j<length xs. i \<noteq> j \<longrightarrow> R i \<inter> R j = {})
     \<and> S = F \<union> (\<Union>i<length xs. R i) \<and> due = D + (\<Sum>i<length xs. case xs ! i of (t, n, u) \<Rightarrow> due_of t n))"

definition array_parts :: "array_types \<Rightarrow> int \<Rightarrow> int \<Rightarrow> int \<Rightarrow> int \<Rightarrow> 'd arrays \<Rightarrow> (elem \<times> int \<times> 'd owner) list" where
  "array_parts T nv nb nk ns ar =
     [(at_value T, nv, ar_values ar), (byte_elem, nb, ar_blobs ar), (at_key T, nk, ar_keys ar), (byte_elem, ns, ar_states ar)]"

lemma byte_elem_ok [simp]: "elem_ok byte_elem" "due_of byte_elem n = 0" "ctors_ok byte_elem ok n"
  by (simp_all add: byte_elem_def elem_ok_def due_of_def ctors_ok_def)

lemma owns_null [simp]: "owns holds t n (0, d) R \<longleftrightarrow> n \<le> 0 \<and> R = {}"
  by (auto simp: owns_def)

lemma sum_update:
  fixes f :: "nat \<Rightarrow> int"
  assumes "i < k" and "\<And>j. j < k \<Longrightarrow> j \<noteq> i \<Longrightarrow> g j = f j"
  shows "(\<Sum>j<k. g j) = (\<Sum>j<k. f j) - f i + g i"
proof -
  have "(\<Sum>j\<in>{..<k} - {i}. g j) = (\<Sum>j\<in>{..<k} - {i}. f j)" using assms(2) by (intro sum.cong) auto
  then show ?thesis using assms(1) by (simp add: sum.remove [of "{..<k}" i])
qed

lemma keeps_nulls:
  assumes "keeps_all holds xs F D S due" and "\<And>t n u. (t, n, u) \<in> set xs \<Longrightarrow> n = 0 \<and> fst u = 0"
  shows "S = F \<and> due = D"
proof -
  obtain R where o: "\<forall>j<length xs. case xs ! j of (t, n, u) \<Rightarrow> owns holds t n u (R j) \<and> F \<inter> R j = {}"
    and S: "S = F \<union> (\<Union>j<length xs. R j)" and e: "due = D + (\<Sum>j<length xs. case xs ! j of (t, n, u) \<Rightarrow> due_of t n)"
    using assms(1) [unfolded keeps_all_def] by (elim exE conjE) (rule that)
  have "R j = {} \<and> (case xs ! j of (t, n, u) \<Rightarrow> due_of t n) = 0" if j: "j < length xs" for j
  proof -
    obtain t n u where x: "xs ! j = (t, n, u)" by (cases "xs ! j")
    then have "(t, n, u) \<in> set xs" using j by (metis nth_mem)
    then have "n = 0" "fst u = 0" using assms(2) by blast+
    then show ?thesis using o j x by (auto simp: owns_def due_of_def)
  qed
  then show ?thesis using S e by simp
qed

lemma keeps_no_region:
  assumes "\<And>t n u. (t, n, u) \<in> set xs \<Longrightarrow> n = 0 \<and> fst u = 0"
  shows "keeps_all holds xs S D S D"
proof -
  have z: "(case xs ! j of (t, n, u) \<Rightarrow> owns holds t n u {} \<and> S \<inter> {} = {}) \<and> (case xs ! j of (t, n, u) \<Rightarrow> due_of t n) = 0"
    if j: "j < length xs" for j
  proof -
    obtain t n u where x: "xs ! j = (t, n, u)" by (cases "xs ! j")
    then have "(t, n, u) \<in> set xs" using j by (metis nth_mem)
    then have "n = 0" "fst u = 0" using assms by blast+
    then show ?thesis using x by (auto simp: owns_def due_of_def)
  qed
  then show ?thesis unfolding keeps_all_def by (intro exI [of _ "\<lambda>_. {}"]) simp
qed

lemma keeps_frame_subset: "keeps_all holds xs F D S due \<Longrightarrow> F \<subseteq> S"
  by (auto simp: keeps_all_def)

lemma keeps_frame:
  assumes "keeps_all holds xs F D S due" and "S \<subseteq> S'"
  shows "keeps_all holds xs (F \<union> (S' - S)) (D + d) S' (due + d)"
proof -
  obtain R where o: "\<forall>j<length xs. case xs ! j of (t, n, u) \<Rightarrow> owns holds t n u (R j) \<and> F \<inter> R j = {}"
    and d: "\<forall>j<length xs. \<forall>k<length xs. j \<noteq> k \<longrightarrow> R j \<inter> R k = {}" and S: "S = F \<union> (\<Union>j<length xs. R j)"
    and e: "due = D + (\<Sum>j<length xs. case xs ! j of (t, n, u) \<Rightarrow> due_of t n)"
    using assms(1) [unfolded keeps_all_def] by (elim exE conjE) (rule that)
  have "R j \<subseteq> S" if "j < length xs" for j using S that by blast
  then have "case xs ! j of (t, n, u) \<Rightarrow> owns holds t n u (R j) \<and> (F \<union> (S' - S)) \<inter> R j = {}" if "j < length xs" for j
    using o that by (cases "xs ! j") fastforce
  moreover have "S' = F \<union> (S' - S) \<union> (\<Union>j<length xs. R j)" using S assms(2) by auto
  ultimately show ?thesis using d e unfolding keeps_all_def by (intro exI [of _ R]) simp
qed

lemma keeps_shrink:
  assumes "keeps_all holds xs S due S' due'" and "F \<subseteq> S"
  shows "keeps_all holds xs F D (F \<union> (S' - S)) (D + (due' - due))"
proof -
  obtain R where o: "\<forall>j<length xs. case xs ! j of (t, n, u) \<Rightarrow> owns holds t n u (R j) \<and> S \<inter> R j = {}"
    and d: "\<forall>j<length xs. \<forall>k<length xs. j \<noteq> k \<longrightarrow> R j \<inter> R k = {}" and S: "S' = S \<union> (\<Union>j<length xs. R j)"
    and e: "due' = due + (\<Sum>j<length xs. case xs ! j of (t, n, u) \<Rightarrow> due_of t n)"
    using assms(1) [unfolded keeps_all_def] by (elim exE conjE) (rule that)
  have "S \<inter> R j = {}" if "j < length xs" for j using o that by (cases "xs ! j") fastforce
  then have "F \<union> (S' - S) = F \<union> (\<Union>j<length xs. R j)" using S by auto
  moreover have "case xs ! j of (t, n, u) \<Rightarrow> owns holds t n u (R j) \<and> F \<inter> R j = {}" if "j < length xs" for j
    using o that assms(2) by (cases "xs ! j") fastforce
  ultimately show ?thesis using d e unfolding keeps_all_def by (intro exI [of _ R]) simp
qed

lemma swap_part: "X = A \<union> Z \<Longrightarrow> Y = B \<union> Z \<Longrightarrow> A \<inter> (F \<union> Z) = {} \<Longrightarrow> F \<union> X - A \<union> B = F \<union> Y"
  by blast

context allocator_laws
begin

abbreviation all_kept where
  "all_kept xs F D m \<equiv> keeps_all holds xs F D (owned (mm_os m)) (mm_due m)"

lemma assign_kept:
  assumes "os_ok (mm_os m)" and "all_kept xs F D m" and "i < length xs" and "xs ! i = (t, n, u)"
    and "elem_ok t" and "ctors_ok t ok n'" and "assign_array al t ok n' u m = (r, u', m')"
  shows "os_ok (mm_os m') \<and> foreign (mm_os m') = foreign (mm_os m) \<and>
    (r = Inr () \<and> all_kept (xs[i := (t, n', u')]) F D m' \<or> r = Inl Runtime_error \<and> u' = u \<and> all_kept xs F D m')"
proof -
  obtain R where o': "\<forall>j<length xs. case xs ! j of (t, n, u) \<Rightarrow> owns holds t n u (R j) \<and> F \<inter> R j = {}"
    and d: "\<forall>j<length xs. \<forall>k<length xs. j \<noteq> k \<longrightarrow> R j \<inter> R k = {}"
    and S: "owned (mm_os m) = F \<union> (\<Union>j<length xs. R j)"
    and e: "mm_due m = D + (\<Sum>j<length xs. case xs ! j of (t, n, u) \<Rightarrow> due_of t n)"
    using assms(2) [unfolded keeps_all_def] by (elim exE conjE) (rule that)
  have o: "owns holds t n u (R j) \<and> F \<inter> R j = {}" if "j < length xs" and "xs ! j = (t, n, u)" for j t n u
    using o' that by force
  have i: "owns holds t n u (R i)" "R i \<subseteq> owned (mm_os m)" using o [OF assms(3,4)] S assms(3) by auto
  note A = assign_array_gives [OF assms(1,5,6) i assms(7)]
  show ?thesis
  proof (cases "r = Inr ()")
    case True
    then obtain R' where R': "owns holds t n' u' R'" "R' \<inter> owned (mm_os m) = {}"
        "owned (mm_os m') = owned (mm_os m) - R i \<union> R'" "mm_due m' = mm_due m - due_of t n + due_of t n'"
      using A by auto
    let ?R = "R(i := R')"
    have apart: "R j \<inter> R' = {}" "F \<inter> R' = {}" if "j < length xs" for j using R'(2) S that by auto
    have 1: "case xs[i := (t, n', u')] ! j of (t, n, u) \<Rightarrow> owns holds t n u (?R j) \<and> F \<inter> ?R j = {}" if "j < length xs" for j
      using that o [of j] R'(1) apart(2) [OF assms(3)] by (cases "j = i") (auto split: prod.splits)
    have 2: "?R j \<inter> ?R k = {}" if "j < length xs" "k < length xs" "j \<noteq> k" for j k
      using d that apart(1) [OF that(1)] apart(1) [OF that(2)] by auto
    have 3: "owned (mm_os m') = F \<union> (\<Union>j<length xs. ?R j)"
    proof -
      have "(\<Union>j<length xs. R j) = R i \<union> (\<Union>j\<in>{..<length xs} - {i}. R j)" using assms(3) by blast
      moreover have "(\<Union>j<length xs. ?R j) = R' \<union> (\<Union>j\<in>{..<length xs} - {i}. R j)" using assms(3) by auto
      moreover have "R i \<inter> (F \<union> (\<Union>j\<in>{..<length xs} - {i}. R j)) = {}"
        using o [OF assms(3,4)] d assms(3) by fastforce
      ultimately show ?thesis unfolding R'(3) S by (rule swap_part)
    qed
    have 4: "mm_due m' = D + (\<Sum>j<length xs. case xs[i := (t, n', u')] ! j of (t, n, u) \<Rightarrow> due_of t n)"
      using R'(4) e assms(3,4) by (subst sum_update [OF assms(3), of _ "\<lambda>j. case xs ! j of (t, n, u) \<Rightarrow> due_of t n"]) auto
    have "all_kept (xs[i := (t, n', u')]) F D m'"
      unfolding keeps_all_def length_list_update
      by (rule exI [of _ ?R], intro conjI allI impI) (fact 1 2 3 4)+
    then show ?thesis using A True by simp
  qed (use A assms(2) in auto)
qed

lemma drop_kept:
  assumes "os_ok (mm_os m)" and "all_kept xs F D m" and "i < length xs" and "xs ! i = (t, n, u)" and "elem_ok t"
  shows "os_ok (mm_os (drop_unique al t u m))" and "foreign (mm_os (drop_unique al t u m)) = foreign (mm_os m)"
    and "all_kept (xs[i := (t, 0, (0, al_none al))]) F D (drop_unique al t u m)"
proof -
  have a: "assign_array al t (\<lambda>_. True) 0 u m = (Inr (), (0, al_none al), drop_unique al t u m)"
    by (simp add: assign_array_def make_unique_def alloc_nothing)
  have "ctors_ok t (\<lambda>_. True) 0" by (simp add: ctors_ok_def)
  note assign_kept [OF assms(1-5) this a]
  then show "os_ok (mm_os (drop_unique al t u m))" and "foreign (mm_os (drop_unique al t u m)) = foreign (mm_os m)"
    and "all_kept (xs[i := (t, 0, (0, al_none al))]) F D (drop_unique al t u m)" by simp_all
qed

end

section \<open>Allocating the arrays\<close>

text \<open>
  Constructing the arrays of a map gives them all, each with a region for the whole capacity, or throws
  after giving everything back.
\<close>

definition constructs ::
    "('s, 'd) allocator \<Rightarrow> ('s \<Rightarrow> (int \<times> int) set) \<Rightarrow> ('s \<Rightarrow> (int \<times> int) set) \<Rightarrow> (elem \<Rightarrow> int \<Rightarrow> 'd \<Rightarrow> int \<Rightarrow> bool)
      \<Rightarrow> array_types \<Rightarrow> int \<Rightarrow> 's mem \<Rightarrow> bool" where
  "constructs al own other holds T n m \<longleftrightarrow> (case construct_arrays al T n m of
      (Inl e, m') \<Rightarrow> e = Runtime_error \<and> own (mm_os m') = own (mm_os m) \<and> other (mm_os m') = other (mm_os m)
        \<and> mm_due m' = mm_due m
    | (Inr ar, m') \<Rightarrow> ar_mask ar = make_aligned_mask n (at_kernel_size T)
        \<and> keeps_all holds (array_parts T (if at_has_values T then n else 0) (if at_has_blobs T then n * at_stride T else 0) n n ar)
            (own (mm_os m)) (mm_due m) (own (mm_os m')) (mm_due m'))"

lemma array_parts_simps [simp]:
  "length (array_parts T nv nb nk ns ar) = 4"
  "array_parts T nv nb nk ns ar ! 0 = (at_value T, nv, ar_values ar)"
  "array_parts T nv nb nk ns ar ! Suc 0 = (byte_elem, nb, ar_blobs ar)"
  "array_parts T nv nb nk ns ar ! Suc (Suc 0) = (at_key T, nk, ar_keys ar)"
  "array_parts T nv nb nk ns ar ! Suc (Suc (Suc 0)) = (byte_elem, ns, ar_states ar)"
  "(array_parts T nv nb nk ns ar)[0 := (at_value T, n, u)] = array_parts T n nb nk ns (ar\<lparr>ar_values := u\<rparr>)"
  "(array_parts T nv nb nk ns ar)[Suc 0 := (byte_elem, n, u)] = array_parts T nv n nk ns (ar\<lparr>ar_blobs := u\<rparr>)"
  "(array_parts T nv nb nk ns ar)[Suc (Suc 0) := (at_key T, n, u)] = array_parts T nv nb n ns (ar\<lparr>ar_keys := u\<rparr>)"
  "(array_parts T nv nb nk ns ar)[Suc (Suc (Suc 0)) := (byte_elem, n, u)] = array_parts T nv nb nk n (ar\<lparr>ar_states := u\<rparr>)"
  "array_parts T nv nb nk ns (ar\<lparr>ar_mask := w\<rparr>) = array_parts T nv nb nk ns ar"
  by (simp_all add: array_parts_def)

context allocator_laws
begin

abbreviation kept where
  "kept T nv nb nk ns ar F D m \<equiv> all_kept (array_parts T nv nb nk ns ar) F D m"

lemma assign_values:
  assumes "os_ok (mm_os m)" and "kept T nv nb nk ns ar F D m" and "types_ok T n"
    and "assign_array al (at_value T) (at_value_ok T) n (ar_values ar) m = (r, u, m')"
  shows "os_ok (mm_os m') \<and> foreign (mm_os m') = foreign (mm_os m) \<and>
    (r = Inr () \<and> kept T n nb nk ns (ar\<lparr>ar_values := u\<rparr>) F D m'
     \<or> r = Inl Runtime_error \<and> u = ar_values ar \<and> kept T nv nb nk ns ar F D m')"
  using assign_kept [OF assms(1,2), of 0 "at_value T" nv "ar_values ar" "at_value_ok T" n r u m'] assms(3,4)
  by (simp add: types_ok_def)

lemma assign_blobs:
  assumes "os_ok (mm_os m)" and "kept T nv nb nk ns ar F D m"
    and "assign_array al byte_elem ok n (ar_blobs ar) m = (r, u, m')"
  shows "os_ok (mm_os m') \<and> foreign (mm_os m') = foreign (mm_os m) \<and>
    (r = Inr () \<and> kept T nv n nk ns (ar\<lparr>ar_blobs := u\<rparr>) F D m'
     \<or> r = Inl Runtime_error \<and> u = ar_blobs ar \<and> kept T nv nb nk ns ar F D m')"
  using assign_kept [OF assms(1,2), of "Suc 0" byte_elem nb "ar_blobs ar" ok n r u m'] assms(3) by simp

lemma assign_keys:
  assumes "os_ok (mm_os m)" and "kept T nv nb nk ns ar F D m" and "types_ok T n"
    and "assign_array al (at_key T) (at_key_ok T) n (ar_keys ar) m = (r, u, m')"
  shows "os_ok (mm_os m') \<and> foreign (mm_os m') = foreign (mm_os m) \<and>
    (r = Inr () \<and> kept T nv nb n ns (ar\<lparr>ar_keys := u\<rparr>) F D m'
     \<or> r = Inl Runtime_error \<and> u = ar_keys ar \<and> kept T nv nb nk ns ar F D m')"
  using assign_kept [OF assms(1,2), of "Suc (Suc 0)" "at_key T" nk "ar_keys ar" "at_key_ok T" n r u m'] assms(3,4)
  by (simp add: types_ok_def)

lemma assign_states:
  assumes "os_ok (mm_os m)" and "kept T nv nb nk ns ar F D m"
    and "assign_array al byte_elem ok n (ar_states ar) m = (r, u, m')"
  shows "os_ok (mm_os m') \<and> foreign (mm_os m') = foreign (mm_os m) \<and>
    (r = Inr () \<and> kept T nv nb nk n (ar\<lparr>ar_states := u\<rparr>) F D m'
     \<or> r = Inl Runtime_error \<and> u = ar_states ar \<and> kept T nv nb nk ns ar F D m')"
  using assign_kept [OF assms(1,2), of "Suc (Suc (Suc 0))" byte_elem ns "ar_states ar" ok n r u m'] assms(3) by simp

lemma alloc_base_gives:
  assumes "os_ok (mm_os m)" and "kept T nv nb nk ns ar F D m" and "types_ok T n" and "alloc_base al T n ar m = (r, ar', m')"
  shows "os_ok (mm_os m') \<and> foreign (mm_os m') = foreign (mm_os m) \<and> ar_mask ar' = make_aligned_mask n (at_kernel_size T)
    \<and> ar_keys ar' = ar_keys ar \<and> ar_states ar' = ar_states ar
    \<and> (\<exists>nv' nb'. kept T nv' nb' nk ns ar' F D m'
        \<and> (r = Inr () \<and> nv' = (if at_has_values T then n else nv) \<and> nb' = (if at_has_blobs T then n * at_stride T else nb)
           \<or> r = Inl Runtime_error))"
proof -
  let ?ar = "ar\<lparr>ar_mask := make_aligned_mask n (at_kernel_size T)\<rparr>"
  obtain r1 u1 m1 where a1: "(if at_has_values T then assign_array al (at_value T) (at_value_ok T) n (ar_values ar) m
      else (Inr (), ar_values ar, m)) = (r1, u1, m1)" by (rule prod_cases3)
  let ?ar1 = "?ar\<lparr>ar_values := u1\<rparr>"
  have k0: "kept T nv nb nk ns ?ar F D m" using assms(2) by simp
  have 1: "os_ok (mm_os m1) \<and> foreign (mm_os m1) = foreign (mm_os m) \<and>
      (r1 = Inr () \<and> kept T (if at_has_values T then n else nv) nb nk ns ?ar1 F D m1
       \<or> r1 = Inl Runtime_error \<and> kept T nv nb nk ns ?ar1 F D m1)"
  proof (cases "at_has_values T")
    case True
    then have "assign_array al (at_value T) (at_value_ok T) n (ar_values ar) m = (r1, u1, m1)" using a1 by simp
    with assign_values [OF assms(1) k0 assms(3), of r1 u1 m1] True show ?thesis by auto
  qed (use a1 assms(1) k0 in auto)
  show ?thesis
  proof (cases r1)
    case (Inl e)
    then have "ar' = ?ar1" "m' = m1" "r = Inl e"
      using assms(4) Inl by (simp_all add: alloc_base_def Let_def a1 cong: if_cong)
    then show ?thesis using 1 Inl by auto
  next
    case (Inr v)
    let ?n = "if at_has_values T then n else nv"
    obtain r2 u2 m2 where a2: "(if at_has_blobs T then assign_array al byte_elem (\<lambda>_. True) (n * at_stride T) (ar_blobs ar) m1
        else (Inr (), ar_blobs ar, m1)) = (r2, u2, m2)" by (rule prod_cases3)
    have "ar' = ?ar1\<lparr>ar_blobs := u2\<rparr>" "m' = m2" "r = r2"
      using assms(4) Inr by (simp_all add: alloc_base_def Let_def a1 a2 cong: if_cong)
    moreover have k1: "os_ok (mm_os m1)" "kept T ?n nb nk ns ?ar1 F D m1" "foreign (mm_os m1) = foreign (mm_os m)"
      using 1 Inr by auto
    have "os_ok (mm_os m2) \<and> foreign (mm_os m2) = foreign (mm_os m) \<and>
        (r2 = Inr () \<and> kept T ?n (if at_has_blobs T then n * at_stride T else nb) nk ns (?ar1\<lparr>ar_blobs := u2\<rparr>) F D m2
         \<or> r2 = Inl Runtime_error \<and> kept T ?n nb nk ns (?ar1\<lparr>ar_blobs := u2\<rparr>) F D m2)"
    proof (cases "at_has_blobs T")
      case True
      then have "assign_array al byte_elem (\<lambda>_. True) (n * at_stride T) (ar_blobs ?ar1) m1 = (r2, u2, m2)" using a2 by simp
      with assign_blobs [OF k1(1,2), of "\<lambda>_. True" "n * at_stride T" r2 u2 m2] True k1(3) show ?thesis by auto
    qed (use a2 k1 in auto)
    ultimately show ?thesis by auto
  qed
qed

lemma alloc_swiss_gives:
  assumes "os_ok (mm_os m)" and "kept T nv nb nk ns ar F D m" and "types_ok T n" and "alloc_swiss al T n ar m = (r, ar', m')"
  shows "os_ok (mm_os m') \<and> foreign (mm_os m') = foreign (mm_os m) \<and> ar_mask ar' = make_aligned_mask n (at_kernel_size T)
    \<and> ar_states ar' = ar_states ar
    \<and> (\<exists>nv' nb' nk'. kept T nv' nb' nk' ns ar' F D m'
        \<and> (r = Inr () \<and> nv' = (if at_has_values T then n else nv) \<and> nb' = (if at_has_blobs T then n * at_stride T else nb) \<and> nk' = n
           \<or> r = Inl Runtime_error))"
proof -
  obtain r1 ar1 m1 where a1: "alloc_base al T n ar m = (r1, ar1, m1)" by (rule prod_cases3)
  note B = alloc_base_gives [OF assms(1-3) a1]
  show ?thesis
  proof (cases r1)
    case (Inl e)
    then show ?thesis using assms(4) a1 B by (auto simp: alloc_swiss_def)
  next
    case (Inr v)
    then obtain nv' nb' where k: "os_ok (mm_os m1)" "kept T nv' nb' nk ns ar1 F D m1"
        and n': "nv' = (if at_has_values T then n else nv)" "nb' = (if at_has_blobs T then n * at_stride T else nb)"
      using B by auto
    obtain r2 u m2 where a2: "assign_array al (at_key T) (at_key_ok T) n (ar_keys ar1) m1 = (r2, u, m2)" by (rule prod_cases3)
    have e: "r = r2" "ar' = ar1\<lparr>ar_keys := u\<rparr>" "m' = m2" using assms(4) Inr by (simp_all add: alloc_swiss_def a1 a2)
    have f: "foreign (mm_os m1) = foreign (mm_os m)" "ar_mask ar1 = make_aligned_mask n (at_kernel_size T)"
      "ar_states ar1 = ar_states ar" using B by auto
    note A = assign_keys [OF k assms(3) a2]
    show ?thesis
    proof (cases "r2 = Inr ()")
      case True
      then show ?thesis using A f e n' by auto
    next
      case False
      then have "r2 = Inl Runtime_error" "ar' = ar1" "kept T nv' nb' nk ns ar1 F D m2" using A e by auto
      then show ?thesis using A f e(1,3) by auto
    qed
  qed
qed

lemma alloc_arrays_gives:
  assumes "os_ok (mm_os m)" and "kept T nv nb nk ns ar F D m" and "types_ok T n" and "alloc_arrays al T n ar m = (r, ar', m')"
  shows "os_ok (mm_os m') \<and> foreign (mm_os m') = foreign (mm_os m) \<and> ar_mask ar' = make_aligned_mask n (at_kernel_size T)
    \<and> (r = Inr () \<and> kept T (if at_has_values T then n else nv) (if at_has_blobs T then n * at_stride T else nb) n n ar' F D m'
       \<or> r = Inl Runtime_error \<and> ar_states ar' = ar_states ar \<and> (\<exists>nv' nb' nk'. kept T nv' nb' nk' ns ar' F D m'))"
proof -
  obtain r1 ar1 m1 where a1: "alloc_swiss al T n ar m = (r1, ar1, m1)" by (rule prod_cases3)
  note B = alloc_swiss_gives [OF assms(1-3) a1]
  show ?thesis
  proof (cases r1)
    case (Inl e)
    then have "r = Inl e" "ar' = ar1" "m' = m1" using assms(4) a1 by (simp_all add: alloc_arrays_def)
    then show ?thesis using B Inl by auto
  next
    case (Inr v)
    let ?v = "if at_has_values T then n else nv" and ?b = "if at_has_blobs T then n * at_stride T else nb"
    have k: "os_ok (mm_os m1)" "kept T ?v ?b n ns ar1 F D m1" using B Inr by auto
    obtain r2 u m2 where a2: "assign_array al byte_elem (\<lambda>_. True) n (ar_states ar1) m1 = (r2, u, m2)" by (rule prod_cases3)
    have e: "r = r2" "ar' = ar1\<lparr>ar_states := u\<rparr>" "m' = m2" using assms(4) Inr by (simp_all add: alloc_arrays_def a1 a2)
    note A = assign_states [OF k a2]
    have f: "foreign (mm_os m1) = foreign (mm_os m)" "ar_mask ar1 = make_aligned_mask n (at_kernel_size T)"
      "ar_states ar1 = ar_states ar" using B by auto
    show ?thesis
    proof (cases "r2 = Inr ()")
      case True
      then show ?thesis using A f e by simp
    next
      case False
      then have "r2 = Inl Runtime_error" "ar' = ar1" "kept T ?v ?b n ns ar1 F D m2" using A e by auto
      then show ?thesis using A f e(1,3) by auto
    qed
  qed
qed

lemma drop_arrays_gives:
  assumes "os_ok (mm_os m)" and "kept T nv nb nk ns ar F D m" and "elem_ok (at_value T)" and "elem_ok (at_key T)"
  shows "os_ok (mm_os (drop_arrays al T ar m)) \<and> foreign (mm_os (drop_arrays al T ar m)) = foreign (mm_os m)
    \<and> owned (mm_os (drop_arrays al T ar m)) = F \<and> mm_due (drop_arrays al T ar m) = D"
proof -
  let ?z = "(0, al_none al)"
  let ?m1 = "drop_unique al byte_elem (ar_states ar) m"
  note 1 = drop_kept [OF assms(1,2), of "Suc (Suc (Suc 0))" byte_elem ns "ar_states ar", simplified]
  let ?m2 = "drop_unique al (at_key T) (ar_keys ar) ?m1"
  note 2 = drop_kept [OF 1(1,3), of "Suc (Suc 0)" "at_key T" nk "ar_keys ar", simplified, OF assms(4)]
  let ?m3 = "drop_unique al byte_elem (ar_blobs ar) ?m2"
  note 3 = drop_kept [OF 2(1,3), of "Suc 0" byte_elem nb "ar_blobs ar", simplified]
  note 4 = drop_kept [OF 3(1,3), of 0 "at_value T" nv "ar_values ar", simplified, OF assms(3)]
  have "owned (mm_os (drop_arrays al T ar m)) = F \<and> mm_due (drop_arrays al T ar m) = D"
    using 4(3) unfolding drop_arrays_def by (rule keeps_nulls) (auto simp: array_parts_def)
  then show ?thesis using 1 2 3 4 by (simp add: drop_arrays_def)
qed

lemma kept_nothing: "kept T 0 0 0 0 (no_arrays al w) (owned (mm_os m)) (mm_due m) m"
  by (rule keeps_no_region) (auto simp: array_parts_def no_arrays_def)

lemma construct_arrays_gives:
  assumes "os_ok (mm_os m)" and "types_ok T n"
  shows "constructs al owned foreign holds T n m"
proof -
  obtain r1 ar m1 where a: "alloc_arrays al T n (no_arrays al (make_aligned_mask n (at_kernel_size T))) m = (r1, ar, m1)"
    by (rule prod_cases3)
  note A = alloc_arrays_gives [OF assms(1) kept_nothing assms(2) a]
  show ?thesis
  proof (cases r1)
    case (Inl e)
    then obtain nv nb nk where k: "os_ok (mm_os m1)" "foreign (mm_os m1) = foreign (mm_os m)" "e = Runtime_error"
        "kept T nv nb nk 0 ar (owned (mm_os m)) (mm_due m) m1" using A by auto
    have "elem_ok (at_value T)" "elem_ok (at_key T)" using assms(2) by (simp_all add: types_ok_def)
    note D = drop_arrays_gives [OF k(1,4) this]
    show ?thesis using a D k(2,3) Inl by (simp add: constructs_def construct_arrays_def)
  next
    case (Inr v)
    then show ?thesis using a A by (auto simp: constructs_def construct_arrays_def)
  qed
qed

end

lemma nvhm_log_simps [simp]: "mm_os (nvhm_log B lvl m) = mm_os m" "mm_due (nvhm_log B lvl m) = mm_due m"
  by (simp_all add: nvhm_log_def)

lemma destroy_elems_simps [simp]: "mm_os (destroy_elems t n m) = mm_os m"
  by (simp add: destroy_elems_def)

lemma destroy_due: "elem_ok t \<Longrightarrow> 0 < n \<Longrightarrow> mm_due (destroy_elems t n m) = mm_due m - due_of t n"
  by (auto simp: destroy_elems_def due_of_def elem_ok_def)

locale allocating = os_memory B os heap maps os_ok
  for B :: mem_build and os :: "'s os_ops" and heap maps :: "'s \<Rightarrow> (int \<times> int) set" and os_ok :: "'s \<Rightarrow> bool" +
  fixes A :: alloc_params
begin

lemma madv_alloc_gives:
  assumes "os_ok (mm_os m)" and "0 < n" and "elem_ok t" and "madv_alloc B A os t n m = (r, m')"
  shows "os_ok (mm_os m') \<and> mm_due m' = mm_due m \<and> maps (mm_os m') = maps (mm_os m)
    \<and> (case r of Inl e \<Rightarrow> e = Runtime_error \<and> heap (mm_os m') = heap (mm_os m)
       | Inr (p, d) \<Rightarrow> d = n \<and> served (Some p) (b_line B) (snd (alloc_size B A t n)) (heap (mm_os m)) (maps (mm_os m)) (heap (mm_os m')))"
proof -
  obtain al nb where s: "alloc_size B A t n = (al, nb)" by (cases "alloc_size B A t n")
  have b: "0 < e_bytes t" using assms(3) by (simp add: elem_ok_def)
  note F = alloc_size_facts [OF build assms(2) b s]
  obtain q s1 where a: "os_aligned_alloc os al nb (mm_os m) = (q, s1)" by (cases "os_aligned_alloc os al nb (mm_os m)")
  note L = aligned_alloc [OF assms(1) F(7) F(3) F(2) a]
  show ?thesis
  proof (cases q)
    case None
    then show ?thesis using assms(2,4) L by (auto simp: madv_alloc_def s a served_def Let_def)
  next
    case (Some p)
    then have d: "b_line B dvd p" using L F(4) by (auto simp: served_def intro: dvd_trans)
    obtain ok s2 where v: "os_madvise os p nb s1 = (ok, s2)" by (cases "os_madvise os p nb s1")
    have L2: "os_ok s2 \<and> heap s2 = heap s1 \<and> maps s2 = maps s1" using madvise [OF _ v] L by blast
    show ?thesis using assms(2,4) L L2 d Some by (auto simp: madv_alloc_def s a v served_def Let_def split: if_splits)
  qed
qed

lemma map_flags_fit:
  assumes "0 < n" and "0 < e_bytes t" and "alloc_size B A' t n = (al, nb)"
  shows "fst (map_flags B A al m) = b_map_flags B \<or> b_hugepage B dvd nb"
    and "mm_os (snd (map_flags B A al m)) = mm_os m" and "mm_due (snd (map_flags B A al m)) = mm_due m"
proof -
  show "fst (map_flags B A al m) = b_map_flags B \<or> b_hugepage B dvd nb"
    using alloc_size_facts(8) [OF build assms] by (auto simp: map_flags_def split: option.splits)
  show "mm_os (snd (map_flags B A al m)) = mm_os m" "mm_due (snd (map_flags B A al m)) = mm_due m"
    by (auto simp: map_flags_def split: option.splits)
qed

lemma mmap_alloc_gives:
  assumes "os_ok (mm_os m)" and "0 < n" and "elem_ok t" and "mmap_alloc B A os t n m = (r, m')"
  shows "os_ok (mm_os m') \<and> mm_due m' = mm_due m \<and> heap (mm_os m') = heap (mm_os m)
    \<and> (case r of Inl e \<Rightarrow> e = Runtime_error \<and> maps (mm_os m') = maps (mm_os m)
       | Inr (p, d) \<Rightarrow> fst d = n \<and> n * e_bytes t \<le> snd d
           \<and> served (Some p) (b_line B) (snd d) (maps (mm_os m)) (heap (mm_os m)) (maps (mm_os m')))"
proof -
  let ?A = "A\<lparr>ap_page_align := True\<rparr>"
  obtain al nb where s: "alloc_size B ?A t n = (al, nb)" by (cases "alloc_size B ?A t n")
  have b: "0 < e_bytes t" using assms(3) by (simp add: elem_ok_def)
  note F = alloc_size_facts [OF build assms(2) b s]
  obtain fl m1 where f: "map_flags B A al m = (fl, m1)" by (cases "map_flags B A al m")
  note G = map_flags_fit [OF assms(2) b s, where m = m, unfolded f fst_conv snd_conv]
  have pg: "b_line B dvd p" if "b_page B dvd p" for p using that build_okD(4) [OF build] by (rule dvd_trans [rotated])
  obtain q s1 where a: "os_mmap os nb fl (mm_os m1) = (q, s1)" by (cases "os_mmap os nb fl (mm_os m1)")
  have "os_ok (mm_os m1)" using G assms(1) by simp
  note L = mmap [OF this F(7) G(1) a]
  obtain q2 s2 where a2: "os_mmap os nb (b_map_flags B) s1 = (q2, s2)" by (cases "os_mmap os nb (b_map_flags B) s1")
  have L2: "os_ok s2 \<and> heap s2 = heap s1 \<and> served q2 (b_page B) nb (maps s1) (heap s1) (maps s2)"
    using mmap [OF _ F(7) _ a2] L by blast
  show ?thesis
  proof (cases "fl \<noteq> b_map_flags B \<and> q = None")
    case True
    then have "mmap_alloc B A os t n m = (case q2 of
        None \<Rightarrow> (Inl Runtime_error, (nvhm_log B Log_error (m1\<lparr>mm_os := s1\<rparr>))\<lparr>mm_os := s2\<rparr>)
      | Some p \<Rightarrow> (Inr (p, n, nb), (nvhm_log B Log_error (m1\<lparr>mm_os := s1\<rparr>))\<lparr>mm_os := s2\<rparr>))"
      using assms(2) by (simp add: mmap_alloc_def s f a a2 Let_def)
    then show ?thesis using assms(4) L L2 G F(5) pg True by (cases q2) (auto simp: served_def)
  next
    case False
    then have "mmap_alloc B A os t n m = (case q of
        None \<Rightarrow> (Inl Runtime_error, m1\<lparr>mm_os := s1\<rparr>) | Some p \<Rightarrow> (Inr (p, n, nb), m1\<lparr>mm_os := s1\<rparr>))"
      using assms(2) by (auto simp: mmap_alloc_def s f a Let_def)
    then show ?thesis using assms(4) L G F(5) pg False by (cases q) (auto simp: served_def)
  qed
qed

text \<open>The laws of the two allocators: the deleter of the first holds the number of elements, that of the second the bytes too.\<close>

lemma madv_laws: "allocator_laws (madv_allocator B A os) heap maps os_ok (b_line B) (\<lambda>t n d b. d = n)"
proof
  fix n t and m m' :: "'s mem" and p d b e
  show "n \<le> 0 \<Longrightarrow> al_alloc (madv_allocator B A os) t n m = (Inr (0, al_none (madv_allocator B A os)), m)"
    by (simp add: madv_allocator_def madv_alloc_def)
  show "e = Runtime_error \<and> os_ok (mm_os m') \<and> mm_due m' = mm_due m
      \<and> heap (mm_os m') = heap (mm_os m) \<and> maps (mm_os m') = maps (mm_os m)"
    if "os_ok (mm_os m)" and "0 < n" and "elem_ok t" and "al_alloc (madv_allocator B A os) t n m = (Inl e, m')"
    using madv_alloc_gives [OF that(1-3), of "Inl e" m'] that(4) by (simp add: madv_allocator_def)
  show "os_ok (mm_os m') \<and> mm_due m' = mm_due m \<and> maps (mm_os m') = maps (mm_os m)
      \<and> (\<exists>b. d = n \<and> n * e_bytes t \<le> b \<and> 0 < p \<and> b_line B dvd p
           \<and> fresh p b (heap (mm_os m) \<union> maps (mm_os m)) \<and> heap (mm_os m') = insert (p, b) (heap (mm_os m)))"
    if "os_ok (mm_os m)" and "0 < n" and "elem_ok t" and "al_alloc (madv_allocator B A os) t n m = (Inr (p, d), m')"
    using madv_alloc_gives [OF that(1-3), of "Inr (p, d)" m'] that(4)
      alloc_size_facts(5) [OF build that(2), of t A "fst (alloc_size B A t n)" "snd (alloc_size B A t n)"] that(3)
    by (auto simp: madv_allocator_def served_def elem_ok_def intro!: exI [of _ "snd (alloc_size B A t n)"])
  show "os_ok (mm_os (al_delete (madv_allocator B A os) t d p m))
      \<and> mm_due (al_delete (madv_allocator B A os) t d p m) = mm_due m - due_of t n
      \<and> maps (mm_os (al_delete (madv_allocator B A os) t d p m)) = maps (mm_os m)
      \<and> heap (mm_os (al_delete (madv_allocator B A os) t d p m)) = heap (mm_os m) - {(p, b)}"
    if "os_ok (mm_os m)" and "elem_ok t" and "0 < n" and "d = n" and "(p, b) \<in> heap (mm_os m)"
    using free [OF that(1,5)] destroy_due [OF that(2,3), of m] that(4)
    by (simp add: madv_allocator_def madv_delete_def Let_def)
qed

lemma mmap_laws: "allocator_laws (mmap_allocator B A os) maps heap os_ok (b_line B) (\<lambda>t n d b. d = (n, b))"
proof
  fix n t and m m' :: "'s mem" and p d b e
  show "n \<le> 0 \<Longrightarrow> al_alloc (mmap_allocator B A os) t n m = (Inr (0, al_none (mmap_allocator B A os)), m)"
    by (simp add: mmap_allocator_def mmap_alloc_def)
  show "e = Runtime_error \<and> os_ok (mm_os m') \<and> mm_due m' = mm_due m
      \<and> maps (mm_os m') = maps (mm_os m) \<and> heap (mm_os m') = heap (mm_os m)"
    if "os_ok (mm_os m)" and "0 < n" and "elem_ok t" and "al_alloc (mmap_allocator B A os) t n m = (Inl e, m')"
    using mmap_alloc_gives [OF that(1-3), of "Inl e" m'] that(4) by (simp add: mmap_allocator_def)
  show "os_ok (mm_os m') \<and> mm_due m' = mm_due m \<and> heap (mm_os m') = heap (mm_os m)
      \<and> (\<exists>b. d = (n, b) \<and> n * e_bytes t \<le> b \<and> 0 < p \<and> b_line B dvd p
           \<and> fresh p b (maps (mm_os m) \<union> heap (mm_os m)) \<and> maps (mm_os m') = insert (p, b) (maps (mm_os m)))"
    if "os_ok (mm_os m)" and "0 < n" and "elem_ok t" and "al_alloc (mmap_allocator B A os) t n m = (Inr (p, d), m')"
    using mmap_alloc_gives [OF that(1-3), of "Inr (p, d)" m'] that(4)
    by (cases d) (auto simp: mmap_allocator_def served_def)
  show "os_ok (mm_os (al_delete (mmap_allocator B A os) t d p m))
      \<and> mm_due (al_delete (mmap_allocator B A os) t d p m) = mm_due m - due_of t n
      \<and> heap (mm_os (al_delete (mmap_allocator B A os) t d p m)) = heap (mm_os m)
      \<and> maps (mm_os (al_delete (mmap_allocator B A os) t d p m)) = maps (mm_os m) - {(p, b)}"
    if "os_ok (mm_os m)" and "elem_ok t" and "0 < n" and "d = (n, b)" and "(p, b) \<in> maps (mm_os m)"
  proof -
    obtain yes s' where u: "os_munmap os p b (mm_os m) = (yes, s')" by (cases "os_munmap os p b (mm_os m)")
    show ?thesis
      using munmap [OF that(1,5) u] destroy_due [OF that(2,3), of m] that(4) u
      by (simp add: mmap_allocator_def mmap_delete_def Let_def)
  qed
qed

end

sublocale allocating \<subseteq> madv: allocator_laws "madv_allocator B A os" heap maps os_ok "b_line B" "\<lambda>t n d b. d = n"
  by (rule madv_laws)

sublocale allocating \<subseteq> mmaps: allocator_laws "mmap_allocator B A os" maps heap os_ok "b_line B" "\<lambda>t n d b. d = (n, b)"
  by (rule mmap_laws)

end
