(* ===== verification/MemoryResize.thy ===== *)
theory MemoryResize
  imports MemoryLaws MapModels
begin

text \<open>
  What resizing a map does to its arrays: the passes of \<open>map::resize_\<close>, with the entries of the map deciding
  whether a pass fits, and the regions held after a resize that returns and after one that throws.
\<close>

section \<open>The passes\<close>

text \<open>
  \<open>map::resize_\<close>, as far as the arrays go, on a map with the contents \<open>src\<close>. The old arrays are moved out
  before the first allocation. Each pass allocates for twice the capacity of the pass before it; whether the
  entries then go in is decided by \<open>resize_try\<close>, the pass of the model of the map. Where a bounded probe
  sequence runs out of buckets there is another pass; an unbounded one throws. In every case the locals that
  hold the old arrays are destroyed at the end.
\<close>

partial_function (option) resize_passes ::
    "('k, 'v, 'r, 'l, 'm, 'q) map_params \<Rightarrow> ('k, 'v) map_state \<Rightarrow> ('s, 'd) allocator \<Rightarrow> array_types \<Rightarrow> int \<Rightarrow> 'd arrays \<Rightarrow> 's mem
      \<Rightarrow> ((exn + int) \<times> 'd arrays \<times> 's mem) option" where
  "resize_passes P src al T end1 ar m = (case alloc_arrays al T end1 ar m of
     (Inl e, ar, m) \<Rightarrow> Some (Inl e, ar, m)
   | (Inr _, ar, m) \<Rightarrow> (case resize_try P src (capacity P src) end1 of
         None \<Rightarrow> None
       | Some None \<Rightarrow> if pm_bounded P then resize_passes P src al T (2 * end1) ar m else Some (Inl Runtime_error, ar, m)
       | Some (Some _) \<Rightarrow> Some (Inr end1, ar, m)))"

definition resize_arrays ::
    "('k, 'v, 'r, 'l, 'm, 'q) map_params \<Rightarrow> ('k, 'v) map_state \<Rightarrow> ('s, 'd) allocator \<Rightarrow> array_types \<Rightarrow> int \<Rightarrow> 'd arrays \<Rightarrow> 's mem
      \<Rightarrow> ((exn + int) \<times> 'd arrays \<times> 's mem) option" where
  "resize_arrays P src al T end1 old m = (
     let end1 = resize_target P end1 src
     in if end1 = capacity P src then Some (Inr end1, old, m)
        else map_option (\<lambda>(r, ar, m). (r, ar, drop_arrays al T old m))
          (resize_passes P src al T end1 (no_arrays al (ar_mask old)) m))"

declare resize_passes.simps [code]

section \<open>What is held afterwards\<close>

definition holds_arrays ::
    "('s \<Rightarrow> (int \<times> int) set) \<Rightarrow> (elem \<Rightarrow> int \<Rightarrow> 'd \<Rightarrow> int \<Rightarrow> bool) \<Rightarrow> array_types \<Rightarrow> int \<Rightarrow> 'd arrays \<Rightarrow> (int \<times> int) set \<Rightarrow> int \<Rightarrow> 's mem \<Rightarrow> bool" where
  "holds_arrays own holds T n ar F D m \<longleftrightarrow> ar_mask ar = make_aligned_mask n (at_kernel_size T)
     \<and> keeps_all holds (array_parts T (if at_has_values T then n else 0) (if at_has_blobs T then n * at_stride T else 0) n n ar)
         F D (own (mm_os m)) (mm_due m)"

text \<open>
  After a resize that returns \<open>n\<close> the map owns arrays for \<open>n\<close> slots. After one that throws it has the
  mask of the last pass, \<open>n\<close>, but its state array is missing, or is the one of the pass before, for half as many
  slots (\<open>ns\<close> says which); only when no pass may follow a failed one is it for \<open>n\<close>. Either way what the allocator
  has handed out, \<open>own\<close>, is what others hold, \<open>F\<close>, and the arrays the map has now: none of the old ones.
\<close>

definition resize_leaves ::
    "('k, 'v, 'r, 'l, 'm, 'q) map_params \<Rightarrow> ('k, 'v) map_state \<Rightarrow> ('s \<Rightarrow> (int \<times> int) set) \<Rightarrow> ('s \<Rightarrow> (int \<times> int) set)
      \<Rightarrow> (elem \<Rightarrow> int \<Rightarrow> 'd \<Rightarrow> int \<Rightarrow> bool) \<Rightarrow> array_types \<Rightarrow> (int \<times> int) set \<Rightarrow> int \<Rightarrow> 's mem \<Rightarrow> (exn + int) \<times> 'd arrays \<times> 's mem \<Rightarrow> bool" where
  "resize_leaves P src own other holds T F D m res \<longleftrightarrow> (case res of (r, ar, m') \<Rightarrow> other (mm_os m') = other (mm_os m) \<and> (case r of
      Inr n \<Rightarrow> holds_arrays own holds T n ar F D m'
    | Inl e \<Rightarrow> e = Runtime_error \<and> (\<exists>n nv nb nk ns. ar_mask ar = make_aligned_mask n (at_kernel_size T)
        \<and> (ns = 0 \<or> 2 * ns = n \<or> \<not> pm_bounded P \<and> resize_try P src (capacity P src) n = Some None)
        \<and> keeps_all holds (array_parts T nv nb nk ns ar) F D (own (mm_os m')) (mm_due m'))))"

lemma resize_throws:
  assumes "other (mm_os m') = other (mm_os m)" and "ar_mask ar = make_aligned_mask n (at_kernel_size T)"
    and "keeps_all holds (array_parts T nv nb nk ns ar) F D (own (mm_os m')) (mm_due m')"
    and "ns = 0 \<or> 2 * ns = n \<or> \<not> pm_bounded P \<and> resize_try P src (capacity P src) n = Some None"
  shows "resize_leaves P src own other holds T F D m (Inl Runtime_error, ar, m')"
  unfolding resize_leaves_def prod.case sum.case using assms by blast

lemma resize_throwsE:
  assumes "resize_leaves P src own other holds T F D m (Inl e, ar, m')"
  obtains n nv nb nk ns where "e = Runtime_error" and "other (mm_os m') = other (mm_os m)" and "ar_mask ar = make_aligned_mask n (at_kernel_size T)"
    and "keeps_all holds (array_parts T nv nb nk ns ar) F D (own (mm_os m')) (mm_due m')"
    and "ns = 0 \<or> 2 * ns = n \<or> \<not> pm_bounded P \<and> resize_try P src (capacity P src) n = Some None"
  using assms unfolding resize_leaves_def prod.case sum.case by blast

context allocator_laws
begin

lemma resize_passes_gives:
  assumes "resize_passes P src al T n ar m = Some (r, ar', m')" and "\<And>n. types_ok T n"
    and "os_ok (mm_os m)" and "kept T nv nb nk ns ar F D m" and "ns = 0 \<or> 2 * ns = n"
    and "\<not> at_has_values T \<longrightarrow> nv = 0" and "\<not> at_has_blobs T \<longrightarrow> nb = 0"
  shows "os_ok (mm_os m') \<and> resize_leaves P src owned foreign holds T F D m (r, ar', m')"
proof -
  let ?Q = "\<lambda>((((((P, src), al1), T1), n), ar), m) (r, ar', m'). al1 = al \<longrightarrow> T1 = T \<longrightarrow> (\<forall>nv nb nk ns. os_ok (mm_os m) \<longrightarrow> kept T nv nb nk ns ar F D m
      \<longrightarrow> (ns = 0 \<or> 2 * ns = n) \<longrightarrow> (\<not> at_has_values T \<longrightarrow> nv = 0) \<longrightarrow> (\<not> at_has_blobs T \<longrightarrow> nb = 0)
      \<longrightarrow> os_ok (mm_os m') \<and> resize_leaves P src owned foreign holds T F D m (r, ar', m'))"
  have "?Q ((((((P, src), al), T), n), ar), m) (r, ar', m')"
  proof (rule resize_passes.raw_induct [OF _ assms(1), where Pa = ?Q])
    fix f P src al1 T1 end1 ar m res
    assume IH: "\<And>P src al1 T1 n ar m res. f P src al1 T1 n ar m = Some res \<Longrightarrow> ?Q ((((((P, src), al1), T1), n), ar), m) res"
      and step: "(case alloc_arrays al1 T1 end1 ar m of
          (Inl e, ar, m) \<Rightarrow> Some (Inl e, ar, m)
        | (Inr _, ar, m) \<Rightarrow> (case resize_try P src (capacity P src) end1 of
            None \<Rightarrow> None
          | Some None \<Rightarrow> if pm_bounded P then f P src al1 T1 (2 * end1) ar m else Some (Inl Runtime_error, ar, m)
          | Some (Some _) \<Rightarrow> Some (Inr end1, ar, m))) = Some res"
    obtain r ar' m' where res: "res = (r, ar', m')" by (rule prod_cases3)
    obtain r1 ar1 m1 where a: "alloc_arrays al1 T1 end1 ar m = (r1, ar1, m1)" by (rule prod_cases3)
    show "?Q ((((((P, src), al1), T1), end1), ar), m) res" unfolding res prod.case
    proof (intro impI allI)
      fix nv nb nk ns
      assume al1: "al1 = al" "T1 = T" and k: "os_ok (mm_os m)" "kept T nv nb nk ns ar F D m"
        and ns: "ns = 0 \<or> 2 * ns = end1" and opt: "\<not> at_has_values T \<longrightarrow> nv = 0" "\<not> at_has_blobs T \<longrightarrow> nb = 0"
      let ?v = "if at_has_values T then end1 else 0" and ?b = "if at_has_blobs T then end1 * at_stride T else 0"
      note A = alloc_arrays_gives [OF k assms(2) a [unfolded al1]]
      show "os_ok (mm_os m') \<and> resize_leaves P src owned foreign holds T F D m (r, ar', m')"
      proof (cases r1)
        case (Inl e)
        then have "r = Inl e" "ar' = ar1" "m' = m1" using step by (simp_all add: res a)
        moreover obtain nv' nb' nk' where "kept T nv' nb' nk' ns ar1 F D m1" "os_ok (mm_os m1)" "foreign (mm_os m1) = foreign (mm_os m)"
            "ar_mask ar1 = make_aligned_mask end1 (at_kernel_size T)" "e = Runtime_error" using A Inl by auto
        ultimately show ?thesis using ns resize_throws [of foreign m1 m] by blast
      next
        case (Inr v)
        then have k1: "os_ok (mm_os m1)" "foreign (mm_os m1) = foreign (mm_os m)" "ar_mask ar1 = make_aligned_mask end1 (at_kernel_size T)"
            "kept T ?v ?b end1 end1 ar1 F D m1" using A opt by (auto split: if_splits)
        obtain t where t: "resize_try P src (capacity P src) end1 = Some t" using step a Inr by (auto split: option.splits)
        show ?thesis
        proof (cases t)
          case (Some src')
          then have "r = Inr end1" "ar' = ar1" "m' = m1" using step by (simp_all add: res a Inr t)
          then show ?thesis using k1 by (simp add: resize_leaves_def holds_arrays_def)
        next
          case None
          show ?thesis
          proof (cases "pm_bounded P")
            case True
            then have "f P src al1 T1 (2 * end1) ar1 m1 = Some (r, ar', m')" using step by (simp add: res a Inr t None)
            then have "f P src al T (2 * end1) ar1 m1 = Some (r, ar', m')" using al1 by simp
            then have "os_ok (mm_os m') \<and> resize_leaves P src owned foreign holds T F D m1 (r, ar', m')"
              using IH k1(1,4) by fastforce
            then show ?thesis using k1(2) by (simp add: resize_leaves_def)
          next
            case False
            then have "r = Inl Runtime_error" "ar' = ar1" "m' = m1" using step by (simp_all add: res a Inr t None)
            then show ?thesis using k1 t None False resize_throws [of foreign m1 m] by blast
          qed
        qed
      qed
    qed
  qed
  then show ?thesis unfolding prod.case using assms(3-) by blast
qed

text \<open>The old arrays are dropped last; the regions of the new ones are not theirs.\<close>

lemma resize_arrays_gives:
  assumes "os_ok (mm_os m)" and "\<And>n. types_ok T n" and "holds_arrays owned holds T (capacity P src) old F D m"
    and "resize_arrays P src al T n old m = Some (r, ar, m')"
  shows "os_ok (mm_os m') \<and> resize_leaves P src owned foreign holds T F D m (r, ar, m')"
proof (cases "resize_target P n src = capacity P src")
  case True
  then show ?thesis using assms by (auto simp: resize_arrays_def resize_leaves_def)
next
  case False
  then obtain m1 where p: "resize_passes P src al T (resize_target P n src) (no_arrays al (ar_mask old)) m = Some (r, ar, m1)"
      and m': "m' = drop_arrays al T old m1"
    using assms(4) by (auto simp: resize_arrays_def Let_def)
  note G = resize_passes_gives [OF p assms(2,1) kept_nothing, simplified]
  obtain nv nb nk ns where old: "kept T nv nb nk ns old F D m" using assms(3) by (auto simp: holds_arrays_def)
  have F: "F \<subseteq> owned (mm_os m)" using old by (rule keeps_frame_subset)
  have moved: "os_ok (mm_os m') \<and> foreign (mm_os m') = foreign (mm_os m1) \<and> kept T nv' nb' nk' ns' ar F D m'"
    if k: "kept T nv' nb' nk' ns' ar (owned (mm_os m)) (mm_due m) m1" for nv' nb' nk' ns'
  proof -
    have "kept T nv nb nk ns old (F \<union> (owned (mm_os m1) - owned (mm_os m))) (D + (mm_due m1 - mm_due m)) m1"
      using keeps_frame [OF old keeps_frame_subset [OF k], of "mm_due m1 - mm_due m"] by simp
    moreover have "elem_ok (at_value T)" "elem_ok (at_key T)" using assms(2) by (simp_all add: types_ok_def)
    ultimately have D: "os_ok (mm_os m')" "foreign (mm_os m') = foreign (mm_os m1)"
        "owned (mm_os m') = F \<union> (owned (mm_os m1) - owned (mm_os m))" "mm_due m' = D + (mm_due m1 - mm_due m)"
      using drop_arrays_gives G by (auto simp: m')
    show ?thesis using keeps_shrink [OF k F, of D] by (simp only: D simp_thms)
  qed
  show ?thesis
  proof (cases r)
    case (Inr n1)
    then show ?thesis using G moved by (auto simp: resize_leaves_def holds_arrays_def)
  next
    case (Inl e)
    have G': "resize_leaves P src owned foreign holds T (owned (mm_os m)) (mm_due m) m (Inl e, ar, m1)" using G Inl by simp
    show ?thesis
    proof (rule resize_throwsE [OF G'])
      fix n1 nv' nb' nk' ns'
      assume x: "e = Runtime_error" "foreign (mm_os m1) = foreign (mm_os m)" "ar_mask ar = make_aligned_mask n1 (at_kernel_size T)"
        "kept T nv' nb' nk' ns' ar (owned (mm_os m)) (mm_due m) m1"
        "ns' = 0 \<or> 2 * ns' = n1 \<or> \<not> pm_bounded P \<and> resize_try P src (capacity P src) n1 = Some None"
      have "foreign (mm_os m') = foreign (mm_os m)" "kept T nv' nb' nk' ns' ar F D m'" using moved [OF x(4)] x(2) by simp_all
      then have "resize_leaves P src owned foreign holds T F D m (Inl Runtime_error, ar, m')" by (rule resize_throws [OF _ x(3) _ x(5)])
      then show ?thesis using Inl moved [OF x(4)] x(1) by simp
    qed
  qed
qed

end

section \<open>A resize of the arrays ends when that of the map does\<close>

lemma resize_passes_end:
  fixes al :: "('s, 'd) allocator"
  assumes "resize_loop P src (capacity P src) n = Some x"
  shows "\<exists>r ar' m'. resize_passes P src al T n ar m = Some (r, ar', m') \<and> (\<forall>n'. r = Inr n' \<longrightarrow> (\<exists>src'. x = Inr (n', src')))"
proof -
  let ?Q = "\<lambda>(((P, src), e), n) x. e = capacity P src \<longrightarrow> (\<forall>(ar :: 'd arrays) (m :: 's mem). \<exists>r ar' m'. resize_passes P src al T n ar m = Some (r, ar', m')
    \<and> (\<forall>n'. r = Inr n' \<longrightarrow> (\<exists>src'. x = Inr (n', src'))))"
  have "?Q (((P, src), capacity P src), n) x"
  proof (rule resize_loop.raw_induct [OF _ assms, where Pa = ?Q])
    fix f P src e n x
    assume IH: "\<And>P src e n x. f P src e n = Some x \<Longrightarrow> ?Q (((P, src), e), n) x"
      and step: "(case resize_try P src e n of
          None \<Rightarrow> None
        | Some None \<Rightarrow> if pm_bounded P then f P src e (2 * n) else Some (Inl Runtime_error)
        | Some (Some m') \<Rightarrow> Some (Inr (n, m'))) = Some x"
    show "?Q (((P, src), e), n) x" unfolding prod.case
    proof (intro impI allI)
      fix ar :: "'d arrays" and m :: "'s mem"
      assume e: "e = capacity P src"
      obtain r1 ar1 m1 where a: "alloc_arrays al T n ar m = (r1, ar1, m1)" by (rule prod_cases3)
      show "\<exists>r ar' m'. resize_passes P src al T n ar m = Some (r, ar', m') \<and> (\<forall>n'. r = Inr n' \<longrightarrow> (\<exists>src'. x = Inr (n', src')))"
      proof (cases r1)
        case (Inl v)
        then show ?thesis by (subst resize_passes.simps) (simp add: a)
      next
        case (Inr v)
        then show ?thesis using step IH [of P src e "2 * n" x] e
          by (subst resize_passes.simps) (auto simp: a split: option.splits if_splits)
      qed
    qed
  qed
  then show ?thesis unfolding prod.case by blast
qed

lemma resize_arrays_end:
  assumes "resize_map P n src = Some x"
  obtains r ar m' where "resize_arrays P src al T n old m = Some (r, ar, m')" and "\<And>n'. r = Inr n' \<Longrightarrow> \<exists>src'. x = Inr (n', src')"
proof (cases "resize_target P n src = capacity P src")
  case True
  then show thesis using assms that by (auto simp: resize_map_def resize_arrays_def Let_def)
next
  case False
  then obtain y where y: "resize_loop P src (capacity P src) (resize_target P n src) = Some y"
      and x: "x = map_sum id (\<lambda>(end1, m'). (end1, m'\<lparr>m_num_empty := m_num_empty m' - (capacity P src - num_not_hash_slots src)\<rparr>)) y"
    using assms by (auto simp: resize_map_def Let_def)
  obtain r ar m1 where p: "resize_passes P src al T (resize_target P n src) (no_arrays al (ar_mask old)) m = Some (r, ar, m1)"
      "\<forall>n'. r = Inr n' \<longrightarrow> (\<exists>src'. y = Inr (n', src'))" using resize_passes_end [OF y] by blast
  show thesis
  proof (rule that)
    show "resize_arrays P src al T n old m = Some (r, ar, drop_arrays al T old m1)" using False p(1) by (simp add: resize_arrays_def)
    show "\<exists>src'. x = Inr (n', src')" if "r = Inr n'" for n' using p(2) that x by auto
  qed
qed

end
