(* ===== verification/MemoryProps.thy ===== *)
theory MemoryProps
  imports MemoryResize MapDemo
begin

text \<open>
  The properties of the allocators and of the arrays built with them, with a reference system that
  hands out ever growing addresses and refuses requests as told, on which the laws hold and the
  witnesses run.
\<close>

section \<open>A reference system\<close>

record system =
  sy_next :: int
  sy_heap :: "(int \<times> int) list"
  sy_maps :: "(int \<times> int) list"
  sy_grants :: "bool list"

definition sy_ask :: "system \<Rightarrow> bool \<times> system" where
  "sy_ask s = (case sy_grants s of [] \<Rightarrow> (True, s) | b # bs \<Rightarrow> (b, s\<lparr>sy_grants := bs\<rparr>))"

definition sy_aligned_alloc :: "int \<Rightarrow> int \<Rightarrow> system \<Rightarrow> int option \<times> system" where
  "sy_aligned_alloc a n s = (let (yes, s) = sy_ask s; p = round_up (sy_next s) a
     in if yes then (Some p, s\<lparr>sy_next := p + n, sy_heap := (p, n) # sy_heap s\<rparr>) else (None, s))"

definition sy_mmap :: "int \<Rightarrow> 32 word \<Rightarrow> system \<Rightarrow> int option \<times> system" where
  "sy_mmap n flags s = (let (yes, s) = sy_ask s; p = round_up (sy_next s) 4096
     in if yes then (Some p, s\<lparr>sy_next := p + n, sy_maps := (p, n) # sy_maps s\<rparr>) else (None, s))"

definition sy_munmap :: "int \<Rightarrow> int \<Rightarrow> system \<Rightarrow> bool \<times> system" where
  "sy_munmap p n s = (if (p, n) \<in> set (sy_maps s) then (True, s\<lparr>sy_maps := filter (\<lambda>r. r \<noteq> (p, n)) (sy_maps s)\<rparr>) else (False, s))"

definition ref_os :: "system os_ops" where
  "ref_os = \<lparr>os_aligned_alloc = sy_aligned_alloc, os_free = (\<lambda>p s. s\<lparr>sy_heap := filter (\<lambda>(q, n). q \<noteq> p) (sy_heap s)\<rparr>),
     os_madvise = (\<lambda>p n s. sy_ask s), os_mmap = sy_mmap, os_munmap = sy_munmap\<rparr>"

definition ref_build :: mem_build where
  "ref_build = \<lparr>b_line = 64, b_page = 4096, b_hugepage = 2097152, b_map_flags = 34, b_map_hugetlb = Some (262144, 26),
     b_madv_hugepage = True, b_log = Log_error\<rparr>"

definition default_alloc_params :: alloc_params where
  "default_alloc_params = \<lparr>ap_page_align = True, ap_use_hugepages = True,
     ap_num = fst default_hugepage_switch_threshold, ap_den = snd default_hugepage_switch_threshold\<rparr>"

definition sy_heap_set :: "system \<Rightarrow> (int \<times> int) set" where "sy_heap_set s = set (sy_heap s)"
definition sy_map_set :: "system \<Rightarrow> (int \<times> int) set" where "sy_map_set s = set (sy_maps s)"

definition sy_ok :: "system \<Rightarrow> bool" where
  "sy_ok s \<longleftrightarrow> 0 < sy_next s \<and> (\<forall>(q, k) \<in> set (sy_heap s) \<union> set (sy_maps s). 0 < k \<and> q + k \<le> sy_next s)
     \<and> (\<forall>(q, k) \<in> set (sy_heap s). \<forall>(q', k') \<in> set (sy_heap s). q = q' \<longrightarrow> k = k')"

lemma sy_okI:
  assumes "0 < sy_next s"
    and "\<And>q k. (q, k) \<in> set (sy_heap s) \<or> (q, k) \<in> set (sy_maps s) \<Longrightarrow> 0 < k \<and> q + k \<le> sy_next s"
    and "\<And>q k k'. (q, k) \<in> set (sy_heap s) \<Longrightarrow> (q, k') \<in> set (sy_heap s) \<Longrightarrow> k = k'"
  shows "sy_ok s"
  unfolding sy_ok_def using assms by auto

lemma sy_okD:
  assumes "sy_ok s"
  shows "0 < sy_next s"
    and "(q, k) \<in> set (sy_heap s) \<or> (q, k) \<in> set (sy_maps s) \<Longrightarrow> 0 < k \<and> q + k \<le> sy_next s"
    and "(q, k) \<in> set (sy_heap s) \<Longrightarrow> (q, k') \<in> set (sy_heap s) \<Longrightarrow> k = k'"
  using assms unfolding sy_ok_def by (simp, fast, fast)

lemma sy_ask_simps [simp]:
  "sy_next (snd (sy_ask s)) = sy_next s" "sy_heap (snd (sy_ask s)) = sy_heap s" "sy_maps (snd (sy_ask s)) = sy_maps s"
  by (auto simp: sy_ask_def split: list.splits)

lemma sy_ask_ok [simp]: "sy_ok (snd (sy_ask s)) = sy_ok s"
  by (simp add: sy_ok_def)

lemma sy_ok_fewer:
  assumes "sy_ok s" and "sy_next s' = sy_next s" and "set (sy_heap s') \<subseteq> set (sy_heap s)" and "set (sy_maps s') \<subseteq> set (sy_maps s)"
  shows "sy_ok s'"
proof (rule sy_okI)
  show "0 < sy_next s'" using sy_okD(1) [OF assms(1)] assms(2) by simp
  show "0 < k \<and> q + k \<le> sy_next s'" if "(q, k) \<in> set (sy_heap s') \<or> (q, k) \<in> set (sy_maps s')" for q k
    using sy_okD(2) [OF assms(1), of q k] that assms(2-4) by auto
  show "k = k'" if "(q, k) \<in> set (sy_heap s')" and "(q, k') \<in> set (sy_heap s')" for q k k'
    using sy_okD(3) [OF assms(1), of q k k'] that assms(3) by auto
qed

lemma sy_new:
  assumes "sy_ok s" and "0 < n" and "0 < a"
  shows "0 < round_up (sy_next s) a" and "a dvd round_up (sy_next s) a"
    and "fresh (round_up (sy_next s) a) n (sy_heap_set s \<union> sy_map_set s)"
    and "fresh (round_up (sy_next s) a) n (sy_map_set s \<union> sy_heap_set s)"
    and "sy_ok (s\<lparr>sy_next := round_up (sy_next s) a + n, sy_heap := (round_up (sy_next s) a, n) # sy_heap s\<rparr>)"
    and "sy_ok (s\<lparr>sy_next := round_up (sy_next s) a + n, sy_maps := (round_up (sy_next s) a, n) # sy_maps s\<rparr>)"
proof -
  let ?p = "round_up (sy_next s) a"
  have p: "sy_next s \<le> ?p" "a dvd ?p" using round_up_least [of "sy_next s" a] assms by (auto simp: sy_ok_def)
  show "0 < ?p" and "a dvd ?p" using p assms(1) by (auto simp: sy_ok_def)
  have b: "0 < k \<and> q + k \<le> ?p" if "(q, k) \<in> set (sy_heap s) \<or> (q, k) \<in> set (sy_maps s)" for q k
    using sy_okD(2) [OF assms(1) that] p(1) by simp
  have "fresh ?p n (set (sy_heap s) \<union> set (sy_maps s))" unfolding fresh_def
  proof (rule ballI)
    fix x
    assume "x \<in> set (sy_heap s) \<union> set (sy_maps s)"
    then show "case x of (q, k) \<Rightarrow> ?p + n \<le> q \<or> q + k \<le> ?p" using b [of "fst x" "snd x"] by (cases x) simp
  qed
  then show "fresh ?p n (sy_heap_set s \<union> sy_map_set s)" "fresh ?p n (sy_map_set s \<union> sy_heap_set s)"
    by (simp_all add: sy_heap_set_def sy_map_set_def Un_commute)
  show "sy_ok (s\<lparr>sy_next := ?p + n, sy_heap := (?p, n) # sy_heap s\<rparr>)"
  proof (rule sy_okI)
    show "0 < sy_next (s\<lparr>sy_next := ?p + n, sy_heap := (?p, n) # sy_heap s\<rparr>)"
      using sy_okD(1) [OF assms(1)] p(1) assms(2) by simp
  next
    fix q k
    assume "(q, k) \<in> set (sy_heap (s\<lparr>sy_next := ?p + n, sy_heap := (?p, n) # sy_heap s\<rparr>))
      \<or> (q, k) \<in> set (sy_maps (s\<lparr>sy_next := ?p + n, sy_heap := (?p, n) # sy_heap s\<rparr>))"
    then show "0 < k \<and> q + k \<le> sy_next (s\<lparr>sy_next := ?p + n, sy_heap := (?p, n) # sy_heap s\<rparr>)"
      using b [of q k] assms(2) by auto
  next
    fix q k k'
    assume "(q, k) \<in> set (sy_heap (s\<lparr>sy_next := ?p + n, sy_heap := (?p, n) # sy_heap s\<rparr>))"
      and "(q, k') \<in> set (sy_heap (s\<lparr>sy_next := ?p + n, sy_heap := (?p, n) # sy_heap s\<rparr>))"
    then show "k = k'" using b [of q k] b [of q k'] sy_okD(3) [OF assms(1), of q k k'] by auto
  qed
  show "sy_ok (s\<lparr>sy_next := ?p + n, sy_maps := (?p, n) # sy_maps s\<rparr>)"
  proof (rule sy_okI)
    show "0 < sy_next (s\<lparr>sy_next := ?p + n, sy_maps := (?p, n) # sy_maps s\<rparr>)"
      using sy_okD(1) [OF assms(1)] p(1) assms(2) by simp
  next
    fix q k
    assume "(q, k) \<in> set (sy_heap (s\<lparr>sy_next := ?p + n, sy_maps := (?p, n) # sy_maps s\<rparr>))
      \<or> (q, k) \<in> set (sy_maps (s\<lparr>sy_next := ?p + n, sy_maps := (?p, n) # sy_maps s\<rparr>))"
    then show "0 < k \<and> q + k \<le> sy_next (s\<lparr>sy_next := ?p + n, sy_maps := (?p, n) # sy_maps s\<rparr>)"
      using b [of q k] assms(2) by auto
  next
    fix q k k'
    assume "(q, k) \<in> set (sy_heap (s\<lparr>sy_next := ?p + n, sy_maps := (?p, n) # sy_maps s\<rparr>))"
      and "(q, k') \<in> set (sy_heap (s\<lparr>sy_next := ?p + n, sy_maps := (?p, n) # sy_maps s\<rparr>))"
    then show "k = k'" using sy_okD(3) [OF assms(1), of q k k'] by simp
  qed
qed

lemma ref_build_ok: "build_ok ref_build"
  unfolding build_ok_def
proof (intro conjI)
  show "\<exists>a b c. b_line ref_build = 2 ^ a \<and> b_page ref_build = 2 ^ b \<and> b_hugepage ref_build = 2 ^ c \<and> a \<le> b \<and> b \<le> c \<and> c \<le> 40"
    by (intro exI [of _ 6] exI [of _ 12] exI [of _ 21]) (simp add: ref_build_def)
  show "\<forall>f sh. b_map_hugetlb ref_build = Some (f, sh) \<longrightarrow> f \<noteq> 0 \<and> b_map_flags ref_build AND f = 0"
    by (simp add: ref_build_def)
qed

interpretation ref: allocating ref_build ref_os sy_heap_set sy_map_set sy_ok default_alloc_params
proof
  fix s s' :: system and n a p :: int and flags r yes
  show "build_ok ref_build" by (rule ref_build_ok)
  let ?s = "snd (sy_ask s)"
  show "sy_ok s' \<and> sy_map_set s' = sy_map_set s \<and> served r a n (sy_heap_set s) (sy_map_set s) (sy_heap_set s')"
    if "sy_ok s" and "0 < n" and "a dvd n" and "\<exists>e\<le>40. a = 2 ^ e" and "os_aligned_alloc ref_os a n s = (r, s')"
  proof -
    have "0 < a" using that(4) by auto
    then show ?thesis using that(1,2,5) sy_new [of ?s n a]
      by (auto simp: ref_os_def sy_aligned_alloc_def served_def sy_heap_set_def sy_map_set_def Let_def split_beta split: if_splits)
  qed
  show "sy_ok (os_free ref_os p s) \<and> sy_map_set (os_free ref_os p s) = sy_map_set s
      \<and> sy_heap_set (os_free ref_os p s) = sy_heap_set s - {(p, n)}"
    if "sy_ok s" and "(p, n) \<in> sy_heap_set s"
  proof -
    have k: "k = n" if "(p, k) \<in> set (sy_heap s)" for k
      using that \<open>(p, n) \<in> sy_heap_set s\<close> sy_okD(3) [OF \<open>sy_ok s\<close>] by (simp add: sy_heap_set_def)
    have "sy_ok (os_free ref_os p s)" using that(1) by (rule sy_ok_fewer) (auto simp: ref_os_def)
    moreover have "x \<in> set (filter (\<lambda>(q, n). q \<noteq> p) (sy_heap s)) \<longleftrightarrow> x \<in> set (sy_heap s) - {(p, n)}" for x
      using k [of "snd x"] by (cases x) auto
    ultimately show ?thesis by (auto simp: ref_os_def sy_map_set_def sy_heap_set_def)
  qed
  show "sy_ok s' \<and> sy_heap_set s' = sy_heap_set s \<and> sy_map_set s' = sy_map_set s"
    if "sy_ok s" and "os_madvise ref_os p n s = (yes, s')"
  proof -
    have "s' = ?s" using that(2) by (simp add: ref_os_def)
    then show ?thesis using that(1) by (simp add: sy_heap_set_def sy_map_set_def)
  qed
  show "sy_ok s' \<and> sy_heap_set s' = sy_heap_set s
      \<and> served r (b_page ref_build) n (sy_map_set s) (sy_heap_set s) (sy_map_set s')"
    if "sy_ok s" and "0 < n" and "flags = b_map_flags ref_build \<or> b_hugepage ref_build dvd n" and "os_mmap ref_os n flags s = (r, s')"
    using that(1,2,4) sy_new [of ?s n 4096]
    by (auto simp: ref_os_def sy_mmap_def served_def sy_heap_set_def sy_map_set_def Let_def split_beta ref_build_def split: if_splits)
  show "yes \<and> sy_ok s' \<and> sy_heap_set s' = sy_heap_set s \<and> sy_map_set s' = sy_map_set s - {(p, n)}"
    if "sy_ok s" and "(p, n) \<in> sy_map_set s" and "os_munmap ref_os p n s = (yes, s')"
  proof -
    have e: "yes" "s' = s\<lparr>sy_maps := filter (\<lambda>r. r \<noteq> (p, n)) (sy_maps s)\<rparr>"
      using that(2,3) by (simp_all add: ref_os_def sy_munmap_def sy_map_set_def)
    have "sy_ok s'" using that(1) by (rule sy_ok_fewer) (auto simp: e)
    then show ?thesis by (auto simp: e sy_heap_set_def sy_map_set_def)
  qed
  show "\<not> yes \<and> sy_ok s' \<and> sy_heap_set s' = sy_heap_set s \<and> sy_map_set s' = sy_map_set s"
    if "sy_ok s" and "os_munmap ref_os p 0 s = (yes, s')"
  proof -
    have "(p, 0) \<notin> set (sy_maps s)" using that(1) by (force simp: sy_ok_def)
    then show ?thesis using that by (auto simp: ref_os_def sy_munmap_def)
  qed
qed

section \<open>Sizes\<close>

text \<open>C29: A request is rounded up, by less than one unit, to whole cache lines, pages or hugepages, which
  is also its alignment (a power of two that divides the size, as \<open>aligned_alloc\<close> wants); a unit larger
  than a cache line is used only for page-aligned allocators and with the default threshold is at most
  half as large again as the request; sizes that fit the type do not overflow.\<close>

theorem alloc_size_correct:
  assumes "build_ok B" and "0 < n" and "0 < e_bytes t" and "alloc_size B A t n = (al, nb)"
  shows "al \<in> {b_line B, b_page B, b_hugepage B} \<and> (\<exists>e. al = 2 ^ e) \<and> al dvd nb
    \<and> n * e_bytes t \<le> nb \<and> nb < n * e_bytes t + al
    \<and> (al \<noteq> b_line B \<longrightarrow> ap_page_align A)
    \<and> ((ap_num A, ap_den A) = default_hugepage_switch_threshold \<longrightarrow> al = b_line B \<or> 2 * al \<le> 3 * (n * e_bytes t) + 2)
    \<and> (n * e_bytes t \<le> 2 ^ 62 \<longrightarrow> nb < 2 ^ 63)"
proof -
  note F = alloc_size_facts [OF assms]
  have d: "2 * a div 3 \<le> x \<Longrightarrow> 2 * a \<le> 3 * x + 2" for a x :: int by linarith
  have "al = b_line B \<or> 2 * al \<le> 3 * (n * e_bytes t) + 2" if "(ap_num A, ap_den A) = default_hugepage_switch_threshold"
    using that assms(4) d by (cases rule: alloc_size_cases [of B A t n]) (auto simp: default_hugepage_switch_threshold_def)
  moreover have "al \<noteq> b_line B \<longrightarrow> ap_page_align A"
    using assms(4) by (cases rule: alloc_size_cases [of B A t n]) auto
  moreover have "al \<le> 2 ^ 40" using F(1) build_okD [OF assms(1)] by auto
  then have "n * e_bytes t \<le> 2 ^ 62 \<longrightarrow> nb < 2 ^ 63" using F(6) by simp
  ultimately show ?thesis using F(1-3,5,6) by blast
qed

lemma alloc_size_witness:
  "alloc_size ref_build default_alloc_params byte_elem 1400000 = (2097152, 2097152)
   \<and> 2 * (2097152 :: int) \<le> 3 * (1400000 * e_bytes byte_elem) + 2"
  using alloc_size_correct [OF ref_build_ok, of 1400000 byte_elem default_alloc_params 2097152 2097152]
  by (simp add: ref_build_def default_alloc_params_def default_hugepage_switch_threshold_def byte_elem_def
      alloc_size_def round_up_def ceil_div_def)

section \<open>Owning pointers\<close>

text \<open>Over any system whose memory services behave as documented, an array made by either allocator is
  a new region of enough bytes, aligned to cache lines, for as many elements as asked; releasing it
  gives back exactly that region and destroys its elements; a request the system refuses is a
  \<open>runtime_error\<close> that changes nothing.\<close>

theorem make_unique_round_trip:
  assumes "os_memory B os heap maps os_ok" and "os_ok (mm_os m)" and "elem_ok t" and "ctors_ok t ok n"
  shows "gives_back (madv_allocator B A os) heap maps (\<lambda>t n d b. d = n) t ok n m
    \<and> gives_back (mmap_allocator B A os) maps heap (\<lambda>t n d b. d = (n, b)) t ok n m"
  using allocator_laws.make_drop [OF allocating.madv_laws [OF allocating.intro [OF assms(1)]] assms(2-4)]
    allocator_laws.make_drop [OF allocating.mmap_laws [OF allocating.intro [OF assms(1)]] assms(2-4)] by (rule conjI)

definition demo_system :: "system mem" where
  "demo_system = \<lparr>mm_os = \<lparr>sy_next = 100, sy_heap = [], sy_maps = [], sy_grants = []\<rparr>, mm_due = 0, mm_log = []\<rparr>"

lemma demo_system_ok: "sy_ok (mm_os demo_system)"
  by (simp add: demo_system_def sy_ok_def)

lemmas system_defs = demo_system_def ref_build_def ref_os_def sy_aligned_alloc_def sy_mmap_def sy_munmap_def sy_ask_def
  default_alloc_params_def default_hugepage_switch_threshold_def byte_elem_def alloc_size_def round_up_def ceil_div_def

lemma make_unique_witness:
  "gives_back (madv_allocator ref_build default_alloc_params ref_os) sy_heap_set sy_map_set (\<lambda>t n d b. d = n)
      byte_elem (\<lambda>_. True) 1400000 demo_system
   \<and> make_unique (madv_allocator ref_build default_alloc_params ref_os) byte_elem (\<lambda>_. True) 1400000 demo_system
     = (Inr (2097152, 1400000), demo_system\<lparr>mm_os := (mm_os demo_system)\<lparr>sy_next := 4194304, sy_heap := [(2097152, 2097152)]\<rparr>\<rparr>)"
  using make_unique_round_trip [OF ref.os_memory_axioms demo_system_ok byte_elem_ok(1,3)]
  by (auto simp: make_unique_def madv_allocator_def madv_alloc_def Let_def system_defs)

section \<open>The arrays of a map\<close>

text \<open>What a map holds of the system while no element constructor throws: nothing is lost, at no step.\<close>

text \<open>C26: Constructing the arrays of a map either gives a value, blob, key and state array for the whole
  capacity, each owning its own region, or throws a \<open>runtime_error\<close> after giving back every region and
  destroying every element that was made: with either allocator, wherever the system first refuses.\<close>

theorem construct_arrays_correct:
  assumes "os_memory B os heap maps os_ok" and "os_ok (mm_os m)" and "types_ok T n"
  shows "constructs (madv_allocator B A os) heap maps (\<lambda>t n d b. d = n) T n m
    \<and> constructs (mmap_allocator B A os) maps heap (\<lambda>t n d b. d = (n, b)) T n m"
  using allocator_laws.construct_arrays_gives [OF allocating.madv_laws [OF allocating.intro [OF assms(1)]] assms(2,3)]
    allocator_laws.construct_arrays_gives [OF allocating.mmap_laws [OF allocating.intro [OF assms(1)]] assms(2,3)]
  by (rule conjI)

definition demo_types :: array_types where
  "demo_types = \<lparr>at_value = \<lparr>e_bytes = 32, e_trivial_ctor = False, e_trivial_dtor = False\<rparr>, at_key = \<lparr>e_bytes = 8, e_trivial_ctor = True, e_trivial_dtor = True\<rparr>,
     at_has_values = True, at_has_blobs = True, at_value_ok = (\<lambda>_. True), at_key_ok = (\<lambda>_. True), at_stride = 4, at_kernel_size = 8\<rparr>"

definition demo_refusing :: "system mem" where
  "demo_refusing = demo_system\<lparr>mm_os := (mm_os demo_system)\<lparr>sy_grants := [True, True, False]\<rparr>\<rparr>"

lemma demo_types_ok: "types_ok demo_types n"
  by (simp add: demo_types_def types_ok_def elem_ok_def ctors_ok_def)

lemma demo_refusing_ok: "sy_ok (mm_os demo_refusing)"
  using demo_system_ok by (simp add: demo_refusing_def sy_ok_def)

text \<open>The third request, for the keys, is refused: the values and the blobs are given back.\<close>

lemma demo_constructing:
  "fst (construct_arrays (mmap_allocator ref_build default_alloc_params ref_os) demo_types 8 demo_refusing) = Inl Runtime_error"
  by code_simp

lemma construct_arrays_witness:
  "constructs (mmap_allocator ref_build default_alloc_params ref_os) sy_map_set sy_heap_set (\<lambda>t n d b. d = (n, b)) demo_types 8 demo_refusing
   \<and> fst (construct_arrays (mmap_allocator ref_build default_alloc_params ref_os) demo_types 8 demo_refusing) = Inl Runtime_error"
  using construct_arrays_correct [OF ref.os_memory_axioms demo_refusing_ok demo_types_ok, where n = 8 and A = default_alloc_params]
    demo_constructing by simp

text \<open>
  What a resize of the map \<open>src\<close> to \<open>n\<close> slots does to its arrays when the map model returns \<open>x\<close>: it ends, the regions
  are accounted for, and a resize that does not throw has arrays for the capacity that \<open>x\<close> says.
\<close>

definition resizes ::
    "('k, 'v, 'r, 'l, 'm, 'q) map_params \<Rightarrow> ('k, 'v) map_state \<Rightarrow> int \<Rightarrow> exn + int \<times> ('k, 'v) map_state \<Rightarrow> ('s, 'd) allocator
      \<Rightarrow> ('s \<Rightarrow> (int \<times> int) set) \<Rightarrow> ('s \<Rightarrow> (int \<times> int) set) \<Rightarrow> (elem \<Rightarrow> int \<Rightarrow> 'd \<Rightarrow> int \<Rightarrow> bool) \<Rightarrow> array_types \<Rightarrow> 's mem \<Rightarrow> bool" where
  "resizes P src n x al own other holds T m \<longleftrightarrow> (\<forall>old F D. holds_arrays own holds T (capacity P src) old F D m
     \<longrightarrow> (\<exists>r ar m'. resize_arrays P src al T n old m = Some (r, ar, m') \<and> resize_leaves P src own other holds T F D m (r, ar, m')
         \<and> (\<forall>n'. r = Inr n' \<longrightarrow> (\<exists>src'. x = Inr (n', src')))))"

text \<open>C27: Over any system whose memory services behave as documented, with either allocator, and for any map whose
  arrays own their regions: whenever the map's \<open>resize_\<close> returns, so does the handling of its arrays, in any
  number of passes. Either it ends with new arrays for the capacity the resize returns, or it throws
  a \<open>runtime_error\<close>; the old arrays are given back in both cases, and no region is lost. When it throws, the
  entries are gone and the map stays with the bucket mask of the last capacity asked for and a state array that
  is missing or is the one of the pass before, for half as many slots as the mask addresses.\<close>

theorem resize_arrays_correct:
  assumes "os_memory B os heap maps os_ok" and "os_ok (mm_os m)" and "\<And>n. types_ok T n" and "resize_map P n src = Some x"
  shows "resizes P src n x (madv_allocator B A os) heap maps (\<lambda>t n d b. d = n) T m
    \<and> resizes P src n x (mmap_allocator B A os) maps heap (\<lambda>t n d b. d = (n, b)) T m"
proof
  note laws = allocating.madv_laws [OF allocating.intro [OF assms(1)]] allocating.mmap_laws [OF allocating.intro [OF assms(1)]]
  show "resizes P src n x (madv_allocator B A os) heap maps (\<lambda>t n d b. d = n) T m" unfolding resizes_def
  proof (intro allI impI)
    fix old F D assume h: "holds_arrays heap (\<lambda>t n d b. d = n) T (capacity P src) old F D m"
    show "\<exists>r ar m'. resize_arrays P src (madv_allocator B A os) T n old m = Some (r, ar, m')
        \<and> resize_leaves P src heap maps (\<lambda>t n d b. d = n) T F D m (r, ar, m') \<and> (\<forall>n'. r = Inr n' \<longrightarrow> (\<exists>src'. x = Inr (n', src')))"
      by (rule resize_arrays_end [OF assms(4)]) (use allocator_laws.resize_arrays_gives [OF laws(1) assms(2,3) h] in blast)
  qed
  show "resizes P src n x (mmap_allocator B A os) maps heap (\<lambda>t n d b. d = (n, b)) T m" unfolding resizes_def
  proof (intro allI impI)
    fix old F D assume h: "holds_arrays maps (\<lambda>t n d b. d = (n, b)) T (capacity P src) old F D m"
    show "\<exists>r ar m'. resize_arrays P src (mmap_allocator B A os) T n old m = Some (r, ar, m')
        \<and> resize_leaves P src maps heap (\<lambda>t n d b. d = (n, b)) T F D m (r, ar, m') \<and> (\<forall>n'. r = Inr n' \<longrightarrow> (\<exists>src'. x = Inr (n', src')))"
      by (rule resize_arrays_end [OF assms(4)]) (use allocator_laws.resize_arrays_gives [OF laws(2) assms(2,3) h] in blast)
  qed
qed

text \<open>The map with one entry holds arrays for 16 slots; the system refuses the first request of the resize.\<close>

abbreviation demo_madv :: "(system, int) allocator" where
  "demo_madv \<equiv> madv_allocator ref_build default_alloc_params ref_os"

definition demo_built :: "(exn + int arrays) \<times> system mem" where
  "demo_built = construct_arrays demo_madv demo_types 16
     (demo_system\<lparr>mm_os := (mm_os demo_system)\<lparr>sy_grants := [True, True, True, True, False]\<rparr>\<rparr>)"

lemma demo_built_states:
  "demo_built = (Inr (projr (fst demo_built)), snd demo_built)" "sy_grants (mm_os (snd demo_built)) = [False]"
proof -
  have "\<not> isl (fst demo_built)" by code_simp
  then show "demo_built = (Inr (projr (fst demo_built)), snd demo_built)" by (simp add: prod_eq_iff)
  show "sy_grants (mm_os (snd demo_built)) = [False]" by code_simp
qed

lemma demo_built_dropped:
  "sy_heap (mm_os (drop_arrays demo_madv demo_types (projr (fst demo_built)) ((snd demo_built)\<lparr>mm_os := (mm_os (snd demo_built))\<lparr>sy_grants := []\<rparr>\<rparr>))) = []"
  by code_simp

lemma demo_built_ok: "sy_ok (mm_os (snd demo_built))"
proof -
  have "mm_os (snd demo_built) = \<lparr>sy_next = 896, sy_heap = [(832, 64), (704, 128), (640, 64), (128, 512)], sy_maps = [], sy_grants = [False]\<rparr>"
    by code_simp
  then show ?thesis by (simp add: sy_ok_def)
qed

lemma demo_built_holds:
  "holds_arrays sy_heap_set (\<lambda>t n d b. d = n) demo_types (capacity demo demo_one) (projr (fst demo_built)) {} 0 (snd demo_built)"
proof -
  let ?m = "demo_system\<lparr>mm_os := (mm_os demo_system)\<lparr>sy_grants := [True, True, True, True, False]\<rparr>\<rparr>"
  have ok: "sy_ok (mm_os ?m)" by (simp add: demo_system_def sy_ok_def)
  note c = ref.madv.construct_arrays_gives [OF ok demo_types_ok, of 16, unfolded constructs_def, folded demo_built_def]
  show ?thesis using c by (subst (asm) demo_built_states) (simp add: holds_arrays_def demo_one_capacity demo_system_def sy_heap_set_def)
qed

lemma demo_refused:
  assumes "0 < n"
  shows "alloc_arrays demo_madv demo_types n (no_arrays demo_madv w) (snd demo_built)
    = (Inl Runtime_error, (no_arrays demo_madv w)\<lparr>ar_mask := make_aligned_mask n 8\<rparr>,
       (snd demo_built)\<lparr>mm_os := (mm_os (snd demo_built))\<lparr>sy_grants := []\<rparr>\<rparr>)"
  using assms demo_built_states(2)
  by (simp add: alloc_arrays_def alloc_swiss_def alloc_base_def assign_array_def make_unique_def madv_allocator_def madv_alloc_def
      demo_types_def no_arrays_def ref_os_def sy_aligned_alloc_def sy_ask_def Let_def split: prod.split)

theorem resize_arrays_witness:
  "\<exists>ar m'. resize_arrays demo demo_one demo_madv demo_types 32 (projr (fst demo_built)) (snd demo_built) = Some (Inl Runtime_error, ar, m')
    \<and> resize_leaves demo demo_one sy_heap_set sy_map_set (\<lambda>t n d b. d = n) demo_types {} 0 (snd demo_built) (Inl Runtime_error, ar, m')
    \<and> fst (ar_states ar) = 0 \<and> sy_heap (mm_os m') = [] \<and> size (entries demo_one) = 1"
proof -
  have cap: "capacity demo demo_one \<le> 2 ^ 61" by (simp add: demo_one_capacity)
  obtain src' where x: "resize_map demo (2 ^ 5) demo_one = Some (Inr (capacity demo src', src'))"
      "capacity demo src' = resize_target demo (2 ^ 5) demo_one" "2 ^ 5 \<le> capacity demo src'"
    by (rule portable.resize_map_ok [OF demo_one_inv cap, of 5]) auto
  note R = resize_arrays_correct [OF ref.os_memory_axioms demo_built_ok demo_types_ok x(1), THEN conjunct1, unfolded resizes_def, rule_format, OF demo_built_holds, where A = default_alloc_params]
  have t: "0 < resize_target demo 32 demo_one" "resize_target demo 32 demo_one \<noteq> capacity demo demo_one" using x(2,3) by (auto simp: demo_one_capacity)
  have c: "resize_arrays demo demo_one demo_madv demo_types 32 (projr (fst demo_built)) (snd demo_built)
      = Some (Inl Runtime_error, (no_arrays demo_madv (ar_mask (projr (fst demo_built))))\<lparr>ar_mask := make_aligned_mask (resize_target demo 32 demo_one) 8\<rparr>,
          drop_arrays demo_madv demo_types (projr (fst demo_built)) ((snd demo_built)\<lparr>mm_os := (mm_os (snd demo_built))\<lparr>sy_grants := []\<rparr>\<rparr>))"
    unfolding resize_arrays_def Let_def using t(2) by (subst resize_passes.simps) (simp add: demo_refused [OF t(1)])
  moreover have "size (entries demo_one) = 1" using demo_one_entries by auto
  ultimately show ?thesis using R [unfolded c] demo_built_dropped
    by (intro exI conjI; assumption?) (auto simp: no_arrays_def)
qed

text \<open>When the constructor of an element throws, the array just allocated is lost: \<open>make_unique\<close> rethrows
  with the system exactly as after the allocation, the elements made so far destroyed, and no pointer to the
  region left.\<close>

theorem throwing_constructor_leaks:
  assumes "al_alloc al t n m = (Inr (p, d), m1)" and "\<not> e_trivial_ctor t" and "i < nat n" and "\<not> ok i"
  shows "\<exists>m'. make_unique al t ok n m = (Inl Runtime_error, m') \<and> mm_os m' = mm_os m1 \<and> mm_due m' = mm_due m1"
proof -
  obtain r m' where c: "construct_elems t ok 0 (nat n) m1 = (r, m')" by fastforce
  have "r = Inl Runtime_error"
  proof (rule ccontr)
    assume "r \<noteq> Inl Runtime_error"
    then have "r = Inr ()" using construct_elems_gives [OF c] by simp
    then show False using construct_elems_all [of t ok 0 "nat n" m1 m' i] c assms(3,4) by simp
  qed
  then show ?thesis using construct_elems_gives [OF c] assms(1,2) c by (simp add: make_unique_def due_of_def)
qed

lemma throwing_constructor_witness:
  "\<exists>m'. make_unique (madv_allocator ref_build default_alloc_params ref_os) (at_value demo_types) (\<lambda>i. i < 3) 8 demo_system
      = (Inl Runtime_error, m') \<and> sy_heap (mm_os m') = [(128, 256)]"
proof -
  obtain m1 where a: "al_alloc (madv_allocator ref_build default_alloc_params ref_os) (at_value demo_types) 8 demo_system = (Inr (128, 8), m1)"
      and "sy_heap (mm_os m1) = [(128, 256)]"
    by (simp add: madv_allocator_def madv_alloc_def demo_types_def system_defs Let_def)
  then show ?thesis using throwing_constructor_leaks [OF a, of 5 "\<lambda>i. i < 3"] by (auto simp: demo_types_def)
qed

text \<open>A shared pointer to nothing calls its deleter: \<open>munmap\<close> of no bytes fails, and an error is logged.\<close>

lemma shared_nothing_logs:
  assumes "os_memory B os heap maps os_ok" and "os_ok (mm_os m)" and "make_shared (mmap_allocator B A os) t ok 0 m = (Inr u, m')"
  shows "mm_log (drop_shared (mmap_allocator B A os) t u m') = mm_log m @ [Log_error]"
proof -
  have m: "u = (0, 0, 0)" "m' = m"
    using assms(3) by (auto simp: make_shared_def mmap_allocator_def mmap_alloc_def split: if_splits)
  obtain yes s' where a: "os_munmap os 0 0 (mm_os m) = (yes, s')" by fastforce
  then have "\<not> yes" using os_memory.munmap_nothing [OF assms(1,2)] by blast
  then show ?thesis using m a by (simp add: drop_shared_def mmap_allocator_def mmap_delete_def nvhm_log_def destroy_elems_def Let_def)
qed

section \<open>Prefetched memory\<close>

text \<open>Every byte of the block lies in a line that is touched, and only addresses inside the block are.\<close>

lemma prefetch_offs_range: "x \<in> set (prefetch_offs i n) \<Longrightarrow> i \<le> x \<and> x < n"
proof (induction i n rule: prefetch_offs.induct)
  case (1 i n)
  then show ?case by (subst (asm) prefetch_offs.simps) (auto simp: cache_line_size_def split: if_splits)
qed

lemma prefetch_offs_covers: "i \<le> x \<Longrightarrow> x < n \<Longrightarrow> \<exists>y \<in> set (prefetch_offs i n). y \<le> x \<and> x < y + cache_line_size"
proof (induction i n rule: prefetch_offs.induct)
  case (1 i n)
  show ?case
  proof (cases "x < i + cache_line_size")
    case True
    then show ?thesis using "1.prems" by (subst prefetch_offs.simps) simp
  next
    case False
    then show ?thesis using 1 by (subst prefetch_offs.simps) auto
  qed
qed

lemma prefetch_locality_range: "1 \<le> level \<Longrightarrow> 0 \<le> prefetch_locality level \<and> prefetch_locality level \<le> 3"
  by (auto simp: prefetch_locality_def)

text \<open>The fields of the operand of a range prefetch do not overlap, and the blocks cover the request up to the largest one.\<close>

lemma rprfm_fields:
  assumes "0 \<le> n"
  shows "take_bit 22 (rprfm_meta n) = rprfm_block_size n" and "drop_bit 22 (rprfm_meta n) = rprfm_block_count n"
    and "n \<le> 2 ^ 20 * (2 ^ 16 - 1) \<Longrightarrow> n \<le> rprfm_block_size n * rprfm_block_count n"
proof -
  let ?b = "rprfm_block_size n" and ?c = "rprfm_block_count n"
  have b: "1 \<le> ?b" "?b \<le> 2 ^ 20" by (auto simp: rprfm_block_size_def)
  then have t: "take_bit 22 ?b = ?b" "drop_bit 22 ?b = 0" by (simp_all add: take_bit_int_eq_self drop_bit_eq_div)
  have m: "rprfm_meta n = push_bit 22 ?c OR ?b" by (simp add: rprfm_meta_def)
  show "take_bit 22 (rprfm_meta n) = ?b" by (simp add: m take_bit_push_bit t)
  show "drop_bit 22 (rprfm_meta n) = ?c"
  proof -
    have "drop_bit 22 (push_bit 22 ?c) = ?c" by (simp only: push_bit_eq_mult drop_bit_eq_div) simp
    then show ?thesis by (simp add: m t)
  qed
  show "n \<le> ?b * ?c" if "n \<le> 2 ^ 20 * (2 ^ 16 - 1)"
  proof -
    let ?k = "(n + ?b - 1) div ?b"
    have k: "n \<le> ?b * ?k"
      using mult_div_mod_eq [of ?b "n + ?b - 1"] pos_mod_bound [of ?b "n + ?b - 1"] b by linarith
    show ?thesis
    proof (cases "?k \<le> 2 ^ 16 - 1")
      case True
      then show ?thesis using k by (simp add: rprfm_block_count_def)
    next
      case False
      then have "?c = 2 ^ 16 - 1" by (simp add: rprfm_block_count_def)
      moreover have "?b = 2 ^ 20"
      proof (rule ccontr)
        assume "?b \<noteq> 2 ^ 20"
        then have "?b = max n 1" by (auto simp: rprfm_block_size_def min_def split: if_splits)
        then have "n + ?b - 1 < ?b * 2" using assms by (auto simp: max_def split: if_splits)
        then have "?b * ?k < ?b * 2"
          using mult_div_mod_eq [of ?b "n + ?b - 1"] pos_mod_sign [of ?b "n + ?b - 1"] b by linarith
        then have "?k < 2" using b by (simp only: mult_less_cancel_left_pos)
        then show False using False by simp
      qed
      ultimately show ?thesis using that by simp
    qed
  qed
qed

end
