(* ===== verification/MapHints.thy ===== *)
theory MapHints
  imports MapModels
begin

text \<open>
  The rest of the interface of raw_map_base.hpp and swiss_map_base.hpp: the variants that take a
  prefetch hint, what prefetching touches, the visits with a callback (those that may change values
  and blobs in place included), and swapping.
\<close>

section \<open>Variants with a prefetch hint\<close>

text \<open>All of them check the hint against the key first and go on with the hash it carries.\<close>

definition with_hint ::
    "check_level \<Rightarrow> ('k, 'v, 'r, 'l, 'm, 'q) map_params \<Rightarrow> 'k \<Rightarrow> hash_t \<Rightarrow> (hash_t \<Rightarrow> (exn + 'a) option) \<Rightarrow> (exn + 'a) option" where
  "with_hint lvl P key hint f = (case hint_to_hash lvl P key hint of Inl e \<Rightarrow> Some (Inl e) | Inr h \<Rightarrow> f h)"

definition api_contains_hint ::
    "check_level \<Rightarrow> ('k, 'v, 'r, 'l, 'm, 'q) map_params \<Rightarrow> 'k \<Rightarrow> hash_t \<Rightarrow> ('k, 'v) map_state \<Rightarrow> (exn + bool) option" where
  "api_contains_hint lvl P key hint m = map_option (map_sum id (\<lambda>p. p \<noteq> npos)) (api_find_hint lvl P key hint m)"

definition api_find_first ::
    "('k, 'v, 'r, 'l, 'm, 'q) map_params \<Rightarrow> 'k \<Rightarrow> ('k, 'v) map_state \<Rightarrow> (int \<times> 'q) option" where
  "api_find_first P key m = map_option (\<lambda>(r, seq). (raw_of r, seq)) (find_first P key (pm_hash P key) m)"

definition api_find_first_hint ::
    "check_level \<Rightarrow> ('k, 'v, 'r, 'l, 'm, 'q) map_params \<Rightarrow> 'k \<Rightarrow> hash_t \<Rightarrow> ('k, 'v) map_state \<Rightarrow> (exn + int \<times> 'q) option" where
  "api_find_first_hint lvl P key hint m = with_hint lvl P key hint (\<lambda>h.
     map_option (\<lambda>(r, seq). Inr (raw_of r, seq)) (find_first P key h m))"

definition api_find_next_hint ::
    "check_level \<Rightarrow> ('k, 'v, 'r, 'l, 'm, 'q) map_params \<Rightarrow> int \<Rightarrow> 'q \<Rightarrow> 'k \<Rightarrow> hash_t \<Rightarrow> ('k, 'v) map_state
      \<Rightarrow> (exn + int \<times> 'q) option" where
  "api_find_next_hint lvl P pos seq key hint m = (case validate_range lvl P m pos of
     Inl e \<Rightarrow> Some (Inl e)
   | Inr p \<Rightarrow> with_hint lvl P key hint (\<lambda>h.
       map_option (\<lambda>(r, seq). Inr (raw_of r, seq)) (find_next P (nat p) seq key h m)))"

definition api_erase_hint ::
    "check_level \<Rightarrow> ('k, 'v, 'r, 'l, 'm, 'q) map_params \<Rightarrow> 'k \<Rightarrow> hash_t \<Rightarrow> ('k, 'v) map_state
      \<Rightarrow> (exn + bool \<times> ('k, 'v) map_state) option" where
  "api_erase_hint lvl P key hint m = with_hint lvl P key hint (\<lambda>h.
     map_option (map_sum id (\<lambda>((b, pos, seq), m). (b, m))) (erase_first P key h m))"

definition api_erase_first_hint ::
    "check_level \<Rightarrow> ('k, 'v, 'r, 'l, 'm, 'q) map_params \<Rightarrow> 'k \<Rightarrow> hash_t \<Rightarrow> ('k, 'v) map_state
      \<Rightarrow> (exn + (bool \<times> int \<times> 'q) \<times> ('k, 'v) map_state) option" where
  "api_erase_first_hint lvl P key hint m = with_hint lvl P key hint (\<lambda>h.
     map_option (map_sum id (\<lambda>((b, pos, seq), m). ((b, raw_of pos, seq), m))) (erase_first P key h m))"

definition api_erase_next_hint ::
    "check_level \<Rightarrow> ('k, 'v, 'r, 'l, 'm, 'q) map_params \<Rightarrow> int \<Rightarrow> 'q \<Rightarrow> 'k \<Rightarrow> hash_t \<Rightarrow> ('k, 'v) map_state
      \<Rightarrow> (exn + (bool \<times> int \<times> 'q) \<times> ('k, 'v) map_state) option" where
  "api_erase_next_hint lvl P pos seq key hint m = (case validate_range lvl P m pos of
     Inl e \<Rightarrow> Some (Inl e)
   | Inr p \<Rightarrow> with_hint lvl P key hint (\<lambda>h.
       map_option (map_sum id (\<lambda>((b, pos, seq), m). ((b, raw_of pos, seq), m))) (erase_next P (nat p) seq key h m)))"

definition api_insert_ex_hint ::
    "check_level \<Rightarrow> ('k, 'v, 'r, 'l, 'm, 'q) map_params \<Rightarrow> 'k \<Rightarrow> hash_t \<Rightarrow> ('k, 'v) map_state
      \<Rightarrow> (exn + (int \<times> insert_op \<times> 'q) \<times> ('k, 'v) map_state) option" where
  "api_insert_ex_hint lvl P key hint m = with_hint lvl P key hint (\<lambda>h.
     map_option (map_sum id (\<lambda>((pos, op, seq), m). ((int pos, op, seq), m))) (insert_key P key h m))"

definition api_update :: "('k, 'v, 'r, 'l, 'm, 'q) map_params \<Rightarrow> 'k \<Rightarrow> ('k, 'v) map_state \<Rightarrow> int option" where
  "api_update P key m = map_option (\<lambda>(r, seq). raw_of r) (find_first P key (pm_hash P key) m)"

definition api_update_hint ::
    "check_level \<Rightarrow> ('k, 'v, 'r, 'l, 'm, 'q) map_params \<Rightarrow> 'k \<Rightarrow> hash_t \<Rightarrow> ('k, 'v) map_state \<Rightarrow> (exn + int) option" where
  "api_update_hint lvl P key hint m = with_hint lvl P key hint (\<lambda>h.
     map_option (\<lambda>(r, seq). Inr (raw_of r)) (find_first P key h m))"

definition api_update_first_hint ::
    "check_level \<Rightarrow> ('k, 'v, 'r, 'l, 'm, 'q) map_params \<Rightarrow> 'k \<Rightarrow> hash_t \<Rightarrow> ('k, 'v) map_state \<Rightarrow> (exn + int \<times> 'q) option" where
  "api_update_first_hint lvl P key hint m = with_hint lvl P key hint (\<lambda>h.
     map_option (\<lambda>(r, seq). Inr (raw_of r, seq)) (find_first P key h m))"

definition api_update_next ::
    "check_level \<Rightarrow> ('k, 'v, 'r, 'l, 'm, 'q) map_params \<Rightarrow> int \<Rightarrow> 'q \<Rightarrow> 'k \<Rightarrow> ('k, 'v) map_state
      \<Rightarrow> (exn + int \<times> 'q) option" where
  "api_update_next lvl P pos seq key m = (case validate_range lvl P m pos of
     Inl e \<Rightarrow> Some (Inl e)
   | Inr p \<Rightarrow> map_option (\<lambda>(r, seq). Inr (raw_of r, seq)) (find_next P (nat p) seq key (pm_hash P key) m))"

definition api_update_next_hint ::
    "check_level \<Rightarrow> ('k, 'v, 'r, 'l, 'm, 'q) map_params \<Rightarrow> int \<Rightarrow> 'q \<Rightarrow> 'k \<Rightarrow> hash_t \<Rightarrow> ('k, 'v) map_state
      \<Rightarrow> (exn + int \<times> 'q) option" where
  "api_update_next_hint lvl P pos seq key hint m = (case validate_range lvl P m pos of
     Inl e \<Rightarrow> Some (Inl e)
   | Inr p \<Rightarrow> with_hint lvl P key hint (\<lambda>h.
       map_option (\<lambda>(r, seq). Inr (raw_of r, seq)) (find_next P (nat p) seq key h m)))"

definition api_update_if :: "('k, 'v, 'r, 'l, 'm, 'q) map_params \<Rightarrow> (int \<Rightarrow> bool) \<Rightarrow> ('k, 'v) map_state \<Rightarrow> int" where
  "api_update_if P f m = raw_of (find_if P (\<lambda>pos. f (int pos)) m)"

definition api_update_all :: "('k, 'v, 'r, 'l, 'm, 'q) map_params \<Rightarrow> 'k \<Rightarrow> ('k, 'v) map_state \<Rightarrow> int list option" where
  "api_update_all P key m = map_option (map (\<lambda>(pos, seq). int pos)) (for_each_key P key (pm_hash P key) m)"

section \<open>Prefetching\<close>

text \<open>
  Prefetching changes nothing; what can go wrong is the address. The first component is the hint the
  call returns, the second lists the ranges of slots it touches: the states of the first bucket of the
  probe sequence, and its keys too when the map prefetches aggressively.
\<close>

datatype touch = Touch_states nat nat | Touch_keys nat nat

definition prefetch_ranges :: "('k, 'v, 'r, 'l, 'm, 'q) map_params \<Rightarrow> hash_t \<Rightarrow> ('k, 'v) map_state \<Rightarrow> touch list" where
  "prefetch_ranges P hash m = (
     let seq = pq_init (pm_seq P) (hash_to_pos (pm_layout P) (kbits P) hash);
         off = unat (align_pos (m_bucket_mask m) (pq_next (pm_seq P) seq))
     in Touch_states off (ksize P)
        # (if test_flags (pm_flags P) flag_aggressive_prefetch then [Touch_keys off (ksize P)] else []))"

definition api_prefetch ::
    "('k, 'v, 'r, 'l, 'm, 'q) map_params \<Rightarrow> 'k \<Rightarrow> ('k, 'v) map_state \<Rightarrow> hash_t \<times> touch list" where
  "api_prefetch P key m = (let hint = prefetch_hint P key in (hint, prefetch_ranges P hint m))"

definition api_prefetch_hint ::
    "check_level \<Rightarrow> ('k, 'v, 'r, 'l, 'm, 'q) map_params \<Rightarrow> 'k \<Rightarrow> hash_t \<Rightarrow> ('k, 'v) map_state \<Rightarrow> exn + touch list" where
  "api_prefetch_hint lvl P key hint m = map_sum id (\<lambda>h. prefetch_ranges P h m) (hint_to_hash lvl P key hint)"

fun touch_ok :: "('k, 'v) map_state \<Rightarrow> touch \<Rightarrow> bool" where
  "touch_ok m (Touch_states off n) \<longleftrightarrow> off + n \<le> length (m_states m)"
| "touch_ok m (Touch_keys off n) \<longleftrightarrow> off + n \<le> length (m_keys m)"

section \<open>Visits\<close>

text \<open>A callback that reads is a function on a state of the caller's; one that writes returns the new contents.\<close>

definition api_for_each :: "('k, 'v, 'r, 'l, 'm, 'q) map_params \<Rightarrow> (int \<Rightarrow> 'c \<Rightarrow> 'c) \<Rightarrow> ('k, 'v) map_state \<Rightarrow> 'c \<Rightarrow> 'c" where
  "api_for_each P f m = fold (\<lambda>pos. f (int pos)) (for_each P m)"

definition api_for_each_key ::
    "('k, 'v, 'r, 'l, 'm, 'q) map_params \<Rightarrow> 'k \<Rightarrow> (int \<Rightarrow> 'q \<Rightarrow> 'c \<Rightarrow> 'c) \<Rightarrow> ('k, 'v) map_state \<Rightarrow> 'c \<Rightarrow> 'c option" where
  "api_for_each_key P key f m c = map_option (\<lambda>ps. fold (\<lambda>(pos, seq). f (int pos) seq) ps c) (for_each_key P key (pm_hash P key) m)"

definition visit_keys :: "('k, 'v, 'r, 'l, 'm, 'q) map_params \<Rightarrow> ('k \<Rightarrow> 'c \<Rightarrow> 'c) \<Rightarrow> ('k, 'v) map_state \<Rightarrow> 'c \<Rightarrow> 'c" where
  "visit_keys P f m = fold (\<lambda>pos. f (key_at m pos)) (for_each P m)"

definition visit_values :: "('k, 'v, 'r, 'l, 'm, 'q) map_params \<Rightarrow> ('v \<Rightarrow> 'c \<Rightarrow> 'c) \<Rightarrow> ('k, 'v) map_state \<Rightarrow> 'c \<Rightarrow> 'c" where
  "visit_values P f m = fold (\<lambda>pos. f (value_at m pos)) (for_each P m)"

definition visit_blobs :: "('k, 'v, 'r, 'l, 'm, 'q) map_params \<Rightarrow> (u8 list \<Rightarrow> 'c \<Rightarrow> 'c) \<Rightarrow> ('k, 'v) map_state \<Rightarrow> 'c \<Rightarrow> 'c" where
  "visit_blobs P f m = fold (\<lambda>pos. f (blob_at m pos)) (for_each P m)"

definition change_values :: "('k, 'v, 'r, 'l, 'm, 'q) map_params \<Rightarrow> ('v \<Rightarrow> 'v) \<Rightarrow> ('k, 'v) map_state \<Rightarrow> ('k, 'v) map_state" where
  "change_values P f m = fold (\<lambda>pos m. set_value_at pos (f (value_at m pos)) m) (for_each P m) m"

definition change_blobs :: "('k, 'v, 'r, 'l, 'm, 'q) map_params \<Rightarrow> (u8 list \<Rightarrow> u8 list) \<Rightarrow> ('k, 'v) map_state \<Rightarrow> ('k, 'v) map_state" where
  "change_blobs P f m = fold (\<lambda>pos m. set_blob_at pos (f (blob_at m pos)) m) (for_each P m) m"

definition change_entries ::
    "('k, 'v, 'r, 'l, 'm, 'q) map_params \<Rightarrow> ('k \<Rightarrow> 'v \<Rightarrow> u8 list \<Rightarrow> 'v \<times> u8 list) \<Rightarrow> ('k, 'v) map_state \<Rightarrow> ('k, 'v) map_state" where
  "change_entries P f m = fold (\<lambda>pos m.
     let (v, b) = f (key_at m pos) (value_at m pos) (blob_at m pos) in set_blob_at pos b (set_value_at pos v m)) (for_each P m) m"

section \<open>Swapping\<close>

text \<open>Each class exchanges the members it declares, after its base class has exchanged its own.\<close>

definition swap_raw :: "('k, 'v) map_state \<Rightarrow> ('k, 'v) map_state \<Rightarrow> ('k, 'v) map_state \<times> ('k, 'v) map_state" where
  "swap_raw l r =
     (l\<lparr>m_conf := m_conf r, m_bucket_mask := m_bucket_mask r, m_values := m_values r, m_blobs := m_blobs r\<rparr>,
      r\<lparr>m_conf := m_conf l, m_bucket_mask := m_bucket_mask l, m_values := m_values l, m_blobs := m_blobs l\<rparr>)"

definition swap_swiss :: "('k, 'v) map_state \<Rightarrow> ('k, 'v) map_state \<Rightarrow> ('k, 'v) map_state \<times> ('k, 'v) map_state" where
  "swap_swiss l r = (let (l, r) = swap_raw l r in (l\<lparr>m_keys := m_keys r\<rparr>, r\<lparr>m_keys := m_keys l\<rparr>))"

definition swap_maps :: "('k, 'v) map_state \<Rightarrow> ('k, 'v) map_state \<Rightarrow> ('k, 'v) map_state \<times> ('k, 'v) map_state" where
  "swap_maps l r = (let (l, r) = swap_swiss l r in
     (l\<lparr>m_grow_threshold := m_grow_threshold r, m_states := m_states r, m_num_empty := m_num_empty r, m_num_tombstone := m_num_tombstone r\<rparr>,
      r\<lparr>m_grow_threshold := m_grow_threshold l, m_states := m_states l, m_num_empty := m_num_empty l, m_num_tombstone := m_num_tombstone l\<rparr>))"

lemma swap_maps_exchanges: "swap_maps l r = (r, l)"
  by (cases l, cases r) (simp add: swap_maps_def swap_swiss_def swap_raw_def)

section \<open>What hints change\<close>

lemma with_hint_same [simp]: "with_hint lvl P key (prefetch_hint P key) f = f (pm_hash P key)"
  by (simp add: with_hint_def hint_to_hash_def prefetch_hint_def nvhm_assume_def)

lemma with_hint_other:
  assumes "hint \<noteq> prefetch_hint P key" and "Check_release \<le> lvl"
  shows "with_hint lvl P key hint f = Some (Inl Logic_error)"
  using assms by (auto simp: with_hint_def hint_to_hash_def prefetch_hint_def nvhm_assume_def)

lemma api_find_hint_with: "api_find_hint lvl P key hint m = with_hint lvl P key hint (\<lambda>h. map_option (\<lambda>(r, seq). Inr (raw_of r)) (find_first P key h m))"
  by (simp add: api_find_hint_def with_hint_def)

lemma api_insert_hint_with:
  "api_insert_hint lvl P key hint m = with_hint lvl P key hint (\<lambda>h. map_option (map_sum id (\<lambda>((pos, op, seq), m). ((int pos, op), m))) (insert_key P key h m))"
  by (simp add: api_insert_hint_def with_hint_def)

lemma validate_range_cases: "validate_range lvl P m pos = Inr pos \<or> validate_range lvl P m pos = Inl Logic_error"
  by (simp add: validate_range_def nvhm_assume_def)

lemma map_option_Inr: "map_option (\<lambda>(r, seq). Inr (f r seq)) x = map_option Inr (map_option (\<lambda>(r, seq). f r seq) x)"
  by (cases x) auto

context swiss_map
begin

section \<open>Prefetched addresses\<close>

lemma prefetch_in_range:
  assumes "map_inv P m" and "t \<in> set (prefetch_ranges P h m)"
  shows "touch_ok m t"
proof -
  obtain c where c: "shape_ok P c m" by (rule map_invD [OF assms(1)])
  obtain b where b: "b < length (m_states m) div ksize P" "probe_off P (m_bucket_mask m) h 0 = b * ksize P"
    by (rule probe_off_bucket [OF c])
  have o: "unat (align_pos (m_bucket_mask m) (pq_next (pm_seq P) (pq_init (pm_seq P) (hash_to_pos (pm_layout P) (kbits P) h)))) = b * ksize P"
    using b(2) by (simp add: probe_off_def seq_at_def)
  have "Suc b * ksize P \<le> length (m_states m) div ksize P * ksize P" using b(1) by (intro mult_right_mono) simp_all
  also have "\<dots> \<le> length (m_states m)" by simp
  finally have "b * ksize P + ksize P \<le> length (m_states m)" by simp
  moreover have "length (m_keys m) = length (m_states m)" using c by (simp add: shape_ok_def)
  ultimately show ?thesis using assms(2) by (auto simp: prefetch_ranges_def o Let_def split: if_splits)
qed

section \<open>Visits that write\<close>

definition changed where
  "changed g ps m m' \<longleftrightarrow> map_inv P m' \<and> occupied m' = occupied m \<and> m_conf m' = m_conf m
     \<and> (\<forall>q\<in>occupied m. entry_at m' q = (if q \<in> set ps then g (entry_at m q) else entry_at m q))"

lemma fold_changed:
  assumes "map_inv P m" and "distinct ps" and "set ps \<subseteq> occupied m"
    and step: "\<And>m p. map_inv P m \<Longrightarrow> p \<in> occupied m \<Longrightarrow> m_conf m = cf \<Longrightarrow> changed g [p] m (h p m)" and cf: "m_conf m = cf"
  shows "changed g ps m (fold h ps m)"
  using assms(1-3) cf
proof (induction ps arbitrary: m)
  case (Cons p ps)
  have s: "changed g [p] m (h p m)" using step Cons.prems by simp
  have "changed g ps (h p m) (fold h ps (h p m))"
    by (rule Cons.IH) (use Cons.prems s in \<open>simp_all add: changed_def\<close>)
  then show ?case using s Cons.prems(2) by (auto simp: changed_def)
qed (simp add: changed_def)

lemma changed_entries:
  assumes "map_inv P m" and "changed g (for_each P m) m m'"
  shows "map_inv P m'" and "entries m' = image_mset g (entries m)"
proof -
  show "map_inv P m'" using assms(2) by (simp add: changed_def)
  have o: "set (for_each P m) = occupied m" using for_each_ok(1) [OF assms(1)] .
  have "image_mset (entry_at m') (mset_set (occupied m)) = image_mset (g \<circ> entry_at m) (mset_set (occupied m))"
    using assms(2) by (intro image_mset_cong) (auto simp: changed_def o)
  then show "entries m' = image_mset g (entries m)"
    using assms(2) by (simp add: entries_def changed_def image_mset.compositionality)
qed

lemma change_values_ok:
  assumes "map_inv P m"
  shows "map_inv P (change_values P f m)" and "entries (change_values P f m) = image_mset (\<lambda>(k, v, b). (k, f v, b)) (entries m)"
proof -
  have "changed (\<lambda>(k, v, b). (k, f v, b)) (for_each P m) m (change_values P f m)"
    unfolding change_values_def
  proof (rule fold_changed [OF assms _ _ _ refl])
    show "distinct (for_each P m)" "set (for_each P m) \<subseteq> occupied m" using for_each_ok [OF assms] by simp_all
  next
    fix m p
    assume m: "map_inv P m" "p \<in> occupied m"
    have "m_conf (set_value_at p (f (value_at m p)) m) = m_conf m" by (simp add: set_value_at_def)
    then show "changed (\<lambda>(k, v, b). (k, f v, b)) [p] m (set_value_at p (f (value_at m p)) m)"
      using set_value_at_ok [OF m] by (simp add: changed_def entry_at_def)
  qed
  then show "map_inv P (change_values P f m)" and "entries (change_values P f m) = image_mset (\<lambda>(k, v, b). (k, f v, b)) (entries m)"
    using changed_entries [OF assms] by blast+
qed

lemma change_entries_ok:
  assumes "map_inv P m" and "\<And>k v b. nat (blob_size (m_conf m)) \<le> length (snd (f k v b))"
  shows "map_inv P (change_entries P f m)"
    and "entries (change_entries P f m)
      = image_mset (\<lambda>(k, v, b). let (v', b') = f k v b in (k, v', take (nat (blob_size (m_conf m))) b')) (entries m)"
proof -
  let ?z = "nat (blob_size (m_conf m))"
  let ?g = "\<lambda>(k, v, b). let (v', b') = f k v b in (k, v', take ?z b')"
  let ?h = "\<lambda>pos m. let (v, b) = f (key_at m pos) (value_at m pos) (blob_at m pos) in set_blob_at pos b (set_value_at pos v m)"
  have "changed ?g (for_each P m) m (change_entries P f m)"
    unfolding change_entries_def
  proof (rule fold_changed [OF assms(1) _ _ _ refl])
    show "distinct (for_each P m)" "set (for_each P m) \<subseteq> occupied m" using for_each_ok [OF assms(1)] by simp_all
  next
    fix m1 p
    assume m: "map_inv P m1" "p \<in> occupied m1" "m_conf m1 = m_conf m"
    obtain v b where f: "f (key_at m1 p) (value_at m1 p) (blob_at m1 p) = (v, b)" by fastforce
    note V = set_value_at_ok [OF m(1,2), of v]
    have c: "m_conf (set_value_at p v m1) = m_conf m" using m(3) by (simp add: set_value_at_def)
    have "?z \<le> length b" using assms(2) [of "key_at m1 p" "value_at m1 p" "blob_at m1 p"] f by simp
    note B = set_blob_at_ok [OF V(1), of p b, unfolded c V(2), OF m(2) this]
    have "m_conf (set_blob_at p b (set_value_at p v m1)) = m_conf m1" using c m(3) by (simp add: set_blob_at_def)
    moreover have "key_at (set_value_at p v m1) q = key_at m1 q" "value_at (set_value_at p v m1) p = v" for q
      using V(3) [of q] V(3) [of p] by (auto simp: entry_at_def split: if_splits)
    ultimately show "changed ?g [p] m1 (?h p m1)"
      using B V(2,3) f by (simp add: changed_def entry_at_def)
  qed
  then show "map_inv P (change_entries P f m)" "entries (change_entries P f m) = image_mset ?g (entries m)"
    using changed_entries [OF assms(1)] by blast+
qed

end

end
