(* ===== verification/CacheHints.thy ===== *)
theory CacheHints
  imports MapHints CacheQuery
begin

text \<open>What prefetching touches in a cache, and swapping caches.\<close>

text \<open>The states of a bucket and the stamps behind them are one range of the shared array.\<close>

definition cache_prefetch_ranges :: "('k, 'v, 'r, 'l, 'm, 'q) map_params \<Rightarrow> hash_t \<Rightarrow> ('k, 'v) cache_state \<Rightarrow> touch list" where
  "cache_prefetch_ranges P hash c = (
     let off = cache_off P (c_bucket_mask c) hash
     in Touch_states (off * 2) (ksize P * 2)
        # (if test_flags (pm_flags P) flag_aggressive_prefetch then [Touch_keys off (ksize P)] else []))"

fun cache_touch_ok :: "('k, 'v) cache_state \<Rightarrow> touch \<Rightarrow> bool" where
  "cache_touch_ok c (Touch_states off n) \<longleftrightarrow> off + n \<le> length (c_states_and_lrus c)"
| "cache_touch_ok c (Touch_keys off n) \<longleftrightarrow> off + n \<le> length (c_keys c)"

definition swap_cache_raw :: "('k, 'v) cache_state \<Rightarrow> ('k, 'v) cache_state \<Rightarrow> ('k, 'v) cache_state \<times> ('k, 'v) cache_state" where
  "swap_cache_raw l r =
     (l\<lparr>c_conf := c_conf r, c_bucket_mask := c_bucket_mask r, c_values := c_values r, c_blobs := c_blobs r\<rparr>,
      r\<lparr>c_conf := c_conf l, c_bucket_mask := c_bucket_mask l, c_values := c_values l, c_blobs := c_blobs l\<rparr>)"

definition swap_cache_swiss :: "('k, 'v) cache_state \<Rightarrow> ('k, 'v) cache_state \<Rightarrow> ('k, 'v) cache_state \<times> ('k, 'v) cache_state" where
  "swap_cache_swiss l r = (let (l, r) = swap_cache_raw l r in (l\<lparr>c_keys := c_keys r\<rparr>, r\<lparr>c_keys := c_keys l\<rparr>))"

definition swap_caches :: "('k, 'v) cache_state \<Rightarrow> ('k, 'v) cache_state \<Rightarrow> ('k, 'v) cache_state \<times> ('k, 'v) cache_state" where
  "swap_caches l r = (let (l, r) = swap_cache_swiss l r in
     (l\<lparr>c_states_and_lrus := c_states_and_lrus r, c_num_empty := c_num_empty r\<rparr>,
      r\<lparr>c_states_and_lrus := c_states_and_lrus l, c_num_empty := c_num_empty l\<rparr>))"

lemma swap_caches_exchanges: "swap_caches l r = (r, l)"
  by (cases l, cases r) (simp add: swap_caches_def swap_cache_swiss_def swap_cache_raw_def)

context swiss_cache
begin

lemma cache_prefetch_in_range:
  assumes "cache_inv P c" and "t \<in> set (cache_prefetch_ranges P h c)"
  shows "cache_touch_ok c t"
proof -
  obtain n where n: "cache_shape P n c" by (rule cache_invD [OF assms(1)])
  have k: "kbits P \<le> n" "n \<le> 62" and bm: "c_bucket_mask c = make_aligned_mask (2 ^ n) (2 ^ kbits P)"
    and l: "length (c_keys c) = 2 ^ n" "length (c_states_and_lrus c) = 2 ^ n * 2"
    using n by (simp_all add: cache_shape_def)
  let ?b = "unat (hash_to_pos (pm_layout P) (kbits P) h) div ksize P mod 2 ^ (n - kbits P)"
  have o: "cache_off P (c_bucket_mask c) h = ksize P * ?b" unfolding bm by (rule cache_off_mod [OF k])
  have "ksize P * ?b + ksize P = ksize P * Suc ?b" by simp
  also have "\<dots> \<le> ksize P * 2 ^ (n - kbits P)" by (intro mult_left_mono) (simp_all add: Suc_le_eq)
  also have "\<dots> = 2 ^ n" using k by (simp add: size_power flip: power_add)
  finally have "cache_off P (c_bucket_mask c) h + ksize P \<le> 2 ^ n" by (simp add: o)
  then show ?thesis using assms(2) l by (auto simp: cache_prefetch_ranges_def Let_def split: if_splits)
qed

end

end
