(* ===== verification/HintProps.thy ===== *)
theory HintProps
  imports CacheHints CacheProps
begin

text \<open>The properties of the calls with a hint, of prefetching, and of the visits that write.\<close>

lemmas hint_call_defs = api_find_hint_with api_contains_hint_def api_find_first_hint_def api_find_next_hint_def api_update_hint_def
  api_update_first_hint_def api_update_next_hint_def api_insert_hint_with api_insert_ex_hint_def api_erase_hint_def
  api_erase_first_hint_def api_erase_next_hint_def

text \<open>With a hint other than the one prefetching the key returns, when checks are on, each call that takes a
  hint throws a \<open>logic_error\<close> and does nothing.\<close>

lemma wrong_hint_throws:
  assumes "hint \<noteq> fst (api_prefetch P key m)" and "Check_release \<le> lvl"
  shows "api_find_hint lvl P key hint m = Some (Inl Logic_error)
    \<and> api_contains_hint lvl P key hint m = Some (Inl Logic_error)
    \<and> api_find_first_hint lvl P key hint m = Some (Inl Logic_error)
    \<and> api_find_next_hint lvl P pos seq key hint m = Some (Inl Logic_error)
    \<and> api_update_hint lvl P key hint m = Some (Inl Logic_error)
    \<and> api_update_first_hint lvl P key hint m = Some (Inl Logic_error)
    \<and> api_update_next_hint lvl P pos seq key hint m = Some (Inl Logic_error)
    \<and> api_insert_hint lvl P key hint m = Some (Inl Logic_error)
    \<and> api_insert_ex_hint lvl P key hint m = Some (Inl Logic_error)
    \<and> api_erase_hint lvl P key hint m = Some (Inl Logic_error)
    \<and> api_erase_first_hint lvl P key hint m = Some (Inl Logic_error)
    \<and> api_erase_next_hint lvl P pos seq key hint m = Some (Inl Logic_error)
    \<and> api_prefetch_hint lvl P key hint m = Inl Logic_error"
proof -
  have h: "hint \<noteq> prefetch_hint P key" using assms(1) by (simp add: api_prefetch_def Let_def)
  have "hint_to_hash lvl P key hint = Inl Logic_error"
    using h assms(2) by (auto simp: hint_to_hash_def prefetch_hint_def nvhm_assume_def)
  then show ?thesis using validate_range_cases [of lvl P m pos]
    by (auto simp: hint_call_defs with_hint_other [OF h assms(2)] api_prefetch_hint_def split: sum.splits)
qed

text \<open>C30: Maps and caches prefetch only slots they have: for any key, whatever its hash, the states, stamps and
  keys touched lie inside the arrays, and the hint is the hash of the key.\<close>

theorem prefetch_stays_inside:
  assumes "map_inv (portable_map fp P) m" and "cache_inv (portable_map fp P) c"
  shows "fst (api_prefetch (portable_map fp P) key m) = pm_hash (portable_map fp P) key
    \<and> (\<forall>t \<in> set (snd (api_prefetch (portable_map fp P) key m)). touch_ok m t)
    \<and> (\<forall>t \<in> set (cache_prefetch_ranges (portable_map fp P) (pm_hash (portable_map fp P) key) c). cache_touch_ok c t)"
  using portable.prefetch_in_range [OF assms(1)] portable_cache.cache_prefetch_in_range [OF assms(2)]
  by (simp add: api_prefetch_def prefetch_hint_def Let_def)

theorem prefetch_stays_inside_witness:
  "list_all (touch_ok demo_one) (snd (api_prefetch demo 5 demo_one)) \<and> snd (api_prefetch demo 5 demo_one) \<noteq> []
   \<and> list_all (cache_touch_ok demo_cached) (cache_prefetch_ranges demo (pm_hash demo 5) demo_cached)"
proof (intro conjI)
  note I = prefetch_stays_inside [OF demo_one_inv demo_cached_inv, of 5]
  show "list_all (touch_ok demo_one) (snd (api_prefetch demo 5 demo_one))"
    and "list_all (cache_touch_ok demo_cached) (cache_prefetch_ranges demo (pm_hash demo 5) demo_cached)"
    using I unfolding list_all_iff by blast+
  show "snd (api_prefetch demo 5 demo_one) \<noteq> []"
    by (simp add: api_prefetch_def prefetch_ranges_def Let_def)
qed

text \<open>C28: A visit of all entries whose callback writes the value and the blob it is given turns the contents
  into what the callback makes of them, every entry once; keys stay and the map stays well-formed.\<close>

theorem change_entries_correct:
  assumes "map_inv (portable_map fp P) m" and "\<And>k v b. nat (blob_size (m_conf m)) \<le> length (snd (f k v b))"
  shows "map_inv (portable_map fp P) (change_entries (portable_map fp P) f m)
    \<and> entries (change_entries (portable_map fp P) f m)
      = image_mset (\<lambda>(k, v, b). let (v', b') = f k v b in (k, v', take (nat (blob_size (m_conf m))) b')) (entries m)"
  using portable.change_entries_ok [OF assms(1), of f] assms(2) by blast

theorem change_entries_witness:
  "image_mset fst (entries (change_entries demo (\<lambda>k v b. (v + 1, replicate (nat (blob_size (m_conf demo_one))) 3)) demo_one)) = {#5#}
   \<and> image_mset (fst \<circ> snd) (entries (change_entries demo (\<lambda>k v b. (v + 1, replicate (nat (blob_size (m_conf demo_one))) 3)) demo_one)) = {#8#}"
proof -
  obtain b where b: "entries demo_one = {#(5, 7, b)#}" using demo_one_entries by blast
  show ?thesis
    using change_entries_correct [OF demo_one_inv, of "\<lambda>k v b. (v + 1, replicate (nat (blob_size (m_conf demo_one))) 3)"]
    by (simp add: b)
qed

end
