(* ===== verification/Spec2Isabelle.thy ===== *)
theory Spec2Isabelle
  imports BitOps Hash ProbeSeq ArrayKernel UintKernel Conf MapProps MapSingle CacheProps MutexProps Locks Prefetch GuardedProps ShimRange SimdMap MemoryProps HintProps
begin

text \<open>
  A verification development for nvHashMap, a header-only C++ library of open-addressing hash
  tables with bucket-parallel probing. All source names are below \<open>src/include/nvhashmap/\<close>.

  \<^bold>\<open>The program.\<close> A table is an array of slots, grouped into buckets of \<open>kernel_size\<close> slots. A byte
  per slot tells whether it is empty, a tombstone, or holds a key, and then which seven bits the
  key's hash has (\<open>common.hpp\<close>, \<open>hash.hpp\<close>). A kernel loads the bytes of one bucket into a register
  and answers questions about all its slots with a mask (\<open>kernel.hpp\<close>, \<open>mask.hpp\<close>, over the bit routines
  of \<open>stdlib_ext.hpp\<close>). The map (\<open>map.hpp\<close>) looks for a key in the buckets a probe sequence gives
  (\<open>probe_seq.hpp\<close>) until one has an empty slot; it grows, shrinks and scrubs as its configuration
  tells (\<open>conf.hpp\<close>). The cache (\<open>cache.hpp\<close>) keeps a key in one bucket only and replaces the entry with
  the least LRU stamp when that bucket is full. Both inherit the interface of \<open>raw_map_base.hpp\<close>,
  \<open>swiss_map_base.hpp\<close> and \<open>container.hpp\<close>. Wrappers take any container: \<open>sharded\<close> splits the keys over
  several, \<open>guarded\<close> adds a reader-writer lock (\<open>mutex.hpp\<close>), \<open>std_map_shim\<close> gives the interface of the
  standard library. A prefetch queue (\<open>prefetch.hpp\<close>) keeps a number of lookups in flight.

  \<^bold>\<open>The theories\<close>, in the order they build on each other, and what their lemmas show.

  \<^item> \<open>Prelude\<close>, \<open>Bytes\<close>: named collections of rewrite rules; words as vectors of bytes, bits and lists.
  \<^item> \<open>Bits\<close>, \<open>BitOps\<close> (\<open>stdlib_ext.hpp\<close>): the bit routines with and without compiler built-ins are equal
    to what they stand for, on words of every width.
  \<^item> \<open>Common\<close> (\<open>common.hpp\<close>), \<open>Hash\<close> (\<open>hash.hpp\<close>), \<open>Conf\<close>, \<open>ConfProps\<close> (\<open>conf.hpp\<close>): masks, positions, flags, states
    and stamps; the split of a hash into position, state and shard; the setters and their errors, and that
    a chain of setters followed by \<open>auto_adjust\<close> gives what the constructors accept.
  \<^item> \<open>ProbeSeq\<close> (\<open>probe_seq.hpp\<close>): the four sequences; locale \<open>probe_laws\<close>, interpreted on each: every
    bucket is visited exactly once before the sequence repeats.
  \<^item> \<open>Mask\<close> (\<open>mask.hpp\<close>): locale \<open>mask_laws\<close>, a mask as a set of slots, interpreted on the mask of
    booleans and the word mask. \<open>Kernel\<close> (\<open>kernel.hpp\<close>): the locales \<open>swiss_kernel\<close> and \<open>swiss_lru_kernel\<close>,
    interpreted on the loops of \<open>ArrayKernel\<close> and the word-parallel routines of \<open>UintKernel\<close>, which is also
    proved to agree with the array kernel.
  \<^item> \<open>VectorKernel\<close>: what a kernel on vector registers has to show; \<open>KernelAgreement\<close>: that its operations then do
    what those of the array kernel do, mask for mask (\<open>same_kernel\<close>). \<open>Simd\<close> and \<open>Neon\<close> have the vendor intrinsics of x86 and ARM as
    records of parameters, and their documented behaviour as locales; \<open>SimdReference\<close> and \<open>NeonReference\<close>
    interpret these on words. \<open>SseKernel\<close>, \<open>AvxKernel\<close> (\<open>avx_kernel\<close>, \<open>avx512_kernel\<close>), \<open>NeonKernel\<close> (8 and 16
    slots), \<open>NeonWide\<close> with \<open>Neon32\<close> and \<open>Neon64\<close> are the kernels, in all variants the build can select.
  \<^item> \<open>MapState\<close>, \<open>MapOps\<close>, \<open>MapUpdate\<close> (\<open>map.hpp\<close>): the state of the map and its operations. \<open>MapInv\<close>: the
    invariant and the locale \<open>swiss_map\<close>, any map over a lawful kernel and probe sequence. In it \<open>MapFind\<close>,
    \<open>MapSlots\<close>, \<open>MapInsert\<close>, \<open>MapErase\<close>, \<open>MapResize\<close>, \<open>MapScrub\<close>, \<open>MapReclaim\<close>, \<open>MapScrubbed\<close>,
    \<open>MapQuery\<close>, \<open>MapCapacity\<close> prove of each operation that it returns, keeps the invariant, and what it
    does to the bag of entries.
  \<^item> \<open>MapApi\<close>, \<open>MapClient\<close>: the interface with its checks. \<open>MapModels\<close> interprets \<open>swiss_map\<close> on the maps the
    library builds without vector instructions; \<open>MapSpec\<close>, \<open>MapProps\<close>: the abstract specification, a
    bag of entries, and that every call and every run of calls refines it. \<open>MapDemo\<close> has concrete maps,
    \<open>MapSingle\<close> a reachable state in which scrubbing loses an entry. \<open>SimdMap\<close>: the agreement of every vector
    kernel with the array kernel, the maps and caches on them, and the choice of the default kernel.
  \<^item> \<open>Cache\<close> (\<open>cache.hpp\<close>), and \<open>CacheInv\<close>, \<open>CacheOps\<close>, \<open>CacheErase\<close>, \<open>CacheGrow\<close>, \<open>CacheResize\<close>, \<open>CacheQuery\<close>,
    \<open>CacheSpec\<close>, \<open>CacheProps\<close>: the same for the cache, whose specification allows one reported eviction, and
    losses by scrubbing and by resizing to a smaller capacity.
  \<^item> \<open>Mutex\<close>, \<open>MutexProps\<close> (\<open>mutex.hpp\<close>): the lock as atomic actions of interleaved threads; exclusion, and
    that no wake-up is lost. \<open>Locks\<close>: the lock refines a counter; the conversions of lock objects.
  \<^item> \<open>Container\<close>: the members the wrappers use as a record of operations over any state, and the
    locale \<open>container_laws\<close>, the contract of a bag of entries. \<open>MapContainer\<close>: the map meets it.
  \<^item> \<open>Sharded\<close> (\<open>sharded.hpp\<close>), \<open>ShardedLaws\<close>, \<open>ShardedSpec\<close>, \<open>ShardedProps\<close>: shards of any lawful container
    are a lawful container, whose bag is the union of theirs.
  \<^item> \<open>Guarded\<close> (\<open>guarded.hpp\<close>): every member with the locks it takes and keeps. \<open>GuardedRun\<close>: locale
    \<open>guarded_laws\<close>; runs of threads whose calls overlap as the lock allows are sequential runs.
    \<open>GuardedProps\<close>: locale \<open>guarded_container\<close>, interpreted on the map and on sharded maps.
  \<^item> \<open>Shim\<close> (\<open>std_map_shim.hpp\<close>), \<open>ShimProps\<close>, \<open>ShimRange\<close>: the interface of the standard map, that it
    behaves as a partial function from keys to values, the iterators it returns included, and how erasing
    a range fails.
  \<^item> \<open>Prefetch\<close> (\<open>prefetch.hpp\<close> and the loop of \<open>tools/map_benchmark.cpp\<close>): locale \<open>fifo_queue\<close>, interpreted
    on both queues; the loop looks up every key once and in order, unless an assertion of the ring stops it.
  \<^item> \<open>MapHints\<close>, \<open>CacheHints\<close> (\<open>raw_map_base.hpp\<close>, \<open>swiss_map_base.hpp\<close>, \<open>map.hpp\<close>, \<open>cache.hpp\<close>): the calls that take
    the hint of a prefetch, what a prefetch touches, the visits with a callback, swapping. \<open>HintProps\<close>: a
    call with a wrong hint throws, a prefetch stays inside the arrays, a visit that writes changes exactly
    the entries it is told to.
  \<^item> \<open>Memory\<close> (\<open>allocator.hpp\<close>, \<open>memory.hpp\<close>): the size and alignment of a request, both allocators with
    their deleters over the memory services of the system, owning pointers, the arrays of a map, and the
    prefetch instructions. \<open>MemoryLaws\<close>: locale \<open>os_memory\<close> is the documented behaviour of the services,
    locale \<open>allocator_laws\<close> the contract of an allocator, given to both by sublocales of \<open>allocating\<close>.
    \<open>MemoryResize\<close>: what the passes of a resize do to the arrays, with the model of the map deciding which pass
    fits. \<open>MemoryProps\<close> interprets \<open>allocating\<close> on a reference system: making the arrays of a map owns them all
    or gives back every region; a resize gives back the old arrays also when it throws, and loses the entries.

  \<^bold>\<open>Conventions.\<close> A class template is a record of parameters, an object a record of its members, a
  throwing function returns the exception on the left of a sum. A loop whose end depends on the state of
  the table (probing, the retry of an insertion, resizing, scrubbing) is a \<open>partial_function (option)\<close>,
  where not returning is \<open>None\<close>; that it returns is part of every theorem about it. A walk over a mask
  stops after as many steps as the mask has slots, which \<open>mask_laws\<close> shows is enough. The loop of a range
  erasure takes fuel; the property about it gives a run that ends. Machine words keep their width;
  \<open>int_t\<close> values are integers, and the laws that grow a table ask for a capacity of at most \<open>2 ^ 61\<close>,
  below which no computation on sizes leaves the type. Release builds are modelled: assertions and
  logging do nothing, except that a failed assertion of a prefetch queue ends the program when the check
  level has assertions; the checks of \<open>NVHM_ASSUME\<close> follow the check level, which is a parameter.
  Hash functions, the contents of fresh memory and the code of inner containers are parameters. The
  operations of maps and caches take their allocations to succeed; what a refused one does to the arrays
  is the subject of \<open>MemoryProps\<close>.

  \<^bold>\<open>Not modelled.\<close>
  \<^item> The SVE kernel and its mask: its empty and tombstone states have other values than those of all other
    kernels, on which the model of the map is built.
  \<^item> Rendering to streams, the text of log messages, floating-point load factors, implicit moves.
  \<^item> In the sharded and guarded wrappers, the variants with a hint of the members that return a probe
    sequence; there contains, find, insert and erase have theirs.
  \<^item> The control block of shared pointers; an element constructor that throws is a \<open>runtime_error\<close>.
  \<^item> The order of memory accesses outside the integer of the mutex, and the length of its back-off.
  \<^item> The programs under \<open>tools/\<close> and the tests.
\<close>

end
